(* ===== verification/Bytes.thy ===== *)
theory Bytes
  imports Main "HOL-Library.Word" "HOL-Library.Sublist"
begin

text \<open>
  Prelude of the development: the machine types the C code uses, big-endian numbers as
  natural numbers, and the notion of a reader, an operation that consumes bytes from the
  front of a byte string.

  A \<^typ>\<open>'a list\<close> of 8-bit words stands for the bytes that a pointer and a length give the
  code access to. A \<open>size_t\<close> is a \<^typ>\<open>nat\<close> with the wrap-around at 2 to the 64 written
  out where the code relies on it; the fixed-width integer types are words.

  The locale \<open>self_delimiting\<close> is the contract between the readers of the CBS theories and
  their clients: a successful read takes a prefix of the input, and the value it gives
  depends on that prefix only. The locale \<open>codec\<close> extends it by a writer that the reader
  inverts. Both are interpreted on the code's own readers and writers in the theories of the
  components that provide them.
\<close>

unbundle bit_operations_syntax

type_synonym u8 = "8 word"
type_synonym u16 = "16 word"
type_synonym u32 = "32 word"
type_synonym u64 = "64 word"

named_theorems byte_simps
named_theorems reader_intros

abbreviation size_mod :: nat where
  "size_mod \<equiv> 18446744073709551616"

abbreviation INT_MAX :: int where
  "INT_MAX \<equiv> 2147483647"

abbreviation INT_MIN :: int where
  "INT_MIN \<equiv> - 2147483648"

section \<open>Words\<close>

lemma push_or_eq_plus:
  fixes r w :: "'a::len word"
  assumes "take_bit n w = w"
  shows "push_bit n r OR w = push_bit n r + w"
proof -
  have "push_bit n r AND w = push_bit n r AND take_bit n w"
    using assms by simp
  also have "\<dots> = 0"
    by (rule bit_eqI) (auto simp: bit_simps)
  finally show ?thesis
    by (simp add: disjunctive_add_eq_or)
qed

lemma take_bit_ucast_byte: "8 \<le> n \<Longrightarrow> take_bit n (ucast (b :: u8)) = (ucast b :: 'a::len word)"
  by (rule bit_eqI) (auto simp: bit_simps dest: bit_imp_le_length)

lemma push_or_byte:
  "push_bit 8 r OR ucast (b :: u8) = (r * 256 + ucast b :: 'a::len word)"
  using push_or_eq_plus [of 8 "ucast b :: 'a word" r]
  by (simp add: take_bit_ucast_byte push_bit_eq_mult mult.commute)

lemma unat_byte_lt: "unat (b :: u8) < 256"
  by (rule order.strict_trans2 [OF unsigned_less]) simp

lemma unat_ucast_byte:
  assumes "8 \<le> LENGTH('a)"
  shows "unat (ucast (b :: u8) :: 'a::len word) = unat b"
proof -
  have "(256::nat) \<le> 2 ^ LENGTH('a)"
    using power_increasing [OF assms, of "2::nat"] by simp
  with unat_byte_lt [of b] have "unat b < 2 ^ LENGTH('a)"
    by (rule order.strict_trans2)
  then show ?thesis
    by (simp add: unsigned_ucast_eq take_bit_nat_eq_self_iff)
qed

lemma byte_digit_unique:
  fixes a b x y :: nat
  assumes "256 * a + x = 256 * b + y" and "x < 256" and "y < 256"
  shows "a = b \<and> x = y"
proof -
  have "(256 * a + x) div 256 = a" "(256 * b + y) div 256 = b"
    using assms(2,3) by simp_all
  with assms(1) show ?thesis
    by simp
qed

lemma xor_eq_0_iff: "a XOR b = 0 \<longleftrightarrow> a = b" for a b :: "'a::len word"
proof
  assume *: "a XOR b = 0"
  have "b = (a XOR a) XOR b" by simp
  also have "\<dots> = a XOR (a XOR b)" by (simp only: xor.assoc)
  finally show "a = b" using * by simp
qed simp

lemma word_of_nat_unat: "word_of_nat (unat w) = (ucast w :: 'b::len word)" for w :: "'a::len word"
  by (simp add: unsigned_ucast_eq word_unat_eq_iff unsigned_of_nat)

lemma unat_ucast_down: "unat v < 2 ^ LENGTH('b) \<Longrightarrow> unat (ucast v :: 'b::len word) = unat v"
  for v :: "'a::len word"
  by (simp add: unsigned_ucast_eq take_bit_nat_eq_self_iff)

lemma unat_ucast_up: "LENGTH('a) \<le> LENGTH('b) \<Longrightarrow> unat (ucast v :: 'b::len word) = unat v"
  for v :: "'a::len word"
  by (rule unat_ucast_down) (meson unsigned_less order_less_le_trans one_le_numeral power_increasing)

lemma unat_drop_bit: "unat (drop_bit n w) = unat w div 2 ^ n"
  by (subst unat_drop_bit_eq) (rule drop_bit_eq_div)

lemma word_of_nat_eqI: "unat w = n \<Longrightarrow> w = word_of_nat n"
  by (metis word_of_nat_unat ucast_id)

lemma drop_bit_eq_0_iff: "drop_bit n w = 0 \<longleftrightarrow> unat w < 2 ^ n" for w :: "'a::len word"
  by (simp only: word_unat_eq_iff unat_drop_bit unsigned_0) (simp add: div_eq_0_iff)

lemma unat_push_bit: "unat (push_bit n w) = unat w * 2 ^ n mod 2 ^ LENGTH('a)" for w :: "'a::len word"
  by (simp only: unsigned_push_bit_eq) (simp add: push_bit_nat_def take_bit_eq_mod)

lemma top_and_iff:
  fixes c :: "'a::len word"
  assumes "unat k * 2 ^ n < 2 ^ LENGTH('a)"
  shows "c AND NOT (mask n) = push_bit n k \<longleftrightarrow> unat c div 2 ^ n = unat k"
proof -
  have "c AND NOT (mask n) = push_bit n (drop_bit n c)"
    by (rule bit_eqI) (auto simp: bit_simps not_le dest: bit_imp_le_length)
  moreover have "unat (push_bit n k) = unat k * 2 ^ n"
    using assms by (simp add: unat_push_bit)
  moreover have "unat (push_bit n (drop_bit n c)) = unat c div 2 ^ n * 2 ^ n"
    using order_le_less_trans [OF div_times_less_eq_dividend unsigned_less, of c "2 ^ n"]
    by (simp add: unat_push_bit unat_drop_bit)
  ultimately show ?thesis
    by (simp add: word_unat_eq_iff)
qed

lemma unat_take_bit: "unat (take_bit n w) = unat w mod 2 ^ n" for w :: "'a::len word"
  by (simp only: unsigned_take_bit_eq) (simp add: take_bit_eq_mod)

lemma push_or_arith:
  fixes r w :: "'a::len word"
  assumes "unat w < 2 ^ n" and "unat r * 2 ^ n + unat w < 2 ^ LENGTH('a)"
  shows "unat (push_bit n r OR w) = unat r * 2 ^ n + unat w"
proof -
  have "take_bit n w = w"
    using assms(1) by (simp add: word_unat_eq_iff unat_take_bit)
  then show ?thesis
    using assms by (simp add: push_or_eq_plus) (simp add: unat_word_ariths unat_push_bit)
qed

section \<open>Big-endian numbers\<close>

definition be_nat :: "u8 list \<Rightarrow> nat" where
  "be_nat bs = foldl (\<lambda>n b. 256 * n + unat b) 0 bs"

lemma be_nat_Nil [simp]: "be_nat [] = 0"
  by (simp add: be_nat_def)

lemma be_nat_snoc [simp]: "be_nat (bs @ [b]) = 256 * be_nat bs + unat b"
  by (simp add: be_nat_def)

lemma be_nat_append: "be_nat (xs @ ys) = be_nat xs * 256 ^ length ys + be_nat ys"
proof (induction ys rule: rev_induct)
  case Nil
  then show ?case by simp
next
  case (snoc y ys)
  then show ?case
    by (simp add: append_assoc [symmetric] algebra_simps del: append_assoc)
qed

lemma be_nat_Cons: "be_nat (x # xs) = unat x * 256 ^ length xs + be_nat xs"
  using be_nat_append [of "[x]" xs] by (simp add: be_nat_def)

lemma be_nat_less: "be_nat bs < 256 ^ length bs"
proof (induction bs rule: rev_induct)
  case Nil
  then show ?case by simp
next
  case (snoc b bs)
  then show ?case
    using unat_byte_lt [of b] by simp
qed

lemma be_nat_inject:
  "length xs = length ys \<Longrightarrow> be_nat xs = be_nat ys \<Longrightarrow> xs = ys"
proof (induction xs arbitrary: ys rule: rev_induct)
  case Nil
  then show ?case by simp
next
  case (snoc x xs)
  then obtain y ys' where ys: "ys = ys' @ [y]"
    by (cases ys rule: rev_cases) auto
  with snoc.prems have eq: "256 * be_nat xs + unat x = 256 * be_nat ys' + unat y"
    by simp
  then have "be_nat xs = be_nat ys' \<and> unat x = unat y"
    by (rule byte_digit_unique) (rule unat_byte_lt)+
  with snoc ys show ?case
    by (simp add: word_unat_eq_iff)
qed

text \<open>The bytes of a number, most significant first, in a field of \<open>n\<close> bytes.\<close>

fun be_bytes :: "nat \<Rightarrow> nat \<Rightarrow> u8 list" where
  "be_bytes 0 v = []"
| "be_bytes (Suc n) v = be_bytes n (v div 256) @ [word_of_nat v]"

lemma length_be_bytes [simp]: "length (be_bytes n v) = n"
  by (induction n arbitrary: v) auto

lemma unat_word_of_nat_byte: "unat (word_of_nat v :: u8) = v mod 256"
  by (simp add: unsigned_of_nat take_bit_eq_mod)

lemma be_nat_be_bytes: "be_nat (be_bytes n v) = v mod 256 ^ n"
proof (induction n arbitrary: v)
  case 0
  then show ?case by simp
next
  case (Suc n)
  have "v mod (256 * 256 ^ n) = 256 * (v div 256 mod 256 ^ n) + v mod 256"
    by (simp add: mod_mult2_eq)
  then show ?case
    by (simp add: Suc unat_word_of_nat_byte)
qed

lemma be_bytes_be_nat: "be_bytes (length bs) (be_nat bs) = bs"
  by (rule be_nat_inject) (simp_all add: be_nat_be_bytes be_nat_less)

lemma be_bytes_mod: "be_bytes n (v mod 256 ^ n) = be_bytes n v"
  by (rule be_nat_inject) (simp_all add: be_nat_be_bytes)

lemma be_bytes_add: "be_bytes (m + n) v = be_bytes m (v div 256 ^ n) @ be_bytes n v"
  by (induction n arbitrary: v) (simp_all add: div_mult2_eq)

section \<open>Byte arrays\<close>

text \<open>The \<open>n\<close> bytes at index \<open>i\<close>, and the array with \<open>xs\<close> stored there.\<close>

definition load :: "nat \<Rightarrow> nat \<Rightarrow> u8 list \<Rightarrow> u8 list" where
  "load i n b = take n (drop i b)"

definition store :: "nat \<Rightarrow> u8 list \<Rightarrow> u8 list \<Rightarrow> u8 list" where
  "store i xs b = take i b @ xs @ drop (i + length xs) b"

lemma length_store: "i + length xs \<le> length b \<Longrightarrow> length (store i xs b) = length b"
  by (simp add: store_def)

lemma length_load: "i + n \<le> length b \<Longrightarrow> length (load i n b) = n"
  by (simp add: load_def)

lemma nth_store:
  "i + length xs \<le> length b \<Longrightarrow> k < length b \<Longrightarrow> store i xs b ! k = (if i \<le> k \<and> k < i + length xs then xs ! (k - i) else b ! k)"
  by (auto simp: store_def nth_append min_def)

lemma nth_load: "i + n \<le> length b \<Longrightarrow> k < n \<Longrightarrow> load i n b ! k = b ! (i + k)"
  by (simp add: load_def)

lemma load_0 [simp]: "load i 0 b = []"
  by (simp add: load_def)

lemma load_store: "i + length xs \<le> length b \<Longrightarrow> load i (length xs) (store i xs b) = xs"
  by (simp add: load_def store_def)

lemma load_store_other:
  assumes "i + length xs \<le> length b" and "j + n \<le> length b" and "j + n \<le> i \<or> i + length xs \<le> j"
  shows "load j n (store i xs b) = load j n b"
  by (rule nth_equalityI) (use assms in \<open>auto simp: length_load length_store nth_load nth_store\<close>)

lemma store_store:
  "i + length xs + length ys \<le> length b \<Longrightarrow> store (i + length xs) ys (store i xs b) = store i (xs @ ys) b"
  by (rule nth_equalityI) (auto simp: length_store nth_store nth_append)

lemma load_add: "i + m + n \<le> length b \<Longrightarrow> load i (m + n) b = load i m b @ load (i + m) n b"
  by (simp add: load_def take_add drop_drop add.commute)

lemma take_load: "m \<le> n \<Longrightarrow> take m (load i n b) = load i m b"
  by (simp add: load_def min_def)

lemma drop_load: "m \<le> n \<Longrightarrow> drop m (load i n b) = load (i + m) (n - m) b"
  by (simp add: load_def drop_take add.commute)

end
