(* ===== verification/Reader.thy ===== *)
theory Reader
  imports Bytes
begin

text \<open>
  Readers and the two contracts they are used under.

  A reader takes a byte string and gives a value, or \<^const>\<open>None\<close> where the C function
  returns zero, together with the bytes that are left. The bytes left are given in the failing
  case as well, because several readers of the code have advanced the caller's CBS before they
  find the error.

  \<^item> \<open>self_delimiting\<close>: what a successful read gives depends only on the bytes it consumed.
  \<^item> \<open>codec\<close>: a writer and a reader where reading what was written gives the value back and
    leaves the rest of the input untouched.
  \<^item> \<open>canonical_codec\<close>: the reader accepts nothing but what the writer writes, so that every
    value has one encoding only. It is an instance of \<open>self_delimiting\<close>.
\<close>

type_synonym 'a reader = "u8 list \<Rightarrow> 'a option \<times> u8 list"

definition ret_r :: "'a \<Rightarrow> 'a reader" where
  "ret_r a s = (Some a, s)"

definition fail_r :: "'a reader" where
  "fail_r s = (None, s)"

definition bind_r :: "'a reader \<Rightarrow> ('a \<Rightarrow> 'b reader) \<Rightarrow> 'b reader" where
  "bind_r p f s = (case p s of (None, s') \<Rightarrow> (None, s') | (Some a, s') \<Rightarrow> f a s')"

lemma ret_r_apply [simp]: "ret_r a s = (Some a, s)"
  by (simp add: ret_r_def)

lemma fail_r_apply [simp]: "fail_r s = (None, s)"
  by (simp add: fail_r_def)

lemma bind_r_Some [simp]: "p s = (Some a, s') \<Longrightarrow> bind_r p f s = f a s'"
  by (simp add: bind_r_def)

lemma bind_r_None [simp]: "p s = (None, s') \<Longrightarrow> bind_r p f s = (None, s')"
  by (simp add: bind_r_def)

lemma bind_r_eq_Some:
  "bind_r p f s = (Some b, t) \<longleftrightarrow> (\<exists>a s'. p s = (Some a, s') \<and> f a s' = (Some b, t))"
  by (auto simp: bind_r_def split: prod.splits option.splits)

section \<open>Self-delimiting readers\<close>

locale self_delimiting =
  fixes p :: "'a reader"
  assumes delimited: "p s = (Some a, s') \<Longrightarrow> \<exists>c. s = c @ s' \<and> (\<forall>t. p (c @ t) = (Some a, t))"
begin

lemma consumes_prefix: "p s = (Some a, s') \<Longrightarrow> suffix s' s"
  using delimited by (fastforce simp: suffix_def)

lemma rest_not_longer: "p s = (Some a, s') \<Longrightarrow> length s' \<le> length s"
  by (blast dest: consumes_prefix suffix_length_le)

lemma extend: "p s = (Some a, s') \<Longrightarrow> p (s @ t) = (Some a, s' @ t)"
  using delimited by fastforce

end

lemma self_delimiting_ret [reader_intros]: "self_delimiting (ret_r a)"
  by unfold_locales auto

lemma self_delimiting_fail [reader_intros]: "self_delimiting fail_r"
  by unfold_locales auto

lemma self_delimiting_bind [reader_intros]:
  assumes p: "self_delimiting p" and f: "\<And>a. self_delimiting (f a)"
  shows "self_delimiting (bind_r p f)"
proof
  fix s b u
  assume "bind_r p f s = (Some b, u)"
  then obtain a s' where pa: "p s = (Some a, s')" and fb: "f a s' = (Some b, u)"
    by (auto simp: bind_r_eq_Some)
  from self_delimiting.delimited [OF p pa] obtain c
    where c: "s = c @ s'" "\<And>t. p (c @ t) = (Some a, t)" by blast
  from self_delimiting.delimited [OF f fb] obtain d
    where d: "s' = d @ u" "\<And>t. f a (d @ t) = (Some b, t)" by blast
  have "bind_r p f (c @ d @ t) = (Some b, t)" for t
    by (simp add: c(2) d(2))
  with c(1) d(1) show "\<exists>c. s = c @ u \<and> (\<forall>t. bind_r p f (c @ t) = (Some b, t))"
    by (intro exI [of _ "c @ d"]) simp
qed

lemma self_delimiting_if [reader_intros]:
  "self_delimiting p \<Longrightarrow> self_delimiting q \<Longrightarrow> self_delimiting (if b then p else q)"
  by simp

lemma self_delimiting_Let [reader_intros]:
  "(\<And>x. self_delimiting (f x)) \<Longrightarrow> self_delimiting (let x = a in f x)"
  by simp

section \<open>Codecs\<close>

locale codec =
  fixes dec :: "'a reader" and enc :: "'a \<Rightarrow> u8 list" and valid :: "'a \<Rightarrow> bool"
  assumes dec_enc: "valid v \<Longrightarrow> dec (enc v @ t) = (Some v, t)"
begin

lemma dec_enc_nil: "valid v \<Longrightarrow> dec (enc v) = (Some v, [])"
  using dec_enc [of v "[]"] by simp

lemma enc_prefix_free:
  "valid v \<Longrightarrow> valid w \<Longrightarrow> enc v @ t = enc w @ u \<Longrightarrow> v = w \<and> t = u"
  by (metis dec_enc option.inject prod.inject)

lemma enc_inject: "valid v \<Longrightarrow> valid w \<Longrightarrow> enc v = enc w \<Longrightarrow> v = w"
  using enc_prefix_free [of v w "[]" "[]"] by simp

end

locale canonical_codec = codec +
  assumes dec_only: "dec s = (Some v, s') \<Longrightarrow> valid v \<and> s = enc v @ s'"
begin

lemma dec_iff: "dec s = (Some v, s') \<longleftrightarrow> valid v \<and> s = enc v @ s'"
  using dec_only dec_enc by blast

end

sublocale canonical_codec \<subseteq> self_delimiting dec
  by unfold_locales (auto simp: dec_iff)

section \<open>Reading until the input is empty\<close>

text \<open>
  The loop \<open>while (CBS_len(&cbs) != 0) { read one element }\<close>, which fails as soon as one
  read fails. A read that succeeds without consuming anything would loop for ever in C; here it
  gives \<^const>\<open>None\<close>, and the lemmas are about readers that always consume.
\<close>

function read_all :: "'a reader \<Rightarrow> u8 list \<Rightarrow> 'a list option" where
  "read_all p s =
     (if s = [] then Some []
      else case p s of
          (None, _) \<Rightarrow> None
        | (Some a, s') \<Rightarrow>
            if length s' < length s then map_option ((#) a) (read_all p s') else None)"
  by pat_completeness auto
termination
  by (relation "measure (\<lambda>(p, s). length s)") auto

declare read_all.simps [simp del]

lemma read_all_Nil [simp]: "read_all p [] = Some []"
  by (simp add: read_all.simps)

lemma read_all_step:
  "s \<noteq> [] \<Longrightarrow> p s = (Some a, s') \<Longrightarrow> length s' < length s \<Longrightarrow>
     read_all p s = map_option ((#) a) (read_all p s')"
  by (subst read_all.simps) simp

context codec
begin

lemma read_all_concat:
  assumes "\<forall>v\<in>set vs. valid v \<and> enc v \<noteq> []"
  shows "read_all dec (concat (map enc vs)) = Some vs"
  using assms
proof (induction vs)
  case Nil
  then show ?case by simp
next
  case (Cons v vs)
  then have ne: "enc v @ concat (map enc vs) \<noteq> []"
    by simp
  from Cons have d: "dec (enc v @ concat (map enc vs)) = (Some v, concat (map enc vs))"
    by (simp add: dec_enc)
  have "read_all dec (enc v @ concat (map enc vs)) = map_option ((#) v) (read_all dec (concat (map enc vs)))"
    using Cons.prems by (simp add: read_all_step [where p = dec, OF ne d])
  with Cons show ?case
    by simp
qed

end

context canonical_codec
begin

lemma read_all_only:
  "read_all dec s = Some vs \<Longrightarrow> s = concat (map enc vs) \<and> (\<forall>v\<in>set vs. valid v)"
proof (induction s arbitrary: vs rule: length_induct)
  case (1 s)
  show ?case
  proof (cases "s = []")
    case True
    with 1 show ?thesis by simp
  next
    case False
    with 1(2) obtain a s' ws where d: "dec s = (Some a, s')" and l: "length s' < length s"
      and r: "read_all dec s' = Some ws" and vs: "vs = a # ws"
      by (subst (asm) read_all.simps) (auto split: prod.splits option.splits if_splits)
    from 1(1) l r have "s' = concat (map enc ws) \<and> (\<forall>v\<in>set ws. valid v)"
      by blast
    with dec_only [OF d] vs show ?thesis
      by simp
  qed
qed

end

end
