(* ===== verification/Cbs.thy ===== *)
theory Cbs
  imports Reader
begin

text \<open>
  Model of \<^verbatim>\<open>crypto/bytestring/cbs.c\<close>, the parser of byte strings, less the two RFC 5280 time
  parsers (theory \<^verbatim>\<open>Cbs_Time\<close>), and of the byte-string helpers of \<^verbatim>\<open>crypto/mem.c\<close> and
  \<^verbatim>\<open>crypto/internal.h\<close> that it calls.

  A \<^verbatim>\<open>CBS\<close> (a pointer and a length) is the list of the bytes it covers. A function that reads
  from a CBS is a reader: it gives \<^const>\<open>None\<close> where the C returns zero, and the CBS as the
  function leaves it, in the failing case too. A function that only inspects a CBS is a plain
  function. Output parameters are results; they are not written when the C returns zero.
  A nullable output pointer is an argument of type \<^typ>\<open>bool\<close> where the code branches on it.
  The allocator is a parameter \<open>alloc\<close> that says whether an allocation of a given size succeeds.
\<close>

section \<open>Helpers of mem.c and internal.h\<close>

definition CRYPTO_bswap2 :: "u16 \<Rightarrow> u16" where
  "CRYPTO_bswap2 x = drop_bit 8 x OR push_bit 8 x"

definition CRYPTO_bswap4 :: "u32 \<Rightarrow> u32" where
  "CRYPTO_bswap4 x0 =
     (let x = drop_bit 16 x0 OR push_bit 16 x0
      in drop_bit 8 (x AND 0xff00ff00) OR push_bit 8 (x AND 0x00ff00ff))"

definition CRYPTO_bswap8 :: "u64 \<Rightarrow> u64" where
  "CRYPTO_bswap8 x =
     (ucast (CRYPTO_bswap4 (ucast (drop_bit 32 x))) OR push_bit 32 (ucast (CRYPTO_bswap4 (ucast x))))"

fun memcmp_loop :: "u8 \<Rightarrow> u8 list \<Rightarrow> u8 list \<Rightarrow> u8" where
  "memcmp_loop x (a # as) (b # bs) = memcmp_loop (x OR (a XOR b)) as bs"
| "memcmp_loop x _ _ = x"

definition CRYPTO_memcmp :: "u8 list \<Rightarrow> u8 list \<Rightarrow> u8" where
  "CRYPTO_memcmp a b = memcmp_loop 0 a b"

fun OPENSSL_strnlen :: "u8 list \<Rightarrow> nat" where
  "OPENSSL_strnlen [] = 0"
| "OPENSSL_strnlen (c # s) = (if c = 0 then 0 else Suc (OPENSSL_strnlen s))"

definition OPENSSL_strndup :: "(nat \<Rightarrow> bool) \<Rightarrow> u8 list \<Rightarrow> u8 list option" where
  "OPENSSL_strndup alloc str =
     (let size = OPENSSL_strnlen str; alloc_size = (size + 1) mod size_mod
      in if alloc_size < size then None
         else if \<not> alloc alloc_size then None
         else Some (take size str @ [0]))"

definition OPENSSL_memdup :: "(nat \<Rightarrow> bool) \<Rightarrow> u8 list \<Rightarrow> u8 list option" where
  "OPENSSL_memdup alloc data =
     (if length data = 0 then None else if \<not> alloc (length data) then None else Some data)"

text \<open>\<open>memchr\<close> of the C library: the distance of the first match.\<close>

fun OPENSSL_memchr :: "u8 list \<Rightarrow> u8 \<Rightarrow> nat option" where
  "OPENSSL_memchr [] c = None"
| "OPENSSL_memchr (b # s) c = (if b = c then Some 0 else map_option Suc (OPENSSL_memchr s c))"

definition OPENSSL_isdigit :: "u8 \<Rightarrow> bool" where
  "OPENSSL_isdigit c \<longleftrightarrow> c \<ge> 0x30 \<and> c \<le> 0x39"

section \<open>Raw bytes\<close>

definition cbs_get :: "nat \<Rightarrow> u8 list reader" where
  "cbs_get n cbs = (if length cbs < n then (None, cbs) else (Some (take n cbs), drop n cbs))"

definition CBS_skip :: "nat \<Rightarrow> unit reader" where
  "CBS_skip len = bind_r (cbs_get len) (\<lambda>_. ret_r ())"

definition CBS_data :: "u8 list \<Rightarrow> u8 list" where
  "CBS_data cbs = cbs"

definition CBS_len :: "u8 list \<Rightarrow> nat" where
  "CBS_len cbs = length cbs"

text \<open>\<open>CBS_stow\<close>: the result, \<open>*out_ptr\<close> and \<open>*out_len\<close>.\<close>

definition CBS_stow :: "(nat \<Rightarrow> bool) \<Rightarrow> u8 list \<Rightarrow> bool \<times> u8 list option \<times> nat" where
  "CBS_stow alloc cbs =
     (if CBS_len cbs = 0 then (True, None, 0)
      else case OPENSSL_memdup alloc cbs of
          None \<Rightarrow> (False, None, 0)
        | Some p \<Rightarrow> (True, Some p, CBS_len cbs))"

definition CBS_strdup :: "(nat \<Rightarrow> bool) \<Rightarrow> u8 list \<Rightarrow> u8 list option" where
  "CBS_strdup alloc cbs = OPENSSL_strndup alloc cbs"

definition CBS_contains_zero_byte :: "u8 list \<Rightarrow> bool" where
  "CBS_contains_zero_byte cbs \<longleftrightarrow> OPENSSL_memchr cbs 0 \<noteq> None"

definition CBS_mem_equal :: "u8 list \<Rightarrow> u8 list \<Rightarrow> bool" where
  "CBS_mem_equal cbs data = (if length data \<noteq> CBS_len cbs then False else CRYPTO_memcmp cbs data = 0)"

text \<open>The loop of \<open>cbs_get_u\<close>: \<open>result <<= 8; result |= data[i]\<close>.\<close>

definition be_word :: "u8 list \<Rightarrow> u64" where
  "be_word data = foldl (\<lambda>result b. push_bit 8 result OR ucast b) 0 data"

definition cbs_get_u :: "nat \<Rightarrow> u64 reader" where
  "cbs_get_u len = bind_r (cbs_get len) (\<lambda>data. ret_r (be_word data))"

definition CBS_get_u8 :: "u8 reader" where
  "CBS_get_u8 = bind_r (cbs_get 1) (\<lambda>v. ret_r (hd v))"

definition CBS_get_u16 :: "u16 reader" where
  "CBS_get_u16 = bind_r (cbs_get_u 2) (\<lambda>v. ret_r (ucast v))"

definition CBS_get_u16le :: "u16 reader" where
  "CBS_get_u16le = bind_r CBS_get_u16 (\<lambda>v. ret_r (CRYPTO_bswap2 v))"

definition CBS_get_u24 :: "u32 reader" where
  "CBS_get_u24 = bind_r (cbs_get_u 3) (\<lambda>v. ret_r (ucast v))"

definition CBS_get_u32 :: "u32 reader" where
  "CBS_get_u32 = bind_r (cbs_get_u 4) (\<lambda>v. ret_r (ucast v))"

definition CBS_get_u32le :: "u32 reader" where
  "CBS_get_u32le = bind_r CBS_get_u32 (\<lambda>v. ret_r (CRYPTO_bswap4 v))"

definition CBS_get_u64 :: "u64 reader" where
  "CBS_get_u64 = cbs_get_u 8"

definition CBS_get_u64le :: "u64 reader" where
  "CBS_get_u64le = bind_r (cbs_get_u 8) (\<lambda>v. ret_r (CRYPTO_bswap8 v))"

definition CBS_get_last_u8 :: "u8 reader" where
  "CBS_get_last_u8 cbs =
     (if CBS_len cbs = 0 then (None, cbs) else (Some (cbs ! (CBS_len cbs - 1)), butlast cbs))"

definition CBS_get_bytes :: "nat \<Rightarrow> u8 list reader" where
  "CBS_get_bytes len = bind_r (cbs_get len) (\<lambda>v. ret_r v)"

definition CBS_copy_bytes :: "nat \<Rightarrow> u8 list reader" where
  "CBS_copy_bytes len = bind_r (cbs_get len) (\<lambda>v. ret_r v)"

definition cbs_get_length_prefixed :: "nat \<Rightarrow> u8 list reader" where
  "cbs_get_length_prefixed len_len = bind_r (cbs_get_u len_len) (\<lambda>len. CBS_get_bytes (unat len))"

definition CBS_get_u8_length_prefixed :: "u8 list reader" where
  "CBS_get_u8_length_prefixed = cbs_get_length_prefixed 1"

definition CBS_get_u16_length_prefixed :: "u8 list reader" where
  "CBS_get_u16_length_prefixed = cbs_get_length_prefixed 2"

definition CBS_get_u24_length_prefixed :: "u8 list reader" where
  "CBS_get_u24_length_prefixed = cbs_get_length_prefixed 3"

definition CBS_get_until_first :: "u8 \<Rightarrow> u8 list reader" where
  "CBS_get_until_first c cbs =
     (case OPENSSL_memchr (CBS_data cbs) c of
        None \<Rightarrow> (None, cbs)
      | Some split \<Rightarrow> CBS_get_bytes split cbs)"

section \<open>Numbers in text and in base 128\<close>

abbreviation UINT64_MAX :: u64 where
  "UINT64_MAX \<equiv> 18446744073709551615"

text \<open>
  The loop of \<open>CBS_get_u64_decimal\<close>, with \<open>v\<close> and \<open>seen_digit\<close> as its state. The subtraction
  \<open>UINT64_MAX - (c - '0')\<close> and the sum wrap in 64 bits as in C.
\<close>

fun u64_decimal_loop :: "u64 \<Rightarrow> bool \<Rightarrow> u64 reader" where
  "u64_decimal_loop v seen_digit [] = (if seen_digit then (Some v, []) else (None, []))"
| "u64_decimal_loop v seen_digit (c # cbs) =
     (if \<not> OPENSSL_isdigit c then (if seen_digit then (Some v, c # cbs) else (None, c # cbs))
      else if v = 0 \<and> seen_digit \<or> v > UINT64_MAX div 10 \<or> v * 10 > UINT64_MAX - (ucast c - 0x30)
      then (None, cbs)
      else u64_decimal_loop (v * 10 + (ucast c - 0x30)) True cbs)"

definition CBS_get_u64_decimal :: "u64 reader" where
  "CBS_get_u64_decimal = u64_decimal_loop 0 False"

fun parse_base128_loop :: "u64 \<Rightarrow> u64 reader" where
  "parse_base128_loop v [] = (None, [])"
| "parse_base128_loop v (b # cbs) =
     (if drop_bit (64 - 7) v \<noteq> 0 then (None, cbs)
      else if v = 0 \<and> b = 0x80 then (None, cbs)
      else
        let v = push_bit 7 v OR (ucast b AND 0x7f)
        in if b AND 0x80 \<noteq> 0 then parse_base128_loop v cbs else (Some v, cbs))"

definition parse_base128_integer :: "u64 reader" where
  "parse_base128_integer = parse_base128_loop 0"

section \<open>ASN.1 elements\<close>

definition CBS_ASN1_TAG_SHIFT :: nat where
  "CBS_ASN1_TAG_SHIFT = 24"

definition CBS_ASN1_CONSTRUCTED :: u32 where
  "CBS_ASN1_CONSTRUCTED = push_bit CBS_ASN1_TAG_SHIFT 0x20"

definition CBS_ASN1_TAG_NUMBER_MASK :: u32 where
  "CBS_ASN1_TAG_NUMBER_MASK = push_bit (5 + CBS_ASN1_TAG_SHIFT) 1 - 1"

abbreviation CBS_ASN1_BOOLEAN :: u32 where "CBS_ASN1_BOOLEAN \<equiv> 0x1"

abbreviation CBS_ASN1_INTEGER :: u32 where "CBS_ASN1_INTEGER \<equiv> 0x2"

abbreviation CBS_ASN1_OCTETSTRING :: u32 where "CBS_ASN1_OCTETSTRING \<equiv> 0x4"

definition parse_asn1_tag :: "u32 reader" where
  "parse_asn1_tag = bind_r CBS_get_u8 (\<lambda>tag_byte.
     let tag = push_bit CBS_ASN1_TAG_SHIFT (ucast tag_byte AND 0xe0);
         tag_number = ucast tag_byte AND 0x1f
     in bind_r
          (if tag_number = 0x1f
           then bind_r parse_base128_integer (\<lambda>v.
                  if v > ucast CBS_ASN1_TAG_NUMBER_MASK \<or> v < 0x1f then fail_r else ret_r (ucast v))
           else ret_r tag_number)
          (\<lambda>tag_number.
             let tag = tag OR tag_number
             in if tag AND NOT CBS_ASN1_CONSTRUCTED = 0 then fail_r else ret_r tag))"

text \<open>
  The output parameters of \<open>cbs_get_any_asn1_element\<close>: the element with its header, its tag, the
  length of the header and the two flags that are set in BER mode only.
\<close>

record asn1_element =
  el_out :: "u8 list"
  el_tag :: u32
  el_header_len :: nat
  el_ber_found :: bool
  el_indefinite :: bool

definition cbs_get_any_asn1_element :: "bool \<Rightarrow> asn1_element reader" where
  "cbs_get_any_asn1_element ber_ok cbs =
     (case parse_asn1_tag cbs of
        (None, _) \<Rightarrow> (None, cbs)
      | (Some tag, header) \<Rightarrow>
     (case CBS_get_u8 header of
        (None, _) \<Rightarrow> (None, cbs)
      | (Some length_byte, header) \<Rightarrow>
          let header_len = CBS_len cbs - CBS_len header in
          if length_byte AND 0x80 = 0 then
            bind_r (CBS_get_bytes (unat length_byte + header_len))
              (\<lambda>out. ret_r \<lparr>el_out = out, el_tag = tag, el_header_len = header_len,
                 el_ber_found = False, el_indefinite = False\<rparr>) cbs
          else
            let num_bytes = unat (length_byte AND 0x7f) in
            if ber_ok \<and> tag AND CBS_ASN1_CONSTRUCTED \<noteq> 0 \<and> num_bytes = 0 then
              bind_r (CBS_get_bytes header_len)
                (\<lambda>out. ret_r \<lparr>el_out = out, el_tag = tag, el_header_len = header_len,
                   el_ber_found = True, el_indefinite = True\<rparr>) cbs
            else if num_bytes = 0 \<or> num_bytes > 4 then (None, cbs)
            else
              (case cbs_get_u num_bytes header of
                 (None, _) \<Rightarrow> (None, cbs)
               | (Some len64, header) \<Rightarrow>
                   if \<not> ber_ok \<and> len64 < 128 then (None, cbs)
                   else if \<not> ber_ok \<and> drop_bit ((num_bytes - 1) * 8) len64 = 0 then (None, cbs)
                   else
                     let len = unat len64;
                         total = (len + header_len + num_bytes) mod size_mod
                     in if total < len then (None, cbs)
                        else
                          bind_r (CBS_get_bytes total)
                            (\<lambda>out. ret_r \<lparr>el_out = out, el_tag = tag,
                               el_header_len = header_len + num_bytes,
                               el_ber_found = (len64 < 128 \<or> drop_bit ((num_bytes - 1) * 8) len64 = 0),
                               el_indefinite = False\<rparr>) cbs)))"

definition CBS_get_any_asn1_element :: "asn1_element reader" where
  "CBS_get_any_asn1_element = cbs_get_any_asn1_element False"

definition CBS_get_any_ber_asn1_element :: "asn1_element reader" where
  "CBS_get_any_ber_asn1_element = cbs_get_any_asn1_element True"

text \<open>\<open>CBS_skip(out, n)\<close> on the CBS that a read has just produced.\<close>

definition skip_out :: "nat \<Rightarrow> u8 list \<Rightarrow> u8 list reader" where
  "skip_out n out = (case CBS_skip n out of (None, _) \<Rightarrow> fail_r | (Some _, out') \<Rightarrow> ret_r out')"

definition CBS_get_any_asn1 :: "(u8 list \<times> u32) reader" where
  "CBS_get_any_asn1 = bind_r CBS_get_any_asn1_element (\<lambda>e.
     bind_r (skip_out (el_header_len e) (el_out e)) (\<lambda>out. ret_r (out, el_tag e)))"

definition cbs_get_asn1 :: "u32 \<Rightarrow> bool \<Rightarrow> u8 list reader" where
  "cbs_get_asn1 tag_value skip_header = bind_r CBS_get_any_asn1_element (\<lambda>e.
     if el_tag e \<noteq> tag_value then fail_r
     else if skip_header then skip_out (el_header_len e) (el_out e)
     else ret_r (el_out e))"

definition CBS_get_asn1 :: "u32 \<Rightarrow> u8 list reader" where
  "CBS_get_asn1 tag_value = cbs_get_asn1 tag_value True"

definition CBS_get_asn1_element :: "u32 \<Rightarrow> u8 list reader" where
  "CBS_get_asn1_element tag_value = cbs_get_asn1 tag_value False"

definition CBS_peek_asn1_tag :: "u8 list \<Rightarrow> u32 \<Rightarrow> bool" where
  "CBS_peek_asn1_tag cbs tag_value = (fst (parse_asn1_tag cbs) = Some tag_value)"

section \<open>Values in ASN.1 elements\<close>

text \<open>\<open>CBS_is_valid_asn1_integer\<close>: \<^const>\<open>None\<close> for zero, otherwise \<open>*out_is_negative\<close>.\<close>

definition CBS_is_valid_asn1_integer :: "u8 list \<Rightarrow> bool option" where
  "CBS_is_valid_asn1_integer cbs =
     (case CBS_get_u8 cbs of
        (None, _) \<Rightarrow> None
      | (Some first_byte, copy) \<Rightarrow>
          let is_negative = (first_byte AND 0x80 \<noteq> 0) in
          (case CBS_get_u8 copy of
             (None, _) \<Rightarrow> Some is_negative
           | (Some second_byte, _) \<Rightarrow>
               if first_byte = 0x00 \<and> second_byte AND 0x80 = 0 \<or>
                  first_byte = 0xff \<and> second_byte AND 0x80 \<noteq> 0
               then None else Some is_negative))"

definition CBS_is_unsigned_asn1_integer :: "u8 list \<Rightarrow> bool" where
  "CBS_is_unsigned_asn1_integer cbs = (CBS_is_valid_asn1_integer cbs = Some False)"

fun asn1_uint64_loop :: "u64 \<Rightarrow> u8 list \<Rightarrow> u64 option" where
  "asn1_uint64_loop out [] = Some out"
| "asn1_uint64_loop out (b # data) =
     (if drop_bit 56 out \<noteq> 0 then None else asn1_uint64_loop (push_bit 8 out OR ucast b) data)"

definition CBS_get_asn1_uint64 :: "u64 reader" where
  "CBS_get_asn1_uint64 = bind_r (CBS_get_asn1 CBS_ASN1_INTEGER) (\<lambda>bytes.
     if \<not> CBS_is_unsigned_asn1_integer bytes then fail_r
     else case asn1_uint64_loop 0 bytes of None \<Rightarrow> fail_r | Some v \<Rightarrow> ret_r v)"

text \<open>
  \<open>CBS_get_asn1_int64\<close> builds the little-endian image of the \<open>int64_t\<close> and copies it; the
  result is the 64-bit pattern, whose value is its \<^const>\<open>sint\<close>.
\<close>

definition CBS_get_asn1_int64 :: "u64 reader" where
  "CBS_get_asn1_int64 = bind_r (CBS_get_asn1 CBS_ASN1_INTEGER) (\<lambda>bytes.
     case CBS_is_valid_asn1_integer bytes of
       None \<Rightarrow> fail_r
     | Some is_negative \<Rightarrow>
         if CBS_len bytes > 8 then fail_r
         else
           let sign_extend = replicate 8 (if is_negative then 0xff else 0);
               image = rev bytes @ drop (length bytes) sign_extend
           in ret_r (be_word (rev image)))"

definition CBS_get_asn1_bool :: "bool reader" where
  "CBS_get_asn1_bool = bind_r (CBS_get_asn1 CBS_ASN1_BOOLEAN) (\<lambda>bytes.
     if CBS_len bytes \<noteq> 1 then fail_r
     else let value = hd bytes
          in if value \<noteq> 0 \<and> value \<noteq> 0xff then fail_r else ret_r (value \<noteq> 0))"

text \<open>\<open>*out\<close> of the optional readers is \<^const>\<open>None\<close> where the element is absent.\<close>

definition CBS_get_optional_asn1 :: "u32 \<Rightarrow> u8 list option reader" where
  "CBS_get_optional_asn1 tag cbs =
     (if CBS_peek_asn1_tag cbs tag
      then bind_r (CBS_get_asn1 tag) (\<lambda>out. ret_r (Some out)) cbs
      else (Some None, cbs))"

definition CBS_get_optional_asn1_octet_string :: "u32 \<Rightarrow> (u8 list \<times> bool) reader" where
  "CBS_get_optional_asn1_octet_string tag = bind_r (CBS_get_optional_asn1 tag) (\<lambda>child.
     case child of
       None \<Rightarrow> ret_r ([], False)
     | Some child \<Rightarrow>
         (case CBS_get_asn1 CBS_ASN1_OCTETSTRING child of
            (None, _) \<Rightarrow> fail_r
          | (Some out, child) \<Rightarrow> if CBS_len child \<noteq> 0 then fail_r else ret_r (out, True)))"

definition CBS_get_optional_asn1_uint64 :: "u32 \<Rightarrow> u64 \<Rightarrow> u64 reader" where
  "CBS_get_optional_asn1_uint64 tag default_value = bind_r (CBS_get_optional_asn1 tag) (\<lambda>child.
     case child of
       None \<Rightarrow> ret_r default_value
     | Some child \<Rightarrow>
         (case CBS_get_asn1_uint64 child of
            (None, _) \<Rightarrow> fail_r
          | (Some out, child) \<Rightarrow> if CBS_len child \<noteq> 0 then fail_r else ret_r out))"

definition CBS_get_optional_asn1_bool :: "u32 \<Rightarrow> int \<Rightarrow> int reader" where
  "CBS_get_optional_asn1_bool tag default_value = bind_r (CBS_get_optional_asn1 tag) (\<lambda>child.
     case child of
       None \<Rightarrow> ret_r default_value
     | Some child \<Rightarrow>
         (case CBS_get_asn1 CBS_ASN1_BOOLEAN child of
            (None, _) \<Rightarrow> fail_r
          | (Some child2, child) \<Rightarrow>
              if CBS_len child2 \<noteq> 1 \<or> CBS_len child \<noteq> 0 then fail_r
              else if hd child2 = 0 then ret_r 0
              else if hd child2 = 0xff then ret_r 1
              else fail_r))"

definition CBS_is_valid_asn1_bitstring :: "u8 list \<Rightarrow> bool" where
  "CBS_is_valid_asn1_bitstring cbs =
     (case CBS_get_u8 cbs of
        (None, _) \<Rightarrow> False
      | (Some num_unused_bits, in_cbs) \<Rightarrow>
          if num_unused_bits > 7 then False
          else if num_unused_bits = 0 then True
          else case CBS_get_last_u8 in_cbs of
              (None, _) \<Rightarrow> False
            | (Some last_byte, _) \<Rightarrow> last_byte AND (push_bit (unat num_unused_bits) 1 - 1) = 0)"

definition CBS_asn1_bitstring_has_bit :: "u8 list \<Rightarrow> u32 \<Rightarrow> bool" where
  "CBS_asn1_bitstring_has_bit cbs n =
     (if \<not> CBS_is_valid_asn1_bitstring cbs then False
      else
        let byte_num = unat (drop_bit 3 n + 1); bit_num = unat (7 - (n AND 7))
        in byte_num < CBS_len cbs \<and> cbs ! byte_num AND push_bit bit_num 1 \<noteq> 0)"

fun valid_oid_loop :: "u8 \<Rightarrow> u8 list \<Rightarrow> bool" where
  "valid_oid_loop prev [] = (prev AND 0x80 = 0)"
| "valid_oid_loop prev (v # copy) =
     (if prev AND 0x80 = 0 \<and> v = 0x80 then False else valid_oid_loop v copy)"

definition CBS_is_valid_asn1_oid :: "u8 list \<Rightarrow> bool" where
  "CBS_is_valid_asn1_oid cbs = (if CBS_len cbs = 0 then False else valid_oid_loop 0 cbs)"

section \<open>Fixed-width reads\<close>

lemma memcmp_loop_zero:
  "length a = length b \<Longrightarrow> memcmp_loop x a b = 0 \<longleftrightarrow> x = 0 \<and> a = b"
proof (induction x a b rule: memcmp_loop.induct)
  case (1 x a as b bs)
  have "x OR (a XOR b) = 0 \<longleftrightarrow> x = 0 \<and> a = b"
    by (simp add: or_eq_0_iff xor_eq_0_iff)
  with 1 show ?case by auto
qed auto

lemma CBS_mem_equal_iff: "CBS_mem_equal cbs data \<longleftrightarrow> cbs = data"
  by (auto simp: CBS_mem_equal_def CBS_len_def CRYPTO_memcmp_def memcmp_loop_zero)

lemma be_word_eq: "be_word bs = word_of_nat (be_nat bs)"
proof (induction bs rule: rev_induct)
  case Nil
  then show ?case by (simp add: be_word_def)
next
  case (snoc b bs)
  have "be_word (bs @ [b]) = push_bit 8 (be_word bs) OR ucast b"
    by (simp add: be_word_def)
  also have "\<dots> = be_word bs * 256 + ucast b"
    by (rule push_or_byte)
  finally show ?case
    using snoc by (simp add: word_of_nat_unat mult.commute)
qed

lemma unat_be_word: "length bs \<le> 8 \<Longrightarrow> unat (be_word bs) = be_nat bs"
proof -
  assume "length bs \<le> 8"
  then have "(256::nat) ^ length bs \<le> 256 ^ 8"
    by (rule power_increasing) simp
  with be_nat_less [of bs] have "be_nat bs < 2 ^ 64"
    by simp
  then show ?thesis
    by (simp add: be_word_eq unsigned_of_nat take_bit_nat_eq_self_iff)
qed

lemma cbs_get_append: "length c = n \<Longrightarrow> cbs_get n (c @ t) = (Some c, t)"
  by (simp add: cbs_get_def)

lemma cbs_get_Some: "cbs_get n s = (Some c, t) \<longleftrightarrow> s = c @ t \<and> length c = n"
  by (auto simp: cbs_get_def)

lemma self_delimiting_cbs_get [reader_intros]: "self_delimiting (cbs_get n)"
  by unfold_locales (auto simp: cbs_get_Some)

lemma CBS_get_u8_Cons [simp]: "CBS_get_u8 (b # s) = (Some b, s)"
  by (simp add: CBS_get_u8_def bind_r_def cbs_get_def)

lemma CBS_get_u8_Nil [simp]: "CBS_get_u8 [] = (None, [])"
  by (simp add: CBS_get_u8_def bind_r_def cbs_get_def)

lemma CBS_get_u8_Some: "CBS_get_u8 s = (Some b, t) \<longleftrightarrow> s = b # t"
  by (cases s) auto

lemma CBS_get_bytes_eq: "CBS_get_bytes n = cbs_get n"
  by (rule ext) (simp add: CBS_get_bytes_def bind_r_def split: prod.splits option.splits)

lemma CBS_skip_append [simp]: "length c = n \<Longrightarrow> CBS_skip n (c @ t) = (Some (), t)"
  by (simp add: CBS_skip_def bind_r_def cbs_get_append)

lemma cbs_get_u_Some:
  "cbs_get_u n s = (Some v, t) \<longleftrightarrow> (\<exists>c. s = c @ t \<and> length c = n \<and> v = be_word c)"
  by (auto simp: cbs_get_u_def bind_r_eq_Some cbs_get_Some)

lemma skip_out_append [simp]: "length c = n \<Longrightarrow> skip_out n (c @ t) = ret_r t"
  by (simp add: skip_out_def)

lemmas self_delimiting_fixed [reader_intros] =
  self_delimiting_bind [OF self_delimiting_cbs_get self_delimiting_ret]

lemma self_delimiting_u [reader_intros]:
  "self_delimiting (cbs_get_u n)" "self_delimiting CBS_get_u8" "self_delimiting CBS_get_u16"
  "self_delimiting CBS_get_u24" "self_delimiting CBS_get_u32" "self_delimiting CBS_get_u64"
  "self_delimiting (CBS_get_bytes n)"
  unfolding cbs_get_u_def CBS_get_u8_def CBS_get_u16_def CBS_get_u24_def CBS_get_u32_def
    CBS_get_u64_def CBS_get_bytes_def
  by (intro reader_intros)+

lemma self_delimiting_length_prefixed [reader_intros]:
  "self_delimiting CBS_get_u8_length_prefixed" "self_delimiting CBS_get_u16_length_prefixed"
  "self_delimiting CBS_get_u24_length_prefixed"
  unfolding CBS_get_u8_length_prefixed_def CBS_get_u16_length_prefixed_def
    CBS_get_u24_length_prefixed_def cbs_get_length_prefixed_def
  by (intro reader_intros)+

lemma memchr_takeWhile:
  "OPENSSL_memchr s c = (if c \<in> set s then Some (length (takeWhile (\<lambda>b. b \<noteq> c) s)) else None)"
  by (induction s c rule: OPENSSL_memchr.induct) auto

lemma CBS_get_until_first_eq:
  "CBS_get_until_first c s =
     (if c \<in> set s then (Some (takeWhile (\<lambda>b. b \<noteq> c) s), dropWhile (\<lambda>b. b \<noteq> c) s) else (None, s))"
proof (cases "c \<in> set s")
  case True
  have "cbs_get (length (takeWhile (\<lambda>b. b \<noteq> c) s)) s =
      (Some (takeWhile (\<lambda>b. b \<noteq> c) s), dropWhile (\<lambda>b. b \<noteq> c) s)"
    by (simp add: cbs_get_def takeWhile_eq_take [symmetric] dropWhile_eq_drop [symmetric] length_takeWhile_le not_less)
  with True show ?thesis
    by (simp add: CBS_get_until_first_def memchr_takeWhile CBS_get_bytes_eq CBS_data_def)
next
  case False
  then show ?thesis
    by (simp add: CBS_get_until_first_def memchr_takeWhile CBS_data_def)
qed

lemma strnlen_takeWhile: "OPENSSL_strnlen s = length (takeWhile (\<lambda>b. b \<noteq> 0) s)"
  by (induction s) auto

section \<open>The fixed-width codecs\<close>

interpretation u8_codec: canonical_codec CBS_get_u8 "\<lambda>b. [b]" "\<lambda>_. True"
  by unfold_locales (auto simp: CBS_get_u8_Some)

lemma be_word_be_bytes: "n \<le> 8 \<Longrightarrow> v < 256 ^ n \<Longrightarrow> be_word (be_bytes n v) = word_of_nat v"
  by (simp add: be_word_eq be_nat_be_bytes)

lemma ucast_be_word:
  assumes "length c = n" and "256 ^ n = (2::nat) ^ LENGTH('a)" and "n \<le> 8"
  shows "unat (ucast (be_word c) :: 'a::len word) = be_nat c"
  using be_nat_less [of c] assms
  by (simp add: unsigned_ucast_eq unat_be_word take_bit_nat_eq_self_iff)

lemma cbs_get_u_iff:
  assumes "n \<le> 8"
  shows "cbs_get_u n s = (Some w, t) \<longleftrightarrow> unat w < 256 ^ n \<and> s = be_bytes n (unat w) @ t"
proof
  assume "cbs_get_u n s = (Some w, t)"
  then obtain c where c: "s = c @ t" "length c = n" "w = be_word c"
    by (auto simp: cbs_get_u_Some)
  with assms have "unat w = be_nat c"
    by (simp add: unat_be_word)
  with c show "unat w < 256 ^ n \<and> s = be_bytes n (unat w) @ t"
    using be_nat_less [of c] be_bytes_be_nat [of c] by simp
next
  assume "unat w < 256 ^ n \<and> s = be_bytes n (unat w) @ t"
  then show "cbs_get_u n s = (Some w, t)"
    using assms by (simp add: cbs_get_u_Some be_word_be_bytes)
qed

lemma cbs_get_u_codec:
  assumes n: "n \<le> 8" "LENGTH('a) \<le> 64" "(256::nat) ^ n \<le> 2 ^ LENGTH('a)"
  shows "canonical_codec (bind_r (cbs_get_u n) (\<lambda>v. ret_r (ucast v :: 'a::len word)))
     (\<lambda>v. be_bytes n (unat v)) (\<lambda>v. unat v < 256 ^ n)"
proof
  fix v :: "'a word" and t
  assume "unat v < 256 ^ n"
  moreover have u: "unat (ucast v :: u64) = unat v"
    by (rule unat_ucast_up) (use n in simp)
  ultimately have "cbs_get_u n (be_bytes n (unat v) @ t) = (Some (ucast v), t)"
    using n by (simp add: cbs_get_u_iff)
  then show "bind_r (cbs_get_u n) (\<lambda>v. ret_r (ucast v)) (be_bytes n (unat v) @ t) = (Some v, t)"
  proof -
    have "(ucast (ucast v :: u64) :: 'a word) = v"
      using u by (simp add: word_unat_eq_iff unat_ucast_down)
    then show "bind_r (cbs_get_u n) (\<lambda>v. ret_r (ucast v)) (be_bytes n (unat v) @ t) = (Some v, t)"
      using \<open>cbs_get_u n (be_bytes n (unat v) @ t) = (Some (ucast v), t)\<close> by simp
  qed
next
  fix s and v :: "'a word" and t
  assume "bind_r (cbs_get_u n) (\<lambda>v. ret_r (ucast v)) s = (Some v, t)"
  then obtain w :: u64 where "cbs_get_u n s = (Some w, t)" and v: "v = ucast w"
    by (auto simp: bind_r_eq_Some)
  then have w: "unat w < 256 ^ n" "s = be_bytes n (unat w) @ t" "v = ucast w"
    using n by (simp_all add: cbs_get_u_iff)
  then have "unat v = unat w"
    using n by (simp add: unat_ucast_down)
  with w show "unat v < 256 ^ n \<and> s = be_bytes n (unat v) @ t"
    by simp
qed

interpretation u16_codec: canonical_codec CBS_get_u16 "\<lambda>v. be_bytes 2 (unat v)" "\<lambda>v. unat v < 256 ^ 2"
  unfolding CBS_get_u16_def by (rule cbs_get_u_codec) simp_all

interpretation u24_codec: canonical_codec CBS_get_u24 "\<lambda>v. be_bytes 3 (unat v)" "\<lambda>v. unat v < 256 ^ 3"
  unfolding CBS_get_u24_def by (rule cbs_get_u_codec) simp_all

interpretation u32_codec: canonical_codec CBS_get_u32 "\<lambda>v. be_bytes 4 (unat v)" "\<lambda>v. unat v < 256 ^ 4"
  unfolding CBS_get_u32_def by (rule cbs_get_u_codec) simp_all

interpretation u64_codec: canonical_codec CBS_get_u64 "\<lambda>v. be_bytes 8 (unat v)" "\<lambda>v. unat v < 256 ^ 8"
  unfolding CBS_get_u64_def by unfold_locales (simp_all add: cbs_get_u_iff)

text \<open>A string behind its length in \<open>k\<close> bytes.\<close>

definition prefixed :: "nat \<Rightarrow> u8 list \<Rightarrow> u8 list" where
  "prefixed k c = be_bytes k (length c) @ c"

lemma length_prefixed_codec:
  assumes "k \<le> 3"
  shows "canonical_codec (cbs_get_length_prefixed k) (prefixed k) (\<lambda>c. length c < 256 ^ k)"
proof
  have k: "(256::nat) ^ k \<le> 2 ^ 24"
    using power_increasing [OF assms, of "256::nat"] by simp
  fix c t :: "u8 list"
  assume c: "length c < 256 ^ k"
  have u: "unat (word_of_nat (length c) :: u64) = length c"
    using c k by (simp add: unsigned_of_nat take_bit_nat_eq_self_iff)
  then have "cbs_get_u k (be_bytes k (length c) @ c @ t) = (Some (word_of_nat (length c)), c @ t)"
    using c assms by (simp add: cbs_get_u_iff)
  then show "cbs_get_length_prefixed k (prefixed k c @ t) = (Some c, t)"
    using u by (simp add: cbs_get_length_prefixed_def prefixed_def CBS_get_bytes_eq cbs_get_append)
next
  fix s c t
  assume "cbs_get_length_prefixed k s = (Some c, t)"
  then obtain w where "cbs_get_u k s = (Some w, c @ t)" "length c = unat w"
    by (auto simp: cbs_get_length_prefixed_def bind_r_eq_Some CBS_get_bytes_eq cbs_get_Some)
  then show "length c < 256 ^ k \<and> s = prefixed k c @ t"
    using assms by (simp add: cbs_get_u_iff prefixed_def)
qed

interpretation u8_prefixed: canonical_codec CBS_get_u8_length_prefixed "prefixed 1" "\<lambda>c. length c < 256 ^ 1"
  unfolding CBS_get_u8_length_prefixed_def by (rule length_prefixed_codec) simp

interpretation u16_prefixed: canonical_codec CBS_get_u16_length_prefixed "prefixed 2" "\<lambda>c. length c < 256 ^ 2"
  unfolding CBS_get_u16_length_prefixed_def by (rule length_prefixed_codec) simp

interpretation u24_prefixed: canonical_codec CBS_get_u24_length_prefixed "prefixed 3" "\<lambda>c. length c < 256 ^ 3"
  unfolding CBS_get_u24_length_prefixed_def by (rule length_prefixed_codec) simp

section \<open>Byte swaps\<close>

lemma be_word_2: "be_word [a, b] = push_bit 8 (ucast a) OR ucast b"
  and be_word_4: "be_word [a, b, c, d] =
     push_bit 24 (ucast a) OR push_bit 16 (ucast b) OR push_bit 8 (ucast c) OR ucast d"
  by (simp_all add: be_word_def push_bit_or or.assoc)

lemma bswap2_be: "CRYPTO_bswap2 (ucast (be_word [a, b])) = ucast (be_word [b, a])"
  unfolding be_word_2 CRYPTO_bswap2_def
  by (rule bit_eqI) (auto simp: bit_simps dest: bit_imp_le_length)

lemma bswap4_masks: "(0xff00ff00 :: u32) = push_bit 24 (mask 8) OR push_bit 8 (mask 8)"
   "(0x00ff00ff :: u32) = push_bit 16 (mask 8) OR mask 8"
  by (simp_all add: mask_eq_exp_minus_1)

lemma bswap4_be: "CRYPTO_bswap4 (ucast (be_word [a, b, c, d])) = ucast (be_word [d, c, b, a])"
  unfolding be_word_4 CRYPTO_bswap4_def Let_def bswap4_masks
proof (rule bit_word_eqI, goal_cases)
  case (1 n)
  then have "n < 32" by simp
  moreover have "n = 8 * (n div 8) + n mod 8" "n mod 8 < 8" by simp_all
  then obtain q m where n: "n = 8 * q + m" "m < 8" by blast
  ultimately have "q = 0 \<or> q = 1 \<or> q = 2 \<or> q = 3" by auto
  moreover have "8 \<le> k \<Longrightarrow> \<not> bit x k" for x :: u8 and k
    by (auto dest: bit_imp_le_length)
  ultimately show ?case
    using n by (elim disjE) (simp_all add: bit_simps)
qed

lemma be_word_append4:
  assumes "length c = 4" and "length d = 4"
  shows "be_word (c @ d) = push_bit 32 (be_word c) OR be_word d"
proof -
  have "unat (be_word d) < 2 ^ 32"
    using be_nat_less [of d] assms by (simp add: unat_be_word)
  then have "take_bit 32 (be_word d) = be_word d"
    by (simp add: word_unat_eq_iff unsigned_take_bit_eq take_bit_nat_eq_self_iff)
  then have "push_bit 32 (be_word c) OR be_word d = push_bit 32 (be_word c) + be_word d"
    by (rule push_or_eq_plus)
  then show ?thesis
    using assms by (simp add: be_word_eq be_nat_append push_bit_eq_mult)
qed

lemma length4: "length c = 4 \<longleftrightarrow> (\<exists>x y z w. c = [x, y, z, w])"
  by (auto simp: numeral_eq_Suc length_Suc_conv)

lemma length2: "length c = 2 \<longleftrightarrow> (\<exists>x y. c = [x, y])"
  by (auto simp: numeral_eq_Suc length_Suc_conv)

lemma bswap4_rev: "length c = 4 \<Longrightarrow> CRYPTO_bswap4 (ucast (be_word c)) = ucast (be_word (rev c))"
  by (auto simp: length4 bswap4_be)

lemma bswap2_rev: "length c = 2 \<Longrightarrow> CRYPTO_bswap2 (ucast (be_word c)) = ucast (be_word (rev c))"
  by (auto simp: length2 bswap2_be)

lemma ucast_ucast_be_word4: "length c = 4 \<Longrightarrow> (ucast (ucast (be_word c) :: u32) :: u64) = be_word c"
  using ucast_be_word [of c 4, where 'a = 32] by (simp add: word_unat_eq_iff unat_ucast_up unat_be_word)

lemma bswap8_rev:
  assumes "length c = 8"
  shows "CRYPTO_bswap8 (be_word c) = be_word (rev c)"
proof -
  define a b where "a = take 4 c" and "b = drop 4 c"
  with assms have l: "length a = 4" "length b = 4" and c: "c = a @ b" by simp_all
  have "be_nat b < 2 ^ 32"
    using be_nat_less [of b] l by simp
  then have hi: "drop_bit 32 (be_word c) = be_word a"
    using assms l by (simp add: word_unat_eq_iff unat_div_distrib unat_be_word c be_nat_append drop_bit_eq_div)
  have lo: "(ucast (be_word c) :: u32) = ucast (be_word b)"
    unfolding c be_word_append4 [OF l] by (intro bit_word_eqI) (auto simp: bit_simps)
  show ?thesis
    unfolding CRYPTO_bswap8_def hi lo bswap4_rev [OF l(1)] bswap4_rev [OF l(2)]
    using l be_word_append4 [of "rev b" "rev a"]
    by (simp add: ucast_ucast_be_word4 c or.commute)
qed

lemma le_codec:
  assumes dec: "\<And>s v t. dec s = (Some v, t) \<longleftrightarrow> (\<exists>c. s = c @ t \<and> length c = n \<and> v = (ucast (be_word (rev c)) :: 'a::len word))"
    and n: "256 ^ n = (2::nat) ^ LENGTH('a)" "n \<le> 8"
  shows "canonical_codec dec (\<lambda>v. rev (be_bytes n (unat v))) (\<lambda>_. True)"
proof
  fix v :: "'a word" and t
  have "be_nat (be_bytes n (unat v)) = unat v"
    using unsigned_less [of v] n by (simp add: be_nat_be_bytes)
  then show "dec (rev (be_bytes n (unat v)) @ t) = (Some v, t)"
    using n by (auto simp: dec word_unat_eq_iff ucast_be_word [of _ n])
next
  fix s v t
  assume "dec s = (Some v, t)"
  then obtain c where "s = c @ t" "length c = n" "v = ucast (be_word (rev c))"
    by (auto simp: dec)
  moreover from this have "be_bytes n (unat v) = rev c"
    using n be_bytes_be_nat [of "rev c"] by (simp add: ucast_be_word [of _ n])
  ultimately show "True \<and> s = rev (be_bytes n (unat v)) @ t"
    by simp
qed

interpretation u16le_codec: canonical_codec CBS_get_u16le "\<lambda>v. rev (be_bytes 2 (unat v))" "\<lambda>_. True"
  by (rule le_codec) (auto simp: CBS_get_u16le_def CBS_get_u16_def bind_r_eq_Some cbs_get_u_Some bswap2_rev)

interpretation u32le_codec: canonical_codec CBS_get_u32le "\<lambda>v. rev (be_bytes 4 (unat v))" "\<lambda>_. True"
  by (rule le_codec) (auto simp: CBS_get_u32le_def CBS_get_u32_def bind_r_eq_Some cbs_get_u_Some bswap4_rev)

interpretation u64le_codec: canonical_codec CBS_get_u64le "\<lambda>v. rev (be_bytes 8 (unat v))" "\<lambda>_. True"
  by (rule le_codec) (auto simp: CBS_get_u64le_def bind_r_eq_Some cbs_get_u_Some bswap8_rev)

lemma bswap2_bytes: "be_bytes 2 (unat (CRYPTO_bswap2 v)) = rev (be_bytes 2 (unat v))"
  and bswap4_bytes: "be_bytes 4 (unat (CRYPTO_bswap4 w)) = rev (be_bytes 4 (unat w))"
  and bswap8_bytes: "be_bytes 8 (unat (CRYPTO_bswap8 x)) = rev (be_bytes 8 (unat x))"
proof -
  have v: "unat v < 256 ^ 2" using unsigned_less [of v] by simp
  have w: "unat w < 256 ^ 4" using unsigned_less [of w] by simp
  have x: "unat x < 256 ^ 8" using unsigned_less [of x] by simp
  have c: "be_bytes n (be_nat (rev c)) = rev c" if "length c = n" for n and c :: "u8 list"
    using be_bytes_be_nat [of "rev c"] that by simp
  have e: "be_nat (be_bytes n u) = u" if "u < 256 ^ n" for n u
    using be_nat_be_bytes [of n u] that by simp
  { define c where "c = be_bytes 2 (unat v)"
    have "unat (ucast (be_word c) :: u16) = unat v"
      unfolding c_def using v by (subst ucast_be_word [of _ 2]) (simp_all add: e)
    then have "v = ucast (be_word c)" by (simp add: word_unat_eq_iff)
    then have "unat (CRYPTO_bswap2 v) = be_nat (rev c)"
      using bswap2_rev [of c] ucast_be_word [of "rev c" 2, where 'a = 16] by (simp add: c_def)
    then show "be_bytes 2 (unat (CRYPTO_bswap2 v)) = rev (be_bytes 2 (unat v))"
      using c [of c 2] by (simp add: c_def) }
  { define c where "c = be_bytes 4 (unat w)"
    have "unat (ucast (be_word c) :: u32) = unat w"
      unfolding c_def using w by (subst ucast_be_word [of _ 4]) (simp_all add: e)
    then have "w = ucast (be_word c)" by (simp add: word_unat_eq_iff)
    then have "unat (CRYPTO_bswap4 w) = be_nat (rev c)"
      using bswap4_rev [of c] ucast_be_word [of "rev c" 4, where 'a = 32] by (simp add: c_def)
    then show "be_bytes 4 (unat (CRYPTO_bswap4 w)) = rev (be_bytes 4 (unat w))"
      using c [of c 4] by (simp add: c_def) }
  { define c where "c = be_bytes 8 (unat x)"
    have "unat (be_word c) = unat x"
      unfolding c_def using x by (simp add: unat_be_word e)
    then have "x = be_word c" by (simp add: word_unat_eq_iff)
    then have "unat (CRYPTO_bswap8 x) = be_nat (rev c)"
      using bswap8_rev [of c] unat_be_word [of "rev c"] by (simp add: c_def)
    then show "be_bytes 8 (unat (CRYPTO_bswap8 x)) = rev (be_bytes 8 (unat x))"
      using c [of c 8] by (simp add: c_def) }
qed

end
