(* ===== verification/Der.thy ===== *)
theory Der
  imports Cbs
begin

text \<open>
  The Distinguished Encoding Rules as functions from values to bytes, and the proof that the
  readers of theory \<^verbatim>\<open>Cbs\<close> accept these encodings and no others: base-128 integers, ASN.1 tags
  in low and high tag number form, minimal lengths, whole elements. The reading functions of the
  code are shown to be instances of \<open>canonical_codec\<close>.
\<close>

section \<open>Base-128 integers\<close>

fun b128_prefix :: "nat \<Rightarrow> u8 list" where
  "b128_prefix n = (if n = 0 then [] else b128_prefix (n div 128) @ [word_of_nat (128 + n mod 128)])"

declare b128_prefix.simps [simp del]

lemma b128_prefix_0 [simp]: "b128_prefix 0 = []"
  by (simp add: b128_prefix.simps)

definition b128 :: "nat \<Rightarrow> u8 list" where
  "b128 n = b128_prefix (n div 128) @ [word_of_nat (n mod 128)]"

lemma b128_prefix_step:
  "d < 128 \<Longrightarrow> n \<noteq> 0 \<or> d \<noteq> 0 \<Longrightarrow> b128_prefix (n * 128 + d) = b128_prefix n @ [word_of_nat (128 + d)]"
  by (subst b128_prefix.simps) auto

lemma high_bit_byte: "(b :: u8) AND 0x80 \<noteq> 0 \<longleftrightarrow> 128 \<le> unat b"
proof -
  have "b AND 0x80 \<noteq> 0 \<longleftrightarrow> bit b 7"
    using and_exp_eq_0_iff_not_bit [of b 7] by simp
  also have "\<dots> \<longleftrightarrow> bit (unat b) 7"
    by (simp add: bit_unsigned_iff)
  also have "\<dots> \<longleftrightarrow> odd (unat b div 128)"
    by (simp add: bit_iff_odd)
  also have "\<dots> \<longleftrightarrow> 128 \<le> unat b"
  proof (cases "128 \<le> unat b")
    case True
    with unat_byte_lt [of b] have "unat b div 128 = 1" by simp
    with True show ?thesis by simp
  qed simp
  finally show ?thesis .
qed

lemma low_bits_byte: "unat (ucast (b :: u8) AND 0x7f :: u64) = unat b mod 128"
proof -
  have m: "(0x7f :: u64) = mask 7" by (simp add: mask_eq_exp_minus_1)
  have "ucast b AND 0x7f = take_bit 7 (ucast b :: u64)"
    unfolding m by (simp add: take_bit_eq_mask)
  then show ?thesis
    by (simp add: take_bit_eq_mod unat_mod_distrib unat_ucast_byte)
qed

lemma base128_step:
  assumes "drop_bit (64 - 7) (v :: u64) = 0"
  shows "unat (push_bit 7 v OR (ucast (b :: u8) AND 0x7f)) = unat v * 128 + unat b mod 128"
    and "unat v < 2 ^ 57"
proof -
  show v: "unat v < 2 ^ 57"
    using assms by (simp add: drop_bit_eq_0_iff)
  let ?w = "ucast b AND 0x7f :: u64"
  have "unat ?w < 2 ^ 7"
    by (simp add: low_bits_byte)
  then have "take_bit 7 ?w = ?w"
    by (simp only: word_unat_eq_iff unsigned_take_bit_eq take_bit_nat_eq_self_iff)
  then have "push_bit 7 v OR ?w = push_bit 7 v + ?w"
    by (rule push_or_eq_plus)
  also have "unat \<dots> = unat v * 128 + unat b mod 128"
    using v low_bits_byte [of b]
    by (simp add: push_bit_eq_mult unat_word_ariths)
  finally show "unat (push_bit 7 v OR ?w) = unat v * 128 + unat b mod 128" .
qed


text \<open>The number that the digits \<open>ds\<close> continue from \<open>v\<close>.\<close>

definition horner128 :: "nat \<Rightarrow> nat list \<Rightarrow> nat" where
  "horner128 v ds = foldl (\<lambda>a d. a * 128 + d) v ds"

lemma horner128_simps [simp]:
  "horner128 v [] = v"
  "horner128 v (d # ds) = horner128 (v * 128 + d) ds"
  "horner128 v (ds @ [d]) = horner128 v ds * 128 + d"
  by (simp_all add: horner128_def)

lemma horner128_mono: "v \<le> horner128 v ds"
proof (induction ds arbitrary: v)
  case (Cons d ds)
  have "v \<le> v * 128 + d" by simp
  also have "\<dots> \<le> horner128 (v * 128 + d) ds" by (rule Cons)
  finally show ?case by simp
qed simp

definition cont :: "nat list \<Rightarrow> u8 list" where
  "cont ds = map (\<lambda>d. word_of_nat (128 + d)) ds"

lemma b128_prefix_horner:
  "\<forall>d\<in>set ds. d < 128 \<Longrightarrow> v \<noteq> 0 \<or> (ds \<noteq> [] \<longrightarrow> hd ds \<noteq> 0) \<Longrightarrow>
     b128_prefix (horner128 v ds) = b128_prefix v @ cont ds"
proof (induction ds arbitrary: v)
  case Nil
  then show ?case by (simp add: cont_def)
next
  case (Cons d ds)
  then have "b128_prefix (v * 128 + d) = b128_prefix v @ [word_of_nat (128 + d)]"
    by (intro b128_prefix_step) auto
  moreover have "v * 128 + d \<noteq> 0"
    using Cons.prems by auto
  ultimately show ?case
    using Cons by (simp add: cont_def)
qed

lemma b128_digits:
  "\<exists>ds. (\<forall>d\<in>set ds. d < 128) \<and> (ds \<noteq> [] \<longrightarrow> hd ds \<noteq> 0) \<and> b128_prefix n = cont ds \<and> horner128 0 ds = n"
proof (induction n rule: b128_prefix.induct)
  case (1 n)
  show ?case
  proof (cases "n = 0")
    case True
    then show ?thesis by (intro exI [of _ "[]"]) (simp add: cont_def)
  next
    case False
    with 1 obtain ds where ds: "\<forall>d\<in>set ds. d < 128" "ds \<noteq> [] \<longrightarrow> hd ds \<noteq> 0"
        "b128_prefix (n div 128) = cont ds" "horner128 0 ds = n div 128"
      by blast
    have "ds = [] \<Longrightarrow> n mod 128 \<noteq> 0"
      using ds(4) False by (metis div_mult_mod_eq horner128_simps(1) mult_0 add_0)
    then show ?thesis
      using ds False b128_prefix.simps [of n]
      by (intro exI [of _ "ds @ [n mod 128]"]) (auto simp: cont_def hd_append)
  qed
qed

lemma unat_cont_byte: "d < 128 \<Longrightarrow> unat (word_of_nat (128 + d) :: u8) = 128 + d"
  by (simp add: unsigned_of_nat take_bit_nat_eq_self_iff del: of_nat_add)

lemma parse_base128_cont:
  assumes "\<forall>d\<in>set ds. d < 128" and "unat v \<noteq> 0 \<or> (ds \<noteq> [] \<longrightarrow> hd ds \<noteq> 0)" and "e < 128"
    and "horner128 (unat v) ds * 128 + e < 2 ^ 64"
  shows "parse_base128_loop v (cont ds @ word_of_nat e # t) =
     (Some (word_of_nat (horner128 (unat v) ds * 128 + e)), t)"
  using assms
proof (induction ds arbitrary: v)
  case Nil
  have b: "unat (word_of_nat e :: u8) = e"
    using Nil by (simp add: unat_word_of_nat_byte)
  have z: "drop_bit (64 - 7) v = 0"
    using Nil by (simp add: drop_bit_eq_0_iff)
  have "unat (push_bit 7 v OR (ucast (word_of_nat e :: u8) AND 0x7f)) = unat v * 128 + e"
    using base128_step(1) [OF z, of "word_of_nat e"] b Nil by simp
  then have "push_bit 7 v OR (ucast (word_of_nat e :: u8) AND 0x7f) = word_of_nat (unat v * 128 + e)"
    by (rule word_of_nat_eqI)
  moreover have "(word_of_nat e :: u8) \<noteq> 0x80" "(word_of_nat e :: u8) AND 0x80 = 0"
    using high_bit_byte [of "word_of_nat e"] b Nil by (auto simp: word_unat_eq_iff)
  ultimately show ?case
    using z by (simp add: cont_def Let_def del: of_nat_add)
next
  case (Cons d ds)
  define x where "x = (word_of_nat (128 + d) :: u8)"
  have d: "d < 128" using Cons.prems by simp
  have b: "unat x = 128 + d"
    unfolding x_def by (rule unat_cont_byte [OF d])
  have le: "unat v * 128 + d \<le> horner128 (unat v) (d # ds)"
    using horner128_mono [of "unat v * 128 + d" ds] by simp
  then have lt: "unat v * 128 + d < 2 ^ 57"
    using Cons.prems(4) by simp
  then have z: "drop_bit (64 - 7) v = 0"
    by (simp add: drop_bit_eq_0_iff)
  let ?v = "push_bit 7 v OR (ucast x AND 0x7f)"
  have v: "unat ?v = unat v * 128 + d"
    using base128_step(1) [OF z, of x] b d by simp
  have nz: "\<not> (v = 0 \<and> x = 0x80)"
    using Cons.prems(2) b by (auto simp: word_unat_eq_iff)
  have hb: "x AND 0x80 \<noteq> 0"
    using high_bit_byte [of x] b by simp
  have ne: "unat ?v \<noteq> 0 \<or> (ds \<noteq> [] \<longrightarrow> hd ds \<noteq> 0)"
    using Cons.prems(2) unfolding v by auto
  have "parse_base128_loop ?v (cont ds @ word_of_nat e # t) =
      (Some (word_of_nat (horner128 (unat ?v) ds * 128 + e)), t)"
    by (rule Cons.IH) (use Cons.prems ne in \<open>simp_all add: v\<close>)
  then show ?case
    using z nz hb by (simp add: cont_def Let_def v x_def [symmetric] del: of_nat_add)
qed

lemma byte_cont: "128 \<le> unat (b :: u8) \<Longrightarrow> b = word_of_nat (128 + unat b mod 128)"
proof -
  assume "128 \<le> unat b"
  moreover from this have "unat b mod 128 = unat b - 128"
    using unat_byte_lt [of b] by (simp add: le_mod_geq)
  ultimately have "unat b = 128 + unat b mod 128"
    by simp
  then show ?thesis by (rule word_of_nat_eqI)
qed

lemma parse_base128_only:
  "parse_base128_loop v s = (Some w, t) \<Longrightarrow>
     \<exists>ds e. (\<forall>d\<in>set ds. d < 128) \<and> (unat v \<noteq> 0 \<or> (ds \<noteq> [] \<longrightarrow> hd ds \<noteq> 0)) \<and> e < 128 \<and>
       s = cont ds @ word_of_nat e # t \<and> unat w = horner128 (unat v) ds * 128 + e"
proof (induction v s rule: parse_base128_loop.induct)
  case (1 v)
  then show ?case by simp
next
  case (2 v b cbs)
  define v' where "v' = push_bit 7 v OR (ucast b AND 0x7f)"
  have z: "drop_bit (64 - 7) v = 0" and nz: "\<not> (v = 0 \<and> b = 0x80)"
    using "2.prems" by (auto split: if_splits)
  have v': "unat v' = unat v * 128 + unat b mod 128"
    unfolding v'_def by (rule base128_step(1) [OF z])
  have step: "parse_base128_loop v (b # cbs) =
      (if b AND 0x80 \<noteq> 0 then parse_base128_loop v' cbs else (Some v', cbs))"
    using z nz by (auto simp: v'_def Let_def)
  show ?case
  proof (cases "b AND 0x80 = 0")
    case True
    then have b: "unat b < 128"
      using high_bit_byte [of b] by auto
    from True "2.prems" have "w = v'" "t = cbs"
      unfolding step by simp_all
    with b v' show ?thesis
      by (intro exI [of _ "[]"] exI [of _ "unat b"]) (simp add: cont_def word_of_nat_unat)
  next
    case False
    then have b: "128 \<le> unat b"
      using high_bit_byte [of b] by auto
    from False "2.prems" have rec: "parse_base128_loop v' cbs = (Some w, t)"
      unfolding step by simp
    from "2.IH" [OF _ nz v'_def False rec] z obtain ds e where ih: "\<forall>d\<in>set ds. d < 128"
      "unat v' \<noteq> 0 \<or> (ds \<noteq> [] \<longrightarrow> hd ds \<noteq> 0)" "e < 128" "cbs = cont ds @ word_of_nat e # t"
      "unat w = horner128 (unat v') ds * 128 + e"
      by auto
    have "unat v \<noteq> 0 \<or> unat b mod 128 \<noteq> 0"
      using nz b unat_byte_lt [of b] by (auto simp: word_unat_eq_iff mod_eq_0_iff_dvd dvd_def)
    then show ?thesis
      using ih byte_cont [OF b] v'
      by (intro exI [of _ "unat b mod 128 # ds"] exI [of _ e]) (auto simp: cont_def simp del: of_nat_add)
  qed
qed

lemma b128_codec: "canonical_codec parse_base128_integer (\<lambda>v. b128 (unat v)) (\<lambda>_. True)"
proof
  fix v :: u64 and t
  obtain ds where ds: "\<forall>d\<in>set ds. d < 128" "ds \<noteq> [] \<longrightarrow> hd ds \<noteq> 0"
      "b128_prefix (unat v div 128) = cont ds" "horner128 0 ds = unat v div 128"
    using b128_digits by blast
  have v: "horner128 (unat (0 :: u64)) ds * 128 + unat v mod 128 = unat v"
    by (simp add: ds(4))
  have "unat v < 2 ^ 64"
    using unsigned_less [of v] by simp
  then have "parse_base128_loop 0 (cont ds @ word_of_nat (unat v mod 128) # t) =
      (Some (word_of_nat (horner128 (unat (0 :: u64)) ds * 128 + unat v mod 128)), t)"
    by (intro parse_base128_cont) (simp_all add: ds v)
  then show "parse_base128_integer (b128 (unat v) @ t) = (Some v, t)"
    unfolding v by (simp add: parse_base128_integer_def b128_def ds(3) word_of_nat_unat)
next
  fix s v t
  assume "parse_base128_integer s = (Some v, t)"
  from parse_base128_only [OF this [unfolded parse_base128_integer_def]] obtain ds e
    where d: "\<forall>d\<in>set ds. d < 128" "ds \<noteq> [] \<longrightarrow> hd ds \<noteq> 0" "e < 128"
      "s = cont ds @ word_of_nat e # t" "unat v = horner128 0 ds * 128 + e"
    by auto
  have "b128_prefix (horner128 0 ds) = cont ds"
    using b128_prefix_horner [of ds 0] d by simp
  with d show "True \<and> s = b128 (unat v) @ t"
    by (simp add: b128_def)
qed

interpretation base128: canonical_codec parse_base128_integer "\<lambda>v. b128 (unat v)" "\<lambda>_. True"
  by (rule b128_codec)

lemma length_b128_prefix: "n < 128 ^ k \<Longrightarrow> length (b128_prefix n) \<le> k"
proof (induction k arbitrary: n)
  case 0
  then show ?case by simp
next
  case (Suc k)
  then have "n div 128 < 128 ^ k"
    by (simp add: less_mult_imp_div_less mult.commute)
  with Suc.IH show ?case
    by (subst b128_prefix.simps) simp
qed

section \<open>Tags\<close>

definition valid_tag :: "u32 \<Rightarrow> bool" where
  "valid_tag tag \<longleftrightarrow> tag AND NOT CBS_ASN1_CONSTRUCTED \<noteq> 0"

definition der_tag :: "u32 \<Rightarrow> u8 list" where
  "der_tag tag =
     (let tag_bits = ucast (drop_bit CBS_ASN1_TAG_SHIFT tag) AND 0xe0;
          tag_number = tag AND CBS_ASN1_TAG_NUMBER_MASK
      in if tag_number \<ge> 0x1f then (tag_bits OR 0x1f) # b128 (unat tag_number)
         else [tag_bits OR ucast tag_number])"

lemma tag_masks:
  "(0xe0 :: u8) = push_bit 5 (mask 3)" "(0xe0 :: u32) = push_bit 5 (mask 3)" "(0x1f :: u8) = mask 5"
  "(0x1f :: u32) = mask 5" "CBS_ASN1_TAG_NUMBER_MASK = mask 29" "CBS_ASN1_CONSTRUCTED = push_bit 29 1"
  by (simp_all add: mask_eq_exp_minus_1 CBS_ASN1_TAG_NUMBER_MASK_def CBS_ASN1_CONSTRUCTED_def
      CBS_ASN1_TAG_SHIFT_def)

text \<open>The tag of a class-and-form byte and a tag number, and the parts back.\<close>

definition join_tag :: "u8 \<Rightarrow> u32 \<Rightarrow> u32" where
  "join_tag b n = push_bit CBS_ASN1_TAG_SHIFT (ucast b AND 0xe0) OR n"

lemma bit_lt_2p: "unat n < 2 ^ j \<Longrightarrow> j \<le> k \<Longrightarrow> \<not> bit n k" for n :: "'a::len word"
  by (metis bit_take_bit_iff linorder_not_less take_bit_nat_eq_self_iff unsigned_take_bit_eq word_unat_eq_iff)

lemma join_tag_number: "unat n < 2 ^ 29 \<Longrightarrow> join_tag b n AND CBS_ASN1_TAG_NUMBER_MASK = n"
proof -
  assume "unat n < 2 ^ 29"
  then have nb: "29 \<le> k \<Longrightarrow> \<not> bit n k" "bit n k \<Longrightarrow> k < 29" for k
    using bit_lt_2p [of n 29 k] by (blast, meson linorder_not_less)
  show ?thesis
    unfolding join_tag_def tag_masks CBS_ASN1_TAG_SHIFT_def
    by (rule bit_word_eqI) (auto simp: bit_simps nb dest: nb(2))
qed

lemma join_tag_bits:
  "unat n < 2 ^ 29 \<Longrightarrow> ucast (drop_bit CBS_ASN1_TAG_SHIFT (join_tag b n)) AND (0xe0 :: u8) = b AND 0xe0"
proof -
  assume "unat n < 2 ^ 29"
  then have nb: "29 \<le> k \<Longrightarrow> \<not> bit n k" "bit n k \<Longrightarrow> k < 29" for k
    using bit_lt_2p [of n 29 k] by (blast, meson linorder_not_less)
  show ?thesis
    unfolding join_tag_def tag_masks CBS_ASN1_TAG_SHIFT_def
    by (rule bit_word_eqI) (auto simp: bit_simps nb dest: nb(2))
qed

lemma low_tag_byte: "unat (ucast (b :: u8) AND 0x1f :: u32) = unat b mod 32"
  unfolding tag_masks
  by (simp add: take_bit_eq_mask [symmetric] take_bit_eq_mod unat_mod_distrib unat_ucast_byte)

lemma tag_number_lt: "unat (tag AND CBS_ASN1_TAG_NUMBER_MASK) < 2 ^ 29"
  unfolding tag_masks
  by (simp add: take_bit_eq_mask [symmetric] take_bit_eq_mod unat_mod_distrib)

lemma parse_asn1_tag_eq:
  "parse_asn1_tag = bind_r CBS_get_u8 (\<lambda>b.
     bind_r (if ucast b AND 0x1f = (0x1f :: u32)
             then bind_r parse_base128_integer (\<lambda>v.
                    if unat v \<ge> 2 ^ 29 \<or> unat v < 0x1f then fail_r else ret_r (ucast v))
             else ret_r (ucast b AND 0x1f))
       (\<lambda>n. if \<not> valid_tag (join_tag b n) then fail_r else ret_r (join_tag b n)))"
proof -
  have "v > ucast CBS_ASN1_TAG_NUMBER_MASK \<longleftrightarrow> unat v \<ge> 2 ^ 29" for v :: u64
    by (auto simp: word_less_nat_alt CBS_ASN1_TAG_NUMBER_MASK_def CBS_ASN1_TAG_SHIFT_def)
  moreover have "v < 0x1f \<longleftrightarrow> unat v < 0x1f" for v :: u64
    by (simp add: word_less_nat_alt)
  ultimately show ?thesis
    unfolding parse_asn1_tag_def join_tag_def valid_tag_def Let_def not_not by (simp only:)
qed


lemma tag_byte_low:
  "unat n < 0x1f \<Longrightarrow> ucast ((b AND 0xe0) OR ucast n) AND (0x1f :: u32) = n"
  "ucast ((b AND 0xe0) OR 0x1f) AND (0x1f :: u32) = 0x1f"
  "unat m < 0x1f \<Longrightarrow> join_tag ((b AND 0xe0) OR ucast (m :: u32)) n = join_tag b n"
  "join_tag ((b AND 0xe0) OR 0x1f) n = join_tag b n"
proof -
  show "unat n < 0x1f \<Longrightarrow> ucast ((b AND 0xe0) OR ucast n) AND (0x1f :: u32) = n"
  proof -
    assume "unat n < 0x1f"
    then have "unat n < 2 ^ 5" by simp
    then have nb: "bit n k \<Longrightarrow> k < 5" for k
      using bit_lt_2p [of n 5 k] by (meson linorder_not_less)
    then show ?thesis
      unfolding tag_masks by (intro bit_word_eqI) (auto simp: bit_simps dest: nb)
  qed
  show "ucast ((b AND 0xe0) OR 0x1f) AND (0x1f :: u32) = 0x1f"
    unfolding tag_masks by (rule bit_word_eqI) (auto simp: bit_simps)
  show "unat m < 0x1f \<Longrightarrow> join_tag ((b AND 0xe0) OR ucast (m :: u32)) n = join_tag b n"
  proof -
    assume "unat m < 0x1f"
    then have "unat m < 2 ^ 5" by simp
    then have nb: "bit m k \<Longrightarrow> k < 5" for k
      using bit_lt_2p [of m 5 k] by (meson linorder_not_less)
    then show ?thesis
      unfolding tag_masks join_tag_def CBS_ASN1_TAG_SHIFT_def
      by (intro bit_word_eqI) (auto simp: bit_simps dest: nb)
  qed
  show "join_tag ((b AND 0xe0) OR 0x1f) n = join_tag b n"
    unfolding tag_masks join_tag_def CBS_ASN1_TAG_SHIFT_def by (rule bit_word_eqI) (auto simp: bit_simps)
qed

lemma join_tag_bits_of:
  "join_tag (ucast (drop_bit CBS_ASN1_TAG_SHIFT tag)) (tag AND CBS_ASN1_TAG_NUMBER_MASK) = tag"
  unfolding join_tag_def tag_masks CBS_ASN1_TAG_SHIFT_def
  by (rule bit_word_eqI) (auto simp: bit_simps)

lemma low_byte_split: "(b AND 0xe0) OR ucast (ucast b AND (0x1f :: u32)) = (b :: u8)"
  unfolding tag_masks by (rule bit_word_eqI) (auto simp: bit_simps dest: bit_imp_le_length)

lemma der_tag_join:
  "unat n < 2 ^ 29 \<Longrightarrow> der_tag (join_tag b n) =
     (if n \<ge> 0x1f then ((b AND 0xe0) OR 0x1f) # b128 (unat n) else [(b AND 0xe0) OR ucast n])"
  by (simp add: der_tag_def Let_def join_tag_number join_tag_bits)

lemma tag_codec: "canonical_codec parse_asn1_tag der_tag valid_tag"
proof
  fix tag t
  assume v: "valid_tag tag"
  define n where "n = tag AND CBS_ASN1_TAG_NUMBER_MASK"
  define b where "b = (ucast (drop_bit CBS_ASN1_TAG_SHIFT tag) :: u8)"
  have tag: "tag = join_tag b n"
    unfolding b_def n_def by (simp only: join_tag_bits_of)
  have n: "unat n < 2 ^ 29"
    unfolding n_def by (rule tag_number_lt)
  show "parse_asn1_tag (der_tag tag @ t) = (Some tag, t)"
  proof (cases "n \<ge> 0x1f")
    case True
    have u: "unat (ucast n :: u64) = unat n"
      by (rule unat_ucast_up) simp
    have p: "parse_base128_integer (b128 (unat n) @ t) = (Some (ucast n), t)"
      using base128.dec_enc [of "ucast n" t] u by simp
    have "(ucast (ucast n :: u64) :: u32) = n"
      using unat_ucast_down [of "ucast n :: u64", where 'b = 32] u n by (simp add: word_unat_eq_iff)
    with True n p u v show ?thesis
      by (simp add: parse_asn1_tag_eq tag der_tag_join tag_byte_low word_le_nat_alt bind_r_def)
  next
    case False
    then have lt: "unat n < 0x1f" by (simp add: word_le_nat_alt)
    then have "n \<noteq> 0x1f" by (auto simp: word_unat_eq_iff)
    then show ?thesis
      using False n v lt by (simp add: parse_asn1_tag_eq tag der_tag_join tag_byte_low bind_r_def)
  qed
next
  fix s tag t
  assume "parse_asn1_tag s = (Some tag, t)"
  then obtain b s1 where s: "s = b # s1"
    and r: "bind_r (if ucast b AND 0x1f = (0x1f :: u32)
             then bind_r parse_base128_integer (\<lambda>v.
                    if unat v \<ge> 2 ^ 29 \<or> unat v < 0x1f then fail_r else ret_r (ucast v))
             else ret_r (ucast b AND 0x1f))
       (\<lambda>n. if \<not> valid_tag (join_tag b n) then fail_r else ret_r (join_tag b n)) s1 = (Some tag, t)"
    unfolding parse_asn1_tag_eq bind_r_eq_Some [of CBS_get_u8] CBS_get_u8_Some by blast
  from r obtain n s2 where n2: "(if ucast b AND 0x1f = (0x1f :: u32)
             then bind_r parse_base128_integer (\<lambda>v.
                    if unat v \<ge> 2 ^ 29 \<or> unat v < 0x1f then fail_r else ret_r (ucast v))
             else ret_r (ucast b AND 0x1f)) s1 = (Some n, s2)"
    and t2: "(if \<not> valid_tag (join_tag b n) then fail_r else ret_r (join_tag b n)) s2 = (Some tag, t)"
    by (subst (asm) bind_r_eq_Some) blast
  from t2 have tag: "tag = join_tag b n" "valid_tag tag" and "s2 = t"
    by (auto split: if_splits)
  note n = n2 [unfolded \<open>s2 = t\<close>]
  show "valid_tag tag \<and> s = der_tag tag @ t"
  proof (cases "ucast b AND 0x1f = (0x1f :: u32)")
    case True
    with n obtain v where "parse_base128_integer s1 = (Some v, t)" and v: "unat v < 2 ^ 29" "0x1f \<le> unat v"
      and nv: "n = ucast v"
      by (auto simp: bind_r_eq_Some split: if_splits)
    then have s1: "s1 = b128 (unat v) @ t"
      using base128.dec_only by blast
    have un: "unat n = unat v"
      unfolding nv using v by (intro unat_ucast_down) simp
    have "(b AND 0xe0) OR 0x1f = b"
      using low_byte_split [of b] True by simp
    with v un s1 s tag show ?thesis
      by (simp add: der_tag_join word_le_nat_alt)
  next
    case False
    with n have n: "n = ucast b AND 0x1f" "s1 = t"
      by simp_all
    have un: "unat n = unat b mod 32"
      unfolding n by (rule low_tag_byte)
    with False n have "unat n \<noteq> 31"
      by (auto simp: word_unat_eq_iff)
    with un have lt: "unat n < 31"
      using mod_less_divisor [of 32 "unat b"] by linarith
    then show ?thesis
      using low_byte_split [of b] tag s n by (simp add: der_tag_join word_le_nat_alt)
  qed
qed

interpretation tag: canonical_codec parse_asn1_tag der_tag valid_tag
  by (rule tag_codec)

lemma length_der_tag: "length (der_tag tag) \<le> 6"
proof -
  have "unat (tag AND CBS_ASN1_TAG_NUMBER_MASK) div 128 < 128 ^ 4"
    using tag_number_lt [of tag] by simp
  then have "length (b128_prefix (unat (tag AND CBS_ASN1_TAG_NUMBER_MASK) div 128)) \<le> 4"
    by (rule length_b128_prefix)
  then show ?thesis
    by (simp add: der_tag_def Let_def b128_def)
qed

section \<open>Lengths and elements\<close>

text \<open>
  The length octets that the readers accept in front of a content of \<open>n\<close> bytes: the short form,
  the indefinite form of BER, and the long form in \<open>k\<close> bytes. \<open>ber\<close> says that the form is not
  the one of DER.
\<close>

definition length_octets :: "bool \<Rightarrow> u32 \<Rightarrow> u8 list \<Rightarrow> nat \<Rightarrow> bool \<Rightarrow> bool \<Rightarrow> bool" where
  "length_octets ber_ok tag L n ber indefinite \<longleftrightarrow>
     (ber \<longrightarrow> ber_ok) \<and>
     (n < 128 \<and> L = [word_of_nat n] \<and> \<not> ber \<and> \<not> indefinite \<or>
      tag AND CBS_ASN1_CONSTRUCTED \<noteq> 0 \<and> n = 0 \<and> L = [0x80] \<and> ber \<and> indefinite \<or>
      (\<exists>k\<in>{1..4}. n < 256 ^ k \<and> L = word_of_nat (128 + k) # be_bytes k n \<and>
         ber = (n < 128 \<or> n < 256 ^ (k - 1)) \<and> \<not> indefinite))"

lemma low_bits_byte8: "unat ((b :: u8) AND 0x7f) = unat b mod 128"
proof -
  have m: "(0x7f :: u8) = mask 7" by (simp add: mask_eq_exp_minus_1)
  have "b AND 0x7f = take_bit 7 b"
    unfolding m by (simp add: take_bit_eq_mask)
  then show ?thesis
    by (simp add: take_bit_eq_mod unat_mod_distrib)
qed

text \<open>The element of tag \<open>tag\<close> with the length octets \<open>L\<close> and the content \<open>c\<close>.\<close>

definition element_of :: "u32 \<Rightarrow> u8 list \<Rightarrow> u8 list \<Rightarrow> bool \<Rightarrow> bool \<Rightarrow> asn1_element" where
  "element_of tag L c ber indefinite =
     \<lparr>el_out = der_tag tag @ L @ c, el_tag = tag, el_header_len = length (der_tag tag @ L),
      el_ber_found = ber, el_indefinite = indefinite\<rparr>"

lemma element_bytes:
  assumes "hl = length H"
  shows "bind_r (CBS_get_bytes (n + hl)) (\<lambda>out. ret_r (f out)) (H @ r) = (Some e, t) \<longleftrightarrow>
     (\<exists>c. length c = n \<and> r = c @ t \<and> e = f (H @ c))"
proof
  assume "bind_r (CBS_get_bytes (n + hl)) (\<lambda>out. ret_r (f out)) (H @ r) = (Some e, t)"
  then obtain a where a: "H @ r = a @ t" "length a = n + hl" "e = f a"
    by (auto simp: bind_r_eq_Some CBS_get_bytes_eq cbs_get_Some)
  then obtain c where "a = H @ c" "r = c @ t"
    using assms by (auto simp: append_eq_append_conv2)
  with a assms show "\<exists>c. length c = n \<and> r = c @ t \<and> e = f (H @ c)"
    by auto
next
  assume "\<exists>c. length c = n \<and> r = c @ t \<and> e = f (H @ c)"
  then obtain c where c: "length c = n" "r = c @ t" "e = f (H @ c)" by blast
  then have "cbs_get (n + hl) ((H @ c) @ t) = (Some (H @ c), t)"
    using assms by (intro cbs_get_append) simp
  with c show "bind_r (CBS_get_bytes (n + hl)) (\<lambda>out. ret_r (f out)) (H @ r) = (Some e, t)"
    by (simp add: CBS_get_bytes_eq)
qed

lemma element_tag: "valid_tag tag \<Longrightarrow> parse_asn1_tag (der_tag tag @ r) = (Some tag, r)"
  by (rule tag.dec_enc)

lemma element_header:
  "CBS_len (der_tag tag @ b # h) - CBS_len h = length (der_tag tag @ [b])"
  "(der_tag tag @ [b]) @ h = der_tag tag @ b # h"
  by (simp_all add: CBS_len_def)

lemma element_short:
  assumes tag: "valid_tag tag" and b: "b AND 0x80 = 0"
  shows "cbs_get_any_asn1_element ber_ok (der_tag tag @ b # h) = (Some e, t) \<longleftrightarrow>
    (\<exists>c. length c = unat b \<and> h = c @ t \<and> e = element_of tag [b] c False False)"
proof -
  have eq: "cbs_get_any_asn1_element ber_ok (der_tag tag @ b # h) =
      bind_r (CBS_get_bytes (unat b + length (der_tag tag @ [b]))) (\<lambda>out. ret_r
        \<lparr>el_out = out, el_tag = tag, el_header_len = length (der_tag tag @ [b]),
         el_ber_found = False, el_indefinite = False\<rparr>) ((der_tag tag @ [b]) @ h)"
    unfolding cbs_get_any_asn1_element_def element_tag [OF tag]
    by (simp only: prod.case option.case CBS_get_u8_Cons element_header Let_def b if_True refl)
  show ?thesis
    unfolding eq by (subst element_bytes) (auto simp: element_of_def)
qed

lemma element_indefinite:
  assumes tag: "valid_tag tag" and b: "b AND 0x80 \<noteq> 0" "unat b = 128"
  shows "cbs_get_any_asn1_element ber_ok (der_tag tag @ b # h) = (Some e, t) \<longleftrightarrow>
    ber_ok \<and> tag AND CBS_ASN1_CONSTRUCTED \<noteq> 0 \<and> h = t \<and> e = element_of tag [b] [] True True"
proof -
  have k: "unat (b AND 0x7f) = 0"
    using b by (simp add: low_bits_byte8)
  show ?thesis
  proof (cases "ber_ok \<and> tag AND CBS_ASN1_CONSTRUCTED \<noteq> 0")
    case True
    then have eq: "cbs_get_any_asn1_element ber_ok (der_tag tag @ b # h) =
      bind_r (CBS_get_bytes (0 + length (der_tag tag @ [b]))) (\<lambda>out. ret_r
        \<lparr>el_out = out, el_tag = tag, el_header_len = length (der_tag tag @ [b]),
         el_ber_found = True, el_indefinite = True\<rparr>) ((der_tag tag @ [b]) @ h)"
      unfolding cbs_get_any_asn1_element_def element_tag [OF tag]
      using b(1) by (simp only: prod.case option.case CBS_get_u8_Cons element_header Let_def if_True if_False refl k
         simp_thms add_0)
    show ?thesis
      using True unfolding eq by (subst element_bytes) (auto simp: element_of_def)
  next
    case False
    then have "cbs_get_any_asn1_element ber_ok (der_tag tag @ b # h) = (None, der_tag tag @ b # h)"
      unfolding cbs_get_any_asn1_element_def element_tag [OF tag]
      using b(1) by (simp only: prod.case option.case CBS_get_u8_Cons element_header Let_def if_True if_False refl k
         simp_thms)
    with False show ?thesis by auto
  qed
qed

lemma drop_bit_bytes_eq_0:
  "drop_bit (k * 8) (v :: u64) = 0 \<longleftrightarrow> unat v < 256 ^ k"
  using power_mult [of "2::nat" 8 k] by (simp add: drop_bit_eq_0_iff mult.commute)

lemma element_long:
  assumes tag: "valid_tag tag" and b: "b AND 0x80 \<noteq> 0" "unat b = 128 + k" "k \<noteq> 0"
  shows "cbs_get_any_asn1_element ber_ok (der_tag tag @ b # h) = (Some e, t) \<longleftrightarrow>
    k \<le> 4 \<and> (\<exists>c ber. length c < 256 ^ k \<and> h = be_bytes k (length c) @ c @ t \<and>
      ber = (length c < 128 \<or> length c < 256 ^ (k - 1)) \<and> (ber \<longrightarrow> ber_ok) \<and>
      e = element_of tag (b # be_bytes k (length c)) c ber False)"
proof -
  have k: "unat (b AND 0x7f) = k"
    using b unat_byte_lt [of b] by (simp add: low_bits_byte8)
  have "\<not> (k = 0 \<or> 4 < k) \<longleftrightarrow> k \<le> 4" using b by auto
  show ?thesis
  proof (cases "k \<le> 4")
    case False
    then have "cbs_get_any_asn1_element ber_ok (der_tag tag @ b # h) = (None, der_tag tag @ b # h)"
      unfolding cbs_get_any_asn1_element_def element_tag [OF tag]
      using b(1) b(3) by (simp only: prod.case option.case CBS_get_u8_Cons element_header Let_def if_True if_False refl k
         simp_thms not_le)
    with False show ?thesis by simp
  next
    case True
    then have k4: "(4 < k) = False" by simp
    have k8: "k \<le> 8" using True by simp
    have get: "cbs_get_u k h = (Some len64, h2) \<longleftrightarrow>
        unat len64 < 256 ^ k \<and> h = be_bytes k (unat len64) @ h2" for len64 h2
      using k8 by (rule cbs_get_u_iff)
    have small: "(256::nat) ^ k \<le> 2 ^ 32"
      using power_increasing [OF True, of "256::nat"] by simp
    show ?thesis
    proof (cases "fst (cbs_get_u k h)")
      case None
      then obtain h2 where "cbs_get_u k h = (None, h2)"
        by (metis prod.collapse)
      then have "cbs_get_any_asn1_element ber_ok (der_tag tag @ b # h) = (None, der_tag tag @ b # h)"
        unfolding cbs_get_any_asn1_element_def element_tag [OF tag]
        using b(1) b(3) by (simp only: prod.case option.case CBS_get_u8_Cons element_header Let_def
           if_True if_False refl k simp_thms k4 if_cancel)
      moreover have "h \<noteq> be_bytes k (length c) @ c @ t" if "length c < 256 ^ k" for c
      proof -
        have "unat (word_of_nat (length c) :: u64) = length c"
          using that small by (simp add: unsigned_of_nat take_bit_nat_eq_self_iff)
        then show ?thesis
          using get [of "word_of_nat (length c)" "c @ t"] that None by auto
      qed
      ultimately show ?thesis by auto
    next
      case (Some len64)
      then obtain h2 where p: "cbs_get_u k h = (Some len64, h2)"
        by (metis prod.collapse)
      define n where "n = unat len64"
      from p have n: "n < 256 ^ k" "h = be_bytes k n @ h2"
        unfolding get n_def by simp_all
      have l128: "len64 < 128 \<longleftrightarrow> n < 128"
        by (simp add: word_less_nat_alt n_def)
      have ltop: "drop_bit ((k - 1) * 8) len64 = 0 \<longleftrightarrow> n < 256 ^ (k - 1)"
        unfolding n_def by (rule drop_bit_bytes_eq_0)
      define hl where "hl = length (der_tag tag @ [b])"
      have "hl \<le> 7"
        using length_der_tag [of tag] by (simp add: hl_def)
      then have total: "(n + hl + k) mod size_mod = n + hl + k"
        using n small True by simp
      have nl: "n + hl + k < n \<longleftrightarrow> False" by simp
      define ber where "ber = (n < 128 \<or> n < 256 ^ (k - 1))"
      have body: "cbs_get_any_asn1_element ber_ok (der_tag tag @ b # h) =
        (if \<not> ber_ok \<and> n < 128 then (None, der_tag tag @ b # h)
         else if \<not> ber_ok \<and> n < 256 ^ (k - 1) then (None, der_tag tag @ b # h)
         else bind_r (CBS_get_bytes (n + hl + k)) (\<lambda>out. ret_r
            \<lparr>el_out = out, el_tag = tag, el_header_len = hl + k,
             el_ber_found = ber, el_indefinite = False\<rparr>) (der_tag tag @ b # h))"
        unfolding cbs_get_any_asn1_element_def element_tag [OF tag]
        using b(1) b(3) by (simp only: prod.case option.case CBS_get_u8_Cons element_header Let_def
           if_True if_False refl k simp_thms k4 if_cancel p l128 ltop n_def [symmetric] hl_def [symmetric]
           total nl ber_def)
      have "bind_r (CBS_get_bytes (n + (hl + k))) (\<lambda>out. ret_r
            \<lparr>el_out = out, el_tag = tag, el_header_len = hl + k,
             el_ber_found = ber, el_indefinite = False\<rparr>)
              ((der_tag tag @ b # be_bytes k n) @ h2) = (Some e, t) \<longleftrightarrow>
         (\<exists>c. length c = n \<and> h2 = c @ t \<and> e = element_of tag (b # be_bytes k n) c ber False)"
        by (subst element_bytes) (auto simp: hl_def element_of_def)
      then have body2: "bind_r (CBS_get_bytes (n + hl + k)) (\<lambda>out. ret_r
            \<lparr>el_out = out, el_tag = tag, el_header_len = hl + k,
             el_ber_found = ber, el_indefinite = False\<rparr>) (der_tag tag @ b # h) = (Some e, t) \<longleftrightarrow>
         (\<exists>c. length c = n \<and> h2 = c @ t \<and> e = element_of tag (b # be_bytes k n) c ber False)"
        by (simp add: n add.assoc)
      have "h = be_bytes k (length c) @ c @ t \<longleftrightarrow> length c = n \<and> h2 = c @ t" if "length c < 256 ^ k" for c
        using that n be_nat_be_bytes [of k "length c"] be_nat_be_bytes [of k n]
        by (auto dest: arg_cong [of _ _ be_nat])
      with body body2 show ?thesis
        using True n by (auto simp: ber_def)
    qed
  qed
qed

lemma element_iff:
  "cbs_get_any_asn1_element ber_ok s = (Some e, t) \<longleftrightarrow>
     (\<exists>tag L c ber indefinite. valid_tag tag \<and> length_octets ber_ok tag L (length c) ber indefinite \<and>
        s = der_tag tag @ L @ c @ t \<and> e = element_of tag L c ber indefinite)"
  (is "_ \<longleftrightarrow> ?rhs")
proof
  assume l: "cbs_get_any_asn1_element ber_ok s = (Some e, t)"
  then obtain tag s1 where "parse_asn1_tag s = (Some tag, s1)"
    by (auto simp: cbs_get_any_asn1_element_def split: prod.splits option.splits)
  then have tag: "valid_tag tag" and s: "s = der_tag tag @ s1"
    by (simp_all add: tag.dec_iff)
  from l s obtain b h where s1: "s1 = b # h"
    using element_tag [OF tag, of "[]"] by (cases s1) (auto simp: cbs_get_any_asn1_element_def)
  note l = l [unfolded s s1]
  show ?rhs
  proof (cases "b AND 0x80 = 0")
    case True
    then have "unat b < 128" using high_bit_byte [of b] by auto
    moreover from l obtain c where "length c = unat b" "h = c @ t" "e = element_of tag [b] c False False"
      unfolding element_short [OF tag True] by blast
    ultimately show ?thesis
      using tag unfolding s s1
      by (intro exI [of _ tag] exI [of _ "[b]"] exI [of _ c] exI [of _ False])
        (simp add: length_octets_def word_of_nat_unat)
  next
    case False
    then have "128 \<le> unat b" using high_bit_byte [of b] by simp
    then obtain k where k: "unat b = 128 + k" by (metis le_Suc_ex)
    have b: "b = word_of_nat (128 + k)" using k by (rule word_of_nat_eqI)
    show ?thesis
    proof (cases "k = 0")
      case True
      with k have "unat b = 128" "b = 0x80" using b by simp_all
      with l tag show ?thesis
        unfolding s s1 element_indefinite [OF tag False \<open>unat b = 128\<close>]
        by (intro exI [of _ tag] exI [of _ "[b]"] exI [of _ "[]"]) (auto simp: length_octets_def)
    next
      case k0: False
      from l obtain c ber where c: "k \<le> 4" "length c < 256 ^ k" "h = be_bytes k (length c) @ c @ t"
          "ber = (length c < 128 \<or> length c < 256 ^ (k - 1))" "ber \<longrightarrow> ber_ok"
          "e = element_of tag (b # be_bytes k (length c)) c ber False"
        unfolding element_long [OF tag False k k0] by blast
      then have "length_octets ber_ok tag (b # be_bytes k (length c)) (length c) ber False"
        unfolding length_octets_def using k0 b by auto
      with c tag show ?thesis
        unfolding s s1 by (metis append_Cons)
    qed
  qed
next
  assume ?rhs
  then obtain tag L c ber indefinite where tag: "valid_tag tag"
    and L: "length_octets ber_ok tag L (length c) ber indefinite"
    and s: "s = der_tag tag @ L @ c @ t" and e: "e = element_of tag L c ber indefinite"
    by blast
  from L consider "length c < 128" "L = [word_of_nat (length c)]" "\<not> ber" "\<not> indefinite"
    | "ber_ok" "tag AND CBS_ASN1_CONSTRUCTED \<noteq> 0" "length c = 0" "L = [0x80]" "ber" "indefinite"
    | k where "1 \<le> k" "k \<le> 4" "length c < 256 ^ k" "L = word_of_nat (128 + k) # be_bytes k (length c)"
      "ber = (length c < 128 \<or> length c < 256 ^ (k - 1))" "\<not> indefinite" "ber \<longrightarrow> ber_ok"
    unfolding length_octets_def Bex_def atLeastAtMost_iff by blast
  then show "cbs_get_any_asn1_element ber_ok s = (Some e, t)"
  proof cases
    case 1
    then have u: "unat (word_of_nat (length c) :: u8) = length c"
      by (simp add: unat_word_of_nat_byte)
    then have "word_of_nat (length c) AND 0x80 = (0 :: u8)"
      using high_bit_byte [of "word_of_nat (length c)"] 1 by auto
    then show ?thesis
      using element_short [OF tag, of "word_of_nat (length c)"] 1 u e s by simp
  next
    case 2
    then show ?thesis
      using element_indefinite [OF tag, of "0x80"] e s by simp
  next
    case (3 k)
    define b where "b = (word_of_nat (128 + k) :: u8)"
    have b: "unat b = 128 + k"
      unfolding b_def by (rule unat_cont_byte) (use 3 in simp)
    then have "b AND 0x80 \<noteq> 0"
      using high_bit_byte [of b] by simp
    moreover have k: "k \<noteq> 0" and L: "L = b # be_bytes k (length c)"
      using 3 by (simp_all only: b_def)
    moreover have "indefinite = False"
      using 3 by simp
    ultimately show ?thesis
      unfolding s e L append_Cons using 3(2,3,5,7) by (subst element_long [OF tag _ b k]) blast+
  qed
qed

subsection \<open>The encoding of DER\<close>

fun byte_count :: "nat \<Rightarrow> nat" where
  "byte_count n = (if n = 0 then 0 else Suc (byte_count (n div 256)))"

declare byte_count.simps [simp del]

definition der_length :: "nat \<Rightarrow> u8 list" where
  "der_length n =
     (if n < 128 then [word_of_nat n]
      else word_of_nat (128 + byte_count n) # be_bytes (byte_count n) n)"

definition der_element :: "u32 \<Rightarrow> u8 list \<Rightarrow> u8 list" where
  "der_element tag c = der_tag tag @ der_length (length c) @ c"

lemma byte_count_le_iff: "byte_count n \<le> k \<longleftrightarrow> n < 256 ^ k"
proof (induction k arbitrary: n)
  case 0
  show ?case by (subst byte_count.simps) simp
next
  case (Suc k)
  have "byte_count n \<le> Suc k \<longleftrightarrow> n = 0 \<or> byte_count (n div 256) \<le> k"
    by (subst byte_count.simps) simp
  also have "\<dots> \<longleftrightarrow> n < 256 ^ Suc k"
    unfolding Suc.IH by (auto simp: less_mult_imp_div_less div_less_iff_less_mult mult.commute)
  finally show ?case .
qed

lemma byte_count_unique: "n < 256 ^ k \<Longrightarrow> \<not> n < 256 ^ (k - 1) \<Longrightarrow> byte_count n = k"
  unfolding byte_count_le_iff [symmetric] by simp

lemma length_octets_der:
  "length_octets False tag L n ber indefinite \<longleftrightarrow>
     n < 2 ^ 32 \<and> L = der_length n \<and> \<not> ber \<and> \<not> indefinite"
proof -
  have k4: "n < 2 ^ 32 \<longleftrightarrow> byte_count n \<le> 4"
    by (simp add: byte_count_le_iff)
  show ?thesis
  proof (cases "n < 128")
    case True
    then show ?thesis by (auto simp: length_octets_def der_length_def)
  next
    case False
    then have pos: "1 \<le> byte_count n"
      by (subst byte_count.simps) simp
    have k: "k \<in> {1..4} \<and> n < 256 ^ k \<and> \<not> n < 256 ^ (k - 1) \<longleftrightarrow> k = byte_count n \<and> byte_count n \<le> 4" for k
      using pos byte_count_le_iff [of n k] byte_count_le_iff [of n "k - 1"] by auto
    have "length_octets False tag L n ber indefinite \<longleftrightarrow> \<not> ber \<and> \<not> indefinite \<and>
        (\<exists>k. (k \<in> {1..4} \<and> n < 256 ^ k \<and> \<not> n < 256 ^ (k - 1)) \<and>
             L = word_of_nat (128 + k) # be_bytes k n)"
      unfolding length_octets_def using False by blast
    then show ?thesis
      unfolding k k4 using False by (simp only: der_length_def if_False) blast
  qed
qed

lemma DER_element_iff:
  "CBS_get_any_asn1_element s = (Some e, t) \<longleftrightarrow>
     (\<exists>tag c. valid_tag tag \<and> length c < 2 ^ 32 \<and> s = der_element tag c @ t \<and>
        e = element_of tag (der_length (length c)) c False False)"
  unfolding CBS_get_any_asn1_element_def element_iff length_octets_der der_element_def append_assoc
  by (intro iffI; elim exE conjE) (simp, blast)+

subsection \<open>Readers of whole elements\<close>

lemma skip_header:
  "skip_out (length (der_tag tag @ L)) (der_tag tag @ L @ c) = ret_r c"
  using skip_out_append [of "der_tag tag @ L" "length (der_tag tag @ L)" c] by (simp del: length_append)

lemma DER_element:
  "valid_tag tag \<Longrightarrow> length c < 2 ^ 32 \<Longrightarrow> CBS_get_any_asn1_element (der_element tag c @ t) =
     (Some (element_of tag (der_length (length c)) c False False), t)"
  unfolding DER_element_iff by blast

lemma element_of_sel [simp]:
  "el_out (element_of tag L c ber i) = der_tag tag @ L @ c" "el_tag (element_of tag L c ber i) = tag"
  "el_header_len (element_of tag L c ber i) = length (der_tag tag @ L)"
  by (simp_all add: element_of_def)

lemma any_asn1_codec:
  "canonical_codec CBS_get_any_asn1 (\<lambda>(c, tag). der_element tag c) (\<lambda>(c, tag). valid_tag tag \<and> length c < 2 ^ 32)"
proof (unfold_locales, goal_cases)
  case (1 v t)
  then show ?case
    by (simp add: CBS_get_any_asn1_def DER_element skip_header split: prod.splits del: length_append)
next
  case (2 s v t)
  then show ?case
    unfolding CBS_get_any_asn1_def bind_r_eq_Some DER_element_iff
    by (auto simp: skip_header simp del: length_append)
qed

interpretation any_asn1: canonical_codec CBS_get_any_asn1 "\<lambda>(c, tag). der_element tag c"
    "\<lambda>(c, tag). valid_tag tag \<and> length c < 2 ^ 32"
  by (rule any_asn1_codec)

lemma asn1_codec:
  "canonical_codec (CBS_get_asn1 tag) (der_element tag) (\<lambda>c. valid_tag tag \<and> length c < 2 ^ 32)"
proof (unfold_locales, goal_cases)
  case (1 c t)
  then show ?case
    by (simp add: CBS_get_asn1_def cbs_get_asn1_def DER_element skip_header del: length_append)
next
  case (2 s c t)
  then show ?case
    unfolding CBS_get_asn1_def cbs_get_asn1_def bind_r_eq_Some DER_element_iff
    by (auto simp: skip_header simp del: length_append split: if_splits)
qed

interpretation asn1: canonical_codec "CBS_get_asn1 tag" "der_element tag" "\<lambda>c. valid_tag tag \<and> length c < 2 ^ 32"
  for tag
  by (rule asn1_codec)

lemma CBS_get_asn1_element_iff:
  "CBS_get_asn1_element tag s = (Some e, t) \<longleftrightarrow>
     (\<exists>c. valid_tag tag \<and> length c < 2 ^ 32 \<and> e = der_element tag c \<and> s = e @ t)"
proof
  assume "CBS_get_asn1_element tag s = (Some e, t)"
  then show "\<exists>c. valid_tag tag \<and> length c < 2 ^ 32 \<and> e = der_element tag c \<and> s = e @ t"
    unfolding CBS_get_asn1_element_def cbs_get_asn1_def bind_r_eq_Some DER_element_iff
    by (auto simp: der_element_def split: if_splits)
next
  assume "\<exists>c. valid_tag tag \<and> length c < 2 ^ 32 \<and> e = der_element tag c \<and> s = e @ t"
  then show "CBS_get_asn1_element tag s = (Some e, t)"
    by (auto simp: CBS_get_asn1_element_def cbs_get_asn1_def DER_element) (simp add: der_element_def)
qed

lemma BER_self_delimiting: "self_delimiting CBS_get_any_ber_asn1_element"
proof
  fix s e t
  assume "CBS_get_any_ber_asn1_element s = (Some e, t)"
  then obtain tag L c ber i where e: "valid_tag tag" "length_octets True tag L (length c) ber i"
      "e = element_of tag L c ber i" and s: "s = (der_tag tag @ L @ c) @ t"
    unfolding CBS_get_any_ber_asn1_element_def element_iff by auto
  have "CBS_get_any_ber_asn1_element ((der_tag tag @ L @ c) @ u) = (Some e, u)" for u
    unfolding CBS_get_any_ber_asn1_element_def element_iff append_assoc using e by blast
  with s show "\<exists>d. s = d @ t \<and> (\<forall>u. CBS_get_any_ber_asn1_element (d @ u) = (Some e, u))"
    by blast
qed

interpretation ber_element: self_delimiting CBS_get_any_ber_asn1_element
  by (rule BER_self_delimiting)

section \<open>What the element readers accept\<close>

text \<open>C1. \<open>CBS_get_any_asn1\<close> accepts a tag, a minimal length and a content of that length, and
  nothing else: every element has one encoding, and what follows it is left unread.\<close>

theorem CBS_get_any_asn1_iff:
  "CBS_get_any_asn1 s = (Some (c, tag), t) \<longleftrightarrow>
     valid_tag tag \<and> length c < 2 ^ 32 \<and> s = der_element tag c @ t"
  by (simp add: any_asn1.dec_iff)

text \<open>In BER mode the element reader accepts exactly a minimal tag, length octets in the short,
  the indefinite or any long form of up to four bytes, and the content, and it reports the header
  length, whether the length was not the one of DER and whether it was indefinite.\<close>

theorem CBS_get_any_ber_asn1_element_iff:
  "CBS_get_any_ber_asn1_element s = (Some e, t) \<longleftrightarrow>
     (\<exists>tag L c ber indefinite. valid_tag tag \<and> length_octets True tag L (length c) ber indefinite \<and>
        s = der_tag tag @ L @ c @ t \<and> e = element_of tag L c ber indefinite)"
  unfolding CBS_get_any_ber_asn1_element_def by (rule element_iff)

lemma bytes_eq_if:
  "bind_r (CBS_get_bytes n) (\<lambda>out. ret_r (f out)) s =
     (if length s < n then (None, s) else (Some (f (take n s)), drop n s))"
  by (simp add: CBS_get_bytes_eq cbs_get_def bind_r_def)

text \<open>A read that leaves its input \<open>s\<close> as it was when it fails.\<close>

definition keeps :: "u8 list \<Rightarrow> 'a option \<times> u8 list \<Rightarrow> bool" where
  "keeps s x \<longleftrightarrow> (fst x = None \<longrightarrow> snd x = s)"

lemma keeps_intros:
  "keeps s (None, s)" "keeps s (Some a, t)"
  "keeps s (bind_r (CBS_get_bytes n) (\<lambda>out. ret_r (f out)) s)"
  "(b \<Longrightarrow> keeps s x) \<Longrightarrow> (\<not> b \<Longrightarrow> keeps s y) \<Longrightarrow> keeps s (if b then x else y)"
  "(\<And>u v. keeps s (g u v)) \<Longrightarrow> keeps s (case p of (u, v) \<Rightarrow> g u v)"
  "keeps s x \<Longrightarrow> (\<And>u. keeps s (h u)) \<Longrightarrow> keeps s (case q of None \<Rightarrow> x | Some u \<Rightarrow> h u)"
  by (auto simp: keeps_def bytes_eq_if split: prod.split option.split)

lemma element_None:
  "fst (cbs_get_any_asn1_element ber_ok s) = None \<Longrightarrow> snd (cbs_get_any_asn1_element ber_ok s) = s"
proof -
  have "keeps s (cbs_get_any_asn1_element ber_ok s)"
    unfolding cbs_get_any_asn1_element_def Let_def by (intro keeps_intros)
  then show "fst (cbs_get_any_asn1_element ber_ok s) = None \<Longrightarrow> snd (cbs_get_any_asn1_element ber_ok s) = s"
    by (simp add: keeps_def)
qed

lemma element_input_kept:
  "snd (cbs_get_any_asn1_element ber_ok s) =
     (case fst (cbs_get_any_asn1_element ber_ok s) of None \<Rightarrow> s | Some e \<Rightarrow> drop (length (el_out e)) s)"
proof (cases "fst (cbs_get_any_asn1_element ber_ok s)")
  case None
  then have "snd (cbs_get_any_asn1_element ber_ok s) = s"
    by (rule element_None)
  with None show ?thesis by simp
next
  case (Some e)
  then obtain t where "cbs_get_any_asn1_element ber_ok s = (Some e, t)"
    by (metis prod.collapse)
  moreover from this have "s = el_out e @ t"
    by (auto simp: element_iff element_of_def)
  ultimately show ?thesis by simp
qed

end
