(* ===== verification/Der_Values.thy ===== *)
theory Der_Values
  imports Der
begin

text \<open>
  The values inside ASN.1 elements: two's complement integers, booleans, object identifiers, and
  decimal numbers in text. The readers \<^verbatim>\<open>CBS_get_asn1_uint64\<close>, \<^verbatim>\<open>CBS_get_asn1_int64\<close>,
  \<^verbatim>\<open>CBS_get_asn1_bool\<close>, \<^verbatim>\<open>CBS_is_valid_asn1_oid\<close> and \<^verbatim>\<open>CBS_get_u64_decimal\<close> of
  theory \<^verbatim>\<open>Cbs\<close> are shown to accept one encoding of each value and nothing else.
\<close>

section \<open>Integers and booleans\<close>

text \<open>
  The value of a two's complement big-endian string, and the shortest such string for an integer:
  \<open>int_weight i < 256 ^ k\<close> says that \<open>i\<close> fits in \<open>k\<close> bytes.
\<close>

definition be_int :: "u8 list \<Rightarrow> int" where
  "be_int bs = int (be_nat bs) - (if bs \<noteq> [] \<and> 128 \<le> unat (hd bs) then 256 ^ length bs else 0)"

definition int_weight :: "int \<Rightarrow> nat" where
  "int_weight i = nat (if 0 \<le> i then 2 * i else - 2 * i - 1)"

definition der_int :: "int \<Rightarrow> u8 list" where
  "der_int i = (let k = max 1 (byte_count (int_weight i)) in be_bytes k (nat (i mod 256 ^ k)))"

lemma be_int_fits:
  assumes "bs \<noteq> []"
  shows "int_weight (be_int bs) < 256 ^ length bs" and "be_int bs mod 256 ^ length bs = int (be_nat bs)"
    and "be_int bs < 0 \<longleftrightarrow> 128 \<le> unat (hd bs)"
proof -
  obtain a r where bs: "bs = a # r" using assms by (cases bs) auto
  define P where "P = (256::int) ^ length r"
  define R where "R = int (be_nat r)"
  have R: "0 \<le> R" "R < P"
    using be_nat_less [of r] by (simp_all add: R_def P_def flip: of_nat_power)
  define x where "x = int (unat a)"
  have x128: "128 \<le> unat a \<longleftrightarrow> 128 \<le> x" and x: "0 \<le> x" "x \<le> 255"
    using unat_byte_lt [of a] unfolding x_def by linarith+
  have v: "int (be_nat bs) = x * P + R"
    by (simp only: bs be_nat_Cons R_def P_def x_def of_nat_add of_nat_mult of_nat_power of_nat_numeral)
  have hi: "256 ^ length bs = 256 * P" by (simp add: bs P_def)
  have P0: "0 < P" by (simp add: P_def)
  define z where "z = x * P"
  have lo: "be_int bs = (if 128 \<le> x then z + R - 256 * P else z + R)"
    unfolding be_int_def v hi by (simp add: bs x128 z_def)
  have n1: "z \<le> 127 * P" if "\<not> 128 \<le> x"
    using that P0 unfolding z_def by (intro mult_right_mono) linarith+
  have n2: "128 * P \<le> z" if "128 \<le> x"
    using that P0 unfolding z_def by (intro mult_right_mono) linarith+
  have n3: "z \<le> 255 * P" "0 \<le> z"
    using x P0 unfolding z_def by (auto intro: mult_right_mono)
  show "be_int bs < 0 \<longleftrightarrow> 128 \<le> unat (hd bs)"
    unfolding lo using n1 n2 n3 R P0 by (simp add: bs x128)
  have w: "- 128 * P \<le> be_int bs" "be_int bs < 128 * P"
    unfolding lo using n1 n2 n3 R P0 by auto
  then have "int (int_weight (be_int bs)) < int (256 ^ length bs)"
    by (simp add: int_weight_def hi)
  then show "int_weight (be_int bs) < 256 ^ length bs"
    by (simp only: of_nat_less_iff)
  show "be_int bs mod 256 ^ length bs = int (be_nat bs)"
    unfolding be_int_def using be_nat_less [of bs] by (simp flip: of_nat_power)
qed

lemma valid_integer_Cons2:
  "CBS_is_valid_asn1_integer (a # b # r) =
     (if int_weight (be_int (a # b # r)) < 256 ^ length (b # r) then None
      else Some (be_int (a # b # r) < 0))"
proof -
  define P where "P = (256::int) ^ length r"
  define R where "R = int (be_nat r)"
  define x y where "x = int (unat a)" and "y = int (unat b)"
  have xy: "0 \<le> x" "x \<le> 255" "0 \<le> y" "y \<le> 255"
    using unat_byte_lt [of a] unat_byte_lt [of b] unfolding x_def y_def by linarith+
  define z u where "z = y * P" and "u = x * P"
  have R: "0 \<le> R" "R < P"
    using be_nat_less [of r] by (simp_all add: R_def P_def flip: of_nat_power)
  have P0: "0 < P" by (simp add: P_def)
  have v: "int (be_nat (a # b # r)) = 256 * u + (z + R)"
    unfolding z_def u_def
    by (simp only: mult.left_commute [of 256] be_nat_Cons R_def P_def x_def y_def of_nat_add of_nat_mult of_nat_power of_nat_numeral
        list.size power_Suc add_0_right add_Suc_right)
  have x128: "128 \<le> unat a \<longleftrightarrow> 128 \<le> x" and y128: "128 \<le> unat b \<longleftrightarrow> \<not> y < 128"
    and x0: "a = 0 \<longleftrightarrow> x = 0" and x255: "a = 0xff \<longleftrightarrow> x = 255"
  proof -
    have n: "128 \<le> n \<longleftrightarrow> 128 \<le> int n" "n = 0 \<longleftrightarrow> int n = 0" "n = 255 \<longleftrightarrow> int n = 255" for n
      by simp_all
    show "128 \<le> unat a \<longleftrightarrow> 128 \<le> x" "a = 0 \<longleftrightarrow> x = 0" "a = 0xff \<longleftrightarrow> x = 255"
      using n [of "unat a"] by (simp_all only: x_def word_unat_eq_iff unsigned_0 unsigned_numeral) simp
    show "128 \<le> unat b \<longleftrightarrow> \<not> y < 128"
      using n(1) [of "unat b"] by (simp only: y_def not_less)
  qed
  have hi: "256 ^ length (a # b # r) = 65536 * P" "256 ^ length (b # r) = 256 * P"
    by (simp_all add: P_def)
  have lo: "be_int (a # b # r) =
      (if 128 \<le> x then 256 * u + (z + R) - 65536 * P else 256 * u + (z + R))"
    unfolding be_int_def v hi by (simp add: x128)
  define i where "i = be_int (a # b # r)"
  have y1: "z \<le> 127 * P" if "y < 128"
    using that P0 unfolding z_def by (intro mult_right_mono) linarith+
  have y2: "128 * P \<le> z" if "\<not> y < 128"
    using that P0 unfolding z_def by (intro mult_right_mono) linarith+
  have y3: "z \<le> 255 * P" "0 \<le> z"
    using xy P0 unfolding z_def by (auto intro: mult_right_mono)
  have x1: "P \<le> u" if "x \<noteq> 0"
    using mult_right_mono [of 1 x P] that xy P0 by (simp add: u_def)
  have x2: "u \<le> 254 * P" if "x \<noteq> 255"
    using that xy P0 unfolding u_def by (intro mult_right_mono) linarith+
  have w: "int_weight i < 256 ^ length (b # r) \<longleftrightarrow> (if 0 \<le> i then 2 * i else - 2 * i - 1) < 256 * P"
  proof -
    have "int_weight i < 256 ^ length (b # r) \<longleftrightarrow> int (int_weight i) < int (256 ^ length (b # r))"
      by (simp only: of_nat_less_iff)
    then show ?thesis
      unfolding int_weight_def hi(2) [symmetric] by simp
  qed
  have neg: "i < 0 \<longleftrightarrow> 128 \<le> x"
    using be_int_fits(3) [of "a # b # r"] by (simp add: i_def x128)
  have "(x = 0 \<and> y < 128 \<or> x = 255 \<and> \<not> y < 128) \<longleftrightarrow> int_weight i < 256 ^ length (b # r)"
  proof (cases "128 \<le> x")
    case True
    then have i: "i = 256 * u + (z + R) - 65536 * P" "i < 0"
      using lo neg by (simp_all add: i_def)
    then have "int_weight i < 256 ^ length (b # r) \<longleftrightarrow> - 2 * (256 * u + (z + R) - 65536 * P) - 1 < 256 * P"
      unfolding w by simp
    also have "\<dots> \<longleftrightarrow> x = 255 \<and> \<not> y < 128"
    proof (cases "x = 255")
      case True
      then show ?thesis using y1 y2 R unfolding u_def by (cases "y < 128") auto
    next
      case False
      then show ?thesis using x2 y3 R P0 by auto
    qed
    finally show ?thesis using True by auto
  next
    case False
    then have i: "i = 256 * u + (z + R)" "0 \<le> i"
      using lo neg by (simp_all add: i_def)
    then have "int_weight i < 256 ^ length (b # r) \<longleftrightarrow> 2 * (256 * u + (z + R)) < 256 * P"
      unfolding w by simp
    also have "\<dots> \<longleftrightarrow> x = 0 \<and> y < 128"
    proof (cases "x = 0")
      case True
      then show ?thesis using y1 y2 R unfolding u_def by (cases "y < 128") auto
    next
      case False
      then show ?thesis using x1 y3 R P0 by auto
    qed
    finally show ?thesis using False by auto
  qed
  moreover have "(a = 0x00 \<and> b AND 0x80 = 0 \<or> a = 0xff \<and> b AND 0x80 \<noteq> 0) \<longleftrightarrow>
      (x = 0 \<and> y < 128 \<or> x = 255 \<and> \<not> y < 128)"
    using high_bit_byte [of b] unfolding x0 x255 y128 by blast
  moreover have "(a AND 0x80 \<noteq> 0) = (i < 0)"
    using high_bit_byte [of a] neg unfolding x128 by blast
  ultimately show ?thesis
    unfolding i_def [symmetric]
    by (simp only: CBS_is_valid_asn1_integer_def CBS_get_u8_Cons prod.case option.case Let_def)
qed

lemma valid_integer_iff:
  "CBS_is_valid_asn1_integer bs = (if bs \<noteq> [] \<and> bs = der_int (be_int bs) then Some (be_int bs < 0) else None)"
proof (cases bs)
  case Nil
  then show ?thesis by (simp add: CBS_is_valid_asn1_integer_def)
next
  case (Cons a r)
  define k where "k = length bs"
  have w: "byte_count (int_weight (be_int bs)) \<le> k"
    unfolding byte_count_le_iff k_def using be_int_fits(1) [of bs] Cons by simp
  have "be_bytes k (nat (be_int bs mod 256 ^ k)) = bs"
    using be_int_fits(2) [of bs] be_bytes_be_nat [of bs] Cons by (simp add: k_def)
  then have d: "bs = der_int (be_int bs) \<longleftrightarrow> max 1 (byte_count (int_weight (be_int bs))) = k"
    unfolding der_int_def Let_def by (metis k_def length_be_bytes)
  show ?thesis
  proof (cases r)
    case Nil
    then have "k = 1" by (simp add: k_def Cons)
    with w d have "bs = der_int (be_int bs)" by simp
    moreover have "be_int bs < 0 \<longleftrightarrow> a AND 0x80 \<noteq> 0"
      using be_int_fits(3) [of bs] Cons high_bit_byte [of a] by simp
    ultimately show ?thesis
      using Cons Nil by (simp add: CBS_is_valid_asn1_integer_def)
  next
    case (Cons b r')
    with \<open>bs = a # r\<close> have bs: "bs = a # b # r'" by simp
    have k: "2 \<le> k" "length (b # r') = k - 1" by (simp_all add: k_def bs)
    then have "bs = der_int (be_int bs) \<longleftrightarrow> \<not> int_weight (be_int bs) < 256 ^ length (b # r')"
      unfolding d k byte_count_le_iff [symmetric] using w by auto
    then show ?thesis
      using valid_integer_Cons2 [of a b r'] unfolding bs by auto
  qed
qed

lemma hd_be_nat:
  assumes "bs \<noteq> []"
  shows "128 \<le> unat (hd bs) \<longleftrightarrow> 256 ^ length bs \<le> 2 * be_nat bs"
proof -
  obtain a r where bs: "bs = a # r" using assms by (cases bs) auto
  define P where "P = (256::nat) ^ length r"
  have R: "be_nat r < P" using be_nat_less [of r] by (simp add: P_def)
  define z where "z = unat a * P"
  have "128 * P \<le> z" if "128 \<le> unat a" using that by (simp add: z_def)
  moreover have "z \<le> 127 * P" if "\<not> 128 \<le> unat a"
    unfolding z_def using that by (intro mult_right_mono) linarith+
  moreover have "256 ^ length bs = 256 * P" "be_nat bs = z + be_nat r"
    by (simp_all add: bs z_def P_def be_nat_Cons)
  ultimately show ?thesis
    using R unfolding bs list.sel by (cases "128 \<le> unat a") simp_all
qed

lemma der_int_not_Nil [simp]: "der_int i \<noteq> []"
proof -
  have "length (der_int i) \<noteq> 0"
    by (simp add: der_int_def Let_def max_def)
  then show ?thesis by force
qed

lemma be_int_der_int [simp]: "be_int (der_int i) = i"
proof -
  define k where "k = max 1 (byte_count (int_weight i))"
  define P where "P = (256::int) ^ k"
  have "byte_count (int_weight i) \<le> k" by (simp add: k_def)
  then have "int (int_weight i) < int (256 ^ k)"
    unfolding byte_count_le_iff by (simp only: of_nat_less_iff)
  then have w: "- P \<le> 2 * i" "2 * i < P"
    by (auto simp: int_weight_def P_def split: if_splits)
  have P0: "0 < P" by (simp add: P_def)
  have m: "i mod P = (if i < 0 then i + P else i)"
  proof (cases "i < 0")
    case True
    have "(i + P) mod P = i + P" using True w by (intro mod_pos_pos_trivial) auto
    then show ?thesis using True by simp
  next
    case False
    then show ?thesis using w by (simp add: mod_pos_pos_trivial)
  qed
  have "0 \<le> i mod P" "i mod P < P" using P0 by simp_all
  have n: "int (be_nat (der_int i)) = i mod P"
  proof -
    have "nat (i mod P) < 256 ^ k"
      using \<open>i mod P < P\<close> \<open>0 \<le> i mod P\<close> by (simp add: P_def nat_less_iff)
    moreover have "be_nat (der_int i) = nat (i mod P) mod 256 ^ k"
      unfolding der_int_def Let_def k_def [symmetric] P_def [symmetric] by (rule be_nat_be_bytes)
    ultimately show ?thesis
      using \<open>0 \<le> i mod P\<close> by simp
  qed
  have l: "length (der_int i) = k"
    by (simp add: der_int_def Let_def k_def)
  have "128 \<le> unat (hd (der_int i)) \<longleftrightarrow> int (256 ^ k) \<le> int (2 * be_nat (der_int i))"
    unfolding of_nat_le_iff hd_be_nat [OF der_int_not_Nil] l ..
  also have "\<dots> \<longleftrightarrow> P \<le> 2 * (i mod P)"
    using n by (simp add: P_def)
  also have "\<dots> \<longleftrightarrow> i < 0"
    unfolding m using w by auto
  finally show ?thesis
    unfolding be_int_def n l P_def [symmetric] by (simp add: m)
qed

lemma length_der_int: "- (256 ^ k) \<le> 2 * i \<Longrightarrow> 2 * i < 256 ^ k \<Longrightarrow> 1 \<le> k \<Longrightarrow> length (der_int i) \<le> k"
proof -
  assume i: "- (256 ^ k) \<le> 2 * i" "2 * i < 256 ^ k" "1 \<le> k"
  then have "int (int_weight i) < int (256 ^ k)"
    by (auto simp: int_weight_def)
  then have "byte_count (int_weight i) \<le> k"
    unfolding byte_count_le_iff by (simp only: of_nat_less_iff)
  with i show ?thesis
    by (simp add: der_int_def Let_def)
qed

lemma der_int_fits: "length (der_int i) \<le> k \<Longrightarrow> - (256 ^ k) \<le> 2 * i \<and> 2 * i < 256 ^ k"
proof -
  assume "length (der_int i) \<le> k"
  then have "byte_count (int_weight i) \<le> k"
    by (simp add: der_int_def Let_def)
  then have "int (int_weight i) < int (256 ^ k)"
    unfolding byte_count_le_iff by (simp only: of_nat_less_iff)
  then show ?thesis
    by (auto simp: int_weight_def split: if_splits)
qed

lemma asn1_uint64_loop_eq:
  "asn1_uint64_loop out bs =
     (if unat out * 256 ^ length bs + be_nat bs < 2 ^ 64
      then Some (word_of_nat (unat out * 256 ^ length bs + be_nat bs)) else None)"
proof (induction bs arbitrary: out)
  case Nil
  then show ?case using unsigned_less [of out] by (simp add: word_of_nat_unat)
next
  case (Cons b bs)
  define P where "P = (256::nat) ^ length bs"
  have P: "1 \<le> P" by (simp add: P_def)
  have e: "unat out * 256 ^ length (b # bs) + be_nat (b # bs) = (unat out * 256 + unat b) * P + be_nat bs"
    by (simp add: be_nat_Cons P_def algebra_simps)
  show ?case
  proof (cases "drop_bit 56 out = 0")
    case True
    then have "unat out < 2 ^ 56" by (simp add: drop_bit_eq_0_iff)
    then have "unat (push_bit 8 out OR ucast b) = unat out * 256 + unat b"
      using unat_byte_lt [of b] by (simp add: push_or_byte unat_word_ariths unat_ucast_byte)
    then show ?thesis
      using True Cons.IH [of "push_bit 8 out OR ucast b"] unfolding e by (simp add: P_def)
  next
    case False
    then have "2 ^ 56 \<le> unat out" by (simp add: drop_bit_eq_0_iff)
    then have "2 ^ 64 \<le> (unat out * 256 + unat b) * 1" by simp
    also have "\<dots> \<le> (unat out * 256 + unat b) * P" using P by (rule mult_le_mono2)
    finally show ?thesis
      using False unfolding e by simp
  qed
qed

lemma be_int_nonneg: "bs \<noteq> [] \<Longrightarrow> \<not> be_int bs < 0 \<Longrightarrow> be_int bs = int (be_nat bs)"
  using be_int_fits(3) [of bs] by (simp add: be_int_def)

lemma valid_tag_small: "valid_tag 0x1" "valid_tag 0x2" "valid_tag 0x4"
  by (simp_all add: valid_tag_def CBS_ASN1_CONSTRUCTED_def CBS_ASN1_TAG_SHIFT_def)

lemma uint64_codec:
  "canonical_codec CBS_get_asn1_uint64 (\<lambda>v. der_element CBS_ASN1_INTEGER (der_int (int (unat v)))) (\<lambda>_. True)"
proof -
  define dec where "dec = (\<lambda>bytes. if \<not> CBS_is_unsigned_asn1_integer bytes then None else asn1_uint64_loop 0 bytes)"
  have dec: "dec bytes = Some v \<longleftrightarrow> bytes = der_int (int (unat v))" for bytes v
  proof
    assume "dec bytes = Some v"
    then have b: "bytes \<noteq> []" "bytes = der_int (be_int bytes)" "\<not> be_int bytes < 0"
      and l: "asn1_uint64_loop 0 bytes = Some v"
      by (auto simp: dec_def CBS_is_unsigned_asn1_integer_def valid_integer_iff split: if_splits)
    from l have "unat v = be_nat bytes"
      by (auto simp: asn1_uint64_loop_eq unsigned_of_nat take_bit_nat_eq_self_iff split: if_splits)
    with b be_int_nonneg show "bytes = der_int (int (unat v))" by metis
  next
    assume b: "bytes = der_int (int (unat v))"
    then have "be_int bytes = int (unat v)" by simp
    then have "int (be_nat bytes) = int (unat v)"
      using be_int_nonneg [of bytes] b by simp
    then have "be_nat bytes = unat v" by (simp only: of_nat_eq_iff)
    then show "dec bytes = Some v"
      using b unsigned_less [of v]
      by (simp add: dec_def CBS_is_unsigned_asn1_integer_def valid_integer_iff asn1_uint64_loop_eq word_of_nat_unat)
  qed
  have eq: "CBS_get_asn1_uint64 = bind_r (CBS_get_asn1 CBS_ASN1_INTEGER) (\<lambda>bytes.
      case dec bytes of None \<Rightarrow> fail_r | Some v \<Rightarrow> ret_r v)"
    unfolding CBS_get_asn1_uint64_def dec_def by (intro arg_cong2 [of _ _ _ _ bind_r] ext) auto
  show ?thesis
  proof (unfold_locales, goal_cases)
    case (1 v t)
    have "length (der_int (int (unat v))) \<le> 9"
    proof (rule length_der_int)
      have "- 2361183241434822606848 \<le> uint v" "uint v < 2 ^ 64"
        using uint_lt2p [of v] order_trans [of "- 2361183241434822606848" 0 "uint v"] by simp_all
      then show "- (256 ^ 9) \<le> 2 * int (unat v)" "2 * int (unat v) < 256 ^ 9"
        by simp_all
    qed simp
    then have "length (der_int (int (unat v))) < 2 ^ 32" by simp
    moreover have "dec (der_int (int (unat v))) = Some v"
      using dec by blast
    ultimately show ?case
      unfolding eq by (simp add: asn1.dec_enc valid_tag_small)
  next
    case (2 s v t)
    then show ?case
      unfolding eq bind_r_eq_Some asn1.dec_iff by (auto simp: dec split: option.splits)
  qed
qed

interpretation uint64_element: canonical_codec CBS_get_asn1_uint64
    "\<lambda>v. der_element CBS_ASN1_INTEGER (der_int (int (unat v)))" "\<lambda>_. True"
  by (rule uint64_codec)

lemma be_int_extend:
  "bs \<noteq> [] \<Longrightarrow> be_int (replicate j (if be_int bs < 0 then 0xff else 0) @ bs) = be_int bs"
proof (induction j)
  case 0
  then show ?case by simp
next
  case (Suc j)
  let ?e = "if be_int bs < 0 then 0xff else 0 :: u8"
  define cs where "cs = replicate j ?e @ bs"
  have IH: "be_int cs = be_int bs" using Suc by (simp add: cs_def)
  have ne: "cs \<noteq> []" using Suc.prems by (simp add: cs_def)
  have "be_int (?e # cs) = be_int cs"
  proof (cases "be_int bs < 0")
    case True
    then have "128 \<le> unat (hd cs)" using be_int_fits(3) [OF ne] IH by simp
    then show ?thesis unfolding be_int_def [of cs] using True ne by (simp add: be_int_def [of "_ # cs"] be_nat_Cons)
  next
    case False
    then have "\<not> 128 \<le> unat (hd cs)" using be_int_fits(3) [OF ne] IH by simp
    then show ?thesis unfolding be_int_def [of cs] using False ne by (simp add: be_int_def [of "_ # cs"] be_nat_Cons)
  qed
  then show ?case
    using IH by (simp add: cs_def)
qed

lemma sint_be_word: "length bs = 8 \<Longrightarrow> sint (be_word bs) = be_int bs"
proof -
  assume l: "length bs = 8"
  then have ne: "bs \<noteq> []" by auto
  have u: "uint (be_word bs) = int (be_nat bs)"
    using unat_be_word [of bs] l by (metis le_refl of_nat_unat)
  have "sint (be_word bs) = (int (be_nat bs) + 2 ^ 63) mod 2 ^ 64 - 2 ^ 63"
    unfolding sint_uint u by (simp add: signed_take_bit_eq_take_bit_shift take_bit_eq_mod)
  also have "\<dots> = be_int bs"
  proof -
    have n: "int (be_nat bs) < 2 ^ 64"
      using be_nat_less [of bs] l by simp
    have "128 \<le> unat (hd bs) \<longleftrightarrow> 2 ^ 63 \<le> int (be_nat bs)"
      using hd_be_nat [OF ne] l by simp
    moreover have "(x + 2 ^ 63) mod 2 ^ 64 = (if 2 ^ 63 \<le> x then x - 2 ^ 63 else x + 2 ^ 63)"
      if "0 \<le> x" "x < 2 ^ 64" for x :: int
      using that mod_pos_pos_trivial [of "x + 2 ^ 63" "2 ^ 64"] mod_pos_pos_trivial [of "x - 2 ^ 63" "2 ^ 64"]
        mod_add_self2 [of "x - 2 ^ 63" "2 ^ 64"] by (auto simp: add.commute)
    ultimately show ?thesis
      using n l ne unfolding be_int_def by simp
  qed
  finally show ?thesis .
qed

lemma int64_codec:
  "canonical_codec CBS_get_asn1_int64 (\<lambda>v. der_element CBS_ASN1_INTEGER (der_int (sint v))) (\<lambda>_. True)"
proof -
  define f where "f = (\<lambda>bytes. replicate (8 - length bytes) (if be_int bytes < 0 then 0xff else 0 :: u8) @ bytes)"
  define dec where "dec = (\<lambda>bytes. if bytes \<noteq> [] \<and> bytes = der_int (be_int bytes) \<and> length bytes \<le> 8
      then Some (be_word (f bytes)) else None)"
  have sf: "sint (be_word (f bytes)) = be_int bytes" if "bytes \<noteq> []" "length bytes \<le> 8" for bytes
    using that by (simp add: f_def sint_be_word be_int_extend)
  have dec: "dec bytes = Some v \<longleftrightarrow> bytes = der_int (sint v)" for bytes v
  proof
    assume "dec bytes = Some v"
    then show "bytes = der_int (sint v)"
      using sf by (auto simp: dec_def split: if_splits)
  next
    assume b: "bytes = der_int (sint v)"
    have "- (2 ^ 63) \<le> sint v" "sint v < 2 ^ 63"
      using sint_ge [of v] sint_lt [of v] by simp_all
    then have "length bytes \<le> 8"
      unfolding b by (intro length_der_int) simp_all
    with b sf [of bytes] show "dec bytes = Some v"
      by (simp add: dec_def signed_word_eqI)
  qed
  have eq: "CBS_get_asn1_int64 = bind_r (CBS_get_asn1 CBS_ASN1_INTEGER) (\<lambda>bytes.
      case dec bytes of None \<Rightarrow> fail_r | Some v \<Rightarrow> ret_r v)"
    unfolding CBS_get_asn1_int64_def dec_def f_def
    by (intro arg_cong2 [of _ _ _ _ bind_r] ext) (auto simp: valid_integer_iff CBS_len_def)
  show ?thesis
  proof (unfold_locales, goal_cases)
    case (1 v t)
    have "length (der_int (sint v)) \<le> 8"
      using dec [of "der_int (sint v)" v] by (simp add: dec_def split: if_splits)
    then have "length (der_int (sint v)) < 2 ^ 32" by simp
    moreover have "dec (der_int (sint v)) = Some v"
      using dec by blast
    ultimately show ?case
      unfolding eq by (simp add: asn1.dec_enc valid_tag_small)
  next
    case (2 s v t)
    then show ?case
      unfolding eq bind_r_eq_Some asn1.dec_iff by (auto simp: dec split: option.splits)
  qed
qed

interpretation int64_element: canonical_codec CBS_get_asn1_int64
    "\<lambda>v. der_element CBS_ASN1_INTEGER (der_int (sint v))" "\<lambda>_. True"
  by (rule int64_codec)

lemma bool_codec:
  "canonical_codec CBS_get_asn1_bool (\<lambda>v. der_element CBS_ASN1_BOOLEAN [if v then 0xff else 0]) (\<lambda>_. True)"
proof (unfold_locales, goal_cases)
  case (1 v t)
  then show ?case
    by (simp add: CBS_get_asn1_bool_def asn1.dec_enc valid_tag_small CBS_len_def)
next
  case (2 s v t)
  then show ?case
    unfolding CBS_get_asn1_bool_def bind_r_eq_Some asn1.dec_iff
    by (auto simp: CBS_len_def Let_def length_Suc_conv split: if_splits)
qed

interpretation bool_element: canonical_codec CBS_get_asn1_bool
    "\<lambda>v. der_element CBS_ASN1_BOOLEAN [if v then 0xff else 0]" "\<lambda>_. True"
  by (rule bool_codec)

section \<open>Decimal numbers\<close>

definition horner10 :: "nat \<Rightarrow> u8 list \<Rightarrow> nat" where
  "horner10 v ds = foldl (\<lambda>n c. n * 10 + (unat c - 48)) v ds"

lemma horner10_simps [simp]:
  "horner10 v [] = v"
  "horner10 v (c # ds) = horner10 (v * 10 + (unat c - 48)) ds"
  by (simp_all add: horner10_def)

lemma horner10_mono: "v \<le> horner10 v ds"
proof (induction ds arbitrary: v)
  case (Cons c ds)
  have "v \<le> v * 10 + (unat c - 48)" by simp
  also have "\<dots> \<le> horner10 (v * 10 + (unat c - 48)) ds" by (rule Cons)
  finally show ?case by simp
qed simp

text \<open>The digits \<open>ds\<close> that a decimal number at the front of \<open>ds @ t\<close> consists of.\<close>

definition digits_of :: "u8 list \<Rightarrow> u8 list \<Rightarrow> bool" where
  "digits_of ds t \<longleftrightarrow> (\<forall>c\<in>set ds. OPENSSL_isdigit c) \<and> (t = [] \<or> \<not> OPENSSL_isdigit (hd t))"

definition no_leading_zero :: "u8 list \<Rightarrow> bool" where
  "no_leading_zero ds \<longleftrightarrow> (1 < length ds \<longrightarrow> hd ds \<noteq> 0x30)"

lemma digit_range: "OPENSSL_isdigit c \<longleftrightarrow> 48 \<le> unat c \<and> unat c \<le> 57"
  by (auto simp: OPENSSL_isdigit_def word_le_nat_alt)

lemma decimal_step:
  assumes "OPENSSL_isdigit c"
  shows "(v > UINT64_MAX div 10 \<or> v * 10 > UINT64_MAX - (ucast c - 0x30)) \<longleftrightarrow>
      \<not> unat v * 10 + (unat c - 48) < 2 ^ 64"
    and "unat v * 10 + (unat c - 48) < 2 ^ 64 \<Longrightarrow>
      unat (v * 10 + (ucast c - 0x30)) = unat v * 10 + (unat c - 48)"
proof -
  have r: "48 \<le> unat c" "unat c \<le> 57"
    using assms by (simp_all add: digit_range)
  have c: "unat (ucast c - 0x30 :: u64) = unat c - 48"
    using r by (simp add: unat_sub word_le_nat_alt unat_ucast_byte)
  have c9: "unat c - 48 \<le> 9"
    using r by linarith
  have m: "unat (UINT64_MAX - (ucast c - 0x30)) = 18446744073709551615 - (unat c - 48)"
    using c c9 by (subst unat_sub) (simp_all add: word_le_nat_alt)
  have d: "v > UINT64_MAX div 10 \<longleftrightarrow> 1844674407370955161 < unat v"
    by (simp add: word_less_nat_alt unat_div_distrib)
  show "(v > UINT64_MAX div 10 \<or> v * 10 > UINT64_MAX - (ucast c - 0x30)) \<longleftrightarrow>
      \<not> unat v * 10 + (unat c - 48) < 2 ^ 64"
  proof (cases "unat v \<le> 1844674407370955161")
    case True
    then have "unat (v * 10) = unat v * 10"
      by (simp add: unat_word_ariths)
    then have "v * 10 > UINT64_MAX - (ucast c - 0x30) \<longleftrightarrow> 18446744073709551615 - (unat c - 48) < unat v * 10"
      by (simp only: word_less_nat_alt m)
    with True c9 show ?thesis unfolding d by auto
  next
    case False
    then show ?thesis unfolding d by auto
  qed
  show "unat v * 10 + (unat c - 48) < 2 ^ 64 \<Longrightarrow>
      unat (v * 10 + (ucast c - 0x30)) = unat v * 10 + (unat c - 48)"
    by (simp add: unat_word_ariths c)
qed

lemma decimal_loop_iff:
  "\<not> seen \<longrightarrow> v = 0 \<Longrightarrow> u64_decimal_loop v seen s = (Some w, t) \<longleftrightarrow>
     (\<exists>ds. s = ds @ t \<and> digits_of ds t \<and> (seen \<or> ds \<noteq> []) \<and> (seen \<and> v = 0 \<longrightarrow> ds = []) \<and>
        (\<not> seen \<longrightarrow> no_leading_zero ds) \<and> unat w = horner10 (unat v) ds)"
proof (induction v seen s rule: u64_decimal_loop.induct)
  case (1 v seen)
  then show ?case
    by (auto simp: digits_of_def no_leading_zero_def word_unat_eq_iff)
next
  case (2 v seen c s)
  show ?case
  proof (cases "OPENSSL_isdigit c")
    case False
    then show ?thesis
      using 2(2) by (auto simp: digits_of_def no_leading_zero_def word_unat_eq_iff Cons_eq_append_conv)
  next
    case True
    let ?d = "unat c - 48"
    let ?v = "v * 10 + (ucast c - 0x30)"
    show ?thesis
    proof (cases "v = 0 \<and> seen \<or> \<not> unat v * 10 + ?d < 2 ^ 64")
      case bad: True
      have "u64_decimal_loop v seen (c # s) = (None, s)"
        using True bad decimal_step(1) [OF True, of v] by auto
      moreover have "\<not> (c # s = ds @ t \<and> digits_of ds t \<and> (seen \<or> ds \<noteq> []) \<and> (seen \<and> v = 0 \<longrightarrow> ds = []) \<and>
        (\<not> seen \<longrightarrow> no_leading_zero ds) \<and> unat w = horner10 (unat v) ds)" for ds
      proof
        assume a: "c # s = ds @ t \<and> digits_of ds t \<and> (seen \<or> ds \<noteq> []) \<and> (seen \<and> v = 0 \<longrightarrow> ds = []) \<and>
          (\<not> seen \<longrightarrow> no_leading_zero ds) \<and> unat w = horner10 (unat v) ds"
        with True obtain ds' where ds: "ds = c # ds'"
          by (cases ds) (auto simp: digits_of_def)
        then have "unat v * 10 + ?d \<le> unat w"
          using a horner10_mono [of "unat v * 10 + ?d" ds'] by simp
        moreover have "unat w < 2 ^ 64"
          using unsigned_less [of w] by simp
        ultimately have "unat v * 10 + ?d < 2 ^ 64"
          by (rule le_less_trans)
        with bad a ds show False by auto
      qed
      ultimately show ?thesis by auto
    next
      case ok: False
      then have u: "unat ?v = unat v * 10 + ?d"
        using decimal_step(2) [OF True, of v] by blast
      have step: "u64_decimal_loop v seen (c # s) = u64_decimal_loop ?v True s"
        using True ok decimal_step(1) [OF True, of v] by auto
      have IH: "u64_decimal_loop ?v True s = (Some w, t) \<longleftrightarrow>
        (\<exists>ds. s = ds @ t \<and> digits_of ds t \<and> (?v = 0 \<longrightarrow> ds = []) \<and> unat w = horner10 (unat ?v) ds)"
        using 2(1) True ok decimal_step(1) [OF True, of v] by simp
      have z: "?v = 0 \<longleftrightarrow> v = 0 \<and> c = 0x30"
        using u True by (auto simp: word_unat_eq_iff digit_range)
      have "(\<exists>ds. s = ds @ t \<and> digits_of ds t \<and> (?v = 0 \<longrightarrow> ds = []) \<and> unat w = horner10 (unat ?v) ds) \<longleftrightarrow>
        (\<exists>ds. c # s = ds @ t \<and> digits_of ds t \<and> (seen \<or> ds \<noteq> []) \<and> (seen \<and> v = 0 \<longrightarrow> ds = []) \<and>
        (\<not> seen \<longrightarrow> no_leading_zero ds) \<and> unat w = horner10 (unat v) ds)" (is "?l \<longleftrightarrow> ?r")
      proof
        assume ?l
        then obtain ds where "s = ds @ t" "digits_of ds t" "?v = 0 \<longrightarrow> ds = []" "unat w = horner10 (unat ?v) ds"
          by blast
        then show ?r
          using True ok 2(2) u z
          by (intro exI [of _ "c # ds"]) (auto simp: digits_of_def no_leading_zero_def)
      next
        assume ?r
        then obtain ds where d: "c # s = ds @ t" "digits_of ds t" "\<not> seen \<longrightarrow> no_leading_zero ds"
          "unat w = horner10 (unat v) ds" "seen \<or> ds \<noteq> []" by blast
        with True obtain ds' where "ds = c # ds'"
          by (cases ds) (auto simp: digits_of_def)
        with d True ok 2(2) u z show ?l
          by (intro exI [of _ ds']) (auto simp: digits_of_def no_leading_zero_def)
      qed
      then show ?thesis unfolding step IH .
    qed
  qed
qed

text \<open>\<open>CBS_get_u64_decimal\<close> reads the longest run of digits, and succeeds exactly when there is
  at least one digit, there is no leading zero, and the number fits in 64 bits; it gives that number.\<close>

theorem CBS_get_u64_decimal_iff:
  "CBS_get_u64_decimal s = (Some v, t) \<longleftrightarrow>
     (\<exists>ds. s = ds @ t \<and> ds \<noteq> [] \<and> digits_of ds t \<and> no_leading_zero ds \<and> unat v = horner10 0 ds)"
  unfolding CBS_get_u64_decimal_def by (subst decimal_loop_iff) auto

section \<open>Object identifiers\<close>

lemma valid_oid_loop_cont:
  "\<forall>d\<in>set ds. d < 128 \<Longrightarrow> (prev AND 0x80 = 0 \<longrightarrow> ds \<noteq> [] \<longrightarrow> hd ds \<noteq> 0) \<Longrightarrow> e < 128 \<Longrightarrow>
     valid_oid_loop prev (cont ds @ word_of_nat e # t) = valid_oid_loop (word_of_nat e) t"
proof (induction ds arbitrary: prev)
  case Nil
  have "(word_of_nat e :: u8) \<noteq> 0x80"
    using Nil by (simp add: word_unat_eq_iff unat_word_of_nat_byte)
  then show ?case by (simp add: cont_def)
next
  case (Cons d ds)
  define b where "b = (word_of_nat (128 + d) :: u8)"
  have b: "unat b = 128 + d"
    unfolding b_def by (rule unat_cont_byte) (use Cons.prems in simp)
  then have "b AND 0x80 \<noteq> 0" "\<not> (prev AND 0x80 = 0 \<and> b = 0x80)"
    using high_bit_byte [of b] Cons.prems by (auto simp: word_unat_eq_iff)
  moreover from this have "valid_oid_loop prev (b # r) = valid_oid_loop b r" for r
    by auto
  ultimately show ?case
    using Cons.IH [of b] Cons.prems by (simp add: cont_def b_def [symmetric] del: of_nat_add)
qed

lemma valid_oid_loop_b128:
  "prev AND 0x80 = 0 \<Longrightarrow> valid_oid_loop prev (b128 n @ t) \<longleftrightarrow> valid_oid_loop (word_of_nat (n mod 128)) t"
proof -
  assume p: "prev AND 0x80 = 0"
  obtain ds where "\<forall>d\<in>set ds. d < 128" "ds \<noteq> [] \<longrightarrow> hd ds \<noteq> 0" "b128_prefix (n div 128) = cont ds"
    using b128_digits by blast
  then show ?thesis
    using valid_oid_loop_cont [of ds prev "n mod 128" t] p by (simp add: b128_def)
qed

lemma low_byte_high_bit: "n < 128 \<Longrightarrow> word_of_nat n AND 0x80 = (0 :: u8)"
  using high_bit_byte [of "word_of_nat n"] by (auto simp: unat_word_of_nat_byte)

lemma valid_oid_loop_arcs:
  "prev AND 0x80 = 0 \<Longrightarrow> valid_oid_loop prev (concat (map b128 arcs))"
proof (induction arcs arbitrary: prev)
  case Nil
  then show ?case by simp
next
  case (Cons n arcs)
  then show ?case by (simp add: valid_oid_loop_b128 low_byte_high_bit)
qed

lemma valid_oid_loop_only:
  "valid_oid_loop prev s \<Longrightarrow>
     \<exists>ds e arcs. if prev AND 0x80 = 0 then s = concat (map b128 arcs)
       else (\<forall>d\<in>set ds. d < 128) \<and> e < 128 \<and> s = cont ds @ word_of_nat e # concat (map b128 arcs)"
proof (induction prev s rule: valid_oid_loop.induct)
  case (1 prev)
  then show ?case by (auto intro!: exI [of _ "[]"])
next
  case (2 prev v s)
  then have ok: "\<not> (prev AND 0x80 = 0 \<and> v = 0x80)" and r: "valid_oid_loop v s"
    by (auto split: if_splits)
  from "2.IH" [OF ok r] obtain ds e arcs where ih: "if v AND 0x80 = 0 then s = concat (map b128 arcs)
       else (\<forall>d\<in>set ds. d < 128) \<and> e < 128 \<and> s = cont ds @ word_of_nat e # concat (map b128 arcs)"
    by blast
  have "\<exists>ds e. (\<forall>d\<in>set ds. d < 128) \<and> (prev AND 0x80 = 0 \<longrightarrow> ds \<noteq> [] \<longrightarrow> hd ds \<noteq> 0) \<and> e < 128 \<and>
      v # s = cont ds @ word_of_nat e # concat (map b128 arcs)"
  proof (cases "v AND 0x80 = 0")
    case True
    then show ?thesis
      using ih high_bit_byte [of v]
      by (intro exI [of _ "[]"] exI [of _ "unat v"]) (simp add: cont_def word_of_nat_unat)
  next
    case False
    then have "128 \<le> unat v" using high_bit_byte [of v] by simp
    moreover from this have "unat v mod 128 = unat v - 128"
      using unat_byte_lt [of v] by (simp add: le_mod_geq)
    ultimately have "v = word_of_nat (128 + unat v mod 128)" "prev AND 0x80 = 0 \<longrightarrow> unat v mod 128 \<noteq> 0"
      using byte_cont [of v] ok by (auto simp: word_unat_eq_iff)
    with False ih show ?thesis
      by (intro exI [of _ "unat v mod 128 # ds"] exI [of _ e]) (simp add: cont_def del: of_nat_add)
  qed
  then obtain ds' e' where d: "\<forall>d\<in>set ds'. d < 128" "prev AND 0x80 = 0 \<longrightarrow> ds' \<noteq> [] \<longrightarrow> hd ds' \<noteq> 0" "e' < 128"
      "v # s = cont ds' @ word_of_nat e' # concat (map b128 arcs)" by blast
  show ?case
  proof (cases "prev AND 0x80 = 0")
    case True
    define n where "n = horner128 0 ds' * 128 + e'"
    have "b128 n = cont ds' @ [word_of_nat e']"
      using b128_prefix_horner [of ds' 0] d True by (simp add: b128_def n_def)
    with d True show ?thesis
      by (intro exI [of _ ds'] exI [of _ e'] exI [of _ "n # arcs"]) simp
  next
    case False
    with d show ?thesis by auto
  qed
qed

text \<open>\<open>CBS_is_valid_asn1_oid\<close> accepts exactly the strings that are a non-empty sequence of
  minimally encoded base-128 numbers, of any size.\<close>

theorem CBS_is_valid_asn1_oid_iff:
  "CBS_is_valid_asn1_oid s \<longleftrightarrow> (\<exists>arcs. arcs \<noteq> [] \<and> s = concat (map b128 arcs))"
proof
  assume "CBS_is_valid_asn1_oid s"
  then have "s \<noteq> []" "valid_oid_loop 0 s"
    by (auto simp: CBS_is_valid_asn1_oid_def CBS_len_def split: if_splits)
  with valid_oid_loop_only [of 0 s] obtain arcs where "s = concat (map b128 arcs)"
    by auto
  with \<open>s \<noteq> []\<close> show "\<exists>arcs. arcs \<noteq> [] \<and> s = concat (map b128 arcs)"
    by (intro exI [of _ arcs]) auto
next
  assume "\<exists>arcs. arcs \<noteq> [] \<and> s = concat (map b128 arcs)"
  then obtain arcs where "arcs \<noteq> []" "s = concat (map b128 arcs)" by blast
  moreover have "b128 n \<noteq> []" for n by (simp add: b128_def)
  ultimately show "CBS_is_valid_asn1_oid s"
    using valid_oid_loop_arcs [of 0 arcs]
    by (cases arcs) (auto simp: CBS_is_valid_asn1_oid_def CBS_len_def)
qed

text \<open>\<open>CBS_get_asn1_uint64\<close> accepts exactly the minimal two's complement encodings of the
  numbers below \<open>2 ^ 64\<close> in an element of tag INTEGER.\<close>

theorem CBS_get_asn1_uint64_iff:
  "CBS_get_asn1_uint64 s = (Some v, t) \<longleftrightarrow> s = der_element CBS_ASN1_INTEGER (der_int (int (unat v))) @ t"
  by (simp add: uint64_element.dec_iff)

text \<open>\<open>CBS_get_asn1_int64\<close> accepts exactly the minimal two's complement encodings of the
  numbers of an \<open>int64_t\<close>, negative ones included, and sign-extends them.\<close>

theorem CBS_get_asn1_int64_iff:
  "CBS_get_asn1_int64 s = (Some v, t) \<longleftrightarrow> s = der_element CBS_ASN1_INTEGER (der_int (sint v)) @ t"
  by (simp add: int64_element.dec_iff)

end
