(* ===== verification/Posix_Time.thy ===== *)
theory Posix_Time
  imports Bytes "HOL-Library.Signed_Division"
begin

text \<open>
  Model of \<^verbatim>\<open>crypto/asn1/posix_time.c\<close>: the conversion between POSIX time and the broken-down
  UTC time of a \<^verbatim>\<open>struct tm\<close>.

  The C types \<open>int\<close> and \<open>int64_t\<close> are \<^typ>\<open>int\<close>: every intermediate value of the functions
  stays inside its C type as soon as the date is valid, which the first guard of each function
  checks; the additions \<open>tm_year + 1900\<close> and \<open>tm_mon + 1\<close> before that guard are undefined in C
  for a field within 1900 of \<open>INT_MAX\<close> and are outside the model. Division truncates towards
  zero as in C (\<open>sdiv\<close> and \<open>smod\<close>). The targets have a 64-bit \<open>time_t\<close>, so the 32-bit range
  checks of \<open>OPENSSL_timegm\<close> are dead code.

  The lemmas show that the two conversions are inverse to each other on the years 0 to 9999.
\<close>

record tm =
  tm_sec :: int
  tm_min :: int
  tm_hour :: int
  tm_mday :: int
  tm_mon :: int
  tm_year :: int
  tm_wday :: int
  tm_yday :: int
  tm_isdst :: int

definition SECS_PER_HOUR :: int where
  "SECS_PER_HOUR = 60 * 60"

definition SECS_PER_DAY :: int where
  "SECS_PER_DAY = 24 * SECS_PER_HOUR"

definition is_valid_date :: "int \<Rightarrow> int \<Rightarrow> int \<Rightarrow> bool" where
  "is_valid_date year month day =
     (if day < 1 \<or> month < 1 \<or> year < 0 \<or> year > 9999 then False
      else if month \<in> {1, 3, 5, 7, 8, 10, 12} then day > 0 \<and> day \<le> 31
      else if month \<in> {4, 6, 9, 11} then day > 0 \<and> day \<le> 30
      else if month = 2 then
        (if year smod 4 = 0 \<and> year smod 100 \<noteq> 0 \<or> year smod 400 = 0
         then day > 0 \<and> day \<le> 29 else day > 0 \<and> day \<le> 28)
      else False)"

definition is_valid_time :: "int \<Rightarrow> int \<Rightarrow> int \<Rightarrow> bool" where
  "is_valid_time hours minutes seconds =
     (\<not> (hours < 0 \<or> minutes < 0 \<or> seconds < 0 \<or> hours > 23 \<or> minutes > 59 \<or> seconds > 59))"

definition is_valid_epoch_time :: "int \<Rightarrow> bool" where
  "is_valid_epoch_time time \<longleftrightarrow> - 62167219200 \<le> time \<and> time \<le> 253402300799"

definition posix_time_from_utc ::
    "int \<Rightarrow> int \<Rightarrow> int \<Rightarrow> int \<Rightarrow> int \<Rightarrow> int \<Rightarrow> int option" where
  "posix_time_from_utc year0 month day hours minutes seconds =
     (if \<not> is_valid_date year0 month day \<or> \<not> is_valid_time hours minutes seconds then None
      else
        let year = (if month \<le> 2 then year0 - 1 else year0);
            era = (if year \<ge> 0 then year else year - 399) sdiv 400;
            year_of_era = year - era * 400;
            day_of_year = (153 * (if month > 2 then month - 3 else month + 9) + 2) sdiv 5 + day - 1;
            day_of_era = year_of_era * 365 + year_of_era sdiv 4 - year_of_era sdiv 100 + day_of_year;
            posix_days = era * 146097 + day_of_era - 719468
        in Some (posix_days * SECS_PER_DAY + hours * SECS_PER_HOUR + minutes * 60 + seconds))"

definition utc_from_posix_time ::
    "int \<Rightarrow> (int \<times> int \<times> int \<times> int \<times> int \<times> int) option" where
  "utc_from_posix_time time =
     (if \<not> is_valid_epoch_time time then None
      else
        let days0 = time sdiv SECS_PER_DAY;
            leftover0 = time smod SECS_PER_DAY;
            (days1, leftover) =
              (if leftover0 < 0 then (days0 - 1, leftover0 + SECS_PER_DAY) else (days0, leftover0));
            days = days1 + 719468;
            era = (if days > 0 then days else days - 146096) sdiv 146097;
            day_of_era = days - era * 146097;
            year_of_era = (day_of_era - day_of_era sdiv 1460 + day_of_era sdiv 36524
                            - day_of_era sdiv 146096) sdiv 365;
            out_year = year_of_era + era * 400;
            day_of_year = day_of_era - (365 * year_of_era + year_of_era sdiv 4 - year_of_era sdiv 100);
            month_of_year = (5 * day_of_year + 2) sdiv 153;
            out_month = (if month_of_year < 10 then month_of_year + 3 else month_of_year - 9);
            out_year = (if out_month \<le> 2 then out_year + 1 else out_year);
            out_day = day_of_year - (153 * month_of_year + 2) sdiv 5 + 1;
            out_hours = leftover sdiv SECS_PER_HOUR;
            leftover = leftover smod SECS_PER_HOUR
        in Some (out_year, out_month, out_day, out_hours, leftover sdiv 60, leftover smod 60))"

definition OPENSSL_tm_to_posix :: "tm \<Rightarrow> int option" where
  "OPENSSL_tm_to_posix t =
     posix_time_from_utc (tm_year t + 1900) (tm_mon t + 1) (tm_mday t) (tm_hour t) (tm_min t)
       (tm_sec t)"

text \<open>The zeroed \<^verbatim>\<open>struct tm\<close> that \<open>memset\<close> leaves.\<close>

definition tm_zero :: tm where
  "tm_zero = \<lparr>tm_sec = 0, tm_min = 0, tm_hour = 0, tm_mday = 0, tm_mon = 0, tm_year = 0,
     tm_wday = 0, tm_yday = 0, tm_isdst = 0\<rparr>"

text \<open>The six fields a conversion stores, \<open>tm_year\<close> and \<open>tm_mon\<close> shifted as the C does.\<close>

definition set_utc :: "int \<times> int \<times> int \<times> int \<times> int \<times> int \<Rightarrow> tm \<Rightarrow> tm" where
  "set_utc u t =
     (case u of (y, mo, d, h, mi, s) \<Rightarrow>
        t\<lparr>tm_year := y - 1900, tm_mon := mo - 1, tm_mday := d, tm_hour := h, tm_min := mi,
          tm_sec := s\<rparr>)"

definition OPENSSL_posix_to_tm :: "int \<Rightarrow> tm option" where
  "OPENSSL_posix_to_tm time =
     (case utc_from_posix_time time of None \<Rightarrow> None | Some u \<Rightarrow> Some (set_utc u tm_zero))"

definition OPENSSL_timegm :: "tm \<Rightarrow> int option" where
  "OPENSSL_timegm t = OPENSSL_tm_to_posix t"

definition OPENSSL_gmtime :: "int \<Rightarrow> tm option" where
  "OPENSSL_gmtime time = OPENSSL_posix_to_tm time"

definition OPENSSL_gmtime_adj :: "tm \<Rightarrow> int \<Rightarrow> int \<Rightarrow> tm option" where
  "OPENSSL_gmtime_adj t off_day offset_sec =
     (case posix_time_from_utc (tm_year t + 1900) (tm_mon t + 1) (tm_mday t) (tm_hour t) (tm_min t)
             (tm_sec t) of
        None \<Rightarrow> None
      | Some posix_time \<Rightarrow>
          (case utc_from_posix_time (posix_time + off_day * SECS_PER_DAY + offset_sec) of
             None \<Rightarrow> None
           | Some u \<Rightarrow> Some (set_utc u t)))"

definition OPENSSL_gmtime_diff :: "tm \<Rightarrow> tm \<Rightarrow> (int \<times> int) option" where
  "OPENSSL_gmtime_diff from_tm to_tm =
     (case OPENSSL_tm_to_posix to_tm of
        None \<Rightarrow> None
      | Some time_to \<Rightarrow>
          (case OPENSSL_tm_to_posix from_tm of
             None \<Rightarrow> None
           | Some time_from \<Rightarrow>
               let timediff = time_to - time_from;
                   daydiff = timediff sdiv SECS_PER_DAY;
                   timediff = timediff smod SECS_PER_DAY
               in if daydiff > INT_MAX \<or> daydiff < INT_MIN then None
                  else Some (daydiff, timediff)))"


section \<open>Truncating and flooring division\<close>

lemma sdiv_nonneg: "0 \<le> a \<Longrightarrow> 0 < b \<Longrightarrow> a sdiv b = a div b" for a b :: int
  by (cases "a = 0") (simp_all add: signed_divide_int_def)

lemma smod_nonneg: "0 \<le> a \<Longrightarrow> 0 < b \<Longrightarrow> a smod b = a mod b" for a b :: int
  by (cases "a = 0") (simp_all add: signed_modulo_int_def)

lemma sdiv_neg_floor:
  fixes a b :: int
  assumes "a < 0" and "0 < b"
  shows "(a - (b - 1)) sdiv b = a div b"
proof -
  have "(b - 1 - a) div b = - (a div b)"
  proof (rule int_div_pos_eq)
    show "b - 1 - a = b * - (a div b) + (b - 1 - a mod b)"
      by (simp add: minus_mult_div_eq_mod [symmetric])
    show "0 \<le> b - 1 - a mod b" "b - 1 - a mod b < b"
      using pos_mod_bound [OF assms(2), of a] pos_mod_sign [OF assms(2), of a] by simp_all
  qed
  with assms show ?thesis
    by (simp add: signed_divide_int_def)
qed

lemma floor_era:
  fixes a b c :: int
  assumes "0 < b" and "c = b - 1"
  shows "(if a \<ge> 0 then a else a - c) sdiv b = a div b"
    and "(if a > 0 then a else a - c) sdiv b = a div b"
proof -
  show *: "(if a \<ge> 0 then a else a - c) sdiv b = a div b"
    using assms by (simp add: sdiv_nonneg sdiv_neg_floor)
  show "(if a > 0 then a else a - c) sdiv b = a div b"
  proof (cases "a = 0")
    case True
    with assms show ?thesis by (simp add: signed_divide_int_def)
  next
    case False
    with * show ?thesis by (simp split: if_splits)
  qed
qed

lemma smod_neg_div:
  fixes a b :: int
  assumes "0 < b"
  shows "(if a smod b < 0 then (a sdiv b - 1, a smod b + b) else (a sdiv b, a smod b)) = (a div b, a mod b)"
proof (cases "0 \<le> a")
  case True
  with assms show ?thesis
    by (simp add: sdiv_nonneg smod_nonneg not_less)
next
  case False
  with assms show ?thesis
    by (auto simp: signed_divide_int_eq_divide_int signed_modulo_int_eq_modulo_int)
qed

section \<open>Years of an era\<close>

definition year_start :: "int \<Rightarrow> int" where
  "year_start y = 365 * y + y div 4 - y div 100"

definition year_limit :: "int \<Rightarrow> int" where
  "year_limit y = (if y = 399 then 146097 else year_start (y + 1))"

definition yoe_num :: "int \<Rightarrow> int" where
  "yoe_num n = n - n div 1460 + n div 36524 - n div 146096"

lemma div_step:
  fixes b n :: int
  assumes "0 < b"
  shows "(n + 1) div b = n div b + of_bool (b dvd n + 1)"
proof (cases "b dvd n + 1")
  case True
  then obtain k where k: "n + 1 = b * k" by blast
  have "n div b = k - 1"
    by (rule int_div_pos_eq [where r = "b - 1"]) (use k assms in \<open>simp_all add: algebra_simps\<close>)
  with k True assms show ?thesis by simp
next
  case False
  have "(n + 1) mod b \<noteq> 0"
    using False by (simp add: mod_eq_0_iff_dvd)
  then have pos: "0 < (n + 1) mod b"
    using pos_mod_sign [OF assms, of "n + 1"] by simp
  have "n div b = (n + 1) div b"
  proof (rule int_div_pos_eq)
    show "n = b * ((n + 1) div b) + ((n + 1) mod b - 1)"
      using mult_div_mod_eq [of b "n + 1"] by linarith
  qed (use pos pos_mod_bound [OF assms, of "n + 1"] in simp_all)
  with False show ?thesis by simp
qed

lemma yoe_num_step: "yoe_num n \<le> yoe_num (n + 1)"
proof -
  have "146096 dvd n + 1 \<Longrightarrow> 36524 dvd n + 1"
    by (rule dvd_trans [of _ 146096]) simp_all
  then show ?thesis
    by (simp add: yoe_num_def div_step of_bool_def)
qed

lemma yoe_num_mono: "m \<le> n \<Longrightarrow> yoe_num m \<le> yoe_num n"
  by (induction rule: int_ge_induct) (auto intro: order_trans yoe_num_step)

lemma yoe_table:
  "\<forall>y \<in> {0..399}. 365 * y \<le> yoe_num (year_start y) \<and> yoe_num (year_limit y - 1) < 365 * (y + 1)"
  by code_simp

lemma yoe_lower:
  assumes "0 \<le> y" "y \<le> 399" "year_start y \<le> n"
  shows "365 * y \<le> yoe_num n"
proof -
  have "365 * y \<le> yoe_num (year_start y)"
    using yoe_table assms(1,2) by simp
  also have "\<dots> \<le> yoe_num n"
    by (rule yoe_num_mono [OF assms(3)])
  finally show ?thesis .
qed

lemma yoe_upper:
  assumes "0 \<le> y" "y \<le> 399" "n < year_limit y"
  shows "yoe_num n < 365 * (y + 1)"
proof -
  have "yoe_num n \<le> yoe_num (year_limit y - 1)"
    using assms(3) by (intro yoe_num_mono) simp
  also have "\<dots> < 365 * (y + 1)"
    using yoe_table assms(1,2) by simp
  finally show ?thesis .
qed

text \<open>The year of the era that the code computes is the one whose days hold the given day.\<close>

lemma year_of_era_unique:
  assumes "0 \<le> y" "y \<le> 399" "year_start y \<le> n" "n < year_limit y"
  shows "yoe_num n div 365 = y"
  using yoe_lower [OF assms(1-3)] yoe_upper [OF assms(1,2,4)]
  by (intro int_div_pos_eq [where r = "yoe_num n - 365 * y"]) simp_all

lemma year_of_era_range:
  assumes "0 \<le> n" "n < 146097"
  shows "0 \<le> yoe_num n div 365" "yoe_num n div 365 \<le> 399"
proof -
  have "365 * 0 \<le> yoe_num n"
    by (rule yoe_lower) (use assms in \<open>simp_all add: year_start_def\<close>)
  then show "0 \<le> yoe_num n div 365" by simp
  have "yoe_num n < 365 * (399 + 1)"
    by (rule yoe_upper) (use assms in \<open>simp_all add: year_limit_def\<close>)
  then show "yoe_num n div 365 \<le> 399" by simp
qed

lemma year_of_era_holds:
  assumes n: "0 \<le> n" "n < 146097"
  defines "y \<equiv> yoe_num n div 365"
  shows "year_start y \<le> n \<and> n < year_limit y"
proof -
  have y: "0 \<le> y" "y \<le> 399"
    unfolding y_def by (rule year_of_era_range [OF n])+
  have yy: "365 * y \<le> yoe_num n" "yoe_num n < 365 * (y + 1)"
    unfolding y_def by simp_all
  have "year_start y \<le> n"
  proof (rule ccontr)
    assume a: "\<not> year_start y \<le> n"
    with n(1) y have "0 < y"
      by (cases "y = 0") (simp_all add: year_start_def)
    with a y have "n < year_limit (y - 1)"
      by (simp add: year_limit_def)
    with y \<open>0 < y\<close> have "yoe_num n < 365 * (y - 1 + 1)"
      by (intro yoe_upper) simp_all
    with yy show False by simp
  qed
  moreover have "n < year_limit y"
  proof (rule ccontr)
    assume a: "\<not> n < year_limit y"
    with n(2) have ne: "y \<noteq> 399"
      by (auto simp: year_limit_def)
    with a y have "365 * (y + 1) \<le> yoe_num n"
      by (intro yoe_lower) (simp_all add: year_limit_def)
    with yy show False by simp
  qed
  ultimately show ?thesis ..
qed


section \<open>The proleptic Gregorian calendar with flooring division\<close>

definition leap :: "int \<Rightarrow> bool" where
  "leap y \<longleftrightarrow> y mod 4 = 0 \<and> y mod 100 \<noteq> 0 \<or> y mod 400 = 0"

definition month_days :: "int \<Rightarrow> int \<Rightarrow> int" where
  "month_days y m = (if m = 2 then if leap y then 29 else 28 else if m \<in> {4, 6, 9, 11} then 30 else 31)"

lemma month_cases:
  assumes "1 \<le> m" "m \<le> 12"
  shows "m = 1 \<or> m = 2 \<or> m = 3 \<or> m = 4 \<or> m = 5 \<or> m = 6 \<or> m = 7 \<or> m = 8 \<or> m = 9 \<or> m = 10
     \<or> m = 11 \<or> m = (12::int)"
  using assms by presburger

lemma is_valid_date_iff:
  "is_valid_date y m d \<longleftrightarrow> 0 \<le> y \<and> y \<le> 9999 \<and> 1 \<le> m \<and> m \<le> 12 \<and> 1 \<le> d \<and> d \<le> month_days y m"
proof (cases "1 \<le> m \<and> m \<le> 12")
  case True
  then show ?thesis
    using month_cases [of m]
    by (elim conjE disjE) (auto simp: is_valid_date_def month_days_def leap_def smod_nonneg)
next
  case False
  then show ?thesis
    by (auto simp: is_valid_date_def)
qed

lemma year_length:
  assumes "0 \<le> r" "r \<le> 399" and "(y - r - 1) mod 400 = 0"
  shows "year_limit r - year_start r = (if leap y then 366 else 365)"
proof -
  have m400: "y mod 400 = (r + 1) mod 400"
    using assms(3) by (metis diff_diff_add mod_0_imp_dvd mod_eq_dvd_iff)
  have m4: "y mod 4 = (r + 1) mod 4" "y mod 100 = (r + 1) mod 100"
    using arg_cong [OF m400, of "\<lambda>x. x mod 4"] arg_cong [OF m400, of "\<lambda>x. x mod 100"]
    by (simp_all add: mod_mod_cancel)
  note m4 = m4 m400
  show ?thesis
  proof (cases "r = 399")
    case True
    with m4 show ?thesis
      by (simp add: leap_def year_limit_def year_start_def)
  next
    case False
    with assms(1,2) have "(r + 1) mod 400 = r + 1" by simp
    moreover have "100 dvd r + 1 \<Longrightarrow> 4 dvd r + 1"
      by (rule dvd_trans [of _ 100]) simp_all
    ultimately show ?thesis
      using False assms(1,2) m4
      by (auto simp: leap_def year_limit_def year_start_def div_step mod_eq_0_iff_dvd of_bool_def)
  qed
qed

definition days_of :: "int \<Rightarrow> int \<Rightarrow> int \<Rightarrow> int" where
  "days_of y m d =
     (let y' = (if m \<le> 2 then y - 1 else y); mp = (if m > 2 then m - 3 else m + 9)
      in y' div 400 * 146097 + (year_start (y' mod 400) + ((153 * mp + 2) div 5 + d - 1)) - 719468)"

definition civil_at :: "int \<Rightarrow> int \<Rightarrow> int \<times> int \<times> int" where
  "civil_at era doe =
     (let yoe = yoe_num doe div 365; doy = doe - year_start yoe; mp = (5 * doy + 2) div 153;
          m = (if mp < 10 then mp + 3 else mp - 9)
      in (if m \<le> 2 then yoe + era * 400 + 1 else yoe + era * 400, m,
          doy - (153 * mp + 2) div 5 + 1))"

definition civil_of :: "int \<Rightarrow> int \<times> int \<times> int" where
  "civil_of days = civil_at ((days + 719468) div 146097) ((days + 719468) mod 146097)"

lemma civil_at_eq:
  assumes "yoe_num n div 365 = yoe" and "n - year_start yoe = doy" and "(5 * doy + 2) div 153 = mp"
    and "(if mp < 10 then mp + 3 else mp - 9) = m"
  shows "civil_at e n =
     (if m \<le> 2 then yoe + e * 400 + 1 else yoe + e * 400, m, doy - (153 * mp + 2) div 5 + 1)"
  unfolding civil_at_def Let_def assms by (rule refl)

lemma day_of_year_month:
  assumes "1 \<le> m" "m \<le> 12" "1 \<le> d" "d \<le> month_days y m"
  defines "mp \<equiv> if m > 2 then m - 3 else m + 9"
  defines "doy \<equiv> (153 * mp + 2) div 5 + d - 1"
  shows "0 \<le> doy \<and> (5 * doy + 2) div 153 = mp \<and> 0 \<le> mp \<and> mp \<le> 11
     \<and> doy < (if leap y \<or> 2 < m then 366 else 365) \<and> (2 < m \<longrightarrow> doy < 306)"
  using month_cases [OF assms(1,2)] assms(3,4)
  unfolding mp_def doy_def month_days_def
  by (elim disjE) (auto simp: leap_def)


lemma year_start_nonneg: "0 \<le> y \<Longrightarrow> 0 \<le> year_start y"
proof -
  assume y: "0 \<le> y"
  then have "y div 100 \<le> y" by linarith
  moreover have "0 \<le> y div 4" using y by simp
  ultimately show ?thesis using y by (simp add: year_start_def)
qed

lemma year_limit_le: "0 \<le> y \<Longrightarrow> y \<le> 399 \<Longrightarrow> year_limit y \<le> 146097"
proof -
  assume y: "0 \<le> y" "y \<le> 399"
  have "(y + 1) div 4 \<le> 400 div 4" "0 div 100 \<le> (y + 1) div 100"
    using y by (intro zdiv_mono1; simp)+
  then show ?thesis using y by (simp add: year_limit_def year_start_def)
qed

lemma civil_of_days_of:
  assumes "is_valid_date y m d"
  shows "civil_of (days_of y m d) = (y, m, d)"
proof -
  define y' where "y' = (if m \<le> 2 then y - 1 else y)"
  define mp where "mp = (if m > 2 then m - 3 else m + 9)"
  define doy where "doy = (153 * mp + 2) div 5 + d - 1"
  define n where "n = year_start (y' mod 400) + doy"
  have v: "1 \<le> m" "m \<le> 12" "1 \<le> d" "d \<le> month_days y m"
    using assms by (simp_all add: is_valid_date_iff)
  have doy: "0 \<le> doy" "(5 * doy + 2) div 153 = mp" "0 \<le> mp" "mp \<le> 11"
     "doy < (if leap y \<or> 2 < m then 366 else 365)" "2 < m \<longrightarrow> doy < 306"
    using day_of_year_month [OF v] unfolding mp_def doy_def by auto
  have yr: "0 \<le> y' mod 400" "y' mod 400 \<le> 399"
    using pos_mod_bound [of 400 y'] by simp_all
  have yl: "year_limit (y' mod 400) - year_start (y' mod 400) = (if leap (y' + 1) then 366 else 365)"
    using yr by (intro year_length) (simp_all add: mod_diff_left_eq)
  have n1: "year_start (y' mod 400) \<le> n" and n2: "n < year_limit (y' mod 400)"
  proof -
    show "year_start (y' mod 400) \<le> n"
      using doy(1) by (simp add: n_def)
    have "doy < (if leap (y' + 1) then 366 else 365)"
      using doy(5,6) by (cases "2 < m") (simp_all add: y'_def)
    with yl show "n < year_limit (y' mod 400)"
      by (simp add: n_def)
  qed
  have yoe: "yoe_num n div 365 = y' mod 400"
    by (rule year_of_era_unique [OF yr n1 n2])
  have n0: "0 \<le> n" "n < 146097"
    using n1 n2 year_start_nonneg [OF yr(1)] year_limit_le [OF yr] by simp_all
  have dd: "days_of y m d + 719468 = y' div 400 * 146097 + n"
    by (simp add: days_of_def y'_def mp_def doy_def n_def Let_def)
  have "(days_of y m d + 719468) div 146097 = y' div 400" "(days_of y m d + 719468) mod 146097 = n"
    unfolding dd using n0 by simp_all
  then have eq: "civil_of (days_of y m d) = civil_at (y' div 400) n"
    by (simp only: civil_of_def)
  have "n - year_start (y' mod 400) = doy"
    by (simp add: n_def)
  moreover have "(if mp < 10 then mp + 3 else mp - 9) = m"
    using v(1,2) by (auto simp: mp_def)
  ultimately have "civil_at (y' div 400) n =
      (if m \<le> 2 then y' mod 400 + y' div 400 * 400 + 1 else y' mod 400 + y' div 400 * 400, m,
       doy - (153 * mp + 2) div 5 + 1)"
    by (rule civil_at_eq [OF yoe _ doy(2)])
  then show ?thesis
    by (simp add: eq doy_def y'_def)
qed

lemma days_of_civil_of:
  assumes "civil_of days = (y, m, d)" and "- 719528 \<le> days" and "days \<le> 2932896"
  shows "is_valid_date y m d \<and> days_of y m d = days"
proof -
  define e where "e = (days + 719468) div 146097"
  define n where "n = (days + 719468) mod 146097"
  define yoe where "yoe = yoe_num n div 365"
  define doy where "doy = n - year_start yoe"
  define mp where "mp = (5 * doy + 2) div 153"
  have days: "days + 719468 = e * 146097 + n"
    by (simp add: e_def n_def)
  have n: "0 \<le> n" "n < 146097"
    by (simp_all add: n_def)
  have "civil_at e n = (y, m, d)"
    using assms(1) by (simp only: civil_of_def e_def n_def)
  then have raw: "(if mp < 10 then mp + 3 else mp - 9) = m"
      "(if m \<le> 2 then yoe + e * 400 + 1 else yoe + e * 400) = y" "doy - (153 * mp + 2) div 5 + 1 = d"
  proof -
    assume "civil_at e n = (y, m, d)"
    then have t: "(if (if mp < 10 then mp + 3 else mp - 9) \<le> 2 then yoe + e * 400 + 1 else yoe + e * 400) = y
       \<and> (if mp < 10 then mp + 3 else mp - 9) = m \<and> doy - (153 * mp + 2) div 5 + 1 = d"
      unfolding civil_at_eq [OF yoe_def [symmetric] doy_def [symmetric] mp_def [symmetric] refl]
        prod.inject .
    then show r: "(if mp < 10 then mp + 3 else mp - 9) = m" and "doy - (153 * mp + 2) div 5 + 1 = d"
      by (iprover)+
    from t have "(if (if mp < 10 then mp + 3 else mp - 9) \<le> 2 then yoe + e * 400 + 1 else yoe + e * 400) = y"
      by (rule conjunct1)
    then show "(if m \<le> 2 then yoe + e * 400 + 1 else yoe + e * 400) = y"
      unfolding r .
  qed
  note m = raw(1) [symmetric] and y = raw(2) [symmetric] and d = raw(3) [symmetric]
  note yr = year_of_era_range [OF n, folded yoe_def]
  note yh = year_of_era_holds [OF n, folded yoe_def]
  have yl: "year_limit yoe - year_start yoe = (if leap (yoe + e * 400 + 1) then 366 else 365)"
    using yr by (intro year_length) simp_all
  have doy: "0 \<le> doy" "doy < (if leap (yoe + e * 400 + 1) then 366 else 365)"
    using yh yl by (simp_all add: doy_def)
  have mp: "0 \<le> mp" "mp \<le> 11"
  proof -
    show "0 \<le> mp" using doy(1) by (simp add: mp_def)
    have "doy \<le> 365" using doy(2) by (simp split: if_splits)
    then have "mp \<le> (5 * 365 + 2) div 153"
      unfolding mp_def by (intro zdiv_mono1) simp_all
    then show "mp \<le> 11" by simp
  qed
  have e: "- 1 \<le> e" "e \<le> 24"
    using assms(2,3) days n by linarith+
  have dm: "1 \<le> d \<and> d \<le> month_days y m"
  proof -
    have b: "153 * mp \<le> 5 * doy + 2" "5 * doy + 2 < 153 * mp + 153"
      by (simp_all add: mp_def)
    have "mp = 0 \<or> mp = 1 \<or> mp = 2 \<or> mp = 3 \<or> mp = 4 \<or> mp = 5 \<or> mp = 6 \<or> mp = 7 \<or> mp = 8
        \<or> mp = 9 \<or> mp = 10 \<or> mp = 11"
      using mp by presburger
    then show ?thesis
      using b doy(2) by (elim disjE) (auto simp: d m y month_days_def split: if_splits)
  qed
  have lim: "year_limit yoe < 145735 \<or> yoe = 399"
  proof (cases "yoe = 399")
    case False
    have "(yoe + 1) div 4 \<le> 399 div 4" "0 div 100 \<le> (yoe + 1) div 100"
      using yr False by (intro zdiv_mono1; simp)+
    with False yr show ?thesis
      by (simp add: year_limit_def year_start_def)
  qed simp
  have lo: "e = - 1 \<Longrightarrow> yoe = 399 \<and> m \<le> 2"
  proof -
    assume "e = - 1"
    with days assms(2) have n1: "146037 \<le> n" by simp
    with lim yh have yoe: "yoe = 399" by auto
    with n1 have "306 \<le> doy" by (simp add: doy_def year_start_def)
    then have "(5 * 306 + 2) div 153 \<le> mp"
      unfolding mp_def by (intro zdiv_mono1) simp_all
    then show ?thesis using yoe mp by (simp add: m)
  qed
  have hi: "e = 24 \<Longrightarrow> yoe = 399 \<Longrightarrow> 2 < m"
  proof -
    assume "e = 24" and yoe: "yoe = 399"
    with days assms(3) have n1: "n \<le> 146036" by simp
    with yoe have "doy \<le> 305" by (simp add: doy_def year_start_def)
    then have "mp \<le> (5 * 305 + 2) div 153"
      unfolding mp_def by (intro zdiv_mono1) simp_all
    then show ?thesis using mp by (simp add: m)
  qed
  have "0 \<le> y"
    using lo yr e(1) by (cases "e = - 1") (auto simp: y)
  moreover have "y \<le> 9999"
    using hi yr e(2) by (cases "e = 24"; cases "yoe = 399") (auto simp: y)
  ultimately have yb: "0 \<le> y" "y \<le> 9999" .
  have mb: "1 \<le> m" "m \<le> 12"
    using mp by (auto simp: m)
  have mm: "(if m > 2 then m - 3 else m + 9) = mp"
    using mp by (auto simp: m)
  have yy: "(if m \<le> 2 then y - 1 else y) = yoe + e * 400"
    by (simp add: y)
  have "(yoe + e * 400) div 400 = e" "(yoe + e * 400) mod 400 = yoe"
    using yr by simp_all
  then have "days_of y m d = days"
    using days by (simp add: days_of_def mm yy d doy_def)
  with dm yb mb show ?thesis
    by (simp add: is_valid_date_iff)
qed

lemma days_before_year:
  "y div 400 * 146097 + year_start (y mod 400) = 365 * y + y div 4 - y div 100 + y div 400"
proof -
  have y: "y = y mod 400 + 100 * (y div 400) * 4" "y = y mod 400 + 4 * (y div 400) * 100"
    by simp_all
  have "y div 4 = y mod 400 div 4 + 100 * (y div 400)" "y div 100 = y mod 400 div 100 + 4 * (y div 400)"
    by (subst y(1), subst div_mult_self1, simp, simp) (subst y(2), subst div_mult_self1, simp, simp)
  then show ?thesis
    by (simp add: year_start_def minus_mult_div_eq_mod [symmetric])
qed

lemma days_of_range:
  assumes "is_valid_date y m d"
  shows "- 719528 \<le> days_of y m d" and "days_of y m d \<le> 2932896"
proof -
  define y' where "y' = (if m \<le> 2 then y - 1 else y)"
  define mp where "mp = (if m > 2 then m - 3 else m + 9)"
  define doy where "doy = (153 * mp + 2) div 5 + d - 1"
  have v: "1 \<le> m" "m \<le> 12" "1 \<le> d" "d \<le> month_days y m" and y: "0 \<le> y" "y \<le> 9999"
    using assms by (simp_all add: is_valid_date_iff)
  have doy: "0 \<le> doy" "doy < (if leap y \<or> 2 < m then 366 else 365)" "2 < m \<longrightarrow> doy < 306"
    using day_of_year_month [OF v] unfolding mp_def doy_def by auto
  then have doy': "doy \<le> 365" by (simp split: if_splits)
  have eq: "days_of y m d = 365 * y' + y' div 4 - y' div 100 + y' div 400 + doy - 719468"
    using days_before_year [of y'] by (simp add: days_of_def y'_def mp_def doy_def Let_def)
  show "days_of y m d \<le> 2932896"
  proof (cases "y' \<le> 9998")
    case True
    then have "y' div 4 \<le> 9998 div 4" "y' div 400 \<le> 9998 div 400" by (intro zdiv_mono1; simp)+
    moreover have "y' - 99 \<le> 100 * (y' div 100)" by linarith
    ultimately show ?thesis using True doy' eq by simp
  next
    case False
    then have y': "y' = 9999" and "2 < m"
      using y by (auto simp: y'_def split: if_splits)
    with doy eq show ?thesis by simp
  qed
  show "- 719528 \<le> days_of y m d"
  proof (cases "0 \<le> y'")
    case True
    have "y' div 100 \<le> y'" "0 \<le> y' div 4" "0 \<le> y' div 400" using True by linarith+
    with True doy(1) eq show ?thesis by simp
  next
    case False
    then have y': "y' = - 1" and m: "m \<le> 2"
      using y by (auto simp: y'_def split: if_splits)
    have "306 \<le> doy"
      using m v by (auto simp: doy_def mp_def dest: order_antisym [of "m - 2"] )
    with y' eq show ?thesis by simp
  qed
qed

section \<open>The two conversions over flooring division\<close>

lemma posix_time_from_utc_eq:
  "posix_time_from_utc y m d h mi s =
     (if is_valid_date y m d \<and> is_valid_time h mi s
      then Some (days_of y m d * 86400 + h * 3600 + mi * 60 + s) else None)"
proof (cases "is_valid_date y m d \<and> is_valid_time h mi s")
  case True
  then have v: "1 \<le> m" "m \<le> 12"
    by (simp_all add: is_valid_date_iff)
  have fl: "(if year \<ge> 0 then year else year - 399) sdiv 400 = year div 400" for year :: int
    by (rule floor_era) simp_all
  have m: "year - year div 400 * 400 = year mod 400" for year :: int
    by (simp add: minus_div_mult_eq_mod)
  have mp: "0 \<le> 153 * (if m > 2 then m - 3 else m + 9) + 2"
    using v by simp
  have pos: "(year mod 400) sdiv 4 = year mod 400 div 4" "(year mod 400) sdiv 100 = year mod 400 div 100"
    for year :: int
    by (simp_all add: sdiv_nonneg)
  from True show ?thesis
    unfolding posix_time_from_utc_def days_of_def Let_def fl m pos sdiv_nonneg [OF mp zero_less_numeral]
      year_start_def SECS_PER_DAY_def SECS_PER_HOUR_def
    by (simp add: algebra_simps)
next
  case False
  then show ?thesis
    by (auto simp: posix_time_from_utc_def)
qed

lemma utc_from_posix_time_eq:
  "utc_from_posix_time t =
     (if is_valid_epoch_time t
      then (case civil_of (t div 86400) of (y, m, d) \<Rightarrow>
              Some (y, m, d, t mod 86400 div 3600, t mod 86400 mod 3600 div 60, t mod 86400 mod 3600 mod 60))
      else None)"
proof (cases "is_valid_epoch_time t")
  case True
  have fl: "(if days > 0 then days else days - 146096) sdiv 146097 = days div 146097" for days :: int
    by (rule floor_era) simp_all
  have m: "days - days div 146097 * 146097 = days mod 146097" for days :: int
    by (simp add: minus_div_mult_eq_mod)
  have sp: "(if t smod 86400 < 0 then (t sdiv 86400 - 1, t smod 86400 + 86400)
              else (t sdiv 86400, t smod 86400)) = (t div 86400, t mod 86400)"
    by (rule smod_neg_div) simp
  have sec: "(t mod 86400) sdiv 3600 = t mod 86400 div 3600" "(t mod 86400) smod 3600 = t mod 86400 mod 3600"
     "(t mod 86400 mod 3600) sdiv 60 = t mod 86400 mod 3600 div 60"
     "(t mod 86400 mod 3600) smod 60 = t mod 86400 mod 3600 mod 60"
    by (simp_all add: sdiv_nonneg smod_nonneg)
  have spd: "SECS_PER_DAY = 86400" "SECS_PER_HOUR = 3600"
    by (simp_all add: SECS_PER_DAY_def SECS_PER_HOUR_def)
  obtain days leftover where dl: "days = t div 86400" "leftover = t mod 86400" by simp
  define n where "n = (days + 719468) mod 146097"
  have n: "0 \<le> n" by (simp add: n_def)
  have ys: "(n - n sdiv 1460 + n sdiv 36524 - n sdiv 146096) sdiv 365 = yoe_num n div 365"
    using yoe_num_mono [OF n] n by (simp add: sdiv_nonneg yoe_num_def)
  define yoe where "yoe = yoe_num n div 365"
  have nl: "n < 146097" by (simp add: n_def)
  note yr = year_of_era_range [OF n nl, folded yoe_def]
  note yh = year_of_era_holds [OF n nl, folded yoe_def]
  have yq: "yoe sdiv 4 = yoe div 4" "yoe sdiv 100 = yoe div 100"
    using yr by (simp_all add: sdiv_nonneg)
  define doy where "doy = n - year_start yoe"
  have doy: "n - (365 * yoe + yoe div 4 - yoe div 100) = doy"
    by (simp add: doy_def year_start_def)
  have d0: "0 \<le> doy" using yh by (simp add: doy_def)
  define mp where "mp = (5 * doy + 2) div 153"
  have mpq: "(5 * doy + 2) sdiv 153 = mp"
    using d0 by (simp add: sdiv_nonneg mp_def)
  have "0 \<le> mp" using d0 by (simp add: mp_def)
  then have dq: "(153 * mp + 2) sdiv 5 = (153 * mp + 2) div 5"
    by (simp add: sdiv_nonneg)
  have c: "civil_of days = (if (if mp < 10 then mp + 3 else mp - 9) \<le> 2
      then yoe + (days + 719468) div 146097 * 400 + 1 else yoe + (days + 719468) div 146097 * 400,
      if mp < 10 then mp + 3 else mp - 9, doy - (153 * mp + 2) div 5 + 1)"
    unfolding civil_of_def n_def [symmetric]
    by (rule civil_at_eq [OF yoe_def [symmetric] doy_def [symmetric] mp_def [symmetric] refl])
  from True show ?thesis
    unfolding utc_from_posix_time_def spd Let_def sp dl [symmetric] case_prod_conv fl m
      n_def [symmetric] ys yoe_def [symmetric] yq doy mpq dq sec [folded dl] c
    by simp
next
  case False
  then show ?thesis
    by (simp add: utc_from_posix_time_def)
qed


section \<open>Round trips\<close>

lemma day_second_split:
  fixes n x h mi s :: int
  assumes "is_valid_time h mi s"
  defines "x \<equiv> n * 86400 + h * 3600 + mi * 60 + s"
  shows "x div 86400 = n" "x mod 86400 div 3600 = h" "x mod 86400 mod 3600 div 60 = mi"
    "x mod 86400 mod 3600 mod 60 = s"
proof -
  have r: "0 \<le> h" "h \<le> 23" "0 \<le> mi" "mi \<le> 59" "0 \<le> s" "s \<le> 59"
    using assms(1) by (simp_all add: is_valid_time_def)
  have m: "x mod 86400 = h * 3600 + (mi * 60 + s)"
    unfolding x_def using r by (intro int_mod_pos_eq [where q = n]) simp_all
  show "x div 86400 = n"
    unfolding x_def using r by (intro int_div_pos_eq [where r = "h * 3600 + mi * 60 + s"]) simp_all
  have m2: "(h * 3600 + (mi * 60 + s)) mod 3600 = mi * 60 + s"
    using r by (intro int_mod_pos_eq [where q = h]) simp_all
  show "x mod 86400 div 3600 = h"
    unfolding m using r by (intro int_div_pos_eq [where r = "mi * 60 + s"]) simp_all
  show "x mod 86400 mod 3600 div 60 = mi"
    unfolding m m2 using r by (intro int_div_pos_eq [where r = s]) simp_all
  show "x mod 86400 mod 3600 mod 60 = s"
    unfolding m m2 using r by (intro int_mod_pos_eq [where q = mi]) simp_all
qed

lemma epoch_time_days: "is_valid_epoch_time t \<longleftrightarrow> - 719528 \<le> t div 86400 \<and> t div 86400 \<le> 2932896"
  unfolding is_valid_epoch_time_def by linarith

text \<open>
  C6. Every valid UTC date and time from the year 0 to the year 9999 has a POSIX time, that time is
  in the range the code accepts, and converting it back gives the date and time it came from.
\<close>

theorem utc_from_posix_time_from_utc:
  assumes "is_valid_date y m d" and "is_valid_time h mi s"
  shows "\<exists>t. posix_time_from_utc y m d h mi s = Some t \<and> is_valid_epoch_time t
     \<and> utc_from_posix_time t = Some (y, m, d, h, mi, s)"
  using assms days_of_range [OF assms(1)] civil_of_days_of [OF assms(1)]
  by (simp add: posix_time_from_utc_eq utc_from_posix_time_eq epoch_time_days
      day_second_split [OF assms(2)])

theorem utc_from_posix_time_from_utc_witness:
  "\<exists>t. posix_time_from_utc 2024 2 29 23 59 59 = Some t \<and> is_valid_epoch_time t
     \<and> utc_from_posix_time t = Some (2024, 2, 29, 23, 59, 59)"
  by (rule utc_from_posix_time_from_utc) (simp_all add: is_valid_date_iff month_days_def leap_def is_valid_time_def)

lemma posix_time_from_utc_from_posix_aux:
  assumes "is_valid_epoch_time t"
  shows "\<exists>y m d h mi s. utc_from_posix_time t = Some (y, m, d, h, mi, s) \<and>
     posix_time_from_utc y m d h mi s = Some t"
proof -
  obtain y m d where c: "civil_of (t div 86400) = (y, m, d)"
    by (cases "civil_of (t div 86400)")
  with assms days_of_civil_of [OF c] have v: "is_valid_date y m d" "days_of y m d = t div 86400"
    by (simp_all add: epoch_time_days)
  define r where "r = t mod 86400"
  define q where "q = r mod 3600"
  have rq: "0 \<le> r" "r < 86400" "0 \<le> q" "q < 3600"
    by (simp_all add: r_def q_def)
  have "r div 3600 \<le> 86399 div 3600" "q div 60 \<le> 3599 div 60"
    using rq by (intro zdiv_mono1; simp)+
  then have "is_valid_time (r div 3600) (q div 60) (q mod 60)"
    using rq by (simp add: is_valid_time_def not_less pos_imp_zdiv_nonneg_iff)
  moreover have "t div 86400 * 86400 + r div 3600 * 3600 + q div 60 * 60 + q mod 60 = t"
    using div_mult_mod_eq [of t 86400, folded r_def] div_mult_mod_eq [of r 3600, folded q_def]
      div_mult_mod_eq [of q 60] by linarith
  ultimately show ?thesis
    using v assms c unfolding utc_from_posix_time_eq posix_time_from_utc_eq r_def q_def by auto
qed


text \<open>Every POSIX time in the accepted range is converted to some UTC date and time, and that date
  and time is valid and converts back to the same POSIX time.
\<close>

theorem posix_time_from_utc_from_posix:
  assumes "is_valid_epoch_time t"
  shows "\<exists>y m d h mi s. utc_from_posix_time t = Some (y, m, d, h, mi, s) \<and>
     posix_time_from_utc y m d h mi s = Some t"
  using assms by (rule posix_time_from_utc_from_posix_aux)

theorem posix_time_from_utc_from_posix_witness:
  "\<exists>y m d h mi s. utc_from_posix_time (- 1) = Some (y, m, d, h, mi, s) \<and>
     posix_time_from_utc y m d h mi s = Some (- 1)"
  by (rule posix_time_from_utc_from_posix) (simp add: is_valid_epoch_time_def)

section \<open>Adjusting and comparing broken-down times\<close>

lemma tm_to_posix_set_utc:
  "OPENSSL_tm_to_posix (set_utc (y, mo, d, h, mi, s) t) = posix_time_from_utc y mo d h mi s"
  by (simp add: OPENSSL_tm_to_posix_def set_utc_def)

lemma gmtime_adj_posix:
  assumes "OPENSSL_gmtime_adj t off_day offset_sec = Some t'"
  shows "\<exists>p. OPENSSL_tm_to_posix t = Some p \<and>
     OPENSSL_tm_to_posix t' = Some (p + off_day * 86400 + offset_sec)"
proof -
  from assms obtain p u where p: "OPENSSL_tm_to_posix t = Some p"
    and u: "utc_from_posix_time (p + off_day * SECS_PER_DAY + offset_sec) = Some u" and t': "t' = set_utc u t"
    by (auto simp: OPENSSL_gmtime_adj_def OPENSSL_tm_to_posix_def split: option.splits)
  from u have "is_valid_epoch_time (p + off_day * SECS_PER_DAY + offset_sec)"
    by (simp add: utc_from_posix_time_def split: if_splits)
  from posix_time_from_utc_from_posix_aux [OF this] u t' p show ?thesis
    by (auto simp: tm_to_posix_set_utc SECS_PER_DAY_def SECS_PER_HOUR_def)
qed

lemma tm_to_posix_range: "OPENSSL_tm_to_posix t = Some p \<Longrightarrow> is_valid_epoch_time p"
  using days_of_range
  by (auto simp: OPENSSL_tm_to_posix_def posix_time_from_utc_eq epoch_time_days day_second_split
      split: if_splits)

text \<open>When \<open>OPENSSL_gmtime_adj\<close> moves a time by a number of days and seconds, \<open>OPENSSL_gmtime_diff\<close>
  between the old and the new time reports exactly that offset, and its two parts never have
  opposite signs.
\<close>

theorem gmtime_diff_adj:
  assumes "OPENSSL_gmtime_adj t off_day offset_sec = Some t'"
  shows "\<exists>days secs. OPENSSL_gmtime_diff t t' = Some (days, secs) \<and>
     days * SECS_PER_DAY + secs = off_day * SECS_PER_DAY + offset_sec \<and>
     \<bar>secs\<bar> < SECS_PER_DAY \<and> 0 \<le> days * secs"
proof -
  obtain p where p: "OPENSSL_tm_to_posix t = Some p"
      "OPENSSL_tm_to_posix t' = Some (p + off_day * 86400 + offset_sec)"
    using gmtime_adj_posix [OF assms] by blast
  define x where "x = off_day * 86400 + offset_sec"
  have "\<bar>x\<bar> \<le> 315569519999"
    using tm_to_posix_range [OF p(1)] tm_to_posix_range [OF p(2)]
    unfolding is_valid_epoch_time_def x_def by linarith
  then have "\<bar>x\<bar> div 86400 \<le> 315569519999 div 86400"
    by (intro zdiv_mono1) simp_all
  moreover have "0 \<le> \<bar>x\<bar> div 86400" by simp
  ultimately have r: "\<not> x sdiv 86400 > INT_MAX" "\<not> x sdiv 86400 < INT_MIN"
    by (cases x "0 :: int" rule: linorder_cases; auto simp: signed_divide_int_def)+
  have "OPENSSL_gmtime_diff t t' = Some (x sdiv 86400, x smod 86400)"
    using p r by (simp add: OPENSSL_gmtime_diff_def SECS_PER_DAY_def SECS_PER_HOUR_def x_def Let_def)
  moreover have "x sdiv 86400 * 86400 + x smod 86400 = x"
    by (rule sdiv_mult_smod_eq)
  moreover have "\<bar>x smod 86400\<bar> < 86400"
    using smod_int_range [of 86400 x] by auto
  moreover have "0 \<le> x sdiv 86400 * (x smod 86400)"
    by (simp add: signed_divide_int_def signed_modulo_int_def sgn_if)
  ultimately show ?thesis
    by (simp add: SECS_PER_DAY_def SECS_PER_HOUR_def x_def)
qed

theorem gmtime_diff_adj_witness:
  "\<exists>days secs. OPENSSL_gmtime_diff (tm_zero\<lparr>tm_year := 70, tm_mday := 1\<rparr>)
       (tm_zero\<lparr>tm_year := 69, tm_mon := 11, tm_mday := 29, tm_hour := 23\<rparr>) = Some (days, secs) \<and>
     days * SECS_PER_DAY + secs = - 3 * SECS_PER_DAY + 82800 \<and> \<bar>secs\<bar> < SECS_PER_DAY \<and> 0 \<le> days * secs"
  by (rule gmtime_diff_adj) code_simp

end
