(* ===== verification/Cbs_Time.thy ===== *)
theory Cbs_Time
  imports Der_Values Posix_Time
begin

text \<open>
  Model of the RFC 5280 time parsers at the end of \<^verbatim>\<open>crypto/bytestring/cbs.c\<close>. The parsers work
  on a copy of the CBS. \<open>out_tm\<close> is \<^const>\<open>None\<close> for a null pointer and otherwise the structure
  that the caller passes in; the result is the flag and the structure as it is left, which the code
  has already written to when the adjustment by the offset fails.
\<close>

definition cbs_get_two_digits :: "int reader" where
  "cbs_get_two_digits = bind_r CBS_get_u8 (\<lambda>first_digit.
     if \<not> OPENSSL_isdigit first_digit then fail_r
     else bind_r CBS_get_u8 (\<lambda>second_digit.
       if \<not> OPENSSL_isdigit second_digit then fail_r
       else ret_r ((int (unat first_digit) - 48) * 10 + (int (unat second_digit) - 48))))"

definition is_valid_day :: "int \<Rightarrow> int \<Rightarrow> int \<Rightarrow> bool" where
  "is_valid_day year month day =
     (if day < 1 then False
      else if month \<in> {1, 3, 5, 7, 8, 10, 12} then day \<le> 31
      else if month \<in> {4, 6, 9, 11} then day \<le> 30
      else if month = 2 then
        (if year smod 4 = 0 \<and> year smod 100 \<noteq> 0 \<or> year smod 400 = 0 then day \<le> 29 else day \<le> 28)
      else False)"

definition rfc5280_year :: "bool \<Rightarrow> int reader" where
  "rfc5280_year is_gentime =
     (if is_gentime
      then bind_r cbs_get_two_digits (\<lambda>tmp. let year = tmp * 100 in
             bind_r cbs_get_two_digits (\<lambda>tmp. ret_r (year + tmp)))
      else bind_r cbs_get_two_digits (\<lambda>tmp.
             let year = 1900 + tmp;
                 year = (if year < 1950 then year + 100 else year)
             in if year \<ge> 2050 then fail_r else ret_r year))"

definition rfc5280_fields :: "int \<Rightarrow> ((int \<times> int \<times> int \<times> int \<times> int \<times> int) \<times> u8) reader" where
  "rfc5280_fields year =
     bind_r cbs_get_two_digits (\<lambda>month. if month < 1 \<or> month > 12 then fail_r else
     bind_r cbs_get_two_digits (\<lambda>day. if \<not> is_valid_day year month day then fail_r else
     bind_r cbs_get_two_digits (\<lambda>hour. if hour > 23 then fail_r else
     bind_r cbs_get_two_digits (\<lambda>minute. if minute > 59 then fail_r else
     bind_r cbs_get_two_digits (\<lambda>sec. if sec > 59 then fail_r else
     bind_r CBS_get_u8 (\<lambda>tz. ret_r ((year, month, day, hour, minute, sec), tz)))))))"

definition rfc5280_offset :: "bool \<Rightarrow> u8 \<Rightarrow> int reader" where
  "rfc5280_offset allow_timezone_offset tz =
     (case (if tz = 0x5a then Some 0 else if tz = 0x2b then Some 1 else if tz = 0x2d then Some (- 1) else None) of
        None \<Rightarrow> fail_r
      | Some offset_sign \<Rightarrow>
          if offset_sign \<noteq> 0 then
            if \<not> allow_timezone_offset then fail_r
            else bind_r cbs_get_two_digits (\<lambda>offset_hours. if offset_hours > 23 then fail_r else
                 bind_r cbs_get_two_digits (\<lambda>offset_minutes. if offset_minutes > 59 then fail_r else
                 ret_r (offset_sign * (offset_hours * 3600 + offset_minutes * 60))))
          else ret_r 0)"

definition CBS_parse_rfc5280_time_internal :: "u8 list \<Rightarrow> bool \<Rightarrow> bool \<Rightarrow> tm option \<Rightarrow> bool \<times> tm option" where
  "CBS_parse_rfc5280_time_internal cbs is_gentime allow_timezone_offset out_tm =
     (case bind_r (rfc5280_year is_gentime) (\<lambda>year.
             bind_r (rfc5280_fields year) (\<lambda>(flds, tz).
               bind_r (rfc5280_offset allow_timezone_offset tz) (\<lambda>offset_seconds.
                 ret_r (flds, offset_seconds)))) cbs of
        (None, _) \<Rightarrow> (False, out_tm)
      | (Some (flds, offset_seconds), copy) \<Rightarrow>
          if CBS_len copy \<noteq> 0 then (False, out_tm)
          else (case out_tm of
                  None \<Rightarrow> (True, None)
                | Some t \<Rightarrow>
                    let t = set_utc flds t in
                    if offset_seconds \<noteq> 0 then
                      (case OPENSSL_gmtime_adj t 0 offset_seconds of
                         None \<Rightarrow> (False, Some t)
                       | Some t' \<Rightarrow> (True, Some t'))
                    else (True, Some t)))"

definition CBS_parse_generalized_time :: "u8 list \<Rightarrow> tm option \<Rightarrow> bool \<Rightarrow> bool \<times> tm option" where
  "CBS_parse_generalized_time cbs out_tm allow_timezone_offset =
     CBS_parse_rfc5280_time_internal cbs True allow_timezone_offset out_tm"

definition CBS_parse_utc_time :: "u8 list \<Rightarrow> tm option \<Rightarrow> bool \<Rightarrow> bool \<times> tm option" where
  "CBS_parse_utc_time cbs out_tm allow_timezone_offset =
     CBS_parse_rfc5280_time_internal cbs False allow_timezone_offset out_tm"

section \<open>The text of a time\<close>

definition two_digits :: "int \<Rightarrow> u8 list" where
  "two_digits n = [word_of_nat (48 + nat n div 10), word_of_nat (48 + nat n mod 10)]"

definition fields_text :: "int \<times> int \<times> int \<times> int \<times> int \<times> int \<Rightarrow> u8 list" where
  "fields_text u = (case u of (y, mo, d, h, mi, s) \<Rightarrow>
     two_digits mo @ two_digits d @ two_digits h @ two_digits mi @ two_digits s)"

definition generalized_text :: "int \<times> int \<times> int \<times> int \<times> int \<times> int \<Rightarrow> u8 list" where
  "generalized_text u = two_digits (fst u div 100) @ two_digits (fst u mod 100) @ fields_text u"

definition utc_text :: "int \<times> int \<times> int \<times> int \<times> int \<times> int \<Rightarrow> u8 list" where
  "utc_text u = two_digits (fst u mod 100) @ fields_text u"

definition valid_utc :: "int \<times> int \<times> int \<times> int \<times> int \<times> int \<Rightarrow> bool" where
  "valid_utc u = (case u of (y, mo, d, h, mi, s) \<Rightarrow> is_valid_date y mo d \<and> is_valid_time h mi s)"

lemma unat_digit48: "d < 10 \<Longrightarrow> unat (word_of_nat (48 + d) :: u8) = 48 + d"
  by (simp add: unat_word_of_nat_byte del: of_nat_add)

lemma two_digits_codec: "canonical_codec cbs_get_two_digits two_digits (\<lambda>n. 0 \<le> n \<and> n < 100)"
proof
  fix n :: int and t
  assume n: "0 \<le> n \<and> n < 100"
  define a b where "a = nat n div 10" and "b = nat n mod 10"
  have "nat n = a * 10 + b" by (simp add: a_def b_def)
  moreover have "a < 10" "b < 10"
    using n by (simp_all add: a_def b_def less_mult_imp_div_less nat_less_iff)
  ultimately have ab: "a < 10" "b < 10" "n = int a * 10 + int b"
    using n by linarith+
  have "cbs_get_two_digits (two_digits n @ t) = (Some (int a * 10 + int b), t)"
    using ab(1,2)
    by (simp add: cbs_get_two_digits_def two_digits_def a_def [symmetric] b_def [symmetric]
        digit_range unat_digit48 del: of_nat_add of_nat_unat) (simp add: of_nat_add)
  with ab(3) show "cbs_get_two_digits (two_digits n @ t) = (Some n, t)"
    by simp
next
  fix s n t
  assume "cbs_get_two_digits s = (Some n, t)"
  then obtain a b where s: "s = a # b # t" and d: "OPENSSL_isdigit a" "OPENSSL_isdigit b"
    and n: "n = (int (unat a) - 48) * 10 + (int (unat b) - 48)"
    unfolding cbs_get_two_digits_def bind_r_eq_Some CBS_get_u8_Some
    by (auto simp: bind_r_eq_Some CBS_get_u8_Some split: if_splits)
  obtain x y where xy: "unat a = 48 + x" "unat b = 48 + y" "x < 10" "y < 10"
    using d by (auto simp: digit_range le_iff_add)
  then have "n = int x * 10 + int y"
    by (simp add: n del: of_nat_unat)
  then have "nat n div 10 = x" "nat n mod 10 = y" "0 \<le> n" "n < 100"
    using xy(3,4) by (auto simp: nat_add_distrib nat_mult_distrib)
  moreover have "a = word_of_nat (48 + x)" "b = word_of_nat (48 + y)"
    using xy by (simp_all only: word_of_nat_eqI)
  ultimately show "(0 \<le> n \<and> n < 100) \<and> s = two_digits n @ t"
    by (simp add: s two_digits_def)
qed

interpretation two_digits: canonical_codec cbs_get_two_digits two_digits "\<lambda>n. 0 \<le> n \<and> n < 100"
  by (rule two_digits_codec)

lemma is_valid_date_day:
  "0 \<le> y \<Longrightarrow> y \<le> 9999 \<Longrightarrow> is_valid_date y mo d \<longleftrightarrow> 1 \<le> mo \<and> mo \<le> 12 \<and> is_valid_day y mo d"
  by (auto simp: is_valid_date_def is_valid_day_def)

lemma is_valid_day_le: "is_valid_day y mo d \<Longrightarrow> 1 \<le> d \<and> d \<le> 31"
  by (auto simp: is_valid_day_def split: if_splits)

text \<open>One field: two digits in a range.\<close>

lemma field_iff:
  "bind_r cbs_get_two_digits (\<lambda>n. if bad n then fail_r else g n) s = (Some v, t) \<longleftrightarrow>
     (\<exists>n r. 0 \<le> n \<and> n < 100 \<and> \<not> bad n \<and> s = two_digits n @ r \<and> g n r = (Some v, t))"
  unfolding bind_r_eq_Some two_digits.dec_iff by auto

lemma rfc5280_fields_iff:
  assumes "0 \<le> year" "year \<le> 9999"
  shows "rfc5280_fields year s = (Some (u, tz), t) \<longleftrightarrow>
     fst u = year \<and> valid_utc u \<and> s = fields_text u @ tz # t"
proof
  assume "rfc5280_fields year s = (Some (u, tz), t)"
  moreover obtain y mo d h mi sec where u: "u = (y, mo, d, h, mi, sec)" by (cases u) auto
  moreover note assms
  ultimately show "fst u = year \<and> valid_utc u \<and> s = fields_text u @ tz # t"
    unfolding rfc5280_fields_def field_iff u
    by (elim exE conjE)
      (simp add: bind_r_eq_Some CBS_get_u8_Some, elim exE conjE,
       simp add: fields_text_def valid_utc_def is_valid_date_day is_valid_time_def)
next
  assume a: "fst u = year \<and> valid_utc u \<and> s = fields_text u @ tz # t"
  obtain y mo d h mi sec where u: "u = (y, mo, d, h, mi, sec)" by (cases u) auto
  have v: "y = year" "1 \<le> mo" "mo \<le> 12" "is_valid_day y mo d" "0 \<le> h" "h \<le> 23" "0 \<le> mi" "mi \<le> 59" "0 \<le> sec" "sec \<le> 59"
    using a assms by (auto simp: u valid_utc_def is_valid_date_day is_valid_time_def)
  then have "1 \<le> d" "d \<le> 31" using is_valid_day_le by blast+
  with a v show "rfc5280_fields year s = (Some (u, tz), t)"
    by (simp add: u rfc5280_fields_def fields_text_def bind_r_def two_digits.dec_enc)
qed

lemma rfc5280_year_gen_iff:
  "rfc5280_year True s = (Some y, t) \<longleftrightarrow>
     0 \<le> y \<and> y \<le> 9999 \<and> s = two_digits (y div 100) @ two_digits (y mod 100) @ t"
proof
  assume "rfc5280_year True s = (Some y, t)"
  then obtain a b where "0 \<le> a" "a < 100" "0 \<le> b" "b < 100" "y = a * 100 + b" "s = two_digits a @ two_digits b @ t"
    by (auto simp: rfc5280_year_def bind_r_eq_Some two_digits.dec_iff)
  moreover from this have "y div 100 = a" "y mod 100 = b" by simp_all
  ultimately show "0 \<le> y \<and> y \<le> 9999 \<and> s = two_digits (y div 100) @ two_digits (y mod 100) @ t"
    by auto
next
  assume a: "0 \<le> y \<and> y \<le> 9999 \<and> s = two_digits (y div 100) @ two_digits (y mod 100) @ t"
  then have "0 \<le> y div 100" "y div 100 < 100" by (auto simp: div_less_iff_less_mult)
  with a show "rfc5280_year True s = (Some y, t)"
    by (simp add: rfc5280_year_def bind_r_def two_digits.dec_enc)
qed

lemma rfc5280_year_utc_iff:
  "rfc5280_year False s = (Some y, t) \<longleftrightarrow> 1950 \<le> y \<and> y \<le> 2049 \<and> s = two_digits (y mod 100) @ t"
proof
  assume "rfc5280_year False s = (Some y, t)"
  then obtain a r where "0 \<le> a" "a < 100" "s = two_digits a @ r"
      and r: "(if (if 1900 + a < 1950 then 1900 + a + 100 else 1900 + a) \<ge> 2050 then fail_r
        else ret_r (if 1900 + a < 1950 then 1900 + a + 100 else 1900 + a)) r = (Some y, t)"
    unfolding rfc5280_year_def bind_r_eq_Some two_digits.dec_iff Let_def if_False by blast
  then have a: "0 \<le> a" "a < 100" "s = two_digits a @ t" "y = (if a < 50 then 2000 + a else 1900 + a)"
    by (auto split: if_splits)
  have "(2000 + a) mod 100 = a" "(1900 + a) mod 100 = a"
    using a(1,2) mod_add_left_eq [of 2000 100 a] mod_add_left_eq [of 1900 100 a] by simp_all
  with a(4) have "y mod 100 = a" by simp
  with a show "1950 \<le> y \<and> y \<le> 2049 \<and> s = two_digits (y mod 100) @ t"
    by (auto split: if_splits)
next
  assume a: "1950 \<le> y \<and> y \<le> 2049 \<and> s = two_digits (y mod 100) @ t"
  have m: "y mod 100 = (if y < 2000 then y - 1900 else y - 2000)"
    using a mod_pos_pos_trivial [of "y - 1900" 100] mod_pos_pos_trivial [of "y - 2000" 100]
    by (auto simp: mod_diff_right_eq [symmetric, of y _ 100])
  with a show "rfc5280_year False s = (Some y, t)"
    by (simp add: rfc5280_year_def bind_r_def two_digits.dec_enc Let_def)
qed

text \<open>The offset behind the time: none, or a sign and \<open>hhmm\<close>.\<close>

definition offset_text :: "int \<Rightarrow> int \<Rightarrow> u8 list" where
  "offset_text oh om = two_digits oh @ two_digits om"

lemma rfc5280_offset_Z: "rfc5280_offset allow 0x5a s = (Some 0, s)"
  by (simp add: rfc5280_offset_def)


lemma rfc5280_offset_signed:
  "rfc5280_offset True tz s = (Some v, []) \<longleftrightarrow>
     tz = 0x5a \<and> v = 0 \<and> s = [] \<or>
     (\<exists>oh om. 0 \<le> oh \<and> oh \<le> 23 \<and> 0 \<le> om \<and> om \<le> 59 \<and> s = offset_text oh om \<and>
        (tz = 0x2b \<and> v = oh * 3600 + om * 60 \<or> tz = 0x2d \<and> v = - (oh * 3600 + om * 60)))"
proof -
  have r: "bind_r cbs_get_two_digits (\<lambda>oh. if oh > 23 then fail_r else
        bind_r cbs_get_two_digits (\<lambda>om. if om > 59 then fail_r else ret_r (f oh om))) s = (Some v, []) \<longleftrightarrow>
      (\<exists>oh om. 0 \<le> oh \<and> oh \<le> 23 \<and> 0 \<le> om \<and> om \<le> 59 \<and> s = offset_text oh om \<and> v = f oh om)" for f
  proof
    assume "bind_r cbs_get_two_digits (\<lambda>oh. if oh > 23 then fail_r else
        bind_r cbs_get_two_digits (\<lambda>om. if om > 59 then fail_r else ret_r (f oh om))) s = (Some v, [])"
    then obtain oh om where "0 \<le> oh" "oh \<le> 23" "0 \<le> om" "om \<le> 59" "s = two_digits oh @ two_digits om" "v = f oh om"
      unfolding field_iff by auto
    then show "\<exists>oh om. 0 \<le> oh \<and> oh \<le> 23 \<and> 0 \<le> om \<and> om \<le> 59 \<and> s = offset_text oh om \<and> v = f oh om"
      unfolding offset_text_def by blast
  next
    assume "\<exists>oh om. 0 \<le> oh \<and> oh \<le> 23 \<and> 0 \<le> om \<and> om \<le> 59 \<and> s = offset_text oh om \<and> v = f oh om"
    then obtain oh om where o: "0 \<le> oh" "oh \<le> 23" "0 \<le> om" "om \<le> 59" "s = offset_text oh om" "v = f oh om"
      by blast
    then show "bind_r cbs_get_two_digits (\<lambda>oh. if oh > 23 then fail_r else
        bind_r cbs_get_two_digits (\<lambda>om. if om > 59 then fail_r else ret_r (f oh om))) s = (Some v, [])"
      by (simp add: offset_text_def bind_r_def two_digits.dec_enc two_digits.dec_enc_nil)
  qed
  consider "tz = 0x5a" | "tz = 0x2b" | "tz = 0x2d" | "tz \<notin> {0x5a, 0x2b, 0x2d}" by blast
  then show ?thesis
    by cases (auto simp: rfc5280_offset_def r)
qed

section \<open>What the parsers accept\<close>

text \<open>The text of a time for either parser, and the years that each can express.\<close>

definition time_text :: "bool \<Rightarrow> int \<times> int \<times> int \<times> int \<times> int \<times> int \<Rightarrow> u8 list" where
  "time_text is_gentime u = (if is_gentime then generalized_text u else utc_text u)"

definition year_ok :: "bool \<Rightarrow> int \<Rightarrow> bool" where
  "year_ok is_gentime y \<longleftrightarrow> (if is_gentime then 0 \<le> y \<and> y \<le> 9999 else 1950 \<le> y \<and> y \<le> 2049)"

lemma body_iff:
  "bind_r (rfc5280_year g) (\<lambda>year. bind_r (rfc5280_fields year) (\<lambda>(flds, tz).
      bind_r (rfc5280_offset allow tz) (\<lambda>off. ret_r (flds, off)))) s = (Some (u, v), t) \<longleftrightarrow>
   (\<exists>tz r. year_ok g (fst u) \<and> valid_utc u \<and> s = time_text g u @ tz # r \<and> rfc5280_offset allow tz r = (Some v, t))"
proof -
  have y: "rfc5280_year g s = (Some y, r) \<longleftrightarrow>
      year_ok g y \<and> s = (if g then two_digits (y div 100) else []) @ two_digits (y mod 100) @ r" for y r s
    by (cases g) (simp_all add: rfc5280_year_gen_iff rfc5280_year_utc_iff year_ok_def)
  have f: "rfc5280_fields y r = (Some (u, tz), q) \<longleftrightarrow> fst u = y \<and> valid_utc u \<and> r = fields_text u @ tz # q"
    if "year_ok g y" for y r tz q and u :: "int \<times> int \<times> int \<times> int \<times> int \<times> int"
    using that by (intro rfc5280_fields_iff) (auto simp: year_ok_def split: if_splits)
  show ?thesis
  proof
    assume "bind_r (rfc5280_year g) (\<lambda>year. bind_r (rfc5280_fields year) (\<lambda>(flds, tz).
      bind_r (rfc5280_offset allow tz) (\<lambda>off. ret_r (flds, off)))) s = (Some (u, v), t)"
    then obtain y r flds tz q where "rfc5280_year g s = (Some y, r)" and fl: "rfc5280_fields y r = (Some (flds, tz), q)"
      and o: "bind_r (rfc5280_offset allow tz) (\<lambda>off. ret_r (flds, off)) q = (Some (u, v), t)"
      unfolding bind_r_eq_Some [of "rfc5280_year g"] bind_r_eq_Some [of "rfc5280_fields _"] by auto
    then have yk: "year_ok g y" "s = (if g then two_digits (y div 100) else []) @ two_digits (y mod 100) @ r"
      by (simp_all only: y)
    from o have "flds = u" "rfc5280_offset allow tz q = (Some v, t)"
      by (auto simp: bind_r_eq_Some)
    with yk fl [unfolded f [OF yk(1)]] show "\<exists>tz r. year_ok g (fst u) \<and> valid_utc u \<and> s = time_text g u @ tz # r \<and>
        rfc5280_offset allow tz r = (Some v, t)"
      by (intro exI [of _ tz] exI [of _ q]) (auto simp: time_text_def generalized_text_def utc_text_def)
  next
    assume "\<exists>tz r. year_ok g (fst u) \<and> valid_utc u \<and> s = time_text g u @ tz # r \<and>
        rfc5280_offset allow tz r = (Some v, t)"
    then obtain tz r where a: "year_ok g (fst u)" "valid_utc u" "s = time_text g u @ tz # r"
        "rfc5280_offset allow tz r = (Some v, t)" by blast
    then have "rfc5280_year g s = (Some (fst u), fields_text u @ tz # r)"
      by (simp add: y time_text_def generalized_text_def utc_text_def)
    moreover have "rfc5280_fields (fst u) (fields_text u @ tz # r) = (Some (u, tz), r)"
      using a by (simp add: f)
    ultimately show "bind_r (rfc5280_year g) (\<lambda>year. bind_r (rfc5280_fields year) (\<lambda>(flds, tz).
      bind_r (rfc5280_offset allow tz) (\<lambda>off. ret_r (flds, off)))) s = (Some (u, v), t)"
      using a(4) by simp
  qed
qed

section \<open>What the parsers store\<close>

text \<open>The seconds since 1970 of a UTC time, and how \<open>OPENSSL_gmtime_adj\<close> moves it.\<close>

definition posix_time :: "int \<times> int \<times> int \<times> int \<times> int \<times> int \<Rightarrow> int option" where
  "posix_time u = (case u of (y, mo, d, h, mi, s) \<Rightarrow> posix_time_from_utc y mo d h mi s)"

lemma posix_time_tm: "OPENSSL_tm_to_posix (set_utc u t) = posix_time u"
  by (cases u) (simp add: posix_time_def tm_to_posix_set_utc)

lemma posix_time_valid: "posix_time u \<noteq> None \<longleftrightarrow> valid_utc u"
  by (cases u) (simp add: posix_time_def valid_utc_def posix_time_from_utc_eq)

lemma posix_time_inverse: "posix_time u = Some p \<longleftrightarrow> utc_from_posix_time p = Some u"
proof
  assume u: "posix_time u = Some p"
  obtain y mo d h mi s where [simp]: "u = (y, mo, d, h, mi, s)" by (cases u) auto
  have v: "is_valid_date y mo d" "is_valid_time h mi s" and p: "p = days_of y mo d * 86400 + h * 3600 + mi * 60 + s"
    using u by (simp_all add: posix_time_def posix_time_from_utc_eq split: if_splits)
  show "utc_from_posix_time p = Some u"
    using days_of_range [OF v(1)] civil_of_days_of [OF v(1)]
    by (simp add: p utc_from_posix_time_eq epoch_time_days day_second_split [OF v(2)])
next
  assume u: "utc_from_posix_time p = Some u"
  then have "is_valid_epoch_time p"
    by (simp add: utc_from_posix_time_def split: if_splits)
  from posix_time_from_utc_from_posix_aux [OF this] u show "posix_time u = Some p"
    by (auto simp: posix_time_def)
qed


lemma set_utc_again: "set_utc u' (set_utc u t) = set_utc u' t"
  by (cases u, cases u') (simp add: set_utc_def)

lemma gmtime_adj_iff:
  "OPENSSL_gmtime_adj (set_utc u t0) 0 off = Some t \<longleftrightarrow>
     (\<exists>p u'. posix_time u = Some p \<and> posix_time u' = Some (p + off) \<and> t = set_utc u' t0)"
proof -
  have p: "posix_time_from_utc (tm_year v + 1900) (tm_mon v + 1) (tm_mday v) (tm_hour v) (tm_min v) (tm_sec v)
      = OPENSSL_tm_to_posix v" for v
    by (simp add: OPENSSL_tm_to_posix_def)
  show ?thesis
    unfolding OPENSSL_gmtime_adj_def p posix_time_tm
    by (auto simp: posix_time_inverse [of _ "_ + off"] set_utc_again split: option.splits)
qed









lemma body_offset:
  assumes "year_ok g (fst u)" and "valid_utc u" and "0 \<le> oh" and "oh \<le> 23" and "0 \<le> om" and "om \<le> 59"
    and "tz = 0x2b \<or> tz = 0x2d"
  shows "bind_r (rfc5280_year g) (\<lambda>year. bind_r (rfc5280_fields year) (\<lambda>(flds, tz).
      bind_r (rfc5280_offset True tz) (\<lambda>off. ret_r (flds, off)))) (time_text g u @ tz # offset_text oh om) =
    (Some (u, (if tz = 0x2b then 1 else - 1) * (oh * 3600 + om * 60)), [])"
proof -
  have "rfc5280_offset True tz (offset_text oh om) =
      (Some ((if tz = 0x2b then 1 else - 1) * (oh * 3600 + om * 60)), [])"
    unfolding rfc5280_offset_signed using assms(3-) by auto
  then show ?thesis
    unfolding body_iff using assms(1,2) by blast
qed

text \<open>C35. What the code stores for a time with the offset \<open>+hhmm\<close> is the time that lies \<open>hhmm\<close> after the written
  one, and for \<open>-hhmm\<close> the one before it: the offset is added. This disagrees with \<^verbatim>\<open>bytestring.h\<close>, which promises the
  corresponding time in UTC: a time that is written with \<open>+hhmm\<close> is ahead of UTC, so that its UTC time lies \<open>hhmm\<close>
  before it. So, for \<open>p\<close> seconds of the written time and an offset of \<open>v\<close> seconds, \<open>p + v\<close> is stored, which is the
  promised \<open>p - v\<close> only if \<open>v\<close> is zero.\<close>

theorem CBS_parse_time_adds_offset:
  assumes "(if g then CBS_parse_generalized_time else CBS_parse_utc_time)
      (time_text g u @ tz # offset_text oh om) (Some t0) True = (True, Some t)"
    and "year_ok g (fst u)" and "valid_utc u" and "0 \<le> oh" and "oh \<le> 23" and "0 \<le> om" and "om \<le> 59"
    and "tz = 0x2b \<or> tz = 0x2d" and "v = (if tz = 0x2b then 1 else - 1) * (oh * 3600 + om * 60)"
  shows "\<exists>p. OPENSSL_tm_to_posix (set_utc u t0) = Some p \<and> OPENSSL_tm_to_posix t = Some (p + v) \<and>
    (OPENSSL_tm_to_posix t = Some (p - v) \<longleftrightarrow> v = 0)"
proof -
  have a: "CBS_parse_rfc5280_time_internal (time_text g u @ tz # offset_text oh om) g True (Some t0) = (True, Some t)"
    using assms(1) by (cases g) (simp_all add: CBS_parse_generalized_time_def CBS_parse_utc_time_def)
  note b = body_offset [OF assms(2-8), folded assms(9)]
  obtain p where p: "posix_time u = Some p"
    using assms(3) posix_time_valid by blast
  have "\<exists>p u'. posix_time u = Some p \<and> posix_time u' = Some (p + v) \<and> t = set_utc u' t0"
  proof (cases "v = 0")
    case True
    then have "t = set_utc u t0"
      using a by (simp add: CBS_parse_rfc5280_time_internal_def b CBS_len_def)
    with True p show ?thesis by (intro exI [of _ p] exI [of _ u]) simp
  next
    case False
    then have "OPENSSL_gmtime_adj (set_utc u t0) 0 v = Some t"
      using a by (auto simp: CBS_parse_rfc5280_time_internal_def b CBS_len_def Let_def split: option.splits)
    then show ?thesis
      unfolding gmtime_adj_iff .
  qed
  with p show ?thesis
    by (auto simp: posix_time_tm)
qed

lemma CBS_parse_time_adds_offset_witness:
  "\<exists>t. CBS_parse_generalized_time (time_text True (2000, 1, 1, 0, 0, 0) @ 0x2b # offset_text 1 0) (Some tm_zero) True =
       (True, Some t) \<and> OPENSSL_tm_to_posix t = Some (946684800 + 3600)"
proof -
  let ?u = "(2000, 1, 1, 0, 0, 0)"
  let ?s = "time_text True ?u @ 0x2b # offset_text 1 0"
  have v: "year_ok True (fst ?u)" "valid_utc ?u" by code_simp+
  have "OPENSSL_gmtime_adj (set_utc ?u tm_zero) 0 3600 \<noteq> None" by code_simp
  then obtain t where adj: "OPENSSL_gmtime_adj (set_utc ?u tm_zero) 0 3600 = Some t" by blast
  have t: "(if True then CBS_parse_generalized_time else CBS_parse_utc_time) ?s (Some tm_zero) True = (True, Some t)"
    using body_offset [OF v, of 1 0 "0x2b"] adj
    by (simp add: CBS_parse_generalized_time_def CBS_parse_rfc5280_time_internal_def CBS_len_def Let_def)
  have "OPENSSL_tm_to_posix (set_utc ?u tm_zero) = Some 946684800" by code_simp
  then show ?thesis
    using CBS_parse_time_adds_offset [OF t v, of 3600] t by simp
qed

end
