(* ===== verification/Mem.thy ===== *)
theory Mem
  imports Cbs
begin

text \<open>
  Model of the rest of \<^verbatim>\<open>crypto/mem.c\<close>: the allocator's wrappers and the string functions.

  A block is the list of its bytes, a pointer that may be null an option. The \<^verbatim>\<open>malloc\<close> of the C
  library is a parameter: it gives the contents of a new block, or \<^const>\<open>None\<close>. The length
  that \<^verbatim>\<open>OPENSSL_malloc\<close> stores in front of a block is the length of the list. The weak symbols
  that replace the allocator are null in this configuration, and the allocation-failure test is
  off. \<^verbatim>\<open>OPENSSL_free\<close> and \<^verbatim>\<open>OPENSSL_cleanse\<close> have no effect on what the model keeps.

  A C string is a list with a zero byte in it; reading past the end of the list is
  \<^const>\<open>None\<close>. A \<^verbatim>\<open>char\<close> is signed: where the code compares characters, it compares their
  \<^const>\<open>sint\<close>.
\<close>

section \<open>Blocks\<close>

type_synonym heap = "nat \<Rightarrow> u8 list option"

abbreviation OPENSSL_MALLOC_PREFIX :: nat where "OPENSSL_MALLOC_PREFIX \<equiv> 8"

definition OPENSSL_malloc :: "heap \<Rightarrow> nat \<Rightarrow> u8 list option" where
  "OPENSSL_malloc malloc sz =
     (if (sz + OPENSSL_MALLOC_PREFIX) mod size_mod < sz then None
      else case malloc ((sz + OPENSSL_MALLOC_PREFIX) mod size_mod) of
          None \<Rightarrow> None
        | Some ptr \<Rightarrow> Some (drop OPENSSL_MALLOC_PREFIX ptr))"

definition OPENSSL_zalloc :: "heap \<Rightarrow> nat \<Rightarrow> u8 list option" where
  "OPENSSL_zalloc malloc sz =
     (case OPENSSL_malloc malloc sz of None \<Rightarrow> None | Some ret \<Rightarrow> Some (replicate sz 0))"

definition OPENSSL_calloc :: "heap \<Rightarrow> nat \<Rightarrow> nat \<Rightarrow> u8 list option" where
  "OPENSSL_calloc malloc num sz =
     (if sz \<noteq> 0 \<and> num > (size_mod - 1) div sz then None
      else OPENSSL_zalloc malloc ((num * sz) mod size_mod))"

definition OPENSSL_realloc :: "heap \<Rightarrow> u8 list option \<Rightarrow> nat \<Rightarrow> u8 list option" where
  "OPENSSL_realloc malloc orig_ptr new_size =
     (case orig_ptr of
        None \<Rightarrow> OPENSSL_malloc malloc new_size
      | Some orig \<Rightarrow>
          let old_size = length orig in
          (case OPENSSL_malloc malloc new_size of
             None \<Rightarrow> None
           | Some ret \<Rightarrow>
               let to_copy = (if old_size < new_size then old_size else new_size)
               in Some (take to_copy orig @ drop to_copy ret)))"

text \<open>What the C library promises of \<^verbatim>\<open>malloc\<close>: a block has the length asked for.\<close>

definition good_malloc :: "heap \<Rightarrow> bool" where
  "good_malloc malloc \<longleftrightarrow> (\<forall>n b. malloc n = Some b \<longrightarrow> length b = n)"

lemma malloc_length: "good_malloc malloc \<Longrightarrow> OPENSSL_malloc malloc n = Some b \<Longrightarrow> n < size_mod \<Longrightarrow> length b = n"
proof -
  assume g: "good_malloc malloc" and m: "OPENSSL_malloc malloc n = Some b" and n: "n < size_mod"
  from m obtain p where p: "malloc ((n + 8) mod size_mod) = Some p" "b = drop 8 p" "\<not> (n + 8) mod size_mod < n"
    by (auto simp: OPENSSL_malloc_def split: if_splits option.splits)
  have "(n + 8) mod size_mod = n + 8"
  proof (cases "n + 8 < size_mod")
    case False
    then have "(n + 8) mod size_mod = n + 8 - size_mod"
      using n by (simp add: mod_if)
    with p(3) n show ?thesis by simp
  qed simp
  with p g show ?thesis by (auto simp: good_malloc_def)
qed

lemma malloc_total: "(\<And>k. k < size_mod \<Longrightarrow> malloc k \<noteq> None) \<Longrightarrow> n + 8 < size_mod \<Longrightarrow> OPENSSL_malloc malloc n \<noteq> None"
  by (auto simp: OPENSSL_malloc_def split: option.splits)

lemma realloc_grow:
  assumes "good_malloc malloc" and "OPENSSL_realloc malloc (Some b) n = Some c" and "length b \<le> n" and "n < size_mod"
  shows "length c = n" and "take (length b) c = b"
proof -
  from assms obtain r where r: "OPENSSL_malloc malloc n = Some r"
      "c = take (min (length b) n) b @ drop (min (length b) n) r"
    by (auto simp: OPENSSL_realloc_def Let_def min_def split: option.splits)
  moreover from this assms have "length r = n"
    using malloc_length by blast
  ultimately show "length c = n" "take (length b) c = b"
    using assms by (auto simp: min_def)
qed

lemma calloc_zeroed:
  "OPENSSL_calloc malloc num sz = Some b \<Longrightarrow> num < size_mod \<Longrightarrow> sz < size_mod \<Longrightarrow>
     num * sz < size_mod \<and> b = replicate (num * sz) 0"
proof -
  assume a: "OPENSSL_calloc malloc num sz = Some b" "num < size_mod" "sz < size_mod"
  then have "sz = 0 \<or> num \<le> (size_mod - 1) div sz"
    by (auto simp: OPENSSL_calloc_def split: if_splits)
  then have "num * sz \<le> (size_mod - 1) div sz * sz"
    by (cases "sz = 0") (auto intro: mult_le_mono1)
  also have "\<dots> \<le> size_mod - 1"
    by (rule div_times_less_eq_dividend)
  finally have "num * sz \<le> size_mod - 1" .
  then show ?thesis
    using a by (auto simp: OPENSSL_calloc_def OPENSSL_zalloc_def split: if_splits option.splits)
qed

section \<open>Character classes\<close>

definition OPENSSL_isalpha :: "u8 \<Rightarrow> bool" where
  "OPENSSL_isalpha c \<longleftrightarrow> (c \<ge> 0x61 \<and> c \<le> 0x7a) \<or> (c \<ge> 0x41 \<and> c \<le> 0x5a)"

definition OPENSSL_isxdigit :: "u8 \<Rightarrow> bool" where
  "OPENSSL_isxdigit c \<longleftrightarrow> OPENSSL_isdigit c \<or> (c \<ge> 0x61 \<and> c \<le> 0x66) \<or> (c \<ge> 0x41 \<and> c \<le> 0x46)"

definition OPENSSL_fromxdigit :: "u8 \<Rightarrow> u8 option" where
  "OPENSSL_fromxdigit c =
     (if OPENSSL_isdigit c then Some (c - 0x30)
      else if 0x61 \<le> c \<and> c \<le> 0x66 then Some (c - 0x61 + 10)
      else if 0x41 \<le> c \<and> c \<le> 0x46 then Some (c - 0x41 + 10)
      else None)"

definition OPENSSL_isalnum :: "u8 \<Rightarrow> bool" where
  "OPENSSL_isalnum c \<longleftrightarrow> OPENSSL_isalpha c \<or> OPENSSL_isdigit c"

definition OPENSSL_tolower :: "u8 \<Rightarrow> u8" where
  "OPENSSL_tolower c = (if c \<ge> 0x41 \<and> c \<le> 0x5a then c + (0x61 - 0x41) else c)"

definition OPENSSL_isspace :: "u8 \<Rightarrow> bool" where
  "OPENSSL_isspace c \<longleftrightarrow> c = 0x09 \<or> c = 0x0a \<or> c = 0x0b \<or> c = 0x0c \<or> c = 0x0d \<or> c = 0x20"

lemma fromxdigit_range: "OPENSSL_fromxdigit c = Some d \<Longrightarrow> d < 16"
  by (auto simp: OPENSSL_fromxdigit_def OPENSSL_isdigit_def word_less_nat_alt word_le_nat_alt unat_sub
      unat_word_ariths split: if_splits)

lemma fromxdigit_isxdigit: "OPENSSL_fromxdigit c \<noteq> None \<longleftrightarrow> OPENSSL_isxdigit c"
  by (auto simp: OPENSSL_fromxdigit_def OPENSSL_isxdigit_def)

section \<open>Strings\<close>

fun strlen :: "u8 list \<Rightarrow> nat option" where
  "strlen [] = None"
| "strlen (c # s) = (if c = 0 then Some 0 else map_option Suc (strlen s))"

definition OPENSSL_hash32 :: "u8 list \<Rightarrow> u32" where
  "OPENSSL_hash32 data = foldl (\<lambda>h b. (h XOR ucast b) * 16777619) 2166136261 data"

definition OPENSSL_strhash :: "u8 list \<Rightarrow> u32 option" where
  "OPENSSL_strhash s = (case strlen s of None \<Rightarrow> None | Some n \<Rightarrow> Some (OPENSSL_hash32 (take n s)))"

definition OPENSSL_strdup :: "heap \<Rightarrow> u8 list option \<Rightarrow> u8 list option" where
  "OPENSSL_strdup malloc s =
     (case s of
        None \<Rightarrow> None
      | Some s \<Rightarrow>
          (case strlen s of
             None \<Rightarrow> None
           | Some n \<Rightarrow>
               (case OPENSSL_malloc malloc (n + 1) of
                  None \<Rightarrow> None
                | Some ret \<Rightarrow> Some (take (n + 1) s @ drop (n + 1) ret))))"

fun OPENSSL_strcasecmp :: "u8 list \<Rightarrow> u8 list \<Rightarrow> int option" where
  "OPENSSL_strcasecmp (a # as) (b # bs) =
     (let aa = sint (OPENSSL_tolower a); bb = sint (OPENSSL_tolower b)
      in if aa < bb then Some (-1)
         else if aa > bb then Some 1
         else if aa = 0 then Some 0
         else OPENSSL_strcasecmp as bs)"
| "OPENSSL_strcasecmp _ _ = None"

fun OPENSSL_strncasecmp :: "u8 list \<Rightarrow> u8 list \<Rightarrow> nat \<Rightarrow> int option" where
  "OPENSSL_strncasecmp a b 0 = Some 0"
| "OPENSSL_strncasecmp (a # as) (b # bs) (Suc n) =
     (let aa = sint (OPENSSL_tolower a); bb = sint (OPENSSL_tolower b)
      in if aa < bb then Some (-1)
         else if aa > bb then Some 1
         else if aa = 0 then Some 0
         else OPENSSL_strncasecmp as bs n)"
| "OPENSSL_strncasecmp _ _ (Suc n) = None"

text \<open>
  \<open>OPENSSL_strlcpy\<close>: the destination as it is left, and the result. The loop copies while more
  than one byte of room is left; \<^const>\<open>None\<close> when it leaves one of the two blocks.
\<close>

fun strlcpy_loop :: "u8 list \<Rightarrow> u8 list \<Rightarrow> nat \<Rightarrow> (u8 list \<times> u8 list \<times> u8 list \<times> nat \<times> nat) option" where
  "strlcpy_loop dst src dst_size =
     (if dst_size > 1 then
        (case src of
           [] \<Rightarrow> None
         | c # src' \<Rightarrow>
             if c \<noteq> 0 then
               (case dst of
                  [] \<Rightarrow> None
                | d # dst' \<Rightarrow>
                    map_option (\<lambda>(w, dst, src, dst_size, l). (c # w, dst, src, dst_size, Suc l))
                      (strlcpy_loop dst' src' (dst_size - 1)))
             else Some ([], dst, src, dst_size, 0))
      else Some ([], dst, src, dst_size, 0))"

declare strlcpy_loop.simps [simp del]

definition OPENSSL_strlcpy :: "u8 list \<Rightarrow> u8 list \<Rightarrow> nat \<Rightarrow> (u8 list \<times> nat) option" where
  "OPENSSL_strlcpy dst src dst_size =
     (case strlcpy_loop dst src dst_size of
        None \<Rightarrow> None
      | Some (written, dst, src, dst_size, l) \<Rightarrow>
          (case (if dst_size \<noteq> 0 then (case dst of [] \<Rightarrow> None | d # dst' \<Rightarrow> Some (0 # dst')) else Some dst) of
             None \<Rightarrow> None
           | Some dst \<Rightarrow>
               (case strlen src of
                  None \<Rightarrow> None
                | Some n \<Rightarrow> Some (written @ dst, l + n))))"

fun strlcat_skip :: "u8 list \<Rightarrow> nat \<Rightarrow> (u8 list \<times> u8 list \<times> nat \<times> nat) option" where
  "strlcat_skip dst 0 = Some ([], dst, 0, 0)"
| "strlcat_skip [] (Suc n) = None"
| "strlcat_skip (d # dst) (Suc n) =
     (if d \<noteq> 0 then map_option (\<lambda>(w, dst, n, l). (d # w, dst, n, Suc l)) (strlcat_skip dst n)
      else Some ([], d # dst, Suc n, 0))"

definition OPENSSL_strlcat :: "u8 list \<Rightarrow> u8 list \<Rightarrow> nat \<Rightarrow> (u8 list \<times> nat) option" where
  "OPENSSL_strlcat dst src dst_size =
     (case strlcat_skip dst dst_size of
        None \<Rightarrow> None
      | Some (w, dst, dst_size, l) \<Rightarrow>
          (case OPENSSL_strlcpy dst src dst_size of
             None \<Rightarrow> None
           | Some (dst, n) \<Rightarrow> Some (w @ dst, l + n)))"

text \<open>A string without zero bytes, its terminator, and what lies behind it in the block.\<close>

definition c_string :: "u8 list \<Rightarrow> u8 list \<Rightarrow> u8 list" where
  "c_string s t = s @ 0 # t"

lemma strlen_c_string: "0 \<notin> set s \<Longrightarrow> strlen (c_string s t) = Some (length s)"
  by (induction s) (auto simp: c_string_def)

lemma strlcpy_loop_c_string:
  "0 \<notin> set s \<Longrightarrow> n \<le> length dst \<Longrightarrow>
     strlcpy_loop dst (c_string s t) n =
       (let k = min (length s) (n - 1) in Some (take k s, drop k dst, c_string (drop k s) t, n - k, k))"
proof (induction s arbitrary: dst n)
  case Nil
  then show ?case by (subst strlcpy_loop.simps) (simp add: c_string_def Let_def)
next
  case (Cons c s)
  show ?case
  proof (cases "1 < n")
    case True
    then obtain d ds where dst: "dst = d # ds" using Cons.prems by (cases dst) auto
    have k: "min (length (c # s)) (n - 1) = Suc (min (length s) (n - 1 - 1))"
      using True by simp
    have "strlcpy_loop dst (c_string (c # s) t) n =
        map_option (\<lambda>(w, dst, src, m, l). (c # w, dst, src, m, Suc l)) (strlcpy_loop ds (c_string s t) (n - 1))"
      using True Cons.prems by (subst strlcpy_loop.simps) (simp add: c_string_def dst)
    also have "\<dots> = (let k = min (length s) (n - 1 - 1) in
        Some (c # take k s, drop k ds, c_string (drop k s) t, n - 1 - k, Suc k))"
      using Cons.prems dst by (subst Cons.IH) (simp_all add: Let_def)
    finally show ?thesis
      unfolding k Let_def by (simp add: dst)
  next
    case False
    then show ?thesis by (subst strlcpy_loop.simps) (simp add: c_string_def Let_def)
  qed
qed

text \<open>\<open>OPENSSL_strlcpy\<close> writes at most \<open>dst_size\<close> bytes: the longest prefix of the source that
  leaves room for the terminator, then the terminator, and it leaves the rest of the destination
  as it was. The result is the length of the source, so truncation shows.\<close>

theorem OPENSSL_strlcpy_truncates:
  assumes "0 \<notin> set s" and "0 < dst_size" and "dst_size \<le> length dst"
  shows "OPENSSL_strlcpy dst (c_string s t) dst_size =
    Some (take (dst_size - 1) s @ 0 # drop (Suc (min (length s) (dst_size - 1))) dst, length s)"
proof -
  define k where "k = min (length s) (dst_size - 1)"
  have k: "k < length dst" "k \<le> length s" "dst_size - k \<noteq> 0"
    using assms by (auto simp: k_def)
  then have d: "drop k dst = dst ! k # drop (Suc k) dst"
    by (simp add: Cons_nth_drop_Suc)
  have z: "0 \<notin> set (drop k s)"
    using assms(1) by (auto dest: in_set_dropD)
  have t: "take (dst_size - 1) s = take k s"
    by (simp add: k_def min_def)
  have "strlcpy_loop dst (c_string s t) dst_size =
      Some (take k s, drop k dst, c_string (drop k s) t, dst_size - k, k)"
    unfolding k_def using strlcpy_loop_c_string [OF assms(1,3), of t] by (simp add: Let_def)
  then show ?thesis
    using k unfolding k_def [symmetric] t by (simp add: OPENSSL_strlcpy_def d strlen_c_string z)
qed

lemma OPENSSL_strlcpy_truncates_witness:
  "OPENSSL_strlcpy [9, 9, 9, 9] (c_string [1, 2, 3] []) 3 = Some ([1, 2, 0, 9], 3)"
  using OPENSSL_strlcpy_truncates [of "[1, 2, 3]" 3 "[9, 9, 9, 9]" "[]"] by simp

lemma tolower_zero: "OPENSSL_tolower c = 0 \<longleftrightarrow> c = 0"
  by (auto simp: OPENSSL_tolower_def word_le_nat_alt word_unat_eq_iff unat_word_ariths split: if_splits)

text \<open>\<open>OPENSSL_strcasecmp\<close> gives zero exactly when the two strings are equal up to the case of
  the ASCII letters, and never reads past a terminator.\<close>

theorem OPENSSL_strcasecmp_zero:
  "0 \<notin> set a \<Longrightarrow> 0 \<notin> set b \<Longrightarrow>
     OPENSSL_strcasecmp (c_string a t) (c_string b u) \<noteq> None \<and>
     (OPENSSL_strcasecmp (c_string a t) (c_string b u) = Some 0 \<longleftrightarrow> map OPENSSL_tolower a = map OPENSSL_tolower b)"
proof (induction a arbitrary: b)
  case Nil
  then show ?case
    using tolower_zero [of "hd b"] tolower_zero [of 0]
    by (cases b) (auto simp: c_string_def Let_def signed_word_eqI)
next
  case (Cons x a)
  then show ?case
    using tolower_zero [of x] tolower_zero [of 0]
    by (cases b) (auto simp: c_string_def Let_def signed_word_eqI)
qed

lemma OPENSSL_strcasecmp_zero_witness:
  "OPENSSL_strcasecmp (c_string [0x41, 0x62] []) (c_string [0x61, 0x42] []) = Some 0"
  using OPENSSL_strcasecmp_zero [of "[0x41, 0x62]" "[0x61, 0x42]" "[]" "[]"]
  by (simp add: OPENSSL_tolower_def)

end
