(* ===== verification/Cbb.thy ===== *)
theory Cbb
  imports Mem Der_Values
begin

text \<open>
  Model of \<^verbatim>\<open>crypto/bytestring/cbb.c\<close>, the builder of byte strings, and of
  \<^verbatim>\<open>crypto/bytestring/asn1_compat.c\<close>.

  One record holds a buffer and all the \<^verbatim>\<open>CBB\<close> structures that write to it: \<open>buf\<close>, \<open>len\<close>, \<open>cap\<close>,
  \<open>can_resize\<close> and \<open>error\<close> are the \<^verbatim>\<open>cbb_buffer_st\<close>, and \<open>children\<close> is the chain of the
  \<^verbatim>\<open>child\<close> pointers from the top-level CBB down, each a \<^verbatim>\<open>cbb_child_st\<close>. The CBB at depth \<open>d\<close> is
  the top-level one for \<open>d = 0\<close> and otherwise the \<open>d\<close>th of the chain. A depth beyond the chain is
  a child that has been flushed: its \<^verbatim>\<open>base\<close> is null.

  \<open>buf\<close> holds all \<open>cap\<close> bytes of the block, those that were never written too. An operation
  is a function from the state to a flag, which is false where the C returns zero, and the
  state. The allocator is the parameter of theory \<^verbatim>\<open>Mem\<close>.
\<close>

section \<open>The state\<close>

record cbb_child =
  offset :: nat
  pending_len_len :: nat
  pending_is_asn1 :: bool

record cbb =
  buf :: "u8 list"
  len :: nat
  cap :: nat
  can_resize :: bool
  error :: bool
  children :: "cbb_child list"

type_synonym writer = "cbb \<Rightarrow> bool \<times> cbb"

text \<open>Run one operation after another, stopping at the first that fails.\<close>

definition and_then :: "writer \<Rightarrow> writer \<Rightarrow> writer" where
  "and_then w1 w2 s = (case w1 s of (False, s') \<Rightarrow> (False, s') | (True, s') \<Rightarrow> w2 s')"

definition ok_w :: writer where
  "ok_w s = (True, s)"

definition fail_w :: writer where
  "fail_w s = (False, s)"

section \<open>Buffers\<close>

definition CBB_zero :: cbb where
  "CBB_zero = \<lparr>buf = [], len = 0, cap = 0, can_resize = False, error = False, children = []\<rparr>"

definition cbb_init :: "u8 list \<Rightarrow> nat \<Rightarrow> bool \<Rightarrow> cbb" where
  "cbb_init b c r = \<lparr>buf = b, len = 0, cap = c, can_resize = r, error = False, children = []\<rparr>"

definition CBB_init :: "heap \<Rightarrow> nat \<Rightarrow> bool \<times> cbb" where
  "CBB_init malloc initial_capacity =
     (let b = OPENSSL_malloc malloc initial_capacity
      in if initial_capacity > 0 \<and> b = None then (False, CBB_zero)
         else (True, cbb_init (case b of None \<Rightarrow> [] | Some b \<Rightarrow> b) initial_capacity True))"

definition CBB_init_fixed :: "u8 list \<Rightarrow> cbb" where
  "CBB_init_fixed b = cbb_init b (length b) False"

definition set_error :: "cbb \<Rightarrow> cbb" where
  "set_error s = s\<lparr>error := True\<rparr>"

text \<open>
  \<open>OPENSSL_realloc(base->buf, newcap)\<close>: the buffer is null only while the capacity is zero, and
  then there is nothing to keep.
\<close>

definition cbb_buffer_reserve :: "heap \<Rightarrow> nat \<Rightarrow> writer" where
  "cbb_buffer_reserve malloc n s =
     (let newlen = (len s + n) mod size_mod in
      if newlen < len s then (False, set_error s)
      else if newlen > cap s then
        if \<not> can_resize s then (False, set_error s)
        else
          let newcap = (cap s * 2) mod size_mod;
              newcap = (if newcap < cap s \<or> newcap < newlen then newlen else newcap)
          in (case OPENSSL_realloc malloc (Some (buf s)) newcap of
                None \<Rightarrow> (False, set_error s)
              | Some newbuf \<Rightarrow> (True, s\<lparr>buf := newbuf, cap := newcap\<rparr>))
      else (True, s))"

definition cbb_buffer_add :: "heap \<Rightarrow> nat \<Rightarrow> writer" where
  "cbb_buffer_add malloc n =
     and_then (cbb_buffer_reserve malloc n) (\<lambda>s. (True, s\<lparr>len := (len s + n) mod size_mod\<rparr>))"

definition cbb_on_error :: "nat \<Rightarrow> cbb \<Rightarrow> cbb" where
  "cbb_on_error d s = s\<lparr>error := True, children := take d (children s)\<rparr>"

text \<open>\<open>w\<close> with the \<open>err\<close> label of the code behind it.\<close>

definition or_error :: "nat \<Rightarrow> writer \<Rightarrow> writer" where
  "or_error d w s = (case w s of (False, s') \<Rightarrow> (False, cbb_on_error d s') | (True, s') \<Rightarrow> (True, s'))"

section \<open>Length prefixes\<close>

text \<open>
  The loop \<open>for (i = n - 1; i < n; i--) { buf[i] = v; v >>= 8; }\<close>: the bytes it stores and what
  is left of \<open>v\<close>.
\<close>

fun put_be :: "nat \<Rightarrow> nat \<Rightarrow> u8 list \<times> nat" where
  "put_be 0 v = ([], v)"
| "put_be (Suc n) v = (let (bs, r) = put_be n (v div 256) in (bs @ [word_of_nat v], r))"

text \<open>Write \<open>n\<close> as the pending prefix of the child, and fail if it does not fit.\<close>

definition write_prefix :: "nat \<Rightarrow> nat \<Rightarrow> nat \<Rightarrow> writer" where
  "write_prefix off k n s =
     (let (bs, r) = put_be k n; s = s\<lparr>buf := store off bs (buf s)\<rparr> in (r = 0, s))"

text \<open>The part of \<open>CBB_flush\<close> after the recursive call: \<open>child\<close> is the CBB's own child.\<close>

definition flush_child :: "heap \<Rightarrow> cbb_child \<Rightarrow> writer" where
  "flush_child malloc child s =
     (let child_start = (offset child + pending_len_len child) mod size_mod in
      if child_start < offset child \<or> len s < child_start then (False, s)
      else
        let n = len s - child_start in
        if pending_is_asn1 child then
          if n > 0xfffffffe then (False, s)
          else
            let (len_len, initial_length_byte, n') =
                  (if n > 0xffffff then (5, 0x80 OR 4, n)
                   else if n > 0xffff then (4, 0x80 OR 3, n)
                   else if n > 0xff then (3, 0x80 OR 2, n)
                   else if n > 0x7f then (2, 0x80 OR 1, n)
                   else (1, word_of_nat n, 0));
                extra_bytes = len_len - 1
            in and_then
                 (if len_len \<noteq> 1
                  then and_then (cbb_buffer_add malloc extra_bytes)
                         (\<lambda>s. (True, s\<lparr>buf := store (child_start + extra_bytes)
                                              (take n' (drop child_start (buf s))) (buf s)\<rparr>))
                  else ok_w)
                 (\<lambda>s. write_prefix (offset child + 1) extra_bytes n'
                        (s\<lparr>buf := (buf s)[offset child := initial_length_byte]\<rparr>)) s
        else write_prefix (offset child) (pending_len_len child) n s)"

function CBB_flush :: "heap \<Rightarrow> nat \<Rightarrow> writer" where
  "CBB_flush malloc d s =
     (if length (children s) < d \<or> error s then (False, s)
      else if length (children s) = d then (True, s)
      else
        (case CBB_flush malloc (Suc d) s of
           (False, s') \<Rightarrow> (False, cbb_on_error d s')
         | (True, s') \<Rightarrow>
             or_error d
               (and_then (flush_child malloc (children s ! d))
                  (\<lambda>s. (True, s\<lparr>children := take d (children s)\<rparr>))) s'))"
  by pat_completeness auto
termination
  by (relation "measure (\<lambda>(malloc, d, s). length (children s) - d)") auto

declare CBB_flush.simps [simp del]

section \<open>Reading back what was written\<close>

text \<open>The start of the data of the CBB at depth \<open>d\<close>.\<close>

definition data_start :: "nat \<Rightarrow> cbb \<Rightarrow> nat" where
  "data_start d s =
     (if d = 0 then 0 else offset (children s ! (d - 1)) + pending_len_len (children s ! (d - 1)))"

definition CBB_len :: "nat \<Rightarrow> cbb \<Rightarrow> nat" where
  "CBB_len d s = len s - data_start d s"

definition CBB_data :: "nat \<Rightarrow> cbb \<Rightarrow> u8 list" where
  "CBB_data d s = take (CBB_len d s) (drop (data_start d s) (buf s))"

text \<open>
  \<open>CBB_finish\<close>: \<open>wants_out\<close> says that neither \<open>out_data\<close> nor \<open>out_len\<close> is null. The result is the
  buffer and its length, which the caller now owns.
\<close>

definition CBB_finish :: "heap \<Rightarrow> nat \<Rightarrow> bool \<Rightarrow> cbb \<Rightarrow> (u8 list \<times> nat) option \<times> cbb" where
  "CBB_finish malloc d wants_out s =
     (if d \<noteq> 0 then (None, s)
      else case CBB_flush malloc d s of
          (False, s) \<Rightarrow> (None, s)
        | (True, s) \<Rightarrow>
            if can_resize s \<and> \<not> wants_out then (None, s)
            else (Some (buf s, len s), s\<lparr>buf := []\<rparr>))"

text \<open>
  \<open>CBB_finish_i2d\<close> of \<^verbatim>\<open>asn1_compat.c\<close>: \<open>outp\<close> is \<^const>\<open>None\<close> for a null pointer, \<^term>\<open>Some None\<close>
  for a pointer to a null pointer, and otherwise the block that \<open>*outp\<close> points to. The result is
  the return value and what is at \<open>*outp\<close>'s old place afterwards.
\<close>

definition CBB_finish_i2d :: "heap \<Rightarrow> cbb \<Rightarrow> u8 list option option \<Rightarrow> int \<times> u8 list option option" where
  "CBB_finish_i2d malloc s outp =
     (case CBB_finish malloc 0 True s of
        (None, _) \<Rightarrow> (- 1, outp)
      | (Some (der, der_len), _) \<Rightarrow>
          if int der_len > INT_MAX then (- 1, outp)
          else (int der_len,
            case outp of
              None \<Rightarrow> None
            | Some None \<Rightarrow> Some (Some (take der_len der))
            | Some (Some out) \<Rightarrow> Some (Some (store 0 (take der_len der) out))))"

section \<open>Writing\<close>

definition cbb_add_child :: "heap \<Rightarrow> nat \<Rightarrow> nat \<Rightarrow> bool \<Rightarrow> writer" where
  "cbb_add_child malloc d len_len is_asn1 s =
     (let off = len s in
      and_then (cbb_buffer_add malloc len_len)
        (\<lambda>s. (True, s\<lparr>buf := store off (replicate len_len 0) (buf s),
                      children := take d (children s) @
                        [\<lparr>offset = off, pending_len_len = len_len, pending_is_asn1 = is_asn1\<rparr>]\<rparr>)) s)"

definition cbb_add_length_prefixed :: "heap \<Rightarrow> nat \<Rightarrow> nat \<Rightarrow> writer" where
  "cbb_add_length_prefixed malloc d len_len =
     and_then (CBB_flush malloc d) (cbb_add_child malloc d len_len False)"

definition CBB_add_u8_length_prefixed :: "heap \<Rightarrow> nat \<Rightarrow> writer" where
  "CBB_add_u8_length_prefixed malloc d = cbb_add_length_prefixed malloc d 1"

definition CBB_add_u16_length_prefixed :: "heap \<Rightarrow> nat \<Rightarrow> writer" where
  "CBB_add_u16_length_prefixed malloc d = cbb_add_length_prefixed malloc d 2"

definition CBB_add_u24_length_prefixed :: "heap \<Rightarrow> nat \<Rightarrow> writer" where
  "CBB_add_u24_length_prefixed malloc d = cbb_add_length_prefixed malloc d 3"

definition CBB_add_space :: "heap \<Rightarrow> nat \<Rightarrow> nat \<Rightarrow> writer" where
  "CBB_add_space malloc d n = and_then (CBB_flush malloc d) (cbb_buffer_add malloc n)"

definition CBB_reserve :: "heap \<Rightarrow> nat \<Rightarrow> nat \<Rightarrow> writer" where
  "CBB_reserve malloc d n = and_then (CBB_flush malloc d) (cbb_buffer_reserve malloc n)"

definition CBB_did_write :: "nat \<Rightarrow> nat \<Rightarrow> writer" where
  "CBB_did_write d n s =
     (let newlen = (len s + n) mod size_mod in
      if length (children s) > d \<or> newlen < len s \<or> newlen > cap s then (False, s)
      else (True, s\<lparr>len := newlen\<rparr>))"

text \<open>Store into the space that \<open>CBB_add_space\<close> has just added.\<close>

definition fill_space :: "u8 list \<Rightarrow> writer" where
  "fill_space bs s = (True, s\<lparr>buf := store (len s - length bs) bs (buf s)\<rparr>)"

definition CBB_add_bytes :: "heap \<Rightarrow> nat \<Rightarrow> u8 list \<Rightarrow> writer" where
  "CBB_add_bytes malloc d bs = and_then (CBB_add_space malloc d (length bs)) (fill_space bs)"

definition CBB_add_zeros :: "heap \<Rightarrow> nat \<Rightarrow> nat \<Rightarrow> writer" where
  "CBB_add_zeros malloc d n = and_then (CBB_add_space malloc d n) (fill_space (replicate n 0))"

definition cbb_add_u :: "heap \<Rightarrow> nat \<Rightarrow> u64 \<Rightarrow> nat \<Rightarrow> writer" where
  "cbb_add_u malloc d v len_len =
     and_then (CBB_add_space malloc d len_len)
       (let (bs, r) = put_be len_len (unat v)
        in and_then (fill_space bs) (if r \<noteq> 0 then (\<lambda>s. (False, cbb_on_error d s)) else ok_w))"

definition CBB_add_u8 :: "heap \<Rightarrow> nat \<Rightarrow> u8 \<Rightarrow> writer" where
  "CBB_add_u8 malloc d v = cbb_add_u malloc d (ucast v) 1"

definition CBB_add_u16 :: "heap \<Rightarrow> nat \<Rightarrow> u16 \<Rightarrow> writer" where
  "CBB_add_u16 malloc d v = cbb_add_u malloc d (ucast v) 2"

definition CBB_add_u16le :: "heap \<Rightarrow> nat \<Rightarrow> u16 \<Rightarrow> writer" where
  "CBB_add_u16le malloc d v = CBB_add_u16 malloc d (CRYPTO_bswap2 v)"

definition CBB_add_u24 :: "heap \<Rightarrow> nat \<Rightarrow> u32 \<Rightarrow> writer" where
  "CBB_add_u24 malloc d v = cbb_add_u malloc d (ucast v) 3"

definition CBB_add_u32 :: "heap \<Rightarrow> nat \<Rightarrow> u32 \<Rightarrow> writer" where
  "CBB_add_u32 malloc d v = cbb_add_u malloc d (ucast v) 4"

definition CBB_add_u32le :: "heap \<Rightarrow> nat \<Rightarrow> u32 \<Rightarrow> writer" where
  "CBB_add_u32le malloc d v = CBB_add_u32 malloc d (CRYPTO_bswap4 v)"

definition CBB_add_u64 :: "heap \<Rightarrow> nat \<Rightarrow> u64 \<Rightarrow> writer" where
  "CBB_add_u64 malloc d v = cbb_add_u malloc d v 8"

definition CBB_add_u64le :: "heap \<Rightarrow> nat \<Rightarrow> u64 \<Rightarrow> writer" where
  "CBB_add_u64le malloc d v = CBB_add_u64 malloc d (CRYPTO_bswap8 v)"

definition CBB_discard_child :: "nat \<Rightarrow> cbb \<Rightarrow> cbb" where
  "CBB_discard_child d s =
     (if length (children s) \<le> d then s
      else s\<lparr>len := offset (children s ! d), children := take d (children s)\<rparr>)"

section \<open>ASN.1\<close>

function base128_len :: "u64 \<Rightarrow> nat" where
  "base128_len copy = (if copy > 0 then Suc (base128_len (drop_bit 7 copy)) else 0)"
  by pat_completeness auto
termination
  by (relation "measure unat") (auto simp: unat_drop_bit word_less_nat_alt)

declare base128_len.simps [simp del]

fun base128_loop :: "heap \<Rightarrow> nat \<Rightarrow> u64 \<Rightarrow> nat \<Rightarrow> writer" where
  "base128_loop malloc d v 0 = ok_w"
| "base128_loop malloc d v (Suc i) =
     (let byte = ucast (drop_bit (7 * i) v) AND 0x7f;
          byte = (if i \<noteq> 0 then byte OR 0x80 else byte)
      in and_then (CBB_add_u8 malloc d byte) (base128_loop malloc d v i))"

definition add_base128_integer :: "heap \<Rightarrow> nat \<Rightarrow> u64 \<Rightarrow> writer" where
  "add_base128_integer malloc d v =
     (let len_len = base128_len v; len_len = (if len_len = 0 then 1 else len_len)
      in base128_loop malloc d v len_len)"

definition CBB_add_asn1 :: "heap \<Rightarrow> nat \<Rightarrow> u32 \<Rightarrow> writer" where
  "CBB_add_asn1 malloc d tag =
     and_then (CBB_flush malloc d)
       (let tag_bits = ucast (drop_bit CBS_ASN1_TAG_SHIFT tag) AND 0xe0;
            tag_number = tag AND CBS_ASN1_TAG_NUMBER_MASK
        in and_then
             (if tag_number \<ge> 0x1f
              then and_then (CBB_add_u8 malloc d (tag_bits OR 0x1f)) (add_base128_integer malloc d (ucast tag_number))
              else CBB_add_u8 malloc d (tag_bits OR ucast tag_number))
             (cbb_add_child malloc d 1 True))"

text \<open>The loop over the bytes of \<open>value\<close>, of which \<open>r\<close> are left, and the zero after it.\<close>

fun asn1_uint64_bytes :: "heap \<Rightarrow> nat \<Rightarrow> u64 \<Rightarrow> nat \<Rightarrow> bool \<Rightarrow> writer" where
  "asn1_uint64_bytes malloc d v 0 started = (if \<not> started then CBB_add_u8 malloc d 0 else ok_w)"
| "asn1_uint64_bytes malloc d v (Suc r) started =
     (let byte = ucast (drop_bit (8 * r) v)
      in if \<not> started \<and> byte = 0 then asn1_uint64_bytes malloc d v r False
         else and_then (if \<not> started \<and> byte AND 0x80 \<noteq> 0 then CBB_add_u8 malloc d 0 else ok_w)
                (and_then (CBB_add_u8 malloc d byte) (asn1_uint64_bytes malloc d v r True)))"

definition CBB_add_asn1_uint64_with_tag :: "heap \<Rightarrow> nat \<Rightarrow> u64 \<Rightarrow> u32 \<Rightarrow> writer" where
  "CBB_add_asn1_uint64_with_tag malloc d v tag =
     and_then
       (or_error d
          (and_then (CBB_add_asn1 malloc d tag) (asn1_uint64_bytes malloc (Suc d) v 8 False)))
       (CBB_flush malloc d)"

definition CBB_add_asn1_uint64 :: "heap \<Rightarrow> nat \<Rightarrow> u64 \<Rightarrow> writer" where
  "CBB_add_asn1_uint64 malloc d v = CBB_add_asn1_uint64_with_tag malloc d v CBS_ASN1_INTEGER"

text \<open>Byte \<open>i\<close> of the little-endian image of the \<open>int64_t\<close> whose bits are \<open>v\<close>.\<close>

definition int64_byte :: "u64 \<Rightarrow> nat \<Rightarrow> u8" where
  "int64_byte v i = ucast (drop_bit (8 * i) v)"

fun int64_start :: "u64 \<Rightarrow> nat \<Rightarrow> nat" where
  "int64_start v 0 = 0"
| "int64_start v (Suc start) =
     (if int64_byte v (Suc start) = 0xff \<and> int64_byte v start AND 0x80 \<noteq> 0 then int64_start v start
      else Suc start)"

fun asn1_int64_bytes :: "heap \<Rightarrow> nat \<Rightarrow> u64 \<Rightarrow> nat \<Rightarrow> writer" where
  "asn1_int64_bytes malloc d v 0 = CBB_add_u8 malloc d (int64_byte v 0)"
| "asn1_int64_bytes malloc d v (Suc i) =
     and_then (CBB_add_u8 malloc d (int64_byte v (Suc i))) (asn1_int64_bytes malloc d v i)"

definition CBB_add_asn1_int64_with_tag :: "heap \<Rightarrow> nat \<Rightarrow> u64 \<Rightarrow> u32 \<Rightarrow> writer" where
  "CBB_add_asn1_int64_with_tag malloc d v tag =
     (if sint v \<ge> 0 then CBB_add_asn1_uint64_with_tag malloc d v tag
      else and_then
             (or_error d
                (and_then (CBB_add_asn1 malloc d tag) (asn1_int64_bytes malloc (Suc d) v (int64_start v 7))))
             (CBB_flush malloc d))"

definition CBB_add_asn1_int64 :: "heap \<Rightarrow> nat \<Rightarrow> u64 \<Rightarrow> writer" where
  "CBB_add_asn1_int64 malloc d v = CBB_add_asn1_int64_with_tag malloc d v CBS_ASN1_INTEGER"

definition CBB_add_asn1_octet_string :: "heap \<Rightarrow> nat \<Rightarrow> u8 list \<Rightarrow> writer" where
  "CBB_add_asn1_octet_string malloc d data =
     or_error d
       (and_then (CBB_add_asn1 malloc d CBS_ASN1_OCTETSTRING)
          (and_then (CBB_add_bytes malloc (Suc d) data) (CBB_flush malloc d)))"

definition CBB_add_asn1_bool :: "heap \<Rightarrow> nat \<Rightarrow> int \<Rightarrow> writer" where
  "CBB_add_asn1_bool malloc d v =
     or_error d
       (and_then (CBB_add_asn1 malloc d CBS_ASN1_BOOLEAN)
          (and_then (CBB_add_u8 malloc (Suc d) (if v \<noteq> 0 then 0xff else 0)) (CBB_flush malloc d)))"

section \<open>The buffer\<close>

definition content :: "cbb \<Rightarrow> u8 list" where
  "content s = take (len s) (buf s)"

text \<open>A live buffer: the block has \<open>cap\<close> bytes, of which \<open>len\<close> are valid.\<close>

definition live :: "cbb \<Rightarrow> bool" where
  "live s \<longleftrightarrow> length (buf s) = cap s \<and> len s \<le> cap s \<and> cap s < size_mod \<and> \<not> error s"

definition total_malloc :: "heap \<Rightarrow> bool" where
  "total_malloc malloc \<longleftrightarrow> (\<forall>n. n < size_mod \<longrightarrow> malloc n \<noteq> None)"

text \<open>The buffer has \<open>n\<close> bytes or can grow to them.\<close>

definition room :: "heap \<Rightarrow> cbb \<Rightarrow> nat \<Rightarrow> bool" where
  "room malloc s n \<longleftrightarrow> n \<le> cap s \<or> can_resize s \<and> total_malloc malloc \<and> n < 2 ^ 63 - 8"

text \<open>What all successful operations keep: the state after them is a live buffer of the same kind.\<close>

definition grows :: "cbb \<Rightarrow> cbb \<Rightarrow> bool" where
  "grows s s' \<longleftrightarrow> live s' \<and> can_resize s' = can_resize s \<and> cap s \<le> cap s' \<and> (\<not> can_resize s \<longrightarrow> cap s' = cap s)"

lemma grows_refl: "live s \<Longrightarrow> grows s s"
  by (simp add: grows_def)

lemma grows_trans: "grows s t \<Longrightarrow> grows t u \<Longrightarrow> grows s u"
  by (auto simp: grows_def)

lemma room_grows: "grows s s' \<Longrightarrow> room malloc s n \<Longrightarrow> room malloc s' n"
  by (auto simp: room_def grows_def)

lemma room_le: "room malloc s n \<Longrightarrow> k \<le> n \<Longrightarrow> room malloc s k"
  by (auto simp: room_def)

lemma content_buf: "live s \<Longrightarrow> \<exists>R. buf s = content s @ R \<and> length (content s) = len s \<and> length R = cap s - len s"
  by (intro exI [of _ "drop (len s) (buf s)"]) (simp add: content_def live_def)

lemma sum_wraps: "a < size_mod \<Longrightarrow> b < size_mod \<Longrightarrow> (a + b) mod size_mod < a \<longleftrightarrow> \<not> a + b < size_mod"
  by (auto simp: mod_if)

lemma reserve_result:
  assumes g: "good_malloc malloc" and w: "live s" and n: "n < size_mod"
    and r: "cbb_buffer_reserve malloc n s = (True, s')"
  shows "grows s s'" "len s' = len s" "content s' = content s" "children s' = children s" "len s + n \<le> cap s'"
proof -
  have l: "len s < size_mod" using w by (auto simp: live_def)
  have nw: "(len s + n) mod size_mod = len s + n" and nl: "len s + n < size_mod"
    using r sum_wraps [OF l n] by (auto simp: cbb_buffer_reserve_def Let_def split: if_splits)
  have "grows s s' \<and> len s' = len s \<and> content s' = content s \<and> children s' = children s \<and> len s + n \<le> cap s'"
  proof (cases "len s + n > cap s")
    case False
    then have "s' = s"
      using r by (simp add: cbb_buffer_reserve_def Let_def nw split: if_splits)
    with False w show ?thesis by (simp add: grows_refl)
  next
    case True
    define newcap where "newcap = (let c = (cap s * 2) mod size_mod in if c < cap s \<or> c < len s + n then len s + n else c)"
    have nc: "cap s \<le> newcap" "len s + n \<le> newcap" "newcap < size_mod"
      using True nl by (auto simp: newcap_def Let_def)
    obtain b where cr: "can_resize s" and b: "OPENSSL_realloc malloc (Some (buf s)) newcap = Some b"
      and s': "s' = s\<lparr>buf := b, cap := newcap\<rparr>"
      using r True by (auto simp: cbb_buffer_reserve_def Let_def nw newcap_def split: if_splits option.splits)
    have bl: "length b = newcap" "take (cap s) b = buf s"
      using realloc_grow [OF g b] nc w by (simp_all add: live_def)
    have "take (len s) b = take (len s) (take (cap s) b)"
      using w by (simp add: live_def min_def)
    then have "take (len s) b = take (len s) (buf s)"
      by (simp only: bl)
    with nc cr w bl show ?thesis
      by (auto simp: s' grows_def live_def content_def)
  qed
  then show "grows s s'" "len s' = len s" "content s' = content s" "children s' = children s" "len s + n \<le> cap s'"
    by simp_all
qed

lemma reserve_succeeds:
  assumes w: "live s" and rm: "room malloc s (len s + n)"
  shows "fst (cbb_buffer_reserve malloc n s)"
proof -
  have nl: "len s + n < size_mod"
    using rm w by (auto simp: room_def live_def split: if_splits)
  show ?thesis
  proof (cases "len s + n > cap s")
    case False
    then show ?thesis using nl by (simp add: cbb_buffer_reserve_def Let_def)
  next
    case True
    define newcap where "newcap = max (cap s * 2) (len s + n)"
    have rm': "can_resize s" "total_malloc malloc" "len s + n < 2 ^ 63 - 8"
      using rm True by (auto simp: room_def split: if_splits)
    then have "cap s * 2 < size_mod - 8" using True by simp
    then have "newcap + 8 < size_mod"
      using rm' True by (simp add: newcap_def)
    then have "OPENSSL_malloc malloc newcap \<noteq> None"
      using rm' by (intro malloc_total) (auto simp: total_malloc_def)
    then obtain b where "OPENSSL_realloc malloc (Some (buf s)) newcap = Some b"
      by (auto simp: OPENSSL_realloc_def Let_def)
    then show ?thesis
      using True nl rm' \<open>cap s * 2 < size_mod - 8\<close>
      by (cases "cap s * 2 < len s + n") (simp_all add: cbb_buffer_reserve_def Let_def newcap_def max_def)
  qed
qed

lemma reserve_fails: "cbb_buffer_reserve malloc n s = (False, s') \<Longrightarrow> error s'"
  by (auto simp: cbb_buffer_reserve_def set_error_def Let_def split: if_splits option.splits)

lemma and_then_True:
  "and_then w1 w2 s = (True, u) \<longleftrightarrow> (\<exists>t. w1 s = (True, t) \<and> w2 t = (True, u))"
  by (auto simp: and_then_def split: prod.splits bool.splits)

lemma or_error_True: "or_error d w s = (True, u) \<longleftrightarrow> w s = (True, u)"
  by (auto simp: or_error_def split: prod.splits bool.splits)

lemma fst_and_then: "fst (and_then w1 w2 s) \<longleftrightarrow> (\<exists>t. w1 s = (True, t) \<and> fst (w2 t))"
  by (auto simp: and_then_def split: prod.splits bool.splits)

lemma fst_or_error: "fst (or_error d w s) = fst (w s)"
  by (auto simp: or_error_def split: prod.splits bool.splits)

lemma fst_True: "fst x \<longleftrightarrow> (\<exists>s. x = (True, s))"
  by (cases x) auto

lemma buffer_add_result:
  assumes g: "good_malloc malloc" and w: "live s" and n: "n < size_mod"
    and r: "cbb_buffer_add malloc n s = (True, s')"
  obtains E where "grows s s'" "len s' = len s + n" "content s' = content s @ E" "length E = n"
    "children s' = children s"
proof -
  from r obtain t where t: "cbb_buffer_reserve malloc n s = (True, t)" and s': "s' = t\<lparr>len := (len t + n) mod size_mod\<rparr>"
    by (auto simp: cbb_buffer_add_def and_then_True)
  note p = reserve_result [OF g w n t]
  have "cap t < size_mod" using p(1) by (simp add: grows_def live_def)
  then have l: "len s' = len s + n" using p by (simp add: s')
  have g': "grows s s'"
    using p \<open>cap t < size_mod\<close> by (auto simp: grows_def live_def s')
  have lb: "length (buf t) = cap t" using p(1) by (simp add: grows_def live_def)
  have "content s' = take (len s + n) (buf t)"
    using l by (simp add: content_def s')
  also have "\<dots> = take (len s) (buf t) @ take n (drop (len s) (buf t))"
    by (rule take_add)
  also have "take (len s) (buf t) = content s"
    using p(2,3) by (simp add: content_def)
  finally have "content s' = content s @ take n (drop (len s) (buf t))" .
  moreover have "length (take n (drop (len s) (buf t))) = n"
    using p(5) lb by simp
  ultimately show ?thesis
    using that g' l p(4) by (simp add: s')
qed

lemma buffer_add_succeeds: "live s \<Longrightarrow> room malloc s (len s + n) \<Longrightarrow> fst (cbb_buffer_add malloc n s)"
  using reserve_succeeds [of s malloc n] by (simp add: cbb_buffer_add_def fst_and_then) (simp add: fst_True)

lemma put_be_eq: "put_be n v = (be_bytes n v, v div 256 ^ n)"
  by (induction n arbitrary: v) (auto simp: div_mult2_eq)

lemma store_mid: "length X = i \<Longrightarrow> length xs = length Y \<Longrightarrow> store i xs (X @ Y @ Z) = X @ xs @ Z"
  by (simp add: store_def)

text \<open>Overwriting bytes of the content.\<close>

lemma store_content:
  assumes "live s" and c: "content s = X @ Y @ Z" and "length X = i" and "length xs = length Y"
  shows "content (s\<lparr>buf := store i xs (buf s)\<rparr>) = X @ xs @ Z" and "grows s (s\<lparr>buf := store i xs (buf s)\<rparr>)"
proof -
  obtain R where R: "buf s = X @ Y @ Z @ R" "length (X @ Y @ Z) = len s" "length R = cap s - len s"
    using content_buf [OF assms(1)] c by auto
  have st: "store i xs (buf s) = X @ xs @ Z @ R"
    unfolding R(1) by (rule store_mid) (simp_all add: assms)
  have "take (len s) ((X @ xs @ Z) @ R) = X @ xs @ Z"
    using R(2) assms(4) by simp
  then show "content (s\<lparr>buf := store i xs (buf s)\<rparr>) = X @ xs @ Z"
    by (simp add: content_def st)
  have "length (X @ xs @ Z @ R) = cap s"
    using R assms by (auto simp: live_def)
  then show "grows s (s\<lparr>buf := store i xs (buf s)\<rparr>)"
    using assms(1) by (simp add: grows_def live_def st)
qed

section \<open>The chain of pending prefixes\<close>

text \<open>
  The abstract builder: the kinds of a pending prefix, the bytes it becomes in front of \<open>c\<close>, and
  a chain of pending prefixes, each with the bytes written behind it so far.
\<close>

datatype prefix = Fixed nat | Asn1

fun prefix_len :: "prefix \<Rightarrow> nat" where
  "prefix_len (Fixed n) = n"
| "prefix_len Asn1 = 1"

fun fits :: "prefix \<Rightarrow> u8 list \<Rightarrow> bool" where
  "fits (Fixed n) c \<longleftrightarrow> length c < 256 ^ n"
| "fits Asn1 c \<longleftrightarrow> length c \<le> 0xfffffffe"

fun sealed :: "prefix \<Rightarrow> u8 list \<Rightarrow> u8 list" where
  "sealed (Fixed n) c = be_bytes n (length c) @ c"
| "sealed Asn1 c = der_length (length c) @ c"

type_synonym frames = "(prefix \<times> u8 list) list"

text \<open>What the chain becomes when all its prefixes are written.\<close>

fun seal :: "frames \<Rightarrow> u8 list option" where
  "seal [] = Some []"
| "seal ((k, c) # fs) =
     (case seal fs of None \<Rightarrow> None | Some r \<Rightarrow> if fits k (c @ r) then Some (sealed k (c @ r)) else None)"

text \<open>How the chain lies in the buffer, behind \<open>n\<close> bytes.\<close>

fun lay :: "frames \<Rightarrow> u8 list" where
  "lay [] = []"
| "lay ((k, c) # fs) = replicate (prefix_len k) 0 @ c @ lay fs"

definition child_of :: "nat \<Rightarrow> prefix \<Rightarrow> cbb_child" where
  "child_of n k = \<lparr>offset = n, pending_len_len = prefix_len k, pending_is_asn1 = (k = Asn1)\<rparr>"

fun offs :: "nat \<Rightarrow> frames \<Rightarrow> cbb_child list" where
  "offs n [] = []"
| "offs n ((k, c) # fs) = child_of n k # offs (n + prefix_len k + length c) fs"

lemma length_offs [simp]: "length (offs n fs) = length fs"
  by (induction n fs rule: offs.induct) auto

lemma length_sealed: "length (sealed k c) \<ge> prefix_len k + length c"
  by (cases k) (auto simp: der_length_def)

lemma length_lay: "seal fs = Some r \<Longrightarrow> length (lay fs) \<le> length r"
proof (induction fs arbitrary: r)
  case Nil
  then show ?case by simp
next
  case (Cons f fs)
  obtain k c where f: "f = (k, c)" by (cases f)
  with Cons obtain q where q: "seal fs = Some q" "r = sealed k (c @ q)"
    by (auto split: option.splits if_splits)
  with Cons.IH [OF q(1)] length_sealed [of k "c @ q"] show ?case
    by (simp add: f)
qed

text \<open>The length bytes that \<open>CBB_flush\<close> chooses are those of DER.\<close>

definition asn1_prefix :: "nat \<Rightarrow> nat \<times> u8 \<times> nat" where
  "asn1_prefix n =
     (if n > 0xffffff then (5, 0x80 OR 4, n)
      else if n > 0xffff then (4, 0x80 OR 3, n)
      else if n > 0xff then (3, 0x80 OR 2, n)
      else if n > 0x7f then (2, 0x80 OR 1, n)
      else (1, word_of_nat n, 0))"

lemma asn1_prefix_der:
  assumes "n \<le> 0xfffffffe"
  shows "\<exists>k b m. asn1_prefix n = (Suc k, b, m) \<and> der_length n = b # be_bytes k m \<and> m < 256 ^ k \<and>
    (if k = 0 then m = 0 else m = n) \<and> k \<le> 4"
proof -
  have long: ?thesis if "asn1_prefix n = (Suc k, word_of_nat (128 + k), n)" "n < 256 ^ k" "\<not> n < 256 ^ (k - 1)"
    "\<not> n < 128" "k \<noteq> 0" "k \<le> 4" for k
    using that byte_count_unique [of n k] by (auto simp: der_length_def)
  consider "n > 0xffffff" | "n > 0xffff" "n \<le> 0xffffff" | "n > 0xff" "n \<le> 0xffff" | "n > 0x7f" "n \<le> 0xff" | "n \<le> 0x7f"
    by linarith
  then show ?thesis
  proof cases
    case 1
    then show ?thesis using assms by (intro long [of 4]) (simp_all add: asn1_prefix_def)
  next
    case 2
    then show ?thesis by (intro long [of 3]) (simp_all add: asn1_prefix_def)
  next
    case 3
    then show ?thesis by (intro long [of 2]) (simp_all add: asn1_prefix_def)
  next
    case 4
    then show ?thesis by (intro long [of 1]) (simp_all add: asn1_prefix_def)
  next
    case 5
    then show ?thesis
      by (intro exI [of _ 0] exI [of _ "word_of_nat n"] exI [of _ 0]) (simp add: asn1_prefix_def der_length_def)
  qed
qed

lemma write_prefix_result:
  assumes "live s" and "content s = L @ P @ c" and "length P = k"
  shows "fst (write_prefix (length L) k n s) \<longleftrightarrow> n < 256 ^ k"
    and "content (snd (write_prefix (length L) k n s)) = L @ be_bytes k n @ c"
    and "grows s (snd (write_prefix (length L) k n s))"
    and "children (snd (write_prefix (length L) k n s)) = children s"
    and "len (snd (write_prefix (length L) k n s)) = len s"
proof -
  show "fst (write_prefix (length L) k n s) \<longleftrightarrow> n < 256 ^ k"
    by (simp add: write_prefix_def put_be_eq Let_def div_eq_0_iff)
  have e: "snd (write_prefix (length L) k n s) = s\<lparr>buf := store (length L) (be_bytes k n) (buf s)\<rparr>"
    by (simp add: write_prefix_def put_be_eq Let_def)
  show "content (snd (write_prefix (length L) k n s)) = L @ be_bytes k n @ c"
    unfolding e using assms by (intro store_content [where Y = P]) simp_all
  show "grows s (snd (write_prefix (length L) k n s))"
    unfolding e using assms by (intro store_content [where Y = P]) simp_all
  show "children (snd (write_prefix (length L) k n s)) = children s"
    "len (snd (write_prefix (length L) k n s)) = len s"
    unfolding e by simp_all
qed

lemma flush_child_fixed:
  assumes w: "live s" and c: "content s = L @ replicate n 0 @ c"
  shows "flush_child malloc (child_of (length L) (Fixed n)) s = write_prefix (length L) n (length c) s"
proof -
  have l: "len s = length L + n + length c" "len s < size_mod"
    using content_buf [OF w] c w by (auto simp: live_def)
  then show ?thesis
    by (simp add: flush_child_def child_of_def Let_def)
qed

lemma flush_child_asn1:
  assumes w: "live s" and c: "content s = L @ [0] @ c" and n: "length c \<le> 0xfffffffe"
    and p: "asn1_prefix (length c) = (Suc k, b, m)"
  shows "flush_child malloc (child_of (length L) Asn1) s =
    and_then
      (if k \<noteq> 0 then and_then (cbb_buffer_add malloc k)
         (\<lambda>s. (True, s\<lparr>buf := store (length L + 1 + k) (take m (drop (length L + 1) (buf s))) (buf s)\<rparr>)) else ok_w)
      (\<lambda>s. write_prefix (length L + 1) k m (s\<lparr>buf := (buf s)[length L := b]\<rparr>)) s"
proof -
  have l: "len s = length L + 1 + length c" "len s < size_mod"
    using content_buf [OF w] c w by (auto simp: live_def)
  then show ?thesis
    using n p by (simp add: flush_child_def child_of_def Let_def asn1_prefix_def [symmetric])
qed

text \<open>Both kinds together: the child's prefix is written in front of its content \<open>c\<close>.\<close>

lemma flush_child_result:
  assumes g: "good_malloc malloc" and w: "live s" and c: "content s = L @ replicate (prefix_len k) 0 @ c"
    and r: "flush_child malloc (child_of (length L) k) s = (True, s')"
  shows "fits k c" "content s' = L @ sealed k c" "grows s s'" "children s' = children s"
proof -
  have "fits k c \<and> content s' = L @ sealed k c \<and> grows s s' \<and> children s' = children s"
  proof (cases k)
    case (Fixed n)
    note c' = c [unfolded Fixed prefix_len.simps]
    note e = flush_child_fixed [OF w c', of malloc]
    note wp = write_prefix_result [OF w c', of n "length c"]
    from r have "write_prefix (length L) n (length c) s = (True, s')"
      using e by (simp add: Fixed)
    then show ?thesis
      using wp by (simp add: Fixed)
  next
    case Asn1
    have c1: "content s = L @ [0] @ c"
      using c by (simp add: Asn1)
    have l: "len s = length L + 1 + length c" "len s < size_mod"
      using content_buf [OF w] c1 w by (auto simp: live_def)
    have n: "length c \<le> 0xfffffffe"
      using r l by (auto simp: flush_child_def child_of_def Asn1 Let_def split: if_splits)
    obtain m b q where p: "asn1_prefix (length c) = (Suc m, b, q)" "der_length (length c) = b # be_bytes m q"
        "q < 256 ^ m" "if m = 0 then q = 0 else q = length c" "m \<le> 4"
      using asn1_prefix_der [OF n] by blast
    note r' = r [unfolded Asn1 flush_child_asn1 [OF w c1 n p(1)]]
    have fin: "fits k c \<and> content s' = L @ sealed k c \<and> grows s s' \<and> children s' = children s"
      if t: "live t" "grows s t" "children t = children s" "content t = L @ [0] @ E @ c" "length E = m"
        and wr: "write_prefix (length L + 1) m q (t\<lparr>buf := (buf t)[length L := b]\<rparr>) = (True, s')" for t E
    proof -
      obtain R where R: "buf t = L @ [0] @ E @ c @ R"
        using content_buf [OF t(1)] t(4) by auto
      then have "(buf t)[length L := b] = store (length L) [b] (buf t)"
        by (simp add: store_def list_update_append)
      then have wr: "write_prefix (length (L @ [b])) m q (t\<lparr>buf := store (length L) [b] (buf t)\<rparr>) = (True, s')"
        using wr by simp
      define u where "u = t\<lparr>buf := store (length L) [b] (buf t)\<rparr>"
      have u: "content u = L @ [b] @ E @ c" "grows t u"
        using store_content [OF t(1,4), of "length L" "[b]"] by (simp_all add: u_def)
      then have "live u" "content u = (L @ [b]) @ E @ c" by (auto simp: grows_def)
      note wp = write_prefix_result [OF this t(5), of q]
      show ?thesis
        using wp wr grows_trans [OF t(2) grows_trans [OF u(2)]] n p t(3)
        by (auto simp: u_def [symmetric] Asn1 ) (simp add: u_def)
    qed
    show ?thesis
    proof (cases "m = 0")
      case True
      then show ?thesis
        using fin [of s "[]"] r' w c1 by (simp add: and_then_True ok_w_def grows_refl)
    next
      case False
      with p(4) have q: "q = length c" by simp
      from r' False obtain t where t: "cbb_buffer_add malloc m s = (True, t)"
        and wr: "write_prefix (length L + 1) m q
          (let t = t\<lparr>buf := store (length L + 1 + m) (take q (drop (length L + 1) (buf t))) (buf t)\<rparr>
           in t\<lparr>buf := (buf t)[length L := b]\<rparr>) = (True, s')"
        by (auto simp: and_then_True Let_def)
      have "m < size_mod"
        using p(5) by simp
      obtain E where E: "grows s t" "content t = content s @ E" "length E = m" "children t = children s" "len t = len s + m"
        by (rule buffer_add_result [OF g w \<open>m < size_mod\<close> t])
      have lt: "live t" using E(1) by (simp add: grows_def)
      obtain R where R: "buf t = L @ [0] @ c @ E @ R"
        using content_buf [OF lt] E(2) c1 by auto
      define F where "F = take m (c @ E)"
      have mv: "take q (drop (length L + 1) (buf t)) = c"
        by (simp add: R q)
      have ct: "content t = (L @ [0] @ F) @ drop m (c @ E) @ []"
        unfolding F_def using E(2) c1 by (simp only: append_assoc append_take_drop_id append_Nil2)
      have F: "length F = m" using E(3) by (simp add: F_def)
      have s: "content (t\<lparr>buf := store (length L + 1 + m) c (buf t)\<rparr>) = (L @ [0] @ F) @ c @ []"
        "grows t (t\<lparr>buf := store (length L + 1 + m) c (buf t)\<rparr>)"
        by (rule store_content [OF lt ct]; use F E in simp)+
      note wr = wr [unfolded mv Let_def]
      show ?thesis
        using fin [of "t\<lparr>buf := store (length L + 1 + m) c (buf t)\<rparr>" F] s F E wr grows_trans [OF E(1) s(2)]
        by (simp add: grows_def)
    qed
  qed
  then show "fits k c" "content s' = L @ sealed k c" "grows s s'" "children s' = children s"
    by simp_all
qed

lemma flush_child_succeeds:
  assumes g: "good_malloc malloc" and w: "live s" and c: "content s = L @ replicate (prefix_len k) 0 @ c"
    and f: "fits k c" and rm: "room malloc s (length L + length (sealed k c))"
  shows "fst (flush_child malloc (child_of (length L) k) s)"
proof (cases k)
  case (Fixed n)
  note c' = c [unfolded Fixed prefix_len.simps]
  show ?thesis
    unfolding Fixed flush_child_fixed [OF w c'] using write_prefix_result(1) [OF w c'] f
    by (simp add: Fixed)
next
  case Asn1
  have c1: "content s = L @ [0] @ c"
    using c by (simp add: Asn1)
  have l: "len s = length L + 1 + length c"
    using content_buf [OF w] c1 w by (auto simp: live_def)
  have n: "length c \<le> 0xfffffffe"
    using f by (simp add: Asn1)
  obtain m b q where p: "asn1_prefix (length c) = (Suc m, b, q)" "der_length (length c) = b # be_bytes m q" "q < 256 ^ m"
    using asn1_prefix_der [OF n] by blast
  have wp: "fst (write_prefix i m q t)" for i t
    using p(3) by (simp add: write_prefix_def put_be_eq Let_def div_eq_0_iff)
  have "room malloc s (len s + m)"
    using rm l p(2) by (simp add: Asn1 add.commute add.left_commute)
  then have "fst (cbb_buffer_add malloc m s)"
    by (rule buffer_add_succeeds [OF w])
  then show ?thesis
    unfolding Asn1 flush_child_asn1 [OF w c1 n p(1)]
    by (auto simp: fst_and_then and_then_True wp ok_w_def fst_True [of "cbb_buffer_add malloc m s"])
qed

section \<open>CBB_flush\<close>

lemma content_take: "content (s\<lparr>children := cs\<rparr>) = content s" "grows s (s\<lparr>children := cs\<rparr>) = live s"
  by (auto simp: content_def grows_def live_def)

lemma flush_result:
  assumes "good_malloc malloc" and "live s" and "children s = cs @ offs (length L) fs" and "content s = L @ lay fs"
    and "CBB_flush malloc (length cs) s = (True, s')"
  shows "\<exists>r. seal fs = Some r \<and> content s' = L @ r \<and> grows s s' \<and> children s' = cs"
  using assms(2-)
proof (induction fs arbitrary: L cs s s')
  case Nil
  then show ?case
    by (subst (asm) CBB_flush.simps) (auto simp: live_def grows_refl)
next
  case (Cons f fs)
  obtain k c where f: "f = (k, c)" by (cases f)
  let ?L = "L @ replicate (prefix_len k) 0 @ c"
  let ?cs = "cs @ [child_of (length L) k]"
  have ch: "children s ! length cs = child_of (length L) k"
    using Cons.prems(2) by (simp add: f)
  have "\<not> error s" using Cons.prems(1) by (simp add: live_def)
  with Cons.prems(2,4) obtain t where t: "CBB_flush malloc (length ?cs) s = (True, t)"
    and u: "and_then (flush_child malloc (child_of (length L) k))
        (\<lambda>s. (True, s\<lparr>children := take (length cs) (children s)\<rparr>)) t = (True, s')"
    by (subst (asm) CBB_flush.simps) (auto simp: f ch or_error_True split: prod.splits bool.splits)
  have "\<exists>r. seal fs = Some r \<and> content t = ?L @ r \<and> grows s t \<and> children t = ?cs"
    by (rule Cons.IH [OF Cons.prems(1) _ _ t]) (use Cons.prems in \<open>simp_all add: f add.assoc\<close>)
  then obtain r where r: "seal fs = Some r" "content t = L @ replicate (prefix_len k) 0 @ (c @ r)" "grows s t"
      "children t = ?cs"
    by auto
  from u obtain v where v: "flush_child malloc (child_of (length L) k) t = (True, v)"
      and s': "s' = v\<lparr>children := take (length cs) (children v)\<rparr>"
    by (auto simp: and_then_True)
  have "live t" using r(3) by (simp add: grows_def)
  note fc = flush_child_result [OF assms(1) this r(2) v]
  have "grows s s'"
    using r(3) fc(3) by (auto simp: s' grows_def live_def)
  then show ?case
    using r(1,4) fc by (simp add: f s' content_take)
qed

lemma flush_succeeds:
  assumes "good_malloc malloc" and "live s" and "children s = cs @ offs (length L) fs" and "content s = L @ lay fs"
    and "seal fs = Some r" and "room malloc s (length L + length r)"
  shows "fst (CBB_flush malloc (length cs) s)"
  using assms(2-)
proof (induction fs arbitrary: L cs s r)
  case Nil
  then show ?case
    by (subst CBB_flush.simps) (auto simp: live_def)
next
  case (Cons f fs)
  obtain k c where f: "f = (k, c)" by (cases f)
  from Cons.prems(4) obtain q where q: "seal fs = Some q" "fits k (c @ q)" "r = sealed k (c @ q)"
    by (auto simp: f split: option.splits if_splits)
  let ?L = "L @ replicate (prefix_len k) 0 @ c"
  let ?cs = "cs @ [child_of (length L) k]"
  have ch: "children s ! length cs = child_of (length L) k"
    using Cons.prems(2) by (simp add: f)
  have "length ?L + length q \<le> length L + length r"
    using length_sealed [of k "c @ q"] by (simp add: q(3))
  then have rm: "room malloc s (length ?L + length q)"
    using Cons.prems(5) room_le by blast
  have "fst (CBB_flush malloc (length ?cs) s)"
    by (rule Cons.IH [OF Cons.prems(1) _ _ q(1) rm]) (use Cons.prems in \<open>simp_all add: f add.assoc\<close>)
  then obtain t where t: "CBB_flush malloc (length ?cs) s = (True, t)"
    by (auto simp: fst_True)
  have "\<exists>r. seal fs = Some r \<and> content t = ?L @ r \<and> grows s t \<and> children t = ?cs"
    by (rule flush_result [OF assms(1) Cons.prems(1) _ _ t]) (use Cons.prems in \<open>simp_all add: f add.assoc\<close>)
  then have tr: "content t = L @ replicate (prefix_len k) 0 @ (c @ q)" "grows s t"
    using q(1) by auto
  have lt: "live t" using tr(2) by (simp add: grows_def)
  have "room malloc t (length L + length (sealed k (c @ q)))"
    using Cons.prems(5) room_grows [OF tr(2)] by (simp add: q(3))
  then have "fst (flush_child malloc (child_of (length L) k) t)"
    by (rule flush_child_succeeds [OF assms(1) lt tr(1) q(2)])
  moreover have "\<not> error s" using Cons.prems(1) by (simp add: live_def)
  ultimately show ?case
    using t Cons.prems(2)
    by (subst CBB_flush.simps) (simp add: f ch fst_or_error fst_and_then, simp add: fst_True)
qed

section \<open>The abstract builder\<close>

text \<open>
  The bytes of the top-level CBB that come before the first pending prefix, and the chain of the
  pending ones.
\<close>

type_synonym builder = "u8 list \<times> frames"

definition rep :: "cbb \<Rightarrow> builder \<Rightarrow> bool" where
  "rep s w \<longleftrightarrow> live s \<and> content s = fst w @ lay (snd w) \<and> children s = offs (length (fst w)) (snd w)"

definition built :: "builder \<Rightarrow> nat" where
  "built w = length (fst w) + length (lay (snd w))"

text \<open>Append to the innermost CBB.\<close>

definition append_to :: "builder \<Rightarrow> u8 list \<Rightarrow> builder" where
  "append_to w r =
     (case w of (b0, fs) \<Rightarrow>
        if fs = [] then (b0 @ r, []) else (b0, butlast fs @ [(fst (last fs), snd (last fs) @ r)]))"

text \<open>Write all the prefixes that are pending inside the CBB at depth \<open>d\<close>.\<close>

definition close_to :: "nat \<Rightarrow> builder \<Rightarrow> builder option" where
  "close_to d w =
     (case seal (drop d (snd w)) of None \<Rightarrow> None | Some r \<Rightarrow> Some (append_to (fst w, take d (snd w)) r))"

lemma lay_append: "lay (us @ vs) = lay us @ lay vs"
  by (induction us rule: lay.induct) auto

lemma offs_append: "offs n (us @ vs) = offs n us @ offs (n + length (lay us)) vs"
  by (induction n us rule: offs.induct) (auto simp: add.assoc)

lemma append_to_Nil [simp]: "append_to w [] = w"
  by (cases w) (auto simp: append_to_def)

lemma append_to_append [simp]: "append_to (append_to w a) b = append_to w (a @ b)"
  by (cases w) (auto simp: append_to_def)

lemma depth_append_to [simp]: "length (snd (append_to w b)) = length (snd w)"
  by (cases w) (auto simp: append_to_def)

lemma lay_append_to: "fst (append_to w r) @ lay (snd (append_to w r)) = fst w @ lay (snd w) @ r"
proof (cases w)
  case (Pair b0 fs)
  show ?thesis
  proof (cases fs rule: rev_cases)
    case Nil
    then show ?thesis by (simp add: Pair append_to_def)
  next
    case (snoc us f)
    then show ?thesis by (cases f) (simp add: Pair append_to_def lay_append)
  qed
qed

lemma offs_append_to: "offs (length (fst (append_to w r))) (snd (append_to w r)) = offs (length (fst w)) (snd w)"
proof (cases w)
  case (Pair b0 fs)
  show ?thesis
  proof (cases fs rule: rev_cases)
    case Nil
    then show ?thesis by (simp add: Pair append_to_def)
  next
    case (snoc us f)
    then show ?thesis by (cases f) (simp add: Pair append_to_def offs_append)
  qed
qed

lemma built_append_to [simp]: "built (append_to w r) = built w + length r"
  using arg_cong [OF lay_append_to [of w r], of length] by (simp add: built_def)

lemma rep_append_to:
  "rep t (append_to w r) \<longleftrightarrow> live t \<and> content t = fst w @ lay (snd w) @ r \<and> children t = offs (length (fst w)) (snd w)"
  by (simp add: rep_def lay_append_to offs_append_to)

lemma rep_split:
  assumes "rep s w" and "d \<le> length (snd w)"
  shows "content s = (fst w @ lay (take d (snd w))) @ lay (drop d (snd w))"
    and "children s = offs (length (fst w)) (take d (snd w)) @ offs (length (fst w @ lay (take d (snd w)))) (drop d (snd w))"
  using assms lay_append [of "take d (snd w)" "drop d (snd w)"]
    offs_append [of "length (fst w)" "take d (snd w)" "drop d (snd w)"]
  by (simp_all add: rep_def)

lemma close_to_closed: "close_to d w = Some w' \<Longrightarrow> d \<le> length (snd w) \<Longrightarrow> length (snd w') = d"
  by (auto simp: close_to_def split: option.splits)

lemma close_to_here [simp]: "length (snd w) = d \<Longrightarrow> close_to d w = Some w"
  by (simp add: close_to_def)

lemma close_to_built: "close_to d w = Some w' \<Longrightarrow> built w \<le> built w'"
proof -
  assume "close_to d w = Some w'"
  then obtain r where r: "seal (drop d (snd w)) = Some r" "w' = append_to (fst w, take d (snd w)) r"
    by (auto simp: close_to_def split: option.splits)
  have "length (lay (snd w)) = length (lay (take d (snd w))) + length (lay (drop d (snd w)))"
    using lay_append [of "take d (snd w)" "drop d (snd w)"] by (simp flip: length_append)
  then show ?thesis
    using length_lay [OF r(1)] by (simp add: r(2)) (simp add: built_def)
qed

section \<open>Operations that append\<close>

text \<open>
  The contract of most operations: at depth \<open>d\<close>, \<open>op\<close> writes the prefixes pending inside that CBB
  and then appends \<open>bytes\<close> to it. \<open>appends_sound\<close> says what a success does, whatever the allocator
  did, and \<open>appends_complete\<close> that an operation succeeds when the pending prefixes can be written
  and there is room.
\<close>

locale appends =
  fixes malloc :: heap and d :: nat and op_w :: writer and bytes :: "u8 list"
  assumes appends_sound: "good_malloc malloc \<Longrightarrow> rep s w \<Longrightarrow> d \<le> length (snd w) \<Longrightarrow> op_w s = (True, s') \<Longrightarrow>
      \<exists>w'. close_to d w = Some w' \<and> rep s' (append_to w' bytes) \<and> grows s s'"
    and appends_complete: "good_malloc malloc \<Longrightarrow> rep s w \<Longrightarrow> d \<le> length (snd w) \<Longrightarrow> close_to d w = Some w' \<Longrightarrow>
      room malloc s (built w' + length bytes) \<Longrightarrow> fst (op_w s)"
begin

text \<open>On a CBB with nothing pending inside it.\<close>

lemma appends_here:
  assumes "good_malloc malloc" and "rep s w" and "length (snd w) = d" and "op_w s = (True, s')"
  shows "rep s' (append_to w bytes)"
  using appends_sound [OF assms(1,2) _ assms(4)] assms(3) by simp

lemma appends_ok:
  assumes "good_malloc malloc" and "rep s w" and "length (snd w) = d"
    and "room malloc s (built w + length bytes)"
  shows "\<exists>s'. op_w s = (True, s') \<and> rep s' (append_to w bytes)"
  using appends_complete [OF assms(1,2) _ _ assms(4)] appends_here [OF assms(1,2,3)] assms(3)
  by (auto simp: fst_True)

end

lemma appends_and_then:
  assumes a: "appends malloc d op1 b1" and b: "appends malloc d op2 b2"
  shows "appends malloc d (and_then op1 op2) (b1 @ b2)"
proof
  fix s w s'
  assume g: "good_malloc malloc" and r: "rep s w" and d: "d \<le> length (snd w)" and "and_then op1 op2 s = (True, s')"
  then obtain t where t: "op1 s = (True, t)" "op2 t = (True, s')"
    by (auto simp: and_then_True)
  from appends.appends_sound [OF a g r d t(1)] obtain w' where w: "close_to d w = Some w'" "rep t (append_to w' b1)" "grows s t"
    by blast
  have l: "length (snd (append_to w' b1)) = d"
    using close_to_closed [OF w(1) d] by simp
  have "close_to d (append_to w' b1) = Some (append_to w' b1)" using l by simp
  with appends.appends_sound [OF b g w(2) _ t(2)] l have "rep s' (append_to w' (b1 @ b2))" "grows t s'"
    by simp_all
  with w grows_trans show "\<exists>w'. close_to d w = Some w' \<and> rep s' (append_to w' (b1 @ b2)) \<and> grows s s'"
    by blast
next
  fix s w w'
  assume g: "good_malloc malloc" and r: "rep s w" and d: "d \<le> length (snd w)" and c: "close_to d w = Some w'"
    and rm: "room malloc s (built w' + length (b1 @ b2))"
  have "fst (op1 s)"
    by (rule appends.appends_complete [OF a g r d c]) (rule room_le [OF rm], simp)
  then obtain t where t: "op1 s = (True, t)" by (auto simp: fst_True)
  from appends.appends_sound [OF a g r d t] c have w: "rep t (append_to w' b1)" "grows s t"
    by auto
  have l: "length (snd (append_to w' b1)) = d"
    using close_to_closed [OF c d] by simp
  have "fst (op2 t)"
  proof (rule appends.appends_complete [OF b g w(1)])
    show "close_to d (append_to w' b1) = Some (append_to w' b1)" using l by simp
    show "room malloc t (built (append_to w' b1) + length b2)"
      using rm room_grows [OF w(2)] by (simp add: add.assoc)
  qed (use l in simp)
  with t show "fst (and_then op1 op2 s)" by (simp add: fst_and_then)
qed

lemma appends_or_error: "appends malloc d op1 b \<Longrightarrow> appends malloc d (or_error e op1) b"
  unfolding appends_def by (simp add: or_error_True fst_or_error)

lemma appends_flush: "appends malloc d (CBB_flush malloc d) []"
proof
  fix s w s'
  assume g: "good_malloc malloc" and r: "rep s w" and d: "d \<le> length (snd w)"
    and t: "CBB_flush malloc d s = (True, s')"
  let ?us = "take d (snd w)"
  have l: "length (offs (length (fst w)) ?us) = d" using d by simp
  obtain q where "seal (drop d (snd w)) = Some q" "content s' = (fst w @ lay ?us) @ q" "grows s s'"
      "children s' = offs (length (fst w)) ?us"
    using flush_result [OF g _ rep_split(2) [OF r d] rep_split(1) [OF r d], of s'] t r l
    by (auto simp: rep_def)
  then show "\<exists>w'. close_to d w = Some w' \<and> rep s' (append_to w' []) \<and> grows s s'"
    by (auto simp: close_to_def rep_append_to grows_def)
next
  fix s w w'
  assume g: "good_malloc malloc" and r: "rep s w" and d: "d \<le> length (snd w)"
    and c: "close_to d w = Some w'" and rm: "room malloc s (built w' + length [])"
  let ?us = "take d (snd w)"
  from c obtain q where q: "seal (drop d (snd w)) = Some q" "w' = append_to (fst w, ?us) q"
    by (auto simp: close_to_def split: option.splits)
  have l: "length (offs (length (fst w)) ?us) = d" using d by simp
  have "room malloc s (length (fst w @ lay ?us) + length q)"
    using rm built_append_to [of "(fst w, ?us)" q] by (simp add: q(2)) (simp add: built_def)
  then show "fst (CBB_flush malloc d s)"
    using flush_succeeds [OF g _ rep_split(2) [OF r d] rep_split(1) [OF r d] q(1)] r l
    by (simp add: rep_def)
qed

text \<open>Appending to a CBB that has nothing pending.\<close>

definition raw_append :: "heap \<Rightarrow> writer \<Rightarrow> u8 list \<Rightarrow> bool" where
  "raw_append malloc op1 bs \<longleftrightarrow>
     (\<forall>s s'. live s \<longrightarrow> op1 s = (True, s') \<longrightarrow>
        content s' = content s @ bs \<and> grows s s' \<and> children s' = children s) \<and>
     (\<forall>s. live s \<longrightarrow> room malloc s (length (content s) + length bs) \<longrightarrow> fst (op1 s))"

lemma appends_raw:
  assumes r: "good_malloc malloc \<Longrightarrow> raw_append malloc op1 bs"
  shows "appends malloc d (and_then (CBB_flush malloc d) op1) bs"
proof -
  have f: "appends malloc d (CBB_flush malloc d) []" by (rule appends_flush)
  show ?thesis
  proof
    fix s w s'
    assume g: "good_malloc malloc" and p: "rep s w" and d: "d \<le> length (snd w)" and "and_then (CBB_flush malloc d) op1 s = (True, s')"
    then obtain t where t: "CBB_flush malloc d s = (True, t)" "op1 t = (True, s')"
      by (auto simp: and_then_True)
    from appends.appends_sound [OF f g p d t(1)] obtain w' where w: "close_to d w = Some w'" "rep t w'" "grows s t"
      by auto
    then have "content s' = content t @ bs" "grows t s'" "children s' = children t"
      using r [OF g] t(2) unfolding raw_append_def rep_def by blast+
    then show "\<exists>w'. close_to d w = Some w' \<and> rep s' (append_to w' bs) \<and> grows s s'"
      using w grows_trans [OF w(3)] by (intro exI [of _ w']) (auto simp: rep_append_to, auto simp: rep_def grows_def)
  next
    fix s w w'
    assume g: "good_malloc malloc" and p: "rep s w" and d: "d \<le> length (snd w)" and c: "close_to d w = Some w'"
      and rm: "room malloc s (built w' + length bs)"
    have "fst (CBB_flush malloc d s)"
      by (rule appends.appends_complete [OF f g p d c]) (use rm room_le in auto)
    then obtain t where t: "CBB_flush malloc d s = (True, t)" by (auto simp: fst_True)
    from appends.appends_sound [OF f g p d t] c have w: "rep t w'" "grows s t" by auto
    then have "live t" "length (content t) = built w'" by (auto simp: rep_def built_def)
    moreover from this have "room malloc t (length (content t) + length bs)"
      using rm room_grows [OF w(2)] by simp
    ultimately have "fst (op1 t)"
      using r [OF g] unfolding raw_append_def by blast
    with t show "fst (and_then (CBB_flush malloc d) op1 s)" by (simp add: fst_and_then)
  qed
qed

lemma length_content: "live s \<Longrightarrow> length (content s) = len s"
  using content_buf by blast

lemma raw_add_fill:
  assumes g: "good_malloc malloc" and n: "length bs < size_mod"
  shows "raw_append malloc (and_then (cbb_buffer_add malloc (length bs)) (fill_space bs)) bs"
  unfolding raw_append_def
proof (intro conjI allI impI)
  fix s s'
  assume l: "live s" and "and_then (cbb_buffer_add malloc (length bs)) (fill_space bs) s = (True, s')"
  then obtain t where t: "cbb_buffer_add malloc (length bs) s = (True, t)" "fill_space bs t = (True, s')"
    by (auto simp: and_then_True)
  obtain E where E: "grows s t" "len t = len s + length bs" "content t = content s @ E" "length E = length bs"
      "children t = children s"
    by (rule buffer_add_result [OF g l n t(1)])
  have lt: "live t" and ct: "content t = content s @ E @ []" using E by (simp_all add: grows_def)
  have s': "s' = t\<lparr>buf := store (length (content s)) bs (buf t)\<rparr>"
    using t(2) E(2) length_content [OF l] by (simp add: fill_space_def)
  note st = store_content [OF lt ct refl E(4) [symmetric]]
  show "content s' = content s @ bs" using st(1) by (simp add: s')
  show "grows s s'" unfolding s' by (rule grows_trans [OF E(1) st(2)])
  show "children s' = children s" using E(5) by (simp add: s')
next
  fix s
  assume l: "live s" and rm: "room malloc s (length (content s) + length bs)"
  then have "fst (cbb_buffer_add malloc (length bs) s)"
    by (intro buffer_add_succeeds) (simp_all add: length_content)
  then show "fst (and_then (cbb_buffer_add malloc (length bs)) (fill_space bs) s)"
    by (simp add: fst_and_then fill_space_def) (simp add: fst_True)
qed

lemma and_then_assoc: "and_then (and_then a b) c = and_then a (and_then b c)"
  by (rule ext) (auto simp: and_then_def split: prod.splits bool.splits)

lemma add_bytes_appends: "length bs < size_mod \<Longrightarrow> appends malloc d (CBB_add_bytes malloc d bs) bs"
  unfolding CBB_add_bytes_def CBB_add_space_def and_then_assoc by (intro appends_raw raw_add_fill)

lemma add_zeros_appends: "n < size_mod \<Longrightarrow> appends malloc d (CBB_add_zeros malloc d n) (replicate n 0)"
  using appends_raw [OF raw_add_fill [of malloc "replicate n 0"]]
  unfolding CBB_add_zeros_def CBB_add_space_def and_then_assoc by simp

lemma add_u_appends:
  assumes "k < size_mod" and "unat v < 256 ^ k"
  shows "appends malloc d (cbb_add_u malloc d v k) (be_bytes k (unat v))"
proof -
  have e: "cbb_add_u malloc d v k =
      and_then (CBB_flush malloc d) (and_then (cbb_buffer_add malloc (length (be_bytes k (unat v))))
        (fill_space (be_bytes k (unat v))))"
    using assms(2)
    by (simp add: cbb_add_u_def CBB_add_space_def put_be_eq and_then_assoc)
      (simp add: and_then_def ok_w_def fun_eq_iff split: prod.splits bool.splits)
  show ?thesis
    unfolding e using assms by (intro appends_raw raw_add_fill) simp_all
qed

lemma add_u_narrow:
  assumes "LENGTH('a) \<le> 64" and "unat v < 256 ^ k" and "k < size_mod"
  shows "appends malloc d (cbb_add_u malloc d (ucast (v :: 'a::len word)) k) (be_bytes k (unat v))"
proof -
  have "unat (ucast v :: u64) = unat v"
    by (rule unat_ucast_up) (use assms in simp)
  with add_u_appends [of k "ucast v" malloc d] assms show ?thesis by simp
qed

interpretation flush: appends malloc d "CBB_flush malloc d" "[]" for malloc d
  by (rule appends_flush)

interpretation add_u8: appends malloc d "CBB_add_u8 malloc d v" "[v]" for malloc d v
  using add_u_narrow [of v 1 malloc d] unat_byte_lt [of v]
  by (simp add: CBB_add_u8_def word_of_nat_unat)

interpretation add_u16: appends malloc d "CBB_add_u16 malloc d v" "be_bytes 2 (unat v)" for malloc d v
  using add_u_narrow [of v 2 malloc d] unsigned_less [of v] by (simp add: CBB_add_u16_def)

interpretation add_u32: appends malloc d "CBB_add_u32 malloc d v" "be_bytes 4 (unat v)" for malloc d v
  using add_u_narrow [of v 4 malloc d] unsigned_less [of v] by (simp add: CBB_add_u32_def)

interpretation add_u64: appends malloc d "CBB_add_u64 malloc d v" "be_bytes 8 (unat v)" for malloc d v
  using add_u_appends [of 8 v malloc d] unsigned_less [of v] by (simp add: CBB_add_u64_def)

interpretation add_u16le: appends malloc d "CBB_add_u16le malloc d v" "rev (be_bytes 2 (unat v))" for malloc d v
  unfolding CBB_add_u16le_def bswap2_bytes [symmetric] by (rule add_u16.appends_axioms)

interpretation add_u32le: appends malloc d "CBB_add_u32le malloc d v" "rev (be_bytes 4 (unat v))" for malloc d v
  unfolding CBB_add_u32le_def bswap4_bytes [symmetric] by (rule add_u32.appends_axioms)

interpretation add_u64le: appends malloc d "CBB_add_u64le malloc d v" "rev (be_bytes 8 (unat v))" for malloc d v
  unfolding CBB_add_u64le_def bswap8_bytes [symmetric] by (rule add_u64.appends_axioms)

section \<open>Children\<close>

definition push :: "builder \<Rightarrow> prefix \<Rightarrow> builder" where
  "push w k = (fst w, snd w @ [(k, [])])"

lemma depth_push [simp]: "length (snd (push w k)) = Suc (length (snd w))"
  by (simp add: push_def)

lemma built_push [simp]: "built (push w k) = built w + prefix_len k"
  by (simp add: push_def built_def lay_append)

lemma close_to_pushed:
  "length (snd w) = d \<Longrightarrow> close_to d (append_to (push w k) c) =
     (if fits k c then Some (append_to w (sealed k c)) else None)"
  by (cases w) (auto simp: close_to_def push_def append_to_def)

lemma add_child_result:
  assumes g: "good_malloc malloc" and r: "rep s w" and d: "length (snd w) = d" and n: "prefix_len k < size_mod"
    and t: "cbb_add_child malloc d (prefix_len k) (k = Asn1) s = (True, s')"
  shows "rep s' (push w k)" "grows s s'"
proof -
  from t obtain u where u: "cbb_buffer_add malloc (prefix_len k) s = (True, u)"
    and s': "s' = u\<lparr>buf := store (len s) (replicate (prefix_len k) 0) (buf u),
       children := take d (children u) @ [\<lparr>offset = len s, pending_len_len = prefix_len k, pending_is_asn1 = (k = Asn1)\<rparr>]\<rparr>"
    by (auto simp: cbb_add_child_def Let_def and_then_True)
  have l: "live s" using r by (simp add: rep_def)
  obtain E where E: "grows s u" "content u = content s @ E" "length E = prefix_len k" "children u = children s"
    by (rule buffer_add_result [OF g l n u])
  have lu: "live u" and cu: "content u = content s @ E @ []" using E by (simp_all add: grows_def)
  define v where "v = u\<lparr>buf := store (len s) (replicate (prefix_len k) 0) (buf u)\<rparr>"
  have v: "content v = content s @ replicate (prefix_len k) 0" "grows u v"
    using store_content [OF lu cu, of "len s" "replicate (prefix_len k) 0"] E(3) length_content [OF l]
    by (simp_all add: v_def)
  have sv: "s' = v\<lparr>children := offs (length (fst w)) (snd w) @ [child_of (len s) k]\<rparr>"
    using r d E(4) by (simp add: s' v_def rep_def child_of_def)
  have "len s = length (fst w) + length (lay (snd w))"
    using length_content [OF l] r by (auto simp: rep_def)
  then show "rep s' (push w k)"
    using r v by (auto simp: sv rep_def push_def lay_append offs_append content_def grows_def live_def)
  show "grows s s'"
    using E(1) v(2) by (auto simp: sv grows_def live_def)
qed

lemma add_child_succeeds:
  "rep s w \<Longrightarrow> room malloc s (built w + n) \<Longrightarrow> fst (cbb_add_child malloc d n b s)"
  using buffer_add_succeeds [of s malloc n] length_content [of s]
  by (auto simp: cbb_add_child_def Let_def fst_and_then rep_def built_def fst_True [of "cbb_buffer_add malloc n s"])

text \<open>A child with the content \<open>c\<close>: opened, written and flushed into its parent.\<close>

lemma appends_child:
  assumes p: "appends malloc d pre pb" and c: "appends malloc (Suc d) op1 c" and k: "prefix_len k < size_mod"
    and f: "fits k c"
  shows "appends malloc d
    (and_then pre (and_then (cbb_add_child malloc d (prefix_len k) (k = Asn1)) (and_then op1 (CBB_flush malloc d))))
    (pb @ sealed k c)"
proof
  fix s w s'
  assume g: "good_malloc malloc" and r: "rep s w" and d: "d \<le> length (snd w)"
    and "and_then pre (and_then (cbb_add_child malloc d (prefix_len k) (k = Asn1)) (and_then op1 (CBB_flush malloc d))) s = (True, s')"
  then obtain t u v where t: "pre s = (True, t)" and u: "cbb_add_child malloc d (prefix_len k) (k = Asn1) t = (True, u)"
    and v: "op1 u = (True, v)" and fl: "CBB_flush malloc d v = (True, s')"
    by (auto simp: and_then_True)
  from appends.appends_sound [OF p g r d t] obtain w' where w: "close_to d w = Some w'" "rep t (append_to w' pb)" "grows s t"
    by blast
  have l: "length (snd (append_to w' pb)) = d" using close_to_closed [OF w(1) d] by simp
  note ch = add_child_result [OF g w(2) l k u]
  have "close_to (Suc d) (push (append_to w' pb) k) = Some (push (append_to w' pb) k)" using l by simp
  with appends.appends_sound [OF c g ch(1) _ v] l
  have v': "rep v (append_to (push (append_to w' pb) k) c)" "grows u v" by simp_all
  with flush.appends_sound [OF g v'(1) _ fl] l close_to_pushed [OF l, of k c] f
  have "rep s' (append_to w' (pb @ sealed k c))" "grows v s'" by simp_all
  then show "\<exists>w'. close_to d w = Some w' \<and> rep s' (append_to w' (pb @ sealed k c)) \<and> grows s s'"
    using w(1,3) ch(2) v'(2) grows_trans by blast
next
  fix s w w'
  assume g: "good_malloc malloc" and r: "rep s w" and d: "d \<le> length (snd w)" and cl: "close_to d w = Some w'"
    and rm: "room malloc s (built w' + length (pb @ sealed k c))"
  have "fst (pre s)"
    by (rule appends.appends_complete [OF p g r d cl]) (rule room_le [OF rm], simp)
  then obtain t where t: "pre s = (True, t)" by (auto simp: fst_True)
  from appends.appends_sound [OF p g r d t] cl have w: "rep t (append_to w' pb)" "grows s t" by auto
  have l: "length (snd (append_to w' pb)) = d" using close_to_closed [OF cl d] by simp
  have rt: "room malloc t (built w' + length pb + length (sealed k c))"
    using rm room_grows [OF w(2)] by (simp add: add.assoc)
  have "fst (cbb_add_child malloc d (prefix_len k) (k = Asn1) t)"
    by (rule add_child_succeeds [OF w(1)]) (rule room_le [OF rt], use length_sealed [of k c] in simp)
  then obtain u where u: "cbb_add_child malloc d (prefix_len k) (k = Asn1) t = (True, u)" by (auto simp: fst_True)
  note ch = add_child_result [OF g w(1) l k u]
  have cs: "close_to (Suc d) (push (append_to w' pb) k) = Some (push (append_to w' pb) k)" using l by simp
  have ru: "room malloc u (built w' + length pb + length (sealed k c))"
    using rt room_grows [OF ch(2)] by simp
  have "fst (op1 u)"
    by (rule appends.appends_complete [OF c g ch(1) _ cs])
      (use l in simp, rule room_le [OF ru], use length_sealed [of k c] in simp)
  then obtain v where v: "op1 u = (True, v)" by (auto simp: fst_True)
  with appends.appends_sound [OF c g ch(1) _ v] l cs
  have v': "rep v (append_to (push (append_to w' pb) k) c)" "grows u v" by simp_all
  have "fst (CBB_flush malloc d v)"
  proof (rule flush.appends_complete [OF g v'(1)])
    show "close_to d (append_to (push (append_to w' pb) k) c) = Some (append_to w' (pb @ sealed k c))"
      using close_to_pushed [OF l, of k c] f by simp
    show "room malloc v (built (append_to w' (pb @ sealed k c)) + length [])"
      using ru room_grows [OF v'(2)] by (simp add: add.assoc)
  qed (use l in simp)
  with t u v show "fst (and_then pre (and_then (cbb_add_child malloc d (prefix_len k) (k = Asn1)) (and_then op1 (CBB_flush malloc d))) s)"
    by (simp add: fst_and_then and_then_True)
qed

end
