(* ===== verification/Cbb_Der.thy ===== *)
theory Cbb_Der
  imports Cbb
begin

text \<open>
  What the ASN.1 writers of theory \<^verbatim>\<open>Cbb\<close> write: each is shown to append exactly the DER
  encoding of its argument, as an interpretation of the contract \<open>appends\<close>. With the codecs of
  theories \<^verbatim>\<open>Der\<close> and \<^verbatim>\<open>Der_Values\<close> this gives the round trips between builder and parser.
\<close>

section \<open>Base-128 integers and tags\<close>

fun high_digits :: "nat \<Rightarrow> nat \<Rightarrow> u8 list" where
  "high_digits v 0 = []"
| "high_digits v (Suc n) = word_of_nat (128 + v div 128 ^ n mod 128) # high_digits v n"

lemma high_digits_snoc: "high_digits v (Suc n) = high_digits (v div 128) n @ [word_of_nat (128 + v mod 128)]"
proof (induction n)
  case 0
  then show ?case by simp
next
  case (Suc n)
  have "v div 128 ^ Suc n = v div 128 div 128 ^ n"
    by (simp add: div_mult2_eq)
  with Suc show ?case by simp
qed

lemma base128_len_nat: "base128_len v = (if v = 0 then 0 else Suc (base128_len (drop_bit 7 v)))"
  by (subst base128_len.simps) (simp add: word_gt_0)

lemma high_digits_prefix: "high_digits (unat v) (base128_len v) = b128_prefix (unat v)"
proof (induction v rule: base128_len.induct)
  case (1 v)
  show ?case
  proof (cases "v = 0")
    case True
    then show ?thesis by (subst base128_len_nat) simp
  next
    case False
    then have "b128_prefix (unat v) = b128_prefix (unat v div 128) @ [word_of_nat (128 + unat v mod 128)]"
      by (subst b128_prefix.simps) (auto simp: word_unat_eq_iff)
    moreover have "high_digits (unat (drop_bit 7 v)) (base128_len (drop_bit 7 v)) = b128_prefix (unat v div 128)"
      using 1 False by (simp add: unat_drop_bit word_gt_0)
    moreover have "unat (drop_bit 7 v) = unat v div 128" by (simp add: unat_drop_bit)
    ultimately show ?thesis
      using False by (subst base128_len_nat) (simp only: high_digits_snoc if_False)
  qed
qed

lemma base128_byte:
  "unat (ucast (drop_bit (7 * i) (v :: u64)) AND 0x7f :: u8) = unat v div 128 ^ i mod 128"
proof -
  have "unat (ucast (drop_bit (7 * i) v) :: u8) = unat v div 128 ^ i mod 256"
    by (simp add: unsigned_ucast_eq take_bit_eq_mod unat_drop_bit power_mult)
  then show ?thesis
    by (simp add: low_bits_byte8 mod_mod_cancel)
qed

lemma or_high_bit: "unat (b :: u8) < 128 \<Longrightarrow> b OR 0x80 = word_of_nat (128 + unat b)"
proof -
  assume b: "unat b < 128"
  then have "b AND 0x80 = 0" using high_bit_byte [of b] by auto
  then have "b OR 0x80 = b + 0x80" by (simp add: disjunctive_add_eq_or)
  also have "\<dots> = word_of_nat (128 + unat b)" by (simp add: word_of_nat_unat add.commute)
  finally show ?thesis .
qed

lemma and_then_ok: "and_then w ok_w = w"
  by (rule ext) (auto simp: and_then_def ok_w_def split: prod.splits bool.splits)

lemma base128_loop_high:
  "appends malloc d (base128_loop malloc d v (Suc n))
     (high_digits (unat v div 128) n @ [word_of_nat (unat v mod 128)])"
proof (induction n)
  case 0
  have b: "ucast v AND 0x7f = (word_of_nat (unat v mod 128) :: u8)"
    using base128_byte [of 0 v] by (intro word_of_nat_eqI) simp
  show ?case
    by (simp add: b and_then_ok add_u8.appends_axioms)
next
  case (Suc n)
  let ?b = "ucast (drop_bit (7 * Suc n) v) AND 0x7f :: u8"
  have "unat ?b = unat v div 128 ^ Suc n mod 128"
    by (rule base128_byte)
  then have "?b OR 0x80 = word_of_nat (128 + unat v div 128 div 128 ^ n mod 128)"
    using or_high_bit [of ?b] by (simp add: div_mult2_eq)
  then show ?case
    using appends_and_then [OF add_u8.appends_axioms Suc, of "?b OR 0x80"]
    by (subst base128_loop.simps) (simp add: Let_def del: base128_loop.simps of_nat_add)
qed

lemma add_base128_appends: "appends malloc d (add_base128_integer malloc d v) (b128 (unat v))"
proof (cases "v = 0")
  case True
  then show ?thesis
    using base128_loop_high [of malloc d v 0] by (simp add: add_base128_integer_def base128_len_nat b128_def)
next
  case False
  then have l: "base128_len v = Suc (base128_len (drop_bit 7 v))"
    by (subst base128_len_nat) simp
  have "high_digits (unat v div 128) (base128_len (drop_bit 7 v)) = b128_prefix (unat v div 128)"
    using high_digits_prefix [of "drop_bit 7 v"] by (simp add: unat_drop_bit)
  then show ?thesis
    using base128_loop_high [of malloc d v "base128_len (drop_bit 7 v)"]
    by (simp add: add_base128_integer_def l b128_def)
qed

interpretation add_base128: appends malloc d "add_base128_integer malloc d v" "b128 (unat v)" for malloc d v
  by (rule add_base128_appends)

lemma tag_appends:
  "appends malloc d
     (let tag_bits = ucast (drop_bit CBS_ASN1_TAG_SHIFT tag) AND 0xe0;
          tag_number = tag AND CBS_ASN1_TAG_NUMBER_MASK
      in if tag_number \<ge> 0x1f
         then and_then (CBB_add_u8 malloc d (tag_bits OR 0x1f)) (add_base128_integer malloc d (ucast tag_number))
         else CBB_add_u8 malloc d (tag_bits OR ucast tag_number))
     (der_tag tag)"
proof -
  let ?n = "tag AND CBS_ASN1_TAG_NUMBER_MASK"
  have "unat (ucast ?n :: u64) = unat ?n"
    by (rule unat_ucast_up) simp
  then show ?thesis
    using appends_and_then [OF add_u8.appends_axioms add_base128.appends_axioms, of malloc d _ "ucast ?n"]
    by (simp add: der_tag_def Let_def add_u8.appends_axioms)
qed

text \<open>
  An element whose content \<open>op1\<close> writes, between \<open>CBB_add_asn1\<close> and the \<open>CBB_flush\<close> of its parent.
\<close>

lemma appends_element:
  assumes "appends malloc (Suc d) op1 c" and "length c \<le> 0xfffffffe"
  shows "appends malloc d (and_then (CBB_add_asn1 malloc d tag) (and_then op1 (CBB_flush malloc d))) (der_element tag c)"
  using appends_child [OF appends_and_then [OF flush.appends_axioms [of malloc d] tag_appends [of malloc d tag]] assms(1), of Asn1] assms(2)
  by (simp add: CBB_add_asn1_def der_element_def Let_def and_then_assoc)

section \<open>Integers\<close>

fun uint64_out :: "nat \<Rightarrow> nat \<Rightarrow> bool \<Rightarrow> u8 list" where
  "uint64_out v 0 started = (if \<not> started then [0] else [])"
| "uint64_out v (Suc r) started =
     (let byte = v div 256 ^ r mod 256
      in if \<not> started \<and> byte = 0 then uint64_out v r False
         else (if \<not> started \<and> 128 \<le> byte then [0] else []) @ word_of_nat byte # uint64_out v r True)"

lemma uint64_bytes_appends:
  assumes "r \<noteq> 0 \<or> \<not> started"
  shows "appends malloc d (asn1_uint64_bytes malloc d v r started) (uint64_out (unat v) r started)"
  using assms
proof (induction malloc d v r started rule: asn1_uint64_bytes.induct)
  case (1 malloc d v started)
  then show ?case by (simp add: add_u8.appends_axioms)
next
  case (2 malloc d v r started)
  define byte where "byte = (ucast (drop_bit (8 * r) v) :: u8)"
  have ub: "unat byte = unat v div 256 ^ r mod 256"
    by (simp add: byte_def unsigned_ucast_eq take_bit_eq_mod unat_drop_bit power_mult)
  then have b: "byte = word_of_nat (unat v div 256 ^ r mod 256)"
    by (rule word_of_nat_eqI)
  have b0: "byte = 0 \<longleftrightarrow> unat v div 256 ^ r mod 256 = 0"
    using ub by (simp add: word_unat_eq_iff)
  have b8: "byte AND 0x80 \<noteq> 0 \<longleftrightarrow> 128 \<le> unat v div 256 ^ r mod 256"
    using high_bit_byte [of byte] ub by simp
  have rest: "appends malloc d (and_then (CBB_add_u8 malloc d byte) (asn1_uint64_bytes malloc d v r True))
      (byte # uint64_out (unat v) r True)" if "\<not> (\<not> started \<and> byte = 0)"
  proof (cases "r = 0")
    case True
    then show ?thesis by (simp add: and_then_ok add_u8.appends_axioms)
  next
    case False
    then show ?thesis
      using 2(2) [OF byte_def that] appends_and_then [OF add_u8.appends_axioms [of malloc d byte]] by fastforce
  qed
  have pad: "appends malloc d (and_then (CBB_add_u8 malloc d 0) w) (0 # bs)" if "appends malloc d w bs" for w bs
    using appends_and_then [OF add_u8.appends_axioms [of malloc d 0] that] by simp
  have okw: "and_then ok_w w = w" for w
    by (simp add: and_then_def ok_w_def fun_eq_iff)
  show ?case
  proof (cases "\<not> started \<and> byte = 0")
    case True
    then show ?thesis
      using 2(1) [OF byte_def True] b0 by (simp add: byte_def [symmetric] Let_def)
  next
    case False
    then show ?thesis
      using rest [OF False] pad [OF rest [OF False]] b0 b8
      by (auto simp: byte_def [symmetric] Let_def okw b [symmetric])
  qed
qed

lemma be_bytes_Suc: "be_bytes (Suc n) v = word_of_nat (v div 256 ^ n) # be_bytes n v"
proof (induction n arbitrary: v)
  case 0
  then show ?case by simp
next
  case (Suc n)
  then show ?case
    using Suc [of "v div 256"] by (simp add: div_mult2_eq del: be_bytes.simps) (simp add: be_bytes.simps)
qed

lemma byte_mod: "(word_of_nat (n mod 256) :: u8) = word_of_nat n"
  by (simp add: word_unat_eq_iff unat_word_of_nat_byte)

lemma uint64_out_started: "uint64_out v r True = be_bytes r v"
  by (induction r) (simp_all add: be_bytes_Suc byte_mod Let_def del: be_bytes.simps(2))

lemma uint64_out_minimal:
  "v < 256 ^ r \<Longrightarrow> CBS_is_valid_asn1_integer (uint64_out v r False) \<noteq> None \<and> uint64_out v r False \<noteq> [] \<and>
     be_int (uint64_out v r False) = int v"
proof (induction r)
  case 0
  then show ?case by (simp add: CBS_is_valid_asn1_integer_def be_int_def be_nat_Cons)
next
  case (Suc r)
  define byte where "byte = v div 256 ^ r"
  have b: "byte < 256" using Suc.prems by (simp add: byte_def less_mult_imp_div_less)
  show ?case
  proof (cases "byte = 0")
    case True
    then have "v < 256 ^ r" by (simp add: byte_def div_eq_0_iff)
    with Suc.IH True show ?thesis by (simp add: byte_def [symmetric] Let_def)
  next
    case False
    define x where "x = (word_of_nat byte :: u8)"
    have x: "unat x = byte" using b by (simp add: x_def unat_word_of_nat_byte)
    have full: "be_bytes (Suc r) v = x # be_bytes r v" by (simp only: be_bytes_Suc x_def byte_def)
    have n: "be_nat (x # be_bytes r v) = v"
      using be_nat_be_bytes [of "Suc r" v] Suc.prems unfolding full by simp
    have out: "uint64_out v (Suc r) False = (if 128 \<le> byte then [0] else []) @ x # be_bytes r v"
      using False b by (simp add: byte_def [symmetric] Let_def uint64_out_started x_def)
    have x0: "x \<noteq> 0" using x False by auto
    show ?thesis
    proof (cases "128 \<le> byte")
      case True
      then have "x AND 0x80 \<noteq> 0" using x high_bit_byte [of x] by simp
      moreover have "be_nat (0 # x # be_bytes r v) = v"
        using n by (simp add: be_nat_Cons [of 0])
      ultimately show ?thesis
        using True out by (simp add: CBS_is_valid_asn1_integer_def be_int_def)
    next
      case False
      then have "x AND 0x80 = 0" "x \<noteq> 0xff" using x high_bit_byte [of x] by (auto simp: word_unat_eq_iff)
      then show ?thesis
        using False out x0 x n by (auto simp: CBS_is_valid_asn1_integer_def be_int_def split: option.splits prod.splits)
    qed
  qed
qed

lemma uint64_out_der: "uint64_out (unat (v :: u64)) 8 False = der_int (int (unat v))"
proof -
  have "unat v < 256 ^ 8" using unsigned_less [of v] by simp
  from uint64_out_minimal [OF this] valid_integer_iff [of "uint64_out (unat v) 8 False"] show ?thesis
    by (metis option.distinct(1))
qed

lemma length_der_int_u64: "length (der_int (int (unat (v :: u64)))) \<le> 9"
proof (rule length_der_int)
  have "- 2361183241434822606848 \<le> uint v" "uint v < 2 ^ 64"
    using uint_lt2p [of v] order_trans [of "- 2361183241434822606848" 0 "uint v"] by simp_all
  then show "- (256 ^ 9) \<le> 2 * int (unat v)" "2 * int (unat v) < 256 ^ 9"
    by simp_all
qed simp

lemma and_then_or_error: "fst (and_then (or_error d w1) w2 s) = fst (and_then w1 w2 s)"
  "and_then (or_error d w1) w2 s = (True, t) \<longleftrightarrow> and_then w1 w2 s = (True, t)"
  by (auto simp: and_then_def or_error_def split: prod.splits bool.splits)

lemma appends_cong:
  "appends malloc d w bs \<Longrightarrow> (\<And>s. fst (w' s) = fst (w s)) \<Longrightarrow> (\<And>s t. w' s = (True, t) \<longleftrightarrow> w s = (True, t)) \<Longrightarrow>
     appends malloc d w' bs"
  unfolding appends_def by simp

lemma add_uint64_appends:
  "appends malloc d (CBB_add_asn1_uint64_with_tag malloc d v tag) (der_element tag (der_int (int (unat v))))"
proof -
  have "appends malloc d (and_then (CBB_add_asn1 malloc d tag)
      (and_then (asn1_uint64_bytes malloc (Suc d) v 8 False) (CBB_flush malloc d))) (der_element tag (der_int (int (unat v))))"
    using uint64_bytes_appends [of 8 False malloc "Suc d" v] length_der_int_u64 [of v]
    by (intro appends_element) (simp_all add: uint64_out_der)
  then show ?thesis
    unfolding CBB_add_asn1_uint64_with_tag_def
    by (rule appends_cong) (simp_all add: and_then_or_error and_then_assoc)
qed

interpretation add_uint64: appends malloc d "CBB_add_asn1_uint64_with_tag malloc d v tag"
    "der_element tag (der_int (int (unat v)))" for malloc d v tag
  by (rule add_uint64_appends)

fun int64_out :: "u64 \<Rightarrow> nat \<Rightarrow> u8 list" where
  "int64_out v 0 = [int64_byte v 0]"
| "int64_out v (Suc i) = int64_byte v (Suc i) # int64_out v i"

lemma int64_bytes_appends: "appends malloc d (asn1_int64_bytes malloc d v i) (int64_out v i)"
proof (induction i)
  case 0
  then show ?case by (simp add: add_u8.appends_axioms)
next
  case (Suc i)
  then show ?case
    using appends_and_then [OF add_u8.appends_axioms [of malloc d "int64_byte v (Suc i)"] Suc] by simp
qed

lemma int64_out_bytes: "int64_out v i = be_bytes (Suc i) (unat v)"
proof (induction i)
  case 0
  have "int64_byte v 0 = word_of_nat (unat v)"
    by (simp add: int64_byte_def word_unat_eq_iff unsigned_ucast_eq take_bit_eq_mod unat_word_of_nat_byte)
  then show ?case by simp
next
  case (Suc i)
  have "int64_byte v (Suc i) = word_of_nat (unat v div 256 ^ Suc i)"
    by (simp add: int64_byte_def word_unat_eq_iff unsigned_ucast_eq take_bit_eq_mod unat_word_of_nat_byte
        unat_drop_bit power_mult power_add)
  with Suc show ?case by (simp add: be_bytes_Suc [of "Suc i"] del: be_bytes.simps)
qed

lemma int64_start_strips:
  "int64_byte v n AND 0x80 \<noteq> 0 \<Longrightarrow>
     int64_out v n = replicate (n - int64_start v n) 0xff @ int64_out v (int64_start v n) \<and>
     int64_start v n \<le> n \<and> int64_byte v (int64_start v n) AND 0x80 \<noteq> 0 \<and>
     (\<forall>k. int64_start v n = Suc k \<longrightarrow> \<not> (int64_byte v (Suc k) = 0xff \<and> int64_byte v k AND 0x80 \<noteq> 0))"
proof (induction n)
  case 0
  then show ?case by simp
next
  case (Suc n)
  show ?case
  proof (cases "int64_byte v (Suc n) = 0xff \<and> int64_byte v n AND 0x80 \<noteq> 0")
    case True
    then have "int64_start v n \<le> n" using Suc.IH by blast
    then have "replicate (Suc n - int64_start v n) (0xff :: u8) = 0xff # replicate (n - int64_start v n) 0xff"
      by (simp add: Suc_diff_le)
    with Suc.IH True show ?thesis by simp
  next
    case False
    then have "int64_start v (Suc n) = Suc n" by auto
    with False Suc.prems show ?thesis by simp
  qed
qed

lemma hd_int64_out: "\<exists>r. int64_out v n = int64_byte v n # r \<and> (r \<noteq> [] \<longrightarrow> (\<exists>k. n = Suc k \<and> hd r = int64_byte v k))"
proof (cases n)
  case (Suc k)
  then show ?thesis by (cases k) auto
qed simp

lemma be_int_int64_out: "be_int (int64_out v 7) = sint v"
proof -
  have "unat v < 256 ^ 8" using unsigned_less [of v] by simp
  then have "be_word (be_bytes 8 (unat v)) = v"
    by (simp only: be_word_be_bytes word_of_nat_unat ucast_id)
  moreover have "int64_out v 7 = be_bytes 8 (unat v)"
    using int64_out_bytes [of v 7] by simp
  ultimately show ?thesis
    using sint_be_word [of "int64_out v 7"] by simp
qed

lemma int64_out_der:
  assumes "sint v < 0"
  shows "int64_out v (int64_start v 7) = der_int (sint v)"
proof -
  obtain r7 where r7: "int64_out v 7 = int64_byte v 7 # r7" using hd_int64_out [of v 7] by blast
  then have "int64_byte v 7 AND 0x80 \<noteq> 0"
    using be_int_fits(3) [of "int64_out v 7"] be_int_int64_out [of v] assms high_bit_byte [of "int64_byte v 7"] by simp
  note st = int64_start_strips [OF this]
  define n where "n = int64_start v 7"
  obtain r where r: "int64_out v n = int64_byte v n # r" "r \<noteq> [] \<longrightarrow> (\<exists>k. n = Suc k \<and> hd r = int64_byte v k)"
    using hd_int64_out [of v n] by blast
  have hb: "int64_byte v n AND 0x80 \<noteq> 0" using st by (simp add: n_def)
  then have neg: "be_int (int64_out v n) < 0"
    using be_int_fits(3) [of "int64_out v n"] r high_bit_byte [of "int64_byte v n"] by simp
  have "be_int (int64_out v 7) = be_int (int64_out v n)"
    using st be_int_extend [of "int64_out v n" "7 - n"] neg r by (simp add: n_def)
  then have v: "be_int (int64_out v n) = sint v" by (simp add: be_int_int64_out)
  have "CBS_is_valid_asn1_integer (int64_out v n) \<noteq> None"
  proof (cases r)
    case Nil
    then show ?thesis using r by (simp add: CBS_is_valid_asn1_integer_def)
  next
    case (Cons x xs)
    then obtain k where k: "n = Suc k" "x = int64_byte v k" using r(2) by auto
    have "int64_byte v n \<noteq> 0" using hb by auto
    moreover have "\<not> (int64_byte v n = 0xff \<and> x AND 0x80 \<noteq> 0)"
      using st k by (simp add: n_def [symmetric])
    ultimately show ?thesis
      using r(1) Cons by (auto simp: CBS_is_valid_asn1_integer_def)
  qed
  then show ?thesis
    using valid_integer_iff [of "int64_out v n"] v by (simp add: n_def split: if_splits)
qed

lemma sint_nonneg: "0 \<le> sint (v :: u64) \<Longrightarrow> sint v = int (unat v)"
proof -
  assume p: "0 \<le> sint v"
  have e: "int64_out v 7 = be_bytes 8 (unat v)" using int64_out_bytes [of v 7] by simp
  have "unat v < 256 ^ 8" using unsigned_less [of v] by simp
  then have "be_nat (int64_out v 7) = unat v" unfolding e by (simp add: be_nat_be_bytes)
  moreover have "int64_out v 7 \<noteq> []"
    unfolding e by (metis length_be_bytes list.size(3) zero_neq_numeral)
  ultimately show ?thesis
    using be_int_nonneg [of "int64_out v 7"] p unfolding be_int_int64_out by simp
qed

lemma length_der_int_s64: "length (der_int (sint (v :: u64))) \<le> 8"
proof (rule length_der_int)
  have "- (2 ^ 63) \<le> sint v" "sint v < 2 ^ 63"
    using sint_ge [of v] sint_lt [of v] by simp_all
  then show "- (256 ^ 8) \<le> 2 * sint v" "2 * sint v < 256 ^ 8" by simp_all
qed simp

lemma add_int64_appends:
  "appends malloc d (CBB_add_asn1_int64_with_tag malloc d v tag) (der_element tag (der_int (sint v)))"
proof (cases "sint v \<ge> 0")
  case True
  then show ?thesis
    using add_uint64_appends [of malloc d v tag] by (simp add: CBB_add_asn1_int64_with_tag_def sint_nonneg)
next
  case False
  then have "appends malloc d (and_then (CBB_add_asn1 malloc d tag)
      (and_then (asn1_int64_bytes malloc (Suc d) v (int64_start v 7)) (CBB_flush malloc d))) (der_element tag (der_int (sint v)))"
    using int64_bytes_appends [of malloc "Suc d" v "int64_start v 7"] length_der_int_s64 [of v]
    by (intro appends_element) (simp_all add: int64_out_der)
  then show ?thesis
    unfolding CBB_add_asn1_int64_with_tag_def if_not_P [OF False]
    by (rule appends_cong) (simp_all add: and_then_or_error and_then_assoc)
qed

interpretation add_int64: appends malloc d "CBB_add_asn1_int64_with_tag malloc d v tag"
    "der_element tag (der_int (sint v))" for malloc d v tag
  by (rule add_int64_appends)

lemma add_octet_string_appends:
  "length data \<le> 0xfffffffe \<Longrightarrow>
     appends malloc d (CBB_add_asn1_octet_string malloc d data) (der_element CBS_ASN1_OCTETSTRING data)"
  unfolding CBB_add_asn1_octet_string_def
  by (intro appends_or_error appends_element add_bytes_appends) simp_all

interpretation add_bool: appends malloc d "CBB_add_asn1_bool malloc d v"
    "der_element CBS_ASN1_BOOLEAN [if v \<noteq> 0 then 0xff else 0]" for malloc d v
  unfolding CBB_add_asn1_bool_def
  by (intro appends_or_error appends_element add_u8.appends_axioms) simp

section \<open>Whole messages\<close>

lemma rep_init: "good_malloc malloc \<Longrightarrow> CBB_init malloc n = (True, s) \<Longrightarrow> n < size_mod \<Longrightarrow> rep s ([], []) \<and> can_resize s"
  using malloc_length [of malloc n]
  by (auto simp: CBB_init_def Let_def cbb_init_def rep_def live_def content_def split: if_splits option.splits)

lemma rep_init_fixed: "length b < size_mod \<Longrightarrow> rep (CBB_init_fixed b) ([], []) \<and> \<not> can_resize (CBB_init_fixed b)"
  by (simp add: CBB_init_fixed_def cbb_init_def rep_def live_def content_def)

lemma finish_result:
  assumes g: "good_malloc malloc" and r: "rep s w" and f: "CBB_finish malloc 0 True s = (Some (b, l), t)"
  shows "\<exists>w'. close_to 0 w = Some w' \<and> take l b = fst w'"
proof -
  from f obtain u where u: "CBB_flush malloc 0 s = (True, u)" "b = buf u" "l = len u"
    by (auto simp: CBB_finish_def split: prod.splits bool.splits if_splits)
  from flush.appends_sound [OF g r _ u(1)] obtain w' where w: "close_to 0 w = Some w'" "rep u w'"
    by auto
  have "snd w' = []" using close_to_closed [OF w(1)] by simp
  with w u show ?thesis by (auto simp: rep_def content_def)
qed

lemma finish_succeeds:
  assumes g: "good_malloc malloc" and r: "rep s (b0, [])"
  shows "\<exists>b l t. CBB_finish malloc 0 True s = (Some (b, l), t) \<and> take l b = b0"
proof -
  have "CBB_flush malloc 0 s = (True, s)"
    using r by (subst CBB_flush.simps) (simp add: rep_def live_def)
  with r show ?thesis
    by (intro exI [of _ "buf s"] exI [of _ "len s"]) (auto simp: CBB_finish_def rep_def content_def)
qed

text \<open>C2. A successful \<open>CBB_flush\<close> of the CBB at depth \<open>d\<close> writes exactly the prefixes pending
  inside it: in the abstract builder the inner strings are sealed, innermost first, and appended to
  the CBB's own; nothing before is changed, and a fixed buffer keeps its capacity.\<close>

theorem CBB_flush_refines:
  assumes "good_malloc malloc" and "rep s w" and "d \<le> length (snd w)" and "CBB_flush malloc d s = (True, s')"
  shows "\<exists>w'. close_to d w = Some w' \<and> rep s' w' \<and> (\<not> can_resize s \<longrightarrow> cap s' = cap s)"
  using flush.appends_sound [OF assms] by (auto simp: grows_def)

lemmas cbb_simps =
  CBB_init_fixed_def cbb_init_def CBB_add_u8_def CBB_add_u16_length_prefixed_def cbb_add_length_prefixed_def
  cbb_add_u_def CBB_add_space_def CBB_add_bytes_def CBB_add_asn1_def cbb_add_child_def cbb_buffer_add_def cbb_buffer_reserve_def
  CBB_flush.simps flush_child_def write_prefix_def fill_space_def store_def and_then_def or_error_def
  cbb_on_error_def ok_w_def Let_def put_be_eq

definition sample_heap :: heap where
  "sample_heap n = Some (replicate n 0)"

lemma good_sample_heap: "good_malloc sample_heap" "total_malloc sample_heap"
  by (simp_all add: good_malloc_def total_malloc_def sample_heap_def)

text \<open>Two bytes of length prefix and one byte of data behind them, in a buffer of eight bytes.\<close>

definition sample_cbb :: cbb where
  "sample_cbb = snd (CBB_add_u8 sample_heap 1 7 (snd (CBB_add_u16_length_prefixed sample_heap 0
      (CBB_init_fixed (replicate 8 0)))))"

lemma CBB_flush_refines_witness:
  "\<exists>s'. CBB_flush sample_heap 0 sample_cbb = (True, s') \<and> rep s' ([0, 1, 7], [])"
proof -
  have s: "sample_cbb = \<lparr>buf = [0, 0, 7, 0, 0, 0, 0, 0], len = 3, cap = 8, can_resize = False, error = False,
      children = [\<lparr>offset = 0, pending_len_len = 2, pending_is_asn1 = False\<rparr>]\<rparr>"
    by (simp add: sample_cbb_def cbb_simps sample_heap_def) (simp add: numeral_eq_Suc)
  have r: "rep sample_cbb ([], [(Fixed 2, [7])])"
    by (simp add: s rep_def live_def content_def child_of_def numeral_2_eq_2)
  obtain s' where f: "CBB_flush sample_heap 0 sample_cbb = (True, s')"
    unfolding s by (simp add: cbb_simps sample_heap_def)
  have "be_bytes 2 1 = [0, 1]" by (simp add: numeral_2_eq_2)
  with CBB_flush_refines [OF good_sample_heap(1) r _ f] f show ?thesis
    by (auto simp: close_to_def append_to_def)
qed

text \<open>C32. Given room for the sealed bytes, \<open>CBB_flush\<close> succeeds exactly when every pending prefix
  can hold the length of what was written behind it.\<close>

theorem CBB_flush_succeeds_iff:
  assumes "good_malloc malloc" and "rep s w" and "d \<le> length (snd w)"
    and "\<And>w'. close_to d w = Some w' \<Longrightarrow> room malloc s (built w')"
  shows "fst (CBB_flush malloc d s) \<longleftrightarrow> close_to d w \<noteq> None"
proof
  assume "fst (CBB_flush malloc d s)"
  then obtain s' where "CBB_flush malloc d s = (True, s')" by (auto simp: fst_True)
  then show "close_to d w \<noteq> None"
    using flush.appends_sound [OF assms(1-3)] by fastforce
next
  assume "close_to d w \<noteq> None"
  then obtain w' where "close_to d w = Some w'" by blast
  with flush.appends_complete [OF assms(1-3) this] assms(4) show "fst (CBB_flush malloc d s)"
    by simp
qed

lemma CBB_flush_succeeds_iff_witness: "fst (CBB_flush sample_heap 0 (CBB_init_fixed [0, 0]))"
proof -
  have r: "rep (CBB_init_fixed [0, 0]) ([], [])"
    using rep_init_fixed [of "[0, 0]"] by simp
  have "fst (CBB_flush sample_heap 0 (CBB_init_fixed [0, 0])) \<longleftrightarrow> close_to 0 ([], []) \<noteq> None"
    by (rule CBB_flush_succeeds_iff [OF good_sample_heap(1) r])
      (simp_all add: built_def room_def CBB_init_fixed_def cbb_init_def close_to_def append_to_def)
  then show ?thesis by (simp add: close_to_def)
qed

text \<open>What is written between \<open>CBB_add_asn1\<close> and the \<open>CBB_flush\<close> of its parent is read back by
  \<open>CBS_get_asn1\<close>, at any depth and whatever follows it.\<close>

theorem CBB_asn1_roundtrip:
  assumes "good_malloc malloc" and "rep s w" and "length (snd w) = d" and "valid_tag tag"
    and "length c \<le> 0xfffffffe"
    and "and_then (CBB_add_asn1 malloc d tag) (and_then (CBB_add_bytes malloc (Suc d) c) (CBB_flush malloc d)) s = (True, s')"
  shows "\<exists>b. rep s' (append_to w b) \<and> (\<forall>t. CBS_get_asn1 tag (b @ t) = (Some c, t))"
proof -
  have "appends malloc d (and_then (CBB_add_asn1 malloc d tag) (and_then (CBB_add_bytes malloc (Suc d) c) (CBB_flush malloc d)))
      (der_element tag c)"
    using assms(5) by (intro appends_element add_bytes_appends) simp_all
  from appends.appends_here [OF this assms(1-3) assms(6)] show ?thesis
    using assms(4,5) asn1.dec_enc by (intro exI [of _ "der_element tag c"]) simp
qed

lemma CBB_asn1_roundtrip_witness:
  "\<exists>s' b. rep s' ([] @ b, []) \<and> CBS_get_asn1 CBS_ASN1_OCTETSTRING b = (Some [5, 6], [])"
proof -
  have r: "rep (CBB_init_fixed (replicate 16 0)) ([], [])"
    using rep_init_fixed [of "replicate 16 0"] by simp
  have a: "appends sample_heap 0 (and_then (CBB_add_asn1 sample_heap 0 CBS_ASN1_OCTETSTRING)
      (and_then (CBB_add_bytes sample_heap (Suc 0) [5, 6]) (CBB_flush sample_heap 0))) (der_element CBS_ASN1_OCTETSTRING [5, 6])"
    by (intro appends_element add_bytes_appends) simp_all
  have "room sample_heap (CBB_init_fixed (replicate 16 0)) (built ([], []) + length (der_element CBS_ASN1_OCTETSTRING [5, 6]))"
    using length_der_tag [of CBS_ASN1_OCTETSTRING]
    by (simp add: room_def CBB_init_fixed_def cbb_init_def built_def der_element_def der_length_def)
  from appends.appends_ok [OF a good_sample_heap(1) r _ this]
  obtain s' where "and_then (CBB_add_asn1 sample_heap 0 CBS_ASN1_OCTETSTRING)
      (and_then (CBB_add_bytes sample_heap (Suc 0) [5, 6]) (CBB_flush sample_heap 0)) (CBB_init_fixed (replicate 16 0)) = (True, s')"
    by auto
  from CBB_asn1_roundtrip [OF good_sample_heap(1) r _ _ _ this] valid_tag_small
  obtain b where "rep s' (append_to ([], []) b)" "\<forall>t. CBS_get_asn1 CBS_ASN1_OCTETSTRING (b @ t) = (Some [5, 6], t)"
    by auto
  then have "rep s' ([] @ b, [])" "CBS_get_asn1 CBS_ASN1_OCTETSTRING (b @ []) = (Some [5, 6], [])"
    by (simp_all add: append_to_def del: append_Nil2)
  then show ?thesis by auto
qed

text \<open>Building the INTEGER of an \<open>int64_t\<close> in a fresh CBB, finishing it and reading the result
  back gives the number, for every number, provided that the allocator does not fail.\<close>

theorem CBB_int64_roundtrip:
  assumes "good_malloc malloc" and "total_malloc malloc" and "n < 2 ^ 32" and "CBB_init malloc n = (True, s)"
  shows "\<exists>s' b l t. CBB_add_asn1_int64 malloc 0 v s = (True, s') \<and> CBB_finish malloc 0 True s' = (Some (b, l), t) \<and>
     CBS_get_asn1_int64 (take l b) = (Some v, [])"
proof -
  let ?e = "der_element CBS_ASN1_INTEGER (der_int (sint v))"
  have r: "rep s ([], [])" "can_resize s" using rep_init [OF assms(1,4)] assms(3) by simp_all
  have l: "length (der_int (sint v)) \<le> 8" by (rule length_der_int_s64)
  have "length ?e < 100"
    using l length_der_tag [of CBS_ASN1_INTEGER] by (simp add: der_element_def der_length_def)
  then have "room malloc s (built ([], []) + length ?e)"
    using r assms(2) by (simp add: room_def built_def)
  from add_int64.appends_ok [OF assms(1) r(1) _ this] obtain s' where
      s': "CBB_add_asn1_int64 malloc 0 v s = (True, s')" "rep s' (append_to ([], []) ?e)"
    by (auto simp: CBB_add_asn1_int64_def)
  then have "rep s' (?e, [])" by (simp add: append_to_def)
  from finish_succeeds [OF assms(1) this] obtain b k t where
      "CBB_finish malloc 0 True s' = (Some (b, k), t)" "take k b = ?e" by blast
  moreover have "CBS_get_asn1_int64 ?e = (Some v, [])" by (rule int64_element.dec_enc_nil) simp
  ultimately show ?thesis using s'(1) by auto
qed

lemma CBB_int64_roundtrip_witness:
  "\<exists>s s' b l t. CBB_add_asn1_int64 sample_heap 0 (- 129) s = (True, s') \<and>
     CBB_finish sample_heap 0 True s' = (Some (b, l), t) \<and> CBS_get_asn1_int64 (take l b) = (Some (- 129), [])"
proof -
  obtain s where "CBB_init sample_heap 4 = (True, s)"
    by (simp add: CBB_init_def OPENSSL_malloc_def sample_heap_def)
  from CBB_int64_roundtrip [OF good_sample_heap _ this] show ?thesis by fastforce
qed

end
