(* ===== verification/Oid_Text.thy ===== *)
theory Oid_Text
  imports Cbb_Der
begin

text \<open>
  Object identifiers in dotted decimal text: \<^verbatim>\<open>CBB_add_asn1_oid_from_text\<close> of
  \<^verbatim>\<open>crypto/bytestring/cbb.c\<close> and \<^verbatim>\<open>CBS_asn1_oid_to_text\<close> of \<^verbatim>\<open>crypto/bytestring/cbs.c\<close>, and the
  proof that each undoes the other.
\<close>

section \<open>The operations\<close>

text \<open>\<open>snprintf\<close> with the format of an unsigned 64-bit number; the buffer of 24 bytes is large enough.\<close>

fun decimal :: "nat \<Rightarrow> u8 list" where
  "decimal n = (if n < 10 then [word_of_nat (48 + n)] else decimal (n div 10) @ [word_of_nat (48 + n mod 10)])"

declare decimal.simps [simp del]

definition add_decimal :: "heap \<Rightarrow> nat \<Rightarrow> u64 \<Rightarrow> writer" where
  "add_decimal malloc d v = CBB_add_bytes malloc d (decimal (unat v))"

definition parse_dotted_decimal :: "u64 reader" where
  "parse_dotted_decimal = bind_r CBS_get_u64_decimal (\<lambda>v cbs.
     case CBS_get_u8 cbs of
       (None, cbs) \<Rightarrow> (Some v, cbs)
     | (Some dot, cbs) \<Rightarrow> if dot = 0x2e \<and> CBS_len cbs > 0 then (Some v, cbs) else (None, cbs))"

section \<open>Decimal numbers\<close>

lemma decimal_not_Nil [simp]: "decimal n \<noteq> []"
  by (subst decimal.simps) simp

lemma unat_digit: "d < 10 \<Longrightarrow> unat (word_of_nat (48 + d) :: u8) = 48 + d"
  by (simp add: unat_word_of_nat_byte del: of_nat_add)

lemma horner10_snoc: "horner10 v (ds @ [c]) = horner10 v ds * 10 + (unat c - 48)"
  by (simp add: horner10_def)

lemma horner10_decimal: "horner10 0 (decimal n) = n"
proof (induction n rule: decimal.induct)
  case (1 n)
  show ?case
  proof (cases "n < 10")
    case True
    then show ?thesis by (subst decimal.simps) (simp add: unat_digit del: of_nat_add)
  next
    case False
    with 1 show ?thesis
      by (subst decimal.simps) (simp add: horner10_snoc unat_digit del: of_nat_add)
  qed
qed

lemma decimal_digits: "c \<in> set (decimal n) \<Longrightarrow> OPENSSL_isdigit c"
proof (induction n rule: decimal.induct)
  case (1 n)
  have "OPENSSL_isdigit (word_of_nat (48 + d))" if "d < 10" for d
    using that by (simp add: digit_range unat_digit del: of_nat_add)
  then show ?case
    using 1 by (subst (asm) (2) decimal.simps) (auto split: if_splits simp del: of_nat_add)
qed

lemma hd_decimal: "hd (decimal n) = 0x30 \<longleftrightarrow> n = 0"
proof (induction n rule: decimal.induct)
  case (1 n)
  show ?case
  proof (cases "n < 10")
    case True
    then show ?thesis
      using unat_digit [of n] by (subst decimal.simps) (simp add: word_unat_eq_iff del: of_nat_add)
  next
    case False
    with 1 show ?thesis
      by (subst decimal.simps) (simp add: hd_append)
  qed
qed

lemma decimal_no_leading_zero: "no_leading_zero (decimal n)"
proof (cases "n = 0")
  case True
  then show ?thesis by (subst decimal.simps) (simp add: no_leading_zero_def)
next
  case False
  then show ?thesis by (simp add: no_leading_zero_def hd_decimal)
qed

text \<open>The decimal number is the only digit string without leading zero of its value.\<close>

lemma decimal_unique:
  "ds \<noteq> [] \<Longrightarrow> \<forall>c\<in>set ds. OPENSSL_isdigit c \<Longrightarrow> no_leading_zero ds \<Longrightarrow> ds = decimal (horner10 0 ds)"
proof (induction ds rule: rev_induct)
  case Nil
  then show ?case by simp
next
  case (snoc c ds)
  define d where "d = unat c - 48"
  have c: "c = word_of_nat (48 + d)" "d < 10"
  proof -
    have "48 \<le> unat c" "unat c \<le> 57" using snoc.prems(2) by (simp_all add: digit_range)
    then have "unat c = 48 + d" "d < 10" by (simp_all add: d_def)
    then show "c = word_of_nat (48 + d)" "d < 10" by (simp_all only: word_of_nat_eqI)
  qed
  show ?case
  proof (cases "ds = []")
    case True
    then show ?thesis using c by (subst decimal.simps) (simp add: unat_digit del: of_nat_add)
  next
    case False
    have n: "no_leading_zero ds"
      using snoc.prems(3) False by (auto simp: no_leading_zero_def hd_append)
    have IH: "ds = decimal (horner10 0 ds)"
      using snoc.IH [OF False _ n] snoc.prems(2) by simp
    have "hd ds \<noteq> 0x30"
      using snoc.prems(3) False by (simp add: no_leading_zero_def hd_append)
    then have "horner10 0 ds \<noteq> 0"
      using hd_decimal [of "horner10 0 ds"] IH by auto
    then show ?thesis
      using IH c by (subst decimal.simps) (simp add: horner10_snoc unat_digit del: of_nat_add)
  qed
qed

lemma u64_decimal_iff:
  "CBS_get_u64_decimal s = (Some v, t) \<longleftrightarrow> s = decimal (unat v) @ t \<and> (t = [] \<or> \<not> OPENSSL_isdigit (hd t))"
proof -
  have "CBS_get_u64_decimal s = (Some v, t) \<longleftrightarrow>
     (\<exists>ds. s = ds @ t \<and> digits_of ds t \<and> ds \<noteq> [] \<and> no_leading_zero ds \<and> unat v = horner10 0 ds)"
    unfolding CBS_get_u64_decimal_def by (subst decimal_loop_iff) auto
  then show ?thesis
    using decimal_unique decimal_digits horner10_decimal decimal_no_leading_zero
    by (auto simp: digits_of_def)
qed

section \<open>Components and dots\<close>

text \<open>A component is followed by the end of the text, or by a dot and more text.\<close>

definition dotted :: "u8 list \<Rightarrow> u8 list" where
  "dotted t = (if t = [] then [] else 0x2e # t)"

lemma dot_not_digit: "\<not> OPENSSL_isdigit 0x2e"
  by (simp add: digit_range)

lemma parse_dotted_decimal_iff:
  "parse_dotted_decimal s = (Some v, t) \<longleftrightarrow> s = decimal (unat v) @ dotted t"
proof
  assume "parse_dotted_decimal s = (Some v, t)"
  then obtain u r where r: "CBS_get_u64_decimal s = (Some u, r)"
    and k: "(case CBS_get_u8 r of (None, cbs) \<Rightarrow> (Some u, cbs)
       | (Some dot, cbs) \<Rightarrow> if dot = 0x2e \<and> CBS_len cbs > 0 then (Some u, cbs) else (None, cbs)) = (Some v, t)"
    unfolding parse_dotted_decimal_def bind_r_eq_Some by blast
  from k have "u = v" "r = dotted t"
    by (cases r; auto simp: dotted_def CBS_len_def split: if_splits)+
  with r show "s = decimal (unat v) @ dotted t"
    by (simp add: u64_decimal_iff)
next
  assume s: "s = decimal (unat v) @ dotted t"
  then have "CBS_get_u64_decimal s = (Some v, dotted t)"
    by (simp add: u64_decimal_iff dotted_def dot_not_digit)
  then show "parse_dotted_decimal s = (Some v, t)"
    by (simp add: parse_dotted_decimal_def dotted_def CBS_len_def)
qed

lemma parse_dotted_shorter: "parse_dotted_decimal s = (Some v, t) \<Longrightarrow> length t < length s"
proof -
  assume "parse_dotted_decimal s = (Some v, t)"
  then have "s = decimal (unat v) @ dotted t" by (simp add: parse_dotted_decimal_iff)
  moreover have "0 < length (decimal (unat v))" by simp
  ultimately show ?thesis by (auto simp: dotted_def)
qed

lemma b128_not_Nil [simp]: "b128 n \<noteq> []"
  by (simp add: b128_def)

lemma base128_shorter: "parse_base128_integer s = (Some v, t) \<Longrightarrow> length t < length s"
  by (simp add: base128.dec_iff)

function oid_from_text_loop :: "heap \<Rightarrow> nat \<Rightarrow> u8 list \<Rightarrow> writer" where
  "oid_from_text_loop malloc d cbs =
     (if CBS_len cbs > 0 then
        (case parse_dotted_decimal cbs of
           (None, _) \<Rightarrow> fail_w
         | (Some a, cbs') \<Rightarrow> and_then (add_base128_integer malloc d a) (oid_from_text_loop malloc d cbs'))
      else ok_w)"
  by pat_completeness auto
termination
  by (relation "measure (\<lambda>(malloc, d, cbs). length cbs)") (auto dest: parse_dotted_shorter [OF sym])

declare oid_from_text_loop.simps [simp del]

definition CBB_add_asn1_oid_from_text :: "heap \<Rightarrow> nat \<Rightarrow> u8 list \<Rightarrow> writer" where
  "CBB_add_asn1_oid_from_text malloc d text =
     and_then (CBB_flush malloc d)
       (case parse_dotted_decimal text of
          (None, _) \<Rightarrow> fail_w
        | (Some a, cbs) \<Rightarrow>
       (case parse_dotted_decimal cbs of
          (None, _) \<Rightarrow> fail_w
        | (Some b, cbs) \<Rightarrow>
            if a > 2 \<or> (a < 2 \<and> b > 39) \<or> b > UINT64_MAX - 80 then fail_w
            else and_then (add_base128_integer malloc d (40 * a + b)) (oid_from_text_loop malloc d cbs)))"

function oid_to_text_loop :: "heap \<Rightarrow> u8 list \<Rightarrow> writer" where
  "oid_to_text_loop malloc copy =
     (if CBS_len copy \<noteq> 0 then
        (case parse_base128_integer copy of
           (None, _) \<Rightarrow> fail_w
         | (Some v, copy') \<Rightarrow>
             and_then (CBB_add_u8 malloc 0 0x2e)
               (and_then (add_decimal malloc 0 v) (oid_to_text_loop malloc copy')))
      else ok_w)"
  by pat_completeness auto
termination
  by (relation "measure (\<lambda>(malloc, copy). length copy)") (auto dest: base128_shorter [OF sym])

declare oid_to_text_loop.simps [simp del]

definition oid_to_text_body :: "heap \<Rightarrow> u8 list \<Rightarrow> writer" where
  "oid_to_text_body malloc cbs =
     (case parse_base128_integer cbs of
        (None, _) \<Rightarrow> fail_w
      | (Some v, copy) \<Rightarrow>
          and_then
            (if v \<ge> 80 then and_then (CBB_add_bytes malloc 0 [0x32, 0x2e]) (add_decimal malloc 0 (v - 80))
             else and_then (add_decimal malloc 0 (v div 40))
                    (and_then (CBB_add_u8 malloc 0 0x2e) (add_decimal malloc 0 (v mod 40))))
            (and_then (oid_to_text_loop malloc copy) (CBB_add_u8 malloc 0 0)))"

text \<open>The result is the buffer up to \<open>txt_len\<close>, whose last byte is the terminator.\<close>

definition CBS_asn1_oid_to_text :: "heap \<Rightarrow> u8 list \<Rightarrow> u8 list option" where
  "CBS_asn1_oid_to_text malloc cbs =
     (case CBB_init malloc 32 of
        (False, _) \<Rightarrow> None
      | (True, cbb) \<Rightarrow>
     (case oid_to_text_body malloc cbs cbb of
        (False, _) \<Rightarrow> None
      | (True, cbb) \<Rightarrow>
     (case CBB_finish malloc 0 True cbb of
        (None, _) \<Rightarrow> None
      | (Some (txt, txt_len), _) \<Rightarrow> Some (take txt_len txt))))"

section \<open>What is written\<close>

lemma length_decimal: "n < 10 ^ k \<Longrightarrow> 1 \<le> k \<Longrightarrow> length (decimal n) \<le> k"
proof (induction k arbitrary: n)
  case 0
  then show ?case by simp
next
  case (Suc k)
  show ?case
  proof (cases "n < 10")
    case True
    then show ?thesis by (subst decimal.simps) simp
  next
    case False
    then have "1 \<le> k" using Suc.prems by (cases k) auto
    moreover have "n div 10 < 10 ^ k" using Suc.prems by (simp add: less_mult_imp_div_less mult.commute)
    ultimately show ?thesis
      using Suc.IH [of "n div 10"] False by (subst decimal.simps) simp
  qed
qed

lemma length_decimal_u64: "length (decimal (unat (v :: u64))) \<le> 20"
proof (rule length_decimal)
  have "unat v < 2 ^ 64" using unsigned_less [of v] by simp
  then show "unat v < 10 ^ 20" by simp
qed simp

text \<open>The dotted text of a list of components, and the encoding of all but the first two.\<close>

fun components_text :: "u64 list \<Rightarrow> u8 list" where
  "components_text [] = []"
| "components_text (v # vs) = decimal (unat v) @ dotted (components_text vs)"

definition oid_text :: "u64 \<Rightarrow> u64 \<Rightarrow> u64 list \<Rightarrow> u8 list" where
  "oid_text a b vs = components_text (a # b # vs)"

definition valid_oid :: "u64 \<Rightarrow> u64 \<Rightarrow> bool" where
  "valid_oid a b \<longleftrightarrow> a \<le> 2 \<and> (a < 2 \<longrightarrow> b \<le> 39) \<and> b \<le> UINT64_MAX - 80"

definition oid_bytes :: "u64 \<Rightarrow> u64 \<Rightarrow> u64 list \<Rightarrow> u8 list" where
  "oid_bytes a b vs = b128 (unat (40 * a + b)) @ concat (map (\<lambda>v. b128 (unat v)) vs)"

lemma fail_w_True [simp]: "fail_w s \<noteq> (True, t)" "\<not> fst (fail_w s)"
  by (simp_all add: fail_w_def)

lemma ok_w_and_then: "and_then ok_w w = w"
  by (simp add: and_then_def ok_w_def fun_eq_iff)

text \<open>A successful run has found a list of components in the text.\<close>

lemma from_text_loop_only:
  "oid_from_text_loop malloc d cbs s = (True, s') \<Longrightarrow> \<exists>vs. cbs = components_text vs"
proof (induction malloc d cbs arbitrary: s rule: oid_from_text_loop.induct)
  case (1 malloc d cbs)
  show ?case
  proof (cases "cbs = []")
    case True
    then show ?thesis by (intro exI [of _ "[]"]) simp
  next
    case False
    with "1.prems" obtain a r t where p: "parse_dotted_decimal cbs = (Some a, r)"
      and l: "oid_from_text_loop malloc d r t = (True, s')"
      by (subst (asm) oid_from_text_loop.simps) (auto simp: CBS_len_def and_then_True split: prod.splits option.splits)
    from "1.IH" [OF _ p [symmetric] refl l] False obtain vs where "r = components_text vs"
      by (auto simp: CBS_len_def)
    with p show ?thesis
      by (intro exI [of _ "a # vs"]) (simp add: parse_dotted_decimal_iff)
  qed
qed

lemma from_text_loop_appends:
  "vs \<noteq> [] \<Longrightarrow> appends malloc d (oid_from_text_loop malloc d (components_text vs)) (concat (map (\<lambda>v. b128 (unat v)) vs))"
proof (induction vs)
  case Nil
  then show ?case by simp
next
  case (Cons v vs)
  have "parse_dotted_decimal (components_text (v # vs)) = (Some v, components_text vs)"
    by (simp add: parse_dotted_decimal_iff)
  then have e: "oid_from_text_loop malloc d (components_text (v # vs)) =
      and_then (add_base128_integer malloc d v) (oid_from_text_loop malloc d (components_text vs))"
    by (subst oid_from_text_loop.simps) (simp add: CBS_len_def)
  show ?case
  proof (cases "vs = []")
    case True
    then have "oid_from_text_loop malloc d (components_text vs) = ok_w"
      by (subst oid_from_text_loop.simps) (simp add: CBS_len_def)
    with True show ?thesis unfolding e by (simp add: and_then_ok add_base128.appends_axioms)
  next
    case False
    then show ?thesis
      unfolding e using appends_and_then [OF add_base128.appends_axioms [of malloc d v] Cons.IH [OF False]] by simp
  qed
qed

lemma from_text_cond:
  "(a > 2 \<or> (a < 2 \<and> b > 39) \<or> b > UINT64_MAX - 80) \<longleftrightarrow> \<not> valid_oid a b" for a b :: u64
  by (auto simp: valid_oid_def not_le not_less)

lemma from_text_only:
  assumes "CBB_add_asn1_oid_from_text malloc d text s = (True, s')"
  shows "\<exists>a b vs. valid_oid a b \<and> text = oid_text a b vs"
proof -
  from assms obtain t where "(case parse_dotted_decimal text of (None, _) \<Rightarrow> fail_w
        | (Some a, cbs) \<Rightarrow> (case parse_dotted_decimal cbs of (None, _) \<Rightarrow> fail_w
        | (Some b, cbs) \<Rightarrow>
            if \<not> valid_oid a b then fail_w
            else and_then (add_base128_integer malloc d (40 * a + b)) (oid_from_text_loop malloc d cbs))) t = (True, s')"
    unfolding CBB_add_asn1_oid_from_text_def and_then_True from_text_cond by blast
  then obtain a r b q u where p: "parse_dotted_decimal text = (Some a, r)" "parse_dotted_decimal r = (Some b, q)"
      and v: "valid_oid a b" and l: "oid_from_text_loop malloc d q u = (True, s')"
    by (auto simp: and_then_True split: prod.splits option.splits if_splits)
  from from_text_loop_only [OF l] obtain vs where "q = components_text vs" by blast
  with p v show ?thesis
    by (intro exI [of _ a] exI [of _ b] exI [of _ vs]) (simp add: parse_dotted_decimal_iff oid_text_def)
qed

lemma from_text_appends:
  assumes v: "valid_oid a b"
  shows "appends malloc d (CBB_add_asn1_oid_from_text malloc d (oid_text a b vs)) (oid_bytes a b vs)"
proof -
  have p: "parse_dotted_decimal (oid_text a b vs) = (Some a, components_text (b # vs))"
    "parse_dotted_decimal (components_text (b # vs)) = (Some b, components_text vs)"
    by (simp_all add: parse_dotted_decimal_iff oid_text_def)
  have c: "(a > 2 \<or> (a < 2 \<and> b > 39) \<or> b > UINT64_MAX - 80) = False"
    using v from_text_cond [of a b] by blast
  have e: "CBB_add_asn1_oid_from_text malloc d (oid_text a b vs) =
      and_then (CBB_flush malloc d) (and_then (add_base128_integer malloc d (40 * a + b)) (oid_from_text_loop malloc d (components_text vs)))"
    unfolding CBB_add_asn1_oid_from_text_def p by (simp only: prod.case option.case p c if_False)
  have w: "appends malloc d (and_then (add_base128_integer malloc d (40 * a + b)) (oid_from_text_loop malloc d (components_text vs)))
      (oid_bytes a b vs)"
  proof (cases "vs = []")
    case True
    then have "oid_from_text_loop malloc d (components_text vs) = ok_w"
      by (subst oid_from_text_loop.simps) (simp add: CBS_len_def)
    with True show ?thesis by (simp add: and_then_ok add_base128.appends_axioms oid_bytes_def)
  next
    case False
    then show ?thesis
      using appends_and_then [OF add_base128.appends_axioms from_text_loop_appends [OF False]] by (simp add: oid_bytes_def)
  qed
  show ?thesis
    unfolding e using appends_and_then [OF flush.appends_axioms w] by simp
qed

section \<open>Back to text\<close>

lemma add_decimal_appends: "appends malloc d (add_decimal malloc d v) (decimal (unat v))"
  unfolding add_decimal_def using length_decimal_u64 [of v] by (intro add_bytes_appends) simp

interpretation add_decimal: appends malloc d "add_decimal malloc d v" "decimal (unat v)" for malloc d v
  by (rule add_decimal_appends)

lemma to_text_loop_appends:
  "appends malloc 0 (and_then (oid_to_text_loop malloc (concat (map (\<lambda>v. b128 (unat v)) vs))) (CBB_add_u8 malloc 0 0))
     (concat (map (\<lambda>v. 0x2e # decimal (unat v)) vs) @ [0])"
  for vs :: "u64 list"
proof (induction vs)
  case Nil
  then show ?case
    by (subst oid_to_text_loop.simps) (simp add: CBS_len_def ok_w_and_then add_u8.appends_axioms)
next
  case (Cons v vs)
  let ?s = "concat (map (\<lambda>v. b128 (unat v)) vs)"
  have "parse_base128_integer (b128 (unat v) @ ?s) = (Some v, ?s)"
    by (simp add: base128.dec_iff)
  then have e: "oid_to_text_loop malloc (b128 (unat v) @ ?s) =
      and_then (CBB_add_u8 malloc 0 0x2e) (and_then (add_decimal malloc 0 v) (oid_to_text_loop malloc ?s))"
    by (subst oid_to_text_loop.simps) (simp add: CBS_len_def)
  show ?case
    using appends_and_then [OF add_u8.appends_axioms [of malloc 0 "0x2e"]
        appends_and_then [OF add_decimal.appends_axioms [of malloc 0 v] Cons]]
    by (simp add: e and_then_assoc)
qed

lemma components_text_dots:
  "components_text (v # vs) = decimal (unat v) @ concat (map (\<lambda>v. 0x2e # decimal (unat v)) vs)"
proof (induction vs arbitrary: v)
  case Nil
  then show ?case by (simp add: dotted_def)
next
  case (Cons w vs)
  have "components_text (w # vs) \<noteq> []" by simp
  then show ?case
    unfolding components_text.simps(2) [of v] using Cons [of w] by (simp add: dotted_def del: components_text.simps)
qed

lemma first_component:
  assumes "valid_oid a b"
  shows "if 40 * a + b \<ge> 80 then a = 2 \<and> 40 * a + b - 80 = b
    else (40 * a + b) div 40 = a \<and> (40 * a + b) mod 40 = b"
proof -
  define x y where "x = unat a" and "y = unat b"
  have v: "x \<le> 2" "x < 2 \<longrightarrow> y \<le> 39" "y \<le> 18446744073709551535"
    using assms by (simp_all add: valid_oid_def word_le_nat_alt word_less_nat_alt x_def y_def)
  then have s: "unat (40 * a + b) = 40 * x + y"
    by (simp add: unat_word_ariths x_def y_def)
  show ?thesis
  proof (cases "40 * a + b \<ge> 80")
    case True
    then have "80 \<le> 40 * x + y" using s by (simp add: word_le_nat_alt)
    with v have x2: "x = 2" by (cases "x = 0"; cases "x = 1"; simp)
    then have a2: "a = 2" by (simp add: x_def word_unat_eq_iff)
    then have "40 * a + b - 80 = b" by simp
    with True a2 show ?thesis by simp
  next
    case False
    then have "40 * x + y < 80" using s by (simp add: word_le_nat_alt)
    with v have "x < 2" "y \<le> 39" by (cases "x = 2"; simp)+
    then have "unat ((40 * a + b) div 40) = x" "unat ((40 * a + b) mod 40) = y"
      by (simp_all add: unat_div_distrib unat_mod_distrib s)
    with False show ?thesis by (simp add: x_def y_def word_unat_eq_iff)
  qed
qed

lemma decimal_2: "decimal 2 = [0x32]"
  by (subst decimal.simps) simp

lemma to_text_body_appends:
  assumes v: "valid_oid a b"
  shows "appends malloc 0 (oid_to_text_body malloc (oid_bytes a b vs)) (oid_text a b vs @ [0])"
proof -
  let ?v = "40 * a + b" and ?s = "concat (map (\<lambda>v. b128 (unat v)) vs)"
  let ?d = "concat (map (\<lambda>v. 0x2e # decimal (unat v)) vs)"
  have p: "parse_base128_integer (oid_bytes a b vs) = (Some ?v, ?s)"
    by (simp add: base128.dec_iff oid_bytes_def)
  have t: "oid_text a b vs = decimal (unat a) @ 0x2e # decimal (unat b) @ ?d"
    by (simp add: oid_text_def components_text_dots del: components_text.simps)
  have "appends malloc 0
      (if ?v \<ge> 80 then and_then (CBB_add_bytes malloc 0 [0x32, 0x2e]) (add_decimal malloc 0 (?v - 80))
       else and_then (add_decimal malloc 0 (?v div 40)) (and_then (CBB_add_u8 malloc 0 0x2e) (add_decimal malloc 0 (?v mod 40))))
      (decimal (unat a) @ 0x2e # decimal (unat b))"
  proof (cases "?v \<ge> 80")
    case True
    then have "a = 2" "?v - 80 = b" using first_component [OF v] by simp_all
    have "appends malloc 0 (and_then (CBB_add_bytes malloc 0 [0x32, 0x2e]) (add_decimal malloc 0 b)) ([0x32, 0x2e] @ decimal (unat b))"
      by (intro appends_and_then add_bytes_appends add_decimal_appends) simp
    with True \<open>?v - 80 = b\<close> show ?thesis by (simp add: \<open>a = 2\<close> decimal_2)
  next
    case False
    then have q: "?v div 40 = a" "?v mod 40 = b" using first_component [OF v] by simp_all
    show ?thesis
      using appends_and_then [OF add_decimal.appends_axioms appends_and_then [OF add_u8.appends_axioms add_decimal.appends_axioms],
        of malloc 0 a "0x2e" b] False by (simp add: q)
  qed
  from appends_and_then [OF this to_text_loop_appends [of malloc vs]] show ?thesis
    by (simp add: oid_to_text_body_def p t)
qed

lemma to_text_result:
  assumes g: "good_malloc malloc" "total_malloc malloc" and v: "valid_oid a b"
    and l: "length (oid_text a b vs) < 2 ^ 62"
  shows "CBS_asn1_oid_to_text malloc (oid_bytes a b vs) = Some (oid_text a b vs @ [0])"
proof -
  have "OPENSSL_malloc malloc 32 \<noteq> None"
    using g(2) by (intro malloc_total) (auto simp: total_malloc_def)
  then obtain cbb where init: "CBB_init malloc 32 = (True, cbb)"
    by (auto simp: CBB_init_def)
  have r: "rep cbb ([], [])" "can_resize cbb" using rep_init [OF g(1) init] by simp_all
  have "room malloc cbb (built ([], []) + length (oid_text a b vs @ [0]))"
    using r g(2) l by (simp add: room_def built_def)
  from appends.appends_ok [OF to_text_body_appends [OF v] g(1) r(1) _ this] obtain s' where
    s': "oid_to_text_body malloc (oid_bytes a b vs) cbb = (True, s')" "rep s' (append_to ([], []) (oid_text a b vs @ [0]))"
    by auto
  then have "rep s' (oid_text a b vs @ [0], [])" by (simp add: append_to_def)
  from finish_succeeds [OF g(1) this] obtain tx n t where
    "CBB_finish malloc 0 True s' = (Some (tx, n), t)" "take n tx = oid_text a b vs @ [0]" by blast
  with init s' show ?thesis by (simp add: CBS_asn1_oid_to_text_def)
qed

text \<open>C26. When \<open>CBB_add_asn1_oid_from_text\<close> accepts a text, the bytes that it appends are a valid
  object identifier, and \<open>CBS_asn1_oid_to_text\<close> turns them back into that same text.\<close>

theorem oid_text_roundtrip:
  assumes "good_malloc malloc" and "total_malloc malloc" and "rep s w" and "length (snd w) = d"
    and "length text < 2 ^ 62" and "CBB_add_asn1_oid_from_text malloc d text s = (True, s')"
  shows "\<exists>b. rep s' (append_to w b) \<and> CBS_is_valid_asn1_oid b \<and> CBS_asn1_oid_to_text malloc b = Some (text @ [0])"
proof -
  from from_text_only [OF assms(6)] obtain a b vs where v: "valid_oid a b" and t: "text = oid_text a b vs"
    by blast
  have "rep s' (append_to w (oid_bytes a b vs))"
    using appends.appends_here [OF from_text_appends [OF v] assms(1,3,4)] assms(6) t by blast
  moreover have "valid_oid_loop 0 (oid_bytes a b vs)"
    using valid_oid_loop_arcs [of 0 "map unat ((40 * a + b) # vs)"] by (simp add: oid_bytes_def comp_def)
  then have "CBS_is_valid_asn1_oid (oid_bytes a b vs)"
    by (simp add: CBS_is_valid_asn1_oid_def CBS_len_def oid_bytes_def)
  ultimately show ?thesis
    using to_text_result [OF assms(1,2) v] assms(5) t by blast
qed

lemma oid_text_roundtrip_witness:
  "\<exists>s' b. rep s' ([] @ b, []) \<and> CBS_asn1_oid_to_text sample_heap b = Some ([0x31, 0x2e, 0x32, 0x2e, 0x38, 0x34, 0x30] @ [0])"
proof -
  let ?t = "[0x31, 0x2e, 0x32, 0x2e, 0x38, 0x34, 0x30] :: u8 list"
  have d: "decimal (Suc 0) = [0x31]" "decimal 2 = [0x32]" "decimal 840 = [0x38, 0x34, 0x30]"
    by (simp_all add: decimal.simps)
  have t: "?t = oid_text 1 2 [840]"
    by (simp add: oid_text_def d dotted_def)
  have v: "valid_oid 1 2" by (simp add: valid_oid_def)
  have r: "rep (CBB_init_fixed (replicate 64 0)) ([], [])"
    using rep_init_fixed [of "replicate 64 0"] by simp
  have "length (b128 n) \<le> 3" if "n < 128 ^ 2" for n
    using that length_b128_prefix [of "n div 128" 2] by (simp add: b128_def less_mult_imp_div_less)
  from this [of 42] this [of 840]
  have "room sample_heap (CBB_init_fixed (replicate 64 0)) (built ([], []) + length (oid_bytes 1 2 [840]))"
    by (simp add: room_def CBB_init_fixed_def cbb_init_def built_def oid_bytes_def)
  from appends.appends_ok [OF from_text_appends [OF v] good_sample_heap(1) r _ this]
  obtain s' where "CBB_add_asn1_oid_from_text sample_heap 0 ?t (CBB_init_fixed (replicate 64 0)) = (True, s')"
    unfolding t by auto
  from oid_text_roundtrip [OF good_sample_heap r _ _ this] obtain b where
    "rep s' (append_to ([], []) b)" "CBS_asn1_oid_to_text sample_heap b = Some (?t @ [0])" by auto
  then have "rep s' ([] @ b, [])" "CBS_asn1_oid_to_text sample_heap b = Some (?t @ [0])"
    by (simp_all add: append_to_def)
  then show ?thesis by blast
qed

end
