(* ===== verification/Set_Of.thy ===== *)
theory Set_Of
  imports Cbb_Der "HOL-Library.List_Lexorder" "HOL-Library.Multiset"
begin

text \<open>
  \<^verbatim>\<open>CBB_flush_asn1_set_of\<close> of \<^verbatim>\<open>crypto/bytestring/cbb.c\<close>: the elements that a SET OF contains are
  put in the order of their encodings. \<^verbatim>\<open>qsort\<close> is the one of the C library; since elements that
  compare equal are equal, every sorting algorithm gives the same result, and the model uses
  insertion. \<^verbatim>\<open>memcmp\<close> promises a sign only, so the model takes -1, 0 and 1.
\<close>

fun memcmp_sign :: "u8 list \<Rightarrow> u8 list \<Rightarrow> int" where
  "memcmp_sign (a # as) (b # bs) = (if a < b then - 1 else if b < a then 1 else memcmp_sign as bs)"
| "memcmp_sign _ _ = 0"

definition compare_set_of_element :: "u8 list \<Rightarrow> u8 list \<Rightarrow> int" where
  "compare_set_of_element a b =
     (let a_len = CBS_len a; b_len = CBS_len b;
          min_len = (if a_len < b_len then a_len else b_len);
          ret = memcmp_sign (take min_len (CBS_data a)) (take min_len (CBS_data b))
      in if ret \<noteq> 0 then ret
         else if a_len = b_len then 0
         else if a_len < b_len then - 1 else 1)"

fun insert_by :: "('a \<Rightarrow> 'a \<Rightarrow> int) \<Rightarrow> 'a \<Rightarrow> 'a list \<Rightarrow> 'a list" where
  "insert_by cmp x [] = [x]"
| "insert_by cmp x (y # ys) = (if cmp x y \<le> 0 then x # y # ys else y # insert_by cmp x ys)"

definition qsort :: "('a \<Rightarrow> 'a \<Rightarrow> int) \<Rightarrow> 'a list \<Rightarrow> 'a list" where
  "qsort cmp xs = foldr (insert_by cmp) xs []"

text \<open>The two passes over the elements: the first counts them, the second reads that many.\<close>

definition read_element :: "u8 list reader" where
  "read_element = bind_r CBS_get_any_asn1_element (\<lambda>e. ret_r (el_out e))"

fun read_n :: "nat \<Rightarrow> 'a reader \<Rightarrow> u8 list \<Rightarrow> 'a list option" where
  "read_n 0 p s = Some []"
| "read_n (Suc n) p s =
     (case p s of (None, _) \<Rightarrow> None | (Some a, s') \<Rightarrow> map_option ((#) a) (read_n n p s'))"

definition CBB_flush_asn1_set_of :: "heap \<Rightarrow> nat \<Rightarrow> writer" where
  "CBB_flush_asn1_set_of malloc d =
     and_then (CBB_flush malloc d)
       (\<lambda>s. case read_all read_element (CBB_data d s) of
              None \<Rightarrow> (False, s)
            | Some counted \<Rightarrow>
                let num_children = length counted in
                if num_children < 2 then (True, s)
                else
                  (case (OPENSSL_memdup (\<lambda>n. OPENSSL_malloc malloc n \<noteq> None) (CBB_data d s),
                         OPENSSL_calloc malloc num_children 16) of
                     (Some copy, Some _) \<Rightarrow>
                       (case read_n num_children read_element copy of
                          None \<Rightarrow> (False, s)
                        | Some elements \<Rightarrow>
                            (True, s\<lparr>buf := store (data_start d s)
                                      (concat (qsort compare_set_of_element elements)) (buf s)\<rparr>))
                   | _ \<Rightarrow> (False, s)))"

section \<open>The order\<close>

lemma memcmp_sign_sym: "length a = length b \<Longrightarrow> memcmp_sign a b = 0 \<longleftrightarrow> a = b"
  by (induction a b rule: list_induct2) auto

lemma compare_le_iff: "compare_set_of_element a b \<le> 0 \<longleftrightarrow> a \<le> b"
proof (induction a arbitrary: b)
  case Nil
  then show ?case by (auto simp: compare_set_of_element_def CBS_len_def CBS_data_def Let_def)
next
  case (Cons x a)
  show ?case
  proof (cases b)
    case Nil
    then show ?thesis by (auto simp: compare_set_of_element_def CBS_len_def CBS_data_def Let_def)
  next
    case (Cons y c)
    have "compare_set_of_element (x # a) (y # c) = (if x < y then - 1 else if y < x then 1 else compare_set_of_element a c)"
      by (simp add: compare_set_of_element_def CBS_len_def CBS_data_def Let_def)
    then show ?thesis
      using Cons.IH [of c] Cons by auto
  qed
qed

lemma qsort_sort: "qsort compare_set_of_element xs = sort xs"
proof -
  have "insert_by compare_set_of_element = insort"
    by (intro ext) (induct_tac xa; simp add: compare_le_iff)
  then show ?thesis by (simp add: qsort_def sort_key_def)
qed

lemma read_n_all: "read_all p s = Some xs \<Longrightarrow> read_n (length xs) p s = Some xs"
proof (induction xs arbitrary: s)
  case Nil
  then show ?case by simp
next
  case (Cons x xs)
  then obtain s' where "p s = (Some x, s')" "read_all p s' = Some xs"
    by (subst (asm) read_all.simps) (auto split: if_splits prod.splits option.splits)
  with Cons.IH show ?case by simp
qed

text \<open>A reader of whole elements, as a codec of their encodings.\<close>

definition is_element :: "u8 list \<Rightarrow> bool" where
  "is_element e \<longleftrightarrow> (\<exists>tag c. valid_tag tag \<and> length c < 2 ^ 32 \<and> e = der_element tag c)"

lemma element_out: "el_out (element_of tag (der_length (length c)) c ber i) = der_element tag c"
  by (simp add: der_element_def)

interpretation element: canonical_codec read_element "\<lambda>e. e" is_element
proof (unfold_locales, goal_cases)
  case (1 e t)
  then show ?case
    by (auto simp: is_element_def read_element_def DER_element element_out simp del: element_of_sel(1))
next
  case (2 s e t)
  then show ?case
    unfolding is_element_def read_element_def bind_r_eq_Some DER_element_iff ret_r_apply
    by (elim exE conjE) (simp add: element_out del: element_of_sel(1), blast)
qed

section \<open>The result\<close>

text \<open>The bytes of the innermost CBB, and the builder with others in their place.\<close>

definition inner :: "builder \<Rightarrow> u8 list" where
  "inner w = (if snd w = [] then fst w else snd (last (snd w)))"

definition set_inner :: "builder \<Rightarrow> u8 list \<Rightarrow> builder" where
  "set_inner w c =
     (if snd w = [] then (c, []) else (fst w, butlast (snd w) @ [(fst (last (snd w)), c)]))"

lemma inner_at:
  assumes r: "rep s w" and d: "length (snd w) = d"
  obtains X where "content s = X @ inner w" "data_start d s = length X"
    "\<And>t c. length c = length (inner w) \<Longrightarrow> rep t (set_inner w c) \<longleftrightarrow>
       live t \<and> content t = X @ c \<and> children t = children s"
proof (cases "snd w" rule: rev_cases)
  case Nil
  then show ?thesis
    using r d that [of "[]"] by (auto simp: rep_def inner_def set_inner_def data_start_def)
next
  case (snoc us f)
  obtain k c0 where f: "f = (k, c0)" by (cases f)
  define X where "X = fst w @ lay us @ replicate (prefix_len k) 0"
  have o: "children s = offs (length (fst w)) us @ [child_of (length (fst w) + length (lay us)) k]"
    using r snoc by (simp add: rep_def f offs_append)
  have "d = Suc (length us)" using d snoc by simp
  moreover from this have "children s ! (d - 1) = child_of (length (fst w) + length (lay us)) k"
    unfolding o by (simp add: nth_append)
  ultimately have ds: "data_start d s = length X"
    by (simp add: data_start_def child_of_def X_def)
  have "content s = X @ inner w"
    using r snoc by (simp add: rep_def f lay_append inner_def X_def)
  then show ?thesis
    using ds that [of X] snoc o
    by (auto simp: rep_def set_inner_def f lay_append offs_append inner_def X_def)
qed

lemma CBB_data_inner:
  assumes r: "rep s w" and d: "length (snd w) = d"
  shows "CBB_data d s = inner w"
proof -
  obtain X where X: "content s = X @ inner w" "data_start d s = length X"
    by (rule inner_at [OF r d])
  have l: "live s" using r by (simp add: rep_def)
  obtain R where "buf s = content s @ R" "length (content s) = len s"
    using content_buf [OF l] by blast
  then show ?thesis
    using X by (simp add: CBB_data_def CBB_len_def)
qed

text \<open>C33. A successful \<open>CBB_flush_asn1_set_of\<close> leaves the same elements in the CBB, in ascending
  order of their encodings, and changes nothing else; the contents were well-formed elements.\<close>

theorem CBB_flush_asn1_set_of_sorts:
  assumes g: "good_malloc malloc" and r: "rep s w" and d: "d \<le> length (snd w)"
    and f: "CBB_flush_asn1_set_of malloc d s = (True, s')"
  shows "\<exists>w' els. close_to d w = Some w' \<and> inner w' = concat els \<and> (\<forall>e\<in>set els. is_element e) \<and>
    (\<exists>out. mset out = mset els \<and> sorted out \<and> rep s' (set_inner w' (concat out)))"
proof -
  from f obtain t where t: "CBB_flush malloc d s = (True, t)"
    by (auto simp: CBB_flush_asn1_set_of_def and_then_True)
  from flush.appends_sound [OF g r d t] obtain w' where w: "close_to d w = Some w'" "rep t w'"
    by auto
  have l: "length (snd w') = d" by (rule close_to_closed [OF w(1) d])
  note data = CBB_data_inner [OF w(2) l]
  from f t obtain els where els: "read_all read_element (inner w') = Some els"
    and s': "s' = (if length els < 2 then t else
      t\<lparr>buf := store (data_start d t) (concat (qsort compare_set_of_element els)) (buf t)\<rparr>)"
    by (auto simp: CBB_flush_asn1_set_of_def and_then_True data Let_def OPENSSL_memdup_def read_n_all
        split: option.splits if_splits)
  have e: "inner w' = concat els" "\<forall>e\<in>set els. is_element e"
    using element.read_all_only [OF els] by simp_all
  obtain X where X: "content t = X @ inner w'" "data_start d t = length X"
    "\<And>u c. length c = length (inner w') \<Longrightarrow> rep u (set_inner w' c) \<longleftrightarrow> live u \<and> content u = X @ c \<and> children u = children t"
    by (rule inner_at [OF w(2) l]) blast
  have lt: "live t" using w(2) by (simp add: rep_def)
  have perm: "length (concat (sort els)) = length (concat els)"
    by (metis length_concat mset_map mset_sort sum_mset_sum_list)
  have "rep s' (set_inner w' (concat (sort els)))"
  proof (cases "length els < 2")
    case True
    then have "sort els = els" by (cases els; cases "tl els") auto
    with True s' e X(1) X(3) [of "concat els" t] lt show ?thesis by simp
  next
    case False
    have c: "content t = X @ concat els @ []" using X(1) e(1) by simp
    have "s' = t\<lparr>buf := store (length X) (concat (sort els)) (buf t)\<rparr>"
      using False s' X(2) by (simp add: qsort_sort)
    then show ?thesis
      using store_content [OF lt c refl perm] X(3) [of "concat (sort els)" s'] perm e(1) by (auto simp: grows_def)
  qed
  with w(1) e show ?thesis
    by (intro exI [of _ w'] exI [of _ els] conjI exI [of _ "sort els"]) simp_all
qed

lemma CBB_flush_asn1_set_of_sorts_witness:
  "\<exists>s'. CBB_flush_asn1_set_of sample_heap 0 (CBB_init_fixed [4, 1, 2, 4, 1, 1] \<lparr>len := 6\<rparr>) = (True, s') \<and>
     (\<exists>w' els out. inner w' = concat els \<and> mset out = mset els \<and> sorted out \<and> rep s' (set_inner w' (concat out)))"
proof -
  let ?s = "CBB_init_fixed [4, 1, 2, 4, 1, 1] \<lparr>len := 6\<rparr>" and ?w = "([4, 1, 2, 4, 1, 1], [])"
  have r: "rep ?s ?w"
    by (simp add: rep_def live_def content_def CBB_init_fixed_def cbb_init_def)
  have "der_element 4 [b] = [4, 1, b]" for b
    by (simp add: der_element_def der_tag_def Let_def der_length_def CBS_ASN1_TAG_SHIFT_def CBS_ASN1_TAG_NUMBER_MASK_def)
  then have "is_element [4, 1, b]" for b
    using valid_tag_small unfolding is_element_def by (intro exI [of _ 4] exI [of _ "[b]"]) simp
  then have all: "read_all read_element [4, 1, 2, 4, 1, 1] = Some [[4, 1, 2], [4, 1, 1]]"
    using element.read_all_concat [of "[[4, 1, 2], [4, 1, 1]]"] by simp
  have fl: "CBB_flush sample_heap 0 ?s = (True, ?s)"
    by (simp add: CBB_flush.simps CBB_init_fixed_def cbb_init_def)
  have data: "CBB_data 0 ?s = [4, 1, 2, 4, 1, 1]"
    using CBB_data_inner [OF r] by (simp add: inner_def)
  obtain s' where f: "CBB_flush_asn1_set_of sample_heap 0 ?s = (True, s')"
    using read_n_all [OF all]
    by (simp add: CBB_flush_asn1_set_of_def and_then_def fl data all OPENSSL_memdup_def OPENSSL_calloc_def
        OPENSSL_zalloc_def OPENSSL_malloc_def sample_heap_def)
  with CBB_flush_asn1_set_of_sorts [OF good_sample_heap(1) r _ f] show ?thesis by blast
qed

end
