(* ===== verification/Unicode.thy ===== *)
theory Unicode
  imports Cbb
begin

text \<open>
  Model of \<^verbatim>\<open>crypto/bytestring/unicode.c\<close>: the readers and the writers of the four encodings of
  ASN.1 strings. The specification of UTF-8 is \<open>utf8\<close>, the encoding of a code point in arithmetic;
  each reader is shown to be a canonical codec with its encoding, so that overlong forms, surrogates
  and reserved values are rejected and nothing else is, and each writer appends that encoding.
\<close>

definition is_valid_code_point :: "u32 \<Rightarrow> bool" where
  "is_valid_code_point v =
     (if v > 0x10ffff \<or> v AND 0xfffe = 0xfffe \<or> v \<ge> 0xfdd0 \<and> v \<le> 0xfdef \<or> v \<ge> 0xd800 \<and> v \<le> 0xdfff
      then False else True)"

definition BOTTOM_BITS :: "nat \<Rightarrow> u8" where
  "BOTTOM_BITS n = ucast (push_bit n 1 - 1 :: u32)"

definition TOP_BITS :: "nat \<Rightarrow> u8" where
  "TOP_BITS n = NOT (BOTTOM_BITS (8 - n))"

text \<open>The loop of \<open>CBS_get_utf8\<close> over the \<open>n\<close> continuation bytes.\<close>

fun utf8_loop :: "nat \<Rightarrow> u32 \<Rightarrow> u32 reader" where
  "utf8_loop 0 v = ret_r v"
| "utf8_loop (Suc n) v = bind_r CBS_get_u8 (\<lambda>c.
     if c AND TOP_BITS 2 \<noteq> TOP_BITS 1 then fail_r
     else utf8_loop n (push_bit 6 v OR ucast (c AND BOTTOM_BITS 6)))"

definition CBS_get_utf8 :: "u32 reader" where
  "CBS_get_utf8 = bind_r CBS_get_u8 (\<lambda>c.
     if c \<le> 0x7f then ret_r (ucast c)
     else case (if c AND TOP_BITS 3 = TOP_BITS 2 then Some (ucast (c AND BOTTOM_BITS 5), 1, 0x80)
                else if c AND TOP_BITS 4 = TOP_BITS 3 then Some (ucast (c AND BOTTOM_BITS 4), 2, 0x800)
                else if c AND TOP_BITS 5 = TOP_BITS 4 then Some (ucast (c AND BOTTOM_BITS 3), 3, 0x10000)
                else None) of
            None \<Rightarrow> fail_r
          | Some (v, n, lower_bound) \<Rightarrow>
              bind_r (utf8_loop n v) (\<lambda>v.
                if \<not> is_valid_code_point v \<or> v < lower_bound then fail_r else ret_r v))"

definition CBS_get_latin1 :: "u32 reader" where
  "CBS_get_latin1 = bind_r CBS_get_u8 (\<lambda>c. ret_r (ucast c))"

definition CBS_get_ucs2_be :: "u32 reader" where
  "CBS_get_ucs2_be = bind_r CBS_get_u16 (\<lambda>c. if \<not> is_valid_code_point (ucast c) then fail_r else ret_r (ucast c))"

definition CBS_get_utf32_be :: "u32 reader" where
  "CBS_get_utf32_be = bind_r CBS_get_u32 (\<lambda>v. if is_valid_code_point v then ret_r v else fail_r)"

definition CBB_get_utf8_len :: "u32 \<Rightarrow> nat" where
  "CBB_get_utf8_len u = (if u \<le> 0x7f then 1 else if u \<le> 0x7ff then 2 else if u \<le> 0xffff then 3 else 4)"

definition CBB_add_utf8 :: "heap \<Rightarrow> nat \<Rightarrow> u32 \<Rightarrow> writer" where
  "CBB_add_utf8 malloc d u =
     (if \<not> is_valid_code_point u then fail_w
      else if u \<le> 0x7f then CBB_add_u8 malloc d (ucast u)
      else if u \<le> 0x7ff then
        and_then (CBB_add_u8 malloc d (ucast (ucast (TOP_BITS 2) OR drop_bit 6 u)))
          (CBB_add_u8 malloc d (ucast (ucast (TOP_BITS 1) OR (u AND ucast (BOTTOM_BITS 6)))))
      else if u \<le> 0xffff then
        and_then (CBB_add_u8 malloc d (ucast (ucast (TOP_BITS 3) OR drop_bit 12 u)))
          (and_then (CBB_add_u8 malloc d (ucast (ucast (TOP_BITS 1) OR (drop_bit 6 u AND ucast (BOTTOM_BITS 6)))))
            (CBB_add_u8 malloc d (ucast (ucast (TOP_BITS 1) OR (u AND ucast (BOTTOM_BITS 6))))))
      else if u \<le> 0x10ffff then
        and_then (CBB_add_u8 malloc d (ucast (ucast (TOP_BITS 4) OR drop_bit 18 u)))
          (and_then (CBB_add_u8 malloc d (ucast (ucast (TOP_BITS 1) OR (drop_bit 12 u AND ucast (BOTTOM_BITS 6)))))
            (and_then (CBB_add_u8 malloc d (ucast (ucast (TOP_BITS 1) OR (drop_bit 6 u AND ucast (BOTTOM_BITS 6)))))
              (CBB_add_u8 malloc d (ucast (ucast (TOP_BITS 1) OR (u AND ucast (BOTTOM_BITS 6)))))))
      else fail_w)"

definition CBB_add_latin1 :: "heap \<Rightarrow> nat \<Rightarrow> u32 \<Rightarrow> writer" where
  "CBB_add_latin1 malloc d u = (if u \<le> 0xff then CBB_add_u8 malloc d (ucast u) else fail_w)"

definition CBB_add_ucs2_be :: "heap \<Rightarrow> nat \<Rightarrow> u32 \<Rightarrow> writer" where
  "CBB_add_ucs2_be malloc d u =
     (if u \<le> 0xffff \<and> is_valid_code_point u then CBB_add_u16 malloc d (ucast u) else fail_w)"

definition CBB_add_utf32_be :: "heap \<Rightarrow> nat \<Rightarrow> u32 \<Rightarrow> writer" where
  "CBB_add_utf32_be malloc d u = (if is_valid_code_point u then CBB_add_u32 malloc d u else fail_w)"

section \<open>Bit patterns as arithmetic\<close>

lemma bit_constants:
  "TOP_BITS 1 = push_bit 6 2" "TOP_BITS 2 = push_bit 5 6" "TOP_BITS 3 = push_bit 4 14" "TOP_BITS 4 = push_bit 3 30"
  "TOP_BITS 2 = NOT (mask 6)" "TOP_BITS 3 = NOT (mask 5)" "TOP_BITS 4 = NOT (mask 4)" "TOP_BITS 5 = NOT (mask 3)"
  "BOTTOM_BITS 6 = mask 6" "BOTTOM_BITS 5 = mask 5" "BOTTOM_BITS 4 = mask 4" "BOTTOM_BITS 3 = mask 3"
  by code_simp+

lemma lead_bits:
  "c AND TOP_BITS 2 = TOP_BITS 1 \<longleftrightarrow> unat c div 64 = 2"
  "c AND TOP_BITS 3 = TOP_BITS 2 \<longleftrightarrow> unat c div 32 = 6"
  "c AND TOP_BITS 4 = TOP_BITS 3 \<longleftrightarrow> unat c div 16 = 14"
  "c AND TOP_BITS 5 = TOP_BITS 4 \<longleftrightarrow> unat c div 8 = 30"
  using top_and_iff [of "2 :: u8" 6 c] top_and_iff [of "6 :: u8" 5 c] top_and_iff [of "14 :: u8" 4 c]
    top_and_iff [of "30 :: u8" 3 c]
  by (simp_all only: bit_constants(5-8)) (simp_all add: bit_constants(1-4) [unfolded bit_constants(5-8)] del: One_nat_def)

lemma low_bits:
  "unat (c AND BOTTOM_BITS 6) = unat c mod 64"
  "unat (c AND BOTTOM_BITS 5) = unat c mod 32"
  "unat (c AND BOTTOM_BITS 4) = unat c mod 16"
  "unat (c AND BOTTOM_BITS 3) = unat c mod 8"
  by (simp_all add: bit_constants(9-12) unat_take_bit flip: take_bit_eq_mask)

section \<open>UTF-8\<close>

text \<open>The \<open>k\<close> continuation bytes that carry the number \<open>n\<close>, and the encoding of a code point.\<close>

fun continuation :: "nat \<Rightarrow> nat \<Rightarrow> u8 list" where
  "continuation 0 n = []"
| "continuation (Suc k) n = word_of_nat (128 + n div 64 ^ k mod 64) # continuation k n"

definition utf8 :: "nat \<Rightarrow> u8 list" where
  "utf8 n =
     (if n < 0x80 then [word_of_nat n]
      else if n < 0x800 then word_of_nat (192 + n div 64) # continuation 1 n
      else if n < 0x10000 then word_of_nat (224 + n div 64 ^ 2) # continuation 2 n
      else word_of_nat (240 + n div 64 ^ 3) # continuation 3 n)"

lemma utf8_loop_step:
  assumes "unat v * 64 + 63 < 2 ^ 32"
  shows "unat (push_bit 6 v OR ucast (c AND BOTTOM_BITS 6) :: u32) = unat v * 64 + unat c mod 64"
proof -
  have "unat (ucast (c AND BOTTOM_BITS 6) :: u32) = unat c mod 64"
    by (subst unat_ucast_up) (simp_all add: low_bits)
  moreover have "unat c mod 64 \<le> 63" by simp
  ultimately show ?thesis
    using assms push_or_arith [of "ucast (c AND BOTTOM_BITS 6) :: u32" 6 v] by simp
qed

lemma utf8_loop_only:
  "utf8_loop k v s = (Some w, t) \<Longrightarrow> (unat v + 1) * 64 ^ k \<le> 2 ^ 32 \<Longrightarrow>
     s = continuation k (unat w) @ t \<and> unat w div 64 ^ k = unat v"
proof (induction k arbitrary: v s)
  case 0
  then show ?case by simp
next
  case (Suc k)
  from Suc.prems(1) obtain c s' where c: "s = c # s'" "unat c div 64 = 2"
    and r: "utf8_loop k (push_bit 6 v OR ucast (c AND BOTTOM_BITS 6)) s' = (Some w, t)"
    by (auto simp: bind_r_eq_Some CBS_get_u8_Some lead_bits simp del: One_nat_def split: if_splits)
  have "(unat v + 1) * 64 * 64 ^ k \<le> 2 ^ 32"
    using Suc.prems(2) by (simp add: algebra_simps)
  moreover have "(unat v + 1) * 64 \<le> (unat v + 1) * 64 * 64 ^ k"
    by simp
  ultimately have b: "(unat v + 1) * 64 \<le> 2 ^ 32"
    by (rule le_trans [rotated])
  then have st: "unat (push_bit 6 v OR ucast (c AND BOTTOM_BITS 6) :: u32) = unat v * 64 + unat c mod 64"
    by (intro utf8_loop_step) simp
  have "(unat v * 64 + unat c mod 64 + 1) * 64 ^ k \<le> (unat v + 1) * 64 * 64 ^ k"
    by (intro mult_le_mono1) (simp add: Suc_le_eq)
  also have "\<dots> \<le> 2 ^ 32" by fact
  finally have "s' = continuation k (unat w) @ t \<and> unat w div 64 ^ k = unat v * 64 + unat c mod 64"
    using Suc.IH [OF r] by (simp add: st)
  moreover from this have "unat w div 64 ^ Suc k = unat v"
    by (simp add: power_Suc2 div_mult2_eq del: power_Suc)
  moreover have "unat c = 128 + unat c mod 64"
    using c(2) mult_div_mod_eq [of 64 "unat c"] by simp
  then have "c = word_of_nat (128 + unat c mod 64)"
    by (rule word_of_nat_eqI)
  ultimately show ?case
    using c(1) by simp
qed

lemma cont_byte: "x < 64 \<Longrightarrow> (128 + x) div 64 = 2 \<and> (128 + x) mod 64 = x" for x :: nat
  using mod_mult_self2 [of x 64 2] by (auto intro: div_nat_eqI simp: add.commute)

lemma div64_room: "x < 2 ^ 32 \<Longrightarrow> x div 64 * 64 + 63 < 2 ^ 32" for x :: nat
  using less_mult_imp_div_less [of x "2 ^ 26" 64] by simp

lemma utf8_loop_continuation:
  "n < 2 ^ 32 \<Longrightarrow> v = word_of_nat (n div 64 ^ k) \<Longrightarrow> utf8_loop k v (continuation k n @ t) = (Some (word_of_nat n), t)"
proof (induction k arbitrary: v)
  case 0
  then show ?case by simp
next
  case (Suc k)
  define c :: u8 where "c = word_of_nat (128 + n div 64 ^ k mod 64)"
  have m: "n div 64 ^ k mod 64 < 64" by simp
  then have c: "unat c = 128 + n div 64 ^ k mod 64"
    unfolding c_def by (simp add: unat_word_of_nat_byte del: of_nat_add)
  have d: "unat c div 64 = 2" "unat c mod 64 = n div 64 ^ k mod 64"
    using m cont_byte by (simp_all add: c)
  have nk: "n div 64 ^ k = 64 * (n div 64 ^ k div 64) + n div 64 ^ k mod 64" by simp
  have v: "unat v = n div 64 ^ k div 64"
    using Suc.prems div_le_dividend [of n "64 ^ Suc k"]
    by (simp only: power_Suc2 div_mult2_eq) (simp add: unsigned_of_nat take_bit_nat_eq_self)
  have "n div 64 ^ k < 2 ^ 32" using Suc.prems(1) div_le_dividend [of n "64 ^ k"] by linarith
  then have "unat (push_bit 6 v OR ucast (c AND BOTTOM_BITS 6) :: u32) = n div 64 ^ k"
    using nk div64_room [of "n div 64 ^ k"] by (subst utf8_loop_step) (simp_all only: v d(2))
  then have "push_bit 6 v OR ucast (c AND BOTTOM_BITS 6) = (word_of_nat (n div 64 ^ k) :: u32)"
    by (rule word_of_nat_eqI)
  with Suc.IH [OF Suc.prems(1) this] d(1) show ?case
    by (simp add: bind_r_def lead_bits del: One_nat_def of_nat_add flip: c_def)
qed


lemma valid_code_point_less: "is_valid_code_point v \<Longrightarrow> unat v < 0x110000"
  by (auto simp: is_valid_code_point_def word_less_nat_alt split: if_splits)

lemma lead_byte: "c div p = q \<longleftrightarrow> c = q * p + c mod p" if "0 < p" for c p q :: nat
  using that by (metis add_right_cancel div_mult_mod_eq mult_cancel_right not_gr0)

lemma lead_byte_nat:
  assumes "c = word_of_nat (q * p + x)" and "x < p" and "q * p + x < 256"
  shows "unat (c :: u8) div p = q" and "unat c mod p = x" and "unat c = q * p + x"
proof -
  show u: "unat c = q * p + x"
    using assms by (simp add: unat_word_of_nat_byte del: of_nat_add)
  show "unat c div p = q" "unat c mod p = x"
    using assms(2) by (simp_all add: u)
qed

text \<open>The forms of more than one byte: the lead byte carries the first digits and the loop the others.\<close>

lemma utf8_multi_only:
  assumes "utf8_loop k (ucast (c AND m)) s = (Some v, t)" and "unat (c AND m) = unat c mod p" and "unat c div p = q"
    and "p * 64 ^ k \<le> 2 ^ 32" and "0 < p"
  shows "c # s = word_of_nat (q * p + unat v div 64 ^ k) # continuation k (unat v) @ t \<and> unat v < p * 64 ^ k"
proof -
  have u: "unat (ucast (c AND m) :: u32) = unat c mod p"
    by (subst unat_ucast_up) (simp_all add: assms(2))
  have "(unat c mod p + 1) * 64 ^ k \<le> p * 64 ^ k"
    using assms(5) by (intro mult_le_mono1) (simp add: Suc_le_eq)
  then have "(unat (ucast (c AND m) :: u32) + 1) * 64 ^ k \<le> 2 ^ 32"
    using assms(4) unfolding u by (rule le_trans)
  from utf8_loop_only [OF assms(1) this] have v: "s = continuation k (unat v) @ t" "unat v div 64 ^ k = unat c mod p"
    by (simp_all add: u)
  have "unat c = q * p + unat v div 64 ^ k"
    using assms(3) by (simp add: v(2) flip: assms(3))
  then have "c = word_of_nat (q * p + unat v div 64 ^ k)"
    by (rule word_of_nat_eqI)
  moreover have "unat v div 64 ^ k < p" using assms(5) by (simp add: v(2))
  then have "unat v < p * 64 ^ k" by (simp add: less_mult_imp_div_less div_less_iff_less_mult)
  ultimately show ?thesis using v(1) by simp
qed

lemma utf8_multi_loop:
  fixes c m :: u8
  assumes "unat (c AND m) = unat v div 64 ^ k"
  shows "utf8_loop k (ucast (c AND m)) (continuation k (unat v) @ t) = (Some v, t)"
proof -
  have "unat (ucast (c AND m) :: u32) = unat v div 64 ^ k"
    by (subst unat_ucast_up) (simp_all add: assms)
  then have "ucast (c AND m) = (word_of_nat (unat v div 64 ^ k) :: u32)"
    by (rule word_of_nat_eqI)
  with unsigned_less [of v] show ?thesis
    by (subst utf8_loop_continuation) simp_all
qed

lemma valid_code_point_ascii: "v \<le> 0x7f \<Longrightarrow> is_valid_code_point v"
  using word_and_le2 [of v "0xfffe"] order_trans [of "v AND 0xfffe" v "0x7f"]
  by (auto simp: is_valid_code_point_def word_le_nat_alt word_less_nat_alt)

lemma utf8_get_only:
  assumes "CBS_get_utf8 s = (Some v, t)"
  shows "is_valid_code_point v \<and> s = utf8 (unat v) @ t"
proof -
  from assms obtain c s' where c: "s = c # s'"
    by (auto simp: CBS_get_utf8_def bind_r_eq_Some CBS_get_u8_Some)
  show ?thesis
  proof (cases "c \<le> 0x7f")
    case True
    then have v: "v = ucast c" "t = s'"
      using assms by (simp_all add: CBS_get_utf8_def c bind_r_def)
    then have "v \<le> 0x7f" "unat v = unat c" "unat c < 0x80"
      using True by (simp_all add: word_le_nat_alt unat_ucast_up)
    then show ?thesis
      using valid_code_point_ascii [of v] by (simp add: utf8_def c v(2))
  next
    case False
    from assms False consider
      (2) "unat c div 32 = 6" "utf8_loop 1 (ucast (c AND BOTTOM_BITS 5)) s' = (Some v, t)" "is_valid_code_point v" "v \<ge> 0x80"
    | (3) "unat c div 16 = 14" "utf8_loop 2 (ucast (c AND BOTTOM_BITS 4)) s' = (Some v, t)" "is_valid_code_point v" "v \<ge> 0x800"
    | (4) "unat c div 8 = 30" "utf8_loop 3 (ucast (c AND BOTTOM_BITS 3)) s' = (Some v, t)" "is_valid_code_point v" "v \<ge> 0x10000"
      by (auto simp: CBS_get_utf8_def c bind_r_def lead_bits not_less simp del: utf8_loop.simps One_nat_def
          split: if_splits option.splits prod.splits)
    then show ?thesis
    proof cases
      case 2
      with utf8_multi_only [OF 2(2) low_bits(2) 2(1)] show ?thesis
        by (simp add: c utf8_def word_le_nat_alt del: continuation.simps)
    next
      case 3
      with utf8_multi_only [OF 3(2) low_bits(3) 3(1)] show ?thesis
        by (simp add: c utf8_def word_le_nat_alt del: continuation.simps)
    next
      case 4
      with utf8_multi_only [OF 4(2) low_bits(4) 4(1)] show ?thesis
        by (simp add: c utf8_def word_le_nat_alt del: continuation.simps)
    qed
  qed
qed

lemma lead_disjoint:
  "x div 32 = 6 \<Longrightarrow> \<not> x \<le> 127"
  "x div 16 = 14 \<Longrightarrow> \<not> x \<le> 127 \<and> x div 32 \<noteq> 6"
  "x div 8 = 30 \<Longrightarrow> \<not> x \<le> 127 \<and> x div 32 \<noteq> 6 \<and> x div 16 \<noteq> 14" for x :: nat
  using div_times_less_eq_dividend [of x 32] div_times_less_eq_dividend [of x 16] div_times_less_eq_dividend [of x 8]
    div_mult2_eq [of x 16 2] div_mult2_eq [of x 8 2] div_mult2_eq [of x 8 4]
  by auto

lemma utf8_lead:
  "unat c div 32 = 6 \<Longrightarrow> utf8_loop 1 (ucast (c AND BOTTOM_BITS 5)) s = (Some v, t) \<Longrightarrow> is_valid_code_point v \<Longrightarrow>
     0x80 \<le> v \<Longrightarrow> CBS_get_utf8 (c # s) = (Some v, t)"
  "unat c div 16 = 14 \<Longrightarrow> utf8_loop 2 (ucast (c AND BOTTOM_BITS 4)) s = (Some v, t) \<Longrightarrow> is_valid_code_point v \<Longrightarrow>
     0x800 \<le> v \<Longrightarrow> CBS_get_utf8 (c # s) = (Some v, t)"
  "unat c div 8 = 30 \<Longrightarrow> utf8_loop 3 (ucast (c AND BOTTOM_BITS 3)) s = (Some v, t) \<Longrightarrow> is_valid_code_point v \<Longrightarrow>
     0x10000 \<le> v \<Longrightarrow> CBS_get_utf8 (c # s) = (Some v, t)"
  using lead_disjoint [of "unat c"]
  by (simp_all add: CBS_get_utf8_def bind_r_def lead_bits word_le_nat_alt [of c] not_less del: utf8_loop.simps One_nat_def)

lemma utf8_get_utf8:
  assumes "is_valid_code_point v"
  shows "CBS_get_utf8 (utf8 (unat v) @ t) = (Some v, t)"
proof -
  consider (1) "unat v < 0x80" | (2) "0x80 \<le> unat v" "unat v < 0x800"
    | (3) "0x800 \<le> unat v" "unat v < 0x10000" | (4) "0x10000 \<le> unat v" "unat v < 0x110000"
    using valid_code_point_less [OF assms] by linarith
  then show ?thesis
  proof cases
    case 1
    define c :: u8 where "c = ucast v"
    have c: "unat c = unat v" using 1 by (simp add: c_def unat_ucast_down)
    have "unat (ucast c :: u32) = unat v" by (subst unat_ucast_up) (simp_all add: c)
    then have "ucast c = v" by (simp add: word_unat_eq_iff)
    moreover have "utf8 (unat v) = [c]" using 1 by (simp add: utf8_def word_of_nat_unat c_def)
    ultimately show ?thesis
      using 1 c by (simp add: CBS_get_utf8_def bind_r_def word_le_nat_alt)
  next
    case 2
    define c :: u8 where "c = word_of_nat (192 + unat v div 64)"
    have c: "unat c div 32 = 6" "unat (c AND BOTTOM_BITS 5) = unat v div 64 ^ 1"
      using 2 lead_byte_nat [OF refl, of "unat v div 64" 32 6] by (simp_all add: c_def low_bits)
    have "utf8 (unat v) = c # continuation 1 (unat v)"
      using 2 by (simp only: utf8_def c_def) simp
    with utf8_lead(1) [OF c(1) utf8_multi_loop [OF c(2)] assms] 2 show ?thesis
      by (simp add: word_le_nat_alt)
  next
    case 3
    define c :: u8 where "c = word_of_nat (224 + unat v div 64 ^ 2)"
    have c: "unat c div 16 = 14" "unat (c AND BOTTOM_BITS 4) = unat v div 64 ^ 2"
      using 3 lead_byte_nat [OF refl, of "unat v div 64 ^ 2" 16 14] by (simp_all add: c_def low_bits)
    have "utf8 (unat v) = c # continuation 2 (unat v)"
      using 3 by (simp only: utf8_def c_def) simp
    with utf8_lead(2) [OF c(1) utf8_multi_loop [OF c(2)] assms] 3 show ?thesis
      by (simp add: word_le_nat_alt)
  next
    case 4
    define c :: u8 where "c = word_of_nat (240 + unat v div 64 ^ 3)"
    have c: "unat c div 8 = 30" "unat (c AND BOTTOM_BITS 3) = unat v div 64 ^ 3"
      using 4 lead_byte_nat [OF refl, of "unat v div 64 ^ 3" 8 30] by (simp_all add: c_def low_bits)
    have "utf8 (unat v) = c # continuation 3 (unat v)"
      using 4 by (simp only: utf8_def c_def) simp
    with utf8_lead(3) [OF c(1) utf8_multi_loop [OF c(2)] assms] 4 show ?thesis
      by (simp add: word_le_nat_alt)
  qed
qed

interpretation utf8: canonical_codec CBS_get_utf8 "\<lambda>v. utf8 (unat v)" is_valid_code_point
  by unfold_locales (simp_all add: utf8_get_only utf8_get_utf8)


interpretation latin1: canonical_codec CBS_get_latin1 "\<lambda>v. [ucast v]" "\<lambda>v. v \<le> 0xff"
proof
  fix v t assume "v \<le> (0xff :: u32)"
  then have "ucast (ucast v :: u8) = v"
    by (simp add: word_unat_eq_iff unat_ucast_up unat_ucast_down word_le_nat_alt)
  then show "CBS_get_latin1 ([ucast v] @ t) = (Some v, t)"
    by (simp add: CBS_get_latin1_def bind_r_def)
next
  fix s v t assume "CBS_get_latin1 s = (Some v, t)"
  then obtain c where c: "s = c # t" "v = ucast c"
    by (auto simp: CBS_get_latin1_def bind_r_eq_Some CBS_get_u8_Some)
  with unat_byte_lt [of c] have "unat v < 256" by (simp add: unat_ucast_up)
  moreover have "unat (ucast v :: u8) = unat c"
    using unat_byte_lt [of c] by (subst unat_ucast_down) (simp_all add: c(2) unat_ucast_up)
  then have "ucast v = c" by (simp add: word_unat_eq_iff)
  ultimately show "v \<le> 0xff \<and> s = [ucast v] @ t" by (simp add: c(1) word_le_nat_alt)
qed

interpretation ucs2_be: canonical_codec CBS_get_ucs2_be "\<lambda>v. be_bytes 2 (unat v)" "\<lambda>v. v \<le> 0xffff \<and> is_valid_code_point v"
proof
  fix v t assume v: "v \<le> 0xffff \<and> is_valid_code_point (v :: u32)"
  define c :: u16 where "c = ucast v"
  have c: "unat c = unat v" using v by (simp add: c_def unat_ucast_down word_le_nat_alt)
  then have "ucast c = v" by (simp add: word_unat_eq_iff unat_ucast_up)
  with v show "CBS_get_ucs2_be (be_bytes 2 (unat v) @ t) = (Some v, t)"
    using u16_codec.dec_enc [of c t] c v by (simp add: CBS_get_ucs2_be_def bind_r_def word_le_nat_alt)
next
  fix s v t assume "CBS_get_ucs2_be s = (Some v, t)"
  then obtain c where c: "CBS_get_u16 s = (Some c, t)" "v = ucast c" "is_valid_code_point v"
    by (auto simp: CBS_get_ucs2_be_def bind_r_eq_Some split: if_splits)
  have "unat v = unat c" by (simp add: c(2) unat_ucast_up)
  then show "(v \<le> 0xffff \<and> is_valid_code_point v) \<and> s = be_bytes 2 (unat v) @ t"
    using u16_codec.dec_only [OF c(1)] c(3) unsigned_less [of c] by (simp add: word_le_nat_alt)
qed

lemma word_bounds: "unat (v :: u32) < 4294967296"
  using unsigned_less [of v] by simp

interpretation utf32_be: canonical_codec CBS_get_utf32_be "\<lambda>v. be_bytes 4 (unat v)" is_valid_code_point
proof
  fix v t assume "is_valid_code_point v"
  then show "CBS_get_utf32_be (be_bytes 4 (unat v) @ t) = (Some v, t)"
    using u32_codec.dec_enc [of v t] word_bounds by (simp add: CBS_get_utf32_be_def bind_r_def)
next
  fix s v t assume "CBS_get_utf32_be s = (Some v, t)"
  then have "CBS_get_u32 s = (Some v, t)" "is_valid_code_point v"
    by (auto simp: CBS_get_utf32_be_def bind_r_eq_Some split: if_splits)
  then show "is_valid_code_point v \<and> s = be_bytes 4 (unat v) @ t"
    using u32_codec.dec_only by blast
qed

section \<open>Writing\<close>

lemma unat_or_lead:
  fixes w :: u32
  assumes "unat w < 2 ^ n" and "q * 2 ^ n + unat w < 256"
  shows "ucast (push_bit n (word_of_nat q) OR w) = (word_of_nat (q * 2 ^ n + unat w) :: u8)"
proof -
  have q: "q < 256"
  proof -
    have "q \<le> q * 2 ^ n" by simp
    then show ?thesis using assms(2) by linarith
  qed
  have "unat (push_bit n (word_of_nat q) OR w) = q * 2 ^ n + unat w"
    using push_or_arith [OF assms(1), of "word_of_nat q"] assms(2) q
    by (simp add: unsigned_of_nat take_bit_nat_eq_self)
  then have "unat (ucast (push_bit n (word_of_nat q) OR w) :: u8) = q * 2 ^ n + unat w"
    using assms(2) by (subst unat_ucast_down) simp_all
  then show ?thesis by (rule word_of_nat_eqI)
qed

lemma bit_constants32:
  "ucast (TOP_BITS 1) = (push_bit 6 (word_of_nat 2) :: u32)" "ucast (TOP_BITS 2) = (push_bit 5 (word_of_nat 6) :: u32)"
  "ucast (TOP_BITS 3) = (push_bit 4 (word_of_nat 14) :: u32)" "ucast (TOP_BITS 4) = (push_bit 3 (word_of_nat 30) :: u32)"
  "ucast (BOTTOM_BITS 6) = (mask 6 :: u32)"
  by code_simp+

lemma lead_of:
  "unat u < 0x800 \<Longrightarrow> ucast (ucast (TOP_BITS 2) OR drop_bit 6 u) = (word_of_nat (192 + unat u div 64) :: u8)"
  "unat u < 0x10000 \<Longrightarrow> ucast (ucast (TOP_BITS 3) OR drop_bit 12 u) = (word_of_nat (224 + unat u div 64 ^ 2) :: u8)"
  "unat u < 0x110000 \<Longrightarrow> ucast (ucast (TOP_BITS 4) OR drop_bit 18 u) = (word_of_nat (240 + unat u div 64 ^ 3) :: u8)"
  for u :: u32
  using unat_or_lead [of "drop_bit 6 u" 5 6] unat_or_lead [of "drop_bit 12 u" 4 14] unat_or_lead [of "drop_bit 18 u" 3 30]
  by (simp_all add: bit_constants32 unat_drop_bit less_mult_imp_div_less del: of_nat_add)

lemma continuation_of:
  "ucast (ucast (TOP_BITS 1) OR (u AND ucast (BOTTOM_BITS 6))) = (word_of_nat (128 + unat u mod 64) :: u8)"
  for u :: u32
proof -
  have "unat u mod 64 < 64" by simp
  then have "2 * 2 ^ 6 + unat u mod 64 < 256" by simp
  then show ?thesis
    using unat_or_lead [of "take_bit 6 u" 6 2] unfolding bit_constants32 
    by (simp add: unat_take_bit del: of_nat_add flip: take_bit_eq_mask)
qed

lemma continuation_list:
  "continuation 1 n = [word_of_nat (128 + n mod 64)]"
  "continuation 2 n = [word_of_nat (128 + n div 64 mod 64), word_of_nat (128 + n mod 64)]"
  "continuation 3 n = [word_of_nat (128 + n div 64 ^ 2 mod 64), word_of_nat (128 + n div 64 mod 64), word_of_nat (128 + n mod 64)]"
  by (simp_all add: numeral_2_eq_2 numeral_3_eq_3)

lemma appends_two: "appends malloc d op1 [a] \<Longrightarrow> appends malloc d op2 bs \<Longrightarrow> appends malloc d (and_then op1 op2) (a # bs)"
  using appends_and_then by force

lemma add_utf8_appends:
  assumes "is_valid_code_point u"
  shows "appends malloc d (CBB_add_utf8 malloc d u) (utf8 (unat u))"
proof -
  note l = valid_code_point_less [OF assms]
  have s: "unat (drop_bit 6 u) = unat u div 64" "unat (drop_bit 12 u) = unat u div 64 ^ 2"
    by (simp_all add: unat_drop_bit)
  note defs = CBB_add_utf8_def utf8_def word_le_nat_alt assms lead_of continuation_of s continuation_list
  consider (1) "unat u < 0x80" | (2) "0x80 \<le> unat u" "unat u < 0x800"
    | (3) "0x800 \<le> unat u" "unat u < 0x10000" | (4) "0x10000 \<le> unat u" "unat u < 0x110000"
    using l by linarith
  then show ?thesis
  proof cases
    case 1
    then show ?thesis
      using add_u8.appends_axioms [of malloc d "ucast u"] by (simp add: defs word_of_nat_unat)
  next
    case 2
    then show ?thesis
      by (simp add: defs del: of_nat_add One_nat_def continuation.simps) (intro appends_two add_u8.appends_axioms)
  next
    case 3
    then show ?thesis
      by (simp add: defs del: of_nat_add One_nat_def continuation.simps) (intro appends_two add_u8.appends_axioms)
  next
    case 4
    then show ?thesis
      by (simp add: defs del: of_nat_add One_nat_def continuation.simps) (intro appends_two add_u8.appends_axioms)
  qed
qed

lemma add_utf8_invalid: "\<not> is_valid_code_point u \<Longrightarrow> CBB_add_utf8 malloc d u s = (False, s)"
  by (simp add: CBB_add_utf8_def fail_w_def)

lemma length_utf8: "is_valid_code_point u \<Longrightarrow> length (utf8 (unat u)) = CBB_get_utf8_len u"
  by (simp add: utf8_def CBB_get_utf8_len_def word_le_nat_alt continuation_list del: of_nat_add One_nat_def)

lemma add_latin1_appends: "u \<le> 0xff \<Longrightarrow> appends malloc d (CBB_add_latin1 malloc d u) [ucast u]"
  by (simp add: CBB_add_latin1_def add_u8.appends_axioms)

lemma add_ucs2_appends:
  assumes "u \<le> 0xffff" and "is_valid_code_point u"
  shows "appends malloc d (CBB_add_ucs2_be malloc d u) (be_bytes 2 (unat u))"
proof -
  have "unat (ucast u :: u16) = unat u"
    using assms(1) by (simp add: unat_ucast_down word_le_nat_alt)
  with add_u16.appends_axioms [of malloc d "ucast u"] assms show ?thesis
    by (simp add: CBB_add_ucs2_be_def)
qed

lemma add_utf32_appends: "is_valid_code_point u \<Longrightarrow> appends malloc d (CBB_add_utf32_be malloc d u) (be_bytes 4 (unat u))"
  by (simp add: CBB_add_utf32_be_def add_u32.appends_axioms)

text \<open>What an operation of the contract writes is read back by the reader of a codec.\<close>

lemma appends_read_back:
  assumes "appends malloc d op1 (enc u)" and "codec dec enc valid" and "valid u"
    and "good_malloc malloc" and "rep s w" and "length (snd w) = d" and "op1 s = (True, s')"
  shows "rep s' (append_to w (enc u)) \<and> (\<forall>t. dec (enc u @ t) = (Some u, t))"
  using appends.appends_here [OF assms(1,4-7)] codec.dec_enc [OF assms(2,3)] by blast

lemma add_code_point_valid:
  "CBB_add_utf8 malloc d u s = (True, s') \<Longrightarrow> is_valid_code_point u"
  "CBB_add_latin1 malloc d u s = (True, s') \<Longrightarrow> u \<le> 0xff"
  "CBB_add_ucs2_be malloc d u s = (True, s') \<Longrightarrow> u \<le> 0xffff \<and> is_valid_code_point u"
  "CBB_add_utf32_be malloc d u s = (True, s') \<Longrightarrow> is_valid_code_point u"
  by (auto simp: CBB_add_utf8_def CBB_add_latin1_def CBB_add_ucs2_be_def CBB_add_utf32_be_def fail_w_def split: if_splits)

text \<open>C9. \<open>CBS_get_utf8\<close> accepts exactly the shortest UTF-8 encodings of the valid code points, so that
  overlong forms, surrogates, non-characters and truncated sequences are all refused.\<close>

theorem CBS_get_utf8_iff:
  "CBS_get_utf8 s = (Some v, t) \<longleftrightarrow> is_valid_code_point v \<and> s = utf8 (unat v) @ t"
  by (rule utf8.dec_iff)

text \<open>A code point that one of the four writers accepts is read back by its reader, whatever follows
  it, and \<open>CBB_get_utf8_len\<close> is the number of bytes that \<open>CBB_add_utf8\<close> writes for it.\<close>

theorem code_point_roundtrip:
  assumes "good_malloc malloc" and "rep s w" and "length (snd w) = d"
  shows "(CBB_add_utf8 malloc d u s = (True, s') \<longrightarrow>
       (\<exists>b. rep s' (append_to w b) \<and> length b = CBB_get_utf8_len u \<and> (\<forall>t. CBS_get_utf8 (b @ t) = (Some u, t)))) \<and>
     (CBB_add_latin1 malloc d u s = (True, s') \<longrightarrow>
       (\<exists>b. rep s' (append_to w b) \<and> length b = 1 \<and> (\<forall>t. CBS_get_latin1 (b @ t) = (Some u, t)))) \<and>
     (CBB_add_ucs2_be malloc d u s = (True, s') \<longrightarrow>
       (\<exists>b. rep s' (append_to w b) \<and> length b = 2 \<and> (\<forall>t. CBS_get_ucs2_be (b @ t) = (Some u, t)))) \<and>
     (CBB_add_utf32_be malloc d u s = (True, s') \<longrightarrow>
       (\<exists>b. rep s' (append_to w b) \<and> length b = 4 \<and> (\<forall>t. CBS_get_utf32_be (b @ t) = (Some u, t))))"
proof (intro conjI impI)
  note rb = appends_read_back [OF _ _ _ assms, of _ _ u]
  { assume a: "CBB_add_utf8 malloc d u s = (True, s')"
    note v = add_code_point_valid(1) [OF a]
    from rb [OF add_utf8_appends [OF v] utf8.codec_axioms v a] length_utf8 [OF v]
    show "\<exists>b. rep s' (append_to w b) \<and> length b = CBB_get_utf8_len u \<and> (\<forall>t. CBS_get_utf8 (b @ t) = (Some u, t))"
      by blast }
  { assume a: "CBB_add_latin1 malloc d u s = (True, s')"
    note v = add_code_point_valid(2) [OF a]
    from rb [OF add_latin1_appends [OF v] latin1.codec_axioms v a]
    show "\<exists>b. rep s' (append_to w b) \<and> length b = 1 \<and> (\<forall>t. CBS_get_latin1 (b @ t) = (Some u, t))"
      by (intro exI [of _ "[ucast u]"]) simp }
  { assume a: "CBB_add_ucs2_be malloc d u s = (True, s')"
    note v = add_code_point_valid(3) [OF a]
    have "appends malloc d (CBB_add_ucs2_be malloc d u) (be_bytes 2 (unat u))" using v add_ucs2_appends by blast
    from rb [OF this ucs2_be.codec_axioms v a]
    show "\<exists>b. rep s' (append_to w b) \<and> length b = 2 \<and> (\<forall>t. CBS_get_ucs2_be (b @ t) = (Some u, t))"
      by (intro exI [of _ "be_bytes 2 (unat u)"]) simp }
  { assume a: "CBB_add_utf32_be malloc d u s = (True, s')"
    note v = add_code_point_valid(4) [OF a]
    from rb [OF add_utf32_appends [OF v] utf32_be.codec_axioms v a]
    show "\<exists>b. rep s' (append_to w b) \<and> length b = 4 \<and> (\<forall>t. CBS_get_utf32_be (b @ t) = (Some u, t))"
      by (intro exI [of _ "be_bytes 4 (unat u)"]) simp }
qed

text \<open>The euro sign, written into four bytes.\<close>

lemma code_point_roundtrip_witness:
  "\<exists>s' b. rep s' ([] @ b, []) \<and> length b = 3 \<and> CBS_get_utf8 (b @ [65]) = (Some 0x20ac, [65])"
proof -
  let ?s = "CBB_init_fixed [0, 0, 0, 0]"
  have g: "good_malloc (\<lambda>_. None)" by (simp add: good_malloc_def)
  have r: "rep ?s ([], [])"
    by (simp add: rep_def live_def content_def CBB_init_fixed_def cbb_init_def)
  have v: "is_valid_code_point 0x20ac" "CBB_get_utf8_len 0x20ac = 3" by code_simp+
  have "room (\<lambda>_. None) ?s (built ([], []) + length (utf8 (unat (0x20ac :: u32))))"
    using length_utf8 [OF v(1)] by (simp add: v(2) room_def built_def CBB_init_fixed_def cbb_init_def)
  from appends.appends_ok [OF add_utf8_appends [OF v(1)] g r _ this] obtain s' where
    "CBB_add_utf8 (\<lambda>_. None) 0 0x20ac ?s = (True, s')" by auto
  with code_point_roundtrip [OF g r, of 0 "0x20ac" s'] obtain b where
    "rep s' (append_to ([], []) b)" "length b = 3" "\<forall>t. CBS_get_utf8 (b @ t) = (Some 0x20ac, t)"
    by (auto simp: v(2))
  then show ?thesis by (auto simp: append_to_def)
qed

end
