(* ===== verification/Ber.thy ===== *)
theory Ber
  imports Cbb_Der
begin

text \<open>
  Model of \<^verbatim>\<open>crypto/bytestring/ber.c\<close>, the conversion of BER to DER. A CBS is the list of bytes it
  spans and the CBB \<open>out\<close> is a state of the builder of \<open>Cbb\<close> together with the depth of the CBB
  in it; where the code passes \<open>&out_contents_storage\<close> the depth is one more. The recursion is
  bounded by \<open>kMaxDepth\<close>. In the loop of \<open>cbs_convert_ber\<close> the model also asks that the input got
  shorter, which \<open>convert_progress\<close> shows to be the case always.
\<close>

abbreviation CBS_ASN1_UTF8STRING :: u32 where "CBS_ASN1_UTF8STRING \<equiv> 0xc"
abbreviation CBS_ASN1_NUMERICSTRING :: u32 where "CBS_ASN1_NUMERICSTRING \<equiv> 0x12"
abbreviation CBS_ASN1_PRINTABLESTRING :: u32 where "CBS_ASN1_PRINTABLESTRING \<equiv> 0x13"
abbreviation CBS_ASN1_T61STRING :: u32 where "CBS_ASN1_T61STRING \<equiv> 0x14"
abbreviation CBS_ASN1_VIDEOTEXSTRING :: u32 where "CBS_ASN1_VIDEOTEXSTRING \<equiv> 0x15"
abbreviation CBS_ASN1_IA5STRING :: u32 where "CBS_ASN1_IA5STRING \<equiv> 0x16"
abbreviation CBS_ASN1_GRAPHICSTRING :: u32 where "CBS_ASN1_GRAPHICSTRING \<equiv> 0x19"
abbreviation CBS_ASN1_VISIBLESTRING :: u32 where "CBS_ASN1_VISIBLESTRING \<equiv> 0x1a"
abbreviation CBS_ASN1_GENERALSTRING :: u32 where "CBS_ASN1_GENERALSTRING \<equiv> 0x1b"
abbreviation CBS_ASN1_UNIVERSALSTRING :: u32 where "CBS_ASN1_UNIVERSALSTRING \<equiv> 0x1c"
abbreviation CBS_ASN1_BMPSTRING :: u32 where "CBS_ASN1_BMPSTRING \<equiv> 0x1e"
abbreviation CBS_ASN1_SEQUENCE :: u32 where "CBS_ASN1_SEQUENCE \<equiv> 0x10 OR CBS_ASN1_CONSTRUCTED"

definition kMaxDepth :: nat where
  "kMaxDepth = 128"

definition is_string_type :: "u32 \<Rightarrow> bool" where
  "is_string_type tag \<longleftrightarrow>
     tag AND NOT CBS_ASN1_CONSTRUCTED \<in>
       {CBS_ASN1_OCTETSTRING, CBS_ASN1_UTF8STRING, CBS_ASN1_NUMERICSTRING, CBS_ASN1_PRINTABLESTRING,
        CBS_ASN1_T61STRING, CBS_ASN1_VIDEOTEXSTRING, CBS_ASN1_IA5STRING, CBS_ASN1_GRAPHICSTRING,
        CBS_ASN1_VISIBLESTRING, CBS_ASN1_GENERALSTRING, CBS_ASN1_UNIVERSALSTRING, CBS_ASN1_BMPSTRING}"

lemma ber_element_iff:
  "CBS_get_any_ber_asn1_element s = (Some e, t) \<longleftrightarrow>
     (\<exists>tag L c ber indefinite. valid_tag tag \<and> length_octets True tag L (length c) ber indefinite \<and>
        s = der_tag tag @ L @ c @ t \<and> e = element_of tag L c ber indefinite)"
  unfolding CBS_get_any_ber_asn1_element_def by (rule element_iff)

lemma der_length_not_Nil [simp]: "der_length n \<noteq> []"
  by (simp add: der_length_def)

lemma length_octets_not_Nil: "length_octets ber_ok tag L n ber i \<Longrightarrow> L \<noteq> []"
  by (auto simp: length_octets_def)

lemma skip_element:
  "CBS_skip (el_header_len (element_of tag L c ber i)) (el_out (element_of tag L c ber i)) = (Some (), c)"
  using CBS_skip_append [of "der_tag tag @ L" "length (der_tag tag @ L)" c] by (simp del: length_append CBS_skip_append)

lemma ber_element_shorter:
  assumes "CBS_get_any_ber_asn1_element s = (Some e, t)"
  shows "length t < length s"
    and "CBS_skip (el_header_len e) (el_out e) = (Some u, c) \<Longrightarrow> length c < length s"
proof -
  from assms obtain tag L d ber i where e: "length_octets True tag L (length d) ber i"
      "s = der_tag tag @ L @ d @ t" "e = element_of tag L d ber i"
    unfolding ber_element_iff by blast
  then show "length t < length s" "CBS_skip (el_header_len e) (el_out e) = (Some u, c) \<Longrightarrow> length c < length s"
    using length_octets_not_Nil by (auto simp: skip_element simp del: element_of_sel)
qed

text \<open>The result is \<^const>\<open>None\<close> for zero and otherwise \<open>*ber_found\<close>.\<close>

function cbs_find_ber :: "u8 list \<Rightarrow> nat \<Rightarrow> bool option" where
  "cbs_find_ber s depth =
     (if depth > kMaxDepth then None
      else if CBS_len s > 0 then
        (case CBS_get_any_ber_asn1_element s of
           (None, _) \<Rightarrow> None
         | (Some e, s') \<Rightarrow>
             if el_ber_found e then Some True
             else if el_tag e AND CBS_ASN1_CONSTRUCTED \<noteq> 0 then
               if is_string_type (el_tag e) then Some True
               else
                 (case CBS_skip (el_header_len e) (el_out e) of
                    (None, _) \<Rightarrow> None
                  | (Some _, contents) \<Rightarrow>
                      (case cbs_find_ber contents (depth + 1) of
                         None \<Rightarrow> None
                       | Some ber_found \<Rightarrow> if ber_found then Some True else cbs_find_ber s' depth))
             else cbs_find_ber s' depth)
      else Some False)"
  by pat_completeness auto
termination
  by (relation "measure (\<lambda>(s, depth). length s)") (auto dest: ber_element_shorter(1) [OF sym] ber_element_shorter(2) [OF sym sym])

declare cbs_find_ber.simps [simp del]

definition cbs_get_eoc :: "u8 list \<Rightarrow> bool \<times> u8 list" where
  "cbs_get_eoc cbs =
     (if CBS_len cbs \<ge> 2 \<and> CBS_data cbs ! 0 = 0 \<and> CBS_data cbs ! 1 = 0
      then (case CBS_skip 2 cbs of (None, s) \<Rightarrow> (False, s) | (Some _, s) \<Rightarrow> (True, s))
      else (False, cbs))"

lemma cbs_get_eoc_eq: "cbs_get_eoc s = (case s of a # b # t \<Rightarrow> if a = 0 \<and> b = 0 then (True, t) else (False, s) | _ \<Rightarrow> (False, s))"
  using CBS_skip_append [of "take 2 s" 2 "drop 2 s"]
  by (auto simp: cbs_get_eoc_def CBS_data_def CBS_len_def split: list.split)

lemma eoc_test_False: "(False, y) = (if b then cbs_get_eoc s else (False, s)) \<Longrightarrow> y = s"
  by (auto simp: cbs_get_eoc_eq split: if_splits list.splits)

text \<open>
  The part of the loop body that chooses \<open>out_contents\<close>: the string tag for the children and the
  depth of the CBB that takes the contents.
\<close>

definition convert_open :: "heap \<Rightarrow> nat \<Rightarrow> u32 \<Rightarrow> u32 \<Rightarrow> cbb \<Rightarrow> (u32 \<times> nat) option \<times> cbb" where
  "convert_open malloc d string_tag tag out =
     (if string_tag \<noteq> 0 then
        if tag AND NOT CBS_ASN1_CONSTRUCTED \<noteq> string_tag then (None, out) else (Some (string_tag, d), out)
      else
        let concatenate = (tag AND CBS_ASN1_CONSTRUCTED \<noteq> 0 \<and> is_string_type tag);
            out_tag = (if concatenate then tag AND NOT CBS_ASN1_CONSTRUCTED else tag);
            child_string_tag = (if concatenate then out_tag else string_tag)
        in case CBB_add_asn1 malloc d out_tag out of
             (False, out) \<Rightarrow> (None, out)
           | (True, out) \<Rightarrow> (Some (child_string_tag, Suc d), out))"

function cbs_convert_ber :: "heap \<Rightarrow> nat \<Rightarrow> u32 \<Rightarrow> bool \<Rightarrow> nat \<Rightarrow> u8 list \<Rightarrow> cbb \<Rightarrow> bool \<times> u8 list \<times> cbb" where
  "cbs_convert_ber malloc d string_tag looking_for_eoc depth s out =
     (if depth > kMaxDepth then (False, s, out)
      else if CBS_len s > 0 then
        (case (if looking_for_eoc then cbs_get_eoc s else (False, s)) of
           (True, s) \<Rightarrow> (True, s, out)
         | (False, s) \<Rightarrow>
        (case CBS_get_any_ber_asn1_element s of
           (None, s1) \<Rightarrow> (False, s1, out)
         | (Some e, s1) \<Rightarrow>
        (case convert_open malloc d string_tag (el_tag e) out of
           (None, out) \<Rightarrow> (False, s1, out)
         | (Some (child_string_tag, d'), out) \<Rightarrow>
        (case (if el_indefinite e
               then cbs_convert_ber malloc d' child_string_tag True (depth + 1) s1 out
               else
                 (case CBS_skip (el_header_len e) (el_out e) of
                    (None, _) \<Rightarrow> (False, s1, out)
                  | (Some _, contents) \<Rightarrow>
                      if el_tag e AND CBS_ASN1_CONSTRUCTED \<noteq> 0 then
                        (case cbs_convert_ber malloc d' child_string_tag False (depth + 1) contents out of
                           (ok, _, out) \<Rightarrow> (ok, s1, out))
                      else
                        (case CBB_add_bytes malloc d' contents out of
                           (ok, out) \<Rightarrow> (ok, s1, out)))) of
           (False, s2, out) \<Rightarrow> (False, s2, out)
         | (True, s2, out) \<Rightarrow>
        (case CBB_flush malloc d out of
           (False, out) \<Rightarrow> (False, s2, out)
         | (True, out) \<Rightarrow>
             if length s2 < length s then cbs_convert_ber malloc d string_tag looking_for_eoc depth s2 out
             else (False, s2, out))))))
      else (\<not> looking_for_eoc, s, out))"
  by pat_completeness auto
termination
  by (relation "measures [\<lambda>(malloc, d, string_tag, looking_for_eoc, depth, s, out). Suc kMaxDepth - depth,
        \<lambda>(malloc, d, string_tag, looking_for_eoc, depth, s, out). length s]") (auto dest!: eoc_test_False)

declare cbs_convert_ber.simps [simp del]


text \<open>Some (out, *out_storage) for success; the second component is \<open>in\<close> as it is left.\<close>

definition CBS_asn1_ber_to_der :: "heap \<Rightarrow> (u8 list \<times> u8 list option) reader" where
  "CBS_asn1_ber_to_der malloc s =
     (case cbs_find_ber s 0 of
        None \<Rightarrow> (None, s)
      | Some conversion_needed \<Rightarrow>
          if \<not> conversion_needed then
            (case CBS_get_any_asn1_element s of
               (None, s') \<Rightarrow> (None, s')
             | (Some e, s') \<Rightarrow> (Some (el_out e, None), s'))
          else
            (case CBB_init malloc (CBS_len s) of
               (False, _) \<Rightarrow> (None, s)
             | (True, cbb) \<Rightarrow>
            (case cbs_convert_ber malloc 0 0 False 0 s cbb of
               (False, s', _) \<Rightarrow> (None, s')
             | (True, s', cbb) \<Rightarrow>
            (case CBB_finish malloc 0 True cbb of
               (None, _) \<Rightarrow> (None, s')
             | (Some (out_storage, out_len), _) \<Rightarrow> (Some (take out_len out_storage, Some out_storage), s')))))"

function implicit_string_loop :: "heap \<Rightarrow> u32 \<Rightarrow> u8 list \<Rightarrow> writer" where
  "implicit_string_loop malloc inner_tag child =
     (if CBS_len child > 0 then
        (case CBS_get_asn1 inner_tag child of
           (None, _) \<Rightarrow> fail_w
         | (Some chunk, child') \<Rightarrow>
             and_then (CBB_add_bytes malloc 0 chunk) (implicit_string_loop malloc inner_tag child'))
      else ok_w)"
  by pat_completeness auto
termination
  by (relation "measure (\<lambda>(malloc, inner_tag, child). length child)")
    (auto dest!: asn1.dec_only [OF sym] simp: der_element_def)

declare implicit_string_loop.simps [simp del]

definition CBS_get_asn1_implicit_string :: "heap \<Rightarrow> u32 \<Rightarrow> u32 \<Rightarrow> (u8 list \<times> u8 list option) reader" where
  "CBS_get_asn1_implicit_string malloc outer_tag inner_tag s =
     (if CBS_peek_asn1_tag s outer_tag then
        bind_r (CBS_get_asn1 outer_tag) (\<lambda>out. ret_r (out, None)) s
      else
        (case CBB_init malloc (CBS_len s) of
           (False, _) \<Rightarrow> (None, s)
         | (True, result) \<Rightarrow>
        (case CBS_get_asn1 (outer_tag OR CBS_ASN1_CONSTRUCTED) s of
           (None, s') \<Rightarrow> (None, s')
         | (Some child, s') \<Rightarrow>
        (case implicit_string_loop malloc inner_tag child result of
           (False, _) \<Rightarrow> (None, s')
         | (True, result) \<Rightarrow>
        (case CBB_finish malloc 0 True result of
           (None, _) \<Rightarrow> (None, s')
         | (Some (data, data_len), _) \<Rightarrow> (Some (take data_len data, Some data), s'))))))"

section \<open>What needs no conversion\<close>

lemma find_ber_Nil [simp]: "depth \<le> kMaxDepth \<Longrightarrow> cbs_find_ber [] depth = Some False"
  by (subst cbs_find_ber.simps) (simp add: CBS_len_def)

lemma ber_element_der:
  "valid_tag tag \<Longrightarrow> length c < 2 ^ 32 \<Longrightarrow> CBS_get_any_ber_asn1_element (der_element tag c @ t) =
     (Some (element_of tag (der_length (length c)) c False False), t)"
  unfolding ber_element_iff der_element_def append_assoc
  using length_octets_der [of tag "der_length (length c)" "length c" False False]
  by (fastforce simp: length_octets_def)

lemma find_ber_element:
  assumes "valid_tag tag" and "length c < 2 ^ 32" and "depth \<le> kMaxDepth"
  shows "cbs_find_ber (der_element tag c @ t) depth =
    (if tag AND CBS_ASN1_CONSTRUCTED \<noteq> 0 then
       if is_string_type tag then Some True
       else (case cbs_find_ber c (depth + 1) of
               None \<Rightarrow> None
             | Some ber_found \<Rightarrow> if ber_found then Some True else cbs_find_ber t depth)
     else cbs_find_ber t depth)"
proof -
  have "0 < CBS_len (der_element tag c @ t)"
    by (simp add: CBS_len_def der_element_def)
  moreover have "\<not> el_ber_found (element_of tag (der_length (length c)) c False False)"
    by (simp add: element_of_def)
  ultimately show ?thesis
    using assms(3) by (subst cbs_find_ber.simps) (simp add: ber_element_der [OF assms(1,2)] skip_element del: element_of_sel(1,3))
qed

section \<open>What the conversion writes\<close>

lemma add_asn1_result:
  assumes "good_malloc malloc" and "rep s w" and "length (snd w) = d" and "CBB_add_asn1 malloc d tag s = (True, s')"
  shows "rep s' (push (append_to w (der_tag tag)) Asn1) \<and> grows s s'"
proof -
  define bits where "bits = (ucast (drop_bit CBS_ASN1_TAG_SHIFT tag) AND 0xe0 :: u8)"
  define num where "num = tag AND CBS_ASN1_TAG_NUMBER_MASK"
  define op1 where "op1 = and_then (CBB_flush malloc d)
      (if num \<ge> 0x1f then and_then (CBB_add_u8 malloc d (bits OR 0x1f)) (add_base128_integer malloc d (ucast num))
       else CBB_add_u8 malloc d (bits OR ucast num))"
  have a: "appends malloc d op1 ([] @ der_tag tag)"
    unfolding op1_def using tag_appends [of malloc d tag]
    by (intro appends_and_then [OF flush.appends_axioms]) (simp only: Let_def bits_def num_def)
  from assms(4) obtain t where t: "op1 s = (True, t)" "cbb_add_child malloc d 1 True t = (True, s')"
    by (auto simp: CBB_add_asn1_def Let_def and_then_True op1_def simp flip: bits_def num_def)
  have "rep t (append_to w (der_tag tag)) \<and> grows s t"
    using appends.appends_sound [OF a assms(1,2) _ t(1)] assms(3) by simp
  with add_child_result [OF assms(1), of t "append_to w (der_tag tag)" d Asn1 s'] t(2) assms(3) show ?thesis
    using grows_trans by simp blast
qed

text \<open>The equation of the conversion, case by case.\<close>

definition convert_contents :: "heap \<Rightarrow> nat \<Rightarrow> u32 \<Rightarrow> nat \<Rightarrow> asn1_element \<Rightarrow> u8 list \<Rightarrow> cbb \<Rightarrow> bool \<times> u8 list \<times> cbb" where
  "convert_contents malloc d' child_string_tag depth e s1 out =
     (if el_indefinite e
      then cbs_convert_ber malloc d' child_string_tag True (depth + 1) s1 out
      else
        (case CBS_skip (el_header_len e) (el_out e) of
           (None, _) \<Rightarrow> (False, s1, out)
         | (Some _, contents) \<Rightarrow>
             if el_tag e AND CBS_ASN1_CONSTRUCTED \<noteq> 0 then
               (case cbs_convert_ber malloc d' child_string_tag False (depth + 1) contents out of
                  (ok, _, out) \<Rightarrow> (ok, s1, out))
             else
               (case CBB_add_bytes malloc d' contents out of
                  (ok, out) \<Rightarrow> (ok, s1, out))))"

lemma convert_deep: "depth > kMaxDepth \<Longrightarrow> cbs_convert_ber malloc d string_tag looking_for_eoc depth s out = (False, s, out)"
  by (subst cbs_convert_ber.simps) simp

lemma convert_Nil:
  "depth \<le> kMaxDepth \<Longrightarrow> cbs_convert_ber malloc d string_tag looking_for_eoc depth [] out = (\<not> looking_for_eoc, [], out)"
  by (subst cbs_convert_ber.simps) (simp add: CBS_len_def)

lemma convert_eoc:
  "depth \<le> kMaxDepth \<Longrightarrow> s \<noteq> [] \<Longrightarrow> (if looking_for_eoc then cbs_get_eoc s else (False, s)) = (True, t) \<Longrightarrow>
    cbs_convert_ber malloc d string_tag looking_for_eoc depth s out = (True, t, out)"
  by (subst cbs_convert_ber.simps) (simp only: CBS_len_def length_greater_0_conv if_True if_False prod.case bool.case simp_thms flip: not_less)

lemma convert_unread:
  "depth \<le> kMaxDepth \<Longrightarrow> s \<noteq> [] \<Longrightarrow> (if looking_for_eoc then cbs_get_eoc s else (False, s)) = (False, s) \<Longrightarrow>
    CBS_get_any_ber_asn1_element s = (None, s1) \<Longrightarrow>
    cbs_convert_ber malloc d string_tag looking_for_eoc depth s out = (False, s1, out)"
  by (subst cbs_convert_ber.simps) (simp only: CBS_len_def length_greater_0_conv if_True if_False prod.case bool.case option.case simp_thms flip: not_less)

lemma convert_not_opened:
  "depth \<le> kMaxDepth \<Longrightarrow> s \<noteq> [] \<Longrightarrow> (if looking_for_eoc then cbs_get_eoc s else (False, s)) = (False, s) \<Longrightarrow>
    CBS_get_any_ber_asn1_element s = (Some e, s1) \<Longrightarrow> convert_open malloc d string_tag (el_tag e) out = (None, out1) \<Longrightarrow>
    cbs_convert_ber malloc d string_tag looking_for_eoc depth s out = (False, s1, out1)"
  by (subst cbs_convert_ber.simps) (simp only: CBS_len_def length_greater_0_conv if_True if_False prod.case bool.case option.case simp_thms flip: not_less)

lemma convert_step:
  "depth \<le> kMaxDepth \<Longrightarrow> s \<noteq> [] \<Longrightarrow> (if looking_for_eoc then cbs_get_eoc s else (False, s)) = (False, s) \<Longrightarrow>
    CBS_get_any_ber_asn1_element s = (Some e, s1) \<Longrightarrow>
    convert_open malloc d string_tag (el_tag e) out = (Some (child, d'), out1) \<Longrightarrow>
    cbs_convert_ber malloc d string_tag looking_for_eoc depth s out =
      (case convert_contents malloc d' child depth e s1 out1 of
         (False, s2, out) \<Rightarrow> (False, s2, out)
       | (True, s2, out) \<Rightarrow>
           (case CBB_flush malloc d out of
              (False, out) \<Rightarrow> (False, s2, out)
            | (True, out) \<Rightarrow>
                if length s2 < length s then cbs_convert_ber malloc d string_tag looking_for_eoc depth s2 out
                else (False, s2, out)))"
  unfolding convert_contents_def
  by (subst cbs_convert_ber.simps) (simp only: CBS_len_def length_greater_0_conv if_True if_False prod.case bool.case option.case simp_thms flip: not_less)

text \<open>What a successful run is: it stops at once, or it reads an element and goes on.\<close>

lemma convert_cases:
  assumes run: "cbs_convert_ber malloc d string_tag looking_for_eoc depth s out = (True, s', out')"
  obtains (stop) "depth \<le> kMaxDepth" "out' = out" "if looking_for_eoc then s = 0 # 0 # s' else s = [] \<and> s' = []"
  | (step) el s1 child d' out1 s2 out2 out3 where "depth \<le> kMaxDepth"
      "CBS_get_any_ber_asn1_element s = (Some el, s1)"
      "convert_open malloc d string_tag (el_tag el) out = (Some (child, d'), out1)"
      "convert_contents malloc d' child depth el s1 out1 = (True, s2, out2)"
      "CBB_flush malloc d out2 = (True, out3)" "length s2 < length s"
      "cbs_convert_ber malloc d string_tag looking_for_eoc depth s2 out3 = (True, s', out')"
proof -
  have k: "depth \<le> kMaxDepth"
    using run convert_deep [of depth] by (cases "depth > kMaxDepth") auto
  consider "s = []" | t where "s \<noteq> []" "(if looking_for_eoc then cbs_get_eoc s else (False, s)) = (True, t)"
    | "s \<noteq> []" "(if looking_for_eoc then cbs_get_eoc s else (False, s)) = (False, s)"
    using eoc_test_False [of _ looking_for_eoc s]
    by (cases "if looking_for_eoc then cbs_get_eoc s else (False, s)") (metis (full_types))
  then show ?thesis
  proof cases
    case 1
    with run k show ?thesis by (intro stop) (simp_all add: convert_Nil)
  next
    case 2
    then have "looking_for_eoc" "s = 0 # 0 # t"
      by (auto simp: cbs_get_eoc_eq split: if_splits list.splits)
    with run convert_eoc [OF k 2] k show ?thesis by (intro stop) simp_all
  next
    case 3
    from run convert_unread [OF k 3] obtain el s1 where el: "CBS_get_any_ber_asn1_element s = (Some el, s1)"
      by (cases "CBS_get_any_ber_asn1_element s"; cases "fst (CBS_get_any_ber_asn1_element s)") auto
    from run convert_not_opened [OF k 3 el] obtain child d' out1 where
      o: "convert_open malloc d string_tag (el_tag el) out = (Some (child, d'), out1)"
      by (cases "convert_open malloc d string_tag (el_tag el) out";
          cases "fst (convert_open malloc d string_tag (el_tag el) out)") auto
    from run [unfolded convert_step [OF k 3 el o]] show ?thesis
      by (auto split: prod.splits bool.splits if_splits intro: step [OF k el o])
  qed
qed

lemma convert_shorter:
  "cbs_convert_ber malloc d string_tag looking_for_eoc depth s out = (True, s', out') \<Longrightarrow> length s' \<le> length s"
proof (induction "length s" arbitrary: s out rule: less_induct)
  case (less s)
  from less(2) less(1) show ?case
    by (cases rule: convert_cases) (auto intro: less_imp_le le_less_trans split: if_splits)
qed

text \<open>The test for progress in the model's loop never fails.\<close>

lemma convert_progress:
  assumes "CBS_get_any_ber_asn1_element s = (Some e, s1)" and "convert_contents malloc d child depth e s1 out1 = (True, s2, out2)"
  shows "length s2 < length s"
proof -
  have "length s2 \<le> length s1"
    using assms(2) by (auto simp: convert_contents_def dest: convert_shorter split: if_splits prod.splits option.splits)
  with ber_element_shorter(1) [OF assms(1)] show ?thesis by simp
qed

lemma length_der_length: "length (der_length n) \<le> 5 \<or> 2 ^ 32 \<le> n"
  using byte_count_le_iff [of n 4] by (auto simp: der_length_def)

section \<open>Implicitly tagged strings\<close>

lemma implicit_loop_appends:
  assumes "valid_tag inner_tag" and "\<forall>c\<in>set chunks. length c < 2 ^ 32" and "appends malloc 0 op1 b"
  shows "appends malloc 0 (and_then op1 (implicit_string_loop malloc inner_tag (concat (map (der_element inner_tag) chunks))))
    (b @ concat chunks)"
  using assms(2,3)
proof (induction chunks arbitrary: op1 b)
  case Nil
  then show ?case
    by (subst implicit_string_loop.simps) (simp add: CBS_len_def and_then_ok)
next
  case (Cons c chunks)
  have "0 < CBS_len (concat (map (der_element inner_tag) (c # chunks)))"
    by (simp add: CBS_len_def der_element_def)
  moreover have "CBS_get_asn1 inner_tag (concat (map (der_element inner_tag) (c # chunks))) =
      (Some c, concat (map (der_element inner_tag) chunks))"
    using Cons.prems assms(1) asn1.dec_enc by simp
  ultimately have "implicit_string_loop malloc inner_tag (concat (map (der_element inner_tag) (c # chunks))) =
      and_then (CBB_add_bytes malloc 0 c) (implicit_string_loop malloc inner_tag (concat (map (der_element inner_tag) chunks)))"
    by (subst implicit_string_loop.simps) simp
  moreover have "appends malloc 0 (and_then op1 (CBB_add_bytes malloc 0 c)) (b @ c)"
    using Cons.prems by (intro appends_and_then add_bytes_appends) simp_all
  from Cons.IH [OF _ this] Cons.prems(1) have
    "appends malloc 0 (and_then op1 (and_then (CBB_add_bytes malloc 0 c)
       (implicit_string_loop malloc inner_tag (concat (map (der_element inner_tag) chunks))))) ((b @ c) @ concat chunks)"
    by (simp add: and_then_assoc)
  ultimately show ?case by simp
qed

lemma constructed_tag:
  assumes "tag AND CBS_ASN1_CONSTRUCTED = 0"
  shows "tag OR CBS_ASN1_CONSTRUCTED \<noteq> tag" and "valid_tag tag \<Longrightarrow> valid_tag (tag OR CBS_ASN1_CONSTRUCTED)"
proof -
  have "(tag OR CBS_ASN1_CONSTRUCTED) AND CBS_ASN1_CONSTRUCTED = CBS_ASN1_CONSTRUCTED"
    by (rule bit_eqI) (auto simp: bit_simps)
  moreover have "CBS_ASN1_CONSTRUCTED \<noteq> 0" by code_simp
  ultimately show "tag OR CBS_ASN1_CONSTRUCTED \<noteq> tag" using assms by metis
  have "(tag OR CBS_ASN1_CONSTRUCTED) AND NOT CBS_ASN1_CONSTRUCTED = tag AND NOT CBS_ASN1_CONSTRUCTED"
    by (rule bit_eqI) (auto simp: bit_simps)
  then show "valid_tag tag \<Longrightarrow> valid_tag (tag OR CBS_ASN1_CONSTRUCTED)"
    by (simp add: valid_tag_def)
qed

lemma peek_element: "valid_tag tag \<Longrightarrow> CBS_peek_asn1_tag (der_element tag c @ t) tag' \<longleftrightarrow> tag = tag'"
  by (simp add: CBS_peek_asn1_tag_def der_element_def element_tag)

text \<open>\<open>CBS_get_asn1_implicit_string\<close> gives the contents of a primitive string as they are and those
  of a string in pieces concatenated, whatever follows the element.\<close>

theorem CBS_get_asn1_implicit_string_concat:
  assumes "good_malloc malloc" and "total_malloc malloc" and "valid_tag outer_tag" and "outer_tag AND CBS_ASN1_CONSTRUCTED = 0"
    and "valid_tag inner_tag" and "length (concat (map (der_element inner_tag) chunks)) < 2 ^ 32" and "length t < 2 ^ 32"
  shows "(length c < 2 ^ 32 \<longrightarrow>
      CBS_get_asn1_implicit_string malloc outer_tag inner_tag (der_element outer_tag c @ t) = (Some (c, None), t)) \<and>
    (\<exists>storage. CBS_get_asn1_implicit_string malloc outer_tag inner_tag
        (der_element (outer_tag OR CBS_ASN1_CONSTRUCTED) (concat (map (der_element inner_tag) chunks)) @ t) =
      (Some (concat chunks, Some storage), t))"
proof (intro conjI impI)
  assume "length c < 2 ^ 32"
  then show "CBS_get_asn1_implicit_string malloc outer_tag inner_tag (der_element outer_tag c @ t) = (Some (c, None), t)"
    using assms(3) asn1.dec_enc [of outer_tag c t]
    by (simp add: CBS_get_asn1_implicit_string_def peek_element bind_r_def)
next
  let ?in = "concat (map (der_element inner_tag) chunks)" and ?outer = "outer_tag OR CBS_ASN1_CONSTRUCTED"
  let ?s = "der_element ?outer ?in @ t"
  note v = constructed_tag [OF assms(4)] assms(3)
  have "length ?s < 17179869184"
    using length_der_tag [of ?outer] length_der_length [of "length ?in"] assms(6,7) by (simp add: der_element_def)
  then have n: "CBS_len ?s < size_mod" and n8: "CBS_len ?s + 8 < size_mod"
    unfolding CBS_len_def by linarith+
  have "OPENSSL_malloc malloc (CBS_len ?s) \<noteq> None"
    using assms(2) n8 by (intro malloc_total) (auto simp: total_malloc_def)
  then obtain cbb where init: "CBB_init malloc (CBS_len ?s) = (True, cbb)"
    by (auto simp: CBB_init_def)
  have r: "rep cbb ([], [])" "can_resize cbb" using rep_init [OF assms(1) init n] by simp_all
  have short: "length c \<le> length ?in" if "c \<in> set chunks" for c
    using that split_list [OF that] by (fastforce simp: der_element_def)
  then have chunks: "\<forall>c\<in>set chunks. length c < 2 ^ 32" using assms(6) by fastforce
  have le: "length (concat chunks) \<le> length ?in"
    by (induction chunks) (simp_all add: der_element_def)
  have "appends malloc 0 (and_then (CBB_flush malloc 0) (implicit_string_loop malloc inner_tag ?in)) ([] @ concat chunks)"
    by (rule implicit_loop_appends [OF assms(5) chunks flush.appends_axioms])
  moreover have "room malloc cbb (built ([], []) + length ([] @ concat chunks))"
    using le assms(2,6) r by (simp add: room_def built_def)
  ultimately obtain s' where "and_then (CBB_flush malloc 0) (implicit_string_loop malloc inner_tag ?in) cbb = (True, s')"
      "rep s' (concat chunks, [])"
    using appends.appends_ok [OF _ assms(1) r(1)] by (fastforce simp: append_to_def)
  moreover have "CBB_flush malloc 0 cbb = (True, cbb)"
    using r(1) by (subst CBB_flush.simps) (simp add: rep_def live_def)
  ultimately have s': "implicit_string_loop malloc inner_tag ?in cbb = (True, s')" "rep s' (concat chunks, [])"
    by (simp_all add: and_then_def)
  from finish_succeeds [OF assms(1) s'(2)] obtain b l u where
    "CBB_finish malloc 0 True s' = (Some (b, l), u)" "take l b = concat chunks" by blast
  with s'(1) init v show "\<exists>storage. CBS_get_asn1_implicit_string malloc outer_tag inner_tag ?s = (Some (concat chunks, Some storage), t)"
    using asn1.dec_enc [of ?outer ?in t] assms(6)
    by (simp add: CBS_get_asn1_implicit_string_def peek_element)
qed

lemma CBS_get_asn1_implicit_string_concat_witness:
  "\<exists>storage. CBS_get_asn1_implicit_string sample_heap (push_bit 24 0x80) CBS_ASN1_OCTETSTRING
      (der_element (push_bit 24 0x80 OR CBS_ASN1_CONSTRUCTED)
        (concat (map (der_element CBS_ASN1_OCTETSTRING) [[0x61], [0x62, 0x63]])) @ [7]) =
    (Some ([0x61, 0x62, 0x63], Some storage), [7])"
proof -
  have c: "valid_tag (push_bit 24 0x80)" "push_bit 24 0x80 AND CBS_ASN1_CONSTRUCTED = 0" "valid_tag CBS_ASN1_OCTETSTRING"
    by code_simp+
  have "length (concat (map (der_element CBS_ASN1_OCTETSTRING) [[0x61], [0x62, 0x63]])) < 2 ^ 32"
    using length_der_tag [of CBS_ASN1_OCTETSTRING] by (simp add: der_element_def der_length_def)
  from CBS_get_asn1_implicit_string_concat [OF good_sample_heap c this, of "[7]" "[]"] show ?thesis by simp
qed

end
