(* ===== verification/Ber_Values.thy ===== *)
theory Ber_Values
  imports Ber
begin

text \<open>
  BER values and their encodings after X.690, written without the code, and what the conversion of
  \<open>Ber\<close> is to make of them: the DER form of a value, in which a string in pieces is one primitive
  element. The theorems say for which encodings \<open>CBS_asn1_ber_to_der\<close> succeeds and what it gives.
\<close>

section \<open>Values and encodings\<close>

text \<open>A primitive element with its contents octets, or a constructed one with the values inside it.\<close>

datatype ber = Primitive u32 "u8 list" | Constructed u32 "ber list"

abbreviation constructed :: "u32 \<Rightarrow> bool" where
  "constructed tag \<equiv> tag AND CBS_ASN1_CONSTRUCTED \<noteq> 0"

text \<open>The tag number and class of a tag, without the bit of the form.\<close>

abbreviation number_of_tag :: "u32 \<Rightarrow> u32" where
  "number_of_tag tag \<equiv> tag AND NOT CBS_ASN1_CONSTRUCTED"

text \<open>
  The definite lengths: the short form, or up to four length bytes after their number, leading zeros
  allowed.
\<close>

definition ber_length :: "u8 list \<Rightarrow> nat \<Rightarrow> bool" where
  "ber_length L n \<longleftrightarrow> n < 128 \<and> L = [word_of_nat n] \<or>
     (\<exists>k\<in>{1..4}. n < 256 ^ k \<and> L = word_of_nat (128 + k) # be_bytes k n)"

text \<open>The encodings of a sequence of values. Tag number 0 of the universal class is not a tag: it is kept
  for the two zero bytes that end a value of indefinite length.\<close>

inductive ber_encoding :: "ber list \<Rightarrow> u8 list \<Rightarrow> bool" where
  no_value: "ber_encoding [] []"
| primitive: "valid_tag tag \<Longrightarrow> \<not> constructed tag \<Longrightarrow> ber_length L (length c) \<Longrightarrow> ber_encoding ts s \<Longrightarrow>
    ber_encoding (Primitive tag c # ts) (der_tag tag @ L @ c @ s)"
| definite: "valid_tag tag \<Longrightarrow> constructed tag \<Longrightarrow> ber_encoding us c \<Longrightarrow> ber_length L (length c) \<Longrightarrow>
    ber_encoding ts s \<Longrightarrow> ber_encoding (Constructed tag us # ts) (der_tag tag @ L @ c @ s)"
| indefinite: "valid_tag tag \<Longrightarrow> constructed tag \<Longrightarrow> ber_encoding us c \<Longrightarrow> ber_encoding ts s \<Longrightarrow>
    ber_encoding (Constructed tag us # ts) (der_tag tag @ [0x80] @ c @ [0, 0] @ s)"

text \<open>
  The universal numbers of the string types that are put together: OCTET STRING and the character
  strings from UTF8String to BMPString.
\<close>

definition string_number :: "u32 \<Rightarrow> bool" where
  "string_number n \<longleftrightarrow> n \<in> {4, 12, 18, 19, 20, 21, 22, 25, 26, 27, 28, 30}"

fun string_bytes :: "ber \<Rightarrow> u8 list" where
  "string_bytes (Primitive tag c) = c"
| "string_bytes (Constructed tag us) = concat (map string_bytes us)"

fun ber_to_der :: "ber \<Rightarrow> u8 list" where
  "ber_to_der (Primitive tag c) = der_element tag c"
| "ber_to_der (Constructed tag us) =
     (if string_number (number_of_tag tag)
      then der_element (number_of_tag tag) (concat (map string_bytes us))
      else der_element tag (concat (map ber_to_der us)))"

text \<open>All the pieces of a string have its own tag.\<close>

fun pieces :: "u32 \<Rightarrow> ber \<Rightarrow> bool" where
  "pieces n (Primitive tag c) \<longleftrightarrow> tag = n"
| "pieces n (Constructed tag us) \<longleftrightarrow> number_of_tag tag = n \<and> list_all (pieces n) us"

fun strings_ok :: "ber \<Rightarrow> bool" where
  "strings_ok (Primitive tag c) \<longleftrightarrow> True"
| "strings_ok (Constructed tag us) \<longleftrightarrow>
     (if string_number (number_of_tag tag) then list_all (pieces (number_of_tag tag)) us
      else list_all strings_ok us)"

text \<open>How deep constructed values are nested.\<close>

fun height :: "ber \<Rightarrow> nat" where
  "height (Primitive tag c) = 0"
| "height (Constructed tag us) = Suc (foldr max (map height us) 0)"

abbreviation heights :: "ber list \<Rightarrow> nat" where
  "heights us \<equiv> foldr max (map height us) 0"

inductive_cases ber_encoding_Nil: "ber_encoding [] s"
inductive_cases ber_encoding_Cons: "ber_encoding (t # ts) s"

section \<open>Reading one element\<close>

lemma ber_length_octets: "ber_length L n \<Longrightarrow> \<exists>b. length_octets True tag L n b False"
  unfolding ber_length_def length_octets_def by blast

lemma read_definite:
  "valid_tag tag \<Longrightarrow> ber_length L (length c) \<Longrightarrow>
    \<exists>b. CBS_get_any_ber_asn1_element (der_tag tag @ L @ c @ s) = (Some (element_of tag L c b False), s)"
  unfolding ber_element_iff using ber_length_octets [of L "length c" tag] by blast

lemma read_indefinite:
  "valid_tag tag \<Longrightarrow> constructed tag \<Longrightarrow>
    CBS_get_any_ber_asn1_element (der_tag tag @ 0x80 # s) = (Some (element_of tag [0x80] [] True True), s)"
  unfolding ber_element_iff by (fastforce simp: length_octets_def)

lemma read_cases:
  assumes "CBS_get_any_ber_asn1_element s = (Some e, t)"
  obtains (definite) tag L c b where "valid_tag tag" "ber_length L (length c)" "s = der_tag tag @ L @ c @ t"
      "e = element_of tag L c b False" "\<not> b \<Longrightarrow> L = der_length (length c)"
  | (indefinite) tag where "valid_tag tag" "constructed tag" "s = der_tag tag @ 0x80 # t"
      "e = element_of tag [0x80] [] True True"
proof -
  from assms obtain tag L c b i where e: "valid_tag tag" "length_octets True tag L (length c) b i"
      and s: "s = der_tag tag @ L @ c @ t" "e = element_of tag L c b i"
    unfolding ber_element_iff by blast
  show ?thesis
  proof (cases i)
    case True
    with e s show ?thesis by (intro indefinite [of tag]) (auto simp: length_octets_def)
  next
    case False
    have "L = der_length (length c)" if "\<not> b"
      using e(2) that False length_octets_der [of tag L "length c" False False] by (auto simp: length_octets_def)
    moreover have "ber_length L (length c)"
      using e(2) False by (auto simp: length_octets_def ber_length_def)
    ultimately show ?thesis using e s False by (intro definite [of tag L c b]) simp_all
  qed
qed

lemma element_sel [simp]: "el_ber_found (element_of tag L c b i) = b" "el_indefinite (element_of tag L c b i) = i"
  by (simp_all add: element_of_def)

text \<open>An element never begins as the end of a value of indefinite length does.\<close>

lemma ber_length_not_Nil: "ber_length L n \<Longrightarrow> L \<noteq> []"
  by (auto simp: ber_length_def)

lemma ber_length_bound: "ber_length L n \<Longrightarrow> n < 2 ^ 32"
proof -
  have "(256 :: nat) ^ k \<le> 256 ^ 4" if "k \<in> {1..4}" for k :: nat
    using that by (intro power_increasing) auto
  then show "ber_length L n \<Longrightarrow> n < 2 ^ 32"
    by (fastforce simp: ber_length_def)
qed

lemma not_valid_tag_0: "\<not> valid_tag (join_tag 0 0)"
  by code_simp

lemma der_tag_not_Nil: "der_tag tag \<noteq> []"
  by (simp add: der_tag_def Let_def)

lemma hd_der_tag: "valid_tag tag \<Longrightarrow> hd (der_tag tag) \<noteq> 0"
proof
  assume v: "valid_tag tag" and "hd (der_tag tag) = 0"
  then obtain r where "der_tag tag = 0 # r"
    by (cases "der_tag tag") (auto simp: der_tag_def Let_def split: if_splits)
  moreover have "fst (parse_asn1_tag (0 # r)) = None"
    by (simp add: parse_asn1_tag_eq bind_r_def not_valid_tag_0)
  ultimately show False
    using element_tag [OF v, of "[]"] by simp
qed

section \<open>A byte string encodes at most one sequence of values\<close>

definition at_end :: "u8 list \<Rightarrow> bool" where
  "at_end x \<longleftrightarrow> x = [] \<or> (\<exists>r. x = 0 # 0 # r)"

lemma not_at_end: "valid_tag tag \<Longrightarrow> \<not> at_end (der_tag tag @ r)"
  using hd_der_tag [of tag] der_tag_not_Nil [of tag] by (cases "der_tag tag") (auto simp: at_end_def)

lemma definite_eq:
  assumes "der_tag tag @ L @ c @ s = der_tag tag' @ L' @ c' @ s'"
    and "valid_tag tag" "valid_tag tag'" "ber_length L (length c)" "ber_length L' (length c')"
  shows "tag = tag' \<and> L = L' \<and> c = c' \<and> s = s'"
proof -
  obtain b b' where "CBS_get_any_ber_asn1_element (der_tag tag @ L @ c @ s) = (Some (element_of tag L c b False), s)"
      "CBS_get_any_ber_asn1_element (der_tag tag' @ L' @ c' @ s') = (Some (element_of tag' L' c' b' False), s')"
    using read_definite assms by metis
  with assms(1) have s: "s = s'" and e: "element_of tag L c b False = element_of tag' L' c' b' False"
    by simp_all
  from arg_cong [OF e, of el_tag] have tag: "tag = tag'" by simp
  with arg_cong [OF e, of el_header_len] have "length L = length L'" by simp
  with assms(1) s tag show ?thesis by simp
qed

lemma definite_indefinite:
  assumes "der_tag tag @ L @ c @ s = der_tag tag' @ 0x80 # s'"
    and "valid_tag tag" "valid_tag tag'" "ber_length L (length c)" "constructed tag'"
  shows False
proof -
  obtain b where "CBS_get_any_ber_asn1_element (der_tag tag @ L @ c @ s) = (Some (element_of tag L c b False), s)"
    using read_definite assms by metis
  with read_indefinite [OF assms(3,5), of s'] assms(1)
  have "element_of tag L c b False = element_of tag' [0x80] [] True True" by simp
  from arg_cong [OF this, of el_indefinite] show False by simp
qed

lemma indefinite_eq:
  assumes "der_tag tag @ 0x80 # s = der_tag tag' @ 0x80 # s'"
    and "valid_tag tag" "valid_tag tag'"
  shows "tag = tag' \<and> s = s'"
  using element_tag [OF assms(2), of "0x80 # s"] element_tag [OF assms(3), of "0x80 # s'"] unfolding assms(1) by simp

lemma ber_encoding_unique_prefix:
  "ber_encoding ts c \<Longrightarrow> ber_encoding us d \<Longrightarrow> c @ x = d @ y \<Longrightarrow> at_end x \<Longrightarrow> at_end y \<Longrightarrow> ts = us \<and> c = d"
proof (induction arbitrary: us d x y rule: ber_encoding.induct)
  case no_value
  from no_value(1) show ?case
    by cases (use no_value(2-) not_at_end in auto)
next
  case (primitive tag L c ts s)
  note p = primitive(1-3) and IH = primitive(5) [OF _ _ primitive(8,9)]
  from primitive(6) show ?case
  proof cases
    case no_value
    with primitive(7,9) not_at_end [OF p(1), of "L @ c @ s @ x"] show ?thesis by simp
  next
    case (primitive tag' L' c' ts' s')
    with definite_eq [of tag L c "s @ x" tag' L' c' "s' @ y"] p(1,3) \<open>_ = d @ y\<close> IH [of ts' s'] show ?thesis by simp
  next
    case (definite tag' us' c' L' ts' s')
    with definite_eq [of tag L c "s @ x" tag' L' c' "s' @ y"] p \<open>_ = d @ y\<close> show ?thesis by simp
  next
    case (indefinite tag' us' c' ts' s')
    with definite_indefinite [of tag L c "s @ x" tag' "c' @ [0, 0] @ s' @ y"] p \<open>_ = d @ y\<close> show ?thesis by simp
  qed
next
  case (definite tag vs c L ts s)
  note p = definite(1,2,4) and IHc = definite(6) [of _ _ "[]" "[]"] and IH = definite(7) [OF _ _ definite(10,11)]
  from definite(8) show ?case
  proof cases
    case no_value
    with definite(9,11) not_at_end [OF p(1), of "L @ c @ s @ x"] show ?thesis by simp
  next
    case (primitive tag' L' c' ts' s')
    with definite_eq [of tag L c "s @ x" tag' L' c' "s' @ y"] p \<open>_ = d @ y\<close> show ?thesis by simp
  next
    case (definite tag' us' c' L' ts' s')
    with definite_eq [of tag L c "s @ x" tag' L' c' "s' @ y"] p \<open>_ = d @ y\<close>
    have e: "tag = tag'" "L = L'" "c = c'" "s @ x = s' @ y" by simp_all
    from IHc [OF definite(5)] IH [OF definite(7) e(4)] e(3) show ?thesis
      by (simp add: e(1,2) definite(1,2) at_end_def)
  next
    case (indefinite tag' us' c' ts' s')
    with definite_indefinite [of tag L c "s @ x" tag' "c' @ [0, 0] @ s' @ y"] p \<open>_ = d @ y\<close> show ?thesis by simp
  qed
next
  case (indefinite tag vs c ts s)
  note p = indefinite(1,2) and IHc = indefinite(5) [of _ _ "[0, 0] @ s @ x"] and IH = indefinite(6) [OF _ _ indefinite(9,10)]
  from indefinite(7) show ?case
  proof cases
    case no_value
    with indefinite(8,10) not_at_end [OF p(1), of "[0x80] @ c @ [0, 0] @ s @ x"] show ?thesis by simp
  next
    case (primitive tag' L' c' ts' s')
    with definite_indefinite [of tag' L' c' "s' @ y" tag "c @ [0, 0] @ s @ x"] p \<open>_ = d @ y\<close> show ?thesis by simp
  next
    case (definite tag' us' c' L' ts' s')
    with definite_indefinite [of tag' L' c' "s' @ y" tag "c @ [0, 0] @ s @ x"] p \<open>_ = d @ y\<close> show ?thesis by simp
  next
    case (indefinite tag' us' c' ts' s')
    with indefinite_eq [of tag "c @ [0, 0] @ s @ x" tag' "c' @ [0, 0] @ s' @ y"] p \<open>_ = d @ y\<close>
    have e: "tag = tag'" "c @ [0, 0] @ s @ x = c' @ [0, 0] @ s' @ y" by simp_all
    from IHc [OF indefinite(5) e(2)] have c: "vs = us'" "c = c'" by (simp_all add: at_end_def)
    with e(2) IH [of ts' s'] indefinite show ?thesis by (simp add: e(1))
  qed
qed

lemma ber_encoding_unique: "ber_encoding ts s \<Longrightarrow> ber_encoding us s \<Longrightarrow> ts = us"
  using ber_encoding_unique_prefix [of ts s us s "[]" "[]"] by (simp add: at_end_def)

section \<open>What is accepted\<close>

lemma string_iff: "string_number (number_of_tag tag) \<longleftrightarrow> is_string_type tag"
  by (simp add: string_number_def is_string_type_def)

lemma find_ber_cases:
  assumes "cbs_find_ber s depth = Some False" and "s \<noteq> []"
  obtains tag c t where "depth \<le> kMaxDepth" "valid_tag tag" "length c < 2 ^ 32" "s = der_element tag c @ t"
    "cbs_find_ber t depth = Some False"
    "constructed tag \<Longrightarrow> \<not> is_string_type tag \<and> cbs_find_ber c (depth + 1) = Some False"
proof -
  have k: "depth \<le> kMaxDepth"
    using assms(1) by (subst (asm) cbs_find_ber.simps) (auto split: if_splits)
  obtain e t where e: "CBS_get_any_ber_asn1_element s = (Some e, t)" "\<not> el_ber_found e"
    using assms by (subst (asm) cbs_find_ber.simps) (auto simp: CBS_len_def split: if_splits prod.splits option.splits)
  from e(1) show ?thesis
  proof (cases rule: read_cases)
    case (definite tag L c b)
    then have s: "s = der_element tag c @ t" and n: "length c < 2 ^ 32"
      using e(2) ber_length_bound by (auto simp: der_element_def)
    show ?thesis
      using assms(1) find_ber_element [OF definite(1) n k, of t] definite(1) n
      by (intro that [OF k definite(1) n s]) (auto simp: s split: if_splits option.splits)
  qed (use e(2) in simp)
qed

lemma ber_length_der: "n < 2 ^ 32 \<Longrightarrow> ber_length (der_length n) n"
  using length_octets_der [of 0 "der_length n" n False False]
  by (auto simp: length_octets_def ber_length_def)

lemma find_ber_sound:
  "cbs_find_ber s depth = Some False \<Longrightarrow>
    \<exists>ts. ber_encoding ts s \<and> s = concat (map ber_to_der ts) \<and> list_all strings_ok ts \<and> depth + heights ts \<le> kMaxDepth"
proof (induction "length s" arbitrary: s depth rule: less_induct)
  case less
  show ?case
  proof (cases "s = []")
    case True
    with less(2) show ?thesis
      by (subst (asm) cbs_find_ber.simps) (auto intro!: exI [of _ "[]"] ber_encoding.no_value split: if_splits)
  next
    case False
    with less(2) obtain tag c t where f: "depth \<le> kMaxDepth" "valid_tag tag" "length c < 2 ^ 32" "s = der_element tag c @ t"
      "cbs_find_ber t depth = Some False"
      "constructed tag \<Longrightarrow> \<not> is_string_type tag \<and> cbs_find_ber c (depth + 1) = Some False"
      by (rule find_ber_cases) blast
    have l: "length t < length s" "length c < length s"
      using der_tag_not_Nil [of tag] by (simp_all add: f(4) der_element_def)
    from less(1) [OF l(1) f(5)] obtain ts where ts: "ber_encoding ts t" "t = concat (map ber_to_der ts)"
        "list_all strings_ok ts" "depth + heights ts \<le> kMaxDepth" by blast
    note L = ber_length_der [OF f(3)]
    show ?thesis
    proof (cases "constructed tag")
      case False
      with ber_encoding.primitive [OF f(2) _ L ts(1)] ts f(1,4) show ?thesis
        by (intro exI [of _ "Primitive tag c # ts"]) (simp add: der_element_def)
    next
      case True
      with f(6) less(1) [OF l(2)] obtain us where us: "ber_encoding us c" "c = concat (map ber_to_der us)"
          "list_all strings_ok us" "depth + 1 + heights us \<le> kMaxDepth" by blast
      with True f(6) ber_encoding.definite [OF f(2) True us(1) L ts(1)] ts f(1,4) show ?thesis
        by (intro exI [of _ "Constructed tag us # ts"]) (simp add: der_element_def string_iff)
    qed
  qed
qed

text \<open>The tag that the pieces of a string must have, or 0 when the element is not part of a string.\<close>

definition child_tag :: "u32 \<Rightarrow> u32 \<Rightarrow> u32" where
  "child_tag n tag =
     (if n \<noteq> 0 then n else if constructed tag \<and> string_number (number_of_tag tag) then number_of_tag tag else 0)"

definition allowed :: "u32 \<Rightarrow> ber \<Rightarrow> bool" where
  "allowed n = (if n \<noteq> 0 then pieces n else strings_ok)"

lemma allowed_Primitive: "allowed n (Primitive tag c) \<longleftrightarrow> (n = 0 \<or> tag = n)"
  by (simp add: allowed_def)

lemma child_tag_0: "valid_tag tag \<Longrightarrow> child_tag 0 tag = 0 \<longleftrightarrow> \<not> (constructed tag \<and> string_number (number_of_tag tag))"
  by (simp add: child_tag_def valid_tag_def)

lemma allowed_Constructed:
  "valid_tag tag \<Longrightarrow> constructed tag \<Longrightarrow>
    allowed n (Constructed tag us) \<longleftrightarrow> (n = 0 \<or> number_of_tag tag = n) \<and> list_all (allowed (child_tag n tag)) us"
  by (auto simp: allowed_def child_tag_def valid_tag_def)

lemma convert_open_tags:
  "convert_open malloc d n tag out = (Some (child, d'), out') \<Longrightarrow> (n = 0 \<or> number_of_tag tag = n) \<and> child = child_tag n tag"
  by (auto simp: convert_open_def child_tag_def string_iff Let_def split: if_splits prod.splits bool.splits)

lemma not_constructed_number: "\<not> constructed tag \<Longrightarrow> number_of_tag tag = tag"
proof -
  have "tag = (tag AND CBS_ASN1_CONSTRUCTED) OR number_of_tag tag"
    by (rule bit_word_eqI) (auto simp: bit_simps)
  then show "\<not> constructed tag \<Longrightarrow> number_of_tag tag = tag" by simp
qed

definition ending :: "bool \<Rightarrow> u8 list \<Rightarrow> u8 list" where
  "ending looking_for_eoc t = (if looking_for_eoc then 0 # 0 # t else [])"

lemma convert_sound:
  "cbs_convert_ber malloc d n looking_for_eoc depth s out = (True, s', out') \<Longrightarrow>
    \<exists>ts c. ber_encoding ts c \<and> s = c @ ending looking_for_eoc s' \<and> (\<not> looking_for_eoc \<longrightarrow> s' = []) \<and>
      list_all (allowed n) ts \<and> depth + heights ts \<le> kMaxDepth"
proof (induction "length s" arbitrary: d n looking_for_eoc depth s out s' out' rule: less_induct)
  case less
  from less(2) show ?case
  proof (cases rule: convert_cases)
    case stop
    then show ?thesis
      by (auto simp: ending_def intro!: exI [of _ "[]"] ber_encoding.no_value split: if_splits)
  next
    case (step el s1 child d' out1 s2 out2 out3)
    note shorter = ber_element_shorter(1) [OF step(2)]
    note o = convert_open_tags [OF step(3)]
    from less(1) [OF step(6,7)] obtain ts c where ts: "ber_encoding ts c" "s2 = c @ ending looking_for_eoc s'"
        "\<not> looking_for_eoc \<longrightarrow> s' = []" "list_all (allowed n) ts" "depth + heights ts \<le> kMaxDepth"
      by blast
    from step(2) show ?thesis
    proof (cases rule: read_cases)
      case (indefinite tag)
      with step(4) have "cbs_convert_ber malloc d' child True (depth + 1) s1 out1 = (True, s2, out2)"
        by (simp add: convert_contents_def)
      from less(1) [OF shorter this] obtain us b where us: "ber_encoding us b" "s1 = b @ [0, 0] @ s2"
          "list_all (allowed child) us" "depth + 1 + heights us \<le> kMaxDepth"
        by (auto simp: ending_def)
      with ber_encoding.indefinite [OF indefinite(1,2) us(1) ts(1)] o ts indefinite step(1) show ?thesis
        by (intro exI [of _ "Constructed tag us # ts"] exI [of _ "der_tag tag @ [0x80] @ b @ [0, 0] @ c"])
          (simp add: allowed_Constructed)
    next
      case (definite tag L b x)
      show ?thesis
      proof (cases "constructed tag")
        case True
        with step(4) obtain r where r: "cbs_convert_ber malloc d' child False (depth + 1) b out1 = (True, r, out2)" "s2 = s1"
          by (auto simp: convert_contents_def definite(4) skip_element simp del: element_of_sel(1,3) split: prod.splits)
        have "length b < length s" using definite(3) der_tag_not_Nil [of tag] by simp
        from less(1) [OF this r(1)] obtain us where us: "ber_encoding us b"
          "list_all (allowed child) us" "depth + 1 + heights us \<le> kMaxDepth"
        by (auto simp: ending_def)
      with ber_encoding.definite [OF definite(1) True us(1) definite(2) ts(1)] o ts definite step(1) True r(2) show ?thesis
        by (intro exI [of _ "Constructed tag us # ts"] exI [of _ "der_tag tag @ L @ b @ c"])
          (simp add: allowed_Constructed)
      next
        case False
        with step(4) have "s2 = s1"
          by (auto simp: convert_contents_def definite(4) skip_element simp del: element_of_sel(1,3) split: prod.splits)
        with ber_encoding.primitive [OF definite(1) _ definite(2) ts(1)] False o ts definite step(1) show ?thesis
        by (intro exI [of _ "Primitive tag b # ts"] exI [of _ "der_tag tag @ L @ b @ c"])
          (auto simp: allowed_Primitive not_constructed_number)
      qed
    qed
  qed
qed

section \<open>What is written\<close>

definition written :: "u32 \<Rightarrow> ber list \<Rightarrow> u8 list" where
  "written n ts = concat (map (if n = 0 then ber_to_der else string_bytes) ts)"

definition wrapped :: "u32 \<Rightarrow> u32 \<Rightarrow> u8 list \<Rightarrow> u8 list" where
  "wrapped n tag c = (if n \<noteq> 0 then c else der_element (if child_tag n tag \<noteq> 0 then child_tag n tag else tag) c)"

lemma written_Nil [simp]: "written n [] = []"
  by (simp add: written_def)

lemma written_Primitive:
  "valid_tag tag \<Longrightarrow> \<not> constructed tag \<Longrightarrow> written n (Primitive tag c # ts) = wrapped n tag c @ written n ts"
  by (simp add: written_def wrapped_def child_tag_def)

lemma written_Constructed:
  "valid_tag tag \<Longrightarrow> constructed tag \<Longrightarrow>
    written n (Constructed tag us # ts) = wrapped n tag (written (child_tag n tag) us) @ written n ts"
  by (auto simp: written_def wrapped_def child_tag_def valid_tag_def)

lemma der_tag_pos: "1 \<le> length (der_tag tag)"
  using der_tag_not_Nil [of tag] by (cases "der_tag tag") simp_all

lemma length_string_tag: "string_number n \<Longrightarrow> length (der_tag n) = 1"
  unfolding string_number_def by (elim insertE emptyE; simp only:; code_simp)

lemma length_wrapped: "length c < 2 ^ 32 \<Longrightarrow> length (wrapped n tag c) \<le> length (der_tag tag) + 5 + length c"
  using length_der_length [of "length c"] length_string_tag [of "child_tag 0 tag"] der_tag_pos [of tag]
  by (auto simp: wrapped_def der_element_def child_tag_def)

lemma length_wrapped_le:
  assumes "length c' \<le> 3 * length c" and "3 * length c < 2 ^ 32" and "L \<noteq> []" and "length s' \<le> 3 * length s"
  shows "length (wrapped n tag c' @ s') \<le> 3 * length (der_tag tag @ L @ c @ s)"
proof -
  have "length (wrapped n tag c') \<le> length (der_tag tag) + 5 + length c'"
    using assms(1,2) by (intro length_wrapped) simp
  moreover have "1 \<le> length L" using assms(3) by (cases L) simp_all
  ultimately show ?thesis
    using der_tag_pos [of tag] assms(1,4) by simp
qed

lemma length_written: "ber_encoding ts s \<Longrightarrow> 3 * length s < 2 ^ 32 \<Longrightarrow> length (written n ts) \<le> 3 * length s"
proof (induction arbitrary: n rule: ber_encoding.induct)
  case (primitive tag L c ts s)
  then show ?case
    unfolding written_Primitive [OF primitive(1,2)] by (intro length_wrapped_le ber_length_not_Nil [OF primitive(3)]) simp_all
next
  case (definite tag us c L ts s)
  then show ?case
    unfolding written_Constructed [OF definite(1,2)] by (intro length_wrapped_le ber_length_not_Nil [OF definite(4)]) simp_all
next
  case (indefinite tag us c ts s)
  have "length (wrapped n tag (written (child_tag n tag) us) @ written n ts) \<le> 3 * length (der_tag tag @ [0x80] @ c @ s)"
    using indefinite by (intro length_wrapped_le) simp_all
  then show ?case
    unfolding written_Constructed [OF indefinite(1,2)] by simp
qed simp

text \<open>The element is opened, its contents are written at the depth that was chosen and the flush closes it.\<close>

lemma add_asn1_opens:
  assumes g: "good_malloc malloc" and r: "rep s w" and d: "length (snd w) = d" and n: "length c < 2 ^ 32 - 1"
    and rm: "room malloc s (built w + length (der_element tag c))"
  shows "\<exists>s1 w1. CBB_add_asn1 malloc d tag s = (True, s1) \<and> rep s1 w1 \<and> length (snd w1) = Suc d \<and> grows s s1 \<and>
    room malloc s1 (built w1 + length c) \<and>
    (\<forall>s2. rep s2 (append_to w1 c) \<and> grows s1 s2 \<longrightarrow>
       (\<exists>s3. CBB_flush malloc d s2 = (True, s3) \<and> rep s3 (append_to w (der_element tag c)) \<and> grows s2 s3))"
proof -
  let ?w1 = "push (append_to w (der_tag tag)) Asn1"
  have "appends malloc d (and_then (CBB_add_asn1 malloc d tag) (and_then (CBB_add_bytes malloc (Suc d) c) (CBB_flush malloc d)))
      (der_element tag c)"
    using n by (intro appends_element add_bytes_appends) simp_all
  from appends.appends_ok [OF this g r d rm] obtain s1 where s1: "CBB_add_asn1 malloc d tag s = (True, s1)"
    by (auto simp: and_then_True)
  from add_asn1_result [OF g r d s1] have r1: "rep s1 ?w1" "grows s s1" by simp_all
  have rm1: "room malloc s1 (built w + length (der_element tag c))"
    using rm room_grows [OF r1(2)] by simp
  have flush: "\<exists>s3. CBB_flush malloc d s2 = (True, s3) \<and> rep s3 (append_to w (der_element tag c)) \<and> grows s2 s3"
    if s2: "rep s2 (append_to ?w1 c)" "grows s1 s2" for s2
  proof -
    have cl: "close_to d (append_to ?w1 c) = Some (append_to w (der_element tag c))"
      using close_to_pushed [of "append_to w (der_tag tag)" d Asn1 c] d n by (simp add: der_element_def)
    have "fst (CBB_flush malloc d s2)"
      by (rule flush.appends_complete [OF g s2(1) _ cl]) (use rm1 room_grows [OF s2(2)] d in simp_all)
    then obtain s3 where s3: "CBB_flush malloc d s2 = (True, s3)" by (auto simp: fst_True)
    from flush.appends_sound [OF g s2(1) _ s3] d cl s3 show ?thesis by auto
  qed
  have "built ?w1 + length c \<le> built w + length (der_element tag c)"
    by (simp add: der_element_def) (use der_length_not_Nil [of "length c"] in \<open>cases "der_length (length c)"; simp\<close>)
  with rm1 have "room malloc s1 (built ?w1 + length c)" by (rule room_le)
  with s1 r1 flush d show ?thesis by (intro exI [of _ s1] exI [of _ ?w1]) auto
qed

lemma convert_opens:
  assumes "good_malloc malloc" and "rep s w" and "length (snd w) = d" and "length c < 2 ^ 32 - 1"
    and "room malloc s (built w + length (wrapped n tag c))" and "n = 0 \<or> number_of_tag tag = n" and "valid_tag tag"
  shows "\<exists>d' s1 w1. convert_open malloc d n tag s = (Some (child_tag n tag, d'), s1) \<and> rep s1 w1 \<and> length (snd w1) = d' \<and>
    grows s s1 \<and> room malloc s1 (built w1 + length c) \<and>
    (\<forall>s2. rep s2 (append_to w1 c) \<and> grows s1 s2 \<longrightarrow>
       (\<exists>s3. CBB_flush malloc d s2 = (True, s3) \<and> rep s3 (append_to w (wrapped n tag c)) \<and> grows s2 s3))"
proof (cases "n = 0")
  case True
  let ?t = "if child_tag 0 tag \<noteq> 0 then child_tag 0 tag else tag"
  from add_asn1_opens [OF assms(1-4), of ?t] assms(5) True obtain s1 w1 where
    o: "CBB_add_asn1 malloc d ?t s = (True, s1)" and r: "rep s1 w1 \<and> length (snd w1) = Suc d \<and> grows s s1 \<and>
      room malloc s1 (built w1 + length c) \<and>
      (\<forall>s2. rep s2 (append_to w1 c) \<and> grows s1 s2 \<longrightarrow>
         (\<exists>s3. CBB_flush malloc d s2 = (True, s3) \<and> rep s3 (append_to w (der_element ?t c)) \<and> grows s2 s3))"
    unfolding wrapped_def by (simp only: if_True if_False simp_thms refl) blast
  have "convert_open malloc d n tag s = (Some (child_tag n tag, Suc d), s1)"
    using o assms(7) by (auto simp: True convert_open_def child_tag_def string_iff valid_tag_def Let_def split: if_splits)
  with r show ?thesis
    unfolding wrapped_def True by (simp only: if_True if_False simp_thms refl) blast
next
  case False
  have "\<exists>s3. CBB_flush malloc d s2 = (True, s3) \<and> rep s3 (append_to w c) \<and> grows s2 s3"
    if s2: "rep s2 (append_to w c)" "grows s s2" for s2
  proof -
    have c: "close_to d (append_to w c) = Some (append_to w c)"
      using assms(3) by simp
    have "fst (CBB_flush malloc d s2)"
      by (rule flush.appends_complete [OF assms(1) s2(1) _ c]) (use assms(3,5) False room_grows [OF s2(2)] in \<open>simp_all add: wrapped_def\<close>)
    then obtain s3 where s3: "CBB_flush malloc d s2 = (True, s3)" by (auto simp: fst_True)
    from flush.appends_sound [OF assms(1) s2(1) _ s3] assms(3) s3 show ?thesis by auto
  qed
  with False assms show ?thesis
    by (intro exI [of _ d] exI [of _ s] exI [of _ w]) (auto simp: convert_open_def child_tag_def wrapped_def grows_refl rep_def)
qed

text \<open>On a CBB at depth \<open>d\<close> with nothing pending inside it and room for them, \<open>op_w\<close> appends the bytes \<open>b\<close>
  and leaves the input \<open>t\<close>.\<close>

definition puts :: "heap \<Rightarrow> nat \<Rightarrow> (cbb \<Rightarrow> bool \<times> u8 list \<times> cbb) \<Rightarrow> u8 list \<Rightarrow> u8 list \<Rightarrow> bool" where
  "puts malloc d op_w b t \<longleftrightarrow>
     (\<forall>s w. rep s w \<and> length (snd w) = d \<and> room malloc s (built w + length b) \<longrightarrow>
        (\<exists>s'. op_w s = (True, t, s') \<and> rep s' (append_to w b) \<and> grows s s'))"

lemma no_eoc: "valid_tag tag \<Longrightarrow> (if looking_for_eoc then cbs_get_eoc (der_tag tag @ r) else (False, der_tag tag @ r)) = (False, der_tag tag @ r)"
  using hd_der_tag [of tag] der_tag_not_Nil [of tag] by (cases "der_tag tag") (auto simp: cbs_get_eoc_eq split: list.splits)

lemma convert_element:
  assumes g: "good_malloc malloc" and k: "depth \<le> kMaxDepth" and v: "valid_tag tag" and n: "n = 0 \<or> number_of_tag tag = n"
    and el: "CBS_get_any_ber_asn1_element (der_tag tag @ r) = (Some e, s1)" "el_tag e = tag"
    and l: "length s2 \<le> length s1" "length c < 2 ^ 32 - 1"
    and contents: "\<And>d'. puts malloc d' (convert_contents malloc d' (child_tag n tag) depth e s1) c s2"
    and rest: "puts malloc d (cbs_convert_ber malloc d n eoc depth s2) b t"
  shows "puts malloc d (cbs_convert_ber malloc d n eoc depth (der_tag tag @ r)) (wrapped n tag c @ b) t"
  unfolding puts_def
proof (intro allI impI)
  fix s w
  assume "rep s w \<and> length (snd w) = d \<and> room malloc s (built w + length (wrapped n tag c @ b))"
  then have r: "rep s w" "length (snd w) = d" and rm: "room malloc s (built w + length (wrapped n tag c) + length b)"
    by (simp_all add: add.assoc)
  have "room malloc s (built w + length (wrapped n tag c))" by (rule room_le [OF rm]) simp
  from convert_opens [OF g r l(2) this n v] obtain d' s1' w1 where
    o: "convert_open malloc d n tag s = (Some (child_tag n tag, d'), s1')" and r1: "rep s1' w1" "length (snd w1) = d'"
      "grows s s1'" "room malloc s1' (built w1 + length c)"
    and close: "\<And>s2. rep s2 (append_to w1 c) \<Longrightarrow> grows s1' s2 \<Longrightarrow>
       \<exists>s3. CBB_flush malloc d s2 = (True, s3) \<and> rep s3 (append_to w (wrapped n tag c)) \<and> grows s2 s3"
    by blast
  from contents r1 obtain s2' where c: "convert_contents malloc d' (child_tag n tag) depth e s1 s1' = (True, s2, s2')"
      "rep s2' (append_to w1 c)" "grows s1' s2'"
    unfolding puts_def by blast
  from close [OF c(2,3)] obtain s3 where f: "CBB_flush malloc d s2' = (True, s3)"
      "rep s3 (append_to w (wrapped n tag c))" "grows s2' s3" by blast
  have gr: "grows s s3" using r1(3) c(3) f(3) grows_trans by blast
  have "length (snd (append_to w (wrapped n tag c))) = d" "room malloc s3 (built (append_to w (wrapped n tag c)) + length b)"
    using r(2) rm room_grows [OF gr] by simp_all
  with rest f(2) obtain s4 where "cbs_convert_ber malloc d n eoc depth s2 s3 = (True, t, s4)"
      "rep s4 (append_to (append_to w (wrapped n tag c)) b)" "grows s3 s4"
    unfolding puts_def by blast
  moreover have "length s2 < length (der_tag tag @ r)"
    using ber_element_shorter(1) [OF el(1)] l(1) by simp
  ultimately show "\<exists>s'. cbs_convert_ber malloc d n eoc depth (der_tag tag @ r) s = (True, t, s') \<and>
      rep s' (append_to w (wrapped n tag c @ b)) \<and> grows s s'"
    using convert_step [OF k _ no_eoc [OF v] el(1), of malloc d n s "child_tag n tag" d' s1' eoc] o el(2) c(1) f(1)
      der_tag_not_Nil [of tag] grows_trans [OF gr] by simp
qed

lemma puts_nothing:
  assumes "depth \<le> kMaxDepth" and "\<not> eoc \<longrightarrow> t = []"
  shows "puts malloc d (cbs_convert_ber malloc d n eoc depth (ending eoc t)) [] t"
proof -
  have "cbs_convert_ber malloc d n eoc depth (ending eoc t) s = (True, t, s)" for s
    using assms convert_Nil [OF assms(1), of malloc d n eoc s]
      convert_eoc [OF assms(1), of "0 # 0 # t" eoc t malloc d n s]
    by (auto simp: ending_def cbs_get_eoc_eq)
  then show ?thesis
    by (auto simp: puts_def grows_refl rep_def)
qed

lemma puts_contents:
  "\<not> constructed tag \<Longrightarrow> good_malloc malloc \<Longrightarrow> length c < size_mod \<Longrightarrow>
    puts malloc d (convert_contents malloc d child depth (element_of tag L c b False) s1) c s1"
  unfolding puts_def
proof (intro allI impI, elim conjE)
  fix s w
  assume p: "\<not> constructed tag" "good_malloc malloc" "length c < size_mod" "rep s w" "length (snd w) = d"
    "room malloc s (built w + length c)"
  note a = add_bytes_appends [OF p(3), of malloc d]
  from appends.appends_ok [OF a p(2,4-6)] obtain s' where s': "CBB_add_bytes malloc d c s = (True, s')"
    "rep s' (append_to w c)" by blast
  moreover have "grows s s'"
    using appends.appends_sound [OF a p(2,4) _ s'(1)] p(5) by simp
  ultimately show "\<exists>s'. convert_contents malloc d child depth (element_of tag L c b False) s1 s = (True, s1, s') \<and>
      rep s' (append_to w c) \<and> grows s s'"
    using p(1) by (simp add: convert_contents_def skip_element del: element_of_sel(1,3))
qed

lemma convert_complete:
  "ber_encoding ts c \<Longrightarrow> good_malloc malloc \<Longrightarrow> 3 * length c < 2 ^ 32 - 1 \<Longrightarrow> list_all (allowed n) ts \<Longrightarrow>
    depth + heights ts \<le> kMaxDepth \<Longrightarrow> \<not> eoc \<longrightarrow> t = [] \<Longrightarrow>
    puts malloc d (cbs_convert_ber malloc d n eoc depth (c @ ending eoc t)) (written n ts) t"
proof (induction arbitrary: d n eoc depth t rule: ber_encoding.induct)
  case no_value
  then show ?case using puts_nothing [of depth eoc t] by simp
next
  case (primitive tag L c ts s)
  obtain b where el: "CBS_get_any_ber_asn1_element (der_tag tag @ L @ c @ s @ ending eoc t) =
      (Some (element_of tag L c b False), s @ ending eoc t)"
    using read_definite [OF primitive(1,3)] by blast
  have "n = 0 \<or> number_of_tag tag = n"
    using primitive(8) not_constructed_number [OF primitive(2)] by (simp add: allowed_Primitive)
  from convert_element [OF primitive(6) _ primitive(1) this el _ _ _ puts_contents primitive(5)] primitive show ?case
    by (simp add: written_Primitive)
next
  case (definite tag us c L ts s)
  obtain b where el: "CBS_get_any_ber_asn1_element (der_tag tag @ L @ c @ s @ ending eoc t) =
      (Some (element_of tag L c b False), s @ ending eoc t)"
    using read_definite [OF definite(1,4)] by blast
  have n: "n = 0 \<or> number_of_tag tag = n" and al: "list_all (allowed (child_tag n tag)) us" "list_all (allowed n) ts"
    using definite by (simp_all add: allowed_Constructed)
  have "puts malloc d' (cbs_convert_ber malloc d' (child_tag n tag) False (depth + 1) c) (written (child_tag n tag) us) []" for d'
    using definite(6) [OF definite(8) _ al(1), of "depth + 1" False "[]" d'] definite(9,11) by (simp add: ending_def)
  then have "puts malloc d' (convert_contents malloc d' (child_tag n tag) depth (element_of tag L c b False) (s @ ending eoc t))
      (written (child_tag n tag) us) (s @ ending eoc t)" for d'
    using definite(2) unfolding puts_def convert_contents_def
    by (fastforce simp: skip_element simp del: element_of_sel(1,3))
  moreover have "length (written (child_tag n tag) us) < 2 ^ 32 - 1"
    using length_written [OF definite(3), of "child_tag n tag"] definite(9) by simp
  ultimately have "puts malloc d (cbs_convert_ber malloc d n eoc depth (der_tag tag @ L @ c @ s @ ending eoc t))
      (wrapped n tag (written (child_tag n tag) us) @ written n ts) t"
    using definite al(2) by (intro convert_element [where ?s2.0 = "s @ ending eoc t", OF definite(8) _ definite(1) n el] definite(7)) simp_all
  then show ?case
    by (simp add: written_Constructed [OF definite(1,2)])
next
  case (indefinite tag us c ts s)
  note el = read_indefinite [OF indefinite(1,2), of "c @ [0, 0] @ s @ ending eoc t"]
  have n: "n = 0 \<or> number_of_tag tag = n" and al: "list_all (allowed (child_tag n tag)) us" "list_all (allowed n) ts"
    using indefinite by (simp_all add: allowed_Constructed)
  have "puts malloc d' (cbs_convert_ber malloc d' (child_tag n tag) True (depth + 1) (c @ [0, 0] @ s @ ending eoc t))
      (written (child_tag n tag) us) (s @ ending eoc t)" for d'
    using indefinite(5) [OF indefinite(7) _ al(1), of "depth + 1" True "s @ ending eoc t" d'] indefinite(8,10)
    by (simp add: ending_def)
  then have "puts malloc d' (convert_contents malloc d' (child_tag n tag) depth (element_of tag [0x80] [] True True)
      (c @ [0, 0] @ s @ ending eoc t)) (written (child_tag n tag) us) (s @ ending eoc t)" for d'
    unfolding puts_def convert_contents_def by simp
  moreover have "length (written (child_tag n tag) us) < 2 ^ 32 - 1"
    using length_written [OF indefinite(3), of "child_tag n tag"] indefinite(8) by simp
  ultimately have "puts malloc d (cbs_convert_ber malloc d n eoc depth (der_tag tag @ 0x80 # c @ [0, 0] @ s @ ending eoc t))
      (wrapped n tag (written (child_tag n tag) us) @ written n ts) t"
    using indefinite al(2)
    by (intro convert_element [where ?s2.0 = "s @ ending eoc t", OF indefinite(7) _ indefinite(1) n el] indefinite(6)) simp_all
  then show ?case
    by (simp add: written_Constructed [OF indefinite(1,2)])
qed

section \<open>The conversion as a whole\<close>

lemma find_ber_complete:
  "ber_encoding ts s \<Longrightarrow> depth + heights ts \<le> kMaxDepth \<Longrightarrow> cbs_find_ber s depth \<noteq> None"
proof (induction arbitrary: depth rule: ber_encoding.induct)
  case (primitive tag L c ts s)
  obtain b where "CBS_get_any_ber_asn1_element (der_tag tag @ L @ c @ s) = (Some (element_of tag L c b False), s)"
    using read_definite [OF primitive(1,3)] by blast
  with primitive(2,6) primitive(5) [of depth] show ?case
    by (subst cbs_find_ber.simps) (auto simp: der_tag_not_Nil CBS_len_def)
next
  case (definite tag us c L ts s)
  obtain b where "CBS_get_any_ber_asn1_element (der_tag tag @ L @ c @ s) = (Some (element_of tag L c b False), s)"
    using read_definite [OF definite(1,4)] by blast
  moreover have "depth + 1 + heights us \<le> kMaxDepth" "depth + heights ts \<le> kMaxDepth"
    using definite(8) by simp_all
  ultimately show ?case
    using definite(2) definite(6) [of "depth + 1"] definite(7) [of depth]
    by (subst cbs_find_ber.simps) (auto simp: der_tag_not_Nil CBS_len_def skip_element simp del: element_of_sel(1,3) split: option.splits)
next
  case (indefinite tag us c ts s)
  with read_indefinite [of tag "c @ [0, 0] @ s"] show ?case
    by (subst cbs_find_ber.simps) (simp add: der_tag_not_Nil CBS_len_def)
qed (simp add: kMaxDepth_def)

lemma find_ber_written_Constructed:
  assumes v: "valid_tag tag" "constructed tag" and ok: "strings_ok (Constructed tag us)" and n: "length (written (child_tag 0 tag) us) < 2 ^ 32"
    and k: "depth \<le> kMaxDepth"
    and us: "list_all strings_ok us \<Longrightarrow> cbs_find_ber (written 0 us) (depth + 1) = Some False"
    and ts: "cbs_find_ber (written 0 ts) depth = Some False"
  shows "cbs_find_ber (written 0 (Constructed tag us # ts)) depth = Some False"
proof (cases "string_number (number_of_tag tag)")
  case True
  let ?n = "number_of_tag tag"
  have c: "child_tag 0 tag = ?n" "?n \<noteq> 0" "valid_tag ?n" "\<not> constructed ?n"
    using v True by (simp_all add: child_tag_def valid_tag_def and.assoc)
  with find_ber_element [of ?n "written ?n us" depth "written 0 ts"] n k ts show ?thesis
    by (simp add: written_Constructed [OF v] wrapped_def)
next
  case False
  then have c: "child_tag 0 tag = 0" by (simp add: child_tag_def)
  with find_ber_element [of tag "written 0 us" depth "written 0 ts"] n k ts us v ok False show ?thesis
    by (simp add: written_Constructed [OF v] wrapped_def string_iff)
qed

lemma find_ber_written:
  "ber_encoding ts s \<Longrightarrow> list_all strings_ok ts \<Longrightarrow> depth + heights ts \<le> kMaxDepth \<Longrightarrow> 3 * length s < 2 ^ 32 \<Longrightarrow>
    cbs_find_ber (written 0 ts) depth = Some False"
proof (induction arbitrary: depth rule: ber_encoding.induct)
  case (primitive tag L c ts s)
  with find_ber_element [of tag c depth "written 0 ts"] show ?case
    by (simp add: written_Primitive wrapped_def child_tag_def)
next
  case (definite tag us c L ts s)
  show ?case
    by (rule find_ber_written_Constructed [OF definite(1,2)])
      (use definite length_written [OF definite(3), of "child_tag 0 tag"] in \<open>simp_all del: strings_ok.simps\<close>)
next
  case (indefinite tag us c ts s)
  show ?case
    by (rule find_ber_written_Constructed [OF indefinite(1,2)])
      (use indefinite length_written [OF indefinite(3), of "child_tag 0 tag"] in \<open>simp_all del: strings_ok.simps\<close>)
qed simp

lemma ber_to_der_element:
  assumes "ber_encoding (t # ts) s" and "3 * length s < 2 ^ 32"
  obtains tag c where "ber_to_der t = der_element tag c" "valid_tag tag" "length c < 2 ^ 32"
proof -
  note found = that
  have inner: thesis if "t = Constructed tag us" "valid_tag tag" "constructed tag" "ber_encoding us c" "length c < length s" for tag us c
  proof -
    let ?tag = "if child_tag 0 tag \<noteq> 0 then child_tag 0 tag else tag"
    have "length (written (child_tag 0 tag) us) < 2 ^ 32"
      using length_written [OF that(4), of "child_tag 0 tag"] that(5) assms(2) by simp
    moreover have "valid_tag ?tag"
      using that(2) by (simp add: child_tag_def valid_tag_def and.assoc)
    moreover have "ber_to_der t = der_element ?tag (written (child_tag 0 tag) us)"
      using written_Constructed [OF that(2,3), of 0 us "[]"] by (simp add: that(1) written_def wrapped_def)
    ultimately show thesis using found by blast
  qed
  from assms(1) show ?thesis
  proof cases
    case (primitive tag L c s')
    with found [of tag c] ber_length_bound show ?thesis by simp
  next
    case (definite tag us c L s')
    then show ?thesis using der_tag_not_Nil [of tag] by (intro inner [of tag us c]) simp_all
  next
    case (indefinite tag us c s')
    then show ?thesis by (intro inner [of tag us c]) simp_all
  qed
qed

text \<open>The values that are converted.\<close>

definition convertible :: "ber \<Rightarrow> bool" where
  "convertible t \<longleftrightarrow> height t \<le> 128 \<and> strings_ok t"

lemma heights_le: "heights ts \<le> k \<longleftrightarrow> (\<forall>t\<in>set ts. height t \<le> k)"
  by (induction ts) auto

lemma convertible_iff:
  "(\<forall>t\<in>set ts. convertible t) \<longleftrightarrow> 0 + heights ts \<le> kMaxDepth \<and> list_all (allowed 0) ts"
  by (auto simp: convertible_def heights_le kMaxDepth_def allowed_def list_all_iff)

lemma written_0: "written 0 ts = concat (map ber_to_der ts)"
  by (simp add: written_def)

lemma ber_to_der_result:
  assumes g: "good_malloc malloc" and total: "total_malloc malloc"
    and e: "ber_encoding (t # ts) s" and n: "length s < 2 ^ 30" and ok: "\<forall>u\<in>set (t # ts). convertible u"
  shows "if s = concat (map ber_to_der (t # ts))
    then CBS_asn1_ber_to_der malloc s = (Some (ber_to_der t, None), concat (map ber_to_der ts))
    else \<exists>storage. CBS_asn1_ber_to_der malloc s = (Some (concat (map ber_to_der (t # ts)), Some storage), [])"
proof -
  let ?w = "written 0 (t # ts)"
  from ok have k: "0 + heights (t # ts) \<le> kMaxDepth" "list_all (allowed 0) (t # ts)" "list_all strings_ok (t # ts)"
    unfolding convertible_iff by (simp_all add: allowed_def)
  have f: "cbs_find_ber ?w 0 = Some False"
    using find_ber_written [OF e k(3,1)] n by simp
  consider "cbs_find_ber s 0 = Some False" "s = ?w" | "cbs_find_ber s 0 = Some True" "s \<noteq> ?w"
  proof (cases "cbs_find_ber s 0")
    case (Some b)
    show ?thesis
    proof (cases b)
      case True
      with Some f that(2) show ?thesis by (cases "s = ?w") simp_all
    next
      case False
      with Some find_ber_sound [of s 0] obtain us where "ber_encoding us s" "s = written 0 us"
        by (auto simp: written_0)
      with ber_encoding_unique [OF e] have "s = ?w" by simp
      with Some False that(1) show ?thesis by simp
    qed
  qed (use find_ber_complete [OF e k(1)] in simp)
  then show ?thesis
  proof cases
    case 1
    obtain tag c where d: "ber_to_der t = der_element tag c" "valid_tag tag" "length c < 2 ^ 32"
      by (rule ber_to_der_element [OF e]) (use n in simp)
    with 1 DER_element [OF d(2,3), of "concat (map ber_to_der ts)"] show ?thesis
      by (simp add: CBS_asn1_ber_to_der_def written_0) (simp add: der_element_def)
  next
    case 2
    have "OPENSSL_malloc malloc (CBS_len s) \<noteq> None"
      using total n by (intro malloc_total) (auto simp: total_malloc_def CBS_len_def)
    then obtain cbb where init: "CBB_init malloc (CBS_len s) = (True, cbb)"
      by (auto simp: CBB_init_def)
    have r: "rep cbb ([], [])" "can_resize cbb"
      using rep_init [OF g init] n by (simp_all add: CBS_len_def)
    have "length ?w \<le> 3 * length s" using length_written [OF e, of 0] n by simp
    then have "room malloc cbb (built ([], []) + length ?w)"
      using r total n by (simp add: room_def built_def)
    with r convert_complete [OF e g _ k(2,1), of False "[]" 0] n obtain cbb' where
      "cbs_convert_ber malloc 0 0 False 0 s cbb = (True, [], cbb')" "rep cbb' (?w, [])"
      by (fastforce simp: puts_def ending_def append_to_def)
    with finish_succeeds [OF g this(2)] init 2 show ?thesis
      by (auto simp: CBS_asn1_ber_to_der_def written_0)
  qed
qed

text \<open>With any allocator, what is accepted is the encoding of convertible values.\<close>

lemma ber_to_der_accepted:
  assumes "fst (CBS_asn1_ber_to_der malloc s) \<noteq> None"
  shows "\<exists>t ts. ber_encoding (t # ts) s \<and> (\<forall>u\<in>set (t # ts). convertible u)"
proof -
  have "\<exists>ts. ber_encoding ts s \<and> (\<forall>u\<in>set ts. convertible u)"
  proof (cases "cbs_find_ber s 0 = Some False")
    case True
    from find_ber_sound [OF this] show ?thesis
      unfolding convertible_iff by (auto simp: allowed_def)
  next
    case False
    with assms obtain cbb s' cbb' where "cbs_convert_ber malloc 0 0 False 0 s cbb = (True, s', cbb')"
      by (auto simp: CBS_asn1_ber_to_der_def split: option.splits prod.splits bool.splits)
    from convert_sound [OF this] show ?thesis
      unfolding convertible_iff by (auto simp: ending_def)
  qed
  moreover have "s \<noteq> []"
    using assms DER_element_iff [of "[]"] der_tag_not_Nil
    by (cases "CBS_get_any_asn1_element []"; cases "fst (CBS_get_any_asn1_element [])")
      (auto simp: CBS_asn1_ber_to_der_def kMaxDepth_def der_element_def split: prod.splits option.splits)
  ultimately show ?thesis
    by (metis ber_encoding_Nil neq_Nil_conv)
qed


text \<open>A SEQUENCE of indefinite length with an OCTET STRING in two pieces.\<close>

definition sample_ber :: "u8 list" where
  "sample_ber = [0x30, 0x80, 0x24, 0x81, 0x06, 0x04, 0x01, 0x61, 0x04, 0x01, 0x62, 0x00, 0x00]"

definition sample_value :: ber where
  "sample_value = Constructed CBS_ASN1_SEQUENCE
     [Constructed (CBS_ASN1_OCTETSTRING OR CBS_ASN1_CONSTRUCTED)
       [Primitive CBS_ASN1_OCTETSTRING [0x61], Primitive CBS_ASN1_OCTETSTRING [0x62]]]"

lemma sample_tags:
  "der_tag CBS_ASN1_SEQUENCE = [0x30]" "valid_tag CBS_ASN1_SEQUENCE" "constructed CBS_ASN1_SEQUENCE"
  "der_tag (CBS_ASN1_OCTETSTRING OR CBS_ASN1_CONSTRUCTED) = [0x24]" "valid_tag (CBS_ASN1_OCTETSTRING OR CBS_ASN1_CONSTRUCTED)"
  "constructed (CBS_ASN1_OCTETSTRING OR CBS_ASN1_CONSTRUCTED)"
  "der_tag CBS_ASN1_OCTETSTRING = [0x04]" "valid_tag CBS_ASN1_OCTETSTRING" "\<not> constructed CBS_ASN1_OCTETSTRING"
  by code_simp+

lemma octet_string_pieces:
  "ber_encoding [Primitive CBS_ASN1_OCTETSTRING [a], Primitive CBS_ASN1_OCTETSTRING [b]] [0x04, 0x01, a, 0x04, 0x01, b]"
proof -
  have "ber_length [1] (length [x])" for x :: u8 by (simp add: ber_length_def)
  from ber_encoding.primitive [OF sample_tags(8,9) this ber_encoding.primitive [OF sample_tags(8,9) this ber_encoding.no_value]]
  show ?thesis by (simp add: sample_tags)
qed

lemma sample_ber_encoding: "ber_encoding [sample_value] sample_ber"
proof -
  have "ber_length [0x81, 0x06] (length [0x04, 0x01, 0x61, 0x04, 0x01, 0x62 :: u8])"
    by (simp add: ber_length_def) (intro disjI2 bexI [of _ 1]; simp)
  from ber_encoding.definite [OF sample_tags(5,6) octet_string_pieces this ber_encoding.no_value]
  have "ber_encoding [Constructed (CBS_ASN1_OCTETSTRING OR CBS_ASN1_CONSTRUCTED)
       [Primitive CBS_ASN1_OCTETSTRING [0x61], Primitive CBS_ASN1_OCTETSTRING [0x62]]]
      [0x24, 0x81, 0x06, 0x04, 0x01, 0x61, 0x04, 0x01, 0x62]"
    by (simp add: sample_tags)
  from ber_encoding.indefinite [OF sample_tags(2,3) this ber_encoding.no_value] show ?thesis
    by (simp add: sample_tags sample_ber_def sample_value_def)
qed

lemma sample_value_convertible: "height sample_value \<le> 128 \<and> strings_ok sample_value"
  by code_simp



text \<open>C37. \<open>CBS_asn1_ber_to_der\<close> succeeds on exactly the encodings of one or more values that are nested at most
  128 deep and whose strings in pieces have pieces of their own tag only. Other BER is refused, against
  \<^verbatim>\<open>bytestring/internal.h\<close>, which says that any valid BER is processed: deeper nesting, X.690's form of
  character strings, where the pieces are OCTET STRINGs (the witness has its example), and what \<open>ber_encoding\<close>
  leaves out, lengths written in more than four bytes and tag numbers from \<open>2 ^ 29\<close>.\<close>

theorem CBS_asn1_ber_to_der_accepts:
  assumes "good_malloc malloc" and "total_malloc malloc" and "length s < 2 ^ 30"
  shows "fst (CBS_asn1_ber_to_der malloc s) \<noteq> None \<longleftrightarrow>
    (\<exists>t ts. ber_encoding (t # ts) s \<and> (\<forall>u\<in>set (t # ts). height u \<le> 128 \<and> strings_ok u))"
proof
  assume "fst (CBS_asn1_ber_to_der malloc s) \<noteq> None"
  from ber_to_der_accepted [OF this] show "\<exists>t ts. ber_encoding (t # ts) s \<and> (\<forall>u\<in>set (t # ts). height u \<le> 128 \<and> strings_ok u)"
    by (simp only: convertible_def)
next
  assume "\<exists>t ts. ber_encoding (t # ts) s \<and> (\<forall>u\<in>set (t # ts). height u \<le> 128 \<and> strings_ok u)"
  then obtain t ts where "ber_encoding (t # ts) s" "\<forall>u\<in>set (t # ts). convertible u"
    by (auto simp: convertible_def)
  from ber_to_der_result [OF assms(1,2) this(1) assms(3) this(2)] show "fst (CBS_asn1_ber_to_der malloc s) \<noteq> None"
    by (auto split: if_splits)
qed

text \<open>X.690's own example of a constructed VisibleString, the pieces of which are OCTET STRINGs.\<close>

definition visible_string :: "u8 list" where
  "visible_string = [0x3a, 0x09, 0x04, 0x03, 0x4a, 0x6f, 0x6e, 0x04, 0x02, 0x65, 0x73]"

lemma visible_string_encoding:
  "ber_encoding [Constructed (CBS_ASN1_VISIBLESTRING OR CBS_ASN1_CONSTRUCTED)
     [Primitive CBS_ASN1_OCTETSTRING [0x4a, 0x6f, 0x6e], Primitive CBS_ASN1_OCTETSTRING [0x65, 0x73]]] visible_string"
proof -
  let ?tag = "CBS_ASN1_VISIBLESTRING OR CBS_ASN1_CONSTRUCTED"
  have tag: "der_tag ?tag = [0x3a]" "valid_tag ?tag" "constructed ?tag"
    by code_simp+
  have l: "ber_length [0x03] (length [0x4a, 0x6f, 0x6e :: u8])" "ber_length [0x02] (length [0x65, 0x73 :: u8])"
    "ber_length [0x09] (length [0x04, 0x03, 0x4a, 0x6f, 0x6e, 0x04, 0x02, 0x65, 0x73 :: u8])"
    by (simp_all add: ber_length_def)
  from ber_encoding.primitive [OF sample_tags(8,9) l(1) ber_encoding.primitive [OF sample_tags(8,9) l(2) ber_encoding.no_value]]
  have "ber_encoding [Primitive CBS_ASN1_OCTETSTRING [0x4a, 0x6f, 0x6e], Primitive CBS_ASN1_OCTETSTRING [0x65, 0x73]]
      [0x04, 0x03, 0x4a, 0x6f, 0x6e, 0x04, 0x02, 0x65, 0x73]"
    by (simp add: sample_tags)
  from ber_encoding.definite [OF tag(2,3) this l(3) ber_encoding.no_value] show ?thesis
    by (simp add: tag visible_string_def)
qed

lemma visible_string_pieces:
  "\<not> strings_ok (Constructed (CBS_ASN1_VISIBLESTRING OR CBS_ASN1_CONSTRUCTED)
     [Primitive CBS_ASN1_OCTETSTRING [0x4a, 0x6f, 0x6e], Primitive CBS_ASN1_OCTETSTRING [0x65, 0x73]])"
  by code_simp

text \<open>\<open>n\<close> nested SEQUENCEs, the innermost one empty.\<close>

fun nested :: "nat \<Rightarrow> ber list" where
  "nested 0 = []"
| "nested (Suc n) = [Constructed CBS_ASN1_SEQUENCE (nested n)]"

lemma nested_strings_ok: "list_all strings_ok (nested n)"
proof (induction n)
  case (Suc n)
  have "\<not> string_number (number_of_tag CBS_ASN1_SEQUENCE)" by code_simp
  with Suc show ?case by simp
qed simp

lemma heights_nested: "heights (nested n) = n"
  by (induction n) simp_all

lemma nested_encoding: "n < 2 ^ 28 \<Longrightarrow> ber_encoding (nested n) (concat (map ber_to_der (nested n))) \<and>
    length (concat (map ber_to_der (nested n))) \<le> 11 * n"
proof (induction n)
  case (Suc n)
  let ?c = "concat (map ber_to_der (nested n))"
  have "\<not> string_number (number_of_tag CBS_ASN1_SEQUENCE)" by code_simp
  then have e: "concat (map ber_to_der (nested (Suc n))) = der_element CBS_ASN1_SEQUENCE ?c" by simp
  have "ber_length (der_length (length ?c)) (length ?c)"
    using Suc by (intro ber_length_der) simp
  from ber_encoding.definite [OF sample_tags(2,3) _ this ber_encoding.no_value, of "nested n"] Suc show ?case
    unfolding e using length_der_tag [of CBS_ASN1_SEQUENCE] length_der_length [of "length ?c"] by (simp add: der_element_def)
qed (simp add: ber_encoding.no_value)

lemma CBS_asn1_ber_to_der_accepts_witness:
  "fst (CBS_asn1_ber_to_der sample_heap sample_ber) \<noteq> None \<and>
   fst (CBS_asn1_ber_to_der sample_heap visible_string) = None \<and>
   fst (CBS_asn1_ber_to_der sample_heap (concat (map ber_to_der (nested 129)))) = None"
proof (intro conjI)
  have "length sample_ber < 2 ^ 30" by (simp add: sample_ber_def)
  note iff = CBS_asn1_ber_to_der_accepts [OF good_sample_heap this]
  show "fst (CBS_asn1_ber_to_der sample_heap sample_ber) \<noteq> None"
    unfolding iff using sample_ber_encoding sample_value_convertible by (intro exI [of _ sample_value] exI [of _ "[]"]) simp
  have "length visible_string < 2 ^ 30" by (simp add: visible_string_def)
  from CBS_asn1_ber_to_der_accepts [OF good_sample_heap this] show "fst (CBS_asn1_ber_to_der sample_heap visible_string) = None"
    using ber_encoding_unique [OF visible_string_encoding] visible_string_pieces by fastforce
  have n: "ber_encoding (nested 129) (concat (map ber_to_der (nested 129)))" "length (concat (map ber_to_der (nested 129))) < 2 ^ 30"
    using nested_encoding [of 129] by simp_all
  from CBS_asn1_ber_to_der_accepts [OF good_sample_heap n(2)] show "fst (CBS_asn1_ber_to_der sample_heap (concat (map ber_to_der (nested 129)))) = None"
    using ber_encoding_unique [OF n(1)] heights_nested [of 129] heights_le [of "nested 129" 128] by fastforce
qed

end
