(* ===== verification/Constant_Time.thy ===== *)
theory Constant_Time
  imports Cbs
begin

text \<open>
  Model of the word-level helpers of \<^verbatim>\<open>crypto/internal.h\<close>: the constant-time masks, the loads and
  stores of integers, the rotations and the arithmetic with carry, in the branches for a 64-bit
  little-endian machine without compiler built-ins. A \<^verbatim>\<open>crypto_word_t\<close> is a 64-bit word, and
  \<^verbatim>\<open>memcpy\<close> from an integer gives its little-endian bytes. \<open>value_barrier_w\<close> returns its argument.
\<close>

type_synonym crypto_word = u64

abbreviation CONSTTIME_TRUE_W :: crypto_word where "CONSTTIME_TRUE_W \<equiv> NOT 0"
abbreviation CONSTTIME_FALSE_W :: crypto_word where "CONSTTIME_FALSE_W \<equiv> 0"
abbreviation CONSTTIME_TRUE_8 :: u8 where "CONSTTIME_TRUE_8 \<equiv> 0xff"
abbreviation CONSTTIME_FALSE_8 :: u8 where "CONSTTIME_FALSE_8 \<equiv> 0"

section \<open>Constant-time masks\<close>

definition value_barrier_w :: "crypto_word \<Rightarrow> crypto_word" where
  "value_barrier_w a = a"

definition value_barrier_u32 :: "u32 \<Rightarrow> u32" where
  "value_barrier_u32 a = a"

definition constant_time_msb_w :: "crypto_word \<Rightarrow> crypto_word" where
  "constant_time_msb_w a = 0 - drop_bit (8 * 8 - 1) a"

definition constant_time_lt_w :: "crypto_word \<Rightarrow> crypto_word \<Rightarrow> crypto_word" where
  "constant_time_lt_w a b = constant_time_msb_w (a XOR ((a XOR b) OR ((a - b) XOR a)))"

definition constant_time_lt_8 :: "crypto_word \<Rightarrow> crypto_word \<Rightarrow> u8" where
  "constant_time_lt_8 a b = ucast (constant_time_lt_w a b)"

definition constant_time_ge_w :: "crypto_word \<Rightarrow> crypto_word \<Rightarrow> crypto_word" where
  "constant_time_ge_w a b = NOT (constant_time_lt_w a b)"

definition constant_time_ge_8 :: "crypto_word \<Rightarrow> crypto_word \<Rightarrow> u8" where
  "constant_time_ge_8 a b = ucast (constant_time_ge_w a b)"

definition constant_time_is_zero_w :: "crypto_word \<Rightarrow> crypto_word" where
  "constant_time_is_zero_w a = constant_time_msb_w (NOT a AND (a - 1))"

definition constant_time_is_zero_8 :: "crypto_word \<Rightarrow> u8" where
  "constant_time_is_zero_8 a = ucast (constant_time_is_zero_w a)"

definition constant_time_eq_w :: "crypto_word \<Rightarrow> crypto_word \<Rightarrow> crypto_word" where
  "constant_time_eq_w a b = constant_time_is_zero_w (a XOR b)"

definition constant_time_eq_8 :: "crypto_word \<Rightarrow> crypto_word \<Rightarrow> u8" where
  "constant_time_eq_8 a b = ucast (constant_time_eq_w a b)"

text \<open>An \<^verbatim>\<open>int\<close> is a signed 32-bit word, converted to \<^verbatim>\<open>crypto_word_t\<close> by sign extension.\<close>

definition constant_time_eq_int :: "32 word \<Rightarrow> 32 word \<Rightarrow> crypto_word" where
  "constant_time_eq_int a b = constant_time_eq_w (scast a) (scast b)"

definition constant_time_eq_int_8 :: "32 word \<Rightarrow> 32 word \<Rightarrow> u8" where
  "constant_time_eq_int_8 a b = constant_time_eq_8 (scast a) (scast b)"

definition constant_time_select_w :: "crypto_word \<Rightarrow> crypto_word \<Rightarrow> crypto_word \<Rightarrow> crypto_word" where
  "constant_time_select_w mask_w a b = (let m = value_barrier_w mask_w in (m AND a) OR (NOT m AND b))"

definition constant_time_select_8 :: "crypto_word \<Rightarrow> u8 \<Rightarrow> u8 \<Rightarrow> u8" where
  "constant_time_select_8 mask_w a b = (let m = ucast (value_barrier_w mask_w) in (m AND a) OR (NOT m AND b))"

definition constant_time_select_int :: "crypto_word \<Rightarrow> 32 word \<Rightarrow> 32 word \<Rightarrow> 32 word" where
  "constant_time_select_int mask_w a b = ucast (constant_time_select_w mask_w (scast a) (scast b))"

text \<open>The two loops over \<open>n\<close> bytes: the destination as it is left.\<close>

fun constant_time_conditional_memcpy :: "u8 list \<Rightarrow> u8 list \<Rightarrow> nat \<Rightarrow> crypto_word \<Rightarrow> u8 list" where
  "constant_time_conditional_memcpy (d # dst) (s # src) (Suc n) mask_w =
     constant_time_select_8 mask_w s d # constant_time_conditional_memcpy dst src n mask_w"
| "constant_time_conditional_memcpy dst src n mask_w = dst"

fun constant_time_conditional_memxor :: "u8 list \<Rightarrow> u8 list \<Rightarrow> nat \<Rightarrow> crypto_word \<Rightarrow> u8 list" where
  "constant_time_conditional_memxor (d # dst) (s # src) (Suc n) mask_w =
     (d XOR ucast (value_barrier_w mask_w AND ucast s)) # constant_time_conditional_memxor dst src n mask_w"
| "constant_time_conditional_memxor dst src n mask_w = dst"

definition constant_time_declassify_w :: "crypto_word \<Rightarrow> crypto_word" where
  "constant_time_declassify_w v = value_barrier_w v"

definition constant_time_declassify_int :: "32 word \<Rightarrow> 32 word" where
  "constant_time_declassify_int v = value_barrier_u32 v"

section \<open>Loads and stores\<close>

definition le_image :: "nat \<Rightarrow> 'a::len word \<Rightarrow> u8 list" where
  "le_image n v = rev (be_bytes n (unat v))"

definition le_value :: "nat \<Rightarrow> u8 list \<Rightarrow> 'a::len word" where
  "le_value n bs = word_of_nat (be_nat (rev (take n bs)))"

definition CRYPTO_load_u32_le :: "u8 list \<Rightarrow> u32" where
  "CRYPTO_load_u32_le bs = le_value 4 bs"

definition CRYPTO_store_u32_le :: "u32 \<Rightarrow> u8 list" where
  "CRYPTO_store_u32_le v = le_image 4 v"

definition CRYPTO_load_u32_be :: "u8 list \<Rightarrow> u32" where
  "CRYPTO_load_u32_be bs = CRYPTO_bswap4 (le_value 4 bs)"

definition CRYPTO_store_u32_be :: "u32 \<Rightarrow> u8 list" where
  "CRYPTO_store_u32_be v = le_image 4 (CRYPTO_bswap4 v)"

definition CRYPTO_load_u64_le :: "u8 list \<Rightarrow> u64" where
  "CRYPTO_load_u64_le bs = le_value 8 bs"

definition CRYPTO_store_u64_le :: "u64 \<Rightarrow> u8 list" where
  "CRYPTO_store_u64_le v = le_image 8 v"

definition CRYPTO_load_u64_be :: "u8 list \<Rightarrow> u64" where
  "CRYPTO_load_u64_be bs = CRYPTO_bswap8 (le_value 8 bs)"

definition CRYPTO_store_u64_be :: "u64 \<Rightarrow> u8 list" where
  "CRYPTO_store_u64_be v = le_image 8 (CRYPTO_bswap8 v)"

definition CRYPTO_load_word_le :: "u8 list \<Rightarrow> crypto_word" where
  "CRYPTO_load_word_le bs = le_value 8 bs"

definition CRYPTO_store_word_le :: "crypto_word \<Rightarrow> u8 list" where
  "CRYPTO_store_word_le v = le_image 8 v"

definition CRYPTO_load_word_be :: "u8 list \<Rightarrow> crypto_word" where
  "CRYPTO_load_word_be bs = CRYPTO_bswap8 (le_value 8 bs)"

section \<open>Rotations and arithmetic with carry\<close>

text \<open>\<open>(-shift) & 31\<close> for a shift between 0 and 31, as the code requires.\<close>

definition CRYPTO_rotl_u32 :: "u32 \<Rightarrow> nat \<Rightarrow> u32" where
  "CRYPTO_rotl_u32 v shift = push_bit shift v OR drop_bit (nat ((- int shift) AND 31)) v"

definition CRYPTO_rotr_u32 :: "u32 \<Rightarrow> nat \<Rightarrow> u32" where
  "CRYPTO_rotr_u32 v shift = drop_bit shift v OR push_bit (nat ((- int shift) AND 31)) v"

definition CRYPTO_rotl_u64 :: "u64 \<Rightarrow> nat \<Rightarrow> u64" where
  "CRYPTO_rotl_u64 v shift = push_bit shift v OR drop_bit (nat ((- int shift) AND 63)) v"

definition CRYPTO_rotr_u64 :: "u64 \<Rightarrow> nat \<Rightarrow> u64" where
  "CRYPTO_rotr_u64 v shift = drop_bit shift v OR push_bit (nat ((- int shift) AND 63)) v"

text \<open>The pairs of the result and \<open>*out_carry\<close> or \<open>*out_borrow\<close>.\<close>

definition CRYPTO_addc_u32 :: "u32 \<Rightarrow> u32 \<Rightarrow> u32 \<Rightarrow> u32 \<times> u32" where
  "CRYPTO_addc_u32 x y carry =
     (let ret = ucast carry :: u64; ret = ret + (ucast x + ucast y)
      in (ucast ret, ucast (drop_bit 32 ret)))"

definition CRYPTO_addc_u64 :: "u64 \<Rightarrow> u64 \<Rightarrow> u64 \<Rightarrow> u64 \<times> u64" where
  "CRYPTO_addc_u64 x y carry =
     (let x = x + carry;
          carry = (if x < carry then 1 else 0);
          ret = x + y;
          carry = carry + (if ret < x then 1 else 0)
      in (ret, carry))"

definition CRYPTO_subc_u32 :: "u32 \<Rightarrow> u32 \<Rightarrow> u32 \<Rightarrow> u32 \<times> u32" where
  "CRYPTO_subc_u32 x y borrow =
     (x - y - borrow, (if x < y then 1 else 0) OR ((if x = y then 1 else 0) AND borrow))"

definition CRYPTO_subc_u64 :: "u64 \<Rightarrow> u64 \<Rightarrow> u64 \<Rightarrow> u64 \<times> u64" where
  "CRYPTO_subc_u64 x y borrow =
     (x - y - borrow, (if x < y then 1 else 0) OR ((if x = y then 1 else 0) AND borrow))"

section \<open>The masks are comparisons\<close>

lemma unat_u64_lt: "unat (a :: u64) < 2 ^ 64"
  and unat_u32_lt: "unat (b :: u32) < 2 ^ 32"
  using unsigned_less [of a] unsigned_less [of b] by simp_all

lemma top_bit_iff: "bit a 63 \<longleftrightarrow> 2 ^ 63 \<le> unat (a :: u64)"
proof -
  have "bit a 63 \<longleftrightarrow> bit (unat a) 63"
    by (simp add: bit_unsigned_iff)
  then have "bit a 63 \<longleftrightarrow> odd (unat a div 2 ^ 63)"
    by (simp only: bit_iff_odd)
  moreover have "unat a div 2 ^ 63 < 2"
    using unat_u64_lt [of a] by (simp add: less_mult_imp_div_less)
  ultimately show ?thesis
    by (cases "unat a div 2 ^ 63 = 0") (auto simp: div_eq_0_iff)
qed

lemma msb_w: "constant_time_msb_w a = (if bit a 63 then NOT 0 else 0)"
proof -
  have "drop_bit 63 a = of_bool (bit a 63)"
    by (rule bit_word_eqI, rename_tac n, case_tac "n = 0") (auto simp: bit_simps dest: bit_imp_le_length)
  then show ?thesis by (simp add: constant_time_msb_w_def)
qed


lemma lt_w: "constant_time_lt_w a b = (if a < b then NOT 0 else 0)"
proof -
  have ab: "unat a < 2 ^ 64" "unat b < 2 ^ 64"
    using unsigned_less [of a] unsigned_less [of b] by simp_all
  have sub: "unat (a - b) = (if unat b \<le> unat a then unat a - unat b else 2 ^ 64 + unat a - unat b)"
    using ab by (auto simp: unat_sub_if' )
  have "bit (a XOR ((a XOR b) OR ((a - b) XOR a))) 63 \<longleftrightarrow>
      (bit a 63 \<noteq> (bit a 63 \<noteq> bit b 63 \<or> bit (a - b) 63 \<noteq> bit a 63))"
    by (simp add: bit_simps)
  also have "\<dots> \<longleftrightarrow> a < b"
    unfolding top_bit_iff sub word_less_nat_alt using ab by (auto split: if_splits)
  finally show ?thesis
    by (simp add: constant_time_lt_w_def msb_w)
qed

lemma is_zero_w: "constant_time_is_zero_w a = (if a = 0 then NOT 0 else 0)"
proof -
  have "bit (NOT a AND (a - 1)) 63 \<longleftrightarrow> \<not> bit a 63 \<and> bit (a - 1) 63"
    by (simp add: bit_simps)
  also have "\<dots> \<longleftrightarrow> a = 0"
    unfolding top_bit_iff using unsigned_less [of a]
    by (cases "a = 0") (auto simp: unat_sub_if' word_unat_eq_iff)
  finally show ?thesis
    by (simp add: constant_time_is_zero_w_def msb_w)
qed

lemma eq_w: "constant_time_eq_w a b = (if a = b then NOT 0 else 0)"
  by (simp add: constant_time_eq_w_def is_zero_w xor_eq_0_iff)

lemma select_w: "constant_time_select_w (if c then NOT 0 else 0) a b = (if c then a else b)"
  by (simp add: constant_time_select_w_def value_barrier_w_def)

lemma select_8: "constant_time_select_8 (if c then NOT 0 else 0) a b = (if c then a else b)"
  "constant_time_select_8 (if c then 0xff else 0) a b = (if c then a else b)"
proof -
  have m: "(0xff :: u8) = - 1" by simp
  have u: "ucast (0xff :: u64) = (0xff :: u8)" by code_simp
  have v: "ucast (- 1 :: u64) = (- 1 :: u8)" by code_simp
  show "constant_time_select_8 (if c then NOT 0 else 0) a b = (if c then a else b)"
    by (simp add: constant_time_select_8_def value_barrier_w_def v)
  show "constant_time_select_8 (if c then 0xff else 0) a b = (if c then a else b)"
    unfolding constant_time_select_8_def value_barrier_w_def Let_def by (cases c) (simp_all only: if_True if_False u m, simp_all)
qed

lemma ucast_true_8: "(ucast (NOT 0 :: u64) :: u8) = 0xff"
  by code_simp

lemma eq_8: "constant_time_eq_8 a b = (if a = b then 0xff else 0)"
  unfolding constant_time_eq_8_def eq_w using ucast_true_8 by auto

lemma lt_8: "constant_time_lt_8 a b = (if a < b then 0xff else 0)"
  unfolding constant_time_lt_8_def lt_w using ucast_true_8 by auto

text \<open>The constant-time operations compute the comparisons and the selection that their names say,
  on all words, as masks of all ones or zeros.\<close>

theorem constant_time_correct:
  "constant_time_lt_w a b = (if a < b then CONSTTIME_TRUE_W else CONSTTIME_FALSE_W) \<and>
   constant_time_ge_w a b = (if a \<ge> b then CONSTTIME_TRUE_W else CONSTTIME_FALSE_W) \<and>
   constant_time_is_zero_w a = (if a = 0 then CONSTTIME_TRUE_W else CONSTTIME_FALSE_W) \<and>
   constant_time_eq_w a b = (if a = b then CONSTTIME_TRUE_W else CONSTTIME_FALSE_W) \<and>
   constant_time_select_w (constant_time_lt_w a b) x y = (if a < b then x else y) \<and>
   constant_time_lt_8 a b = (if a < b then CONSTTIME_TRUE_8 else CONSTTIME_FALSE_8) \<and>
   constant_time_eq_8 a b = (if a = b then CONSTTIME_TRUE_8 else CONSTTIME_FALSE_8) \<and>
   constant_time_select_8 (constant_time_eq_w a b) c d = (if a = b then c else d)"
  unfolding lt_w is_zero_w eq_w lt_8 eq_8 select_w select_8 constant_time_ge_w_def
  by (auto simp: not_less)

section \<open>Loads, stores and rotations\<close>

lemma le_value_image: "256 ^ n = (2::nat) ^ LENGTH('a) \<Longrightarrow> le_value n (le_image n v @ t) = (v :: 'a::len word)"
  using unsigned_less [of v] by (simp add: le_value_def le_image_def be_nat_be_bytes)

lemma le_image_value:
  assumes "256 ^ n = (2::nat) ^ LENGTH('a)" and "length bs = n"
  shows "le_image n (le_value n bs :: 'a::len word) = bs"
proof -
  have "unat (le_value n bs :: 'a word) = be_nat (rev bs)"
    using be_nat_less [of "rev bs"] assms by (simp add: le_value_def unsigned_of_nat take_bit_nat_eq_self_iff)
  then show ?thesis
    using be_bytes_be_nat [of "rev bs"] assms(2) by (simp add: le_image_def)
qed

lemma rev_be_bytes: "rev (be_bytes n v) = map (\<lambda>k. word_of_nat (v div 256 ^ k)) [0..<n]"
proof (induction n arbitrary: v)
  case (Suc n)
  have "map (\<lambda>k. word_of_nat (v div 256 ^ k)) [0..<Suc n] = (word_of_nat v :: u8) # map (\<lambda>k. word_of_nat (v div 256 ^ Suc k)) [0..<n]"
    by (simp add: upt_conv_Cons map_Suc_upt [symmetric] comp_def del: upt_Suc)
  then show ?case using Suc [of "v div 256"] by (simp add: div_mult2_eq)
qed simp

text \<open>Exclusive or on words that are loaded from bytes is exclusive or on the bytes.\<close>

lemma le_image_nth: "i < n \<Longrightarrow> le_image n v ! i = ucast (drop_bit (8 * i) v)" for v :: "'a::len word"
  using word_of_nat_unat [of "drop_bit (8 * i) v", where 'b = 8]
  by (simp add: le_image_def rev_be_bytes unat_drop_bit power_mult)

lemma length_le_image [simp]: "length (le_image n v) = n"
  by (simp add: le_image_def)

lemma ucast_xor: "ucast (v XOR w) = (ucast v XOR ucast w :: 'b::len word)" for v w :: "'a::len word"
  by (rule bit_eqI) (auto simp: bit_simps)

lemma le_image_xor: "le_image n (v XOR w) = map2 (XOR) (le_image n v) (le_image n w)"
  by (rule nth_equalityI) (simp_all add: le_image_nth drop_bit_xor ucast_xor)

lemma store_xor_load:
  assumes "length xs = 8" and "length ys = 8"
  shows "CRYPTO_store_word_le (CRYPTO_load_word_le xs XOR CRYPTO_load_word_le ys) = map2 (XOR) xs ys"
  using assms by (simp add: CRYPTO_store_word_le_def CRYPTO_load_word_le_def le_image_xor le_image_value)

lemma bswap4_swap: "CRYPTO_bswap4 (CRYPTO_bswap4 v) = v"
proof -
  have "v = ucast (be_word (be_bytes 4 (unat v)))"
    using unat_u32_lt [of v] by (simp add: word_unat_eq_iff ucast_be_word [of _ 4] be_nat_be_bytes)
  then obtain c where c: "v = ucast (be_word c)" "length c = 4" by (metis length_be_bytes)
  then show ?thesis using bswap4_rev [of c] bswap4_rev [of "rev c"] by simp
qed

lemma bswap8_swap: "CRYPTO_bswap8 (CRYPTO_bswap8 v) = v"
proof -
  have "v = be_word (be_bytes 8 (unat v))"
    using unat_u64_lt [of v] by (simp add: word_unat_eq_iff unat_be_word be_nat_be_bytes)
  then obtain c where c: "v = be_word c" "length c = 8" by (metis length_be_bytes)
  then show ?thesis using bswap8_rev [of c] bswap8_rev [of "rev c"] by simp
qed

lemma rotl_or:
  "0 < n \<Longrightarrow> n < LENGTH('a) \<Longrightarrow> push_bit n v OR drop_bit (LENGTH('a) - n) v = word_rotl n v" for v :: "'a::len word"
proof (rule bit_word_eqI)
  fix i assume n: "0 < n" "n < LENGTH('a)" and i: "i < LENGTH('a)"
  show "bit (push_bit n v OR drop_bit (LENGTH('a) - n) v) i \<longleftrightarrow> bit (word_rotl n v) i"
  proof (cases "n \<le> i")
    case True
    then have "(i + (LENGTH('a) - n)) mod LENGTH('a) = i - n"
      using n i by (simp add: mod_if)
    then show ?thesis using True n i by (auto simp: bit_simps dest: bit_imp_le_length)
  next
    case False
    then show ?thesis using n i by (auto simp: bit_simps add.commute)
  qed
qed

lemma rotr_or:
  "0 < n \<Longrightarrow> n < LENGTH('a) \<Longrightarrow> drop_bit n v OR push_bit (LENGTH('a) - n) v = word_rotr n v" for v :: "'a::len word"
  using rotl_or [of "LENGTH('a) - n" v] by (simp add: word_rotl_eq_word_rotr or.commute)

lemma minus_shift:
  "0 < n \<Longrightarrow> n < 32 \<Longrightarrow> nat ((- int n) AND 31) = 32 - n"
  "0 < m \<Longrightarrow> m < 64 \<Longrightarrow> nat ((- int m) AND 63) = 64 - m"
proof -
  have a: "x AND 31 = x mod 32" "x AND 63 = x mod 64" for x :: int
    using take_bit_eq_mask [of 5 x] take_bit_eq_mask [of 6 x] by (simp_all add: take_bit_eq_mod mask_eq_exp_minus_1)
  show "0 < n \<Longrightarrow> n < 32 \<Longrightarrow> nat ((- int n) AND 31) = 32 - n"
    unfolding a by (simp add: zmod_zminus1_eq_if)
  show "0 < m \<Longrightarrow> m < 64 \<Longrightarrow> nat ((- int m) AND 63) = 64 - m"
    unfolding a by (simp add: zmod_zminus1_eq_if)
qed

lemma rot_0: "word_rotl 0 v = v" "word_rotr 0 v = v" for v :: "'a::len word"
  by (rule bit_word_eqI; simp add: bit_simps)+

lemma rotations32:
  assumes "n < 32"
  shows "CRYPTO_rotl_u32 v n = word_rotl n v" and "CRYPTO_rotr_u32 v n = word_rotr n v"
proof -
  have "CRYPTO_rotl_u32 v n = word_rotl n v \<and> CRYPTO_rotr_u32 v n = word_rotr n v"
  proof (cases "n = 0")
    case True
    then show ?thesis by (simp add: CRYPTO_rotl_u32_def CRYPTO_rotr_u32_def rot_0)
  next
    case False
    then show ?thesis
      using rotl_or [of n v] rotr_or [of n v] assms minus_shift(1) [of n] unfolding CRYPTO_rotl_u32_def CRYPTO_rotr_u32_def by simp
  qed
  then show "CRYPTO_rotl_u32 v n = word_rotl n v" "CRYPTO_rotr_u32 v n = word_rotr n v" by simp_all
qed

lemma rotations64:
  assumes "n < 64"
  shows "CRYPTO_rotl_u64 v n = word_rotl n v" and "CRYPTO_rotr_u64 v n = word_rotr n v"
proof -
  have "CRYPTO_rotl_u64 v n = word_rotl n v \<and> CRYPTO_rotr_u64 v n = word_rotr n v"
  proof (cases "n = 0")
    case True
    then show ?thesis by (simp add: CRYPTO_rotl_u64_def CRYPTO_rotr_u64_def rot_0)
  next
    case False
    then show ?thesis
      using rotl_or [of n v] rotr_or [of n v] assms minus_shift(2) [of n] unfolding CRYPTO_rotl_u64_def CRYPTO_rotr_u64_def by simp
  qed
  then show "CRYPTO_rotl_u64 v n = word_rotl n v" "CRYPTO_rotr_u64 v n = word_rotr n v" by simp_all
qed

text \<open>An integer that is stored in either byte order is read back by the load of the same order, and the
  rotations of the code are rotations, which the opposite rotation undoes.\<close>

lemma load_store_rotate:
  assumes "n < 32" and "m < 64"
  shows "CRYPTO_load_u32_le (CRYPTO_store_u32_le v @ t) = v \<and> CRYPTO_load_u32_be (CRYPTO_store_u32_be v @ t) = v \<and>
     CRYPTO_store_u32_be v = be_bytes 4 (unat v) \<and>
     CRYPTO_load_u64_le (CRYPTO_store_u64_le w @ t) = w \<and> CRYPTO_load_u64_be (CRYPTO_store_u64_be w @ t) = w \<and>
     CRYPTO_store_u64_be w = be_bytes 8 (unat w) \<and>
     CRYPTO_rotr_u32 (CRYPTO_rotl_u32 v n) n = v \<and> CRYPTO_rotr_u64 (CRYPTO_rotl_u64 w m) m = w"
  using assms
  by (simp add: CRYPTO_load_u32_le_def CRYPTO_store_u32_le_def CRYPTO_load_u32_be_def CRYPTO_store_u32_be_def
      CRYPTO_load_u64_le_def CRYPTO_store_u64_le_def CRYPTO_load_u64_be_def CRYPTO_store_u64_be_def
      le_value_image bswap4_swap bswap8_swap rotations32 rotations64)
    (simp add: le_image_def bswap4_bytes bswap8_bytes)

lemma load_store_rotate_witness:
  "CRYPTO_load_u32_be (CRYPTO_store_u32_be 0x01020304) = 0x01020304 \<and> CRYPTO_rotr_u32 (CRYPTO_rotl_u32 5 31) 31 = 5"
proof -
  have n: "(31 :: nat) < 32" "(0 :: nat) < 64" by simp_all
  note r = load_store_rotate [OF n]
  have "CRYPTO_load_u32_be (CRYPTO_store_u32_be 0x01020304 @ []) = 0x01020304"
    using r [of "0x01020304" "[]" 0] by blast
  moreover have "CRYPTO_rotr_u32 (CRYPTO_rotl_u32 5 31) 31 = 5"
    using r [of 5 "[]" 0] by blast
  ultimately show ?thesis by simp
qed

lemma store_u32_be: "CRYPTO_store_u32_be v = be_bytes 4 (unat v)"
  by (rule load_store_rotate [of 0 0, simplified, THEN conjunct2, THEN conjunct2, THEN conjunct1])

lemma load_u32_be:
  assumes "4 \<le> length bs"
  shows "CRYPTO_load_u32_be bs = word_of_nat (be_nat (take 4 bs))"
proof -
  define v :: u32 where "v = word_of_nat (be_nat (take 4 bs))"
  have "be_nat (take 4 bs) < 256 ^ 4" using be_nat_less [of "take 4 bs"] assms by simp
  then have "unat v = be_nat (take 4 bs)" by (simp add: v_def unsigned_of_nat take_bit_eq_mod)
  then have "CRYPTO_store_u32_be v = take 4 bs" using be_bytes_be_nat [of "take 4 bs"] assms by (simp add: store_u32_be)
  then have "CRYPTO_load_u32_be bs = CRYPTO_load_u32_be (CRYPTO_store_u32_be v @ drop 4 bs)" by simp
  then show ?thesis by (simp add: load_store_rotate [of 0 0, simplified, THEN conjunct2, THEN conjunct1] v_def [symmetric])
qed

lemma store_u64_be: "CRYPTO_store_u64_be v = be_bytes 8 (unat v)"
  using load_store_rotate [of 0 0 _ _ v] by simp

lemma load_u64_be:
  assumes "8 \<le> length bs"
  shows "CRYPTO_load_u64_be bs = word_of_nat (be_nat (take 8 bs))"
proof -
  define v :: u64 where "v = word_of_nat (be_nat (take 8 bs))"
  have "be_nat (take 8 bs) < 256 ^ 8" using be_nat_less [of "take 8 bs"] assms by simp
  then have "unat v = be_nat (take 8 bs)" by (simp add: v_def unsigned_of_nat take_bit_eq_mod)
  then have "CRYPTO_store_u64_be v = take 8 bs" using be_bytes_be_nat [of "take 8 bs"] assms by (simp add: store_u64_be)
  then have "CRYPTO_load_u64_be bs = CRYPTO_load_u64_be (CRYPTO_store_u64_be v @ drop 8 bs)" by simp
  also have "\<dots> = v" by (simp add: CRYPTO_load_u64_be_def CRYPTO_store_u64_be_def le_value_image bswap8_swap)
  finally show ?thesis by (simp add: v_def)
qed

section \<open>Carries\<close>

lemma wrap_add: "unat (a + b) = (if unat a + unat b < 2 ^ LENGTH('a) then unat a + unat b else unat a + unat b - 2 ^ LENGTH('a))"
  for a b :: "'a::len word"
  by (simp add: unat_plus_if')

lemma wrap_sub: "unat (a - b) = (if unat b \<le> unat a then unat a - unat b else unat a + 2 ^ LENGTH('a) - unat b)"
  for a b :: "'a::len word"
  by (simp add: unat_sub_if')

lemma carry_cases: "c \<le> 1 \<Longrightarrow> c = 0 \<or> c = 1" for c :: "'a::len word"
  by (auto simp: word_le_nat_alt word_unat_eq_iff le_Suc_eq)

lemma addc_u64_exact:
  assumes "c \<le> 1"
  shows "case CRYPTO_addc_u64 x y c of (r, k) \<Rightarrow> unat k \<le> 1 \<and> unat r + 2 ^ 64 * unat k = unat x + unat y + unat c"
proof -
  have b: "unat x < 2 ^ 64" "unat y < 2 ^ 64" by (rule unat_u64_lt)+
  from carry_cases [OF assms] show ?thesis
  proof
    assume "c = 0"
    then show ?thesis
      using b by (auto simp: CRYPTO_addc_u64_def Let_def word_less_nat_alt wrap_add)
  next
    assume "c = 1"
    then show ?thesis
      using b by (auto simp: CRYPTO_addc_u64_def Let_def word_less_nat_alt wrap_add)
  qed
qed

lemma subc_exact:
  fixes x y c :: "'a::len word"
  assumes "c \<le> 1"
  shows "unat ((if x < y then 1 else 0) OR ((if x = y then 1 else 0) AND c)) \<le> 1 \<and>
     unat (x - y - c) + unat y + unat c = unat x + 2 ^ LENGTH('a) * unat ((if x < y then 1 else 0) OR ((if x = y then 1 else 0) AND c))"
proof -
  define P :: nat where "P = 2 ^ LENGTH('a)"
  have b: "unat x < P" "unat y < P" by (simp_all add: P_def)
  note sub = wrap_sub [where 'a = 'a, folded P_def]
  have m: "unat (- 1 :: 'a word) = P - 1" using sub [of 0 1] by simp
  from carry_cases [OF assms] show ?thesis
  proof
    assume "c = 0"
    then show ?thesis
      using b by (auto simp: word_less_nat_alt sub simp flip: P_def)
  next
    assume "c = 1"
    then show ?thesis
      using b word_unat_eq_iff [of x y] by (cases "x = y") (auto simp: word_less_nat_alt sub m simp flip: P_def)
  qed
qed

lemma addc_u32_exact:
  assumes "c \<le> 1"
  shows "case CRYPTO_addc_u32 x y c of (r, k) \<Rightarrow> unat k \<le> 1 \<and> unat r + 2 ^ 32 * unat k = unat x + unat y + unat c"
proof -
  define n where "n = unat x + unat y + unat c"
  have "unat c \<le> 1" using assms by (simp add: word_le_nat_alt)
  with unat_u32_lt [of x] unat_u32_lt [of y] have n: "n < 2 * 2 ^ 32" by (simp add: n_def)
  have u: "unat (ucast v :: u64) = unat v" for v :: u32
    by (rule unat_ucast_up) simp
  have "unat (ucast c + (ucast x + ucast y) :: u64) = n"
    using n by (simp add: wrap_add u n_def)
  then have r: "unat (ucast (ucast c + (ucast x + ucast y) :: u64) :: u32) = n mod 2 ^ 32"
    and "unat (drop_bit 32 (ucast c + (ucast x + ucast y) :: u64)) = n div 2 ^ 32"
    by (simp_all add: unsigned_ucast_eq take_bit_eq_mod unat_drop_bit)
  moreover have k: "n div 2 ^ 32 \<le> 1"
    using n by (simp add: less_mult_imp_div_less flip: less_Suc_eq_le)
  ultimately have "unat (ucast (drop_bit 32 (ucast c + (ucast x + ucast y) :: u64)) :: u32) = n div 2 ^ 32"
    by (subst unat_ucast_down) simp_all
  with r k show ?thesis
    by (simp add: CRYPTO_addc_u32_def Let_def n_def)
qed

text \<open>The additions and subtractions with carry are exact: result and carry together are the true sum,
  and the difference is the result less the borrow.\<close>

theorem addc_subc_exact:
  assumes "c \<le> 1" and "c' \<le> 1"
  shows "(case CRYPTO_addc_u64 x y c of (r, k) \<Rightarrow> unat k \<le> 1 \<and> unat r + 2 ^ 64 * unat k = unat x + unat y + unat c) \<and>
     (case CRYPTO_subc_u64 x y c of (r, k) \<Rightarrow> unat k \<le> 1 \<and> unat r + unat y + unat c = unat x + 2 ^ 64 * unat k) \<and>
     (case CRYPTO_addc_u32 a b c' of (r, k) \<Rightarrow> unat k \<le> 1 \<and> unat r + 2 ^ 32 * unat k = unat a + unat b + unat c') \<and>
     (case CRYPTO_subc_u32 a b c' of (r, k) \<Rightarrow> unat k \<le> 1 \<and> unat r + unat b + unat c' = unat a + 2 ^ 32 * unat k)"
  using addc_u64_exact [OF assms(1), of x y] addc_u32_exact [OF assms(2), of a b]
    subc_exact [OF assms(1), of x y] subc_exact [OF assms(2), of a b]
  by (simp only: CRYPTO_subc_u64_def CRYPTO_subc_u32_def prod.case) simp

lemma addc_subc_exact_witness:
  "CRYPTO_addc_u64 (- 1) 1 1 = (1, 1) \<and> unat (1 :: u64) + 2 ^ 64 * unat (1 :: u64) = unat (- 1 :: u64) + 1 + 1"
proof -
  have "CRYPTO_addc_u64 (- 1) 1 1 = (1, 1)" by (simp add: CRYPTO_addc_u64_def Let_def word_less_nat_alt)
  with addc_subc_exact [of 1 1 "- 1" 1 0 0] show ?thesis by simp
qed

end
