(* ===== verification/Base64.thy ===== *)
theory Base64
  imports Constant_Time Mem
begin

text \<open>
  Model of \<^verbatim>\<open>crypto/base64/base64.c\<close>. A function that writes through \<open>out\<close> gives the bytes it wrote
  there; \<open>src\<close>, \<open>in\<close> are the bytes of the pointer and the length. The specification of the encoding is
  \<open>base64\<close>, which works on groups of three bytes in arithmetic.
\<close>

section \<open>Encoding\<close>

definition constant_time_lt_args_8 :: "u8 \<Rightarrow> u8 \<Rightarrow> u8" where
  "constant_time_lt_args_8 a b =
     (let aw = ucast a :: crypto_word; bw = ucast b in ucast (constant_time_msb_w (aw - bw)))"

definition constant_time_in_range_8 :: "u8 \<Rightarrow> u8 \<Rightarrow> u8 \<Rightarrow> u8" where
  "constant_time_in_range_8 a min_c max_c = (let a = a - min_c in constant_time_lt_args_8 a (max_c - min_c + 1))"

definition conv_bin2ascii :: "u8 \<Rightarrow> u8" where
  "conv_bin2ascii a =
     (let a = a AND 0x3f;
          ret = constant_time_select_8 (ucast (constant_time_eq_8 (ucast a) 62)) 0x2b 0x2f;
          ret = constant_time_select_8 (ucast (constant_time_lt_args_8 a 62)) (a - 52 + 0x30) ret;
          ret = constant_time_select_8 (ucast (constant_time_lt_args_8 a 52)) (a - 26 + 0x61) ret;
          ret = constant_time_select_8 (ucast (constant_time_lt_args_8 a 26)) (a + 0x41) ret
      in ret)"

definition EVP_EncodedLength :: "u64 \<Rightarrow> u64 option" where
  "EVP_EncodedLength n =
     (if n + 2 < n then None
      else
        let n = n + 2; n = n div 3
        in if drop_bit 2 (push_bit 2 n) \<noteq> n then None
           else
             let n = push_bit 2 n
             in if n + 1 < n then None else Some (n + 1))"

text \<open>The loop of \<open>EVP_EncodeBlock\<close>: the characters and \<open>ret\<close>.\<close>

fun encode_block_loop :: "u8 list \<Rightarrow> u8 list \<times> nat" where
  "encode_block_loop [] = ([], 0)"
| "encode_block_loop [a] =
     (let l = push_bit 16 (ucast a) :: u32
      in ([conv_bin2ascii (ucast (drop_bit 18 l)), conv_bin2ascii (ucast (drop_bit 12 l)), 0x3d, 0x3d], 4))"
| "encode_block_loop [a, b] =
     (let l = push_bit 16 (ucast a) :: u32; l = l OR push_bit 8 (ucast b)
      in ([conv_bin2ascii (ucast (drop_bit 18 l)), conv_bin2ascii (ucast (drop_bit 12 l)),
           conv_bin2ascii (ucast (drop_bit 6 l)), 0x3d], 4))"
| "encode_block_loop (a # b # c # src) =
     (let l = push_bit 16 (ucast a) OR push_bit 8 (ucast b) OR ucast c :: u32
      in case encode_block_loop src of (dst, ret) \<Rightarrow>
           ([conv_bin2ascii (ucast (drop_bit 18 l)), conv_bin2ascii (ucast (drop_bit 12 l)),
             conv_bin2ascii (ucast (drop_bit 6 l)), conv_bin2ascii (ucast l)] @ dst, (4 + ret) mod size_mod))"

definition EVP_EncodeBlock :: "u8 list \<Rightarrow> u8 list \<times> nat" where
  "EVP_EncodeBlock src = (case encode_block_loop src of (dst, ret) \<Rightarrow> (dst @ [0], ret))"

record evp_encode_ctx =
  data_used :: nat
  data :: "u8 list"
  eof_seen :: bool
  error_encountered :: bool

abbreviation sizeof_data :: nat where "sizeof_data \<equiv> 48"

definition EVP_EncodeInit :: evp_encode_ctx where
  "EVP_EncodeInit = \<lparr>data_used = 0, data = replicate sizeof_data 0, eof_seen = False, error_encountered = False\<rparr>"

definition EVP_ENCODE_CTX_new :: "heap \<Rightarrow> evp_encode_ctx option" where
  "EVP_ENCODE_CTX_new malloc =
     (case OPENSSL_zalloc malloc (4 + sizeof_data + 4) of None \<Rightarrow> None | Some _ \<Rightarrow> Some EVP_EncodeInit)"

text \<open>Overwrite \<open>data\<close> from position \<open>off\<close> on.\<close>

definition put_data :: "nat \<Rightarrow> u8 list \<Rightarrow> evp_encode_ctx \<Rightarrow> evp_encode_ctx" where
  "put_data off bs ctx = ctx\<lparr>data := take off (data ctx) @ bs @ drop (off + length bs) (data ctx)\<rparr>"

text \<open>One line: the characters of a block, the newline and the terminator, which the next line overwrites.\<close>

definition encode_line :: "u8 list \<Rightarrow> u8 list \<times> nat" where
  "encode_line block = (case EVP_EncodeBlock block of (text, encoded) \<Rightarrow> (take encoded text @ [0x0a], encoded))"

text \<open>The loop over whole blocks: the text, \<open>total\<close> and the rest of the input; \<^const>\<open>None\<close> when \<open>total\<close> wraps.\<close>

function encode_lines_loop :: "u8 list \<Rightarrow> nat \<Rightarrow> u8 list \<times> (nat \<times> u8 list) option" where
  "encode_lines_loop inp total_n =
     (if length inp \<ge> sizeof_data then
        (case encode_line (take sizeof_data inp) of (line, encoded) \<Rightarrow>
           if (total_n + encoded + 1) mod size_mod < total_n then (line, None)
           else
             (case encode_lines_loop (drop sizeof_data inp) ((total_n + encoded + 1) mod size_mod) of
                (out, r) \<Rightarrow> (line @ out, r)))
      else ([], Some (total_n, inp)))"
  by pat_completeness auto
termination
  by (relation "measure (\<lambda>(inp, total_n). length inp)") auto

declare encode_lines_loop.simps [simp del]

text \<open>
  The context, the bytes at \<open>out\<close> (without the terminator, which is there when a line was written) and
  \<open>*out_len\<close>.
\<close>

definition EVP_EncodeUpdate :: "evp_encode_ctx \<Rightarrow> u8 list \<Rightarrow> evp_encode_ctx \<times> u8 list \<times> int" where
  "EVP_EncodeUpdate ctx inp =
     (if length inp = 0 then (ctx, [], 0)
      else if sizeof_data - data_used ctx > length inp then
        ((put_data (data_used ctx) inp ctx)\<lparr>data_used := data_used ctx + length inp\<rparr>, [], 0)
      else
        let (ctx, out, total_n, inp) =
              (if data_used ctx \<noteq> 0 then
                 let todo = sizeof_data - data_used ctx;
                     ctx = put_data (data_used ctx) (take todo inp) ctx
                 in (case encode_line (data ctx) of (line, encoded) \<Rightarrow>
                       (ctx\<lparr>data_used := 0\<rparr>, line, encoded + 1, drop todo inp))
               else (ctx, [], 0, inp))
        in case encode_lines_loop inp total_n of
             (lines, None) \<Rightarrow> (ctx, out @ lines, 0)
           | (lines, Some (total_n, inp)) \<Rightarrow>
               let ctx = (if length inp \<noteq> 0 then put_data 0 inp ctx else ctx);
                   ctx = ctx\<lparr>data_used := length inp\<rparr>;
                   total_n = (if int total_n > INT_MAX then 0 else total_n)
               in (ctx, out @ lines, int total_n))"

definition EVP_EncodeFinal :: "evp_encode_ctx \<Rightarrow> evp_encode_ctx \<times> u8 list \<times> int" where
  "EVP_EncodeFinal ctx =
     (if data_used ctx = 0 then (ctx, [], 0)
      else case encode_line (take (data_used ctx) (data ctx)) of
          (line, encoded) \<Rightarrow> (ctx\<lparr>data_used := 0\<rparr>, line, int (encoded + 1)))"

section \<open>Decoding\<close>

definition EVP_DecodedLength :: "nat \<Rightarrow> nat option" where
  "EVP_DecodedLength n = (if n mod 4 \<noteq> 0 then None else Some ((n div 4 * 3) mod size_mod))"

definition EVP_DecodeInit :: evp_encode_ctx where
  "EVP_DecodeInit = EVP_EncodeInit"

definition base64_ascii_to_bin :: "u8 \<Rightarrow> u8" where
  "base64_ascii_to_bin a =
     (let is_upper = constant_time_in_range_8 a 0x41 0x5a;
          is_lower = constant_time_in_range_8 a 0x61 0x7a;
          is_digit = constant_time_in_range_8 a 0x30 0x39;
          is_plus = constant_time_eq_8 (ucast a) 0x2b;
          is_slash = constant_time_eq_8 (ucast a) 0x2f;
          is_equals = constant_time_eq_8 (ucast a) 0x3d;
          ret = 0;
          ret = ret OR (is_upper AND (a - 0x41));
          ret = ret OR (is_lower AND (a - 0x61 + 26));
          ret = ret OR (is_digit AND (a - 0x30 + 52));
          ret = ret OR (is_plus AND 62);
          ret = ret OR (is_slash AND 63);
          is_valid = is_upper OR is_lower OR is_digit OR is_plus OR is_slash OR is_equals
      in ret OR NOT is_valid)"

definition base64_decode_quad :: "u8 \<Rightarrow> u8 \<Rightarrow> u8 \<Rightarrow> u8 \<Rightarrow> u8 list option" where
  "base64_decode_quad in0 in1 in2 in3 =
     (let a = base64_ascii_to_bin in0;
          b = base64_ascii_to_bin in1;
          c = base64_ascii_to_bin in2;
          d = base64_ascii_to_bin in3
      in if a = 0xff \<or> b = 0xff \<or> c = 0xff \<or> d = 0xff then None
         else
           let v = push_bit 18 (ucast a) OR push_bit 12 (ucast b) OR push_bit 6 (ucast c) OR ucast d :: u32;
               padding_pattern = push_bit 3 (of_bool (in0 = 0x3d)) OR push_bit 2 (of_bool (in1 = 0x3d)) OR
                 push_bit 1 (of_bool (in2 = 0x3d)) OR of_bool (in3 = 0x3d) :: u32
           in if padding_pattern = 0 then Some [ucast (drop_bit 16 v), ucast (drop_bit 8 v), ucast v]
              else if padding_pattern = 1 then Some [ucast (drop_bit 16 v), ucast (drop_bit 8 v)]
              else if padding_pattern = 3 then Some [ucast (drop_bit 16 v)]
              else None)"

text \<open>
  The loop of \<open>EVP_DecodeUpdate\<close>: whether it ran to its end, the context and the bytes written. The
  variable \<open>bytes_out\<close> of the code is their number.
\<close>

fun decode_update_loop :: "u8 list \<Rightarrow> evp_encode_ctx \<Rightarrow> bool \<times> evp_encode_ctx \<times> u8 list" where
  "decode_update_loop [] ctx = (True, ctx, [])"
| "decode_update_loop (c # inp) ctx =
     (if c = 0x20 \<or> c = 0x09 \<or> c = 0x0d \<or> c = 0x0a then decode_update_loop inp ctx
      else if eof_seen ctx then (False, ctx\<lparr>error_encountered := True\<rparr>, [])
      else
        let ctx = ctx\<lparr>data := (data ctx)[data_used ctx := c], data_used := data_used ctx + 1\<rparr>
        in if data_used ctx = 4 then
             (case base64_decode_quad (data ctx ! 0) (data ctx ! 1) (data ctx ! 2) (data ctx ! 3) of
                None \<Rightarrow> (False, ctx\<lparr>error_encountered := True\<rparr>, [])
              | Some bs \<Rightarrow>
                  let ctx = ctx\<lparr>data_used := 0\<rparr>;
                      ctx = (if length bs < 3 then ctx\<lparr>eof_seen := True\<rparr> else ctx)
                  in case decode_update_loop inp ctx of (ok, ctx, out) \<Rightarrow> (ok, ctx, bs @ out))
           else decode_update_loop inp ctx)"

text \<open>The return value, the context, the bytes written and \<open>*out_len\<close>.\<close>

definition EVP_DecodeUpdate :: "evp_encode_ctx \<Rightarrow> u8 list \<Rightarrow> int \<times> evp_encode_ctx \<times> u8 list \<times> int" where
  "EVP_DecodeUpdate ctx inp =
     (if error_encountered ctx then (- 1, ctx, [], 0)
      else case decode_update_loop inp ctx of
          (False, ctx, out) \<Rightarrow> (- 1, ctx, out, 0)
        | (True, ctx, out) \<Rightarrow>
            if int (length out) > INT_MAX then (- 1, ctx\<lparr>error_encountered := True\<rparr>, out, 0)
            else if eof_seen ctx then (0, ctx, out, int (length out))
            else (1, ctx, out, int (length out)))"

definition EVP_DecodeFinal :: "evp_encode_ctx \<Rightarrow> int" where
  "EVP_DecodeFinal ctx = (if error_encountered ctx \<or> data_used ctx \<noteq> 0 then - 1 else 1)"

text \<open>The loop of \<open>EVP_DecodeBase64\<close> over the quads: whether it succeeds and the bytes written.\<close>

fun decode_base64_loop :: "u8 list \<Rightarrow> bool \<times> u8 list" where
  "decode_base64_loop (a # b # c # d # inp) =
     (case base64_decode_quad a b c d of
        None \<Rightarrow> (False, [])
      | Some bs \<Rightarrow>
          if length bs \<noteq> 3 \<and> inp \<noteq> [] then (False, bs)
          else (case decode_base64_loop inp of (ok, out) \<Rightarrow> (ok, bs @ out)))"
| "decode_base64_loop _ = (True, [])"

text \<open>Success, \<open>*out_len\<close> and the bytes written.\<close>

definition EVP_DecodeBase64 :: "nat \<Rightarrow> u8 list \<Rightarrow> bool \<times> nat \<times> u8 list" where
  "EVP_DecodeBase64 max_out inp =
     (if length inp mod 4 \<noteq> 0 then (False, 0, [])
      else case EVP_DecodedLength (length inp) of
          None \<Rightarrow> (False, 0, [])
        | Some max_len \<Rightarrow>
            if max_out < max_len then (False, 0, [])
            else case decode_base64_loop inp of
                (False, out) \<Rightarrow> (False, 0, out)
              | (True, out) \<Rightarrow> (True, length out, out))"

definition EVP_DecodeBlock :: "u8 list \<Rightarrow> int \<times> u8 list" where
  "EVP_DecodeBlock src =
     (let src = dropWhile (\<lambda>c. c = 0x20 \<or> c = 0x09) src;
          src = rev (dropWhile (\<lambda>c. c = 0x20 \<or> c = 0x09 \<or> c = 0x0d \<or> c = 0x0a) (rev src))
      in case EVP_DecodedLength (length src) of
           None \<Rightarrow> (- 1, [])
         | Some dst_len \<Rightarrow>
             if int dst_len > INT_MAX then (- 1, [])
             else case EVP_DecodeBase64 dst_len src of
                 (False, _, dst) \<Rightarrow> (- 1, dst)
               | (True, dst_len, dst) \<Rightarrow>
                   let pad = (3 - dst_len mod 3) mod 3
                   in (int (dst_len + pad), dst @ replicate pad 0))"

section \<open>The alphabet\<close>

definition b64_char :: "nat \<Rightarrow> nat" where
  "b64_char n = (if n < 26 then n + 65 else if n < 52 then n + 71 else if n < 62 then n - 4 else if n = 62 then 43 else 47)"

lemma lt_args_8: "constant_time_lt_args_8 a b = (if a < b then 0xff else 0)"
proof -
  have u: "unat (ucast c :: u64) = unat c" for c :: u8
    by (rule unat_ucast_up) simp
  have "bit (ucast a - ucast b :: u64) 63 \<longleftrightarrow> a < b"
    unfolding top_bit_iff word_less_nat_alt using unat_byte_lt [of a] unat_byte_lt [of b]
    by (auto simp: wrap_sub u)
  then show ?thesis
    using ucast_true_8 by (auto simp: constant_time_lt_args_8_def Let_def msb_w)
qed


lemma in_range_8:
  assumes "lo \<le> hi" and "unat hi < 255"
  shows "constant_time_in_range_8 a lo hi = (if lo \<le> a \<and> a \<le> hi then 0xff else 0)"
proof -
  have "unat (hi - lo + 1) = unat hi - unat lo + 1"
    using assms by (simp add: wrap_add wrap_sub word_le_nat_alt)
  then have "a - lo < hi - lo + 1 \<longleftrightarrow> lo \<le> a \<and> a \<le> hi"
    using assms unat_byte_lt [of a] by (auto simp: word_less_nat_alt word_le_nat_alt wrap_sub)
  then show ?thesis
    by (simp add: constant_time_in_range_8_def Let_def lt_args_8)
qed

lemma ucast_mask: "ucast (if c then 0xff else (0 :: u8)) = (if c then 0xff else (0 :: u64))"
proof -
  have "ucast (0xff :: u8) = (0xff :: u64)" by code_simp
  then show ?thesis by simp
qed

lemma conv_bin2ascii: "conv_bin2ascii a = word_of_nat (b64_char (unat a mod 64))"
proof -
  define b where "b = a AND 0x3f"
  have m: "(0x3f :: u8) = mask 6" by (simp add: mask_eq_exp_minus_1)
  have b: "unat b = unat a mod 64"
    unfolding b_def m by (simp add: unat_take_bit flip: take_bit_eq_mask)
  have b64: "unat b < 64" by (simp add: b)
  have eq62: "ucast b = (62 :: u64) \<longleftrightarrow> unat b = 62"
    by (simp add: word_unat_eq_iff unat_ucast_up)
  have "unat (conv_bin2ascii a) = b64_char (unat b)"
    unfolding conv_bin2ascii_def Let_def eq_8 lt_args_8 ucast_mask select_8 b_def [symmetric] eq62
    using b64 by (auto simp: word_less_nat_alt wrap_add wrap_sub b64_char_def)
  then show ?thesis
    unfolding b by (rule word_of_nat_eqI)
qed

definition b64_value :: "u8 \<Rightarrow> nat option" where
  "b64_value c =
     (let n = unat c
      in if 65 \<le> n \<and> n \<le> 90 then Some (n - 65)
         else if 97 \<le> n \<and> n \<le> 122 then Some (n - 71)
         else if 48 \<le> n \<and> n \<le> 57 then Some (n + 4)
         else if n = 43 then Some 62
         else if n = 47 then Some 63
         else if n = 61 then Some 0
         else None)"

lemma and_ff: "0xff AND x = x" "x AND 0xff = x" "0xff OR x = 0xff" "NOT 0xff = (0 :: u8)" for x :: u8
proof -
  have m: "(0xff :: u8) = - 1" by simp
  show "0xff AND x = x" "x AND 0xff = x" "0xff OR x = 0xff" "NOT 0xff = (0 :: u8)"
    unfolding m by simp_all
qed

lemma mask_cases:
  "(if c then 0xff else (0 :: u8)) AND x = (if c then x else 0)"
  "(if c then 0xff else (0 :: u8)) OR (if d then 0xff else 0) = (if c \<or> d then 0xff else 0)"
  "NOT (if c then 0xff else (0 :: u8)) = (if c then 0 else 0xff)"
  by (auto simp: and_ff)

lemma ascii_to_bin: "base64_ascii_to_bin a = (case b64_value a of None \<Rightarrow> 0xff | Some v \<Rightarrow> word_of_nat v)"
proof -
  have e: "ucast a = (0x2b :: u64) \<longleftrightarrow> unat a = 43" "ucast a = (0x2f :: u64) \<longleftrightarrow> unat a = 47"
    "ucast a = (0x3d :: u64) \<longleftrightarrow> unat a = 61"
    by (simp_all add: word_unat_eq_iff unat_ucast_up)
  have r: "constant_time_in_range_8 a 0x41 0x5a = (if 65 \<le> unat a \<and> unat a \<le> 90 then 0xff else 0)"
    "constant_time_in_range_8 a 0x61 0x7a = (if 97 \<le> unat a \<and> unat a \<le> 122 then 0xff else 0)"
    "constant_time_in_range_8 a 0x30 0x39 = (if 48 \<le> unat a \<and> unat a \<le> 57 then 0xff else 0)"
    using in_range_8 [of "0x41" "0x5a" a] in_range_8 [of "0x61" "0x7a" a] in_range_8 [of "0x30" "0x39" a]
    by (simp_all add: word_le_nat_alt)
  have d: "65 \<le> unat a \<Longrightarrow> a - 0x41 = word_of_nat (unat a - 65)" "97 \<le> unat a \<Longrightarrow> a - 0x61 + 26 = word_of_nat (unat a - 71)"
    "48 \<le> unat a \<Longrightarrow> a - 0x30 + 52 = word_of_nat (unat a + 4)"
    by (simp_all add: of_nat_diff)
  define U L D P S E where "U \<longleftrightarrow> 65 \<le> unat a \<and> unat a \<le> 90" and "L \<longleftrightarrow> 97 \<le> unat a \<and> unat a \<le> 122"
    and "D \<longleftrightarrow> 48 \<le> unat a \<and> unat a \<le> 57" and "P \<longleftrightarrow> unat a = 43" and "S \<longleftrightarrow> unat a = 47" and "E \<longleftrightarrow> unat a = 61"
  note defs = U_def L_def D_def P_def S_def E_def
  have x: "U \<Longrightarrow> \<not> L \<and> \<not> D \<and> \<not> P \<and> \<not> S \<and> \<not> E" "L \<Longrightarrow> \<not> D \<and> \<not> P \<and> \<not> S \<and> \<not> E"
    "D \<Longrightarrow> \<not> P \<and> \<not> S \<and> \<not> E" "P \<Longrightarrow> \<not> S \<and> \<not> E" "S \<Longrightarrow> \<not> E"
    unfolding defs by linarith+
  have "base64_ascii_to_bin a = (if U then a - 0x41 else if L then a - 0x61 + 26 else if D then a - 0x30 + 52
      else if P then 62 else if S then 63 else if E then 0 else 0xff)"
  proof -
    note b = base64_ascii_to_bin_def [of a, unfolded Let_def eq_8 e r mask_cases, folded defs]
    consider "U \<and> \<not> L \<and> \<not> D \<and> \<not> P \<and> \<not> S \<and> \<not> E"
      | "\<not> U \<and> L \<and> \<not> D \<and> \<not> P \<and> \<not> S \<and> \<not> E"
      | "\<not> U \<and> \<not> L \<and> D \<and> \<not> P \<and> \<not> S \<and> \<not> E"
      | "\<not> U \<and> \<not> L \<and> \<not> D \<and> P \<and> \<not> S \<and> \<not> E"
      | "\<not> U \<and> \<not> L \<and> \<not> D \<and> \<not> P \<and> S \<and> \<not> E"
      | "\<not> U \<and> \<not> L \<and> \<not> D \<and> \<not> P \<and> \<not> S \<and> E"
      | "\<not> U \<and> \<not> L \<and> \<not> D \<and> \<not> P \<and> \<not> S \<and> \<not> E"
      using x by metis
    then show ?thesis
      by cases (simp_all add: b)
  qed
  moreover have "b64_value a = (if U then Some (unat a - 65) else if L then Some (unat a - 71) else if D then Some (unat a + 4)
      else if P then Some 62 else if S then Some 63 else if E then Some 0 else None)"
    unfolding b64_value_def Let_def defs by (rule refl)
  ultimately show ?thesis
    using d unfolding defs by simp
qed

lemma unat_b64_char: "n < 64 \<Longrightarrow> unat (word_of_nat (b64_char n) :: u8) = b64_char n"
  unfolding unat_word_of_nat_byte by (simp add: b64_char_def)

lemma b64_value_char: "n < 64 \<Longrightarrow> b64_value (word_of_nat (b64_char n)) = Some n"
  unfolding b64_value_def Let_def unat_b64_char by (auto simp: b64_char_def)

lemma b64_char_not_pad: "n < 64 \<Longrightarrow> word_of_nat (b64_char n) \<noteq> (0x3d :: u8)"
  using unat_b64_char [of n] by (auto simp: word_unat_eq_iff b64_char_def split: if_splits)

section \<open>The encoding\<close>

definition ch :: "nat \<Rightarrow> u8" where
  "ch n = word_of_nat (b64_char n)"

fun base64 :: "u8 list \<Rightarrow> u8 list" where
  "base64 [] = []"
| "base64 [a] = [ch (unat a div 4), ch (unat a mod 4 * 16), 0x3d, 0x3d]"
| "base64 [a, b] = [ch (unat a div 4), ch (unat a mod 4 * 16 + unat b div 16), ch (unat b mod 16 * 4), 0x3d]"
| "base64 (a # b # c # s) =
     [ch (unat a div 4), ch (unat a mod 4 * 16 + unat b div 16), ch (unat b mod 16 * 4 + unat c div 64), ch (unat c mod 64)]
     @ base64 s"

lemma horner_step: "r < m \<Longrightarrow> (q * m + r) div m = q" "r < m \<Longrightarrow> (q * m + r) mod m = r" for q r m :: nat
  by simp_all

lemma div_powers: "n div 4096 = n div 64 div 64" "n div 262144 = n div 64 div 64 div 64" "n div 65536 = n div 256 div 256"
  for n :: nat
  by (simp_all flip: div_mult2_eq)

lemma horner64:
  fixes x y z w :: nat
  assumes "y < 64" and "z < 64" and "w < 64"
  shows "(((x * 64 + y) * 64 + z) * 64 + w) mod 64 = w"
    and "(((x * 64 + y) * 64 + z) * 64 + w) div 64 mod 64 = z"
    and "(((x * 64 + y) * 64 + z) * 64 + w) div 4096 mod 64 = y"
    and "(((x * 64 + y) * 64 + z) * 64 + w) div 262144 = x"
  by (simp_all only: div_powers horner_step assms)

lemma horner256:
  fixes a b c :: nat
  assumes "b < 256" and "c < 256"
  shows "((a * 256 + b) * 256 + c) mod 256 = c"
    and "((a * 256 + b) * 256 + c) div 256 mod 256 = b"
    and "((a * 256 + b) * 256 + c) div 65536 = a"
  by (simp_all only: div_powers horner_step assms)

lemma digit_split: "\<exists>q r. a = q * m + r \<and> r < m" if "0 < m" for a m :: nat
  using that by (intro exI [of _ "a div m"] exI [of _ "a mod m"]) simp

lemma regroup:
  "((a div 4 * 64 + (a mod 4 * 16 + b div 16)) * 64 + (b mod 16 * 4 + c div 64)) * 64 + c mod 64 = (a * 256 + b) * 256 + c"
  for a b c :: nat
proof -
  obtain p q where a: "a = p * 4 + q" "q < 4" using digit_split [of 4 a] by auto
  obtain r u where b: "b = r * 16 + u" "u < 16" using digit_split [of 16 b] by auto
  obtain v w where c: "c = v * 64 + w" "w < 64" using digit_split [of 64 c] by auto
  show ?thesis
    using a b c by simp
qed

definition triple :: "nat \<Rightarrow> nat \<Rightarrow> nat \<Rightarrow> nat" where
  "triple a b c = (a * 256 + b) * 256 + c"

lemma triple_sextets:
  assumes "b < 256" and "c < 256"
  shows "triple a b c mod 64 = c mod 64" and "triple a b c div 64 mod 64 = b mod 16 * 4 + c div 64"
    and "triple a b c div 4096 mod 64 = a mod 4 * 16 + b div 16" and "triple a b c div 262144 = a div 4"
proof -
  have "c div 64 < 4" "b mod 16 < 16" "a mod 4 < 4" "b div 16 < 16"
    using assms by (simp_all add: less_mult_imp_div_less)
  then have l: "a mod 4 * 16 + b div 16 < 64" "b mod 16 * 4 + c div 64 < 64" "c mod 64 < 64" by simp_all
  show "triple a b c mod 64 = c mod 64" "triple a b c div 64 mod 64 = b mod 16 * 4 + c div 64"
    "triple a b c div 4096 mod 64 = a mod 4 * 16 + b div 16" "triple a b c div 262144 = a div 4"
    unfolding triple_def by (rule horner64 [OF l, of "a div 4", unfolded regroup])+
qed

lemma unat_ucast_u32: "unat (ucast (b :: u8) :: u32) = unat b"
  by (rule unat_ucast_up) simp

lemma join3:
  fixes a b c :: u8
  shows "unat (push_bit 16 (ucast a) OR push_bit 8 (ucast b) OR ucast c :: u32) = triple (unat a) (unat b) (unat c)"
proof -
  note l = unat_byte_lt [of a] unat_byte_lt [of b] unat_byte_lt [of c]
  have bc: "unat (push_bit 8 (ucast b) OR ucast c :: u32) = unat b * 2 ^ 8 + unat c"
    using push_or_arith [of "ucast c :: u32" 8 "ucast b"] l by (simp add: unat_ucast_u32)
  then show ?thesis
    using push_or_arith [of "push_bit 8 (ucast b) OR ucast c :: u32" 16 "ucast a"] l
    by (simp add: unat_ucast_u32 bc triple_def)
qed

lemma conv_sextet: "conv_bin2ascii (ucast (drop_bit k l)) = ch (unat l div 2 ^ k mod 64)" for l :: u32
proof -
  have "unat (ucast (drop_bit k l) :: u8) mod 64 = unat l div 2 ^ k mod 64"
    by (simp add: unsigned_ucast_eq take_bit_eq_mod unat_drop_bit mod_mod_cancel)
  then show ?thesis by (simp add: conv_bin2ascii ch_def)
qed

lemma conv_sextet_0: "conv_bin2ascii (ucast l) = ch (unat l mod 64)" for l :: u32
  using conv_sextet [of 0 l] by simp

lemma conv_sextets:
  "conv_bin2ascii (ucast (drop_bit 18 l)) = ch (unat l div 262144 mod 64)"
  "conv_bin2ascii (ucast (drop_bit 12 l)) = ch (unat l div 4096 mod 64)"
  "conv_bin2ascii (ucast (drop_bit 6 l)) = ch (unat l div 64 mod 64)" for l :: u32
  using conv_sextet [of 18 l] conv_sextet [of 12 l] conv_sextet [of 6 l] by simp_all

lemma quad_chars:
  assumes "unat (l :: u32) = triple a b c" and "a < 256" and "b < 256" and "c < 256"
  shows "conv_bin2ascii (ucast (drop_bit 18 l)) = ch (a div 4)"
    and "conv_bin2ascii (ucast (drop_bit 12 l)) = ch (a mod 4 * 16 + b div 16)"
    and "conv_bin2ascii (ucast (drop_bit 6 l)) = ch (b mod 16 * 4 + c div 64)"
    and "conv_bin2ascii (ucast l) = ch (c mod 64)"
proof -
  have "a div 4 < 64" using assms(2) by (simp add: less_mult_imp_div_less)
  then show "conv_bin2ascii (ucast (drop_bit 18 l)) = ch (a div 4)"
    by (simp only: conv_sextets(1) assms(1) triple_sextets(4) [OF assms(3,4)] mod_less)
  show "conv_bin2ascii (ucast (drop_bit 12 l)) = ch (a mod 4 * 16 + b div 16)"
    "conv_bin2ascii (ucast (drop_bit 6 l)) = ch (b mod 16 * 4 + c div 64)"
    by (simp_all only: conv_sextets(2,3) assms(1) triple_sextets(2,3) [OF assms(3,4)])
  show "conv_bin2ascii (ucast l) = ch (c mod 64)"
    by (simp only: conv_sextet_0 assms(1) triple_sextets(1) [OF assms(3,4)])
qed

lemma encode_block_loop_eq: "encode_block_loop s = (base64 s, length (base64 s) mod size_mod)"
proof (induction s rule: base64.induct)
  case (2 a)
  have "unat (push_bit 16 (ucast a) :: u32) = triple (unat a) 0 0"
    using join3 [of a 0 0] by simp
  note q = quad_chars [OF this unat_byte_lt, simplified]
  show ?case
    by (simp only: encode_block_loop.simps Let_def q base64.simps) simp
next
  case (3 a b)
  have "unat (push_bit 16 (ucast a) OR push_bit 8 (ucast b) :: u32) = triple (unat a) (unat b) 0"
    using join3 [of a b 0] by simp
  note q = quad_chars [OF this unat_byte_lt unat_byte_lt]
  show ?case
    by (simp only: encode_block_loop.simps Let_def q base64.simps) simp
next
  case (4 a b c s)
  note q = quad_chars [OF join3 unat_byte_lt unat_byte_lt unat_byte_lt, of a b c]
  show ?case
    by (simp only: encode_block_loop.simps Let_def q base64.simps 4 prod.case) (simp add: mod_simps)
qed simp


section \<open>Decoding a quad\<close>

definition quad :: "nat \<Rightarrow> nat \<Rightarrow> nat \<Rightarrow> nat \<Rightarrow> nat" where
  "quad a b c d = ((a * 64 + b) * 64 + c) * 64 + d"

lemma quad_bytes:
  fixes v :: u32
  assumes "unat v = quad a b c d"
  shows "ucast (drop_bit 16 v) = (word_of_nat (quad a b c d div 65536) :: u8)"
    and "ucast (drop_bit 8 v) = (word_of_nat (quad a b c d div 256) :: u8)"
    and "ucast v = (word_of_nat (quad a b c d) :: u8)"
  using unat_drop_bit [of 16 v] unat_drop_bit [of 8 v] assms word_of_nat_unat [of "drop_bit 16 v", where 'b = 8]
    word_of_nat_unat [of "drop_bit 8 v", where 'b = 8] word_of_nat_unat [of v, where 'b = 8]
  by simp_all

lemma join4:
  fixes a b c d :: u8
  assumes "unat a < 64" and "unat b < 64" and "unat c < 64" and "unat d < 64"
  shows "unat (push_bit 18 (ucast a) OR push_bit 12 (ucast b) OR push_bit 6 (ucast c) OR ucast d :: u32) =
    quad (unat a) (unat b) (unat c) (unat d)"
proof -
  have cd: "unat (push_bit 6 (ucast c) OR ucast d :: u32) = unat c * 2 ^ 6 + unat d"
    using push_or_arith [of "ucast d :: u32" 6 "ucast c"] assms by (simp add: unat_ucast_u32)
  then have bcd: "unat (push_bit 12 (ucast b) OR push_bit 6 (ucast c) OR ucast d :: u32) = unat b * 2 ^ 12 + (unat c * 2 ^ 6 + unat d)"
    using push_or_arith [of "push_bit 6 (ucast c) OR ucast d :: u32" 12 "ucast b"] assms by (simp add: unat_ucast_u32)
  then show ?thesis
    using push_or_arith [of "push_bit 12 (ucast b) OR push_bit 6 (ucast c) OR ucast d :: u32" 18 "ucast a"] assms
    by (simp add: unat_ucast_u32 quad_def)
qed

lemma b64_value_less: "b64_value c = Some v \<Longrightarrow> v < 64"
  by (auto simp: b64_value_def Let_def split: if_splits)

lemma padding_cases:
  "(push_bit 3 (of_bool p) OR push_bit 2 (of_bool q) OR push_bit 1 (of_bool r) OR of_bool s :: u32) =
     (if p then 8 else 0) + (if q then 4 else 0) + (if r then 2 else 0) + (if s then 1 else 0)"
  by (cases p; cases q; cases r; cases s; simp)

text \<open>What a quad of characters with the values \<open>a\<close>, \<open>b\<close>, \<open>c\<close>, \<open>d\<close> stands for.\<close>

lemma decode_quad:
  assumes "b64_value w = Some a" and "b64_value x = Some b" and "b64_value y = Some c" and "b64_value z = Some d"
    and "w \<noteq> 0x3d" and "x \<noteq> 0x3d"
  shows "base64_decode_quad w x y z =
    (if y \<noteq> 0x3d \<and> z \<noteq> 0x3d then
       Some [word_of_nat (quad a b c d div 65536), word_of_nat (quad a b c d div 256), word_of_nat (quad a b c d)]
     else if y \<noteq> 0x3d \<and> z = 0x3d then
       Some [word_of_nat (quad a b c d div 65536), word_of_nat (quad a b c d div 256)]
     else if y = 0x3d \<and> z = 0x3d then Some [word_of_nat (quad a b c d div 65536)]
     else None)"
proof -
  have l: "a < 64" "b < 64" "c < 64" "d < 64" using assms(1-4) by (auto dest: b64_value_less)
  have u: "unat (word_of_nat n :: u8) = n" if "n < 64" for n
    using that by (simp add: unat_word_of_nat_byte)
  have ff: "(word_of_nat n :: u8) \<noteq> 0xff" if "n < 64" for n
    using that u [of n] by (auto simp: word_unat_eq_iff)
  define v :: u32 where "v = push_bit 18 (ucast (word_of_nat a :: u8)) OR push_bit 12 (ucast (word_of_nat b :: u8)) OR
    push_bit 6 (ucast (word_of_nat c :: u8)) OR ucast (word_of_nat d :: u8)"
  have v: "unat v = quad a b c d"
    using join4 [of "word_of_nat a" "word_of_nat b" "word_of_nat c" "word_of_nat d"] l by (simp add: v_def u)
  show ?thesis
    unfolding base64_decode_quad_def Let_def ascii_to_bin assms(1-4) option.case padding_cases v_def [symmetric] quad_bytes [OF v]
    using assms(5,6) ff [OF l(1)] ff [OF l(2)] ff [OF l(3)] ff [OF l(4)] by simp
qed

lemma decode_quad_None:
  "b64_value w = None \<or> b64_value x = None \<or> b64_value y = None \<or> b64_value z = None \<or> w = 0x3d \<or> x = 0x3d \<Longrightarrow>
     base64_decode_quad w x y z = None"
  unfolding base64_decode_quad_def Let_def ascii_to_bin padding_cases by (auto split: option.splits)

lemma ch_value [simp]: "n < 64 \<Longrightarrow> b64_value (ch n) = Some n" "n < 64 \<Longrightarrow> ch n \<noteq> 0x3d"
  by (simp_all add: ch_def b64_value_char b64_char_not_pad)

lemma pad_value [simp]: "b64_value 0x3d = Some 0"
  by code_simp


section \<open>Round trip of a block\<close>

lemma word_of_nat_cong: "m mod 256 = n mod 256 \<Longrightarrow> (word_of_nat m :: u8) = word_of_nat n"
  by (simp add: word_unat_eq_iff unat_word_of_nat_byte)

lemma triple_bytes:
  fixes a b c :: u8
  shows "(word_of_nat (triple (unat a) (unat b) (unat c) div 65536) :: u8) = a"
    and "(word_of_nat (triple (unat a) (unat b) (unat c) div 256) :: u8) = b"
    and "(word_of_nat (triple (unat a) (unat b) (unat c)) :: u8) = c"
proof -
  note h = horner256 [OF unat_byte_lt unat_byte_lt, of "unat a" b c, folded triple_def]
  show "(word_of_nat (triple (unat a) (unat b) (unat c) div 65536) :: u8) = a"
    unfolding h(3) by simp
  show "(word_of_nat (triple (unat a) (unat b) (unat c) div 256) :: u8) = b"
    using word_of_nat_cong [of "triple (unat a) (unat b) (unat c) div 256" "unat b"] h(2) by simp
  show "(word_of_nat (triple (unat a) (unat b) (unat c)) :: u8) = c"
    using word_of_nat_cong [of "triple (unat a) (unat b) (unat c)" "unat c"] h(1) by simp
qed

lemma quad_triple:
  "quad (a div 4) (a mod 4 * 16 + b div 16) (b mod 16 * 4 + c div 64) (c mod 64) = triple a b c"
  unfolding quad_def triple_def by (rule regroup)

lemma sextets_lt:
  fixes a b c :: u8
  shows "unat a div 4 < 64" and "unat a mod 4 * 16 + unat b div 16 < 64"
    and "unat b mod 16 * 4 + unat c div 64 < 64" and "unat c mod 64 < 64"
    and "unat a mod 4 * 16 < 64" and "unat b mod 16 * 4 < 64"
proof -
  have *: "unat a div 4 < 64" "unat b div 16 < 16" "unat c div 64 < 4" "unat a mod 4 < 4" "unat b mod 16 < 16"
    using unat_byte_lt [of a] unat_byte_lt [of b] unat_byte_lt [of c] by (simp_all add: less_mult_imp_div_less)
  show "unat a div 4 < 64" "unat a mod 4 * 16 + unat b div 16 < 64"
    "unat b mod 16 * 4 + unat c div 64 < 64" "unat c mod 64 < 64" "unat a mod 4 * 16 < 64" "unat b mod 16 * 4 < 64"
    using * by simp_all
qed

text \<open>The quads that \<^const>\<open>base64\<close> writes are read back.\<close>

lemma decode_quad_triple:
  "base64_decode_quad (ch (unat a div 4)) (ch (unat a mod 4 * 16 + unat b div 16))
     (ch (unat b mod 16 * 4 + unat c div 64)) (ch (unat c mod 64)) = Some [a, b, c]"
  unfolding decode_quad [OF ch_value(1) ch_value(1) ch_value(1) ch_value(1) ch_value(2) ch_value(2),
    OF sextets_lt(1) [of a] sextets_lt(2) [of a b] sextets_lt(3) [of b c] sextets_lt(4) [of c] sextets_lt(1) [of a] sextets_lt(2) [of a b]]
    quad_triple triple_bytes
  by (simp add: sextets_lt)

lemma decode_quad_pair:
  "base64_decode_quad (ch (unat a div 4)) (ch (unat a mod 4 * 16 + unat b div 16)) (ch (unat b mod 16 * 4)) 0x3d = Some [a, b]"
  unfolding decode_quad [OF ch_value(1) ch_value(1) ch_value(1) pad_value ch_value(2) ch_value(2),
    OF sextets_lt(1) [of a] sextets_lt(2) [of a b] sextets_lt(6) [of b] sextets_lt(1) [of a] sextets_lt(2) [of a b]]
  using quad_triple [of "unat a" "unat b" 0] triple_bytes [of a b 0] by (simp add: sextets_lt)

lemma decode_quad_single:
  "base64_decode_quad (ch (unat a div 4)) (ch (unat a mod 4 * 16)) 0x3d 0x3d = Some [a]"
  unfolding decode_quad [OF ch_value(1) ch_value(1) pad_value pad_value ch_value(2) ch_value(2),
    OF sextets_lt(1) [of a] sextets_lt(5) [of a] sextets_lt(1) [of a] sextets_lt(5) [of a]]
  using quad_triple [of "unat a" 0 0] triple_bytes [of a 0 0] by simp

lemma decode_base64_loop_base64: "decode_base64_loop (base64 s) = (True, s)"
  by (induction s rule: base64.induct) (simp_all add: decode_quad_triple decode_quad_pair decode_quad_single)

lemma length_base64: "length (base64 s) = (length s + 2) div 3 * 4"
proof (induction s rule: base64.induct)
  case (4 a b c s)
  have "length (a # b # c # s) + 2 = (length s + 2) + 3" by simp
  then show ?case using 4 by (simp only: div_add_self2) simp
qed simp_all

lemma length_base64_mod: "length (base64 s) mod 4 = 0"
  by (simp add: length_base64)

lemma EVP_EncodeBlock_base64: "EVP_EncodeBlock s = (base64 s @ [0], length (base64 s) mod size_mod)"
  by (simp add: EVP_EncodeBlock_def encode_block_loop_eq)

lemma EVP_EncodedLength:
  assumes "n < 2 ^ 62"
  shows "EVP_EncodedLength (word_of_nat n) = Some (word_of_nat ((n + 2) div 3 * 4 + 1))"
proof -
  define w where "w = (word_of_nat n :: u64)"
  have u: "unat w = n" using assms by (simp add: w_def unat_of_nat take_bit_nat_eq_self_iff)
  have d: "(n + 2) div 3 < 2 ^ 61" using assms by simp
  have a: "unat (w + 2) = n + 2" using assms u by (simp add: wrap_add)
  have q: "unat ((w + 2) div 3) = (n + 2) div 3" using a by (simp add: unat_div_distrib)
  define k where "k = (w + 2) div 3"
  have p: "unat (push_bit 2 k) = (n + 2) div 3 * 4"
    using d q by (simp add: unat_push_bit k_def)
  have r: "drop_bit 2 (push_bit 2 k) = k"
    by (simp add: word_unat_eq_iff unat_drop_bit p q [folded k_def])
  have s: "unat (push_bit 2 k + 1) = (n + 2) div 3 * 4 + 1" using p d by (simp add: wrap_add)
  have "EVP_EncodedLength w = Some (push_bit 2 k + 1)"
    using u a r s p by (simp add: EVP_EncodedLength_def Let_def word_less_nat_alt flip: k_def)
  moreover have "push_bit 2 k + 1 = word_of_nat ((n + 2) div 3 * 4 + 1)"
    using arg_cong [OF s, of "word_of_nat :: nat \<Rightarrow> u64"] by simp
  ultimately show ?thesis by (simp add: w_def)
qed


section \<open>The streaming encoder\<close>

text \<open>What is written for the whole lines of an input, and for an input with its last, shorter line.\<close>

function encoded_lines :: "u8 list \<Rightarrow> u8 list" where
  "encoded_lines s = (if sizeof_data \<le> length s then base64 (take sizeof_data s) @ [0x0a] @ encoded_lines (drop sizeof_data s) else [])"
  by pat_completeness auto
termination
  by (relation "measure length") auto

declare encoded_lines.simps [simp del]

definition rest_of :: "u8 list \<Rightarrow> u8 list" where
  "rest_of s = drop (length s div sizeof_data * sizeof_data) s"

definition encoded_text :: "u8 list \<Rightarrow> u8 list" where
  "encoded_text s = encoded_lines s @ (if rest_of s = [] then [] else base64 (rest_of s) @ [0x0a])"

lemma encoded_lines_short [simp]: "length s < sizeof_data \<Longrightarrow> encoded_lines s = []"
  by (subst encoded_lines.simps) simp

lemma encoded_lines_block:
  "length b = sizeof_data \<Longrightarrow> encoded_lines (b @ s) = base64 b @ [0x0a] @ encoded_lines s"
  by (subst encoded_lines.simps) simp

lemma rest_of_short [simp]: "length s < sizeof_data \<Longrightarrow> rest_of s = s"
  by (simp add: rest_of_def)

lemma rest_of_block: "length b = sizeof_data \<Longrightarrow> rest_of (b @ s) = rest_of s"
  by (simp add: rest_of_def div_add_self1)

lemma length_rest_of: "length (rest_of s) < sizeof_data"
proof -
  have "length s - length s div sizeof_data * sizeof_data = length s mod sizeof_data"
    by (simp add: minus_div_mult_eq_mod)
  then show ?thesis by (simp add: rest_of_def)
qed

lemma block_induct [case_names short block]:
  assumes "\<And>s. length s < sizeof_data \<Longrightarrow> P s"
    and "\<And>b s. length b = sizeof_data \<Longrightarrow> P s \<Longrightarrow> P (b @ s)"
  shows "P (s :: u8 list)"
proof (induction s rule: encoded_lines.induct)
  case (1 s)
  show ?case
  proof (cases "sizeof_data \<le> length s")
    case True
    then have "P (take sizeof_data s @ drop sizeof_data s)"
      by (intro assms(2)) (simp_all add: 1)
    then show ?thesis by simp
  qed (simp add: assms(1))
qed

lemma encoded_lines_rest: "encoded_lines (s @ t) = encoded_lines s @ encoded_lines (rest_of s @ t)"
proof (induction s rule: block_induct)
  case (block b s)
  then show ?case using encoded_lines_block [OF block(1), of "s @ t"] by (simp add: encoded_lines_block rest_of_block)
qed simp

lemma rest_of_rest: "rest_of (s @ t) = rest_of (rest_of s @ t)"
proof (induction s rule: block_induct)
  case (block b s)
  then show ?case using rest_of_block [OF block(1), of "s @ t"] by (simp add: rest_of_block)
qed simp

lemma length_encoded_lines: "length (encoded_lines s) = length s div sizeof_data * 65"
  by (induction s rule: block_induct) (simp_all add: encoded_lines_block length_base64 div_add_self1)

lemma encode_line_eq: "length b \<le> sizeof_data \<Longrightarrow> encode_line b = (base64 b @ [0x0a], length (base64 b))"
proof -
  assume "length b \<le> sizeof_data"
  then have "(length b + 2) div 3 \<le> 16" by simp
  then have "length (base64 b) < size_mod" by (simp add: length_base64)
  then show ?thesis by (simp add: encode_line_def EVP_EncodeBlock_base64)
qed

lemma encode_lines_loop_eq:
  "t + length (encoded_lines s) < size_mod \<Longrightarrow>
     encode_lines_loop s t = (encoded_lines s, Some (t + length (encoded_lines s), rest_of s))"
proof (induction s arbitrary: t rule: block_induct)
  case (short s)
  then show ?case by (subst encode_lines_loop.simps) simp
next
  case (block b s)
  have l: "length (base64 b) = 64" using block(1) by (simp add: length_base64)
  have "t + 65 + length (encoded_lines s) < size_mod"
    using block(1,3) by (simp add: encoded_lines_block l)
  then show ?case
    using block(1) block(2) [of "65 + t"]
    by (subst encode_lines_loop.simps) (simp add: add.commute [of t] encode_line_eq l encoded_lines_block rest_of_block)
qed

text \<open>The invariant of an encoder, and the bytes that it holds back.\<close>

definition encoder_ok :: "evp_encode_ctx \<Rightarrow> bool" where
  "encoder_ok ctx \<longleftrightarrow> data_used ctx < sizeof_data \<and> length (data ctx) = sizeof_data"

definition held :: "evp_encode_ctx \<Rightarrow> u8 list" where
  "held ctx = take (data_used ctx) (data ctx)"

lemma length_held: "encoder_ok ctx \<Longrightarrow> length (held ctx) = data_used ctx"
  by (simp add: encoder_ok_def held_def)

lemma encoder_init: "encoder_ok EVP_EncodeInit" "held EVP_EncodeInit = []"
  by (simp_all add: encoder_ok_def held_def EVP_EncodeInit_def)

lemma put_data_simps [simp]:
  "data_used (put_data off bs ctx) = data_used ctx"
  "eof_seen (put_data off bs ctx) = eof_seen ctx" "error_encountered (put_data off bs ctx) = error_encountered ctx"
  "off + length bs \<le> length (data ctx) \<Longrightarrow> length (data (put_data off bs ctx)) = length (data ctx)"
  "off + length bs \<le> length (data ctx) \<Longrightarrow> take (off + length bs) (data (put_data off bs ctx)) = take off (data ctx) @ bs"
  by (simp_all add: put_data_def)

lemma EVP_EncodeUpdate_eq:
  assumes "encoder_ok ctx" and "length inp < 2 ^ 62"
  obtains ctx' where "encoder_ok ctx'" and "held ctx' = rest_of (held ctx @ inp)"
    and "EVP_EncodeUpdate ctx inp = (ctx', encoded_lines (held ctx @ inp),
      if int (length (encoded_lines (held ctx @ inp))) > INT_MAX then 0 else int (length (encoded_lines (held ctx @ inp))))"
proof -
  define s where "s = held ctx @ inp"
  define n where "n = length (encoded_lines s)"
  have ok: "data_used ctx < sizeof_data" "length (data ctx) = sizeof_data" using assms(1) by (simp_all add: encoder_ok_def)
  have ls: "length s = data_used ctx + length inp" using length_held [OF assms(1)] by (simp add: s_def)
  have nlt: "n < size_mod"
  proof -
    have "length s div sizeof_data \<le> 2 ^ 62 div 48 + 1" using assms(2) ok(1) ls by simp
    then show ?thesis by (simp add: n_def length_encoded_lines)
  qed
  consider (empty) "inp = []" | (short) "inp \<noteq> []" "length s < sizeof_data" | (long) "inp \<noteq> []" "sizeof_data \<le> length s"
    by linarith
  then show thesis
  proof cases
    case empty
    then have "s = held ctx" "length s < sizeof_data" using ok(1) ls by (simp_all add: s_def)
    then show thesis
      using that [of ctx] assms(1) empty by (simp add: EVP_EncodeUpdate_def flip: s_def)
  next
    case short
    define ctx' where "ctx' = (put_data (data_used ctx) inp ctx)\<lparr>data_used := data_used ctx + length inp\<rparr>"
    have "encoder_ok ctx'" "held ctx' = s"
      using short(2) ok ls by (simp_all add: encoder_ok_def held_def ctx'_def s_def)
    moreover have "EVP_EncodeUpdate ctx inp = (ctx', [], 0)"
    proof -
      have "length inp < sizeof_data - data_used ctx" "length inp \<noteq> 0" using short ok ls by simp_all
      then show ?thesis by (simp add: EVP_EncodeUpdate_def ctx'_def)
    qed
    ultimately show thesis
      using that [of ctx'] short(2) by (simp add: flip: s_def)
  next
    case long
    define todo where "todo = (if data_used ctx = 0 then 0 else sizeof_data - data_used ctx)"
    define c1 where "c1 = (if data_used ctx \<noteq> 0 then (put_data (data_used ctx) (take todo inp) ctx)\<lparr>data_used := 0\<rparr> else ctx)"
    define out where "out = (if data_used ctx \<noteq> 0 then base64 (held ctx @ take todo inp) @ [0x0a] else [])"
    define rest where "rest = drop todo inp"
    have block: "length (held ctx @ take todo inp) = sizeof_data" if "data_used ctx \<noteq> 0"
      using that long ls ok(1) length_held [OF assms(1)] by (simp add: todo_def)
    have s: "s = held ctx @ take todo inp @ rest" by (simp add: s_def rest_def)
    have lines: "encoded_lines s = out @ encoded_lines rest" and r: "rest_of s = rest_of rest"
      using encoded_lines_block [OF block, of rest] rest_of_block [OF block, of rest]
      by (cases "data_used ctx = 0"; simp add: out_def s held_def todo_def)+
    have lo: "length out + length (encoded_lines rest) = n" by (simp add: n_def lines)
    have c1: "length (data c1) = sizeof_data"
      using ok long ls by (simp add: c1_def todo_def)
    define c2 where "c2 = (if rest_of rest \<noteq> [] then put_data 0 (rest_of rest) c1 else c1)\<lparr>data_used := length (rest_of rest)\<rparr>"
    have "encoder_ok c2" "held c2 = rest_of s"
      using length_rest_of [of rest] c1 put_data_simps(5) [of 0 "rest_of rest" c1] by (auto simp: encoder_ok_def held_def c2_def r)
    moreover have "EVP_EncodeUpdate ctx inp = (c2, encoded_lines s, if int n > INT_MAX then 0 else int n)"
    proof -
      have d: "data (put_data (data_used ctx) (take todo inp) ctx) = held ctx @ take todo inp" if "data_used ctx \<noteq> 0"
        using that long ls ok put_data_simps(4,5) [of "data_used ctx" "take todo inp" ctx]
        by (simp add: todo_def held_def)
      have first: "(if data_used ctx \<noteq> 0 then
                 let todo = sizeof_data - data_used ctx;
                     ctx = put_data (data_used ctx) (take todo inp) ctx
                 in (case encode_line (data ctx) of (line, encoded) \<Rightarrow>
                       (ctx\<lparr>data_used := 0\<rparr>, line, encoded + 1, drop todo inp))
               else (ctx, [], 0, inp)) = (c1, out, length out, rest)"
        using block d by (simp add: Let_def c1_def out_def rest_def encode_line_eq todo_def)
      have "\<not> sizeof_data - data_used ctx > length inp" "length inp \<noteq> 0" using long ls by simp_all
      then show ?thesis
        unfolding EVP_EncodeUpdate_def first using encode_lines_loop_eq [of "length out" rest] lo nlt
        by (simp add: c2_def lines Let_def)
    qed
    ultimately show thesis using that [of c2] by (simp add: n_def s_def)
  qed
qed


text \<open>A caller that encodes its data in chunks and takes \<open>*out_len\<close> bytes from each call.\<close>

fun encode_chunks :: "evp_encode_ctx \<Rightarrow> u8 list list \<Rightarrow> u8 list" where
  "encode_chunks ctx [] = (case EVP_EncodeFinal ctx of (ctx, out, out_len) \<Rightarrow> take (nat out_len) out)"
| "encode_chunks ctx (c # cs) =
     (case EVP_EncodeUpdate ctx c of (ctx, out, out_len) \<Rightarrow> take (nat out_len) out @ encode_chunks ctx cs)"

lemma encode_chunks_eq:
  assumes "encoder_ok ctx" and "\<forall>c \<in> set cs. length c < 2 ^ 30"
  shows "encode_chunks ctx cs = encoded_text (held ctx @ concat cs)"
  using assms
proof (induction cs arbitrary: ctx)
  case Nil
  have "length (held ctx) < sizeof_data" "data_used ctx \<le> sizeof_data"
    using Nil(1) length_held [of ctx] by (simp_all add: encoder_ok_def)
  moreover have "data_used ctx = 0 \<longleftrightarrow> held ctx = []" using length_held [OF Nil(1)] by auto
  ultimately show ?case
    using length_held [OF Nil(1)]
    by (auto simp: EVP_EncodeFinal_def encode_line_eq encoded_text_def simp flip: held_def)
next
  case (Cons c cs)
  have "length c < 2 ^ 62" using Cons.prems(2) by simp
  from EVP_EncodeUpdate_eq [OF Cons.prems(1) this] obtain ctx' where ok: "encoder_ok ctx'"
    and held: "held ctx' = rest_of (held ctx @ c)"
    and u: "EVP_EncodeUpdate ctx c = (ctx', encoded_lines (held ctx @ c),
      if int (length (encoded_lines (held ctx @ c))) > INT_MAX then 0 else int (length (encoded_lines (held ctx @ c))))"
    by blast
  have "length (held ctx @ c) div sizeof_data \<le> 2 ^ 30 div 48 + 1"
    using Cons.prems length_held [of ctx] div_le_mono [of "data_used ctx + length c" "2 ^ 30 + 48" 48] by (simp add: encoder_ok_def)
  then have m: "\<not> int (length (encoded_lines (held ctx @ c))) > INT_MAX" by (simp add: length_encoded_lines)
  have "encode_chunks ctx (c # cs) = encoded_lines (held ctx @ c) @ encoded_text (rest_of (held ctx @ c) @ concat cs)"
    using u Cons.IH [OF ok] Cons.prems(2) m by (simp add: held)
  also have "\<dots> = encoded_text ((held ctx @ c) @ concat cs)"
    unfolding encoded_text_def using encoded_lines_rest [of "held ctx @ c" "concat cs"] rest_of_rest [of "held ctx @ c" "concat cs"]
    by simp
  finally show ?case by simp
qed

section \<open>The streaming decoder\<close>

abbreviation blank :: "u8 \<Rightarrow> bool" where
  "blank c \<equiv> c = 0x20 \<or> c = 0x09 \<or> c = 0x0d \<or> c = 0x0a"

text \<open>The invariant of a decoder; it keeps a write to \<open>data[data_used]\<close> within the array.\<close>

definition decoder_ok :: "evp_encode_ctx \<Rightarrow> bool" where
  "decoder_ok ctx \<longleftrightarrow> data_used ctx < 4 \<and> length (data ctx) = sizeof_data"

lemma decode_update_loop_append:
  "decode_update_loop (x @ y) ctx =
     (case decode_update_loop x ctx of
        (False, c, o1) \<Rightarrow> (False, c, o1)
      | (True, c, o1) \<Rightarrow> (case decode_update_loop y c of (ok, c, o2) \<Rightarrow> (ok, c, o1 @ o2)))"
  by (induction x ctx rule: decode_update_loop.induct) (simp_all add: Let_def split: option.split prod.split bool.split)

lemma decode_update_loop_filter: "decode_update_loop (filter (\<lambda>c. \<not> blank c) x) ctx = decode_update_loop x ctx"
  by (induction x ctx rule: decode_update_loop.induct) (auto simp: Let_def split: option.split prod.split)

lemma decode_quad_length: "base64_decode_quad a b c d = Some bs \<Longrightarrow> 1 \<le> length bs \<and> length bs \<le> 3"
  by (auto simp: base64_decode_quad_def Let_def split: if_splits)

lemma decode_update_loop_props:
  "decoder_ok ctx \<Longrightarrow> decode_update_loop x ctx = (ok, ctx', out) \<Longrightarrow>
     (ok \<longrightarrow> decoder_ok ctx' \<and> error_encountered ctx' = error_encountered ctx) \<and> (\<not> ok \<longrightarrow> error_encountered ctx') \<and>
     data_used ctx' \<le> 4 \<and> length (data ctx') = sizeof_data \<and> (eof_seen ctx \<longrightarrow> eof_seen ctx') \<and>
     4 * length out + 3 * data_used ctx' \<le> 3 * (data_used ctx + length x)"
proof (induction x ctx arbitrary: ok ctx' out rule: decode_update_loop.induct)
  case (2 c inp ctx)
  show ?case
  proof (cases "blank c")
    case True
    then show ?thesis using 2(1) [of ok ctx' out] 2(4,5) by auto
  next
    case False
    define c1 where "c1 = ctx\<lparr>data := (data ctx)[data_used ctx := c], data_used := data_used ctx + 1\<rparr>"
    have c1: "length (data c1) = sizeof_data" "data_used c1 \<le> 4" "data_used c1 = data_used ctx + 1" "eof_seen c1 = eof_seen ctx"
      "error_encountered c1 = error_encountered ctx"
      using 2(4) by (simp_all add: c1_def decoder_ok_def)
    have b: "blank c = False" using False by simp
    note step = 2(5) [unfolded decode_update_loop.simps b if_False Let_def c1_def [symmetric]]
    consider (eof) "eof_seen ctx" | (store) "\<not> eof_seen ctx" "data_used c1 \<noteq> 4" | (quad) "\<not> eof_seen ctx" "data_used c1 = 4" by blast
    then show ?thesis
    proof cases
      case eof
      then show ?thesis using step 2(4) by (auto simp: decoder_ok_def)
    next
      case store
      have "decoder_ok c1" using c1 store(2) by (simp add: decoder_ok_def)
      then show ?thesis
        using 2(3) [OF False store(1) c1_def store(2)] store c1 step c1_def by fastforce
    next
      case quad
      show ?thesis
      proof (cases "base64_decode_quad (data c1 ! 0) (data c1 ! 1) (data c1 ! 2) (data c1 ! 3)")
        case None
        then show ?thesis using step quad c1 by auto
      next
        case (Some bs)
        define c2 where "c2 = (if length bs < 3 then c1\<lparr>data_used := 0, eof_seen := True\<rparr> else c1\<lparr>data_used := 0\<rparr>)"
        have c2: "decoder_ok c2" "data_used c2 = 0" "error_encountered c2 = error_encountered ctx" "eof_seen ctx \<longrightarrow> eof_seen c2"
          using c1 by (simp_all add: decoder_ok_def c2_def)
        obtain out2 where l: "decode_update_loop inp c2 = (ok, ctx', out2)" and o: "out = bs @ out2"
          using step quad Some by (auto simp: c2_def split: prod.splits if_splits)
        show ?thesis
          using 2(2) [OF False quad(1) c1_def quad(2) Some refl c2_def c2(1) l] c2 decode_quad_length [OF Some] o quad(2) c1(3)
          by auto
      qed
    qed
  qed
qed (auto simp: decoder_ok_def)


lemma decode_update_loop_quad:
  assumes "data_used ctx = 0" and "length (data ctx) = sizeof_data" and "\<not> eof_seen ctx"
    and "\<not> blank w" and "\<not> blank x" and "\<not> blank y" and "\<not> blank z" and "base64_decode_quad w x y z = Some bs"
  obtains ctx' where "decode_update_loop (w # x # y # z # inp) ctx =
      (case decode_update_loop inp ctx' of (ok, c, out) \<Rightarrow> (ok, c, bs @ out))"
    and "data_used ctx' = 0" and "length (data ctx') = sizeof_data" and "eof_seen ctx' = (length bs < 3)"
    and "error_encountered ctx' = error_encountered ctx"
proof -
  define d where "d = (data ctx)[0 := w, 1 := x, 2 := y, 3 := z]"
  have d: "d ! 0 = w" "d ! 1 = x" "d ! 2 = y" "d ! 3 = z" "length d = sizeof_data"
    using assms(2) by (simp_all add: d_def)
  define c where "c = (if length bs < 3 then ctx\<lparr>data := d, data_used := 0, eof_seen := True\<rparr> else ctx\<lparr>data := d, data_used := 0\<rparr>)"
  have "decode_update_loop (w # x # y # z # inp) ctx =
      (case decode_update_loop inp c of (ok, c, out) \<Rightarrow> (ok, c, bs @ out))"
    using assms by (simp add: Let_def c_def d_def numeral_2_eq_2 numeral_3_eq_3)
  then show thesis
    using that [of c] assms(3) d by (simp add: c_def)
qed

lemma unat_ch: "n < 64 \<Longrightarrow> unat (ch n) \<ge> 43"
  unfolding ch_def by (subst unat_b64_char) (auto simp: b64_char_def)

lemma ch_not_blank: "n < 64 \<Longrightarrow> \<not> blank (ch n)"
  using unat_ch [of n] by (auto simp: word_unat_eq_iff)

lemma pad_not_blank: "\<not> blank 0x3d"
  by simp

lemma base64_not_blank: "c \<in> set (base64 s) \<Longrightarrow> \<not> blank c"
proof (induction s rule: base64.induct)
  case (4 a b c s)
  then show ?case
    unfolding base64.simps set_append list.set insert_iff empty_iff Un_iff by (metis ch_not_blank sextets_lt)
next
  case (2 a)
  then show ?case
    unfolding base64.simps list.set insert_iff empty_iff by (metis ch_not_blank sextets_lt pad_not_blank)
next
  case (3 a b)
  then show ?case
    unfolding base64.simps list.set insert_iff empty_iff by (metis ch_not_blank sextets_lt pad_not_blank)
qed simp

lemma base64_append: "length b mod 3 = 0 \<Longrightarrow> base64 (b @ s) = base64 b @ base64 s"
proof (induction b rule: base64.induct)
  case (4 a b c t)
  have "length (a # b # c # t) = length t + 3" by simp
  then have "length t mod 3 = 0" using 4(2) by (simp only: mod_add_self2)
  then show ?case using 4(1) by simp
qed simp_all

lemma filter_encoded_text: "filter (\<lambda>c. \<not> blank c) (encoded_text s) = base64 s"
proof -
  have f: "filter (\<lambda>c. \<not> blank c) (base64 t) = base64 t" for t
    using base64_not_blank [of _ t] by (intro filter_True ballI)
  have "base64 s = filter (\<lambda>c. \<not> blank c) (encoded_lines s) @ base64 (rest_of s)"
  proof (induction s rule: block_induct)
    case (block b s)
    have m: "length b mod 3 = 0" using block(1) by simp
    show ?case
      using block by (simp only: encoded_lines_block rest_of_block base64_append [OF m] filter_append f) simp
  qed simp
  then show ?thesis
    by (cases "rest_of s = []") (simp_all add: encoded_text_def f [simplified])
qed

lemma decode_update_loop_base64:
  assumes "data_used ctx = 0" and "length (data ctx) = sizeof_data" and "\<not> eof_seen ctx"
  shows "\<exists>ctx'. decode_update_loop (base64 s) ctx = (True, ctx', s) \<and> data_used ctx' = 0 \<and> error_encountered ctx' = error_encountered ctx"
  using assms
proof (induction s arbitrary: ctx rule: base64.induct)
  case (2 a)
  note nb = ch_not_blank [OF sextets_lt(1) [of a]] ch_not_blank [OF sextets_lt(5) [of a]]
  show ?case
    by (rule decode_update_loop_quad [OF 2(1-3) nb _ _ decode_quad_single, of "[]"]) simp_all
next
  case (3 a b)
  note nb = ch_not_blank [OF sextets_lt(1) [of a]] ch_not_blank [OF sextets_lt(2) [of a b]] ch_not_blank [OF sextets_lt(6) [of b]]
  show ?case
    by (rule decode_update_loop_quad [OF 3(1-3) nb _ decode_quad_pair, of "[]"]) simp_all
next
  case (4 a b c s)
  note nb = ch_not_blank [OF sextets_lt(1) [of a]] ch_not_blank [OF sextets_lt(2) [of a b]] ch_not_blank [OF sextets_lt(3) [of b c]]
    ch_not_blank [OF sextets_lt(4) [of c]]
  show ?case
  proof (rule decode_update_loop_quad [OF 4(2-4) nb decode_quad_triple, of "base64 s"])
    fix ctx'
    assume q: "decode_update_loop (ch (unat a div 4) # ch (unat a mod 4 * 16 + unat b div 16) # ch (unat b mod 16 * 4 + unat c div 64) #
        ch (unat c mod 64) # base64 s) ctx = (case decode_update_loop (base64 s) ctx' of (ok, c', out) \<Rightarrow> (ok, c', [a, b, c] @ out))"
      and c: "data_used ctx' = 0" "length (data ctx') = sizeof_data" "eof_seen ctx' = (length [a, b, c] < 3)"
        "error_encountered ctx' = error_encountered ctx"
    from 4(1) [of ctx'] c q show ?thesis by auto
  qed
qed simp

text \<open>A caller that decodes a text in chunks.\<close>

fun decode_chunks :: "evp_encode_ctx \<Rightarrow> u8 list list \<Rightarrow> u8 list option" where
  "decode_chunks ctx [] = (if EVP_DecodeFinal ctx = 1 then Some [] else None)"
| "decode_chunks ctx (d # ds) =
     (case EVP_DecodeUpdate ctx d of (r, ctx, out, out_len) \<Rightarrow>
        if r = - 1 then None else map_option (\<lambda>t. take (nat out_len) out @ t) (decode_chunks ctx ds))"

lemma decode_chunks_eq:
  assumes "decoder_ok ctx" and "\<not> error_encountered ctx" and "\<forall>d \<in> set ds. length d < 2 ^ 30"
    and "decode_update_loop (concat ds) ctx = (True, ctx', out)" and "data_used ctx' = 0"
  shows "decode_chunks ctx ds = Some out"
  using assms
proof (induction ds arbitrary: ctx out)
  case Nil
  then show ?case by (simp add: EVP_DecodeFinal_def)
next
  case (Cons d ds)
  obtain c1 o1 o2 where l: "decode_update_loop d ctx = (True, c1, o1)" "decode_update_loop (concat ds) c1 = (True, ctx', o2)"
    and o: "out = o1 @ o2"
    using Cons.prems(4) by (auto simp: decode_update_loop_append split: prod.splits bool.splits)
  note p = decode_update_loop_props [OF Cons.prems(1) l(1)]
  have "data_used ctx < 4" using Cons.prems(1) by (simp add: decoder_ok_def)
  then have "length o1 < 2147483648" using p Cons.prems(3) by simp
  then show ?case
    using l p o Cons.IH [of c1 o2] Cons.prems by (simp add: EVP_DecodeUpdate_def)
qed

section \<open>The properties\<close>

lemma encode_block_decoded:
  assumes "length s < 2 ^ 62" and "EVP_EncodeBlock s = (dst, n)"
    and "EVP_DecodedLength n = Some max_len" and "max_len \<le> max_out"
  shows "EVP_EncodedLength (word_of_nat (length s)) = Some (word_of_nat (length dst))" and "length dst = n + 1" and "dst ! n = 0"
    and "EVP_DecodeBase64 max_out (take n dst) = (True, length s, s)"
proof -
  have "length (base64 s) < size_mod" using assms(1) by (simp add: length_base64)
  then have e: "dst = base64 s @ [0]" "n = length (base64 s)"
    using assms(2) by (simp_all add: EVP_EncodeBlock_base64)
  show "EVP_EncodedLength (word_of_nat (length s)) = Some (word_of_nat (length dst))"
    using EVP_EncodedLength [OF assms(1)] by (simp add: e length_base64)
  show "length dst = n + 1" "dst ! n = 0" by (simp_all add: e)
  show "EVP_DecodeBase64 max_out (take n dst) = (True, length s, s)"
    using assms(3,4) length_base64_mod [of s] by (simp add: EVP_DecodeBase64_def e decode_base64_loop_base64)
qed

text \<open>C8. \<open>EVP_EncodedLength\<close> gives the number of bytes that \<open>EVP_EncodeBlock\<close> writes, the last of them NUL,
  and \<open>EVP_DecodeBase64\<close> gives the input back from the others, into any buffer of the size that
  \<open>EVP_DecodedLength\<close> gives.\<close>

theorem EVP_EncodeBlock_roundtrip:
  assumes "length s < 2 ^ 62" and "EVP_EncodeBlock s = (dst, n)"
    and "EVP_DecodedLength n = Some max_len" and "max_len \<le> max_out"
  shows "EVP_EncodedLength (word_of_nat (length s)) = Some (word_of_nat (length dst)) \<and> length dst = n + 1 \<and> dst ! n = 0 \<and>
    EVP_DecodeBase64 max_out (take n dst) = (True, length s, s)"
  using encode_block_decoded [OF assms] by blast


lemma EVP_EncodeBlock_roundtrip_witness:
  "EVP_DecodeBase64 6 (take 8 (fst (EVP_EncodeBlock [0x66, 0x6f, 0x6f, 0x62]))) = (True, 4, [0x66, 0x6f, 0x6f, 0x62])"
proof -
  have "EVP_EncodeBlock [0x66, 0x6f, 0x6f, 0x62] = ([0x5a, 0x6d, 0x39, 0x76, 0x59, 0x67, 0x3d, 0x3d, 0], 8)"
    by (simp add: EVP_EncodeBlock_base64 ch_def b64_char_def)
  moreover have "EVP_DecodedLength 8 = Some 6" by (simp add: EVP_DecodedLength_def)
  ultimately show ?thesis
    using EVP_EncodeBlock_roundtrip [of "[0x66, 0x6f, 0x6f, 0x62]" _ 8 6 6] by simp
qed

lemma stream_decoded:
  assumes "\<forall>c \<in> set cs. length c < 2 ^ 30" and "\<forall>d \<in> set ds. length d < 2 ^ 30"
    and "concat ds = encode_chunks EVP_EncodeInit cs"
  shows "encode_chunks EVP_EncodeInit cs = encoded_text (concat cs)" and "decode_chunks EVP_DecodeInit ds = Some (concat cs)"
proof -
  show e: "encode_chunks EVP_EncodeInit cs = encoded_text (concat cs)"
    using encode_chunks_eq [OF encoder_init(1) assms(1)] by (simp add: encoder_init)
  have i: "data_used EVP_DecodeInit = 0" "length (data EVP_DecodeInit) = sizeof_data" "\<not> eof_seen EVP_DecodeInit"
    "\<not> error_encountered EVP_DecodeInit" "decoder_ok EVP_DecodeInit"
    by (simp_all add: EVP_DecodeInit_def EVP_EncodeInit_def decoder_ok_def)
  have "decode_update_loop (concat ds) EVP_DecodeInit = decode_update_loop (base64 (concat cs)) EVP_DecodeInit"
    unfolding assms(3) e filter_encoded_text [symmetric] by (rule decode_update_loop_filter [symmetric])
  with decode_update_loop_base64 [OF i(1-3), of "concat cs"] obtain c
    where "decode_update_loop (concat ds) EVP_DecodeInit = (True, c, concat cs)" "data_used c = 0" by auto
  then show "decode_chunks EVP_DecodeInit ds = Some (concat cs)"
    using decode_chunks_eq [OF i(5,4) assms(2)] by simp
qed

text \<open>C25. However the input is cut into chunks, the streaming encoder writes the lines of 48 encoded bytes and
  the last, shorter line of the whole input; and however that text is cut into chunks, the streaming decoder
  gives the input back and ends without an error.\<close>

theorem EVP_stream_roundtrip:
  assumes "\<forall>c \<in> set cs. length c < 2 ^ 30" and "\<forall>d \<in> set ds. length d < 2 ^ 30"
    and "concat ds = encode_chunks EVP_EncodeInit cs"
  shows "encode_chunks EVP_EncodeInit cs = encoded_text (concat cs) \<and> decode_chunks EVP_DecodeInit ds = Some (concat cs)"
  using stream_decoded [OF assms] by blast


lemma decode_update_kept:
  assumes "\<not> error_encountered ctx \<longrightarrow> decoder_ok ctx" and "EVP_DecodeUpdate ctx inp = (r, ctx', out, n)"
  shows "\<not> error_encountered ctx' \<longrightarrow> decoder_ok ctx'" and "r = - 1 \<longleftrightarrow> error_encountered ctx'"
    and "r = 0 \<longleftrightarrow> eof_seen ctx' \<and> \<not> error_encountered ctx'"
    and "error_encountered ctx \<longrightarrow> error_encountered ctx' \<and> out = []" and "eof_seen ctx \<longrightarrow> eof_seen ctx'"
    and "n = (if r = - 1 then 0 else int (length out))" and "4 * length out \<le> 3 * (data_used ctx + length inp)"
proof -
  have "(\<not> error_encountered ctx' \<longrightarrow> decoder_ok ctx') \<and> (r = - 1 \<longleftrightarrow> error_encountered ctx') \<and>
    (r = 0 \<longleftrightarrow> eof_seen ctx' \<and> \<not> error_encountered ctx') \<and> (error_encountered ctx \<longrightarrow> error_encountered ctx' \<and> out = []) \<and>
    (eof_seen ctx \<longrightarrow> eof_seen ctx') \<and> n = (if r = - 1 then 0 else int (length out)) \<and>
    4 * length out \<le> 3 * (data_used ctx + length inp)"
  proof (cases "error_encountered ctx")
    case True
    then show ?thesis using assms(2) by (auto simp: EVP_DecodeUpdate_def)
  next
    case False
    obtain ok c o1 where l: "decode_update_loop inp ctx = (ok, c, o1)" by (metis prod_cases3)
    have "decoder_ok ctx" using False assms(1) by blast
    note p = decode_update_loop_props [OF this l]
    show ?thesis
      using p assms(2) False l by (cases ok) (auto simp: EVP_DecodeUpdate_def decoder_ok_def split: if_splits)
  qed
  then show "\<not> error_encountered ctx' \<longrightarrow> decoder_ok ctx'" "r = - 1 \<longleftrightarrow> error_encountered ctx'"
    "r = 0 \<longleftrightarrow> eof_seen ctx' \<and> \<not> error_encountered ctx'"
    "error_encountered ctx \<longrightarrow> error_encountered ctx' \<and> out = []" "eof_seen ctx \<longrightarrow> eof_seen ctx'"
    "n = (if r = - 1 then 0 else int (length out))" "4 * length out \<le> 3 * (data_used ctx + length inp)"
    by blast+
qed

text \<open>C38. \<open>EVP_DecodeUpdate\<close> keeps the invariant of a decoder: as long as no error was seen fewer than four
  characters are held, so a write to \<open>data\<close> is in bounds. It returns -1 exactly when the context has its error mark,
  which stays; the end of the data stays seen; and no more bytes are written than three for every four characters.\<close>

theorem EVP_DecodeUpdate_invariant:
  assumes "\<not> error_encountered ctx \<longrightarrow> decoder_ok ctx" and "EVP_DecodeUpdate ctx inp = (r, ctx', out, n)"
  shows "(\<not> error_encountered ctx' \<longrightarrow> decoder_ok ctx') \<and> (r = - 1 \<longleftrightarrow> error_encountered ctx') \<and>
    (r = 0 \<longleftrightarrow> eof_seen ctx' \<and> \<not> error_encountered ctx') \<and>
    (error_encountered ctx \<longrightarrow> error_encountered ctx' \<and> out = []) \<and> (eof_seen ctx \<longrightarrow> eof_seen ctx') \<and>
    n = (if r = - 1 then 0 else int (length out)) \<and> 4 * length out \<le> 3 * (data_used ctx + length inp)"
  using decode_update_kept [OF assms] by blast


lemma EVP_stream_roundtrip_witness:
  "decode_chunks EVP_DecodeInit [take 3 (encode_chunks EVP_EncodeInit [[1, 2], [3, 4]]), drop 3 (encode_chunks EVP_EncodeInit [[1, 2], [3, 4]])] =
     Some [1, 2, 3, 4]"
proof -
  have e: "encode_chunks EVP_EncodeInit [[1, 2], [3, 4]] = [0x41, 0x51, 0x49, 0x44, 0x42, 0x41, 0x3d, 0x3d, 0x0a]"
    using encode_chunks_eq [OF encoder_init(1), of "[[1, 2], [3, 4]]"]
    by (simp add: encoder_init encoded_text_def ch_def b64_char_def)
  let ?ds = "[take 3 (encode_chunks EVP_EncodeInit [[1, 2], [3, 4]]), drop 3 (encode_chunks EVP_EncodeInit [[1, 2], [3, 4]])]"
  have "\<forall>d \<in> set ?ds. length d < 2 ^ 30" unfolding e by simp
  moreover have "concat ?ds = encode_chunks EVP_EncodeInit [[1, 2], [3, 4]]" by (simp del: encode_chunks.simps)
  ultimately have "decode_chunks EVP_DecodeInit ?ds = Some (concat [[1, 2], [3, 4]])"
    by (intro EVP_stream_roundtrip [THEN conjunct2]) simp_all
  then show ?thesis by (simp only: concat.simps append.simps)
qed

lemma EVP_DecodeUpdate_invariant_witness:
  "error_encountered (fst (snd (EVP_DecodeUpdate EVP_DecodeInit [0x3d, 0x3d, 0x3d, 0x3d])))"
proof -
  have d: "\<not> error_encountered EVP_DecodeInit \<longrightarrow> decoder_ok EVP_DecodeInit"
    by (simp add: EVP_DecodeInit_def EVP_EncodeInit_def decoder_ok_def)
  have "fst (EVP_DecodeUpdate EVP_DecodeInit [0x3d, 0x3d, 0x3d, 0x3d]) = - 1" by code_simp
  then show ?thesis
    using EVP_DecodeUpdate_invariant [OF d, of "[0x3d, 0x3d, 0x3d, 0x3d]"] by (cases "EVP_DecodeUpdate EVP_DecodeInit [0x3d, 0x3d, 0x3d, 0x3d]") auto
qed

end
