(* ===== verification/Refcount.thy ===== *)
theory Refcount
  imports Constant_Time
begin

text \<open>
  Model of \<^verbatim>\<open>crypto/refcount.c\<close> (the C11 atomics build). The functions loop on a weak compare-and-exchange,
  which may fail without cause; a turn of each loop is a function of that choice, of the count in memory and
  of the local \<open>expected\<close>. Threads that take and release references interleave in the relation \<open>refs_step\<close>, one
  atomic access at a time.
\<close>

abbreviation CRYPTO_REFCOUNT_MAX :: u32 where
  "CRYPTO_REFCOUNT_MAX \<equiv> 0xffffffff"

section \<open>The code\<close>

text \<open>The exchange: whether it succeeded, the count and \<open>expected\<close> after it.\<close>

definition CRYPTO_atomic_compare_exchange_weak_u32 :: "bool \<Rightarrow> u32 \<Rightarrow> u32 \<Rightarrow> u32 \<Rightarrow> bool \<times> u32 \<times> u32" where
  "CRYPTO_atomic_compare_exchange_weak_u32 spurious count expected new_value =
     (if count = expected \<and> \<not> spurious then (True, new_value, expected) else (False, count, count))"

text \<open>A turn of the loop of \<open>CRYPTO_refcount_inc\<close>: the count, and \<open>expected\<close> when the loop goes on.\<close>

definition CRYPTO_refcount_inc :: "bool \<Rightarrow> u32 \<Rightarrow> u32 \<Rightarrow> u32 \<times> u32 option" where
  "CRYPTO_refcount_inc spurious count expected =
     (if expected \<noteq> CRYPTO_REFCOUNT_MAX then
        let new_value = expected + 1
        in case CRYPTO_atomic_compare_exchange_weak_u32 spurious count expected new_value of
             (True, count, _) \<Rightarrow> (count, None)
           | (False, count, expected) \<Rightarrow> (count, Some expected)
      else (count, None))"

datatype dec_outcome = Abort | Return bool | Again u32

text \<open>A turn of the loop of \<open>CRYPTO_refcount_dec_and_test_zero\<close>.\<close>

definition CRYPTO_refcount_dec_and_test_zero :: "bool \<Rightarrow> u32 \<Rightarrow> u32 \<Rightarrow> u32 \<times> dec_outcome" where
  "CRYPTO_refcount_dec_and_test_zero spurious count expected =
     (if expected = 0 then (count, Abort)
      else if expected = CRYPTO_REFCOUNT_MAX then (count, Return False)
      else
        let new_value = expected - 1
        in case CRYPTO_atomic_compare_exchange_weak_u32 spurious count expected new_value of
             (True, count, _) \<Rightarrow> (count, Return (new_value = 0))
           | (False, count, expected) \<Rightarrow> (count, Again expected))"

section \<open>Threads\<close>

datatype refop = Inc | Dec

text \<open>
  A thread: the operations it still has to run, the first of them under way when \<open>local\<close> holds its
  \<open>expected\<close>; the references it holds; and what its releases returned.
\<close>

record thread =
  ops :: "refop list"
  local :: "u32 option"
  held :: nat
  results :: "bool list"

record refs =
  count :: u32
  threads :: "thread list"
  aborted :: bool

text \<open>One atomic access of a thread: the count and the thread after it, or \<^const>\<open>None\<close> for \<open>abort\<close>.\<close>

definition thread_step :: "bool \<Rightarrow> u32 \<Rightarrow> thread \<Rightarrow> (u32 \<times> thread) option" where
  "thread_step spurious c t =
     (case ops t of
        [] \<Rightarrow> Some (c, t)
      | Inc # rest \<Rightarrow>
          (case local t of
             None \<Rightarrow> Some (c, t\<lparr>local := Some c\<rparr>)
           | Some expected \<Rightarrow>
               (case CRYPTO_refcount_inc spurious c expected of
                  (c, None) \<Rightarrow> Some (c, t\<lparr>ops := rest, local := None, held := held t + 1\<rparr>)
                | (c, Some expected) \<Rightarrow> Some (c, t\<lparr>local := Some expected\<rparr>)))
      | Dec # rest \<Rightarrow>
          (case local t of
             None \<Rightarrow> Some (c, t\<lparr>local := Some c\<rparr>)
           | Some expected \<Rightarrow>
               (case CRYPTO_refcount_dec_and_test_zero spurious c expected of
                  (c, Abort) \<Rightarrow> None
                | (c, Again expected) \<Rightarrow> Some (c, t\<lparr>local := Some expected\<rparr>)
                | (c, Return r) \<Rightarrow>
                    Some (c, t\<lparr>ops := rest, local := None, held := held t - 1, results := results t @ [r]\<rparr>))))"

inductive refs_step :: "refs \<Rightarrow> refs \<Rightarrow> bool" where
  run: "\<not> aborted s \<Longrightarrow> i < length (threads s) \<Longrightarrow> thread_step spurious (count s) (threads s ! i) = Some (c, t) \<Longrightarrow>
    refs_step s (s\<lparr>count := c, threads := (threads s)[i := t]\<rparr>)"
| abort: "\<not> aborted s \<Longrightarrow> i < length (threads s) \<Longrightarrow> thread_step spurious (count s) (threads s ! i) = None \<Longrightarrow>
    refs_step s (s\<lparr>aborted := True\<rparr>)"

inductive_cases refs_stepE: "refs_step s s'"

text \<open>A thread takes and releases references only while it holds one.\<close>

fun proper :: "nat \<Rightarrow> refop list \<Rightarrow> bool" where
  "proper n [] \<longleftrightarrow> True"
| "proper n (Inc # p) \<longleftrightarrow> 0 < n \<and> proper (n + 1) p"
| "proper n (Dec # p) \<longleftrightarrow> 0 < n \<and> proper (n - 1) p"

definition total_held :: "thread list \<Rightarrow> nat" where
  "total_held ts = sum_list (map held ts)"

text \<open>How many releases were told that theirs was the last.\<close>

definition trues :: "thread list \<Rightarrow> nat" where
  "trues ts = sum_list (map (\<lambda>t. length (filter id (results t))) ts)"

definition initial :: "refs \<Rightarrow> bool" where
  "initial s \<longleftrightarrow> \<not> aborted s \<and> 0 < total_held (threads s) \<and> unat (count s) = total_held (threads s) \<and>
     (\<forall>t \<in> set (threads s). proper (held t) (ops t) \<and> local t = None \<and> results t = [])"

section \<open>The invariant\<close>

definition saturated :: "refs \<Rightarrow> bool" where
  "saturated s \<longleftrightarrow> count s = CRYPTO_REFCOUNT_MAX"

definition refs_inv :: "refs \<Rightarrow> bool" where
  "refs_inv s \<longleftrightarrow> \<not> aborted s \<and>
     (\<forall>t \<in> set (threads s). proper (held t) (ops t) \<and> (\<forall>e. local t = Some e \<longrightarrow> e \<noteq> 0 \<and> (e = CRYPTO_REFCOUNT_MAX \<longrightarrow> saturated s))) \<and>
     (if saturated s then trues (threads s) = 0
      else unat (count s) = total_held (threads s) \<and> trues (threads s) = (if total_held (threads s) = 0 then 1 else 0))"

lemma held_le: "t \<in> set ts \<Longrightarrow> held t \<le> total_held ts"
  unfolding total_held_def by (rule member_le_sum_list) simp_all

lemma total_held_update:
  "i < length ts \<Longrightarrow> total_held (ts[i := t]) + held (ts ! i) = total_held ts + held t"
  unfolding total_held_def
proof (induction ts arbitrary: i)
  case (Cons a ts)
  then show ?case by (cases i) auto
qed simp

lemma trues_update:
  "i < length ts \<Longrightarrow> trues (ts[i := t]) + length (filter id (results (ts ! i))) = trues ts + length (filter id (results t))"
  unfolding trues_def
proof (induction ts arbitrary: i)
  case (Cons a ts)
  then show ?case by (cases i) auto
qed simp

text \<open>What an access of a thread that holds a reference does.\<close>

lemma thread_step_cases:
  assumes "proper (held t) (ops t)" and "\<forall>e. local t = Some e \<longrightarrow> e \<noteq> 0"
  obtains (idle) "ops t = []" "thread_step spurious c t = Some (c, t)"
  | (load) "0 < held t" "thread_step spurious c t = Some (c, t\<lparr>local := Some c\<rparr>)"
  | (inc) rest where "ops t = Inc # rest" "0 < held t" "c \<noteq> CRYPTO_REFCOUNT_MAX"
      "thread_step spurious c t = Some (c + 1, t\<lparr>ops := rest, local := None, held := held t + 1\<rparr>)"
  | (inc_saturated) rest where "ops t = Inc # rest" "0 < held t" "local t = Some CRYPTO_REFCOUNT_MAX"
      "thread_step spurious c t = Some (c, t\<lparr>ops := rest, local := None, held := held t + 1\<rparr>)"
  | (dec) rest where "ops t = Dec # rest" "0 < held t" "c \<noteq> CRYPTO_REFCOUNT_MAX" "c \<noteq> 0"
      "thread_step spurious c t =
         Some (c - 1, t\<lparr>ops := rest, local := None, held := held t - 1, results := results t @ [c - 1 = 0]\<rparr>)"
  | (dec_saturated) rest where "ops t = Dec # rest" "0 < held t" "local t = Some CRYPTO_REFCOUNT_MAX"
      "thread_step spurious c t = Some (c, t\<lparr>ops := rest, local := None, held := held t - 1, results := results t @ [False]\<rparr>)"
proof (cases "ops t")
  case Nil
  then show thesis by (intro idle) (simp_all add: thread_step_def)
next
  case (Cons op rest)
  have h: "0 < held t" using assms(1) Cons by (cases op) auto
  show thesis
  proof (cases "local t")
    case None
    then show thesis using h Cons by (intro load) (cases op; simp add: thread_step_def)+
  next
    case (Some e)
    then have e0: "e \<noteq> 0" using assms(2) by blast
    consider "e = CRYPTO_REFCOUNT_MAX" | "e \<noteq> CRYPTO_REFCOUNT_MAX" "c = e" "\<not> spurious"
      | "e \<noteq> CRYPTO_REFCOUNT_MAX" "\<not> (c = e \<and> \<not> spurious)" by blast
    then show thesis
    proof cases
      case 1
      show thesis
      proof (cases op)
        case Inc
        then show thesis using h Cons Some 1
          by (intro inc_saturated [of rest]) (simp_all add: thread_step_def CRYPTO_refcount_inc_def)
      next
        case Dec
        then show thesis using h Cons Some 1
          by (intro dec_saturated [of rest]) (simp_all add: thread_step_def CRYPTO_refcount_dec_and_test_zero_def)
      qed
    next
      case 2
      show thesis
      proof (cases op)
        case Inc
        then show thesis using h Cons Some 2
          by (intro inc [of rest]) (simp_all add: thread_step_def CRYPTO_refcount_inc_def CRYPTO_atomic_compare_exchange_weak_u32_def Let_def)
      next
        case Dec
        then show thesis using h Cons Some 2 e0
          by (intro dec [of rest])
            (simp_all add: thread_step_def CRYPTO_refcount_dec_and_test_zero_def CRYPTO_atomic_compare_exchange_weak_u32_def Let_def)
      qed
    next
      case 3
      then show thesis using h Cons Some e0
        by (intro load) (cases op; auto simp: thread_step_def CRYPTO_refcount_dec_and_test_zero_def CRYPTO_refcount_inc_def
          CRYPTO_atomic_compare_exchange_weak_u32_def Let_def)+
    qed
  qed
qed


lemma inv_initial: "initial s \<Longrightarrow> refs_inv s"
proof -
  assume i: "initial s"
  then have "\<forall>t \<in> set (threads s). length (filter id (results t)) = 0" by (simp add: initial_def)
  then have "trues (threads s) = 0" by (simp add: trues_def)
  then show "refs_inv s" using i by (auto simp: initial_def refs_inv_def)
qed

lemma unat_inc: "c \<noteq> CRYPTO_REFCOUNT_MAX \<Longrightarrow> unat (c + 1) = unat c + 1" for c :: u32
  using unat_u32_lt [of c] by (simp add: word_unat_eq_iff unat_plus_if')

lemma unat_dec: "c \<noteq> 0 \<Longrightarrow> unat (c - 1) = unat c - 1" for c :: u32
  by (rule unat_minus_one)

lemma inv_threads_update:
  assumes "\<forall>x \<in> set ts. P x" and "P t"
  shows "\<forall>x \<in> set (ts[i := t]). P x"
  using assms set_update_subset_insert [of ts i t] by blast

lemma inv_step:
  assumes "refs_inv s" and "refs_step s s'"
  shows "refs_inv s'" and "saturated s \<Longrightarrow> saturated s'"
proof -
  have "refs_inv s' \<and> (saturated s \<longrightarrow> saturated s')"
    using assms(2)
  proof (rule refs_stepE)
    fix i spurious c t
    assume run: "s' = s\<lparr>count := c, threads := (threads s)[i := t]\<rparr>" "\<not> aborted s" "i < length (threads s)"
      "thread_step spurious (count s) (threads s ! i) = Some (c, t)"
    define u where "u = threads s ! i"
    have mem: "u \<in> set (threads s)" using run(3) by (simp add: u_def)
    have u: "proper (held u) (ops u)" "\<forall>e. local u = Some e \<longrightarrow> e \<noteq> 0" "local u = Some CRYPTO_REFCOUNT_MAX \<Longrightarrow> saturated s"
      using assms(1) mem by (auto simp: refs_inv_def)
    have h: "held u \<le> total_held (threads s)" by (rule held_le [OF mem])
    note tot = total_held_update [OF run(3), of t, folded u_def] and tr = trues_update [OF run(3), of t, folded u_def]
    note s = run(1)
    have old: "\<not> saturated s \<Longrightarrow> unat (count s) = total_held (threads s)"
      "\<not> saturated s \<Longrightarrow> trues (threads s) = (if total_held (threads s) = 0 then 1 else 0)"
      "saturated s \<Longrightarrow> trues (threads s) = 0" "\<not> aborted s"
      using assms(1) by (auto simp: refs_inv_def)
    have oldt: "\<forall>t \<in> set (threads s). proper (held t) (ops t) \<and>
        (\<forall>e. local t = Some e \<longrightarrow> e \<noteq> 0 \<and> (e = CRYPTO_REFCOUNT_MAX \<longrightarrow> saturated s))"
      using assms(1) by (simp add: refs_inv_def)
    have st: "thread_step spurious (count s) u = Some (c, t)" using run(4) by (simp add: u_def)
    have goal: "refs_inv s' \<and> (saturated s \<longrightarrow> saturated s')"
      if "saturated s \<Longrightarrow> c = CRYPTO_REFCOUNT_MAX"
        and "proper (held t) (ops t)" and "\<And>e. local t = Some e \<Longrightarrow> e \<noteq> 0 \<and> (e = CRYPTO_REFCOUNT_MAX \<longrightarrow> c = CRYPTO_REFCOUNT_MAX)"
        and "if c = CRYPTO_REFCOUNT_MAX then trues ((threads s)[i := t]) = 0
          else unat c = total_held ((threads s)[i := t]) \<and> trues ((threads s)[i := t]) = (if total_held ((threads s)[i := t]) = 0 then 1 else 0)"
    proof -
      have "\<forall>x \<in> set ((threads s)[i := t]). proper (held x) (ops x) \<and>
          (\<forall>e. local x = Some e \<longrightarrow> e \<noteq> 0 \<and> (e = CRYPTO_REFCOUNT_MAX \<longrightarrow> c = CRYPTO_REFCOUNT_MAX))"
        using that(1-3) oldt by (intro inv_threads_update) (auto simp: saturated_def)
      then show ?thesis using that(1,4) old(4) unfolding s refs_inv_def saturated_def by simp
    qed
    show ?thesis
    proof (cases rule: thread_step_cases [OF u(1,2), of spurious "count s",
        case_names idle load inc inc_saturated dec dec_saturated, consumes 0])
      case idle
      then have ct: "c = count s" "t = u" using st by simp_all
      then have "(threads s)[i := t] = threads s" by (simp add: u_def)
      then have "s' = s" using ct s by simp
      then show ?thesis using assms(1) by simp
    next
      case load
      then have ct: "c = count s" "t = u\<lparr>local := Some (count s)\<rparr>" using st by simp_all
      show ?thesis
      proof (rule goal)
        show "local t = Some e \<Longrightarrow> e \<noteq> 0 \<and> (e = CRYPTO_REFCOUNT_MAX \<longrightarrow> c = CRYPTO_REFCOUNT_MAX)" for e
          using old(1) h load(1) ct by (auto simp: saturated_def)
      qed (use ct u(1) old tot tr in \<open>auto simp: saturated_def\<close>)
    next
      case (inc rest)
      then have ct: "c = count s + 1" "t = u\<lparr>ops := rest, local := None, held := held u + 1\<rparr>" using st by simp_all
      have ns: "\<not> saturated s" using inc(3) by (simp add: saturated_def)
      then have "unat c = total_held ((threads s)[i := t])" "trues ((threads s)[i := t]) = 0" "0 < total_held ((threads s)[i := t])"
        using old(1,2) ct tot tr h inc(2) unat_inc [OF inc(3)] by simp_all
      then show ?thesis
        using ns u(1) inc(1,2) ct by (intro goal) auto
    next
      case (inc_saturated rest)
      then have ct: "c = count s" "t = u\<lparr>ops := rest, local := None, held := held u + 1\<rparr>" using st by simp_all
      show ?thesis
        using u(3) [OF inc_saturated(3)] u(1) old(3) inc_saturated(1) tr ct by (intro goal) (auto simp: saturated_def)
    next
      case (dec rest)
      then have ct: "c = count s - 1"
        "t = u\<lparr>ops := rest, local := None, held := held u - 1, results := results u @ [count s - 1 = 0]\<rparr>" using st by simp_all
      have ns: "\<not> saturated s" using dec(3) by (simp add: saturated_def)
      have t: "total_held ((threads s)[i := t]) = total_held (threads s) - 1"
        using tot h dec(2) ct by simp
      have c: "unat c = total_held (threads s) - 1" using old(1) [OF ns] ct unat_dec [OF dec(4)] by simp
      have "unat c < 2 ^ 32 - 1" using unat_u32_lt [of "count s"] unat_dec [OF dec(4)] ct dec(4) by (simp add: unat_eq_zero)
      then have cm: "c \<noteq> CRYPTO_REFCOUNT_MAX" by auto
      have z: "c = 0 \<longleftrightarrow> total_held (threads s) - 1 = 0" using c by (simp flip: unat_eq_zero)
      have "trues ((threads s)[i := t]) = (if c = 0 then 1 else 0)"
        using tr ct(2) old(2) [OF ns] h dec(2) by (auto simp flip: ct(1))
      then show ?thesis
        using ns u(1) dec(1,2) ct c t z cm by (intro goal) auto
    next
      case (dec_saturated rest)
      then have ct: "c = count s"
        "t = u\<lparr>ops := rest, local := None, held := held u - 1, results := results u @ [False]\<rparr>" using st by simp_all
      show ?thesis
        using u(3) [OF dec_saturated(3)] u(1) old(3) dec_saturated(1) tr ct by (intro goal) (auto simp: saturated_def)
    qed
  next
    fix i spurious
    assume abort: "s' = s\<lparr>aborted := True\<rparr>" "\<not> aborted s" "i < length (threads s)"
      "thread_step spurious (count s) (threads s ! i) = None"
    define u where "u = threads s ! i"
    have mem: "u \<in> set (threads s)" using abort(3) by (simp add: u_def)
    have u: "proper (held u) (ops u)" "\<forall>e. local u = Some e \<longrightarrow> e \<noteq> 0"
      using assms(1) mem by (auto simp: refs_inv_def)
    have "thread_step spurious (count s) u = None" using abort(4) by (simp add: u_def)
    then show ?thesis by (cases rule: thread_step_cases [OF u, of spurious "count s"]) simp_all
  qed
  then show "refs_inv s'" "saturated s \<Longrightarrow> saturated s'" by blast+
qed

lemma inv_reachable: "refs_step\<^sup>*\<^sup>* s s' \<Longrightarrow> refs_inv s \<Longrightarrow> refs_inv s' \<and> (saturated s \<longrightarrow> saturated s')"
  by (induction rule: rtranclp_induct) (auto dest: inv_step)


section \<open>Progress\<close>

definition pending :: "thread list \<Rightarrow> nat" where
  "pending ts = sum_list (map (\<lambda>t. length (ops t)) ts)"

lemma pending_update: "i < length ts \<Longrightarrow> pending (ts[i := t]) + length (ops (ts ! i)) = pending ts + length (ops t)"
  unfolding pending_def
proof (induction ts arbitrary: i)
  case (Cons a ts)
  then show ?case by (cases i) auto
qed simp

lemma load_turn:
  assumes "ops t \<noteq> []" and "\<forall>e. local t = Some e \<longrightarrow> e \<noteq> 0 \<and> e \<noteq> CRYPTO_REFCOUNT_MAX"
  shows "thread_step True c t = Some (c, t\<lparr>local := Some c\<rparr>)"
  using assms by (cases "ops t"; cases "hd (ops t)"; cases "local t")
    (auto simp: thread_step_def CRYPTO_refcount_dec_and_test_zero_def CRYPTO_refcount_inc_def
      CRYPTO_atomic_compare_exchange_weak_u32_def Let_def)

lemma complete_turn:
  assumes "ops t = op # rest" and "local t = Some c" and "c \<noteq> 0"
  obtains c' t' where "thread_step False c t = Some (c', t')" and "ops t' = rest"
  using assms by (cases op; cases "c = CRYPTO_REFCOUNT_MAX")
    (auto simp: thread_step_def CRYPTO_refcount_dec_and_test_zero_def CRYPTO_refcount_inc_def
      CRYPTO_atomic_compare_exchange_weak_u32_def Let_def)

lemma progress:
  assumes "refs_inv s" and "0 < pending (threads s)"
  obtains s' where "refs_step\<^sup>*\<^sup>* s s'" and "pending (threads s') < pending (threads s)"
proof -
  obtain t where "t \<in> set (threads s)" "ops t \<noteq> []"
    using assms(2) unfolding pending_def by (metis (mono_tags, lifting) length_0_conv less_numeral_extra(3) list.map_cong0 sum_list_0)
  then obtain i op rest where i: "i < length (threads s)" "ops (threads s ! i) = op # rest"
    by (metis in_set_conv_nth neq_Nil_conv)
  define u where "u = threads s ! i"
  have mem: "u \<in> set (threads s)" using i(1) by (simp add: u_def)
  have na: "\<not> aborted s" using assms(1) by (simp add: refs_inv_def)
  have c0: "count s \<noteq> 0"
  proof
    assume c: "count s = 0"
    then have "total_held (threads s) = 0" using assms(1) by (auto simp: refs_inv_def saturated_def)
    then have "held u = 0" using held_le [OF mem] by simp
    moreover have "proper (held u) (op # rest)" using assms(1) mem i(2) by (auto simp: refs_inv_def u_def)
    ultimately show False by (cases op) auto
  qed
  have turn: "\<exists>s'. refs_step s s' \<and> pending (threads s') < pending (threads s)"
    if "\<not> aborted s" "i < length (threads s)" "ops (threads s ! i) = op # rest" "local (threads s ! i) = Some (count s)" "count s \<noteq> 0" for s
  proof -
    note s = that
    obtain c' t' where t': "thread_step False (count s) (threads s ! i) = Some (c', t')" "ops t' = rest"
      using complete_turn [OF s(3-5)] by blast
    have "refs_step s (s\<lparr>count := c', threads := (threads s)[i := t']\<rparr>)" by (rule refs_step.run [OF s(1,2) t'(1)])
    moreover have "pending ((threads s)[i := t']) < pending (threads s)"
      using pending_update [OF s(2), of t'] s(3) t'(2) by simp
    ultimately show ?thesis by (intro exI [of _ "s\<lparr>count := c', threads := (threads s)[i := t']\<rparr>"]) simp
  qed
  show thesis
  proof (cases "local u = Some CRYPTO_REFCOUNT_MAX")
    case True
    then have "count s = CRYPTO_REFCOUNT_MAX" using assms(1) mem by (auto simp: refs_inv_def saturated_def)
    then show thesis using turn [OF na i(1,2)] True c0 that by (auto simp: u_def)
  next
    case False
    then have "\<forall>e. local u = Some e \<longrightarrow> e \<noteq> 0 \<and> e \<noteq> CRYPTO_REFCOUNT_MAX"
      using assms(1) mem by (auto simp: refs_inv_def)
    then have l: "thread_step True (count s) u = Some (count s, u\<lparr>local := Some (count s)\<rparr>)"
      using i(2) by (intro load_turn) (simp_all add: u_def)
    define s1 where "s1 = s\<lparr>count := count s, threads := (threads s)[i := u\<lparr>local := Some (count s)\<rparr>]\<rparr>"
    have st: "refs_step s s1"
      unfolding s1_def by (rule refs_step.run [OF na i(1) l [unfolded u_def], folded u_def])
    have "pending (threads s1) = pending (threads s)"
      using pending_update [OF i(1), of "u\<lparr>local := Some (count s)\<rparr>"] by (simp add: s1_def u_def)
    moreover obtain s2 where "refs_step s1 s2" "pending (threads s2) < pending (threads s1)"
      using turn [of s1] na i c0 by (auto simp: s1_def u_def)
    ultimately show thesis using that [of s2] st by (auto intro: converse_rtranclp_into_rtranclp)
  qed
qed

lemma can_finish: "refs_inv s \<Longrightarrow> \<exists>s'. refs_step\<^sup>*\<^sup>* s s' \<and> pending (threads s') = 0"
proof (induction "pending (threads s)" arbitrary: s rule: less_induct)
  case less
  show ?case
  proof (cases "pending (threads s) = 0")
    case False
    then obtain s1 where s1: "refs_step\<^sup>*\<^sup>* s s1" "pending (threads s1) < pending (threads s)"
      using progress [OF less.prems] by auto
    then have "refs_inv s1" using inv_reachable less.prems by blast
    then obtain s2 where "refs_step\<^sup>*\<^sup>* s1 s2" "pending (threads s2) = 0" using less.hyps [OF s1(2)] by blast
    then show ?thesis using s1(1) by (meson rtranclp_trans)
  qed auto
qed

section \<open>The properties\<close>

lemma safety:
  assumes "initial s" and "refs_step\<^sup>*\<^sup>* s s'"
  shows "\<not> aborted s'" and "saturated s' \<Longrightarrow> trues (threads s') = 0"
    and "\<not> saturated s' \<Longrightarrow> unat (count s') = total_held (threads s') \<and>
      trues (threads s') = (if total_held (threads s') = 0 then 1 else 0)"
    and "refs_step\<^sup>*\<^sup>* s' s'' \<Longrightarrow> saturated s' \<Longrightarrow> saturated s''"
proof -
  have i: "refs_inv s'" using inv_initial [OF assms(1)] inv_reachable [OF assms(2)] by blast
  then show "\<not> aborted s'" "saturated s' \<Longrightarrow> trues (threads s') = 0"
    "\<not> saturated s' \<Longrightarrow> unat (count s') = total_held (threads s') \<and>
      trues (threads s') = (if total_held (threads s') = 0 then 1 else 0)"
    by (auto simp: refs_inv_def)
  show "refs_step\<^sup>*\<^sup>* s' s'' \<Longrightarrow> saturated s' \<Longrightarrow> saturated s''" using inv_reachable [OF _ i] by blast
qed

text \<open>C5. However threads that take and release references only while they hold one interleave, no release
  aborts; as long as the count is not saturated it is the number of references held, and the release that brings
  it to zero is the only one that is told so; once saturated, the count stays so and no release frees the object.\<close>

theorem refcount_safety:
  assumes "initial s" and "refs_step\<^sup>*\<^sup>* s s'"
  shows "\<not> aborted s' \<and>
    (if saturated s' then trues (threads s') = 0 \<and> (\<forall>s''. refs_step\<^sup>*\<^sup>* s' s'' \<longrightarrow> saturated s'')
     else unat (count s') = total_held (threads s') \<and> trues (threads s') = (if total_held (threads s') = 0 then 1 else 0))"
  using safety [OF assms] by simp


text \<open>C30. From every state that such threads reach they can all run to their end, since a thread that retries
  its exchange without interference succeeds.\<close>

theorem refcount_progress:
  assumes "initial s" and "refs_step\<^sup>*\<^sup>* s s'"
  shows "\<exists>s''. refs_step\<^sup>*\<^sup>* s' s'' \<and> (\<forall>t \<in> set (threads s''). ops t = [])"
proof -
  have "refs_inv s'" using inv_initial [OF assms(1)] inv_reachable [OF assms(2)] by blast
  then show ?thesis using can_finish by (fastforce simp: pending_def)
qed

definition two_threads :: refs where
  "two_threads = \<lparr>count = 2, threads = [\<lparr>ops = [Inc, Dec, Dec], local = None, held = 1, results = []\<rparr>,
     \<lparr>ops = [Dec], local = None, held = 1, results = []\<rparr>], aborted = False\<rparr>"

lemma two_threads_initial: "initial two_threads"
  by (simp add: two_threads_def initial_def total_held_def)

lemma refcount_safety_witness: "\<not> saturated two_threads \<and> unat (count two_threads) = total_held (threads two_threads)"
proof -
  have "\<not> saturated two_threads" by (simp add: saturated_def two_threads_def)
  then show ?thesis using refcount_safety [OF two_threads_initial rtranclp.rtrancl_refl] by simp
qed

lemma refcount_progress_witness: "\<exists>s''. refs_step\<^sup>*\<^sup>* two_threads s'' \<and> (\<forall>t \<in> set (threads s''). ops t = [])"
  by (rule refcount_progress [OF two_threads_initial rtranclp.rtrancl_refl])

end
