(* ===== verification/Stack.thy ===== *)
theory Stack
  imports Bytes "HOL-Library.Multiset"
begin

text \<open>
  Model of \<^verbatim>\<open>crypto/stack/stack.c\<close>: arrays of pointers that grow, with an optional comparison function. A pointer
  is its 64-bit value and \<^verbatim>\<open>NULL\<close> is 0; a \<^verbatim>\<open>OPENSSL_STACK *\<close> is an option. The allocator is a parameter that
  gives the pointers in a fresh block of so many bytes, and \<open>call_cmp_func\<close> and the other callbacks are
  parameters as they are in the code. The abstract value of a stack is the list \<open>contents\<close>.
\<close>

type_synonym ptr = u64

abbreviation NULL :: ptr where "NULL \<equiv> 0"

type_synonym allocator = "nat \<Rightarrow> ptr list option"

text \<open>A block of that many bytes, which holds one pointer for every eight.\<close>

definition good_alloc :: "allocator \<Rightarrow> bool" where
  "good_alloc alloc \<longleftrightarrow> (\<forall>n ps. alloc n = Some ps \<longrightarrow> length ps = n div 8)"

record stack_st =
  num :: nat
  data :: "ptr list"
  sorted_flag :: bool
  num_alloc :: nat
  comp :: ptr

abbreviation kMinSize :: nat where "kMinSize \<equiv> 4"
abbreviation sizeof_ptr :: nat where "sizeof_ptr \<equiv> 8"
abbreviation sizeof_stack :: nat where "sizeof_stack \<equiv> 40"

section \<open>Operations\<close>

definition OPENSSL_sk_new :: "allocator \<Rightarrow> ptr \<Rightarrow> stack_st option" where
  "OPENSSL_sk_new alloc comp_fn =
     (case alloc sizeof_stack of
        None \<Rightarrow> None
      | Some _ \<Rightarrow>
          (case alloc (kMinSize * sizeof_ptr) of
             None \<Rightarrow> None
           | Some _ \<Rightarrow>
               Some \<lparr>num = 0, data = replicate kMinSize NULL, sorted_flag = False, num_alloc = kMinSize, comp = comp_fn\<rparr>))"

definition OPENSSL_sk_new_null :: "allocator \<Rightarrow> stack_st option" where
  "OPENSSL_sk_new_null alloc = OPENSSL_sk_new alloc NULL"

definition OPENSSL_sk_num :: "stack_st option \<Rightarrow> nat" where
  "OPENSSL_sk_num sk = (case sk of None \<Rightarrow> 0 | Some sk \<Rightarrow> num sk)"

definition OPENSSL_sk_zero :: "stack_st option \<Rightarrow> stack_st option" where
  "OPENSSL_sk_zero sk =
     (case sk of
        None \<Rightarrow> None
      | Some sk \<Rightarrow>
          if num sk = 0 then Some sk
          else Some (sk\<lparr>data := replicate (num sk) NULL @ drop (num sk) (data sk), num := 0, sorted_flag := False\<rparr>))"

definition OPENSSL_sk_value :: "stack_st option \<Rightarrow> nat \<Rightarrow> ptr" where
  "OPENSSL_sk_value sk i = (case sk of None \<Rightarrow> NULL | Some sk \<Rightarrow> if i \<ge> num sk then NULL else data sk ! i)"

definition OPENSSL_sk_set :: "stack_st option \<Rightarrow> nat \<Rightarrow> ptr \<Rightarrow> stack_st option \<times> ptr" where
  "OPENSSL_sk_set sk i value =
     (case sk of
        None \<Rightarrow> (None, NULL)
      | Some sk \<Rightarrow> if i \<ge> num sk then (Some sk, NULL) else (Some (sk\<lparr>data := (data sk)[i := value]\<rparr>), value))"

text \<open>The pointers that are given to the free function, in order.\<close>

definition OPENSSL_sk_pop_free_ex :: "stack_st option \<Rightarrow> ptr list" where
  "OPENSSL_sk_pop_free_ex sk = (case sk of None \<Rightarrow> [] | Some sk \<Rightarrow> filter (\<lambda>p. p \<noteq> NULL) (take (num sk) (data sk)))"

definition sk_pop_free :: "stack_st option \<Rightarrow> ptr list" where
  "sk_pop_free sk = OPENSSL_sk_pop_free_ex sk"

text \<open>\<open>memmove\<close> of \<open>n\<close> pointers within an array.\<close>

definition memmove :: "nat \<Rightarrow> nat \<Rightarrow> nat \<Rightarrow> ptr list \<Rightarrow> ptr list" where
  "memmove dst src n xs = take dst xs @ take n (drop src xs) @ drop (dst + n) xs"

definition realloc_ptrs :: "allocator \<Rightarrow> ptr list \<Rightarrow> nat \<Rightarrow> ptr list option" where
  "realloc_ptrs alloc old n =
     (case alloc n of None \<Rightarrow> None | Some fresh \<Rightarrow> Some (take (n div sizeof_ptr) old @ drop (length old) fresh))"

text \<open>The array made larger when it is full.\<close>

definition sk_grow :: "allocator \<Rightarrow> stack_st \<Rightarrow> stack_st option" where
  "sk_grow alloc sk =
     (if num_alloc sk \<le> num sk + 1 then
        let new_alloc = (num_alloc sk * 2) mod size_mod;
            alloc_size = (new_alloc * sizeof_ptr) mod size_mod;
            (new_alloc, alloc_size) =
              (if new_alloc < num_alloc sk \<or> alloc_size div sizeof_ptr \<noteq> new_alloc then
                 let new_alloc = (num_alloc sk + 1) mod size_mod in (new_alloc, (new_alloc * sizeof_ptr) mod size_mod)
               else (new_alloc, alloc_size))
        in if new_alloc < num_alloc sk \<or> alloc_size div sizeof_ptr \<noteq> new_alloc then None
           else (case realloc_ptrs alloc (data sk) alloc_size of
                   None \<Rightarrow> None
                 | Some d \<Rightarrow> Some (sk\<lparr>data := d, num_alloc := new_alloc\<rparr>))
      else Some sk)"

definition OPENSSL_sk_insert :: "allocator \<Rightarrow> stack_st option \<Rightarrow> ptr \<Rightarrow> nat \<Rightarrow> stack_st option \<times> nat" where
  "OPENSSL_sk_insert alloc sk p where_i =
     (case sk of
        None \<Rightarrow> (None, 0)
      | Some sk \<Rightarrow>
          if int (num sk) \<ge> INT_MAX then (Some sk, 0)
          else
            (case sk_grow alloc sk of
               None \<Rightarrow> (Some sk, 0)
             | Some sk \<Rightarrow>
                 let d = (if where_i \<ge> num sk then (data sk)[num sk := p]
                          else (memmove (where_i + 1) where_i (num sk - where_i) (data sk))[where_i := p])
                 in (Some (sk\<lparr>data := d, num := num sk + 1, sorted_flag := False\<rparr>), num sk + 1)))"

definition OPENSSL_sk_delete :: "stack_st option \<Rightarrow> nat \<Rightarrow> stack_st option \<times> ptr" where
  "OPENSSL_sk_delete sk where_i =
     (case sk of
        None \<Rightarrow> (None, NULL)
      | Some sk \<Rightarrow>
          if where_i \<ge> num sk then (Some sk, NULL)
          else
            let ret = data sk ! where_i;
                d = (if where_i \<noteq> num sk - 1 then memmove where_i (where_i + 1) (num sk - where_i - 1) (data sk) else data sk)
            in (Some (sk\<lparr>data := d, num := num sk - 1\<rparr>), ret))"

text \<open>The first index from \<open>i\<close> on, below \<open>n\<close>, with a match.\<close>

function find_from :: "(ptr \<Rightarrow> bool) \<Rightarrow> ptr list \<Rightarrow> nat \<Rightarrow> nat \<Rightarrow> nat option" where
  "find_from P d i n = (if i < n then if P (d ! i) then Some i else find_from P d (i + 1) n else None)"
  by pat_completeness auto
termination
  by (relation "measure (\<lambda>(P, d, i, n). n - i)") auto

declare find_from.simps [simp del]

definition OPENSSL_sk_delete_ptr :: "stack_st option \<Rightarrow> ptr \<Rightarrow> stack_st option \<times> ptr" where
  "OPENSSL_sk_delete_ptr sk p =
     (case sk of
        None \<Rightarrow> (None, NULL)
      | Some s \<Rightarrow>
          (case find_from (\<lambda>x. x = p) (data s) 0 (num s) of
             Some i \<Rightarrow> OPENSSL_sk_delete sk i
           | None \<Rightarrow> (sk, NULL)))"

text \<open>The loop of \<open>OPENSSL_sk_delete_if\<close>; the callback is a function on a state of its own.\<close>

function delete_if_loop ::
    "(ptr \<Rightarrow> 's \<Rightarrow> bool \<times> 's) \<Rightarrow> nat \<Rightarrow> nat \<Rightarrow> nat \<Rightarrow> ptr list \<Rightarrow> 's \<Rightarrow> nat \<times> ptr list \<times> 's" where
  "delete_if_loop func n i new_num d st =
     (if i < n then
        case func (d ! i) st of
          (False, st) \<Rightarrow> delete_if_loop func n (i + 1) (new_num + 1) (d[new_num := d ! i]) st
        | (True, st) \<Rightarrow> delete_if_loop func n (i + 1) new_num d st
      else (new_num, d, st))"
  by pat_completeness auto
termination
  by (relation "measure (\<lambda>(func, n, i, new_num, d, st). n - i)") auto

declare delete_if_loop.simps [simp del]

definition OPENSSL_sk_delete_if ::
    "(ptr \<Rightarrow> 's \<Rightarrow> bool \<times> 's) \<Rightarrow> stack_st option \<Rightarrow> 's \<Rightarrow> stack_st option \<times> 's" where
  "OPENSSL_sk_delete_if func sk st =
     (case sk of
        None \<Rightarrow> (None, st)
      | Some sk \<Rightarrow>
          (case delete_if_loop func (num sk) 0 0 (data sk) st of
             (new_num, d, st) \<Rightarrow> (Some (sk\<lparr>data := d, num := new_num\<rparr>), st)))"

definition OPENSSL_sk_is_sorted :: "stack_st option \<Rightarrow> bool" where
  "OPENSSL_sk_is_sorted sk =
     (case sk of None \<Rightarrow> True | Some sk \<Rightarrow> sorted_flag sk \<or> comp sk \<noteq> NULL \<and> num sk < 2)"

type_synonym cmp_caller = "ptr \<Rightarrow> ptr \<Rightarrow> ptr \<Rightarrow> int"

text \<open>The binary search of \<open>OPENSSL_sk_find\<close>; \<open>cmp x\<close> is the result of comparing \<open>p\<close> with \<open>x\<close>.\<close>

function find_sorted :: "(ptr \<Rightarrow> int) \<Rightarrow> ptr list \<Rightarrow> nat \<Rightarrow> nat \<Rightarrow> nat option" where
  "find_sorted cmp d lo hi =
     (if lo < hi then
        let mid = lo + (hi - lo - 1) div 2; r = cmp (d ! mid)
        in if r > 0 then find_sorted cmp d (mid + 1) hi
           else if r < 0 then find_sorted cmp d lo mid
           else if hi - lo = 1 then Some mid
           else find_sorted cmp d lo (mid + 1)
      else None)"
  by pat_completeness auto
termination
  by (relation "measure (\<lambda>(cmp, d, lo, hi). hi - lo)") auto

declare find_sorted.simps [simp del]

definition OPENSSL_sk_find :: "cmp_caller \<Rightarrow> stack_st option \<Rightarrow> ptr \<Rightarrow> nat option" where
  "OPENSSL_sk_find call_cmp_func sk p =
     (case sk of
        None \<Rightarrow> None
      | Some s \<Rightarrow>
          if comp s = NULL then find_from (\<lambda>x. x = p) (data s) 0 (num s)
          else if p = NULL then None
          else if \<not> OPENSSL_sk_is_sorted sk then find_from (\<lambda>x. call_cmp_func (comp s) p x = 0) (data s) 0 (num s)
          else find_sorted (call_cmp_func (comp s) p) (data s) 0 (num s))"

definition OPENSSL_sk_shift :: "stack_st option \<Rightarrow> stack_st option \<times> ptr" where
  "OPENSSL_sk_shift sk =
     (case sk of None \<Rightarrow> (None, NULL) | Some s \<Rightarrow> if num s = 0 then (sk, NULL) else OPENSSL_sk_delete sk 0)"

definition OPENSSL_sk_push :: "allocator \<Rightarrow> stack_st \<Rightarrow> ptr \<Rightarrow> stack_st option \<times> nat" where
  "OPENSSL_sk_push alloc sk p = OPENSSL_sk_insert alloc (Some sk) p (num sk)"

definition OPENSSL_sk_pop :: "stack_st option \<Rightarrow> stack_st option \<times> ptr" where
  "OPENSSL_sk_pop sk =
     (case sk of None \<Rightarrow> (None, NULL) | Some s \<Rightarrow> if num s = 0 then (sk, NULL) else OPENSSL_sk_delete sk (num s - 1))"

definition OPENSSL_sk_dup :: "allocator \<Rightarrow> stack_st option \<Rightarrow> stack_st option" where
  "OPENSSL_sk_dup alloc sk =
     (case sk of
        None \<Rightarrow> None
      | Some sk \<Rightarrow>
          (case alloc sizeof_stack of
             None \<Rightarrow> None
           | Some _ \<Rightarrow>
               (case alloc (sizeof_ptr * num_alloc sk) of
                  None \<Rightarrow> None
                | Some _ \<Rightarrow>
                    Some \<lparr>num = num sk, data = take (num_alloc sk) (data sk), sorted_flag = sorted_flag sk,
                      num_alloc = num_alloc sk, comp = comp sk\<rparr>)))"

definition parent_idx :: "nat \<Rightarrow> nat" where "parent_idx idx = (idx - 1) div 2"

definition left_idx :: "nat \<Rightarrow> nat" where "left_idx idx = 2 * idx + 1"

definition swap :: "nat \<Rightarrow> nat \<Rightarrow> ptr list \<Rightarrow> ptr list" where
  "swap i j d = (let tmp = d ! i; d' = d[i := d ! j] in d'[j := tmp])"

text \<open>The index of the largest of a node and its children.\<close>

definition largest_child :: "(ptr \<Rightarrow> ptr \<Rightarrow> int) \<Rightarrow> nat \<Rightarrow> nat \<Rightarrow> ptr list \<Rightarrow> nat" where
  "largest_child cmp i n d =
     (let left = left_idx i;
          next = (if cmp (d ! i) (d ! left) < 0 then left else i);
          right = left + 1
      in if right < n \<and> cmp (d ! next) (d ! right) < 0 then right else next)"

lemma largest_child_cases:
  "largest_child cmp i n d = i \<or> largest_child cmp i n d = left_idx i \<or>
     largest_child cmp i n d = left_idx i + 1 \<and> left_idx i + 1 < n"
  by (simp add: largest_child_def Let_def)

function down_heap :: "(ptr \<Rightarrow> ptr \<Rightarrow> int) \<Rightarrow> nat \<Rightarrow> nat \<Rightarrow> ptr list \<Rightarrow> ptr list" where
  "down_heap cmp i n d =
     (if left_idx i \<ge> n then d
      else
        let nxt = largest_child cmp i n d
        in if i = nxt then d else down_heap cmp nxt n (swap i nxt d))"
  by pat_completeness auto
termination
proof (relation "measure (\<lambda>(cmp, i, n, d). n - i)")
  fix cmp :: "ptr \<Rightarrow> ptr \<Rightarrow> int" and i n d nxt
  assume "\<not> n \<le> left_idx i" "nxt = largest_child cmp i n d" "i \<noteq> nxt"
  then have "i < nxt" "i < n"
    using largest_child_cases [of cmp i n d] by (auto simp: left_idx_def)
  then show "((cmp, nxt, n, swap i nxt d), cmp, i, n, d) \<in> measure (\<lambda>(cmp, i, n, d). n - i)" by simp
qed simp

declare down_heap.simps [simp del]

text \<open>
  The two loops of \<open>OPENSSL_sk_sort\<close>. The first counts \<open>i\<close> down to 0 and stops when it wraps; the second
  counts it down to 1.
\<close>

fun build_heap :: "(ptr \<Rightarrow> ptr \<Rightarrow> int) \<Rightarrow> nat \<Rightarrow> nat \<Rightarrow> ptr list \<Rightarrow> ptr list" where
  "build_heap cmp n 0 d = down_heap cmp 0 n d"
| "build_heap cmp n (Suc i) d = build_heap cmp n i (down_heap cmp (Suc i) n d)"

fun take_max_loop :: "(ptr \<Rightarrow> ptr \<Rightarrow> int) \<Rightarrow> nat \<Rightarrow> ptr list \<Rightarrow> ptr list" where
  "take_max_loop cmp 0 d = d"
| "take_max_loop cmp (Suc i) d = take_max_loop cmp i (down_heap cmp 0 (Suc i) (swap 0 (Suc i) d))"

definition OPENSSL_sk_sort :: "cmp_caller \<Rightarrow> stack_st option \<Rightarrow> stack_st option" where
  "OPENSSL_sk_sort call_cmp_func sk =
     (case sk of
        None \<Rightarrow> None
      | Some s \<Rightarrow>
          if comp s = NULL \<or> sorted_flag s then sk
          else
            let s = (if num s \<ge> 2 then
                       let cmp = call_cmp_func (comp s);
                           d = build_heap cmp (num s) (parent_idx (num s - 1)) (data s);
                           d = take_max_loop cmp (num s - 1) d
                       in s\<lparr>data := d\<rparr>
                     else s)
            in Some (s\<lparr>sorted_flag := True\<rparr>))"

definition OPENSSL_sk_set_cmp_func :: "stack_st \<Rightarrow> ptr \<Rightarrow> stack_st \<times> ptr" where
  "OPENSSL_sk_set_cmp_func sk comp_fn =
     (let old = comp sk; sk = (if comp sk \<noteq> comp_fn then sk\<lparr>sorted_flag := False\<rparr> else sk)
      in (sk\<lparr>comp := comp_fn\<rparr>, old))"

text \<open>
  The loop of \<open>OPENSSL_sk_deep_copy\<close>: the array with the copies, or \<^const>\<open>None\<close> and the copies to free; the
  copy function works on a state of its own.
\<close>

function deep_copy_loop ::
    "(ptr \<Rightarrow> 's \<Rightarrow> ptr \<times> 's) \<Rightarrow> nat \<Rightarrow> nat \<Rightarrow> ptr list \<Rightarrow> 's \<Rightarrow> (ptr list + ptr list) \<times> 's" where
  "deep_copy_loop copy_func n i d st =
     (if i < n then
        if d ! i = NULL then deep_copy_loop copy_func n (i + 1) d st
        else
          case copy_func (d ! i) st of
            (p, st) \<Rightarrow>
              if p = NULL then (Inl (filter (\<lambda>p. p \<noteq> NULL) (take i d)), st)
              else deep_copy_loop copy_func n (i + 1) (d[i := p]) st
      else (Inr d, st))"
  by pat_completeness auto
termination
  by (relation "measure (\<lambda>(copy_func, n, i, d, st). n - i)") auto

declare deep_copy_loop.simps [simp del]

text \<open>The copy, the pointers given to the free function, and the state of the copy function.\<close>

definition OPENSSL_sk_deep_copy ::
    "allocator \<Rightarrow> (ptr \<Rightarrow> 's \<Rightarrow> ptr \<times> 's) \<Rightarrow> stack_st option \<Rightarrow> 's \<Rightarrow> stack_st option \<times> ptr list \<times> 's" where
  "OPENSSL_sk_deep_copy alloc copy_func sk st =
     (case OPENSSL_sk_dup alloc sk of
        None \<Rightarrow> (None, [], st)
      | Some ret \<Rightarrow>
          (case deep_copy_loop copy_func (num ret) 0 (data ret) st of
             (Inl freed, st) \<Rightarrow> (None, freed, st)
           | (Inr d, st) \<Rightarrow> (Some (ret\<lparr>data := d\<rparr>), [], st)))"

definition sk_new_null :: "allocator \<Rightarrow> stack_st option" where "sk_new_null alloc = OPENSSL_sk_new_null alloc"
definition sk_num :: "stack_st option \<Rightarrow> nat" where "sk_num sk = OPENSSL_sk_num sk"
definition sk_value :: "stack_st option \<Rightarrow> nat \<Rightarrow> ptr" where "sk_value sk i = OPENSSL_sk_value sk i"
definition sk_push :: "allocator \<Rightarrow> stack_st \<Rightarrow> ptr \<Rightarrow> stack_st option \<times> nat" where "sk_push alloc sk p = OPENSSL_sk_push alloc sk p"
definition sk_pop :: "stack_st option \<Rightarrow> stack_st option \<times> ptr" where "sk_pop sk = OPENSSL_sk_pop sk"
definition sk_pop_free_ex :: "stack_st option \<Rightarrow> ptr list" where "sk_pop_free_ex sk = OPENSSL_sk_pop_free_ex sk"


section \<open>Contents and invariant\<close>

definition contents :: "stack_st \<Rightarrow> ptr list" where
  "contents s = take (num s) (data s)"

definition order_fn :: "(ptr \<Rightarrow> ptr \<Rightarrow> int) \<Rightarrow> bool" where
  "order_fn cmp \<longleftrightarrow> (\<forall>x y. cmp x y < 0 \<longleftrightarrow> cmp y x > 0) \<and> (\<forall>x y z. cmp x y \<le> 0 \<longrightarrow> cmp y z \<le> 0 \<longrightarrow> cmp x z \<le> 0)"

definition in_order :: "(ptr \<Rightarrow> ptr \<Rightarrow> int) \<Rightarrow> ptr list \<Rightarrow> bool" where
  "in_order cmp xs \<longleftrightarrow> sorted_wrt (\<lambda>x y. cmp x y \<le> 0) xs"

definition stack_ok :: "stack_st \<Rightarrow> bool" where
  "stack_ok s \<longleftrightarrow> kMinSize \<le> num_alloc s \<and> num s \<le> num_alloc s \<and> length (data s) = num_alloc s \<and> num_alloc s < size_mod \<and> int (num s) \<le> INT_MAX"

definition stack_sorted :: "cmp_caller \<Rightarrow> stack_st \<Rightarrow> bool" where
  "stack_sorted call s \<longleftrightarrow> (sorted_flag s \<longrightarrow> comp s \<noteq> NULL \<and> in_order (call (comp s)) (contents s))"

lemma length_contents [simp]: "stack_ok s \<Longrightarrow> length (contents s) = num s"
  by (simp add: stack_ok_def contents_def)

lemma contents_nth: "i < num s \<Longrightarrow> contents s ! i = data s ! i"
  by (simp add: contents_def)

lemma length_memmove: "dst + n \<le> length xs \<Longrightarrow> src + n \<le> length xs \<Longrightarrow> length (memmove dst src n xs) = length xs"
  by (simp add: memmove_def)

text \<open>Since \<open>num\<close> stays below \<^term>\<open>INT_MAX\<close> the doubling never wraps.\<close>

lemma sk_grow_eq:
  assumes "stack_ok s" and "int (num s) < INT_MAX"
  shows "sk_grow alloc s =
    (if num_alloc s \<le> num s + 1 then
       map_option (\<lambda>d. s\<lparr>data := d, num_alloc := num_alloc s * 2\<rparr>) (realloc_ptrs alloc (data s) (num_alloc s * 2 * sizeof_ptr))
     else Some s)"
proof (cases "num_alloc s \<le> num s + 1")
  case True
  then have "num_alloc s \<le> 2147483648" using assms(2) by simp
  then show ?thesis
    using True by (simp add: sk_grow_def Let_def map_option_case)
qed (simp add: sk_grow_def)

lemma sk_grow:
  assumes "good_alloc alloc" and "stack_ok s" and "int (num s) < INT_MAX" and "sk_grow alloc s = Some s'"
  shows "num s < length (data s')" and "take (num s) (data s') = contents s" and "num s' = num s" and "comp s' = comp s"
    and "length (data s') = num_alloc s'" and "num_alloc s' < size_mod" and "sorted_flag s' = sorted_flag s" and "kMinSize \<le> num_alloc s'"
proof -
  have ok: "kMinSize \<le> num_alloc s" "num s \<le> num_alloc s" "length (data s) = num_alloc s" "num_alloc s < size_mod"
    using assms(2) by (simp_all add: stack_ok_def)
  have "num s < length (data s') \<and> take (num s) (data s') = contents s \<and> num s' = num s \<and> comp s' = comp s \<and>
    length (data s') = num_alloc s' \<and> num_alloc s' < size_mod \<and> sorted_flag s' = sorted_flag s \<and> kMinSize \<le> num_alloc s'"
  proof (cases "num_alloc s \<le> num s + 1")
    case False
    then show ?thesis using assms(4) ok by (simp add: sk_grow_eq [OF assms(2,3)] contents_def)
  next
    case True
    obtain d where d: "realloc_ptrs alloc (data s) (num_alloc s * 2 * sizeof_ptr) = Some d" "s' = s\<lparr>data := d, num_alloc := num_alloc s * 2\<rparr>"
      using assms(4) True by (auto simp: sk_grow_eq [OF assms(2,3)])
    obtain fresh where f: "alloc (num_alloc s * 2 * sizeof_ptr) = Some fresh" "d = data s @ drop (num_alloc s) fresh"
      using d(1) ok(3) by (auto simp: realloc_ptrs_def split: option.splits)
    have "length fresh = num_alloc s * 2" using assms(1) f(1) unfolding good_alloc_def by (metis nonzero_mult_div_cancel_right zero_neq_numeral)
    then show ?thesis using d(2) f(2) ok True assms(3) by (simp add: contents_def)
  qed
  then show "num s < length (data s')" "take (num s) (data s') = contents s" "num s' = num s" "comp s' = comp s"
    "length (data s') = num_alloc s'" "num_alloc s' < size_mod" "sorted_flag s' = sorted_flag s" "kMinSize \<le> num_alloc s'" by blast+
qed

lemma insert_array:
  assumes "n < length d" and "w < n"
  shows "take (n + 1) ((memmove (w + 1) w (n - w) d)[w := p]) = take w (take n d) @ p # drop w (take n d)"
    and "length ((memmove (w + 1) w (n - w) d)[w := p]) = length d"
proof -
  have m: "memmove (w + 1) w (n - w) d = take (w + 1) d @ drop w (take n d) @ drop (n + 1) d"
    using assms by (simp add: memmove_def drop_take)
  have "(take (w + 1) d)[w := p] = take w d @ [p]"
    using assms by (simp add: take_Suc_conv_app_nth list_update_append)
  then have *: "(memmove (w + 1) w (n - w) d)[w := p] = (take w d @ [p]) @ drop w (take n d) @ drop (n + 1) d"
    using assms unfolding m by (subst list_update_append1) simp_all
  show "take (n + 1) ((memmove (w + 1) w (n - w) d)[w := p]) = take w (take n d) @ p # drop w (take n d)"
    unfolding * using assms by (simp add: Suc_diff_le)
  show "length ((memmove (w + 1) w (n - w) d)[w := p]) = length d"
    unfolding * using assms by simp
qed

definition insert_at :: "nat \<Rightarrow> ptr \<Rightarrow> ptr list \<Rightarrow> ptr list" where
  "insert_at w p xs = take w xs @ p # drop w xs"

definition delete_at :: "nat \<Rightarrow> ptr list \<Rightarrow> ptr list" where
  "delete_at w xs = take w xs @ drop (w + 1) xs"

text \<open>An insertion either leaves the stack alone and returns 0 or gives the new number of elements.\<close>

lemma OPENSSL_sk_insert_cases:
  assumes "good_alloc alloc" and "stack_ok s"
  obtains (failed) "OPENSSL_sk_insert alloc (Some s) p w = (Some s, 0)"
      "int (num s) \<ge> INT_MAX \<or> sk_grow alloc s = None"
  | (inserted) s' where "OPENSSL_sk_insert alloc (Some s) p w = (Some s', num s + 1)" and "stack_ok s'"
      and "contents s' = insert_at w p (contents s)" and "\<not> sorted_flag s'" and "comp s' = comp s"
proof -
  consider "int (num s) \<ge> INT_MAX" | "int (num s) < INT_MAX" "sk_grow alloc s = None"
    | s1 where "int (num s) < INT_MAX" "sk_grow alloc s = Some s1" by fastforce
  then show thesis
  proof cases
    case 3
    note g = sk_grow [OF assms 3(1,2)]
    define d where "d = (if w \<ge> num s then (data s1)[num s := p]
      else (memmove (w + 1) w (num s - w) (data s1))[w := p])"
    define s' where "s' = s1\<lparr>data := d, num := num s + 1, sorted_flag := False\<rparr>"
    have d: "length d = length (data s1)" "take (num s + 1) d = insert_at w p (contents s)"
    proof -
      have "length d = length (data s1) \<and> take (num s + 1) d = insert_at w p (contents s)"
      proof (cases "w \<ge> num s")
        case True
        then show ?thesis using g(1,2) length_contents [OF assms(2)] by (simp add: d_def insert_at_def take_Suc_conv_app_nth)
      next
        case False
        then show ?thesis
          using insert_array [OF g(1), of w p] by (simp add: d_def insert_at_def g(2))
      qed
      then show "length d = length (data s1)" "take (num s + 1) d = insert_at w p (contents s)" by blast+
    qed
    show thesis
    proof (rule inserted [of s'])
      show "OPENSSL_sk_insert alloc (Some s) p w = (Some s', num s + 1)"
        using 3 g(3) by (simp add: OPENSSL_sk_insert_def Let_def s'_def d_def)
      show "stack_ok s'" using g d(1) 3(1) by (simp add: stack_ok_def s'_def)
      show "contents s' = insert_at w p (contents s)" using d(2) by (simp add: contents_def s'_def)
    qed (simp_all add: s'_def g(4))
  qed (intro failed; simp add: OPENSSL_sk_insert_def)+
qed

lemma OPENSSL_sk_delete_eq:
  assumes "stack_ok s"
  shows "num s \<le> w \<Longrightarrow> OPENSSL_sk_delete (Some s) w = (Some s, NULL)"
    and "w < num s \<Longrightarrow> \<exists>s'. OPENSSL_sk_delete (Some s) w = (Some s', contents s ! w) \<and> stack_ok s' \<and>
      contents s' = delete_at w (contents s) \<and> sorted_flag s' = sorted_flag s \<and> comp s' = comp s"
proof -
  show "num s \<le> w \<Longrightarrow> OPENSSL_sk_delete (Some s) w = (Some s, NULL)" by (simp add: OPENSSL_sk_delete_def)
  assume w: "w < num s"
  have l: "num s \<le> length (data s)" using assms by (simp add: stack_ok_def)
  define d where "d = (if w \<noteq> num s - 1 then memmove w (w + 1) (num s - w - 1) (data s) else data s)"
  define s' where "s' = s\<lparr>data := d, num := num s - 1\<rparr>"
  have d: "length d = length (data s)" "take (num s - 1) d = delete_at w (contents s)"
    using w l by (auto simp: d_def memmove_def delete_at_def contents_def min_def drop_take)
  have "OPENSSL_sk_delete (Some s) w = (Some s', contents s ! w)"
    using w by (simp add: OPENSSL_sk_delete_def Let_def s'_def d_def contents_nth)
  moreover have "stack_ok s'" using assms w d(1) by (auto simp: stack_ok_def s'_def)
  ultimately show "\<exists>s'. OPENSSL_sk_delete (Some s) w = (Some s', contents s ! w) \<and> stack_ok s' \<and>
      contents s' = delete_at w (contents s) \<and> sorted_flag s' = sorted_flag s \<and> comp s' = comp s"
    using d(2) by (intro exI [of _ s']) (simp add: s'_def contents_def)
qed


section \<open>Heap sort\<close>

definition node_ok :: "(ptr \<Rightarrow> ptr \<Rightarrow> int) \<Rightarrow> ptr list \<Rightarrow> nat \<Rightarrow> nat \<Rightarrow> bool" where
  "node_ok cmp d n k \<longleftrightarrow> (\<forall>c. (c = left_idx k \<or> c = left_idx k + 1) \<and> c < n \<longrightarrow> cmp (d ! c) (d ! k) \<le> 0)"

text \<open>Nodes from \<open>j\<close> on are above their children; all but \<open>i\<close>, whose children are below its parent.\<close>

definition heap_from :: "(ptr \<Rightarrow> ptr \<Rightarrow> int) \<Rightarrow> ptr list \<Rightarrow> nat \<Rightarrow> nat \<Rightarrow> bool" where
  "heap_from cmp d n j \<longleftrightarrow> (\<forall>k \<ge> j. node_ok cmp d n k)"

definition heap_but :: "(ptr \<Rightarrow> ptr \<Rightarrow> int) \<Rightarrow> ptr list \<Rightarrow> nat \<Rightarrow> nat \<Rightarrow> nat \<Rightarrow> bool" where
  "heap_but cmp d n j i \<longleftrightarrow> j \<le> i \<and> (\<forall>k \<ge> j. k \<noteq> i \<longrightarrow> node_ok cmp d n k) \<and>
     (0 < i \<and> j \<le> parent_idx i \<longrightarrow>
       (\<forall>c. (c = left_idx i \<or> c = left_idx i + 1) \<and> c < n \<longrightarrow> cmp (d ! c) (d ! parent_idx i) \<le> 0))"

lemma order_refl: "order_fn cmp \<Longrightarrow> cmp x x \<le> 0"
  unfolding order_fn_def by (metis linorder_not_less order_less_asym)

lemma order_trans: "order_fn cmp \<Longrightarrow> cmp x y \<le> 0 \<Longrightarrow> cmp y z \<le> 0 \<Longrightarrow> cmp x z \<le> 0"
  unfolding order_fn_def by blast

lemma order_total: "order_fn cmp \<Longrightarrow> \<not> cmp x y < 0 \<Longrightarrow> cmp y x \<le> 0"
  unfolding order_fn_def by (metis linorder_not_less)

lemma largest_child:
  assumes "order_fn cmp" and "left_idx i < n" and "m = largest_child cmp i n d"
  shows "cmp (d ! i) (d ! m) \<le> 0" and "\<And>c. c = left_idx i \<or> c = left_idx i + 1 \<Longrightarrow> c < n \<Longrightarrow> cmp (d ! c) (d ! m) \<le> 0"
    and "m = i \<or> m = left_idx i \<or> m = left_idx i + 1" and "m < n"
proof -
  have r: "cmp (d ! k) (d ! k) \<le> 0" for k by (rule order_refl [OF assms(1)])
  have t: "cmp (d ! a) (d ! b) \<le> 0" if "\<not> cmp (d ! b) (d ! a) < 0" for a b by (rule order_total [OF assms(1) that])
  have tr: "cmp (d ! a) (d ! c) \<le> 0" if "cmp (d ! a) (d ! b) \<le> 0" "cmp (d ! b) (d ! c) \<le> 0" for a b c
    by (rule order_trans [OF assms(1) that])
  define nx where "nx = (if cmp (d ! i) (d ! left_idx i) < 0 then left_idx i else i)"
  have nx: "cmp (d ! i) (d ! nx) \<le> 0" "cmp (d ! left_idx i) (d ! nx) \<le> 0"
    using r t by (auto simp: nx_def)
  have m: "m = (if left_idx i + 1 < n \<and> cmp (d ! nx) (d ! (left_idx i + 1)) < 0 then left_idx i + 1 else nx)"
    by (simp add: assms(3) largest_child_def nx_def Let_def)
  have nm: "cmp (d ! nx) (d ! m) \<le> 0" using r by (auto simp: m)
  show "cmp (d ! i) (d ! m) \<le> 0" by (rule tr [OF nx(1) nm])
  show "cmp (d ! c) (d ! m) \<le> 0" if "c = left_idx i \<or> c = left_idx i + 1" "c < n" for c
    using that(1)
  proof
    assume "c = left_idx i"
    then show ?thesis using tr [OF nx(2) nm] by simp
  next
    assume c: "c = left_idx i + 1"
    then show ?thesis using r t that(2) by (auto simp: m)
  qed
  show "m = i \<or> m = left_idx i \<or> m = left_idx i + 1" by (auto simp: m nx_def)
  show "m < n" using assms(2) by (auto simp: m nx_def left_idx_def)
qed

lemma swap_nth:
  "i < length d \<Longrightarrow> j < length d \<Longrightarrow> swap i j d ! k = (if k = j then d ! i else if k = i then d ! j else d ! k)"
  by (simp add: swap_def Let_def nth_list_update)

lemma length_swap [simp]: "length (swap i j d) = length d"
  by (simp add: swap_def Let_def)

lemma mset_swap_ptrs: "i < length d \<Longrightarrow> j < length d \<Longrightarrow> mset (swap i j d) = mset d"
  by (simp add: swap_def Let_def mset_swap)

lemma child_unique: "left_idx k = left_idx i \<Longrightarrow> k = i" "left_idx k + 1 = left_idx i + 1 \<Longrightarrow> k = i"
  "left_idx k = left_idx i + 1 \<Longrightarrow> False" "parent_idx (left_idx i) = i" "parent_idx (left_idx i + 1) = i" "i < left_idx i"
  unfolding left_idx_def parent_idx_def by presburger+

lemma heap_step:
  assumes "order_fn cmp" and "heap_but cmp d n j i" and "left_idx i < n" and "n \<le> length d"
    and "m = largest_child cmp i n d" and "m \<noteq> i"
  shows "heap_but cmp (swap i m d) n j m"
proof -
  note l = largest_child [OF assms(1,3,5)]
  have m: "m = left_idx i \<or> m = left_idx i + 1" "i < m" "parent_idx m = i" "m < n"
    using l(3,4) assms(6) child_unique(4-6) [of i] by auto
  have len: "i < length d" "m < length d" using m(2,4) assms(4) by simp_all
  note s = swap_nth [OF len]
  have hb: "j \<le> i" "\<And>k. j \<le> k \<Longrightarrow> k \<noteq> i \<Longrightarrow> node_ok cmp d n k"
    "\<And>c. 0 < i \<Longrightarrow> j \<le> parent_idx i \<Longrightarrow> c = left_idx i \<or> c = left_idx i + 1 \<Longrightarrow> c < n \<Longrightarrow> cmp (d ! c) (d ! parent_idx i) \<le> 0"
    using assms(2) by (auto simp: heap_but_def)
  have nodes: "node_ok cmp (swap i m d) n k" if "j \<le> k" "k \<noteq> m" for k
    unfolding node_ok_def
  proof (intro allI impI)
    fix c
    assume c: "(c = left_idx k \<or> c = left_idx k + 1) \<and> c < n"
    show "cmp (swap i m d ! c) (swap i m d ! k) \<le> 0"
    proof (cases "k = i")
      case True
      have "c \<noteq> i" using c True child_unique(6) [of i] by auto
      then show ?thesis using l(1) l(2) [of c] c True m(2) by (simp add: s)
    next
      case False
      have cm: "c \<noteq> m" using c m(3) False child_unique(4,5) [of k] by auto
      show ?thesis
      proof (cases "c = i")
        case True
        then have p: "parent_idx i = k" "0 < i" using c child_unique(4-6) [of k] by auto
        then show ?thesis using hb(3) [of m] m(1,4) that True False cm by (simp add: s)
      next
        case False
        then show ?thesis using hb(2) [OF that(1)] \<open>k \<noteq> i\<close> cm that(2) c by (auto simp: s node_ok_def)
      qed
    qed
  qed
  have "cmp (swap i m d ! c) (swap i m d ! parent_idx m) \<le> 0"
    if "(c = left_idx m \<or> c = left_idx m + 1) \<and> c < n" for c
  proof -
    have "node_ok cmp d n m" using hb(1,2) m(2) by simp
    moreover have "c \<noteq> m" "c \<noteq> i" using that child_unique(6) [of m] m(2) by auto
    ultimately show ?thesis using that m(2,3) by (auto simp: s node_ok_def)
  qed
  then show ?thesis using nodes hb(1) m(2) by (auto simp: heap_but_def)
qed

lemma down_heap_all:
  "order_fn cmp \<Longrightarrow> heap_but cmp d n j i \<Longrightarrow> n \<le> length d \<Longrightarrow>
     heap_from cmp (down_heap cmp i n d) n j \<and> length (down_heap cmp i n d) = length d \<and>
     mset (down_heap cmp i n d) = mset d \<and> drop n (down_heap cmp i n d) = drop n d"
proof (induction cmp i n d rule: down_heap.induct)
  case (1 cmp i n d)
  have others: "\<And>k. j \<le> k \<Longrightarrow> k \<noteq> i \<Longrightarrow> node_ok cmp d n k"
    using 1(3) by (simp add: heap_but_def)
  show ?case
  proof (cases "left_idx i < n")
    case False
    then have "node_ok cmp d n i" by (auto simp: node_ok_def)
    then have "heap_from cmp d n j" using others by (auto simp: heap_from_def)
    then show ?thesis using False by (simp add: down_heap.simps [of cmp i n d])
  next
    case True
    define m where "m = largest_child cmp i n d"
    note l = largest_child [OF 1(2) True m_def]
    show ?thesis
    proof (cases "m = i")
      case True
      then have "node_ok cmp d n i" using l(2) by (auto simp: node_ok_def)
      then have "heap_from cmp d n j" using others by (auto simp: heap_from_def)
      then show ?thesis using True by (simp add: down_heap.simps [of cmp i n d] Let_def flip: m_def)
    next
      case False
      note h = heap_step [OF 1(2,3) True 1(4) m_def False]
      have len: "i < length d" "m < length d" using True child_unique(6) [of i] l(4) 1(4) by simp_all
      have "drop n (swap i m d) = drop n d"
        using True child_unique(6) [of i] l(4) by (simp add: swap_def Let_def)
      then show ?thesis
        using 1(1) [OF _ m_def _ 1(2) h] True False 1(4) mset_swap_ptrs [OF len]
        by (simp add: down_heap.simps [of cmp i n d] Let_def flip: m_def)
    qed
  qed
qed

lemmas down_heap = down_heap_all [THEN conjunct1] down_heap_all [THEN conjunct2, THEN conjunct1]
  down_heap_all [THEN conjunct2, THEN conjunct2, THEN conjunct1] down_heap_all [THEN conjunct2, THEN conjunct2, THEN conjunct2]

lemma heap_from_but: "heap_from cmp d n (Suc i) \<Longrightarrow> heap_but cmp d n i i"
  by (auto simp: heap_from_def heap_but_def parent_idx_def)

lemma build_heap:
  assumes "order_fn cmp" and "heap_from cmp d n (Suc i)" and "n \<le> length d"
  shows "heap_from cmp (build_heap cmp n i d) n 0 \<and> length (build_heap cmp n i d) = length d \<and>
    mset (build_heap cmp n i d) = mset d \<and> drop n (build_heap cmp n i d) = drop n d"
  using assms(2,3)
proof (induction i arbitrary: d)
  case 0
  then show ?case using down_heap_all [OF assms(1) heap_from_but] by simp
next
  case (Suc i)
  note h = down_heap_all [OF assms(1) heap_from_but [OF Suc(2)] Suc(3)]
  show ?case using Suc(1) [of "down_heap cmp (Suc i) n d"] h Suc(3) by simp
qed

lemma heap_top:
  assumes "order_fn cmp" and "heap_from cmp d n 0" and "k < n"
  shows "cmp (d ! k) (d ! 0) \<le> 0"
  using assms(3)
proof (induction k rule: less_induct)
  case (less k)
  show ?case
  proof (cases "k = 0")
    case True
    then show ?thesis using order_refl [OF assms(1)] by simp
  next
    case False
    then have p: "parent_idx k < k" "k = left_idx (parent_idx k) \<or> k = left_idx (parent_idx k) + 1"
      unfolding left_idx_def parent_idx_def by presburger+
    then have "cmp (d ! k) (d ! parent_idx k) \<le> 0"
      using assms(2) less(2) by (auto simp: heap_from_def node_ok_def)
    moreover have "cmp (d ! parent_idx k) (d ! 0) \<le> 0" using less p(1) by simp
    ultimately show ?thesis by (rule order_trans [OF assms(1)])
  qed
qed

lemma mset_take: "mset xs = mset ys \<Longrightarrow> drop n xs = drop n ys \<Longrightarrow> mset (take n xs) = mset (take n ys)"
  by (metis add_right_cancel append_take_drop_id mset_append)

text \<open>The invariant of the second loop: a heap of the first \<open>i + 1\<close> elements, below the sorted rest.\<close>

definition sorting :: "(ptr \<Rightarrow> ptr \<Rightarrow> int) \<Rightarrow> nat \<Rightarrow> nat \<Rightarrow> ptr list \<Rightarrow> bool" where
  "sorting cmp n i d \<longleftrightarrow> i < n \<and> n \<le> length d \<and> heap_from cmp d (Suc i) 0 \<and> in_order cmp (drop (Suc i) (take n d)) \<and>
     (\<forall>x \<in> set (take (Suc i) d). \<forall>y \<in> set (drop (Suc i) (take n d)). cmp x y \<le> 0)"

lemma sorting_step:
  assumes "order_fn cmp" and "sorting cmp n (Suc i) d"
  defines "d' \<equiv> down_heap cmp 0 (Suc i) (swap 0 (Suc i) d)"
  shows "sorting cmp n i d' \<and> length d' = length d \<and> mset d' = mset d \<and> drop n d' = drop n d"
proof -
  have s: "Suc i < n" "n \<le> length d" "heap_from cmp d (Suc (Suc i)) 0" "in_order cmp (drop (Suc (Suc i)) (take n d))"
    "\<And>x y. x \<in> set (take (Suc (Suc i)) d) \<Longrightarrow> y \<in> set (drop (Suc (Suc i)) (take n d)) \<Longrightarrow> cmp x y \<le> 0"
    using assms(2) by (auto simp: sorting_def)
  have l: "0 < length d" "Suc i < length d" using s(1,2) by linarith+
  define e where "e = swap 0 (Suc i) d"
  have e: "length e = length d" "mset e = mset d" "drop (Suc (Suc i)) e = drop (Suc (Suc i)) d" "e ! Suc i = d ! 0"
  proof -
    show "length e = length d" "mset e = mset d" "e ! Suc i = d ! 0"
      using mset_swap_ptrs [OF l] l swap_nth [OF l] by (simp_all add: e_def)
    show "drop (Suc (Suc i)) e = drop (Suc (Suc i)) d" by (simp add: e_def swap_def Let_def)
  qed
  have "node_ok cmp e (Suc i) k" if "k \<noteq> 0" for k
    unfolding node_ok_def
  proof (intro allI impI)
    fix c
    assume c: "(c = left_idx k \<or> c = left_idx k + 1) \<and> c < Suc i"
    then have "k < c" by (auto simp: left_idx_def)
    moreover have "cmp (d ! c) (d ! k) \<le> 0"
      using s(3) c by (auto simp: heap_from_def node_ok_def)
    ultimately show "cmp (e ! c) (e ! k) \<le> 0" using c s(1,2) that by (simp add: e_def swap_nth [OF l])
  qed
  then have hb: "heap_but cmp e (Suc i) 0 0" by (simp add: heap_but_def)
  have le: "Suc i \<le> length e" using s(1,2) e(1) by simp
  note dh = down_heap_all [OF assms(1) hb le, folded e_def]
  have d': "d' = down_heap cmp 0 (Suc i) e" by (simp add: d'_def e_def)
  have len: "length d' = length d" and ms: "mset d' = mset d" and dr: "drop (Suc i) d' = drop (Suc i) e"
    and hp: "heap_from cmp d' (Suc i) 0"
    using dh e unfolding d' by simp_all
  have dr_e: "drop (Suc i) e = d ! 0 # drop (Suc (Suc i)) d"
    using e(3,4) s(1,2) e(1) by (metis Cons_nth_drop_Suc less_le_trans)
  have n1: "n - Suc i = Suc (n - Suc (Suc i))" using s(1) by simp
  have n2: "n - Suc (Suc i) + Suc (Suc i) = n" using s(1) by simp
  have suffix: "drop (Suc i) (take n d') = d ! 0 # drop (Suc (Suc i)) (take n d)"
  proof -
    have "drop (Suc i) (take n d') = take (n - Suc i) (drop (Suc i) d')" by (simp add: drop_take)
    also have "\<dots> = d ! 0 # take (n - Suc (Suc i)) (drop (Suc (Suc i)) d)"
      unfolding dr dr_e n1 by simp
    finally show ?thesis by (simp add: drop_take)
  qed
  have "drop n d' = drop (n - Suc i) (drop (Suc i) d')" using s(1) by simp
  also have "\<dots> = drop n d" unfolding dr dr_e n1 by (simp only: drop_Suc_Cons drop_drop n2)
  finally have dn: "drop n d' = drop n d" .
  have pre: "set (take (Suc i) d') \<subseteq> set (take (Suc (Suc i)) d)"
  proof -
    have "mset (take (Suc i) d') = mset (take (Suc i) e)" by (rule mset_take) (use ms e(2) dr in simp_all)
    then have "set (take (Suc i) d') = set (take (Suc i) e)" by (metis set_mset_mset)
    moreover have "mset (take (Suc (Suc i)) e) = mset (take (Suc (Suc i)) d)" by (rule mset_take) (use e in simp_all)
    then have "set (take (Suc (Suc i)) e) = set (take (Suc (Suc i)) d)" by (metis set_mset_mset)
    ultimately show ?thesis using set_take_subset_set_take [of "Suc i" "Suc (Suc i)" e] by simp
  qed
  have d0: "d ! 0 \<in> set (take (Suc (Suc i)) d)" using s(1,2) by (auto simp: in_set_conv_nth)
  have top: "cmp x (d ! 0) \<le> 0" if "x \<in> set (take (Suc (Suc i)) d)" for x
  proof -
    note x = that
    obtain k where k: "k < length (take (Suc (Suc i)) d)" "x = take (Suc (Suc i)) d ! k"
      using x unfolding in_set_conv_nth by blast
    then have "k < Suc (Suc i)" "x = d ! k" by simp_all
    then show ?thesis using heap_top [OF assms(1) s(3)] by simp
  qed
  have "sorting cmp n i d'"
    unfolding sorting_def suffix using s len hp pre d0 top by (auto simp: in_order_def)
  then show ?thesis using len ms dn by blast
qed

lemma take_max_loop:
  assumes "order_fn cmp" and "sorting cmp n i d"
  shows "in_order cmp (take n (take_max_loop cmp i d)) \<and> length (take_max_loop cmp i d) = length d \<and>
    mset (take_max_loop cmp i d) = mset d \<and> drop n (take_max_loop cmp i d) = drop n d"
  using assms(2)
proof (induction i arbitrary: d)
  case 0
  obtain x xs where "take n d = x # xs" using 0 by (cases "take n d") (auto simp: sorting_def)
  moreover from this have "take 1 d = [x]" using 0 by (cases d; cases n) (auto simp: sorting_def)
  ultimately show ?case using 0 by (simp add: sorting_def in_order_def)
next
  case (Suc i)
  show ?case using sorting_step [OF assms(1) Suc(2)] Suc(1) by simp
qed

lemma heap_sort:
  assumes "order_fn cmp" and "2 \<le> n" and "n \<le> length d"
  defines "d' \<equiv> take_max_loop cmp (n - 1) (build_heap cmp n (parent_idx (n - 1)) d)"
  shows "in_order cmp (take n d')" and "mset (take n d') = mset (take n d)" and "length d' = length d" and "drop n d' = drop n d"
proof -
  have "heap_from cmp d n (Suc (parent_idx (n - 1)))"
    unfolding heap_from_def node_ok_def left_idx_def parent_idx_def by auto
  note b = build_heap [OF assms(1) this assms(3)]
  have "sorting cmp n (n - 1) (build_heap cmp n (parent_idx (n - 1)) d)"
    using b assms(2,3) by (simp add: sorting_def in_order_def)
  note t = take_max_loop [OF assms(1) this, folded d'_def]
  show "in_order cmp (take n d')" "length d' = length d" "drop n d' = drop n d" using t b by simp_all
  show "mset (take n d') = mset (take n d)" by (rule mset_take) (use t b in simp_all)
qed


section \<open>Searching\<close>

lemma find_from_Some:
  "find_from P d i n = Some k \<longleftrightarrow> i \<le> k \<and> k < n \<and> P (d ! k) \<and> (\<forall>j. i \<le> j \<and> j < k \<longrightarrow> \<not> P (d ! j))"
proof (induction P d i n rule: find_from.induct)
  case (1 P d i n)
  show ?case
  proof (cases "i < n \<and> \<not> P (d ! i)")
    case True
    then show ?thesis
      using 1 by (subst find_from.simps) (auto simp: Suc_le_eq dest: le_neq_implies_less)
  next
    case False
    then show ?thesis
      by (subst find_from.simps) (auto simp: le_less)
  qed
qed

lemma find_from_None: "find_from P d i n = None \<longleftrightarrow> (\<forall>j. i \<le> j \<and> j < n \<longrightarrow> \<not> P (d ! j))"
proof (induction P d i n rule: find_from.induct)
  case (1 P d i n)
  show ?case
  proof (cases "i < n \<and> \<not> P (d ! i)")
    case True
    then show ?thesis
      using 1 by (subst find_from.simps) (auto simp: Suc_le_eq dest: le_neq_implies_less)
  next
    case False
    then show ?thesis
      by (subst find_from.simps) auto
  qed
qed

text \<open>The binary search agrees with the linear search, on an interval that its comparisons are monotone on.\<close>

lemma find_from_narrow:
  assumes "lo \<le> a" and "b \<le> hi"
    and P: "\<And>j. lo \<le> j \<Longrightarrow> j < hi \<Longrightarrow> P (d ! j) \<Longrightarrow> \<exists>k. a \<le> k \<and> k < b \<and> k \<le> j \<and> P (d ! k)"
  shows "find_from P d a b = find_from P d lo hi"
proof (cases "find_from P d a b")
  case None
  then have "\<not> P (d ! j)" if "lo \<le> j" "j < hi" for j
    using P [OF that] unfolding find_from_None by blast
  then have "find_from P d lo hi = None" unfolding find_from_None by blast
  then show ?thesis using None by simp
next
  case (Some k)
  then have k: "a \<le> k" "k < b" "P (d ! k)" "\<And>j. a \<le> j \<Longrightarrow> j < k \<Longrightarrow> \<not> P (d ! j)"
    unfolding find_from_Some by blast+
  have "\<not> P (d ! j)" if j: "lo \<le> j" "j < k" for j
  proof
    assume "P (d ! j)"
    moreover have "j < hi" using j k(2) assms(2) by simp
    ultimately obtain l where "a \<le> l" "l \<le> j" "P (d ! l)" using P j(1) by blast
    then show False using k(4) [of l] j(2) by simp
  qed
  then have "find_from P d lo hi = Some k" using k assms(1,2) unfolding find_from_Some by auto
  then show ?thesis using Some by simp
qed

lemma find_sorted_linear:
  assumes "\<And>i j. lo \<le> i \<Longrightarrow> i \<le> j \<Longrightarrow> j < hi \<Longrightarrow> cmp (d ! j) > 0 \<Longrightarrow> cmp (d ! i) > 0"
    and "\<And>i j. lo \<le> i \<Longrightarrow> i \<le> j \<Longrightarrow> j < hi \<Longrightarrow> cmp (d ! i) < 0 \<Longrightarrow> cmp (d ! j) < 0"
  shows "find_sorted cmp d lo hi = find_from (\<lambda>x. cmp x = 0) d lo hi"
  using assms
proof (induction cmp d lo hi rule: find_sorted.induct)
  case (1 cmp d lo hi)
  show ?case
  proof (cases "lo < hi")
    case False
    then show ?thesis by (simp add: find_sorted.simps find_from.simps)
  next
    case True
    define mid where "mid = lo + (hi - lo - 1) div 2"
    have mid: "lo \<le> mid" "mid < hi" "\<not> hi - lo = 1 \<Longrightarrow> mid + 1 < hi" using True by (auto simp: mid_def)
    note fs = find_sorted.simps [of cmp d lo hi, unfolded Let_def, folded mid_def]
    have mono: "0 < cmp (d ! j) \<Longrightarrow> 0 < cmp (d ! i)" "cmp (d ! i) < 0 \<Longrightarrow> cmp (d ! j) < 0"
      if "lo \<le> a" "b \<le> hi" "a \<le> i" "i \<le> j" "j < b" for a b i j
      using "1.prems"(1) [of i j] "1.prems"(2) [of i j] that by simp_all
    consider "cmp (d ! mid) > 0" | "cmp (d ! mid) < 0" | "cmp (d ! mid) = 0" "hi - lo = 1" | "cmp (d ! mid) = 0" "\<not> hi - lo = 1" by linarith
    then show ?thesis
    proof cases
      case 1
      have "find_sorted cmp d lo hi = find_sorted cmp d (mid + 1) hi" using True 1 by (simp add: fs)
      also have "\<dots> = find_from (\<lambda>x. cmp x = 0) d (mid + 1) hi"
      proof (rule "1.IH"(1) [OF True mid_def refl])
        show "0 < cmp (d ! i)" if "mid + 1 \<le> i" "i \<le> j" "j < hi" "0 < cmp (d ! j)" for i j
          by (rule mono(1) [OF _ _ that]) (use mid in simp_all)
        show "cmp (d ! j) < 0" if "mid + 1 \<le> i" "i \<le> j" "j < hi" "cmp (d ! i) < 0" for i j
          by (rule mono(2) [OF _ _ that]) (use mid in simp_all)
      qed (use 1 in simp_all)
      also have "\<dots> = find_from (\<lambda>x. cmp x = 0) d lo hi"
      proof (rule find_from_narrow)
        fix j assume j: "lo \<le> j" "j < hi" "cmp (d ! j) = 0"
        then have "\<not> j \<le> mid" using "1.prems"(1) [of j mid] 1 mid(2) by auto
        then show "\<exists>k. mid + 1 \<le> k \<and> k < hi \<and> k \<le> j \<and> cmp (d ! k) = 0" using j by (intro exI [of _ j]) simp
      qed (use mid in simp_all)
      finally show ?thesis .
    next
      case 2
      have "find_sorted cmp d lo hi = find_sorted cmp d lo mid" using True 2 by (simp add: fs)
      also have "\<dots> = find_from (\<lambda>x. cmp x = 0) d lo mid"
      proof (rule "1.IH"(2) [OF True mid_def refl])
        show "0 < cmp (d ! i)" if "lo \<le> i" "i \<le> j" "j < mid" "0 < cmp (d ! j)" for i j
          by (rule mono(1) [OF _ _ that]) (use mid in simp_all)
        show "cmp (d ! j) < 0" if "lo \<le> i" "i \<le> j" "j < mid" "cmp (d ! i) < 0" for i j
          by (rule mono(2) [OF _ _ that]) (use mid in simp_all)
      qed (use 2 in simp_all)
      also have "\<dots> = find_from (\<lambda>x. cmp x = 0) d lo hi"
      proof (rule find_from_narrow)
        fix j assume j: "lo \<le> j" "j < hi" "cmp (d ! j) = 0"
        then have "\<not> mid \<le> j" using "1.prems"(2) [of mid j] 2 mid(1) by auto
        then show "\<exists>k. lo \<le> k \<and> k < mid \<and> k \<le> j \<and> cmp (d ! k) = 0" using j by (intro exI [of _ j]) simp
      qed (use mid in simp_all)
      finally show ?thesis .
    next
      case 3
      then have "mid = lo" using mid True by simp
      then show ?thesis using 3 True by (simp add: fs find_from.simps [of _ d lo])
    next
      case 4
      have "find_sorted cmp d lo hi = find_sorted cmp d lo (mid + 1)" using True 4 by (simp add: fs)
      also have "\<dots> = find_from (\<lambda>x. cmp x = 0) d lo (mid + 1)"
      proof (rule "1.IH"(3) [OF True mid_def refl])
        show "0 < cmp (d ! i)" if "lo \<le> i" "i \<le> j" "j < mid + 1" "0 < cmp (d ! j)" for i j
          by (rule mono(1) [OF _ _ that]) (use mid in simp_all)
        show "cmp (d ! j) < 0" if "lo \<le> i" "i \<le> j" "j < mid + 1" "cmp (d ! i) < 0" for i j
          by (rule mono(2) [OF _ _ that]) (use mid in simp_all)
      qed (use 4 in simp_all)
      also have "\<dots> = find_from (\<lambda>x. cmp x = 0) d lo hi"
      proof (rule find_from_narrow)
        fix j assume j: "lo \<le> j" "j < hi" "cmp (d ! j) = 0"
        then show "\<exists>k. lo \<le> k \<and> k < mid + 1 \<and> k \<le> j \<and> cmp (d ! k) = 0"
          using 4 mid by (intro exI [of _ "min j mid"]) (simp add: min_def)
      qed (use mid in simp_all)
      finally show ?thesis .
    qed
  qed
qed


section \<open>The sequence that a stack is\<close>

text \<open>The interface of a sequence that values are pushed on and popped from.\<close>

locale lifo =
  fixes ok :: "'s \<Rightarrow> bool" and seq :: "'s \<Rightarrow> 'v list"
    and push :: "'s \<Rightarrow> 'v \<Rightarrow> 's option" and pop :: "'s \<Rightarrow> ('v \<times> 's) option"
  assumes push: "ok s \<Longrightarrow> push s v = Some s' \<Longrightarrow> ok s' \<and> seq s' = seq s @ [v]"
    and pop: "ok s \<Longrightarrow> seq s = vs @ [v] \<Longrightarrow> \<exists>s'. pop s = Some (v, s') \<and> ok s' \<and> seq s' = vs"
begin

fun push_all :: "'s \<Rightarrow> 'v list \<Rightarrow> 's option" where
  "push_all s [] = Some s"
| "push_all s (v # vs) = (case push s v of None \<Rightarrow> None | Some s \<Rightarrow> push_all s vs)"

fun pop_n :: "nat \<Rightarrow> 's \<Rightarrow> ('v list \<times> 's) option" where
  "pop_n 0 s = Some ([], s)"
| "pop_n (Suc n) s =
     (case pop s of None \<Rightarrow> None | Some (v, s) \<Rightarrow> (case pop_n n s of None \<Rightarrow> None | Some (vs, s) \<Rightarrow> Some (v # vs, s)))"

lemma push_all_seq: "ok s \<Longrightarrow> push_all s vs = Some s' \<Longrightarrow> ok s' \<and> seq s' = seq s @ vs"
proof (induction vs arbitrary: s)
  case (Cons v vs)
  then obtain s1 where "push s v = Some s1" "push_all s1 vs = Some s'" by (auto split: option.splits)
  then show ?case using push [OF Cons.prems(1)] Cons.IH [of s1] by auto
qed simp

lemma pop_n_seq: "ok s \<Longrightarrow> seq s = us @ vs \<Longrightarrow> \<exists>s'. pop_n (length vs) s = Some (rev vs, s') \<and> ok s' \<and> seq s' = us"
proof (induction vs arbitrary: s rule: rev_induct)
  case (snoc v vs)
  obtain s1 where s1: "pop s = Some (v, s1)" "ok s1" "seq s1 = us @ vs"
    using pop [of s "us @ vs" v] snoc.prems by auto
  then show ?case using snoc.IH [OF s1(2,3)] by auto
qed simp

theorem push_pop:
  assumes "ok s" and "push_all s vs = Some s'"
  shows "\<exists>s''. pop_n (length vs) s' = Some (rev vs, s'') \<and> ok s'' \<and> seq s'' = seq s"
  using push_all_seq [OF assms] pop_n_seq [of s' "seq s" vs] by blast

end

definition push_ok :: "allocator \<Rightarrow> stack_st \<Rightarrow> ptr \<Rightarrow> stack_st option" where
  "push_ok alloc s p = (case OPENSSL_sk_push alloc s p of (Some s', n) \<Rightarrow> if n = 0 then None else Some s' | _ \<Rightarrow> None)"

definition pop_ok :: "stack_st \<Rightarrow> (ptr \<times> stack_st) option" where
  "pop_ok s = (case OPENSSL_sk_pop (Some s) of (Some s', p) \<Rightarrow> Some (p, s') | _ \<Rightarrow> None)"

text \<open>An allocator that gives blocks of the right size makes the stack such a sequence.\<close>

definition checked :: "allocator \<Rightarrow> allocator" where
  "checked alloc n = (case alloc n of Some ps \<Rightarrow> if length ps = n div 8 then Some ps else None | None \<Rightarrow> None)"

lemma good_checked: "good_alloc (checked alloc)"
  by (simp add: good_alloc_def checked_def split: option.split)

lemma checked_good: "good_alloc alloc \<Longrightarrow> checked alloc = alloc"
  by (rule ext) (simp add: good_alloc_def checked_def split: option.split)

interpretation sk: lifo stack_ok contents "push_ok (checked alloc)" pop_ok for alloc
proof unfold_locales
  show "push_ok (checked alloc) s v = Some s' \<Longrightarrow> stack_ok s' \<and> contents s' = contents s @ [v]" if "stack_ok s" for s v s'
    by (rule OPENSSL_sk_insert_cases [OF good_checked that, of alloc v "num s"])
      (use that in \<open>auto simp: push_ok_def OPENSSL_sk_push_def insert_at_def\<close>)
  show "\<exists>s'. pop_ok s = Some (v, s') \<and> stack_ok s' \<and> contents s' = vs" if "stack_ok s" "contents s = vs @ [v]" for s vs v
  proof -
    have n: "num s = length vs + 1" using length_contents [OF that(1)] that(2) by simp
    then show ?thesis
      using OPENSSL_sk_delete_eq(2) [OF that(1), of "num s - 1"] that(2)
      by (auto simp: pop_ok_def OPENSSL_sk_pop_def delete_at_def)
  qed
qed


section \<open>Deleting by a predicate\<close>

fun filter_st :: "(ptr \<Rightarrow> 's \<Rightarrow> bool \<times> 's) \<Rightarrow> ptr list \<Rightarrow> 's \<Rightarrow> ptr list \<times> 's" where
  "filter_st func [] st = ([], st)"
| "filter_st func (x # xs) st =
     (case func x st of (r, st) \<Rightarrow> case filter_st func xs st of (ys, st) \<Rightarrow> (if r then ys else x # ys, st))"

lemma delete_if_loop:
  assumes "m \<le> i" and "i \<le> n" and "n \<le> length d" and "filter_st func (drop i (take n d)) st = (kept, st')"
  shows "\<exists>d'. delete_if_loop func n i m d st = (m + length kept, d', st') \<and> length d' = length d \<and>
    take (m + length kept) d' = take m d @ kept \<and> m + length kept \<le> n"
  using assms
proof (induction func n i m d st arbitrary: kept rule: delete_if_loop.induct)
  case (1 func n i m d st)
  show ?case
  proof (cases "i < n")
    case False
    then show ?thesis using 1 by (subst delete_if_loop.simps) simp
  next
    case True
    have dr: "drop i (take n d) = d ! i # drop (i + 1) (take n d)"
      using True 1(5) by (simp add: Cons_nth_drop_Suc [symmetric])
    obtain r st1 where f: "func (d ! i) st = (r, st1)" by (metis surj_pair)
    obtain ys st2 where g: "filter_st func (drop (i + 1) (take n d)) st1 = (ys, st2)" by (metis surj_pair)
    have k: "kept = (if r then ys else d ! i # ys)" "st' = st2" using 1(6) unfolding dr by (simp_all add: f g [simplified] split: if_splits)
    show ?thesis
    proof (cases r)
      case r: True
      have "\<exists>d'. delete_if_loop func n (i + 1) m d st1 = (m + length ys, d', st') \<and> length d' = length d \<and>
          take (m + length ys) d' = take m d @ ys \<and> m + length ys \<le> n"
        by (rule 1(1) [OF True f [symmetric]]) (use r 1(3-5) True g k in simp_all)
      then show ?thesis
        using True f k r by (subst delete_if_loop.simps) simp
    next
      case r: False
      define e where "e = d[m := d ! i]"
      have e: "drop (i + 1) (take n e) = drop (i + 1) (take n d)" "take (m + 1) e = take m d @ [d ! i]" "length e = length d"
        using 1(3,5) True by (simp_all add: e_def take_update_swap take_Suc_conv_app_nth list_update_append)
      have "\<exists>d'. delete_if_loop func n (i + 1) (m + 1) e st1 = (m + 1 + length ys, d', st') \<and> length d' = length e \<and>
          take (m + 1 + length ys) d' = take (m + 1) e @ ys \<and> m + 1 + length ys \<le> n"
        by (rule 1(2) [OF True f [symmetric], folded e_def]) (use r 1(3-5) True g e k in simp_all)
      then show ?thesis
        using True f k r e by (subst delete_if_loop.simps) (simp add: e_def)
    qed
  qed
qed

lemma filter_st_subseq: "filter_st func xs st = (ys, st') \<Longrightarrow> sorted_wrt R xs \<Longrightarrow> sorted_wrt R ys \<and> set ys \<subseteq> set xs"
proof (induction xs arbitrary: st ys)
  case (Cons x xs)
  obtain r st1 where f: "func x st = (r, st1)" by (metis surj_pair)
  obtain zs where g: "filter_st func xs st1 = (zs, st')" "ys = (if r then zs else x # zs)"
    using Cons.prems(1) f by (auto split: prod.splits)
  then show ?case using Cons.IH [OF g(1)] Cons.prems(2) by auto
qed simp

lemma OPENSSL_sk_delete_if:
  assumes "stack_ok s" and "filter_st func (contents s) st = (kept, st')"
  obtains s' where "OPENSSL_sk_delete_if func (Some s) st = (Some s', st')" and "stack_ok s'" and "contents s' = kept"
    and "sorted_flag s' = sorted_flag s" and "comp s' = comp s"
proof -
  have l: "num s \<le> length (data s)" "length (data s) = num_alloc s" using assms(1) by (simp_all add: stack_ok_def)
  have "filter_st func (drop 0 (take (num s) (data s))) st = (kept, st')" using assms(2) by (simp add: contents_def)
  from delete_if_loop [OF le0 le0 l(1) this] obtain d where d: "delete_if_loop func (num s) 0 0 (data s) st = (length kept, d, st')"
    "length d = length (data s)" "take (length kept) d = kept" "length kept \<le> num s" by auto
  then show thesis
    using that [of "s\<lparr>data := d, num := length kept\<rparr>"] assms(1)
    by (auto simp: OPENSSL_sk_delete_if_def stack_ok_def contents_def)
qed

section \<open>The properties\<close>

lemma stack_sort_cases:
  assumes "stack_ok s" and "comp s \<noteq> NULL" and "order_fn (call (comp s))" and "stack_sorted call s"
  obtains s' where "OPENSSL_sk_sort call (Some s) = Some s'" and "stack_ok s'" and "sorted_flag s'" and "comp s' = comp s"
    and "in_order (call (comp s)) (contents s')" and "mset (contents s') = mset (contents s)" and "num s' = num s"
proof (cases "sorted_flag s")
  case True
  then show thesis using that [of s] assms by (auto simp: OPENSSL_sk_sort_def stack_sorted_def)
next
  case False
  show thesis
  proof (cases "num s \<ge> 2")
    case True
    have l: "num s \<le> length (data s)" using assms(1) by (simp add: stack_ok_def)
    define d where "d = take_max_loop (call (comp s)) (num s - 1) (build_heap (call (comp s)) (num s) (parent_idx (num s - 1)) (data s))"
    note h = heap_sort [OF assms(3) True l, folded d_def]
    have "OPENSSL_sk_sort call (Some s) = Some (s\<lparr>data := d, sorted_flag := True\<rparr>)"
      using True False assms(2) by (simp add: OPENSSL_sk_sort_def Let_def d_def)
    then show thesis
      using that [of "s\<lparr>data := d, sorted_flag := True\<rparr>"] h assms(1) by (simp add: stack_ok_def contents_def)
  next
    case small: False
    then have "OPENSSL_sk_sort call (Some s) = Some (s\<lparr>sorted_flag := True\<rparr>)"
      using False assms(2) by (simp add: OPENSSL_sk_sort_def)
    moreover have "in_order (call (comp s)) (contents s)"
      using small length_contents [OF assms(1)] by (cases "contents s"; cases "tl (contents s)") (auto simp: in_order_def)
    ultimately show thesis
      using that [of "s\<lparr>sorted_flag := True\<rparr>"] assms(1) by (simp add: stack_ok_def contents_def)
  qed
qed

text \<open>C3. \<open>OPENSSL_sk_sort\<close> leaves the same elements in ascending order and marks the stack as sorted.\<close>

theorem OPENSSL_sk_sort_sorts:
  assumes "stack_ok s" and "comp s \<noteq> NULL" and "order_fn (call (comp s))" and "stack_sorted call s"
  shows "\<exists>s'. OPENSSL_sk_sort call (Some s) = Some s' \<and> stack_ok s' \<and> sorted_flag s' \<and>
    in_order (call (comp s)) (contents s') \<and> mset (contents s') = mset (contents s)"
  by (rule stack_sort_cases [OF assms]) blast

text \<open>C24. \<open>OPENSSL_sk_find\<close> gives the first index with an equal element and nothing when there is none: by comparing pointers
  when there is no comparison function, else by comparing in order, or by bisection when the stack says it is sorted. A null
  pointer is not found by a comparison function. The bisection relies on a comparison function that is an order and on the
  mark being right: a stack that says it is sorted is in order. All operations keep that (\<open>stack_invariant\<close>) except \<open>OPENSSL_sk_set\<close>,
  after which a value may not be found (\<open>OPENSSL_sk_set_loses_order\<close>).\<close>

theorem OPENSSL_sk_find_first:
  assumes "stack_ok s"
    and "comp s \<noteq> NULL \<Longrightarrow> OPENSSL_sk_is_sorted (Some s) \<Longrightarrow> order_fn (call (comp s)) \<and> in_order (call (comp s)) (contents s)"
  shows "OPENSSL_sk_find call (Some s) p = Some k \<longleftrightarrow>
    (let equal = (\<lambda>x. if comp s = NULL then x = p else p \<noteq> NULL \<and> call (comp s) p x = 0)
     in k < num s \<and> equal (contents s ! k) \<and> (\<forall>j < k. \<not> equal (contents s ! j)))"
proof -
  define cmp where "cmp = call (comp s) p"
  have first: "find_from P (data s) 0 (num s) = Some k \<longleftrightarrow> k < num s \<and> P (contents s ! k) \<and> (\<forall>j < k. \<not> P (contents s ! j))" for P
    unfolding find_from_Some by (auto simp: contents_nth)
  consider "comp s = NULL" | "comp s \<noteq> NULL" "p = NULL" | "comp s \<noteq> NULL" "p \<noteq> NULL" by blast
  then show ?thesis
  proof cases
    case 3
    have "OPENSSL_sk_find call (Some s) p = find_from (\<lambda>x. cmp x = 0) (data s) 0 (num s)"
    proof (cases "OPENSSL_sk_is_sorted (Some s)")
      case False
      then show ?thesis using 3 by (simp add: OPENSSL_sk_find_def cmp_def)
    next
      case True
      from assms(2) [OF 3(1) True] have ord: "order_fn (call (comp s))" and srt: "sorted_wrt (\<lambda>x y. call (comp s) x y \<le> 0) (contents s)"
        by (simp_all add: in_order_def)
      have so: "call (comp s) (data s ! i) (data s ! j) \<le> 0" if "i \<le> j" "j < num s" for i j
      proof (cases "i = j")
        case True
        then show ?thesis using order_refl [OF ord] by simp
      next
        case False
        then have "call (comp s) (contents s ! i) (contents s ! j) \<le> 0"
          using srt that length_contents [OF assms(1)] by (simp add: sorted_wrt_iff_nth_less)
        then show ?thesis using that by (simp add: contents_nth)
      qed
      have o: "\<And>x y. call (comp s) x y < 0 \<longleftrightarrow> call (comp s) y x > 0"
        "\<And>x y z. call (comp s) x y \<le> 0 \<Longrightarrow> call (comp s) y z \<le> 0 \<Longrightarrow> call (comp s) x z \<le> 0"
        using ord unfolding order_fn_def by blast+
      have "find_sorted cmp (data s) 0 (num s) = find_from (\<lambda>x. cmp x = 0) (data s) 0 (num s)"
      proof (rule find_sorted_linear)
        show "cmp (data s ! i) > 0" if "0 \<le> i" "i \<le> j" "j < num s" "cmp (data s ! j) > 0" for i j
          using o so [OF that(2,3)] that(4) unfolding cmp_def by (metis linorder_not_less)
        show "cmp (data s ! j) < 0" if "0 \<le> i" "i \<le> j" "j < num s" "cmp (data s ! i) < 0" for i j
          using o so [OF that(2,3)] that(4) unfolding cmp_def by (metis linorder_not_less)
      qed
      then show ?thesis using True 3 by (simp add: OPENSSL_sk_find_def cmp_def)
    qed
    then show ?thesis using 3 first [of "\<lambda>x. cmp x = 0"] by (simp add: cmp_def)
  qed (simp_all add: OPENSSL_sk_find_def first)
qed

text \<open>C31. Values pushed on a stack are popped in the reverse order, and leave it as it was.\<close>

theorem OPENSSL_sk_push_pop:
  assumes "good_alloc alloc" and "stack_ok s" and "sk.push_all alloc s ps = Some s'"
  shows "\<exists>s''. sk.pop_n (length ps) s' = Some (rev ps, s'') \<and> stack_ok s'' \<and> contents s'' = contents s"
  using sk.push_pop [OF assms(2,3)] .

definition good :: "cmp_caller \<Rightarrow> stack_st \<Rightarrow> bool" where
  "good call s \<longleftrightarrow> stack_ok s \<and> stack_sorted call s"

lemma in_order_delete: "in_order cmp xs \<Longrightarrow> in_order cmp (delete_at w xs)"
proof -
  assume "in_order cmp xs"
  then have "in_order cmp (take w xs @ drop w xs)" by simp
  then have "sorted_wrt (\<lambda>x y. cmp x y \<le> 0) (take w xs)" "sorted_wrt (\<lambda>x y. cmp x y \<le> 0) (drop w xs)"
    "\<forall>x \<in> set (take w xs). \<forall>y \<in> set (drop w xs). cmp x y \<le> 0"
    unfolding in_order_def sorted_wrt_append by blast+
  moreover have "set (drop (w + 1) xs) \<subseteq> set (drop w xs)" by (rule set_drop_subset_set_drop) simp
  moreover have "sorted_wrt (\<lambda>x y. cmp x y \<le> 0) (drop (w + 1) xs)"
    using \<open>in_order cmp xs\<close> unfolding in_order_def by (rule sorted_wrt_drop)
  ultimately show ?thesis
    unfolding in_order_def delete_at_def sorted_wrt_append by blast
qed

text \<open>Every operation but \<open>OPENSSL_sk_set\<close> keeps a stack well formed: its array has \<open>num_alloc\<close> pointers, at least
  \<open>num\<close>, \<open>num\<close> fits an \<open>int\<close>, and a stack marked as sorted is in order.\<close>

theorem stack_invariant:
  assumes "good_alloc alloc" and "\<And>f. order_fn (call f)" and "good call s"
  shows "OPENSSL_sk_new alloc f = Some s' \<Longrightarrow> good call s'"
    and "fst (OPENSSL_sk_insert alloc (Some s) p w) = Some s' \<Longrightarrow> good call s'"
    and "fst (OPENSSL_sk_delete (Some s) w) = Some s' \<Longrightarrow> good call s'"
    and "fst (OPENSSL_sk_delete_if func (Some s) st) = Some s' \<Longrightarrow> good call s'"
    and "OPENSSL_sk_zero (Some s) = Some s' \<Longrightarrow> good call s'"
    and "OPENSSL_sk_sort call (Some s) = Some s' \<Longrightarrow> good call s'"
    and "good call (fst (OPENSSL_sk_set_cmp_func s f))"
    and "OPENSSL_sk_dup alloc (Some s) = Some s' \<Longrightarrow> good call s'"
proof -
  have ok: "stack_ok s" and so: "stack_sorted call s" using assms(3) by (simp_all add: good_def)
  show "good call s'" if "OPENSSL_sk_new alloc f = Some s'"
  proof -
    have "s' = \<lparr>num = 0, data = replicate kMinSize NULL, sorted_flag = False, num_alloc = kMinSize, comp = f\<rparr>"
      using that unfolding OPENSSL_sk_new_def by (simp split: option.splits)
    then show ?thesis by (simp add: good_def stack_ok_def stack_sorted_def)
  qed
  show "good call s'" if "fst (OPENSSL_sk_insert alloc (Some s) p w) = Some s'"
  proof (rule OPENSSL_sk_insert_cases [OF assms(1) ok, of p w])
    assume "OPENSSL_sk_insert alloc (Some s) p w = (Some s, 0)"
    then show ?thesis using that assms(3) by simp
  next
    fix s1
    assume "OPENSSL_sk_insert alloc (Some s) p w = (Some s1, num s + 1)" "stack_ok s1" "\<not> sorted_flag s1"
    then show ?thesis using that by (simp add: good_def stack_sorted_def)
  qed
  show "good call s'" if "fst (OPENSSL_sk_delete (Some s) w) = Some s'"
  proof (cases "num s \<le> w")
    case True
    then show ?thesis using OPENSSL_sk_delete_eq(1) [OF ok] that assms(3) by simp
  next
    case False
    then show ?thesis
      using OPENSSL_sk_delete_eq(2) [OF ok, of w] that so in_order_delete by (auto simp: good_def stack_sorted_def)
  qed
  show "good call s'" if "fst (OPENSSL_sk_delete_if func (Some s) st) = Some s'"
  proof -
    obtain kept st' where f: "filter_st func (contents s) st = (kept, st')" by (metis surj_pair)
    obtain s1 where "OPENSSL_sk_delete_if func (Some s) st = (Some s1, st')" "stack_ok s1" "contents s1 = kept"
      "sorted_flag s1 = sorted_flag s" "comp s1 = comp s"
      using OPENSSL_sk_delete_if [OF ok f] by blast
    then show ?thesis
      using that so filter_st_subseq [OF f] by (simp add: good_def stack_sorted_def in_order_def)
  qed
  show "good call s'" if "OPENSSL_sk_zero (Some s) = Some s'"
    using that assms(3) by (auto simp: OPENSSL_sk_zero_def good_def stack_ok_def stack_sorted_def split: if_splits)
  show "good call s'" if "OPENSSL_sk_sort call (Some s) = Some s'"
  proof (cases "comp s = NULL")
    case True
    then show ?thesis using that assms(3) by (simp add: OPENSSL_sk_sort_def)
  next
    case False
    obtain s1 where "OPENSSL_sk_sort call (Some s) = Some s1" "stack_ok s1" "comp s1 = comp s" "in_order (call (comp s)) (contents s1)"
      using stack_sort_cases [OF ok False assms(2) so] by blast
    then show ?thesis using that False by (simp add: good_def stack_sorted_def)
  qed
  show "good call (fst (OPENSSL_sk_set_cmp_func s f))"
    using ok so by (auto simp: OPENSSL_sk_set_cmp_func_def Let_def good_def stack_ok_def stack_sorted_def contents_def)
  show "good call s'" if "OPENSSL_sk_dup alloc (Some s) = Some s'"
    using that ok so by (auto simp: OPENSSL_sk_dup_def good_def stack_ok_def stack_sorted_def contents_def split: option.splits)
qed

section \<open>Concrete stacks\<close>

definition unsigned_cmp :: cmp_caller where
  "unsigned_cmp f x y = int (unat x) - int (unat y)"

lemma unsigned_cmp_order: "order_fn (unsigned_cmp f)"
  by (simp add: order_fn_def unsigned_cmp_def)

definition zeros_alloc :: allocator where
  "zeros_alloc n = Some (replicate (n div 8) NULL)"

lemma good_zeros_alloc: "good_alloc zeros_alloc"
  by (simp add: good_alloc_def zeros_alloc_def)

definition sample :: stack_st where
  "sample = \<lparr>num = 3, data = [7, 3, 5, 0], sorted_flag = False, num_alloc = 4, comp = 1\<rparr>"

lemma sample_ok: "stack_ok sample" "comp sample \<noteq> NULL" "stack_sorted unsigned_cmp sample"
  by (simp_all add: sample_def stack_ok_def stack_sorted_def)

lemma OPENSSL_sk_sort_sorts_witness: "in_order (unsigned_cmp 1) (contents (the (OPENSSL_sk_sort unsigned_cmp (Some sample))))"
  using OPENSSL_sk_sort_sorts [OF sample_ok(1,2) unsigned_cmp_order sample_ok(3)] by (auto simp: sample_def)

lemma OPENSSL_sk_find_first_witness:
  "OPENSSL_sk_find unsigned_cmp (Some \<lparr>num = 4, data = [3, 5, 5, 7], sorted_flag = True, num_alloc = 4, comp = 1\<rparr>) 5 = Some 1"
  using OPENSSL_sk_find_first [of "\<lparr>num = 4, data = [3, 5, 5, 7], sorted_flag = True, num_alloc = 4, comp = 1\<rparr>" unsigned_cmp 5 1] unsigned_cmp_order
  by (simp add: stack_ok_def contents_def in_order_def unsigned_cmp_def)

lemma OPENSSL_sk_push_pop_witness: "\<exists>s' s''. sk.push_all zeros_alloc sample [8, 9] = Some s' \<and> sk.pop_n 2 s' = Some ([9, 8], s'')"
proof -
  have "sk.push_all zeros_alloc sample [8, 9] \<noteq> None"
    by (simp add: push_ok_def OPENSSL_sk_push_def OPENSSL_sk_insert_def sk_grow_def realloc_ptrs_def checked_def zeros_alloc_def sample_def Let_def)
  then obtain s' where "sk.push_all zeros_alloc sample [8, 9] = Some s'" by blast
  then show ?thesis using OPENSSL_sk_push_pop [OF good_zeros_alloc sample_ok(1), of "[8, 9]" s'] by (auto simp: numeral_2_eq_2)
qed

lemma stack_invariant_witness: "good unsigned_cmp (fst (OPENSSL_sk_set_cmp_func sample 2))"
  by (rule stack_invariant(7) [OF good_zeros_alloc unsigned_cmp_order]) (simp add: good_def sample_ok)

text \<open>
  \<open>OPENSSL_sk_set\<close> keeps the mark of a sorted stack although its new value can be out of order: the value that it
  stored is then not found.
\<close>

lemma OPENSSL_sk_set_loses_order:
  "OPENSSL_sk_sort unsigned_cmp (Some sample) = Some \<lparr>num = 3, data = [3, 5, 7, 0], sorted_flag = True, num_alloc = 4, comp = 1\<rparr>"
  "OPENSSL_sk_set (Some \<lparr>num = 3, data = [3, 5, 7, 0], sorted_flag = True, num_alloc = 4, comp = 1\<rparr>) 0 9 =
     (Some \<lparr>num = 3, data = [9, 5, 7, 0], sorted_flag = True, num_alloc = 4, comp = 1\<rparr>, 9)"
  "OPENSSL_sk_find unsigned_cmp (Some \<lparr>num = 3, data = [9, 5, 7, 0], sorted_flag = True, num_alloc = 4, comp = 1\<rparr>) 9 = None"
  by code_simp+

end
