(* ===== verification/Lhash.thy ===== *)
theory Lhash
  imports Bytes "HOL-Library.Multiset"
begin

text \<open>
  Model of \<^verbatim>\<open>crypto/lhash/lhash.c\<close>: hash tables with chaining. A pointer to data is its 64-bit value, \<^verbatim>\<open>NULL\<close> is
  0; the chain of a bucket is a list, and a \<^verbatim>\<open>LHASH_ITEM **\<close> into it is a position, with \<^verbatim>\<open>*ptr == NULL\<close> at its
  end. The hash and comparison functions that the callers pass are parameters, and so is whether an allocation of
  so many bytes succeeds. The abstract value of a table is the relation \<open>holds\<close> between keys and stored pointers.
\<close>

type_synonym pointer = u64

record lhash_item =
  item_data :: pointer
  item_hash :: u32

record lhash_st =
  num_items :: nat
  buckets :: "lhash_item list list"
  num_buckets :: nat
  callback_depth :: nat

record lhash_fns =
  call_hash :: "pointer \<Rightarrow> u32"
  call_cmp :: "pointer \<Rightarrow> pointer \<Rightarrow> int"

type_synonym alloc_ok = "nat \<Rightarrow> bool"

abbreviation kMinNumBuckets :: nat where "kMinNumBuckets \<equiv> 16"
abbreviation kMaxAverageChainLength :: nat where "kMaxAverageChainLength \<equiv> 2"
abbreviation kMinAverageChainLength :: nat where "kMinAverageChainLength \<equiv> 1"
abbreviation sizeof_item :: nat where "sizeof_item \<equiv> 24"
abbreviation sizeof_item_ptr :: nat where "sizeof_item_ptr \<equiv> 8"
abbreviation sizeof_lhash :: nat where "sizeof_lhash \<equiv> 48"
abbreviation UINT_MAX :: nat where "UINT_MAX \<equiv> 4294967295"

section \<open>Operations\<close>

definition OPENSSL_lh_new :: "alloc_ok \<Rightarrow> lhash_st option" where
  "OPENSSL_lh_new alloc =
     (if \<not> alloc sizeof_lhash then None
      else if \<not> alloc (kMinNumBuckets * sizeof_item_ptr) then None
      else Some \<lparr>num_items = 0, buckets = replicate kMinNumBuckets [], num_buckets = kMinNumBuckets, callback_depth = 0\<rparr>)"

definition OPENSSL_lh_num_items :: "lhash_st \<Rightarrow> nat" where
  "OPENSSL_lh_num_items lh = num_items lh"

text \<open>The walk along a chain to the first item with \<open>P\<close>, or to its end.\<close>

fun chain_pos :: "(lhash_item \<Rightarrow> bool) \<Rightarrow> lhash_item list \<Rightarrow> nat" where
  "chain_pos P [] = 0"
| "chain_pos P (cur # chain) = (if P cur then 0 else chain_pos P chain + 1)"

text \<open>The bucket, the position in its chain, and the hash.\<close>

definition get_next_ptr_and_hash :: "lhash_fns \<Rightarrow> lhash_st \<Rightarrow> pointer \<Rightarrow> nat \<times> nat \<times> u32" where
  "get_next_ptr_and_hash fns lh p =
     (let hash = call_hash fns p; b = unat hash mod num_buckets lh
      in (b, chain_pos (\<lambda>cur. call_cmp fns (item_data cur) p = 0) (buckets lh ! b), hash))"

definition get_next_ptr_by_key :: "lhash_st \<Rightarrow> 'k \<Rightarrow> u32 \<Rightarrow> ('k \<Rightarrow> pointer \<Rightarrow> int) \<Rightarrow> nat \<times> nat" where
  "get_next_ptr_by_key lh key key_hash cmp_key =
     (let b = unat key_hash mod num_buckets lh
      in (b, chain_pos (\<lambda>cur. cmp_key key (item_data cur) = 0) (buckets lh ! b)))"

definition OPENSSL_lh_retrieve :: "lhash_fns \<Rightarrow> lhash_st \<Rightarrow> pointer \<Rightarrow> pointer" where
  "OPENSSL_lh_retrieve fns lh p =
     (case get_next_ptr_and_hash fns lh p of
        (b, i, _) \<Rightarrow> if i = length (buckets lh ! b) then 0 else item_data (buckets lh ! b ! i))"

definition OPENSSL_lh_retrieve_key :: "lhash_st \<Rightarrow> 'k \<Rightarrow> u32 \<Rightarrow> ('k \<Rightarrow> pointer \<Rightarrow> int) \<Rightarrow> pointer" where
  "OPENSSL_lh_retrieve_key lh key key_hash cmp_key =
     (case get_next_ptr_by_key lh key key_hash cmp_key of
        (b, i) \<Rightarrow> if i = length (buckets lh ! b) then 0 else item_data (buckets lh ! b ! i))"

text \<open>The two nested loops of \<open>lh_rebucket\<close>: each item goes to the front of its new chain.\<close>

fun rebucket_chain :: "nat \<Rightarrow> lhash_item list \<Rightarrow> lhash_item list list \<Rightarrow> lhash_item list list" where
  "rebucket_chain n [] new_buckets = new_buckets"
| "rebucket_chain n (cur # chain) new_buckets =
     (let new_bucket = unat (item_hash cur) mod n
      in rebucket_chain n chain (new_buckets[new_bucket := cur # new_buckets ! new_bucket]))"

fun rebucket_loop :: "nat \<Rightarrow> lhash_item list list \<Rightarrow> lhash_item list list \<Rightarrow> lhash_item list list" where
  "rebucket_loop n [] new_buckets = new_buckets"
| "rebucket_loop n (chain # chs) new_buckets = rebucket_loop n chs (rebucket_chain n chain new_buckets)"

definition lh_rebucket :: "alloc_ok \<Rightarrow> lhash_st \<Rightarrow> nat \<Rightarrow> lhash_st" where
  "lh_rebucket alloc lh new_num_buckets =
     (let alloc_size = (sizeof_item_ptr * new_num_buckets) mod size_mod
      in if alloc_size div sizeof_item_ptr \<noteq> new_num_buckets then lh
         else if \<not> alloc alloc_size then lh
         else lh\<lparr>num_buckets := new_num_buckets,
                 buckets := rebucket_loop new_num_buckets (buckets lh) (replicate new_num_buckets [])\<rparr>)"

definition lh_maybe_resize :: "alloc_ok \<Rightarrow> lhash_st \<Rightarrow> lhash_st" where
  "lh_maybe_resize alloc lh =
     (if callback_depth lh > 0 then lh
      else
        let avg_chain_length = num_items lh div num_buckets lh
        in if avg_chain_length > kMaxAverageChainLength then
             let new_num_buckets = (num_buckets lh * 2) mod size_mod
             in if new_num_buckets > num_buckets lh then lh_rebucket alloc lh new_num_buckets else lh
           else if avg_chain_length < kMinAverageChainLength \<and> num_buckets lh > kMinNumBuckets then
             let new_num_buckets = num_buckets lh div 2;
                 new_num_buckets = (if new_num_buckets < kMinNumBuckets then kMinNumBuckets else new_num_buckets)
             in lh_rebucket alloc lh new_num_buckets
           else lh)"

text \<open>The table, \<open>*old_data\<close> and the return value.\<close>

definition OPENSSL_lh_insert :: "alloc_ok \<Rightarrow> lhash_fns \<Rightarrow> lhash_st \<Rightarrow> pointer \<Rightarrow> lhash_st \<times> pointer \<times> bool" where
  "OPENSSL_lh_insert alloc fns lh p =
     (case get_next_ptr_and_hash fns lh p of
        (b, i, hash) \<Rightarrow>
          let chain = buckets lh ! b
          in if i \<noteq> length chain then
               (lh\<lparr>buckets := (buckets lh)[b := chain[i := (chain ! i)\<lparr>item_data := p\<rparr>]]\<rparr>, item_data (chain ! i), True)
             else if \<not> alloc sizeof_item then (lh, 0, False)
             else
               let item = \<lparr>item_data = p, item_hash = hash\<rparr>;
                   lh = lh\<lparr>buckets := (buckets lh)[b := chain @ [item]]\<rparr>;
                   lh = lh\<lparr>num_items := (num_items lh + 1) mod size_mod\<rparr>
               in (lh_maybe_resize alloc lh, 0, True))"

definition OPENSSL_lh_delete :: "alloc_ok \<Rightarrow> lhash_fns \<Rightarrow> lhash_st \<Rightarrow> pointer \<Rightarrow> lhash_st \<times> pointer" where
  "OPENSSL_lh_delete alloc fns lh p =
     (case get_next_ptr_and_hash fns lh p of
        (b, i, _) \<Rightarrow>
          let chain = buckets lh ! b
          in if i = length chain then (lh, 0)
             else
               let ret = item_data (chain ! i);
                   lh = lh\<lparr>buckets := (buckets lh)[b := take i chain @ drop (i + 1) chain]\<rparr>;
                   lh = lh\<lparr>num_items := (num_items lh + size_mod - 1) mod size_mod\<rparr>
               in (lh_maybe_resize alloc lh, ret))"

text \<open>
  The iteration, for a callback that works on a state of its own and leaves the table alone; it may call
  \<open>OPENSSL_lh_doall_arg\<close> again.
\<close>

definition OPENSSL_lh_doall_arg :: "alloc_ok \<Rightarrow> (pointer \<Rightarrow> 's \<Rightarrow> 's) \<Rightarrow> lhash_st option \<Rightarrow> 's \<Rightarrow> lhash_st option \<times> 's" where
  "OPENSSL_lh_doall_arg alloc func lh st =
     (case lh of
        None \<Rightarrow> (None, st)
      | Some lh \<Rightarrow>
          let lh = (if callback_depth lh < UINT_MAX then lh\<lparr>callback_depth := callback_depth lh + 1\<rparr> else lh);
              st = fold (fold (\<lambda>cur. func (item_data cur))) (buckets lh) st;
              lh = (if callback_depth lh < UINT_MAX then lh\<lparr>callback_depth := callback_depth lh - 1\<rparr> else lh)
          in (Some (lh_maybe_resize alloc lh), st))"

section \<open>Well-formed tables\<close>

text \<open>What the callers promise: comparison gives an equivalence that the hash respects.\<close>

definition fns_ok :: "lhash_fns \<Rightarrow> bool" where
  "fns_ok fns \<longleftrightarrow> (\<forall>x. call_cmp fns x x = 0) \<and> (\<forall>x y. call_cmp fns x y = 0 \<longrightarrow> call_cmp fns y x = 0) \<and>
     (\<forall>x y z. call_cmp fns x y = 0 \<longrightarrow> call_cmp fns y z = 0 \<longrightarrow> call_cmp fns x z = 0) \<and>
     (\<forall>x y. call_cmp fns x y = 0 \<longrightarrow> call_hash fns x = call_hash fns y)"

definition items :: "lhash_st \<Rightarrow> lhash_item multiset" where
  "items lh = mset (concat (buckets lh))"

definition placed :: "nat \<Rightarrow> lhash_item list list \<Rightarrow> bool" where
  "placed n bs \<longleftrightarrow> length bs = n \<and> (\<forall>b < n. \<forall>it \<in> set (bs ! b). unat (item_hash it) mod n = b)"

definition lh_ok :: "lhash_fns \<Rightarrow> lhash_st \<Rightarrow> bool" where
  "lh_ok fns lh \<longleftrightarrow> kMinNumBuckets \<le> num_buckets lh \<and> num_buckets lh < size_mod \<and> placed (num_buckets lh) (buckets lh) \<and>
     num_items lh = size (items lh) \<and> size (items lh) < 2 ^ 60 \<and>
     (\<forall>it \<in># items lh. item_hash it = call_hash fns (item_data it) \<and> item_data it \<noteq> 0) \<and>
     (\<forall>x. size (filter_mset (\<lambda>it. call_cmp fns (item_data it) x = 0) (items lh)) \<le> 1)"

text \<open>The pointer that is stored for a key.\<close>

definition holds :: "lhash_fns \<Rightarrow> lhash_st \<Rightarrow> pointer \<Rightarrow> pointer \<Rightarrow> bool" where
  "holds fns lh x p \<longleftrightarrow> (\<exists>it \<in># items lh. call_cmp fns (item_data it) x = 0 \<and> item_data it = p)"

lemma filter_mset_none: "filter_mset P M = {#} \<longleftrightarrow> (\<forall>x \<in># M. \<not> P x)"
  by (induction M) auto

lemma fns_sym: "fns_ok fns \<Longrightarrow> call_cmp fns x y = 0 \<Longrightarrow> call_cmp fns y x = 0"
  unfolding fns_ok_def by blast

lemma fns_trans: "fns_ok fns \<Longrightarrow> call_cmp fns x y = 0 \<Longrightarrow> call_cmp fns y z = 0 \<Longrightarrow> call_cmp fns x z = 0"
  unfolding fns_ok_def by blast

lemma hash_eq: "fns_ok fns \<Longrightarrow> call_cmp fns x y = 0 \<Longrightarrow> call_hash fns x = call_hash fns y"
  unfolding fns_ok_def by blast

lemma chain_pos_cases:
  "chain_pos P chain = length chain \<and> (\<forall>it \<in> set chain. \<not> P it) \<or> chain_pos P chain < length chain \<and> P (chain ! chain_pos P chain)"
  by (induction chain) auto

lemma mset_concat_update:
  "b < length bs \<Longrightarrow> mset (concat (bs[b := c])) + mset (bs ! b) = mset (concat bs) + mset c"
proof (induction bs arbitrary: b)
  case (Cons a bs)
  then show ?case by (cases b) (simp_all add: add.assoc add.left_commute)
qed simp

lemma chain_subset: "b < length bs \<Longrightarrow> set (bs ! b) \<subseteq> set (concat bs)"
  by (auto intro: nth_mem)

lemma rebucket_chain:
  assumes "placed n bs" and "0 < n"
  shows "placed n (rebucket_chain n chain bs) \<and> mset (concat (rebucket_chain n chain bs)) = mset chain + mset (concat bs)"
  using assms(1)
proof (induction chain arbitrary: bs)
  case (Cons cur chain)
  define b where "b = unat (item_hash cur) mod n"
  have b: "b < length bs" using Cons.prems assms(2) by (simp add: b_def placed_def)
  have p: "placed n (bs[b := cur # bs ! b])"
    using Cons.prems by (auto simp: placed_def nth_list_update b_def)
  have "mset (concat (bs[b := cur # bs ! b])) = add_mset cur (mset (concat bs))"
    using mset_concat_update [OF b, of "cur # bs ! b"] by simp
  then show ?case using Cons.IH [OF p] by (simp add: Let_def b_def)
qed simp

lemma rebucket_loop:
  assumes "placed n bs" and "0 < n"
  shows "placed n (rebucket_loop n chs bs) \<and> mset (concat (rebucket_loop n chs bs)) = mset (concat chs) + mset (concat bs)"
  using assms(1)
proof (induction chs arbitrary: bs)
  case (Cons chain chs)
  have r: "placed n (rebucket_chain n chain bs)"
    "mset (concat (rebucket_chain n chain bs)) = mset chain + mset (concat bs)"
    using rebucket_chain [OF Cons.prems assms(2), of chain] by blast+
  show ?case using Cons.IH [OF r(1)] r(2) by (simp add: add.assoc add.left_commute)
qed simp

lemma lh_rebucket:
  assumes "lh_ok fns lh" and "kMinNumBuckets \<le> n" and "n < size_mod"
  shows "lh_ok fns (lh_rebucket alloc lh n)" and "items (lh_rebucket alloc lh n) = items lh"
    and "callback_depth (lh_rebucket alloc lh n) = callback_depth lh"
proof -
  have p: "placed n (replicate n [])" by (simp add: placed_def)
  have n: "0 < n" using assms(2) by linarith
  have c: "concat (replicate n []) = []" by simp
  note r = rebucket_loop [OF p n, of "buckets lh", unfolded c]
  have same: "lh_ok fns lh'" if "items lh' = items lh" "num_items lh' = num_items lh" "num_buckets lh' = n" "placed n (buckets lh')" for lh'
    using assms that unfolding lh_ok_def by simp
  have "items (lh\<lparr>num_buckets := n, buckets := rebucket_loop n (buckets lh) (replicate n [])\<rparr>) = items lh"
    using r by (simp add: items_def)
  then have "lh_ok fns (lh_rebucket alloc lh n) \<and> items (lh_rebucket alloc lh n) = items lh \<and>
      callback_depth (lh_rebucket alloc lh n) = callback_depth lh"
    using r assms(1) same [of "lh\<lparr>num_buckets := n, buckets := rebucket_loop n (buckets lh) (replicate n [])\<rparr>"]
    by (simp add: lh_rebucket_def Let_def)
  then show "lh_ok fns (lh_rebucket alloc lh n)" "items (lh_rebucket alloc lh n) = items lh"
    "callback_depth (lh_rebucket alloc lh n) = callback_depth lh" by blast+
qed

lemma lh_maybe_resize:
  assumes "lh_ok fns lh"
  shows "lh_ok fns (lh_maybe_resize alloc lh) \<and> items (lh_maybe_resize alloc lh) = items lh \<and>
    callback_depth (lh_maybe_resize alloc lh) = callback_depth lh"
proof -
  have n: "kMinNumBuckets \<le> num_buckets lh" "num_buckets lh < size_mod" using assms by (simp_all add: lh_ok_def)
  define m1 where "m1 = (num_buckets lh * 2) mod size_mod"
  define m2 where "m2 = (if num_buckets lh div 2 < kMinNumBuckets then kMinNumBuckets else num_buckets lh div 2)"
  have m1: "m1 < size_mod" by (simp add: m1_def)
  have m2: "kMinNumBuckets \<le> m2" "m2 < size_mod"
    using n by (auto simp: m2_def intro: le_less_trans [OF div_le_dividend])
  have "lh_maybe_resize alloc lh = lh \<or> num_buckets lh < m1 \<and> lh_maybe_resize alloc lh = lh_rebucket alloc lh m1 \<or>
      lh_maybe_resize alloc lh = lh_rebucket alloc lh m2"
    unfolding lh_maybe_resize_def Let_def m1_def [symmetric] m2_def [symmetric] by (simp split: if_split)
  then show ?thesis
    using lh_rebucket [OF assms _ m1, of alloc] lh_rebucket [OF assms m2, of alloc] n(1) assms by (metis le_trans less_imp_le)
qed


lemma holds_unique: "lh_ok fns lh \<Longrightarrow> holds fns lh x p \<Longrightarrow> holds fns lh x q \<Longrightarrow> p = q"
proof (rule ccontr)
  assume ok: "lh_ok fns lh" and p: "holds fns lh x p" and q: "holds fns lh x q" and "p \<noteq> q"
  obtain a b where a: "a \<in># items lh" "call_cmp fns (item_data a) x = 0" "item_data a = p"
    and b: "b \<in># items lh" "call_cmp fns (item_data b) x = 0" "item_data b = q"
    using p q unfolding holds_def by blast
  have "a \<noteq> b" using \<open>p \<noteq> q\<close> a(3) b(3) by blast
  then have ab: "a \<in># filter_mset (\<lambda>it. call_cmp fns (item_data it) x = 0) (items lh)"
    "b \<in># filter_mset (\<lambda>it. call_cmp fns (item_data it) x = 0) (items lh)" using a b by simp_all
  from multi_member_split [OF ab(1)] obtain M where M: "filter_mset (\<lambda>it. call_cmp fns (item_data it) x = 0) (items lh) = add_mset a M"
    by blast
  have "b \<in># M" using ab(2) \<open>a \<noteq> b\<close> unfolding M by simp
  then have "1 \<le> size M" by (metis Suc_leI One_nat_def nonempty_has_size multi_member_last empty_not_add_mset multi_member_split)
  moreover have "size (add_mset a M) \<le> 1" using ok unfolding lh_ok_def M [symmetric] by blast
  ultimately show False by simp
qed

text \<open>The search of a key ends in its bucket: at an equal item, or past the end when there is none in the table.\<close>

lemma search:
  assumes "fns_ok fns" and "lh_ok fns lh" and "get_next_ptr_and_hash fns lh x = (b, i, h)"
  shows "b < length (buckets lh)" and "h = call_hash fns x" and "b = unat h mod num_buckets lh"
    and "i = length (buckets lh ! b) \<and> (\<forall>p. \<not> holds fns lh x p) \<or>
      i < length (buckets lh ! b) \<and> call_cmp fns (item_data (buckets lh ! b ! i)) x = 0 \<and> buckets lh ! b ! i \<in># items lh"
proof -
  have n: "0 < num_buckets lh" and pl: "placed (num_buckets lh) (buckets lh)" using assms(2) by (auto simp: lh_ok_def)
  have e: "b = unat (call_hash fns x) mod num_buckets lh" "h = call_hash fns x"
    "i = chain_pos (\<lambda>cur. call_cmp fns (item_data cur) x = 0) (buckets lh ! b)"
    using assms(3) by (auto simp: get_next_ptr_and_hash_def Let_def)
  show b: "b < length (buckets lh)" using n pl by (simp add: e(1) placed_def)
  show "h = call_hash fns x" "b = unat h mod num_buckets lh" using e by simp_all
  have none: "\<not> holds fns lh x p" if "\<forall>it \<in> set (buckets lh ! b). call_cmp fns (item_data it) x \<noteq> 0" for p
  proof
    assume "holds fns lh x p"
    then obtain it where it: "it \<in># items lh" "call_cmp fns (item_data it) x = 0" by (auto simp: holds_def)
    then obtain c where c: "c \<in> set (buckets lh)" "it \<in> set c" by (auto simp: items_def)
    from c(1) obtain b' where "b' < length (buckets lh)" "buckets lh ! b' = c" unfolding in_set_conv_nth by blast
    then have b': "b' < num_buckets lh" "c = buckets lh ! b'" using pl by (simp_all add: placed_def)
    have "item_hash it = call_hash fns x"
      using it(1) assms(2) hash_eq [OF assms(1) it(2)] by (simp add: lh_ok_def)
    moreover have "unat (item_hash it) mod num_buckets lh = b'" using pl b' c(2) unfolding placed_def by blast
    ultimately have "b' = b" using e(1) by simp
    then show False using that b' c(2) it(2) by blast
  qed
  show "i = length (buckets lh ! b) \<and> (\<forall>p. \<not> holds fns lh x p) \<or>
      i < length (buckets lh ! b) \<and> call_cmp fns (item_data (buckets lh ! b ! i)) x = 0 \<and> buckets lh ! b ! i \<in># items lh"
    using chain_pos_cases [of "\<lambda>cur. call_cmp fns (item_data cur) x = 0" "buckets lh ! b", folded e(3)]
  proof
    assume "i = length (buckets lh ! b) \<and> (\<forall>it \<in> set (buckets lh ! b). call_cmp fns (item_data it) x \<noteq> 0)"
    then show ?thesis using none by blast
  next
    assume a: "i < length (buckets lh ! b) \<and> call_cmp fns (item_data (buckets lh ! b ! i)) x = 0"
    then have "buckets lh ! b ! i \<in> set (concat (buckets lh))" using chain_subset [OF b] by (meson nth_mem subsetD)
    then show ?thesis using a by (simp add: items_def del: set_concat)
  qed
qed

lemma OPENSSL_lh_retrieve_holds:
  assumes "fns_ok fns" and "lh_ok fns lh"
  shows "holds fns lh x (OPENSSL_lh_retrieve fns lh x) \<and> OPENSSL_lh_retrieve fns lh x \<noteq> 0 \<or>
    (\<forall>p. \<not> holds fns lh x p) \<and> OPENSSL_lh_retrieve fns lh x = 0"
proof -
  obtain b i h where g: "get_next_ptr_and_hash fns lh x = (b, i, h)" by (metis prod_cases3)
  from search(4) [OF assms g] show ?thesis
  proof
    assume "i = length (buckets lh ! b) \<and> (\<forall>p. \<not> holds fns lh x p)"
    then show ?thesis by (simp add: OPENSSL_lh_retrieve_def g)
  next
    assume a: "i < length (buckets lh ! b) \<and> call_cmp fns (item_data (buckets lh ! b ! i)) x = 0 \<and> buckets lh ! b ! i \<in># items lh"
    then have "OPENSSL_lh_retrieve fns lh x = item_data (buckets lh ! b ! i)" by (simp add: OPENSSL_lh_retrieve_def g)
    moreover have "item_data (buckets lh ! b ! i) \<noteq> 0" using a assms(2) by (simp add: lh_ok_def)
    ultimately show ?thesis using a by (auto simp: holds_def)
  qed
qed

lemma retrieve_iff:
  assumes "fns_ok fns" and "lh_ok fns lh" and "p \<noteq> 0"
  shows "OPENSSL_lh_retrieve fns lh x = p \<longleftrightarrow> holds fns lh x p"
  using OPENSSL_lh_retrieve_holds [OF assms(1,2), of x] assms(3) holds_unique [OF assms(2)] by metis


section \<open>Inserting and deleting\<close>

lemma eq_class: "fns_ok fns \<Longrightarrow> call_cmp fns a b = 0 \<Longrightarrow> call_cmp fns a x = 0 \<longleftrightarrow> call_cmp fns b x = 0"
  using fns_sym fns_trans by blast

lemma no_holds_filter:
  "(\<forall>p. \<not> holds fns lh x p) \<Longrightarrow> call_cmp fns x y = 0 \<Longrightarrow> fns_ok fns \<Longrightarrow>
     filter_mset (\<lambda>it. call_cmp fns (item_data it) y = 0) (items lh) = {#}"
  unfolding holds_def filter_mset_none using fns_sym fns_trans by blast

lemma items_update:
  assumes "b < length (buckets lh)" and "buckets lh' = (buckets lh)[b := c]"
  shows "items lh' + mset (buckets lh ! b) = items lh + mset c"
  unfolding items_def assms(2) by (rule mset_concat_update [OF assms(1)])

lemma placed_update:
  assumes "placed n bs" and "b < n" and "\<forall>it \<in> set c. unat (item_hash it) mod n = b"
  shows "placed n (bs[b := c])"
  using assms by (auto simp: placed_def nth_list_update)

text \<open>The three ways in which an insertion ends.\<close>

lemma OPENSSL_lh_insert_cases:
  assumes "fns_ok fns" and "lh_ok fns lh" and "p \<noteq> 0" and "num_items lh < 2 ^ 60 - 1"
  obtains (replaced) old lh' where "OPENSSL_lh_insert alloc fns lh p = (lh', old, True)" and "holds fns lh p old" and "old \<noteq> 0"
      and "lh_ok fns lh'" and "\<And>x q. holds fns lh' x q \<longleftrightarrow> (if call_cmp fns p x = 0 then q = p else holds fns lh x q)"
      and "num_items lh' = num_items lh"
  | (failed) "OPENSSL_lh_insert alloc fns lh p = (lh, 0, False)" and "\<not> alloc sizeof_item" and "\<forall>q. \<not> holds fns lh p q"
  | (added) lh' where "OPENSSL_lh_insert alloc fns lh p = (lh', 0, True)" and "\<forall>q. \<not> holds fns lh p q"
      and "lh_ok fns lh'" and "\<And>x q. holds fns lh' x q \<longleftrightarrow> (if call_cmp fns p x = 0 then q = p else holds fns lh x q)"
      and "num_items lh' = num_items lh + 1"
proof -
  obtain b i h where g: "get_next_ptr_and_hash fns lh p = (b, i, h)" by (metis prod_cases3)
  note s = search [OF assms(1,2) g]
  define chain where "chain = buckets lh ! b"
  have ok: "kMinNumBuckets \<le> num_buckets lh" "num_buckets lh < size_mod" "placed (num_buckets lh) (buckets lh)"
    "num_items lh = size (items lh)" "size (items lh) < 2 ^ 60"
    "\<And>it. it \<in># items lh \<Longrightarrow> item_hash it = call_hash fns (item_data it) \<and> item_data it \<noteq> 0"
    "\<And>x. size (filter_mset (\<lambda>it. call_cmp fns (item_data it) x = 0) (items lh)) \<le> 1"
    using assms(2) by (auto simp: lh_ok_def)
  have bn: "b < num_buckets lh" using s(1) ok(3) by (simp add: placed_def)
  have cl: "unat (item_hash it) mod num_buckets lh = b" if "it \<in> set chain" for it
    using ok(3) bn that by (auto simp: placed_def chain_def)
  consider "i < length chain" "call_cmp fns (item_data (chain ! i)) p = 0" "chain ! i \<in># items lh"
    | "i = length chain" "\<forall>q. \<not> holds fns lh p q" "\<not> alloc sizeof_item"
    | "i = length chain" "\<forall>q. \<not> holds fns lh p q" "alloc sizeof_item"
    using s(4) unfolding chain_def by blast
  then show thesis
  proof cases
    case 1
    define it where "it = chain ! i"
    define it' where "it' = it\<lparr>item_data := p\<rparr>"
    define lh' where "lh' = lh\<lparr>buckets := (buckets lh)[b := chain[i := it']]\<rparr>"
    have it: "it \<in># items lh" "call_cmp fns (item_data it) p = 0" using 1 by (simp_all add: it_def)
    obtain R where R: "items lh = add_mset it R" using multi_member_split [OF it(1)] by blast
    have "mset (chain[i := it']) = add_mset it' (mset chain - {#it#})" using 1(1) by (simp add: mset_update it_def)
    moreover have "it \<in># mset chain" using 1(1) by (simp add: it_def)
    ultimately have "mset (chain[i := it']) + {#it#} = mset chain + {#it'#}" by simp
    then have "items lh' + mset chain + {#it#} = items lh + mset chain + {#it'#}"
      using items_update [OF s(1), of lh' "chain[i := it']"] by (simp add: lh'_def flip: chain_def)
    then have items': "items lh' = add_mset it' R" unfolding R by simp
    have eq: "call_cmp fns (item_data it) x = 0 \<longleftrightarrow> call_cmp fns p x = 0" for x
      by (rule eq_class [OF assms(1) it(2)])
    have hash': "item_hash it' = call_hash fns p"
      using ok(6) [OF it(1)] hash_eq [OF assms(1) it(2)] by (simp add: it'_def)
    have Rno: "call_cmp fns (item_data r) x \<noteq> 0" if "r \<in># R" "call_cmp fns p x = 0" for r x
    proof
      assume r: "call_cmp fns (item_data r) x = 0"
      have "size (filter_mset (\<lambda>it. call_cmp fns (item_data it) x = 0) R) = 0"
        using ok(7) [of x] that(2) eq unfolding R by simp
      then show False using that(1) r by (auto simp: filter_mset_none)
    qed
    show thesis
    proof (rule replaced [of lh' "item_data it"])
      show "OPENSSL_lh_insert alloc fns lh p = (lh', item_data it, True)"
        using 1(1) by (simp add: OPENSSL_lh_insert_def g Let_def lh'_def it_def it'_def flip: chain_def)
      show "holds fns lh p (item_data it)" using it by (auto simp: holds_def)
      show "item_data it \<noteq> 0" using ok(6) [OF it(1)] by simp
      have pl: "placed (num_buckets lh) (buckets lh')"
        unfolding lh'_def using cl 1(1) set_update_subset_insert [of chain i it']
        by (auto intro!: placed_update [OF ok(3) bn] simp: it'_def it_def)
      have "size (filter_mset (\<lambda>it. call_cmp fns (item_data it) x = 0) (items lh')) \<le> 1" for x
        using ok(7) [of x] eq [of x] unfolding items' R by (simp add: it'_def split: if_splits)
      then show "lh_ok fns lh'"
        using ok pl hash' assms(3) unfolding lh_ok_def items' R by (auto simp: lh'_def it'_def)
      show "holds fns lh' x q \<longleftrightarrow> (if call_cmp fns p x = 0 then q = p else holds fns lh x q)" for x q
        unfolding holds_def items' R using eq [of x] Rno [of _ x] by (auto simp: it'_def)
      show "num_items lh' = num_items lh" by (simp add: lh'_def)
    qed
  next
    case 2
    then show thesis
      using failed by (simp add: OPENSSL_lh_insert_def g Let_def flip: chain_def)
  next
    case 3
    define it where "it = \<lparr>item_data = p, item_hash = h\<rparr>"
    define lh1 where "lh1 = lh\<lparr>buckets := (buckets lh)[b := chain @ [it]], num_items := (num_items lh + 1) mod size_mod\<rparr>"
    have items1: "items lh1 = add_mset it (items lh)"
      using items_update [OF s(1), of lh1 "chain @ [it]"] by (simp add: lh1_def flip: chain_def)
    have nn: "num_items lh1 = num_items lh + 1" using assms(4) by (simp add: lh1_def)
    have pl: "placed (num_buckets lh) (buckets lh1)"
    proof -
      have "\<forall>z \<in> set (chain @ [it]). unat (item_hash z) mod num_buckets lh = b" using cl s(3) by (simp add: it_def)
      from placed_update [OF ok(3) bn this] show ?thesis by (simp add: lh1_def)
    qed
    have "size (filter_mset (\<lambda>it. call_cmp fns (item_data it) x = 0) (items lh1)) \<le> 1" for x
      using ok(7) [of x] no_holds_filter [OF 3(2) _ assms(1), of x] unfolding items1 by (simp add: it_def)
    then have ok1: "lh_ok fns lh1"
      using ok pl assms(3,4) s(2) nn unfolding lh_ok_def items1 by (auto simp: lh1_def it_def)
    have h1: "holds fns lh1 x q \<longleftrightarrow> (if call_cmp fns p x = 0 then q = p else holds fns lh x q)" for x q
    proof (cases "call_cmp fns p x = 0")
      case True
      then have "\<not> holds fns lh x q"
        using no_holds_filter [OF 3(2) True assms(1)] by (auto simp: holds_def filter_mset_none)
      then show ?thesis using True unfolding holds_def items1 by (auto simp: it_def)
    next
      case False
      then show ?thesis unfolding holds_def items1 by (simp add: it_def)
    qed
    note r = lh_maybe_resize [OF ok1, of alloc]
    have n: "num_items (lh_maybe_resize alloc lh1) = num_items lh1"
      using r ok1 by (simp add: lh_ok_def)
    show thesis
    proof (rule added [of "lh_maybe_resize alloc lh1"])
      show "OPENSSL_lh_insert alloc fns lh p = (lh_maybe_resize alloc lh1, 0, True)"
        using 3 by (simp add: OPENSSL_lh_insert_def g Let_def lh1_def it_def flip: chain_def)
      show "holds fns (lh_maybe_resize alloc lh1) x q \<longleftrightarrow> (if call_cmp fns p x = 0 then q = p else holds fns lh x q)" for x q
        using h1 r by (simp add: holds_def)
    qed (use r 3(2) n nn in simp_all)
  qed
qed


lemma OPENSSL_lh_delete_cases:
  assumes "fns_ok fns" and "lh_ok fns lh"
  obtains (absent) "OPENSSL_lh_delete alloc fns lh p = (lh, 0)" and "\<forall>q. \<not> holds fns lh p q"
  | (deleted) old lh' where "OPENSSL_lh_delete alloc fns lh p = (lh', old)" and "holds fns lh p old" and "old \<noteq> 0"
      and "lh_ok fns lh'" and "\<And>x q. holds fns lh' x q \<longleftrightarrow> call_cmp fns p x \<noteq> 0 \<and> holds fns lh x q"
      and "num_items lh' + 1 = num_items lh"
proof -
  obtain b i h where g: "get_next_ptr_and_hash fns lh p = (b, i, h)" by (metis prod_cases3)
  note s = search [OF assms g]
  define chain where "chain = buckets lh ! b"
  have ok: "kMinNumBuckets \<le> num_buckets lh" "num_buckets lh < size_mod" "placed (num_buckets lh) (buckets lh)"
    "num_items lh = size (items lh)" "size (items lh) < 2 ^ 60"
    "\<And>it. it \<in># items lh \<Longrightarrow> item_hash it = call_hash fns (item_data it) \<and> item_data it \<noteq> 0"
    "\<And>x. size (filter_mset (\<lambda>it. call_cmp fns (item_data it) x = 0) (items lh)) \<le> 1"
    using assms(2) by (auto simp: lh_ok_def)
  have bn: "b < num_buckets lh" using s(1) ok(3) by (simp add: placed_def)
  have cl: "unat (item_hash it) mod num_buckets lh = b" if "it \<in> set chain" for it
    using ok(3) bn that by (auto simp: placed_def chain_def)
  show thesis
  proof (cases "i = length chain")
    case True
    then show thesis using absent s(4) by (simp add: OPENSSL_lh_delete_def g Let_def chain_def)
  next
    case False
    then have i: "i < length chain" "call_cmp fns (item_data (chain ! i)) p = 0" "chain ! i \<in># items lh"
      using s(4) unfolding chain_def by blast+
    define it where "it = chain ! i"
    obtain R where R: "items lh = add_mset it R" using multi_member_split [OF i(3)] by (auto simp: it_def)
    define c where "c = take i chain @ drop (i + 1) chain"
    define lh1 where "lh1 = lh\<lparr>buckets := (buckets lh)[b := c], num_items := (num_items lh + size_mod - 1) mod size_mod\<rparr>"
    have "chain = take i chain @ it # drop (i + 1) chain" using i(1) by (simp add: it_def id_take_nth_drop)
    then have mc: "mset chain = add_mset it (mset c)" by (metis c_def mset.simps(2) mset_append union_mset_add_mset_right)
    then have items1: "items lh1 = R"
      using items_update [OF s(1), of lh1 c] R by (simp add: lh1_def flip: chain_def)
    have nn: "num_items lh1 + 1 = num_items lh" using ok(4,5) unfolding lh1_def R by simp
    have "set c \<subseteq> set chain" by (auto simp: c_def dest: in_set_takeD in_set_dropD)
    then have pl: "placed (num_buckets lh) (buckets lh1)"
      using placed_update [OF ok(3) bn, of c] cl by (auto simp: lh1_def)
    have eq: "call_cmp fns (item_data it) x = 0 \<longleftrightarrow> call_cmp fns p x = 0" for x
      by (rule eq_class [OF assms(1)]) (use i(2) in \<open>simp add: it_def\<close>)
    have one: "size (filter_mset (\<lambda>it. call_cmp fns (item_data it) x = 0) R) + (if call_cmp fns p x = 0 then 1 else 0) \<le> 1" for x
      using ok(7) [of x] eq [of x] unfolding R by (simp split: if_splits)
    have uniq: "size (filter_mset (\<lambda>it. call_cmp fns (item_data it) x = 0) R) \<le> 1" for x
      using one [of x] by simp
    have "size R < 2 ^ 60" "num_items lh1 = size R" using ok(4,5) nn unfolding R by simp_all
    then have ok1: "lh_ok fns lh1"
      using ok(1-3,6) pl uniq unfolding lh_ok_def items1 R by (simp add: lh1_def)
    have h1: "holds fns lh1 x q \<longleftrightarrow> call_cmp fns p x \<noteq> 0 \<and> holds fns lh x q" for x q
    proof (cases "call_cmp fns p x = 0")
      case True
      then have "filter_mset (\<lambda>it. call_cmp fns (item_data it) x = 0) R = {#}" using one [of x] by simp
      then show ?thesis using True unfolding holds_def items1 filter_mset_none by blast
    next
      case False
      then show ?thesis using eq [of x] unfolding holds_def items1 R by simp
    qed
    note r = lh_maybe_resize [OF ok1, of alloc]
    have n: "num_items (lh_maybe_resize alloc lh1) = num_items lh1"
      using r ok1 by (simp add: lh_ok_def)
    show thesis
    proof (rule deleted [of "lh_maybe_resize alloc lh1" "item_data it"])
      show "OPENSSL_lh_delete alloc fns lh p = (lh_maybe_resize alloc lh1, item_data it)"
        using False by (simp add: OPENSSL_lh_delete_def g Let_def lh1_def it_def c_def flip: chain_def)
      show "holds fns lh p (item_data it)" using i by (auto simp: holds_def it_def)
      show "item_data it \<noteq> 0" using ok(6) i(3) by (simp add: it_def)
      show "holds fns (lh_maybe_resize alloc lh1) x q \<longleftrightarrow> call_cmp fns p x \<noteq> 0 \<and> holds fns lh x q" for x q
        using h1 [of x q] r by (simp add: holds_def)
    qed (use r n nn in simp_all)
  qed
qed

section \<open>The map that a table is\<close>

datatype 'k update = Put 'k | Remove 'k

text \<open>The interface of a table of values that are their own keys, up to an equivalence \<open>same\<close>.\<close>

locale table =
  fixes ok :: "'s \<Rightarrow> bool" and same :: "'k \<Rightarrow> 'k \<Rightarrow> bool" and none :: 'k
    and get :: "'s \<Rightarrow> 'k \<Rightarrow> 'k" and put :: "'s \<Rightarrow> 'k \<Rightarrow> 's option" and remove :: "'s \<Rightarrow> 'k \<Rightarrow> 's"
  assumes put: "ok s \<Longrightarrow> put s p = Some s' \<Longrightarrow> ok s' \<and> (\<forall>x. get s' x = (if same p x then p else get s x))"
    and remove: "ok s \<Longrightarrow> ok (remove s p) \<and> (\<forall>x. get (remove s p) x = (if same p x then none else get s x))"
begin

fun run :: "'s \<Rightarrow> 'k update list \<Rightarrow> 's option" where
  "run s [] = Some s"
| "run s (Put p # us) = (case put s p of None \<Rightarrow> None | Some s \<Rightarrow> run s us)"
| "run s (Remove p # us) = run (remove s p) us"

text \<open>What a map gives for \<open>x\<close> after the updates: the last one whose key is the same as \<open>x\<close> decides.\<close>

fun expected :: "'k update list \<Rightarrow> 'k \<Rightarrow> 'k \<Rightarrow> 'k" where
  "expected [] x v = v"
| "expected (Put p # us) x v = expected us x (if same p x then p else v)"
| "expected (Remove p # us) x v = expected us x (if same p x then none else v)"

theorem run_get: "ok s \<Longrightarrow> run s us = Some s' \<Longrightarrow> ok s' \<and> get s' x = expected us x (get s x)"
proof (induction s us rule: run.induct)
  case (2 s p us)
  then obtain s1 where s1: "put s p = Some s1" "run s1 us = Some s'" by (auto split: option.splits)
  then show ?case using 2(1) [OF s1(1)] put [OF 2(2) s1(1)] by simp
next
  case (3 s p us)
  then show ?case using remove [of s p] by simp
qed simp

end

definition lh_put :: "alloc_ok \<Rightarrow> lhash_fns \<Rightarrow> lhash_st \<Rightarrow> pointer \<Rightarrow> lhash_st option" where
  "lh_put alloc fns lh p =
     (if p = 0 \<or> num_items lh \<ge> 2 ^ 60 - 1 then None
      else case OPENSSL_lh_insert alloc fns lh p of (lh', _, ok) \<Rightarrow> if ok then Some lh' else None)"

definition lh_remove :: "alloc_ok \<Rightarrow> lhash_fns \<Rightarrow> lhash_st \<Rightarrow> pointer \<Rightarrow> lhash_st" where
  "lh_remove alloc fns lh p = fst (OPENSSL_lh_delete alloc fns lh p)"

lemma retrieve_eqI:
  assumes "fns_ok fns" and "lh_ok fns lh" and "\<And>q. holds fns lh x q \<longleftrightarrow> q = p \<and> p \<noteq> 0"
  shows "OPENSSL_lh_retrieve fns lh x = p"
  using OPENSSL_lh_retrieve_holds [OF assms(1,2), of x] assms(3) by metis

lemma retrieve_cong:
  assumes "fns_ok fns" and "lh_ok fns lh" and "lh_ok fns lh'" and "\<And>q. holds fns lh x q \<longleftrightarrow> holds fns lh' x q"
  shows "OPENSSL_lh_retrieve fns lh x = OPENSSL_lh_retrieve fns lh' x"
  using OPENSSL_lh_retrieve_holds [OF assms(1,2), of x] OPENSSL_lh_retrieve_holds [OF assms(1,3), of x] assms(4)
    holds_unique [OF assms(2)] by metis

interpretation lh: table "\<lambda>lh. fns_ok fns \<and> lh_ok fns lh" "\<lambda>p x. call_cmp fns p x = 0" 0 "OPENSSL_lh_retrieve fns"
  "lh_put alloc fns" "lh_remove alloc fns" for alloc fns
proof unfold_locales
  fix lh lh' p
  assume ok: "fns_ok fns \<and> lh_ok fns lh" and p: "lh_put alloc fns lh p = Some lh'"
  then have n: "p \<noteq> 0" "num_items lh < 2 ^ 60 - 1" and i: "\<exists>old. OPENSSL_lh_insert alloc fns lh p = (lh', old, True)"
    by (auto simp: lh_put_def split: if_splits prod.splits)
  have h: "lh_ok fns lh' \<and> (\<forall>x q. holds fns lh' x q \<longleftrightarrow> (if call_cmp fns p x = 0 then q = p else holds fns lh x q))"
    by (rule OPENSSL_lh_insert_cases [OF conjunct1 [OF ok] conjunct2 [OF ok] n, of alloc]) (use i in simp_all)
  have "OPENSSL_lh_retrieve fns lh' x = (if call_cmp fns p x = 0 then p else OPENSSL_lh_retrieve fns lh x)" for x
  proof (cases "call_cmp fns p x = 0")
    case True
    then show ?thesis using h ok n(1) by (simp add: retrieve_eqI)
  next
    case False
    then show ?thesis using h ok retrieve_cong [of fns lh' lh x] by simp
  qed
  then show "(fns_ok fns \<and> lh_ok fns lh') \<and>
      (\<forall>x. OPENSSL_lh_retrieve fns lh' x = (if call_cmp fns p x = 0 then p else OPENSSL_lh_retrieve fns lh x))"
    using h ok by blast
next
  fix lh p
  assume ok: "fns_ok fns \<and> lh_ok fns lh"
  define lh' where "lh' = lh_remove alloc fns lh p"
  have h: "lh_ok fns lh' \<and> (\<forall>x q. holds fns lh' x q \<longleftrightarrow> call_cmp fns p x \<noteq> 0 \<and> holds fns lh x q)"
  proof (rule OPENSSL_lh_delete_cases [OF conjunct1 [OF ok] conjunct2 [OF ok], of alloc p])
    assume a: "OPENSSL_lh_delete alloc fns lh p = (lh, 0)" "\<forall>q. \<not> holds fns lh p q"
    have "\<not> holds fns lh x q" if "call_cmp fns p x = 0" for x q
      using no_holds_filter [OF a(2) that conjunct1 [OF ok]] unfolding holds_def filter_mset_none by blast
    then show ?thesis using a(1) ok by (auto simp: lh'_def lh_remove_def)
  qed (simp add: lh'_def lh_remove_def)
  have "OPENSSL_lh_retrieve fns lh' x = (if call_cmp fns p x = 0 then 0 else OPENSSL_lh_retrieve fns lh x)" for x
  proof (cases "call_cmp fns p x = 0")
    case True
    then show ?thesis using h ok OPENSSL_lh_retrieve_holds [of fns lh' x] by auto
  next
    case False
    then show ?thesis using h ok retrieve_cong [of fns lh' lh x] by simp
  qed
  then show "(fns_ok fns \<and> lh_ok fns (lh_remove alloc fns lh p)) \<and>
      (\<forall>x. OPENSSL_lh_retrieve fns (lh_remove alloc fns lh p) x = (if call_cmp fns p x = 0 then 0 else OPENSSL_lh_retrieve fns lh x))"
    using h ok by (simp flip: lh'_def)
qed

section \<open>The properties\<close>

lemma new_ok: "OPENSSL_lh_new alloc = Some lh \<Longrightarrow> lh_ok fns lh \<and> (\<forall>x q. \<not> holds fns lh x q)"
proof -
  assume "OPENSSL_lh_new alloc = Some lh"
  then have lh: "lh = \<lparr>num_items = 0, buckets = replicate kMinNumBuckets [], num_buckets = kMinNumBuckets, callback_depth = 0\<rparr>"
    by (simp add: OPENSSL_lh_new_def split: if_splits)
  have "concat (replicate kMinNumBuckets []) = []" by simp
  then have "items lh = {#}" unfolding lh items_def by simp
  then show ?thesis unfolding lh_ok_def holds_def by (simp add: lh placed_def)
qed

text \<open>C4. A table implements a map from keys up to the callers' equality: after any insertions and deletions
  that succeeded, with the resizing they do, a lookup gives what the last update of an equal key left.\<close>

theorem lhash_refines_map:
  assumes "fns_ok fns" and "OPENSSL_lh_new alloc = Some lh" and "lh.run alloc fns lh us = Some lh'"
  shows "OPENSSL_lh_retrieve fns lh' x = lh.expected fns us x 0"
proof -
  have "lh_ok fns lh" "OPENSSL_lh_retrieve fns lh x = 0"
    using new_ok [OF assms(2), of fns] OPENSSL_lh_retrieve_holds [OF assms(1), of lh x] by auto
  then show ?thesis using lh.run_get [OF _ assms(3)] assms(1) by simp
qed

lemma updates_kept:
  assumes "fns_ok fns" and "lh_ok fns lh" and "p \<noteq> 0" and "num_items lh < 2 ^ 60 - 1"
  shows "OPENSSL_lh_insert alloc fns lh p = (lh', old, True) \<Longrightarrow> lh_ok fns lh' \<and> old = OPENSSL_lh_retrieve fns lh p \<and>
      num_items lh' = num_items lh + (if old = 0 then 1 else 0)"
    and "OPENSSL_lh_insert alloc fns lh p = (lh', old, False) \<Longrightarrow> lh' = lh \<and> old = 0 \<and> \<not> alloc sizeof_item"
    and "OPENSSL_lh_delete alloc fns lh p = (lh', old) \<Longrightarrow> lh_ok fns lh' \<and> old = OPENSSL_lh_retrieve fns lh p \<and>
      num_items lh' + (if old = 0 then 0 else 1) = num_items lh"
proof -
  have ret: "old = OPENSSL_lh_retrieve fns lh p" if "holds fns lh p old" "old \<noteq> 0" for old
    using retrieve_iff [OF assms(1,2) that(2)] that(1) by metis
  have ret0: "OPENSSL_lh_retrieve fns lh p = 0" if "\<forall>q. \<not> holds fns lh p q"
    using OPENSSL_lh_retrieve_holds [OF assms(1,2), of p] that by blast
  show "lh_ok fns lh' \<and> old = OPENSSL_lh_retrieve fns lh p \<and> num_items lh' = num_items lh + (if old = 0 then 1 else 0)"
    if "OPENSSL_lh_insert alloc fns lh p = (lh', old, True)"
    by (rule OPENSSL_lh_insert_cases [OF assms, of alloc]) (use that ret ret0 in auto)
  show "lh' = lh \<and> old = 0 \<and> \<not> alloc sizeof_item" if "OPENSSL_lh_insert alloc fns lh p = (lh', old, False)"
    by (rule OPENSSL_lh_insert_cases [OF assms, of alloc]) (use that in auto)
  show "lh_ok fns lh' \<and> old = OPENSSL_lh_retrieve fns lh p \<and> num_items lh' + (if old = 0 then 0 else 1) = num_items lh"
    if "OPENSSL_lh_delete alloc fns lh p = (lh', old)"
    by (rule OPENSSL_lh_delete_cases [OF assms(1,2), of alloc p]) (use that ret ret0 assms(2) in auto)
qed

text \<open>C29. \<open>OPENSSL_lh_insert\<close> and \<open>OPENSSL_lh_delete\<close> keep the table well formed: every item is in the bucket of its hash
  and no two are equal, the count is right, and there are at least \<open>kMinNumBuckets\<close> buckets. They hand back the pointer
  that they replace or remove, and a failed insertion changes nothing.\<close>

theorem lhash_invariant:
  assumes "fns_ok fns" and "lh_ok fns lh" and "p \<noteq> 0" and "num_items lh < 2 ^ 60 - 1"
  shows "(case OPENSSL_lh_insert alloc fns lh p of
      (lh', old, True) \<Rightarrow> lh_ok fns lh' \<and> old = OPENSSL_lh_retrieve fns lh p \<and> num_items lh' = num_items lh + (if old = 0 then 1 else 0)
    | (lh', old, False) \<Rightarrow> lh' = lh \<and> old = 0 \<and> \<not> alloc sizeof_item) \<and>
    (case OPENSSL_lh_delete alloc fns lh p of
      (lh', old) \<Rightarrow> lh_ok fns lh' \<and> old = OPENSSL_lh_retrieve fns lh p \<and> num_items lh' + (if old = 0 then 0 else 1) = num_items lh)"
proof
  show "case OPENSSL_lh_insert alloc fns lh p of
      (lh', old, True) \<Rightarrow> lh_ok fns lh' \<and> old = OPENSSL_lh_retrieve fns lh p \<and> num_items lh' = num_items lh + (if old = 0 then 1 else 0)
    | (lh', old, False) \<Rightarrow> lh' = lh \<and> old = 0 \<and> \<not> alloc sizeof_item"
  proof -
    obtain lh' old r where i: "OPENSSL_lh_insert alloc fns lh p = (lh', old, r)" by (rule prod_cases3)
    show ?thesis
    proof (cases r)
      case True
      then have "r = True" by simp
      note f = i [unfolded this]
      show ?thesis unfolding f prod.case bool.case by (rule updates_kept(1) [OF assms f])
    next
      case False
      then have "r = False" by simp
      note f = i [unfolded this]
      show ?thesis unfolding f prod.case bool.case by (rule updates_kept(2) [OF assms f])
    qed
  qed
  show "case OPENSSL_lh_delete alloc fns lh p of
      (lh', old) \<Rightarrow> lh_ok fns lh' \<and> old = OPENSSL_lh_retrieve fns lh p \<and> num_items lh' + (if old = 0 then 0 else 1) = num_items lh"
  proof -
    obtain lh' old where d: "OPENSSL_lh_delete alloc fns lh p = (lh', old)" by (rule prod.exhaust)
    show ?thesis unfolding d prod.case by (rule updates_kept(3) [OF assms d])
  qed
qed



lemma fold_chains: "fold (fold f) bs st = fold f (concat bs) st"
  by (induction bs arbitrary: st) simp_all

lemma fold_items: "fold (\<lambda>cur. func (item_data cur)) c st = fold func (map item_data c) st"
  by (induction c arbitrary: st) simp_all

text \<open>\<open>OPENSSL_lh_doall_arg\<close> calls its function once for every stored pointer, in some order, and leaves the
  contents of the table and its depth as they were; the table is resized only after it, when no other iteration is
  under way.\<close>

theorem OPENSSL_lh_doall_arg_visits:
  assumes "lh_ok fns lh" and "callback_depth lh < UINT_MAX - 1"
  shows "\<exists>lh' ps. OPENSSL_lh_doall_arg alloc func (Some lh) st = (Some lh', fold func ps st) \<and>
    mset ps = image_mset item_data (items lh) \<and> lh_ok fns lh' \<and> items lh' = items lh \<and>
    callback_depth lh' = callback_depth lh \<and> (0 < callback_depth lh \<longrightarrow> lh' = lh)"
proof -
  define ps where "ps = map item_data (concat (buckets lh))"
  have st: "fold (fold (\<lambda>cur. func (item_data cur))) (buckets lh) st = fold func ps st"
    by (simp add: fold_chains fold_items ps_def)
  have lh: "lh\<lparr>callback_depth := callback_depth lh\<rparr> = lh" by simp
  have "OPENSSL_lh_doall_arg alloc func (Some lh) st = (Some (lh_maybe_resize alloc lh), fold func ps st)"
    using assms(2) by (simp add: OPENSSL_lh_doall_arg_def Let_def st lh)
  moreover have "0 < callback_depth lh \<longrightarrow> lh_maybe_resize alloc lh = lh" by (simp add: lh_maybe_resize_def)
  moreover have "mset ps = image_mset item_data (items lh)" unfolding ps_def items_def by (rule mset_map)
  ultimately show ?thesis
    using lh_maybe_resize [OF assms(1), of alloc]
    by (intro exI [of _ "lh_maybe_resize alloc lh"] exI [of _ ps]) simp
qed

text \<open>A lookup with a key of another type agrees with \<open>OPENSSL_lh_retrieve\<close> when its hash and comparison do.\<close>

theorem OPENSSL_lh_retrieve_key_eq:
  assumes "key_hash = call_hash fns x" and "\<And>p. cmp_key key p = 0 \<longleftrightarrow> call_cmp fns p x = 0"
  shows "OPENSSL_lh_retrieve_key lh key key_hash cmp_key = OPENSSL_lh_retrieve fns lh x"
  by (simp add: OPENSSL_lh_retrieve_key_def OPENSSL_lh_retrieve_def get_next_ptr_by_key_def get_next_ptr_and_hash_def Let_def assms)

section \<open>A concrete table\<close>

definition by_value :: lhash_fns where
  "by_value = \<lparr>call_hash = (\<lambda>p. 3), call_cmp = (\<lambda>p q. if p = q then 0 else 1)\<rparr>"

lemma by_value_same: "call_cmp by_value x y = 0 \<longleftrightarrow> x = y"
  by (simp add: by_value_def)

lemma by_value_ok: "fns_ok by_value"
  by (simp add: fns_ok_def by_value_def)

definition empty_table :: lhash_st where
  "empty_table = \<lparr>num_items = 0, buckets = replicate kMinNumBuckets [], num_buckets = kMinNumBuckets, callback_depth = 0\<rparr>"

lemma empty_table: "OPENSSL_lh_new (\<lambda>_. True) = Some empty_table"
  by (simp add: OPENSSL_lh_new_def empty_table_def)

lemma empty_ok: "lh_ok fns empty_table"
  using new_ok [OF empty_table] by blast

lemma lhash_refines_map_witness:
  "\<exists>lh. lh.run (\<lambda>_. True) by_value empty_table [Put 1, Put 2, Remove 1] = Some lh \<and>
     OPENSSL_lh_retrieve by_value lh 1 = 0 \<and> OPENSSL_lh_retrieve by_value lh 2 = 2"
proof -
  have "lh.run (\<lambda>_. True) by_value empty_table [Put 1, Put 2, Remove 1] \<noteq> None"
    by (simp add: lh_put_def OPENSSL_lh_insert_def get_next_ptr_and_hash_def lh_maybe_resize_def Let_def by_value_def empty_table_def)
  then obtain lh where r: "lh.run (\<lambda>_. True) by_value empty_table [Put 1, Put 2, Remove 1] = Some lh" by blast
  then show ?thesis
    using lhash_refines_map [OF by_value_ok empty_table r, of 1] lhash_refines_map [OF by_value_ok empty_table r, of 2]
    unfolding lh.expected.simps by (auto simp: by_value_same)
qed

lemma lhash_invariant_witness:
  "OPENSSL_lh_insert (\<lambda>_. False) by_value empty_table 0x101 = (empty_table, 0, False)"
proof -
  have n: "num_items empty_table < 2 ^ 60 - 1" by (simp add: empty_table_def)
  obtain lh old r where i: "OPENSSL_lh_insert (\<lambda>_. False) by_value empty_table 0x101 = (lh, old, r)" by (metis prod_cases3)
  have "\<not> r" using i by (auto simp: OPENSSL_lh_insert_def get_next_ptr_and_hash_def Let_def by_value_def empty_table_def split: if_splits)
  then show ?thesis using lhash_invariant [OF by_value_ok empty_ok _ n, of "0x101" "\<lambda>_. False"] i by simp
qed

lemma OPENSSL_lh_doall_arg_visits_witness:
  "snd (OPENSSL_lh_doall_arg (\<lambda>_. True) (\<lambda>p n. n + (1 :: nat)) (Some empty_table) (0 :: nat)) = 0"
proof -
  have "callback_depth empty_table < UINT_MAX - 1" by (simp add: empty_table_def)
  from OPENSSL_lh_doall_arg_visits [OF empty_ok [of by_value] this, where func = "\<lambda>p n. n + (1 :: nat)" and alloc = "\<lambda>_. True" and st = "0 :: nat"]
  obtain lh' ps where "OPENSSL_lh_doall_arg (\<lambda>_. True) (\<lambda>p n. n + (1 :: nat)) (Some empty_table) 0 = (Some lh', fold (\<lambda>p n. n + (1 :: nat)) ps 0)"
    "mset ps = image_mset item_data (items empty_table)" by (elim exE conjE)
  moreover have "concat (replicate kMinNumBuckets []) = []" by simp
  then have "items empty_table = {#}" unfolding items_def empty_table_def by simp
  ultimately show ?thesis by simp
qed

lemma OPENSSL_lh_retrieve_key_eq_witness:
  "OPENSSL_lh_retrieve_key empty_table True 3 (\<lambda>key p. if p = 5 then 0 else 1) = OPENSSL_lh_retrieve by_value empty_table 5"
  by (rule OPENSSL_lh_retrieve_key_eq) (simp_all add: by_value_def)

end
