(* ===== verification/Pb_Wire.thy ===== *)
theory Pb_Wire
  imports Constant_Time
begin

text \<open>
  Model of the wire-format part of nanopb (\<^verbatim>\<open>pb_encode.c\<close>, \<^verbatim>\<open>pb_decode.c\<close>), the protocol buffer library under
  Firestore, as the pods build it (\<^verbatim>\<open>PB_FIELD_32BIT\<close>, \<^verbatim>\<open>PB_ENABLE_MALLOC\<close>). An input stream is one made by
  \<^verbatim>\<open>pb_istream_from_buffer\<close>: \<open>state\<close> is the memory from its pointer on, of which it may read \<open>bytes_left\<close>
  bytes. An output stream either writes to a buffer or, with a NULL callback, only counts. An \<^verbatim>\<open>int64_t\<close> is its 64-bit word. A function that
  stores its result through a pointer gives it as an option; \<^const>\<open>None\<close> is the return value false.
\<close>

section \<open>Streams\<close>

record pb_istream =
  state :: "u8 list"
  bytes_left :: nat
  errmsg :: "string option"

record pb_ostream =
  has_callback :: bool
  out_buf :: "u8 list"
  max_size :: nat
  bytes_written :: nat
  out_errmsg :: "string option"

definition PB_SET_ERROR :: "string \<Rightarrow> string option \<Rightarrow> string option" where
  "PB_SET_ERROR msg e = (case e of None \<Rightarrow> Some msg | Some m \<Rightarrow> Some m)"

definition in_error :: "pb_istream \<Rightarrow> string \<Rightarrow> 'a option \<times> pb_istream" where
  "in_error s msg = (None, s\<lparr>errmsg := PB_SET_ERROR msg (errmsg s)\<rparr>)"

definition out_error :: "pb_ostream \<Rightarrow> string \<Rightarrow> bool \<times> pb_ostream" where
  "out_error s msg = (False, s\<lparr>out_errmsg := PB_SET_ERROR msg (out_errmsg s)\<rparr>)"

text \<open>The read callback of a buffer, with the bytes it copies when \<open>buf\<close> is not NULL.\<close>

definition buf_read :: "pb_istream \<Rightarrow> nat \<Rightarrow> u8 list \<times> pb_istream" where
  "buf_read s n = (take n (state s), s\<lparr>state := drop n (state s)\<rparr>)"

definition pb_read :: "pb_istream \<Rightarrow> nat \<Rightarrow> u8 list option \<times> pb_istream" where
  "pb_read s n =
     (if n = 0 then (Some [], s)
      else if bytes_left s < n then in_error s ''end-of-stream''
      else case buf_read s n of (bs, s) \<Rightarrow> (Some bs, s\<lparr>bytes_left := bytes_left s - n\<rparr>))"

definition pb_readbyte :: "pb_istream \<Rightarrow> u8 option \<times> pb_istream" where
  "pb_readbyte s =
     (if bytes_left s = 0 then in_error s ''end-of-stream''
      else case buf_read s 1 of (bs, s) \<Rightarrow> (Some (hd bs), s\<lparr>bytes_left := bytes_left s - 1\<rparr>))"

definition pb_istream_from_buffer :: "u8 list \<Rightarrow> nat \<Rightarrow> pb_istream" where
  "pb_istream_from_buffer buf bufsize = \<lparr>state = buf, bytes_left = bufsize, errmsg = None\<rparr>"

definition buf_write :: "pb_ostream \<Rightarrow> u8 list \<Rightarrow> pb_ostream" where
  "buf_write s bs = s\<lparr>out_buf := out_buf s @ bs\<rparr>"

definition pb_ostream_from_buffer :: "nat \<Rightarrow> pb_ostream" where
  "pb_ostream_from_buffer bufsize = \<lparr>has_callback = True, out_buf = [], max_size = bufsize, bytes_written = 0, out_errmsg = None\<rparr>"

definition PB_OSTREAM_SIZING :: pb_ostream where
  "PB_OSTREAM_SIZING = \<lparr>has_callback = False, out_buf = [], max_size = 0, bytes_written = 0, out_errmsg = None\<rparr>"

definition pb_write :: "pb_ostream \<Rightarrow> u8 list \<Rightarrow> bool \<times> pb_ostream" where
  "pb_write s bs =
     (let count = length bs
      in if count > 0 \<and> has_callback s then
           if (bytes_written s + count) mod size_mod < bytes_written s \<or> (bytes_written s + count) mod size_mod > max_size s
           then out_error s ''stream full''
           else
             let s = buf_write s bs
             in (True, s\<lparr>bytes_written := (bytes_written s + count) mod size_mod\<rparr>)
         else (True, s\<lparr>bytes_written := (bytes_written s + count) mod size_mod\<rparr>))"

section \<open>Encoding\<close>

text \<open>The bytes that the loop of \<open>pb_encode_varint\<close> puts in \<open>buffer\<close>.\<close>

function varint_buffer :: "u64 \<Rightarrow> u8 list" where
  "varint_buffer value = (if value \<noteq> 0 then ucast ((value AND 0x7F) OR 0x80) # varint_buffer (drop_bit 7 value) else [])"
  by pat_completeness auto
termination
proof (relation "measure unat")
  fix v :: u64
  assume "v \<noteq> 0"
  then have "0 < unat v" by (simp add: unat_gt_0)
  then show "(drop_bit 7 v, v) \<in> measure unat" by (simp add: unat_drop_bit)
qed simp

declare varint_buffer.simps [simp del]

definition pb_encode_varint :: "pb_ostream \<Rightarrow> u64 \<Rightarrow> bool \<times> pb_ostream" where
  "pb_encode_varint s value =
     (if value \<le> 0x7F then pb_write s [ucast value]
      else
        let buffer = varint_buffer value; i = length buffer
        in pb_write s (buffer[i - 1 := (buffer ! (i - 1)) AND 0x7F]))"

definition pb_encode_svarint :: "pb_ostream \<Rightarrow> u64 \<Rightarrow> bool \<times> pb_ostream" where
  "pb_encode_svarint s value =
     (let zigzagged = (if value <s 0 then NOT (push_bit 1 value) else push_bit 1 value)
      in pb_encode_varint s zigzagged)"

definition pb_encode_fixed32 :: "pb_ostream \<Rightarrow> u32 \<Rightarrow> bool \<times> pb_ostream" where
  "pb_encode_fixed32 s val =
     pb_write s [ucast (val AND 0xFF), ucast (drop_bit 8 val AND 0xFF), ucast (drop_bit 16 val AND 0xFF),
       ucast (drop_bit 24 val AND 0xFF)]"

definition pb_encode_fixed64 :: "pb_ostream \<Rightarrow> u64 \<Rightarrow> bool \<times> pb_ostream" where
  "pb_encode_fixed64 s val =
     pb_write s [ucast (val AND 0xFF), ucast (drop_bit 8 val AND 0xFF), ucast (drop_bit 16 val AND 0xFF),
       ucast (drop_bit 24 val AND 0xFF), ucast (drop_bit 32 val AND 0xFF), ucast (drop_bit 40 val AND 0xFF),
       ucast (drop_bit 48 val AND 0xFF), ucast (drop_bit 56 val AND 0xFF)]"

datatype pb_wire_type = PB_WT_VARINT | PB_WT_64BIT | PB_WT_STRING | PB_WT_32BIT | PB_WT_OTHER nat

fun wire_value :: "pb_wire_type \<Rightarrow> nat" where
  "wire_value PB_WT_VARINT = 0"
| "wire_value PB_WT_64BIT = 1"
| "wire_value PB_WT_STRING = 2"
| "wire_value PB_WT_32BIT = 5"
| "wire_value (PB_WT_OTHER n) = n"

definition wire_type :: "nat \<Rightarrow> pb_wire_type" where
  "wire_type n = (if n = 0 then PB_WT_VARINT else if n = 1 then PB_WT_64BIT else if n = 2 then PB_WT_STRING
     else if n = 5 then PB_WT_32BIT else PB_WT_OTHER n)"

definition pb_encode_tag :: "pb_ostream \<Rightarrow> pb_wire_type \<Rightarrow> u32 \<Rightarrow> bool \<times> pb_ostream" where
  "pb_encode_tag s wiretype field_number =
     (let tag = push_bit 3 (ucast field_number) OR word_of_nat (wire_value wiretype) :: u64
      in pb_encode_varint s tag)"

datatype pb_ltype = PB_LTYPE_BOOL | PB_LTYPE_VARINT | PB_LTYPE_UVARINT | PB_LTYPE_SVARINT | PB_LTYPE_FIXED32
  | PB_LTYPE_FIXED64 | PB_LTYPE_BYTES | PB_LTYPE_STRING | PB_LTYPE_SUBMESSAGE | PB_LTYPE_EXTENSION
  | PB_LTYPE_FIXED_LENGTH_BYTES

fun ltype_wire :: "pb_ltype \<Rightarrow> pb_wire_type option" where
  "ltype_wire PB_LTYPE_BOOL = Some PB_WT_VARINT"
| "ltype_wire PB_LTYPE_VARINT = Some PB_WT_VARINT"
| "ltype_wire PB_LTYPE_UVARINT = Some PB_WT_VARINT"
| "ltype_wire PB_LTYPE_SVARINT = Some PB_WT_VARINT"
| "ltype_wire PB_LTYPE_FIXED32 = Some PB_WT_32BIT"
| "ltype_wire PB_LTYPE_FIXED64 = Some PB_WT_64BIT"
| "ltype_wire PB_LTYPE_BYTES = Some PB_WT_STRING"
| "ltype_wire PB_LTYPE_STRING = Some PB_WT_STRING"
| "ltype_wire PB_LTYPE_SUBMESSAGE = Some PB_WT_STRING"
| "ltype_wire PB_LTYPE_FIXED_LENGTH_BYTES = Some PB_WT_STRING"
| "ltype_wire PB_LTYPE_EXTENSION = None"

definition pb_encode_tag_for_field :: "pb_ostream \<Rightarrow> pb_ltype \<Rightarrow> u32 \<Rightarrow> bool \<times> pb_ostream" where
  "pb_encode_tag_for_field s ltype tag =
     (case ltype_wire ltype of
        None \<Rightarrow> out_error s ''invalid field type''
      | Some wiretype \<Rightarrow> pb_encode_tag s wiretype tag)"

definition pb_encode_string :: "pb_ostream \<Rightarrow> u8 list \<Rightarrow> bool \<times> pb_ostream" where
  "pb_encode_string s buffer =
     (case pb_encode_varint s (word_of_nat (length buffer)) of
        (False, s) \<Rightarrow> (False, s)
      | (True, s) \<Rightarrow> pb_write s buffer)"

section \<open>Decoding\<close>

function decode_varint32_loop :: "u8 \<Rightarrow> u32 \<Rightarrow> pb_istream \<Rightarrow> (u8 \<times> u32 \<times> u8) option \<times> pb_istream" where
  "decode_varint32_loop bitpos result s =
     (case pb_readbyte s of
        (None, s) \<Rightarrow> (None, s)
      | (Some byte, s) \<Rightarrow>
          let sign_extension = (if bitpos < 63 then 0xFF else 0x01) :: u8
          in if bitpos \<ge> 32 \<and> byte AND 0x7F \<noteq> 0 \<and> (drop_bit 31 result = 0 \<or> byte \<noteq> sign_extension) then
               in_error s ''varint overflow''
             else
               let result = (if bitpos \<ge> 32 then result else result OR push_bit (unat bitpos) (ucast (byte AND 0x7F)));
                   bitpos = bitpos + 7
               in if byte AND 0x80 \<noteq> 0 then decode_varint32_loop bitpos result s
                  else (Some (bitpos, result, byte), s))"
  by pat_completeness auto
termination
  by (relation "measure (\<lambda>(bitpos, result, s). bytes_left s)")
    (auto simp: pb_readbyte_def buf_read_def in_error_def split: if_splits)

declare decode_varint32_loop.simps [simp del]

text \<open>The value, the stream, and \<open>*eof\<close> (set only, as in the code).\<close>

definition pb_decode_varint32_eof :: "pb_istream \<Rightarrow> u32 option \<times> pb_istream \<times> bool" where
  "pb_decode_varint32_eof s =
     (case pb_readbyte s of
        (None, s) \<Rightarrow> (None, s, bytes_left s = 0)
      | (Some byte, s) \<Rightarrow>
          if byte AND 0x80 = 0 then (Some (ucast byte), s, False)
          else case decode_varint32_loop 7 (ucast (byte AND 0x7F)) s of
              (None, s) \<Rightarrow> (None, s, False)
            | (Some (bitpos, result, byte), s) \<Rightarrow>
                if bitpos = 35 \<and> byte AND 0x70 \<noteq> 0 then
                  (case in_error s ''varint overflow'' of (r, s) \<Rightarrow> (r, s, False))
                else (Some result, s, False))"

definition pb_decode_varint32 :: "pb_istream \<Rightarrow> u32 option \<times> pb_istream" where
  "pb_decode_varint32 s = (case pb_decode_varint32_eof s of (r, s, _) \<Rightarrow> (r, s))"

function decode_varint_loop :: "u8 \<Rightarrow> u64 \<Rightarrow> pb_istream \<Rightarrow> u64 option \<times> pb_istream" where
  "decode_varint_loop bitpos result s =
     (if bitpos \<ge> 64 then in_error s ''varint overflow''
      else case pb_readbyte s of
          (None, s) \<Rightarrow> (None, s)
        | (Some byte, s) \<Rightarrow>
            let result = result OR push_bit (unat bitpos) (ucast (byte AND 0x7F));
                bitpos = bitpos + 7
            in if byte AND 0x80 \<noteq> 0 then decode_varint_loop bitpos result s
               else (Some result, s))"
  by pat_completeness auto
termination
  by (relation "measure (\<lambda>(bitpos, result, s). bytes_left s)")
    (auto simp: pb_readbyte_def buf_read_def in_error_def split: if_splits)

declare decode_varint_loop.simps [simp del]

definition pb_decode_varint :: "pb_istream \<Rightarrow> u64 option \<times> pb_istream" where
  "pb_decode_varint s = decode_varint_loop 0 0 s"

function pb_skip_varint :: "pb_istream \<Rightarrow> bool \<times> pb_istream" where
  "pb_skip_varint s =
     (case pb_read s 1 of
        (None, s) \<Rightarrow> (False, s)
      | (Some bs, s) \<Rightarrow> if hd bs AND 0x80 \<noteq> 0 then pb_skip_varint s else (True, s))"
  by pat_completeness auto
termination
  by (relation "measure bytes_left")
    (auto simp: pb_read_def buf_read_def in_error_def split: if_splits)

declare pb_skip_varint.simps [simp del]

definition pb_skip_bytes :: "pb_istream \<Rightarrow> nat \<Rightarrow> bool \<times> pb_istream" where
  "pb_skip_bytes s n = (case pb_read s n of (r, s) \<Rightarrow> (r \<noteq> None, s))"

definition pb_skip_string :: "pb_istream \<Rightarrow> bool \<times> pb_istream" where
  "pb_skip_string s =
     (case pb_decode_varint32 s of
        (None, s) \<Rightarrow> (False, s)
      | (Some n, s) \<Rightarrow> pb_skip_bytes s (unat n))"

text \<open>The wire type and the tag, the stream, and \<open>*eof\<close>.\<close>

definition pb_decode_tag :: "pb_istream \<Rightarrow> (pb_wire_type \<times> u32) option \<times> pb_istream \<times> bool" where
  "pb_decode_tag s =
     (case pb_decode_varint32_eof s of
        (None, s, eof) \<Rightarrow> (None, s, eof)
      | (Some temp, s, eof) \<Rightarrow>
          if temp = 0 then (None, s, True)
          else (Some (wire_type (unat (temp AND 7)), drop_bit 3 temp), s, eof))"

definition pb_skip_field :: "pb_istream \<Rightarrow> pb_wire_type \<Rightarrow> bool \<times> pb_istream" where
  "pb_skip_field s wt =
     (case wt of
        PB_WT_VARINT \<Rightarrow> pb_skip_varint s
      | PB_WT_64BIT \<Rightarrow> pb_skip_bytes s 8
      | PB_WT_STRING \<Rightarrow> pb_skip_string s
      | PB_WT_32BIT \<Rightarrow> pb_skip_bytes s 4
      | PB_WT_OTHER _ \<Rightarrow> (case in_error s ''invalid wire_type'' of (r :: unit option, s) \<Rightarrow> (False, s)))"

text \<open>The loop of \<open>read_raw_value\<close> for a varint: the bytes read so far are \<open>buf\<close>, their number \<open>*size\<close>.\<close>

function raw_varint_loop :: "pb_istream \<Rightarrow> nat \<Rightarrow> u8 list \<Rightarrow> u8 list option \<times> pb_istream" where
  "raw_varint_loop s max_n buf =
     (if length buf + 1 > max_n then (None, s)
      else case pb_read s 1 of
          (None, s) \<Rightarrow> (None, s)
        | (Some bs, s) \<Rightarrow> if hd bs AND 0x80 \<noteq> 0 then raw_varint_loop s max_n (buf @ bs) else (Some (buf @ bs), s))"
  by pat_completeness auto
termination
  by (relation "measure (\<lambda>(s, max_n, buf). bytes_left s)")
    (auto simp: pb_read_def buf_read_def in_error_def split: if_splits)

declare raw_varint_loop.simps [simp del]

definition read_raw_value :: "pb_istream \<Rightarrow> pb_wire_type \<Rightarrow> nat \<Rightarrow> u8 list option \<times> pb_istream" where
  "read_raw_value s wt max_n =
     (case wt of
        PB_WT_VARINT \<Rightarrow> raw_varint_loop s max_n []
      | PB_WT_64BIT \<Rightarrow> pb_read s 8
      | PB_WT_32BIT \<Rightarrow> pb_read s 4
      | _ \<Rightarrow> in_error s ''invalid wire_type'')"

text \<open>The substream, and the stream after it.\<close>

definition pb_make_string_substream :: "pb_istream \<Rightarrow> pb_istream option \<times> pb_istream" where
  "pb_make_string_substream s =
     (case pb_decode_varint32 s of
        (None, s) \<Rightarrow> (None, s)
      | (Some size_n, s) \<Rightarrow>
          let substream = s
          in if bytes_left substream < unat size_n then in_error s ''parent stream too short''
             else (Some (substream\<lparr>bytes_left := unat size_n\<rparr>), s\<lparr>bytes_left := bytes_left s - unat size_n\<rparr>))"

definition pb_close_string_substream :: "pb_istream \<Rightarrow> pb_istream \<Rightarrow> bool \<times> pb_istream" where
  "pb_close_string_substream s substream =
     (case (if bytes_left substream \<noteq> 0 then pb_skip_bytes substream (bytes_left substream) else (True, substream)) of
        (False, _) \<Rightarrow> (False, s)
      | (True, substream) \<Rightarrow> (True, s\<lparr>state := state substream, errmsg := errmsg substream\<rparr>))"

definition pb_decode_svarint :: "pb_istream \<Rightarrow> u64 option \<times> pb_istream" where
  "pb_decode_svarint s =
     (case pb_decode_varint s of
        (None, s) \<Rightarrow> (None, s)
      | (Some value, s) \<Rightarrow>
          (Some (if value AND 1 \<noteq> 0 then NOT (drop_bit 1 value) else drop_bit 1 value), s))"

definition pb_decode_fixed32 :: "pb_istream \<Rightarrow> u32 option \<times> pb_istream" where
  "pb_decode_fixed32 s =
     (case pb_read s 4 of
        (None, s) \<Rightarrow> (None, s)
      | (Some bytes, s) \<Rightarrow>
          (Some (ucast (bytes ! 0) OR push_bit 8 (ucast (bytes ! 1)) OR push_bit 16 (ucast (bytes ! 2)) OR
             push_bit 24 (ucast (bytes ! 3))), s))"

definition pb_decode_fixed64 :: "pb_istream \<Rightarrow> u64 option \<times> pb_istream" where
  "pb_decode_fixed64 s =
     (case pb_read s 8 of
        (None, s) \<Rightarrow> (None, s)
      | (Some bytes, s) \<Rightarrow>
          (Some (ucast (bytes ! 0) OR push_bit 8 (ucast (bytes ! 1)) OR push_bit 16 (ucast (bytes ! 2)) OR
             push_bit 24 (ucast (bytes ! 3)) OR push_bit 32 (ucast (bytes ! 4)) OR push_bit 40 (ucast (bytes ! 5)) OR
             push_bit 48 (ucast (bytes ! 6)) OR push_bit 56 (ucast (bytes ! 7))), s))"


section \<open>Varints as numbers\<close>

text \<open>The minimal varint of a number, and the number that the groups of a varint stand for.\<close>

fun varint_bytes :: "nat \<Rightarrow> u8 list" where
  "varint_bytes n = (if n < 128 then [word_of_nat n] else word_of_nat (n mod 128 + 128) # varint_bytes (n div 128))"

declare varint_bytes.simps [simp del]

fun le128 :: "u8 list \<Rightarrow> nat" where
  "le128 [] = 0"
| "le128 (b # bs) = unat b mod 128 + 128 * le128 bs"

fun varint_shape :: "u8 list \<Rightarrow> bool" where
  "varint_shape [] \<longleftrightarrow> False"
| "varint_shape [b] \<longleftrightarrow> unat b < 128"
| "varint_shape (b # bs) \<longleftrightarrow> 128 \<le> unat b \<and> varint_shape bs"

lemma shape_Cons: "varint_shape (b # bs) \<longleftrightarrow> (if bs = [] then unat b < 128 else 128 \<le> unat b \<and> varint_shape bs)"
  by (cases bs) simp_all

lemma group_low_bits: "unat (b AND 0x7F) = unat b mod 128" "b AND 0x80 \<noteq> 0 \<longleftrightarrow> 128 \<le> unat b" for b :: u8
proof -
  have "b AND 0x7F = take_bit 7 b" by (simp add: take_bit_eq_mask mask_eq_exp_minus_1)
  then show "unat (b AND 0x7F) = unat b mod 128" by (simp add: unat_take_bit)
  have m: "(0x80 :: u8) = 2 ^ 7" by simp
  have "b AND 0x80 \<noteq> 0 \<longleftrightarrow> bit b 7"
    unfolding m and_exp_eq_0_iff_not_bit by simp
  also have "\<dots> \<longleftrightarrow> bit (unat b) 7" by (simp add: bit_unsigned_iff)
  also have "\<dots> \<longleftrightarrow> odd (unat b div 128)" by (simp add: bit_iff_odd)
  also have "\<dots> \<longleftrightarrow> 128 \<le> unat b"
  proof -
    have "unat b div 128 < 2" using unat_byte_lt [of b] by (simp add: less_mult_imp_div_less)
    then show ?thesis by (cases "unat b div 128 = 0") (auto simp: div_eq_0_iff)
  qed
  finally show "b AND 0x80 \<noteq> 0 \<longleftrightarrow> 128 \<le> unat b" .
qed

lemma group_cont_byte: "unat (word_of_nat (n mod 128 + 128) :: u8) = n mod 128 + 128"
proof -
  have "n mod 128 + 128 < 256" by simp
  then show ?thesis by (simp only: unat_word_of_nat_byte mod_less)
qed

lemma varint_bytes_props: "varint_shape (varint_bytes n)" "le128 (varint_bytes n) = n" "varint_bytes n \<noteq> []"
proof -
  have "varint_shape (varint_bytes n) \<and> le128 (varint_bytes n) = n \<and> varint_bytes n \<noteq> []"
  proof (induction n rule: varint_bytes.induct)
    case (1 n)
    then show ?case
      by (subst (1 2 3) varint_bytes.simps) (simp add: shape_Cons group_cont_byte unat_word_of_nat_byte del: of_nat_add)
  qed
  then show "varint_shape (varint_bytes n)" "le128 (varint_bytes n) = n" "varint_bytes n \<noteq> []" by blast+
qed

lemma length_varint_bytes: "n < 128 ^ k \<Longrightarrow> 0 < k \<Longrightarrow> length (varint_bytes n) \<le> k"
proof (induction n arbitrary: k rule: varint_bytes.induct)
  case (1 n)
  show ?case
  proof (cases "n < 128")
    case True
    then show ?thesis using 1(3) by (subst varint_bytes.simps) simp
  next
    case False
    then obtain j where j: "k = Suc j" "0 < j" using 1(2,3) by (cases k; cases "k = 1") auto
    then have "n div 128 < 128 ^ j" using 1(2) by (simp add: less_mult_imp_div_less mult.commute)
    then show ?thesis using 1(1) [OF False _ j(2)] False j by (subst varint_bytes.simps) simp
  qed
qed

lemma varint_bytes_64: "length (varint_bytes (unat (v :: u64))) \<le> 10"
proof -
  have "unat v < 128 ^ 10" using unat_u64_lt [of v] by simp
  then show ?thesis by (rule length_varint_bytes) simp
qed

section \<open>The encoder\<close>

lemma group_byte: "ucast ((v AND 0x7F) OR 0x80) = (word_of_nat (unat v mod 128 + 128) :: u8)" for v :: u64
proof -
  have m: "v AND 0x7F = take_bit 7 v" by (simp add: take_bit_eq_mask mask_eq_exp_minus_1)
  have "(v AND 0x7F) OR 0x80 = push_bit 7 1 OR take_bit 7 v"
    by (simp add: m push_bit_eq_mult or.commute)
  then have "unat ((v AND 0x7F) OR 0x80) = 128 + unat v mod 128"
    using push_or_arith [of "take_bit 7 v" 7 1] by (simp add: unat_take_bit)
  then show ?thesis
    by (metis add.commute word_of_nat_unat)
qed

lemma varint_buffer_bytes:
  "v \<noteq> 0 \<Longrightarrow> varint_buffer v \<noteq> [] \<and>
     (varint_buffer v)[length (varint_buffer v) - 1 := varint_buffer v ! (length (varint_buffer v) - 1) AND 0x7F] = varint_bytes (unat v)"
proof (induction v rule: varint_buffer.induct)
  case (1 v)
  have d: "unat (drop_bit 7 v) = unat v div 128" by (simp add: unat_drop_bit)
  have b: "varint_buffer v = word_of_nat (unat v mod 128 + 128) # varint_buffer (drop_bit 7 v)"
    using 1(2) by (subst varint_buffer.simps) (simp add: group_byte)
  show ?case
  proof (cases "drop_bit 7 v = 0")
    case True
    then have "unat v < 128" using d by (simp add: div_eq_0_iff)
    moreover have "(word_of_nat (unat v mod 128 + 128) :: u8) AND 0x7F = word_of_nat (unat v mod 128)"
      by (simp add: word_unat_eq_iff group_low_bits group_cont_byte unat_word_of_nat_byte del: of_nat_add)
    moreover have "varint_buffer 0 = []" by (subst varint_buffer.simps) simp
    ultimately show ?thesis using True b by (subst varint_bytes.simps) simp
  next
    case False
    then have "\<not> unat v < 128" using d by (auto simp: word_unat_eq_iff)
    moreover obtain c bs where c: "varint_buffer (drop_bit 7 v) = c # bs" using 1(1) [OF 1(2) False] by (cases "varint_buffer (drop_bit 7 v)") auto
    ultimately show ?thesis
      using 1(1) [OF 1(2) False] b d by (subst varint_bytes.simps) simp
  qed
qed

lemma pb_encode_varint: "pb_encode_varint s v = pb_write s (varint_bytes (unat v))"
proof (cases "v \<le> 0x7F")
  case True
  then have "unat v < 128" by (simp add: word_le_nat_alt)
  then show ?thesis using True by (subst varint_bytes.simps) (simp add: pb_encode_varint_def word_of_nat_unat)
next
  case False
  then have "v \<noteq> 0" by auto
  then show ?thesis using False varint_buffer_bytes [of v] by (simp add: pb_encode_varint_def Let_def)
qed


section \<open>Reading\<close>

text \<open>The bytes that a stream may still read, and the stream after reading \<open>n\<close> of them.\<close>

definition avail :: "pb_istream \<Rightarrow> u8 list" where
  "avail s = take (bytes_left s) (state s)"

definition stream_ok :: "pb_istream \<Rightarrow> bool" where
  "stream_ok s \<longleftrightarrow> bytes_left s \<le> length (state s)"

definition advance :: "nat \<Rightarrow> pb_istream \<Rightarrow> pb_istream" where
  "advance n s = s\<lparr>state := drop n (state s), bytes_left := bytes_left s - n\<rparr>"

lemma length_avail: "stream_ok s \<Longrightarrow> length (avail s) = bytes_left s"
  by (simp add: stream_ok_def avail_def)

lemma advance_avail [simp]: "avail (advance n s) = drop n (avail s)"
  by (simp add: advance_def avail_def drop_take)

lemma advance_ok [simp]: "stream_ok s \<Longrightarrow> stream_ok (advance n s)"
  by (auto simp: advance_def stream_ok_def)

lemma advance_advance [simp]: "advance m (advance n s) = advance (n + m) s"
  by (simp add: advance_def add.commute)

lemma advance_0 [simp]: "advance 0 s = s"
  by (simp add: advance_def)

lemma advance_errmsg [simp]: "errmsg (advance n s) = errmsg s"
  by (simp add: advance_def)

lemma pb_read_avail:
  assumes "stream_ok s" and "avail s = bs @ rest"
  shows "pb_read s (length bs) = (Some bs, advance (length bs) s)"
proof -
  have "length bs \<le> bytes_left s" using length_avail [OF assms(1)] assms(2) by simp
  moreover have "take (length bs) (state s) = bs"
  proof -
    have "take (length bs) (state s) = take (length bs) (avail s)" using calculation by (simp add: avail_def min_def)
    then show ?thesis using assms(2) by simp
  qed
  ultimately show ?thesis
    by (cases bs) (auto simp: pb_read_def buf_read_def advance_def)
qed

lemma pb_readbyte_avail:
  assumes "stream_ok s" and "avail s = b # rest"
  shows "pb_readbyte s = (Some b, advance 1 s)"
proof -
  have "1 \<le> bytes_left s" using length_avail [OF assms(1)] assms(2) by simp
  moreover have "take 1 (state s) = [b]"
  proof -
    have "take 1 (state s) = take 1 (avail s)" using calculation by (simp add: avail_def min_def)
    then show ?thesis using assms(2) by simp
  qed
  ultimately show ?thesis
    by (auto simp: pb_readbyte_def buf_read_def advance_def)
qed

lemma pb_readbyte_empty: "stream_ok s \<Longrightarrow> avail s = [] \<Longrightarrow> pb_readbyte s = in_error s ''end-of-stream''"
  using length_avail [of s] by (simp add: pb_readbyte_def)

lemma or_group:
  fixes r :: "'a::len word"
  assumes "unat r < 2 ^ k"
  shows "r OR push_bit k w = r + push_bit k w"
proof -
  have "take_bit k r = r" using assms by (simp add: word_unat_eq_iff unat_take_bit)
  then show ?thesis using push_or_eq_plus [of k r w] by (simp add: or.commute add.commute)
qed

lemma push_word_of_nat: "push_bit k (word_of_nat n) = (word_of_nat (n * 2 ^ k) :: 'a::len word)"
  by (simp add: push_bit_eq_mult)

lemma ucast_low: "ucast (b AND 0x7F) = (word_of_nat (unat b mod 128) :: 'a::len word)" for b :: u8
  using word_of_nat_unat [of "b AND 0x7F", where 'b = 'a] by (simp only: group_low_bits)

lemma unat_word_of_nat: "n < 2 ^ LENGTH('a) \<Longrightarrow> unat (word_of_nat n :: 'a::len word) = n"
  by (simp add: unsigned_of_nat take_bit_nat_eq_self_iff)

text \<open>The loop of the 64-bit decoder on a varint of at most ten groups, and on a longer one.\<close>

lemma decode_varint_loop_value:
  assumes "varint_shape bs" and "stream_ok s" and "avail s = bs @ rest" and "unat bitpos = 7 * j" and "j + length bs \<le> 10"
    and "unat result < 2 ^ (7 * j)"
  shows "decode_varint_loop bitpos result s = (Some (result + word_of_nat (le128 bs * 2 ^ (7 * j))), advance (length bs) s)"
  using assms
proof (induction bs arbitrary: bitpos result s j)
  case (Cons b bs)
  have j: "7 * j < 64" using Cons.prems(5) by simp
  then have bp: "\<not> bitpos \<ge> 64" using Cons.prems(4) by (simp add: word_le_nat_alt)
  have rb: "pb_readbyte s = (Some b, advance 1 s)" using pb_readbyte_avail [OF Cons.prems(2)] Cons.prems(3) by simp
  define r1 where "r1 = result OR push_bit (7 * j) (ucast (b AND 0x7F))"
  have r1: "r1 = result + word_of_nat (unat b mod 128 * 2 ^ (7 * j))"
    using or_group [OF Cons.prems(6), of "ucast (b AND 0x7F)"] unfolding r1_def ucast_low push_word_of_nat .
  note step = decode_varint_loop.simps [of bitpos result s, unfolded Let_def rb prod.case option.case Cons.prems(4) r1_def [symmetric]]
  show ?case
  proof (cases "bs = []")
    case True
    then have "\<not> 128 \<le> unat b" using Cons.prems(1) by simp
    then show ?thesis using step True bp r1 by (simp add: group_low_bits not_le)
  next
    case False
    then have s: "128 \<le> unat b" "varint_shape bs" using Cons.prems(1) by (simp_all add: shape_Cons)
    have j9: "j + 1 + length bs \<le> 10" "j \<le> 8" using Cons.prems(5) False by (cases bs; simp)+
    have av: "avail (advance 1 s) = bs @ rest" using Cons.prems(3) by simp
    have b7: "unat (bitpos + 7) = 7 * (j + 1)" using Cons.prems(4) j by (simp add: wrap_add)
    have r7: "unat r1 < 2 ^ (7 * (j + 1))"
    proof -
      have k: "2 ^ (7 * (j + 1)) \<le> (2 :: nat) ^ 63" using j9(2) by (intro power_increasing) simp_all
      have "unat b mod 128 \<le> 127" using mod_less_divisor [of 128 "unat b"] by linarith
      then have "unat b mod 128 * 2 ^ (7 * j) \<le> 127 * 2 ^ (7 * j)" by (rule mult_right_mono) simp
      then have "unat result + unat b mod 128 * 2 ^ (7 * j) < 2 ^ (7 * j) + 127 * 2 ^ (7 * j)" using Cons.prems(6) by linarith
      moreover have "2 ^ (7 * j) + 127 * 2 ^ (7 * j) = (2 :: nat) ^ (7 * (j + 1))" by (simp add: power_add)
      ultimately have lt: "unat result + unat b mod 128 * 2 ^ (7 * j) < 2 ^ (7 * (j + 1))" by simp
      then have "unat r1 = unat result + unat b mod 128 * 2 ^ (7 * j)"
      proof -
        have "unat (word_of_nat (unat b mod 128 * 2 ^ (7 * j)) :: u64) = unat b mod 128 * 2 ^ (7 * j)"
          using lt k by (intro unat_word_of_nat) simp
        then show ?thesis unfolding r1 using lt k by (simp only: wrap_add) simp
      qed
      then show ?thesis using lt by simp
    qed
    have "decode_varint_loop (bitpos + 7) r1 (advance 1 s) =
        (Some (r1 + word_of_nat (le128 bs * 2 ^ (7 * (j + 1)))), advance (length bs) (advance 1 s))"
      by (rule Cons.IH [OF s(2) advance_ok [OF Cons.prems(2)] av b7 j9(1) r7])
    moreover have "r1 + word_of_nat (le128 bs * 2 ^ (7 * (j + 1))) = result + word_of_nat (le128 (b # bs) * 2 ^ (7 * j))"
      unfolding r1 by (simp add: power_add algebra_simps)
    ultimately show ?thesis using step bp s(1) by (simp add: group_low_bits not_le)
  qed
qed simp


text \<open>Groups that are not the last move the loop on.\<close>

lemma decode_varint_loop_cont:
  assumes "\<forall>b \<in> set cs. 128 \<le> unat b" and "stream_ok s" and "avail s = cs @ rest" and "unat bitpos = 7 * j" and "j + length cs \<le> 10"
  shows "\<exists>r. decode_varint_loop bitpos result s = decode_varint_loop (word_of_nat (7 * (j + length cs))) r (advance (length cs) s)"
  using assms
proof (induction cs arbitrary: bitpos result s j)
  case Nil
  have "bitpos = word_of_nat (7 * (j + length []))"
    using word_of_nat_eqI [OF Nil(4)] by (simp del: of_nat_mult)
  then show ?case by auto
next
  case (Cons b cs)
  have j: "7 * j < 64" using Cons.prems(5) by simp
  then have bp: "\<not> bitpos \<ge> 64" using Cons.prems(4) by (simp add: word_le_nat_alt)
  have rb: "pb_readbyte s = (Some b, advance 1 s)" using pb_readbyte_avail [OF Cons.prems(2)] Cons.prems(3) by simp
  have b7: "unat (bitpos + 7) = 7 * (j + 1)" using Cons.prems(4) j by (simp add: wrap_add)
  define r1 where "r1 = result OR push_bit (unat bitpos) (ucast (b AND 0x7F))"
  have "decode_varint_loop bitpos result s = decode_varint_loop (bitpos + 7) r1 (advance 1 s)"
    using decode_varint_loop.simps [of bitpos result s] bp Cons.prems(1) by (simp add: rb group_low_bits r1_def)
  moreover have av: "avail (advance 1 s) = cs @ rest" using Cons.prems(3) by simp
  have "\<exists>r. decode_varint_loop (bitpos + 7) r1 (advance 1 s) =
      decode_varint_loop (word_of_nat (7 * (j + 1 + length cs))) r (advance (length cs) (advance 1 s))"
    by (rule Cons.IH [OF _ advance_ok [OF Cons.prems(2)] av b7]) (use Cons.prems(1,5) in simp_all)
  ultimately show ?case by simp
qed

lemma shape_snoc: "\<forall>b \<in> set cs. 128 \<le> unat b \<Longrightarrow> unat c < 128 \<Longrightarrow> varint_shape (cs @ [c])"
  by (induction cs) (auto simp: shape_Cons)

lemma shape_split: "varint_shape bs \<Longrightarrow> \<exists>cs c. bs = cs @ [c] \<and> (\<forall>b \<in> set cs. 128 \<le> unat b) \<and> unat c < 128"
proof (induction bs)
  case (Cons b bs)
  show ?case
  proof (cases "bs = []")
    case True
    then show ?thesis using Cons.prems by (intro exI [of _ "[]"]) simp
  next
    case False
    then obtain cs c where "bs = cs @ [c]" "\<forall>b \<in> set cs. 128 \<le> unat b" "unat c < 128"
      using Cons by (auto simp: shape_Cons)
    then show ?thesis using Cons.prems False by (intro exI [of _ "b # cs"] exI [of _ c]) (simp add: shape_Cons)
  qed
qed simp

lemma shape_unique: "varint_shape bs \<Longrightarrow> varint_shape cs \<Longrightarrow> bs @ r = cs @ r' \<Longrightarrow> bs = cs"
proof (induction bs arbitrary: cs)
  case (Cons b bs)
  then obtain cs' where cs: "cs = b # cs'" "bs @ r = cs' @ r'" by (cases cs) auto
  show ?case
  proof (cases "unat b < 128")
    case True
    then have "bs = []" "cs' = []" using Cons.prems(1,2) cs(1) by (metis shape_Cons not_less)+
    then show ?thesis using cs(1) by simp
  next
    case False
    then have "varint_shape bs" "varint_shape cs'" using Cons.prems(1,2) cs(1) by (metis shape_Cons)+
    then show ?thesis using Cons.IH cs by blast
  qed
qed simp

text \<open>A byte string starts with a varint, has ten groups that are not the last, or ends before one.\<close>

lemma varint_cases [case_names varint overlong short]:
  obtains bs rest where "xs = bs @ rest" "varint_shape bs" "length bs \<le> n"
  | cs rest where "xs = cs @ rest" "\<forall>b \<in> set cs. 128 \<le> unat b" "length cs = n"
  | "\<forall>b \<in> set xs. 128 \<le> unat b" "length xs < n"
proof -
  define cs where "cs = takeWhile (\<lambda>b. 128 \<le> unat b) xs"
  define ds where "ds = dropWhile (\<lambda>b. 128 \<le> unat b) xs"
  have x: "xs = cs @ ds" and c: "\<forall>b \<in> set cs. 128 \<le> unat b"
    by (simp_all add: cs_def ds_def) (auto dest: set_takeWhileD)
  show thesis
  proof (cases "n \<le> length cs")
    case True
    then show thesis using that(2) [of "take n cs" "drop n cs @ ds"] x c by (auto dest: in_set_takeD)
  next
    case n: False
    show thesis
    proof (cases ds)
      case Nil
      then show thesis using that(3) x c n by simp
    next
      case (Cons d rest)
      then have "unat d < 128" unfolding ds_def by (metis hd_dropWhile list.distinct(1) list.sel(1) not_le)
      then show thesis using that(1) [of "cs @ [d]" rest] x c n Cons shape_snoc by simp
    qed
  qed
qed

lemma pb_decode_varint_value:
  assumes "stream_ok s" and "avail s = bs @ rest" and "varint_shape bs" and "length bs \<le> 10"
  shows "pb_decode_varint s = (Some (word_of_nat (le128 bs)), advance (length bs) s)"
  using decode_varint_loop_value [OF assms(3,1,2), of 0 0 0] assms(4) by (simp add: pb_decode_varint_def)

lemma pb_decode_varint_overlong:
  assumes "stream_ok s" and "avail s = cs @ rest" and "\<forall>b \<in> set cs. 128 \<le> unat b" and "length cs = 10"
  shows "pb_decode_varint s = in_error (advance 10 s) ''varint overflow''"
proof -
  obtain r where "decode_varint_loop 0 0 s = decode_varint_loop (word_of_nat 70) r (advance 10 s)"
    using decode_varint_loop_cont [OF assms(3,1,2), of 0 0 0] assms(4) by auto
  also have "\<dots> = in_error (advance 10 s) ''varint overflow''"
    by (subst decode_varint_loop.simps) (simp add: word_le_nat_alt)
  finally show ?thesis by (simp add: pb_decode_varint_def)
qed

lemma pb_decode_varint_short:
  assumes "stream_ok s" and "\<forall>b \<in> set (avail s). 128 \<le> unat b" and "length (avail s) < 10"
  shows "pb_decode_varint s = in_error (advance (bytes_left s) s) ''end-of-stream''"
proof -
  define k where "k = length (avail s)"
  have k: "k = bytes_left s" "k < 10" using length_avail [OF assms(1)] assms(3) by (simp_all add: k_def)
  obtain r where "decode_varint_loop 0 0 s = decode_varint_loop (word_of_nat (7 * k)) r (advance k s)"
    using decode_varint_loop_cont [OF assms(2,1), of "[]" 0 0 0] assms(3) by (auto simp: k_def)
  moreover have "unat (word_of_nat (7 * k) :: u8) = 7 * k" using k(2) by (simp add: unat_word_of_nat_byte del: of_nat_mult)
  then have "\<not> (word_of_nat (7 * k) :: u8) \<ge> 64" using k(2) by (simp add: word_le_nat_alt del: of_nat_mult)
  moreover have "pb_readbyte (advance k s) = in_error (advance k s) ''end-of-stream''"
    by (rule pb_readbyte_empty) (use assms(1) in \<open>simp_all add: k_def\<close>)
  ultimately show ?thesis
    using decode_varint_loop.simps [of "word_of_nat (7 * k)" r "advance k s"]
    by (simp add: pb_decode_varint_def k(1) in_error_def del: of_nat_mult)
qed


section \<open>The 32-bit decoder\<close>

lemma decode_varint32_loop_value:
  assumes "varint_shape bs" and "stream_ok s" and "avail s = bs @ rest" and "unat bitpos = 7 * j" and "j + length bs \<le> 5"
    and "unat result < 2 ^ (7 * j)" and "0 < j"
  shows "decode_varint32_loop bitpos result s =
    (Some (word_of_nat (7 * (j + length bs)), result + word_of_nat (le128 bs * 2 ^ (7 * j)), last bs), advance (length bs) s)"
  using assms
proof (induction bs arbitrary: bitpos result s j)
  case (Cons b bs)
  have j: "7 * j < 32" using Cons.prems(5) by simp
  then have bp: "\<not> bitpos \<ge> 32" using Cons.prems(4) by (simp add: word_le_nat_alt)
  have rb: "pb_readbyte s = (Some b, advance 1 s)" using pb_readbyte_avail [OF Cons.prems(2)] Cons.prems(3) by simp
  define r1 where "r1 = result OR push_bit (7 * j) (ucast (b AND 0x7F))"
  have r1: "r1 = result + word_of_nat (unat b mod 128 * 2 ^ (7 * j))"
    using or_group [OF Cons.prems(6), of "ucast (b AND 0x7F)"] unfolding r1_def ucast_low push_word_of_nat .
  have b7: "unat (bitpos + 7) = 7 * (j + 1)" using Cons.prems(4) j by (simp add: wrap_add)
  have step: "decode_varint32_loop bitpos result s =
      (if b AND 0x80 \<noteq> 0 then decode_varint32_loop (bitpos + 7) r1 (advance 1 s) else (Some (bitpos + 7, r1, b), advance 1 s))"
    using bp by (subst decode_varint32_loop.simps) (simp add: rb Let_def r1_def Cons.prems(4))
  show ?case
  proof (cases "bs = []")
    case True
    then have "\<not> 128 \<le> unat b" using Cons.prems(1) by simp
    moreover have "bitpos + 7 = word_of_nat (7 * (j + 1))" using b7 by (rule word_of_nat_eqI)
    ultimately show ?thesis using True r1 unfolding step by (simp add: group_low_bits not_le del: of_nat_mult)
  next
    case False
    then have s: "128 \<le> unat b" "varint_shape bs" using Cons.prems(1) by (simp_all add: shape_Cons)
    have j9: "j + 1 + length bs \<le> 5" "j \<le> 3" using Cons.prems(5) False by (cases bs; simp)+
    have av: "avail (advance 1 s) = bs @ rest" using Cons.prems(3) by simp
    have r7: "unat r1 < 2 ^ (7 * (j + 1))"
    proof -
      have k: "2 ^ (7 * (j + 1)) \<le> (2 :: nat) ^ 28" using j9(2) by (intro power_increasing) simp_all
      have "unat b mod 128 \<le> 127" using mod_less_divisor [of 128 "unat b"] by linarith
      then have "unat b mod 128 * 2 ^ (7 * j) \<le> 127 * 2 ^ (7 * j)" by (rule mult_right_mono) simp
      then have "unat result + unat b mod 128 * 2 ^ (7 * j) < 2 ^ (7 * j) + 127 * 2 ^ (7 * j)" using Cons.prems(6) by linarith
      moreover have "2 ^ (7 * j) + 127 * 2 ^ (7 * j) = (2 :: nat) ^ (7 * (j + 1))" by (simp add: power_add)
      ultimately have lt: "unat result + unat b mod 128 * 2 ^ (7 * j) < 2 ^ (7 * (j + 1))" by simp
      have "unat (word_of_nat (unat b mod 128 * 2 ^ (7 * j)) :: u32) = unat b mod 128 * 2 ^ (7 * j)"
        using lt k by (intro unat_word_of_nat) simp
      then have "unat r1 = unat result + unat b mod 128 * 2 ^ (7 * j)" unfolding r1 using lt k by (simp only: wrap_add) simp
      then show ?thesis using lt by simp
    qed
    have "decode_varint32_loop (bitpos + 7) r1 (advance 1 s) =
        (Some (word_of_nat (7 * (j + 1 + length bs)), r1 + word_of_nat (le128 bs * 2 ^ (7 * (j + 1))), last bs),
         advance (length bs) (advance 1 s))"
      by (rule Cons.IH [OF s(2) advance_ok [OF Cons.prems(2)] av b7 j9(1) r7]) simp
    moreover have "r1 + word_of_nat (le128 bs * 2 ^ (7 * (j + 1))) = result + word_of_nat (le128 (b # bs) * 2 ^ (7 * j))"
      unfolding r1 by (simp add: power_add algebra_simps)
    ultimately show ?thesis using s(1) False unfolding step by (simp add: group_low_bits del: of_nat_mult)
  qed
qed simp

text \<open>The last of five groups has more than its four low bits exactly when the number exceeds 32 bits.\<close>

lemma le128_snoc: "le128 (cs @ [c]) = le128 cs + unat c mod 128 * 128 ^ length cs"
  by (induction cs) (simp_all add: algebra_simps)

lemma le128_less: "le128 cs < 128 ^ length cs"
proof (induction cs)
  case (Cons b cs)
  then have "unat b mod 128 + 128 * le128 cs < 128 + 128 * (128 ^ length cs - 1)"
    using mod_less_divisor [of 128 "unat b"] by (intro add_less_le_mono) (simp_all add: mult_le_mono)
  also have "\<dots> = 128 ^ length (b # cs)" by (simp add: diff_mult_distrib2)
  finally show ?case by simp
qed simp

lemma high_bits: "b AND 0x70 \<noteq> 0 \<longleftrightarrow> 16 \<le> unat b mod 128" for b :: u8
proof -
  have z: "b AND 0x70 = 0 \<longleftrightarrow> \<not> bit b 4 \<and> \<not> bit b 5 \<and> \<not> bit b 6"
  proof -
    have m: "(0x70 :: u8) = 2 ^ 4 OR 2 ^ 5 OR 2 ^ 6" by simp
    have "b AND 0x70 = (b AND 2 ^ 4) OR (b AND 2 ^ 5) OR (b AND 2 ^ 6)" unfolding m by (simp only: bit.conj_disj_distrib)
    then show ?thesis by (simp only: or_eq_0_iff and_exp_eq_0_iff_not_bit simp_thms)
  qed
  have d: "drop_bit 4 (take_bit 7 b) = 0 \<longleftrightarrow> \<not> bit b 4 \<and> \<not> bit b 5 \<and> \<not> bit b 6"
  proof
    assume "drop_bit 4 (take_bit 7 b) = 0"
    then have "\<not> bit (drop_bit 4 (take_bit 7 b)) n" for n by simp
    from this [of 0] this [of 1] this [of 2] show "\<not> bit b 4 \<and> \<not> bit b 5 \<and> \<not> bit b 6" by (simp add: bit_simps)
  next
    assume a: "\<not> bit b 4 \<and> \<not> bit b 5 \<and> \<not> bit b 6"
    show "drop_bit 4 (take_bit 7 b) = 0"
    proof (rule bit_eqI)
      fix n :: nat
      have "n < 3 \<Longrightarrow> n = 0 \<or> n = 1 \<or> n = 2" by auto
      then show "bit (drop_bit 4 (take_bit 7 b)) n \<longleftrightarrow> bit 0 n" using a by (cases "n < 3") (auto simp: bit_simps)
    qed
  qed
  have "drop_bit 4 (take_bit 7 b) = 0 \<longleftrightarrow> unat b mod 128 < 16"
    unfolding drop_bit_eq_0_iff unat_take_bit by simp
  then show ?thesis using z d by (auto simp: not_less)
qed

lemma pb_decode_varint32_eof_value:
  assumes "stream_ok s" and "avail s = bs @ rest" and "varint_shape bs" and "length bs \<le> 5" and "le128 bs < 2 ^ 32"
  shows "pb_decode_varint32_eof s = (Some (word_of_nat (le128 bs)), advance (length bs) s, False)"
proof (cases bs)
  case (Cons b cs)
  have rb: "pb_readbyte s = (Some b, advance 1 s)" using pb_readbyte_avail [OF assms(1)] assms(2) Cons by simp
  show ?thesis
  proof (cases "cs = []")
    case True
    then have "unat b < 128" using assms(3) Cons by simp
    then show ?thesis using rb Cons True group_low_bits(2) [of b]
      by (simp add: pb_decode_varint32_eof_def word_of_nat_unat)
  next
    case False
    then have s: "128 \<le> unat b" "varint_shape cs" using assms(3) Cons by (simp_all add: shape_Cons)
    define r0 where "r0 = (ucast (b AND 0x7F) :: u32)"
    have r0: "r0 = word_of_nat (unat b mod 128)" unfolding r0_def by (rule ucast_low)
    have u0: "unat r0 = unat b mod 128"
      unfolding r0 by (rule unat_word_of_nat) (rule less_trans [of _ 128], simp_all)
    have av: "avail (advance 1 s) = cs @ rest" using assms(2) Cons by simp
    have l: "decode_varint32_loop 7 r0 (advance 1 s) =
        (Some (word_of_nat (7 * (1 + length cs)), r0 + word_of_nat (le128 cs * 2 ^ (7 * 1)), last cs), advance (length cs) (advance 1 s))"
      by (rule decode_varint32_loop_value [OF s(2) advance_ok [OF assms(1)] av]) (use assms(4) Cons u0 in simp_all)
    have e: "r0 + word_of_nat (le128 cs * 2 ^ (7 * 1)) = word_of_nat (le128 bs)"
      unfolding r0 Cons by (simp add: algebra_simps)
    have n: "\<not> ((word_of_nat (7 * (1 + length cs)) :: u8) = 35 \<and> last cs AND 0x70 \<noteq> 0)"
    proof
      assume a: "(word_of_nat (7 * (1 + length cs)) :: u8) = 35 \<and> last cs AND 0x70 \<noteq> 0"
      have "7 * (1 + length cs) < 256" using assms(4) Cons by simp
      then have "7 * (1 + length cs) = unat (word_of_nat (7 * (1 + length cs)) :: u8)"
        by (simp only: unat_word_of_nat_byte mod_less)
      also have "\<dots> = 35" using a by simp
      finally have l: "length cs = 4" by simp
      obtain ds d where ds: "cs = ds @ [d]" using False by (cases cs rule: rev_cases) auto
      have "16 \<le> unat d mod 128" using a ds by (simp add: high_bits)
      then have "16 * 128 ^ 4 \<le> unat d mod 128 * 128 ^ length (b # ds)"
        using l ds by simp
      also have "\<dots> \<le> le128 bs" using Cons ds by (simp add: le128_snoc algebra_simps)
      finally show False using assms(5) by simp
    qed
    have c: "\<not> b AND 0x80 = 0" using group_low_bits(2) [of b] s(1) by simp
    show ?thesis
      unfolding pb_decode_varint32_eof_def rb prod.case option.case r0_def [symmetric] l e if_not_P [OF n] if_not_P [OF c]
      using Cons by simp
  qed
qed (use assms(3) in simp)


section \<open>Fields on the wire\<close>

text \<open>The values of the four wire types, what the encoders write for them, and how a client reads a field back.\<close>

datatype wire_item = Varint u64 | Fixed64 u64 | Bytes "u8 list" | Fixed32 u32

fun item_type :: "wire_item \<Rightarrow> pb_wire_type" where
  "item_type (Varint _) = PB_WT_VARINT"
| "item_type (Fixed64 _) = PB_WT_64BIT"
| "item_type (Bytes _) = PB_WT_STRING"
| "item_type (Fixed32 _) = PB_WT_32BIT"

fun write_item :: "pb_ostream \<Rightarrow> wire_item \<Rightarrow> bool \<times> pb_ostream" where
  "write_item s (Varint v) = pb_encode_varint s v"
| "write_item s (Fixed64 v) = pb_encode_fixed64 s v"
| "write_item s (Bytes bs) = pb_encode_string s bs"
| "write_item s (Fixed32 v) = pb_encode_fixed32 s v"

fun write_fields :: "pb_ostream \<Rightarrow> (u32 \<times> wire_item) list \<Rightarrow> bool \<times> pb_ostream" where
  "write_fields s [] = (True, s)"
| "write_fields s ((tag, item) # fs) =
     (case pb_encode_tag s (item_type item) tag of
        (False, s) \<Rightarrow> (False, s)
      | (True, s) \<Rightarrow> (case write_item s item of (False, s) \<Rightarrow> (False, s) | (True, s) \<Rightarrow> write_fields s fs))"

definition read_bytes :: "pb_istream \<Rightarrow> wire_item option \<times> pb_istream" where
  "read_bytes s =
     (case pb_make_string_substream s of
        (None, s) \<Rightarrow> (None, s)
      | (Some sub, s) \<Rightarrow>
          (case pb_read sub (bytes_left sub) of
             (None, sub) \<Rightarrow> (None, s)
           | (Some bs, sub) \<Rightarrow>
               (case pb_close_string_substream s sub of (False, s) \<Rightarrow> (None, s) | (True, s) \<Rightarrow> (Some (Bytes bs), s))))"

definition read_item :: "pb_istream \<Rightarrow> pb_wire_type \<Rightarrow> wire_item option \<times> pb_istream" where
  "read_item s wt =
     (case wt of
        PB_WT_VARINT \<Rightarrow> (case pb_decode_varint s of (r, s) \<Rightarrow> (map_option Varint r, s))
      | PB_WT_64BIT \<Rightarrow> (case pb_decode_fixed64 s of (r, s) \<Rightarrow> (map_option Fixed64 r, s))
      | PB_WT_STRING \<Rightarrow> read_bytes s
      | PB_WT_32BIT \<Rightarrow> (case pb_decode_fixed32 s of (r, s) \<Rightarrow> (map_option Fixed32 r, s))
      | PB_WT_OTHER _ \<Rightarrow> (None, s))"

fun item_bytes :: "wire_item \<Rightarrow> u8 list" where
  "item_bytes (Varint v) = varint_bytes (unat v)"
| "item_bytes (Fixed64 v) = le_image 8 v"
| "item_bytes (Bytes bs) = varint_bytes (length bs) @ bs"
| "item_bytes (Fixed32 v) = le_image 4 v"

fun item_ok :: "wire_item \<Rightarrow> bool" where
  "item_ok (Bytes bs) \<longleftrightarrow> length bs < 2 ^ 32"
| "item_ok _ \<longleftrightarrow> True"

definition tag_bytes :: "u32 \<Rightarrow> wire_item \<Rightarrow> u8 list" where
  "tag_bytes tag item = varint_bytes (unat tag * 8 + wire_value (item_type item))"

definition fields_bytes :: "(u32 \<times> wire_item) list \<Rightarrow> u8 list" where
  "fields_bytes fs = concat (map (\<lambda>(tag, item). tag_bytes tag item @ item_bytes item) fs)"

definition emit :: "u8 list \<Rightarrow> pb_ostream \<Rightarrow> pb_ostream" where
  "emit bs s = s\<lparr>out_buf := out_buf s @ (if has_callback s then bs else []), bytes_written := (bytes_written s + length bs) mod size_mod\<rparr>"

definition room :: "pb_ostream \<Rightarrow> nat \<Rightarrow> bool" where
  "room s n \<longleftrightarrow> bytes_written s + n < size_mod \<and> (has_callback s \<longrightarrow> bytes_written s + n \<le> max_size s)"

lemma pb_write_room: "room s (length bs) \<Longrightarrow> pb_write s bs = (True, emit bs s)"
  by (auto simp: pb_write_def room_def emit_def buf_write_def Let_def)

lemma room_emit: "room s (m + length bs) \<Longrightarrow> room (emit bs s) m"
  by (auto simp: room_def emit_def)

lemma emit_emit: "emit ys (emit xs s) = emit (xs @ ys) s"
  by (simp add: emit_def mod_simps add.assoc)

lemma room_mono: "room s n \<Longrightarrow> m \<le> n \<Longrightarrow> room s m"
  by (auto simp: room_def)

text \<open>A writer of \<open>bs\<close>: it writes them when there is room, and fails when there is none.\<close>

definition out_ok :: "pb_ostream \<Rightarrow> bool" where
  "out_ok s \<longleftrightarrow> bytes_written s < size_mod \<and> (has_callback s \<longrightarrow> bytes_written s \<le> max_size s)"

definition writer :: "(pb_ostream \<Rightarrow> bool \<times> pb_ostream) \<Rightarrow> u8 list \<Rightarrow> bool" where
  "writer f bs \<longleftrightarrow> (\<forall>s. out_ok s \<longrightarrow> bytes_written s + length bs < size_mod \<longrightarrow>
     (if room s (length bs) then f s = (True, emit bs s) else \<not> fst (f s)))"

lemma out_ok_emit: "room s (length bs) \<Longrightarrow> out_ok (emit bs s)"
  by (auto simp: room_def out_ok_def emit_def)

lemma writer_pb_write: "writer (\<lambda>s. pb_write s bs) bs"
  unfolding writer_def
proof (intro allI impI)
  fix s :: pb_ostream
  assume ok: "out_ok s" and a: "bytes_written s + length bs < size_mod"
  show "if room s (length bs) then pb_write s bs = (True, emit bs s) else \<not> fst (pb_write s bs)"
  proof (cases "room s (length bs)")
    case True
    then show ?thesis by (simp add: pb_write_room)
  next
    case False
    then have f: "has_callback s" "max_size s < bytes_written s + length bs" using a by (auto simp: room_def)
    moreover have "bs \<noteq> []" using f ok by (auto simp: out_ok_def)
    ultimately show ?thesis using False a by (simp add: pb_write_def Let_def out_error_def)
  qed
qed

lemma writer_seq:
  assumes "writer f xs" and "writer g ys"
  shows "writer (\<lambda>s. case f s of (False, s) \<Rightarrow> (False, s) | (True, s) \<Rightarrow> g s) (xs @ ys)"
  unfolding writer_def
proof (intro allI impI)
  fix s :: pb_ostream
  assume ok: "out_ok s" and n: "bytes_written s + length (xs @ ys) < size_mod"
  have f: "if room s (length xs) then f s = (True, emit xs s) else \<not> fst (f s)"
    using assms(1) ok n by (simp add: writer_def)
  show "if room s (length (xs @ ys)) then (case f s of (False, s) \<Rightarrow> (False, s) | (True, s) \<Rightarrow> g s) = (True, emit (xs @ ys) s)
    else \<not> fst (case f s of (False, s) \<Rightarrow> (False, s) | (True, s) \<Rightarrow> g s)"
  proof (cases "room s (length xs)")
    case False
    moreover from False have "\<not> room s (length (xs @ ys))" using room_mono by fastforce
    ultimately show ?thesis using f by (cases "f s") auto
  next
    case True
    have w: "bytes_written (emit xs s) + length ys < size_mod" using n by (simp add: emit_def)
    have "room s (length (xs @ ys)) \<longleftrightarrow> room (emit xs s) (length ys)" using n by (auto simp: room_def emit_def add.assoc)
    moreover have "if room (emit xs s) (length ys) then g (emit xs s) = (True, emit ys (emit xs s)) else \<not> fst (g (emit xs s))"
      using assms(2) out_ok_emit [OF True] w by (simp add: writer_def)
    ultimately show ?thesis using f True by (simp add: emit_emit split: if_splits)
  qed
qed

lemma ucast_and_ff: "ucast (x AND 0xFF) = (ucast x :: u8)" for x :: "'a::len word"
proof -
  have m: "(0xFF :: 'a word) = mask 8" by (simp add: mask_eq_exp_minus_1)
  show ?thesis unfolding m by (rule bit_word_eqI) (auto simp: bit_simps dest: bit_imp_le_length)
qed

lemma byte_of: "ucast (drop_bit k x AND 0xFF) = (word_of_nat (unat x div 2 ^ k) :: u8)" "ucast (x AND 0xFF) = (word_of_nat (unat x) :: u8)"
  for x :: "'a::len word"
  using word_of_nat_unat [of "drop_bit k x", where 'b = 8] word_of_nat_unat [of x, where 'b = 8]
  by (simp_all only: ucast_and_ff unat_drop_bit)

lemma upt_4_8: "[0..<4] = [0, 1, 2, 3]" "[0..<8] = [0, 1, 2, 3, 4, 5, 6, 7]"
  by (simp_all add: upt_conv_Cons)

lemma fixed_bytes:
  "pb_encode_fixed32 s v = pb_write s (le_image 4 v)"
  "pb_encode_fixed64 s w = pb_write s (le_image 8 w)"
  unfolding pb_encode_fixed32_def pb_encode_fixed64_def le_image_def rev_be_bytes upt_4_8 byte_of(1) unfolding byte_of(2) by simp_all

lemma or_bytes:
  fixes r :: "'a::len word" and b :: u8
  assumes "unat r < 2 ^ k" and "k + 8 \<le> LENGTH('a)"
  shows "unat (r OR push_bit k (ucast b)) = unat r + unat b * 2 ^ k" and "unat r + unat b * 2 ^ k < 2 ^ (k + 8)"
proof -
  have u: "unat (ucast b :: 'a word) = unat b" by (rule unat_ucast_up) (use assms(2) in simp)
  have "unat b * 2 ^ k \<le> 255 * 2 ^ k" using unat_byte_lt [of b] by (intro mult_right_mono) simp_all
  then have "unat r + unat b * 2 ^ k < 2 ^ k + 255 * 2 ^ k" using assms(1) by linarith
  moreover have "2 ^ k + 255 * 2 ^ k = (2 :: nat) ^ (k + 8)" by (simp add: power_add)
  ultimately show lt: "unat r + unat b * 2 ^ k < 2 ^ (k + 8)" by simp
  moreover have "(2 :: nat) ^ (k + 8) \<le> 2 ^ LENGTH('a)" using assms(2) by (intro power_increasing) simp_all
  ultimately have "unat (ucast b :: 'a word) * 2 ^ k + unat r < 2 ^ LENGTH('a)" unfolding u by linarith
  from push_or_arith [OF assms(1) this] show "unat (r OR push_bit k (ucast b)) = unat r + unat b * 2 ^ k"
    by (simp add: u or.commute)
qed


fun or_from :: "nat \<Rightarrow> u8 list \<Rightarrow> 'a::len word" where
  "or_from k [] = 0"
| "or_from k (b # bs) = push_bit k (ucast b) OR or_from (k + 8) bs"

lemma or_from:
  fixes r :: "'a::len word"
  assumes "unat r < 2 ^ k" and "k + 8 * length bs \<le> LENGTH('a)"
  shows "unat (r OR or_from k bs) = unat r + 2 ^ k * be_nat (rev bs)"
  using assms
proof (induction bs arbitrary: r k)
  case (Cons b bs)
  define r1 where "r1 = r OR push_bit k (ucast b)"
  have k: "k + 8 \<le> LENGTH('a)" using Cons.prems(2) by simp
  note r1 = or_bytes [OF Cons.prems(1) k, of b, folded r1_def]
  have "unat (r1 OR or_from (k + 8) bs) = unat r1 + 2 ^ (k + 8) * be_nat (rev bs)"
    by (rule Cons.IH) (use r1 Cons.prems(2) in simp_all)
  then show ?case using r1(1) by (simp add: r1_def or.assoc power_add algebra_simps)
qed simp

lemma le_value_4:
  assumes "length bs = 4"
  shows "(ucast (bs ! 0) OR push_bit 8 (ucast (bs ! 1)) OR push_bit 16 (ucast (bs ! 2)) OR push_bit 24 (ucast (bs ! 3)) :: u32) = le_value 4 bs"
proof -
  obtain a b c d where bs: "bs = [a, b, c, d]" using assms by (auto simp: length_Suc_conv eval_nat_numeral)
  have "(0 :: u32) OR or_from 0 bs = word_of_nat (be_nat (rev bs))"
    by (rule word_of_nat_eqI) (use or_from [of "0 :: u32" 0 bs] in \<open>simp add: bs\<close>)
  then show ?thesis by (simp add: bs le_value_def)
qed

lemma le_value_8:
  assumes "length bs = 8"
  shows "(ucast (bs ! 0) OR push_bit 8 (ucast (bs ! 1)) OR push_bit 16 (ucast (bs ! 2)) OR push_bit 24 (ucast (bs ! 3)) OR
    push_bit 32 (ucast (bs ! 4)) OR push_bit 40 (ucast (bs ! 5)) OR push_bit 48 (ucast (bs ! 6)) OR push_bit 56 (ucast (bs ! 7)) :: u64) =
    le_value 8 bs"
proof -
  obtain a b c d e f g h where bs: "bs = [a, b, c, d, e, f, g, h]" using assms by (auto simp: length_Suc_conv eval_nat_numeral)
  have "(0 :: u64) OR or_from 0 bs = word_of_nat (be_nat (rev bs))"
    by (rule word_of_nat_eqI) (use or_from [of "0 :: u64" 0 bs] in \<open>simp add: bs\<close>)
  then show ?thesis by (simp add: bs le_value_def)
qed

section \<open>Writing and reading fields\<close>


lemma wire_value_lt: "wire_value (item_type item) < 8"
  by (cases item) simp_all

lemma tag_word:
  "unat (push_bit 3 (ucast (tag :: u32)) OR word_of_nat (wire_value (item_type item)) :: u64) = unat tag * 8 + wire_value (item_type item)"
proof -
  have w: "unat (word_of_nat (wire_value (item_type item)) :: u64) = wire_value (item_type item)"
    by (rule unat_word_of_nat) (rule less_trans [OF wire_value_lt], simp)
  show ?thesis
    using push_or_arith [of "word_of_nat (wire_value (item_type item)) :: u64" 3 "ucast tag"] wire_value_lt [of item] unat_u32_lt [of tag]
    by (simp add: w unat_ucast_up)
qed

lemma writer_item: "item_ok item \<Longrightarrow> writer (\<lambda>s. write_item s item) (item_bytes item)"
proof (cases item)
  case (Bytes bs)
  assume "item_ok item"
  then have "unat (word_of_nat (length bs) :: u64) = length bs" using Bytes by (intro unat_word_of_nat) simp
  then have e: "write_item s (Bytes bs) = (case pb_write s (varint_bytes (length bs)) of (False, s) \<Rightarrow> (False, s) | (True, s) \<Rightarrow> pb_write s bs)" for s
    by (simp add: pb_encode_string_def pb_encode_varint)
  show ?thesis unfolding Bytes e item_bytes.simps by (rule writer_seq [OF writer_pb_write writer_pb_write])
qed (simp_all add: pb_encode_varint fixed_bytes writer_pb_write)

lemma writer_tag: "writer (\<lambda>s. pb_encode_tag s (item_type item) tag) (tag_bytes tag item)"
  unfolding pb_encode_tag_def Let_def pb_encode_varint tag_word tag_bytes_def by (rule writer_pb_write)

lemma writer_fields: "\<forall>(tag, item) \<in> set fs. item_ok item \<Longrightarrow> writer (\<lambda>s. write_fields s fs) (fields_bytes fs)"
proof (induction fs)
  case Nil
  then show ?case by (auto simp: writer_def fields_bytes_def emit_def out_ok_def room_def)
next
  case (Cons f fs)
  obtain tag item where f: "f = (tag, item)" by (cases f)
  have "writer (\<lambda>s. case pb_encode_tag s (item_type item) tag of (False, s) \<Rightarrow> (False, s)
      | (True, s) \<Rightarrow> (case write_item s item of (False, s) \<Rightarrow> (False, s) | (True, s) \<Rightarrow> write_fields s fs))
    (tag_bytes tag item @ item_bytes item @ fields_bytes fs)"
    by (intro writer_seq writer_tag writer_item Cons.IH) (use Cons.prems f in auto)
  then show ?case by (simp add: f fields_bytes_def)
qed

lemma avail_pb_read:
  assumes "stream_ok s" and "avail s = bs @ rest" and "n = length bs"
  shows "pb_read s n = (Some bs, advance n s)"
  using pb_read_avail [OF assms(1,2)] assms(3) by simp

lemma pb_skip_varint_shape:
  "varint_shape bs \<Longrightarrow> stream_ok s \<Longrightarrow> avail s = bs @ rest \<Longrightarrow> pb_skip_varint s = (True, advance (length bs) s)"
proof (induction bs arbitrary: s)
  case (Cons b bs)
  have r: "pb_read s 1 = (Some [b], advance 1 s)" using avail_pb_read [OF Cons.prems(2), of "[b]"] Cons.prems(3) by simp
  show ?case
  proof (cases "bs = []")
    case True
    then show ?thesis using Cons.prems(1) group_low_bits(2) [of b] by (subst pb_skip_varint.simps) (simp add: r [unfolded One_nat_def])
  next
    case False
    then have "128 \<le> unat b" "varint_shape bs" using Cons.prems(1) by (simp_all add: shape_Cons)
    then show ?thesis
      using Cons.IH [of "advance 1 s"] Cons.prems(2,3) group_low_bits(2) [of b] by (subst pb_skip_varint.simps) (simp add: r [unfolded One_nat_def])
  qed
qed simp

lemma pb_decode_varint32_bytes:
  assumes "stream_ok s" and "avail s = varint_bytes n @ rest" and "n < 2 ^ 32"
  shows "pb_decode_varint32_eof s = (Some (word_of_nat n), advance (length (varint_bytes n)) s, False)"
    and "pb_decode_varint32 s = (Some (word_of_nat n), advance (length (varint_bytes n)) s)"
proof -
  have "length (varint_bytes n) \<le> 5" by (rule length_varint_bytes) (use assms(3) in simp_all)
  then show e: "pb_decode_varint32_eof s = (Some (word_of_nat n), advance (length (varint_bytes n)) s, False)"
    using pb_decode_varint32_eof_value [OF assms(1,2) varint_bytes_props(1)] assms(3) by (simp add: varint_bytes_props(2))
  show "pb_decode_varint32 s = (Some (word_of_nat n), advance (length (varint_bytes n)) s)"
    by (simp add: pb_decode_varint32_def e)
qed

lemma pb_make_string_substream_bytes:
  assumes "stream_ok s" and "avail s = varint_bytes (length bs) @ bs @ rest" and "length bs < 2 ^ 32"
  defines "s1 \<equiv> advance (length (varint_bytes (length bs))) s"
  shows "pb_make_string_substream s = (Some (s1\<lparr>bytes_left := length bs\<rparr>), s1\<lparr>bytes_left := bytes_left s1 - length bs\<rparr>)"
    and "length bs \<le> bytes_left s1"
proof -
  have "avail s1 = bs @ rest" using assms(2) by (simp add: s1_def)
  moreover have "stream_ok s1" using assms(1) by (simp add: s1_def)
  ultimately show l: "length bs \<le> bytes_left s1" using length_avail [of s1] by simp
  have "unat (word_of_nat (length bs) :: u32) = length bs" using assms(3) by (intro unat_word_of_nat) simp
  then show "pb_make_string_substream s = (Some (s1\<lparr>bytes_left := length bs\<rparr>), s1\<lparr>bytes_left := bytes_left s1 - length bs\<rparr>)"
    using l pb_decode_varint32_bytes(2) [OF assms(1,2,3)] by (simp add: pb_make_string_substream_def Let_def s1_def)
qed

text \<open>Every field is read back, and skipped, by its wire type.\<close>

lemma read_item:
  assumes "item_ok item" and "stream_ok s" and "avail s = item_bytes item @ rest"
  shows "read_item s (item_type item) = (Some item, advance (length (item_bytes item)) s)"
    and "pb_skip_field s (item_type item) = (True, advance (length (item_bytes item)) s)"
proof -
  have "read_item s (item_type item) = (Some item, advance (length (item_bytes item)) s) \<and>
    pb_skip_field s (item_type item) = (True, advance (length (item_bytes item)) s)"
  proof (cases item)
    case (Varint v)
    have a: "avail s = varint_bytes (unat v) @ rest" using assms(3) Varint by simp
    show ?thesis
      using pb_decode_varint_value [OF assms(2) a varint_bytes_props(1) varint_bytes_64]
        pb_skip_varint_shape [OF varint_bytes_props(1) assms(2) a]
      by (simp add: Varint read_item_def pb_skip_field_def varint_bytes_props(2))
  next
    case (Fixed64 v)
    have r: "pb_read s 8 = (Some (le_image 8 v), advance 8 s)" by (rule avail_pb_read [OF assms(2)]) (use assms(3) Fixed64 in simp_all)
    have l: "length (le_image 8 v) = 8" by simp
    have "le_value 8 (le_image 8 v) = v" using le_value_image [of 8 v "[]"] by simp
    then show ?thesis
      unfolding Fixed64 item_type.simps read_item_def pb_skip_field_def pb_decode_fixed64_def pb_skip_bytes_def
        pb_wire_type.case r prod.case option.case le_value_8 [OF l] by simp
  next
    case (Fixed32 v)
    have r: "pb_read s 4 = (Some (le_image 4 v), advance 4 s)" by (rule avail_pb_read [OF assms(2)]) (use assms(3) Fixed32 in simp_all)
    have l: "length (le_image 4 v) = 4" by simp
    have "le_value 4 (le_image 4 v) = v" using le_value_image [of 4 v "[]"] by simp
    then show ?thesis
      unfolding Fixed32 item_type.simps read_item_def pb_skip_field_def pb_decode_fixed32_def pb_skip_bytes_def
        pb_wire_type.case r prod.case option.case le_value_4 [OF l] by simp
  next
    case (Bytes bs)
    have n: "length bs < 2 ^ 32" using assms(1) Bytes by simp
    have a: "avail s = varint_bytes (length bs) @ bs @ rest" using assms(3) Bytes by simp
    define s1 where "s1 = advance (length (varint_bytes (length bs))) s"
    note sub = pb_make_string_substream_bytes [OF assms(2) a n, folded s1_def]
    have s1: "stream_ok s1" "avail s1 = bs @ rest" using assms(2) a by (simp_all add: s1_def)
    define sb where "sb = s1\<lparr>bytes_left := length bs\<rparr>"
    have sb: "stream_ok sb" "bytes_left sb = length bs"
      using s1(1) sub(2) by (auto simp: sb_def stream_ok_def)
    have "take (length bs) (avail s1) = bs" using s1(2) by simp
    then have avs: "avail sb = bs @ []" using sub(2) by (simp add: avail_def sb_def min_def)
    have r: "pb_read sb (length bs) = (Some bs, advance (length bs) sb)" by (rule avail_pb_read [OF sb(1) avs refl])
    have "pb_close_string_substream (s1\<lparr>bytes_left := bytes_left s1 - length bs\<rparr>) (advance (length bs) sb) = (True, advance (length bs) s1)"
      by (simp add: pb_close_string_substream_def advance_def sb_def)
    then have "read_bytes s = (Some (Bytes bs), advance (length bs) s1)"
      using r sb(2) by (simp add: read_bytes_def sub(1) flip: sb_def)
    moreover have "unat (word_of_nat (length bs) :: u32) = length bs" using n by (intro unat_word_of_nat) simp
    then have "pb_skip_string s = (True, advance (length bs) s1)"
      using pb_decode_varint32_bytes(2) [OF assms(2) a n] avail_pb_read [OF s1 refl]
      by (simp add: pb_skip_string_def pb_skip_bytes_def flip: s1_def)
    ultimately show ?thesis
      by (simp add: Bytes read_item_def pb_skip_field_def s1_def)
  qed
  then show "read_item s (item_type item) = (Some item, advance (length (item_bytes item)) s)"
    "pb_skip_field s (item_type item) = (True, advance (length (item_bytes item)) s)" by blast+
qed

lemma pb_decode_tag_bytes:
  assumes "stream_ok s" and "avail s = tag_bytes tag item @ rest" and "tag \<noteq> 0" and "unat tag < 2 ^ 29"
  shows "pb_decode_tag s = (Some (item_type item, tag), advance (length (tag_bytes tag item)) s, False)"
proof -
  define n where "n = unat tag * 8 + wire_value (item_type item)"
  have n: "n < 2 ^ 32" "n \<noteq> 0" using assms(3,4) wire_value_lt [of item] by (auto simp: n_def word_unat_eq_iff)
  have u: "unat (word_of_nat n :: u32) = n" using n(1) by (intro unat_word_of_nat) simp
  have d: "pb_decode_varint32_eof s = (Some (word_of_nat n), advance (length (tag_bytes tag item)) s, False)"
    using pb_decode_varint32_bytes(1) [OF assms(1) _ n(1)] assms(2) by (simp add: tag_bytes_def n_def)
  have z: "(word_of_nat n :: u32) \<noteq> 0" using u n(2) by (metis unsigned_0)
  have "drop_bit 3 (word_of_nat n :: u32) = tag"
    using wire_value_lt [of item] by (simp add: word_unat_eq_iff unat_drop_bit u) (simp add: n_def)
  moreover have "unat ((word_of_nat n :: u32) AND 7) = wire_value (item_type item)"
  proof -
    have m: "(7 :: u32) = mask 3" by (simp add: mask_eq_exp_minus_1)
    have "unat ((word_of_nat n :: u32) AND 7) = n mod 8"
      unfolding m take_bit_eq_mask [symmetric] unat_take_bit u by simp
    then show ?thesis using wire_value_lt [of item] by (simp add: n_def)
  qed
  moreover have "wire_type (wire_value (item_type item)) = item_type item" by (cases item) (simp_all add: wire_type_def)
  ultimately show ?thesis using z by (simp add: pb_decode_tag_def d)
qed


fun read_fields :: "nat \<Rightarrow> pb_istream \<Rightarrow> (u32 \<times> wire_item) list option \<times> pb_istream" where
  "read_fields 0 s = (Some [], s)"
| "read_fields (Suc n) s =
     (case pb_decode_tag s of
        (None, s, _) \<Rightarrow> (None, s)
      | (Some (wt, tag), s, _) \<Rightarrow>
          (case read_item s wt of
             (None, s) \<Rightarrow> (None, s)
           | (Some item, s) \<Rightarrow> (case read_fields n s of (r, s) \<Rightarrow> (map_option (\<lambda>fs. (tag, item) # fs) r, s))))"

fun skip_fields :: "nat \<Rightarrow> pb_istream \<Rightarrow> bool \<times> pb_istream" where
  "skip_fields 0 s = (True, s)"
| "skip_fields (Suc n) s =
     (case pb_decode_tag s of
        (None, s, _) \<Rightarrow> (False, s)
      | (Some (wt, tag), s, _) \<Rightarrow> (case pb_skip_field s wt of (False, s) \<Rightarrow> (False, s) | (True, s) \<Rightarrow> skip_fields n s))"

definition field_ok :: "u32 \<times> wire_item \<Rightarrow> bool" where
  "field_ok f \<longleftrightarrow> fst f \<noteq> 0 \<and> unat (fst f) < 2 ^ 29 \<and> item_ok (snd f)"

lemma read_fields_bytes:
  "\<forall>f \<in> set fs. field_ok f \<Longrightarrow> stream_ok s \<Longrightarrow> avail s = fields_bytes fs @ rest \<Longrightarrow>
     read_fields (length fs) s = (Some fs, advance (length (fields_bytes fs)) s) \<and>
     skip_fields (length fs) s = (True, advance (length (fields_bytes fs)) s)"
proof (induction fs arbitrary: s)
  case Nil
  then show ?case by (simp add: fields_bytes_def)
next
  case (Cons f fs)
  obtain tag item where f: "f = (tag, item)" by (cases f)
  have ok: "tag \<noteq> 0" "unat tag < 2 ^ 29" "item_ok item" using Cons.prems(1) f by (simp_all add: field_ok_def)
  have a: "avail s = tag_bytes tag item @ item_bytes item @ fields_bytes fs @ rest"
    using Cons.prems(3) f by (simp add: fields_bytes_def)
  define s1 where "s1 = advance (length (tag_bytes tag item)) s"
  define s2 where "s2 = advance (length (item_bytes item)) s1"
  have t: "pb_decode_tag s = (Some (item_type item, tag), s1, False)"
    unfolding s1_def by (rule pb_decode_tag_bytes [OF Cons.prems(2) a ok(1,2)])
  have s1: "stream_ok s1" "avail s1 = item_bytes item @ fields_bytes fs @ rest"
    using Cons.prems(2) a by (simp_all add: s1_def)
  have i: "read_item s1 (item_type item) = (Some item, s2)" "pb_skip_field s1 (item_type item) = (True, s2)"
    unfolding s2_def by (rule read_item [OF ok(3) s1])+
  have s2: "stream_ok s2" "avail s2 = fields_bytes fs @ rest" using s1 by (simp_all add: s2_def)
  have "advance (length (fields_bytes fs)) s2 = advance (length (fields_bytes (f # fs))) s"
    by (simp add: s2_def s1_def f fields_bytes_def add.assoc)
  then show ?case
    using Cons.IH [OF _ s2] Cons.prems(1) by (simp add: t i f)
qed

lemma pb_decode_varint_cases:
  assumes ok: "stream_ok s"
  shows "(\<exists>bs rest. avail s = bs @ rest \<and> varint_shape bs \<and> length bs \<le> 10 \<and>
      pb_decode_varint s = (Some (word_of_nat (le128 bs)), advance (length bs) s)) \<or>
    (\<nexists>bs rest. avail s = bs @ rest \<and> varint_shape bs \<and> length bs \<le> 10) \<and>
      fst (pb_decode_varint s) = None \<and> errmsg (snd (pb_decode_varint s)) \<noteq> None"
proof -
  have failed: "\<nexists>bs rest. avail s = bs @ rest \<and> varint_shape bs \<and> length bs \<le> 10"
    if that: "\<forall>b \<in> set cs. 128 \<le> unat b" "avail s = cs @ rest" "length cs = 10 \<or> rest = []" for cs rest
  proof
    assume "\<exists>bs rest. avail s = bs @ rest \<and> varint_shape bs \<and> length bs \<le> 10"
    then obtain bs rest' where b: "avail s = bs @ rest'" "varint_shape bs" "length bs \<le> 10" by blast
    then obtain ds d where d: "bs = ds @ [d]" "unat d < 128" using shape_split by blast
    have "length ds < length cs" using b d that arg_cong [OF that(2), of length] by (cases "rest = []") auto
    then have "d = cs ! length ds" using b(1) that(2) d(1) by (metis append.assoc append_Cons nth_append nth_append_length)
    then show False using that(1) d(2) \<open>length ds < length cs\<close> by (metis not_le nth_mem)
  qed
  have e: "fst (in_error t m :: u64 option \<times> pb_istream) = None" "errmsg (snd (in_error t m :: u64 option \<times> pb_istream)) \<noteq> None" for t m
    by (simp_all add: in_error_def PB_SET_ERROR_def split: option.split)
  show ?thesis
  proof (cases rule: varint_cases [of "avail s" 10])
    case (varint bs rest)
    then show ?thesis using pb_decode_varint_value [OF ok varint(1,2,3)] by blast
  next
    case (overlong cs rest)
    then show ?thesis using pb_decode_varint_overlong [OF ok overlong] failed [OF overlong(2,1)] e by simp
  next
    case short
    then show ?thesis using pb_decode_varint_short [OF ok short] failed [OF short(1), of "[]"] e by simp
  qed
qed

lemma from_buffer_ok: "stream_ok (pb_istream_from_buffer bs (length bs))" "avail (pb_istream_from_buffer bs (length bs)) = bs"
  by (simp_all add: stream_ok_def avail_def pb_istream_from_buffer_def)

lemma out_from_buffer:
  "out_ok (pb_ostream_from_buffer k)" "room (pb_ostream_from_buffer k) n \<longleftrightarrow> n < size_mod \<and> n \<le> k"
  "out_buf (emit bs (pb_ostream_from_buffer k)) = bs" "bytes_written (emit bs (pb_ostream_from_buffer k)) = length bs mod size_mod"
  "bytes_written (pb_ostream_from_buffer k) = 0"
  by (auto simp: out_ok_def room_def pb_ostream_from_buffer_def emit_def)

lemma out_sizing:
  "out_ok PB_OSTREAM_SIZING" "room PB_OSTREAM_SIZING n \<longleftrightarrow> n < size_mod"
  "bytes_written (emit bs PB_OSTREAM_SIZING) = length bs mod size_mod" "bytes_written PB_OSTREAM_SIZING = 0"
  by (auto simp: out_ok_def room_def PB_OSTREAM_SIZING_def emit_def)

lemma write_fields_buffer:
  assumes "\<forall>f \<in> set fs. field_ok f" and "length (fields_bytes fs) < size_mod"
  shows "if length (fields_bytes fs) \<le> k then write_fields (pb_ostream_from_buffer k) fs = (True, emit (fields_bytes fs) (pb_ostream_from_buffer k))
    else \<not> fst (write_fields (pb_ostream_from_buffer k) fs)"
    and "write_fields PB_OSTREAM_SIZING fs = (True, emit (fields_bytes fs) PB_OSTREAM_SIZING)"
proof -
  have w: "writer (\<lambda>s. write_fields s fs) (fields_bytes fs)"
    by (rule writer_fields) (use assms(1) in \<open>auto simp: field_ok_def\<close>)
  show "if length (fields_bytes fs) \<le> k then write_fields (pb_ostream_from_buffer k) fs = (True, emit (fields_bytes fs) (pb_ostream_from_buffer k))
    else \<not> fst (write_fields (pb_ostream_from_buffer k) fs)"
    using w [unfolded writer_def, rule_format, OF out_from_buffer(1), of k] assms(2) by (simp add: out_from_buffer)
  show "write_fields PB_OSTREAM_SIZING fs = (True, emit (fields_bytes fs) PB_OSTREAM_SIZING)"
    using w [unfolded writer_def, rule_format, OF out_sizing(1)] assms(2) by (simp add: out_sizing)
qed

text \<open>The zigzag code of an \<^verbatim>\<open>int64_t\<close>.\<close>

definition zigzag :: "u64 \<Rightarrow> u64" where
  "zigzag v = (if v <s 0 then NOT (push_bit 1 v) else push_bit 1 v)"

definition unzigzag :: "u64 \<Rightarrow> u64" where
  "unzigzag v = (if v AND 1 \<noteq> 0 then NOT (drop_bit 1 v) else drop_bit 1 v)"

lemma unzigzag: "unzigzag (zigzag v) = v"
proof -
  have n: "v <s 0 \<longleftrightarrow> bit v 63" using bit_last_iff [of v] by (simp add: word_sless_alt)
  have o: "w AND 1 \<noteq> 0 \<longleftrightarrow> bit w 0" for w :: u64
    by (simp add: and_one_eq bit_0 odd_iff_mod_2_eq_one)
  show ?thesis
  proof (cases "bit v 63")
    case True
    have "bit (NOT (push_bit 1 v)) 0" unfolding bit_not_iff bit_push_bit_iff by (simp only: not_one_le_zero simp_thms) simp
    moreover have "NOT (drop_bit 1 (NOT (push_bit 1 v))) = v"
    proof (rule bit_word_eqI)
      fix k
      assume "k < LENGTH(64)"
      then show "bit (NOT (drop_bit 1 (NOT (push_bit 1 v)))) k = bit v k"
        using True by (cases "k = 63") (auto simp: bit_simps mult.commute [of _ "2 :: u64"] bit_double_iff)
    qed
    ultimately show ?thesis using True n by (simp add: zigzag_def unzigzag_def o)
  next
    case False
    have "\<not> bit (push_bit 1 v) 0" unfolding bit_push_bit_iff by (simp only: not_one_le_zero simp_thms)
    moreover have "drop_bit 1 (push_bit 1 v) = v"
    proof (rule bit_word_eqI)
      fix k
      assume "k < LENGTH(64)"
      then show "bit (drop_bit 1 (push_bit 1 v)) k = bit v k"
        using False by (cases "k = 63") (auto simp: bit_simps mult.commute [of _ "2 :: u64"] bit_double_iff)
    qed
    ultimately show ?thesis using False n by (simp add: zigzag_def unzigzag_def o)
  qed
qed

text \<open>\<^verbatim>\<open>bitpos\<close> of the 32-bit decoder is a \<^verbatim>\<open>uint_fast8_t\<close> that no check bounds: after 36 continuation bytes it is 3 again, and a
  varint of 38 bytes is taken for a small number where every longer or shorter one with the same last group overflows.\<close>

lemma pb_decode_varint32_wraps:
  "fst (pb_decode_varint32 (pb_istream_from_buffer (replicate 37 0x80 @ [1]) 38)) = Some 8"
  "fst (pb_decode_varint32 (pb_istream_from_buffer (replicate 35 0x80 @ [1]) 36)) = None"
  by code_simp+

lemma svarint_roundtrip:
  assumes "10 \<le> k"
  shows "\<exists>s. pb_encode_svarint (pb_ostream_from_buffer k) v = (True, s) \<and>
    fst (pb_decode_svarint (pb_istream_from_buffer (out_buf s) (bytes_written s))) = Some v"
proof -
  define bs where "bs = varint_bytes (unat (zigzag v))"
  define s where "s = emit bs (pb_ostream_from_buffer k)"
  have l: "length bs \<le> 10" unfolding bs_def by (rule varint_bytes_64)
  then have "pb_write (pb_ostream_from_buffer k) bs = (True, s)"
    unfolding s_def using assms by (intro pb_write_room) (simp add: out_from_buffer)
  then have e: "pb_encode_svarint (pb_ostream_from_buffer k) v = (True, s)"
    unfolding pb_encode_svarint_def Let_def zigzag_def [symmetric] pb_encode_varint bs_def .
  have o: "out_buf s = bs" "bytes_written s = length bs" using l by (simp_all add: s_def out_from_buffer)
  have "pb_decode_varint (pb_istream_from_buffer bs (length bs)) = (Some (zigzag v), advance (length bs) (pb_istream_from_buffer bs (length bs)))"
    using pb_decode_varint_value [OF from_buffer_ok(1), of _ bs "[]"] l varint_bytes_props(1) [of "unat (zigzag v)"]
    by (simp add: from_buffer_ok bs_def varint_bytes_props(2))
  then have "fst (pb_decode_svarint (pb_istream_from_buffer bs (length bs))) = Some (unzigzag (zigzag v))"
    by (simp add: pb_decode_svarint_def unzigzag_def)
  then show ?thesis using e o by (simp add: unzigzag)
qed

section \<open>The properties\<close>

text \<open>C27. \<open>pb_decode_varint\<close> accepts exactly the byte strings that start with a varint of at most ten groups, minimal or
  not; it gives the number modulo 2 to the 64 and takes those bytes. Otherwise it fails with an error message.\<close>

theorem pb_decode_varint_iff:
  assumes "stream_ok s"
  shows "(\<exists>bs rest. avail s = bs @ rest \<and> varint_shape bs \<and> length bs \<le> 10 \<and>
      pb_decode_varint s = (Some (word_of_nat (le128 bs)), advance (length bs) s)) \<or>
    (\<nexists>bs rest. avail s = bs @ rest \<and> varint_shape bs \<and> length bs \<le> 10) \<and>
      fst (pb_decode_varint s) = None \<and> errmsg (snd (pb_decode_varint s)) \<noteq> None"
  using assms by (rule pb_decode_varint_cases)

theorem pb_decode_varint_iff_witness:
  "\<exists>bs rest. avail (pb_istream_from_buffer [0x96, 0x01, 0x55] 3) = bs @ rest \<and> varint_shape bs \<and> length bs \<le> 10 \<and>
     pb_decode_varint (pb_istream_from_buffer [0x96, 0x01, 0x55] 3) =
       (Some (word_of_nat (le128 bs)), advance (length bs) (pb_istream_from_buffer [0x96, 0x01, 0x55] 3))"
proof -
  have "stream_ok (pb_istream_from_buffer [0x96, 0x01, 0x55] 3)" by (simp add: stream_ok_def pb_istream_from_buffer_def)
  moreover have "avail (pb_istream_from_buffer [0x96, 0x01, 0x55] 3) = [0x96, 0x01] @ [0x55] \<and> varint_shape [0x96, 0x01] \<and>
      length [0x96, 0x01 :: u8] \<le> 10"
    by (simp add: avail_def pb_istream_from_buffer_def)
  ultimately show ?thesis using pb_decode_varint_iff by blast
qed

text \<open>C7. A list of fields that the encoders write to a buffer is read back by tag, wire type and value, and skipped field
  by field, and both readers stop at the end of the bytes written.\<close>

theorem fields_roundtrip:
  assumes "\<forall>f \<in> set fs. field_ok f" and "k < size_mod" and "write_fields (pb_ostream_from_buffer k) fs = (True, s)"
    and "length (fields_bytes fs) < size_mod"
  shows "bytes_written s = length (out_buf s) \<and>
    (\<exists>i. read_fields (length fs) (pb_istream_from_buffer (out_buf s) (bytes_written s)) = (Some fs, i) \<and>
      skip_fields (length fs) (pb_istream_from_buffer (out_buf s) (bytes_written s)) = (True, i) \<and>
      bytes_left i = 0 \<and> errmsg i = None)"
proof -
  have "length (fields_bytes fs) \<le> k" using write_fields_buffer(1) [OF assms(1,4), of k] assms(3) by (auto split: if_splits)
  then have s: "s = emit (fields_bytes fs) (pb_ostream_from_buffer k)"
    using write_fields_buffer(1) [OF assms(1,4), of k] assms(3) by simp
  have o: "out_buf s = fields_bytes fs" "bytes_written s = length (fields_bytes fs)"
    using assms(4) by (simp_all add: s out_from_buffer)
  let ?i = "pb_istream_from_buffer (fields_bytes fs) (length (fields_bytes fs))"
  have "read_fields (length fs) ?i = (Some fs, advance (length (fields_bytes fs)) ?i) \<and>
      skip_fields (length fs) ?i = (True, advance (length (fields_bytes fs)) ?i)"
    by (rule read_fields_bytes [OF assms(1) from_buffer_ok(1), of _ "[]"]) (simp add: from_buffer_ok)
  then show ?thesis unfolding o by (simp add: advance_def) (simp add: pb_istream_from_buffer_def)
qed

theorem fields_roundtrip_witness:
  "\<exists>s. write_fields (pb_ostream_from_buffer 64) [(1, Varint 300), (2, Bytes [7, 8]), (3, Fixed32 5)] = (True, s) \<and>
     bytes_written s = length (out_buf s)"
proof -
  let ?fs = "[(1, Varint 300), (2, Bytes [7, 8]), (3, Fixed32 5)] :: (u32 \<times> wire_item) list"
  have ok: "\<forall>f \<in> set ?fs. field_ok f" by (simp add: field_ok_def)
  have "fields_bytes ?fs = [8, 172, 2, 18, 2, 7, 8, 29, 5, 0, 0, 0]" by code_simp
  then have n: "length (fields_bytes ?fs) = 12" by simp
  have w: "write_fields (pb_ostream_from_buffer 64) ?fs = (True, emit (fields_bytes ?fs) (pb_ostream_from_buffer 64))"
    using write_fields_buffer(1) [OF ok, of 64] n by simp
  have "length (fields_bytes ?fs) < size_mod" "(64 :: nat) < size_mod" using n by simp_all
  from fields_roundtrip [OF ok this(2) w this(1)] w show ?thesis by blast
qed

text \<open>C28. The counting stream gives the exact size of a list of fields: a buffer is large enough for them exactly when it
  holds that many bytes.\<close>

theorem sizing_exact:
  assumes "\<forall>f \<in> set fs. field_ok f" and "length (fields_bytes fs) < size_mod"
  shows "fst (write_fields PB_OSTREAM_SIZING fs) \<and>
    (fst (write_fields (pb_ostream_from_buffer k) fs) \<longleftrightarrow> bytes_written (snd (write_fields PB_OSTREAM_SIZING fs)) \<le> k)"
  using write_fields_buffer(1) [OF assms, of k] write_fields_buffer(2) [OF assms] assms(2)
  by (cases "length (fields_bytes fs) \<le> k") (simp_all add: out_sizing)

theorem sizing_exact_witness:
  "fst (write_fields PB_OSTREAM_SIZING [(1, Varint 300), (3, Fixed32 5)]) \<and>
    (fst (write_fields (pb_ostream_from_buffer 7) [(1, Varint 300), (3, Fixed32 5)]) \<longleftrightarrow>
      bytes_written (snd (write_fields PB_OSTREAM_SIZING [(1, Varint 300), (3, Fixed32 5)])) \<le> 7)"
proof -
  let ?fs = "[(1, Varint 300), (3, Fixed32 5)] :: (u32 \<times> wire_item) list"
  have ok: "\<forall>f \<in> set ?fs. field_ok f" by (simp add: field_ok_def)
  have "fields_bytes ?fs = [8, 172, 2, 29, 5, 0, 0, 0]" by code_simp
  then have "length (fields_bytes ?fs) < size_mod" by simp
  from sizing_exact [OF ok this, of 7] show ?thesis .
qed

end
