(* ===== verification/Modes_Cbc.thy ===== *)
theory Modes_Cbc
  imports Constant_Time
begin

text \<open>
  Model of \<^verbatim>\<open>crypto/fipsmodule/modes/cbc.c\<close> and of \<open>CRYPTO_xor16\<close>. The input and the output are
  places in one array \<open>buf\<close>, so that they may overlap; \<open>ivec\<close> is an array of its own. The block cipher
  under its key is a parameter, a function on blocks of 16 bytes.
\<close>

section \<open>The code\<close>

record block_mem =
  buf :: "u8 list"
  ivec :: "u8 list"

type_synonym cipher = "u8 list \<Rightarrow> u8 list"

datatype pointer = Buf nat | Ivec

fun read_at :: "pointer \<Rightarrow> nat \<Rightarrow> nat \<Rightarrow> block_mem \<Rightarrow> u8 list" where
  "read_at (Buf p) i n s = load (p + i) n (buf s)"
| "read_at Ivec i n s = load i n (ivec s)"

definition write_buf :: "nat \<Rightarrow> u8 list \<Rightarrow> block_mem \<Rightarrow> block_mem" where
  "write_buf p bs s = s\<lparr>buf := store p bs (buf s)\<rparr>"

definition xor_word :: "nat \<Rightarrow> pointer \<Rightarrow> pointer \<Rightarrow> nat \<Rightarrow> block_mem \<Rightarrow> block_mem" where
  "xor_word out a b i s =
     write_buf (out + i) (CRYPTO_store_word_le (CRYPTO_load_word_le (read_at a i 8 s) XOR CRYPTO_load_word_le (read_at b i 8 s))) s"

definition CRYPTO_xor16 :: "nat \<Rightarrow> pointer \<Rightarrow> pointer \<Rightarrow> block_mem \<Rightarrow> block_mem" where
  "CRYPTO_xor16 out a b s = xor_word out a b 8 (xor_word out a b 0 s)"

text \<open>\<open>(*block)(inp, out, key)\<close> on the buffer.\<close>

definition run_block :: "cipher \<Rightarrow> nat \<Rightarrow> nat \<Rightarrow> block_mem \<Rightarrow> block_mem" where
  "run_block block inp out s = write_buf out (block (load inp 16 (buf s))) s"

text \<open>The first loop of \<open>CRYPTO_cbc128_encrypt\<close>: \<open>inp\<close>, \<open>out\<close>, \<open>len\<close> and \<open>iv\<close> after it.\<close>

fun cbc_encrypt_blocks :: "cipher \<Rightarrow> nat \<Rightarrow> nat \<Rightarrow> nat \<Rightarrow> pointer \<Rightarrow> block_mem \<Rightarrow> (nat \<times> nat \<times> nat \<times> pointer) \<times> block_mem" where
  "cbc_encrypt_blocks block inp out len iv s =
     (if len \<ge> 16 then
        let s = CRYPTO_xor16 out (Buf inp) iv s;
            s = run_block block out out s
        in cbc_encrypt_blocks block (inp + 16) (out + 16) (len - 16) (Buf out) s
      else ((inp, out, len, iv), s))"

declare cbc_encrypt_blocks.simps [simp del]

text \<open>The two byte loops of its second loop.\<close>

function xor_tail :: "nat \<Rightarrow> nat \<Rightarrow> pointer \<Rightarrow> nat \<Rightarrow> nat \<Rightarrow> block_mem \<Rightarrow> nat \<times> block_mem" where
  "xor_tail inp out iv len n s =
     (if n < 16 \<and> n < len then
        xor_tail inp out iv len (n + 1) (write_buf (out + n) (map2 (XOR) (read_at (Buf inp) n 1 s) (read_at iv n 1 s)) s)
      else (n, s))"
  by pat_completeness auto
termination by (relation "measure (\<lambda>(inp, out, iv, len, n, s). 16 - n)") auto

declare xor_tail.simps [simp del]

function copy_tail :: "nat \<Rightarrow> pointer \<Rightarrow> nat \<Rightarrow> block_mem \<Rightarrow> block_mem" where
  "copy_tail out iv n s =
     (if n < 16 then copy_tail out iv (n + 1) (write_buf (out + n) (read_at iv n 1 s) s) else s)"
  by pat_completeness auto
termination by (relation "measure (\<lambda>(out, iv, n, s). 16 - n)") auto

declare copy_tail.simps [simp del]

fun cbc_encrypt_tail :: "cipher \<Rightarrow> nat \<Rightarrow> nat \<Rightarrow> nat \<Rightarrow> pointer \<Rightarrow> block_mem \<Rightarrow> pointer \<times> block_mem" where
  "cbc_encrypt_tail block inp out len iv s =
     (if len \<noteq> 0 then
        let (n, s) = xor_tail inp out iv len 0 s;
            s = copy_tail out iv n s;
            s = run_block block out out s;
            iv = Buf out
        in if len \<le> 16 then (iv, s)
           else cbc_encrypt_tail block (inp + 16) (out + 16) (len - 16) iv s
      else (iv, s))"

declare cbc_encrypt_tail.simps [simp del]

definition CRYPTO_cbc128_encrypt :: "cipher \<Rightarrow> nat \<Rightarrow> nat \<Rightarrow> nat \<Rightarrow> block_mem \<Rightarrow> block_mem" where
  "CRYPTO_cbc128_encrypt block inp out len s =
     (if len = 0 then s
      else
        let ((inp, out, len, iv), s) = cbc_encrypt_blocks block inp out len Ivec s;
            (iv, s) = cbc_encrypt_tail block inp out len iv s
        in s\<lparr>ivec := read_at iv 0 16 s\<rparr>)"

text \<open>The loops of \<open>CRYPTO_cbc128_decrypt\<close> on whole blocks: without and with a temporary block.\<close>

fun cbc_decrypt_ahead :: "cipher \<Rightarrow> nat \<Rightarrow> nat \<Rightarrow> nat \<Rightarrow> pointer \<Rightarrow> block_mem \<Rightarrow> (nat \<times> nat \<times> nat \<times> pointer) \<times> block_mem" where
  "cbc_decrypt_ahead block inp out len iv s =
     (if len \<ge> 16 then
        let s = run_block block inp out s;
            s = CRYPTO_xor16 out (Buf out) iv s
        in cbc_decrypt_ahead block (inp + 16) (out + 16) (len - 16) (Buf inp) s
      else ((inp, out, len, iv), s))"

declare cbc_decrypt_ahead.simps [simp del]

definition decrypt_word :: "u8 list \<Rightarrow> nat \<Rightarrow> nat \<Rightarrow> nat \<Rightarrow> block_mem \<Rightarrow> block_mem" where
  "decrypt_word tmp inp out n s =
     (let c = CRYPTO_load_word_le (read_at (Buf inp) n 8 s);
          s = write_buf (out + n) (CRYPTO_store_word_le (CRYPTO_load_word_le (load n 8 tmp) XOR CRYPTO_load_word_le (read_at Ivec n 8 s))) s
      in s\<lparr>ivec := store n (CRYPTO_store_word_le c) (ivec s)\<rparr>)"

fun cbc_decrypt_near :: "cipher \<Rightarrow> nat \<Rightarrow> nat \<Rightarrow> nat \<Rightarrow> block_mem \<Rightarrow> (nat \<times> nat \<times> nat) \<times> block_mem" where
  "cbc_decrypt_near block inp out len s =
     (if len \<ge> 16 then
        let tmp = block (load inp 16 (buf s));
            s = decrypt_word tmp inp out 8 (decrypt_word tmp inp out 0 s)
        in cbc_decrypt_near block (inp + 16) (out + 16) (len - 16) s
      else ((inp, out, len), s))"

declare cbc_decrypt_near.simps [simp del]

text \<open>The byte loops of its last loop.\<close>

function decrypt_bytes :: "u8 list \<Rightarrow> nat \<Rightarrow> nat \<Rightarrow> nat \<Rightarrow> nat \<Rightarrow> block_mem \<Rightarrow> nat \<times> block_mem" where
  "decrypt_bytes tmp inp out len n s =
     (if n < 16 \<and> n < len then
        let c = read_at (Buf inp) n 1 s;
            s = write_buf (out + n) (map2 (XOR) (load n 1 tmp) (read_at Ivec n 1 s)) s
        in decrypt_bytes tmp inp out len (n + 1) (s\<lparr>ivec := store n c (ivec s)\<rparr>)
      else (n, s))"
  by pat_completeness auto
termination by (relation "measure (\<lambda>(tmp, inp, out, len, n, s). 16 - n)") auto

declare decrypt_bytes.simps [simp del]

function copy_ivec :: "nat \<Rightarrow> nat \<Rightarrow> block_mem \<Rightarrow> block_mem" where
  "copy_ivec inp n s =
     (if n < 16 then copy_ivec inp (n + 1) (s\<lparr>ivec := store n (read_at (Buf inp) n 1 s) (ivec s)\<rparr>) else s)"
  by pat_completeness auto
termination by (relation "measure (\<lambda>(inp, n, s). 16 - n)") auto

declare copy_ivec.simps [simp del]

fun cbc_decrypt_tail :: "cipher \<Rightarrow> nat \<Rightarrow> nat \<Rightarrow> nat \<Rightarrow> block_mem \<Rightarrow> block_mem" where
  "cbc_decrypt_tail block inp out len s =
     (if len \<noteq> 0 then
        let tmp = block (load inp 16 (buf s));
            (n, s) = decrypt_bytes tmp inp out len 0 s
        in if len \<le> 16 then copy_ivec inp n s
           else cbc_decrypt_tail block (inp + 16) (out + 16) (len - 16) s
      else s)"

declare cbc_decrypt_tail.simps [simp del]

definition CRYPTO_cbc128_decrypt :: "cipher \<Rightarrow> nat \<Rightarrow> nat \<Rightarrow> nat \<Rightarrow> block_mem \<Rightarrow> block_mem" where
  "CRYPTO_cbc128_decrypt block inp out len s =
     (if len = 0 then s
      else if inp \<ge> 32 \<and> out \<le> inp - 32 \<or> inp < out then
        let ((inp, out, len, iv), s) = cbc_decrypt_ahead block inp out len Ivec s;
            s = s\<lparr>ivec := read_at iv 0 16 s\<rparr>
        in cbc_decrypt_tail block inp out len s
      else
        let ((inp, out, len), s) = cbc_decrypt_near block inp out len s
        in cbc_decrypt_tail block inp out len s)"

section \<open>Single blocks\<close>

text \<open>A pointer at \<open>k\<close> bytes that are not overwritten before they are read while \<open>out\<close> is written.\<close>

fun readable :: "nat \<Rightarrow> nat \<Rightarrow> pointer \<Rightarrow> block_mem \<Rightarrow> bool" where
  "readable k out (Buf p) s \<longleftrightarrow> p + k \<le> length (buf s) \<and> (out \<le> p \<or> p + k \<le> out)"
| "readable k out Ivec s \<longleftrightarrow> length (ivec s) = 16 \<and> k \<le> 16"

lemma write_buf_simps [simp]: "ivec (write_buf p bs s) = ivec s" "buf (write_buf p bs s) = store p bs (buf s)"
  by (simp_all add: write_buf_def)

lemma write_buf_twice:
  "p + length xs + length ys \<le> length (buf s) \<Longrightarrow> write_buf (p + length xs) ys (write_buf p xs s) = write_buf p (xs @ ys) s"
  by (simp add: write_buf_def store_store)

lemma write_buf_Nil [simp]: "write_buf p [] s = s"
  by (simp add: write_buf_def store_def)

lemma write_buf_over: "p + length xs \<le> length (buf s) \<Longrightarrow> length ys = length xs \<Longrightarrow> write_buf p ys (write_buf p xs s) = write_buf p ys s"
  by (simp add: write_buf_def store_def)

lemma read_split: "readable k out a s \<Longrightarrow> i + n \<le> k \<Longrightarrow> read_at a i n s = take n (drop i (read_at a 0 k s))"
  by (cases a) (simp_all add: load_def drop_take min_def add.commute)

lemma length_read: "readable k out a s \<Longrightarrow> i + n \<le> k \<Longrightarrow> length (read_at a i n s) = n"
  by (cases a) (simp_all add: length_load)

lemma read_add: "readable k out a s \<Longrightarrow> i + (m + n) \<le> k \<Longrightarrow> read_at a i (m + n) s = read_at a i m s @ read_at a (i + m) n s"
  by (cases a) (simp_all add: load_add add.assoc)

lemma read_step:
  assumes "readable k out a s" and "n < m" and "m \<le> k"
  shows "read_at a n (m - n) s = read_at a n 1 s @ read_at a (n + 1) (m - (n + 1)) s"
proof -
  have "m - n = 1 + (m - (n + 1))" "n + (1 + (m - (n + 1))) \<le> k" using assms(2,3) by simp_all
  then show ?thesis using read_add [OF assms(1), of n 1 "m - (n + 1)"] by metis
qed

lemma read_after_write:
  assumes "readable k out a s" and "out + j + length xs \<le> length (buf s)" and "j + length xs \<le> i" and "i + n \<le> k"
  shows "read_at a i n (write_buf (out + j) xs s) = read_at a i n s"
  using assms by (cases a) (auto intro!: load_store_other)

lemma readable_write: "p + length xs \<le> length (buf s) \<Longrightarrow> readable k out a (write_buf p xs s) = readable k out a s"
  by (cases a) (simp_all add: length_store)

lemma map2_split: "length xs = length ys \<Longrightarrow> map2 f (take n xs) (take n ys) @ map2 f (drop n xs) (drop n ys) = map2 f xs ys"
  by (metis append_take_drop_id zip_append length_take map_append)

lemma CRYPTO_xor16:
  assumes "readable 16 out a s" and "readable 16 out b s" and "out + 16 \<le> length (buf s)"
  shows "CRYPTO_xor16 out a b s = write_buf out (map2 (XOR) (read_at a 0 16 s) (read_at b 0 16 s)) s"
proof -
  let ?x = "map2 (XOR) (read_at a 0 8 s) (read_at b 0 8 s)"
  let ?y = "map2 (XOR) (read_at a 8 8 s) (read_at b 8 8 s)"
  note l = length_read [OF assms(1)] length_read [OF assms(2)]
  have 1: "xor_word out a b 0 s = write_buf out ?x s"
    by (simp add: xor_word_def store_xor_load l)
  have "read_at a 8 8 (write_buf (out + 0) ?x s) = read_at a 8 8 s" "read_at b 8 8 (write_buf (out + 0) ?x s) = read_at b 8 8 s"
    by (rule read_after_write [OF assms(1)] read_after_write [OF assms(2)]; use assms(3) in \<open>simp add: l\<close>)+
  then have "CRYPTO_xor16 out a b s = write_buf (out + length ?x) ?y (write_buf out ?x s)"
    by (simp add: CRYPTO_xor16_def 1 xor_word_def [of _ _ _ 8] store_xor_load l)
  also have "\<dots> = write_buf out (?x @ ?y) s"
    by (rule write_buf_twice) (use assms(3) in \<open>simp add: l\<close>)
  also have "?x @ ?y = map2 (XOR) (read_at a 0 16 s) (read_at b 0 16 s)"
    using map2_split [of "read_at a 0 16 s" "read_at b 0 16 s" "(XOR)" 8]
    by (simp add: read_split [OF assms(1), of 0 8] read_split [OF assms(1), of 8 8] read_split [OF assms(2), of 0 8]
        read_split [OF assms(2), of 8 8] l)
  finally show ?thesis .
qed

section \<open>Specification\<close>

definition pad16 :: "u8 list \<Rightarrow> u8 list" where
  "pad16 xs = xs @ replicate (16 - length xs) 0"

fun cbc_encrypted :: "cipher \<Rightarrow> u8 list \<Rightarrow> u8 list \<Rightarrow> u8 list" where
  "cbc_encrypted block iv xs =
     (if xs = [] then []
      else let c = block (map2 (XOR) (pad16 (take 16 xs)) iv) in c @ cbc_encrypted block c (drop 16 xs))"

fun cbc_decrypted :: "cipher \<Rightarrow> u8 list \<Rightarrow> u8 list \<Rightarrow> u8 list" where
  "cbc_decrypted block iv cs =
     (if cs = [] then [] else map2 (XOR) (block (take 16 cs)) iv @ cbc_decrypted block (take 16 cs) (drop 16 cs))"

declare cbc_encrypted.simps [simp del] cbc_decrypted.simps [simp del]

fun last_block :: "u8 list \<Rightarrow> u8 list \<Rightarrow> u8 list" where
  "last_block iv cs = (if cs = [] then iv else last_block (take 16 cs) (drop 16 cs))"

declare last_block.simps [simp del]

definition cipher_ok :: "cipher \<Rightarrow> bool" where
  "cipher_ok block \<longleftrightarrow> (\<forall>x. length x = 16 \<longrightarrow> length (block x) = 16)"

abbreviation roundup :: "nat \<Rightarrow> nat" where
  "roundup n \<equiv> (n + 15) div 16 * 16"

lemma cbc_encrypted_simps:
  "cbc_encrypted block iv [] = []"
  "length b = 16 \<Longrightarrow> cbc_encrypted block iv (b @ xs) = block (map2 (XOR) b iv) @ cbc_encrypted block (block (map2 (XOR) b iv)) xs"
  "0 < length b \<Longrightarrow> length b \<le> 16 \<Longrightarrow> cbc_encrypted block iv b = block (map2 (XOR) (pad16 b) iv)"
  by (subst cbc_encrypted.simps; auto simp: pad16_def Let_def cbc_encrypted.simps [of _ _ "[]"])+

lemma cbc_decrypted_simps:
  "cbc_decrypted block iv [] = []"
  "length b = 16 \<Longrightarrow> cbc_decrypted block iv (b @ xs) = map2 (XOR) (block b) iv @ cbc_decrypted block b xs"
  by (subst cbc_decrypted.simps; auto)+

lemma last_block_simps:
  "last_block iv [] = iv" "length b = 16 \<Longrightarrow> last_block iv (b @ xs) = last_block b xs"
  by (subst last_block.simps; auto)+

section \<open>Encryption\<close>

lemma load_16: "16 \<le> n \<Longrightarrow> load i n b = load i 16 b @ load (i + 16) (n - 16) b"
proof -
  assume "16 \<le> n"
  then obtain m where m: "n = 16 + m" by (metis le_add_diff_inverse)
  show ?thesis unfolding m load_def take_add by (simp add: add.commute)
qed

lemma roundup_16: "roundup (m + 16) = roundup m + 16" "(m + 16) div 16 * 16 = m div 16 * 16 + 16"
proof -
  have "m + 16 + 15 = m + 15 + 16" by simp
  then have "(m + 16 + 15) div 16 = (m + 15) div 16 + 1" by (simp only: div_add_self2)
  then show "roundup (m + 16) = roundup m + 16" by (simp only: distrib_right mult_1)
  show "(m + 16) div 16 * 16 = m div 16 * 16 + 16" by (simp only: div_add_self2 distrib_right mult_1)
qed

lemma length_cbc_encrypted: "cipher_ok block \<Longrightarrow> length iv = 16 \<Longrightarrow> length (cbc_encrypted block iv xs) = roundup (length xs)"
proof (induction block iv xs rule: cbc_encrypted.induct)
  case (1 block iv xs)
  show ?case
  proof (cases "xs = []")
    case True
    then show ?thesis by (simp add: cbc_encrypted_simps)
  next
    case False
    let ?c = "block (map2 (XOR) (pad16 (take 16 xs)) iv)"
    have c: "length ?c = 16" using 1(2,3) by (simp add: cipher_ok_def pad16_def)
    have "length (cbc_encrypted block iv xs) = 16 + roundup (length (drop 16 xs))"
      using 1(1) [OF False refl 1(2) c] c False by (subst cbc_encrypted.simps) (simp add: Let_def)
    also have "\<dots> = roundup (length xs)"
    proof (cases "16 \<le> length xs")
      case True
      then obtain m where "length xs = m + 16" by (metis le_add_diff_inverse2)
      then show ?thesis using roundup_16(1) [of m] by (simp only: length_drop diff_add_inverse2 add.commute)
    next
      case 2: False
      then have "0 < length xs" "length xs \<le> 15" using False by auto
      then have "(length xs + 15) div 16 = 1" by linarith
      then show ?thesis using 2 by simp
    qed
    finally show ?thesis .
  qed
qed

text \<open>One block, in both loops.\<close>

lemma run_block_over:
  assumes "out + 16 \<le> length (buf s)" and "length x = 16" and "length (block x) = 16"
  shows "run_block block out out (write_buf out x s) = write_buf out (block x) s"
  using load_store [of out x "buf s"] write_buf_over [of out x s "block x"] assms by (simp add: run_block_def)

lemma cbc_encrypt_blocks:
  assumes "cipher_ok block" and "readable len out (Buf inp) s" and "readable 16 out iv s" and "out + roundup len \<le> length (buf s)"
    and "read_at iv 0 16 s = v" and "k = len div 16 * 16"
  defines "cs \<equiv> cbc_encrypted block v (load inp k (buf s))"
  shows "\<exists>iv'. cbc_encrypt_blocks block inp out len iv s = ((inp + k, out + k, len - k, iv'), write_buf out cs s) \<and>
    readable 16 (out + k) iv' (write_buf out cs s) \<and> read_at iv' 0 16 (write_buf out cs s) = last_block v cs"
  using assms(2-6) unfolding cs_def
proof (induction len arbitrary: inp out iv s v k rule: less_induct)
  case (less len)
  show ?case
  proof (cases "16 \<le> len")
    case False
    then have "k = 0" using less.prems(5) by simp
    then show ?thesis using False less.prems(2,4) by (subst cbc_encrypt_blocks.simps) (simp add: cbc_encrypted_simps last_block_simps)
  next
    case True
    then obtain m where m: "len = m + 16" by (metis le_add_diff_inverse2)
    define b where "b = load inp 16 (buf s)"
    define x where "x = map2 (XOR) b v"
    define c where "c = block x"
    define s1 where "s1 = write_buf out c s"
    have r: "readable 16 out (Buf inp) s" using less.prems(1) m by auto
    have l: "length b = 16" "length v = 16" "length x = 16" "length c = 16"
      using length_read [OF r, of 0 16] length_read [OF less.prems(2), of 0 16] less.prems(4) assms(1)
      by (auto simp: b_def x_def c_def cipher_ok_def)
    have o: "out + 16 \<le> length (buf s)" using less.prems(3) m by simp
    have "CRYPTO_xor16 out (Buf inp) iv s = write_buf out x s"
      using CRYPTO_xor16 [OF r less.prems(2) o] less.prems(4) by (simp add: x_def b_def)
    then have step: "cbc_encrypt_blocks block inp out len iv s = cbc_encrypt_blocks block (inp + 16) (out + 16) m (Buf out) s1"
      using run_block_over [OF o l(3), of block] l(4) m by (subst cbc_encrypt_blocks.simps) (simp add: s1_def c_def)
    have ru: "out + 16 + roundup m \<le> length (buf s)" using less.prems(3) unfolding m roundup_16 by (simp only: add.assoc add.commute)
    have b1: "length (buf s1) = length (buf s)" using o l(4) by (simp add: s1_def length_store)
    have c1: "load out 16 (buf s1) = c" using load_store [of out c "buf s"] o l(4) by (simp add: s1_def)
    have k: "k = m div 16 * 16 + 16" using less.prems(5) unfolding m by (simp only: roundup_16)
    have i1: "load (inp + 16) (m div 16 * 16) (buf s1) = load (inp + 16) (m div 16 * 16) (buf s)"
      unfolding s1_def write_buf_simps by (rule load_store_other) (use less.prems(1) m o l(4) in \<open>auto\<close>)
    define n where "n = m div 16 * 16"
    define ds where "ds = cbc_encrypted block c (load (inp + 16) n (buf s))"
    have n: "n \<le> m" by (simp add: n_def)
    have "length ds = n"
      using less.prems(1) m l(4) n by (auto simp: ds_def length_cbc_encrypted [OF assms(1)] length_load) (simp_all add: n_def)
    then have w: "write_buf (out + 16) ds s1 = write_buf out (c @ ds) s"
      using write_buf_twice [of out c ds s] ru l(4) n by (simp add: s1_def n_def)
    have "\<exists>iv'. cbc_encrypt_blocks block (inp + 16) (out + 16) m (Buf out) s1 =
        ((inp + 16 + n, out + 16 + n, m - n, iv'), write_buf (out + 16) ds s1) \<and>
      readable 16 (out + 16 + n) iv' (write_buf (out + 16) ds s1) \<and> read_at iv' 0 16 (write_buf (out + 16) ds s1) = last_block c ds"
      unfolding ds_def i1 [symmetric, folded n_def]
      by (rule less.IH) (use less.prems(1) ru m o l(4) b1 c1 in \<open>auto simp: n_def\<close>)
    moreover have "load inp k (buf s) = b @ load (inp + 16) n (buf s)"
      using load_16 [of k inp "buf s"] by (simp add: k b_def n_def)
    then have "cbc_encrypted block v (load inp k (buf s)) = c @ ds"
      using l by (simp add: cbc_encrypted_simps ds_def x_def c_def)
    ultimately show ?thesis
      using step l k m by (simp add: w last_block_simps n_def [symmetric] add.assoc add.commute [of n])
  qed
qed

lemma xor_tail:
  assumes "readable len out (Buf inp) s" and "readable 16 out iv s" and "out + len \<le> length (buf s)" and "n \<le> len" and "len \<le> 16"
  shows "xor_tail inp out iv len n s =
    (len, write_buf (out + n) (map2 (XOR) (read_at (Buf inp) n (len - n) s) (read_at iv n (len - n) s)) s)"
  using assms
proof (induction "len - n" arbitrary: n s)
  case 0
  then show ?case by (subst xor_tail.simps) simp
next
  case (Suc d)
  have n: "n < len" "n < 16" using Suc.hyps(2) Suc.prems(5) by simp_all
  let ?b = "map2 (XOR) (read_at (Buf inp) n 1 s) (read_at iv n 1 s)"
  let ?r = "map2 (XOR) (read_at (Buf inp) (n + 1) (len - (n + 1)) s) (read_at iv (n + 1) (len - (n + 1)) s)"
  define s1 where "s1 = write_buf (out + n) ?b s"
  note l = length_read [OF Suc.prems(1)] length_read [OF Suc.prems(2)]
  have b: "length ?b = 1" using n Suc.prems(5) by (simp add: l del: read_at.simps)
  have w: "out + n + length ?b \<le> length (buf s)" unfolding b using Suc.prems(3) n by simp
  have "readable len out (Buf inp) s1" "readable 16 out iv s1" "length (buf s1) = length (buf s)"
    unfolding s1_def by (simp_all only: readable_write [OF w] Suc.prems(1,2) write_buf_simps length_store [OF w])
  moreover have "read_at (Buf inp) (n + 1) (len - (n + 1)) s1 = read_at (Buf inp) (n + 1) (len - (n + 1)) s"
    "read_at iv (n + 1) (len - (n + 1)) s1 = read_at iv (n + 1) (len - (n + 1)) s"
    unfolding s1_def
    by (rule read_after_write [OF Suc.prems(1) w] read_after_write [OF Suc.prems(2) w]; use n Suc.prems(5) eq_refl [OF b] in linarith)+
  ultimately have "xor_tail inp out iv len (n + 1) s1 = (len, write_buf (out + (n + 1)) ?r s1)"
    using Suc.hyps(1) [of "n + 1" s1] Suc.hyps(2) Suc.prems(3,5) n by (simp del: read_at.simps)
  moreover have "write_buf (out + (n + 1)) ?r s1 = write_buf (out + n) (?b @ ?r) s"
    using write_buf_twice [of "out + n" ?b ?r s] w Suc.prems(3,5) n unfolding s1_def b by (simp add: l b add.assoc del: read_at.simps)
  moreover have "?b @ ?r = map2 (XOR) (read_at (Buf inp) n (len - n) s) (read_at iv n (len - n) s)"
    unfolding read_step [OF Suc.prems(1) n(1) order.refl] read_step [OF Suc.prems(2) n(1) Suc.prems(5)]
    using n Suc.prems(5) by (simp add: l del: read_at.simps)
  ultimately show ?case
    using n by (subst xor_tail.simps) (simp add: s1_def del: read_at.simps)
qed

lemma copy_tail:
  assumes "readable 16 out iv s" and "out + 16 \<le> length (buf s)" and "n \<le> 16"
  shows "copy_tail out iv n s = write_buf (out + n) (read_at iv n (16 - n) s) s"
  using assms
proof (induction "16 - n" arbitrary: n s)
  case 0
  then show ?case by (subst copy_tail.simps) (cases iv, simp_all)
next
  case (Suc d)
  have n: "n < 16" using Suc.hyps(2) by simp
  let ?b = "read_at iv n 1 s"
  let ?r = "read_at iv (n + 1) (16 - (n + 1)) s"
  define s1 where "s1 = write_buf (out + n) ?b s"
  have b: "length ?b = 1" using n by (simp add: length_read [OF Suc.prems(1)])
  have w: "out + n + length ?b \<le> length (buf s)" unfolding b using Suc.prems(2) n by simp
  have "readable 16 out iv s1" "length (buf s1) = length (buf s)"
    unfolding s1_def by (simp_all only: readable_write [OF w] Suc.prems(1) write_buf_simps length_store [OF w])
  moreover have "read_at iv (n + 1) (16 - (n + 1)) s1 = ?r"
    unfolding s1_def by (rule read_after_write [OF Suc.prems(1)]) (use w n b in simp_all)
  ultimately have "copy_tail out iv (n + 1) s1 = write_buf (out + (n + 1)) ?r s1"
    using Suc.hyps(1) [of "n + 1" s1] Suc.hyps(2) Suc.prems(2) n by simp
  moreover have "write_buf (out + (n + 1)) ?r s1 = write_buf (out + n) (?b @ ?r) s"
    using write_buf_twice [of "out + n" ?b ?r s] w Suc.prems(2) n unfolding s1_def b by (simp add: length_read [OF Suc.prems(1)] b add.assoc)
  moreover have "?b @ ?r = read_at iv n (16 - n) s"
    using read_step [OF Suc.prems(1), of n 16] n by simp
  ultimately show ?case using n by (subst copy_tail.simps) (simp add: s1_def)
qed

lemma map2_pad:
  assumes "length v = 16" and "length xs \<le> 16"
  shows "map2 (XOR) xs (take (length xs) v) @ drop (length xs) v = map2 (XOR) (pad16 xs) v"
proof -
  have "map2 (XOR) (replicate n 0) ys = ys" if "length ys = n" for n and ys :: "u8 list"
    using that by (induction ys arbitrary: n) auto
  from this [of "drop (length xs) v" "16 - length xs"] show ?thesis
    using zip_append2 [of "pad16 xs" "take (length xs) v" "drop (length xs) v"] assms by (simp add: pad16_def)
qed

lemma cbc_encrypt_tail:
  assumes "cipher_ok block" and "readable len out (Buf inp) s" and "readable 16 out iv s" and "out + roundup len \<le> length (buf s)"
    and "read_at iv 0 16 s = v" and "len < 16"
  defines "cs \<equiv> cbc_encrypted block v (load inp len (buf s))"
  shows "\<exists>iv'. cbc_encrypt_tail block inp out len iv s = (iv', write_buf out cs s) \<and>
    read_at iv' 0 16 (write_buf out cs s) = last_block v cs"
proof (cases "len = 0")
  case True
  then show ?thesis using assms(5) by (subst cbc_encrypt_tail.simps) (simp add: cs_def cbc_encrypted_simps last_block_simps)
next
  case False
  let ?x = "load inp len (buf s)"
  let ?y = "map2 (XOR) (pad16 ?x) v"
  have "(len + 15) div 16 = 1" by (rule div_nat_eqI) (use False assms(6) in simp_all)
  then have o: "out + 16 \<le> length (buf s)" using assms(4) by simp
  have lx: "length ?x = len" and lv: "length v = 16"
    using length_read [OF assms(2), of 0 len] length_read [OF assms(3), of 0 16] assms(5) by simp_all
  have ly: "length ?y = 16" using lx lv assms(6) by (simp add: pad16_def)
  have lc: "length (block ?y) = 16" using assms(1) ly unfolding cipher_ok_def by blast
  have cs: "cs = block ?y" unfolding cs_def by (rule cbc_encrypted_simps(3)) (use lx False assms(6) in auto)
  have "read_at iv 0 len s = take len (drop 0 v)" "read_at iv len (16 - len) s = take (16 - len) (drop len v)"
    unfolding assms(5) [symmetric] by (rule read_split [OF assms(3)]; use assms(6) in linarith)+
  then have rv: "read_at iv 0 len s = take len v" "read_at iv len (16 - len) s = drop len v" using lv by simp_all
  define s1 where "s1 = write_buf out (map2 (XOR) ?x (take len v)) s"
  have w: "out + length (map2 (XOR) ?x (take len v)) \<le> length (buf s)" using lx lv o assms(6) by simp
  have "xor_tail inp out iv len 0 s = (len, s1)"
    using xor_tail [OF assms(2,3), of 0] o assms(6) rv by (simp add: s1_def)
  moreover have "copy_tail out iv len s1 = write_buf (out + len) (drop len v) s1"
  proof -
    have "readable 16 out iv s1" "out + 16 \<le> length (buf s1)"
      unfolding s1_def by (simp_all only: readable_write [OF w] assms(3) write_buf_simps length_store [OF w] o)
    moreover have "read_at iv len (16 - len) s1 = drop len v"
      using read_after_write [OF assms(3), of 0 "map2 (XOR) ?x (take len v)" len "16 - len"] w rv lx lv assms(6) by (simp add: s1_def)
    ultimately show ?thesis using copy_tail [of out iv s1 len] assms(6) by simp
  qed
  moreover have "write_buf (out + len) (drop len v) s1 = write_buf out ?y s"
    using write_buf_twice [of out "map2 (XOR) ?x (take len v)" "drop len v" s] map2_pad [OF lv, of ?x] lx lv o assms(6) by (simp add: s1_def)
  ultimately have "cbc_encrypt_tail block inp out len iv s = (Buf out, write_buf out cs s)"
    using False assms(6) run_block_over [of out s ?y block, OF o ly lc] by (subst cbc_encrypt_tail.simps) (simp add: cs)
  moreover have "read_at (Buf out) 0 16 (write_buf out cs s) = cs"
    using load_store [of out cs "buf s"] o lc by (simp add: cs)
  moreover have "last_block v cs = cs"
    using last_block_simps(2) [of cs v "[]"] lc by (simp add: cs last_block_simps)
  ultimately show ?thesis by auto
qed

lemma cbc_encrypted_append:
  assumes "cipher_ok block"
  shows "length iv = 16 \<Longrightarrow> length xs = n * 16 \<Longrightarrow>
    cbc_encrypted block iv (xs @ ys) = cbc_encrypted block iv xs @ cbc_encrypted block (last_block iv (cbc_encrypted block iv xs)) ys"
proof (induction n arbitrary: iv xs)
  case 0
  then show ?case by (simp add: cbc_encrypted_simps last_block_simps)
next
  case (Suc n)
  obtain b zs where xs: "xs = b @ zs" "length b = 16" "length zs = n * 16"
    using Suc.prems(2) append_take_drop_id [of 16 xs] by (metis add_diff_cancel_left' length_append length_drop length_take min.absorb2 le_add1 mult_Suc)
  have "length (block (map2 (XOR) b iv)) = 16" using assms xs Suc.prems(1) by (simp add: cipher_ok_def)
  then show ?case using Suc.IH [of "block (map2 (XOR) b iv)" zs] xs by (simp add: cbc_encrypted_simps last_block_simps)
qed

lemma last_block_append: "length cs = n * 16 \<Longrightarrow> last_block iv (cs @ ds) = last_block (last_block iv cs) ds"
proof (induction n arbitrary: iv cs)
  case 0
  then show ?case by (simp add: last_block_simps)
next
  case (Suc n)
  obtain b zs where xs: "cs = b @ zs" "length b = 16" "length zs = n * 16"
    using Suc.prems append_take_drop_id [of 16 cs] by (metis add_diff_cancel_left' length_append length_drop length_take min.absorb2 le_add1 mult_Suc)
  then show ?case using Suc.IH [of zs] by (simp add: last_block_simps)
qed

lemma whole_blocks: "k = len div 16 * 16 \<Longrightarrow> k \<le> len \<and> len - k < 16 \<and> roundup len = k + roundup (len - k)" for len k :: nat
proof -
  assume k: "k = len div 16 * 16"
  have l: "len = k + (len - k)" "len - k < 16" "k \<le> len" by (simp_all add: k minus_div_mult_eq_mod)
  have "len + 15 = (len - k + 15) + len div 16 * 16" using l(1) unfolding k by linarith
  then have "(len + 15) div 16 = len div 16 + (len - k + 15) div 16" by (simp only: div_mult_self1 [of 16])
  then show ?thesis using l by (simp add: k distrib_right)
qed

lemma CRYPTO_cbc128_encrypt:
  assumes "cipher_ok block" and "readable len out (Buf inp) s" and "out + roundup len \<le> length (buf s)" and "length (ivec s) = 16"
  defines "cs \<equiv> cbc_encrypted block (ivec s) (load inp len (buf s))"
  shows "CRYPTO_cbc128_encrypt block inp out len s = (write_buf out cs s)\<lparr>ivec := last_block (ivec s) cs\<rparr>"
proof (cases "len = 0")
  case True
  then show ?thesis by (simp add: CRYPTO_cbc128_encrypt_def cs_def cbc_encrypted_simps last_block_simps)
next
  case False
  define k where "k = len div 16 * 16"
  note w = whole_blocks [OF k_def]
  define xs where "xs = load inp k (buf s)"
  define cs1 where "cs1 = cbc_encrypted block (ivec s) xs"
  define s1 where "s1 = write_buf out cs1 s"
  have iv: "readable 16 out Ivec s" "read_at Ivec 0 16 s = ivec s" using assms(4) by (simp_all add: load_def)
  obtain iv1 where 1: "cbc_encrypt_blocks block inp out len Ivec s = ((inp + k, out + k, len - k, iv1), s1)"
    "readable 16 (out + k) iv1 s1" "read_at iv1 0 16 s1 = last_block (ivec s) cs1"
    using cbc_encrypt_blocks [OF assms(1,2) iv(1) assms(3) iv(2) k_def] by (auto simp: s1_def cs1_def xs_def)
  have lx: "length xs = len div 16 * 16" using assms(2) w by (auto simp: xs_def length_load k_def)
  have l1: "length cs1 = k" using lx assms(4) by (simp add: cs1_def length_cbc_encrypted [OF assms(1)] k_def)
  have o: "out + length cs1 \<le> length (buf s)" using assms(3) w l1 by simp
  have b1: "length (buf s1) = length (buf s)" by (simp add: s1_def length_store [OF o])
  have r: "readable (len - k) (out + k) (Buf (inp + k)) s1" using assms(2) w b1 by auto
  have ld: "load (inp + k) (len - k) (buf s1) = load (inp + k) (len - k) (buf s)"
    unfolding s1_def write_buf_simps by (rule load_store_other [OF o]) (use assms(2) w l1 in auto)
  define cs2 where "cs2 = cbc_encrypted block (last_block (ivec s) cs1) (load (inp + k) (len - k) (buf s))"
  obtain iv2 where 2: "cbc_encrypt_tail block (inp + k) (out + k) (len - k) iv1 s1 = (iv2, write_buf (out + k) cs2 s1)"
    "read_at iv2 0 16 (write_buf (out + k) cs2 s1) = last_block (last_block (ivec s) cs1) cs2"
    using cbc_encrypt_tail [OF assms(1) r 1(2) _ 1(3)] w assms(3) b1 by (auto simp: ld cs2_def)
  have "load inp len (buf s) = xs @ load (inp + k) (len - k) (buf s)"
    using load_add [of inp k "len - k" "buf s"] assms(2) w by (auto simp: xs_def)
  then have cs: "cs = cs1 @ cs2" using cbc_encrypted_append [OF assms(1,4) lx] by (simp add: cs_def cs1_def cs2_def)
  have l2: "length cs2 = roundup (len - k)"
  proof -
    have "length (last_block (ivec s) cs1) = 16" using length_read [OF 1(2), of 0 16] 1(3) by simp
    then show ?thesis using assms(2) w by (auto simp: cs2_def length_cbc_encrypted [OF assms(1)] length_load)
  qed
  have "write_buf (out + k) cs2 s1 = write_buf out cs s"
    using write_buf_twice [of out cs1 cs2 s] l1 l2 w assms(3) by (simp add: s1_def cs)
  moreover have "last_block (last_block (ivec s) cs1) cs2 = last_block (ivec s) cs"
    unfolding cs by (rule last_block_append [symmetric]) (use l1 k_def in simp)
  ultimately show ?thesis using False 1(1) 2 by (simp add: CRYPTO_cbc128_encrypt_def)
qed

section \<open>Decryption\<close>

lemma length_cbc_decrypted: "cipher_ok block \<Longrightarrow> length iv = 16 \<Longrightarrow> length cs = n * 16 \<Longrightarrow> length (cbc_decrypted block iv cs) = n * 16"
proof (induction n arbitrary: iv cs)
  case 0
  then show ?case by (simp add: cbc_decrypted_simps)
next
  case (Suc n)
  have l: "length (take 16 cs) = 16" "length (drop 16 cs) = n * 16" using Suc.prems(3) by simp_all
  then have "length (block (take 16 cs)) = 16" using Suc.prems(1) by (simp add: cipher_ok_def)
  then show ?case
    using cbc_decrypted_simps(2) [OF l(1), of block iv "drop 16 cs"] Suc.IH [OF Suc.prems(1) l] Suc.prems(2) by simp
qed

lemma last_block_length: "length iv = 16 \<Longrightarrow> length cs = n * 16 \<Longrightarrow> length (last_block iv cs) = 16"
proof (induction n arbitrary: iv cs)
  case (Suc n)
  have l: "length (take 16 cs) = 16" "length (drop 16 cs) = n * 16" using Suc.prems(2) by simp_all
  then show ?case using last_block_simps(2) [OF l(1), of iv "drop 16 cs"] Suc.IH [OF l] by simp
qed (simp add: last_block_simps)

text \<open>The loop for a destination that is two blocks behind, or apart.\<close>

lemma cbc_decrypt_ahead:
  assumes "cipher_ok block" and "inp + k \<le> length (buf s)" and "out + k \<le> length (buf s)" and "out + 32 \<le> inp \<or> inp + k \<le> out"
    and "iv = Ivec \<and> length (ivec s) = 16 \<or> iv = Buf (inp - 16) \<and> 16 \<le> inp" and "read_at iv 0 16 s = v" and "k = len div 16 * 16"
  defines "cs \<equiv> load inp k (buf s)"
  defines "ps \<equiv> cbc_decrypted block v cs"
  shows "\<exists>iv'. cbc_decrypt_ahead block inp out len iv s = ((inp + k, out + k, len - k, iv'), write_buf out ps s) \<and>
    read_at iv' 0 16 (write_buf out ps s) = last_block v cs"
  using assms(2-7) unfolding ps_def cs_def
proof (induction len arbitrary: inp out iv s v k rule: less_induct)
  case (less len)
  show ?case
  proof (cases "16 \<le> len")
    case False
    then have "k = 0" using less.prems(6) by simp
    then show ?thesis using False less.prems(5) by (subst cbc_decrypt_ahead.simps) (simp add: cbc_decrypted_simps last_block_simps)
  next
    case True
    then obtain m where m: "len = m + 16" by (metis le_add_diff_inverse2)
    define n where "n = m div 16 * 16"
    have k: "k = n + 16" using less.prems(6) unfolding m n_def by (simp only: roundup_16)
    define b where "b = load inp 16 (buf s)"
    define x where "x = map2 (XOR) (block b) v"
    define s0 where "s0 = write_buf out (block b) s"
    define s1 where "s1 = write_buf out x s"
    have o: "out + 16 \<le> length (buf s)" using less.prems(2) k by simp
    have lb: "length b = 16" using less.prems(1) k by (simp add: b_def length_load)
    have ld: "length (block b) = 16" using assms(1) lb by (simp add: cipher_ok_def)
    have o0: "out + length (block b) \<le> length (buf s)" using o ld by simp
    have iv: "readable 16 out iv s" "read_at iv 0 16 s0 = v"
    proof -
      show "readable 16 out iv s" using less.prems(1,3,4) k by auto
      from less.prems(4) show "read_at iv 0 16 s0 = v"
      proof
        assume "iv = Ivec \<and> length (ivec s) = 16"
        then show ?thesis using less.prems(5) by (simp add: s0_def)
      next
        assume i: "iv = Buf (inp - 16) \<and> 16 \<le> inp"
        have "load (inp - 16) 16 (buf s0) = load (inp - 16) 16 (buf s)"
          unfolding s0_def write_buf_simps by (rule load_store_other [OF o0]) (use i less.prems(1,3) k ld in auto)
        then show ?thesis using less.prems(5) i by simp
      qed
    qed
    have lv: "length v = 16" using length_read [OF iv(1), of 0 16] less.prems(5) by simp
    have lx: "length x = 16" using ld lv by (simp add: x_def)
    have ox: "out + length x \<le> length (buf s)" using o lx by simp
    have r0: "readable 16 out (Buf out) s0" "readable 16 out iv s0"
      unfolding s0_def readable_write [OF o0] using o iv(1) by simp_all
    have "read_at (Buf out) 0 16 s0 = block b" using load_store [of out "block b" "buf s"] o ld by (simp add: s0_def)
    then have "CRYPTO_xor16 out (Buf out) iv s0 = write_buf out x s0"
      using CRYPTO_xor16 [OF r0] o iv(2) by (simp add: x_def) (simp add: s0_def length_store [OF o0])
    also have "\<dots> = s1" unfolding s0_def s1_def by (rule write_buf_over [OF o0]) (simp add: ld lx)
    finally have step: "cbc_decrypt_ahead block inp out len iv s = cbc_decrypt_ahead block (inp + 16) (out + 16) m (Buf inp) s1"
      using m by (subst cbc_decrypt_ahead.simps) (simp add: run_block_def b_def s0_def)
    have b1: "length (buf s1) = length (buf s)" by (simp add: s1_def length_store [OF ox])
    have c1: "load inp 16 (buf s1) = b"
      unfolding s1_def write_buf_simps b_def by (rule load_store_other [OF ox]) (use less.prems(1,3) k lx in auto)
    have i1: "load (inp + 16) n (buf s1) = load (inp + 16) n (buf s)"
      unfolding s1_def write_buf_simps by (rule load_store_other [OF ox]) (use less.prems(1,3) k lx in auto)
    define ds where "ds = cbc_decrypted block b (load (inp + 16) n (buf s))"
    have "length ds = n"
      using length_cbc_decrypted [OF assms(1) lb, of "load (inp + 16) n (buf s)" "m div 16"] less.prems(1) k
      by (simp add: ds_def length_load n_def)
    then have w: "write_buf (out + 16) ds s1 = write_buf out (x @ ds) s"
      using write_buf_twice [of out x ds s] less.prems(2) k lx by (simp add: s1_def)
    have "\<exists>iv'. cbc_decrypt_ahead block (inp + 16) (out + 16) m (Buf inp) s1 =
        ((inp + 16 + n, out + 16 + n, m - n, iv'), write_buf (out + 16) ds s1) \<and>
      read_at iv' 0 16 (write_buf (out + 16) ds s1) = last_block b (load (inp + 16) n (buf s))"
      unfolding ds_def i1 [symmetric]
      by (rule less.IH) (use less.prems(1-3) k m b1 c1 in \<open>auto simp: n_def\<close>)
    moreover have "load inp k (buf s) = b @ load (inp + 16) n (buf s)"
      using load_16 [of k inp "buf s"] by (simp add: k b_def)
    moreover from this have "cbc_decrypted block v (load inp k (buf s)) = x @ ds"
      using lb by (simp add: cbc_decrypted_simps ds_def x_def)
    ultimately show ?thesis
      using step lb k m by (simp add: w last_block_simps add.assoc add.commute [of n])
  qed
qed

text \<open>The loop with a temporary block.\<close>

lemma decrypt_words:
  assumes "length tmp = 16" and "length (ivec s) = 16" and "inp + 16 \<le> length (buf s)" and "out \<le> inp"
  shows "decrypt_word tmp inp out 8 (decrypt_word tmp inp out 0 s) =
    (write_buf out (map2 (XOR) tmp (ivec s)) s)\<lparr>ivec := load inp 16 (buf s)\<rparr>"
proof -
  let ?v = "ivec s"
  have r: "readable 16 out (Buf inp) s" using assms(3,4) by simp
  have cp: "CRYPTO_store_word_le (CRYPTO_load_word_le xs) = xs" if "length xs = 8" for xs
    using that by (simp add: CRYPTO_store_word_le_def CRYPTO_load_word_le_def le_image_value)
  let ?x = "map2 (XOR) (load 0 8 tmp) (load 0 8 ?v)"
  let ?y = "map2 (XOR) (load 8 8 tmp) (load 8 8 ?v)"
  let ?c = "load inp 8 (buf s)"
  define s1 where "s1 = (write_buf out ?x s)\<lparr>ivec := store 0 ?c ?v\<rparr>"
  have lt: "length (load 0 8 tmp) = 8" "length (load 8 8 tmp) = 8" "length (load 0 8 ?v) = 8" "length (load 8 8 ?v) = 8"
    using assms(1,2) by (simp_all add: length_load)
  have lc: "length ?c = 8" "length (load (inp + 8) 8 (buf s)) = 8" using assms(3) by (simp_all add: length_load)
  have 1: "decrypt_word tmp inp out 0 s = s1"
    by (simp add: decrypt_word_def s1_def Let_def cp store_xor_load lt lc)
  have o: "out + length ?x \<le> length (buf s)" using assms(3,4) lt by simp
  have rd: "load (inp + 8) 8 (buf s1) = load (inp + 8) 8 (buf s)"
    using load_store_other [OF o, of "inp + 8" 8] assms(3,4) lt by (simp add: s1_def)
  have iv: "load 8 8 (store 0 ?c ?v) = load 8 8 ?v"
    by (rule load_store_other) (use assms(2) lc in simp_all)
  have "decrypt_word tmp inp out 8 s1 = (write_buf (out + 8) ?y s1)\<lparr>ivec := store 8 (load (inp + 8) 8 (buf s)) (store 0 ?c ?v)\<rparr>"
    using rd iv by (simp add: decrypt_word_def Let_def cp store_xor_load lt lc) (simp add: s1_def iv store_xor_load lt write_buf_def)
  also have "\<dots> = (write_buf out (?x @ ?y) s)\<lparr>ivec := store 0 (?c @ load (inp + 8) 8 (buf s)) ?v\<rparr>"
    using store_store [of out ?x ?y "buf s"] store_store [of 0 ?c "load (inp + 8) 8 (buf s)" ?v] assms(2-4) lt lc
    by (simp add: s1_def write_buf_def)
  also have "?x @ ?y = map2 (XOR) tmp ?v"
    using map2_split [of tmp ?v "(XOR)" 8] assms(1,2) by (simp add: load_def)
  also have "store 0 (?c @ load (inp + 8) 8 (buf s)) ?v = load inp 16 (buf s)"
    using load_add [of inp 8 8 "buf s"] assms(2,3) lc by (simp add: store_def)
  finally show ?thesis using 1 by simp
qed

lemma cbc_decrypt_near:
  assumes "cipher_ok block" and "inp + k \<le> length (buf s)" and "out \<le> inp" and "length (ivec s) = 16" and "k = len div 16 * 16"
  defines "cs \<equiv> load inp k (buf s)"
  shows "cbc_decrypt_near block inp out len s =
    ((inp + k, out + k, len - k), (write_buf out (cbc_decrypted block (ivec s) cs) s)\<lparr>ivec := last_block (ivec s) cs\<rparr>)"
  using assms(2-5) unfolding cs_def
proof (induction len arbitrary: inp out s k rule: less_induct)
  case (less len)
  show ?case
  proof (cases "16 \<le> len")
    case False
    then have "k = 0" using less.prems(4) by simp
    then show ?thesis using False by (subst cbc_decrypt_near.simps) (simp add: cbc_decrypted_simps last_block_simps)
  next
    case True
    then obtain m where m: "len = m + 16" by (metis le_add_diff_inverse2)
    define n where "n = m div 16 * 16"
    have k: "k = n + 16" using less.prems(4) unfolding m n_def by (simp only: roundup_16)
    define b where "b = load inp 16 (buf s)"
    define x where "x = map2 (XOR) (block b) (ivec s)"
    define s1 where "s1 = (write_buf out x s)\<lparr>ivec := b\<rparr>"
    have lb: "length b = 16" using less.prems(1) k by (simp add: b_def length_load)
    have ld: "length (block b) = 16" using assms(1) lb by (simp add: cipher_ok_def)
    have lx: "length x = 16" using ld less.prems(3) by (simp add: x_def)
    have ox: "out + length x \<le> length (buf s)" using less.prems(1,2) k lx by simp
    have "decrypt_word (block b) inp out 8 (decrypt_word (block b) inp out 0 s) = s1"
      using decrypt_words [OF ld less.prems(3) _ less.prems(2)] less.prems(1) k by (simp add: s1_def x_def b_def)
    then have step: "cbc_decrypt_near block inp out len s = cbc_decrypt_near block (inp + 16) (out + 16) m s1"
      using m by (subst cbc_decrypt_near.simps) (simp add: b_def)
    have i1: "load (inp + 16) n (buf s1) = load (inp + 16) n (buf s)"
      using load_store_other [OF ox, of "inp + 16" n] less.prems(1,2) k lx by (simp add: s1_def)
    define ds where "ds = cbc_decrypted block b (load (inp + 16) n (buf s))"
    have "length ds = n"
      using length_cbc_decrypted [OF assms(1) lb, of "load (inp + 16) n (buf s)" "m div 16"] less.prems(1) k
      by (simp add: ds_def length_load n_def)
    then have w: "store (out + 16) ds (store out x (buf s)) = store out (x @ ds) (buf s)"
      using store_store [of out x ds "buf s"] less.prems(1,2) k lx by simp
    have "cbc_decrypt_near block (inp + 16) (out + 16) m s1 =
        ((inp + 16 + n, out + 16 + n, m - n), (write_buf (out + 16) (cbc_decrypted block (ivec s1) (load (inp + 16) n (buf s1))) s1)
          \<lparr>ivec := last_block (ivec s1) (load (inp + 16) n (buf s1))\<rparr>)"
      by (rule less.IH) (use less.prems(1,2) k m lb ox in \<open>auto simp: n_def s1_def length_store\<close>)
    moreover have "load inp k (buf s) = b @ load (inp + 16) n (buf s)"
      using load_16 [of k inp "buf s"] by (simp add: k b_def)
    moreover from this have "cbc_decrypted block (ivec s) (load inp k (buf s)) = x @ ds"
      using lb by (simp add: cbc_decrypted_simps ds_def x_def)
    ultimately show ?thesis
      using step lb k m unfolding i1
      by (simp add: s1_def write_buf_def w last_block_simps add.assoc add.commute [of n] ds_def [symmetric])
  qed
qed

lemma load_step:
  assumes "n < m" and "i + m \<le> length b"
  shows "load (i + n) (m - n) b = load (i + n) 1 b @ load (i + (n + 1)) (m - (n + 1)) b"
proof -
  have "m - n = 1 + (m - (n + 1))" using assms(1) by simp
  then show ?thesis using load_add [of "i + n" 1 "m - (n + 1)" b] assms by (simp add: add.assoc)
qed

lemma decrypt_bytes:
  assumes "readable len out (Buf inp) s" and "length tmp = 16" and "length (ivec s) = 16" and "out + len \<le> length (buf s)"
    and "n \<le> len" and "len \<le> 16"
  shows "decrypt_bytes tmp inp out len n s =
    (len, (write_buf (out + n) (map2 (XOR) (load n (len - n) tmp) (load n (len - n) (ivec s))) s)
      \<lparr>ivec := store n (load (inp + n) (len - n) (buf s)) (ivec s)\<rparr>)"
  using assms
proof (induction "len - n" arbitrary: n s)
  case 0
  then show ?case by (subst decrypt_bytes.simps) (simp add: store_def)
next
  case (Suc d)
  have n: "n < len" "n < 16" using Suc.hyps(2) Suc.prems(6) by simp_all
  let ?v = "ivec s"
  define b where "b = map2 (XOR) (load n 1 tmp) (load n 1 ?v)"
  define r where "r = map2 (XOR) (load (n + 1) (len - (n + 1)) tmp) (load (n + 1) (len - (n + 1)) ?v)"
  define c where "c = load (inp + n) 1 (buf s)"
  define e where "e = load (inp + (n + 1)) (len - (n + 1)) (buf s)"
  define s1 where "s1 = (write_buf (out + n) b s)\<lparr>ivec := store n c ?v\<rparr>"
  have l: "length b = 1" "length c = 1" "length r = len - (n + 1)" "length e = len - (n + 1)"
    using Suc.prems n by (simp_all add: b_def c_def r_def e_def length_load)
  have w: "out + n + length b \<le> length (buf s)" using Suc.prems(4) n l by simp
  have ld: "load (inp + (n + 1)) (len - (n + 1)) (buf s1) = e"
    using load_store_other [OF w, of "inp + (n + 1)" "len - (n + 1)"] Suc.prems(1) n l by (auto simp: s1_def e_def)
  have iv: "load (n + 1) (len - (n + 1)) (store n c ?v) = load (n + 1) (len - (n + 1)) ?v"
    by (rule load_store_other) (use Suc.prems(3,6) n l in simp_all)
  have "decrypt_bytes tmp inp out len (n + 1) s1 =
      (len, (write_buf (out + (n + 1)) (map2 (XOR) (load (n + 1) (len - (n + 1)) tmp) (load (n + 1) (len - (n + 1)) (ivec s1))) s1)
        \<lparr>ivec := store (n + 1) (load (inp + (n + 1)) (len - (n + 1)) (buf s1)) (ivec s1)\<rparr>)"
    by (rule Suc.hyps(1)) (use Suc.hyps(2) Suc.prems n l w in \<open>simp_all add: s1_def length_store\<close>)
  also have "\<dots> = (len, (write_buf (out + n) (b @ r) s)\<lparr>ivec := store n (c @ e) ?v\<rparr>)"
    unfolding ld using store_store [of "out + n" b r "buf s"] store_store [of n c e ?v] Suc.prems(3,4,6) n l
    by (simp add: s1_def write_buf_def iv r_def [symmetric] add.assoc del: One_nat_def)
  also have "b @ r = map2 (XOR) (load n (len - n) tmp) (load n (len - n) ?v)"
  proof -
    have "load n (len - n) z = load n 1 z @ load (n + 1) (len - (n + 1)) z" if "length z = 16" for z
      using load_step [OF n(1), of 0 z] that Suc.prems(6) by simp
    from this [OF Suc.prems(2)] this [OF Suc.prems(3)] show ?thesis
      using Suc.prems(2,3) n by (simp add: b_def r_def length_load del: One_nat_def)
  qed
  also have "c @ e = load (inp + n) (len - n) (buf s)"
    using load_step [OF n(1), of inp "buf s"] Suc.prems(1) by (simp add: c_def e_def)
  finally show ?case using n by (subst decrypt_bytes.simps) (simp add: s1_def b_def c_def del: One_nat_def)
qed

lemma copy_ivec:
  assumes "inp + 16 \<le> length (buf s)" and "length (ivec s) = 16" and "n \<le> 16"
  shows "copy_ivec inp n s = s\<lparr>ivec := store n (load (inp + n) (16 - n) (buf s)) (ivec s)\<rparr>"
  using assms
proof (induction "16 - n" arbitrary: n s)
  case 0
  then show ?case by (subst copy_ivec.simps) (simp add: store_def)
next
  case (Suc d)
  have n: "n < 16" using Suc.hyps(2) by simp
  define c where "c = load (inp + n) 1 (buf s)"
  define e where "e = load (inp + (n + 1)) (16 - (n + 1)) (buf s)"
  define s1 where "s1 = s\<lparr>ivec := store n c (ivec s)\<rparr>"
  have l: "length c = 1" "length e = 16 - (n + 1)" using Suc.prems(1) n by (simp_all add: c_def e_def length_load)
  have "copy_ivec inp (n + 1) s1 = s1\<lparr>ivec := store (n + 1) (load (inp + (n + 1)) (16 - (n + 1)) (buf s1)) (ivec s1)\<rparr>"
    by (rule Suc.hyps(1)) (use Suc.hyps(2) Suc.prems n l in \<open>simp_all add: s1_def length_store\<close>)
  also have "load (inp + (n + 1)) (16 - (n + 1)) (buf s1) = e" by (simp add: s1_def e_def)
  also have "s1\<lparr>ivec := store (n + 1) e (ivec s1)\<rparr> = s\<lparr>ivec := store n (c @ e) (ivec s)\<rparr>"
    using store_store [of n c e "ivec s"] Suc.prems(2) n l by (simp add: s1_def del: One_nat_def)
  also have "c @ e = load (inp + n) (16 - n) (buf s)"
    using load_step [OF n, of inp "buf s"] Suc.prems(1) by (simp add: c_def e_def)
  finally show ?case using n by (subst copy_ivec.simps) (simp add: s1_def c_def del: One_nat_def)
qed

lemma cbc_decrypt_tail:
  assumes "cipher_ok block" and "inp + roundup len \<le> length (buf s)" and "out + len \<le> length (buf s)" and "length (ivec s) = 16"
    and "out \<le> inp \<or> inp + roundup len \<le> out" and "len < 16"
  defines "cs \<equiv> load inp (roundup len) (buf s)"
  shows "cbc_decrypt_tail block inp out len s =
    (write_buf out (take len (cbc_decrypted block (ivec s) cs)) s)\<lparr>ivec := last_block (ivec s) cs\<rparr>"
proof (cases "len = 0")
  case True
  then show ?thesis by (subst cbc_decrypt_tail.simps) (simp add: cs_def last_block_simps)
next
  case False
  have "(len + 15) div 16 = 1" by (rule div_nat_eqI) (use False assms(6) in simp_all)
  then have ru: "roundup len = 16" by simp
  let ?v = "ivec s"
  have lc: "length cs = 16" using assms(2) by (simp add: cs_def ru length_load)
  have lt: "length (block cs) = 16" using assms(1) lc by (simp add: cipher_ok_def)
  have dec: "cbc_decrypted block ?v cs = map2 (XOR) (block cs) ?v"
    using cbc_decrypted_simps(2) [OF lc, of block ?v "[]"] by (simp add: cbc_decrypted_simps)
  have lb: "last_block ?v cs = cs" using last_block_simps(2) [OF lc, of ?v "[]"] by (simp add: last_block_simps)
  have r: "readable len out (Buf inp) s" using assms(2,5,6) ru by auto
  let ?x = "map2 (XOR) (load 0 len (block cs)) (load 0 len ?v)"
  have x: "?x = take len (cbc_decrypted block ?v cs)" by (simp add: dec load_def take_map take_zip)
  have lx: "length ?x = len" using lt assms(4,6) by (simp add: length_load)
  define s1 where "s1 = (write_buf out ?x s)\<lparr>ivec := store 0 (load inp len (buf s)) ?v\<rparr>"
  have 1: "decrypt_bytes (block cs) inp out len 0 s = (len, s1)"
    using decrypt_bytes [OF r lt assms(4,3), of 0] assms(6) by (simp add: s1_def)
  have o: "out + length ?x \<le> length (buf s)" using assms(3) lx by simp
  have ll: "length (load inp len (buf s)) = len" "length (load (inp + len) (16 - len) (buf s)) = 16 - len"
    using assms(2,6) ru by (simp_all add: length_load)
  have "copy_ivec inp len s1 = s1\<lparr>ivec := store len (load (inp + len) (16 - len) (buf s1)) (ivec s1)\<rparr>"
    by (rule copy_ivec) (use assms(2,4,6) ru o ll in \<open>simp_all add: s1_def length_store\<close>)
  moreover have "load (inp + len) (16 - len) (buf s1) = load (inp + len) (16 - len) (buf s)"
    using load_store_other [OF o, of "inp + len" "16 - len"] assms(2,5,6) ru lx by (auto simp: s1_def)
  moreover have "store len (load (inp + len) (16 - len) (buf s)) (ivec s1) = cs"
    using store_store [of 0 "load inp len (buf s)" "load (inp + len) (16 - len) (buf s)" ?v] load_add [of inp len "16 - len" "buf s"]
      assms(2,4,6) ru ll lc by (simp add: s1_def cs_def store_def)
  ultimately have "copy_ivec inp len s1 = (write_buf out (take len (cbc_decrypted block ?v cs)) s)\<lparr>ivec := cs\<rparr>"
    by (simp add: s1_def x write_buf_def)
  then show ?thesis
    using 1 False assms(6) by (subst cbc_decrypt_tail.simps) (simp add: lb [unfolded cs_def ru] ru cs_def)
qed

lemma cbc_decrypted_append:
  "length xs = n * 16 \<Longrightarrow> cbc_decrypted block iv (xs @ ys) = cbc_decrypted block iv xs @ cbc_decrypted block (last_block iv xs) ys"
proof (induction n arbitrary: iv xs)
  case 0
  then show ?case by (simp add: cbc_decrypted_simps last_block_simps)
next
  case (Suc n)
  have l: "length (take 16 xs) = 16" "length (drop 16 xs) = n * 16" using Suc.prems by simp_all
  show ?case
    using cbc_decrypted_simps(2) [OF l(1), of block iv "drop 16 xs"] cbc_decrypted_simps(2) [OF l(1), of block iv "drop 16 xs @ ys"]
      last_block_simps(2) [OF l(1), of iv "drop 16 xs"] Suc.IH [OF l(2)] by (simp flip: append_assoc)
qed

lemma CRYPTO_cbc128_decrypt:
  assumes "cipher_ok block" and "inp + roundup len \<le> length (buf s)" and "out + len \<le> length (buf s)" and "length (ivec s) = 16"
    and "out \<le> inp \<or> inp + roundup len \<le> out"
  defines "cs \<equiv> load inp (roundup len) (buf s)"
  shows "CRYPTO_cbc128_decrypt block inp out len s =
    (write_buf out (take len (cbc_decrypted block (ivec s) cs)) s)\<lparr>ivec := last_block (ivec s) cs\<rparr>"
proof (cases "len = 0")
  case True
  then show ?thesis by (simp add: CRYPTO_cbc128_decrypt_def cs_def last_block_simps)
next
  case False
  let ?v = "ivec s"
  define k where "k = len div 16 * 16"
  note w = whole_blocks [OF k_def]
  define xs where "xs = load inp k (buf s)"
  define ys where "ys = load (inp + k) (roundup (len - k)) (buf s)"
  have lx: "length xs = len div 16 * 16" using assms(2) w by (simp add: xs_def length_load k_def)
  have cs: "cs = xs @ ys" using load_add [of inp k "roundup (len - k)" "buf s"] assms(2) w by (simp add: cs_def xs_def ys_def)
  define ps where "ps = cbc_decrypted block ?v xs"
  define iv1 where "iv1 = last_block ?v xs"
  have lp: "length ps = k" using length_cbc_decrypted [OF assms(1,4) lx] by (simp add: ps_def k_def)
  have lv: "length iv1 = 16" unfolding iv1_def by (rule last_block_length [OF assms(4) lx])
  have o: "out + length ps \<le> length (buf s)" using assms(3) w lp by simp
  define s1 where "s1 = (write_buf out ps s)\<lparr>ivec := iv1\<rparr>"
  have k: "inp + k \<le> length (buf s)" "out + k \<le> length (buf s)" using assms(2,3) w by simp_all
  have "CRYPTO_cbc128_decrypt block inp out len s = cbc_decrypt_tail block (inp + k) (out + k) (len - k) s1"
  proof (cases "inp \<ge> 32 \<and> out \<le> inp - 32 \<or> inp < out")
    case True
    then have a: "out + 32 \<le> inp \<or> inp + k \<le> out" using assms(5) w by auto
    have iv: "Ivec = Ivec \<and> length ?v = 16 \<or> Ivec = Buf (inp - 16) \<and> 16 \<le> inp" "read_at Ivec 0 16 s = ?v"
      using assms(4) by (simp_all add: load_def)
    obtain iv' where "cbc_decrypt_ahead block inp out len Ivec s = ((inp + k, out + k, len - k, iv'), write_buf out ps s)"
      "read_at iv' 0 16 (write_buf out ps s) = iv1"
      using cbc_decrypt_ahead [OF assms(1) k a iv k_def] by (auto simp: ps_def iv1_def xs_def)
    then show ?thesis using False True by (simp add: CRYPTO_cbc128_decrypt_def s1_def)
  next
    case ahead: False
    then have "out \<le> inp" by simp
    from cbc_decrypt_near [OF assms(1) k(1) this assms(4) k_def] show ?thesis
      unfolding CRYPTO_cbc128_decrypt_def if_not_P [OF ahead] if_not_P [OF False] by (simp add: s1_def ps_def iv1_def xs_def)
  qed
  also have "\<dots> = (write_buf (out + k) (take (len - k) (cbc_decrypted block iv1 ys)) s1)\<lparr>ivec := last_block iv1 ys\<rparr>"
  proof -
    have "load (inp + k) (roundup (len - k)) (buf s1) = ys"
      using load_store_other [OF o, of "inp + k" "roundup (len - k)"] assms(2,5) w lp by (auto simp: s1_def ys_def)
    then show ?thesis
      using cbc_decrypt_tail [OF assms(1), of "inp + k" "len - k" s1 "out + k"] assms(2,3,5) w lv
      by (auto simp: length_store [OF o] s1_def)
  qed
  also have "\<dots> = (write_buf out (ps @ take (len - k) (cbc_decrypted block iv1 ys)) s)\<lparr>ivec := last_block iv1 ys\<rparr>"
  proof -
    have "length (take (len - k) (cbc_decrypted block iv1 ys)) \<le> len - k" by simp
    then have "out + length ps + length (take (len - k) (cbc_decrypted block iv1 ys)) \<le> length (buf s)" using assms(3) w lp by linarith
    from store_store [OF this] show ?thesis using lp by (simp add: s1_def write_buf_def)
  qed
  also have "ps @ take (len - k) (cbc_decrypted block iv1 ys) = take len (cbc_decrypted block ?v cs)"
    using cbc_decrypted_append [OF lx, of block ?v ys] lp w by (simp add: cs ps_def iv1_def)
  also have "last_block iv1 ys = last_block ?v cs"
    unfolding cs iv1_def by (rule last_block_append [OF lx, symmetric])
  finally show ?thesis .
qed

lemma cbc_decrypted_encrypted:
  assumes "cipher_ok enc" and "\<forall>x. length x = 16 \<longrightarrow> dec (enc x) = x"
  shows "length iv = 16 \<Longrightarrow> take (length xs) (cbc_decrypted dec iv (cbc_encrypted enc iv xs)) = xs"
  using assms
proof (induction enc iv xs rule: cbc_encrypted.induct)
  case (1 enc iv xs)
  show ?case
  proof (cases "xs = []")
    case False
    define b where "b = pad16 (take 16 xs)"
    define c where "c = enc (map2 (XOR) b iv)"
    have lb: "length b = 16" by (simp add: b_def pad16_def)
    then have c: "length c = 16" "dec c = map2 (XOR) b iv" using "1.prems" by (simp_all add: c_def cipher_ok_def)
    have "map2 (XOR) (map2 (XOR) b iv) iv = b"
      by (rule nth_equalityI) (use lb "1.prems"(1) in \<open>simp_all add: xor.assoc\<close>)
    then have e: "cbc_decrypted dec iv (cbc_encrypted enc iv xs) = b @ cbc_decrypted dec c (cbc_encrypted enc c (drop 16 xs))"
      using False c by (subst cbc_encrypted.simps) (simp add: cbc_decrypted_simps Let_def b_def [symmetric] c_def [symmetric])
    have ih: "take (length (drop 16 xs)) (cbc_decrypted dec c (cbc_encrypted enc c (drop 16 xs))) = drop 16 xs"
      using "1.IH" [OF False refl, folded b_def, folded c_def, OF c(1) "1.prems"(2,3)] .
    show ?thesis
    proof (cases "16 \<le> length xs")
      case True
      then have "b = take 16 xs" by (simp add: b_def pad16_def)
      then show ?thesis using ih lb unfolding e by (simp add: append_take_drop_id)
    next
      case short: False
      then show ?thesis unfolding e by (simp add: b_def pad16_def)
    qed
  qed simp
qed

section \<open>The properties\<close>

text \<open>
  The assertion \<open>inptr >= outptr || inptr + len <= outptr\<close> of \<open>CRYPTO_cbc128_decrypt\<close> lets through an output that begins inside
  the last, padded block of the ciphertext: here 19 bytes at 0, of which 32 are read, and the output at 19. The
  bytes of the last block are overwritten before they are read.
\<close>

lemma cbc_decrypt_overlap:
  fixes s s1 :: block_mem
  defines "s \<equiv> \<lparr>buf = replicate 38 7, ivec = replicate 16 0\<rparr>"
  defines "s1 \<equiv> CRYPTO_cbc128_encrypt rev 0 0 19 s"
  shows "load 19 19 (buf (CRYPTO_cbc128_decrypt rev 0 19 19 (s1\<lparr>ivec := ivec s\<rparr>))) \<noteq> load 0 19 (buf s)"
proof -
  let ?b = "replicate 16 (7 :: u8)" and ?v = "replicate 16 (0 :: u8)"
  have c: "cipher_ok rev" by (simp add: cipher_ok_def)
  have x: "map2 (XOR) ?b ?v = ?b" "replicate 19 (7 :: u8) = ?b @ replicate 3 7" "rev (map2 (XOR) (pad16 (replicate 3 7)) ?b) = replicate 13 7 @ replicate 3 0"
    by (simp_all add: pad16_def numeral_eq_Suc)
  have "load 0 19 (buf s) = replicate 19 7" by (simp add: s_def load_def)
  then have cs: "cbc_encrypted rev (ivec s) (load 0 19 (buf s)) = ?b @ replicate 13 7 @ replicate 3 0"
    using cbc_encrypted_simps(2) [of ?b rev ?v "replicate 3 7"] cbc_encrypted_simps(3) [of "replicate 3 7" rev ?b]
    unfolding x(2) by (simp add: s_def x)
  have "s1 = (write_buf 0 (?b @ replicate 13 7 @ replicate 3 0) s)\<lparr>ivec := last_block (ivec s) (?b @ replicate 13 7 @ replicate 3 0)\<rparr>"
    unfolding s1_def using CRYPTO_cbc128_encrypt [OF c, of 19 0 0 s] by (simp add: cs) (simp add: s_def)
  then have s1: "s1\<lparr>ivec := ivec s\<rparr> = \<lparr>buf = replicate 29 7 @ replicate 3 0 @ replicate 6 7, ivec = ?v\<rparr>"
    by (simp add: s_def write_buf_def store_def replicate_add [symmetric])
  let ?s = "\<lparr>buf = replicate 29 7 @ replicate 3 0 @ replicate 6 7, ivec = ?v\<rparr>"
  have l: "load 0 16 (buf ?s) = ?b" by (simp add: load_def)
  have p: "cbc_decrypted rev ?v ?b = ?b"
    using cbc_decrypted_simps(2) [of ?b rev ?v "[]"] x(1) by (simp add: cbc_decrypted_simps(1))
  let ?t = "\<lparr>buf = replicate 29 7 @ replicate 3 0 @ replicate 6 7, ivec = ?v\<rparr>"
  obtain iv where "cbc_decrypt_ahead rev 0 19 19 Ivec ?s = ((16, 35, 3, iv), write_buf 19 ?b ?s)"
      "read_at iv 0 16 (write_buf 19 ?b ?s) = ?b"
    using cbc_decrypt_ahead [OF c, of 0 16 ?s 19 Ivec ?v 19] last_block_simps(1) [of ?b] last_block_simps(2) [of ?b ?v "[]"]
    by (auto simp: l p load_def)
  moreover have "write_buf 19 ?b ?s = ?s\<lparr>buf := replicate 38 7\<rparr>"
    by (simp add: write_buf_def store_def replicate_add [symmetric])
  ultimately have "CRYPTO_cbc128_decrypt rev 0 19 19 ?s = cbc_decrypt_tail rev 16 35 3 \<lparr>buf = replicate 38 7, ivec = ?b\<rparr>"
    by (simp add: CRYPTO_cbc128_decrypt_def)
  also have "buf \<dots> = store 35 (take 3 (map2 (XOR) ?b ?b)) (replicate 38 7)"
    using cbc_decrypt_tail [OF c, of 16 3 "\<lparr>buf = replicate 38 7, ivec = ?b\<rparr>" 35]
      cbc_decrypted_simps(2) [of ?b rev ?b "[]"] by (simp add: load_def cbc_decrypted_simps(1))
  also have "\<dots> = replicate 35 7 @ [0, 0, 0]" by (simp add: store_def numeral_eq_Suc)
  finally have "last (load 19 19 (buf (CRYPTO_cbc128_decrypt rev 0 19 19 (s1\<lparr>ivec := ivec s\<rparr>)))) = 0"
    unfolding s1 by (simp add: load_def)
  moreover have "last (load 0 19 (buf s)) \<noteq> 0" by (simp add: s_def load_def)
  ultimately show ?thesis by metis
qed

text \<open>C11. Decryption gives back what was encrypted under any chaining value and for every length; both calls leave
  the same chaining value for the next. The ciphertext takes the length rounded up to whole blocks. It may begin
  at or before the plaintext or after its end, and the decrypted bytes may begin at or before the ciphertext, in
  place among others, or after the end of its last, padded block. The assertion of
  \<open>CRYPTO_cbc128_decrypt\<close> also lets through outputs that begin inside that block; those come out wrong
  (\<open>cbc_decrypt_overlap\<close>).\<close>

theorem cbc_roundtrip:
  assumes "cipher_ok enc" and "cipher_ok dec" and "\<forall>x. length x = 16 \<longrightarrow> dec (enc x) = x" and "length (ivec s) = 16"
    and "inp + len \<le> length (buf s)" and "mid + roundup len \<le> length (buf s)" and "out + len \<le> length (buf s)"
    and "mid \<le> inp \<or> inp + len \<le> mid" and "out \<le> mid \<or> mid + roundup len \<le> out"
    and "s1 = CRYPTO_cbc128_encrypt enc inp mid len s" and "s2 = CRYPTO_cbc128_decrypt dec mid out len (s1\<lparr>ivec := ivec s\<rparr>)"
  shows "load out len (buf s2) = load inp len (buf s) \<and> ivec s2 = ivec s1"
proof -
  define xs where "xs = load inp len (buf s)"
  define cs where "cs = cbc_encrypted enc (ivec s) xs"
  have lx: "length xs = len" using assms(5) by (simp add: xs_def length_load)
  have lc: "length cs = roundup len" using lx by (simp add: cs_def length_cbc_encrypted [OF assms(1,4)])
  have o: "mid + length cs \<le> length (buf s)" using assms(6) lc by simp
  have r: "readable len mid (Buf inp) s" using assms(5,8) by simp
  have s1: "s1 = (write_buf mid cs s)\<lparr>ivec := last_block (ivec s) cs\<rparr>"
    unfolding assms(10) using CRYPTO_cbc128_encrypt [OF assms(1) r assms(6,4)] by (simp add: cs_def xs_def)
  have "load mid (roundup len) (buf s1) = cs" using load_store [OF o] lc by (simp add: s1)
  then have s2: "s2 = (write_buf out (take len (cbc_decrypted dec (ivec s) cs)) (s1\<lparr>ivec := ivec s\<rparr>))\<lparr>ivec := last_block (ivec s) cs\<rparr>"
    unfolding assms(11)
    using CRYPTO_cbc128_decrypt [OF assms(2), of mid len "s1\<lparr>ivec := ivec s\<rparr>" out] assms(4,6,7,9) by (simp add: s1 length_store [OF o])
  have p: "take len (cbc_decrypted dec (ivec s) cs) = xs"
    using cbc_decrypted_encrypted [OF assms(1,3,4), of xs] lx by (simp add: cs_def)
  have "out + length xs \<le> length (buf s1)" using assms(7) lx by (simp add: s1 length_store [OF o])
  from load_store [OF this] show ?thesis unfolding s2 p using lx by (simp add: s1 xs_def)
qed

text \<open>A cipher that reverses the block and flips its bits, in place on three bytes.\<close>

theorem cbc_roundtrip_witness:
  "let f = (\<lambda>x. map NOT (rev x)); s = \<lparr>buf = replicate 32 7, ivec = replicate 16 1\<rparr>;
       s1 = CRYPTO_cbc128_encrypt f 0 0 3 s
   in load 0 3 (buf (CRYPTO_cbc128_decrypt f 0 0 3 (s1\<lparr>ivec := ivec s\<rparr>))) = [7, 7, 7]"
proof -
  have c: "cipher_ok (\<lambda>x. map NOT (rev x))" by (simp add: cipher_ok_def)
  have d: "\<forall>x. length x = 16 \<longrightarrow> map NOT (rev (map NOT (rev x))) = (x :: u8 list)" by (simp add: rev_map comp_def)
  have l: "load 0 3 (replicate 32 (7 :: u8)) = [7, 7, 7]" by (simp add: load_def numeral_eq_Suc)
  show ?thesis
    using cbc_roundtrip [OF c c d, of "\<lparr>buf = replicate 32 7, ivec = replicate 16 1\<rparr>" 0 3 0 0, OF _ _ _ _ _ _ refl refl] l
    by (simp add: Let_def)
qed

end
