(* ===== verification/Modes_Stream.thy ===== *)
theory Modes_Stream
  imports Constant_Time
begin

text \<open>
  Model of \<^verbatim>\<open>crypto/fipsmodule/modes/\<close>\<open>ctr.c\<close>, \<open>ofb.c\<close> and \<open>cfb.c\<close>. The input and the output of a call are the same
  place or apart, so that a call is a function from the bytes it reads to the bytes it writes. The block cipher under its key
  is a parameter; \<open>*num\<close> is part of the state.
\<close>

type_synonym cipher = "u8 list \<Rightarrow> u8 list"

section \<open>The code\<close>

text \<open>
  What the byte loops do with the byte \<open>b\<close> at position \<open>n\<close> of a block: the output and the buffer after it.
\<close>

type_synonym byte_op = "nat \<Rightarrow> u8 \<Rightarrow> u8 list \<Rightarrow> u8 \<times> u8 list"

definition xor_op :: byte_op where
  "xor_op n b buf = (b XOR buf ! n, buf)"

definition cfb_encrypt_op :: byte_op where
  "cfb_encrypt_op n b buf = (let c = buf ! n XOR b in (c, buf[n := c]))"

definition cfb_decrypt_op :: byte_op where
  "cfb_decrypt_op n b buf = (buf ! n XOR b, buf[n := b])"

text \<open>The loop \<open>while (n && len)\<close>: the output, the rest of the input, \<open>n\<close> and the buffer.\<close>

fun used_loop :: "byte_op \<Rightarrow> nat \<Rightarrow> u8 list \<Rightarrow> u8 list \<Rightarrow> u8 list \<times> u8 list \<times> nat \<times> u8 list" where
  "used_loop f n [] buf = ([], [], n, buf)"
| "used_loop f n (b # inp) buf =
     (if n = 0 then ([], b # inp, n, buf)
      else case f n b buf of
          (c, buf) \<Rightarrow> (case used_loop f ((n + 1) mod 16) inp buf of (out, s) \<Rightarrow> (c # out, s)))"

text \<open>The loop \<open>while (len--)\<close>.\<close>

fun rest_loop :: "byte_op \<Rightarrow> nat \<Rightarrow> u8 list \<Rightarrow> u8 list \<Rightarrow> u8 list \<times> nat \<times> u8 list" where
  "rest_loop f n [] buf = ([], n, buf)"
| "rest_loop f n (b # inp) buf =
     (case f n b buf of (c, buf) \<Rightarrow> (case rest_loop f (n + 1) inp buf of (out, s) \<Rightarrow> (c # out, s)))"

text \<open>\<open>CRYPTO_xor16\<close>, word by word.\<close>

definition xor_words :: "u8 list \<Rightarrow> u8 list \<Rightarrow> u8 list" where
  "xor_words a b =
     CRYPTO_store_word_le (CRYPTO_load_word_le a XOR CRYPTO_load_word_le b) @
     CRYPTO_store_word_le (CRYPTO_load_word_le (drop 8 a) XOR CRYPTO_load_word_le (drop 8 b))"

text \<open>The loop of \<open>ctr128_inc\<close> and \<open>ctr96_inc\<close> from position \<open>n\<close> down.\<close>

fun inc_loop :: "nat \<Rightarrow> u32 \<Rightarrow> u8 list \<Rightarrow> u8 list" where
  "inc_loop 0 c counter = counter"
| "inc_loop (Suc n) c counter = (let c = c + ucast (counter ! n) in inc_loop n (drop_bit 8 c) (counter[n := ucast c]))"

definition ctr128_inc :: "u8 list \<Rightarrow> u8 list" where
  "ctr128_inc counter = inc_loop 16 1 counter"

definition ctr96_inc :: "u8 list \<Rightarrow> u8 list" where
  "ctr96_inc counter = inc_loop 12 1 counter"

record ctr_state =
  ivec :: "u8 list"
  ecount_buf :: "u8 list"
  num :: nat

fun ctr_blocks :: "cipher \<Rightarrow> u8 list \<Rightarrow> ctr_state \<Rightarrow> u8 list \<times> u8 list \<times> ctr_state" where
  "ctr_blocks block inp s =
     (if length inp \<ge> 16 then
        let ecount = block (ivec s);
            s = s\<lparr>ecount_buf := ecount, ivec := ctr128_inc (ivec s), num := 0\<rparr>
        in case ctr_blocks block (drop 16 inp) s of (out, r) \<Rightarrow> (xor_words inp ecount @ out, r)
      else ([], inp, s))"

declare ctr_blocks.simps [simp del]

definition CRYPTO_ctr128_encrypt :: "cipher \<Rightarrow> u8 list \<Rightarrow> ctr_state \<Rightarrow> u8 list \<times> ctr_state" where
  "CRYPTO_ctr128_encrypt block inp s =
     (case used_loop xor_op (num s) inp (ecount_buf s) of
        (o1, inp, n, _) \<Rightarrow>
     (case ctr_blocks block inp (s\<lparr>num := n\<rparr>) of
        (o2, inp, s) \<Rightarrow>
          if inp \<noteq> [] then
            let ecount = block (ivec s);
                s = s\<lparr>ecount_buf := ecount, ivec := ctr128_inc (ivec s)\<rparr>
            in case rest_loop xor_op (num s) inp ecount of (o3, n, _) \<Rightarrow> (o1 @ o2 @ o3, s\<lparr>num := n\<rparr>)
          else (o1 @ o2, s)))"

text \<open>
  A \<open>ctr128_f\<close>: the input, the number of blocks and the counter to the output; it does not change the counter.
  The number of blocks of a round of \<open>CRYPTO_ctr128_encrypt_ctr32\<close> and \<open>ctr32\<close> after it.
\<close>

type_synonym ctr128_f = "u8 list \<Rightarrow> nat \<Rightarrow> u8 list \<Rightarrow> u8 list"

definition ctr32_round :: "nat \<Rightarrow> u32 \<Rightarrow> nat \<times> u32" where
  "ctr32_round len ctr32 =
     (let blocks = len div 16;
          blocks = (if blocks > 2 ^ 28 then 2 ^ 28 else blocks);
          ctr32 = ctr32 + word_of_nat blocks
      in if unat ctr32 < blocks then (blocks - unat ctr32, 0) else (blocks, ctr32))"

lemma ctr32_round_pos: "16 \<le> len \<Longrightarrow> ctr32_round len ctr32 = (blocks, ctr32') \<Longrightarrow> 0 < blocks \<and> blocks * 16 \<le> len"
  by (auto simp: ctr32_round_def Let_def div_greater_zero_iff split: if_splits)

function ctr32_blocks :: "ctr128_f \<Rightarrow> u8 list \<Rightarrow> u32 \<Rightarrow> u8 list \<Rightarrow> u8 list \<times> u8 list \<times> u32 \<times> u8 list" where
  "ctr32_blocks func inp ctr32 iv =
     (if length inp \<ge> 16 then
        let (blocks, ctr32) = ctr32_round (length inp) ctr32;
            out1 = func (take (blocks * 16) inp) blocks iv;
            iv = store 12 (CRYPTO_store_u32_be ctr32) iv;
            iv = (if ctr32 = 0 then ctr96_inc iv else iv)
        in case ctr32_blocks func (drop (blocks * 16) inp) ctr32 iv of (out, r) \<Rightarrow> (out1 @ out, r)
      else ([], inp, ctr32, iv))"
  by pat_completeness auto
termination
  by (relation "measure (\<lambda>(func, inp, ctr32, iv). length inp)") (auto dest: ctr32_round_pos [OF _ sym])

declare ctr32_blocks.simps [simp del]

definition CRYPTO_ctr128_encrypt_ctr32 :: "ctr128_f \<Rightarrow> u8 list \<Rightarrow> ctr_state \<Rightarrow> u8 list \<times> ctr_state" where
  "CRYPTO_ctr128_encrypt_ctr32 func inp s =
     (case used_loop xor_op (num s) inp (ecount_buf s) of
        (o1, inp, n, _) \<Rightarrow>
     (case ctr32_blocks func inp (CRYPTO_load_u32_be (drop 12 (ivec s))) (ivec s) of
        (o2, inp, ctr32, iv) \<Rightarrow>
          if inp \<noteq> [] then
            let ecount = func (replicate 16 0) 1 iv;
                ctr32 = ctr32 + 1;
                iv = store 12 (CRYPTO_store_u32_be ctr32) iv;
                iv = (if ctr32 = 0 then ctr96_inc iv else iv)
            in case rest_loop xor_op n inp ecount of (o3, n, _) \<Rightarrow> (o1 @ o2 @ o3, s\<lparr>ivec := iv, ecount_buf := ecount, num := n\<rparr>)
          else (o1 @ o2, s\<lparr>ivec := iv, num := n\<rparr>)))"

text \<open>The feedback modes keep their buffer in \<open>ivec\<close>; the state is \<open>ivec\<close> and \<open>*num\<close>.\<close>

fun ofb_blocks :: "cipher \<Rightarrow> u8 list \<Rightarrow> u8 list \<Rightarrow> nat \<Rightarrow> u8 list \<times> u8 list \<times> u8 list \<times> nat" where
  "ofb_blocks block inp iv n =
     (if length inp \<ge> 16 then
        let iv = block iv
        in case ofb_blocks block (drop 16 inp) iv 0 of (out, r) \<Rightarrow> (xor_words inp iv @ out, r)
      else ([], inp, iv, n))"

declare ofb_blocks.simps [simp del]

definition CRYPTO_ofb128_encrypt :: "cipher \<Rightarrow> u8 list \<Rightarrow> u8 list \<times> nat \<Rightarrow> u8 list \<times> u8 list \<times> nat" where
  "CRYPTO_ofb128_encrypt block inp s =
     (case s of (iv, n) \<Rightarrow>
     (case used_loop xor_op n inp iv of
        (o1, inp, n, _) \<Rightarrow>
     (case ofb_blocks block inp iv n of
        (o2, inp, iv, n) \<Rightarrow>
          if inp \<noteq> [] then
            let iv = block iv
            in case rest_loop xor_op n inp iv of (o3, n, _) \<Rightarrow> (o1 @ o2 @ o3, iv, n)
          else (o1 @ o2, iv, n))))"

fun cfb_blocks :: "bool \<Rightarrow> cipher \<Rightarrow> u8 list \<Rightarrow> u8 list \<Rightarrow> nat \<Rightarrow> u8 list \<times> u8 list \<times> u8 list \<times> nat" where
  "cfb_blocks enc block inp iv n =
     (if length inp \<ge> 16 then
        let iv = block iv;
            out1 = xor_words iv inp;
            iv = (if enc then out1 else take 16 inp)
        in case cfb_blocks enc block (drop 16 inp) iv 0 of (out, r) \<Rightarrow> (out1 @ out, r)
      else ([], inp, iv, n))"

declare cfb_blocks.simps [simp del]

definition CRYPTO_cfb128_encrypt :: "bool \<Rightarrow> cipher \<Rightarrow> u8 list \<Rightarrow> u8 list \<times> nat \<Rightarrow> u8 list \<times> u8 list \<times> nat" where
  "CRYPTO_cfb128_encrypt enc block inp s =
     (let f = (if enc then cfb_encrypt_op else cfb_decrypt_op)
      in case s of (iv, n) \<Rightarrow>
     (case used_loop f n inp iv of
        (o1, inp, n, iv) \<Rightarrow>
     (case cfb_blocks enc block inp iv n of
        (o2, inp, iv, n) \<Rightarrow>
          if inp \<noteq> [] then
            let iv = block iv
            in case rest_loop f n inp iv of (o3, n, iv) \<Rightarrow> (o1 @ o2 @ o3, iv, n)
          else (o1 @ o2, iv, n))))"

text \<open>
  \<open>cfbr_encrypt_block\<close>: the output and \<open>ivec\<close>. The bytes of \<open>ovec\<close> after those it sets are never used.
\<close>

definition cfbr_encrypt_block :: "bool \<Rightarrow> cipher \<Rightarrow> nat \<Rightarrow> u8 list \<Rightarrow> u8 list \<Rightarrow> u8 list \<times> u8 list" where
  "cfbr_encrypt_block enc block nbits inp iv =
     (if nbits = 0 \<or> nbits > 128 then ([], iv)
      else
        let iv1 = block iv;
            n = (nbits + 7) div 8;
            out = map2 (XOR) (take n inp) iv1;
            ovec = iv @ (if enc then out else take n inp);
            rem = nbits mod 8;
            n = nbits div 8
        in (out, if rem = 0 then load n 16 ovec
                 else map (\<lambda>i. push_bit rem (ovec ! (i + n)) OR drop_bit (8 - rem) (ovec ! (i + n + 1))) [0..<16]))"

fun CRYPTO_cfb128_8_encrypt :: "bool \<Rightarrow> cipher \<Rightarrow> u8 list \<Rightarrow> u8 list \<Rightarrow> u8 list \<times> u8 list" where
  "CRYPTO_cfb128_8_encrypt enc block [] iv = ([], iv)"
| "CRYPTO_cfb128_8_encrypt enc block (b # inp) iv =
     (case cfbr_encrypt_block enc block 8 [b] iv of
        (o1, iv) \<Rightarrow> (case CRYPTO_cfb128_8_encrypt enc block inp iv of (o2, iv) \<Rightarrow> (o1 @ o2, iv)))"

text \<open>The loop of \<open>CRYPTO_cfb128_1_encrypt\<close> from bit \<open>n\<close> on, with the output so far.\<close>

function cfb1_loop :: "bool \<Rightarrow> cipher \<Rightarrow> u8 list \<Rightarrow> nat \<Rightarrow> nat \<Rightarrow> u8 list \<Rightarrow> u8 list \<Rightarrow> u8 list \<times> u8 list" where
  "cfb1_loop enc block inp bits n out iv =
     (if n < bits then
        let c = (if inp ! (n div 8) AND push_bit (7 - n mod 8) 1 \<noteq> 0 then 0x80 else 0)
        in case cfbr_encrypt_block enc block 1 [c] iv of
             (d, iv) \<Rightarrow>
               cfb1_loop enc block inp bits (n + 1)
                 (out[n div 8 := (out ! (n div 8) AND NOT (push_bit (7 - n mod 8) 1)) OR drop_bit (n mod 8) (hd d AND 0x80)]) iv
      else (out, iv))"
  by pat_completeness auto
termination by (relation "measure (\<lambda>(enc, block, inp, bits, n, out, iv). bits - n)") auto

declare cfb1_loop.simps [simp del]

definition CRYPTO_cfb128_1_encrypt :: "bool \<Rightarrow> cipher \<Rightarrow> u8 list \<Rightarrow> nat \<Rightarrow> u8 list \<Rightarrow> u8 list \<Rightarrow> u8 list \<times> u8 list" where
  "CRYPTO_cfb128_1_encrypt enc block inp bits out iv = cfb1_loop enc block inp bits 0 out iv"

section \<open>One byte at a time\<close>

text \<open>
  The reference: the state is the position in the block, the counter and the buffer, which is filled anew at the start of a block.
\<close>

type_synonym 'x byte_state = "nat \<times> 'x \<times> u8 list"

definition byte_step :: "byte_op \<Rightarrow> ('x \<times> u8 list \<Rightarrow> 'x \<times> u8 list) \<Rightarrow> u8 \<Rightarrow> 'x byte_state \<Rightarrow> u8 \<times> 'x byte_state" where
  "byte_step f refill b s =
     (case s of (n, x, buf) \<Rightarrow>
        case (if n = 0 then refill (x, buf) else (x, buf)) of
          (x, buf) \<Rightarrow> (case f n b buf of (c, buf) \<Rightarrow> (c, ((n + 1) mod 16, x, buf))))"

fun byte_steps :: "byte_op \<Rightarrow> ('x \<times> u8 list \<Rightarrow> 'x \<times> u8 list) \<Rightarrow> u8 list \<Rightarrow> 'x byte_state \<Rightarrow> u8 list \<times> 'x byte_state" where
  "byte_steps f refill [] s = ([], s)"
| "byte_steps f refill (b # bs) s =
     (case byte_step f refill b s of (c, s) \<Rightarrow> (case byte_steps f refill bs s of (cs, s) \<Rightarrow> (c # cs, s)))"

lemma byte_steps_append:
  "byte_steps f refill (xs @ ys) s =
     (case byte_steps f refill xs s of (o1, s) \<Rightarrow> (case byte_steps f refill ys s of (o2, s) \<Rightarrow> (o1 @ o2, s)))"
  by (induction xs arbitrary: s) (auto split: prod.split)

lemma length_byte_steps: "length (fst (byte_steps f refill xs s)) = length xs"
  by (induction xs arbitrary: s) (auto split: prod.split, metis fst_conv)

lemma used_loop:
  assumes "used_loop f n inp buf = (o1, rest, n', buf')" and "n < 16"
  shows "byte_steps f refill inp (n, x, buf) = (case byte_steps f refill rest (n', x, buf') of (o2, s) \<Rightarrow> (o1 @ o2, s)) \<and>
    (rest = [] \<or> n' = 0) \<and> n' < 16"
  using assms
proof (induction f n inp buf arbitrary: o1 rule: used_loop.induct)
  case (2 f n b inp buf)
  show ?case
  proof (cases "n = 0")
    case False
    obtain c buf1 where f: "f n b buf = (c, buf1)" by (cases "f n b buf")
    obtain o2 where u: "used_loop f ((n + 1) mod 16) inp buf1 = (o2, rest, n', buf')" "o1 = c # o2"
      using 2(2) False f by (auto split: prod.splits)
    show ?thesis using 2(1) [OF False f [symmetric] u(1)] u(2) False f by (auto simp: byte_step_def split: prod.split)
  qed (use 2(2) in auto)
qed auto

lemma rest_loop_length: "rest_loop f n inp buf = (o1, n', buf') \<Longrightarrow> n' = n + length inp \<and> length o1 = length inp"
  by (induction f n inp buf arbitrary: o1 rule: rest_loop.induct) (auto split: prod.splits)

lemma rest_loop_steps:
  assumes "rest_loop f n inp buf = (o1, n', buf')" and "0 < n" and "n + length inp \<le> 16"
  shows "byte_steps f refill inp (n mod 16, x, buf) = (o1, n' mod 16, x, buf')"
  using assms
proof (induction f n inp buf arbitrary: o1 rule: rest_loop.induct)
  case (2 f n b inp buf)
  then show ?case by (auto simp: byte_step_def split: prod.splits)
qed auto

text \<open>A block, or the part of one at the end, from position 0.\<close>

lemma block_steps:
  assumes "refill (x, buf) = (x1, buf1)" and "rest_loop f 0 inp buf1 = (o1, n', buf')" and "inp \<noteq> []" and "length inp \<le> 16"
  shows "byte_steps f refill inp (0, x, buf) = (o1, length inp mod 16, x1, buf')"
proof -
  obtain b bs where inp: "inp = b # bs" using assms(3) by (cases inp) auto
  obtain c buf2 where f: "f 0 b buf1 = (c, buf2)" by (cases "f 0 b buf1")
  obtain o2 where r: "rest_loop f 1 bs buf2 = (o2, n', buf')" "o1 = c # o2"
    using assms(2) f by (auto simp: inp split: prod.splits)
  have "n' = length inp" using rest_loop_length [OF assms(2)] by simp
  then show ?thesis
    using rest_loop_steps [OF r(1), of refill x1] assms(1,4) f r(2) by (simp add: inp byte_step_def)
qed

lemma xor_words:
  assumes "16 \<le> length a" and "16 \<le> length b"
  shows "xor_words a b = map2 (XOR) (take 16 a) (take 16 b)"
proof -
  have c: "CRYPTO_load_word_le xs = CRYPTO_load_word_le (take 8 xs)" for xs
    by (simp add: CRYPTO_load_word_le_def le_value_def)
  have s: "take 16 xs = take 8 xs @ take 8 (drop 8 xs)" for xs :: "u8 list"
    using take_add [of 8 8 xs] by simp
  show ?thesis
    using assms unfolding xor_words_def
    by (subst (1 2 3 4) c) (simp add: store_xor_load s [of a] s [of b])
qed

lemma rest_xor_op: "n + length inp \<le> length buf \<Longrightarrow> rest_loop xor_op n inp buf = (map2 (XOR) inp (drop n buf), n + length inp, buf)"
  by (induction inp arbitrary: n) (simp_all add: xor_op_def Cons_nth_drop_Suc [symmetric])

lemma cfb_encrypt_op: "cfb_encrypt_op n b buf = (buf ! n XOR b, buf[n := buf ! n XOR b])"
  by (simp add: cfb_encrypt_op_def Let_def)

lemma rest_cfb_encrypt:
  "n + length inp \<le> length buf \<Longrightarrow>
     rest_loop cfb_encrypt_op n inp buf =
       (map2 (XOR) (drop n buf) inp, n + length inp, take n buf @ map2 (XOR) (drop n buf) inp @ drop (n + length inp) buf)"
proof (induction inp arbitrary: n buf)
  case (Cons b inp)
  have d: "drop n buf = buf ! n # drop (n + 1) buf" using Cons.prems by (simp add: Cons_nth_drop_Suc)
  have t: "take (n + 1) (buf[n := c]) = take n buf @ [c]" for c using Cons.prems by (simp add: take_Suc_conv_app_nth)
  show ?case
    using Cons.IH [of "n + 1" "buf[n := buf ! n XOR b]"] Cons.prems t [of "buf ! n XOR b"] d by (simp add: cfb_encrypt_op)
qed simp

lemma rest_cfb_decrypt:
  "n + length inp \<le> length buf \<Longrightarrow>
     rest_loop cfb_decrypt_op n inp buf =
       (map2 (XOR) (drop n buf) inp, n + length inp, take n buf @ inp @ drop (n + length inp) buf)"
proof (induction inp arbitrary: n buf)
  case (Cons b inp)
  have d: "drop n buf = buf ! n # drop (n + 1) buf" using Cons.prems by (simp add: Cons_nth_drop_Suc)
  have t: "take (n + 1) (buf[n := c]) = take n buf @ [c]" for c using Cons.prems by (simp add: take_Suc_conv_app_nth)
  show ?case
    using Cons.IH [of "n + 1" "buf[n := b]"] Cons.prems t [of b] d by (simp add: cfb_decrypt_op_def)
qed simp

definition cipher_ok16 :: "cipher \<Rightarrow> bool" where
  "cipher_ok16 block \<longleftrightarrow> (\<forall>x. length x = 16 \<longrightarrow> length (block x) = 16)"

section \<open>The calls and the reference\<close>

definition ofb_refill :: "cipher \<Rightarrow> unit \<times> u8 list \<Rightarrow> unit \<times> u8 list" where
  "ofb_refill block s = ((), block (snd s))"

definition ctr_refill :: "cipher \<Rightarrow> u8 list \<times> u8 list \<Rightarrow> u8 list \<times> u8 list" where
  "ctr_refill block s = (ctr128_inc (fst s), block (fst s))"

lemma refill [simp]: "ofb_refill block (u, v) = ((), block v)" "ctr_refill block (c, v) = (ctr128_inc c, block c)"
  by (simp_all add: ofb_refill_def ctr_refill_def)

lemma block_out:
  assumes "length b = 16" and "length iv = 16"
  shows "rest_loop xor_op 0 b iv = (map2 (XOR) b iv, 16, iv)"
    and "rest_loop cfb_encrypt_op 0 b iv = (map2 (XOR) iv b, 16, map2 (XOR) iv b)"
    and "rest_loop cfb_decrypt_op 0 b iv = (map2 (XOR) iv b, 16, b)"
  using assms rest_xor_op [of 0 b iv] rest_cfb_encrypt [of 0 b iv] rest_cfb_decrypt [of 0 b iv] by simp_all

lemma steps_of_block:
  assumes "refill (x, buf) = (x1, buf1)" and "rest_loop f 0 (take 16 inp) buf1 = (o1, 16, buf')" and "16 \<le> length inp"
  shows "byte_steps f refill inp (0, x, buf) = (case byte_steps f refill (drop 16 inp) (0, x1, buf') of (o2, s) \<Rightarrow> (o1 @ o2, s))"
proof -
  have "byte_steps f refill (take 16 inp) (0, x, buf) = (o1, 0, x1, buf')"
    using block_steps [of refill x buf x1 buf1 f "take 16 inp" o1 16 buf', OF assms(1,2)] assms(3) by (cases inp) auto
  then show ?thesis using byte_steps_append [of f refill "take 16 inp" "drop 16 inp" "(0, x, buf)"] by simp
qed

lemma ofb_blocks:
  assumes "cipher_ok16 block" and "ofb_blocks block inp iv n = (o1, rest, iv', n')" and "length iv = 16"
  shows "byte_steps xor_op (ofb_refill block) inp (0, (), iv) =
      (case byte_steps xor_op (ofb_refill block) rest (0, (), iv') of (o2, s) \<Rightarrow> (o1 @ o2, s)) \<and>
    length rest < 16 \<and> length iv' = 16 \<and> n' = (if length inp < 16 then n else 0)"
  using assms(2,3)
proof (induction inp arbitrary: iv n o1 rule: length_induct)
  case (1 inp)
  show ?case
  proof (cases "16 \<le> length inp")
    case False
    then show ?thesis using "1.prems" by (subst (asm) ofb_blocks.simps) auto
  next
    case True
    define iv1 where "iv1 = block iv"
    have l1: "length iv1 = 16" using assms(1) "1.prems"(2) by (simp add: iv1_def cipher_ok16_def)
    obtain o2 where r: "ofb_blocks block (drop 16 inp) iv1 0 = (o2, rest, iv', n')" "o1 = xor_words inp iv1 @ o2"
      using "1.prems"(1) True by (subst (asm) ofb_blocks.simps) (auto simp: iv1_def Let_def split: prod.splits)
    have "length (drop 16 inp) < length inp" using True by simp
    with "1.IH" r(1) l1 have ih: "byte_steps xor_op (ofb_refill block) (drop 16 inp) (0, (), iv1) =
        (case byte_steps xor_op (ofb_refill block) rest (0, (), iv') of (o3, s) \<Rightarrow> (o2 @ o3, s)) \<and>
      length rest < 16 \<and> length iv' = 16 \<and> n' = (if length (drop 16 inp) < 16 then 0 else 0)" by blast
    have "rest_loop xor_op 0 (take 16 inp) iv1 = (xor_words inp iv1, 16, iv1)"
      using block_out(1) [of "take 16 inp" iv1] xor_words [OF True, of iv1] True l1 by simp
    from steps_of_block [of "ofb_refill block" "()" iv, OF _ this True] ih True show ?thesis
      by (auto simp: iv1_def r(2) split: prod.split)
  qed
qed

text \<open>Each call is the reference on the bytes of its input.\<close>

lemma ofb_steps:
  assumes "cipher_ok16 block" and "length iv = 16" and "n < 16"
  shows "CRYPTO_ofb128_encrypt block inp (iv, n) = (case byte_steps xor_op (ofb_refill block) inp (n, (), iv) of (out, n', _, iv') \<Rightarrow> (out, iv', n'))"
proof -
  obtain o1 r1 n1 b1 where u: "used_loop xor_op n inp iv = (o1, r1, n1, b1)" by (metis prod_cases4)
  have b1: "b1 = iv"
    using u by (induction xor_op n inp iv arbitrary: o1 rule: used_loop.induct) (auto simp: xor_op_def split: if_splits prod.splits)
  note s = used_loop [OF u assms(3), of "ofb_refill block" "()"]
  obtain o2 r2 iv2 n2 where k: "ofb_blocks block r1 iv n1 = (o2, r2, iv2, n2)" by (metis prod_cases4)
  note b = ofb_blocks [OF assms(1) k assms(2)]
  show ?thesis
  proof (cases "r1 = []")
    case True
    then have "o2 = [] \<and> r2 = [] \<and> iv2 = iv \<and> n2 = n1" using k by (subst (asm) ofb_blocks.simps) simp
    then show ?thesis using s u k b1 True by (simp add: CRYPTO_ofb128_encrypt_def)
  next
    case False
    then have n1: "n1 = 0" "n2 = 0" using s b by auto
    show ?thesis
    proof (cases "r2 = []")
      case True
      then show ?thesis using s b u k b1 n1 by (simp add: CRYPTO_ofb128_encrypt_def)
    next
      case r2: False
      obtain o3 n3 b3 where t: "rest_loop xor_op 0 r2 (block iv2) = (o3, n3, b3)" by (metis prod_cases3)
      have "length r2 \<le> length (block iv2)" using assms(1) b by (simp add: cipher_ok16_def)
      then have "n3 = length r2" "b3 = block iv2" using t rest_xor_op [of 0 r2 "block iv2"] by simp_all
      moreover have "byte_steps xor_op (ofb_refill block) r2 (0, (), iv2) = (o3, length r2 mod 16, (), b3)"
        using block_steps [of "ofb_refill block" "()" iv2 "()" "block iv2" xor_op r2 o3 n3 b3] t r2 b by simp
      ultimately show ?thesis using s b u k b1 n1 t r2 by (simp add: CRYPTO_ofb128_encrypt_def)
    qed
  qed
qed

lemma cfb_blocks:
  assumes "cipher_ok16 block" and "cfb_blocks enc block inp iv n = (o1, rest, iv', n')" and "length iv = 16"
  defines "f \<equiv> if enc then cfb_encrypt_op else cfb_decrypt_op"
  shows "byte_steps f (ofb_refill block) inp (0, (), iv) =
      (case byte_steps f (ofb_refill block) rest (0, (), iv') of (o2, s) \<Rightarrow> (o1 @ o2, s)) \<and>
    length rest < 16 \<and> length iv' = 16 \<and> n' = (if length inp < 16 then n else 0)"
  using assms(2,3)
proof (induction inp arbitrary: iv n o1 rule: length_induct)
  case (1 inp)
  show ?case
  proof (cases "16 \<le> length inp")
    case False
    then show ?thesis using "1.prems" by (subst (asm) cfb_blocks.simps) auto
  next
    case True
    define iv1 where "iv1 = block iv"
    have l1: "length iv1 = 16" using assms(1) "1.prems"(2) by (simp add: iv1_def cipher_ok16_def)
    have w: "xor_words iv1 inp = map2 (XOR) iv1 (take 16 inp)" using xor_words [of iv1 inp] True l1 by simp
    define iv2 where "iv2 = (if enc then xor_words iv1 inp else take 16 inp)"
    have l2: "length iv2 = 16" using True l1 w by (simp add: iv2_def)
    obtain o2 where r: "cfb_blocks enc block (drop 16 inp) iv2 0 = (o2, rest, iv', n')" "o1 = xor_words iv1 inp @ o2"
      using "1.prems"(1) True by (subst (asm) cfb_blocks.simps) (auto simp: iv1_def iv2_def Let_def split: prod.splits if_splits)
    have "length (drop 16 inp) < length inp" using True by simp
    with "1.IH" r(1) l2 have ih: "byte_steps f (ofb_refill block) (drop 16 inp) (0, (), iv2) =
        (case byte_steps f (ofb_refill block) rest (0, (), iv') of (o3, s) \<Rightarrow> (o2 @ o3, s)) \<and>
      length rest < 16 \<and> length iv' = 16 \<and> n' = (if length (drop 16 inp) < 16 then 0 else 0)" by blast
    have "rest_loop f 0 (take 16 inp) iv1 = (xor_words iv1 inp, 16, iv2)"
      using block_out(2,3) [of "take 16 inp" iv1] True l1 w by (simp add: f_def iv2_def)
    from steps_of_block [of "ofb_refill block" "()" iv, OF _ this True] ih True show ?thesis
      by (auto simp: iv1_def r(2) split: prod.split)
  qed
qed

lemma used_loop_buf:
  "used_loop f n inp buf = (o1, r1, n1, b1) \<Longrightarrow> (\<And>n b buf. length (snd (f n b buf)) = length buf) \<Longrightarrow> length b1 = length buf"
proof (induction f n inp buf arbitrary: o1 rule: used_loop.induct)
  case (2 f n b inp buf)
  show ?case
  proof (cases "n = 0")
    case False
    obtain c buf1 where f: "f n b buf = (c, buf1)" by (cases "f n b buf")
    obtain o2 where "used_loop f ((n + 1) mod 16) inp buf1 = (o2, r1, n1, b1)"
      using "2.prems"(1) False f by (auto split: prod.splits)
    then show ?thesis using "2.IH" [OF False f [symmetric] _ "2.prems"(2)] "2.prems"(2) [of n b buf] f by simp
  qed (use "2.prems" in auto)
qed auto

lemma cfb_steps:
  fixes enc :: bool
  assumes "cipher_ok16 block" and "length iv = 16" and "n < 16"
  defines "f \<equiv> if enc then cfb_encrypt_op else cfb_decrypt_op"
  shows "CRYPTO_cfb128_encrypt enc block inp (iv, n) = (case byte_steps f (ofb_refill block) inp (n, (), iv) of (out, n', _, iv') \<Rightarrow> (out, iv', n'))"
proof -
  obtain o1 r1 n1 b1 where u: "used_loop f n inp iv = (o1, r1, n1, b1)" by (metis prod_cases4)
  have "length (snd (f n b buf)) = length buf" for n b buf by (simp add: f_def cfb_encrypt_op cfb_decrypt_op_def)
  then have b1: "length b1 = 16" using used_loop_buf [OF u] assms(2) by simp
  note s = used_loop [OF u assms(3), of "ofb_refill block" "()"]
  obtain o2 r2 iv2 n2 where k: "cfb_blocks enc block r1 b1 n1 = (o2, r2, iv2, n2)" by (metis prod_cases4)
  note b = cfb_blocks [OF assms(1) k b1, folded f_def]
  have d: "CRYPTO_cfb128_encrypt enc block inp (iv, n) =
      (if r2 \<noteq> [] then case rest_loop f n2 r2 (block iv2) of (o3, n, iv) \<Rightarrow> (o1 @ o2 @ o3, iv, n) else (o1 @ o2, iv2, n2))"
    using u k by (simp add: CRYPTO_cfb128_encrypt_def f_def [symmetric])
  show ?thesis
  proof (cases "r1 = []")
    case True
    then have "o2 = [] \<and> r2 = [] \<and> iv2 = b1 \<and> n2 = n1" using k by (subst (asm) cfb_blocks.simps) simp
    then show ?thesis using s True unfolding d by simp
  next
    case False
    then have n1: "n1 = 0" "n2 = 0" using s b by auto
    show ?thesis
    proof (cases "r2 = []")
      case True
      then show ?thesis using s b n1 unfolding d by simp
    next
      case r2: False
      obtain o3 n3 b3 where t: "rest_loop f 0 r2 (block iv2) = (o3, n3, b3)" by (metis prod_cases3)
      have "n3 = length r2" using rest_loop_length [OF t] by simp
      moreover have "byte_steps f (ofb_refill block) r2 (0, (), iv2) = (o3, length r2 mod 16, (), b3)"
        using block_steps [of "ofb_refill block" "()" iv2 "()" "block iv2" f r2 o3 n3 b3] t r2 b by simp
      ultimately show ?thesis using s b n1 t r2 unfolding d by simp
    qed
  qed
qed

lemma length_inc_loop [simp]: "length (inc_loop n c counter) = length counter"
  by (induction n c counter rule: inc_loop.induct) (simp_all add: Let_def)

lemma ctr_blocks:
  assumes "cipher_ok16 block" and "ctr_blocks block inp s = (o1, rest, s')" and "length (ivec s) = 16"
  shows "byte_steps xor_op (ctr_refill block) inp (0, ivec s, ecount_buf s) =
      (case byte_steps xor_op (ctr_refill block) rest (0, ivec s', ecount_buf s') of (o2, r) \<Rightarrow> (o1 @ o2, r)) \<and>
    length rest < 16 \<and> length (ivec s') = 16 \<and> num s' = (if length inp < 16 then num s else 0)"
  using assms(2,3)
proof (induction inp arbitrary: s o1 rule: length_induct)
  case (1 inp)
  show ?case
  proof (cases "16 \<le> length inp")
    case False
    then show ?thesis using "1.prems" by (subst (asm) ctr_blocks.simps) auto
  next
    case True
    define e where "e = block (ivec s)"
    have e: "length e = 16" using assms(1) "1.prems"(2) by (simp add: e_def cipher_ok16_def)
    define s1 where "s1 = s\<lparr>ecount_buf := e, ivec := ctr128_inc (ivec s), num := 0\<rparr>"
    have l1: "length (ivec s1) = 16" using "1.prems"(2) by (simp add: s1_def ctr128_inc_def)
    obtain o2 where r: "ctr_blocks block (drop 16 inp) s1 = (o2, rest, s')" "o1 = xor_words inp e @ o2"
      using "1.prems"(1) True by (subst (asm) ctr_blocks.simps) (auto simp: e_def s1_def Let_def split: prod.splits)
    have "length (drop 16 inp) < length inp" using True by simp
    with "1.IH" r(1) l1 have ih: "byte_steps xor_op (ctr_refill block) (drop 16 inp) (0, ivec s1, ecount_buf s1) =
        (case byte_steps xor_op (ctr_refill block) rest (0, ivec s', ecount_buf s') of (o3, r) \<Rightarrow> (o2 @ o3, r)) \<and>
      length rest < 16 \<and> length (ivec s') = 16 \<and> num s' = (if length (drop 16 inp) < 16 then num s1 else 0)" by blast
    have "rest_loop xor_op 0 (take 16 inp) e = (xor_words inp e, 16, e)"
      using block_out(1) [of "take 16 inp" e] xor_words [OF True, of e] True e by simp
    from steps_of_block [of "ctr_refill block" "ivec s" "ecount_buf s", OF _ this True] ih True show ?thesis
      by (auto simp: s1_def e_def r(2) split: prod.split)
  qed
qed

lemma used_xor_buf: "used_loop xor_op n inp buf = (o1, r1, n1, b1) \<Longrightarrow> b1 = buf"
  by (induction xor_op n inp buf arbitrary: o1 rule: used_loop.induct) (auto simp: xor_op_def split: if_splits prod.splits)

definition ctr_view :: "ctr_state \<Rightarrow> u8 list byte_state" where
  "ctr_view s = (num s, ivec s, ecount_buf s)"

lemma ctr_steps:
  assumes "cipher_ok16 block" and "length (ivec s) = 16" and "num s < 16" and "CRYPTO_ctr128_encrypt block inp s = (out, s')"
  shows "byte_steps xor_op (ctr_refill block) inp (ctr_view s) = (out, ctr_view s')"
proof -
  obtain o1 r1 n1 b1 where u: "used_loop xor_op (num s) inp (ecount_buf s) = (o1, r1, n1, b1)" by (metis prod_cases4)
  note b1 = used_xor_buf [OF u]
  note st = used_loop [OF u assms(3), of "ctr_refill block" "ivec s", folded ctr_view_def]
  obtain o2 r2 s2 where k: "ctr_blocks block r1 (s\<lparr>num := n1\<rparr>) = (o2, r2, s2)" by (metis prod_cases3)
  note b = ctr_blocks [OF assms(1) k, simplified, OF assms(2)]
  have d: "(out, s') = (if r2 \<noteq> [] then
      case rest_loop xor_op (num s2) r2 (block (ivec s2)) of
        (o3, n, _) \<Rightarrow> (o1 @ o2 @ o3, s2\<lparr>ecount_buf := block (ivec s2), ivec := ctr128_inc (ivec s2), num := n\<rparr>)
      else (o1 @ o2, s2))"
    using assms(4) [symmetric] u k by (simp add: CRYPTO_ctr128_encrypt_def Let_def)
  show ?thesis
  proof (cases "r1 = []")
    case True
    then have "o2 = [] \<and> r2 = [] \<and> s2 = s\<lparr>num := n1\<rparr>" using k by (subst (asm) ctr_blocks.simps) simp
    then show ?thesis using st d b1 True by (simp add: ctr_view_def)
  next
    case False
    then have n1: "n1 = 0" "num s2 = 0" using st b by auto
    show ?thesis
    proof (cases "r2 = []")
      case True
      then show ?thesis using st b n1 d b1 by (simp add: ctr_view_def)
    next
      case r2: False
      obtain o3 n3 b3 where t: "rest_loop xor_op 0 r2 (block (ivec s2)) = (o3, n3, b3)" by (metis prod_cases3)
      have "length r2 \<le> length (block (ivec s2))" using assms(1) b by (simp add: cipher_ok16_def)
      then have "n3 = length r2" "b3 = block (ivec s2)" using t rest_xor_op [of 0 r2 "block (ivec s2)"] by simp_all
      moreover have "byte_steps xor_op (ctr_refill block) r2 (0, ivec s2, ecount_buf s2) = (o3, length r2 mod 16, ctr128_inc (ivec s2), b3)"
        using block_steps [of "ctr_refill block" "ivec s2" "ecount_buf s2" "ctr128_inc (ivec s2)" "block (ivec s2)" xor_op r2 o3 n3 b3] t r2 b
        by simp
      ultimately show ?thesis using st b n1 t r2 d b1 by (simp add: ctr_view_def)
    qed
  qed
qed

section \<open>Keystreams\<close>

text \<open>
  The contract of a stream cipher: in the state at position \<open>p\<close> it adds the bytes of the keystream from \<open>p\<close> on.
  It follows that the output does not depend on how the input is cut, and that encrypting again decrypts.
\<close>

lemma xor_twice: "length ys = length xs \<Longrightarrow> map2 (XOR) (map2 (XOR) xs ys) ys = xs" for xs ys :: "u8 list"
  by (rule nth_equalityI) (simp_all add: xor.assoc)

fun crypt_all :: "(u8 list \<Rightarrow> 's \<Rightarrow> u8 list \<times> 's) \<Rightarrow> u8 list list \<Rightarrow> 's \<Rightarrow> u8 list \<times> 's" where
  "crypt_all crypt [] s = ([], s)"
| "crypt_all crypt (c # cs) s = (case crypt c s of (o1, s) \<Rightarrow> (case crypt_all crypt cs s of (o2, s) \<Rightarrow> (o1 @ o2, s)))"

locale keystream =
  fixes crypt :: "u8 list \<Rightarrow> 's \<Rightarrow> u8 list \<times> 's"
    and at :: "nat \<Rightarrow> 's \<Rightarrow> bool"
    and ks :: "nat \<Rightarrow> u8"
  assumes crypt: "at p s \<Longrightarrow> crypt xs s = (out, s') \<Longrightarrow> out = map2 (XOR) xs (map ks [p..<p + length xs]) \<and> at (p + length xs) s'"
begin

lemma crypt_all: "at p s \<Longrightarrow> crypt_all crypt cs s = (out, s') \<Longrightarrow>
    out = map2 (XOR) (concat cs) (map ks [p..<p + length (concat cs)]) \<and> at (p + length (concat cs)) s'"
proof (induction cs arbitrary: p s out)
  case (Cons c cs)
  obtain o1 s1 where c: "crypt c s = (o1, s1)" by (cases "crypt c s")
  obtain o2 where o: "crypt_all crypt cs s1 = (o2, s')" "out = o1 @ o2" using Cons.prems(2) c by (auto split: prod.splits)
  have 1: "o1 = map2 (XOR) c (map ks [p..<p + length c])" "at (p + length c) s1" using crypt [OF Cons.prems(1) c] by blast+
  have 2: "o2 = map2 (XOR) (concat cs) (map ks [p + length c..<p + length c + length (concat cs)])"
    "at (p + length c + length (concat cs)) s'" using Cons.IH [OF 1(2) o(1)] by blast+
  have "[p..<p + length (concat (c # cs))] = [p..<p + length c] @ [p + length c..<p + length c + length (concat cs)]"
    using upt_add_eq_append [of p "p + length c" "length (concat cs)"] by (simp add: add.assoc)
  then show ?case using 1 2 o(2) by (simp add: add.assoc)
qed simp

lemma involution:
  assumes "at p s" and "at p t" and "concat ds = fst (crypt_all crypt cs s)"
  shows "fst (crypt_all crypt ds t) = concat cs"
proof -
  obtain o1 s1 where 1: "crypt_all crypt cs s = (o1, s1)" by (cases "crypt_all crypt cs s")
  obtain o2 t1 where 2: "crypt_all crypt ds t = (o2, t1)" by (cases "crypt_all crypt ds t")
  have o: "o1 = map2 (XOR) (concat cs) (map ks [p..<p + length (concat cs)])" using crypt_all [OF assms(1) 1] by blast
  then have "length (concat ds) = length (concat cs)" using assms(3) 1 by simp
  then have "o2 = map2 (XOR) o1 (map ks [p..<p + length (concat cs)])" using crypt_all [OF assms(2) 2] assms(3) 1 by simp
  then show ?thesis using o 2 by (simp add: xor_twice)
qed

end

lemma inc_loop: "n \<le> length counter \<Longrightarrow> unat c \<le> 1 \<Longrightarrow>
    inc_loop n c counter = be_bytes n (be_nat (take n counter) + unat c) @ drop n counter"
proof (induction n arbitrary: c counter)
  case (Suc n)
  let ?x = "counter ! n"
  define d where "d = c + ucast ?x"
  have x: "unat (ucast ?x :: u32) = unat ?x" by (rule unat_ucast_up) simp
  have d: "unat d = unat c + unat ?x"
  proof -
    have "unat c + unat ?x < 2 ^ 32" using Suc.prems(2) unat_byte_lt [of ?x] by simp
    then show ?thesis unfolding d_def by (simp add: unat_word_ariths x)
  qed
  have q: "unat (drop_bit 8 d) = (unat c + unat ?x) div 256" by (simp add: unat_drop_bit d)
  then have "unat (drop_bit 8 d) \<le> 1"
    using Suc.prems(2) unat_byte_lt [of ?x] by (simp add: less_Suc_eq_le [symmetric] less_mult_imp_div_less)
  then have "inc_loop n (drop_bit 8 d) (counter[n := ucast d]) =
      be_bytes n (be_nat (take n counter) + unat (drop_bit 8 d)) @ drop n (counter[n := ucast d])"
    using Suc.IH [of "counter[n := ucast d]" "drop_bit 8 d"] Suc.prems(1) by simp
  moreover have "drop n (counter[n := ucast d]) = ucast d # drop (Suc n) counter"
    using Suc.prems(1) by (simp add: Cons_nth_drop_Suc [symmetric])
  moreover have t: "be_nat (take (Suc n) counter) = 256 * be_nat (take n counter) + unat ?x"
    using Suc.prems(1) by (simp add: take_Suc_conv_app_nth)
  have "(be_nat (take (Suc n) counter) + unat c) div 256 = be_nat (take n counter) + unat (drop_bit 8 d)"
    unfolding t q by simp
  moreover have "(word_of_nat (be_nat (take (Suc n) counter) + unat c) :: u8) = ucast d"
  proof -
    have "be_nat (take (Suc n) counter) + unat c = unat d + 256 * be_nat (take n counter)" unfolding t d by simp
    then have "(be_nat (take (Suc n) counter) + unat c) mod 256 = unat d mod 256" by (simp only: mod_mult_self2)
    then show ?thesis unfolding word_of_nat_unat [symmetric] by (simp only: word_unat_eq_iff unat_word_of_nat_byte)
  qed
  ultimately show ?case by (simp add: d_def Let_def)
qed simp

lemma ctr128_inc: "length c = 16 \<Longrightarrow> ctr128_inc c = be_bytes 16 (be_nat c + 1)"
  using inc_loop [of 16 c 1] by (simp add: ctr128_inc_def)

lemma ctr128_inc_be: "ctr128_inc (be_bytes 16 v) = be_bytes 16 (v + 1)"
proof -
  have "be_bytes 16 (v mod 256 ^ 16 + 1) = be_bytes 16 ((v mod 256 ^ 16 + 1) mod 256 ^ 16)" by (simp only: be_bytes_mod)
  also have "\<dots> = be_bytes 16 (v + 1)" by (simp only: mod_add_left_eq be_bytes_mod)
  finally show ?thesis using ctr128_inc [of "be_bytes 16 v"] by (simp only: length_be_bytes be_nat_be_bytes)
qed

definition ctr_ks :: "cipher \<Rightarrow> nat \<Rightarrow> nat \<Rightarrow> u8" where
  "ctr_ks block v p = block (be_bytes 16 (v + p div 16)) ! (p mod 16)"

fun ctr_view_at :: "cipher \<Rightarrow> nat \<Rightarrow> nat \<Rightarrow> u8 list byte_state \<Rightarrow> bool" where
  "ctr_view_at block v p (n, iv, e) \<longleftrightarrow> n = p mod 16 \<and> iv = be_bytes 16 (v + (p + 15) div 16) \<and>
     (n \<noteq> 0 \<longrightarrow> e = block (be_bytes 16 (v + p div 16)))"

definition ctr_at :: "cipher \<Rightarrow> nat \<Rightarrow> nat \<Rightarrow> ctr_state \<Rightarrow> bool" where
  "ctr_at block v p s \<longleftrightarrow> cipher_ok16 block \<and> ctr_view_at block v p (ctr_view s)"

lemma position: "p mod 16 = 0 \<Longrightarrow> (p + 15) div 16 = p div 16 \<and> (p + 1 + 15) div 16 = p div 16 + 1 \<and> (p + 1) div 16 = p div 16"
  "p mod 16 \<noteq> 0 \<Longrightarrow> (p + 15) div 16 = p div 16 + 1 \<and> (p + 1 + 15) div 16 = (p + 15) div 16 \<and> ((p + 1) mod 16 \<noteq> 0 \<longrightarrow> (p + 1) div 16 = p div 16)"
  for p :: nat
proof -
  define q r where "q = p div 16" and "r = p mod 16"
  have p: "p = q * 16 + r" "r < 16" by (simp_all add: q_def r_def)
  have d: "(q * 16 + k) div 16 = q + k div 16" for k by simp
  have e: "p + 15 = q * 16 + (r + 15)" "p + 1 + 15 = q * 16 + (r + 16)" "p + 1 = q * 16 + (r + 1)" using p(1) by simp_all
  show "p mod 16 = 0 \<Longrightarrow> (p + 15) div 16 = p div 16 \<and> (p + 1 + 15) div 16 = p div 16 + 1 \<and> (p + 1) div 16 = p div 16"
    unfolding e d r_def [symmetric] q_def [symmetric] by simp
  assume "p mod 16 \<noteq> 0"
  then have "0 < r" by (simp add: r_def)
  then have "(r + 15) div 16 = 1" "(r + 16) div 16 = 1" using p(2) by (auto intro!: div_nat_eqI)
  moreover have "(p + 1) mod 16 \<noteq> 0 \<longrightarrow> (p + 1) div 16 = p div 16"
  proof
    assume "(p + 1) mod 16 \<noteq> 0"
    then have "r + 1 < 16" using p(2) unfolding e by (cases "r = 15") auto
    then show "(p + 1) div 16 = p div 16" unfolding e d q_def [symmetric] by simp
  qed
  ultimately show "(p + 15) div 16 = p div 16 + 1 \<and> (p + 1 + 15) div 16 = (p + 15) div 16 \<and>
      ((p + 1) mod 16 \<noteq> 0 \<longrightarrow> (p + 1) div 16 = p div 16)"
    unfolding e(1,2) d q_def [symmetric] by simp
qed

lemma ctr_view_step:
  assumes "ctr_view_at block v p st" and "byte_step xor_op (ctr_refill block) b st = (c, st')"
  shows "c = b XOR ctr_ks block v p \<and> ctr_view_at block v (p + 1) st'"
proof -
  obtain n iv e where st: "st = (n, iv, e)" by (cases st) auto
  have a: "n = p mod 16" "iv = be_bytes 16 (v + (p + 15) div 16)" "n \<noteq> 0 \<longrightarrow> e = block (be_bytes 16 (v + p div 16))"
    using assms(1) by (simp_all add: st)
  show ?thesis
  proof (cases "p mod 16 = 0")
    case True
    then show ?thesis using assms(2) a position(1) [OF True] by (auto simp: st byte_step_def xor_op_def ctr_ks_def ctr128_inc_be mod_simps)
  next
    case False
    then show ?thesis using assms(2) a position(2) [OF False] by (auto simp: st byte_step_def xor_op_def ctr_ks_def mod_simps)
  qed
qed

lemma upt_Cons: "[p..<p + length (b # xs)] = p # [p + 1..<p + 1 + length xs]"
  by (simp add: upt_conv_Cons del: upt_Suc)

lemma ctr_view_steps:
  "ctr_view_at block v p st \<Longrightarrow> byte_steps xor_op (ctr_refill block) xs st = (out, st') \<Longrightarrow>
     out = map2 (XOR) xs (map (ctr_ks block v) [p..<p + length xs]) \<and> ctr_view_at block v (p + length xs) st'"
proof (induction xs arbitrary: p st out)
  case (Cons b xs)
  obtain c st1 where s: "byte_step xor_op (ctr_refill block) b st = (c, st1)" by (cases "byte_step xor_op (ctr_refill block) b st")
  obtain o1 where o: "byte_steps xor_op (ctr_refill block) xs st1 = (o1, st')" "out = c # o1" using Cons.prems(2) s by (auto split: prod.splits)
  have 1: "c = b XOR ctr_ks block v p" "ctr_view_at block v (p + 1) st1" using ctr_view_step [OF Cons.prems(1) s] by blast+
  show ?case using Cons.IH [OF 1(2) o(1)] 1(1) o(2) unfolding upt_Cons by (simp del: upt_Suc)
qed simp

interpretation ctr: keystream "CRYPTO_ctr128_encrypt block" "ctr_at block v" "ctr_ks block v" for block v
proof
  fix p s xs out s'
  assume a: "ctr_at block v p s" and c: "CRYPTO_ctr128_encrypt block xs s = (out, s')"
  have "length (ivec s) = 16" "num s < 16" "cipher_ok16 block" using a by (simp_all add: ctr_at_def ctr_view_def)
  from ctr_steps [OF this(3,1,2) c] show "out = map2 (XOR) xs (map (ctr_ks block v) [p..<p + length xs]) \<and> ctr_at block v (p + length xs) s'"
    using ctr_view_steps [of block v p "ctr_view s" xs] a by (auto simp: ctr_at_def)
qed

fun ofb_ks :: "cipher \<Rightarrow> u8 list \<Rightarrow> nat \<Rightarrow> u8" where
  "ofb_ks block iv p = (block ^^ (p div 16 + 1)) iv ! (p mod 16)"

fun ofb_at :: "cipher \<Rightarrow> u8 list \<Rightarrow> nat \<Rightarrow> u8 list \<times> nat \<Rightarrow> bool" where
  "ofb_at block iv0 p (iv, n) \<longleftrightarrow> cipher_ok16 block \<and> length iv0 = 16 \<and> n = p mod 16 \<and> iv = (block ^^ ((p + 15) div 16)) iv0"

lemma length_iterated: "cipher_ok16 block \<Longrightarrow> length iv = 16 \<Longrightarrow> length ((block ^^ k) iv) = 16"
  by (induction k) (simp_all add: cipher_ok16_def)

lemma ofb_view_steps:
  "ofb_at block iv0 p (iv, n) \<Longrightarrow> byte_steps xor_op (ofb_refill block) xs (n, (), iv) = (out, n', u, iv') \<Longrightarrow>
     out = map2 (XOR) xs (map (ofb_ks block iv0) [p..<p + length xs]) \<and> ofb_at block iv0 (p + length xs) (iv', n')"
proof (induction xs arbitrary: p iv n out)
  case (Cons b xs)
  obtain c n1 iv1 where s: "byte_step xor_op (ofb_refill block) b (n, (), iv) = (c, n1, (), iv1)"
    by (cases "byte_step xor_op (ofb_refill block) b (n, (), iv)") auto
  obtain o1 where o: "byte_steps xor_op (ofb_refill block) xs (n1, (), iv1) = (o1, n', u, iv')" "out = c # o1"
    using Cons.prems(2) s by (auto split: prod.splits)
  have 1: "c = b XOR ofb_ks block iv0 p \<and> ofb_at block iv0 (p + 1) (iv1, n1)"
  proof (cases "p mod 16 = 0")
    case True
    then show ?thesis using s Cons.prems(1) position(1) [OF True] by (auto simp: byte_step_def xor_op_def mod_simps)
  next
    case False
    then show ?thesis using s Cons.prems(1) position(2) [OF False] False by (auto simp: byte_step_def xor_op_def mod_simps)
  qed
  show ?case using Cons.IH [OF conjunct2 [OF 1] o(1)] 1 o(2) unfolding upt_Cons by (simp del: upt_Suc)
qed simp

interpretation ofb: keystream "CRYPTO_ofb128_encrypt block" "ofb_at block iv" "ofb_ks block iv" for block iv
proof
  fix p s xs out s'
  assume a: "ofb_at block iv p s" and c: "CRYPTO_ofb128_encrypt block xs s = (out, s')"
  obtain v n where s: "s = (v, n)" by (cases s)
  obtain o1 n' u v' where b: "byte_steps xor_op (ofb_refill block) xs (n, (), v) = (o1, n', u, v')" by (metis prod_cases4)
  have "length v = 16" "n < 16" "cipher_ok16 block" using a by (auto simp: s length_iterated)
  from ofb_steps [OF this(3,1,2), of xs] have "out = o1" "s' = (v', n')" using b c by (simp_all add: s)
  then show "out = map2 (XOR) xs (map (ofb_ks block iv) [p..<p + length xs]) \<and> ofb_at block iv (p + length xs) s'"
    using ofb_view_steps [OF a [unfolded s] b] by simp
qed

section \<open>The 32-bit counter\<close>

text \<open>Counter mode on whole blocks, from the counter value \<open>v\<close> on, and what is relied on of a \<open>ctr128_f\<close>.\<close>

fun ctr_xor :: "cipher \<Rightarrow> nat \<Rightarrow> u8 list \<Rightarrow> u8 list" where
  "ctr_xor block v inp = (if length inp < 16 then [] else map2 (XOR) (take 16 inp) (block (be_bytes 16 v)) @ ctr_xor block (v + 1) (drop 16 inp))"

declare ctr_xor.simps [simp del]

definition ctr_func_ok :: "cipher \<Rightarrow> ctr128_f \<Rightarrow> bool" where
  "ctr_func_ok block func \<longleftrightarrow> (\<forall>inp blocks iv. length iv = 16 \<longrightarrow> length inp = blocks * 16 \<longrightarrow> be_nat (drop 12 iv) + blocks \<le> 2 ^ 32 \<longrightarrow>
     func inp blocks iv = ctr_xor block (be_nat iv) inp)"

lemma ctr_xor_append: "length xs = n * 16 \<Longrightarrow> ctr_xor block v (xs @ ys) = ctr_xor block v xs @ ctr_xor block (v + n) ys"
proof (induction n arbitrary: v xs)
  case 0
  then show ?case by (simp add: ctr_xor.simps [of _ _ "[]"])
next
  case (Suc n)
  then show ?case using Suc.IH [of "drop 16 xs" "v + 1"] by (subst (1 2) ctr_xor.simps) simp
qed

lemma ctr_blocks_xor:
  "cipher_ok16 block \<Longrightarrow> ivec s = be_bytes 16 v \<Longrightarrow> ctr_blocks block inp s = (o1, rest, s') \<Longrightarrow>
     o1 = ctr_xor block v inp \<and> rest = drop (length inp div 16 * 16) inp \<and> ivec s' = be_bytes 16 (v + length inp div 16) \<and>
     num s' = (if length inp < 16 then num s else 0) \<and> (length inp < 16 \<longrightarrow> s' = s)"
proof (induction inp arbitrary: s o1 v rule: length_induct)
  case (1 inp)
  show ?case
  proof (cases "16 \<le> length inp")
    case False
    then have "o1 = [] \<and> rest = inp \<and> s' = s" using "1.prems"(3) by (subst (asm) ctr_blocks.simps) simp
    then show ?thesis using "1.prems"(2) False by (simp add: ctr_xor.simps [of block v inp])
  next
    case True
    define e where "e = block (be_bytes 16 v)"
    have e: "length e = 16" using "1.prems"(1) by (simp add: e_def cipher_ok16_def)
    define s1 where "s1 = s\<lparr>ecount_buf := e, ivec := ctr128_inc (ivec s), num := 0\<rparr>"
    have v1: "ivec s1 = be_bytes 16 (v + 1)" using "1.prems"(2) by (simp add: s1_def ctr128_inc_be)
    obtain o2 where r: "ctr_blocks block (drop 16 inp) s1 = (o2, rest, s')" "o1 = xor_words inp e @ o2"
      using "1.prems"(2,3) True by (subst (asm) ctr_blocks.simps) (auto simp: e_def s1_def Let_def split: prod.splits)
    obtain m where m: "length inp div 16 = Suc m" using True by (cases "length inp div 16") (simp_all add: div_eq_0_iff)
    have "length inp = length (drop 16 inp) + 16" using True by simp
    then have l: "length (drop 16 inp) div 16 = m" using m by (metis Suc_eq_plus1 add_right_cancel div_add_self2 zero_neq_numeral)
    have "length (drop 16 inp) < length inp" using True by simp
    with "1.IH" "1.prems"(1) r(1) v1 have ih: "o2 = ctr_xor block (v + 1) (drop 16 inp) \<and>
        rest = drop (length (drop 16 inp) div 16 * 16) (drop 16 inp) \<and> ivec s' = be_bytes 16 (v + 1 + length (drop 16 inp) div 16) \<and>
        num s' = (if length (drop 16 inp) < 16 then num s1 else 0)" by blast
    have "xor_words inp e = map2 (XOR) (take 16 inp) e" using xor_words [OF True, of e] e by simp
    moreover have "ctr_xor block v inp = map2 (XOR) (take 16 inp) e @ ctr_xor block (v + 1) (drop 16 inp)"
      using True by (subst ctr_xor.simps) (simp add: e_def)
    moreover have "drop (m * 16) (drop 16 inp) = drop (Suc m * 16) inp" by (simp add: add.commute)
    moreover have "num s' = 0" using ih by (simp add: s1_def split: if_splits)
    ultimately show ?thesis using ih r(2) True unfolding l m by (simp only: add_Suc_right add_Suc add.assoc One_nat_def plus_nat.simps) simp
  qed
qed

lemma word32_zero: "(word_of_nat v :: u32) = 0 \<longleftrightarrow> v mod 2 ^ 32 = 0" "unat (word_of_nat v :: u32) = v mod 2 ^ 32"
  by (simp_all add: word_unat_eq_iff unsigned_of_nat take_bit_eq_mod)

lemma ctr32_round:
  assumes "ctr32_round len (word_of_nat v) = (b, c)"
  shows "v mod 2 ^ 32 + b \<le> 2 ^ 32 \<and> c = word_of_nat (v + b)"
proof -
  define b0 where "b0 = min (len div 16) (2 ^ 28)"
  define c0 :: u32 where "c0 = word_of_nat (v + b0)"
  have r: "ctr32_round len (word_of_nat v) = (if unat c0 < b0 then (b0 - unat c0, 0) else (b0, c0))"
    unfolding ctr32_round_def c0_def b0_def Let_def by (simp add: min_def)
  define u where "u = v mod 2 ^ 32"
  have u: "u < 2 ^ 32" "b0 \<le> 2 ^ 28" by (simp_all add: u_def b0_def)
  have c0: "unat c0 = (u + b0) mod 2 ^ 32" unfolding c0_def word32_zero u_def by (simp only: mod_add_left_eq)
  show ?thesis
  proof (cases "u + b0 < 2 ^ 32")
    case True
    then have "unat c0 = u + b0" unfolding c0 by (rule mod_less)
    then have "b = b0" "c = c0" using assms unfolding r by simp_all
    then show ?thesis using True unfolding c0_def u_def by simp
  next
    case False
    then have "unat c0 = u + b0 - 2 ^ 32" using u unfolding c0 by (subst le_mod_geq) auto
    moreover have "u + b0 - 2 ^ 32 < b0" "b0 - (u + b0 - 2 ^ 32) = 2 ^ 32 - u" using u False by linarith+
    ultimately have b: "b = 2 ^ 32 - u" "c = 0" using assms unfolding r by (simp_all del: diff_diff_left)
    have "(v + b) mod 2 ^ 32 = (u + b) mod 2 ^ 32" unfolding u_def by (simp only: mod_add_left_eq)
    then have "(v + b) mod 2 ^ 32 = 0" using u b by simp
    then have "c = word_of_nat (v + b)" unfolding b(2) word32_zero(1) [symmetric] by (rule sym)
    then show ?thesis using u b(1) unfolding u_def by simp
  qed
qed

lemma next_iv:
  assumes "v mod 2 ^ 32 + b \<le> 2 ^ 32" and "0 < b" and "c = word_of_nat (v + b)"
  shows "(let iv = store 12 (CRYPTO_store_u32_be c) (be_bytes 16 v) in if c = 0 then ctr96_inc iv else iv) = be_bytes 16 (v + b)"
proof -
  define q u where "q = v div 2 ^ 32" and "u = v mod 2 ^ 32"
  have v: "v = q * 2 ^ 32 + u" "u < 2 ^ 32" by (simp_all add: q_def u_def)
  have p: "(256 :: nat) ^ 4 = 2 ^ 32" by simp
  have split: "be_bytes 16 x = be_bytes 12 (x div 2 ^ 32) @ be_bytes 4 x" for x
    using be_bytes_add [of 12 4 x] unfolding p by simp
  have "unat c = (v + b) mod 256 ^ 4" unfolding assms(3) word32_zero p by (rule refl)
  then have s: "CRYPTO_store_u32_be c = be_bytes 4 (v + b)" unfolding store_u32_be by (simp only: be_bytes_mod)
  have iv: "store 12 (CRYPTO_store_u32_be c) (be_bytes 16 v) = be_bytes 12 q @ be_bytes 4 (v + b)"
    unfolding s split [of v] q_def by (simp add: store_def)
  have m: "(v + b) mod 2 ^ 32 = (u + b) mod 2 ^ 32" unfolding u_def by (simp only: mod_add_left_eq)
  have d: "(v + b) div 2 ^ 32 = q + (u + b) div 2 ^ 32" unfolding v(1) add.assoc by (rule div_mult_self3) simp
  show ?thesis
  proof (cases "u + b = 2 ^ 32")
    case True
    then have "c = 0" using m unfolding assms(3) word32_zero by simp
    moreover have "ctr96_inc (be_bytes 12 q @ be_bytes 4 (v + b)) = be_bytes 12 (q + 1) @ be_bytes 4 (v + b)"
    proof -
      have "be_bytes 12 (q mod 256 ^ 12 + 1) = be_bytes 12 ((q mod 256 ^ 12 + 1) mod 256 ^ 12)" by (simp only: be_bytes_mod)
      also have "\<dots> = be_bytes 12 (q + 1)" by (simp only: mod_add_left_eq be_bytes_mod)
      finally show ?thesis
        using inc_loop [of 12 "be_bytes 12 q @ be_bytes 4 (v + b)" 1] unfolding ctr96_inc_def by (simp add: be_nat_be_bytes)
    qed
    moreover have "(v + b) div 2 ^ 32 = q + 1" unfolding d True by simp
    ultimately show ?thesis unfolding Let_def iv split [of "v + b"] by simp
  next
    case False
    then have l: "u + b < 2 ^ 32" using assms(1) u_def by simp
    then have "c \<noteq> 0" using m assms(2) unfolding assms(3) word32_zero by simp
    moreover have "(v + b) div 2 ^ 32 = q" unfolding d using l by simp
    ultimately show ?thesis unfolding Let_def iv split [of "v + b"] by simp
  qed
qed

lemma counter_low: "CRYPTO_load_u32_be (drop 12 (be_bytes 16 v)) = word_of_nat v" "be_nat (drop 12 (be_bytes 16 v)) = v mod 2 ^ 32"
proof -
  have p: "(256 :: nat) ^ 4 = 2 ^ 32" by simp
  have d: "drop 12 (be_bytes 16 v) = be_bytes 4 v" using be_bytes_add [of 12 4 v] by simp
  show "be_nat (drop 12 (be_bytes 16 v)) = v mod 2 ^ 32" unfolding d be_nat_be_bytes p by (rule refl)
  then show "CRYPTO_load_u32_be (drop 12 (be_bytes 16 v)) = word_of_nat v"
    by (simp add: load_u32_be word_unat_eq_iff unsigned_of_nat take_bit_eq_mod)
qed

lemma ctr_xor_mod: "ctr_xor block (v mod 256 ^ 16) inp = ctr_xor block v inp"
proof (induction inp arbitrary: v rule: length_induct)
  case (1 inp)
  show ?case
  proof (cases "length inp < 16")
    case False
    then have "length (drop 16 inp) < length inp" by simp
    with 1 have ih: "ctr_xor block (w mod 256 ^ 16) (drop 16 inp) = ctr_xor block w (drop 16 inp)" for w by blast
    have "ctr_xor block (v mod 256 ^ 16 + 1) (drop 16 inp) = ctr_xor block (v + 1) (drop 16 inp)"
      using ih [of "v mod 256 ^ 16 + 1"] ih [of "v + 1"] by (simp only: mod_add_left_eq)
    then show ?thesis using False by (subst (1 2) ctr_xor.simps) (simp only: be_bytes_mod)
  qed (simp add: ctr_xor.simps)
qed

lemma ctr32_blocks:
  assumes "ctr_func_ok block func"
  shows "ctr32_blocks func inp (word_of_nat v) (be_bytes 16 v) =
    (ctr_xor block v inp, drop (length inp div 16 * 16) inp, word_of_nat (v + length inp div 16), be_bytes 16 (v + length inp div 16))"
proof (induction inp arbitrary: v rule: length_induct)
  case (1 inp)
  show ?case
  proof (cases "16 \<le> length inp")
    case False
    then show ?thesis by (simp add: ctr32_blocks.simps [of func inp] ctr_xor.simps [of block v inp])
  next
    case True
    obtain b c where r: "ctr32_round (length inp) (word_of_nat v) = (b, c)" by (cases "ctr32_round (length inp) (word_of_nat v)")
    note b = ctr32_round_pos [OF True r] and c = ctr32_round [OF r]
    have "length (drop (b * 16) inp) < length inp" using b True unfolding length_drop by linarith
    with 1 have ih: "ctr32_blocks func (drop (b * 16) inp) (word_of_nat w) (be_bytes 16 w) =
        (ctr_xor block w (drop (b * 16) inp), drop (length (drop (b * 16) inp) div 16 * 16) (drop (b * 16) inp),
         word_of_nat (w + length (drop (b * 16) inp) div 16), be_bytes 16 (w + length (drop (b * 16) inp) div 16))" for w by blast
    have l: "length inp div 16 = b + length (drop (b * 16) inp) div 16"
    proof -
      have "length inp = length (drop (b * 16) inp) + b * 16" using b by simp
      then show ?thesis by (metis div_mult_self1 zero_neq_numeral)
    qed
    have f: "func (take (b * 16) inp) b (be_bytes 16 v) = ctr_xor block v (take (b * 16) inp)"
      using assms b c unfolding ctr_func_ok_def by (simp add: counter_low be_nat_be_bytes ctr_xor_mod [simplified])
    have x: "ctr_xor block v inp = ctr_xor block v (take (b * 16) inp) @ ctr_xor block (v + b) (drop (b * 16) inp)"
      using ctr_xor_append [of "take (b * 16) inp" b block v "drop (b * 16) inp"] b by simp
    have n: "(let iv = store 12 (CRYPTO_store_u32_be c) (be_bytes 16 v) in if c = 0 then ctr96_inc iv else iv) = be_bytes 16 (v + b)"
      using next_iv [of v b c] b c by blast
    show ?thesis
      unfolding ctr32_blocks.simps [of func inp] r x l using True f n ih [of "v + b"] c
      by (simp add: Let_def add.assoc add_mult_distrib add.commute add.left_commute)
  qed
qed

lemma ctr_call:
  assumes "used_loop xor_op (num s) inp (ecount_buf s) = (o1, r1, n1, b1)" and "cipher_ok16 block" and "ivec s = be_bytes 16 v"
  defines "r2 \<equiv> drop (length r1 div 16 * 16) r1" and "w \<equiv> v + length r1 div 16"
  shows "\<exists>s2. ivec s2 = be_bytes 16 w \<and> num s2 = (if length r1 < 16 then n1 else 0) \<and> (length r1 < 16 \<longrightarrow> ecount_buf s2 = ecount_buf s) \<and>
    CRYPTO_ctr128_encrypt block inp s =
      (if r2 \<noteq> [] then
         case rest_loop xor_op (num s2) r2 (block (be_bytes 16 w)) of
           (o3, n, _) \<Rightarrow> (o1 @ ctr_xor block v r1 @ o3, \<lparr>ivec = be_bytes 16 (w + 1), ecount_buf = block (be_bytes 16 w), num = n\<rparr>)
       else (o1 @ ctr_xor block v r1, s2))"
proof -
  obtain o2 r s2 where k: "ctr_blocks block r1 (s\<lparr>num := n1\<rparr>) = (o2, r, s2)" by (metis prod_cases3)
  have b: "o2 = ctr_xor block v r1 \<and> r = r2 \<and> ivec s2 = be_bytes 16 w \<and> num s2 = (if length r1 < 16 then n1 else 0) \<and>
      (length r1 < 16 \<longrightarrow> s2 = s\<lparr>num := n1\<rparr>)"
    using ctr_blocks_xor [OF assms(2) _ k, of v] assms(3) unfolding r2_def w_def by simp
  have "CRYPTO_ctr128_encrypt block inp s =
      (if r2 \<noteq> [] then
         case rest_loop xor_op (num s2) r2 (block (be_bytes 16 w)) of
           (o3, n, _) \<Rightarrow> (o1 @ ctr_xor block v r1 @ o3, \<lparr>ivec = be_bytes 16 (w + 1), ecount_buf = block (be_bytes 16 w), num = n\<rparr>)
       else (o1 @ ctr_xor block v r1, s2))"
    unfolding CRYPTO_ctr128_encrypt_def assms(1) using k b by (simp add: Let_def ctr128_inc_be split: prod.split)
  then show ?thesis using b by auto
qed

lemma ctr32_same:
  assumes "cipher_ok16 block" and "ctr_func_ok block func" and "length (ivec s) = 16" and "num s < 16"
    and "CRYPTO_ctr128_encrypt block inp s = (out, t)" and "CRYPTO_ctr128_encrypt_ctr32 func inp s = (out', t')"
  shows "out' = out \<and> ivec t' = ivec t \<and> num t' = num t \<and> (num t \<noteq> 0 \<longrightarrow> ecount_buf t' = ecount_buf t)"
proof -
  define v where "v = be_nat (ivec s)"
  have v: "ivec s = be_bytes 16 v" using be_bytes_be_nat [of "ivec s"] assms(3) by (simp add: v_def)
  obtain o1 r1 n1 b1 where u: "used_loop xor_op (num s) inp (ecount_buf s) = (o1, r1, n1, b1)" by (metis prod_cases4)
  note st = used_loop [OF u assms(4), of "ctr_refill block" "ivec s"]
  define w where "w = v + length r1 div 16"
  define r2 where "r2 = drop (length r1 div 16 * 16) r1"
  obtain s2 where s2: "ivec s2 = be_bytes 16 w" "num s2 = (if length r1 < 16 then n1 else 0)" "length r1 < 16 \<longrightarrow> ecount_buf s2 = ecount_buf s"
    and call: "(out, t) = (if r2 \<noteq> [] then
        case rest_loop xor_op (num s2) r2 (block (be_bytes 16 w)) of
          (o3, n, _) \<Rightarrow> (o1 @ ctr_xor block v r1 @ o3, \<lparr>ivec = be_bytes 16 (w + 1), ecount_buf = block (be_bytes 16 w), num = n\<rparr>)
        else (o1 @ ctr_xor block v r1, s2))"
    using ctr_call [OF u assms(1) v] assms(5) unfolding w_def r2_def by auto
  have z: "func (replicate 16 0) 1 (be_bytes 16 w) = block (be_bytes 16 w)"
  proof -
    have "func (replicate 16 0) 1 (be_bytes 16 w) = ctr_xor block w (replicate 16 0)"
      using assms(2) unfolding ctr_func_ok_def by (simp add: counter_low be_nat_be_bytes ctr_xor_mod [simplified] Suc_le_eq)
    also have "\<dots> = map2 (XOR) (replicate 16 0) (block (be_bytes 16 w))" by (simp add: ctr_xor.simps)
    also have "\<dots> = block (be_bytes 16 w)"
      using assms(1) by (intro nth_equalityI) (simp_all add: cipher_ok16_def)
    finally show ?thesis .
  qed
  have n: "(let iv = store 12 (CRYPTO_store_u32_be (word_of_nat w + 1)) (be_bytes 16 w) in if (word_of_nat w + 1 :: u32) = 0 then ctr96_inc iv else iv)
      = be_bytes 16 (w + 1)"
    using next_iv [of w 1 "word_of_nat w + 1"] by (simp add: Suc_le_eq)
  have k: "ctr32_blocks func r1 (CRYPTO_load_u32_be (drop 12 (be_bytes 16 v))) (be_bytes 16 v) =
      (ctr_xor block v r1, r2, word_of_nat w, be_bytes 16 w)"
    unfolding counter_low ctr32_blocks [OF assms(2)] w_def r2_def by (rule refl)
  have call': "(out', t') = (if r2 \<noteq> [] then
        case rest_loop xor_op n1 r2 (block (be_bytes 16 w)) of
          (o3, n, _) \<Rightarrow> (o1 @ ctr_xor block v r1 @ o3, \<lparr>ivec = be_bytes 16 (w + 1), ecount_buf = block (be_bytes 16 w), num = n\<rparr>)
        else (o1 @ ctr_xor block v r1, s\<lparr>ivec := be_bytes 16 w, num := n1\<rparr>))"
    using assms(6) n z unfolding CRYPTO_ctr128_encrypt_ctr32_def u v
    by (cases s; cases "r2 = []") (simp_all add: k Let_def split: prod.splits)
  have "num s2 = n1" using st s2(2) by (auto split: if_splits)
  moreover have "n1 \<noteq> 0 \<Longrightarrow> ecount_buf s2 = ecount_buf s" using st s2(3) by auto
  ultimately show ?thesis using call call' s2(1) by (auto split: if_splits prod.splits)
qed

text \<open>C23. \<open>CRYPTO_ctr128_encrypt_ctr32\<close>, which gives runs of blocks to a function that counts in 32 bits and cuts a run where that counter would wrap,
  does what \<open>CRYPTO_ctr128_encrypt\<close> does, one block at a time with a counter of 128 bits: the same output, the same counter and
  position after it, and the same keystream block when it is to be used further.\<close>

theorem ctr32_is_ctr:
  assumes "cipher_ok16 block" and "ctr_func_ok block func" and "length (ivec s) = 16" and "num s < 16"
    and "CRYPTO_ctr128_encrypt block inp s = (out, t)" and "CRYPTO_ctr128_encrypt_ctr32 func inp s = (out', t')"
  shows "out' = out \<and> ivec t' = ivec t \<and> num t' = num t \<and> (num t \<noteq> 0 \<longrightarrow> ecount_buf t' = ecount_buf t)"
  by (rule ctr32_same [OF assms])

lemma ctr32_is_ctr_witness:
  defines "block \<equiv> \<lambda>x. map (\<lambda>b. b + 1) (x :: u8 list)"
    and "func \<equiv> \<lambda>inp blocks iv. ctr_xor (\<lambda>x. map (\<lambda>b. b + 1) (x :: u8 list)) (be_nat iv) inp"
    and "s \<equiv> \<lparr>ivec = replicate 16 0xFF, ecount_buf = replicate 16 0, num = 0\<rparr>"
  shows "fst (CRYPTO_ctr128_encrypt_ctr32 func (replicate 40 7) s) = fst (CRYPTO_ctr128_encrypt block (replicate 40 7) s)"
proof -
  have "cipher_ok16 block" "ctr_func_ok block func" "length (ivec s) = 16" "num s < 16"
    by (simp_all add: block_def func_def s_def cipher_ok16_def ctr_func_ok_def)
  from ctr32_is_ctr [OF this prod.collapse [symmetric] prod.collapse [symmetric], of "replicate 40 7"] show ?thesis by (rule conjunct1)
qed

text \<open>With such a function \<open>CRYPTO_ctr128_encrypt_ctr32\<close> is the same stream cipher.\<close>

definition ctr32_at :: "cipher \<Rightarrow> ctr128_f \<Rightarrow> nat \<Rightarrow> nat \<Rightarrow> ctr_state \<Rightarrow> bool" where
  "ctr32_at block func v p s \<longleftrightarrow> ctr_func_ok block func \<and> ctr_at block v p s"

text \<open>C36. In counter mode the \<open>p\<close>-th byte of the message, however it is cut into calls, is changed by the byte \<open>p mod 16\<close> of the encryption
  of the counter, a number of 16 bytes in network order, \<open>p div 16\<close> above its first value.\<close>

theorem ctr_keystream:
  assumes "cipher_ok16 block" and "length iv = 16"
    and "crypt_all (CRYPTO_ctr128_encrypt block) cs \<lparr>ivec = iv, ecount_buf = e, num = 0\<rparr> = (out, s)"
  shows "out = map2 (XOR) (concat cs)
    (map (\<lambda>p. block (be_bytes 16 (be_nat iv + p div 16)) ! (p mod 16)) [0..<length (concat cs)])"
proof -
  have "ctr_at block (be_nat iv) 0 \<lparr>ivec = iv, ecount_buf = e, num = 0\<rparr>"
    using assms(1,2) be_bytes_be_nat [of iv] by (simp add: ctr_at_def ctr_view_def)
  from ctr.crypt_all [OF this assms(3)] show ?thesis by (simp add: ctr_ks_def [abs_def])
qed

lemma ctr_keystream_witness:
  "fst (crypt_all (CRYPTO_ctr128_encrypt rev) [replicate 5 1, replicate 20 2] \<lparr>ivec = replicate 15 0 @ [0xFF], ecount_buf = [], num = 0\<rparr>) ! 17 = 3"
proof -
  define s where "s = \<lparr>ivec = replicate 15 0 @ [0xFF :: u8], ecount_buf = [], num = 0\<rparr>"
  obtain out t where o: "crypt_all (CRYPTO_ctr128_encrypt rev) [replicate 5 1, replicate 20 2] s = (out, t)" by (metis prod.exhaust)
  have "cipher_ok16 rev" "length (replicate 15 0 @ [0xFF :: u8]) = 16" by (simp_all add: cipher_ok16_def)
  from ctr_keystream [OF this o [unfolded s_def]]
  have "out ! 17 = 2 XOR rev (be_bytes 16 (be_nat (replicate 15 0 @ [0xFF]) + 17 div 16)) ! 1" by (simp add: nth_append)
  also have "\<dots> = 3" by code_simp
  finally show ?thesis using o by (simp add: s_def)
qed

text \<open>Output feedback decrypts what it encrypted: from the same initialisation vector, the ciphertext of a message, cut into calls in any
  way, gives the message that was encrypted, cut in any way.\<close>

theorem ofb_roundtrip:
  assumes "cipher_ok16 block" and "length iv = 16"
    and "concat ds = fst (crypt_all (CRYPTO_ofb128_encrypt block) cs (iv, 0))"
  shows "fst (crypt_all (CRYPTO_ofb128_encrypt block) ds (iv, 0)) = concat cs"
proof -
  have a: "ofb_at block iv 0 (iv, 0)" using assms(1,2) by simp
  show ?thesis by (rule ofb.involution [OF a a assms(3)])
qed

lemma ofb_roundtrip_witness:
  defines "out \<equiv> fst (crypt_all (CRYPTO_ofb128_encrypt rev) [replicate 5 1, replicate 20 2] (map word_of_nat [0..<16], 0))"
  shows "fst (crypt_all (CRYPTO_ofb128_encrypt rev) [take 17 out, drop 17 out] (map word_of_nat [0..<16], 0)) = replicate 5 1 @ replicate 20 2"
proof -
  have "cipher_ok16 rev" "length (map word_of_nat [0..<16] :: u8 list) = 16" by (simp_all add: cipher_ok16_def)
  from ofb_roundtrip [OF this, of "[take 17 out, drop 17 out]" "[replicate 5 1, replicate 20 2]"] show ?thesis by (simp add: out_def)
qed

section \<open>Cipher feedback\<close>

lemma byte_steps_state:
  assumes "byte_steps f refill xs (n, u, buf) = (out, n', u', buf')" and "n < 16" and "length buf = 16"
    and "\<And>n b buf. length (snd (f n b buf)) = length buf" and "\<And>s. length (snd s) = 16 \<Longrightarrow> length (snd (refill s)) = 16"
  shows "n' < 16 \<and> length buf' = 16"
  using assms(1-3)
proof (induction xs arbitrary: n u buf out)
  case (Cons b xs)
  obtain c n1 u1 buf1 where s: "byte_step f refill b (n, u, buf) = (c, n1, u1, buf1)" by (metis prod_cases4)
  obtain v buf2 where r: "(if n = 0 then refill (u, buf) else (u, buf)) = (v, buf2)" by fastforce
  then have "length buf2 = 16" using assms(5) [of "(u, buf)"] Cons.prems(3) by (auto split: if_splits)
  then have "length buf1 = 16" "n1 < 16" using s r assms(4) [of n b buf2] by (auto simp: byte_step_def split: prod.splits)
  moreover obtain o1 where "byte_steps f refill xs (n1, u1, buf1) = (o1, n', u', buf')" using Cons.prems(1) s by (auto split: prod.splits)
  ultimately show ?case using Cons.IH by blast
qed auto

definition cfb_op :: "bool \<Rightarrow> byte_op" where
  "cfb_op enc = (if enc then cfb_encrypt_op else cfb_decrypt_op)"

lemma cfb_all:
  assumes "cipher_ok16 block" and "length iv = 16" and "n < 16"
  shows "crypt_all (CRYPTO_cfb128_encrypt enc block) cs (iv, n) =
    (case byte_steps (cfb_op enc) (ofb_refill block) (concat cs) (n, (), iv) of (out, n', _, iv') \<Rightarrow> (out, iv', n'))"
  using assms(2,3)
proof (induction cs arbitrary: iv n)
  case (Cons c cs)
  obtain o1 n1 u iv1 where b: "byte_steps (cfb_op enc) (ofb_refill block) c (n, (), iv) = (o1, n1, u, iv1)" by (metis prod_cases4)
  have "length (snd (cfb_op enc n b buf)) = length buf" for n b buf by (simp add: cfb_op_def cfb_encrypt_op cfb_decrypt_op_def)
  moreover have "length (snd s) = 16 \<Longrightarrow> length (snd (ofb_refill block s)) = 16" for s using assms(1) by (simp add: ofb_refill_def cipher_ok16_def)
  ultimately have "n1 < 16 \<and> length iv1 = 16" using byte_steps_state [OF b Cons.prems(2,1)] by blast
  moreover have "CRYPTO_cfb128_encrypt enc block c (iv, n) = (o1, iv1, n1)"
    using cfb_steps [OF assms(1) Cons.prems, of enc c] b unfolding cfb_op_def by simp
  ultimately show ?case using Cons.IH [of iv1 n1] b by (auto simp: byte_steps_append split: prod.split)
qed simp

lemma cfb_op_inverse: "byte_steps (cfb_op True) refill xs s = (ys, s') \<Longrightarrow> byte_steps (cfb_op False) refill ys s = (xs, s')"
proof (induction xs arbitrary: s ys)
  case (Cons b xs)
  obtain n u buf where s: "s = (n, u, buf)" by (metis prod_cases3)
  obtain v buf1 where r: "(if n = 0 then refill (u, buf) else (u, buf)) = (v, buf1)" by fastforce
  define c where "c = buf1 ! n XOR b"
  have e: "byte_step (cfb_op True) refill b s = (c, (n + 1) mod 16, v, buf1[n := c])"
    using r by (simp add: byte_step_def s cfb_op_def cfb_encrypt_op c_def)
  have d: "byte_step (cfb_op False) refill c s = (b, (n + 1) mod 16, v, buf1[n := c])"
    using r by (simp add: byte_step_def s cfb_op_def cfb_decrypt_op_def) (simp add: c_def xor.assoc [symmetric])
  obtain o1 where "byte_steps (cfb_op True) refill xs ((n + 1) mod 16, v, buf1[n := c]) = (o1, s')" "ys = c # o1"
    using Cons.prems e by (auto split: prod.splits)
  then show ?case using Cons.IH d by simp
qed simp

text \<open>Cipher feedback decrypts what it encrypted and leaves the same state: from the same initialisation vector and position the ciphertext of a
  message, cut into calls in any way, gives the message, however it was cut.\<close>

theorem cfb_roundtrip:
  assumes "cipher_ok16 block" and "length iv = 16" and "n < 16"
    and "crypt_all (CRYPTO_cfb128_encrypt True block) cs (iv, n) = (out, s)" and "concat ds = out"
  shows "crypt_all (CRYPTO_cfb128_encrypt False block) ds (iv, n) = (concat cs, s)"
proof -
  obtain o1 n1 u iv1 where b: "byte_steps (cfb_op True) (ofb_refill block) (concat cs) (n, (), iv) = (o1, n1, u, iv1)" by (metis prod_cases4)
  then show ?thesis using assms(4,5) cfb_op_inverse [OF b] by (simp add: cfb_all [OF assms(1-3)])
qed

lemma cfb_roundtrip_witness:
  defines "r \<equiv> crypt_all (CRYPTO_cfb128_encrypt True rev) [replicate 5 1, replicate 20 2] (map word_of_nat [0..<16], 3)"
  shows "crypt_all (CRYPTO_cfb128_encrypt False rev) [take 17 (fst r), drop 17 (fst r)] (map word_of_nat [0..<16], 3) =
    (replicate 5 1 @ replicate 20 2, snd r)"
proof -
  have "cipher_ok16 rev" "length (map word_of_nat [0..<16] :: u8 list) = 16" "(3 :: nat) < 16" by (simp_all add: cipher_ok16_def)
  from cfb_roundtrip [OF this, of "[replicate 5 1, replicate 20 2]" "fst r" "snd r" "[take 17 (fst r), drop 17 (fst r)]"]
  show ?thesis by (simp add: r_def)
qed

text \<open>Feedback of a byte and of a bit.\<close>

lemma cipher_byte: "cipher_ok16 block \<Longrightarrow> length iv = 16 \<Longrightarrow> \<exists>k ks. block iv = k # ks"
  by (cases "block iv") (force simp: cipher_ok16_def)+

lemma cfbr8:
  assumes "cipher_ok16 block" and "length iv = 16"
  shows "cfbr_encrypt_block enc block 8 [b] iv =
    ([b XOR hd (block iv)], tl iv @ [if enc then b XOR hd (block iv) else b])"
proof -
  obtain k ks where k: "block iv = k # ks" using cipher_byte [OF assms] by blast
  obtain v vs where v: "iv = v # vs" "length vs = 15" using assms(2) by (cases iv) auto
  then show ?thesis using k by (simp add: cfbr_encrypt_block_def Let_def load_def)
qed

lemma cfb8_inverse:
  assumes "cipher_ok16 block" and "length iv = 16" and "CRYPTO_cfb128_8_encrypt True block inp iv = (out, iv')"
  shows "CRYPTO_cfb128_8_encrypt False block out iv = (inp, iv')"
  using assms(2,3)
proof (induction inp arbitrary: iv out)
  case (Cons b inp)
  define c where "c = b XOR hd (block iv)"
  obtain o1 where o: "CRYPTO_cfb128_8_encrypt True block inp (tl iv @ [c]) = (o1, iv')" "out = c # o1"
    using Cons.prems(2) cfbr8 [OF assms(1) Cons.prems(1), of True b] by (auto simp: c_def split: prod.splits)
  have "c XOR hd (block iv) = b" by (simp add: c_def xor.assoc)
  then show ?case using cfbr8 [OF assms(1) Cons.prems(1), of False c] Cons.IH [OF _ o(1)] Cons.prems(1) o(2) by simp
qed simp

definition shift_in :: "u8 list \<Rightarrow> bool \<Rightarrow> u8 list" where
  "shift_in iv b = map (\<lambda>i. push_bit 1 (iv ! i) OR (if i = 15 then of_bool b else drop_bit 7 (iv ! (i + 1)))) [0..<16]"

lemma drop_bit_top: "drop_bit 7 (d :: u8) = of_bool (bit d 7)"
proof (rule bit_word_eqI)
  fix n
  have "bit d (7 + n) \<longleftrightarrow> n = 0 \<and> bit d 7" using bit_imp_le_length [of d "7 + n"] by auto
  then show "bit (drop_bit 7 d) n \<longleftrightarrow> bit (of_bool (bit d 7) :: u8) n" by (auto simp: bit_drop_bit_eq bit_1_iff)
qed

lemma cfbr1:
  assumes "cipher_ok16 block" and "length iv = 16"
  shows "cfbr_encrypt_block enc block 1 [c] iv =
    ([c XOR hd (block iv)], shift_in iv (bit (if enc then c XOR hd (block iv) else c) 7))"
proof -
  obtain k ks where k: "block iv = k # ks" using cipher_byte [OF assms] by blast
  have "i < 16 \<Longrightarrow> (iv @ [d]) ! (i + 1) = (if i = 15 then d else iv ! (i + 1))" "i < 16 \<Longrightarrow> (iv @ [d]) ! i = iv ! i" for i d
    using assms(2) by (auto simp: nth_append)
  then show ?thesis by (simp add: cfbr_encrypt_block_def k Let_def shift_in_def drop_bit_top)
qed

text \<open>Bit \<open>k\<close> of a bit string, most significant bit of a byte first.\<close>

definition bit_at :: "u8 list \<Rightarrow> nat \<Rightarrow> bool" where
  "bit_at xs k = bit (xs ! (k div 8)) (7 - k mod 8)"

lemma set_bit_at:
  assumes "m < 8" and "i < 8"
  shows "bit ((x AND NOT (push_bit (7 - m) 1)) OR drop_bit m (d AND 0x80)) (7 - i) = (if i = m then bit d 7 else bit (x :: u8) (7 - i))"
proof -
  have "(0x80 :: u8) = push_bit 7 1" by simp
  then have e: "bit (0x80 :: u8) j \<longleftrightarrow> j = 7" for j by (simp only: bit_push_bit_iff bit_1_iff) auto
  have f: "bit (push_bit (7 - m) (1 :: u8)) (7 - i) \<longleftrightarrow> i = m" using assms by (auto simp: bit_exp_iff)
  have "m + (7 - i) = 7 \<longleftrightarrow> i = m" using assms by linarith
  then have g: "bit (drop_bit m (d AND 0x80)) (7 - i) \<longleftrightarrow> i = m \<and> bit d 7"
    unfolding bit_drop_bit_eq comp_apply bit_and_iff e by auto
  show ?thesis unfolding bit_or_iff bit_and_iff bit_not_iff f g using assms by auto
qed

definition upd_bit :: "u8 list \<Rightarrow> nat \<Rightarrow> u8 \<Rightarrow> u8 list" where
  "upd_bit out n d =
     out[n div 8 := (out ! (n div 8) AND NOT (push_bit (7 - n mod 8) 1)) OR drop_bit (n mod 8) (d AND 0x80)]"

lemma upd_bit:
  assumes "n < 8 * length out"
  shows "length (upd_bit out n d) = length out \<and> bit_at (upd_bit out n d) k = (if k = n then bit d 7 else bit_at out k)"
proof (cases "k div 8 = n div 8")
  case True
  have "n div 8 < length out" using assms by linarith
  moreover have "k = n \<longleftrightarrow> k mod 8 = n mod 8" using True by (metis div_mod_decomp)
  moreover have "n mod 8 < 8" "k mod 8 < 8" by simp_all
  ultimately show ?thesis
    unfolding bit_at_def upd_bit_def True by (simp only: nth_list_update_eq length_list_update set_bit_at simp_thms)
qed (auto simp: bit_at_def upd_bit_def)

lemma cfb1_step:
  fixes inp :: "u8 list"
  assumes "cipher_ok16 block" and "length iv = 16" and "n < bits"
  defines "d \<equiv> (if bit_at inp n then 0x80 else 0) XOR hd (block iv)"
  shows "cfb1_loop enc block inp bits n out iv =
      cfb1_loop enc block inp bits (n + 1) (upd_bit out n d) (shift_in iv (if enc then bit d 7 else bit_at inp n)) \<and>
    (bit d 7 \<longleftrightarrow> bit_at inp n \<noteq> bit (hd (block iv)) 7)"
proof -
  have b: "(inp ! (n div 8) AND push_bit (7 - n mod 8) 1 \<noteq> 0) = bit_at inp n"
    by (simp add: bit_at_def bit_iff_and_push_bit_not_eq_0)
  have "(0x80 :: u8) = push_bit 7 1" by simp
  then have e: "bit (if bit_at inp n then 0x80 else 0 :: u8) 7 \<longleftrightarrow> bit_at inp n"
    by (simp only: bit_push_bit_iff bit_1_iff if_split bit_0_eq) auto
  show ?thesis
    using assms(3) cfbr1 [OF assms(1,2), of enc "if bit_at inp n then 0x80 else 0"]
    unfolding cfb1_loop.simps [of enc block inp bits n] b by (simp add: d_def upd_bit_def e bit_xor_iff Let_def)
qed

lemma length_shift_in: "length (shift_in iv b) = 16"
  by (simp add: shift_in_def)

lemma cfb1_inverse:
  assumes "cipher_ok16 block" and "length iv = 16" and "cfb1_loop True block inp bits n out iv = (out', iv')" and "bits \<le> 8 * length out"
  shows "length out' = length out \<and> (\<forall>k < n. bit_at out' k = bit_at out k) \<and>
    (\<forall>src dst. (\<forall>k. n \<le> k \<and> k < bits \<longrightarrow> bit_at src k = bit_at out' k) \<and> bits \<le> 8 * length dst \<longrightarrow>
       (\<exists>dst'. cfb1_loop False block src bits n dst iv = (dst', iv') \<and> length dst' = length dst \<and>
         (\<forall>k. bit_at dst' k = (if n \<le> k \<and> k < bits then bit_at inp k else bit_at dst k))))"
  using assms(2-4)
proof (induction "bits - n" arbitrary: n out iv)
  case 0
  then show ?case by (auto simp: cfb1_loop.simps)
next
  case (Suc m)
  then have n: "n < bits" by simp
  define d where "d = (if bit_at inp n then 0x80 else 0) XOR hd (block iv)"
  note s = cfb1_step [OF assms(1) Suc.prems(1) n, of True inp out, folded d_def]
  have l: "length (shift_in iv x) = 16" for x by (simp add: shift_in_def)
  have u: "n < 8 * length out" using n Suc.prems(3) by simp
  have "m = bits - (n + 1)" "bits \<le> 8 * length (upd_bit out n d)" using Suc.hyps(2) Suc.prems(3) upd_bit [OF u, of d] by simp_all
  note ih = Suc.hyps(1) [OF this(1) l _ this(2), of "bit d 7"]
  have r: "cfb1_loop True block inp bits (n + 1) (upd_bit out n d) (shift_in iv (bit d 7)) = (out', iv')" using s Suc.prems(2) by simp
  note ih = ih [OF r]
  have o: "bit_at out' n = bit d 7" "\<forall>k < n. bit_at out' k = bit_at out k" "length out' = length out"
    using ih upd_bit [OF u, of d] by simp_all
  show ?case
  proof (intro conjI allI impI)
    fix src dst :: "u8 list"
    assume a: "(\<forall>k. n \<le> k \<and> k < bits \<longrightarrow> bit_at src k = bit_at out' k) \<and> bits \<le> 8 * length dst"
    define e where "e = (if bit_at src n then 0x80 else 0) XOR hd (block iv)"
    note t = cfb1_step [OF assms(1) Suc.prems(1) n, of False src dst, folded e_def]
    have sb: "bit_at src n = bit d 7" using a n o(1) by simp
    have e: "bit e 7 = bit_at inp n" using t s unfolding sb by blast
    have v: "n < 8 * length dst" using n a by simp
    have p: "(\<forall>k. n + 1 \<le> k \<and> k < bits \<longrightarrow> bit_at src k = bit_at out' k) \<and> bits \<le> 8 * length (upd_bit dst n e)"
      using a upd_bit [OF v, of e] by simp
    obtain dst' where d': "cfb1_loop False block src bits (n + 1) (upd_bit dst n e) (shift_in iv (bit d 7)) = (dst', iv')"
      "length dst' = length (upd_bit dst n e)" "\<forall>k. bit_at dst' k = (if n + 1 \<le> k \<and> k < bits then bit_at inp k else bit_at (upd_bit dst n e) k)"
      using mp [OF spec [OF spec [OF conjunct2 [OF conjunct2 [OF ih]], of src], of "upd_bit dst n e"] p] by blast
    have "cfb1_loop False block src bits n dst iv = (dst', iv')" using t d'(1) unfolding sb by simp
    moreover have "length dst' = length dst" using d'(2) upd_bit [OF v, of e] by simp
    moreover have "bit_at dst' k = (if n \<le> k \<and> k < bits then bit_at inp k else bit_at dst k)" for k
      using d'(3) upd_bit [OF v, of e k] e n by (cases "k = n") auto
    ultimately show "\<exists>dst'. cfb1_loop False block src bits n dst iv = (dst', iv') \<and> length dst' = length dst \<and>
         (\<forall>k. bit_at dst' k = (if n \<le> k \<and> k < bits then bit_at inp k else bit_at dst k))" by blast
  qed (use o in auto)
qed

text \<open>A bit string of a number of bits that need not be whole bytes, encrypted into any place and decrypted from there into any place.\<close>

lemma cfb1_roundtrip:
  assumes "cipher_ok16 block" and "length iv = 16" and "bits \<le> 8 * length out" and "bits \<le> 8 * length dst"
    and "CRYPTO_cfb128_1_encrypt True block inp bits out iv = (c, iv')"
  shows "\<exists>dst'. CRYPTO_cfb128_1_encrypt False block c bits dst iv = (dst', iv') \<and>
    (\<forall>k. bit_at dst' k = (if k < bits then bit_at inp k else bit_at dst k))"
proof -
  note i = cfb1_inverse [OF assms(1,2) assms(5) [unfolded CRYPTO_cfb128_1_encrypt_def] assms(3)]
  have "(\<forall>k. 0 \<le> k \<and> k < bits \<longrightarrow> bit_at c k = bit_at c k) \<and> bits \<le> 8 * length dst" using assms(4) by simp
  from mp [OF spec [OF spec [OF conjunct2 [OF conjunct2 [OF i]]]] this] show ?thesis unfolding CRYPTO_cfb128_1_encrypt_def by auto
qed

interpretation ctr32: keystream "CRYPTO_ctr128_encrypt_ctr32 func" "ctr32_at block func v" "ctr_ks block v" for block func v
proof
  fix p s xs out s'
  assume a: "ctr32_at block func v p s" and c: "CRYPTO_ctr128_encrypt_ctr32 func xs s = (out, s')"
  have s: "length (ivec s) = 16" "num s < 16" "cipher_ok16 block" "ctr_func_ok block func" and at: "ctr_at block v p s"
    using a by (simp_all add: ctr32_at_def ctr_at_def ctr_view_def)
  obtain o1 t where t: "CRYPTO_ctr128_encrypt block xs s = (o1, t)" by (metis prod.exhaust)
  have "out = o1 \<and> ivec s' = ivec t \<and> num s' = num t \<and> (num t \<noteq> 0 \<longrightarrow> ecount_buf s' = ecount_buf t)"
    by (rule ctr32_same [OF s(3,4,1,2) t c])
  then show "out = map2 (XOR) xs (map (ctr_ks block v) [p..<p + length xs]) \<and> ctr32_at block func v (p + length xs) s'"
    using ctr.crypt [OF at t] s(4) by (auto simp: ctr32_at_def ctr_at_def ctr_view_def)
qed

end
