(* ===== verification/Digest_Md32.thy ===== *)
theory Digest_Md32
  imports Constant_Time
begin

text \<open>
  Model of \<^verbatim>\<open>crypto/fipsmodule/digest/md32_common.h\<close>, the collector that MD4, MD5, SHA-1 and SHA-256 share: it gathers the
  message into blocks, counts its bits and pads it. The block function is a parameter.
\<close>

section \<open>The code\<close>

text \<open>The fields common to the hash contexts, with words of either width; \<open>h\<close> is the chaining value.\<close>

record 'w md_ctx =
  h :: "'w list"
  Nl :: 'w
  Nh :: 'w
  data :: "u8 list"
  num :: nat

type_synonym md32_ctx = "u32 md_ctx"

type_synonym 's block_func = "'s \<Rightarrow> u8 list \<Rightarrow> nat \<Rightarrow> 's"

text \<open>The part of \<open>crypto_md32_update\<close> after the partial block is used up.\<close>

definition md32_blocks :: "'w list block_func \<Rightarrow> nat \<Rightarrow> u8 list \<Rightarrow> ('w, 'a) md_ctx_scheme \<Rightarrow> ('w, 'a) md_ctx_scheme" where
  "md32_blocks block_func block_size inp c =
     (let n = length inp div block_size;
          c = (if n > 0 then c\<lparr>h := block_func (h c) (take (n * block_size) inp) n\<rparr> else c);
          inp = drop (n * block_size) inp
      in if inp \<noteq> [] then c\<lparr>num := length inp, data := store 0 inp (data c)\<rparr> else c)"

definition md32_count :: "nat \<Rightarrow> (u32, 'a) md_ctx_scheme \<Rightarrow> (u32, 'a) md_ctx_scheme" where
  "md32_count len c =
     (let l = Nl c + push_bit 3 (word_of_nat len);
          nh = (if l < Nl c then Nh c + 1 else Nh c)
      in c\<lparr>Nh := nh + word_of_nat (drop_bit 29 len), Nl := l\<rparr>)"

definition crypto_md32_update :: "u32 list block_func \<Rightarrow> nat \<Rightarrow> u8 list \<Rightarrow> (u32, 'a) md_ctx_scheme \<Rightarrow> (u32, 'a) md_ctx_scheme" where
  "crypto_md32_update block_func block_size inp c =
     (if inp = [] then c
      else
        let len = length inp;
            c = md32_count len c;
            n = num c
        in if n \<noteq> 0 then
             if len \<ge> block_size \<or> len + n \<ge> block_size then
               let d = store n (take (block_size - n) inp) (data c);
                   c = c\<lparr>h := block_func (h c) d 1, num := 0, data := replicate block_size 0\<rparr>
               in md32_blocks block_func block_size (drop (block_size - n) inp) c
             else c\<lparr>data := store n inp (data c), num := n + len\<rparr>
           else md32_blocks block_func block_size inp c)"

definition md32_length :: "bool \<Rightarrow> u32 \<Rightarrow> u32 \<Rightarrow> u8 list" where
  "md32_length is_big_endian nh nl =
     (if is_big_endian then CRYPTO_store_u32_be nh @ CRYPTO_store_u32_be nl else CRYPTO_store_u32_le nl @ CRYPTO_store_u32_le nh)"

definition crypto_md32_final :: "u32 list block_func \<Rightarrow> nat \<Rightarrow> bool \<Rightarrow> (u32, 'a) md_ctx_scheme \<Rightarrow> (u32, 'a) md_ctx_scheme" where
  "crypto_md32_final block_func block_size is_big_endian c =
     (let d = (data c)[num c := 0x80];
          n = num c + 1;
          (s, d, n) =
            (if n > block_size - 8 then
               let d = store n (replicate (block_size - n) 0) d in (block_func (h c) d 1, d, 0)
             else (h c, d, n));
          d = store n (replicate (block_size - 8 - n) 0) d;
          d = store (block_size - 8) (md32_length is_big_endian (Nh c) (Nl c)) d
      in c\<lparr>h := block_func s d 1, num := 0, data := replicate block_size 0\<rparr>)"

section \<open>The padded message\<close>

text \<open>The whole blocks of a byte string, and what is left after them.\<close>

fun blocks_of :: "nat \<Rightarrow> u8 list \<Rightarrow> u8 list list" where
  "blocks_of sz bs = (if sz = 0 \<or> length bs < sz then [] else take sz bs # blocks_of sz (drop sz bs))"

declare blocks_of.simps [simp del]

definition rest_of :: "nat \<Rightarrow> u8 list \<Rightarrow> u8 list" where
  "rest_of sz bs = drop (length bs div sz * sz) bs"

text \<open>
  A message of \<open>len\<close> bytes is followed by a one bit, the least number of zero bits that leaves room for it, and its length in bits in \<open>n\<close> bytes.
\<close>

definition md_pad :: "nat \<Rightarrow> nat \<Rightarrow> u8 list \<Rightarrow> u8 list" where
  "md_pad sz len field = 0x80 # replicate ((sz - (len + 1 + length field) mod sz) mod sz) 0 @ field"

definition md_padding :: "nat \<Rightarrow> nat \<Rightarrow> bool \<Rightarrow> nat \<Rightarrow> u8 list" where
  "md_padding sz n big len = md_pad sz len (if big then be_bytes n (8 * len) else rev (be_bytes n (8 * len)))"

definition md_absorb :: "'s block_func \<Rightarrow> nat \<Rightarrow> 's \<Rightarrow> u8 list \<Rightarrow> 's" where
  "md_absorb block_func sz s bs = foldl (\<lambda>s b. block_func s b 1) s (blocks_of sz bs)"

fun update_all :: "('m \<Rightarrow> 'c \<Rightarrow> 'c) \<Rightarrow> 'm list \<Rightarrow> 'c \<Rightarrow> 'c" where
  "update_all update [] c = c"
| "update_all update (m # ms) c = update_all update ms (update m c)"

lemma upt_split: "i \<le> j \<Longrightarrow> j \<le> k \<Longrightarrow> [i..<k] = [i..<j] @ [j..<k]"
  by (metis le_add_diff_inverse upt_add_eq_append)

lemma rest_of_less: "length bs < sz \<Longrightarrow> rest_of sz bs = bs"
  by (simp add: rest_of_def)

lemma length_md_rest_of: "length (rest_of sz bs) = length bs mod sz"
  by (simp add: rest_of_def minus_div_mult_eq_mod)

lemma rest_of_drop: "0 < sz \<Longrightarrow> sz \<le> length bs \<Longrightarrow> rest_of sz (drop sz bs) = rest_of sz bs"
  by (simp add: rest_of_def div_eq_dividend_iff le_div_geq add.commute)

lemma blocks_of_append: "0 < sz \<Longrightarrow> blocks_of sz (xs @ ys) = blocks_of sz xs @ blocks_of sz (rest_of sz xs @ ys)"
proof (induction sz xs rule: blocks_of.induct)
  case (1 sz xs)
  show ?case
  proof (cases "length xs < sz")
    case True
    then show ?thesis by (simp add: blocks_of.simps [of sz xs] rest_of_less)
  next
    case False
    have "blocks_of sz (xs @ ys) = take sz xs # blocks_of sz (drop sz xs @ ys)"
      using False 1(2) by (subst blocks_of.simps) simp
    moreover have "blocks_of sz xs = take sz xs # blocks_of sz (drop sz xs)" using False 1(2) by (subst blocks_of.simps) simp
    ultimately show ?thesis using 1 False by (simp add: rest_of_drop)
  qed
qed

lemma rest_of_append: "0 < sz \<Longrightarrow> rest_of sz (xs @ ys) = rest_of sz (rest_of sz xs @ ys)"
proof (induction sz xs rule: blocks_of.induct)
  case (1 sz xs)
  show ?case
  proof (cases "length xs < sz")
    case False
    then have "rest_of sz (xs @ ys) = rest_of sz (drop sz xs @ ys)" using rest_of_drop [of sz "xs @ ys"] 1(2) by simp
    then show ?thesis using 1 False by (simp add: rest_of_drop)
  qed (simp add: rest_of_less)
qed

lemma absorb_append: "0 < sz \<Longrightarrow> md_absorb f sz s (xs @ ys) = md_absorb f sz (md_absorb f sz s xs) (rest_of sz xs @ ys)"
  by (simp add: md_absorb_def blocks_of_append [of sz xs])

lemma absorb_block: "length b = sz \<Longrightarrow> 0 < sz \<Longrightarrow> md_absorb f sz s b = f s b 1"
  by (simp add: md_absorb_def blocks_of.simps [of sz b] blocks_of.simps [of sz "[]"])

lemma absorb_less: "length b < sz \<Longrightarrow> md_absorb f sz s b = s"
  by (simp add: md_absorb_def blocks_of.simps [of sz b])

section \<open>Streaming\<close>

text \<open>
  What a block function promises: the blocks are taken one after the other. The context after a message has absorbed its whole blocks
  and holds the rest and the count of its bits.
\<close>

lemma unat_of_nat_u32: "unat (word_of_nat v :: u32) = v mod 2 ^ 32"
  by (simp add: unsigned_of_nat take_bit_eq_mod)

text \<open>A count of bits in two words: the carry into the upper one is found by comparing the lower one with what it was.\<close>

lemma bit_count:
  fixes nl nh :: "'w::len word" and len :: nat
  assumes "nl = word_of_nat a" and "nh = word_of_nat (a div 2 ^ LENGTH('w))" and "3 < LENGTH('w)"
  defines "l \<equiv> nl + push_bit 3 (word_of_nat len)"
  shows "l = word_of_nat (a + 8 * len) \<and>
    (if l < nl then nh + 1 else nh) + word_of_nat (drop_bit (LENGTH('w) - 3) len) = word_of_nat ((a + 8 * len) div 2 ^ LENGTH('w))"
proof -
  define P :: nat where "P = 2 ^ LENGTH('w)"
  define k q where "k = 8 * len mod P" and "q = len div 2 ^ (LENGTH('w) - 3)"
  have u: "unat (word_of_nat v :: 'w word) = v mod P" for v by (simp add: unsigned_of_nat take_bit_eq_mod P_def)
  have "P = 2 ^ (3 + (LENGTH('w) - 3))" using assms(3) by (simp add: P_def)
  then have P: "P = 8 * 2 ^ (LENGTH('w) - 3)" unfolding power_add by simp
  then have "0 < P" by simp
  have k: "8 * len = q * P + k" "k < P"
    using div_mult_mod_eq [of "8 * len" P] div_mult_mult1 [of 8 len "2 ^ (LENGTH('w) - 3)"] \<open>0 < P\<close> unfolding k_def q_def P by simp_all
  have "(a + 8 * len) mod P = (a + k) mod P" unfolding k(1) by (metis add.assoc add.commute mod_mult_self2 mult.commute)
  moreover have l1: "l = word_of_nat (a + 8 * len)" unfolding l_def assms(1) by (simp add: push_bit_eq_mult)
  ultimately have l: "l = word_of_nat (a + 8 * len)" "unat l = (a + k) mod P" unfolding l1 u by simp_all
  have lt: "l < nl \<longleftrightarrow> P \<le> a mod P + k"
  proof -
    have "unat l = (a mod P + k) mod P" unfolding l(2) by (simp only: mod_add_left_eq)
    moreover have "unat nl = a mod P" unfolding assms(1) u by (rule refl)
    moreover have "a mod P < P" using \<open>0 < P\<close> by simp
    ultimately show ?thesis using k(2) unfolding word_less_nat_alt by (cases "a mod P + k < P") (simp_all add: le_mod_geq)
  qed
  have "a + 8 * len = a mod P + k + (a div P + q) * P" unfolding k(1) by (simp add: add_mult_distrib)
  moreover have "(x + y * P) div P = y + x div P" for x y :: nat by (rule div_mult_self1) (use \<open>0 < P\<close> in simp)
  ultimately have "(a + 8 * len) div P = a div P + q + (a mod P + k) div P" by metis
  moreover have "(a mod P + k) div P = (if P \<le> a mod P + k then 1 else 0)"
    using k(2) \<open>0 < P\<close> mod_less_divisor [of P a] by (auto intro!: div_nat_eqI simp del: mod_less_divisor)
  ultimately have "(a + 8 * len) div P = a div P + (if l < nl then 1 else 0) + q" unfolding lt by simp
  then show ?thesis using l(1) unfolding assms(2) P_def [symmetric] by (simp add: q_def drop_bit_eq_div)
qed

lemma store_u32_le: "CRYPTO_store_u32_le v = rev (be_bytes 4 (unat v))"
  by (simp add: CRYPTO_store_u32_le_def le_image_def)

locale block_iteration =
  fixes block_func :: "'w list block_func" and block_size :: nat
  assumes size: "8 < block_size"
    and blocks: "0 < n \<Longrightarrow> length b = block_size \<Longrightarrow> length bs = n * block_size \<Longrightarrow>
      block_func s (b @ bs) (Suc n) = block_func (block_func s b 1) bs n"
begin

lemma block_func: "0 < n \<Longrightarrow> length bs = n * block_size \<Longrightarrow> block_func s bs n = md_absorb block_func block_size s bs"
proof (induction n arbitrary: s bs)
  case (Suc n)
  show ?case
  proof (cases n)
    case 0
    then show ?thesis using Suc.prems size absorb_block [of bs block_size block_func] by simp
  next
    case (Suc m)
    have l: "length (take block_size bs) = block_size" "length (drop block_size bs) = n * block_size" using Suc.prems by simp_all
    have "rest_of block_size (take block_size bs) = []" using l(1) size by (simp add: rest_of_def)
    then have "md_absorb block_func block_size s bs =
        md_absorb block_func block_size (block_func s (take block_size bs) 1) (drop block_size bs)"
      using absorb_append [of block_size block_func s "take block_size bs" "drop block_size bs"] absorb_block [OF l(1), of block_func] size by simp
    then show ?thesis using blocks [OF _ l] Suc.IH [OF _ l(2)] Suc by simp
  qed
qed simp

definition holds :: "'w list \<Rightarrow> u8 list \<Rightarrow> ('w, 'a) md_ctx_scheme \<Rightarrow> bool" where
  "holds s m c \<longleftrightarrow> length (data c) = block_size \<and> num c = length m mod block_size \<and>
     take (num c) (data c) = rest_of block_size m \<and> h c = md_absorb block_func block_size s m"

lemma md32_blocks:
  assumes "holds s m c" and "num c = 0"
  shows "holds s (m @ inp) (md32_blocks block_func block_size inp c)"
proof -
  define n where "n = length inp div block_size"
  have m: "rest_of block_size m = []" "length m mod block_size = 0" using assms by (simp_all add: holds_def)
  have r: "rest_of block_size (m @ inp) = drop (n * block_size) inp"
    using rest_of_append [of block_size m inp] size m(1) unfolding n_def rest_of_def [of _ inp, symmetric] by simp
  have l: "length (m @ inp) mod block_size = length (drop (n * block_size) inp)"
    using length_md_rest_of [of block_size "m @ inp"] r by simp
  have lt: "length (drop (n * block_size) inp) < block_size" unfolding l [symmetric] using size by simp
  have t: "length (take (n * block_size) inp) = n * block_size" by (simp add: n_def)
  have "md_absorb block_func block_size s (m @ inp) = md_absorb block_func block_size (h c) inp"
    using absorb_append [of block_size block_func s m inp] size m(1) assms(1) by (simp add: holds_def)
  also have "\<dots> = md_absorb block_func block_size (md_absorb block_func block_size (h c) (take (n * block_size) inp)) (drop (n * block_size) inp)"
    using absorb_append [of block_size block_func "h c" "take (n * block_size) inp" "drop (n * block_size) inp"] size t by (simp add: rest_of_def)
  also have "\<dots> = (if n > 0 then block_func (h c) (take (n * block_size) inp) n else h c)"
    using absorb_less [OF lt, of block_func] block_func [OF _ t] absorb_less [of "[]" block_size block_func] size by simp
  finally have a: "md_absorb block_func block_size s (m @ inp) = (if n > 0 then block_func (h c) (take (n * block_size) inp) n else h c)" .
  show ?thesis
    using assms lt l r a unfolding md32_blocks_def Let_def n_def [symmetric] holds_def by (cases "n = 0") (simp_all add: store_def)
qed

lemma holds_fill:
  assumes "holds s m c" and "block_size \<le> length inp + num c" and "length d = block_size"
  defines "x \<equiv> take (block_size - num c) inp"
  shows "holds s (m @ x) (c\<lparr>h := block_func (h c) (store (num c) x (data c)) 1, num := 0, data := d\<rparr>)"
proof -
  define n where "n = num c"
  have n: "n < block_size" "n = length (rest_of block_size m)" "n = length m mod block_size"
    using assms(1) size by (simp_all add: holds_def n_def length_md_rest_of)
  have dt: "length (data c) = block_size" "take n (data c) = rest_of block_size m" using assms(1) unfolding holds_def n_def by blast+
  define blk where "blk = store n x (data c)"
  have x: "length x = block_size - n" using assms(2) n(1) by (simp add: x_def n_def)
  have blk: "blk = rest_of block_size m @ x" using dt x n(1) by (simp add: blk_def store_def)
  have lb: "length blk = block_size" using x n by (simp add: blk)
  have "md_absorb block_func block_size s (m @ x) = block_func (h c) blk 1"
    using absorb_append [of block_size block_func s m x] absorb_block [OF lb, of block_func] size assms(1) by (simp add: holds_def blk)
  moreover have "length (m @ x) mod block_size = 0"
    using x n length_md_rest_of [of block_size "m @ x"] rest_of_append [of block_size m x] lb size by (simp add: blk rest_of_def)
  moreover have "rest_of block_size (m @ x) = []" using length_md_rest_of [of block_size "m @ x"] calculation(2) by simp
  ultimately show ?thesis using assms(3) by (simp add: holds_def blk_def n_def)
qed

lemma holds_more:
  assumes "holds s m c" and "length inp + num c < block_size"
  shows "holds s (m @ inp) (c\<lparr>data := store (num c) inp (data c), num := num c + length inp\<rparr>)"
proof -
  define n where "n = num c"
  have n: "n < block_size" "n = length (rest_of block_size m)"
    using assms(1) size by (simp_all add: holds_def n_def length_md_rest_of)
  have dt: "length (data c) = block_size" "take n (data c) = rest_of block_size m" using assms(1) unfolding holds_def n_def by blast+
  have lt: "length (rest_of block_size m @ inp) < block_size" using assms(2) n(2) by (simp add: n_def)
  have r: "rest_of block_size (m @ inp) = rest_of block_size m @ inp"
    using rest_of_append [of block_size m inp] rest_of_less [OF lt] size by simp
  have "length (m @ inp) mod block_size = n + length inp"
    using length_md_rest_of [of block_size "m @ inp"] r n(2) by simp
  moreover have "md_absorb block_func block_size s (m @ inp) = h c"
    using absorb_append [of block_size block_func s m inp] absorb_less [OF lt, of block_func] size assms(1) by (simp add: holds_def)
  moreover have "take (n + length inp) (store n inp (data c)) = rest_of block_size m @ inp" "length (store n inp (data c)) = block_size"
    using dt n(1) assms(2) n(2) [symmetric] by (simp_all add: store_def n_def)
  ultimately show ?thesis using r by (simp add: holds_def n_def)
qed

text \<open>The last blocks, with the field \<open>L\<close> of the length, are what the padding adds.\<close>

lemma final_blocks:
  assumes "holds s m c" and "length L < block_size"
  shows "(let d = (data c)[num c := 0x80];
       n = num c + 1;
       (s, d, n) =
         (if n > block_size - length L then
            let d = store n (replicate (block_size - n) 0) d in (block_func (h c) d 1, d, 0)
          else (h c, d, n));
       d = store n (replicate (block_size - length L - n) 0) d;
       d = store (block_size - length L) L d
     in block_func s d 1) = md_absorb block_func block_size s (m @ md_pad block_size (length m) L)"
proof -
  define B where "B = block_size"
  define r where "r = rest_of B m"
  define n where "n = num c"
  define l where "l = length L"
  define z where "z = (B - (length m + 1 + l) mod B) mod B"
  have B: "l < B" "0 < B" using size assms(2) by (simp_all add: B_def l_def)
  have n: "n < B" "n = length r" "n = length m mod B" using assms(1) size by (simp_all add: holds_def n_def B_def r_def length_md_rest_of)
  have d: "length (data c) = B" "take n (data c) = r" using assms(1) unfolding holds_def n_def B_def r_def by blast+
  have p: "md_pad B (length m) L = 0x80 # replicate z 0 @ L" by (simp add: md_pad_def z_def l_def)
  have a: "md_absorb block_func B s (m @ md_pad B (length m) L) = md_absorb block_func B (h c) (r @ 0x80 # replicate z 0 @ L)"
    using absorb_append [of B block_func s m] B assms(1) p by (simp add: holds_def r_def B_def)
  have zm: "(length m + 1 + l) mod B = (n + 1 + l) mod B" unfolding n(3) by (simp only: mod_add_left_eq add.assoc)
  have d1: "(data c)[n := 0x80] = r @ 0x80 # drop (n + 1) (data c)" using d n(1) by (simp add: upd_conv_take_nth_drop)
  show ?thesis
  proof (cases "n + 1 > B - l")
    case False
    then have le: "n + 1 + l \<le> B" using B by linarith
    have z: "z = B - l - (n + 1)"
    proof (cases "n + 1 + l = B")
      case True
      then show ?thesis using B unfolding z_def zm by simp
    next
      case False
      then have "(n + 1 + l) mod B = n + 1 + l" using le by simp
      then show ?thesis using le unfolding z_def zm by simp
    qed
    define e where "e = store (n + 1) (replicate z 0) ((data c)[n := 0x80])"
    have e: "e = r @ 0x80 # replicate z 0 @ drop (n + 1 + z) (data c)" unfolding e_def d1 store_def using n by (simp add: add.commute)
    have "store (B - l) L e = r @ 0x80 # replicate z 0 @ L"
    proof -
      have "B - l = length (r @ 0x80 # replicate z (0 :: u8))" "length e = B" using z le n(2) d(1) unfolding e by simp_all
      moreover have "e = (r @ 0x80 # replicate z 0) @ drop (n + 1 + z) (data c)" unfolding e by simp
      ultimately show ?thesis unfolding store_def l_def by simp
    qed
    moreover have "length (r @ 0x80 # replicate z 0 @ L) = B" using z le n(2) by (simp add: l_def)
    ultimately have "md_absorb block_func B (h c) (r @ 0x80 # replicate z 0 @ L) = block_func (h c) (store (B - l) L e) 1"
      using absorb_block [of "r @ 0x80 # replicate z 0 @ L" B block_func "h c"] B by simp
    then show ?thesis unfolding a [unfolded B_def] using False
      by (simp add: B_def [symmetric] n_def [symmetric] l_def [symmetric] Let_def e_def z)
  next
    case True
    define q where "q = B - n - 1"
    have gt: "B < n + 1 + l" using True by linarith
    have "(n + 1 + l) mod B = n + 1 + l - B" using gt n(1) B by (simp add: le_mod_geq)
    then have z: "z = q + (B - l)" using gt n(1) B unfolding z_def zm q_def by simp
    define e where "e = store (n + 1) (replicate q 0) ((data c)[n := 0x80])"
    have e: "e = r @ 0x80 # replicate q 0" unfolding e_def d1 store_def using n d(1) by (simp add: q_def)
    have le: "length e = B" using n by (simp add: e q_def)
    have f: "store (B - l) L (store 0 (replicate (B - l) 0) e) = replicate (B - l) 0 @ L"
      using le B unfolding store_def l_def by simp
    have s: "r @ 0x80 # replicate z 0 @ L = e @ replicate (B - l) 0 @ L" by (simp add: e z replicate_add)
    have "md_absorb block_func B (h c) (e @ replicate (B - l) 0 @ L) = md_absorb block_func B (block_func (h c) e 1) (replicate (B - l) 0 @ L)"
      using absorb_append [of B block_func "h c" e "replicate (B - l) 0 @ L"] absorb_block [OF le, of block_func] le B by (simp add: rest_of_def)
    also have "\<dots> = block_func (block_func (h c) e 1) (replicate (B - l) 0 @ L) 1"
      using absorb_block [of "replicate (B - l) 0 @ L" B block_func] B l_def by simp
    finally have "md_absorb block_func B (h c) (e @ replicate (B - l) 0 @ L) = \<dots>" .
    moreover have "store (n + 1) (replicate (B - (n + 1)) 0) ((data c)[n := 0x80]) = e" by (simp add: e_def q_def)
    ultimately show ?thesis using True f unfolding B_def [symmetric] n_def [symmetric] l_def [symmetric] a s
      by (simp add: Let_def)
  qed
qed

end

locale md32 = block_iteration block_func block_size for block_func :: "u32 list block_func" and block_size
begin

definition counts :: "u8 list \<Rightarrow> (u32, 'a) md_ctx_scheme \<Rightarrow> bool" where
  "counts m c \<longleftrightarrow> Nl c = word_of_nat (8 * length m) \<and> Nh c = word_of_nat (8 * length m div 2 ^ 32)"

lemma md32_count:
  assumes "counts m c"
  shows "counts (m @ inp) (md32_count (length inp) c) \<and> h (md32_count (length inp) c) = h c \<and> data (md32_count (length inp) c) = data c \<and>
    num (md32_count (length inp) c) = num c"
proof -
  define a where "a = 8 * length m"
  have e: "8 * length (m @ inp) = a + 8 * length inp" by (simp add: a_def)
  have "Nl c = word_of_nat a" "Nh c = word_of_nat (a div 2 ^ LENGTH(32))" using assms unfolding counts_def a_def by simp_all
  define l where "l = Nl c + push_bit 3 (word_of_nat (length inp))"
  note b = bit_count [OF \<open>Nl c = _\<close> \<open>Nh c = _\<close>, of "length inp", folded l_def]
  show ?thesis using conjunct2 [OF b] unfolding md32_count_def Let_def counts_def e l_def [symmetric]
    by (simp add: conjunct1 [OF b, symmetric] del: of_nat_add of_nat_mult)
qed

lemma crypto_md32_update:
  fixes c :: "(u32, 'a) md_ctx_scheme"
  assumes "holds s m c" and "counts m c"
  shows "holds s (m @ inp) (crypto_md32_update block_func block_size inp c) \<and> counts (m @ inp) (crypto_md32_update block_func block_size inp c)"
proof -
  define c1 where "c1 = md32_count (length inp) c"
  have k: "counts (m @ inp) c1" "h c1 = h c" "data c1 = data c" "num c1 = num c"
    using md32_count [OF assms(2), of inp] by (simp_all add: c1_def)
  have h1: "holds s m c1" using assms(1) unfolding holds_def k(2-4) .
  have b: "counts x (md32_blocks block_func block_size i e) = counts x e" for x i and e :: "(u32, 'a) md_ctx_scheme" by (simp add: md32_blocks_def Let_def counts_def)
  define n where "n = num c"
  have n: "n < block_size" "n = length (rest_of block_size m)" "n = length m mod block_size"
    using assms(1) size by (simp_all add: holds_def n_def length_md_rest_of)
  have d: "length (data c) = block_size" "take n (data c) = rest_of block_size m" using assms(1) unfolding holds_def n_def by blast+
  consider "inp = []" | "inp \<noteq> []" "n = 0" | "inp \<noteq> []" "n \<noteq> 0" "block_size \<le> length inp + n" | "inp \<noteq> []" "n \<noteq> 0" "length inp + n < block_size"
    by linarith
  then show ?thesis
  proof cases
    case 1
    then show ?thesis using assms by (simp add: crypto_md32_update_def)
  next
    case 2
    then have "crypto_md32_update block_func block_size inp c = md32_blocks block_func block_size inp c1"
      using k by (simp add: crypto_md32_update_def c1_def n_def)
    then show ?thesis using md32_blocks [OF h1, of inp] b k 2(2) by (simp add: n_def)
  next
    case 3
    define x where "x = take (block_size - n) inp"
    define c2 where "c2 = c1\<lparr>h := block_func (h c1) (store (num c1) x (data c1)) 1, num := 0, data := replicate block_size 0\<rparr>"
    have "holds s (m @ x) c2"
      using holds_fill [OF h1, of inp "replicate block_size 0"] 3 k unfolding c2_def x_def n_def by simp
    then have "holds s ((m @ x) @ drop (block_size - n) inp) (md32_blocks block_func block_size (drop (block_size - n) inp) c2)"
      by (rule md32_blocks) (simp add: c2_def)
    moreover have "crypto_md32_update block_func block_size inp c = md32_blocks block_func block_size (drop (block_size - n) inp) c2"
      using 3 k by (simp add: crypto_md32_update_def c1_def [symmetric] n_def [symmetric] c2_def x_def Let_def)
    moreover have "counts (m @ inp) c2" using k(1) by (simp add: counts_def c2_def)
    ultimately show ?thesis using b by (simp add: x_def)
  next
    case 4
    define c2 where "c2 = c1\<lparr>data := store (num c1) inp (data c1), num := num c1 + length inp\<rparr>"
    have "crypto_md32_update block_func block_size inp c = c2"
      using 4 k by (simp add: crypto_md32_update_def c1_def [symmetric] n_def [symmetric] c2_def Let_def)
    moreover have "holds s (m @ inp) c2" unfolding c2_def by (rule holds_more [OF h1]) (use 4 k in \<open>simp add: n_def\<close>)
    ultimately show ?thesis using k(1) by (simp add: counts_def c2_def)
  qed
qed

lemma update_all:
  "holds s m c \<Longrightarrow> counts m c \<Longrightarrow>
     holds s (m @ concat ms) (update_all (crypto_md32_update block_func block_size) ms c) \<and>
     counts (m @ concat ms) (update_all (crypto_md32_update block_func block_size) ms c)"
proof (induction ms arbitrary: m c)
  case (Cons x ms)
  then show ?case using crypto_md32_update [OF Cons.prems, of x] Cons.IH [of "m @ x"] by simp
qed simp

lemma md32_length:
  assumes "counts m c"
  shows "md32_length big (Nh c) (Nl c) = (if big then be_bytes 8 (8 * length m) else rev (be_bytes 8 (8 * length m)))"
proof -
  have u: "CRYPTO_store_u32_be (word_of_nat v) = be_bytes 4 v" for v
    unfolding store_u32_be by (subst (2) be_bytes_mod [symmetric]) (simp add: unsigned_of_nat take_bit_eq_mod)
  have le: "CRYPTO_store_u32_le v = rev (CRYPTO_store_u32_be v)" for v
    by (simp add: store_u32_le store_u32_be)
  have split: "be_bytes 8 v = be_bytes 4 (v div 2 ^ 32) @ be_bytes 4 v" for v using be_bytes_add [of 4 4 v] by simp
  have c: "Nl c = word_of_nat (8 * length m)" "Nh c = word_of_nat (8 * length m div 2 ^ 32)" using assms unfolding counts_def by blast+
  show ?thesis unfolding md32_length_def le c u split by simp
qed

lemma crypto_md32_final:
  assumes "holds s m c" and "counts m c"
  shows "h (crypto_md32_final block_func block_size big c) = md_absorb block_func block_size s (m @ md_padding block_size 8 big (length m))"
proof -
  define L where "L = md32_length big (Nh c) (Nl c)"
  have L: "length L = 8" "md_padding block_size 8 big (length m) = md_pad block_size (length m) L"
    unfolding L_def md32_length [OF assms(2)] md_padding_def by simp_all
  show ?thesis
    using final_blocks [OF assms(1), of L] size unfolding L(2) crypto_md32_final_def L_def [symmetric] L(1)
    by (simp add: Let_def split: prod.splits if_splits)
qed

text \<open>A message in any number of pieces, from a fresh context.\<close>

lemma digest_of_pieces:
  assumes "num c = 0" and "Nl c = 0" and "Nh c = 0" and "length (data c) = block_size"
  shows "h (crypto_md32_final block_func block_size big (update_all (crypto_md32_update block_func block_size) ms c)) =
    md_absorb block_func block_size (h c) (concat ms @ md_padding block_size 8 big (length (concat ms)))"
proof -
  have "holds (h c) [] c" "counts [] c"
    using assms absorb_less [of "[]" block_size block_func] size by (simp_all add: holds_def counts_def rest_of_def)
  from update_all [OF this, of ms] show ?thesis by (auto intro: crypto_md32_final)
qed

end

text \<open>When a call for one block is a compression function of the reference, the whole is its iteration over the padded message.\<close>

locale compress_iteration = block_iteration block_func block_size
  for block_func :: "'w list block_func" and block_size +
  fixes words :: nat and compress :: "'w list \<Rightarrow> u8 list \<Rightarrow> 'w list"
  assumes compress: "length s = words \<Longrightarrow> length b = block_size \<Longrightarrow> block_func s b 1 = compress s b \<and> length (compress s b) = words"
begin

lemma absorb_compress:
  "length s = words \<Longrightarrow> md_absorb block_func block_size s m = foldl compress s (blocks_of block_size m) \<and>
     length (foldl compress s (blocks_of block_size m)) = words"
proof (induction m arbitrary: s rule: length_induct)
  case (1 m)
  show ?case
  proof (cases "length m < block_size")
    case True
    then show ?thesis using 1(2) by (simp add: md_absorb_def blocks_of.simps [of block_size m])
  next
    case False
    then have "blocks_of block_size m = take block_size m # blocks_of block_size (drop block_size m)"
      using size by (subst blocks_of.simps) simp
    moreover have "length (drop block_size m) < length m" using False size by simp
    ultimately show ?thesis using 1 False size compress [of s "take block_size m"] by (simp add: md_absorb_def)
  qed
qed

end

locale md32_compress = md32 block_func block_size + compress_iteration block_func block_size words compress
  for block_func block_size words compress
begin

lemma digest_compress:
  fixes c :: "(u32, 'a) md_ctx_scheme"
  assumes "num c = 0" and "Nl c = 0" and "Nh c = 0" and "length (data c) = block_size" and "length (h c) = words"
  shows "h (crypto_md32_final block_func block_size big (update_all (crypto_md32_update block_func block_size) ms c)) =
      foldl compress (h c) (blocks_of block_size (concat ms @ md_padding block_size 8 big (length (concat ms)))) \<and>
    length (h (crypto_md32_final block_func block_size big (update_all (crypto_md32_update block_func block_size) ms c))) = words"
  unfolding digest_of_pieces [OF assms(1-4)] using absorb_compress [OF assms(5)] by simp

end

section \<open>Words of a block and of a digest\<close>

text \<open>
  The words of the message schedule \<open>W\<close> are made in a ring of sixteen: before step \<open>i\<close> it holds the last sixteen of them.
\<close>

definition scheduled :: "(nat \<Rightarrow> 'w) \<Rightarrow> nat \<Rightarrow> 'w list \<Rightarrow> bool" where
  "scheduled W i X \<longleftrightarrow> length X = 16 \<and> (\<forall>k. k < i \<longrightarrow> i \<le> k + 16 \<longrightarrow> X ! (k mod 16) = W k)"

lemma scheduled_next:
  assumes "scheduled W i X"
  shows "scheduled W (i + 1) (X[i mod 16 := W i])"
proof -
  have ne: "k mod 16 \<noteq> i mod 16" if "k < i" "i < k + 16" for k
  proof
    assume "k mod 16 = i mod 16"
    then have "16 dvd i - k" using that(1) mod_eq_dvd_iff_nat [of k i 16] by simp
    then show False using that by (auto dest: dvd_imp_le)
  qed
  have "X[i mod 16 := W i] ! (k mod 16) = W k" if "k < i + 1" "i + 1 \<le> k + 16" for k
  proof (cases "k = i")
    case False
    then have k: "k < i" "i < k + 16" using that by linarith+
    have "X ! (k mod 16) = W k" using assms k unfolding scheduled_def by simp
    then show ?thesis using ne [OF k] by simp
  qed (use assms in \<open>simp add: scheduled_def\<close>)
  then show ?thesis using assms unfolding scheduled_def by simp
qed

lemma scheduled_read:
  assumes "scheduled W i X" and "0 < n" and "n \<le> 16" and "16 \<le> i" and "j = 16 - n"
  shows "X ! ((i + j) mod 16) = W (i - n)"
proof -
  have "i + j = (i - n) + 16" using assms(3-5) by linarith
  then have "(i + j) mod 16 = (i - n) mod 16" by (metis mod_add_self2)
  then show ?thesis using assms unfolding scheduled_def by auto
qed

lemma scheduled_0: "length X = 16 \<Longrightarrow> scheduled W 0 X"
  by (simp add: scheduled_def)

text \<open>The words of a block in either byte order.\<close>

definition be_msg_word64 :: "u8 list \<Rightarrow> nat \<Rightarrow> u64" where
  "be_msg_word64 b t = word_of_nat (be_nat (load (8 * t) 8 b))"

lemma load_msg_word64: "128 \<le> length b \<Longrightarrow> t < 16 \<Longrightarrow> CRYPTO_load_u64_be (drop (8 * t) b) = be_msg_word64 b t"
  by (simp add: be_msg_word64_def load_def load_u64_be)

lemma msg_word64_first: "128 \<le> length b \<Longrightarrow> t < 16 \<Longrightarrow> be_msg_word64 (b @ e) t = be_msg_word64 b t"
  by (simp add: be_msg_word64_def load_def)

definition be_msg_word :: "u8 list \<Rightarrow> nat \<Rightarrow> u32" where
  "be_msg_word b t = word_of_nat (be_nat (load (4 * t) 4 b))"

definition le_msg_word :: "u8 list \<Rightarrow> nat \<Rightarrow> u32" where
  "le_msg_word b t = word_of_nat (be_nat (rev (load (4 * t) 4 b)))"

lemma load_msg_word:
  assumes "64 \<le> length b" and "t < 16"
  shows "CRYPTO_load_u32_be (drop (4 * t) b) = be_msg_word b t" and "CRYPTO_load_u32_le (drop (4 * t) b) = le_msg_word b t"
  using assms by (simp_all add: be_msg_word_def le_msg_word_def load_def load_u32_be CRYPTO_load_u32_le_def le_value_def)

lemma msg_word_first:
  assumes "64 \<le> length b" and "t < 16"
  shows "be_msg_word (b @ e) t = be_msg_word b t" and "le_msg_word (b @ e) t = le_msg_word b t"
  using assms by (simp_all add: be_msg_word_def le_msg_word_def load_def)

lemma take_concat: "\<forall>x \<in> set xs. length x = k \<Longrightarrow> take (k * n) (concat xs) = concat (take n xs)"
proof (induction xs arbitrary: n)
  case (Cons x xs)
  then show ?case by (cases n) simp_all
qed simp

lemma final_bytes:
  assumes "n \<le> length v" and "\<forall>w. length (f w) = k"
  shows "concat (map (\<lambda>i. f (v ! i)) [0..<n]) = take (k * n) (concat (map f v))"
proof -
  have "map (\<lambda>i. f (v ! i)) [0..<n] = map f (take n v)" using assms(1) by (intro nth_equalityI) simp_all
  then show ?thesis using assms(2) by (subst take_concat) (auto simp: take_map)
qed

end
