(* ===== verification/Digest_Sha1.thy ===== *)
theory Digest_Sha1
  imports Digest_Md32
begin

text \<open>
  Model of \<^verbatim>\<open>crypto/fipsmodule/sha/sha1.c\<close>: SHA-1 with the portable block function, and the generator of FIPS 186-2 built
  on it. The assembly that takes its place on some processors is not part of the repository's C code. The reference is FIPS 180-4.
\<close>

section \<open>The block function\<close>

definition F_00_19 :: "u32 \<Rightarrow> u32 \<Rightarrow> u32 \<Rightarrow> u32" where
  "F_00_19 b c d = ((c XOR d) AND b) XOR d"

definition F_20_39 :: "u32 \<Rightarrow> u32 \<Rightarrow> u32 \<Rightarrow> u32" where
  "F_20_39 b c d = b XOR c XOR d"

definition F_40_59 :: "u32 \<Rightarrow> u32 \<Rightarrow> u32 \<Rightarrow> u32" where
  "F_40_59 b c d = (b AND c) OR ((b OR c) AND d)"

definition F_60_79 :: "u32 \<Rightarrow> u32 \<Rightarrow> u32 \<Rightarrow> u32" where
  "F_60_79 b c d = F_20_39 b c d"

text \<open>
  The body of a step, over its function and constant. The variables \<open>A\<close> to \<open>E\<close> and \<open>T\<close> are a list, which the steps name by
  their numbers.
\<close>

fun BODY :: "(u32 \<Rightarrow> u32 \<Rightarrow> u32 \<Rightarrow> u32) \<Rightarrow> u32 \<Rightarrow> nat list \<Rightarrow> u32 \<Rightarrow> u32 list \<Rightarrow> u32 list" where
  "BODY F k [a, b, c, d, e, f] x v =
     (let v = v[f := x + (v ! e + k + CRYPTO_rotl_u32 (v ! a) 5 + F (v ! b) (v ! c) (v ! d))]
      in v[b := CRYPTO_rotl_u32 (v ! b) 30])"
| "BODY F k _ x v = v"

definition sha1_body :: "nat \<Rightarrow> nat list \<Rightarrow> u32 \<Rightarrow> u32 list \<Rightarrow> u32 list" where
  "sha1_body i =
     (if i < 20 then BODY F_00_19 0x5a827999
      else if i < 40 then BODY F_20_39 0x6ed9eba1
      else if i < 60 then BODY F_40_59 0x8f1bbcdc
      else BODY F_60_79 0xca62c1d6)"

definition Xupdate :: "nat \<Rightarrow> u32 list \<Rightarrow> u32" where
  "Xupdate i X =
     CRYPTO_rotl_u32 (X ! (i mod 16) XOR X ! ((i + 2) mod 16) XOR X ! ((i + 8) mod 16) XOR X ! ((i + 13) mod 16)) 1"

text \<open>The arguments of the steps, which repeat after six of them.\<close>

definition step_args :: "nat list list" where
  "step_args =
    [[0, 1, 2, 3, 4, 5],
     [5, 0, 1, 2, 3, 4],
     [4, 5, 0, 1, 2, 3],
     [3, 4, 5, 0, 1, 2],
     [2, 3, 4, 5, 0, 1],
     [1, 2, 3, 4, 5, 0]]"

definition sha1_step :: "u8 list \<Rightarrow> nat \<Rightarrow> u32 list \<times> u32 list \<Rightarrow> u32 list \<times> u32 list" where
  "sha1_step d i s =
     (case s of (v, X) \<Rightarrow>
        let x = (if i < 16 then CRYPTO_load_u32_be (drop (4 * i) d) else Xupdate i X)
        in (sha1_body i (step_args ! (i mod 6)) x v, X[i mod 16 := x]))"

text \<open>After the last step \<open>E\<close>, \<open>T\<close>, \<open>A\<close>, \<open>B\<close> and \<open>C\<close> are added to the state. \<open>T\<close> and the words are not initialised.\<close>

definition sha1_block :: "u32 list \<Rightarrow> u8 list \<Rightarrow> u32 list" where
  "sha1_block state d =
     (case fold (sha1_step d) [0..<80] (take 5 state @ [0], replicate 16 0) of
        (v, X) \<Rightarrow> map2 (+) state [v ! 4, v ! 5, v ! 0, v ! 1, v ! 2])"

text \<open>The number of blocks is at least 1.\<close>

fun sha1_block_data_order :: "u32 list \<Rightarrow> u8 list \<Rightarrow> nat \<Rightarrow> u32 list" where
  "sha1_block_data_order state d n =
     (let state = sha1_block state d in if n \<le> 1 then state else sha1_block_data_order state (drop 64 d) (n - 1))"

declare sha1_block_data_order.simps [simp del]

section \<open>The digest\<close>

type_synonym sha_ctx = md32_ctx

definition SHA1_Init :: sha_ctx where
  "SHA1_Init =
     \<lparr>h = [0x67452301, 0xefcdab89, 0x98badcfe, 0x10325476, 0xc3d2e1f0], Nl = 0, Nh = 0, data = replicate 64 0, num = 0\<rparr>"

definition SHA1_Transform :: "u8 list \<Rightarrow> sha_ctx \<Rightarrow> sha_ctx" where
  "SHA1_Transform d c = c\<lparr>h := sha1_block_data_order (h c) d 1\<rparr>"

definition SHA1_Update :: "u8 list \<Rightarrow> sha_ctx \<Rightarrow> sha_ctx" where
  "SHA1_Update d c = crypto_md32_update sha1_block_data_order 64 d c"

definition sha1_output_state :: "sha_ctx \<Rightarrow> u8 list" where
  "sha1_output_state c =
     CRYPTO_store_u32_be (h c ! 0) @ CRYPTO_store_u32_be (h c ! 1) @ CRYPTO_store_u32_be (h c ! 2) @ CRYPTO_store_u32_be (h c ! 3) @
     CRYPTO_store_u32_be (h c ! 4)"

definition SHA1_Final :: "sha_ctx \<Rightarrow> u8 list \<times> sha_ctx" where
  "SHA1_Final c = (let c = crypto_md32_final sha1_block_data_order 64 True c in (sha1_output_state c, c))"

definition SHA1 :: "u8 list \<Rightarrow> u8 list" where
  "SHA1 d = fst (SHA1_Final (SHA1_Update d SHA1_Init))"

text \<open>
  The loop that adds the state and \<open>carry\<close> to the words of \<open>block\<close> before the \<open>n\<close>-th, the last of them first.
\<close>

fun add_state :: "u32 list \<Rightarrow> nat \<Rightarrow> u32 \<Rightarrow> u8 list \<Rightarrow> u8 list" where
  "add_state w 0 carry block = block"
| "add_state w (Suc i) carry block =
     (case CRYPTO_addc_u32 (CRYPTO_load_u32_be (drop (i * 4) block)) (w ! i) carry of
        (tmp, carry) \<Rightarrow> add_state w i carry (store (i * 4) (CRYPTO_store_u32_be tmp) block))"

fun fips_186_2_loop :: "nat \<Rightarrow> u8 list \<Rightarrow> u8 list" where
  "fips_186_2_loop out_len block =
     (if out_len = 0 then []
      else
        let ctx = SHA1_Transform block SHA1_Init;
            block = add_state (h ctx) 5 1 block
        in if out_len < 20 then take out_len (sha1_output_state ctx)
           else sha1_output_state ctx @ fips_186_2_loop (out_len - 20) block)"

declare fips_186_2_loop.simps [simp del]

definition CRYPTO_fips_186_2_prf :: "nat \<Rightarrow> u8 list \<Rightarrow> u8 list" where
  "CRYPTO_fips_186_2_prf out_len xkey = fips_186_2_loop out_len (store 0 (take 20 xkey) (replicate 64 0))"

section \<open>FIPS 180-4 and FIPS 186-2\<close>

fun sha1_schedule :: "u8 list \<Rightarrow> nat \<Rightarrow> u32" where
  "sha1_schedule b t =
     (if t < 16 then be_msg_word b t
      else word_rotl 1 (sha1_schedule b (t - 3) XOR sha1_schedule b (t - 8) XOR sha1_schedule b (t - 14) XOR sha1_schedule b (t - 16)))"

declare sha1_schedule.simps [simp del]

definition sha1_f :: "nat \<Rightarrow> u32 \<Rightarrow> u32 \<Rightarrow> u32 \<Rightarrow> u32" where
  "sha1_f t x y z =
     (if t < 20 then (x AND y) XOR (NOT x AND z)
      else if 40 \<le> t \<and> t < 60 then (x AND y) XOR (x AND z) XOR (y AND z)
      else x XOR y XOR z)"

definition sha1_K :: "nat \<Rightarrow> u32" where
  "sha1_K t = [0x5a827999, 0x6ed9eba1, 0x8f1bbcdc, 0xca62c1d6] ! (t div 20)"

fun sha1_round :: "nat \<Rightarrow> u32 \<Rightarrow> u32 list \<Rightarrow> u32 list" where
  "sha1_round t w [a, b, c, d, e] = [word_rotl 5 a + sha1_f t b c d + e + sha1_K t + w, a, word_rotl 30 b, c, d]"
| "sha1_round t w s = s"

definition sha1_compress :: "u32 list \<Rightarrow> u8 list \<Rightarrow> u32 list" where
  "sha1_compress s b = map2 (+) s (fold (\<lambda>t. sha1_round t (sha1_schedule b t)) [0..<80] s)"

definition sha1_digest :: "u8 list \<Rightarrow> u8 list" where
  "sha1_digest m =
     concat (map (\<lambda>v. be_bytes 4 (unat v))
       (foldl sha1_compress [0x67452301, 0xefcdab89, 0x98badcfe, 0x10325476, 0xc3d2e1f0] (blocks_of 64 (m @ md_padding 64 8 True (length m)))))"

text \<open>
  The generator: \<open>G\<close> is the compression of the key, padded with zeros to a block, and the next key the sum of the key, its output
  and 1, modulo \<open>2 ^ 160\<close>.
\<close>

definition prf_output :: "nat \<Rightarrow> u8 list" where
  "prf_output x =
     concat (map (\<lambda>v. be_bytes 4 (unat v))
       (sha1_compress [0x67452301, 0xefcdab89, 0x98badcfe, 0x10325476, 0xc3d2e1f0] (be_bytes 20 x @ replicate 44 0)))"

fun prf_key :: "nat \<Rightarrow> nat \<Rightarrow> nat" where
  "prf_key x 0 = x"
| "prf_key x (Suc j) = (1 + prf_key x j + be_nat (prf_output (prf_key x j))) mod 2 ^ 160"

section \<open>The code computes them\<close>

lemma sha1_functions:
  "F_00_19 b c d = (b AND c) XOR (NOT b AND d)" "F_40_59 b c d = (b AND c) XOR (b AND d) XOR (c AND d)"
  by (rule bit_word_eqI; auto simp: F_00_19_def F_40_59_def bit_simps)+

lemma sha1_body:
  assumes "i < 80"
  shows "sha1_body i = BODY (sha1_f i) (sha1_K i)"
proof -
  have "i div 20 = (if i < 20 then 0 else if i < 40 then 1 else if i < 60 then 2 else 3)"
    using assms by (auto intro!: div_nat_eqI)
  then show ?thesis
    by (auto simp: sha1_body_def sha1_f_def [abs_def] sha1_K_def sha1_functions [abs_def] F_20_39_def [abs_def] F_60_79_def [abs_def])
qed

abbreviation sha1_view :: "u32 list \<Rightarrow> nat \<Rightarrow> u32 list" where
  "sha1_view v i \<equiv> map ((!) v) (take 5 (step_args ! (i mod 6)))"

lemma step_args_cases: "j < 6 \<Longrightarrow> j = 0 \<or> j = 1 \<or> j = 2 \<or> j = 3 \<or> j = 4 \<or> j = (5 :: nat)"
  by linarith

lemma sha1_body_view:
  assumes "length v = 6" and "i < 80"
  shows "sha1_view (sha1_body i (step_args ! (j mod 6)) w v) (j + 1) = sha1_round i w (sha1_view v j) \<and>
    length (sha1_body i (step_args ! (j mod 6)) w v) = 6"
proof -
  obtain a b c d e f where v: "v = [a, b, c, d, e, f]" using assms by (auto simp: numeral_eq_Suc length_Suc_conv)
  define m where "m = j mod 6"
  have m: "m < 6" "(j + 1) mod 6 = (m + 1) mod 6" by (simp_all add: m_def mod_Suc_eq)
  show ?thesis
    using step_args_cases [OF m(1)] unfolding m(2) m_def [symmetric] sha1_body [OF assms(2)]
    by (elim disjE) (simp_all add: v step_args_def Let_def rotations32 add_ac)
qed

lemma sha1_step:
  assumes "64 \<le> length d" and "length v = 6" and "i < 80" and "scheduled (sha1_schedule d) i X" and "sha1_step d i (v, X) = (v', X')"
  shows "sha1_view v' (i + 1) = sha1_round i (sha1_schedule d i) (sha1_view v i) \<and> length v' = 6 \<and> scheduled (sha1_schedule d) (i + 1) X'"
proof -
  have "(if i < 16 then CRYPTO_load_u32_be (drop (4 * i) d) else Xupdate i X) = sha1_schedule d i"
  proof (cases "i < 16")
    case True
    then show ?thesis using assms(1) by (simp add: sha1_schedule.simps [of d i] load_msg_word)
  next
    case False
    then have "X ! ((i + 13) mod 16) = sha1_schedule d (i - 3)" "X ! ((i + 8) mod 16) = sha1_schedule d (i - 8)"
        "X ! ((i + 2) mod 16) = sha1_schedule d (i - 14)" "X ! (i mod 16) = sha1_schedule d (i - 16)"
      using scheduled_read [OF assms(4), of 3 13] scheduled_read [OF assms(4), of 8 8] scheduled_read [OF assms(4), of 14 2]
        scheduled_read [OF assms(4), of 16 0] by simp_all
    then show ?thesis using False by (simp add: Xupdate_def sha1_schedule.simps [of d i] rotations32 ac_simps)
  qed
  then show ?thesis
    using assms(5) sha1_body_view [OF assms(2,3), of i "sha1_schedule d i"] scheduled_next [OF assms(4)] by (auto simp: sha1_step_def Let_def)
qed

lemma sha1_steps:
  assumes "64 \<le> length d" and "length s = 5" and "n \<le> 80"
  shows "case fold (sha1_step d) [0..<n] (s @ [0], replicate 16 0) of
    (v, X) \<Rightarrow> sha1_view v n = fold (\<lambda>t. sha1_round t (sha1_schedule d t)) [0..<n] s \<and> length v = 6 \<and> scheduled (sha1_schedule d) n X"
  using assms(3)
proof (induction n)
  case 0
  obtain a b c e f where "s = [a, b, c, e, f]" using assms(2) by (auto simp: numeral_eq_Suc length_Suc_conv)
  then show ?case by (simp add: scheduled_0 step_args_def)
next
  case (Suc n)
  obtain v X where f: "fold (sha1_step d) [0..<n] (s @ [0], replicate 16 0) = (v, X)" by (metis prod.exhaust)
  obtain v' X' where r: "sha1_step d n (v, X) = (v', X')" by (metis prod.exhaust)
  show ?case using Suc sha1_step [OF assms(1) _ _ _ r] f r by simp
qed

lemma sha1_block:
  assumes "64 \<le> length d" and "length s = 5"
  shows "sha1_block s d = sha1_compress s d"
proof -
  obtain v X where f: "fold (sha1_step d) [0..<80] (s @ [0], replicate 16 0) = (v, X)" by (metis prod.exhaust)
  moreover have "sha1_view v 80 = [v ! 4, v ! 5, v ! 0, v ! 1, v ! 2]" by (simp add: step_args_def)
  ultimately show ?thesis using sha1_steps [OF assms, of 80] assms(2) unfolding sha1_block_def sha1_compress_def by simp
qed

lemma sha1_block_first: "64 \<le> length d \<Longrightarrow> sha1_block s (d @ e) = sha1_block s d"
proof -
  assume d: "64 \<le> length d"
  have "sha1_step (d @ e) i = sha1_step d i" for i
    using d by (auto simp: sha1_step_def load_msg_word msg_word_first fun_eq_iff simp del: drop_append)
  then have "sha1_step (d @ e) = sha1_step d" by (rule ext)
  then show ?thesis by (simp add: sha1_block_def)
qed

lemma length_sha1_round: "length (sha1_round t w s) = length s"
  by (cases "(t, w, s)" rule: sha1_round.cases) simp_all

lemma length_sha1_compress: "length s = 5 \<Longrightarrow> length (sha1_compress s b) = 5"
proof -
  have "length (fold (\<lambda>t. sha1_round t (sha1_schedule b t)) ts s) = length s" for ts
    by (induction ts arbitrary: s) (simp_all add: length_sha1_round)
  then show "length s = 5 \<Longrightarrow> length (sha1_compress s b) = 5" by (simp add: sha1_compress_def)
qed

lemma sha1_one_block: "64 \<le> length b \<Longrightarrow> length s = 5 \<Longrightarrow> sha1_block_data_order s b 1 = sha1_compress s b"
  by (simp add: sha1_block_data_order.simps sha1_block)

interpretation sha1: md32_compress sha1_block_data_order 64 5 sha1_compress
proof
  fix s :: "u32 list" and b :: "u8 list"
  assume "length s = 5" "length b = 64"
  then show "sha1_block_data_order s b 1 = sha1_compress s b \<and> length (sha1_compress s b) = 5"
    using sha1_one_block [of b s] by (simp add: length_sha1_compress)
next
  fix n s and b bs :: "u8 list"
  assume "0 < n" "length b = 64" "length bs = n * 64"
  then show "sha1_block_data_order s (b @ bs) (Suc n) = sha1_block_data_order (sha1_block_data_order s b 1) bs n"
    by (simp add: sha1_block_data_order.simps [of _ _ "Suc n"] sha1_block_data_order.simps [of _ _ "Suc 0"] sha1_block_first)
qed simp

lemma sha1_output:
  assumes "length (h c) = 5"
  shows "sha1_output_state c = concat (map (\<lambda>v. be_bytes 4 (unat v)) (h c))"
proof -
  obtain a b d e f where "h c = [a, b, d, e, f]" using assms by (auto simp: numeral_eq_Suc length_Suc_conv)
  then show ?thesis by (simp add: sha1_output_state_def store_u32_be)
qed

text \<open>SHA-1, over a message in any number of pieces of any lengths, gives the digest of FIPS 180-4.\<close>

lemma sha1_streams: "fst (SHA1_Final (update_all SHA1_Update ms SHA1_Init)) = sha1_digest (concat ms)"
proof -
  define c where "c = update_all SHA1_Update ms SHA1_Init"
  define f where "f = crypto_md32_final sha1_block_data_order 64 True c"
  have i: "num SHA1_Init = 0" "Nl SHA1_Init = 0" "Nh SHA1_Init = 0" "length (data SHA1_Init) = 64" "length (h SHA1_Init) = 5" by (simp_all add: SHA1_Init_def)
  have u: "crypto_md32_update sha1_block_data_order 64 = SHA1_Update" by (simp add: fun_eq_iff SHA1_Update_def)
  note h' = sha1.digest_compress [OF i, of True ms, unfolded u, folded c_def, folded f_def]
  note h = conjunct1 [OF h'] conjunct2 [OF h']
  show ?thesis
    using sha1_output [OF h(2)] unfolding SHA1_Final_def Let_def c_def [symmetric] f_def [symmetric] h(1)
    by (simp add: sha1_digest_def SHA1_Init_def)
qed

text \<open>The addition with carries, over the words before the \<open>n\<close>-th.\<close>

definition words_nat :: "u32 list \<Rightarrow> nat" where
  "words_nat w = be_nat (concat (map (\<lambda>v. be_bytes 4 (unat v)) w))"

lemma words_nat_snoc: "words_nat (w @ [v]) = words_nat w * 2 ^ 32 + unat v"
proof -
  have "unat v mod 256 ^ 4 = unat v" using unat_u32_lt [of v] by simp
  then show ?thesis by (simp add: words_nat_def be_nat_append be_nat_be_bytes)
qed

lemma add_state:
  assumes "n \<le> length w" and "4 * n \<le> length block" and "carry \<le> 1"
  shows "add_state w n carry block =
    be_bytes (4 * n) (be_nat (take (4 * n) block) + words_nat (take n w) + unat carry) @ drop (4 * n) block"
  using assms
proof (induction n arbitrary: carry block)
  case (Suc n)
  define x where "x = CRYPTO_load_u32_be (drop (n * 4) block)"
  obtain r k where a: "CRYPTO_addc_u32 x (w ! n) carry = (r, k)" by (metis prod.exhaust)
  have k: "unat k \<le> 1" "unat r + 2 ^ 32 * unat k = unat x + unat (w ! n) + unat carry"
    using addc_u32_exact [OF Suc.prems(3), of x "w ! n"] a by simp_all
  define b where "b = store (n * 4) (CRYPTO_store_u32_be r) block"
  have b: "take (4 * n) b = take (4 * n) block" "drop (4 * n) b = be_bytes 4 (unat r) @ drop (4 * Suc n) block"
    using Suc.prems(2) by (simp_all add: b_def store_def store_u32_be mult.commute add.commute)
  have "4 * n \<le> length b" using Suc.prems(2) by (simp add: b_def length_store store_u32_be)
  moreover have "k \<le> 1" using k(1) by (simp add: word_le_nat_alt)
  ultimately have ih: "add_state w n k b = be_bytes (4 * n) (be_nat (take (4 * n) block) + words_nat (take n w) + unat k) @
      be_bytes 4 (unat r) @ drop (4 * Suc n) block"
    using Suc.IH [of b k] Suc.prems(1) unfolding b by simp
  define L where "L = be_nat (take (4 * n) block) + words_nat (take n w)"
  have "take (4 * Suc n) block = take (4 * n) block @ take 4 (drop (4 * n) block)" using take_add [of "4 * n" 4 block] by (simp add: add.commute)
  then have "be_nat (take (4 * Suc n) block) = be_nat (take (4 * n) block) * 2 ^ 32 + unat x"
  proof -
    assume t: "take (4 * Suc n) block = take (4 * n) block @ take 4 (drop (4 * n) block)"
    have l: "length (take 4 (drop (4 * n) block)) = 4" using Suc.prems(2) by simp
    then have "be_nat (take 4 (drop (4 * n) block)) < 256 ^ 4" by (metis be_nat_less)
    moreover have "x = word_of_nat (be_nat (take 4 (drop (4 * n) block)))"
      using Suc.prems(2) by (simp add: x_def load_u32_be mult.commute)
    ultimately have "unat x = be_nat (take 4 (drop (4 * n) block))" by (simp add: unsigned_of_nat take_bit_eq_mod)
    then show ?thesis unfolding t be_nat_append l by simp
  qed
  moreover have "words_nat (take (Suc n) w) = words_nat (take n w) * 2 ^ 32 + unat (w ! n)"
    using Suc.prems(1) by (simp add: take_Suc_conv_app_nth words_nat_snoc)
  ultimately have "be_nat (take (4 * Suc n) block) + words_nat (take (Suc n) w) + unat carry = (L + unat k) * 2 ^ 32 + unat r"
    using k(2) unfolding L_def by (simp add: algebra_simps)
  moreover have "be_bytes (4 * Suc n) ((L + unat k) * 2 ^ 32 + unat r) = be_bytes (4 * n) (L + unat k) @ be_bytes 4 (unat r)"
  proof -
    have "((L + unat k) * 2 ^ 32 + unat r) div 256 ^ 4 = L + unat k" using unat_u32_lt [of r] by simp
    moreover have "be_bytes 4 ((L + unat k) * 2 ^ 32 + unat r) = be_bytes 4 (unat r)"
    proof -
      have "((L + unat k) * 2 ^ 32 + unat r) mod 2 ^ 32 = unat r mod 2 ^ 32" by (rule mod_mult_self3)
      then have "((L + unat k) * 2 ^ 32 + unat r) mod 256 ^ 4 = unat r mod 256 ^ 4" by simp
      then show ?thesis by (metis be_bytes_mod)
    qed
    ultimately show ?thesis using be_bytes_add [of "4 * n" 4] by (simp add: add.commute)
  qed
  ultimately show ?case using ih a by (simp add: L_def x_def b_def)
qed simp

lemma length_prf_output: "length (prf_output x) = 20"
  by (simp add: prf_output_def length_concat comp_def sum_list_triv length_sha1_compress)

lemma prf_key_step: "prf_key x (Suc j) = prf_key ((1 + x + be_nat (prf_output x)) mod 2 ^ 160) j"
  by (induction j) simp_all

lemma fips_186_2_loop:
  "n \<le> 20 * k \<Longrightarrow>
     fips_186_2_loop n (be_bytes 20 x @ replicate 44 0) = take n (concat (map (\<lambda>j. prf_output (prf_key x j)) [0..<k]))"
proof (induction k arbitrary: n x)
  case 0
  then show ?case by (simp add: fips_186_2_loop.simps)
next
  case (Suc k)
  define blk where "blk = be_bytes 20 x @ replicate 44 (0 :: u8)"
  define s where "s = sha1_compress (h SHA1_Init) blk"
  have l: "length (h SHA1_Init) = 5" by (simp add: SHA1_Init_def)
  then have ls: "length s = 5" by (simp add: s_def length_sha1_compress)
  have t: "h (SHA1_Transform blk SHA1_Init) = s"
    using sha1_one_block [of blk "h SHA1_Init"] l by (simp add: SHA1_Transform_def s_def blk_def)
  have o: "sha1_output_state (SHA1_Transform blk SHA1_Init) = prf_output x"
    using sha1_output [of "SHA1_Transform blk SHA1_Init"] t ls
    by (simp add: s_def prf_output_def blk_def SHA1_Init_def)
  have w: "words_nat s = be_nat (prf_output x)" by (simp add: words_nat_def prf_output_def s_def blk_def SHA1_Init_def)
  define y where "y = 1 + x + be_nat (prf_output x)"
  have "add_state s 5 1 blk = be_bytes 20 (x mod 256 ^ 20 + be_nat (prf_output x) + 1) @ replicate 44 0"
    using add_state [of 5 s blk 1] ls w by (simp add: blk_def be_nat_be_bytes)
  also have "be_bytes 20 (x mod 256 ^ 20 + be_nat (prf_output x) + 1) = be_bytes 20 (y mod 2 ^ 160)"
  proof -
    have "be_bytes 20 (x mod 256 ^ 20 + be_nat (prf_output x) + 1) = be_bytes 20 ((x mod 256 ^ 20 + (be_nat (prf_output x) + 1)) mod 256 ^ 20)"
      by (simp only: be_bytes_mod add.assoc)
    also have "\<dots> = be_bytes 20 (y mod 256 ^ 20)" unfolding mod_add_left_eq y_def by (simp add: add_ac)
    finally show ?thesis by simp
  qed
  finally have a: "add_state s 5 1 blk = be_bytes 20 (y mod 2 ^ 160) @ replicate 44 0" .
  have m: "map (\<lambda>j. prf_output (prf_key x j)) [0..<Suc k] = prf_output x # map (\<lambda>j. prf_output (prf_key (y mod 2 ^ 160) j)) [0..<k]"
    unfolding map_upt_Suc by (simp add: prf_key_step y_def del: prf_key.simps(2))
  show ?case
    using Suc.IH [of "n - 20" "y mod 2 ^ 160"] Suc.prems length_prf_output [of x] unfolding blk_def [symmetric] m
    by (subst fips_186_2_loop.simps) (auto simp: t o a Let_def)
qed

text \<open>The generator gives the first \<open>out_len\<close> bytes of the outputs of FIPS 186-2, appendix 3.3, without a seed.\<close>

theorem fips_186_2_prf:
  assumes "length xkey = 20"
  shows "CRYPTO_fips_186_2_prf out_len xkey =
    take out_len (concat (map (\<lambda>j. prf_output (prf_key (be_nat xkey) j)) [0..<(out_len + 19) div 20]))"
proof -
  have "out_len \<le> 20 * ((out_len + 19) div 20)" by linarith
  moreover have "store 0 (take 20 xkey) (replicate 64 0) = be_bytes 20 (be_nat xkey) @ replicate 44 0"
    using assms be_bytes_be_nat [of xkey] by (simp add: store_def)
  ultimately show ?thesis by (simp add: CRYPTO_fips_186_2_prf_def fips_186_2_loop)
qed

lemma fips_186_2_prf_witness:
  "take 20 (CRYPTO_fips_186_2_prf 50 (replicate 20 7)) = prf_output (be_nat (replicate 20 7))"
proof -
  have "length (replicate 20 (7 :: u8)) = 20" by simp
  from fips_186_2_prf [OF this, of 50]
  show ?thesis using length_prf_output [of "be_nat (replicate 20 7)"] by (simp add: upt_conv_Cons numeral_2_eq_2 numeral_3_eq_3)
qed

end
