(* ===== verification/Fips_Constants.thy ===== *)
theory Fips_Constants
  imports Digest_Md32
begin

text \<open>
  The constants of the SHA-2 digests as FIPS 180-4 (4.2.2, 4.2.3 and 5.3) defines them: bits of the fractional parts of
  square roots and cube roots of the first primes. The tables of the code are compared with them.
\<close>

section \<open>Roots\<close>

text \<open>The integral part of the \<open>k\<close>-th root.\<close>

definition integer_root :: "nat \<Rightarrow> nat \<Rightarrow> nat" where
  "integer_root k n = (GREATEST r. r ^ k \<le> n)"

text \<open>
  The first bits of the fractional part of the \<open>k\<close>-th root of \<open>p\<close>, as many as the word has: the integral part of the root, moved by
  as many bits to the left, without the bits above.
\<close>

definition fraction_bits :: "nat \<Rightarrow> nat \<Rightarrow> 'a::len word" where
  "fraction_bits k p = word_of_nat (integer_root k (p * (2 ^ LENGTH('a)) ^ k))"

lemma integer_root:
  assumes "0 < k" and "r ^ k \<le> n" and "n < (r + 1) ^ k"
  shows "integer_root k n = r"
  unfolding integer_root_def
proof (rule Greatest_equality)
  show "r ^ k \<le> n" by fact
  fix y
  assume "y ^ k \<le> n"
  then have "y ^ k < (r + 1) ^ k" using assms(3) by simp
  then have "y < r + 1" by (rule power_less_imp_less_base) simp
  then show "y \<le> r" by simp
qed

text \<open>\<open>rs\<close> are the integral parts of the roots of \<open>ps\<close>, and \<open>cs\<close> the first bits after the point.\<close>

fun root_bits :: "nat \<Rightarrow> nat list \<Rightarrow> nat list \<Rightarrow> 'a::len word list \<Rightarrow> bool" where
  "root_bits k [] [] [] \<longleftrightarrow> True"
| "root_bits k (p # ps) (r # rs) (c # cs) \<longleftrightarrow>
     (r * 2 ^ LENGTH('a) + unat c) ^ k \<le> p * (2 ^ LENGTH('a)) ^ k \<and>
     p * (2 ^ LENGTH('a)) ^ k < (r * 2 ^ LENGTH('a) + unat c + 1) ^ k \<and> root_bits k ps rs cs"
| "root_bits k _ _ _ \<longleftrightarrow> False"

lemma root_bits: "root_bits k ps rs cs \<Longrightarrow> 0 < k \<Longrightarrow> map (fraction_bits k) ps = (cs :: 'a::len word list)"
proof (induction k ps rs cs rule: root_bits.induct)
  case (2 k p ps r rs c cs)
  have "fraction_bits k p = (word_of_nat (r * 2 ^ LENGTH('a) + unat c) :: 'a word)"
    unfolding fraction_bits_def using 2 by (subst integer_root [of k "r * 2 ^ LENGTH('a) + unat c"]) simp_all
  also have "\<dots> = c"
    by (simp add: word_unat_eq_iff unsigned_of_nat take_bit_eq_mod del: of_nat_add of_nat_mult)
  finally show ?case using 2 by simp
qed simp_all

section \<open>The constants\<close>

definition primes80 :: "nat list" where
  "primes80 =
    [2, 3, 5, 7, 11, 13, 17, 19, 23, 29, 31, 37, 41, 43, 47, 53, 59, 61, 67, 71,
     73, 79, 83, 89, 97, 101, 103, 107, 109, 113, 127, 131, 137, 139, 149, 151, 157, 163, 167, 173,
     179, 181, 191, 193, 197, 199, 211, 223, 227, 229, 233, 239, 241, 251, 257, 263, 269, 271, 277, 281,
     283, 293, 307, 311, 313, 317, 331, 337, 347, 349, 353, 359, 367, 373, 379, 383, 389, 397, 401, 409]"

definition fips_K256 :: "u32 list" where
  "fips_K256 = map (fraction_bits 3) (take 64 primes80)"

definition fips_K512 :: "u64 list" where
  "fips_K512 = map (fraction_bits 3) primes80"

definition fips_H256 :: "u32 list" where
  "fips_H256 = map (fraction_bits 2) (take 8 primes80)"

definition fips_H512 :: "u64 list" where
  "fips_H512 = map (fraction_bits 2) (take 8 primes80)"

text \<open>The ninth to the sixteenth prime.\<close>

definition fips_H384 :: "u64 list" where
  "fips_H384 = map (fraction_bits 2) (take 8 (drop 8 primes80))"

text \<open>The second 32 bits of the same roots.\<close>

definition fips_H224 :: "u32 list" where
  "fips_H224 = map ucast fips_H384"

text \<open>The list in 5.3.6.2.\<close>

definition fips_H512_256 :: "u64 list" where
  "fips_H512_256 =
    [0x22312194FC2BF72C, 0x9F555FA3C84C64C2, 0x2393B86B6F53B151, 0x963877195940EABD,
     0x96283EE2A88EFFE3, 0xBE5E1E2553863992, 0x2B0199FC2C85B8AA, 0x0EB72DDC81C52CA2]"

lemma fips_H384:
  "fips_H384 = [0xcbbb9d5dc1059ed8, 0x629a292a367cd507, 0x9159015a3070dd17, 0x152fecd8f70e5939,
    0x67332667ffc00b31, 0x8eb44a8768581511, 0xdb0c2e0d64f98fa7, 0x47b5481dbefa4fa4]"
  unfolding fips_H384_def
  by (rule root_bits [where rs = "[4, 5, 5, 6, 6, 6, 6, 7]"]) (simp_all add: primes80_def)

lemma length_fips_H:
  "length fips_H224 = 8" "length fips_H256 = 8" "length fips_H384 = 8" "length fips_H512 = 8" "length fips_H512_256 = 8"
  by (simp_all add: fips_H224_def fips_H256_def fips_H384_def fips_H512_def fips_H512_256_def primes80_def)

end
