(* ===== verification/Digest_Sha256.thy ===== *)
theory Digest_Sha256
  imports Fips_Constants
begin

text \<open>
  Model of \<^verbatim>\<open>crypto/fipsmodule/sha/sha256.c\<close>: SHA-224 and SHA-256 with the portable block function. The assembly that
  takes its place on some processors is not part of the repository's C code. The reference is FIPS 180-4.
\<close>

section \<open>The block function\<close>

text \<open>The eight variables \<open>a\<close> to \<open>h\<close> are a list; the rounds name them by their numbers, in the order of their arguments.\<close>

definition K256 :: "u32 list" where
  "K256 =
    [0x428a2f98, 0x71374491, 0xb5c0fbcf, 0xe9b5dba5, 0x3956c25b, 0x59f111f1, 0x923f82a4, 0xab1c5ed5,
     0xd807aa98, 0x12835b01, 0x243185be, 0x550c7dc3, 0x72be5d74, 0x80deb1fe, 0x9bdc06a7, 0xc19bf174,
     0xe49b69c1, 0xefbe4786, 0x0fc19dc6, 0x240ca1cc, 0x2de92c6f, 0x4a7484aa, 0x5cb0a9dc, 0x76f988da,
     0x983e5152, 0xa831c66d, 0xb00327c8, 0xbf597fc7, 0xc6e00bf3, 0xd5a79147, 0x06ca6351, 0x14292967,
     0x27b70a85, 0x2e1b2138, 0x4d2c6dfc, 0x53380d13, 0x650a7354, 0x766a0abb, 0x81c2c92e, 0x92722c85,
     0xa2bfe8a1, 0xa81a664b, 0xc24b8b70, 0xc76c51a3, 0xd192e819, 0xd6990624, 0xf40e3585, 0x106aa070,
     0x19a4c116, 0x1e376c08, 0x2748774c, 0x34b0bcb5, 0x391c0cb3, 0x4ed8aa4a, 0x5b9cca4f, 0x682e6ff3,
     0x748f82ee, 0x78a5636f, 0x84c87814, 0x8cc70208, 0x90befffa, 0xa4506ceb, 0xbef9a3f7, 0xc67178f2]"

definition Sigma0 :: "u32 \<Rightarrow> u32" where
  "Sigma0 x = CRYPTO_rotr_u32 x 2 XOR CRYPTO_rotr_u32 x 13 XOR CRYPTO_rotr_u32 x 22"

definition Sigma1 :: "u32 \<Rightarrow> u32" where
  "Sigma1 x = CRYPTO_rotr_u32 x 6 XOR CRYPTO_rotr_u32 x 11 XOR CRYPTO_rotr_u32 x 25"

definition sigma0 :: "u32 \<Rightarrow> u32" where
  "sigma0 x = CRYPTO_rotr_u32 x 7 XOR CRYPTO_rotr_u32 x 18 XOR drop_bit 3 x"

definition sigma1 :: "u32 \<Rightarrow> u32" where
  "sigma1 x = CRYPTO_rotr_u32 x 17 XOR CRYPTO_rotr_u32 x 19 XOR drop_bit 10 x"

definition Ch :: "u32 \<Rightarrow> u32 \<Rightarrow> u32 \<Rightarrow> u32" where
  "Ch x y z = (x AND y) XOR (NOT x AND z)"

definition Maj :: "u32 \<Rightarrow> u32 \<Rightarrow> u32 \<Rightarrow> u32" where
  "Maj x y z = (x AND y) XOR (x AND z) XOR (y AND z)"

fun ROUND_00_15 :: "nat \<Rightarrow> nat list \<Rightarrow> u32 \<Rightarrow> u32 list \<Rightarrow> u32 list" where
  "ROUND_00_15 i [a, b, c, d, e, f, g, h'] T1 v =
     (let T1 = T1 + (v ! h' + Sigma1 (v ! e) + Ch (v ! e) (v ! f) (v ! g) + K256 ! i);
          v = v[h' := Sigma0 (v ! a) + Maj (v ! a) (v ! b) (v ! c)];
          v = v[d := v ! d + T1];
          v = v[h' := v ! h' + T1]
      in v)"
| "ROUND_00_15 i _ T1 v = v"

text \<open>The arguments of the rounds, which repeat after eight of them.\<close>

definition round_args :: "nat list list" where
  "round_args =
    [[0, 1, 2, 3, 4, 5, 6, 7],
     [7, 0, 1, 2, 3, 4, 5, 6],
     [6, 7, 0, 1, 2, 3, 4, 5],
     [5, 6, 7, 0, 1, 2, 3, 4],
     [4, 5, 6, 7, 0, 1, 2, 3],
     [3, 4, 5, 6, 7, 0, 1, 2],
     [2, 3, 4, 5, 6, 7, 0, 1],
     [1, 2, 3, 4, 5, 6, 7, 0]]"

text \<open>A round of the first kind loads its word; one of the second makes it of earlier ones, in place.\<close>

definition load_round :: "u8 list \<Rightarrow> nat \<Rightarrow> u32 list \<times> u32 list \<Rightarrow> u32 list \<times> u32 list" where
  "load_round d i s =
     (case s of (v, X) \<Rightarrow>
        let T1 = CRYPTO_load_u32_be (drop (4 * i) d)
        in (ROUND_00_15 i (round_args ! (i mod 8)) T1 v, X[i := T1]))"

definition ROUND_16_63 :: "nat \<Rightarrow> nat list \<Rightarrow> u32 list \<times> u32 list \<Rightarrow> u32 list \<times> u32 list" where
  "ROUND_16_63 i args s =
     (case s of (v, X) \<Rightarrow>
        let s0 = sigma0 (X ! ((i + 1) mod 16));
            s1 = sigma1 (X ! ((i + 14) mod 16));
            T1 = X ! (i mod 16) + (s0 + s1 + X ! ((i + 9) mod 16))
        in (ROUND_00_15 i args T1 v, X[i mod 16 := T1]))"

definition eight_rounds :: "nat \<Rightarrow> u32 list \<times> u32 list \<Rightarrow> u32 list \<times> u32 list" where
  "eight_rounds i s = fold (\<lambda>j. ROUND_16_63 (i + j) (round_args ! j)) [0..<8] s"

text \<open>The words \<open>X\<close> are not initialised; the first sixteen rounds set them all.\<close>

definition sha256_block :: "u32 list \<Rightarrow> u8 list \<Rightarrow> u32 list" where
  "sha256_block state d =
     (case fold eight_rounds [16, 24, 32, 40, 48, 56] (fold (load_round d) [0..<16] (take 8 state, replicate 16 0)) of
        (v, X) \<Rightarrow> map2 (+) state v)"

fun sha256_block_data_order :: "u32 list \<Rightarrow> u8 list \<Rightarrow> nat \<Rightarrow> u32 list" where
  "sha256_block_data_order state d 0 = state"
| "sha256_block_data_order state d (Suc n) = sha256_block_data_order (sha256_block state d) (drop 64 d) n"

section \<open>The digests\<close>

record sha256_ctx = "u32 md_ctx" +
  md_len :: nat

definition sha256_start :: "u32 list \<Rightarrow> nat \<Rightarrow> sha256_ctx" where
  "sha256_start s n = \<lparr>h = s, Nl = 0, Nh = 0, data = replicate 64 0, num = 0, md_len = n\<rparr>"

definition SHA224_Init :: sha256_ctx where
  "SHA224_Init = sha256_start
     [0xc1059ed8, 0x367cd507, 0x3070dd17, 0xf70e5939, 0xffc00b31, 0x68581511, 0x64f98fa7, 0xbefa4fa4] 28"

definition SHA256_Init :: sha256_ctx where
  "SHA256_Init = sha256_start
     [0x6a09e667, 0xbb67ae85, 0x3c6ef372, 0xa54ff53a, 0x510e527f, 0x9b05688c, 0x1f83d9ab, 0x5be0cd19] 32"

definition SHA256_Transform :: "u8 list \<Rightarrow> sha256_ctx \<Rightarrow> sha256_ctx" where
  "SHA256_Transform d c = c\<lparr>h := sha256_block_data_order (h c) d 1\<rparr>"

definition SHA256_Update :: "u8 list \<Rightarrow> sha256_ctx \<Rightarrow> sha256_ctx" where
  "SHA256_Update d c = crypto_md32_update sha256_block_data_order 64 d c"

definition SHA224_Update :: "u8 list \<Rightarrow> sha256_ctx \<Rightarrow> sha256_ctx" where
  "SHA224_Update d c = SHA256_Update d c"

definition sha256_final_impl :: "nat \<Rightarrow> sha256_ctx \<Rightarrow> u8 list option \<times> sha256_ctx" where
  "sha256_final_impl n c =
     (let c = crypto_md32_final sha256_block_data_order 64 True c
      in if n > 32 then (None, c)
         else (Some (concat (map (\<lambda>i. CRYPTO_store_u32_be (h c ! i)) [0..<n div 4])), c))"

definition SHA256_Final :: "sha256_ctx \<Rightarrow> u8 list option \<times> sha256_ctx" where
  "SHA256_Final c = sha256_final_impl (md_len c) c"

definition SHA224_Final :: "sha256_ctx \<Rightarrow> u8 list option \<times> sha256_ctx" where
  "SHA224_Final c = sha256_final_impl 28 c"

definition SHA256 :: "u8 list \<Rightarrow> u8 list option" where
  "SHA256 d = fst (SHA256_Final (SHA256_Update d SHA256_Init))"

definition SHA224 :: "u8 list \<Rightarrow> u8 list option" where
  "SHA224 d = fst (SHA224_Final (SHA224_Update d SHA224_Init))"

definition SHA256_TransformBlocks :: "u32 list \<Rightarrow> u8 list \<Rightarrow> nat \<Rightarrow> u32 list" where
  "SHA256_TransformBlocks state d n = sha256_block_data_order state d n"

section \<open>FIPS 180-4\<close>

text \<open>
  The message schedule of a block, a round and the compression function, with the functions of section 4.1.2 over rotations.
\<close>

fun schedule :: "u8 list \<Rightarrow> nat \<Rightarrow> u32" where
  "schedule b t =
     (if t < 16 then be_msg_word b t
      else
        (let x = schedule b (t - 2); y = schedule b (t - 15)
         in (word_rotr 17 x XOR word_rotr 19 x XOR drop_bit 10 x) + schedule b (t - 7) +
            (word_rotr 7 y XOR word_rotr 18 y XOR drop_bit 3 y) + schedule b (t - 16)))"

declare schedule.simps [simp del]

fun fips_round :: "u32 \<Rightarrow> u32 \<Rightarrow> u32 list \<Rightarrow> u32 list" where
  "fips_round k w [a, b, c, d, e, f, g, h'] =
     (let T1 = h' + (word_rotr 6 e XOR word_rotr 11 e XOR word_rotr 25 e) + ((e AND f) XOR (NOT e AND g)) + k + w;
          T2 = (word_rotr 2 a XOR word_rotr 13 a XOR word_rotr 22 a) + ((a AND b) XOR (a AND c) XOR (b AND c))
      in [T1 + T2, a, b, c, d + T1, e, f, g])"
| "fips_round k w s = s"

definition fips_compress :: "u32 list \<Rightarrow> u8 list \<Rightarrow> u32 list" where
  "fips_compress s b = map2 (+) s (fold (\<lambda>t. fips_round (fips_K256 ! t) (schedule b t)) [0..<64] s)"

definition fips_digest :: "u32 list \<Rightarrow> nat \<Rightarrow> u8 list \<Rightarrow> u8 list" where
  "fips_digest start n m =
     take n (concat (map (\<lambda>v. be_bytes 4 (unat v)) (foldl fips_compress start (blocks_of 64 (m @ md_padding 64 8 True (length m))))))"

text \<open>The tables of the code hold the constants of the standard. The integral parts of the roots are listed.\<close>

lemma K256_fips: "fips_K256 = K256"
  unfolding fips_K256_def
  by (rule root_bits [where rs = "[1, 1, 1, 1, 2, 2, 2, 2, 2, 3, 3, 3, 3, 3, 3, 3, 3, 3, 4, 4, 4, 4, 4, 4, 4, 4, 4, 4, 4, 4, 5, 5, 5, 5, 5, 5, 5, 5, 5, 5, 5, 5, 5, 5, 5, 5, 5, 6, 6, 6, 6, 6, 6, 6, 6, 6, 6, 6, 6, 6, 6, 6, 6, 6]"])
    (simp_all add: primes80_def K256_def)

lemma SHA256_Init_fips: "h SHA256_Init = fips_H256" "h SHA224_Init = fips_H224"
proof -
  have "fips_H256 = h SHA256_Init"
    unfolding fips_H256_def
    by (rule root_bits [where rs = "[1, 1, 2, 2, 3, 3, 4, 4]"]) (simp_all add: primes80_def SHA256_Init_def sha256_start_def)
  then show "h SHA256_Init = fips_H256" by simp
  show "h SHA224_Init = fips_H224"
    by (simp add: fips_H224_def fips_H384 SHA224_Init_def sha256_start_def)
qed

section \<open>The code computes the digests\<close>

abbreviation view :: "u32 list \<Rightarrow> nat \<Rightarrow> u32 list" where
  "view v i \<equiv> map ((!) v) (round_args ! (i mod 8))"

lemma rotated_args: "j < 8 \<Longrightarrow> j = 0 \<or> j = 1 \<or> j = 2 \<or> j = 3 \<or> j = 4 \<or> j = 5 \<or> j = 6 \<or> j = (7 :: nat)"
  by linarith

lemma fips_round:
  "fips_round k w [a, b, c, d, e, f, g, h'] =
     [w + (h' + Sigma1 e + Ch e f g + k) + (Sigma0 a + Maj a b c), a, b, c, d + (w + (h' + Sigma1 e + Ch e f g + k)), e, f, g]"
  by (simp add: Sigma0_def Sigma1_def Ch_def Maj_def rotations32 Let_def add.commute xor.assoc)

declare fips_round.simps [simp del]

lemma view_0: "length v = 8 \<Longrightarrow> map ((!) v) (round_args ! 0) = v"
  by (rule nth_equalityI) (auto simp: round_args_def less_Suc_eq numeral_eq_Suc)

lemma round_step:
  assumes "length v = 8"
  shows "view (ROUND_00_15 i (round_args ! (j mod 8)) w v) (j + 1) = fips_round (K256 ! i) w (view v j) \<and>
    length (ROUND_00_15 i (round_args ! (j mod 8)) w v) = 8"
proof -
  obtain a b c d e f g k where v: "v = [a, b, c, d, e, f, g, k]"
    using assms by (auto simp: numeral_eq_Suc length_Suc_conv)
  define m where "m = j mod 8"
  have m: "m < 8" "(j + 1) mod 8 = (m + 1) mod 8" by (simp_all add: m_def mod_Suc_eq)
  show ?thesis
    using rotated_args [OF m(1)] unfolding m(2) m_def [symmetric]
    by (elim disjE) (simp_all add: v round_args_def Let_def fips_round add.commute)
qed

text \<open>One round, of either kind.\<close>

definition any_round :: "u8 list \<Rightarrow> nat \<Rightarrow> u32 list \<times> u32 list \<Rightarrow> u32 list \<times> u32 list" where
  "any_round d i = (if i < 16 then load_round d i else ROUND_16_63 i (round_args ! (i mod 8)))"

lemma any_round:
  assumes "64 \<le> length d" and "length v = 8" and "scheduled (schedule d) i X" and "any_round d i (v, X) = (v', X')"
  shows "view v' (i + 1) = fips_round (K256 ! i) (schedule d i) (view v i) \<and> length v' = 8 \<and> scheduled (schedule d) (i + 1) X'"
proof -
  have "v' = ROUND_00_15 i (round_args ! (i mod 8)) (schedule d i) v \<and> X' = X[i mod 16 := schedule d i]"
  proof (cases "i < 16")
    case True
    then have "schedule d i = CRYPTO_load_u32_be (drop (4 * i) d)"
      using assms(1) by (simp add: schedule.simps [of d i] load_msg_word)
    then show ?thesis using assms(4) True by (simp add: any_round_def load_round_def Let_def)
  next
    case False
    have x: "X ! ((i + 1) mod 16) = schedule d (i - 15)" "X ! ((i + 14) mod 16) = schedule d (i - 2)" "X ! ((i + 9) mod 16) = schedule d (i - 7)"
        "X ! (i mod 16) = schedule d (i - 16)"
      using scheduled_read [OF assms(3), of 15 1] scheduled_read [OF assms(3), of 2 14] scheduled_read [OF assms(3), of 7 9]
        scheduled_read [OF assms(3), of 16 0] False by simp_all
    have "schedule d i = X ! (i mod 16) + (sigma0 (X ! ((i + 1) mod 16)) + sigma1 (X ! ((i + 14) mod 16)) + X ! ((i + 9) mod 16))"
      using False unfolding x by (subst schedule.simps) (simp add: Let_def sigma0_def sigma1_def rotations32 ac_simps)
    then show ?thesis using assms(4) False by (simp add: any_round_def ROUND_16_63_def Let_def)
  qed
  then show ?thesis using round_step [OF assms(2), of i i "schedule d i"] scheduled_next [OF assms(3)] by simp
qed

lemma rounds:
  assumes "64 \<le> length d" and "length s = 8"
  shows "case fold (any_round d) [0..<n] (s, replicate 16 0) of
    (v, X) \<Rightarrow> view v n = fold (\<lambda>t. fips_round (K256 ! t) (schedule d t)) [0..<n] s \<and> length v = 8 \<and> scheduled (schedule d) n X"
proof (induction n)
  case 0
  show ?case using assms(2) view_0 [OF assms(2)] by (simp add: scheduled_0)
next
  case (Suc n)
  obtain v X where f: "fold (any_round d) [0..<n] (s, replicate 16 0) = (v, X)" by (metis prod.exhaust)
  obtain v' X' where r: "any_round d n (v, X) = (v', X')" by (metis prod.exhaust)
  show ?case using Suc any_round [OF assms(1) _ _ r] f r by simp
qed

lemma eight_rounds: "16 \<le> i \<Longrightarrow> i mod 8 = 0 \<Longrightarrow> eight_rounds i = fold (any_round d) [i..<i + 8]"
proof -
  assume i: "16 \<le> i" "i mod 8 = 0"
  have "[i..<i + 8] = map ((+) i) [0..<8]" using map_add_upt [of i 8] by (simp add: add.commute [of _ i])
  moreover have "any_round d (i + j) = ROUND_16_63 (i + j) (round_args ! j)" if "j < 8" for j
    using that i by (simp add: any_round_def mod_add_eq [symmetric])
  then have "fold (\<lambda>j. ROUND_16_63 (i + j) (round_args ! j)) [0..<8] s = fold (\<lambda>j. any_round d (i + j)) [0..<8] s" for s
    by (intro fold_cong) auto
  ultimately show ?thesis by (simp add: eight_rounds_def fold_map fun_eq_iff comp_def)
qed

lemma sha256_block:
  assumes "64 \<le> length d" and "length s = 8"
  shows "sha256_block s d = fips_compress s d"
proof -
  have "fold eight_rounds [16, 24, 32, 40, 48, 56] = fold (any_round d) [16..<64]"
  proof -
    have "[16..<64] = [16..<24] @ [24..<32] @ [32..<40] @ [40..<48] @ [48..<56] @ [56..<64 :: nat]" by (simp add: upt_rec)
    then show ?thesis by (simp add: eight_rounds [of _ d] comp_assoc)
  qed
  moreover have "fold (load_round d) [0..<16] = fold (any_round d) [0..<16]"
    by (rule ext, rule fold_cong) (auto simp: any_round_def)
  moreover have "[0..<64] = [0..<16] @ [16..<64 :: nat]" using upt_add_eq_append [of 0 16 48] by simp
  ultimately have "fold eight_rounds [16, 24, 32, 40, 48, 56] (fold (load_round d) [0..<16] (s, replicate 16 0)) =
      fold (any_round d) [0..<64] (s, replicate 16 0)" by simp
  moreover obtain v X where r: "fold (any_round d) [0..<64] (s, replicate 16 0) = (v, X)" by (metis prod.exhaust)
  moreover have "v = fold (\<lambda>t. fips_round (K256 ! t) (schedule d t)) [0..<64] s"
    using rounds [OF assms, of 64] r view_0 [of v] by simp
  ultimately show ?thesis using assms(2) unfolding sha256_block_def fips_compress_def K256_fips by simp
qed

lemma sha256_block_first: "64 \<le> length d \<Longrightarrow> sha256_block s (d @ e) = sha256_block s d"
proof -
  assume d: "64 \<le> length d"
  have "load_round (d @ e) i = load_round d i" if "i < 16" for i
    using that d by (auto simp: load_round_def load_msg_word msg_word_first fun_eq_iff simp del: drop_append)
  then have "fold (load_round (d @ e)) [0..<16] x = fold (load_round d) [0..<16] x" for x by (intro fold_cong) auto
  then show ?thesis by (simp add: sha256_block_def)
qed

text \<open>The block functions of the collector.\<close>

lemma length_fips_round: "length (fips_round k w s) = length s"
  by (cases "(k, w, s)" rule: fips_round.cases) (simp_all add: fips_round.simps Let_def)

lemma length_fips_compress: "length s = 8 \<Longrightarrow> length (fips_compress s b) = 8"
proof -
  have "length (fold (\<lambda>t. fips_round (fips_K256 ! t) (schedule b t)) ts s) = length s" for ts
    by (induction ts arbitrary: s) (simp_all add: length_fips_round)
  then show "length s = 8 \<Longrightarrow> length (fips_compress s b) = 8" by (simp add: fips_compress_def)
qed

interpretation sha256: md32_compress sha256_block_data_order 64 8 fips_compress
proof
  fix s :: "u32 list" and b :: "u8 list"
  assume "length s = 8" "length b = 64"
  then show "sha256_block_data_order s b 1 = fips_compress s b \<and> length (fips_compress s b) = 8"
    by (simp add: sha256_block length_fips_compress)
next
  fix n s and b bs :: "u8 list"
  assume "0 < n" "length b = 64" "length bs = n * 64"
  then show "sha256_block_data_order s (b @ bs) (Suc n) = sha256_block_data_order (sha256_block_data_order s b 1) bs n"
    by (simp add: sha256_block_first)
qed simp

lemma sha256_update_all: "update_all SHA256_Update = update_all (crypto_md32_update sha256_block_data_order 64)"
  by (simp add: SHA256_Update_def [abs_def])

lemma sha256_impl:
  assumes "length s = 8" and "n \<le> 8"
  shows "fst (sha256_final_impl (4 * n) (update_all SHA256_Update ms (sha256_start s len))) = Some (fips_digest s (4 * n) (concat ms))"
proof -
  define c where "c = update_all SHA256_Update ms (sha256_start s len)"
  define i where "i = sha256_start s len"
  have i: "num i = 0" "Nl i = 0" "Nh i = 0" "length (data i) = 64" "length (h i) = 8" "h i = s" using assms(1) by (simp_all add: i_def sha256_start_def)
  note d = sha256.digest_compress [OF i(1-5), of True ms, folded sha256_update_all, unfolded i(6), folded c_def [folded i_def]]
  have "n \<le> length (h (crypto_md32_final sha256_block_data_order 64 True c))" using assms(2) unfolding conjunct2 [OF d] .
  then have "concat (map (\<lambda>i. CRYPTO_store_u32_be (h (crypto_md32_final sha256_block_data_order 64 True c) ! i)) [0..<n]) =
      take (4 * n) (concat (map (\<lambda>w. be_bytes 4 (unat w)) (h (crypto_md32_final sha256_block_data_order 64 True c))))"
    by (simp add: store_u32_be final_bytes [of _ _ "\<lambda>w. be_bytes 4 (unat w)" 4])
  then show ?thesis using assms(2) unfolding c_def [symmetric] conjunct1 [OF d]
    by (simp add: sha256_final_impl_def Let_def fips_digest_def conjunct1 [OF d])
qed

lemma update_all_len: "md_len (update_all SHA256_Update ms c) = md_len c"
proof (induction ms arbitrary: c)
  case (Cons m ms)
  then show ?case
    by (simp add: SHA256_Update_def crypto_md32_update_def md32_blocks_def md32_count_def Let_def)
qed simp

text \<open>SHA-256 and SHA-224, over a message in any number of pieces of any lengths, give the digests of FIPS 180-4.\<close>

lemma sha256_streams:
  "fst (SHA256_Final (update_all SHA256_Update ms SHA256_Init)) = Some (fips_digest fips_H256 32 (concat ms)) \<and>
   fst (SHA224_Final (update_all SHA224_Update ms SHA224_Init)) = Some (fips_digest fips_H224 28 (concat ms))"
  unfolding SHA256_Init_fips [symmetric]
proof
  have l: "length (h SHA256_Init) = 8" "length (h SHA224_Init) = 8" by (simp_all add: SHA256_Init_def SHA224_Init_def sha256_start_def)
  have s: "SHA256_Init = sha256_start (h SHA256_Init) 32" "SHA224_Init = sha256_start (h SHA224_Init) 28"
    by (simp_all add: SHA256_Init_def SHA224_Init_def sha256_start_def)
  have "md_len SHA256_Init = 32" by (simp add: SHA256_Init_def sha256_start_def)
  then show "fst (SHA256_Final (update_all SHA256_Update ms SHA256_Init)) = Some (fips_digest (h SHA256_Init) 32 (concat ms))"
    using sha256_impl [OF l(1), of 8 ms 32] s(1) by (simp add: SHA256_Final_def update_all_len)
  show "fst (SHA224_Final (update_all SHA224_Update ms SHA224_Init)) = Some (fips_digest (h SHA224_Init) 28 (concat ms))"
    using sha256_impl [OF l(2), of 7 ms 28] s(2) by (simp add: SHA224_Final_def SHA224_Update_def [abs_def])
qed

end
