(* ===== verification/Digest_Sha512.thy ===== *)
theory Digest_Sha512
  imports Fips_Constants
begin

text \<open>
  Model of \<^verbatim>\<open>crypto/fipsmodule/sha/sha512.c\<close>: SHA-384, SHA-512 and SHA-512/256 with the portable block function. The assembly that
  takes its place on some processors is not part of the repository's C code. The reference is FIPS 180-4.
\<close>

section \<open>The block function\<close>

text \<open>The eight variables \<open>a\<close> to \<open>h\<close> are a list; the rounds name them by their numbers, in the order of their arguments.\<close>

definition K512 :: "u64 list" where
  "K512 =
    [0x428a2f98d728ae22, 0x7137449123ef65cd, 0xb5c0fbcfec4d3b2f, 0xe9b5dba58189dbbc,
     0x3956c25bf348b538, 0x59f111f1b605d019, 0x923f82a4af194f9b, 0xab1c5ed5da6d8118,
     0xd807aa98a3030242, 0x12835b0145706fbe, 0x243185be4ee4b28c, 0x550c7dc3d5ffb4e2,
     0x72be5d74f27b896f, 0x80deb1fe3b1696b1, 0x9bdc06a725c71235, 0xc19bf174cf692694,
     0xe49b69c19ef14ad2, 0xefbe4786384f25e3, 0x0fc19dc68b8cd5b5, 0x240ca1cc77ac9c65,
     0x2de92c6f592b0275, 0x4a7484aa6ea6e483, 0x5cb0a9dcbd41fbd4, 0x76f988da831153b5,
     0x983e5152ee66dfab, 0xa831c66d2db43210, 0xb00327c898fb213f, 0xbf597fc7beef0ee4,
     0xc6e00bf33da88fc2, 0xd5a79147930aa725, 0x06ca6351e003826f, 0x142929670a0e6e70,
     0x27b70a8546d22ffc, 0x2e1b21385c26c926, 0x4d2c6dfc5ac42aed, 0x53380d139d95b3df,
     0x650a73548baf63de, 0x766a0abb3c77b2a8, 0x81c2c92e47edaee6, 0x92722c851482353b,
     0xa2bfe8a14cf10364, 0xa81a664bbc423001, 0xc24b8b70d0f89791, 0xc76c51a30654be30,
     0xd192e819d6ef5218, 0xd69906245565a910, 0xf40e35855771202a, 0x106aa07032bbd1b8,
     0x19a4c116b8d2d0c8, 0x1e376c085141ab53, 0x2748774cdf8eeb99, 0x34b0bcb5e19b48a8,
     0x391c0cb3c5c95a63, 0x4ed8aa4ae3418acb, 0x5b9cca4f7763e373, 0x682e6ff3d6b2b8a3,
     0x748f82ee5defb2fc, 0x78a5636f43172f60, 0x84c87814a1f0ab72, 0x8cc702081a6439ec,
     0x90befffa23631e28, 0xa4506cebde82bde9, 0xbef9a3f7b2c67915, 0xc67178f2e372532b,
     0xca273eceea26619c, 0xd186b8c721c0c207, 0xeada7dd6cde0eb1e, 0xf57d4f7fee6ed178,
     0x06f067aa72176fba, 0x0a637dc5a2c898a6, 0x113f9804bef90dae, 0x1b710b35131c471b,
     0x28db77f523047d84, 0x32caab7b40c72493, 0x3c9ebe0a15c9bebc, 0x431d67c49c100d4c,
     0x4cc5d4becb3e42b6, 0x597f299cfc657e2a, 0x5fcb6fab3ad6faec, 0x6c44198c4a475817]"

definition Sigma0 :: "u64 \<Rightarrow> u64" where
  "Sigma0 x = CRYPTO_rotr_u64 x 28 XOR CRYPTO_rotr_u64 x 34 XOR CRYPTO_rotr_u64 x 39"

definition Sigma1 :: "u64 \<Rightarrow> u64" where
  "Sigma1 x = CRYPTO_rotr_u64 x 14 XOR CRYPTO_rotr_u64 x 18 XOR CRYPTO_rotr_u64 x 41"

definition sigma0 :: "u64 \<Rightarrow> u64" where
  "sigma0 x = CRYPTO_rotr_u64 x 1 XOR CRYPTO_rotr_u64 x 8 XOR drop_bit 7 x"

definition sigma1 :: "u64 \<Rightarrow> u64" where
  "sigma1 x = CRYPTO_rotr_u64 x 19 XOR CRYPTO_rotr_u64 x 61 XOR drop_bit 6 x"

definition Ch :: "u64 \<Rightarrow> u64 \<Rightarrow> u64 \<Rightarrow> u64" where
  "Ch x y z = (x AND y) XOR (NOT x AND z)"

definition Maj :: "u64 \<Rightarrow> u64 \<Rightarrow> u64 \<Rightarrow> u64" where
  "Maj x y z = (x AND y) XOR (x AND z) XOR (y AND z)"

fun ROUND_00_15 :: "nat \<Rightarrow> nat list \<Rightarrow> u64 \<Rightarrow> u64 list \<Rightarrow> u64 list" where
  "ROUND_00_15 i [a, b, c, d, e, f, g, h'] T1 v =
     (let T1 = T1 + (v ! h' + Sigma1 (v ! e) + Ch (v ! e) (v ! f) (v ! g) + K512 ! i);
          v = v[h' := Sigma0 (v ! a) + Maj (v ! a) (v ! b) (v ! c)];
          v = v[d := v ! d + T1];
          v = v[h' := v ! h' + T1]
      in v)"
| "ROUND_00_15 i _ T1 v = v"

text \<open>The arguments of the rounds, which repeat after eight of them.\<close>

definition round_args :: "nat list list" where
  "round_args =
    [[0, 1, 2, 3, 4, 5, 6, 7],
     [7, 0, 1, 2, 3, 4, 5, 6],
     [6, 7, 0, 1, 2, 3, 4, 5],
     [5, 6, 7, 0, 1, 2, 3, 4],
     [4, 5, 6, 7, 0, 1, 2, 3],
     [3, 4, 5, 6, 7, 0, 1, 2],
     [2, 3, 4, 5, 6, 7, 0, 1],
     [1, 2, 3, 4, 5, 6, 7, 0]]"

text \<open>A round of the first kind loads its word; one of the second makes it of earlier ones, in place.\<close>

definition load_round :: "u8 list \<Rightarrow> nat \<Rightarrow> u64 list \<times> u64 list \<Rightarrow> u64 list \<times> u64 list" where
  "load_round d i s =
     (case s of (v, X) \<Rightarrow>
        let T1 = CRYPTO_load_u64_be (drop (8 * i) d)
        in (ROUND_00_15 i (round_args ! (i mod 8)) T1 v, X[i := T1]))"

definition ROUND_16_80 :: "nat \<Rightarrow> nat \<Rightarrow> nat list \<Rightarrow> u64 list \<times> u64 list \<Rightarrow> u64 list \<times> u64 list" where
  "ROUND_16_80 i j args s =
     (case s of (v, X) \<Rightarrow>
        let s0 = sigma0 (X ! ((j + 1) mod 16));
            s1 = sigma1 (X ! ((j + 14) mod 16));
            T1 = X ! (j mod 16) + (s0 + s1 + X ! ((j + 9) mod 16))
        in (ROUND_00_15 (i + j) args T1 v, X[j mod 16 := T1]))"

definition sixteen_rounds :: "nat \<Rightarrow> u64 list \<times> u64 list \<Rightarrow> u64 list \<times> u64 list" where
  "sixteen_rounds i s = fold (\<lambda>j. ROUND_16_80 i j (round_args ! (j mod 8))) [0..<16] s"

text \<open>The words \<open>X\<close> are not initialised; the first sixteen rounds set them all.\<close>

definition sha512_block :: "u64 list \<Rightarrow> u8 list \<Rightarrow> u64 list" where
  "sha512_block state d =
     (case fold sixteen_rounds [16, 32, 48, 64] (fold (load_round d) [0..<16] (take 8 state, replicate 16 0)) of
        (v, X) \<Rightarrow> map2 (+) state v)"

fun sha512_block_data_order :: "u64 list \<Rightarrow> u8 list \<Rightarrow> nat \<Rightarrow> u64 list" where
  "sha512_block_data_order state d 0 = state"
| "sha512_block_data_order state d (Suc n) = sha512_block_data_order (sha512_block state d) (drop 128 d) n"

section \<open>The digests\<close>

text \<open>The field \<open>data\<close> is \<open>p\<close> in this code. The initialisation leaves \<open>p\<close> as it is; it is zeros here.\<close>

record sha512_ctx = "u64 md_ctx" +
  md_len :: nat

definition sha512_start :: "u64 list \<Rightarrow> nat \<Rightarrow> sha512_ctx" where
  "sha512_start s n = \<lparr>h = s, Nl = 0, Nh = 0, data = replicate 128 0, num = 0, md_len = n\<rparr>"

definition SHA384_Init :: sha512_ctx where
  "SHA384_Init = sha512_start
     [0xcbbb9d5dc1059ed8, 0x629a292a367cd507, 0x9159015a3070dd17, 0x152fecd8f70e5939,
      0x67332667ffc00b31, 0x8eb44a8768581511, 0xdb0c2e0d64f98fa7, 0x47b5481dbefa4fa4] 48"

definition SHA512_Init :: sha512_ctx where
  "SHA512_Init = sha512_start
     [0x6a09e667f3bcc908, 0xbb67ae8584caa73b, 0x3c6ef372fe94f82b, 0xa54ff53a5f1d36f1,
      0x510e527fade682d1, 0x9b05688c2b3e6c1f, 0x1f83d9abfb41bd6b, 0x5be0cd19137e2179] 64"

definition SHA512_256_Init :: sha512_ctx where
  "SHA512_256_Init = sha512_start
     [0x22312194fc2bf72c, 0x9f555fa3c84c64c2, 0x2393b86b6f53b151, 0x963877195940eabd,
      0x96283ee2a88effe3, 0xbe5e1e2553863992, 0x2b0199fc2c85b8aa, 0x0eb72ddc81c52ca2] 32"

definition SHA512_Transform :: "u8 list \<Rightarrow> sha512_ctx \<Rightarrow> sha512_ctx" where
  "SHA512_Transform block c = c\<lparr>h := sha512_block_data_order (h c) block 1\<rparr>"

definition sha512_count :: "nat \<Rightarrow> sha512_ctx \<Rightarrow> sha512_ctx" where
  "sha512_count len c =
     (let l = Nl c + push_bit 3 (word_of_nat len);
          nh = (if l < Nl c then Nh c + 1 else Nh c)
      in c\<lparr>Nh := nh + word_of_nat (drop_bit 61 len), Nl := l\<rparr>)"

definition sha512_blocks :: "u8 list \<Rightarrow> sha512_ctx \<Rightarrow> sha512_ctx" where
  "sha512_blocks d c =
     (let n = length d div 128;
          (c, d) = (if length d \<ge> 128 then (c\<lparr>h := sha512_block_data_order (h c) (take (n * 128) d) n\<rparr>, drop (n * 128) d) else (c, d))
      in if d \<noteq> [] then c\<lparr>data := store 0 d (data c), num := length d\<rparr> else c)"

definition SHA512_Update :: "u8 list \<Rightarrow> sha512_ctx \<Rightarrow> sha512_ctx" where
  "SHA512_Update d c =
     (if d = [] then c
      else
        let c = sha512_count (length d) c
        in if num c \<noteq> 0 then
             let n = 128 - num c
             in if length d < n then c\<lparr>data := store (num c) d (data c), num := num c + length d\<rparr>
                else
                  let p = store (num c) (take n d) (data c);
                      c = c\<lparr>data := p, num := 0, h := sha512_block_data_order (h c) p 1\<rparr>
                  in sha512_blocks (drop n d) c
           else sha512_blocks d c)"

definition SHA384_Update :: "u8 list \<Rightarrow> sha512_ctx \<Rightarrow> sha512_ctx" where
  "SHA384_Update d c = SHA512_Update d c"

definition SHA512_256_Update :: "u8 list \<Rightarrow> sha512_ctx \<Rightarrow> sha512_ctx" where
  "SHA512_256_Update d c = SHA512_Update d c"

text \<open>The output is not null. The count and the length of the partial block are left as they are.\<close>

definition sha512_final_impl :: "nat \<Rightarrow> sha512_ctx \<Rightarrow> u8 list \<times> sha512_ctx" where
  "sha512_final_impl n c =
     (let p = (data c)[num c := 0x80];
          k = num c + 1;
          (s, p, k) =
            (if k > 128 - 16 then let p = store k (replicate (128 - k) 0) p in (sha512_block_data_order (h c) p 1, p, 0)
             else (h c, p, k));
          p = store k (replicate (128 - 16 - k) 0) p;
          p = store (128 - 16) (CRYPTO_store_u64_be (Nh c)) p;
          p = store (128 - 8) (CRYPTO_store_u64_be (Nl c)) p;
          c = c\<lparr>h := sha512_block_data_order s p 1, data := p\<rparr>
      in (concat (map (\<lambda>i. CRYPTO_store_u64_be (h c ! i)) [0..<n div 8]), c))"

definition SHA512_Final :: "sha512_ctx \<Rightarrow> u8 list \<times> sha512_ctx" where
  "SHA512_Final c = sha512_final_impl (md_len c) c"

definition SHA384_Final :: "sha512_ctx \<Rightarrow> u8 list \<times> sha512_ctx" where
  "SHA384_Final c = sha512_final_impl 48 c"

definition SHA512_256_Final :: "sha512_ctx \<Rightarrow> u8 list \<times> sha512_ctx" where
  "SHA512_256_Final c = sha512_final_impl 32 c"

definition SHA512 :: "u8 list \<Rightarrow> u8 list" where
  "SHA512 d = fst (SHA512_Final (SHA512_Update d SHA512_Init))"

definition SHA384 :: "u8 list \<Rightarrow> u8 list" where
  "SHA384 d = fst (SHA384_Final (SHA384_Update d SHA384_Init))"

definition SHA512_256 :: "u8 list \<Rightarrow> u8 list" where
  "SHA512_256 d = fst (SHA512_256_Final (SHA512_256_Update d SHA512_256_Init))"

section \<open>FIPS 180-4\<close>

text \<open>
  The message schedule of a block, a round and the compression function, with the functions of section 4.1.2 over rotations.
\<close>

fun schedule :: "u8 list \<Rightarrow> nat \<Rightarrow> u64" where
  "schedule b t =
     (if t < 16 then be_msg_word64 b t
      else
        (let x = schedule b (t - 2); y = schedule b (t - 15)
         in (word_rotr 19 x XOR word_rotr 61 x XOR drop_bit 6 x) + schedule b (t - 7) +
            (word_rotr 1 y XOR word_rotr 8 y XOR drop_bit 7 y) + schedule b (t - 16)))"

declare schedule.simps [simp del]

fun fips_round :: "u64 \<Rightarrow> u64 \<Rightarrow> u64 list \<Rightarrow> u64 list" where
  "fips_round k w [a, b, c, d, e, f, g, h'] =
     (let T1 = h' + (word_rotr 14 e XOR word_rotr 18 e XOR word_rotr 41 e) + ((e AND f) XOR (NOT e AND g)) + k + w;
          T2 = (word_rotr 28 a XOR word_rotr 34 a XOR word_rotr 39 a) + ((a AND b) XOR (a AND c) XOR (b AND c))
      in [T1 + T2, a, b, c, d + T1, e, f, g])"
| "fips_round k w s = s"

definition fips_compress :: "u64 list \<Rightarrow> u8 list \<Rightarrow> u64 list" where
  "fips_compress s b = map2 (+) s (fold (\<lambda>t. fips_round (fips_K512 ! t) (schedule b t)) [0..<80] s)"

definition fips_digest :: "u64 list \<Rightarrow> nat \<Rightarrow> u8 list \<Rightarrow> u8 list" where
  "fips_digest start n m =
     take n (concat (map (\<lambda>v. be_bytes 8 (unat v)) (foldl fips_compress start (blocks_of 128 (m @ md_padding 128 16 True (length m))))))"

text \<open>The tables of the code hold the constants of the standard. The integral parts of the roots are listed.\<close>

lemma K512_fips: "fips_K512 = K512"
  unfolding fips_K512_def
  by (rule root_bits [where rs = "[1, 1, 1, 1, 2, 2, 2, 2, 2, 3, 3, 3, 3, 3, 3, 3, 3, 3, 4, 4, 4, 4, 4, 4, 4, 4, 4, 4, 4, 4, 5, 5, 5, 5, 5, 5, 5, 5, 5, 5, 5, 5, 5, 5, 5, 5, 5, 6, 6, 6, 6, 6, 6, 6, 6, 6, 6, 6, 6, 6, 6, 6, 6, 6, 6, 6, 6, 6, 7, 7, 7, 7, 7, 7, 7, 7, 7, 7, 7, 7]"])
    (simp_all add: primes80_def K512_def)

lemma SHA512_Init_fips: "h SHA512_Init = fips_H512" "h SHA384_Init = fips_H384" "h SHA512_256_Init = fips_H512_256"
proof -
  have "fips_H512 = h SHA512_Init"
    unfolding fips_H512_def
    by (rule root_bits [where rs = "[1, 1, 2, 2, 3, 3, 4, 4]"]) (simp_all add: primes80_def SHA512_Init_def sha512_start_def)
  then show "h SHA512_Init = fips_H512" by simp
  show "h SHA384_Init = fips_H384" by (simp add: fips_H384 SHA384_Init_def sha512_start_def)
  show "h SHA512_256_Init = fips_H512_256" by (simp add: SHA512_256_Init_def sha512_start_def fips_H512_256_def)
qed

section \<open>The code computes the digests\<close>

abbreviation view :: "u64 list \<Rightarrow> nat \<Rightarrow> u64 list" where
  "view v i \<equiv> map ((!) v) (round_args ! (i mod 8))"

lemma sha512_rotated_args: "j < 8 \<Longrightarrow> j = 0 \<or> j = 1 \<or> j = 2 \<or> j = 3 \<or> j = 4 \<or> j = 5 \<or> j = 6 \<or> j = (7 :: nat)"
  by linarith

lemma sha512_fips_round:
  "fips_round k w [a, b, c, d, e, f, g, h'] =
     [w + (h' + Sigma1 e + Ch e f g + k) + (Sigma0 a + Maj a b c), a, b, c, d + (w + (h' + Sigma1 e + Ch e f g + k)), e, f, g]"
  by (simp add: Sigma0_def Sigma1_def Ch_def Maj_def rotations64 Let_def add.commute xor.assoc)

declare fips_round.simps [simp del]

lemma sha512_view_0: "length v = 8 \<Longrightarrow> map ((!) v) (round_args ! 0) = v"
  by (rule nth_equalityI) (auto simp: round_args_def less_Suc_eq numeral_eq_Suc)

lemma sha512_round_step:
  assumes "length v = 8"
  shows "view (ROUND_00_15 i (round_args ! (j mod 8)) w v) (j + 1) = fips_round (K512 ! i) w (view v j) \<and>
    length (ROUND_00_15 i (round_args ! (j mod 8)) w v) = 8"
proof -
  obtain a b c d e f g k where v: "v = [a, b, c, d, e, f, g, k]"
    using assms by (auto simp: numeral_eq_Suc length_Suc_conv)
  define m where "m = j mod 8"
  have m: "m < 8" "(j + 1) mod 8 = (m + 1) mod 8" by (simp_all add: m_def mod_Suc_eq)
  show ?thesis
    using sha512_rotated_args [OF m(1)] unfolding m(2) m_def [symmetric]
    by (elim disjE) (simp_all add: v round_args_def Let_def sha512_fips_round add.commute)
qed

text \<open>One round, of either kind.\<close>

definition any_round :: "u8 list \<Rightarrow> nat \<Rightarrow> u64 list \<times> u64 list \<Rightarrow> u64 list \<times> u64 list" where
  "any_round d i = (if i < 16 then load_round d i else ROUND_16_80 0 i (round_args ! (i mod 8)))"

lemma sha512_any_round:
  assumes "128 \<le> length d" and "length v = 8" and "scheduled (schedule d) i X" and "any_round d i (v, X) = (v', X')"
  shows "view v' (i + 1) = fips_round (K512 ! i) (schedule d i) (view v i) \<and> length v' = 8 \<and> scheduled (schedule d) (i + 1) X'"
proof -
  have "v' = ROUND_00_15 i (round_args ! (i mod 8)) (schedule d i) v \<and> X' = X[i mod 16 := schedule d i]"
  proof (cases "i < 16")
    case True
    then have "schedule d i = CRYPTO_load_u64_be (drop (8 * i) d)"
      using assms(1) by (simp add: schedule.simps [of d i] load_msg_word64)
    then show ?thesis using assms(4) True by (simp add: any_round_def load_round_def Let_def)
  next
    case False
    have x: "X ! ((i + 1) mod 16) = schedule d (i - 15)" "X ! ((i + 14) mod 16) = schedule d (i - 2)" "X ! ((i + 9) mod 16) = schedule d (i - 7)"
        "X ! (i mod 16) = schedule d (i - 16)"
      using scheduled_read [OF assms(3), of 15 1] scheduled_read [OF assms(3), of 2 14] scheduled_read [OF assms(3), of 7 9]
        scheduled_read [OF assms(3), of 16 0] False by simp_all
    have "schedule d i = X ! (i mod 16) + (sigma0 (X ! ((i + 1) mod 16)) + sigma1 (X ! ((i + 14) mod 16)) + X ! ((i + 9) mod 16))"
      using False unfolding x by (subst schedule.simps) (simp add: Let_def sigma0_def sigma1_def rotations64 ac_simps)
    then show ?thesis using assms(4) False by (simp add: any_round_def ROUND_16_80_def Let_def)
  qed
  then show ?thesis using sha512_round_step [OF assms(2), of i i "schedule d i"] scheduled_next [OF assms(3)] by simp
qed

lemma sha512_rounds:
  assumes "128 \<le> length d" and "length s = 8"
  shows "case fold (any_round d) [0..<n] (s, replicate 16 0) of
    (v, X) \<Rightarrow> view v n = fold (\<lambda>t. fips_round (K512 ! t) (schedule d t)) [0..<n] s \<and> length v = 8 \<and> scheduled (schedule d) n X"
proof (induction n)
  case 0
  show ?case using assms(2) sha512_view_0 [OF assms(2)] by (simp add: scheduled_0)
next
  case (Suc n)
  obtain v X where f: "fold (any_round d) [0..<n] (s, replicate 16 0) = (v, X)" by (metis prod.exhaust)
  obtain v' X' where r: "any_round d n (v, X) = (v', X')" by (metis prod.exhaust)
  show ?case using Suc sha512_any_round [OF assms(1) _ _ r] f r by simp
qed

lemma sha512_sixteen_rounds: "16 \<le> i \<Longrightarrow> i mod 16 = 0 \<Longrightarrow> sixteen_rounds i = fold (any_round d) [i..<i + 16]"
proof -
  assume i: "16 \<le> i" "i mod 16 = 0"
  have e: "[i..<i + 16] = map ((+) i) [0..<16]" using map_add_upt [of i 16] by (simp add: add.commute [of _ i])
  have "any_round d (i + j) = ROUND_16_80 i j (round_args ! (j mod 8))" for j
  proof -
    have m: "(i + k) mod 16 = k mod 16" for k using i(2) by (simp add: mod_add_eq [symmetric])
    have "i mod 8 = 0" using i(2) by presburger
    then have "(i + j) mod 8 = j mod 8" by (simp add: mod_add_eq [symmetric])
    then show ?thesis using i(1) m [of j] m [of "j + 1"] m [of "j + 14"] m [of "j + 9"]
      by (simp add: any_round_def ROUND_16_80_def fun_eq_iff Let_def add.assoc)
  qed
  then have "fold (\<lambda>j. ROUND_16_80 i j (round_args ! (j mod 8))) [0..<16] s = fold (\<lambda>j. any_round d (i + j)) [0..<16] s" for s
    by (intro fold_cong) auto
  then show ?thesis unfolding e by (simp add: sixteen_rounds_def fold_map fun_eq_iff comp_def)
qed

lemma sha512_block:
  assumes "128 \<le> length d" and "length s = 8"
  shows "sha512_block s d = fips_compress s d"
proof -
  have "fold sixteen_rounds [16, 32, 48, 64] = fold (any_round d) [16..<80]"
  proof -
    have "[16..<80] = [16..<32] @ [32..<48] @ [48..<64] @ [64..<80 :: nat]" by (simp add: upt_rec)
    then show ?thesis by (simp add: sha512_sixteen_rounds [of _ d] comp_assoc)
  qed
  moreover have "fold (load_round d) [0..<16] = fold (any_round d) [0..<16]"
    by (rule ext, rule fold_cong) (auto simp: any_round_def)
  moreover have "[0..<80] = [0..<16] @ [16..<80 :: nat]" by (rule upt_split) simp_all
  ultimately have "fold sixteen_rounds [16, 32, 48, 64] (fold (load_round d) [0..<16] (s, replicate 16 0)) =
      fold (any_round d) [0..<80] (s, replicate 16 0)" by simp
  moreover obtain v X where r: "fold (any_round d) [0..<80] (s, replicate 16 0) = (v, X)" by (metis prod.exhaust)
  moreover have "v = fold (\<lambda>t. fips_round (K512 ! t) (schedule d t)) [0..<80] s"
    using sha512_rounds [OF assms, of 80] r sha512_view_0 [of v] by simp
  ultimately show ?thesis using assms(2) unfolding sha512_block_def fips_compress_def K512_fips by simp
qed

lemma sha512_block_first: "128 \<le> length d \<Longrightarrow> sha512_block s (d @ e) = sha512_block s d"
proof -
  assume d: "128 \<le> length d"
  have "load_round (d @ e) i = load_round d i" if "i < 16" for i
    using that d by (auto simp: load_round_def load_msg_word64 msg_word64_first fun_eq_iff simp del: drop_append)
  then have "fold (load_round (d @ e)) [0..<16] x = fold (load_round d) [0..<16] x" for x by (intro fold_cong) auto
  then show ?thesis by (simp add: sha512_block_def)
qed

text \<open>The block functions of the collector.\<close>

lemma sha512_length_fips_round: "length (fips_round k w s) = length s"
  by (cases "(k, w, s)" rule: fips_round.cases) (simp_all add: fips_round.simps Let_def)

lemma sha512_length_fips_compress: "length s = 8 \<Longrightarrow> length (fips_compress s b) = 8"
proof -
  have "length (fold (\<lambda>t. fips_round (fips_K512 ! t) (schedule b t)) ts s) = length s" for ts
    by (induction ts arbitrary: s) (simp_all add: sha512_length_fips_round)
  then show "length s = 8 \<Longrightarrow> length (fips_compress s b) = 8" by (simp add: fips_compress_def)
qed

interpretation sha512: compress_iteration sha512_block_data_order 128 8 fips_compress
proof
  fix s :: "u64 list" and b :: "u8 list"
  assume "length s = 8" "length b = 128"
  then show "sha512_block_data_order s b 1 = fips_compress s b \<and> length (fips_compress s b) = 8"
    by (simp add: sha512_block sha512_length_fips_compress)
next
  fix n s and b bs :: "u8 list"
  assume "0 < n" "length b = 128" "length bs = n * 128"
  then show "sha512_block_data_order s (b @ bs) (Suc n) = sha512_block_data_order (sha512_block_data_order s b 1) bs n"
    by (simp add: sha512_block_first)
qed simp

text \<open>The streaming code: the same steps as the collector's, with a count of 128 bits.\<close>

definition counts128 :: "u8 list \<Rightarrow> (u64, 'a) md_ctx_scheme \<Rightarrow> bool" where
  "counts128 m c \<longleftrightarrow> Nl c = word_of_nat (8 * length m) \<and> Nh c = word_of_nat (8 * length m div 2 ^ 64)"

lemma sha512_count:
  assumes "counts128 m c"
  shows "counts128 (m @ inp) (sha512_count (length inp) c) \<and> h (sha512_count (length inp) c) = h c \<and> data (sha512_count (length inp) c) = data c \<and>
    num (sha512_count (length inp) c) = num c"
proof -
  define a where "a = 8 * length m"
  have e: "8 * length (m @ inp) = a + 8 * length inp" by (simp add: a_def)
  have "Nl c = word_of_nat a" "Nh c = word_of_nat (a div 2 ^ LENGTH(64))" using assms unfolding counts128_def a_def by simp_all
  define l where "l = Nl c + push_bit 3 (word_of_nat (length inp))"
  note b = bit_count [OF \<open>Nl c = _\<close> \<open>Nh c = _\<close>, of "length inp", folded l_def]
  show ?thesis using conjunct2 [OF b] unfolding sha512_count_def Let_def counts128_def e l_def [symmetric]
    by (simp add: conjunct1 [OF b, symmetric] del: of_nat_add of_nat_mult)
qed

lemma sha512_blocks: "sha512_blocks d c = md32_blocks sha512_block_data_order 128 d c"
  by (cases "128 \<le> length d") (simp_all add: sha512_blocks_def md32_blocks_def Let_def div_greater_zero_iff)

lemma SHA512_Update:
  assumes "sha512.holds s m c" and "counts128 m c"
  shows "sha512.holds s (m @ d) (SHA512_Update d c) \<and> counts128 (m @ d) (SHA512_Update d c)"
proof -
  define c1 where "c1 = sha512_count (length d) c"
  have k: "counts128 (m @ d) c1" "h c1 = h c" "data c1 = data c" "num c1 = num c"
    using sha512_count [OF assms(2), of d] by (simp_all add: c1_def)
  have h1: "sha512.holds s m c1" using assms(1) unfolding sha512.holds_def k(2-4) .
  have b: "counts128 x (md32_blocks sha512_block_data_order 128 i e) = counts128 x e" for x i and e :: sha512_ctx
    by (simp add: md32_blocks_def Let_def counts128_def)
  define n where "n = 128 - num c1"
  have "num c1 < 128" using h1 by (simp add: sha512.holds_def)
  then consider "d = []" | "d \<noteq> []" "num c1 = 0" | "d \<noteq> []" "num c1 \<noteq> 0" "length d < n" | "d \<noteq> []" "num c1 \<noteq> 0" "128 \<le> length d + num c1" "\<not> length d < n"
    unfolding n_def by linarith
  then show ?thesis
  proof cases
    case 1
    then show ?thesis using assms by (simp add: SHA512_Update_def)
  next
    case 2
    then have "SHA512_Update d c = md32_blocks sha512_block_data_order 128 d c1"
      by (simp add: SHA512_Update_def c1_def [symmetric] sha512_blocks)
    then show ?thesis using sha512.md32_blocks [OF h1 2(2), of d] b k(1) by simp
  next
    case 3
    define c2 where "c2 = c1\<lparr>data := store (num c1) d (data c1), num := num c1 + length d\<rparr>"
    have "SHA512_Update d c = c2" using 3 by (simp add: SHA512_Update_def c1_def [symmetric] c2_def n_def Let_def)
    moreover have "sha512.holds s (m @ d) c2" unfolding c2_def by (rule sha512.holds_more [OF h1]) (use 3 in \<open>simp add: n_def\<close>)
    ultimately show ?thesis using k(1) by (simp add: counts128_def c2_def)
  next
    case 4
    define p where "p = store (num c1) (take n d) (data c1)"
    define c2 where "c2 = c1\<lparr>h := sha512_block_data_order (h c1) p 1, num := 0, data := p\<rparr>"
    have "length p = 128" using h1 4 by (simp add: p_def length_store n_def sha512.holds_def)
    then have "sha512.holds s (m @ take n d) c2"
      using sha512.holds_fill [OF h1 4(3), of p] unfolding c2_def p_def n_def by simp
    then have "sha512.holds s ((m @ take n d) @ drop n d) (md32_blocks sha512_block_data_order 128 (drop n d) c2)"
      by (rule sha512.md32_blocks) (simp add: c2_def)
    moreover have "c1\<lparr>data := p, num := 0, h := sha512_block_data_order (h c1) p 1\<rparr> = c2" by (cases c1) (simp add: c2_def)
    then have "SHA512_Update d c = md32_blocks sha512_block_data_order 128 (drop n d) c2"
      using 4 unfolding SHA512_Update_def c1_def [symmetric] Let_def n_def p_def sha512_blocks by simp
    moreover have "counts128 (m @ d) c2" using k(1) by (simp add: counts128_def c2_def)
    ultimately show ?thesis using b by simp
  qed
qed

lemma sha512_update_all:
  "sha512.holds s m c \<Longrightarrow> counts128 m c \<Longrightarrow>
     sha512.holds s (m @ concat ms) (update_all SHA512_Update ms c) \<and> counts128 (m @ concat ms) (update_all SHA512_Update ms c)"
proof (induction ms arbitrary: m c)
  case (Cons x ms)
  then show ?case using SHA512_Update [OF Cons.prems, of x] Cons.IH [of "m @ x"] by simp
qed simp

lemma sha512_update_len: "md_len (update_all SHA512_Update ms c) = md_len c"
proof (induction ms arbitrary: c)
  case (Cons m ms)
  then show ?case by (simp add: SHA512_Update_def sha512_blocks_def sha512_count_def Let_def)
qed simp

lemma sha512_final:
  assumes "sha512.holds s m c" and "counts128 m c" and "length s = 8" and "n \<le> 8"
  shows "fst (sha512_final_impl (8 * n) c) = fips_digest s (8 * n) m"
proof -
  define L where "L = CRYPTO_store_u64_be (Nh c) @ CRYPTO_store_u64_be (Nl c)"
  have c: "Nl c = word_of_nat (8 * length m)" "Nh c = word_of_nat (8 * length m div 2 ^ 64)" using assms(2) unfolding counts128_def by blast+
  have u: "CRYPTO_store_u64_be (word_of_nat v) = be_bytes 8 v" for v
    unfolding store_u64_be by (subst (2) be_bytes_mod [symmetric]) (simp add: unsigned_of_nat take_bit_eq_mod)
  have split: "be_bytes 16 v = be_bytes 8 (v div 2 ^ 64) @ be_bytes 8 v" for v using be_bytes_add [of 8 8 v] by simp
  have L: "length L = 16" "md_padding 128 16 True (length m) = md_pad 128 (length m) L"
    unfolding L_def c u md_padding_def split by simp_all
  have two: "store 120 (CRYPTO_store_u64_be (Nl c)) (store 112 (CRYPTO_store_u64_be (Nh c)) p) = store 112 L p"
    if "length p = 128" for p using that by (simp add: L_def store_def store_u64_be)
  have d: "length (data c) = 128" "num c < 128" using assms(1) by (simp_all add: sha512.holds_def)
  define H where "H = h (snd (sha512_final_impl (8 * n) c))"
  have "H = md_absorb sha512_block_data_order 128 s (m @ md_padding 128 16 True (length m))"
    using sha512.final_blocks [OF assms(1), of L] d unfolding H_def L(2) L(1) sha512_final_impl_def
    by (simp add: Let_def two length_store L(1) split: prod.splits if_splits)
  then have H: "H = foldl fips_compress s (blocks_of 128 (m @ md_padding 128 16 True (length m)))" "length H = 8"
    using sha512.absorb_compress [OF assms(3), of "m @ md_padding 128 16 True (length m)"] by simp_all
  have "fst (sha512_final_impl (8 * n) c) = concat (map (\<lambda>i. CRYPTO_store_u64_be (H ! i)) [0..<n])"
    unfolding H_def by (simp add: sha512_final_impl_def Let_def split: prod.splits)
  also have "\<dots> = take (8 * n) (concat (map (\<lambda>w. be_bytes 8 (unat w)) H))"
    using final_bytes [of n H "\<lambda>w. be_bytes 8 (unat w)" 8] H(2) assms(4) by (simp add: store_u64_be)
  finally show ?thesis unfolding fips_digest_def H(1) .
qed

text \<open>SHA-512, SHA-384 and SHA-512/256, over a message in any number of pieces of any lengths, give the digests of FIPS 180-4.\<close>

lemma sha512_streams:
  "fst (SHA512_Final (update_all SHA512_Update ms SHA512_Init)) = fips_digest fips_H512 64 (concat ms) \<and>
   fst (SHA384_Final (update_all SHA384_Update ms SHA384_Init)) = fips_digest fips_H384 48 (concat ms) \<and>
   fst (SHA512_256_Final (update_all SHA512_256_Update ms SHA512_256_Init)) = fips_digest fips_H512_256 32 (concat ms)"
proof -
  have r: "fst (sha512_final_impl (8 * n) (update_all SHA512_Update ms (sha512_start s k))) = fips_digest s (8 * n) (concat ms)"
    if "length s = 8" "n \<le> 8" for s n k
  proof -
    have "sha512.holds s [] (sha512_start s k)" "counts128 [] (sha512_start s k)"
      using absorb_less [of "[]" 128 sha512_block_data_order s] by (simp_all add: sha512.holds_def counts128_def sha512_start_def rest_of_def)
    from sha512_update_all [OF this, of ms] show ?thesis using that by (auto intro: sha512_final)
  qed
  have l: "length (h SHA512_Init) = 8" "length (h SHA384_Init) = 8" "length (h SHA512_256_Init) = 8"
    and s: "SHA512_Init = sha512_start (h SHA512_Init) 64" "SHA384_Init = sha512_start (h SHA384_Init) 48" "SHA512_256_Init = sha512_start (h SHA512_256_Init) 32"
    and n: "md_len SHA512_Init = 64"
    by (simp_all add: SHA512_Init_def SHA384_Init_def SHA512_256_Init_def sha512_start_def)
  show ?thesis
    using r [OF l(1), of 8 64, folded s(1)] r [OF l(2), of 6 48, folded s(2)] r [OF l(3), of 4 32, folded s(3)]
    by (simp add: SHA512_Final_def SHA384_Final_def SHA512_256_Final_def SHA384_Update_def [abs_def] SHA512_256_Update_def [abs_def] sha512_update_len n SHA512_Init_fips)
qed

end
