(* ===== verification/Digest_Md5.thy ===== *)
theory Digest_Md5
  imports Digest_Md32
begin

text \<open>
  Model of \<^verbatim>\<open>crypto/fipsmodule/md5/md5.c\<close>. The reference is RFC 1321.
\<close>

section \<open>The block function\<close>

definition md5_F :: "u32 \<Rightarrow> u32 \<Rightarrow> u32 \<Rightarrow> u32" where
  "md5_F b c d = ((c XOR d) AND b) XOR d"

definition md5_G :: "u32 \<Rightarrow> u32 \<Rightarrow> u32 \<Rightarrow> u32" where
  "md5_G b c d = ((b XOR c) AND d) XOR c"

definition md5_H :: "u32 \<Rightarrow> u32 \<Rightarrow> u32 \<Rightarrow> u32" where
  "md5_H b c d = b XOR c XOR d"

definition md5_I :: "u32 \<Rightarrow> u32 \<Rightarrow> u32 \<Rightarrow> u32" where
  "md5_I b c d = (NOT d OR b) XOR c"

definition md5_f :: "nat \<Rightarrow> u32 \<Rightarrow> u32 \<Rightarrow> u32 \<Rightarrow> u32" where
  "md5_f r = [md5_F, md5_G, md5_H, md5_I] ! r"

text \<open>A step, over the number of its round. The variables \<open>A\<close> to \<open>D\<close> are a list, which the steps name by their numbers.\<close>

fun md5_R :: "nat \<Rightarrow> nat list \<Rightarrow> u32 \<Rightarrow> nat \<Rightarrow> u32 \<Rightarrow> u32 list \<Rightarrow> u32 list" where
  "md5_R r [a, b, c, d] k s t v =
     (let v = v[a := v ! a + (k + t + md5_f r (v ! b) (v ! c) (v ! d))];
          v = v[a := CRYPTO_rotl_u32 (v ! a) s]
      in v[a := v ! a + v ! b])"
| "md5_R r _ k s t v = v"

text \<open>The steps in the order of the code: the round, the variables, the word, the rotation and the constant.\<close>

definition md5_calls :: "(nat \<times> nat list \<times> nat \<times> nat \<times> u32) list" where
  "md5_calls =
    [(0, [0, 1, 2, 3], 0, 7, 0xd76aa478), (0, [3, 0, 1, 2], 1, 12, 0xe8c7b756),
     (0, [2, 3, 0, 1], 2, 17, 0x242070db), (0, [1, 2, 3, 0], 3, 22, 0xc1bdceee),
     (0, [0, 1, 2, 3], 4, 7, 0xf57c0faf), (0, [3, 0, 1, 2], 5, 12, 0x4787c62a),
     (0, [2, 3, 0, 1], 6, 17, 0xa8304613), (0, [1, 2, 3, 0], 7, 22, 0xfd469501),
     (0, [0, 1, 2, 3], 8, 7, 0x698098d8), (0, [3, 0, 1, 2], 9, 12, 0x8b44f7af),
     (0, [2, 3, 0, 1], 10, 17, 0xffff5bb1), (0, [1, 2, 3, 0], 11, 22, 0x895cd7be),
     (0, [0, 1, 2, 3], 12, 7, 0x6b901122), (0, [3, 0, 1, 2], 13, 12, 0xfd987193),
     (0, [2, 3, 0, 1], 14, 17, 0xa679438e), (0, [1, 2, 3, 0], 15, 22, 0x49b40821),
     (1, [0, 1, 2, 3], 1, 5, 0xf61e2562), (1, [3, 0, 1, 2], 6, 9, 0xc040b340),
     (1, [2, 3, 0, 1], 11, 14, 0x265e5a51), (1, [1, 2, 3, 0], 0, 20, 0xe9b6c7aa),
     (1, [0, 1, 2, 3], 5, 5, 0xd62f105d), (1, [3, 0, 1, 2], 10, 9, 0x02441453),
     (1, [2, 3, 0, 1], 15, 14, 0xd8a1e681), (1, [1, 2, 3, 0], 4, 20, 0xe7d3fbc8),
     (1, [0, 1, 2, 3], 9, 5, 0x21e1cde6), (1, [3, 0, 1, 2], 14, 9, 0xc33707d6),
     (1, [2, 3, 0, 1], 3, 14, 0xf4d50d87), (1, [1, 2, 3, 0], 8, 20, 0x455a14ed),
     (1, [0, 1, 2, 3], 13, 5, 0xa9e3e905), (1, [3, 0, 1, 2], 2, 9, 0xfcefa3f8),
     (1, [2, 3, 0, 1], 7, 14, 0x676f02d9), (1, [1, 2, 3, 0], 12, 20, 0x8d2a4c8a),
     (2, [0, 1, 2, 3], 5, 4, 0xfffa3942), (2, [3, 0, 1, 2], 8, 11, 0x8771f681),
     (2, [2, 3, 0, 1], 11, 16, 0x6d9d6122), (2, [1, 2, 3, 0], 14, 23, 0xfde5380c),
     (2, [0, 1, 2, 3], 1, 4, 0xa4beea44), (2, [3, 0, 1, 2], 4, 11, 0x4bdecfa9),
     (2, [2, 3, 0, 1], 7, 16, 0xf6bb4b60), (2, [1, 2, 3, 0], 10, 23, 0xbebfbc70),
     (2, [0, 1, 2, 3], 13, 4, 0x289b7ec6), (2, [3, 0, 1, 2], 0, 11, 0xeaa127fa),
     (2, [2, 3, 0, 1], 3, 16, 0xd4ef3085), (2, [1, 2, 3, 0], 6, 23, 0x04881d05),
     (2, [0, 1, 2, 3], 9, 4, 0xd9d4d039), (2, [3, 0, 1, 2], 12, 11, 0xe6db99e5),
     (2, [2, 3, 0, 1], 15, 16, 0x1fa27cf8), (2, [1, 2, 3, 0], 2, 23, 0xc4ac5665),
     (3, [0, 1, 2, 3], 0, 6, 0xf4292244), (3, [3, 0, 1, 2], 7, 10, 0x432aff97),
     (3, [2, 3, 0, 1], 14, 15, 0xab9423a7), (3, [1, 2, 3, 0], 5, 21, 0xfc93a039),
     (3, [0, 1, 2, 3], 12, 6, 0x655b59c3), (3, [3, 0, 1, 2], 3, 10, 0x8f0ccc92),
     (3, [2, 3, 0, 1], 10, 15, 0xffeff47d), (3, [1, 2, 3, 0], 1, 21, 0x85845dd1),
     (3, [0, 1, 2, 3], 8, 6, 0x6fa87e4f), (3, [3, 0, 1, 2], 15, 10, 0xfe2ce6e0),
     (3, [2, 3, 0, 1], 6, 15, 0xa3014314), (3, [1, 2, 3, 0], 13, 21, 0x4e0811a1),
     (3, [0, 1, 2, 3], 4, 6, 0xf7537e82), (3, [3, 0, 1, 2], 11, 10, 0xbd3af235),
     (3, [2, 3, 0, 1], 2, 15, 0x2ad7d2bb), (3, [1, 2, 3, 0], 9, 21, 0xeb86d391)]"

definition md5_call :: "u32 list \<Rightarrow> nat \<times> nat list \<times> nat \<times> nat \<times> u32 \<Rightarrow> u32 list \<Rightarrow> u32 list" where
  "md5_call X call = (case call of (r, args, k, s, t) \<Rightarrow> md5_R r args (X ! k) s t)"

definition md5_block :: "u32 list \<Rightarrow> u8 list \<Rightarrow> u32 list" where
  "md5_block state d =
     (let X = map (\<lambda>i. CRYPTO_load_u32_le (drop (4 * i) d)) [0..<16]
      in map2 (+) state (fold (md5_call X) md5_calls (take 4 state)))"

fun md5_block_data_order :: "u32 list \<Rightarrow> u8 list \<Rightarrow> nat \<Rightarrow> u32 list" where
  "md5_block_data_order state d 0 = state"
| "md5_block_data_order state d (Suc n) = md5_block_data_order (md5_block state d) (drop 64 d) n"

section \<open>The digest\<close>

type_synonym md5_ctx = md32_ctx

definition MD5_Init :: md5_ctx where
  "MD5_Init = \<lparr>h = [0x67452301, 0xefcdab89, 0x98badcfe, 0x10325476], Nl = 0, Nh = 0, data = replicate 64 0, num = 0\<rparr>"

definition MD5_Transform :: "u8 list \<Rightarrow> md5_ctx \<Rightarrow> md5_ctx" where
  "MD5_Transform d c = c\<lparr>h := md5_block_data_order (h c) d 1\<rparr>"

definition MD5_Update :: "u8 list \<Rightarrow> md5_ctx \<Rightarrow> md5_ctx" where
  "MD5_Update d c = crypto_md32_update md5_block_data_order 64 d c"

definition MD5_Final :: "md5_ctx \<Rightarrow> u8 list \<times> md5_ctx" where
  "MD5_Final c =
     (let c = crypto_md32_final md5_block_data_order 64 False c
      in (CRYPTO_store_u32_le (h c ! 0) @ CRYPTO_store_u32_le (h c ! 1) @ CRYPTO_store_u32_le (h c ! 2) @ CRYPTO_store_u32_le (h c ! 3), c))"

definition MD5 :: "u8 list \<Rightarrow> u8 list" where
  "MD5 d = fst (MD5_Final (MD5_Update d MD5_Init))"

section \<open>RFC 1321\<close>

definition md5_spec_f :: "nat \<Rightarrow> u32 \<Rightarrow> u32 \<Rightarrow> u32 \<Rightarrow> u32" where
  "md5_spec_f r x y z =
     (if r = 0 then (x AND y) OR (NOT x AND z)
      else if r = 1 then (x AND z) OR (y AND NOT z)
      else if r = 2 then x XOR y XOR z
      else y XOR (x OR NOT z))"

definition md5_word :: "nat \<Rightarrow> nat" where
  "md5_word i = (if i < 16 then i else if i < 32 then 5 * i + 1 else if i < 48 then 3 * i + 5 else 7 * i) mod 16"

definition md5_shift :: "nat \<Rightarrow> nat" where
  "md5_shift i = [[7, 12, 17, 22], [5, 9, 14, 20], [4, 11, 16, 23], [6, 10, 15, 21]] ! (i div 16) ! (i mod 4)"

text \<open>The table \<open>T\<close> of the RFC; its entries are shown in \<open>Digest_Md5_Sines\<close> to be the sines that the RFC defines them as.\<close>

definition md5_T :: "u32 list" where
  "md5_T =
    [0xd76aa478, 0xe8c7b756, 0x242070db, 0xc1bdceee, 0xf57c0faf, 0x4787c62a, 0xa8304613, 0xfd469501,
     0x698098d8, 0x8b44f7af, 0xffff5bb1, 0x895cd7be, 0x6b901122, 0xfd987193, 0xa679438e, 0x49b40821,
     0xf61e2562, 0xc040b340, 0x265e5a51, 0xe9b6c7aa, 0xd62f105d, 0x02441453, 0xd8a1e681, 0xe7d3fbc8,
     0x21e1cde6, 0xc33707d6, 0xf4d50d87, 0x455a14ed, 0xa9e3e905, 0xfcefa3f8, 0x676f02d9, 0x8d2a4c8a,
     0xfffa3942, 0x8771f681, 0x6d9d6122, 0xfde5380c, 0xa4beea44, 0x4bdecfa9, 0xf6bb4b60, 0xbebfbc70,
     0x289b7ec6, 0xeaa127fa, 0xd4ef3085, 0x04881d05, 0xd9d4d039, 0xe6db99e5, 0x1fa27cf8, 0xc4ac5665,
     0xf4292244, 0x432aff97, 0xab9423a7, 0xfc93a039, 0x655b59c3, 0x8f0ccc92, 0xffeff47d, 0x85845dd1,
     0x6fa87e4f, 0xfe2ce6e0, 0xa3014314, 0x4e0811a1, 0xf7537e82, 0xbd3af235, 0x2ad7d2bb, 0xeb86d391]"

definition md5_const :: "nat \<Rightarrow> u32" where
  "md5_const i = md5_T ! i"

fun md5_round :: "nat \<Rightarrow> u32 \<Rightarrow> u32 list \<Rightarrow> u32 list" where
  "md5_round i w [a, b, c, d] = [d, b + word_rotl (md5_shift i) (a + md5_spec_f (i div 16) b c d + w + md5_const i), b, c]"
| "md5_round i w s = s"

definition md5_compress :: "u32 list \<Rightarrow> u8 list \<Rightarrow> u32 list" where
  "md5_compress s b = map2 (+) s (fold (\<lambda>i. md5_round i (le_msg_word b (md5_word i))) [0..<64] s)"

definition md5_digest :: "u8 list \<Rightarrow> u8 list" where
  "md5_digest m =
     concat (map (\<lambda>v. rev (be_bytes 4 (unat v)))
       (foldl md5_compress [0x67452301, 0xefcdab89, 0x98badcfe, 0x10325476] (blocks_of 64 (m @ md_padding 64 8 False (length m)))))"

section \<open>The code computes it\<close>

lemma md5_functions: "md5_F b c d = (b AND c) OR (NOT b AND d)" "md5_G b c d = (b AND d) OR (c AND NOT d)" "md5_I b c d = c XOR (b OR NOT d)"
  by (rule bit_word_eqI; auto simp: md5_F_def md5_G_def md5_H_def md5_I_def bit_simps)+

lemma md5_f: "r < 4 \<Longrightarrow> md5_f r b c d = md5_spec_f r b c d"
proof -
  assume "r < 4"
  then have "r = 0 \<or> r = 1 \<or> r = 2 \<or> r = 3" by linarith
  then show ?thesis by (elim disjE) (simp_all add: md5_f_def md5_spec_f_def md5_functions md5_H_def)
qed

lemma md5_calls:
  "md5_calls =
     map (\<lambda>i. (i div 16, [[0, 1, 2, 3], [3, 0, 1, 2], [2, 3, 0, 1], [1, 2, 3, 0]] ! (i mod 4), md5_word i, md5_shift i, md5_const i)) [0..<64]"
  by (simp add: md5_calls_def md5_word_def md5_shift_def md5_const_def md5_T_def upt_rec)

lemma length_md5_calls: "length md5_calls = 64"
  by (simp add: md5_calls_def)

lemma nth_md5_calls:
  "i < 64 \<Longrightarrow>
    md5_calls ! i = (i div 16, [[0, 1, 2, 3], [3, 0, 1, 2], [2, 3, 0, 1], [1, 2, 3, 0]] ! (i mod 4), md5_word i, md5_shift i, md5_const i)"
  by (simp add: md5_calls)

abbreviation md5_view :: "u32 list \<Rightarrow> nat \<Rightarrow> u32 list" where
  "md5_view v i \<equiv> map ((!) v) ([[0, 1, 2, 3], [3, 0, 1, 2], [2, 3, 0, 1], [1, 2, 3, 0]] ! (i mod 4))"

lemma md5_shift_less: "i < 64 \<Longrightarrow> md5_shift i < 32"
proof -
  assume "i < 64"
  then have "i div 16 = 0 \<or> i div 16 = 1 \<or> i div 16 = 2 \<or> i div 16 = 3" "i mod 4 = 0 \<or> i mod 4 = 1 \<or> i mod 4 = 2 \<or> i mod 4 = 3" by linarith+
  then show ?thesis unfolding md5_shift_def by (elim disjE) simp_all
qed

lemma md5_step:
  assumes "length v = 4" and "i < 64"
  shows "md5_view (md5_R (i div 16) ([[0, 1, 2, 3], [3, 0, 1, 2], [2, 3, 0, 1], [1, 2, 3, 0]] ! (i mod 4)) w (md5_shift i) (md5_const i) v) (i + 1) =
      md5_round i w (md5_view v i) \<and>
    length (md5_R (i div 16) ([[0, 1, 2, 3], [3, 0, 1, 2], [2, 3, 0, 1], [1, 2, 3, 0]] ! (i mod 4)) w (md5_shift i) (md5_const i) v) = 4"
proof -
  obtain a b c d where v: "v = [a, b, c, d]" using assms by (auto simp: numeral_eq_Suc length_Suc_conv)
  have r: "CRYPTO_rotl_u32 x (md5_shift i) = word_rotl (md5_shift i) x" for x using rotations32 [OF md5_shift_less [OF assms(2)]] by simp
  have f: "md5_f (i div 16) x y z = md5_spec_f (i div 16) x y z" for x y z by (rule md5_f) (use assms(2) in linarith)
  define m where "m = i mod 4"
  have m: "m = 0 \<or> m = 1 \<or> m = 2 \<or> m = 3" "(i + 1) mod 4 = (m + 1) mod 4" unfolding m_def by (linarith, simp add: mod_Suc_eq)
  show ?thesis
    using m(1) unfolding m(2) m_def [symmetric] by (elim disjE) (simp_all add: v Let_def r f add_ac)
qed

lemma md5_steps:
  assumes "length s = 4" and "n \<le> 64"
  shows "(let v = fold (\<lambda>i. md5_call X (md5_calls ! i)) [0..<n] s
    in md5_view v n = fold (\<lambda>i. md5_round i (X ! md5_word i)) [0..<n] s \<and> length v = 4)"
  using assms(2)
proof (induction n)
  case 0
  obtain a b c d where "s = [a, b, c, d]" using assms by (auto simp: numeral_eq_Suc length_Suc_conv)
  then show ?case by simp
next
  case (Suc n)
  define v where "v = fold (\<lambda>i. md5_call X (md5_calls ! i)) [0..<n] s"
  have v: "md5_view v n = fold (\<lambda>i. md5_round i (X ! md5_word i)) [0..<n] s" "length v = 4"
    using Suc by (simp_all add: v_def Let_def)
  note nth_md5_calls [of n]
  then show ?case
    using md5_step [OF v(2), of n "X ! md5_word n"] Suc.prems v(1) by (simp add: v_def md5_call_def Let_def)
qed

lemma md5_block:
  assumes "64 \<le> length d" and "length s = 4"
  shows "md5_block s d = md5_compress s d"
proof -
  define X where "X = map (\<lambda>i. CRYPTO_load_u32_le (drop (4 * i) d)) [0..<16]"
  have w: "md5_word i < 16" if "i < 64" for i using that by (simp add: md5_word_def)
  have X: "X ! md5_word i = le_msg_word d (md5_word i)" if "i < 64" for i
    using w [OF that] assms(1) by (simp add: X_def load_msg_word)
  have "md5_calls = map ((!) md5_calls) [0..<64]" using map_nth [of md5_calls] by (simp add: length_md5_calls)
  then have "fold (md5_call X) md5_calls s = fold (\<lambda>i. md5_call X (md5_calls ! i)) [0..<64] s"
    by (metis (no_types, lifting) fold_map comp_def fold_cong)
  moreover have "fold (\<lambda>i. md5_round i (X ! md5_word i)) [0..<64] s = fold (\<lambda>i. md5_round i (le_msg_word d (md5_word i))) [0..<64] s"
    using X by (intro fold_cong) auto
  ultimately have e: "fold (md5_call X) md5_calls s = v" and r: "md5_view v 64 = fold (\<lambda>i. md5_round i (le_msg_word d (md5_word i))) [0..<64] s"
      "length v = 4" if "v = fold (\<lambda>i. md5_call X (md5_calls ! i)) [0..<64] s" for v
    using md5_steps [OF assms(2), of 64 X] that by (simp_all add: Let_def)
  obtain v where v: "v = fold (\<lambda>i. md5_call X (md5_calls ! i)) [0..<64] s" by blast
  obtain a b c d where "v = [a, b, c, d]" using r(2) [OF v] by (auto simp: numeral_eq_Suc length_Suc_conv)
  then have "md5_view v 64 = v" by simp
  then show ?thesis
    using e [OF v] r(1) [OF v] assms(2) by (simp add: md5_block_def md5_compress_def X_def [symmetric] Let_def)
qed

lemma md5_block_first: "64 \<le> length d \<Longrightarrow> md5_block s (d @ e) = md5_block s d"
proof -
  assume d: "64 \<le> length d"
  have "map (\<lambda>i. CRYPTO_load_u32_le (drop (4 * i) (d @ e))) [0..<16] = map (\<lambda>i. CRYPTO_load_u32_le (drop (4 * i) d)) [0..<16]"
    using d by (auto simp: load_msg_word msg_word_first simp del: drop_append)
  then show ?thesis by (simp only: md5_block_def)
qed

lemma length_md5_compress: "length s = 4 \<Longrightarrow> length (md5_compress s b) = 4"
proof -
  have "length (md5_round i w s) = length s" for i w s by (cases "(i, w, s)" rule: md5_round.cases) simp_all
  then have "length (fold (\<lambda>i. md5_round i (le_msg_word b (md5_word i))) ts s) = length s" for ts
    by (induction ts arbitrary: s) simp_all
  then show "length s = 4 \<Longrightarrow> length (md5_compress s b) = 4" by (simp add: md5_compress_def)
qed

interpretation md5: md32_compress md5_block_data_order 64 4 md5_compress
proof
  fix s :: "u32 list" and b :: "u8 list"
  assume "length s = 4" "length b = 64"
  then show "md5_block_data_order s b 1 = md5_compress s b \<and> length (md5_compress s b) = 4"
    by (simp add: md5_block length_md5_compress)
next
  fix n s and b bs :: "u8 list"
  assume "0 < n" "length b = 64" "length bs = n * 64"
  then show "md5_block_data_order s (b @ bs) (Suc n) = md5_block_data_order (md5_block_data_order s b 1) bs n"
    by (simp add: md5_block_first)
qed simp

text \<open>MD5, over a message in any number of pieces of any lengths, gives the digest of RFC 1321.\<close>

lemma md5_streams: "fst (MD5_Final (update_all MD5_Update ms MD5_Init)) = md5_digest (concat ms)"
proof -
  define c where "c = update_all MD5_Update ms MD5_Init"
  define f where "f = crypto_md32_final md5_block_data_order 64 False c"
  have i: "num MD5_Init = 0" "Nl MD5_Init = 0" "Nh MD5_Init = 0" "length (data MD5_Init) = 64" "length (h MD5_Init) = 4" by (simp_all add: MD5_Init_def)
  have u: "crypto_md32_update md5_block_data_order 64 = MD5_Update" by (simp add: fun_eq_iff MD5_Update_def)
  note h' = md5.digest_compress [OF i, of False ms, unfolded u, folded c_def, folded f_def]
  note h = conjunct1 [OF h'] conjunct2 [OF h']
  obtain x y z w where v: "h f = [x, y, z, w]" using h(2) by (auto simp: numeral_eq_Suc length_Suc_conv)
  have "fst (MD5_Final c) = concat (map (\<lambda>v. rev (be_bytes 4 (unat v))) (h f))"
    by (simp add: MD5_Final_def f_def [symmetric] Let_def v store_u32_le)
  then show ?thesis unfolding c_def h(1) by (simp add: md5_digest_def MD5_Init_def)
qed

end
