(* ===== verification/Digest_Md4.thy ===== *)
theory Digest_Md4
  imports Digest_Md32
begin

text \<open>
  Model of \<^verbatim>\<open>crypto/fipsmodule/md4/md4.c\<close>. The reference is RFC 1320, with the constants of the code's table.
\<close>

section \<open>The block function\<close>

definition md4_F :: "u32 \<Rightarrow> u32 \<Rightarrow> u32 \<Rightarrow> u32" where
  "md4_F b c d = ((c XOR d) AND b) XOR d"

definition md4_G :: "u32 \<Rightarrow> u32 \<Rightarrow> u32 \<Rightarrow> u32" where
  "md4_G b c d = (b AND c) OR (b AND d) OR (c AND d)"

definition md4_H :: "u32 \<Rightarrow> u32 \<Rightarrow> u32 \<Rightarrow> u32" where
  "md4_H b c d = b XOR c XOR d"

definition md4_f :: "nat \<Rightarrow> u32 \<Rightarrow> u32 \<Rightarrow> u32 \<Rightarrow> u32" where
  "md4_f r = [md4_F, md4_G, md4_H] ! r"

text \<open>A step, over the number of its round. The variables \<open>A\<close> to \<open>D\<close> are a list, which the steps name by their numbers.\<close>

fun md4_R :: "nat \<Rightarrow> nat list \<Rightarrow> u32 \<Rightarrow> nat \<Rightarrow> u32 \<Rightarrow> u32 list \<Rightarrow> u32 list" where
  "md4_R r [a, b, c, d] k s t v =
     (let v = v[a := v ! a + (k + t + md4_f r (v ! b) (v ! c) (v ! d))];
          v = v[a := CRYPTO_rotl_u32 (v ! a) s]
      in v)"
| "md4_R r _ k s t v = v"

text \<open>The steps in the order of the code: the round, the variables, the word, the rotation and the constant.\<close>

definition md4_calls :: "(nat \<times> nat list \<times> nat \<times> nat \<times> u32) list" where
  "md4_calls =
    [(0, [0, 1, 2, 3], 0, 3, 0), (0, [3, 0, 1, 2], 1, 7, 0),
     (0, [2, 3, 0, 1], 2, 11, 0), (0, [1, 2, 3, 0], 3, 19, 0),
     (0, [0, 1, 2, 3], 4, 3, 0), (0, [3, 0, 1, 2], 5, 7, 0),
     (0, [2, 3, 0, 1], 6, 11, 0), (0, [1, 2, 3, 0], 7, 19, 0),
     (0, [0, 1, 2, 3], 8, 3, 0), (0, [3, 0, 1, 2], 9, 7, 0),
     (0, [2, 3, 0, 1], 10, 11, 0), (0, [1, 2, 3, 0], 11, 19, 0),
     (0, [0, 1, 2, 3], 12, 3, 0), (0, [3, 0, 1, 2], 13, 7, 0),
     (0, [2, 3, 0, 1], 14, 11, 0), (0, [1, 2, 3, 0], 15, 19, 0),
     (1, [0, 1, 2, 3], 0, 3, 0x5a827999), (1, [3, 0, 1, 2], 4, 5, 0x5a827999),
     (1, [2, 3, 0, 1], 8, 9, 0x5a827999), (1, [1, 2, 3, 0], 12, 13, 0x5a827999),
     (1, [0, 1, 2, 3], 1, 3, 0x5a827999), (1, [3, 0, 1, 2], 5, 5, 0x5a827999),
     (1, [2, 3, 0, 1], 9, 9, 0x5a827999), (1, [1, 2, 3, 0], 13, 13, 0x5a827999),
     (1, [0, 1, 2, 3], 2, 3, 0x5a827999), (1, [3, 0, 1, 2], 6, 5, 0x5a827999),
     (1, [2, 3, 0, 1], 10, 9, 0x5a827999), (1, [1, 2, 3, 0], 14, 13, 0x5a827999),
     (1, [0, 1, 2, 3], 3, 3, 0x5a827999), (1, [3, 0, 1, 2], 7, 5, 0x5a827999),
     (1, [2, 3, 0, 1], 11, 9, 0x5a827999), (1, [1, 2, 3, 0], 15, 13, 0x5a827999),
     (2, [0, 1, 2, 3], 0, 3, 0x6ed9eba1), (2, [3, 0, 1, 2], 8, 9, 0x6ed9eba1),
     (2, [2, 3, 0, 1], 4, 11, 0x6ed9eba1), (2, [1, 2, 3, 0], 12, 15, 0x6ed9eba1),
     (2, [0, 1, 2, 3], 2, 3, 0x6ed9eba1), (2, [3, 0, 1, 2], 10, 9, 0x6ed9eba1),
     (2, [2, 3, 0, 1], 6, 11, 0x6ed9eba1), (2, [1, 2, 3, 0], 14, 15, 0x6ed9eba1),
     (2, [0, 1, 2, 3], 1, 3, 0x6ed9eba1), (2, [3, 0, 1, 2], 9, 9, 0x6ed9eba1),
     (2, [2, 3, 0, 1], 5, 11, 0x6ed9eba1), (2, [1, 2, 3, 0], 13, 15, 0x6ed9eba1),
     (2, [0, 1, 2, 3], 3, 3, 0x6ed9eba1), (2, [3, 0, 1, 2], 11, 9, 0x6ed9eba1),
     (2, [2, 3, 0, 1], 7, 11, 0x6ed9eba1), (2, [1, 2, 3, 0], 15, 15, 0x6ed9eba1)]"

definition md4_call :: "u32 list \<Rightarrow> nat \<times> nat list \<times> nat \<times> nat \<times> u32 \<Rightarrow> u32 list \<Rightarrow> u32 list" where
  "md4_call X call = (case call of (r, args, k, s, t) \<Rightarrow> md4_R r args (X ! k) s t)"

definition md4_block :: "u32 list \<Rightarrow> u8 list \<Rightarrow> u32 list" where
  "md4_block state d =
     (let X = map (\<lambda>i. CRYPTO_load_u32_le (drop (4 * i) d)) [0..<16]
      in map2 (+) state (fold (md4_call X) md4_calls (take 4 state)))"

fun md4_block_data_order :: "u32 list \<Rightarrow> u8 list \<Rightarrow> nat \<Rightarrow> u32 list" where
  "md4_block_data_order state d 0 = state"
| "md4_block_data_order state d (Suc n) = md4_block_data_order (md4_block state d) (drop 64 d) n"

section \<open>The digest\<close>

type_synonym md4_ctx = md32_ctx

definition MD4_Init :: md4_ctx where
  "MD4_Init = \<lparr>h = [0x67452301, 0xefcdab89, 0x98badcfe, 0x10325476], Nl = 0, Nh = 0, data = replicate 64 0, num = 0\<rparr>"

definition MD4_Transform :: "u8 list \<Rightarrow> md4_ctx \<Rightarrow> md4_ctx" where
  "MD4_Transform d c = c\<lparr>h := md4_block_data_order (h c) d 1\<rparr>"

definition MD4_Update :: "u8 list \<Rightarrow> md4_ctx \<Rightarrow> md4_ctx" where
  "MD4_Update d c = crypto_md32_update md4_block_data_order 64 d c"

definition MD4_Final :: "md4_ctx \<Rightarrow> u8 list \<times> md4_ctx" where
  "MD4_Final c =
     (let c = crypto_md32_final md4_block_data_order 64 False c
      in (CRYPTO_store_u32_le (h c ! 0) @ CRYPTO_store_u32_le (h c ! 1) @ CRYPTO_store_u32_le (h c ! 2) @ CRYPTO_store_u32_le (h c ! 3), c))"

definition MD4 :: "u8 list \<Rightarrow> u8 list" where
  "MD4 d = fst (MD4_Final (MD4_Update d MD4_Init))"

section \<open>RFC 1320\<close>

definition md4_spec_f :: "nat \<Rightarrow> u32 \<Rightarrow> u32 \<Rightarrow> u32 \<Rightarrow> u32" where
  "md4_spec_f r x y z =
     (if r = 0 then (x AND y) OR (NOT x AND z)
      else if r = 1 then (x AND y) OR (x AND z) OR (y AND z)
      else x XOR y XOR z)"

definition md4_word :: "nat \<Rightarrow> nat" where
  "md4_word i = (if i < 16 then i else if i < 32 then 4 * (i mod 4) + (i div 4) mod 4 else [0, 8, 4, 12, 2, 10, 6, 14, 1, 9, 5, 13, 3, 11, 7, 15] ! (i mod 16))"

definition md4_shift :: "nat \<Rightarrow> nat" where
  "md4_shift i = [[3, 7, 11, 19], [3, 5, 9, 13], [3, 9, 11, 15]] ! (i div 16) ! (i mod 4)"

definition md4_const :: "nat \<Rightarrow> u32" where
  "md4_const i = [0, 0x5a827999, 0x6ed9eba1] ! (i div 16)"

fun md4_round :: "nat \<Rightarrow> u32 \<Rightarrow> u32 list \<Rightarrow> u32 list" where
  "md4_round i w [a, b, c, d] = [d, word_rotl (md4_shift i) (a + md4_spec_f (i div 16) b c d + w + md4_const i), b, c]"
| "md4_round i w s = s"

definition md4_compress :: "u32 list \<Rightarrow> u8 list \<Rightarrow> u32 list" where
  "md4_compress s b = map2 (+) s (fold (\<lambda>i. md4_round i (le_msg_word b (md4_word i))) [0..<48] s)"

definition md4_digest :: "u8 list \<Rightarrow> u8 list" where
  "md4_digest m =
     concat (map (\<lambda>v. rev (be_bytes 4 (unat v)))
       (foldl md4_compress [0x67452301, 0xefcdab89, 0x98badcfe, 0x10325476] (blocks_of 64 (m @ md_padding 64 8 False (length m)))))"

section \<open>The code computes it\<close>

lemma md4_functions: "md4_F b c d = (b AND c) OR (NOT b AND d)" "md4_G b c d = (b AND c) OR (b AND d) OR (c AND d)"
  by (rule bit_word_eqI; auto simp: md4_F_def md4_G_def md4_H_def bit_simps)+

lemma md4_f: "r < 3 \<Longrightarrow> md4_f r b c d = md4_spec_f r b c d"
proof -
  assume "r < 3"
  then have "r = 0 \<or> r = 1 \<or> r = 2" by linarith
  then show ?thesis by (elim disjE) (simp_all add: md4_f_def md4_spec_f_def md4_functions md4_H_def)
qed

lemma md4_calls:
  "md4_calls =
     map (\<lambda>i. (i div 16, [[0, 1, 2, 3], [3, 0, 1, 2], [2, 3, 0, 1], [1, 2, 3, 0]] ! (i mod 4), md4_word i, md4_shift i, md4_const i)) [0..<48]"
  by (simp add: md4_calls_def md4_word_def md4_shift_def md4_const_def upt_rec)

lemma length_md4_calls: "length md4_calls = 48"
  by (simp add: md4_calls_def)

lemma nth_md4_calls:
  assumes "i < 48"
  shows "md4_calls ! i = (i div 16, [[0, 1, 2, 3], [3, 0, 1, 2], [2, 3, 0, 1], [1, 2, 3, 0]] ! (i mod 4), md4_word i, md4_shift i, md4_const i)"
  using assms by (simp add: md4_calls)

abbreviation md4_view :: "u32 list \<Rightarrow> nat \<Rightarrow> u32 list" where
  "md4_view v i \<equiv> map ((!) v) ([[0, 1, 2, 3], [3, 0, 1, 2], [2, 3, 0, 1], [1, 2, 3, 0]] ! (i mod 4))"

lemma md4_shift_less: "i < 48 \<Longrightarrow> md4_shift i < 32"
proof -
  assume "i < 48"
  then have "i div 16 = 0 \<or> i div 16 = 1 \<or> i div 16 = 2" "i mod 4 = 0 \<or> i mod 4 = 1 \<or> i mod 4 = 2 \<or> i mod 4 = 3" by linarith+
  then show ?thesis unfolding md4_shift_def by (elim disjE) simp_all
qed

lemma md4_step:
  assumes "length v = 4" and "i < 48"
  shows "md4_view (md4_R (i div 16) ([[0, 1, 2, 3], [3, 0, 1, 2], [2, 3, 0, 1], [1, 2, 3, 0]] ! (i mod 4)) w (md4_shift i) (md4_const i) v) (i + 1) =
      md4_round i w (md4_view v i) \<and>
    length (md4_R (i div 16) ([[0, 1, 2, 3], [3, 0, 1, 2], [2, 3, 0, 1], [1, 2, 3, 0]] ! (i mod 4)) w (md4_shift i) (md4_const i) v) = 4"
proof -
  obtain a b c d where v: "v = [a, b, c, d]" using assms by (auto simp: numeral_eq_Suc length_Suc_conv)
  have r: "CRYPTO_rotl_u32 x (md4_shift i) = word_rotl (md4_shift i) x" for x using rotations32 [OF md4_shift_less [OF assms(2)]] by simp
  have f: "md4_f (i div 16) x y z = md4_spec_f (i div 16) x y z" for x y z by (rule md4_f) (use assms(2) in linarith)
  define m where "m = i mod 4"
  have m: "m = 0 \<or> m = 1 \<or> m = 2 \<or> m = 3" "(i + 1) mod 4 = (m + 1) mod 4" unfolding m_def by (linarith, simp add: mod_Suc_eq)
  show ?thesis
    using m(1) unfolding m(2) m_def [symmetric] by (elim disjE) (simp_all add: v Let_def r f add_ac)
qed

lemma md4_steps:
  assumes "length s = 4" and "n \<le> 48"
  shows "(let v = fold (\<lambda>i. md4_call X (md4_calls ! i)) [0..<n] s
    in md4_view v n = fold (\<lambda>i. md4_round i (X ! md4_word i)) [0..<n] s \<and> length v = 4)"
  using assms(2)
proof (induction n)
  case 0
  obtain a b c d where "s = [a, b, c, d]" using assms by (auto simp: numeral_eq_Suc length_Suc_conv)
  then show ?case by simp
next
  case (Suc n)
  define v where "v = fold (\<lambda>i. md4_call X (md4_calls ! i)) [0..<n] s"
  have v: "md4_view v n = fold (\<lambda>i. md4_round i (X ! md4_word i)) [0..<n] s" "length v = 4"
    using Suc by (simp_all add: v_def Let_def)
  note nth_md4_calls [of n]
  then show ?case
    using md4_step [OF v(2), of n "X ! md4_word n"] Suc.prems v(1) by (simp add: v_def md4_call_def Let_def)
qed

lemma md4_block:
  assumes "64 \<le> length d" and "length s = 4"
  shows "md4_block s d = md4_compress s d"
proof -
  define X where "X = map (\<lambda>i. CRYPTO_load_u32_le (drop (4 * i) d)) [0..<16]"
  have w: "md4_word i < 16" if "i < 48" for i 
  proof -
    define ks :: "nat list" where "ks = [0, 8, 4, 12, 2, 10, 6, 14, 1, 9, 5, 13, 3, 11, 7, 15]"
    have "4 * (i mod 4) + (i div 4) mod 4 < 16" by linarith
    moreover have "list_all (\<lambda>k. k < 16) ks" "i mod 16 < length ks" by (simp_all add: ks_def)
    then have "ks ! (i mod 16) < 16" unfolding list_all_length by blast
    ultimately show ?thesis unfolding md4_word_def ks_def by simp
  qed
  have X: "X ! md4_word i = le_msg_word d (md4_word i)" if "i < 48" for i
    using w [OF that] assms(1) by (simp add: X_def load_msg_word)
  have "md4_calls = map ((!) md4_calls) [0..<48]" using map_nth [of md4_calls] by (simp add: length_md4_calls)
  then have "fold (md4_call X) md4_calls s = fold (\<lambda>i. md4_call X (md4_calls ! i)) [0..<48] s"
    by (metis (no_types, lifting) fold_map comp_def fold_cong)
  moreover have "fold (\<lambda>i. md4_round i (X ! md4_word i)) [0..<48] s = fold (\<lambda>i. md4_round i (le_msg_word d (md4_word i))) [0..<48] s"
    using X by (intro fold_cong) auto
  ultimately have e: "fold (md4_call X) md4_calls s = v" and r: "md4_view v 48 = fold (\<lambda>i. md4_round i (le_msg_word d (md4_word i))) [0..<48] s"
      "length v = 4" if "v = fold (\<lambda>i. md4_call X (md4_calls ! i)) [0..<48] s" for v
    using md4_steps [OF assms(2), of 48 X] that by (simp_all add: Let_def)
  obtain v where v: "v = fold (\<lambda>i. md4_call X (md4_calls ! i)) [0..<48] s" by blast
  obtain a b c d where "v = [a, b, c, d]" using r(2) [OF v] by (auto simp: numeral_eq_Suc length_Suc_conv)
  then have "md4_view v 48 = v" by simp
  then show ?thesis
    using e [OF v] r(1) [OF v] assms(2) by (simp add: md4_block_def md4_compress_def X_def [symmetric] Let_def)
qed

lemma md4_block_first: "64 \<le> length d \<Longrightarrow> md4_block s (d @ e) = md4_block s d"
proof -
  assume d: "64 \<le> length d"
  have "map (\<lambda>i. CRYPTO_load_u32_le (drop (4 * i) (d @ e))) [0..<16] = map (\<lambda>i. CRYPTO_load_u32_le (drop (4 * i) d)) [0..<16]"
    using d by (auto simp: load_msg_word msg_word_first simp del: drop_append)
  then show ?thesis by (simp only: md4_block_def)
qed

lemma length_md4_compress: "length s = 4 \<Longrightarrow> length (md4_compress s b) = 4"
proof -
  have "length (md4_round i w s) = length s" for i w s by (cases "(i, w, s)" rule: md4_round.cases) simp_all
  then have "length (fold (\<lambda>i. md4_round i (le_msg_word b (md4_word i))) ts s) = length s" for ts
    by (induction ts arbitrary: s) simp_all
  then show "length s = 4 \<Longrightarrow> length (md4_compress s b) = 4" by (simp add: md4_compress_def)
qed

interpretation md4: md32_compress md4_block_data_order 64 4 md4_compress
proof
  fix s :: "u32 list" and b :: "u8 list"
  assume "length s = 4" "length b = 64"
  then show "md4_block_data_order s b 1 = md4_compress s b \<and> length (md4_compress s b) = 4"
    by (simp add: md4_block length_md4_compress)
next
  fix n s and b bs :: "u8 list"
  assume "0 < n" "length b = 64" "length bs = n * 64"
  then show "md4_block_data_order s (b @ bs) (Suc n) = md4_block_data_order (md4_block_data_order s b 1) bs n"
    by (simp add: md4_block_first)
qed simp

text \<open>MD4, over a message in any number of pieces of any lengths, gives the digest of RFC 1320.\<close>

lemma md4_streams: "fst (MD4_Final (update_all MD4_Update ms MD4_Init)) = md4_digest (concat ms)"
proof -
  define c where "c = update_all MD4_Update ms MD4_Init"
  define f where "f = crypto_md32_final md4_block_data_order 64 False c"
  have i: "num MD4_Init = 0" "Nl MD4_Init = 0" "Nh MD4_Init = 0" "length (data MD4_Init) = 64" "length (h MD4_Init) = 4" by (simp_all add: MD4_Init_def)
  have u: "crypto_md32_update md4_block_data_order 64 = MD4_Update" by (simp add: fun_eq_iff MD4_Update_def)
  note h' = md4.digest_compress [OF i, of False ms, unfolded u, folded c_def, folded f_def]
  note h = conjunct1 [OF h'] conjunct2 [OF h']
  obtain x y z w where v: "h f = [x, y, z, w]" using h(2) by (auto simp: numeral_eq_Suc length_Suc_conv)
  have "fst (MD4_Final c) = concat (map (\<lambda>v. rev (be_bytes 4 (unat v))) (h f))"
    by (simp add: MD4_Final_def f_def [symmetric] Let_def v store_u32_le)
  then show ?thesis unfolding c_def h(1) by (simp add: md4_digest_def MD4_Init_def)
qed

end
