(* ===== verification/Evp_Digest.thy ===== *)
theory Evp_Digest
  imports Mem Digest_Sha1 Digest_Sha256 Digest_Sha512 Digest_Md5 Digest_Md4
begin

text \<open>
  Model of \<^verbatim>\<open>crypto/fipsmodule/digest/\<close>\<open>digests.c\<close> and \<open>digest.c\<close>: the digests behind one interface. The pointer to an
  \<open>EVP_MD\<close> is its name, as each is a static table. The \<open>pctx\<close> of a context belongs to signatures and is null here.
\<close>

section \<open>The digests\<close>

datatype evp_md = EVP_md4 | EVP_md5 | EVP_sha1 | EVP_sha224 | EVP_sha256 | EVP_sha384 | EVP_sha512 | EVP_sha512_256 | EVP_md5_sha1

record md5_sha1_ctx =
  md5 :: md5_ctx
  sha1 :: sha_ctx

text \<open>What \<open>md_data\<close> points to.\<close>

datatype md_state =
    Md4_State md4_ctx
  | Md5_State md5_ctx
  | Sha1_State sha_ctx
  | Sha256_State sha256_ctx
  | Sha512_State sha512_ctx
  | Md5_Sha1_State md5_sha1_ctx

fun md_size :: "evp_md \<Rightarrow> nat" where
  "md_size EVP_md4 = 16"
| "md_size EVP_md5 = 16"
| "md_size EVP_sha1 = 20"
| "md_size EVP_sha224 = 28"
| "md_size EVP_sha256 = 32"
| "md_size EVP_sha384 = 48"
| "md_size EVP_sha512 = 64"
| "md_size EVP_sha512_256 = 32"
| "md_size EVP_md5_sha1 = 16 + 20"

fun md_block_size :: "evp_md \<Rightarrow> nat" where
  "md_block_size EVP_md4 = 64"
| "md_block_size EVP_md5 = 64"
| "md_block_size EVP_sha1 = 64"
| "md_block_size EVP_sha224 = 64"
| "md_block_size EVP_sha256 = 64"
| "md_block_size EVP_sha384 = 128"
| "md_block_size EVP_sha512 = 128"
| "md_block_size EVP_sha512_256 = 128"
| "md_block_size EVP_md5_sha1 = 64"

text \<open>The sizes of the contexts, with integers of 32 and 64 bits at their natural alignment.\<close>

fun md_ctx_size :: "evp_md \<Rightarrow> nat" where
  "md_ctx_size EVP_md4 = 92"
| "md_ctx_size EVP_md5 = 92"
| "md_ctx_size EVP_sha1 = 96"
| "md_ctx_size EVP_sha224 = 112"
| "md_ctx_size EVP_sha256 = 112"
| "md_ctx_size EVP_sha384 = 216"
| "md_ctx_size EVP_sha512 = 216"
| "md_ctx_size EVP_sha512_256 = 216"
| "md_ctx_size EVP_md5_sha1 = 92 + 96"

fun md_init :: "evp_md \<Rightarrow> md_state" where
  "md_init EVP_md4 = Md4_State MD4_Init"
| "md_init EVP_md5 = Md5_State MD5_Init"
| "md_init EVP_sha1 = Sha1_State SHA1_Init"
| "md_init EVP_sha224 = Sha256_State SHA224_Init"
| "md_init EVP_sha256 = Sha256_State SHA256_Init"
| "md_init EVP_sha384 = Sha512_State SHA384_Init"
| "md_init EVP_sha512 = Sha512_State SHA512_Init"
| "md_init EVP_sha512_256 = Sha512_State SHA512_256_Init"
| "md_init EVP_md5_sha1 = Md5_Sha1_State \<lparr>md5 = MD5_Init, sha1 = SHA1_Init\<rparr>"

text \<open>A state is always one of its digest; the last equation is never used.\<close>

fun md_update :: "evp_md \<Rightarrow> u8 list \<Rightarrow> md_state \<Rightarrow> md_state" where
  "md_update EVP_md4 d (Md4_State c) = Md4_State (MD4_Update d c)"
| "md_update EVP_md5 d (Md5_State c) = Md5_State (MD5_Update d c)"
| "md_update EVP_sha1 d (Sha1_State c) = Sha1_State (SHA1_Update d c)"
| "md_update EVP_sha224 d (Sha256_State c) = Sha256_State (SHA224_Update d c)"
| "md_update EVP_sha256 d (Sha256_State c) = Sha256_State (SHA256_Update d c)"
| "md_update EVP_sha384 d (Sha512_State c) = Sha512_State (SHA384_Update d c)"
| "md_update EVP_sha512 d (Sha512_State c) = Sha512_State (SHA512_Update d c)"
| "md_update EVP_sha512_256 d (Sha512_State c) = Sha512_State (SHA512_256_Update d c)"
| "md_update EVP_md5_sha1 d (Md5_Sha1_State c) = Md5_Sha1_State \<lparr>md5 = MD5_Update d (md5 c), sha1 = SHA1_Update d (sha1 c)\<rparr>"
| "md_update _ d s = s"

text \<open>The bytes that are written to the output. The context is overwritten after it by \<open>md_cleanse\<close>.\<close>

fun md_final :: "evp_md \<Rightarrow> md_state \<Rightarrow> u8 list" where
  "md_final EVP_md4 (Md4_State c) = fst (MD4_Final c)"
| "md_final EVP_md5 (Md5_State c) = fst (MD5_Final c)"
| "md_final EVP_sha1 (Sha1_State c) = fst (SHA1_Final c)"
| "md_final EVP_sha224 (Sha256_State c) = (case SHA224_Final c of (None, _) \<Rightarrow> [] | (Some out, _) \<Rightarrow> out)"
| "md_final EVP_sha256 (Sha256_State c) = (case SHA256_Final c of (None, _) \<Rightarrow> [] | (Some out, _) \<Rightarrow> out)"
| "md_final EVP_sha384 (Sha512_State c) = fst (SHA384_Final c)"
| "md_final EVP_sha512 (Sha512_State c) = fst (SHA512_Final c)"
| "md_final EVP_sha512_256 (Sha512_State c) = fst (SHA512_256_Final c)"
| "md_final EVP_md5_sha1 (Md5_Sha1_State c) = fst (MD5_Final (md5 c)) @ fst (SHA1_Final (sha1 c))"
| "md_final _ s = []"

definition zero_ctx :: "nat \<Rightarrow> md32_ctx" where
  "zero_ctx n = \<lparr>h = replicate n 0, Nl = 0, Nh = 0, data = replicate 64 0, num = 0\<rparr>"

fun md_cleanse :: "md_state \<Rightarrow> md_state" where
  "md_cleanse (Md4_State c) = Md4_State (zero_ctx 4)"
| "md_cleanse (Md5_State c) = Md5_State (zero_ctx 4)"
| "md_cleanse (Sha1_State c) = Sha1_State (zero_ctx 5)"
| "md_cleanse (Sha256_State c) = Sha256_State (sha256_start (replicate 8 0) 0)"
| "md_cleanse (Sha512_State c) = Sha512_State (sha512_start (replicate 8 0) 0)"
| "md_cleanse (Md5_Sha1_State c) = Md5_Sha1_State \<lparr>md5 = zero_ctx 4, sha1 = zero_ctx 5\<rparr>"

section \<open>Contexts\<close>

record evp_md_ctx =
  digest :: "evp_md option"
  md_data :: "md_state option"

definition EVP_MD_CTX_init :: evp_md_ctx where
  "EVP_MD_CTX_init = \<lparr>digest = None, md_data = None\<rparr>"

definition EVP_MD_CTX_cleanup :: "evp_md_ctx \<Rightarrow> bool \<times> evp_md_ctx" where
  "EVP_MD_CTX_cleanup ctx = (True, EVP_MD_CTX_init)"

definition EVP_MD_CTX_reset :: "evp_md_ctx \<Rightarrow> bool \<times> evp_md_ctx" where
  "EVP_MD_CTX_reset ctx = (True, EVP_MD_CTX_init)"

text \<open>A null \<open>digest\<close> is followed here.\<close>

definition EVP_MD_CTX_cleanse :: "evp_md_ctx \<Rightarrow> evp_md_ctx option" where
  "EVP_MD_CTX_cleanse ctx = (case digest ctx of None \<Rightarrow> None | Some _ \<Rightarrow> Some (snd (EVP_MD_CTX_cleanup ctx)))"

text \<open>The success of the allocations is decided by \<open>malloc\<close>. \<open>out\<close> keeps its memory when the digest is the same.\<close>

definition EVP_MD_CTX_copy_ex :: "heap \<Rightarrow> evp_md_ctx \<Rightarrow> evp_md_ctx \<Rightarrow> bool \<times> evp_md_ctx" where
  "EVP_MD_CTX_copy_ex malloc out inp =
     (case digest inp of
        None \<Rightarrow> (False, out)
      | Some md \<Rightarrow>
          if digest out \<noteq> digest inp \<and> OPENSSL_malloc malloc (md_ctx_size md) = None then (False, out)
          else (True, \<lparr>digest = digest inp, md_data = md_data inp\<rparr>))"

text \<open>\<open>out\<close> and \<open>in\<close> after the move.\<close>

definition EVP_MD_CTX_move :: "evp_md_ctx \<Rightarrow> evp_md_ctx \<Rightarrow> evp_md_ctx \<times> evp_md_ctx" where
  "EVP_MD_CTX_move out inp = (inp, EVP_MD_CTX_init)"

definition EVP_MD_CTX_copy :: "heap \<Rightarrow> evp_md_ctx \<Rightarrow> bool \<times> evp_md_ctx" where
  "EVP_MD_CTX_copy malloc inp = EVP_MD_CTX_copy_ex malloc EVP_MD_CTX_init inp"

definition EVP_DigestInit_ex :: "heap \<Rightarrow> evp_md \<Rightarrow> evp_md_ctx \<Rightarrow> bool \<times> evp_md_ctx" where
  "EVP_DigestInit_ex malloc type ctx =
     (if digest ctx \<noteq> Some type then
        case OPENSSL_malloc malloc (md_ctx_size type) of
          None \<Rightarrow> (False, ctx)
        | Some _ \<Rightarrow> (True, \<lparr>digest = Some type, md_data = Some (md_init type)\<rparr>)
      else (True, ctx\<lparr>md_data := Some (md_init type)\<rparr>))"

definition EVP_DigestInit :: "heap \<Rightarrow> evp_md \<Rightarrow> bool \<times> evp_md_ctx" where
  "EVP_DigestInit malloc type = EVP_DigestInit_ex malloc type EVP_MD_CTX_init"

text \<open>The value \<open>None\<close> of the following is a null pointer that is followed: the context was not initialised.\<close>

definition EVP_DigestUpdate :: "u8 list \<Rightarrow> evp_md_ctx \<Rightarrow> evp_md_ctx option" where
  "EVP_DigestUpdate d ctx =
     (case (digest ctx, md_data ctx) of
        (Some md, Some s) \<Rightarrow> Some (ctx\<lparr>md_data := Some (md_update md d s)\<rparr>)
      | _ \<Rightarrow> None)"

definition EVP_DigestFinal_ex :: "evp_md_ctx \<Rightarrow> (u8 list \<times> evp_md_ctx) option" where
  "EVP_DigestFinal_ex ctx =
     (case (digest ctx, md_data ctx) of
        (Some md, Some s) \<Rightarrow> Some (md_final md s, ctx\<lparr>md_data := Some (md_cleanse s)\<rparr>)
      | _ \<Rightarrow> None)"

definition EVP_DigestFinal :: "evp_md_ctx \<Rightarrow> (u8 list \<times> evp_md_ctx) option" where
  "EVP_DigestFinal ctx =
     (case EVP_DigestFinal_ex ctx of
        None \<Rightarrow> None
      | Some (out, ctx) \<Rightarrow> Some (out, snd (EVP_MD_CTX_cleanup ctx)))"

text \<open>The digest, if it was possible to allocate its context.\<close>

definition EVP_Digest :: "heap \<Rightarrow> evp_md \<Rightarrow> u8 list \<Rightarrow> u8 list option" where
  "EVP_Digest malloc type d =
     (case EVP_DigestInit_ex malloc type EVP_MD_CTX_init of
        (False, _) \<Rightarrow> None
      | (True, ctx) \<Rightarrow>
     (case EVP_DigestUpdate d ctx of
        None \<Rightarrow> None
      | Some ctx \<Rightarrow>
     (case EVP_DigestFinal_ex ctx of
        None \<Rightarrow> None
      | Some (out, _) \<Rightarrow> Some out)))"

section \<open>The digest of a message\<close>

text \<open>What the standards define.\<close>

fun standard_digest :: "evp_md \<Rightarrow> u8 list \<Rightarrow> u8 list" where
  "standard_digest EVP_md4 m = md4_digest m"
| "standard_digest EVP_md5 m = md5_digest m"
| "standard_digest EVP_sha1 m = sha1_digest m"
| "standard_digest EVP_sha224 m = Digest_Sha256.fips_digest fips_H224 28 m"
| "standard_digest EVP_sha256 m = Digest_Sha256.fips_digest fips_H256 32 m"
| "standard_digest EVP_sha384 m = Digest_Sha512.fips_digest fips_H384 48 m"
| "standard_digest EVP_sha512 m = Digest_Sha512.fips_digest fips_H512 64 m"
| "standard_digest EVP_sha512_256 m = Digest_Sha512.fips_digest fips_H512_256 32 m"
| "standard_digest EVP_md5_sha1 m = md5_digest m @ sha1_digest m"

text \<open>
  What the interface relies on of an algorithm: its output is a function of the whole message, of the announced length.
\<close>

locale digest_algorithm =
  fixes init :: 'c and update :: "u8 list \<Rightarrow> 'c \<Rightarrow> 'c" and final :: "'c \<Rightarrow> u8 list" and H :: "u8 list \<Rightarrow> u8 list" and len :: nat
  assumes final: "final (update_all update ms init) = H (concat ms)"
    and len: "length (H m) = len"
begin

text \<open>How the message is cut does not matter.\<close>

lemma pieces: "concat ms = concat ms' \<Longrightarrow> final (update_all update ms init) = final (update_all update ms' init)"
  by (simp add: final)

lemma length_final: "length (final (update_all update ms init)) = len"
  by (simp add: final len)

end

lemma update_all_map: "(\<And>d c. u d (f c) = f (v d c)) \<Longrightarrow> update_all u ms (f c) = f (update_all v ms c)"
  by (induction ms arbitrary: c) simp_all

lemma length_concat_words: "(\<And>w. length (f w) = k) \<Longrightarrow> length (concat (map f v)) = k * length v"
  by (induction v) simp_all

lemma length_standard_digest: "length (standard_digest md m) = md_size md"
proof -
  have "length (Digest_Sha256.fips_digest s n x) = n" if "length s = 8" "n \<le> 32" for s n x
    using sha256.absorb_compress [OF that(1), of "x @ md_padding 64 8 True (length x)"] that(2)
    by (simp add: Digest_Sha256.fips_digest_def length_concat_words [of _ 4])
  moreover have "length (Digest_Sha512.fips_digest s n x) = n" if "length s = 8" "n \<le> 64" for s n x
    using sha512.absorb_compress [OF that(1), of "x @ md_padding 128 16 True (length x)"] that(2)
    by (simp add: Digest_Sha512.fips_digest_def length_concat_words [of _ 8])
  moreover have "length (md4_digest m) = 16" "length (md5_digest m) = 16" "length (sha1_digest m) = 20"
    using md4.absorb_compress [of "[0x67452301, 0xefcdab89, 0x98badcfe, 0x10325476]" "m @ md_padding 64 8 False (length m)"]
      md5.absorb_compress [of "[0x67452301, 0xefcdab89, 0x98badcfe, 0x10325476]" "m @ md_padding 64 8 False (length m)"]
      sha1.absorb_compress [of "[0x67452301, 0xefcdab89, 0x98badcfe, 0x10325476, 0xc3d2e1f0]" "m @ md_padding 64 8 True (length m)"]
    by (simp_all add: md4_digest_def md5_digest_def sha1_digest_def length_concat_words [of _ 4])
  ultimately show ?thesis
    by (cases md) (simp_all add: length_fips_H)
qed

lemma md_final: "md_final md (update_all (md_update md) ms (md_init md)) = standard_digest md (concat ms)"
proof (cases md)
  case EVP_md4
  then show ?thesis using update_all_map [of "md_update EVP_md4" Md4_State MD4_Update] by (simp add: md4_streams)
next
  case EVP_md5
  then show ?thesis using update_all_map [of "md_update EVP_md5" Md5_State MD5_Update] by (simp add: md5_streams)
next
  case EVP_sha1
  then show ?thesis using update_all_map [of "md_update EVP_sha1" Sha1_State SHA1_Update] by (simp add: sha1_streams)
next
  case EVP_sha224
  then show ?thesis using update_all_map [of "md_update EVP_sha224" Sha256_State SHA224_Update] sha256_streams [of ms]
    by (cases "SHA224_Final (update_all SHA224_Update ms SHA224_Init)") simp
next
  case EVP_sha256
  then show ?thesis using update_all_map [of "md_update EVP_sha256" Sha256_State SHA256_Update] sha256_streams [of ms]
    by (cases "SHA256_Final (update_all SHA256_Update ms SHA256_Init)") simp
next
  case EVP_sha384
  then show ?thesis using update_all_map [of "md_update EVP_sha384" Sha512_State SHA384_Update] by (simp add: sha512_streams)
next
  case EVP_sha512
  then show ?thesis using update_all_map [of "md_update EVP_sha512" Sha512_State SHA512_Update] by (simp add: sha512_streams)
next
  case EVP_sha512_256
  then show ?thesis using update_all_map [of "md_update EVP_sha512_256" Sha512_State SHA512_256_Update] by (simp add: sha512_streams)
next
  case EVP_md5_sha1
  have "update_all (md_update EVP_md5_sha1) ms (Md5_Sha1_State \<lparr>md5 = a, sha1 = b\<rparr>) =
      Md5_Sha1_State \<lparr>md5 = update_all MD5_Update ms a, sha1 = update_all SHA1_Update ms b\<rparr>" for a b
    by (induction ms arbitrary: a b) simp_all
  then show ?thesis using EVP_md5_sha1 by (simp add: md5_streams sha1_streams)
qed

interpretation md: digest_algorithm "md_init md" "md_update md" "md_final md" "standard_digest md" "md_size md" for md
  by unfold_locales (simp_all add: md_final length_standard_digest)

section \<open>Contexts hash messages\<close>

text \<open>The context has taken the message \<open>m\<close>.\<close>

definition hashes :: "evp_md \<Rightarrow> u8 list \<Rightarrow> evp_md_ctx \<Rightarrow> bool" where
  "hashes md m ctx \<longleftrightarrow> (\<exists>ms. concat ms = m \<and> ctx = \<lparr>digest = Some md, md_data = Some (update_all (md_update md) ms (md_init md))\<rparr>)"

lemma hashes_digest: "hashes md m ctx \<Longrightarrow> digest ctx = Some md"
  by (auto simp: hashes_def)

lemma EVP_DigestInit_ex: "EVP_DigestInit_ex malloc md ctx = (True, ctx') \<Longrightarrow> hashes md [] ctx'"
  unfolding hashes_def by (intro exI [of _ "[]"]) (auto simp: EVP_DigestInit_ex_def split: if_splits option.splits)

lemma update_all_append: "update_all u (ms @ ms') c = update_all u ms' (update_all u ms c)"
  by (induction ms arbitrary: c) simp_all

lemma EVP_DigestUpdate: "hashes md m ctx \<Longrightarrow> \<exists>ctx'. EVP_DigestUpdate d ctx = Some ctx' \<and> hashes md (m @ d) ctx'"
proof -
  assume "hashes md m ctx"
  then obtain ms where ms: "concat ms = m" "ctx = \<lparr>digest = Some md, md_data = Some (update_all (md_update md) ms (md_init md))\<rparr>"
    by (auto simp: hashes_def)
  have "hashes md (m @ d) \<lparr>digest = Some md, md_data = Some (update_all (md_update md) (ms @ [d]) (md_init md))\<rparr>"
    unfolding hashes_def using ms(1) by (intro exI [of _ "ms @ [d]"]) simp
  then show ?thesis by (simp add: ms(2) EVP_DigestUpdate_def update_all_append)
qed

lemma EVP_DigestFinal_ex: "hashes md m ctx \<Longrightarrow> \<exists>ctx'. EVP_DigestFinal_ex ctx = Some (standard_digest md m, ctx') \<and> digest ctx' = Some md"
  by (auto simp: hashes_def EVP_DigestFinal_ex_def md.final)

text \<open>A copy takes the message of its source, and needs memory only for another digest.\<close>

lemma EVP_MD_CTX_copy_ex:
  assumes "hashes md m inp"
  shows "EVP_MD_CTX_copy_ex malloc out inp = (True, inp) \<or>
    EVP_MD_CTX_copy_ex malloc out inp = (False, out) \<and> digest out \<noteq> Some md \<and> OPENSSL_malloc malloc (md_ctx_size md) = None"
  using assms by (auto simp: hashes_def EVP_MD_CTX_copy_ex_def split: if_splits)

fun evp_updates :: "u8 list list \<Rightarrow> evp_md_ctx \<Rightarrow> evp_md_ctx option" where
  "evp_updates [] ctx = Some ctx"
| "evp_updates (d # ds) ctx = (case EVP_DigestUpdate d ctx of None \<Rightarrow> None | Some ctx \<Rightarrow> evp_updates ds ctx)"

lemma evp_updates: "hashes md m ctx \<Longrightarrow> \<exists>ctx'. evp_updates ms ctx = Some ctx' \<and> hashes md (m @ concat ms) ctx'"
proof (induction ms arbitrary: m ctx)
  case (Cons d ms)
  obtain c where c: "EVP_DigestUpdate d ctx = Some c" "hashes md (m @ d) c" using EVP_DigestUpdate [OF Cons.prems] by blast
  show ?case using Cons.IH [OF c(2)] c(1) by simp
qed simp

text \<open>C12. A context that was initialised for a digest, whatever it held before, gives the digest that its standard defines of the message it
  is updated with, in any number of pieces of any lengths: MD4 and MD5 of RFC 1320 and 1321, the SHA digests of FIPS 180-4, and both of
  MD5 and SHA-1. The output is of the announced size.\<close>

theorem evp_digest_standard:
  assumes "EVP_DigestInit_ex malloc md ctx = (True, ctx0)"
  shows "\<exists>ctx1 ctx2 out. evp_updates ms ctx0 = Some ctx1 \<and> EVP_DigestFinal_ex ctx1 = Some (out, ctx2) \<and>
    out = standard_digest md (concat ms) \<and> length out = md_size md"
proof -
  obtain c where "evp_updates ms ctx0 = Some c" "hashes md (concat ms) c"
    using evp_updates [OF EVP_DigestInit_ex [OF assms], of ms] by auto
  moreover from this obtain c' where "EVP_DigestFinal_ex c = Some (standard_digest md (concat ms), c')" using EVP_DigestFinal_ex by blast
  ultimately show ?thesis using md.len by blast
qed

lemma evp_digest_standard_witness:
  "\<exists>ctx1 ctx2. evp_updates [[97], [98, 99]] (snd (EVP_DigestInit_ex (\<lambda>n. Some (replicate n 0)) EVP_sha256 EVP_MD_CTX_init)) = Some ctx1 \<and>
     EVP_DigestFinal_ex ctx1 = Some (standard_digest EVP_sha256 [97, 98, 99], ctx2)"
proof -
  have "EVP_DigestInit_ex (\<lambda>n. Some (replicate n 0)) EVP_sha256 EVP_MD_CTX_init = (True, \<lparr>digest = Some EVP_sha256, md_data = Some (md_init EVP_sha256)\<rparr>)"
    by (simp add: EVP_DigestInit_ex_def EVP_MD_CTX_init_def OPENSSL_malloc_def)
  from evp_digest_standard [OF this, of "[[97], [98, 99]]"] this show ?thesis by auto
qed

lemma EVP_Digest: "EVP_Digest malloc md m = (if OPENSSL_malloc malloc (md_ctx_size md) = None then None else Some (standard_digest md m))"
proof (cases "EVP_DigestInit_ex malloc md EVP_MD_CTX_init")
  case (Pair ok c)
  show ?thesis
  proof (cases ok)
    case True
    then have h: "hashes md [] c" using Pair by (intro EVP_DigestInit_ex) simp
    obtain c1 where c1: "EVP_DigestUpdate m c = Some c1" "hashes md m c1" using EVP_DigestUpdate [OF h, of m] by auto
    obtain c2 where "EVP_DigestFinal_ex c1 = Some (standard_digest md m, c2)" using EVP_DigestFinal_ex [OF c1(2)] by blast
    moreover have "OPENSSL_malloc malloc (md_ctx_size md) \<noteq> None"
      using Pair True by (auto simp: EVP_DigestInit_ex_def EVP_MD_CTX_init_def split: option.splits)
    ultimately show ?thesis using Pair True c1(1) by (simp add: EVP_Digest_def)
  next
    case False
    then show ?thesis using Pair by (auto simp: EVP_Digest_def EVP_DigestInit_ex_def split: if_splits option.splits)
  qed
qed

end
