(* ===== verification/Hmac.thy ===== *)
theory Hmac
  imports Evp_Digest
begin

text \<open>
  Model of \<^verbatim>\<open>crypto/fipsmodule/hmac/hmac.c\<close>. Each place that may allocate asks an allocator of its own, so that every
  pattern of failures is possible. The value \<open>None\<close> of a function is a null pointer that is followed. A null key has the length 0.
\<close>

unbundle bit_operations_syntax

section \<open>The code\<close>

record hmac_ctx =
  hmac_md :: "evp_md option"
  md_ctx :: evp_md_ctx
  i_ctx :: evp_md_ctx
  o_ctx :: evp_md_ctx

definition HMAC_CTX_init :: hmac_ctx where
  "HMAC_CTX_init = \<lparr>hmac_md = None, md_ctx = EVP_MD_CTX_init, i_ctx = EVP_MD_CTX_init, o_ctx = EVP_MD_CTX_init\<rparr>"

text \<open>All bytes of the context are zeroed.\<close>

definition HMAC_CTX_cleanup :: "hmac_ctx \<Rightarrow> hmac_ctx" where
  "HMAC_CTX_cleanup ctx = HMAC_CTX_init"

definition HMAC_CTX_cleanse :: "hmac_ctx \<Rightarrow> hmac_ctx option" where
  "HMAC_CTX_cleanse ctx =
     (case (EVP_MD_CTX_cleanse (i_ctx ctx), EVP_MD_CTX_cleanse (o_ctx ctx), EVP_MD_CTX_cleanse (md_ctx ctx)) of
        (Some _, Some _, Some _) \<Rightarrow> Some HMAC_CTX_init
      | _ \<Rightarrow> None)"

definition HMAC_CTX_reset :: "hmac_ctx \<Rightarrow> hmac_ctx" where
  "HMAC_CTX_reset ctx = HMAC_CTX_init"

definition init_update :: "heap \<Rightarrow> evp_md \<Rightarrow> u8 list \<Rightarrow> evp_md_ctx \<Rightarrow> (bool \<times> evp_md_ctx) option" where
  "init_update malloc md d ctx =
     (case EVP_DigestInit_ex malloc md ctx of
        (False, ctx) \<Rightarrow> Some (False, ctx)
      | (True, ctx) \<Rightarrow> (case EVP_DigestUpdate d ctx of None \<Rightarrow> None | Some ctx \<Rightarrow> Some (True, ctx)))"

text \<open>The block of the key, padded with zeros; the digest of a long key goes through \<open>md_ctx\<close>.\<close>

definition hmac_key_block :: "heap \<Rightarrow> u8 list \<Rightarrow> evp_md \<Rightarrow> evp_md_ctx \<Rightarrow> (u8 list option \<times> evp_md_ctx) option" where
  "hmac_key_block malloc key md ctx =
     (let block_size = md_block_size md; pad = (\<lambda>k. k @ replicate (block_size - length k) 0) in
      if block_size < length key then
        (case init_update malloc md key ctx of
           None \<Rightarrow> None
         | Some (False, ctx) \<Rightarrow> Some (None, ctx)
         | Some (True, ctx) \<Rightarrow>
        (case EVP_DigestFinal_ex ctx of
           None \<Rightarrow> None
         | Some (out, ctx) \<Rightarrow> Some (Some (pad out), ctx)))
      else Some (Some (pad key), ctx))"

definition hmac_rewind :: "heap \<Rightarrow> hmac_ctx \<Rightarrow> bool \<times> hmac_ctx" where
  "hmac_rewind malloc ctx =
     (case EVP_MD_CTX_copy_ex malloc (md_ctx ctx) (i_ctx ctx) of (ok, c) \<Rightarrow> (ok, ctx\<lparr>md_ctx := c\<rparr>))"

definition hmac_set_key :: "(nat \<Rightarrow> heap) \<Rightarrow> u8 list \<Rightarrow> evp_md \<Rightarrow> hmac_ctx \<Rightarrow> (bool \<times> hmac_ctx) option" where
  "hmac_set_key malloc key md ctx =
     (case hmac_key_block (malloc 0) key md (md_ctx ctx) of
        None \<Rightarrow> None
      | Some (None, c) \<Rightarrow> Some (False, ctx\<lparr>md_ctx := c\<rparr>)
      | Some (Some key_block, c) \<Rightarrow>
     (let ctx = ctx\<lparr>md_ctx := c\<rparr> in
      case init_update (malloc 1) md (map (\<lambda>b. 0x36 XOR b) key_block) (i_ctx ctx) of
        None \<Rightarrow> None
      | Some (False, c) \<Rightarrow> Some (False, ctx\<lparr>i_ctx := c\<rparr>)
      | Some (True, c) \<Rightarrow>
     (let ctx = ctx\<lparr>i_ctx := c\<rparr> in
      case init_update (malloc 2) md (map (\<lambda>b. 0x5c XOR b) key_block) (o_ctx ctx) of
        None \<Rightarrow> None
      | Some (False, c) \<Rightarrow> Some (False, ctx\<lparr>o_ctx := c\<rparr>)
      | Some (True, c) \<Rightarrow> Some (True, ctx\<lparr>o_ctx := c, hmac_md := Some md\<rparr>))))"

definition HMAC_Init_ex :: "(nat \<Rightarrow> heap) \<Rightarrow> u8 list option \<Rightarrow> evp_md option \<Rightarrow> hmac_ctx \<Rightarrow> (bool \<times> hmac_ctx) option" where
  "HMAC_Init_ex malloc key md ctx =
     (let md = (if md = None then hmac_md ctx else md) in
      if md \<noteq> hmac_md ctx \<or> key \<noteq> None then
        (case md of
           None \<Rightarrow> None
         | Some md \<Rightarrow>
        (case hmac_set_key malloc (case key of None \<Rightarrow> [] | Some k \<Rightarrow> k) md ctx of
           None \<Rightarrow> None
         | Some (False, ctx) \<Rightarrow> Some (False, ctx)
         | Some (True, ctx) \<Rightarrow> Some (hmac_rewind (malloc 3) ctx)))
      else Some (hmac_rewind (malloc 3) ctx))"

definition HMAC_Update :: "u8 list \<Rightarrow> hmac_ctx \<Rightarrow> hmac_ctx option" where
  "HMAC_Update d ctx = (case EVP_DigestUpdate d (md_ctx ctx) of None \<Rightarrow> None | Some c \<Rightarrow> Some (ctx\<lparr>md_ctx := c\<rparr>))"

text \<open>The output, if the copy succeeded.\<close>

definition HMAC_Final :: "heap \<Rightarrow> hmac_ctx \<Rightarrow> (u8 list option \<times> hmac_ctx) option" where
  "HMAC_Final malloc ctx =
     (case EVP_DigestFinal_ex (md_ctx ctx) of
        None \<Rightarrow> None
      | Some (buf, c) \<Rightarrow>
     (case EVP_MD_CTX_copy_ex malloc c (o_ctx ctx) of
        (False, c) \<Rightarrow> Some (None, ctx\<lparr>md_ctx := c\<rparr>)
      | (True, c) \<Rightarrow>
     (case EVP_DigestUpdate buf c of
        None \<Rightarrow> None
      | Some c \<Rightarrow>
     (case EVP_DigestFinal_ex c of
        None \<Rightarrow> None
      | Some (out, c) \<Rightarrow> Some (Some out, ctx\<lparr>md_ctx := c\<rparr>)))))"

definition HMAC :: "(nat \<Rightarrow> heap) \<Rightarrow> evp_md \<Rightarrow> u8 list option \<Rightarrow> u8 list \<Rightarrow> u8 list option option" where
  "HMAC malloc md key d =
     (case HMAC_Init_ex malloc key (Some md) HMAC_CTX_init of
        None \<Rightarrow> None
      | Some (False, _) \<Rightarrow> Some None
      | Some (True, ctx) \<Rightarrow>
     (case HMAC_Update d ctx of
        None \<Rightarrow> None
      | Some ctx \<Rightarrow>
     (case HMAC_Final (malloc 4) ctx of
        None \<Rightarrow> None
      | Some (out, _) \<Rightarrow> Some out)))"

definition HMAC_size :: "hmac_ctx \<Rightarrow> nat option" where
  "HMAC_size ctx = map_option md_size (hmac_md ctx)"

text \<open>A copy that fails leaves the contexts that were copied before.\<close>

definition HMAC_CTX_copy_ex :: "(nat \<Rightarrow> heap) \<Rightarrow> hmac_ctx \<Rightarrow> hmac_ctx \<Rightarrow> bool \<times> hmac_ctx" where
  "HMAC_CTX_copy_ex malloc dest src =
     (case EVP_MD_CTX_copy_ex (malloc 0) (i_ctx dest) (i_ctx src) of
        (False, c) \<Rightarrow> (False, dest\<lparr>i_ctx := c\<rparr>)
      | (True, c) \<Rightarrow>
     (let dest = dest\<lparr>i_ctx := c\<rparr> in
      case EVP_MD_CTX_copy_ex (malloc 1) (o_ctx dest) (o_ctx src) of
        (False, c) \<Rightarrow> (False, dest\<lparr>o_ctx := c\<rparr>)
      | (True, c) \<Rightarrow>
     (let dest = dest\<lparr>o_ctx := c\<rparr> in
      case EVP_MD_CTX_copy_ex (malloc 2) (md_ctx dest) (md_ctx src) of
        (False, c) \<Rightarrow> (False, dest\<lparr>md_ctx := c\<rparr>)
      | (True, c) \<Rightarrow> (True, dest\<lparr>md_ctx := c, hmac_md := hmac_md src\<rparr>))))"

definition HMAC_Init :: "(nat \<Rightarrow> heap) \<Rightarrow> u8 list option \<Rightarrow> evp_md option \<Rightarrow> hmac_ctx \<Rightarrow> (bool \<times> hmac_ctx) option" where
  "HMAC_Init malloc key md ctx =
     HMAC_Init_ex malloc key md (if key \<noteq> None \<and> md \<noteq> None then HMAC_CTX_init else ctx)"

definition HMAC_CTX_copy :: "(nat \<Rightarrow> heap) \<Rightarrow> hmac_ctx \<Rightarrow> bool \<times> hmac_ctx" where
  "HMAC_CTX_copy malloc src = HMAC_CTX_copy_ex malloc HMAC_CTX_init src"

section \<open>RFC 2104\<close>

definition rfc2104_key :: "evp_md \<Rightarrow> u8 list \<Rightarrow> u8 list" where
  "rfc2104_key md k =
     (let k' = (if md_block_size md < length k then standard_digest md k else k) in k' @ replicate (md_block_size md - length k') 0)"

definition ipad :: "evp_md \<Rightarrow> u8 list \<Rightarrow> u8 list" where
  "ipad md k = map (\<lambda>b. b XOR 0x36) (rfc2104_key md k)"

definition opad :: "evp_md \<Rightarrow> u8 list \<Rightarrow> u8 list" where
  "opad md k = map (\<lambda>b. b XOR 0x5c) (rfc2104_key md k)"

definition rfc2104 :: "evp_md \<Rightarrow> u8 list \<Rightarrow> u8 list \<Rightarrow> u8 list" where
  "rfc2104 md k m = standard_digest md (opad md k @ standard_digest md (ipad md k @ m))"

lemma md_size_le_block: "md_size md \<le> md_block_size md"
  by (cases md) simp_all

lemma length_rfc2104_key: "length (rfc2104_key md k) = md_block_size md"
  using md_size_le_block [of md] by (auto simp: rfc2104_key_def length_standard_digest Let_def)

lemma length_pads: "length (ipad md k) = md_block_size md" "length (opad md k) = md_block_size md"
  by (simp_all add: ipad_def opad_def length_rfc2104_key)

section \<open>Contexts with a key\<close>

text \<open>The two halves of the key are in place, and the third context has what is left of its digest.\<close>

definition keyed :: "evp_md \<Rightarrow> u8 list \<Rightarrow> hmac_ctx \<Rightarrow> bool" where
  "keyed md k ctx \<longleftrightarrow>
     hmac_md ctx = Some md \<and> hashes md (ipad md k) (i_ctx ctx) \<and> hashes md (opad md k) (o_ctx ctx) \<and> digest (md_ctx ctx) = Some md"

definition authenticates :: "evp_md \<Rightarrow> u8 list \<Rightarrow> u8 list \<Rightarrow> hmac_ctx \<Rightarrow> bool" where
  "authenticates md k m ctx \<longleftrightarrow> keyed md k ctx \<and> hashes md (ipad md k @ m) (md_ctx ctx)"

lemma copy_same: "hashes md m inp \<Longrightarrow> digest out = Some md \<Longrightarrow> EVP_MD_CTX_copy_ex malloc out inp = (True, inp)"
  using EVP_MD_CTX_copy_ex [of md m inp malloc out] by auto

lemma rewind_same:
  assumes "keyed md k ctx"
  shows "\<exists>ctx'. hmac_rewind malloc ctx = (True, ctx') \<and> authenticates md k [] ctx'"
  using assms copy_same [of md "ipad md k" "i_ctx ctx" "md_ctx ctx" malloc]
  by (auto simp: keyed_def hmac_rewind_def authenticates_def hashes_digest)

lemma init_update:
  "\<exists>ok ctx'. init_update malloc md d ctx = Some (ok, ctx') \<and> (ok \<longrightarrow> hashes md d ctx') \<and>
     (ok \<longleftrightarrow> digest ctx = Some md \<or> OPENSSL_malloc malloc (md_ctx_size md) \<noteq> None)"
proof (cases "EVP_DigestInit_ex malloc md ctx")
  case (Pair ok c)
  show ?thesis
  proof (cases ok)
    case True
    obtain c' where "EVP_DigestUpdate d c = Some c'" "hashes md ([] @ d) c'"
      using EVP_DigestUpdate [OF EVP_DigestInit_ex [of malloc md ctx c], of d] Pair True by auto
    then show ?thesis using Pair True by (auto simp: init_update_def EVP_DigestInit_ex_def split: if_splits option.splits)
  next
    case False
    then show ?thesis using Pair by (auto simp: init_update_def EVP_DigestInit_ex_def split: if_splits option.splits)
  qed
qed

lemma hmac_key_block:
  "(\<exists>ctx'. hmac_key_block malloc key md ctx = Some (Some (rfc2104_key md key), ctx') \<and> (digest ctx' = digest ctx \<or> digest ctx' = Some md)) \<or>
   (\<exists>ctx'. hmac_key_block malloc key md ctx = Some (None, ctx') \<and> digest ctx \<noteq> Some md \<and> OPENSSL_malloc malloc (md_ctx_size md) = None)"
proof (cases "md_block_size md < length key")
  case True
  obtain ok c where c: "init_update malloc md key ctx = Some (ok, c)" "ok \<longrightarrow> hashes md key c"
      "ok \<longleftrightarrow> digest ctx = Some md \<or> OPENSSL_malloc malloc (md_ctx_size md) \<noteq> None"
    using init_update [of malloc md key ctx] by blast
  show ?thesis
  proof (cases ok)
    case ok: True
    obtain c' where "EVP_DigestFinal_ex c = Some (standard_digest md key, c')" "digest c' = Some md"
      using EVP_DigestFinal_ex c(2) ok by blast
    then show ?thesis using c(1) ok True by (simp add: hmac_key_block_def rfc2104_key_def Let_def)
  next
    case False
    then show ?thesis using c True by (simp add: hmac_key_block_def)
  qed
qed (simp add: hmac_key_block_def rfc2104_key_def)

lemma pads: "map (\<lambda>b. 0x36 XOR b) (rfc2104_key md k) = ipad md k" "map (\<lambda>b. 0x5c XOR b) (rfc2104_key md k) = opad md k"
  by (simp_all add: ipad_def opad_def xor.commute)

text \<open>It never follows a null pointer, and fails only where an allocator does.\<close>

lemma hmac_set_key:
  "(\<exists>ctx'. hmac_set_key malloc key md ctx = Some (True, ctx') \<and> hmac_md ctx' = Some md \<and>
      hashes md (ipad md key) (i_ctx ctx') \<and> hashes md (opad md key) (o_ctx ctx') \<and>
      (digest (md_ctx ctx') = digest (md_ctx ctx) \<or> digest (md_ctx ctx') = Some md)) \<or>
   (\<exists>ctx' i. hmac_set_key malloc key md ctx = Some (False, ctx') \<and> OPENSSL_malloc (malloc i) (md_ctx_size md) = None \<and>
      \<not> (digest (md_ctx ctx) = Some md \<and> digest (i_ctx ctx) = Some md \<and> digest (o_ctx ctx) = Some md))"
proof -
  consider (key) c where "hmac_key_block (malloc 0) key md (md_ctx ctx) = Some (Some (rfc2104_key md key), c)"
      "digest c = digest (md_ctx ctx) \<or> digest c = Some md"
    | (none) c where "hmac_key_block (malloc 0) key md (md_ctx ctx) = Some (None, c)" "digest (md_ctx ctx) \<noteq> Some md"
      "OPENSSL_malloc (malloc 0) (md_ctx_size md) = None"
    using hmac_key_block [of "malloc 0" key md "md_ctx ctx"] by blast
  then show ?thesis
  proof cases
    case key
    obtain a i where i: "init_update (malloc 1) md (ipad md key) (i_ctx ctx) = Some (a, i)" "a \<longrightarrow> hashes md (ipad md key) i"
        "a \<longleftrightarrow> digest (i_ctx ctx) = Some md \<or> OPENSSL_malloc (malloc 1) (md_ctx_size md) \<noteq> None"
      using init_update [of "malloc 1" md "ipad md key" "i_ctx ctx"] by blast
    obtain b ob where ob: "init_update (malloc 2) md (opad md key) (o_ctx ctx) = Some (b, ob)" "b \<longrightarrow> hashes md (opad md key) ob"
        "b \<longleftrightarrow> digest (o_ctx ctx) = Some md \<or> OPENSSL_malloc (malloc 2) (md_ctx_size md) \<noteq> None"
      using init_update [of "malloc 2" md "opad md key" "o_ctx ctx"] by blast
    consider "a" "b" | "\<not> a" | "a" "\<not> b" by blast
    then show ?thesis
    proof cases
      case 1
      then show ?thesis using key i ob by (simp add: hmac_set_key_def pads)
    next
      case 2
      then have "OPENSSL_malloc (malloc 1) (md_ctx_size md) = None" "digest (i_ctx ctx) \<noteq> Some md" using i(3) by simp_all
      then show ?thesis using 2 key i by (auto simp: hmac_set_key_def pads)
    next
      case 3
      then have "OPENSSL_malloc (malloc 2) (md_ctx_size md) = None" "digest (o_ctx ctx) \<noteq> Some md" using ob(3) by simp_all
      then show ?thesis using 3 key i ob by (auto simp: hmac_set_key_def pads)
    qed
  next
    case none
    then show ?thesis by (auto simp: hmac_set_key_def)
  qed
qed


text \<open>A key for the digest of the context (or the first key) is set or the allocator failed.\<close>

lemma HMAC_Init_ex_key:
  assumes "md' = Some md \<or> md' = None \<and> hmac_md ctx = Some md"
  shows "(\<exists>ctx'. HMAC_Init_ex malloc (Some k) md' ctx = Some (True, ctx') \<and> authenticates md k [] ctx') \<or>
    (\<exists>ctx' i. HMAC_Init_ex malloc (Some k) md' ctx = Some (False, ctx') \<and> OPENSSL_malloc (malloc i) (md_ctx_size md) = None \<and>
      \<not> (digest (md_ctx ctx) = Some md \<and> digest (i_ctx ctx) = Some md \<and> digest (o_ctx ctx) = Some md))"
proof -
  have e: "HMAC_Init_ex malloc (Some k) md' ctx =
      (case hmac_set_key malloc k md ctx of
         None \<Rightarrow> None
       | Some (False, ctx) \<Rightarrow> Some (False, ctx)
       | Some (True, ctx) \<Rightarrow> Some (hmac_rewind (malloc 3) ctx))"
    using assms by (auto simp: HMAC_Init_ex_def)
  consider (keyed) c where "hmac_set_key malloc k md ctx = Some (True, c)" "hmac_md c = Some md"
      "hashes md (ipad md k) (i_ctx c)" "hashes md (opad md k) (o_ctx c)"
      "digest (md_ctx c) = digest (md_ctx ctx) \<or> digest (md_ctx c) = Some md"
    | (failed) c i where "hmac_set_key malloc k md ctx = Some (False, c)" "OPENSSL_malloc (malloc i) (md_ctx_size md) = None"
      "\<not> (digest (md_ctx ctx) = Some md \<and> digest (i_ctx ctx) = Some md \<and> digest (o_ctx ctx) = Some md)"
    using hmac_set_key [of malloc k md ctx] by blast
  then show ?thesis
  proof cases
    case keyed
    consider "EVP_MD_CTX_copy_ex (malloc 3) (md_ctx c) (i_ctx c) = (True, i_ctx c)"
      | "EVP_MD_CTX_copy_ex (malloc 3) (md_ctx c) (i_ctx c) = (False, md_ctx c)" "digest (md_ctx c) \<noteq> Some md"
        "OPENSSL_malloc (malloc 3) (md_ctx_size md) = None"
      using EVP_MD_CTX_copy_ex [OF keyed(3), of "malloc 3" "md_ctx c"] by auto
    then show ?thesis
    proof cases
      case 1
      then show ?thesis using keyed by (simp add: e hmac_rewind_def authenticates_def keyed_def hashes_digest)
    next
      case 2
      then show ?thesis using keyed by (auto simp: e hmac_rewind_def)
    qed
  next
    case failed
    then show ?thesis by (auto simp: e)
  qed
qed

lemma HMAC_Init_ex_rewind:
  "keyed md k ctx \<Longrightarrow> md' = None \<or> md' = Some md \<Longrightarrow>
    \<exists>ctx'. HMAC_Init_ex malloc None md' ctx = Some (True, ctx') \<and> authenticates md k [] ctx'"
  using rewind_same [of md k ctx "malloc 3"] by (auto simp: HMAC_Init_ex_def keyed_def)

lemma HMAC_Update:
  assumes "authenticates md k m ctx"
  shows "\<exists>ctx'. HMAC_Update d ctx = Some ctx' \<and> authenticates md k (m @ d) ctx'"
proof -
  obtain c where c: "EVP_DigestUpdate d (md_ctx ctx) = Some c" "hashes md ((ipad md k @ m) @ d) c"
    using EVP_DigestUpdate [of md "ipad md k @ m" "md_ctx ctx" d] assms unfolding authenticates_def by blast
  then show ?thesis using assms by (simp add: HMAC_Update_def authenticates_def keyed_def hashes_digest)
qed

lemma HMAC_Final:
  assumes "authenticates md k m ctx"
  shows "\<exists>ctx'. HMAC_Final malloc ctx = Some (Some (rfc2104 md k m), ctx') \<and> keyed md k ctx'"
proof -
  let ?i = "standard_digest md (ipad md k @ m)"
  have k: "keyed md k ctx" and h: "hashes md (ipad md k @ m) (md_ctx ctx)" using assms by (auto simp: authenticates_def)
  obtain c where c: "EVP_DigestFinal_ex (md_ctx ctx) = Some (?i, c)" "digest c = Some md" using EVP_DigestFinal_ex [OF h] by blast
  have o': "hashes md (opad md k) (o_ctx ctx)" using k by (simp add: keyed_def)
  have cp: "EVP_MD_CTX_copy_ex malloc c (o_ctx ctx) = (True, o_ctx ctx)" using copy_same [OF o' c(2)] .
  obtain c2 where c2: "EVP_DigestUpdate ?i (o_ctx ctx) = Some c2" "hashes md (opad md k @ ?i) c2" using EVP_DigestUpdate [OF o'] by blast
  obtain c3 where "EVP_DigestFinal_ex c2 = Some (standard_digest md (opad md k @ ?i), c3)" "digest c3 = Some md"
    using EVP_DigestFinal_ex [OF c2(2)] by blast
  then show ?thesis using c(1) cp c2(1) k by (simp add: HMAC_Final_def rfc2104_def keyed_def)
qed

section \<open>Sessions\<close>

fun hmac_updates :: "u8 list list \<Rightarrow> hmac_ctx \<Rightarrow> hmac_ctx option" where
  "hmac_updates [] ctx = Some ctx"
| "hmac_updates (d # ds) ctx = (case HMAC_Update d ctx of None \<Rightarrow> None | Some ctx \<Rightarrow> hmac_updates ds ctx)"

lemma hmac_updates: "authenticates md k m ctx \<Longrightarrow> \<exists>ctx'. hmac_updates ds ctx = Some ctx' \<and> authenticates md k (m @ concat ds) ctx'"
proof (induction ds arbitrary: m ctx)
  case (Cons d ds)
  obtain c where c: "HMAC_Update d ctx = Some c" "authenticates md k (m @ d) c" using HMAC_Update [OF Cons.prems] by blast
  show ?case using Cons.IH [OF c(2)] c(1) by simp
qed simp

text \<open>Each message is a list of pieces; a null key rewinds the context for the next one.\<close>

fun hmac_session :: "(nat \<Rightarrow> heap) \<Rightarrow> u8 list list list \<Rightarrow> hmac_ctx \<Rightarrow> u8 list option list option" where
  "hmac_session malloc [] ctx = Some []"
| "hmac_session malloc (m # ms) ctx =
     (case hmac_updates m ctx of
        None \<Rightarrow> None
      | Some ctx \<Rightarrow>
     (case HMAC_Final (malloc 4) ctx of
        None \<Rightarrow> None
      | Some (out, ctx) \<Rightarrow>
     (case HMAC_Init_ex malloc None None ctx of
        None \<Rightarrow> None
      | Some (ok, ctx) \<Rightarrow>
     (case hmac_session malloc ms ctx of None \<Rightarrow> None | Some outs \<Rightarrow> Some (out # outs)))))"

lemma hmac_session:
  "authenticates md k [] ctx \<Longrightarrow> hmac_session malloc ms ctx = Some (map (\<lambda>m. Some (rfc2104 md k (concat m))) ms)"
proof (induction ms arbitrary: ctx)
  case (Cons m ms)
  obtain c where c: "hmac_updates m ctx = Some c" "authenticates md k ([] @ concat m) c" using hmac_updates [OF Cons.prems] by blast
  obtain c2 where c2: "HMAC_Final (malloc 4) c = Some (Some (rfc2104 md k ([] @ concat m)), c2)" "keyed md k c2"
    using HMAC_Final [OF c(2)] by blast
  obtain c3 where c3: "HMAC_Init_ex malloc None None c2 = Some (True, c3)" "authenticates md k [] c3"
    using HMAC_Init_ex_rewind [OF c2(2)] by blast
  show ?case using c(1) c2(1) c3(1) Cons.IH [OF c3(2)] by simp
qed simp

text \<open>C13. Once a context has a key, which takes the only allocations there are, it computes the HMAC of RFC 2104 of every message of any
  sequence, each in pieces of any lengths and with a null key between two messages, whatever the allocators do: keys longer than a block
  are hashed and all keys padded with zeros, and no key but the last one matters.\<close>

theorem hmac_rfc2104:
  assumes "HMAC_Init_ex malloc (Some k) (Some md) ctx = Some (True, ctx')"
  shows "hmac_session malloc' ms ctx' = Some (map (\<lambda>m. Some (rfc2104 md k (concat m))) ms)"
  using HMAC_Init_ex_key [of "Some md" md ctx malloc k] assms by (intro hmac_session) auto

lemma hmac_rfc2104_witness:
  "\<exists>ctx'. HMAC_Init_ex (\<lambda>_ n. Some (replicate n 0)) (Some [1, 2]) (Some EVP_sha1) HMAC_CTX_init = Some (True, ctx') \<and>
     hmac_session (\<lambda>_ n. None) [[[3], [4, 5]], []] ctx' = Some [Some (rfc2104 EVP_sha1 [1, 2] [3, 4, 5]), Some (rfc2104 EVP_sha1 [1, 2] [])]"
proof -
  have "OPENSSL_malloc ((\<lambda>_ n. Some (replicate n 0)) i) (md_ctx_size EVP_sha1) \<noteq> None" for i :: nat by (simp add: OPENSSL_malloc_def)
  then obtain c where c: "HMAC_Init_ex (\<lambda>_ n. Some (replicate n 0)) (Some [1, 2]) (Some EVP_sha1) HMAC_CTX_init = Some (True, c)"
    using HMAC_Init_ex_key [of "Some EVP_sha1" EVP_sha1 HMAC_CTX_init "\<lambda>_ n. Some (replicate n 0)" "[1, 2]"] by auto
  from hmac_rfc2104 [OF this, of "\<lambda>_ n. None" "[[[3], [4, 5]], []]"] c show ?thesis by auto
qed

text \<open>Another key for the digest of a context that has one needs no memory.\<close>

lemma hmac_rekey:
  assumes "keyed md k ctx" "md' = None \<or> md' = Some md"
  shows "\<exists>ctx'. HMAC_Init_ex malloc (Some k') md' ctx = Some (True, ctx') \<and> authenticates md k' [] ctx'"
  using HMAC_Init_ex_key [of md' md ctx malloc k'] assms by (auto simp: keyed_def hashes_digest)

lemma HMAC_CTX_copy_ex:
  assumes "authenticates md k m src" "HMAC_CTX_copy_ex malloc dest src = (True, dest')"
  shows "authenticates md k m dest'"
proof -
  have h: "hashes md (ipad md k) (i_ctx src)" "hashes md (opad md k) (o_ctx src)" "hashes md (ipad md k @ m) (md_ctx src)"
    using assms(1) by (auto simp: authenticates_def keyed_def)
  have c: "c = y" if "EVP_MD_CTX_copy_ex f x y = (True, c)" "hashes md z y" for f x y z c
    using EVP_MD_CTX_copy_ex [OF that(2), of f x] that(1) by auto
  show ?thesis
    using assms(2,1)
    by (auto simp: HMAC_CTX_copy_ex_def authenticates_def keyed_def Let_def split: prod.splits bool.splits
        dest!: c [OF _ h(1)] c [OF _ h(2)] c [OF _ h(3)])
qed

text \<open>The function for one message.\<close>

lemma HMAC_rfc2104:
  "HMAC malloc md (Some k) d = Some (Some (rfc2104 md k d)) \<or>
   HMAC malloc md (Some k) d = Some None \<and> (\<exists>i. OPENSSL_malloc (malloc i) (md_ctx_size md) = None)"
proof -
  consider (ok) c where "HMAC_Init_ex malloc (Some k) (Some md) HMAC_CTX_init = Some (True, c)" "authenticates md k [] c"
    | (failed) c i where "HMAC_Init_ex malloc (Some k) (Some md) HMAC_CTX_init = Some (False, c)"
      "OPENSSL_malloc (malloc i) (md_ctx_size md) = None"
    using HMAC_Init_ex_key [of "Some md" md HMAC_CTX_init malloc k] by blast
  then show ?thesis
  proof cases
    case ok
    obtain c2 where c2: "HMAC_Update d c = Some c2" "authenticates md k ([] @ d) c2" using HMAC_Update [OF ok(2)] by blast
    show ?thesis using HMAC_Final [OF c2(2), of "malloc 4"] ok(1) c2(1) by (auto simp: HMAC_def)
  next
    case failed
    then show ?thesis by (auto simp: HMAC_def)
  qed
qed

text \<open>A context that was initialised but has no key cannot be cleansed: the null digest is followed.\<close>

lemma HMAC_CTX_cleanse_unkeyed: "HMAC_CTX_cleanse HMAC_CTX_init = None"
  by (simp add: HMAC_CTX_cleanse_def HMAC_CTX_init_def EVP_MD_CTX_cleanse_def EVP_MD_CTX_init_def)

end
