(* ===== verification/Digest_Md5_Sines.thy ===== *)
theory Digest_Md5_Sines
  imports Complex_Main Digest_Md5
begin

text \<open>
  The constants of MD5 are those of RFC 1321: the integer parts of \<open>2 ^ 32\<close> times the sines of the numbers from 1 to 64. The sines are
  approximated in fixed point by \<open>sin (x + 2) = 2 * cos 1 * sin (x + 1) - sin x\<close>, from the series of \<open>sin 1\<close> and \<open>cos 1\<close>.
\<close>

definition fx :: int where "fx = 2 ^ 60"

definition fx_sin1 :: int where "fx_sin1 = 970149993887725314"

definition fx_cos1 :: int where "fx_cos1 = 622926147424044489"

lemma fx_series:
  assumes "\<bar>x - s\<bar> \<le> inverse (fact 24)" and "\<bar>real_of_int fx * s - real_of_int a\<bar> \<le> 1"
  shows "\<bar>real_of_int fx * x - real_of_int a\<bar> \<le> 2"
proof -
  have n: "0 \<le> real_of_int fx" "real_of_int fx * inverse (fact 24) \<le> 1" by (simp_all add: fx_def fact_numeral)
  have "\<bar>real_of_int fx * x - real_of_int fx * s\<bar> = real_of_int fx * \<bar>x - s\<bar>"
    unfolding right_diff_distrib [symmetric] abs_mult using n(1) by simp
  also have "\<dots> \<le> real_of_int fx * inverse (fact 24)" by (rule mult_left_mono [OF assms(1) n(1)])
  finally show ?thesis using n(2) assms(2) by linarith
qed

lemma fx_sin1: "\<bar>real_of_int fx * sin 1 - real_of_int fx_sin1\<bar> \<le> 2"
proof (rule fx_series)
  show "\<bar>sin 1 - (\<Sum>m<24. sin_coeff m * 1 ^ m)\<bar> \<le> inverse (fact 24)" using Maclaurin_sin_bound [of 1 24] by simp
  show "\<bar>real_of_int fx * (\<Sum>m<24. sin_coeff m * 1 ^ m) - real_of_int fx_sin1\<bar> \<le> 1"
    by (simp add: sin_coeff_def lessThan_nat_numeral lessThan_Suc fact_numeral fx_def fx_sin1_def)
qed

lemma fx_cos1: "\<bar>real_of_int fx * cos 1 - real_of_int fx_cos1\<bar> \<le> 2"
proof (rule fx_series)
  obtain t where "cos 1 = (\<Sum>m<24. cos_coeff m * 1 ^ m) + (cos (t + 1/2 * real 24 * pi) / fact 24) * (1::real) ^ 24"
    using Maclaurin_cos_expansion [of 1 24] by blast
  moreover have "\<bar>cos (t + 1/2 * real 24 * pi) / fact 24\<bar> \<le> inverse (fact 24)"
    unfolding abs_divide inverse_eq_divide by (rule frac_le) simp_all
  ultimately show "\<bar>cos 1 - (\<Sum>m<24. cos_coeff m * 1 ^ m)\<bar> \<le> inverse (fact 24)" by simp
  show "\<bar>real_of_int fx * (\<Sum>m<24. cos_coeff m * 1 ^ m) - real_of_int fx_cos1\<bar> \<le> 1"
    by (simp add: cos_coeff_def lessThan_nat_numeral lessThan_Suc fact_numeral fx_def fx_cos1_def)
qed

lemma sin1: "1 / 2 \<le> sin (1::real)"
  using fx_sin1 by (simp add: fx_def fx_sin1_def)

text \<open>
  The errors of two approximations that follow each other, as a complex number: a step turns it and adds an error that does not depend on
  the ones before.
\<close>

definition errors :: "real \<Rightarrow> int \<Rightarrow> int \<Rightarrow> complex" where
  "errors x a b =
     (let ea = real_of_int fx * sin x - a; eb = real_of_int fx * sin (x + 1) - b in Complex (eb - cos 1 * ea) (sin 1 * ea))"

lemma errors_bound: "\<bar>real_of_int fx * sin (x + 1) - b\<bar> \<le> 2 * cmod (errors x a b)"
proof -
  define ea eb where "ea = real_of_int fx * sin x - a" and "eb = real_of_int fx * sin (x + 1) - b"
  have "Im (cis 1 * errors x a b) = sin 1 * eb" by (simp add: errors_def ea_def eb_def Let_def algebra_simps)
  then have "sin 1 * \<bar>eb\<bar> \<le> cmod (errors x a b)"
    using abs_Im_le_cmod [of "cis 1 * errors x a b"] sin1 by (simp add: norm_mult abs_mult)
  moreover have "1 / 2 * \<bar>eb\<bar> \<le> sin 1 * \<bar>eb\<bar>" using sin1 by (rule mult_right_mono) simp
  ultimately have "1 / 2 * \<bar>eb\<bar> \<le> cmod (errors x a b)" by (rule order_trans [rotated])
  then show ?thesis unfolding eb_def by simp
qed

lemma errors_step:
  assumes "2 * cmod (errors x a b) \<le> fx"
  shows "cmod (errors (x + 1) b (2 * fx_cos1 * b div fx - a)) \<le> cmod (errors x a b) + 9"
proof -
  define M where "M = real_of_int fx"
  have M: "0 < M" by (simp add: M_def fx_def)
  define q where "q = real_of_int fx_cos1 * real_of_int b / M"
  define d where "d = real_of_int (2 * fx_cos1 * b div fx)"
  have "d = of_int \<lfloor>2 * q\<rfloor>"
    unfolding d_def q_def M_def using floor_divide_of_int_eq [of "2 * fx_cos1 * b" fx, where ?'a = real] by (simp add: mult.assoc)
  then have d: "\<bar>d - 2 * q\<bar> \<le> 1" by linarith
  have "M * \<bar>cos 1 - real_of_int fx_cos1 / M\<bar> = \<bar>M * (cos 1 - real_of_int fx_cos1 / M)\<bar>" using M by (simp only: abs_mult abs_of_pos)
  also have "M * (cos 1 - real_of_int fx_cos1 / M) = M * cos 1 - real_of_int fx_cos1" using M by (simp add: right_diff_distrib)
  finally have c: "\<bar>cos 1 - real_of_int fx_cos1 / M\<bar> \<le> 2 / M"
    using fx_cos1 M by (simp add: M_def pos_le_divide_eq mult.commute)
  have "\<bar>M * sin (x + 1)\<bar> \<le> M" using M abs_sin_le_one [of "x + 1"] by (simp add: abs_mult)
  then have b: "\<bar>real_of_int b\<bar> \<le> 2 * M" using errors_bound [of x b a] assms unfolding M_def by linarith
  define Q where "Q = b * (cos 1 - real_of_int fx_cos1 / M)"
  have "\<bar>Q\<bar> \<le> 2 * M * (2 / M)" unfolding Q_def abs_mult using b c M by (intro mult_mono) simp_all
  then have Q: "\<bar>Q\<bar> \<le> 4" using M by simp
  define r where "r = 2 * Q + (2 * q - d)"
  have r: "\<bar>r\<bar> \<le> 9" using Q d unfolding r_def by linarith
  have s: "sin (x + 2) = 2 * cos 1 * sin (x + 1) - sin x"
    using sin_add [of "x + 1" 1] sin_add [of "x + 1" "- 1"] by (simp add: algebra_simps)
  have rot: "2 * cos 1 * eb - ea = cos 1 * eb + (cos 1 * (eb - cos 1 * ea) - sin 1 * (sin 1 * ea))" for ea eb :: real
    using sin_cos_squared_add3 [of "1::real"] by algebra
  have "errors (x + 1) b (2 * fx_cos1 * b div fx - a) = cis 1 * errors x a b + complex_of_real r"
  proof (rule complex_eqI)
    define ea eb where "ea = M * sin x - a" and "eb = M * sin (x + 1) - b"
    have "M * sin (x + 2) - (d - a) = 2 * cos 1 * eb - ea + r"
      unfolding s ea_def eb_def r_def Q_def q_def by (simp add: algebra_simps)
    then show "Re (errors (x + 1) b (2 * fx_cos1 * b div fx - a)) = Re (cis 1 * errors x a b + complex_of_real r)"
      using rot [of eb ea] by (simp add: errors_def Let_def ea_def eb_def d_def M_def add.assoc)
  next
    show "Im (errors (x + 1) b (2 * fx_cos1 * b div fx - a)) = Im (cis 1 * errors x a b + complex_of_real r)"
      by (simp add: errors_def Let_def algebra_simps)
  qed
  then have "cmod (errors (x + 1) b (2 * fx_cos1 * b div fx - a)) \<le> cmod (cis 1 * errors x a b) + \<bar>r\<bar>"
    using norm_triangle_ineq [of "cis 1 * errors x a b" "complex_of_real r"] by simp
  then show ?thesis using r by (simp add: norm_mult)
qed

fun sines :: "nat \<Rightarrow> int \<Rightarrow> int \<Rightarrow> int list" where
  "sines 0 a b = []"
| "sines (Suc n) a b = b # sines n b (2 * fx_cos1 * b div fx - a)"

lemma sines:
  "cmod (errors x a b) \<le> e \<Longrightarrow> 2 * (e + 9 * real n) \<le> real_of_int fx \<Longrightarrow> i < n \<Longrightarrow>
    \<bar>real_of_int fx * sin (x + 1 + real i) - sines n a b ! i\<bar> \<le> 2 * (e + 9 * real n)"
proof (induction n arbitrary: x a b e i)
  case (Suc n)
  show ?case
  proof (cases i)
    case 0
    then show ?thesis using Suc.prems errors_bound [of x b a] by simp
  next
    case (Suc j)
    have "cmod (errors (x + 1) b (2 * fx_cos1 * b div fx - a)) \<le> e + 9"
      using errors_step [of x a b] Suc.prems by simp
    from Suc.IH [OF this, of j] show ?thesis using Suc Suc.prems by (simp add: algebra_simps)
  qed
qed simp

text \<open>All approximations are good enough to tell the integer part.\<close>

definition fx_error :: int where "fx_error = 1160"

fun check_sines :: "int \<Rightarrow> int \<Rightarrow> int list \<Rightarrow> bool" where
  "check_sines a b [] = True"
| "check_sines a b (t # ts) \<longleftrightarrow>
     t * fx \<le> (\<bar>b\<bar> - fx_error) * 2 ^ 32 \<and> (\<bar>b\<bar> + fx_error) * 2 ^ 32 < (t + 1) * fx \<and> check_sines b (drop_bit 60 (2 * fx_cos1 * b) - a) ts"

lemma check_sines_nth:
  "check_sines a b ts \<Longrightarrow> i < length ts \<Longrightarrow>
    ts ! i * fx \<le> (\<bar>sines (length ts) a b ! i\<bar> - fx_error) * 2 ^ 32 \<and> (\<bar>sines (length ts) a b ! i\<bar> + fx_error) * 2 ^ 32 < (ts ! i + 1) * fx"
  by (induction a b ts arbitrary: i rule: check_sines.induct) (auto simp: nth_Cons drop_bit_eq_div fx_def split: nat.splits)

lemma length_md5_T: "length md5_T = 64"
  by (simp add: md5_T_def)

lemma check_md5: "check_sines 0 fx_sin1 (map uint md5_T)"
  by (simp add: md5_T_def fx_def fx_sin1_def fx_cos1_def fx_error_def)

theorem md5_const_sine:
  assumes "i < 64"
  shows "uint (md5_const i) = \<lfloor>2 ^ 32 * \<bar>sin (real (i + 1))\<bar>\<rfloor>"
proof -
  define a where "a = sines 64 0 fx_sin1 ! i"
  have "cmod (errors 0 0 fx_sin1) \<le> 4" using fx_sin1 by (simp add: errors_def complex_norm)
  from sines [OF this, of 64 i] have c: "\<bar>real_of_int fx * sin (real (i + 1)) - a\<bar> \<le> fx_error"
    using assms by (simp add: a_def fx_def fx_error_def add.commute)
  define ts where "ts = map uint md5_T"
  have "length ts = 64" "ts ! i = uint (md5_const i)" using assms by (simp_all add: ts_def md5_const_def length_md5_T)
  then have t: "uint (md5_const i) * fx \<le> (\<bar>a\<bar> - fx_error) * 2 ^ 32" "(\<bar>a\<bar> + fx_error) * 2 ^ 32 < (uint (md5_const i) + 1) * fx"
    using check_sines_nth [OF check_md5 [folded ts_def], of i] assms by (simp_all add: a_def)
  define y where "y = \<bar>sin (real (i + 1))\<bar>"
  have M: "0 < real_of_int fx" by (simp add: fx_def)
  have "\<bar>real_of_int fx * sin (real (i + 1))\<bar> = real_of_int fx * y" using M by (simp add: abs_mult y_def)
  then have y: "real_of_int (\<bar>a\<bar> - fx_error) \<le> real_of_int fx * y" "real_of_int fx * y \<le> real_of_int (\<bar>a\<bar> + fx_error)"
    using c by linarith+
  have "real_of_int (uint (md5_const i) * fx) \<le> real_of_int ((\<bar>a\<bar> - fx_error) * 2 ^ 32)" using t(1) by (simp only: of_int_le_iff)
  also have "\<dots> = real_of_int (\<bar>a\<bar> - fx_error) * 2 ^ 32" by simp
  also have "\<dots> \<le> real_of_int fx * y * 2 ^ 32" using y(1) by (rule mult_right_mono) simp
  finally have lo: "real_of_int (uint (md5_const i)) * real_of_int fx \<le> 2 ^ 32 * y * real_of_int fx" by (simp add: mult_ac)
  have "real_of_int fx * y * 2 ^ 32 \<le> real_of_int (\<bar>a\<bar> + fx_error) * 2 ^ 32" using y(2) by (rule mult_right_mono) simp
  also have "\<dots> = real_of_int ((\<bar>a\<bar> + fx_error) * 2 ^ 32)" by simp
  also have "\<dots> < real_of_int ((uint (md5_const i) + 1) * fx)" using t(2) by (simp only: of_int_less_iff)
  finally have hi: "2 ^ 32 * y * real_of_int fx < real_of_int (uint (md5_const i) + 1) * real_of_int fx" by (simp add: mult_ac)
  have "real_of_int (uint (md5_const i)) \<le> 2 ^ 32 * y" "2 ^ 32 * y < real_of_int (uint (md5_const i) + 1)"
    using lo hi M by (simp_all only: mult_le_cancel_right_pos mult_less_cancel_right_pos)
  then have "\<lfloor>2 ^ 32 * y\<rfloor> = uint (md5_const i)" by (intro floor_unique) simp_all
  then show ?thesis by (simp add: y_def)
qed

end
