(* ===== verification/Tls_Cbc.thy ===== *)
theory Tls_Cbc
  imports Hmac
begin

text \<open>
  Model of \<^verbatim>\<open>crypto/cipher_extra/tls_cbc.c\<close>: checking the padding of a CBC record, extracting its MAC and computing the MAC that
  is expected, all without a branch or an address that depends on secret bytes. Lengths that the code bounds are naturals and become words
  where a mask is made of them.
\<close>

unbundle bit_operations_syntax

section \<open>The padding\<close>

definition padding_byte :: "u8 list \<Rightarrow> u64 \<Rightarrow> nat \<Rightarrow> u64 \<Rightarrow> u64" where
  "padding_byte inp padding_length i good =
     (let mask = constant_time_ge_8 padding_length (word_of_nat i);
          b = inp ! (length inp - 1 - i)
      in good AND NOT (ucast mask AND (padding_length XOR ucast b)))"

text \<open>\<open>*out_padding_ok\<close> and \<open>*out_len\<close>, or nothing when the record is too short.\<close>

definition EVP_tls_cbc_remove_padding :: "u8 list \<Rightarrow> nat \<Rightarrow> (u64 \<times> u64) option" where
  "EVP_tls_cbc_remove_padding inp mac_size =
     (let in_len = length inp; overhead = 1 + mac_size in
      if overhead > in_len then None
      else
        let padding_length = ucast (inp ! (in_len - 1)) :: u64;
            good = constant_time_ge_w (word_of_nat in_len) (word_of_nat overhead + padding_length);
            to_check = (if 256 > in_len then in_len else 256);
            good = fold (padding_byte inp padding_length) [0..<to_check] good;
            good = constant_time_eq_w 0xff (good AND 0xff);
            padding_length = good AND (padding_length + 1)
        in Some (good, word_of_nat in_len - padding_length))"

section \<open>The MAC of the record\<close>

text \<open>The variables of the scan: \<open>j\<close>, \<open>rotate_offset\<close>, \<open>mac_started\<close> and \<open>rotated_mac\<close>.\<close>

definition scan_byte :: "u8 list \<Rightarrow> nat \<Rightarrow> nat \<Rightarrow> nat \<Rightarrow> nat \<times> u64 \<times> u8 \<times> u8 list \<Rightarrow> nat \<times> u64 \<times> u8 \<times> u8 list" where
  "scan_byte inp mac_size mac_end i s =
     (case s of (j, rotate_offset, mac_started, rotated_mac) \<Rightarrow>
        let j = (if j \<ge> mac_size then j - mac_size else j);
            is_mac_start = constant_time_eq_w (word_of_nat i) (word_of_nat (mac_end - mac_size));
            mac_started = ucast (ucast mac_started OR is_mac_start);
            mac_ended = constant_time_ge_8 (word_of_nat i) (word_of_nat mac_end)
        in (j + 1, rotate_offset OR (word_of_nat j AND is_mac_start), mac_started,
            rotated_mac[j := rotated_mac ! j OR (inp ! i AND mac_started AND NOT mac_ended)]))"

definition rotate_once :: "nat \<Rightarrow> nat \<Rightarrow> u64 \<Rightarrow> u8 list \<Rightarrow> u8 list" where
  "rotate_once mac_size offset rotate_offset mac =
     (let skip_rotate = ucast (rotate_offset AND 1) - 1 :: u8
      in map (\<lambda>i. let j = (if offset + i \<ge> mac_size then offset + i - mac_size else offset + i)
               in constant_time_select_8 (ucast skip_rotate) (mac ! i) (mac ! j)) [0..<mac_size])"

function rotate_steps :: "nat \<Rightarrow> nat \<Rightarrow> u64 \<Rightarrow> u8 list \<Rightarrow> u8 list" where
  "rotate_steps mac_size offset rotate_offset mac =
     (if 0 < offset \<and> offset < mac_size then
        rotate_steps mac_size (2 * offset) (drop_bit 1 rotate_offset) (rotate_once mac_size offset rotate_offset mac)
      else mac)"
  by pat_completeness auto
termination by (relation "measure (\<lambda>(mac_size, offset, _, _). mac_size - offset)") auto

declare rotate_steps.simps [simp del]

definition EVP_tls_cbc_copy_mac :: "nat \<Rightarrow> u8 list \<Rightarrow> nat \<Rightarrow> nat \<Rightarrow> u8 list" where
  "EVP_tls_cbc_copy_mac mac_size inp in_len orig_len =
     (let scan_start = (if orig_len > mac_size + 255 + 1 then orig_len - (mac_size + 255 + 1) else 0)
      in case fold (scan_byte inp mac_size in_len) [scan_start..<orig_len] (0, 0, 0, replicate mac_size 0) of
           (j, rotate_offset, mac_started, rotated_mac) \<Rightarrow> rotate_steps mac_size 1 rotate_offset rotated_mac)"

section \<open>Hashing a suffix of secret length\<close>

text \<open>
  \<open>EVP_sha1_final_with_secret_suffix\<close> and \<open>EVP_sha256_final_with_secret_suffix\<close> differ in the transformation and the number of words
  of the state only.
\<close>

definition bound_byte :: "nat \<Rightarrow> nat \<Rightarrow> nat \<Rightarrow> nat \<Rightarrow> u8 \<Rightarrow> u8" where
  "bound_byte input_idx block_start len j b =
     (let idx = word_of_nat (input_idx + j - block_start);
          is_in_bounds = constant_time_lt_8 idx (value_barrier_w (word_of_nat len));
          is_padding_byte = constant_time_eq_8 idx (value_barrier_w (word_of_nat len))
      in (b AND is_in_bounds) OR (0x80 AND is_padding_byte))"

definition fill_block :: "(u32, 'a) md_ctx_scheme \<Rightarrow> u8 list \<Rightarrow> nat \<Rightarrow> nat \<Rightarrow> nat \<Rightarrow> nat \<Rightarrow> u8 list \<Rightarrow> u8 list" where
  "fill_block ctx inp len max_len i input_idx block =
     (let block_start = (if i = 0 then num ctx else 0);
          block = (if i = 0 then store 0 (take (num ctx) (data ctx)) block else block);
          block = (if input_idx < max_len then
                     let to_copy = (if 64 - block_start > max_len - input_idx then max_len - input_idx else 64 - block_start)
                     in store block_start (take to_copy (drop input_idx inp)) block
                   else block)
      in fold (\<lambda>j b. b[j := bound_byte input_idx block_start len j (b ! j)]) [block_start..<64] block)"

definition add_length :: "u64 \<Rightarrow> u8 list \<Rightarrow> u8 list \<Rightarrow> u8 list" where
  "add_length is_last_block length_bytes block =
     fold (\<lambda>j b. b[64 - 4 + j := b ! (64 - 4 + j) OR ucast (is_last_block AND ucast (length_bytes ! j))]) [0..<4] block"

definition suffix_block ::
    "(u8 list \<Rightarrow> (u32, 'a) md_ctx_scheme \<Rightarrow> (u32, 'a) md_ctx_scheme) \<Rightarrow> u8 list \<Rightarrow> nat \<Rightarrow> nat \<Rightarrow> nat \<Rightarrow> u8 list \<Rightarrow> nat \<Rightarrow>
     (u32, 'a) md_ctx_scheme \<times> u8 list \<times> u32 list \<times> nat \<Rightarrow> (u32, 'a) md_ctx_scheme \<times> u8 list \<times> u32 list \<times> nat" where
  "suffix_block transform inp len max_len last_block length_bytes i s =
     (case s of (ctx, block, result, input_idx) \<Rightarrow>
        let block_start = (if i = 0 then num ctx else 0);
            block = fill_block ctx inp len max_len i input_idx block;
            input_idx = input_idx + (64 - block_start);
            is_last_block = constant_time_eq_w (word_of_nat i) (word_of_nat last_block);
            block = add_length is_last_block length_bytes block;
            ctx = transform block ctx
        in (ctx, block, map2 (\<lambda>r v. r OR ucast (is_last_block AND ucast v)) result (h ctx), input_idx))"

text \<open>The output, or nothing when the lengths are too large, and the context. The input has \<open>max_len\<close> bytes, and \<open>len\<close> is no larger.\<close>

definition final_with_secret_suffix ::
    "(u8 list \<Rightarrow> (u32, 'a) md_ctx_scheme \<Rightarrow> (u32, 'a) md_ctx_scheme) \<Rightarrow> nat \<Rightarrow> (u32, 'a) md_ctx_scheme \<Rightarrow> u8 list \<Rightarrow> nat \<Rightarrow> nat \<Rightarrow>
     u8 list option \<times> (u32, 'a) md_ctx_scheme" where
  "final_with_secret_suffix transform words ctx inp len max_len =
     (let max_len_bits = push_bit 3 (word_of_nat max_len) :: u64; nl = ucast (Nl ctx) :: u64 in
      if Nh ctx \<noteq> 0 \<or> drop_bit 3 max_len_bits \<noteq> word_of_nat max_len \<or> nl + max_len_bits < max_len_bits \<or> nl + max_len_bits > 0xffffffff
      then (None, ctx)
      else
        let num_blocks = drop_bit 6 (num ctx + len + 1 + 8 + 64 - 1);
            last_block = num_blocks - 1;
            max_blocks = drop_bit 6 (num ctx + max_len + 1 + 8 + 64 - 1);
            total_bits = nl + push_bit 3 (word_of_nat len);
            length_bytes = [ucast (drop_bit 24 total_bits), ucast (drop_bit 16 total_bits), ucast (drop_bit 8 total_bits), ucast total_bits]
        in case fold (suffix_block transform inp len max_len last_block length_bytes) [0..<max_blocks] (ctx, replicate 64 0, replicate words 0, 0) of
             (ctx, block, result, input_idx) \<Rightarrow> (Some (concat (map CRYPTO_store_u32_be result)), ctx))"

definition EVP_sha1_final_with_secret_suffix :: "sha_ctx \<Rightarrow> u8 list \<Rightarrow> nat \<Rightarrow> nat \<Rightarrow> u8 list option \<times> sha_ctx" where
  "EVP_sha1_final_with_secret_suffix = final_with_secret_suffix SHA1_Transform 5"

definition EVP_sha256_final_with_secret_suffix :: "sha256_ctx \<Rightarrow> u8 list \<Rightarrow> nat \<Rightarrow> nat \<Rightarrow> u8 list option \<times> sha256_ctx" where
  "EVP_sha256_final_with_secret_suffix = final_with_secret_suffix SHA256_Transform 8"

section \<open>The MAC that is expected\<close>

definition EVP_tls_cbc_record_digest_supported :: "evp_md \<Rightarrow> bool" where
  "EVP_tls_cbc_record_digest_supported md = (md = EVP_sha1 \<or> md = EVP_sha256)"

text \<open>What the two functions share; the assertion that the key is not long is an early return when assertions are off.\<close>

definition min_data_size :: "nat \<Rightarrow> nat \<Rightarrow> nat" where
  "min_data_size mac_size all_size = (if all_size > mac_size + 256 then all_size - mac_size - 256 else 0)"

definition hmac_pad :: "u8 list \<Rightarrow> u8 list" where
  "hmac_pad mac_secret = map (\<lambda>b. b XOR 0x36) (store 0 mac_secret (replicate 64 0))"

definition tls_cbc_digest_record_sha1 :: "u8 list \<Rightarrow> u8 list \<Rightarrow> nat \<Rightarrow> nat \<Rightarrow> u8 list \<Rightarrow> u8 list option" where
  "tls_cbc_digest_record_sha1 header d data_size all_size mac_secret =
     (if length mac_secret > 64 then None
      else
        let pad = hmac_pad mac_secret;
            ctx = SHA1_Update header (SHA1_Update pad SHA1_Init);
            least = min_data_size 20 all_size;
            ctx = SHA1_Update (take least d) ctx
        in case EVP_sha1_final_with_secret_suffix ctx (drop least d) (data_size - least) (all_size - least) of
             (None, _) \<Rightarrow> None
           | (Some mac_out, _) \<Rightarrow>
               let pad = map (\<lambda>b. b XOR 0x6a) pad
               in Some (fst (SHA1_Final (SHA1_Update mac_out (SHA1_Update pad SHA1_Init)))))"

definition tls_cbc_digest_record_sha256 :: "u8 list \<Rightarrow> u8 list \<Rightarrow> nat \<Rightarrow> nat \<Rightarrow> u8 list \<Rightarrow> u8 list option" where
  "tls_cbc_digest_record_sha256 header d data_size all_size mac_secret =
     (if length mac_secret > 64 then None
      else
        let pad = hmac_pad mac_secret;
            ctx = SHA256_Update header (SHA256_Update pad SHA256_Init);
            least = min_data_size 32 all_size;
            ctx = SHA256_Update (take least d) ctx
        in case EVP_sha256_final_with_secret_suffix ctx (drop least d) (data_size - least) (all_size - least) of
             (None, _) \<Rightarrow> None
           | (Some mac_out, _) \<Rightarrow>
               let pad = map (\<lambda>b. b XOR 0x6a) pad
               in fst (SHA256_Final (SHA256_Update mac_out (SHA256_Update pad SHA256_Init))))"

fun EVP_tls_cbc_digest_record :: "evp_md \<Rightarrow> u8 list \<Rightarrow> u8 list \<Rightarrow> nat \<Rightarrow> nat \<Rightarrow> u8 list \<Rightarrow> u8 list option" where
  "EVP_tls_cbc_digest_record EVP_sha1 header d data_size all_size mac_secret = tls_cbc_digest_record_sha1 header d data_size all_size mac_secret"
| "EVP_tls_cbc_digest_record EVP_sha256 header d data_size all_size mac_secret = tls_cbc_digest_record_sha256 header d data_size all_size mac_secret"
| "EVP_tls_cbc_digest_record _ header d data_size all_size mac_secret = None"

section \<open>Masks of numbers\<close>

lemma of_nat_u64: "a < 2 ^ 64 \<Longrightarrow> b < 2 ^ 64 \<Longrightarrow> (word_of_nat a :: u64) = word_of_nat b \<longleftrightarrow> a = b"
  "a < 2 ^ 64 \<Longrightarrow> b < 2 ^ 64 \<Longrightarrow> (word_of_nat a :: u64) < word_of_nat b \<longleftrightarrow> a < b"
  by (simp_all add: word_unat_eq_iff word_less_nat_alt unsigned_of_nat take_bit_eq_mod)

lemma ge_8: "constant_time_ge_8 a b = (if a \<ge> b then 0xff else 0)"
  unfolding constant_time_ge_8_def constant_time_ge_w_def lt_w using ucast_true_8 by (auto simp: not_less)

lemma byte_and_ff: "(0xff :: u8) AND x = x" "x AND 0xff = x" for x :: u8
proof -
  have m: "(0xff :: u8) = - 1" by simp
  show "0xff AND x = x" "x AND 0xff = x" unfolding m by simp_all
qed

lemma or_ff: "(0xff :: u8) OR x = 0xff" "x OR 0xff = 0xff" for x :: u8
proof -
  have m: "(0xff :: u8) = - 1" by simp
  show "0xff OR x = 0xff" "x OR 0xff = 0xff" unfolding m by simp_all
qed

lemma ff_not: "NOT (0xff :: u8) = 0"
proof -
  have m: "(0xff :: u8) = - 1" by simp
  show ?thesis unfolding m by simp
qed

lemma ucast_u8_and: "ucast (ucast (x :: u8) AND (v :: u64)) = x AND ucast v"
  by (rule bit_eqI) (auto simp: bit_simps)

lemma ff_bits: "bit (0xff :: u64) k \<longleftrightarrow> k < 8"
proof -
  have m: "(0xff :: u64) = mask 8" by (simp add: mask_eq_exp_minus_1)
  show ?thesis unfolding m by (auto simp: bit_mask_iff)
qed

lemma ff_bits_8: "bit (0xff :: u8) k \<longleftrightarrow> k < 8"
proof -
  have m: "(0xff :: u8) = mask 8" by (simp add: mask_eq_exp_minus_1)
  show ?thesis unfolding m by (auto simp: bit_mask_iff)
qed

lemma low_byte_iff: "g AND 0xff = (0xff :: u64) \<longleftrightarrow> (\<forall>k<8. bit g k)"
proof
  assume e: "g AND 0xff = (0xff :: u64)"
  show "\<forall>k<8. bit g k" using bit_and_iff [of g "0xff :: u64"] unfolding e ff_bits by blast
next
  assume "\<forall>k<8. bit g k"
  then show "g AND 0xff = (0xff :: u64)" by (intro bit_word_eqI) (auto simp only: bit_and_iff ff_bits)
qed

lemma ucast_ff_and: "ucast (0xff :: u8) AND (ucast a XOR ucast b) = (ucast (a XOR b) :: u64)" for a b :: u8
proof -
  have "ucast (0xff :: u8) = (0xff :: u64)" by simp
  then show ?thesis
    by (intro bit_word_eqI) (simp only: bit_and_iff bit_xor_iff bit_ucast_iff ff_bits, auto dest: bit_imp_le_length)
qed

lemma ucast_ucast_u8: "ucast (ucast b :: u64) = b" for b :: u8
  by (rule bit_eqI) (auto simp: bit_simps)

section \<open>The padding is as RFC 5246 defines it\<close>

lemma padding_byte_low:
  fixes inp :: "u8 list"
  assumes that: "p = ucast (inp ! (length inp - 1))"
  shows "padding_byte inp p i good AND 0xff = 0xff \<longleftrightarrow> good AND 0xff = 0xff \<and> (word_of_nat i \<le> p \<longrightarrow> ucast p = inp ! (length inp - 1 - i))"
proof -
  define x where "x = (if word_of_nat i \<le> p then ucast p XOR inp ! (length inp - 1 - i) else 0)"
  have e: "ucast (constant_time_ge_8 p (word_of_nat i)) AND (p XOR ucast (inp ! (length inp - 1 - i))) = (ucast x :: u64)"
    unfolding x_def ge_8 that using ucast_ff_and [of "inp ! (length inp - 1)" "inp ! (length inp - 1 - i)"] ucast_ucast_u8 by simp
  have "(\<forall>k<8. bit (good AND NOT (ucast x)) k) \<longleftrightarrow> (\<forall>k<8. bit good k) \<and> (\<forall>k<8. \<not> bit x k)"
    by (auto simp: bit_simps)
  also have "(\<forall>k<8. \<not> bit x k) \<longleftrightarrow> x = 0"
    by (auto simp: bit_eq_iff dest: bit_imp_le_length)
  finally show ?thesis unfolding low_byte_iff padding_byte_def Let_def e by (simp add: x_def xor_eq_0_iff)
qed

lemma padding_bytes_low:
  "fold (padding_byte inp p) is good AND 0xff = 0xff \<longleftrightarrow>
     good AND 0xff = 0xff \<and> (\<forall>i \<in> set is. word_of_nat i \<le> p \<longrightarrow> ucast p = inp ! (length inp - 1 - i))"
  if "p = ucast (inp ! (length inp - 1))"
  using that by (induction "is" arbitrary: good) (auto simp: padding_byte_low)

text \<open>The padding of a record, with its length byte.\<close>

definition padded :: "u8 list \<Rightarrow> bool" where
  "padded inp \<longleftrightarrow> (\<exists>p < 256. suffix (replicate (p + 1) (word_of_nat p)) inp)"

definition padding_size :: "u8 list \<Rightarrow> nat" where
  "padding_size inp = unat (last inp) + 1"

lemma padding_length_byte: "suffix (replicate (p + 1) (word_of_nat p)) inp \<Longrightarrow> p < 256 \<Longrightarrow> unat (last inp) = p"
  for inp :: "u8 list" by (auto simp: suffix_def unsigned_of_nat take_bit_eq_mod)

lemma suffix_replicate:
  "n \<le> length inp \<Longrightarrow> suffix (replicate n b) inp \<longleftrightarrow> (\<forall>i < n. inp ! (length inp - 1 - i) = b)"
proof -
  assume n: "n \<le> length inp"
  have "suffix (replicate n b) inp \<longleftrightarrow> drop (length inp - n) inp = replicate n b"
    using n by (auto simp: suffix_def append_eq_conv_conj) (metis append_take_drop_id)
  also have "\<dots> \<longleftrightarrow> (\<forall>i < n. inp ! (length inp - n + i) = b)" using n by (auto simp: list_eq_iff_nth_eq)
  also have "\<dots> \<longleftrightarrow> (\<forall>i < n. inp ! (length inp - 1 - i) = b)"
  proof -
    have "inp ! (length inp - 1 - (n - 1 - i)) = inp ! (length inp - n + i)" if "i < n" for i
      using that n by (intro arg_cong [of _ _ "(!) inp"]) linarith
    moreover have "inp ! (length inp - n + (n - 1 - i)) = inp ! (length inp - 1 - i)" if "i < n" for i
      using that n by (intro arg_cong [of _ _ "(!) inp"]) linarith
    moreover have "n - 1 - i < n" if "i < n" for i using that by linarith
    ultimately show ?thesis by metis
  qed
  finally show ?thesis .
qed

lemma remove_padding:
  assumes "length inp < 2 ^ 63" and "mac_size < 2 ^ 63"
  shows "EVP_tls_cbc_remove_padding inp mac_size =
    (if length inp < mac_size + 1 then None
     else if padded inp \<and> mac_size + padding_size inp \<le> length inp
       then Some (CONSTTIME_TRUE_W, word_of_nat (length inp - padding_size inp))
       else Some (CONSTTIME_FALSE_W, word_of_nat (length inp)))"
proof (cases "length inp < mac_size + 1")
  case True
  then show ?thesis by (simp add: EVP_tls_cbc_remove_padding_def)
next
  case False
  define n where "n = length inp"
  define b where "b = inp ! (n - 1)"
  define p where "p = (ucast b :: u64)"
  have ne: "inp \<noteq> []" using False by auto
  have b: "b = last inp" using ne by (simp add: b_def n_def last_conv_nth)
  have pu: "p = word_of_nat (unat b)" "unat b < 256" using unsigned_less [of b] by (simp_all add: p_def)
  have pc: "p = ucast (inp ! (length inp - 1))" "ucast p = b" by (simp_all add: p_def b_def n_def ucast_ucast_u8)
  define to_check where "to_check = (if 256 > n then n else 256)"
  define good where "good = constant_time_ge_w (word_of_nat n) (word_of_nat (1 + mac_size) + p)"
  have sum: "word_of_nat (1 + mac_size) + p = (word_of_nat (1 + mac_size + unat b) :: u64)" unfolding pu(1) by simp
  have lt: "n < 2 ^ 64" "1 + mac_size + unat b < 2 ^ 64" using assms pu(2) by (simp_all add: n_def)
  have good: "good = (if 1 + mac_size + unat b \<le> n then NOT 0 else 0)"
    unfolding good_def constant_time_ge_w_def sum lt_w of_nat_u64(2) [OF lt] by (simp add: not_less)
  define ok where "ok \<longleftrightarrow> 1 + mac_size + unat b \<le> n \<and> (\<forall>i < to_check. i \<le> unat b \<longrightarrow> inp ! (n - 1 - i) = b)"
  have "fold (padding_byte inp p) [0..<to_check] good AND 0xff = 0xff \<longleftrightarrow> ok"
  proof -
    have "(word_of_nat i :: u64) \<le> p \<longleftrightarrow> i \<le> unat b" if "i < to_check" for i
      unfolding pu(1) using of_nat_u64(2) [of "unat b" i] that pu(2) assms(1)
      by (simp add: to_check_def n_def not_less [symmetric] split: if_splits)
    then show ?thesis unfolding padding_bytes_low [OF pc(1)] ok_def good by (auto simp: pc(2) n_def [symmetric])
  qed
  then have r: "EVP_tls_cbc_remove_padding inp mac_size = Some (if ok then (NOT 0, word_of_nat n - (p + 1)) else (0, word_of_nat n))"
    using False unfolding EVP_tls_cbc_remove_padding_def Let_def eq_w n_def [symmetric] b_def [symmetric] p_def [symmetric]
      to_check_def [symmetric] good_def [symmetric] by auto
  have "ok \<longleftrightarrow> 1 + mac_size + unat b \<le> n \<and> (\<forall>i < unat b + 1. inp ! (n - 1 - i) = b)"
    using pu(2) by (auto simp: ok_def to_check_def)
  also have "\<dots> \<longleftrightarrow> padded inp \<and> mac_size + padding_size inp \<le> n"
  proof (cases "1 + mac_size + unat b \<le> n")
    case True
    then have "(\<forall>i < unat b + 1. inp ! (n - 1 - i) = b) \<longleftrightarrow> suffix (replicate (unat b + 1) b) inp"
      using suffix_replicate [of "unat b + 1" inp b] by (simp add: n_def)
    also have "\<dots> \<longleftrightarrow> padded inp"
    proof
      assume "padded inp"
      then obtain q where q: "q < 256" "suffix (replicate (q + 1) (word_of_nat q)) inp" unfolding padded_def by blast
      have "unat b = q" unfolding b by (rule padding_length_byte [OF q(2,1)])
      then show "suffix (replicate (unat b + 1) b) inp" using q(2) by auto
    qed (use pu(2) in \<open>auto simp: padded_def\<close>)
    finally show ?thesis using True by (simp add: padding_size_def b)
  next
    case False
    then show ?thesis by (simp add: padding_size_def b)
  qed
  finally have ok: "ok \<longleftrightarrow> padded inp \<and> mac_size + padding_size inp \<le> n" .
  have "word_of_nat n - (p + 1) = (word_of_nat (n - padding_size inp) :: u64)" if ok
  proof -
    have "unat b + 1 \<le> n" using that by (simp add: ok_def)
    then show ?thesis unfolding pu(1) padding_size_def b [symmetric] by (simp add: of_nat_diff)
  qed
  then show ?thesis using r False ok by (simp add: n_def)
qed

section \<open>The MAC is cut out\<close>

definition scanned :: "u8 list \<Rightarrow> nat \<Rightarrow> nat \<Rightarrow> nat \<Rightarrow> nat \<Rightarrow> nat \<times> u64 \<times> u8 \<times> u8 list \<Rightarrow> bool" where
  "scanned inp w start mac_end i s \<longleftrightarrow>
     (case s of (j, rotate_offset, mac_started, rotated_mac) \<Rightarrow>
        j = (if i = start then 0 else (i - start - 1) mod w + 1) \<and>
        rotate_offset = (if mac_end - w < i then word_of_nat ((mac_end - w - start) mod w) else 0) \<and>
        mac_started = (if mac_end - w < i then 0xff else 0) \<and>
        length rotated_mac = w \<and>
        (\<forall>k. mac_end - w \<le> k \<and> k < mac_end \<longrightarrow> rotated_mac ! ((k - start) mod w) = (if k < i then inp ! k else 0)))"

lemma mod_diff_less:
  fixes a b w :: nat
  assumes "a mod w = b mod w" and "a < b + w" and "b < a + w"
  shows "a = b"
proof -
  have "a = b" if "a \<le> b" "a mod w = b mod w" "b < a + w" for a b :: nat
  proof -
    have "w dvd b - a" using that(1,2) mod_eq_dvd_iff_nat [of a b w] by simp
    then show ?thesis using that(1,3) by (auto dest: dvd_imp_le)
  qed
  then show ?thesis using assms by (metis le_cases)
qed

lemma scan_byte:
  assumes "scanned inp w start mac_end i s" and "start \<le> i" and "start \<le> mac_end - w" and "0 < w" and "w \<le> mac_end"
    and "i < 2 ^ 64" and "mac_end < 2 ^ 64"
  shows "scanned inp w start mac_end (i + 1) (scan_byte inp w mac_end i s)"
proof -
  obtain j ro st rm where s: "s = (j, ro, st, rm)" by (cases s)
  define ms where "ms = mac_end - w"
  have a: "j = (if i = start then 0 else (i - start - 1) mod w + 1)" "ro = (if ms < i then word_of_nat ((ms - start) mod w) else 0)"
      "st = (if ms < i then 0xff else 0)" "length rm = w"
      "\<And>k. ms \<le> k \<Longrightarrow> k < mac_end \<Longrightarrow> rm ! ((k - start) mod w) = (if k < i then inp ! k else 0)"
    using assms(1) by (auto simp: scanned_def s ms_def)
  define j' where "j' = (if j \<ge> w then j - w else j)"
  have j': "j' = (i - start) mod w"
  proof (cases "i = start")
    case False
    then have "i - start = Suc (i - start - 1)" using assms(2) by linarith
    then have "(i - start) mod w = (if Suc ((i - start - 1) mod w) = w then 0 else Suc ((i - start - 1) mod w))" by (metis mod_Suc)
    moreover have "(i - start - 1) mod w < w" using assms(4) by simp
    ultimately show ?thesis using False unfolding j'_def a(1) by auto
  qed (use assms(4) in \<open>simp add: j'_def a(1)\<close>)
  define is_start where "is_start = constant_time_eq_w (word_of_nat i) (word_of_nat ms)"
  have is_start: "is_start = (if i = ms then NOT 0 else 0)"
    unfolding is_start_def eq_w using of_nat_u64(1) [of i ms] assms(6,7) by (simp add: ms_def)
  define st' where "st' = (ucast (ucast st OR is_start) :: u8)"
  have st': "st' = (if ms < i + 1 then 0xff else 0)"
    using ucast_ucast_u8 [of st] ucast_true_8 unfolding st'_def is_start a(3) by auto
  define b where "b = inp ! i AND st' AND NOT (constant_time_ge_8 (word_of_nat i) (word_of_nat mac_end))"
  have "constant_time_ge_8 (word_of_nat i) (word_of_nat mac_end) = (if mac_end \<le> i then 0xff else 0)"
    unfolding ge_8 using of_nat_u64(2) [OF assms(6,7)] by (simp add: not_less [symmetric])
  then have b: "b = (if ms \<le> i \<and> i < mac_end then inp ! i else 0)"
    unfolding b_def st' by (auto simp: byte_and_ff ff_not)
  have e: "scan_byte inp w mac_end i s = (j' + 1, ro OR (word_of_nat j' AND is_start), st', rm[j' := rm ! j' OR b])"
    by (simp add: scan_byte_def s Let_def j'_def is_start_def ms_def st'_def b_def)
  have ro: "ro OR (word_of_nat j' AND is_start) = (if ms < i + 1 then word_of_nat ((ms - start) mod w) else 0)"
    unfolding is_start a(2) j' by (cases "i = ms") auto
  have rm: "rm[j' := rm ! j' OR b] ! ((k - start) mod w) = (if k < i + 1 then inp ! k else 0)" if k: "ms \<le> k" "k < mac_end" for k
  proof (cases "(k - start) mod w = j'")
    case True
    have jl: "j' < length rm" unfolding a(4) j' using assms(4) by simp
    show ?thesis
    proof (cases "ms \<le> i \<and> i < mac_end")
      case r: True
      have "k - start = i - start"
        by (rule mod_diff_less [of _ w]) (use True r k assms(3,5) in \<open>auto simp: j' ms_def\<close>)
      then have "k = i" using k(1) assms(2,3) by (simp add: ms_def)
      then show ?thesis using a(5) [OF k] True jl r b by simp
    next
      case False
      then have "b = 0" "k \<noteq> i" using b k by auto
      then show ?thesis using a(5) [OF k] True jl by auto
    qed
  next
    case False
    then have "k \<noteq> i" unfolding j' by blast
    then show ?thesis using a(5) [OF k] False by auto
  qed
  show ?thesis
    unfolding e scanned_def using j' ro st' rm a(4) assms(2) by (auto simp: ms_def [symmetric] Suc_diff_le)
qed

lemma scan:
  assumes "start \<le> mac_end - w" and "0 < w" and "w \<le> mac_end" and "n < 2 ^ 64" and "mac_end < 2 ^ 64" and "start \<le> n"
  shows "scanned inp w start mac_end n (fold (scan_byte inp w mac_end) [start..<n] (0, 0, 0, replicate w 0))"
  using assms(6,4)
proof (induction n rule: dec_induct)
  case base
  then show ?case using assms(1-3) by (auto simp: scanned_def)
next
  case (step n)
  then show ?case using scan_byte [OF step.IH] assms(1-3,5) by simp
qed

lemma rotate_once:
  assumes "offset < w" and "length mac = w"
  shows "rotate_once w offset ro mac = map (\<lambda>i. mac ! ((i + (if odd ro then offset else 0)) mod w)) [0..<w]"
proof -
  have ro: "ro AND 1 = (if odd ro then 1 else 0)" by (simp add: and_one_eq odd_iff_mod_2_eq_one)
  have m: "ucast ((0xff :: u8)) = (0xff :: u64)" by simp
  have sel: "constant_time_select_8 (ucast (ucast (ro AND 1) - 1 :: u8)) x y = (if odd ro then y else x)" for x y
  proof -
    have "ucast (ro AND 1) - 1 = (if even ro then 0xff else 0 :: u8)" unfolding ro by simp
    then have "ucast (ucast (ro AND 1) - 1 :: u8) = (if even ro then 0xff else 0 :: u64)" by simp
    then show ?thesis using select_8(2) [of "even ro" x y] by simp
  qed
  have "(if offset + i \<ge> w then offset + i - w else offset + i) = (i + offset) mod w" if "i < w" for i
    using that assms(1) by (simp add: le_mod_geq add.commute)
  then show ?thesis unfolding rotate_once_def Let_def sel by (auto intro!: map_cong)
qed

lemma rotate_steps:
  "0 < offset \<Longrightarrow> length mac = w \<Longrightarrow> ro = word_of_nat q \<Longrightarrow> offset * q < w \<Longrightarrow> w < 2 ^ 64 \<Longrightarrow>
    rotate_steps w offset ro mac = map (\<lambda>i. mac ! ((i + offset * q) mod w)) [0..<w]"
proof (induction w offset ro mac arbitrary: q rule: rotate_steps.induct)
  case (1 w offset ro mac)
  show ?case
  proof (cases "offset < w")
    case False
    then have "q = 0" using "1.prems"(1,4) by (cases q) auto
    then show ?thesis using False "1.prems" by (subst rotate_steps.simps) (auto intro!: nth_equalityI)
  next
    case True
    have q: "q \<le> offset * q" using "1.prems"(1) by simp
    then have q64: "q < 2 ^ 64" using "1.prems"(4,5) by linarith
    have od: "odd ro \<longleftrightarrow> odd q" unfolding "1.prems"(3) by (simp add: bit_0 [symmetric] bit_simps)
    have dr: "drop_bit 1 ro = word_of_nat (q div 2)"
      unfolding "1.prems"(3) using q64 by (intro word_unat_eq_iff [THEN iffD2]) (simp add: unat_drop_bit unsigned_of_nat take_bit_eq_mod)
    define mac' where "mac' = rotate_once w offset ro mac"
    have mac': "mac' = map (\<lambda>i. mac ! ((i + (if odd q then offset else 0)) mod w)) [0..<w]"
      unfolding mac'_def using rotate_once [OF True "1.prems"(2)] od by simp
    have le: "2 * offset * (q div 2) \<le> offset * q" by (simp add: mult.assoc mult.left_commute)
    have "rotate_steps w (2 * offset) (drop_bit 1 ro) mac' = map (\<lambda>i. mac' ! ((i + 2 * offset * (q div 2)) mod w)) [0..<w]"
      by (rule "1.IH" [folded mac'_def]) (use "1.prems" True le_less_trans [OF le "1.prems"(4)] dr in \<open>auto simp: mac'\<close>)
    moreover have "mac' ! ((i + 2 * offset * (q div 2)) mod w) = mac ! ((i + offset * q) mod w)" if "i < w" for i
    proof -
      define c where "c = (if odd q then offset else 0)"
      have e: "i + 2 * offset * (q div 2) + c = i + offset * q"
        using div_mult_mod_eq [of q 2] by (cases "odd q") (auto elim!: oddE evenE simp: algebra_simps c_def)
      have "((i + 2 * offset * (q div 2)) mod w + c) mod w = (i + offset * q) mod w" by (simp only: mod_add_left_eq e)
      then show ?thesis using that unfolding mac' c_def [symmetric] by simp
    qed
    ultimately show ?thesis using True "1.prems"(1) unfolding rotate_steps.simps [of w offset] mac'_def [symmetric] by auto
  qed
qed

lemma copy_mac:
  assumes "0 < w" and "w \<le> in_len" and "in_len \<le> orig_len" and "orig_len \<le> in_len + 256" and "orig_len \<le> length inp" and "orig_len < 2 ^ 64"
  shows "EVP_tls_cbc_copy_mac w inp in_len orig_len = take w (drop (in_len - w) inp)"
proof -
  define start where "start = (if orig_len > w + 255 + 1 then orig_len - (w + 255 + 1) else 0)"
  have start: "start \<le> in_len - w" "start \<le> orig_len" using assms(2-4) by (auto simp: start_def)
  obtain j ro st rm where f: "fold (scan_byte inp w in_len) [start..<orig_len] (0, 0, 0, replicate w 0) = (j, ro, st, rm)"
    by (metis prod_cases4)
  have sc: "scanned inp w start in_len orig_len (j, ro, st, rm)"
    using scan [OF start(1) assms(1,2,6) _ start(2), of inp] assms(3,6) unfolding f by simp
  define r where "r = (in_len - w - start) mod w"
  have rm: "length rm = w" "ro = word_of_nat r" "\<And>k. in_len - w \<le> k \<Longrightarrow> k < in_len \<Longrightarrow> rm ! ((k - start) mod w) = inp ! k"
    using sc assms(1-3) by (auto simp: scanned_def r_def)
  have "1 * r < w" using assms(1) by (simp add: r_def)
  from rotate_steps [OF _ rm(1,2) this] have e: "EVP_tls_cbc_copy_mac w inp in_len orig_len = map (\<lambda>i. rm ! ((i + r) mod w)) [0..<w]"
    using assms(2,3,6) unfolding EVP_tls_cbc_copy_mac_def Let_def start_def [symmetric] f by simp
  have "rm ! ((i + r) mod w) = inp ! (in_len - w + i)" if "i < w" for i
  proof -
    have "(i + r) mod w = (in_len - w + i - start) mod w"
    proof -
      have "in_len - w + i - start = i + (in_len - w - start)" using start(1) by linarith
      then show ?thesis unfolding r_def by (simp only: mod_add_right_eq)
    qed
    then show ?thesis using rm(3) [of "in_len - w + i"] that assms(2) by simp
  qed
  then show ?thesis unfolding e using assms(2,3,5) by (intro nth_equalityI) simp_all
qed

section \<open>The suffix of secret length\<close>

lemma length_fold_update: "length (fold (\<lambda>j b. b[g j := f j (b ! g j)]) is b) = length b"
  by (induction "is" arbitrary: b) simp_all

lemma nth_fold_update:
  "k < length b \<Longrightarrow> inj_on g (set is) \<Longrightarrow> distinct is \<Longrightarrow>
     fold (\<lambda>j b. b[g j := f j (b ! g j)]) is b ! k = (case filter (\<lambda>j. g j = k) is of [] \<Rightarrow> b ! k | j # _ \<Rightarrow> f j (b ! k))"
proof (induction "is" arbitrary: b)
  case (Cons i js)
  show ?case
  proof (cases "g i = k")
    case True
    then have "filter (\<lambda>j. g j = k) js = []"
      using Cons.prems(2,3) by (auto simp: filter_empty_conv inj_on_def)
    then show ?thesis using True Cons by (simp add: inj_on_def)
  next
    case False
    then show ?thesis using Cons by (simp add: inj_on_def split: list.split)
  qed
qed simp

lemma filter_upt_eq: "filter (\<lambda>j. j = k) [a..<n] = (if a \<le> k \<and> k < n then [k] else [])"
  by (induction n) auto

text \<open>The bytes to hash: what the context still holds, the suffix and the padding without the length.\<close>

definition padded_byte :: "u8 list \<Rightarrow> u8 list \<Rightarrow> nat \<Rightarrow> nat \<Rightarrow> u8" where
  "padded_byte r inp len k =
     (if k < length r then r ! k else if k < length r + len then inp ! (k - length r) else if k = length r + len then 0x80 else 0)"

lemma bound_byte:
  assumes "input_idx + j < 2 ^ 64" and "len < 2 ^ 64"
  shows "bound_byte input_idx block_start len j b =
    (let idx = input_idx + j - block_start in if idx < len then b else if idx = len then 0x80 else 0)"
proof -
  have i: "input_idx + j - block_start < 2 ^ 64" using assms(1) by linarith
  show ?thesis
    unfolding bound_byte_def Let_def value_barrier_w_def lt_8 eq_8 of_nat_u64 [OF i assms(2)] by (auto simp: byte_and_ff)
qed

lemma fill_block:
  assumes "num ctx = length r" and "take (num ctx) (data ctx) = r" and "length r < 64" and "length block = 64"
    and "input_idx = (if i = 0 then 0 else 64 * i - length r)" and "len \<le> max_len" and "max_len \<le> length inp" and "64 * i + 64 < 2 ^ 64" and "max_len < 2 ^ 64"
  shows "fill_block ctx inp len max_len i input_idx block = map (padded_byte r inp len) [64 * i..<64 * i + 64]"
proof -
  define bs where "bs = (if i = 0 then length r else 0)"
  define b1 where "b1 = (if i = 0 then store 0 r block else block)"
  define to_copy where "to_copy = (if 64 - bs > max_len - input_idx then max_len - input_idx else 64 - bs)"
  define b2 where "b2 = (if input_idx < max_len then store bs (take to_copy (drop input_idx inp)) b1 else b1)"
  have bs: "bs < 64" "bs \<le> length r" using assms(3) by (simp_all add: bs_def)
  have l1: "length b1 = 64" using assms(3,4) by (simp add: b1_def length_store)
  have lc: "length (take to_copy (drop input_idx inp)) = to_copy" "bs + to_copy \<le> 64" if "input_idx < max_len"
    using that assms(7) bs(1) by (auto simp: to_copy_def)
  have l2: "length b2 = 64" using l1 lc by (simp add: b2_def length_store)
  have e: "fill_block ctx inp len max_len i input_idx block = fold (\<lambda>j b. b[j := bound_byte input_idx bs len j (b ! j)]) [bs..<64] b2"
    unfolding fill_block_def Let_def assms(1,2) bs_def [symmetric] b1_def [symmetric] to_copy_def [symmetric] b2_def [symmetric] assms(2) [unfolded assms(1)] by simp
  show ?thesis
  proof (rule nth_equalityI)
    show "length (fill_block ctx inp len max_len i input_idx block) = length (map (padded_byte r inp len) [64 * i..<64 * i + 64])"
      unfolding e using length_fold_update [of "\<lambda>j. j" "\<lambda>j. bound_byte input_idx bs len j"] l2 by simp
  next
    fix k assume "k < length (fill_block ctx inp len max_len i input_idx block)"
    then have k: "k < 64" unfolding e using length_fold_update [of "\<lambda>j. j" "\<lambda>j. bound_byte input_idx bs len j"] l2 by simp
    have f: "filter (\<lambda>j. j = k) [bs..<64] = (if bs \<le> k then [k] else [])"
      using k by (simp add: filter_upt_eq)
    have n: "fill_block ctx inp len max_len i input_idx block ! k = (if bs \<le> k then bound_byte input_idx bs len k (b2 ! k) else b2 ! k)"
      unfolding e using nth_fold_update [of k b2 "\<lambda>j. j" "[bs..<64]" "\<lambda>j. bound_byte input_idx bs len j"] k l2 f by simp
    show "fill_block ctx inp len max_len i input_idx block ! k = map (padded_byte r inp len) [64 * i..<64 * i + 64] ! k"
    proof (cases "bs \<le> k")
      case False
      then have "i = 0" "k < length r" by (auto simp: bs_def split: if_splits)
      moreover have "b2 ! k = b1 ! k" using False k l1 lc by (simp add: b2_def nth_store)
      ultimately show ?thesis using n False k assms(3,4) by (simp add: b1_def nth_store padded_byte_def)
    next
      case True
      define idx where "idx = input_idx + k - bs"
      have idx: "64 * i + k = length r + idx" using True assms(3,5) by (auto simp: idx_def bs_def split: if_splits)
      have "input_idx + k < 2 ^ 64" "len < 2 ^ 64" using assms(5,6,8,9) k by (auto split: if_splits)
      from bound_byte [OF this] have "fill_block ctx inp len max_len i input_idx block ! k = (if idx < len then b2 ! k else if idx = len then 0x80 else 0)"
        using n True by (simp add: idx_def Let_def)
      moreover have "b2 ! k = inp ! idx" if "idx < len"
      proof -
        have im: "input_idx < max_len" "k < bs + to_copy" using that True assms(6) k by (auto simp: idx_def to_copy_def)
        then have "b2 ! k = take to_copy (drop input_idx inp) ! (k - bs)" using True k l1 lc [OF im(1)] by (simp add: b2_def nth_store)
        also have "\<dots> = inp ! (input_idx + (k - bs))" using im True that assms(6,7) by (simp add: idx_def)
        finally show ?thesis using True by (simp add: idx_def)
      qed
      ultimately show ?thesis using k idx by (simp add: padded_byte_def)
    qed
  qed
qed

lemma length_add_length: "length (add_length m lb b) = length b"
  unfolding add_length_def by (rule length_fold_update)

lemma add_length:
  assumes "length block = 64" and "length lb = 4"
  shows "add_length 0 lb block = block"
    and "\<forall>j<4. block ! (60 + j) = 0 \<Longrightarrow> add_length (NOT 0) lb block = take 60 block @ lb"
proof -
  have n: "[0..<4] = [0, 1, 2, 3 :: nat]" by (simp add: upt_rec)
  obtain a b c d where lb: "lb = [a, b, c, d]" using assms(2) by (auto simp: numeral_eq_Suc length_Suc_conv)
  show "add_length 0 lb block = block" by (simp add: add_length_def n)
  assume z: "\<forall>j<4. block ! (60 + j) = 0"
  have z: "block ! 60 = 0" "block ! 61 = 0" "block ! 62 = 0" "block ! 63 = 0"
    using spec [OF z, of 0] spec [OF z, of 1] spec [OF z, of 2] spec [OF z, of 3] by simp_all
  have "block = take 60 block @ [block ! 60, block ! 61, block ! 62, block ! 63]"
    using assms(1) by (intro nth_equalityI) (auto simp: nth_append less_Suc_eq numeral_eq_Suc)
  then obtain t where t: "block = t @ [0, 0, 0, 0]" "length t = 60" using assms(1) z by simp
  show "add_length (NOT 0) lb block = take 60 block @ lb"
    by (simp add: add_length_def n lb t list_update_append nth_append ucast_ucast_u8)
qed

lemma blocks_of_map: "0 < sz \<Longrightarrow> length bs = sz * n \<Longrightarrow> blocks_of sz bs = map (\<lambda>i. take sz (drop (sz * i) bs)) [0..<n]"
proof (induction n arbitrary: bs)
  case 0
  then show ?case by (simp add: blocks_of.simps [of sz "[]"])
next
  case (Suc n)
  have "blocks_of sz bs = take sz bs # blocks_of sz (drop sz bs)" using Suc.prems by (subst blocks_of.simps) simp
  moreover have "map (\<lambda>i. take sz (drop (sz * i) bs)) [0..<Suc n] = take sz bs # map (\<lambda>i. take sz (drop (sz * i) (drop sz bs))) [0..<n]"
    by (simp add: upt_conv_Cons map_Suc_upt [symmetric] comp_def add.commute del: upt_Suc)
  ultimately show ?case using Suc by simp
qed

text \<open>The padded rest of the message, block by block.\<close>

lemma padded_blocks:
  fixes r inp :: "u8 list"
  assumes "length r < 64" and "len \<le> length inp" and "length lb = 4" and "len_all mod 64 = (length r + len) mod 64"
  defines "n \<equiv> (length r + len + 72) div 64"
  shows "length (r @ take len inp @ md_pad 64 len_all (replicate 4 0 @ lb)) = 64 * n"
    and "i < n \<Longrightarrow> take 64 (drop (64 * i) (r @ take len inp @ md_pad 64 len_all (replicate 4 0 @ lb))) =
      add_length (if i = n - 1 then NOT 0 else 0) lb (map (padded_byte r inp len) [64 * i..<64 * i + 64])"
proof -
  define P where "P = r @ take len inp @ md_pad 64 len_all (replicate 4 0 @ lb)"
  define t where "t = length r + len"
  define z where "z = (64 - (len_all + 9) mod 64) mod 64"
  have zt: "(len_all + 9) mod 64 = (t + 9) mod 64" using assms(4) unfolding t_def by (metis mod_add_left_eq)
  have n: "n = (t + 9 + 63) div 64" by (simp add: n_def t_def)
  have P: "P = r @ take len inp @ 0x80 # replicate z 0 @ replicate 4 0 @ lb" by (simp add: P_def md_pad_def z_def assms(3) add.commute)
  have "t + 9 + z = 64 * n"
  proof (cases "(t + 9) mod 64 = 0")
    case True
    then obtain q where q: "t + 9 = 64 * q" by (auto simp: mod_eq_0_iff_dvd)
    then have "n = q" unfolding n by simp
    then show ?thesis using q zt by (simp add: z_def)
  next
    case False
    then have m: "0 < (t + 9) mod 64" "(t + 9) mod 64 < 64" by simp_all
    have d: "t + 9 = 64 * ((t + 9) div 64) + (t + 9) mod 64" by simp
    then have "n = (t + 9) div 64 + 1" using m unfolding n by linarith
    moreover have "z = 64 - (t + 9) mod 64" using m zt by (simp add: z_def)
    ultimately show ?thesis using d m(2) by linarith
  qed
  then have l: "length P = 64 * n" "t + 9 + z = 64 * n" using assms(2,3) unfolding P by (simp_all add: t_def)
  then show "length (r @ take len inp @ md_pad 64 len_all (replicate 4 0 @ lb)) = 64 * n" by (simp add: P_def)
  have nth: "P ! k = padded_byte r inp len k" if "k + 4 < 64 * n" for k
    using that assms(2) l(2) unfolding P padded_byte_def t_def by (auto simp: nth_append nth_Cons')
  have last: "drop (64 * n - 4) P = lb"
  proof -
    define x where "x = r @ take len inp @ 0x80 # replicate z 0 @ replicate 4 0"
    have "length x = 64 * n - 4" using l(2) assms(2) by (simp add: x_def t_def)
    moreover have "P = x @ lb" by (simp add: P x_def)
    ultimately show ?thesis by simp
  qed
  assume i: "i < n"
  have le: "64 * i + 64 \<le> 64 * n" using i by simp
  have npos: "0 < n" using i by simp
  show "take 64 (drop (64 * i) (r @ take len inp @ md_pad 64 len_all (replicate 4 0 @ lb))) =
      add_length (if i = n - 1 then NOT 0 else 0) lb (map (padded_byte r inp len) [64 * i..<64 * i + 64])"
    unfolding P_def [symmetric]
  proof (cases "i = n - 1")
    case False
    then have "64 * i + 64 + 64 \<le> 64 * n" using i by linarith
    then have "take 64 (drop (64 * i) P) = map (padded_byte r inp len) [64 * i..<64 * i + 64]"
      using l(1) nth by (intro nth_equalityI) simp_all
    then show "take 64 (drop (64 * i) P) = add_length (if i = n - 1 then NOT 0 else 0) lb (map (padded_byte r inp len) [64 * i..<64 * i + 64])"
      using False by (simp add: add_length(1) assms(3))
  next
    case True
    then have ni: "64 * n = 64 * i + 64" using i by simp
    have zb: "padded_byte r inp len (64 * i + (60 + j)) = 0" for j
      using l(2) ni by (simp add: padded_byte_def t_def)
    have "take 64 (drop (64 * i) P) = take 60 (drop (64 * i) P) @ lb"
      using last l(1) ni take_add [of 60 4 "drop (64 * i) P"] assms(3) by (simp add: add.commute)
    also have "take 60 (drop (64 * i) P) = map (padded_byte r inp len) [64 * i..<64 * i + 60]"
      using l(1) ni nth by (intro nth_equalityI) simp_all
    also have "\<dots> = take 60 (map (padded_byte r inp len) [64 * i..<64 * i + 64])" by (simp add: take_map)
    finally show "take 64 (drop (64 * i) P) = add_length (if i = n - 1 then NOT 0 else 0) lb (map (padded_byte r inp len) [64 * i..<64 * i + 64])"
      using add_length(2) [of "map (padded_byte r inp len) [64 * i..<64 * i + 64]" lb] True zb assms(3) by simp
  qed
qed

lemma ucast_of_nat_u32: "a < 2 ^ 32 \<Longrightarrow> ucast (word_of_nat a :: u32) = (word_of_nat a :: u64)"
  by (simp add: word_unat_eq_iff unsigned_of_nat take_bit_eq_mod)

lemma be_bytes_4: "be_bytes 4 v = [word_of_nat (v div 256 div 256 div 256), word_of_nat (v div 256 div 256), word_of_nat (v div 256), word_of_nat v]"
proof -
  have "be_bytes (Suc (Suc (Suc (Suc 0)))) v = [word_of_nat (v div 256 div 256 div 256), word_of_nat (v div 256 div 256), word_of_nat (v div 256), word_of_nat v]"
    by simp
  moreover have "Suc (Suc (Suc (Suc 0))) = 4" by simp
  ultimately show ?thesis by metis
qed

lemma length_bytes:
  assumes "v < 2 ^ 32" and "w = (word_of_nat v :: u64)"
  shows "be_bytes 8 v = replicate 4 0 @ [ucast (drop_bit 24 w), ucast (drop_bit 16 w), ucast (drop_bit 8 w), ucast w]"
proof -
  have u: "unat w = v" using assms by (simp add: unsigned_of_nat take_bit_eq_mod)
  have c: "ucast x = (word_of_nat (unat x) :: u8)" for x :: u64 by simp
  have r: "replicate 4 (0 :: u8) = [0, 0, 0, 0]" by (simp add: eval_nat_numeral)
  have "be_bytes 8 v = be_bytes 4 (v div 2 ^ 32) @ be_bytes 4 v" using be_bytes_add [of 4 4 v] by simp
  then show ?thesis using assms(1) unfolding c unat_drop_bit u be_bytes_4 r by (simp add: div_mult2_eq [symmetric])
qed

text \<open>A transformation that runs the block function of a digest on one block.\<close>

locale suffix_hash = md32_compress block_func 64 words compress
  for block_func :: "u32 list block_func" and words compress +
  fixes transform :: "u8 list \<Rightarrow> (u32, 'a) md_ctx_scheme \<Rightarrow> (u32, 'a) md_ctx_scheme"
  assumes transform: "transform b c = c\<lparr>h := block_func (h c) b 1\<rparr>"
begin

lemma length_blocks: "length s = words \<Longrightarrow> (\<forall>b \<in> set bs. length b = 64) \<Longrightarrow> length (foldl (\<lambda>s b. block_func s b 1) s bs) = words"
proof (induction bs arbitrary: s)
  case (Cons b bs)
  then show ?case using compress [of s b] by simp
qed simp

lemma suffix_blocks:
  fixes ctx :: "(u32, 'a) md_ctx_scheme"
  assumes "num ctx = length r" and "take (num ctx) (data ctx) = r" and "length r < 64" and "length (h ctx) = words" and "length lb = 4"
    and "len \<le> max_len" and "max_len \<le> length inp" and "n \<le> 2 ^ 32" and "last_block < 2 ^ 32" and "max_len < 2 ^ 64"
  defines "B \<equiv> \<lambda>i. add_length (if i = last_block then NOT 0 else 0) lb (map (padded_byte r inp len) [64 * i..<64 * i + 64])"
  defines "H \<equiv> \<lambda>i. foldl (\<lambda>s b. block_func s b 1) (h ctx) (map B [0..<i])"
  shows "\<exists>block. fold (suffix_block transform inp len max_len last_block lb) [0..<n] (ctx, replicate 64 0, replicate words 0, 0) =
    (ctx\<lparr>h := H n\<rparr>, block, if last_block < n then H (last_block + 1) else replicate words 0, if n = 0 then 0 else 64 * n - length r) \<and>
    length block = 64"
  using assms(8)
proof (induction n)
  case 0
  then show ?case by (simp add: H_def)
next
  case (Suc n)
  define idx where "idx = (if n = 0 then 0 else 64 * n - length r)"
  define res where "res = (if last_block < n then H (last_block + 1) else replicate words 0)"
  obtain block where f: "fold (suffix_block transform inp len max_len last_block lb) [0..<n] (ctx, replicate 64 0, replicate words 0, 0) =
      (ctx\<lparr>h := H n\<rparr>, block, res, idx)" and lb: "length block = 64"
    using Suc unfolding res_def idx_def by auto
  have fill: "fill_block (ctx\<lparr>h := H n\<rparr>) inp len max_len n idx block = map (padded_byte r inp len) [64 * n..<64 * n + 64]"
    by (rule fill_block) (use assms(1-3,6,7,10) lb Suc.prems in \<open>auto simp: idx_def\<close>)
  have lB: "length (B i) = 64" for i
    by (simp add: B_def length_add_length)
  have lH: "length (H i) = words" for i unfolding H_def by (rule length_blocks) (use assms(4) lB in auto)
  have last: "constant_time_eq_w (word_of_nat n) (word_of_nat last_block) = (if n = last_block then NOT 0 else 0)"
    unfolding eq_w using of_nat_u64(1) [of n last_block] Suc.prems assms(9) by simp
  have Bn: "add_length (if n = last_block then NOT 0 else 0) lb (map (padded_byte r inp len) [64 * n..<64 * n + 64]) = B n"
    unfolding B_def by (rule refl)
  have HS: "H (Suc n) = block_func (H n) (B n) 1" by (simp add: H_def)
  have res: "map2 (\<lambda>r v. r OR ucast ((if n = last_block then NOT 0 else 0 :: u64) AND ucast v)) res (H (Suc n)) =
      (if last_block < Suc n then H (last_block + 1) else replicate words 0)"
  proof (cases "n = last_block")
    case True
    have "ucast (ucast v :: u64) = v" for v :: u32 by (rule bit_eqI) (auto simp: bit_simps)
    then show ?thesis using True lH [of "Suc n"] by (intro nth_equalityI) (simp_all add: res_def)
  next
    case False
    moreover have "length res = words" by (simp add: res_def lH)
    ultimately have "map2 (\<lambda>r v. r OR ucast ((if n = last_block then NOT 0 else 0 :: u64) AND ucast v)) res (H (Suc n)) = res"
      using lH by (intro nth_equalityI) simp_all
    then show ?thesis using False by (simp add: res_def less_Suc_eq)
  qed
  have "suffix_block transform inp len max_len last_block lb n (ctx\<lparr>h := H n\<rparr>, block, res, idx) =
      (ctx\<lparr>h := H (Suc n)\<rparr>, B n, if last_block < Suc n then H (last_block + 1) else replicate words 0, 64 * Suc n - length r)"
  proof -
    have tr: "transform (B n) (ctx\<lparr>h := H n\<rparr>) = ctx\<lparr>h := H (Suc n)\<rparr>" by (simp add: transform HS)
    have hh: "h (ctx\<lparr>h := H (Suc n)\<rparr>) = H (Suc n)" "num (ctx\<lparr>h := H n\<rparr>) = length r" by (simp_all add: assms(1))
    have ix: "idx + (64 - (if n = 0 then length r else 0)) = 64 * Suc n - length r" using assms(3) by (simp add: idx_def add.commute)
    show ?thesis unfolding suffix_block_def prod.case Let_def fill last Bn tr hh res ix by (rule refl)
  qed
  then show ?case using f lB [of n] by simp
qed

lemma final_with_secret_suffix:
  fixes ctx :: "(u32, 'a) md_ctx_scheme"
  assumes "holds s m ctx" and "counts m ctx" and "length s = words" and "len \<le> max_len" and "max_len \<le> length inp"
    and "8 * (length m + max_len) < 2 ^ 32"
  defines "M \<equiv> m @ take len inp"
  shows "fst (final_with_secret_suffix transform words ctx inp len max_len) =
    Some (concat (map CRYPTO_store_u32_be (md_absorb block_func 64 s (M @ md_padding 64 8 True (length M)))))"
proof -
  define r where "r = rest_of 64 m"
  have c: "num ctx = length r" "take (num ctx) (data ctx) = r" "length r < 64" "length r = length m mod 64" "h ctx = md_absorb block_func 64 s m"
    using assms(1) unfolding holds_def r_def length_md_rest_of by auto
  have lh: "length (h ctx) = words" using absorb_compress [OF assms(3)] c(5) by simp
  have N: "Nl ctx = word_of_nat (8 * length m)" "Nh ctx = 0" using assms(2,6) by (simp_all add: counts_def)
  have nl: "ucast (Nl ctx) = (word_of_nat (8 * length m) :: u64)"
    unfolding N(1) by (rule ucast_of_nat_u32) (use assms(6) in simp)
  have mb: "push_bit 3 (word_of_nat max_len) = (word_of_nat (8 * max_len) :: u64)" "push_bit 3 (word_of_nat len) = (word_of_nat (8 * len) :: u64)"
    by (simp_all add: push_bit_eq_mult)
  have db: "drop_bit 3 (word_of_nat (8 * max_len)) = (word_of_nat max_len :: u64)"
    using assms(6) by (simp add: word_unat_eq_iff unat_drop_bit unsigned_of_nat take_bit_eq_mod del: of_nat_mult)
  have sum: "word_of_nat (8 * length m) + word_of_nat (8 * x) = (word_of_nat (8 * (length m + x)) :: u64)" for x
    by (simp add: algebra_simps)
  have lens: "len \<le> max_len" "length M = length m + len" using assms(4,5) by (simp_all add: M_def)
  have small: "8 * length M < 2 ^ 32" using lens assms(6) by simp
  have chk: "\<not> (word_of_nat (8 * (length m + max_len)) < (word_of_nat (8 * max_len) :: u64))"
    "\<not> (word_of_nat (8 * (length m + max_len)) > (0xffffffff :: u64))"
    using assms(6) by (simp_all add: word_less_nat_alt unsigned_of_nat take_bit_eq_mod del: of_nat_mult of_nat_add)
  define n where "n = (length r + len + 72) div 64"
  define nmax where "nmax = (length r + max_len + 72) div 64"
  have nb: "drop_bit 6 (num ctx + len + 1 + 8 + 64 - 1) = n" "drop_bit 6 (num ctx + max_len + 1 + 8 + 64 - 1) = nmax"
    by (simp_all add: n_def nmax_def c(1) drop_bit_eq_div add.assoc)
  have nn: "0 < n" "n \<le> nmax" "nmax \<le> 2 ^ 32" using lens(1) assms(6) c(3) by (simp_all add: n_def nmax_def div_le_mono)
  define tb where "tb = (word_of_nat (8 * length M) :: u64)"
  define lb where "lb = [ucast (drop_bit 24 tb), ucast (drop_bit 16 tb), ucast (drop_bit 8 tb), ucast tb :: u8]"
  have lb: "be_bytes 8 (8 * length M) = replicate 4 0 @ lb" "length lb = 4"
    using length_bytes [OF small tb_def] by (simp_all add: lb_def)
  define P where "P = r @ take len inp @ md_pad 64 (length M) (replicate 4 0 @ lb)"
  define B where "B = (\<lambda>i. add_length (if i = n - 1 then NOT 0 else 0) lb (map (padded_byte r inp len) [64 * i..<64 * i + 64]))"
  have lm: "length M mod 64 = (length r + len) mod 64" unfolding lens(2) c(4) by (simp add: mod_add_left_eq)
  have li: "len \<le> length inp" using assms(4,5) by simp
  note pb = padded_blocks [OF c(3) li lb(2) lm, folded P_def n_def]
  have "blocks_of 64 P = map B [0..<n]"
    unfolding B_def using blocks_of_map [of 64 P n] pb by (simp cong: map_cong)
  then have "md_absorb block_func 64 (h ctx) P = foldl (\<lambda>s b. block_func s b 1) (h ctx) (map B [0..<n])" by (simp add: md_absorb_def)
  moreover have "M @ md_padding 64 8 True (length M) = m @ take len inp @ md_pad 64 (length M) (replicate 4 0 @ lb)"
    unfolding md_padding_def if_True lb(1) by (simp add: M_def)
  ultimately have absorb: "md_absorb block_func 64 s (M @ md_padding 64 8 True (length M)) = foldl (\<lambda>s b. block_func s b 1) (h ctx) (map B [0..<n])"
    using absorb_append [of 64 block_func s m] by (simp add: P_def r_def c(5))
  obtain block where f: "fold (suffix_block transform inp len max_len (n - 1) lb) [0..<nmax] (ctx, replicate 64 0, replicate words 0, 0) =
      (ctx\<lparr>h := foldl (\<lambda>s b. block_func s b 1) (h ctx) (map B [0..<nmax])\<rparr>, block,
       foldl (\<lambda>s b. block_func s b 1) (h ctx) (map B [0..<n - 1 + 1]), 64 * nmax - length r)"
  proof -
    have lt: "n - 1 < nmax" "n - 1 < 2 ^ 32" "max_len < 2 ^ 64" "nmax \<noteq> 0" using nn assms(6) by auto
    show ?thesis
      using suffix_blocks [OF c(1-3) lh lb(2) assms(4,5) nn(3) lt(2,3), folded B_def] that unfolding if_P [OF lt(1)] if_not_P [OF lt(4)] by blast
  qed
  have "fst (final_with_secret_suffix transform words ctx inp len max_len) =
      Some (concat (map CRYPTO_store_u32_be (foldl (\<lambda>s b. block_func s b 1) (h ctx) (map B [0..<n - 1 + 1]))))"
    unfolding final_with_secret_suffix_def Let_def nl mb db sum lens(2) [symmetric] tb_def [symmetric] lb_def [symmetric] nb f
    using chk N(2) by simp
  then show ?thesis using nn(1) unfolding absorb by simp
qed

end

interpretation sha1_suffix: suffix_hash sha1_block_data_order 5 sha1_compress SHA1_Transform
  by unfold_locales (simp add: SHA1_Transform_def)

interpretation sha256_suffix: suffix_hash sha256_block_data_order 8 Digest_Sha256.fips_compress SHA256_Transform
  by unfold_locales (simp add: SHA256_Transform_def)

text \<open>With what was hashed before, the suffix gives the digest of the whole, whatever follows it in the buffer.\<close>

lemma sha1_suffix_digest:
  assumes "len \<le> max_len" and "max_len \<le> length inp" and "8 * (length (concat ms) + max_len) < 2 ^ 32"
  shows "fst (EVP_sha1_final_with_secret_suffix (update_all SHA1_Update ms SHA1_Init) inp len max_len) =
    Some (sha1_digest (concat ms @ take len inp))"
proof -
  have u: "crypto_md32_update sha1_block_data_order 64 = SHA1_Update" by (simp add: fun_eq_iff SHA1_Update_def)
  have "sha1.holds (h SHA1_Init) [] SHA1_Init" "sha1.counts [] SHA1_Init"
    using absorb_less [of "[]" 64 sha1_block_data_order "h SHA1_Init"]
    by (simp_all add: sha1.holds_def sha1.counts_def SHA1_Init_def rest_of_def)
  from sha1.update_all [OF this, of ms, unfolded u]
  have hc: "sha1.holds (h SHA1_Init) (concat ms) (update_all SHA1_Update ms SHA1_Init)" "sha1.counts (concat ms) (update_all SHA1_Update ms SHA1_Init)"
    by simp_all
  have l: "length (h SHA1_Init) = 5" by (simp add: SHA1_Init_def)
  have w: "concat (map CRYPTO_store_u32_be v) = concat (map (\<lambda>v. be_bytes 4 (unat v)) v)" for v
    by (intro arg_cong [of _ _ concat] map_cong) (simp_all add: store_u32_be)
  have b: "8 * (length (concat ms) + max_len) < 2 ^ 32" using assms(3) by simp
  note f = sha1_suffix.final_with_secret_suffix [OF hc l assms(1,2) b, unfolded w]
  show ?thesis
    unfolding EVP_sha1_final_with_secret_suffix_def f conjunct1 [OF sha1.absorb_compress [OF l]]
    by (simp add: sha1_digest_def SHA1_Init_def)
qed

lemma sha256_suffix_digest:
  assumes "len \<le> max_len" and "max_len \<le> length inp" and "8 * (length (concat ms) + max_len) < 2 ^ 32"
  shows "fst (EVP_sha256_final_with_secret_suffix (update_all SHA256_Update ms SHA256_Init) inp len max_len) =
    Some (Digest_Sha256.fips_digest (h SHA256_Init) 32 (concat ms @ take len inp))"
proof -
  have l: "length (h SHA256_Init) = 8" by (simp add: SHA256_Init_def sha256_start_def)
  have "sha256.holds (h SHA256_Init) [] SHA256_Init" "sha256.counts [] SHA256_Init"
    using absorb_less [of "[]" 64 sha256_block_data_order "h SHA256_Init"]
    by (simp_all add: sha256.holds_def sha256.counts_def SHA256_Init_def sha256_start_def rest_of_def)
  from sha256.update_all [OF this, of ms, folded sha256_update_all]
  have hc: "sha256.holds (h SHA256_Init) (concat ms) (update_all SHA256_Update ms SHA256_Init)"
    "sha256.counts (concat ms) (update_all SHA256_Update ms SHA256_Init)" by simp_all
  have w: "concat (map CRYPTO_store_u32_be v) = concat (map (\<lambda>v. be_bytes 4 (unat v)) v)" for v
    by (intro arg_cong [of _ _ concat] map_cong) (simp_all add: store_u32_be)
  have b: "8 * (length (concat ms) + max_len) < 2 ^ 32" using assms(3) by simp
  note f = sha256_suffix.final_with_secret_suffix [OF hc l assms(1,2) b, unfolded w]
  have t: "take 32 (concat (map (\<lambda>v. be_bytes 4 (unat v)) v)) = concat (map (\<lambda>v. be_bytes 4 (unat v)) v)" if "length v = 8" for v :: "u32 list"
    using that by (simp add: length_concat_words [of _ 4])
  show ?thesis
    unfolding EVP_sha256_final_with_secret_suffix_def f conjunct1 [OF sha256.absorb_compress [OF l]] Digest_Sha256.fips_digest_def
    using t [OF conjunct2 [OF sha256.absorb_compress [OF l]]] by simp
qed

section \<open>The expected MAC is HMAC\<close>

lemma hmac_pads:
  assumes "length key \<le> 64" and "md_block_size md = 64"
  shows "hmac_pad key = ipad md key" and "map (\<lambda>b. b XOR 0x6a) (hmac_pad key) = opad md key"
proof -
  have k: "store 0 key (replicate 64 0) = rfc2104_key md key" using assms by (simp add: store_def rfc2104_key_def)
  show "hmac_pad key = ipad md key" by (simp add: hmac_pad_def ipad_def k)
  have "(b XOR 0x36) XOR 0x6a = b XOR 0x5c" for b :: u8 by (simp add: xor.assoc)
  then show "map (\<lambda>b. b XOR 0x6a) (hmac_pad key) = opad md key" by (simp add: hmac_pad_def opad_def k)
qed

lemma min_data_size: "min_data_size w all_size \<le> all_size" "all_size \<le> d + w + 256 \<Longrightarrow> min_data_size w all_size \<le> d"
  by (auto simp: min_data_size_def)

lemma record_pieces: "least \<le> data_size \<Longrightarrow> take least d @ take (data_size - least) (drop least d) = take data_size d"
  using take_add [of least "data_size - least" d] by simp

text \<open>C18. The MAC that is computed for a CBC record, in a number of steps that depends on public lengths only, is the HMAC of RFC 2104
  of the header and the first \<open>data_size\<close> bytes of the record, for both digests, all keys of at most a block, and every \<open>data_size\<close> that
  the MAC and at most 256 bytes of padding leave.\<close>

theorem tls_cbc_digest_record_hmac:
  assumes "EVP_tls_cbc_record_digest_supported md" and "length key \<le> 64" and "length header = 13"
    and "data_size \<le> all_size" and "all_size \<le> data_size + md_size md + 256" and "all_size \<le> length d" and "all_size \<le> 2 ^ 28"
  shows "EVP_tls_cbc_digest_record md header d data_size all_size key = Some (rfc2104 md key (header @ take data_size d))"
proof -
  define least where "least = min_data_size (md_size md) all_size"
  have least: "least \<le> data_size" "least \<le> all_size" using min_data_size assms(4,5) by (simp_all add: least_def)
  have s: "data_size - least \<le> all_size - least" "all_size - least \<le> length (drop least d)" using assms(4,6) by simp_all
  have p: "hmac_pad key = ipad md key" "map (\<lambda>b. b XOR 0x6a) (ipad md key) = opad md key" "length (ipad md key) = 64"
    using hmac_pads [OF assms(2), of md] length_pads(1) [of md key] assms(1) by (auto simp: EVP_tls_cbc_record_digest_supported_def)
  have b: "8 * (length (concat [ipad md key, header, take least d]) + (all_size - least)) < 2 ^ 32"
    using p(3) assms(3,6,7) least by simp
  have c: "concat [ipad md key, header, take least d] @ take (data_size - least) (drop least d) = ipad md key @ header @ take data_size d"
    using record_pieces [OF least(1)] by simp
  consider "md = EVP_sha1" | "md = EVP_sha256" using assms(1) by (auto simp: EVP_tls_cbc_record_digest_supported_def)
  then show ?thesis
  proof cases
    case 1
    have m: "least = min_data_size 20 all_size" by (simp add: least_def 1)
    have "fst (EVP_sha1_final_with_secret_suffix (SHA1_Update (take least d) (SHA1_Update header (SHA1_Update (ipad md key) SHA1_Init)))
        (drop least d) (data_size - least) (all_size - least)) = Some (sha1_digest (ipad md key @ header @ take data_size d))"
      using sha1_suffix_digest [OF s b] unfolding c by simp
    then show ?thesis
      using assms(2) p(1,2) sha1_streams [of "[opad md key, sha1_digest (ipad md key @ header @ take data_size d)]"]
      unfolding 1 by (auto simp: tls_cbc_digest_record_sha1_def Let_def m [symmetric] rfc2104_def split: prod.split option.split)
  next
    case 2
    have m: "least = min_data_size 32 all_size" by (simp add: least_def 2)
    define H where "H = Digest_Sha256.fips_digest fips_H256 32"
    have "fst (EVP_sha256_final_with_secret_suffix (SHA256_Update (take least d) (SHA256_Update header (SHA256_Update (ipad md key) SHA256_Init)))
        (drop least d) (data_size - least) (all_size - least)) = Some (H (ipad md key @ header @ take data_size d))"
      using sha256_suffix_digest [OF s b] unfolding c by (simp add: H_def SHA256_Init_fips)
    then show ?thesis
      using assms(2) p(1,2) conjunct1 [OF sha256_streams [of "[opad md key, H (ipad md key @ header @ take data_size d)]"]]
      unfolding 2 by (auto simp: tls_cbc_digest_record_sha256_def Let_def m [symmetric] rfc2104_def H_def split: prod.split option.split)
  qed
qed

lemma tls_cbc_digest_record_hmac_witness:
  "EVP_tls_cbc_digest_record EVP_sha256 (replicate 13 1) (replicate 400 2) 300 400 (replicate 32 3) =
     Some (rfc2104 EVP_sha256 (replicate 32 3) (replicate 13 1 @ take 300 (replicate 400 2)))"
  by (rule tls_cbc_digest_record_hmac) (simp_all add: EVP_tls_cbc_record_digest_supported_def)

text \<open>C19. A decrypted record of data, MAC and padding is taken apart as RFC 5246 puts it together: the padding is accepted exactly when
  all its bytes are its length and the MAC fits before it, the length that is left is the one without the padding, or the whole record
  if it is refused, and the bytes that are then cut out are the MAC, at whichever of its 256 places it is.\<close>

theorem tls_cbc_record_parts:
  assumes "length inp < 2 ^ 63" and "0 < w" and "w + 1 \<le> length inp"
  shows "\<exists>ok len. EVP_tls_cbc_remove_padding inp w = Some (ok, word_of_nat len) \<and>
    (ok = CONSTTIME_TRUE_W \<longleftrightarrow> padded inp \<and> w + padding_size inp \<le> length inp) \<and>
    (ok = CONSTTIME_TRUE_W \<or> ok = CONSTTIME_FALSE_W) \<and>
    len = (if ok = CONSTTIME_TRUE_W then length inp - padding_size inp else length inp) \<and>
    EVP_tls_cbc_copy_mac w inp len (length inp) = take w (drop (len - w) inp)"
proof -
  define good where "good \<longleftrightarrow> padded inp \<and> w + padding_size inp \<le> length inp"
  define len where "len = (if good then length inp - padding_size inp else length inp)"
  have "unat (last inp) < 256" using unsigned_less [of "last inp"] by simp
  then have "padding_size inp \<le> 256" by (simp add: padding_size_def)
  then have "w \<le> len" "len \<le> length inp" "length inp \<le> len + 256" using assms(3) by (auto simp: len_def good_def)
  then have "EVP_tls_cbc_copy_mac w inp len (length inp) = take w (drop (len - w) inp)"
    using copy_mac [of w len "length inp" inp] assms(1,2) by simp
  moreover have "EVP_tls_cbc_remove_padding inp w = Some (if good then CONSTTIME_TRUE_W else CONSTTIME_FALSE_W, word_of_nat len)"
    using remove_padding [of inp w] assms by (simp add: good_def len_def)
  moreover have "len = (if good then length inp - padding_size inp else length inp)" by (simp add: len_def)
  ultimately show ?thesis
    by (intro exI [of _ "if good then CONSTTIME_TRUE_W else CONSTTIME_FALSE_W"] exI [of _ len]) (simp add: good_def [symmetric])
qed

lemma tls_cbc_record_parts_witness:
  "\<exists>ok len. EVP_tls_cbc_remove_padding ([1, 2, 3] @ replicate 20 4 @ replicate 9 8) 20 = Some (ok, word_of_nat len) \<and>
     EVP_tls_cbc_copy_mac 20 ([1, 2, 3] @ replicate 20 4 @ replicate 9 8) len 32 =
       take 20 (drop (len - 20) ([1, 2, 3] @ replicate 20 4 @ replicate 9 8))"
proof -
  define inp :: "u8 list" where "inp = [1, 2, 3] @ replicate 20 4 @ replicate 9 8"
  have "length inp = 32" by (simp add: inp_def)
  then show ?thesis using tls_cbc_record_parts [of inp 20] unfolding inp_def by auto
qed

end
