(* ===== verification/Kdf.thy ===== *)
theory Kdf
  imports Hmac Cbb_Der
begin

text \<open>
  Model of the key derivation functions over \<^verbatim>\<open>HMAC\<close>: the pseudo-random function of TLS and the label of TLS 1.3 of
  \<^verbatim>\<open>crypto/fipsmodule/tls/kdf.c\<close>, \<^verbatim>\<open>crypto/fipsmodule/hkdf/hkdf.c\<close> and \<^verbatim>\<open>crypto/evp/pbkdf.c\<close>. The first argument of an allocator
  is the call that it serves, so that every pattern of failures is possible. A result \<open>None\<close> is a null pointer that is followed.
\<close>

unbundle bit_operations_syntax

section \<open>The pseudo-random function of TLS\<close>

text \<open>
  A round of the loop on \<open>out\<close>, the output that is left: a flag, the bytes that are finished, those that are left, and the
  contexts and the value for the next round.
\<close>

definition P_hash_round ::
    "evp_md \<Rightarrow> u8 list \<Rightarrow> u8 list \<Rightarrow> u8 list \<Rightarrow> hmac_ctx \<Rightarrow> (nat \<Rightarrow> nat \<Rightarrow> heap) \<Rightarrow> hmac_ctx \<Rightarrow> hmac_ctx \<Rightarrow> u8 list \<Rightarrow> u8 list \<Rightarrow>
     (bool \<times> u8 list \<times> u8 list \<times> hmac_ctx \<times> hmac_ctx \<times> u8 list) option" where
  "P_hash_round md label seed1 seed2 ctx_init malloc ctx ctx_tmp A1 out =
     (case HMAC_CTX_copy_ex (malloc 0) ctx ctx_init of
        (False, ctx) \<Rightarrow> Some (False, [], out, ctx, ctx_tmp, A1)
      | (True, ctx) \<Rightarrow>
     (case HMAC_Update A1 ctx of
        None \<Rightarrow> None
      | Some ctx \<Rightarrow>
     (case (if length out > md_size md then HMAC_CTX_copy_ex (malloc 1) ctx_tmp ctx else (True, ctx_tmp)) of
        (False, ctx_tmp) \<Rightarrow> Some (False, [], out, ctx, ctx_tmp, A1)
      | (True, ctx_tmp) \<Rightarrow>
     (case hmac_updates [label, seed1, seed2] ctx of
        None \<Rightarrow> None
      | Some ctx \<Rightarrow>
     (case HMAC_Final (malloc 2 0) ctx of
        None \<Rightarrow> None
      | Some (None, ctx) \<Rightarrow> Some (False, [], out, ctx, ctx_tmp, A1)
      | Some (Some hmac, ctx) \<Rightarrow>
     (let l = (if length hmac > length out then length out else length hmac);
          mixed = map2 (XOR) (take l out) hmac;
          out = drop l out
      in if length out = 0 then Some (True, mixed, out, ctx, ctx_tmp, A1)
         else
     (case HMAC_Final (malloc 3 0) ctx_tmp of
        None \<Rightarrow> None
      | Some (None, ctx_tmp) \<Rightarrow> Some (False, mixed, out, ctx, ctx_tmp, A1)
      | Some (Some A1, ctx_tmp) \<Rightarrow> Some (True, mixed, out, ctx, ctx_tmp, A1))))))))"

partial_function (option) P_hash_loop ::
    "evp_md \<Rightarrow> u8 list \<Rightarrow> u8 list \<Rightarrow> u8 list \<Rightarrow> hmac_ctx \<Rightarrow> (nat \<Rightarrow> nat \<Rightarrow> heap) \<Rightarrow> hmac_ctx \<Rightarrow> hmac_ctx \<Rightarrow> u8 list \<Rightarrow> u8 list \<Rightarrow>
     (bool \<times> u8 list) option" where
  "P_hash_loop md label seed1 seed2 ctx_init malloc ctx ctx_tmp A1 out =
     Option.bind (P_hash_round md label seed1 seed2 ctx_init malloc ctx ctx_tmp A1 out) (\<lambda>(ok, mixed, out, ctx, ctx_tmp, A1).
       if \<not> ok \<or> length out = 0 then Some (ok, mixed @ out)
       else Option.bind (P_hash_loop md label seed1 seed2 ctx_init (\<lambda>i. malloc (i + 4)) ctx ctx_tmp A1 out) (\<lambda>(ok, out). Some (ok, mixed @ out)))"

definition tls1_P_hash ::
    "(nat \<Rightarrow> nat \<Rightarrow> heap) \<Rightarrow> evp_md \<Rightarrow> u8 list \<Rightarrow> u8 list \<Rightarrow> u8 list \<Rightarrow> u8 list \<Rightarrow> u8 list \<Rightarrow> (bool \<times> u8 list) option" where
  "tls1_P_hash malloc md secret label seed1 seed2 out =
     (case HMAC_Init_ex (malloc 0) (Some secret) (Some md) HMAC_CTX_init of
        None \<Rightarrow> None
      | Some (False, _) \<Rightarrow> Some (False, out)
      | Some (True, ctx_init) \<Rightarrow>
     (case HMAC_CTX_copy_ex (malloc 1) HMAC_CTX_init ctx_init of
        (False, _) \<Rightarrow> Some (False, out)
      | (True, ctx) \<Rightarrow>
     (case hmac_updates [label, seed1, seed2] ctx of
        None \<Rightarrow> None
      | Some ctx \<Rightarrow>
     (case HMAC_Final (malloc 2 0) ctx of
        None \<Rightarrow> None
      | Some (None, _) \<Rightarrow> Some (False, out)
      | Some (Some A1, ctx) \<Rightarrow>
          P_hash_loop md label seed1 seed2 ctx_init (\<lambda>i. malloc (i + 3)) ctx HMAC_CTX_init A1 out))))"

text \<open>The flag and the output, which is \<open>out\<close> at first.\<close>

definition CRYPTO_tls1_prf ::
    "(nat \<Rightarrow> nat \<Rightarrow> nat \<Rightarrow> heap) \<Rightarrow> evp_md \<Rightarrow> u8 list \<Rightarrow> u8 list \<Rightarrow> u8 list \<Rightarrow> u8 list \<Rightarrow> u8 list \<Rightarrow> (bool \<times> u8 list) option" where
  "CRYPTO_tls1_prf malloc md secret label seed1 seed2 out =
     (if length out = 0 then Some (True, out)
      else
        let out = replicate (length out) 0;
            secret_half = length secret - length secret div 2
        in if md = EVP_md5_sha1 then
             (case tls1_P_hash (malloc 0) EVP_md5 (take secret_half secret) label seed1 seed2 out of
                None \<Rightarrow> None
              | Some (False, out) \<Rightarrow> Some (False, out)
              | Some (True, out) \<Rightarrow>
                  tls1_P_hash (malloc 1) EVP_sha1 (take secret_half (drop (length secret - secret_half) secret)) label seed1 seed2 out)
           else tls1_P_hash (malloc 1) md secret label seed1 seed2 out)"

section \<open>HKDF\<close>

definition HKDF_extract :: "(nat \<Rightarrow> heap) \<Rightarrow> evp_md \<Rightarrow> u8 list \<Rightarrow> u8 list option \<Rightarrow> u8 list option option" where
  "HKDF_extract malloc md secret salt = HMAC malloc md salt secret"

text \<open>The loop from \<open>i\<close> with \<open>r\<close> rounds left; \<open>out_len - done\<close> bytes are wanted.\<close>

fun hkdf_expand_loop ::
    "(nat \<Rightarrow> nat \<Rightarrow> heap) \<Rightarrow> nat \<Rightarrow> u8 list \<Rightarrow> nat \<Rightarrow> nat \<Rightarrow> hmac_ctx \<Rightarrow> u8 list \<Rightarrow> nat \<Rightarrow> u8 list option option" where
  "hkdf_expand_loop malloc digest_len info 0 i hmac previous wanted = Some (Some [])"
| "hkdf_expand_loop malloc digest_len info (Suc r) i hmac previous wanted =
     (let ctr = word_of_nat (i + 1) :: u8 in
      case (if i \<noteq> 0 then
              (case HMAC_Init_ex (malloc i) None None hmac of
                 None \<Rightarrow> None
               | Some (False, hmac) \<Rightarrow> Some (False, hmac)
               | Some (True, hmac) \<Rightarrow> map_option (Pair True) (HMAC_Update (take digest_len previous) hmac))
            else Some (True, hmac)) of
        None \<Rightarrow> None
      | Some (False, _) \<Rightarrow> Some None
      | Some (True, hmac) \<Rightarrow>
     (case hmac_updates [info, [ctr]] hmac of
        None \<Rightarrow> None
      | Some hmac \<Rightarrow>
     (case HMAC_Final (malloc i 4) hmac of
        None \<Rightarrow> None
      | Some (None, _) \<Rightarrow> Some None
      | Some (Some previous, hmac) \<Rightarrow>
     (let todo = (if digest_len > wanted then wanted else digest_len) in
      case hkdf_expand_loop malloc digest_len info r (i + 1) hmac previous (wanted - todo) of
        None \<Rightarrow> None
      | Some None \<Rightarrow> Some None
      | Some (Some out) \<Rightarrow> Some (Some (take todo previous @ out))))))"

text \<open>The output, or nothing; \<open>out_len\<close> is a \<open>size_t\<close>.\<close>

definition HKDF_expand :: "(nat \<Rightarrow> nat \<Rightarrow> heap) \<Rightarrow> nat \<Rightarrow> evp_md \<Rightarrow> u8 list \<Rightarrow> u8 list \<Rightarrow> u8 list option option" where
  "HKDF_expand malloc out_len md prk info =
     (let digest_len = md_size md;
          n = (out_len + digest_len - 1) mod size_mod div digest_len
      in if (out_len + digest_len) mod size_mod < out_len \<or> n > 255 then Some None
         else
     (case HMAC_Init_ex (malloc 0) (Some prk) (Some md) HMAC_CTX_init of
        None \<Rightarrow> None
      | Some (False, _) \<Rightarrow> Some None
      | Some (True, hmac) \<Rightarrow> hkdf_expand_loop (\<lambda>i. malloc (i + 1)) digest_len info n 0 hmac [] out_len))"

definition HKDF :: "(nat \<Rightarrow> nat \<Rightarrow> heap) \<Rightarrow> nat \<Rightarrow> evp_md \<Rightarrow> u8 list \<Rightarrow> u8 list option \<Rightarrow> u8 list \<Rightarrow> u8 list option option" where
  "HKDF malloc out_len md secret salt info =
     (case HKDF_extract (malloc 0) md secret salt of
        None \<Rightarrow> None
      | Some None \<Rightarrow> Some None
      | Some (Some prk) \<Rightarrow> HKDF_expand (\<lambda>i. malloc (i + 1)) out_len md prk info)"

text \<open>The structure that is built has its own allocator.\<close>

definition kProtocolLabel :: "u8 list" where
  "kProtocolLabel = [0x74, 0x6c, 0x73, 0x31, 0x33, 0x20]"

definition hkdf_label :: "heap \<Rightarrow> nat \<Rightarrow> u8 list \<Rightarrow> u8 list \<Rightarrow> u8 list option" where
  "hkdf_label malloc out_len label hash =
     (case CBB_init malloc (2 + 1 + length kProtocolLabel + length label + 1 + length hash) of
        (False, _) \<Rightarrow> None
      | (True, cbb) \<Rightarrow>
     (case and_then (CBB_add_u16 malloc 0 (word_of_nat out_len))
             (and_then (CBB_add_u8_length_prefixed malloc 0)
             (and_then (CBB_add_bytes malloc 1 kProtocolLabel)
             (and_then (CBB_add_bytes malloc 1 label)
             (and_then (CBB_add_u8_length_prefixed malloc 0)
                       (CBB_add_bytes malloc 1 hash))))) cbb of
        (False, _) \<Rightarrow> None
      | (True, cbb) \<Rightarrow>
     (case CBB_finish malloc 0 True cbb of
        (None, _) \<Rightarrow> None
      | (Some (b, l), _) \<Rightarrow> Some (take l b))))"

definition CRYPTO_tls13_hkdf_expand_label ::
    "heap \<Rightarrow> (nat \<Rightarrow> nat \<Rightarrow> heap) \<Rightarrow> nat \<Rightarrow> evp_md \<Rightarrow> u8 list \<Rightarrow> u8 list \<Rightarrow> u8 list \<Rightarrow> u8 list option option" where
  "CRYPTO_tls13_hkdf_expand_label cbb_malloc malloc out_len md secret label hash =
     (case hkdf_label cbb_malloc out_len label hash of
        None \<Rightarrow> Some None
      | Some info \<Rightarrow> HKDF_expand malloc out_len md secret info)"

section \<open>PBKDF2\<close>

fun pbkdf2_rounds ::
    "nat \<Rightarrow> nat \<Rightarrow> (nat \<Rightarrow> nat \<Rightarrow> heap) \<Rightarrow> hmac_ctx \<Rightarrow> u8 list \<Rightarrow> u8 list \<Rightarrow> (bool \<times> hmac_ctx \<times> u8 list) option" where
  "pbkdf2_rounds mac_len 0 malloc hctx digest_tmp key = Some (True, hctx, key)"
| "pbkdf2_rounds mac_len (Suc r) malloc hctx digest_tmp key =
     (case HMAC_Init_ex (malloc r) None None hctx of
        None \<Rightarrow> None
      | Some (False, hctx) \<Rightarrow> Some (False, hctx, key)
      | Some (True, hctx) \<Rightarrow>
     (case HMAC_Update (take mac_len digest_tmp) hctx of
        None \<Rightarrow> None
      | Some hctx \<Rightarrow>
     (case HMAC_Final (malloc r 4) hctx of
        None \<Rightarrow> None
      | Some (None, hctx) \<Rightarrow> Some (False, hctx, key)
      | Some (Some digest_tmp, hctx) \<Rightarrow> pbkdf2_rounds mac_len r malloc hctx digest_tmp (map2 (XOR) key digest_tmp))))"

lemma md_size_pos: "0 < md_size md"
  by (cases md) simp_all

function pbkdf2_loop ::
    "evp_md \<Rightarrow> u8 list \<Rightarrow> u32 \<Rightarrow> (nat \<Rightarrow> nat \<Rightarrow> nat \<Rightarrow> heap) \<Rightarrow> hmac_ctx \<Rightarrow> u32 \<Rightarrow> u8 list \<Rightarrow> (bool \<times> u8 list) option" where
  "pbkdf2_loop md salt iterations malloc hctx i out_key =
     (if length out_key = 0 then Some (True, [])
      else
        let todo = (if md_size md > length out_key then length out_key else md_size md);
            i_buf = [ucast (drop_bit 24 i AND 0xff), ucast (drop_bit 16 i AND 0xff), ucast (drop_bit 8 i AND 0xff), ucast (i AND 0xff)]
        in
     (case HMAC_Init_ex (malloc 0 0) None None hctx of
        None \<Rightarrow> None
      | Some (False, _) \<Rightarrow> Some (False, out_key)
      | Some (True, hctx) \<Rightarrow>
     (case hmac_updates [salt, i_buf] hctx of
        None \<Rightarrow> None
      | Some hctx \<Rightarrow>
     (case HMAC_Final (malloc 0 0 4) hctx of
        None \<Rightarrow> None
      | Some (None, _) \<Rightarrow> Some (False, out_key)
      | Some (Some digest_tmp, hctx) \<Rightarrow>
     (case pbkdf2_rounds (md_size md) (unat iterations - 1) (malloc 1) hctx digest_tmp (take todo digest_tmp) of
        None \<Rightarrow> None
      | Some (False, _, key) \<Rightarrow> Some (False, key @ drop todo out_key)
      | Some (True, hctx, key) \<Rightarrow>
     (case pbkdf2_loop md salt iterations (\<lambda>j. malloc (j + 2)) hctx (i + 1) (drop todo out_key) of
        None \<Rightarrow> None
      | Some (ok, rest) \<Rightarrow> Some (ok, key @ rest)))))))"
  by pat_completeness auto
termination
  by (relation "measure (\<lambda>(md, _, _, _, _, _, out_key). length out_key)") (auto simp: md_size_pos)

declare pbkdf2_loop.simps [simp del]

definition PKCS5_PBKDF2_HMAC ::
    "(nat \<Rightarrow> nat \<Rightarrow> nat \<Rightarrow> heap) \<Rightarrow> u8 list option \<Rightarrow> u8 list \<Rightarrow> u32 \<Rightarrow> evp_md \<Rightarrow> u8 list \<Rightarrow> (bool \<times> u8 list) option" where
  "PKCS5_PBKDF2_HMAC malloc password salt iterations md out_key =
     (case HMAC_Init_ex (malloc 0 0) password (Some md) HMAC_CTX_init of
        None \<Rightarrow> None
      | Some (False, _) \<Rightarrow> Some (False, out_key)
      | Some (True, hctx) \<Rightarrow>
     (case pbkdf2_loop md salt iterations (\<lambda>j. malloc (j + 1)) hctx 1 out_key of
        None \<Rightarrow> None
      | Some (ok, out_key) \<Rightarrow> Some (ok \<and> iterations \<noteq> 0, out_key)))"

definition PKCS5_PBKDF2_HMAC_SHA1 ::
    "(nat \<Rightarrow> nat \<Rightarrow> nat \<Rightarrow> heap) \<Rightarrow> u8 list option \<Rightarrow> u8 list \<Rightarrow> u32 \<Rightarrow> u8 list \<Rightarrow> (bool \<times> u8 list) option" where
  "PKCS5_PBKDF2_HMAC_SHA1 malloc password salt iterations out_key = PKCS5_PBKDF2_HMAC malloc password salt iterations EVP_sha1 out_key"

section \<open>What the standards say\<close>

text \<open>The first \<open>n\<close> octets of the blocks \<open>B 0\<close>, \<open>B 1\<close> and so on, of \<open>size\<close> octets each.\<close>

definition first_octets :: "nat \<Rightarrow> (nat \<Rightarrow> u8 list) \<Rightarrow> nat \<Rightarrow> u8 list" where
  "first_octets sz B n = take n (concat (map B [0..<(n + sz - 1) div sz]))"

fun rfc5246_A :: "evp_md \<Rightarrow> u8 list \<Rightarrow> u8 list \<Rightarrow> nat \<Rightarrow> u8 list" where
  "rfc5246_A md secret seed 0 = seed"
| "rfc5246_A md secret seed (Suc i) = rfc2104 md secret (rfc5246_A md secret seed i)"

definition rfc5246_P_hash :: "evp_md \<Rightarrow> u8 list \<Rightarrow> u8 list \<Rightarrow> nat \<Rightarrow> u8 list" where
  "rfc5246_P_hash md secret seed = first_octets (md_size md) (\<lambda>i. rfc2104 md secret (rfc5246_A md secret seed (i + 1) @ seed))"

text \<open>RFC 2246 for the pair of MD5 and SHA-1: the halves of the secret share its middle byte when its length is odd.\<close>

definition tls_prf :: "evp_md \<Rightarrow> u8 list \<Rightarrow> u8 list \<Rightarrow> nat \<Rightarrow> u8 list" where
  "tls_prf md secret seed n =
     (if md = EVP_md5_sha1 then
        map2 (XOR) (rfc5246_P_hash EVP_md5 (take ((length secret + 1) div 2) secret) seed n)
          (rfc5246_P_hash EVP_sha1 (drop (length secret div 2) secret) seed n)
      else rfc5246_P_hash md secret seed n)"

definition rfc5869_extract :: "evp_md \<Rightarrow> u8 list option \<Rightarrow> u8 list \<Rightarrow> u8 list" where
  "rfc5869_extract md salt ikm = rfc2104 md (case salt of None \<Rightarrow> replicate (md_size md) 0 | Some s \<Rightarrow> s) ikm"

fun rfc5869_T :: "evp_md \<Rightarrow> u8 list \<Rightarrow> u8 list \<Rightarrow> nat \<Rightarrow> u8 list" where
  "rfc5869_T md prk info 0 = []"
| "rfc5869_T md prk info (Suc i) = rfc2104 md prk (rfc5869_T md prk info i @ info @ [word_of_nat (Suc i)])"

definition rfc5869_expand :: "evp_md \<Rightarrow> u8 list \<Rightarrow> u8 list \<Rightarrow> nat \<Rightarrow> u8 list" where
  "rfc5869_expand md prk info = first_octets (md_size md) (\<lambda>i. rfc5869_T md prk info (i + 1))"

text \<open>The structure \<open>HkdfLabel\<close> of RFC 8446; the label begins with \<open>tls13\<close> and a space.\<close>

definition rfc8446_label :: "nat \<Rightarrow> u8 list \<Rightarrow> u8 list \<Rightarrow> u8 list" where
  "rfc8446_label n label context =
     be_bytes 2 n @ word_of_nat (6 + length label) # [0x74, 0x6c, 0x73, 0x31, 0x33, 0x20] @ label @
       word_of_nat (length context) # context"

fun rfc8018_U :: "evp_md \<Rightarrow> u8 list \<Rightarrow> u8 list \<Rightarrow> nat \<Rightarrow> nat \<Rightarrow> u8 list" where
  "rfc8018_U md password salt i 0 = rfc2104 md password (salt @ be_bytes 4 i)"
| "rfc8018_U md password salt i (Suc j) = rfc2104 md password (rfc8018_U md password salt i j)"

definition rfc8018_F :: "evp_md \<Rightarrow> u8 list \<Rightarrow> u8 list \<Rightarrow> nat \<Rightarrow> nat \<Rightarrow> u8 list" where
  "rfc8018_F md password salt c i =
     foldl (map2 (XOR)) (rfc8018_U md password salt i 0) (map (rfc8018_U md password salt i) [1..<c])"

definition rfc8018_PBKDF2 :: "evp_md \<Rightarrow> u8 list \<Rightarrow> u8 list \<Rightarrow> nat \<Rightarrow> nat \<Rightarrow> u8 list" where
  "rfc8018_PBKDF2 md password salt c = first_octets (md_size md) (\<lambda>i. rfc8018_F md password salt c (i + 1))"

section \<open>Blocks\<close>

lemma length_rfc2104: "length (rfc2104 md k m) = md_size md"
  by (simp add: rfc2104_def length_standard_digest)

lemma first_octets_0 [simp]: "first_octets sz B 0 = []"
  by (simp add: first_octets_def)

lemma blocks_step:
  assumes "0 < sz" and "0 < (n :: nat)"
  shows "(n + sz - 1) div sz = Suc ((n - sz + sz - 1) div sz)"
proof (cases "n \<le> sz")
  case True
  then have e: "n + sz - 1 = n - 1 + sz" and l: "n - 1 < sz" using assms by simp_all
  have "(n - 1 + sz) div sz = Suc 0" using l assms(1) by (simp add: div_add_self2)
  then show ?thesis unfolding e using True assms(1) by simp
next
  case False
  then have e: "n + sz - 1 = n - 1 + sz" and l: "n - sz + sz - 1 = n - 1" using assms by simp_all
  show ?thesis unfolding e l using assms(1) by (simp add: div_add_self2)
qed

text \<open>One round of any of the loops.\<close>

lemma first_octets_step:
  assumes "0 < sz" and "length (B 0) = sz" and "0 < n"
  shows "first_octets sz B n = take n (B 0) @ first_octets sz (\<lambda>i. B (Suc i)) (n - sz)"
proof -
  have u: "[0..<Suc k] = 0 # map Suc [0..<k]" for k by (simp add: upt_conv_Cons map_Suc_upt del: upt_Suc)
  show ?thesis using assms(2) by (simp only: first_octets_def blocks_step [OF assms(1,3)] u) (simp add: comp_def)
qed

lemma length_first_octets: "0 < sz \<Longrightarrow> (\<And>i. length (B i) = sz) \<Longrightarrow> length (first_octets sz B n) = n"
proof (induction n arbitrary: B rule: less_induct)
  case (less n)
  show ?case
  proof (cases "n = 0")
    case False
    then have "length (first_octets sz (\<lambda>i. B (Suc i)) (n - sz)) = n - sz" using less by (intro less.IH) auto
    then show ?thesis using False less.prems by (simp add: first_octets_step)
  qed simp
qed

section \<open>The pseudo-random function of TLS is the one of RFC 5246\<close>

text \<open>An allocator that fails where a context is wanted.\<close>

definition refuses :: "(nat \<Rightarrow> nat \<Rightarrow> heap) \<Rightarrow> evp_md \<Rightarrow> bool" where
  "refuses malloc md \<longleftrightarrow> (\<exists>i j. OPENSSL_malloc (malloc i j) (md_ctx_size md) = None)"

lemma refusesI: "OPENSSL_malloc (malloc i j) (md_ctx_size md) = None \<Longrightarrow> refuses malloc md"
  by (auto simp: refuses_def)

lemma refuses_later: "refuses (\<lambda>i. malloc (f i)) md \<Longrightarrow> refuses malloc md"
  by (auto simp: refuses_def)

lemma HMAC_CTX_copy_ex_cases:
  assumes "authenticates md k m src"
  obtains dest' where "HMAC_CTX_copy_ex malloc dest src = (True, dest')" "authenticates md k m dest'"
  | dest' i where "HMAC_CTX_copy_ex malloc dest src = (False, dest')" "OPENSSL_malloc (malloc i) (md_ctx_size md) = None"
proof (cases "HMAC_CTX_copy_ex malloc dest src")
  case (Pair ok dest')
  have h: "hashes md (ipad md k) (i_ctx src)" "hashes md (opad md k) (o_ctx src)" "hashes md (ipad md k @ m) (md_ctx src)"
    using assms by (auto simp: authenticates_def keyed_def)
  show ?thesis
  proof (cases ok)
    case True
    then show ?thesis using HMAC_CTX_copy_ex [OF assms] Pair that(1) by simp
  next
    case False
    then have "\<exists>i. OPENSSL_malloc (malloc i) (md_ctx_size md) = None"
      using Pair EVP_MD_CTX_copy_ex [OF h(1), of "malloc 0" "i_ctx dest"]
        EVP_MD_CTX_copy_ex [OF h(2), of "malloc 1" "o_ctx dest"] EVP_MD_CTX_copy_ex [OF h(3), of "malloc 2" "md_ctx dest"]
      by (auto simp: HMAC_CTX_copy_ex_def)
    then obtain i where "OPENSSL_malloc (malloc i) (md_ctx_size md) = None" ..
    with that(2) [of dest' i] Pair False show ?thesis by simp
  qed
qed

lemma HMAC_Init_ex_first:
  obtains ctx' where "HMAC_Init_ex malloc (Some k) (Some md) HMAC_CTX_init = Some (True, ctx')" "authenticates md k [] ctx'"
  | ctx' i where "HMAC_Init_ex malloc (Some k) (Some md) HMAC_CTX_init = Some (False, ctx')" "OPENSSL_malloc (malloc i) (md_ctx_size md) = None"
  using HMAC_Init_ex_key [of "Some md" md HMAC_CTX_init malloc k] by blast

lemma HMAC_Init_ex_null: "hmac_md ctx = None \<Longrightarrow> HMAC_Init_ex malloc None (Some md) ctx = HMAC_Init_ex malloc (Some []) (Some md) ctx"
  by (simp add: HMAC_Init_ex_def)

text \<open>A message in three or two pieces, and its code.\<close>

lemma updates_final:
  assumes "authenticates md k m ctx"
  obtains ctx1 ctx2 where "hmac_updates ds ctx = Some ctx1" "HMAC_Final malloc ctx1 = Some (Some (rfc2104 md k (m @ concat ds)), ctx2)"
    "keyed md k ctx2"
  using hmac_updates [OF assms, of ds] HMAC_Final by blast

lemma update_final:
  assumes "authenticates md k m ctx"
  obtains ctx1 ctx2 where "HMAC_Update d ctx = Some ctx1" "HMAC_Final malloc ctx1 = Some (Some (rfc2104 md k (m @ d)), ctx2)"
    "keyed md k ctx2"
  using HMAC_Update [OF assms, of d] HMAC_Final by blast

lemma P_hash_round:
  assumes i: "authenticates md k [] ctx_init" and "0 < length out"
    and b_def: "b = rfc2104 md k (A1 @ label @ seed1 @ seed2)"
  obtains (full) ctx' tmp' where "P_hash_round md label seed1 seed2 ctx_init malloc ctx ctx_tmp A1 out =
      Some (True, map2 (XOR) (take (md_size md) out) b, drop (md_size md) out, ctx', tmp', if length out \<le> md_size md then A1 else rfc2104 md k A1)"
  | (failed) ctx' tmp' where "P_hash_round md label seed1 seed2 ctx_init malloc ctx ctx_tmp A1 out = Some (False, [], out, ctx', tmp', A1)" "refuses malloc md"
proof (rule HMAC_CTX_copy_ex_cases [OF i, of "malloc 0" ctx])
  fix c assume c: "HMAC_CTX_copy_ex (malloc 0) ctx ctx_init = (True, c)" "authenticates md k [] c"
  obtain c1 where c1: "HMAC_Update A1 c = Some c1" "authenticates md k A1 c1" using HMAC_Update [OF c(2), of A1] by auto
  obtain c2 c3 where c2: "hmac_updates [label, seed1, seed2] c1 = Some c2" "HMAC_Final (malloc 2 0) c2 = Some (Some b, c3)"
    by (rule updates_final [OF c1(2), of "[label, seed1, seed2]" "malloc 2 0"]) (simp add: b_def del: hmac_updates.simps)
  have lb: "length b = md_size md" by (simp add: b_def length_rfc2104)
  show thesis
  proof (cases "md_size md < length out")
    case False
    then have l: "(if length b > length out then length out else length b) = length out" and n: "\<not> length out > md_size md" using lb by auto
    have "P_hash_round md label seed1 seed2 ctx_init malloc ctx ctx_tmp A1 out =
        Some (True, map2 (XOR) (take (md_size md) out) b, drop (md_size md) out, c3, ctx_tmp, A1)"
      using n c c1 c2 by (simp add: P_hash_round_def Let_def l del: hmac_updates.simps)
    then show thesis using full n by simp
  next
    case True
    show thesis
    proof (rule HMAC_CTX_copy_ex_cases [OF c1(2), of "malloc 1" ctx_tmp])
      fix t assume t: "HMAC_CTX_copy_ex (malloc 1) ctx_tmp c1 = (True, t)" "authenticates md k A1 t"
      obtain t' where "HMAC_Final (malloc 3 0) t = Some (Some (rfc2104 md k A1), t')" using HMAC_Final [OF t(2), of "malloc 3 0"] by blast
      with True c c1 c2 lb t have "P_hash_round md label seed1 seed2 ctx_init malloc ctx ctx_tmp A1 out =
          Some (True, map2 (XOR) (take (md_size md) out) b, drop (md_size md) out, c3, t', rfc2104 md k A1)"
        by (simp add: P_hash_round_def Let_def del: hmac_updates.simps)
      then show thesis using full True by simp
    next
      fix t i assume "HMAC_CTX_copy_ex (malloc 1) ctx_tmp c1 = (False, t)" "OPENSSL_malloc (malloc 1 i) (md_ctx_size md) = None"
      then show thesis using failed refusesI [of malloc 1 i md] True c c1 by (simp add: P_hash_round_def)
    qed
  qed
next
  fix c i assume "HMAC_CTX_copy_ex (malloc 0) ctx ctx_init = (False, c)" "OPENSSL_malloc (malloc 0 i) (md_ctx_size md) = None"
  then show thesis using failed refusesI [of malloc 0 i md] by (simp add: P_hash_round_def)
qed


lemma map2_xor_append:
  fixes out :: "u8 list"
  assumes "length b1 = min n (length out)"
  shows "map2 (XOR) out (b1 @ b2) = map2 (XOR) (take n out) b1 @ map2 (XOR) (drop n out) b2"
  using assms by (cases "n \<le> length out") (simp_all add: zip_append2)

lemma map2_take_right: "length xs \<le> n \<Longrightarrow> map2 f xs (take n ys) = map2 f xs ys"
  by (intro nth_equalityI) auto

lemma P_hash_loop:
  assumes "authenticates md k [] ctx_init" and "0 < length out" and "seed = label @ seed1 @ seed2"
  shows "\<exists>ok out'. P_hash_loop md label seed1 seed2 ctx_init malloc ctx ctx_tmp (rfc5246_A md k seed (Suc n)) out = Some (ok, out') \<and>
    (ok \<longrightarrow> out' = map2 (XOR) out (first_octets (md_size md) (\<lambda>i. rfc2104 md k (rfc5246_A md k seed (Suc (n + i)) @ seed)) (length out))) \<and>
    (\<not> ok \<longrightarrow> refuses malloc md)"
  using assms(2)
proof (induction "length out" arbitrary: out n malloc ctx ctx_tmp rule: less_induct)
  case less
  let ?A = "rfc5246_A md k seed"
  let ?B = "\<lambda>n i. rfc2104 md k (?A (Suc (n + i)) @ seed)"
  define b where "b = rfc2104 md k (?A (Suc n) @ label @ seed1 @ seed2)"
  have oct: "first_octets (md_size md) (?B n) (length out) = take (length out) b @ first_octets (md_size md) (?B (Suc n)) (length out - md_size md)"
    using first_octets_step [of "md_size md" "?B n" "length out"] md_size_pos [of md] less.prems assms(3)
    by (simp add: b_def length_rfc2104)
  have mix: "map2 (XOR) out (take (length out) b @ r) = map2 (XOR) (take (md_size md) out) b @ map2 (XOR) (drop (md_size md) out) r" for r
    using map2_xor_append [of "take (length out) b" "md_size md" out r]
    by (simp add: b_def length_rfc2104 min.commute map2_take_right)
  show ?case
  proof (rule P_hash_round [OF assms(1) less.prems b_def, of malloc ctx ctx_tmp])
    fix c t
    assume r: "P_hash_round md label seed1 seed2 ctx_init malloc ctx ctx_tmp (?A (Suc n)) out =
      Some (True, map2 (XOR) (take (md_size md) out) b, drop (md_size md) out, c, t,
        if length out \<le> md_size md then ?A (Suc n) else rfc2104 md k (?A (Suc n)))"
    show ?thesis
    proof (cases "length out \<le> md_size md")
      case True
      have "P_hash_loop md label seed1 seed2 ctx_init malloc ctx ctx_tmp (?A (Suc n)) out = Some (True, map2 (XOR) (take (md_size md) out) b)"
        using True by (subst P_hash_loop.simps) (simp only: r, simp)
      moreover have "map2 (XOR) out (first_octets (md_size md) (?B n) (length out)) = map2 (XOR) (take (md_size md) out) b"
        unfolding oct mix using True by simp
      ultimately show ?thesis by metis
    next
      case False
      define rest where "rest = drop (md_size md) out"
      have "length rest < length out" "0 < length rest" using False md_size_pos [of md] by (simp_all add: rest_def)
      from less.hyps [OF this, of "\<lambda>i. malloc (i + 4)" c t "Suc n"] obtain ok out' where
          l: "P_hash_loop md label seed1 seed2 ctx_init (\<lambda>i. malloc (i + 4)) c t (?A (Suc (Suc n))) rest = Some (ok, out')"
        "ok \<longrightarrow> out' = map2 (XOR) rest (first_octets (md_size md) (?B (Suc n)) (length rest))"
        "\<not> ok \<longrightarrow> refuses (\<lambda>i. malloc (i + 4)) md" by blast
      have a: "(if length out \<le> md_size md then ?A (Suc n) else rfc2104 md k (?A (Suc n))) = ?A (Suc (Suc n))" "length rest \<noteq> 0"
        using False by (simp_all add: rest_def)
      have "P_hash_loop md label seed1 seed2 ctx_init malloc ctx ctx_tmp (?A (Suc n)) out =
          Some (ok, map2 (XOR) (take (md_size md) out) b @ out')"
        using a(2) by (subst P_hash_loop.simps) (simp only: r a(1) rest_def [symmetric], simp add: l(1) del: rfc5246_A.simps)
      moreover have "ok \<longrightarrow> map2 (XOR) (take (md_size md) out) b @ out' = map2 (XOR) out (first_octets (md_size md) (?B n) (length out))"
        unfolding oct mix using l(2) by (auto simp: rest_def simp del: rfc5246_A.simps)
      moreover have "\<not> ok \<longrightarrow> refuses malloc md" using l(3) refuses_later [of malloc "\<lambda>i. i + 4" md] by simp
      ultimately show ?thesis by blast
    qed
  next
    fix c t
    assume "P_hash_round md label seed1 seed2 ctx_init malloc ctx ctx_tmp (?A (Suc n)) out = Some (False, [], out, c, t, ?A (Suc n))"
      and "refuses malloc md"
    then have "P_hash_loop md label seed1 seed2 ctx_init malloc ctx ctx_tmp (?A (Suc n)) out = Some (False, out)"
      by (subst P_hash_loop.simps) simp
    then show ?thesis using \<open>refuses malloc md\<close> by blast
  qed
qed

lemma tls1_P_hash:
  assumes "0 < length out"
  shows "\<exists>ok out'. tls1_P_hash malloc md secret label seed1 seed2 out = Some (ok, out') \<and>
    (ok \<longrightarrow> out' = map2 (XOR) out (rfc5246_P_hash md secret (label @ seed1 @ seed2) (length out))) \<and> (\<not> ok \<longrightarrow> refuses malloc md)"
proof (rule HMAC_Init_ex_first [of "malloc 0" secret md])
  fix c0 assume c0: "HMAC_Init_ex (malloc 0) (Some secret) (Some md) HMAC_CTX_init = Some (True, c0)" "authenticates md secret [] c0"
  show ?thesis
  proof (rule HMAC_CTX_copy_ex_cases [OF c0(2), of "malloc 1" HMAC_CTX_init])
    fix c assume c: "HMAC_CTX_copy_ex (malloc 1) HMAC_CTX_init c0 = (True, c)" "authenticates md secret [] c"
    obtain c2 c3 where f: "hmac_updates [label, seed1, seed2] c = Some c2"
        "HMAC_Final (malloc 2 0) c2 = Some (Some (rfc5246_A md secret (label @ seed1 @ seed2) (Suc 0)), c3)"
      by (rule updates_final [OF c(2), of "[label, seed1, seed2]" "malloc 2 0"]) (simp del: hmac_updates.simps)
    have e: "tls1_P_hash malloc md secret label seed1 seed2 out = P_hash_loop md label seed1 seed2 c0 (\<lambda>i. malloc (i + 3)) c3 HMAC_CTX_init
        (rfc5246_A md secret (label @ seed1 @ seed2) (Suc 0)) out"
      using c0 c f by (simp add: tls1_P_hash_def del: hmac_updates.simps rfc5246_A.simps)
    show ?thesis
      using P_hash_loop [OF c0(2) assms refl, of label seed1 seed2 "\<lambda>i. malloc (i + 3)" c3 HMAC_CTX_init 0]
        refuses_later [of malloc "\<lambda>i. i + 3" md]
      by (auto simp: e rfc5246_P_hash_def simp del: rfc5246_A.simps)
  next
    fix c i assume "HMAC_CTX_copy_ex (malloc 1) HMAC_CTX_init c0 = (False, c)" "OPENSSL_malloc (malloc 1 i) (md_ctx_size md) = None"
    then show ?thesis using c0 refusesI [of malloc 1 i md] by (auto simp: tls1_P_hash_def)
  qed
next
  fix c i assume "HMAC_Init_ex (malloc 0) (Some secret) (Some md) HMAC_CTX_init = Some (False, c)"
    and "OPENSSL_malloc (malloc 0 i) (md_ctx_size md) = None"
  then show ?thesis using refusesI [of malloc 0 i md] by (auto simp: tls1_P_hash_def)
qed

lemma length_P_hash: "length (rfc5246_P_hash md k seed n) = n"
  unfolding rfc5246_P_hash_def by (rule length_first_octets) (simp_all add: md_size_pos length_rfc2104)

lemma map2_xor_zeros: "map2 (XOR) (replicate (length b) 0) b = (b :: u8 list)"
  by (intro nth_equalityI) auto

lemma prf_from_zeros:
  assumes "0 < length zeros" and "zeros = replicate (length zeros) (0 :: u8)"
  shows "\<exists>ok out'. tls1_P_hash malloc md secret label seed1 seed2 zeros = Some (ok, out') \<and>
    (ok \<longrightarrow> out' = rfc5246_P_hash md secret (label @ seed1 @ seed2) (length zeros)) \<and> (\<not> ok \<longrightarrow> refuses malloc md)"
proof -
  have x: "map2 (XOR) zeros (rfc5246_P_hash md secret (label @ seed1 @ seed2) (length zeros)) = rfc5246_P_hash md secret (label @ seed1 @ seed2) (length zeros)"
    using map2_xor_zeros [of "rfc5246_P_hash md secret (label @ seed1 @ seed2) (length zeros)"] assms(2) by (simp add: length_P_hash)
  show ?thesis using tls1_P_hash [OF assms(1), of malloc md secret label seed1 seed2] unfolding x by blast
qed

text \<open>Before TLS 1.2 the outputs for two halves of the secret under MD5 and SHA-1 are combined.\<close>

lemma tls1_prf_md5_sha1:
  assumes "length out \<noteq> 0"
  shows "\<exists>ok out'. CRYPTO_tls1_prf malloc EVP_md5_sha1 secret label seed1 seed2 out = Some (ok, out') \<and>
    (ok \<longrightarrow> out' = tls_prf EVP_md5_sha1 secret (label @ seed1 @ seed2) (length out)) \<and>
    (\<not> ok \<longrightarrow> (\<exists>i d. refuses (malloc i) d))"
proof -
  define zeros where "zeros = replicate (length out) (0 :: u8)"
  define half where "half = length secret - length secret div 2"
  define seed where "seed = label @ seed1 @ seed2"
  define sha_key where "sha_key = drop (length secret div 2) secret"
  have z: "0 < length zeros" using assms by (simp add: zeros_def)
  have zz: "zeros = replicate (length zeros) 0" by (simp add: zeros_def)
  note p = prf_from_zeros [OF z zz, of "malloc 0" EVP_md5 "take half secret" label seed1 seed2, folded seed_def]
  have h: "half = (length secret + 1) div 2" "take half (drop (length secret - half) secret) = sha_key"
    by (simp_all add: half_def sha_key_def)
  have e: "CRYPTO_tls1_prf malloc EVP_md5_sha1 secret label seed1 seed2 out =
      (case tls1_P_hash (malloc 0) EVP_md5 (take half secret) label seed1 seed2 zeros of
         None \<Rightarrow> None
       | Some (False, out) \<Rightarrow> Some (False, out)
       | Some (True, out) \<Rightarrow> tls1_P_hash (malloc 1) EVP_sha1 sha_key label seed1 seed2 out)"
    unfolding CRYPTO_tls1_prf_def Let_def half_def [symmetric] zeros_def [symmetric] h(2) if_P [OF refl] if_not_P [OF assms] by (rule refl)
  have s: "tls_prf EVP_md5_sha1 secret seed (length out) =
      map2 (XOR) (rfc5246_P_hash EVP_md5 (take half secret) seed (length out)) (rfc5246_P_hash EVP_sha1 sha_key seed (length out))"
    by (simp add: tls_prf_def h(1) sha_key_def)
  obtain ok out1 where o1: "tls1_P_hash (malloc 0) EVP_md5 (take half secret) label seed1 seed2 zeros = Some (ok, out1)"
      "ok \<longrightarrow> out1 = rfc5246_P_hash EVP_md5 (take half secret) seed (length out)" "\<not> ok \<longrightarrow> refuses (malloc 0) EVP_md5"
    using p by (auto simp: zeros_def)
  show ?thesis
  proof (cases ok)
    case False
    then show ?thesis using o1 by (auto simp: e)
  next
    case ok: True
    have l: "length out1 = length out" "0 < length out1" using o1(2) ok z by (simp_all add: length_P_hash zeros_def)
    show ?thesis
      using tls1_P_hash [OF l(2), of "malloc 1" EVP_sha1 sha_key label seed1 seed2]
      unfolding e s [unfolded seed_def] l(1) o1(1) using o1(2) ok by (auto simp: seed_def)
  qed
qed

text \<open>C15. Whatever the allocators do, the pseudo-random function of TLS returns: it gives the output that RFC 5246 defines from the
  secret, the label and the seeds, or the one that RFC 2246 defines from both digests when they are asked for, in the length that is
  wanted and without regard to what was in the buffer; and it fails only if an allocator does.\<close>

theorem CRYPTO_tls1_prf_rfc5246:
  "\<exists>ok out'. CRYPTO_tls1_prf malloc md secret label seed1 seed2 out = Some (ok, out') \<and>
    (ok \<longrightarrow> out' = tls_prf md secret (label @ seed1 @ seed2) (length out)) \<and>
    (\<not> ok \<longrightarrow> (\<exists>i d. refuses (malloc i) d))"
proof -
  consider "length out = 0" | "length out \<noteq> 0" "md \<noteq> EVP_md5_sha1" | "length out \<noteq> 0" "md = EVP_md5_sha1" by blast
  then show ?thesis
  proof cases
    case 1
    then have "tls_prf md secret (label @ seed1 @ seed2) (length out) = []"
      using length_P_hash [of md secret "label @ seed1 @ seed2" 0] length_P_hash [of EVP_sha1 _ "label @ seed1 @ seed2" 0]
      by (simp add: tls_prf_def)
    then show ?thesis using 1 by (auto simp: CRYPTO_tls1_prf_def)
  next
    case 2
    then show ?thesis
      using prf_from_zeros [of "replicate (length out) 0" "malloc 1" md secret label seed1 seed2]
      unfolding CRYPTO_tls1_prf_def tls_prf_def by auto
  next
    case 3
    then show ?thesis using tls1_prf_md5_sha1 by simp
  qed
qed

lemma sample_mallocs: "\<not> refuses (\<lambda>_ _. sample_heap) md"
  by (cases md) (simp_all add: refuses_def OPENSSL_malloc_def sample_heap_def)

lemma CRYPTO_tls1_prf_rfc5246_witness:
  "CRYPTO_tls1_prf (\<lambda>_ _ _. sample_heap) EVP_sha256 [1, 2, 3] [4] [5] [6] (replicate 100 0) =
     Some (True, tls_prf EVP_sha256 [1, 2, 3] ([4] @ [5] @ [6]) (length (replicate 100 (0 :: u8))))"
  using CRYPTO_tls1_prf_rfc5246 [of "\<lambda>_ _ _. sample_heap" EVP_sha256 "[1, 2, 3]" "[4]" "[5]" "[6]" "replicate 100 0"]
  by (auto simp only: sample_mallocs)

section \<open>HKDF is RFC 5869\<close>

text \<open>A missing salt is as good as one of zeros.\<close>

lemma rfc2104_zero_key: "rfc2104 md (replicate (md_size md) 0) m = rfc2104 md [] m"
proof -
  have "rfc2104_key md (replicate (md_size md) 0) = rfc2104_key md []"
    using md_size_le_block [of md] by (simp add: rfc2104_key_def flip: replicate_add)
  then show ?thesis by (simp add: rfc2104_def ipad_def opad_def)
qed

lemma HKDF_extract:
  "HKDF_extract malloc md secret salt = Some (Some (rfc5869_extract md salt secret)) \<or>
   HKDF_extract malloc md secret salt = Some None \<and> (\<exists>i. OPENSSL_malloc (malloc i) (md_ctx_size md) = None)"
proof -
  have "HMAC malloc md None secret = HMAC malloc md (Some []) secret"
    by (simp add: HMAC_def HMAC_Init_ex_null HMAC_CTX_init_def)
  then have "HKDF_extract malloc md secret salt = HMAC malloc md (Some (case salt of None \<Rightarrow> [] | Some s \<Rightarrow> s)) secret"
    by (cases salt) (simp_all add: HKDF_extract_def)
  moreover have "rfc5869_extract md salt secret = rfc2104 md (case salt of None \<Rightarrow> [] | Some s \<Rightarrow> s) secret"
    by (cases salt) (simp_all add: rfc5869_extract_def rfc2104_zero_key)
  ultimately show ?thesis using HMAC_rfc2104 [of malloc md "case salt of None \<Rightarrow> [] | Some s \<Rightarrow> s" secret] by simp
qed

lemma length_T: "length (rfc5869_T md k info (Suc i)) = md_size md"
  by (simp add: length_rfc2104)

lemma hkdf_expand_loop:
  assumes "if i = 0 then authenticates md k [] ctx else keyed md k ctx" and "previous = rfc5869_T md k info i"
    and "r = (wanted + md_size md - 1) div md_size md"
  shows "hkdf_expand_loop malloc (md_size md) info r i ctx previous wanted =
    Some (Some (first_octets (md_size md) (\<lambda>j. rfc5869_T md k info (Suc (i + j))) wanted))"
  using assms
proof (induction r arbitrary: i ctx previous wanted)
  case 0
  then have "wanted + md_size md - 1 < md_size md" using md_size_pos [of md] by (metis div_eq_0_iff less_irrefl)
  then have "wanted = 0" by simp
  then show ?case by simp
next
  case (Suc r)
  define T where "T = rfc5869_T md k info (Suc i)"
  have w: "0 < wanted" using Suc.prems(3) md_size_pos [of md] by (cases "wanted = 0") simp_all
  have lp: "take (md_size md) previous = previous" using Suc.prems(2) by (cases i) (simp_all add: length_rfc2104)
  obtain c where c: "(if i \<noteq> 0 then
              (case HMAC_Init_ex (malloc i) None None ctx of
                 None \<Rightarrow> None
               | Some (False, hmac) \<Rightarrow> Some (False, hmac)
               | Some (True, hmac) \<Rightarrow> map_option (Pair True) (HMAC_Update previous hmac))
            else Some (True, ctx)) = Some (True, c)" and a: "authenticates md k previous c"
  proof (cases "i = 0")
    case True
    then show thesis using that Suc.prems by simp
  next
    case False
    obtain c1 where c1: "HMAC_Init_ex (malloc i) None None ctx = Some (True, c1)" "authenticates md k [] c1"
      using HMAC_Init_ex_rewind [of md k ctx None "malloc i"] False Suc.prems(1) by auto
    then show thesis using that False HMAC_Update [OF c1(2), of previous] by auto
  qed
  obtain c1 c2 where f: "hmac_updates [info, [word_of_nat (i + 1)]] c = Some c1" "HMAC_Final (malloc i 4) c1 = Some (Some T, c2)" "keyed md k c2"
    by (rule updates_final [OF a, of "[info, [word_of_nat (i + 1)]]" "malloc i 4"]) (simp add: T_def Suc.prems(2) del: hmac_updates.simps)
  have lT: "length T = md_size md" unfolding T_def by (rule length_T)
  define todo where "todo = (if md_size md > wanted then wanted else md_size md)"
  have todo: "take todo T = take wanted T" "wanted - todo = wanted - md_size md" using lT by (auto simp: todo_def)
  have r: "r = (wanted - md_size md + md_size md - 1) div md_size md"
    using blocks_step [OF md_size_pos [of md] w] Suc.prems(3) by linarith
  have "hkdf_expand_loop malloc (md_size md) info r (i + 1) c2 T (wanted - md_size md) =
      Some (Some (first_octets (md_size md) (\<lambda>j. rfc5869_T md k info (Suc (i + 1 + j))) (wanted - md_size md)))"
    by (rule Suc.IH) (use f(3) r in \<open>simp_all add: T_def\<close>)
  then have IH: "hkdf_expand_loop malloc (md_size md) info r (i + 1) c2 T (wanted - md_size md) =
      Some (Some (first_octets (md_size md) (\<lambda>j. rfc5869_T md k info (Suc (i + Suc j))) (wanted - md_size md)))" by simp
  have "first_octets (md_size md) (\<lambda>j. rfc5869_T md k info (Suc (i + j))) wanted =
      take wanted T @ first_octets (md_size md) (\<lambda>j. rfc5869_T md k info (Suc (i + Suc j))) (wanted - md_size md)"
    using first_octets_step [OF md_size_pos [of md] _ w, of "\<lambda>j. rfc5869_T md k info (Suc (i + j))"] lT by (simp add: T_def)
  then show ?case
    by (simp only: hkdf_expand_loop.simps Let_def lp c f(1,2) todo_def [symmetric] todo IH option.case prod.case bool.case)
qed

lemma HKDF_expand:
  assumes "out_len < size_mod"
  shows "HKDF_expand malloc out_len md prk info =
      (if out_len \<le> 255 * md_size md then Some (Some (rfc5869_expand md prk info out_len)) else Some None) \<or>
    HKDF_expand malloc out_len md prk info = Some None \<and> refuses malloc md"
proof (cases "out_len \<le> 255 * md_size md")
  case False
  have s: "md_size md \<le> 64" "0 < md_size md" by (cases md; simp)+
  show ?thesis
  proof (cases "out_len + md_size md < size_mod")
    case True
    have "255 * md_size md + 1 + md_size md - 1 \<le> out_len + md_size md - 1" using False by simp
    then have "256 \<le> (out_len + md_size md - 1) div md_size md" using s div_le_mono [of "256 * md_size md" _ "md_size md"] by simp
    then show ?thesis using False True by (simp add: HKDF_expand_def)
  next
    case wrap: False
    then have "(out_len + md_size md) mod size_mod = out_len + md_size md - size_mod"
      using assms s by (subst mod_if) (simp add: mod_less)
    moreover have "64 < size_mod" by simp
    then have "out_len + md_size md - size_mod < out_len" using assms s wrap by linarith
    ultimately show ?thesis using False by (simp add: HKDF_expand_def Let_def)
  qed
next
  case True
  have s: "md_size md \<le> 64" "0 < md_size md" by (cases md; simp)+
  have m: "(out_len + md_size md) mod size_mod = out_len + md_size md"
    "(out_len + md_size md - 1) mod size_mod = out_len + md_size md - 1" using True s by simp_all
  have "(out_len + md_size md - 1) div md_size md \<le> (255 * md_size md + (md_size md - 1)) div md_size md"
    using True s by (intro div_le_mono) simp
  also have "\<dots> = 255" using s by (intro div_nat_eqI) simp_all
  finally have n: "\<not> ((out_len + md_size md) < out_len \<or> (out_len + md_size md - 1) div md_size md > 255)" by simp
  have e: "HKDF_expand malloc out_len md prk info = (case HMAC_Init_ex (malloc 0) (Some prk) (Some md) HMAC_CTX_init of
        None \<Rightarrow> None
      | Some (False, _) \<Rightarrow> Some None
      | Some (True, hmac) \<Rightarrow>
          hkdf_expand_loop (\<lambda>i. malloc (i + 1)) (md_size md) info ((out_len + md_size md - 1) div md_size md) 0 hmac [] out_len)"
    unfolding HKDF_expand_def Let_def m if_not_P [OF n] by (rule refl)
  show ?thesis
  proof (rule HMAC_Init_ex_first [of "malloc 0" prk md])
    fix c assume c: "HMAC_Init_ex (malloc 0) (Some prk) (Some md) HMAC_CTX_init = Some (True, c)" "authenticates md prk [] c"
    have "hkdf_expand_loop (\<lambda>i. malloc (i + 1)) (md_size md) info ((out_len + md_size md - 1) div md_size md) 0 c [] out_len =
        Some (Some (first_octets (md_size md) (\<lambda>j. rfc5869_T md prk info (Suc (0 + j))) out_len))"
      by (rule hkdf_expand_loop) (simp_all add: c(2))
    then show ?thesis using c(1) True by (simp add: e rfc5869_expand_def)
  next
    fix c i assume "HMAC_Init_ex (malloc 0) (Some prk) (Some md) HMAC_CTX_init = Some (False, c)"
      and "OPENSSL_malloc (malloc 0 i) (md_ctx_size md) = None"
    then show ?thesis using refusesI [of malloc 0 i md] by (simp add: e)
  qed
qed

text \<open>C14. HKDF gives the output keying material of RFC 5869 in every length up to 255 digests, with a missing salt as the zeros that the
  standard puts in its place; longer outputs are refused, also those whose length would wrap, and nothing else fails but an allocator.\<close>

theorem HKDF_rfc5869:
  assumes "out_len < size_mod"
  shows "HKDF malloc out_len md secret salt info =
      (if out_len \<le> 255 * md_size md then Some (Some (rfc5869_expand md (rfc5869_extract md salt secret) info out_len)) else Some None) \<or>
    HKDF malloc out_len md secret salt info = Some None \<and> refuses malloc md"
proof (rule disjE [OF HKDF_extract [of "malloc 0" md secret salt]])
  assume "HKDF_extract (malloc 0) md secret salt = Some (Some (rfc5869_extract md salt secret))"
  then show ?thesis
    using HKDF_expand [OF assms, of "\<lambda>i. malloc (i + 1)" md "rfc5869_extract md salt secret" info] refuses_later [of malloc "\<lambda>i. i + 1" md]
    by (auto simp: HKDF_def)
next
  assume "HKDF_extract (malloc 0) md secret salt = Some None \<and> (\<exists>i. OPENSSL_malloc (malloc 0 i) (md_ctx_size md) = None)"
  then show ?thesis using refusesI [of malloc 0 _ md] by (auto simp: HKDF_def)
qed

lemma HKDF_rfc5869_witness:
  "HKDF (\<lambda>_ _. sample_heap) 42 EVP_sha256 [1, 2, 3] None [4] =
     Some (Some (rfc5869_expand EVP_sha256 (rfc5869_extract EVP_sha256 None [1, 2, 3]) [4] 42))"
  using HKDF_rfc5869 [of 42 "\<lambda>_ _. sample_heap" EVP_sha256 "[1, 2, 3]" None "[4]"] sample_mallocs [of EVP_sha256] by simp

section \<open>The label of TLS 1.3\<close>

text \<open>A child that is too long is found when it is flushed.\<close>

lemma prefixed_child:
  "length c < 256 \<Longrightarrow> appends malloc d pre pb \<Longrightarrow> appends malloc (Suc d) op1 c \<Longrightarrow>
    appends malloc d (and_then pre (and_then (cbb_add_child malloc d 1 False) (and_then op1 (CBB_flush malloc d)))) (pb @ word_of_nat (length c) # c)"
  using appends_child [of malloc d pre pb op1 c "Fixed 1"] by simp

lemma prefixed_child_fits:
  assumes g: "good_malloc malloc" and r: "rep s w" and d: "length (snd w) = d"
    and p: "appends malloc d pre pb" and c: "appends malloc (Suc d) op1 c"
    and s': "and_then pre (and_then (cbb_add_child malloc d 1 False) (and_then op1 (CBB_flush malloc d))) s = (True, s')"
  shows "length c < 256"
proof -
  obtain t u v where t: "pre s = (True, t)" and u: "cbb_add_child malloc d (prefix_len (Fixed 1)) (Fixed 1 = Asn1) t = (True, u)"
    and v: "op1 u = (True, v)" and fl: "CBB_flush malloc d v = (True, s')"
    using s' by (auto simp: and_then_True)
  have w: "rep t (append_to w pb)" by (rule appends.appends_here [OF p g r d t])
  have l: "length (snd (append_to w pb)) = d" using d by simp
  have ru: "rep u (push (append_to w pb) (Fixed 1))" by (rule add_child_result(1) [OF g w l _ u]) simp
  have rv: "rep v (append_to (push (append_to w pb) (Fixed 1)) c)" by (rule appends.appends_here [OF c g ru _ v]) (use d in simp)
  have "close_to d (append_to (push (append_to w pb) (Fixed 1)) c) \<noteq> None"
    using flush.appends_sound [OF g rv _ fl] d by auto
  then show ?thesis using close_to_pushed [OF l, of "Fixed 1" c] by (auto split: if_splits)
qed

text \<open>The operations between \<open>CBB_init\<close> and \<open>CBB_finish\<close>, with the flush of the latter.\<close>

definition first_part :: "heap \<Rightarrow> nat \<Rightarrow> u8 list \<Rightarrow> writer" where
  "first_part malloc n label =
     and_then (and_then (CBB_add_u16 malloc 0 (word_of_nat n)) (CBB_flush malloc 0)) (and_then (cbb_add_child malloc 0 1 False)
       (and_then (and_then (CBB_add_bytes malloc 1 kProtocolLabel) (CBB_add_bytes malloc 1 label)) (CBB_flush malloc 0)))"

definition label_writer :: "heap \<Rightarrow> nat \<Rightarrow> u8 list \<Rightarrow> u8 list \<Rightarrow> writer" where
  "label_writer malloc n label hash =
     and_then (first_part malloc n label)
       (and_then (cbb_add_child malloc 0 1 False) (and_then (CBB_add_bytes malloc 1 hash) (CBB_flush malloc 0)))"

lemma protocol_label: "length kProtocolLabel = 6"
  by (simp add: kProtocolLabel_def)

lemma label_appends:
  assumes "length label < size_mod" and "n < 2 ^ 16"
  shows "appends malloc 0 (and_then (CBB_add_u16 malloc 0 (word_of_nat n)) (CBB_flush malloc 0)) (be_bytes 2 n)"
    and "appends malloc (Suc 0) (and_then (CBB_add_bytes malloc 1 kProtocolLabel) (CBB_add_bytes malloc 1 label)) (kProtocolLabel @ label)"
proof -
  have "unat (word_of_nat n :: u16) = n" using assms(2) by (simp add: unsigned_of_nat take_bit_eq_mod)
  then show "appends malloc 0 (and_then (CBB_add_u16 malloc 0 (word_of_nat n)) (CBB_flush malloc 0)) (be_bytes 2 n)"
    using appends_and_then [OF add_u16.appends_axioms [of malloc 0 "word_of_nat n"] flush.appends_axioms [of malloc 0]] by simp
  show "appends malloc (Suc 0) (and_then (CBB_add_bytes malloc 1 kProtocolLabel) (CBB_add_bytes malloc 1 label)) (kProtocolLabel @ label)"
    using appends_and_then [OF add_bytes_appends add_bytes_appends, of kProtocolLabel label malloc "Suc 0"] assms(1)
    by (simp add: protocol_label)
qed

lemma label_writer:
  assumes "length label \<le> 249" and "length hash < 256" and "n < 2 ^ 16"
  shows "appends malloc 0 (label_writer malloc n label hash) (rfc8446_label n label hash)"
proof -
  have l: "length label < size_mod" "length (kProtocolLabel @ label) < 256" "length hash < size_mod" using assms by (simp_all add: protocol_label)
  have f: "appends malloc 0 (first_part malloc n label) (be_bytes 2 n @ word_of_nat (6 + length label) # kProtocolLabel @ label)"
    using prefixed_child [OF l(2) label_appends [OF l(1) assms(3)]] by (simp add: first_part_def protocol_label)
  show ?thesis
    using prefixed_child [OF assms(2) f add_bytes_appends [OF l(3), of _ "Suc 0"]] by (simp add: label_writer_def rfc8446_label_def kProtocolLabel_def)
qed

lemma label_writer_fits:
  assumes g: "good_malloc malloc" and r: "rep s ([], [])" and l: "length label < size_mod" "length hash < size_mod" and n: "n < 2 ^ 16"
    and s': "label_writer malloc n label hash s = (True, s')"
  shows "length label \<le> 249" "length hash < 256"
proof -
  obtain t where t: "first_part malloc n label s = (True, t)" using s' by (auto simp: label_writer_def and_then_True)
  have "length (kProtocolLabel @ label) < 256"
    by (rule prefixed_child_fits [OF g r _ label_appends [OF l(1) n] t [unfolded first_part_def]]) simp
  then show w: "length label \<le> 249" by (simp add: protocol_label)
  have f: "appends malloc 0 (first_part malloc n label) (be_bytes 2 n @ word_of_nat (6 + length label) # kProtocolLabel @ label)"
    using prefixed_child [OF \<open>length (kProtocolLabel @ label) < 256\<close> label_appends [OF l(1) n]] by (simp add: first_part_def protocol_label)
  show "length hash < 256"
    by (rule prefixed_child_fits [OF g r _ f _ s' [unfolded label_writer_def]]) (simp_all add: add_bytes_appends [OF l(2)])
qed

text \<open>The operations, up to the flush.\<close>

lemma hkdf_label_writer:
  assumes "CBB_init malloc (2 + 1 + length kProtocolLabel + length label + 1 + length hash) = (True, s)"
  shows "hkdf_label malloc n label hash = Some b \<longleftrightarrow>
    (\<exists>s'. label_writer malloc n label hash s = (True, s') \<and> take (len s') (buf s') = b)"
proof -
  define chain where "chain = and_then (CBB_add_u16 malloc 0 (word_of_nat n)) (and_then (CBB_add_u8_length_prefixed malloc 0)
      (and_then (CBB_add_bytes malloc 1 kProtocolLabel) (and_then (CBB_add_bytes malloc 1 label)
      (and_then (CBB_add_u8_length_prefixed malloc 0) (CBB_add_bytes malloc 1 hash)))))"
  have e: "label_writer malloc n label hash = and_then chain (CBB_flush malloc 0)"
    by (simp add: label_writer_def first_part_def chain_def CBB_add_u8_length_prefixed_def cbb_add_length_prefixed_def and_then_assoc)
  show ?thesis
    unfolding e hkdf_label_def assms chain_def [symmetric]
    by (auto simp: and_then_True CBB_finish_def split: prod.splits bool.splits)
qed

lemma hkdf_label:
  assumes g: "good_malloc malloc" and l: "length label < 2 ^ 60" "length hash < 2 ^ 60" and n: "n < 2 ^ 16"
  shows "hkdf_label malloc n label hash = Some b \<Longrightarrow> b = rfc8446_label n label hash \<and> length label \<le> 249 \<and> length hash < 256"
    and "hkdf_label malloc n label hash = None \<Longrightarrow> length label \<le> 249 \<Longrightarrow> length hash < 256 \<Longrightarrow>
      OPENSSL_malloc malloc (10 + length label + length hash) = None"
proof -
  define c where "c = 2 + 1 + length kProtocolLabel + length label + 1 + length hash"
  have c: "c < size_mod" "0 < c" "c < 2 ^ 62" using l by (simp_all add: c_def protocol_label)
  have sm: "length label < size_mod" "length hash < size_mod" using l by simp_all
  { assume b: "hkdf_label malloc n label hash = Some b"
    then obtain s where s: "CBB_init malloc c = (True, s)"
      unfolding hkdf_label_def c_def [symmetric] by (auto split: prod.splits bool.splits)
    obtain s' where s': "label_writer malloc n label hash s = (True, s')" "take (len s') (buf s') = b"
      using b unfolding hkdf_label_writer [OF s [unfolded c_def]] by blast
    have r: "rep s ([], [])" using rep_init [OF g s c(1)] by simp
    have f: "length label \<le> 249" "length hash < 256" using label_writer_fits [OF g r sm n s'(1)] by simp_all
    have "rep s' (append_to ([], []) (rfc8446_label n label hash))"
      by (rule appends.appends_here [OF label_writer [OF f n] g r _ s'(1)]) simp
    then show "b = rfc8446_label n label hash \<and> length label \<le> 249 \<and> length hash < 256"
      using f s'(2) by (simp add: append_to_def rep_def content_def) }
  { assume b: "hkdf_label malloc n label hash = None" and f: "length label \<le> 249" "length hash < 256"
    show "OPENSSL_malloc malloc (10 + length label + length hash) = None"
    proof (rule ccontr)
      assume "OPENSSL_malloc malloc (10 + length label + length hash) \<noteq> None"
      moreover have c10: "c = 10 + length label + length hash" by (simp add: c_def protocol_label)
      ultimately obtain s where s: "CBB_init malloc c = (True, s)" "cap s = c" by (auto simp: CBB_init_def cbb_init_def Let_def)
      have r: "rep s ([], [])" using rep_init [OF g s(1) c(1)] by simp
      have "room malloc s (built ([], []) + length (rfc8446_label n label hash))"
        using s(2) by (simp add: room_def built_def rfc8446_label_def c10)
      from appends.appends_ok [OF label_writer [OF f n] g r _ this] obtain s' where "label_writer malloc n label hash s = (True, s')" by auto
      then show False using b hkdf_label_writer [OF s(1) [unfolded c_def], of n "take (len s') (buf s')"] by auto
    qed }
qed

text \<open>C17. The function of TLS 1.3 is \<open>HKDF-Expand-Label\<close> of RFC 8446: what it gives is the expansion under the structure \<open>HkdfLabel\<close>,
  whose length prefixes hold; it gives nothing when the label is longer than 249 bytes, the context than 255 or the output than 255
  digests, and otherwise only if one of two allocations fails: the one of the \<open>CBB\<close>, whose buffer of the size of the structure is never
  enlarged, or one that HMAC asks for.\<close>

theorem tls13_hkdf_expand_label_rfc8446:
  assumes "good_malloc cbb_malloc" and "length label < 2 ^ 60" and "length hash < 2 ^ 60" and "out_len < 2 ^ 16"
  shows "\<exists>r. CRYPTO_tls13_hkdf_expand_label cbb_malloc malloc out_len md secret label hash = Some r \<and>
    (case r of
       Some out \<Rightarrow> out = rfc5869_expand md secret (rfc8446_label out_len label hash) out_len \<and>
         length label \<le> 249 \<and> length hash \<le> 255 \<and> out_len \<le> 255 * md_size md
     | None \<Rightarrow> 249 < length label \<or> 255 < length hash \<or> 255 * md_size md < out_len \<or>
         OPENSSL_malloc cbb_malloc (10 + length label + length hash) = None \<or> refuses malloc md)"
proof (cases "hkdf_label cbb_malloc out_len label hash")
  case None
  then show ?thesis using hkdf_label(2) [OF assms] by (auto simp: CRYPTO_tls13_hkdf_expand_label_def not_le not_less)
next
  case (Some b)
  have b: "b = rfc8446_label out_len label hash" "length label \<le> 249" "length hash \<le> 255" using hkdf_label(1) [OF assms Some] by simp_all
  have "out_len < size_mod" using assms(4) by simp
  from HKDF_expand [OF this, of malloc md secret b] show ?thesis
    using b Some by (auto simp: CRYPTO_tls13_hkdf_expand_label_def not_le split: if_splits)
qed

lemma sample_label_malloc: "OPENSSL_malloc sample_heap 13 \<noteq> None"
  by (simp add: OPENSSL_malloc_def sample_heap_def)

lemma tls13_hkdf_expand_label_rfc8446_witness:
  "\<exists>r. CRYPTO_tls13_hkdf_expand_label sample_heap (\<lambda>_ _. sample_heap) 32 EVP_sha256 [1] [2, 3] [4] = Some (Some r) \<and>
     r = rfc5869_expand EVP_sha256 [1] (rfc8446_label 32 [2, 3] [4]) 32"
  using tls13_hkdf_expand_label_rfc8446 [OF good_sample_heap(1), of "[2, 3]" "[4]" 32 "\<lambda>_ _. sample_heap" EVP_sha256 "[1]"]
    sample_mallocs [of EVP_sha256] sample_label_malloc by (auto split: option.splits)

section \<open>PBKDF2 is RFC 8018\<close>

lemma length_U: "length (rfc8018_U md k s i j) = md_size md"
  by (cases j) (simp_all add: length_rfc2104)

lemma length_fold_xor: "length (foldl (map2 (XOR)) u (map f [a..<b])) = length u" if "\<And>j. length (f j) = length u" for u :: "u8 list"
proof (induction b)
  case (Suc b)
  then show ?case using that by (cases "a \<le> b") simp_all
qed simp

lemma length_F: "length (rfc8018_F md k s c i) = md_size md"
  by (simp add: rfc8018_F_def length_fold_xor length_U length_rfc2104 del: rfc8018_U.simps)

lemma pbkdf2_rounds:
  assumes "keyed md k hctx"
  shows "\<exists>hctx'. pbkdf2_rounds (md_size md) r malloc hctx (rfc8018_U md k s i j) key =
      Some (True, hctx', foldl (map2 (XOR)) key (map (rfc8018_U md k s i) [Suc j..<Suc j + r])) \<and> keyed md k hctx'"
  using assms
proof (induction r arbitrary: hctx j key)
  case (Suc r)
  obtain c where c: "HMAC_Init_ex (malloc r) None None hctx = Some (True, c)" "authenticates md k [] c"
    using HMAC_Init_ex_rewind [of md k hctx None "malloc r"] Suc.prems by blast
  obtain c1 c2 where f: "HMAC_Update (rfc8018_U md k s i j) c = Some c1"
      "HMAC_Final (malloc r 4) c1 = Some (Some (rfc8018_U md k s i (Suc j)), c2)" "keyed md k c2"
    by (rule update_final [OF c(2), of "rfc8018_U md k s i j" "malloc r 4"]) simp
  have u: "[Suc j..<Suc j + Suc r] = Suc j # [Suc (Suc j)..<Suc (Suc j) + r]" by (simp add: upt_conv_Cons del: upt_Suc)
  have t: "take (md_size md) (rfc8018_U md k s i j) = rfc8018_U md k s i j" by (simp add: length_U)
  from Suc.IH [OF f(3), of "Suc j" "map2 (XOR) key (rfc8018_U md k s i (Suc j))"] show ?case
    unfolding u by (simp only: pbkdf2_rounds.simps t c f(1,2) option.case prod.case bool.case list.map foldl_Cons)
qed simp

lemma block_index:
  fixes N :: nat and i :: u32
  assumes "i = word_of_nat N"
  shows "[ucast (drop_bit 24 i AND 0xff), ucast (drop_bit 16 i AND 0xff), ucast (drop_bit 8 i AND 0xff), ucast (i AND 0xff)] = be_bytes 4 N"
proof -
  have m: "(0xff :: u32) = mask 8" by (simp add: mask_eq_exp_minus_1)
  have low: "ucast (x AND 0xff) = (ucast x :: u8)" for x :: u32
    unfolding m by (intro bit_word_eqI) (simp add: bit_and_iff bit_ucast_iff bit_mask_iff)
  have b: "ucast (drop_bit k i AND 0xff) = (word_of_nat (N div 2 ^ k) :: u8)" if "k \<le> 24" for k
  proof -
    have "take_bit 8 (drop_bit k (take_bit 32 N)) = take_bit 8 (drop_bit k N)" using that by (simp add: drop_bit_take_bit)
    then show ?thesis
      unfolding low assms drop_bit_eq_div [symmetric] word_unat_eq_iff
      by (simp add: unsigned_ucast_eq unsigned_of_nat unsigned_drop_bit_eq)
  qed
  have four: "4 = Suc (Suc (Suc (Suc 0)))" by simp
  have e: "be_bytes 4 N = [word_of_nat (N div 2 ^ 24), word_of_nat (N div 2 ^ 16), word_of_nat (N div 2 ^ 8), word_of_nat (N div 2 ^ 0)]"
    unfolding four by (simp only: be_bytes_Suc be_bytes.simps(1)) simp
  show ?thesis unfolding e using b [of 24] b [of 16] b [of 8] b [of 0] by (simp only: drop_bit_0 id_apply)
qed

lemma pbkdf2_loop:
  assumes "keyed md k hctx"
  shows "pbkdf2_loop md salt iterations malloc hctx (word_of_nat (Suc n)) out =
    Some (True, first_octets (md_size md) (\<lambda>j. rfc8018_F md k salt (unat iterations) (Suc (n + j))) (length out))"
  using assms
proof (induction "length out" arbitrary: out n malloc hctx rule: less_induct)
  case less
  let ?F = "\<lambda>n j. rfc8018_F md k salt (unat iterations) (Suc (n + j))"
  show ?case
  proof (cases "length out = 0")
    case True
    then show ?thesis by (subst pbkdf2_loop.simps) simp
  next
    case False
    define U where "U = rfc8018_U md k salt (Suc n) 0"
    define todo where "todo = (if md_size md > length out then length out else md_size md)"
    define rest where "rest = drop todo out"
    obtain c where c: "HMAC_Init_ex (malloc 0 0) None None hctx = Some (True, c)" "authenticates md k [] c"
      using HMAC_Init_ex_rewind [of md k hctx None "malloc 0 0"] less.prems by blast
    obtain c1 c2 where f: "hmac_updates [salt, be_bytes 4 (Suc n)] c = Some c1" "HMAC_Final (malloc 0 0 4) c1 = Some (Some U, c2)" "keyed md k c2"
      by (rule updates_final [OF c(2), of "[salt, be_bytes 4 (Suc n)]" "malloc 0 0 4"]) (simp add: U_def del: hmac_updates.simps)
    have U: "length U = md_size md" by (simp add: U_def length_U del: rfc8018_U.simps)
    have cnt: "[Suc 0..<Suc 0 + (unat iterations - 1)] = [1..<unat iterations]" by (cases "unat iterations") simp_all
    obtain c3 where r: "pbkdf2_rounds (md_size md) (unat iterations - 1) (malloc 1) c2 U (take todo U) =
        Some (True, c3, foldl (map2 (XOR)) (take todo U) (map (rfc8018_U md k salt (Suc n)) [1..<unat iterations]))" "keyed md k c3"
      using pbkdf2_rounds [OF f(3), of "unat iterations - 1" "malloc 1" salt "Suc n" 0 "take todo U"] unfolding U_def cnt by blast
    have key: "foldl (map2 (XOR)) (take todo U) (map (rfc8018_U md k salt (Suc n)) [1..<unat iterations]) = take todo (?F n 0)"
    proof -
      have "foldl (map2 (XOR)) (take m u) us = take m (foldl (map2 (XOR)) u us)" if "m \<le> length u" "\<forall>v\<in>set us. length v = length u"
        for m and u :: "u8 list" and us
        using that
      proof (induction us arbitrary: u)
        case (Cons v us)
        have "map2 (XOR) (take m u) v = take m (map2 (XOR) u v)" using Cons.prems by (simp add: take_map take_zip map2_take_right)
        then show ?case using Cons by simp
      qed simp
      then show ?thesis using U by (simp add: rfc8018_F_def U_def [symmetric] length_U todo_def del: rfc8018_U.simps)
    qed
    have todo: "0 < todo" "length rest = length out - md_size md" "take todo (?F n 0) = take (length out) (?F n 0)"
      using False md_size_pos [of md] by (auto simp: todo_def rest_def length_F)
    have i: "(word_of_nat (Suc n) :: u32) + 1 = word_of_nat (Suc (Suc n))" by simp
    have IH: "pbkdf2_loop md salt iterations (\<lambda>j. malloc (j + 2)) c3 (word_of_nat (Suc (Suc n))) rest =
        Some (True, first_octets (md_size md) (?F (Suc n)) (length rest))"
      by (rule less.hyps [OF _ r(2)]) (use False todo(1) in \<open>simp add: rest_def\<close>)
    have "first_octets (md_size md) (?F n) (length out) = take (length out) (?F n 0) @ first_octets (md_size md) (?F (Suc n)) (length out - md_size md)"
      using first_octets_step [OF md_size_pos [of md], of "?F n" "length out"] False by (simp add: length_F)
    then show ?thesis
      unfolding pbkdf2_loop.simps [of md salt iterations malloc hctx _ out] Let_def block_index [OF refl] todo_def [symmetric] rest_def [symmetric] if_not_P [OF False] i
      by (simp only: c(1) f(1,2) r(1) IH key todo(2,3) option.case prod.case bool.case)
  qed
qed

text \<open>C16. PBKDF2 writes the derived key of RFC 8018 in every length, for the iterations that are asked for, and for one when none is asked
  for, which is also reported as an error; a missing password is the empty one. The only other failure is that the context of the key
  cannot be allocated, and then the buffer is left alone. The block numbers are those of the standard up to its limit of
  \<open>2 ^ 32 - 1\<close> blocks; beyond it they wrap.\<close>

theorem PKCS5_PBKDF2_HMAC_rfc8018:
  "PKCS5_PBKDF2_HMAC malloc password salt iterations md out =
      Some (iterations \<noteq> 0, rfc8018_PBKDF2 md (case password of None \<Rightarrow> [] | Some p \<Rightarrow> p) salt (unat iterations) (length out)) \<or>
   PKCS5_PBKDF2_HMAC malloc password salt iterations md out = Some (False, out) \<and> refuses (malloc 0) md"
proof -
  define p where "p = (case password of None \<Rightarrow> [] | Some p \<Rightarrow> p)"
  have i: "HMAC_Init_ex (malloc 0 0) password (Some md) HMAC_CTX_init = HMAC_Init_ex (malloc 0 0) (Some p) (Some md) HMAC_CTX_init"
    by (cases password) (simp_all add: p_def HMAC_Init_ex_null HMAC_CTX_init_def)
  show ?thesis
  proof (rule HMAC_Init_ex_first [of "malloc 0 0" p md])
    fix c assume c: "HMAC_Init_ex (malloc 0 0) (Some p) (Some md) HMAC_CTX_init = Some (True, c)" "authenticates md p [] c"
    then have "keyed md p c" by (simp add: authenticates_def)
    from pbkdf2_loop [OF this, of salt iterations "\<lambda>j. malloc (j + 1)" 0 out] show ?thesis
      using c(1) unfolding p_def [symmetric] by (simp add: PKCS5_PBKDF2_HMAC_def i rfc8018_PBKDF2_def)
  next
    fix c j assume "HMAC_Init_ex (malloc 0 0) (Some p) (Some md) HMAC_CTX_init = Some (False, c)"
      and "OPENSSL_malloc (malloc 0 0 j) (md_ctx_size md) = None"
    then show ?thesis using refusesI [of "malloc 0" 0 j md] by (simp add: PKCS5_PBKDF2_HMAC_def i)
  qed
qed

end
