(* ===== verification/Bio.thy ===== *)
theory Bio
  imports Mem Der
begin

text \<open>
  Model of the part of \<^verbatim>\<open>crypto/bio/bio.c\<close> that reads, writes and controls one BIO, over the methods of its kind. A kind of BIO
  works on a state of its own, \<open>'w\<close>; the two fields \<open>the_bio\<close> and \<open>set_bio\<close> of the methods stand for the pointer to the BIO in it. A method
  that is null is \<open>None\<close>; the inner option of its result is \<open>None\<close> when the call does not return or follows a null pointer. Reading gives
  the return value and the bytes that are stored at the start of the buffer. The error queue is not part of the model, and the pointers
  to BIOs and buffers are not null.
\<close>

unbundle bit_operations_syntax

section \<open>BIOs\<close>

record bio =
  bio_init :: bool
  bio_shutdown :: int
  bio_flags :: u32
  bio_retry_reason :: int
  bio_num :: int
  bio_num_read :: u64
  bio_num_write :: u64

record 'w bio_method =
  the_bio :: "'w \<Rightarrow> bio"
  set_bio :: "bio \<Rightarrow> 'w \<Rightarrow> 'w"
  bread :: "('w \<Rightarrow> int \<Rightarrow> (int \<times> u8 list \<times> 'w) option) option"
  bwrite :: "('w \<Rightarrow> u8 list \<Rightarrow> int \<Rightarrow> (int \<times> 'w) option) option"
  bgets :: "('w \<Rightarrow> int \<Rightarrow> (int \<times> u8 list \<times> 'w) option) option"
  bctrl :: "('w \<Rightarrow> int \<Rightarrow> int \<Rightarrow> (int \<times> 'w) option) option"

text \<open>A BIO as \<open>BIO_new\<close> leaves it for its method.\<close>

definition BIO_zeroed :: bio where
  "BIO_zeroed = \<lparr>bio_init = False, bio_shutdown = 1, bio_flags = 0, bio_retry_reason = 0, bio_num = 0, bio_num_read = 0, bio_num_write = 0\<rparr>"

abbreviation BIO_FLAGS_READ :: u32 where "BIO_FLAGS_READ \<equiv> 0x01"
abbreviation BIO_FLAGS_WRITE :: u32 where "BIO_FLAGS_WRITE \<equiv> 0x02"
abbreviation BIO_FLAGS_IO_SPECIAL :: u32 where "BIO_FLAGS_IO_SPECIAL \<equiv> 0x04"
abbreviation BIO_FLAGS_RWS :: u32 where "BIO_FLAGS_RWS \<equiv> BIO_FLAGS_READ OR BIO_FLAGS_WRITE OR BIO_FLAGS_IO_SPECIAL"
abbreviation BIO_FLAGS_SHOULD_RETRY :: u32 where "BIO_FLAGS_SHOULD_RETRY \<equiv> 0x08"
abbreviation BIO_FLAGS_MEM_RDONLY :: u32 where "BIO_FLAGS_MEM_RDONLY \<equiv> 0x200"

abbreviation BIO_CTRL_RESET :: int where "BIO_CTRL_RESET \<equiv> 1"
abbreviation BIO_CTRL_EOF :: int where "BIO_CTRL_EOF \<equiv> 2"
abbreviation BIO_CTRL_INFO :: int where "BIO_CTRL_INFO \<equiv> 3"
abbreviation BIO_CTRL_GET_CLOSE :: int where "BIO_CTRL_GET_CLOSE \<equiv> 8"
abbreviation BIO_CTRL_SET_CLOSE :: int where "BIO_CTRL_SET_CLOSE \<equiv> 9"
abbreviation BIO_CTRL_PENDING :: int where "BIO_CTRL_PENDING \<equiv> 10"
abbreviation BIO_CTRL_FLUSH :: int where "BIO_CTRL_FLUSH \<equiv> 11"
abbreviation BIO_CTRL_WPENDING :: int where "BIO_CTRL_WPENDING \<equiv> 13"

section \<open>Flags\<close>

definition BIO_set_flags :: "u32 \<Rightarrow> bio \<Rightarrow> bio" where
  "BIO_set_flags flags b = b\<lparr>bio_flags := bio_flags b OR flags\<rparr>"

definition BIO_test_flags :: "u32 \<Rightarrow> bio \<Rightarrow> u32" where
  "BIO_test_flags flags b = bio_flags b AND flags"

definition BIO_should_read :: "bio \<Rightarrow> bool" where
  "BIO_should_read b \<longleftrightarrow> BIO_test_flags BIO_FLAGS_READ b \<noteq> 0"

definition BIO_should_write :: "bio \<Rightarrow> bool" where
  "BIO_should_write b \<longleftrightarrow> BIO_test_flags BIO_FLAGS_WRITE b \<noteq> 0"

definition BIO_should_retry :: "bio \<Rightarrow> bool" where
  "BIO_should_retry b \<longleftrightarrow> BIO_test_flags BIO_FLAGS_SHOULD_RETRY b \<noteq> 0"

definition BIO_should_io_special :: "bio \<Rightarrow> bool" where
  "BIO_should_io_special b \<longleftrightarrow> BIO_test_flags BIO_FLAGS_IO_SPECIAL b \<noteq> 0"

definition BIO_clear_flags :: "u32 \<Rightarrow> bio \<Rightarrow> bio" where
  "BIO_clear_flags flags b = b\<lparr>bio_flags := bio_flags b AND NOT flags\<rparr>"

definition BIO_set_retry_read :: "bio \<Rightarrow> bio" where
  "BIO_set_retry_read b = b\<lparr>bio_flags := bio_flags b OR (BIO_FLAGS_READ OR BIO_FLAGS_SHOULD_RETRY)\<rparr>"

definition BIO_set_retry_write :: "bio \<Rightarrow> bio" where
  "BIO_set_retry_write b = b\<lparr>bio_flags := bio_flags b OR (BIO_FLAGS_WRITE OR BIO_FLAGS_SHOULD_RETRY)\<rparr>"

definition BIO_set_retry_special :: "bio \<Rightarrow> bio" where
  "BIO_set_retry_special b = b\<lparr>bio_flags := bio_flags b OR (BIO_FLAGS_READ OR BIO_FLAGS_IO_SPECIAL)\<rparr>"

definition kRetryFlags :: u32 where
  "kRetryFlags = BIO_FLAGS_RWS OR BIO_FLAGS_SHOULD_RETRY"

definition BIO_get_retry_flags :: "bio \<Rightarrow> u32" where
  "BIO_get_retry_flags b = bio_flags b AND kRetryFlags"

definition BIO_clear_retry_flags :: "bio \<Rightarrow> bio" where
  "BIO_clear_retry_flags b = b\<lparr>bio_flags := bio_flags b AND NOT kRetryFlags, bio_retry_reason := 0\<rparr>"

text \<open>The BIO and the next one of its chain.\<close>

definition BIO_copy_next_retry :: "bio \<Rightarrow> bio \<Rightarrow> bio" where
  "BIO_copy_next_retry next_bio b =
     (BIO_set_flags (BIO_get_retry_flags next_bio) (BIO_clear_retry_flags b))\<lparr>bio_retry_reason := bio_retry_reason next_bio\<rparr>"

section \<open>Reading and writing\<close>

definition BIO_read :: "'w bio_method \<Rightarrow> int \<Rightarrow> 'w \<Rightarrow> (int \<times> u8 list \<times> 'w) option" where
  "BIO_read m n w =
     (case bread m of
        None \<Rightarrow> Some (- 2, [], w)
      | Some rd \<Rightarrow>
          if \<not> bio_init (the_bio m w) then Some (- 2, [], w)
          else if n \<le> 0 then Some (0, [], w)
          else
     (case rd w n of
        None \<Rightarrow> None
      | Some (ret, bs, w) \<Rightarrow>
          let b = the_bio m w
          in Some (ret, bs, if ret > 0 then set_bio m (b\<lparr>bio_num_read := bio_num_read b + word_of_int ret\<rparr>) w else w)))"

definition BIO_gets :: "'w bio_method \<Rightarrow> int \<Rightarrow> 'w \<Rightarrow> (int \<times> u8 list \<times> 'w) option" where
  "BIO_gets m n w =
     (case bgets m of
        None \<Rightarrow> Some (- 2, [], w)
      | Some gets \<Rightarrow>
          if \<not> bio_init (the_bio m w) then Some (- 2, [], w)
          else if n \<le> 0 then Some (0, [], w)
          else
     (case gets w n of
        None \<Rightarrow> None
      | Some (ret, bs, w) \<Rightarrow>
          let b = the_bio m w
          in Some (ret, bs, if ret > 0 then set_bio m (b\<lparr>bio_num_read := bio_num_read b + word_of_int ret\<rparr>) w else w)))"

text \<open>The data has at least \<open>inl\<close> bytes.\<close>

definition BIO_write :: "'w bio_method \<Rightarrow> u8 list \<Rightarrow> int \<Rightarrow> 'w \<Rightarrow> (int \<times> 'w) option" where
  "BIO_write m inp inl w =
     (case bwrite m of
        None \<Rightarrow> Some (- 2, w)
      | Some wr \<Rightarrow>
          if \<not> bio_init (the_bio m w) then Some (- 2, w)
          else if inl \<le> 0 then Some (0, w)
          else
     (case wr w inp inl of
        None \<Rightarrow> None
      | Some (ret, w) \<Rightarrow>
          let b = the_bio m w
          in Some (ret, if ret > 0 then set_bio m (b\<lparr>bio_num_write := bio_num_write b + word_of_int ret\<rparr>) w else w)))"

text \<open>A method that says it took or gave more than was asked for breaks its contract: what follows is undefined.\<close>

function BIO_write_all :: "'w bio_method \<Rightarrow> u8 list \<Rightarrow> 'w \<Rightarrow> (bool \<times> 'w) option" where
  "BIO_write_all m d w =
     (if length d = 0 then Some (True, w)
      else
        let n = (if int (length d) > INT_MAX then INT_MAX else int (length d)) in
     (case BIO_write m d n w of
        None \<Rightarrow> None
      | Some (ret, w) \<Rightarrow>
          if ret \<le> 0 then Some (False, w)
          else if ret > n then None
          else BIO_write_all m (drop (nat ret) d) w))"
  by pat_completeness auto
termination by (relation "measure (\<lambda>(_, d, _). length d)") auto

declare BIO_write_all.simps [simp del]

definition BIO_puts :: "'w bio_method \<Rightarrow> u8 list \<Rightarrow> 'w \<Rightarrow> (int \<times> 'w) option" where
  "BIO_puts m s w = (if int (length s) > INT_MAX then Some (- 1, w) else BIO_write m s (int (length s)) w)"

fun bio_spaces :: "'w bio_method \<Rightarrow> nat \<Rightarrow> 'w \<Rightarrow> (bool \<times> 'w) option" where
  "bio_spaces m 0 w = Some (True, w)"
| "bio_spaces m (Suc k) w =
     (case BIO_puts m [0x20] w of
        None \<Rightarrow> None
      | Some (ret, w) \<Rightarrow> if ret \<noteq> 1 then Some (False, w) else bio_spaces m k w)"

definition BIO_indent :: "'w bio_method \<Rightarrow> nat \<Rightarrow> nat \<Rightarrow> 'w \<Rightarrow> (bool \<times> 'w) option" where
  "BIO_indent m indent max_indent w = bio_spaces m (if indent > max_indent then max_indent else indent) w"

section \<open>Control\<close>

text \<open>The calls whose pointer argument is null.\<close>

definition BIO_ctrl :: "'w bio_method \<Rightarrow> int \<Rightarrow> int \<Rightarrow> 'w \<Rightarrow> (int \<times> 'w) option" where
  "BIO_ctrl m cmd larg w = (case bctrl m of None \<Rightarrow> Some (- 2, w) | Some c \<Rightarrow> c w cmd larg)"

definition BIO_flush :: "'w bio_method \<Rightarrow> 'w \<Rightarrow> (int \<times> 'w) option" where
  "BIO_flush m w = BIO_ctrl m BIO_CTRL_FLUSH 0 w"

definition BIO_reset :: "'w bio_method \<Rightarrow> 'w \<Rightarrow> (int \<times> 'w) option" where
  "BIO_reset m w = BIO_ctrl m BIO_CTRL_RESET 0 w"

definition BIO_eof :: "'w bio_method \<Rightarrow> 'w \<Rightarrow> (int \<times> 'w) option" where
  "BIO_eof m w = BIO_ctrl m BIO_CTRL_EOF 0 w"

definition BIO_pending :: "'w bio_method \<Rightarrow> 'w \<Rightarrow> nat option" where
  "BIO_pending m w = map_option (\<lambda>(r, w). if r < 0 then 0 else nat r) (BIO_ctrl m BIO_CTRL_PENDING 0 w)"

definition BIO_wpending :: "'w bio_method \<Rightarrow> 'w \<Rightarrow> nat option" where
  "BIO_wpending m w = map_option (\<lambda>(r, w). if r < 0 then 0 else nat r) (BIO_ctrl m BIO_CTRL_WPENDING 0 w)"

definition BIO_set_close :: "'w bio_method \<Rightarrow> int \<Rightarrow> 'w \<Rightarrow> (int \<times> 'w) option" where
  "BIO_set_close m close_flag w = BIO_ctrl m BIO_CTRL_SET_CLOSE close_flag w"

section \<open>Whole objects\<close>

text \<open>The bytes are stored in \<open>out\<close> from \<open>pos\<close> on. The results are the flag, \<open>*out_eof_on_first_read\<close> and the buffer.\<close>

function bio_read_full :: "'w bio_method \<Rightarrow> bool \<Rightarrow> nat \<Rightarrow> nat \<Rightarrow> u8 list \<Rightarrow> 'w \<Rightarrow> (bool \<times> bool \<times> u8 list \<times> 'w) option" where
  "bio_read_full m first_read pos n out w =
     (if n = 0 then Some (True, False, out, w)
      else
        let todo = (if int n \<le> INT_MAX then int n else INT_MAX) in
     (case BIO_read m todo w of
        None \<Rightarrow> None
      | Some (ret, bs, w) \<Rightarrow>
          let out = store pos bs out in
          if ret \<le> 0 then Some (False, first_read \<and> ret = 0, out, w)
          else if ret > todo then None
          else bio_read_full m False (pos + nat ret) (n - nat ret) out w))"
  by pat_completeness auto
termination by (relation "measure (\<lambda>(_, _, _, n, _, _). n)") auto

declare bio_read_full.simps [simp del]

text \<open>
  The loop of \<open>bio_read_all\<close>: the buffer \<open>*out\<close> has \<open>n\<close> bytes, \<open>dn\<close> of them read. The result is \<open>None\<close> when the code leaves the buffer
  or the loop does not end; otherwise it is the bytes, or nothing, and the state.
\<close>

abbreviation kChunkSize :: nat where "kChunkSize \<equiv> 4096"

partial_function (option) bio_read_all_loop ::
    "(nat \<Rightarrow> heap) \<Rightarrow> 'w bio_method \<Rightarrow> nat \<Rightarrow> nat \<Rightarrow> nat \<Rightarrow> u8 list \<Rightarrow> 'w \<Rightarrow> (u8 list option \<times> 'w) option" where
  "bio_read_all_loop malloc m max_len n dn out w =
     (if dn = n then Some (None, w)
      else if dn > n then None
      else
        let todo = (if int (n - dn) > INT_MAX then INT_MAX else int (n - dn))
        in Option.bind (BIO_read m todo w) (\<lambda>(r, bs, w).
             let out = store dn bs out in
             if r = 0 then Some (Some (take dn out), w)
             else if r = - 1 then Some (None, w)
             else
               let dn = nat ((int dn + r) mod int size_mod) in
               if n < max_len \<and> nat ((int n - int dn) mod int size_mod) < kChunkSize div 2 then
                 let n' = (n + kChunkSize) mod size_mod;
                     n' = (if n' < kChunkSize \<or> n' > max_len then max_len else n');
                     new_buf = OPENSSL_realloc (malloc 0) (Some out) n'
                 in if new_buf = None then Some (None, w)
                    else bio_read_all_loop (\<lambda>i. malloc (i + 1)) m max_len n' dn (the new_buf) w
               else bio_read_all_loop malloc m max_len n dn out w))"

definition bio_read_all :: "(nat \<Rightarrow> heap) \<Rightarrow> 'w bio_method \<Rightarrow> u8 list \<Rightarrow> nat \<Rightarrow> 'w \<Rightarrow> (u8 list option \<times> 'w) option" where
  "bio_read_all malloc m pre max_len w =
     (let n = length pre + kChunkSize;
          n = (if n > max_len then max_len else n)
      in if n < length pre then Some (None, w)
         else
     (case OPENSSL_malloc (malloc 0) n of
        None \<Rightarrow> Some (None, w)
      | Some out \<Rightarrow> bio_read_all_loop (\<lambda>i. malloc (i + 1)) m max_len n (length pre) (store 0 pre out) w))"

text \<open>The end of \<open>BIO_read_asn1\<close>, where the contents have \<open>n\<close> bytes.\<close>

definition read_contents :: "(nat \<Rightarrow> heap) \<Rightarrow> 'w bio_method \<Rightarrow> nat \<Rightarrow> u8 list \<Rightarrow> nat \<Rightarrow> nat \<Rightarrow> 'w \<Rightarrow> (u8 list option \<times> 'w) option" where
  "read_contents malloc m max_len header n header_len w =
     (let sum = (n + header_len) mod size_mod in
      if sum < n \<or> sum > max_len \<or> int n > INT_MAX then Some (None, w)
      else
     (case OPENSSL_malloc (malloc 0) sum of
        None \<Rightarrow> Some (None, w)
      | Some out \<Rightarrow>
     (case bio_read_full m True header_len (sum - header_len) (store 0 (take header_len header) out) w of
        None \<Rightarrow> None
      | Some (ok, _, out, w) \<Rightarrow> Some (if ok then Some out else None, w))))"

text \<open>\<open>header\<close> is what the array holds before it is read into.\<close>

definition BIO_read_asn1 :: "(nat \<Rightarrow> heap) \<Rightarrow> u8 list \<Rightarrow> 'w bio_method \<Rightarrow> nat \<Rightarrow> 'w \<Rightarrow> (u8 list option \<times> 'w) option" where
  "BIO_read_asn1 malloc header m max_len w =
     (case bio_read_full m True 0 2 header w of
        None \<Rightarrow> None
      | Some (ok, _, header, w) \<Rightarrow>
          if \<not> ok then Some (None, w)
          else
            let tag = header ! 0; length_byte = header ! 1 in
            if tag AND 0x1f = 0x1f then Some (None, w)
            else if length_byte AND 0x80 = 0 then read_contents malloc m max_len header (unat length_byte) 2 w
            else
              let num_bytes = unat (length_byte AND 0x7f) in
              if tag AND 0x20 \<noteq> 0 \<and> num_bytes = 0 then bio_read_all malloc m (take 2 header) max_len w
              else if num_bytes = 0 \<or> num_bytes > 4 then Some (None, w)
              else
     (case bio_read_full m True 2 num_bytes header w of
        None \<Rightarrow> None
      | Some (ok, _, header, w) \<Rightarrow>
          if \<not> ok then Some (None, w)
          else
            let len32 = foldl (\<lambda>v b. push_bit 8 v OR ucast b) (0 :: u32) (take num_bytes (drop 2 header)) in
            if len32 < 128 then Some (None, w)
            else if drop_bit ((num_bytes - 1) * 8) len32 = 0 then Some (None, w)
            else read_contents malloc m max_len header (unat len32) (2 + num_bytes) w))"

section \<open>The size of an object\<close>

text \<open>
  The lengths of the header and the contents of the object whose tag byte is followed by \<open>l\<close> and \<open>r\<close>, if its length is a minimal one
  of at most four bytes.
\<close>

definition asn1_size :: "u8 \<Rightarrow> u8 list \<Rightarrow> (nat \<times> nat) option" where
  "asn1_size l r =
     (if l AND 0x80 = 0 then Some (2, unat l)
      else
        let n = unat (l AND 0x7f); v = be_nat (take n r) in
        if n = 0 \<or> n > 4 \<or> length r < n \<or> v < 128 \<or> v < 256 ^ (n - 1) then None else Some (2 + n, v))"

lemma len32: "foldl (\<lambda>v b. push_bit 8 v OR ucast b) (0 :: u32) bs = ucast (be_word bs)"
proof (induction bs rule: rev_induct)
  case (snoc b bs)
  have "ucast (push_bit 8 x OR ucast b) = push_bit 8 (ucast x :: u32) OR ucast b" for x :: u64
    by (intro bit_word_eqI) (auto simp: bit_simps)
  with snoc show ?case by (simp add: be_word_def)
qed (simp add: be_word_def)

lemma drop_bit_0_iff: "drop_bit k x = 0 \<longleftrightarrow> unat x < 2 ^ k" for x :: "'a::len word"
  by (simp add: word_unat_eq_iff unat_drop_bit div_eq_0_iff)

lemma low_tag:
  assumes "t AND 0x1f \<noteq> 0x1f" and "t AND 0xdf \<noteq> 0"
  shows "\<exists>tag. parse_asn1_tag (t # s) = (Some tag, s)"
proof -
  define tag where "tag = (push_bit CBS_ASN1_TAG_SHIFT (ucast t AND 0xe0) OR (ucast t AND 0x1f) :: u32)"
  have u: "(ucast t AND 0x1f :: u32) \<noteq> 0x1f"
  proof
    assume e: "(ucast t AND 0x1f :: u32) = 0x1f"
    have "unat (ucast t AND 0x1f :: u32) = unat (t AND 0x1f)" 
      using unat_byte_lt [of t] by (simp add: unsigned_and_eq unsigned_ucast_eq take_bit_nat_eq_self)
    then show False using e assms(1) by (simp add: word_unat_eq_iff)
  qed
  have "tag AND NOT CBS_ASN1_CONSTRUCTED \<noteq> 0"
  proof (rule notI)
    assume e: "tag AND NOT CBS_ASN1_CONSTRUCTED = 0"
    have b: "bit (tag AND NOT CBS_ASN1_CONSTRUCTED) n = False" for n unfolding e by simp
    have z: "\<not> bit t 0" "\<not> bit t 1" "\<not> bit t 2" "\<not> bit t 3" "\<not> bit t 4" "\<not> bit t 6" "\<not> bit t 7"
      using b [of 0] b [of 1] b [of 2] b [of 3] b [of 4] b [of 30] b [of 31] by (simp_all add: tag_def CBS_ASN1_TAG_SHIFT_def CBS_ASN1_CONSTRUCTED_def bit_simps)
    have "\<not> bit (t AND 0xdf) n" if "n < 8" for n
    proof -
      have "n = 0 \<or> n = 1 \<or> n = 2 \<or> n = 3 \<or> n = 4 \<or> n = 5 \<or> n = 6 \<or> n = 7" using that by linarith
      then show ?thesis using z by (elim disjE) (simp_all add: bit_and_iff)
    qed
    then have "t AND 0xdf = 0" by (intro bit_word_eqI) simp
    then show False using assms(2) by simp
  qed
  then show ?thesis using u by (simp add: parse_asn1_tag_def bind_r_def Let_def tag_def)
qed

lemma CBS_element_size:
  assumes "t AND 0x1f \<noteq> 0x1f" and "t AND 0xdf \<noteq> 0" and "length r < 2 ^ 62"
  shows "(case CBS_get_any_asn1_element (t # l # r) of (Some el, rest) \<Rightarrow> Some (el_out el, rest) | (None, _) \<Rightarrow> None) =
    (case asn1_size l r of
       None \<Rightarrow> None
     | Some (h, n) \<Rightarrow> if h + n \<le> length r + 2 then Some (take (h + n) (t # l # r), drop (h + n) (t # l # r)) else None)"
proof -
  obtain tag where tag: "parse_asn1_tag (t # l # r) = (Some tag, l # r)" using low_tag [OF assms(1,2)] by blast
  define n where "n = unat (l AND 0x7f)"
  have g: "cbs_get k s = (if length s < k then (None, s) else (Some (take k s), drop k s))" for k and s :: "u8 list" by (simp add: cbs_get_def)
  show ?thesis
  proof (cases "l AND 0x80 = 0")
    case True
    then show ?thesis
      using tag by (simp add: CBS_get_any_asn1_element_def cbs_get_any_asn1_element_def asn1_size_def CBS_len_def CBS_get_bytes_eq bind_r_def g not_less)
  next
    case False
    show ?thesis
    proof (cases "n = 0 \<or> n > 4 \<or> length r < n")
      case True
      then show ?thesis
        using tag False by (auto simp: CBS_get_any_asn1_element_def cbs_get_any_asn1_element_def asn1_size_def CBS_len_def n_def [symmetric]
            Let_def cbs_get_u_def bind_r_def g)
    next
      case ok: False
      define v where "v = be_word (take n r)"
      have lt: "length (take n r) = n" "n \<le> 4" "0 < n" using ok by auto
      have v: "unat v = be_nat (take n r)" "be_nat (take n r) < 2 ^ 32"
        using unat_be_word [of "take n r"] be_nat_less [of "take n r"] lt power_increasing [of n 4 "256 :: nat"] by (simp_all add: v_def)
      have tot: "(unat v + 2 + n) mod size_mod = 2 + n + unat v" using v lt by simp
      have pw: "(2 :: nat) ^ ((n - 1) * 8) = 256 ^ (n - 1)" by (subst mult.commute) (simp add: power_mult)
      have vv: "v < 128 \<longleftrightarrow> be_nat (take n r) < 128" "drop_bit ((n - 1) * 8) v = 0 \<longleftrightarrow> be_nat (take n r) < 256 ^ (n - 1)"
        unfolding drop_bit_0_iff pw using v(1) by (simp_all add: word_less_nat_alt)
      have "cbs_get_u n r = (Some v, drop n r)" using ok by (simp add: cbs_get_u_def bind_r_def g v_def)
      then show ?thesis
        using tag False ok vv tot v(1)
        by (auto simp: CBS_get_any_asn1_element_def cbs_get_any_asn1_element_def asn1_size_def CBS_len_def n_def [symmetric]
            Let_def bind_r_def CBS_get_bytes_eq g)
    qed
  qed
qed

lemma byte_count_exact: "0 < k \<Longrightarrow> byte_count n = k \<longleftrightarrow> n < 256 ^ k \<and> 256 ^ (k - 1) \<le> n"
  using byte_count_le_iff [of n k] byte_count_le_iff [of n "k - 1"] by auto

lemma asn1_size_sound:
  assumes "asn1_size l s = Some (k, n)" and "k + n \<le> length s + 2"
  shows "n < 2 ^ 32 \<and> k = 1 + length (der_length n) \<and> (\<exists>c rest. l # s = der_length n @ c @ rest \<and> length c = n)"
proof (cases "l AND 0x80 = 0")
  case True
  then have "unat l < 128" "k = 2" "n = unat l"
    using high_bit_byte [of l] assms(1) by (auto simp: asn1_size_def)
  then show ?thesis
    using assms(2) by (intro conjI exI [of _ "take n s"] exI [of _ "drop n s"]) (simp_all add: der_length_def)
next
  case False
  define j where "j = unat (l AND 0x7f)"
  from False assms(1) have j: "0 < j" "j \<le> 4" "j \<le> length s" "n = be_nat (take j s)" "\<not> n < 128" "\<not> n < 256 ^ (j - 1)" "k = 2 + j"
    by (auto simp: asn1_size_def Let_def j_def [symmetric] split: if_splits)
  have l: "l = word_of_nat (128 + j)"
  proof -
    have "unat l = 128 + j"
      using high_bit_byte [of l] low_bits_byte8 [of l] unat_byte_lt [of l] False unfolding j_def by (auto simp: mod_if)
    then show ?thesis by (metis word_unat_eq_iff unat_word_of_nat_byte unat_byte_lt mod_less)
  qed
  have n: "n < 256 ^ j" using be_nat_less [of "take j s"] j(3,4) by simp
  have "byte_count n = j" using j n byte_count_exact [OF j(1), of n] by simp
  moreover have "be_bytes j n = take j s" using be_bytes_be_nat [of "take j s"] j(3,4) by simp
  ultimately have d: "der_length n = l # take j s" using j(5) l by (simp add: der_length_def)
  have "256 ^ j \<le> (256 :: nat) ^ 4" using j(2) by (intro power_increasing) simp_all
  with n have "n < 2 ^ 32" by simp
  moreover have "l # s = der_length n @ take n (drop j s) @ drop n (drop j s)"
    unfolding d append_take_drop_id by simp
  moreover have "length (take n (drop j s)) = n" using j(3,7) assms(2) by simp
  ultimately show ?thesis using j(3,7) d by auto
qed

lemma asn1_size_complete:
  assumes "n < 2 ^ 32" and "l # s = der_length n @ r"
  shows "asn1_size l s = Some (1 + length (der_length n), n)"
proof (cases "n < 128")
  case True
  then have "l = word_of_nat n" "s = r" using assms(2) by (simp_all add: der_length_def)
  moreover have "unat (word_of_nat n :: u8) = n" using True by (simp add: unat_word_of_nat_byte)
  moreover have "(word_of_nat n :: u8) AND 0x80 = 0"
    using high_bit_byte [of "word_of_nat n :: u8"] True calculation(3) by simp
  ultimately show ?thesis using True by (simp add: asn1_size_def der_length_def)
next
  case False
  define j where "j = byte_count n"
  have j: "0 < j" "j \<le> 4"
    using False byte_count_le_iff [of n 4] assms(1) byte_count_le_iff [of n 0] by (auto simp: j_def)
  have l: "l = word_of_nat (128 + j)" "s = be_bytes j n @ r" using assms(2) False by (simp_all add: der_length_def j_def)
  have u: "unat l = 128 + j" using j(2) by (simp add: l(1) unat_word_of_nat_byte del: of_nat_add)
  have n: "n < 256 ^ j" "256 ^ (j - 1) \<le> n" using byte_count_exact [OF j(1), of n] by (simp_all add: j_def)
  have "l AND 0x80 \<noteq> 0" "unat (l AND 0x7f) = j"
    using high_bit_byte [of l] low_bits_byte8 [of l] u j by auto
  then show ?thesis
    using False j n l(2) be_nat_be_bytes [of j n] by (auto simp: asn1_size_def der_length_def Let_def j_def [symmetric])
qed

text \<open>The result for an object of definite length in terms of its DER length.\<close>

lemma definite_object:
  assumes p: "p = t # l # s"
    and r: "case (asn1_size l s, r) of
       (None, r) \<Rightarrow> r = None
     | (Some (h, n), Some bs) \<Rightarrow>
         h + n \<le> length p \<and> h + n \<le> max_len \<and> int n \<le> INT_MAX \<and> bs = take (h + n) p \<and> p' = drop (h + n) p
     | (Some (h, n), None) \<Rightarrow> length p < h + n \<or> max_len < h + n \<or> INT_MAX < int n \<or> OPENSSL_malloc malloc (h + n) = None"
  shows "case r of
      Some out \<Rightarrow> p = out @ p' \<and> length out \<le> max_len \<and> (\<exists>c. out = t # der_length (length c) @ c \<and> length c < 2 ^ 31)
    | None \<Rightarrow> \<forall>c rest. p = t # der_length (length c) @ c @ rest \<longrightarrow>
        max_len < length (t # der_length (length c) @ c) \<or> 2 ^ 31 \<le> length c \<or>
        OPENSSL_malloc malloc (length (t # der_length (length c) @ c)) = None"
proof (cases r)
  case None
  have "max_len < length (t # der_length (length c) @ c) \<or> 2 ^ 31 \<le> length c \<or>
      OPENSSL_malloc malloc (length (t # der_length (length c) @ c)) = None"
    if c: "p = t # der_length (length c) @ c @ rest" for c rest
  proof (cases "length c < 2 ^ 32")
    case True
    from asn1_size_complete [OF True] c p have "asn1_size l s = Some (1 + length (der_length (length c)), length c)" by auto
    moreover have "length p = 1 + length (der_length (length c)) + length c + length rest" by (simp add: c)
    ultimately show ?thesis using r None by auto
  qed simp
  then show ?thesis using None by simp
next
  case (Some out)
  then obtain h n where hn: "asn1_size l s = Some (h, n)" "h + n \<le> length p" "h + n \<le> max_len" "int n \<le> INT_MAX"
      "out = take (h + n) p" "p' = drop (h + n) p"
    using r by (auto split: option.splits)
  from asn1_size_sound [OF hn(1)] hn(2) p obtain c rest where
    c: "h = 1 + length (der_length n)" "l # s = der_length n @ c @ rest" "length c = n" by auto
  then have "out = t # der_length (length c) @ c"
    unfolding hn(5) p by simp
  moreover have "length c < 2 ^ 31" using hn(4) c(3) by simp
  moreover have "p = out @ p'" "length out \<le> max_len" using hn by simp_all
  ultimately show ?thesis using Some by auto
qed

section \<open>Sources of bytes\<close>

text \<open>
  What the functions for whole objects rely on: a BIO in the state \<open>w\<close> has the bytes \<open>pending w\<close> to read. A read takes a part of them,
  not none; when there are none left it reports the end if the source is \<open>closed\<close>, and otherwise that it should be tried again.
\<close>

locale bio_source =
  fixes m :: "'w bio_method" and ok :: "'w \<Rightarrow> bool" and pending :: "'w \<Rightarrow> u8 list" and closed :: "'w \<Rightarrow> bool"
  assumes read_some: "ok w \<Longrightarrow> 0 < n \<Longrightarrow> n \<le> INT_MAX \<Longrightarrow> pending w \<noteq> [] \<Longrightarrow>
      \<exists>k w'. BIO_read m n w = Some (int k, take k (pending w), w') \<and> 0 < k \<and> int k \<le> n \<and> k \<le> length (pending w) \<and>
        ok w' \<and> pending w' = drop k (pending w) \<and> closed w' = closed w"
    and read_none: "ok w \<Longrightarrow> 0 < n \<Longrightarrow> n \<le> INT_MAX \<Longrightarrow> pending w = [] \<Longrightarrow>
      \<exists>w'. BIO_read m n w = Some (if closed w then 0 else - 1, [], w') \<and> ok w' \<and> pending w' = [] \<and> closed w' = closed w"
begin

lemma read_full:
  assumes "ok w" and "pos + n \<le> length out"
  shows "\<exists>e out' w'. bio_read_full m first_read pos n out w = Some (n \<le> length (pending w), e, out', w') \<and> ok w' \<and>
    pending w' = drop n (pending w) \<and> closed w' = closed w \<and> (n \<le> length (pending w) \<longrightarrow> out' = store pos (take n (pending w)) out)"
  using assms
proof (induction n arbitrary: first_read pos out w rule: less_induct)
  case (less n)
  show ?case
  proof (cases "n = 0")
    case True
    then show ?thesis using less.prems by (subst bio_read_full.simps) (auto simp: store_def)
  next
    case False
    define todo where "todo = (if int n \<le> INT_MAX then int n else INT_MAX)"
    have todo: "0 < todo" "todo \<le> INT_MAX" "todo \<le> int n" using False by (auto simp: todo_def)
    show ?thesis
    proof (cases "pending w = []")
      case True
      obtain w' where "BIO_read m todo w = Some (if closed w then 0 else - 1, [], w')" "ok w'" "pending w' = []" "closed w' = closed w"
        using read_none [OF less.prems(1) todo(1,2) True] by blast
      then show ?thesis using False True
        unfolding bio_read_full.simps [of m first_read pos n out w] Let_def todo_def [symmetric] if_not_P [OF False] by auto
    next
      case p: False
      obtain k w1 where k: "BIO_read m todo w = Some (int k, take k (pending w), w1)" "0 < k" "int k \<le> todo" "k \<le> length (pending w)"
          "ok w1" "pending w1 = drop k (pending w)" "closed w1 = closed w"
        using read_some [OF less.prems(1) todo(1,2) p] by blast
      define out1 where "out1 = store pos (take k (pending w)) out"
      have kn: "k \<le> n" using k(3) todo(3) by simp
      have lt: "length (take k (pending w)) = k" using k(4) by simp
      have lo: "pos + k + (n - k) \<le> length out1" using less.prems(2) kn lt by (simp add: out1_def length_store)
      have step: "bio_read_full m first_read pos n out w = bio_read_full m False (pos + k) (n - k) out1 w1"
        unfolding bio_read_full.simps [of m first_read pos n out w] Let_def todo_def [symmetric] if_not_P [OF False] using k by (simp add: out1_def)
      obtain e out' w' where r: "bio_read_full m False (pos + k) (n - k) out1 w1 = Some (n - k \<le> length (pending w1), e, out', w')"
          "ok w'" "pending w' = drop (n - k) (pending w1)" "closed w' = closed w1"
          "n - k \<le> length (pending w1) \<longrightarrow> out' = store (pos + k) (take (n - k) (pending w1)) out1"
        using less.IH [OF _ k(5) lo] k(2) False by fastforce
      have len: "n - k \<le> length (pending w1) \<longleftrightarrow> n \<le> length (pending w)" using k(4,6) kn by auto
      have st: "store (pos + k) (take (n - k) (pending w1)) out1 = store pos (take n (pending w)) out" if "n \<le> length (pending w)"
      proof -
        have "pos + length (take k (pending w)) + length (take (n - k) (pending w1)) \<le> length out"
          using that less.prems(2) kn k(4,6) by simp
        from store_store [OF this] have "store (pos + k) (take (n - k) (pending w1)) out1 =
            store pos (take k (pending w) @ take (n - k) (drop k (pending w))) out"
          using k(6) lt by (simp add: out1_def)
        also have "take k (pending w) @ take (n - k) (drop k (pending w)) = take n (pending w)"
          using take_add [of k "n - k" "pending w"] kn by simp
        finally show ?thesis .
      qed
      show ?thesis unfolding step r(1) using r(2-5) k(6,7) len st kn by auto
    qed
  qed
qed

text \<open>Everything that is pending, behind the bytes that the buffer has already.\<close>

lemma read_all_loop:
  assumes "ok w" and "\<And>i. good_malloc (malloc i)" and "length out = n" and "dn \<le> n" and "n \<le> max_len" and "max_len < 2 ^ 62"
    and "n = max_len \<or> kChunkSize div 2 \<le> n - dn"
  shows "\<exists>r w'. bio_read_all_loop malloc m max_len n dn out w = Some (r, w') \<and> ok w' \<and>
    (case r of
       Some bs \<Rightarrow> bs = take dn out @ pending w \<and> pending w' = [] \<and> dn + length (pending w) < max_len
     | None \<Rightarrow> \<not> closed w \<or> max_len \<le> dn + length (pending w) \<or>
         (\<exists>i k. OPENSSL_malloc (malloc i) k = None \<and> k \<le> max_len))"
  using assms
proof (induction "max_len - dn" arbitrary: malloc n dn out w rule: less_induct)
  case less
  define todo where "todo = (if int (n - dn) > INT_MAX then INT_MAX else int (n - dn))"
  show ?case
  proof (cases "dn = n")
    case True
    then show ?thesis using less.prems by (subst bio_read_all_loop.simps) auto
  next
    case False
    have todo: "0 < todo" "todo \<le> INT_MAX" "todo \<le> int (n - dn)" using False less.prems(4) by (auto simp: todo_def)
    show ?thesis
    proof (cases "pending w = []")
      case True
      obtain w' where "BIO_read m todo w = Some (if closed w then 0 else - 1, [], w')" "ok w'" "pending w' = []" "closed w' = closed w"
        using read_none [OF less.prems(1) todo(1,2) True] by blast
      then show ?thesis
        unfolding bio_read_all_loop.simps [of malloc m max_len n dn out w] Let_def todo_def [symmetric] if_not_P [OF False]
        using False True less.prems(3-5) by (auto simp: store_def)
    next
      case p: False
      obtain k w1 where k: "BIO_read m todo w = Some (int k, take k (pending w), w1)" "0 < k" "int k \<le> todo" "k \<le> length (pending w)"
          "ok w1" "pending w1 = drop k (pending w)" "closed w1 = closed w"
        using read_some [OF less.prems(1) todo(1,2) p] by blast
      define out1 where "out1 = store dn (take k (pending w)) out"
      have kn: "dn + k \<le> n" using k(3) todo(3) less.prems(4) by simp
      have lt: "length (take k (pending w)) = k" using k(4) by simp
      have lo: "length out1 = n" "take (dn + k) out1 = take dn out @ take k (pending w)"
        using less.prems(3) kn lt by (simp_all add: out1_def length_store) (simp add: store_def)
      have big: "n < 2 ^ 62" using less.prems(5,6) by simp
      have nd: "nat ((int dn + int k) mod int size_mod) = dn + k" "nat ((int n - int (dn + k)) mod int size_mod) = n - (dn + k)"
        using kn big by (simp_all add: nat_mod_distrib)
      have step: "bio_read_all_loop malloc m max_len n dn out w =
          (if n < max_len \<and> n - (dn + k) < kChunkSize div 2 then
                 let n' = (n + kChunkSize) mod size_mod;
                     n' = (if n' < kChunkSize \<or> n' > max_len then max_len else n');
                     new_buf = OPENSSL_realloc (malloc 0) (Some out1) n'
                 in if new_buf = None then Some (None, w1)
                    else bio_read_all_loop (\<lambda>i. malloc (i + 1)) m max_len n' (dn + k) (the new_buf) w1
               else bio_read_all_loop malloc m max_len n (dn + k) out1 w1)"
        unfolding bio_read_all_loop.simps [of malloc m max_len n dn out w] todo_def [symmetric] if_not_P [OF False]
        using k less.prems(4) by (simp only: Let_def nd out1_def [symmetric] bind.simps prod.case) (auto simp: nd)
      have sum: "length (pending w1) = length (pending w) - k" "dn + k + length (pending w1) = dn + length (pending w)" using k(4,6) by simp_all
      show ?thesis
      proof (cases "n < max_len \<and> n - (dn + k) < kChunkSize div 2")
        case False
        have lt: "max_len - (dn + k) < max_len - dn" using kn k(2) less.prems(5) by linarith
        have inv: "n = max_len \<or> kChunkSize div 2 \<le> n - (dn + k)" using False less.prems(5) by linarith
        obtain r w' where r: "bio_read_all_loop malloc m max_len n (dn + k) out1 w1 = Some (r, w')" "ok w'"
          "case r of
             Some bs \<Rightarrow> bs = take (dn + k) out1 @ pending w1 \<and> pending w' = [] \<and> dn + k + length (pending w1) < max_len
           | None \<Rightarrow> \<not> closed w1 \<or> max_len \<le> dn + k + length (pending w1) \<or> (\<exists>i k. OPENSSL_malloc (malloc i) k = None \<and> k \<le> max_len)"
          using less.hyps [OF lt k(5) _ lo(1) kn less.prems(5,6) inv, of malloc] less.prems(2) by blast
        show ?thesis unfolding step if_not_P [OF False] r(1) using r(2,3) lo(2) k(6,7) unfolding sum(2) by (auto split: option.splits)
      next
        case True
        define n' where "n' = (if n + kChunkSize > max_len then max_len else n + kChunkSize)"
        have m: "(let n' = (n + kChunkSize) mod size_mod in if n' < kChunkSize \<or> n' > max_len then max_len else n') = n'"
          using big less.prems(6) by (simp add: n'_def)
        have n': "n \<le> n'" "n' \<le> max_len" "n' < size_mod" "dn + k \<le> n'" "n' = max_len \<or> kChunkSize div 2 \<le> n' - (dn + k)"
          using True kn less.prems(6) by (auto simp: n'_def)
        show ?thesis
        proof (cases "OPENSSL_realloc (malloc 0) (Some out1) n'")
          case None
          then have "OPENSSL_malloc (malloc 0) n' = None" by (auto simp: OPENSSL_realloc_def Let_def split: option.splits)
          then show ?thesis
            unfolding step if_P [OF True] using m None n'(2) k(5) by (auto simp: Let_def)
        next
          case (Some nb)
          have lnb: "length nb = n'" "take n nb = out1"
            using realloc_grow [OF less.prems(2) Some] lo(1) n'(1,3) by simp_all
          have tk: "take (dn + k) nb = take (dn + k) out1" using lnb(2) kn by (metis min.absorb1 take_take)
          have lt: "max_len - (dn + k) < max_len - dn" using kn k(2) less.prems(5) by linarith
          obtain r w' where r: "bio_read_all_loop (\<lambda>i. malloc (i + 1)) m max_len n' (dn + k) nb w1 = Some (r, w')" "ok w'"
            "case r of
               Some bs \<Rightarrow> bs = take (dn + k) nb @ pending w1 \<and> pending w' = [] \<and> dn + k + length (pending w1) < max_len
             | None \<Rightarrow> \<not> closed w1 \<or> max_len \<le> dn + k + length (pending w1) \<or> (\<exists>i k. OPENSSL_malloc (malloc (i + 1)) k = None \<and> k \<le> max_len)"
            using less.hyps [OF lt k(5) _ lnb(1) n'(4,2) less.prems(6) n'(5), of "\<lambda>i. malloc (i + 1)"] less.prems(2) by blast
          have "bio_read_all_loop malloc m max_len n dn out w = Some (r, w')"
            unfolding step if_P [OF True] using m Some r(1) by (simp add: Let_def)
          then show ?thesis using r(2,3) lo(2) k(6,7) tk unfolding sum(2) by (auto split: option.splits)
        qed
      qed
    qed
  qed
qed

lemma read_all:
  assumes "ok w" and "\<And>i. good_malloc (malloc i)" and "max_len < 2 ^ 62"
  shows "\<exists>r w'. bio_read_all malloc m pre max_len w = Some (r, w') \<and> ok w' \<and>
    (case r of
       Some bs \<Rightarrow> bs = pre @ pending w \<and> pending w' = [] \<and> length bs < max_len
     | None \<Rightarrow> \<not> closed w \<or> max_len \<le> length (pre @ pending w) \<or> (\<exists>i k. OPENSSL_malloc (malloc i) k = None \<and> k \<le> max_len))"
proof -
  define n where "n = (if length pre + kChunkSize > max_len then max_len else length pre + kChunkSize)"
  have e: "bio_read_all malloc m pre max_len w = (if n < length pre then Some (None, w)
         else
     (case OPENSSL_malloc (malloc 0) n of
        None \<Rightarrow> Some (None, w)
      | Some out \<Rightarrow> bio_read_all_loop (\<lambda>i. malloc (i + 1)) m max_len n (length pre) (store 0 pre out) w))"
    by (simp only: bio_read_all_def Let_def n_def)
  have n: "n \<le> max_len" "n < size_mod" using assms(3) by (auto simp: n_def)
  show ?thesis
  proof (cases "n < length pre")
    case True
    then have "max_len \<le> length (pre @ pending w)" by (auto simp: n_def split: if_splits)
    then show ?thesis using e True assms(1) by auto
  next
    case False
    show ?thesis
    proof (cases "OPENSSL_malloc (malloc 0) n")
      case None
      then show ?thesis using e False assms(1) n(1) by auto
    next
      case (Some out)
      have "length out = n" using malloc_length [OF assms(2) Some n(2)] .
      then have lo: "length (store 0 pre out) = n" "take (length pre) (store 0 pre out) = pre" using False by (simp_all add: length_store) (simp add: store_def)
      have inv: "n = max_len \<or> kChunkSize div 2 \<le> n - length pre" by (auto simp: n_def)
      have g: "\<And>i. good_malloc (malloc (i + 1))" by (rule assms(2))
      obtain r w' where r: "bio_read_all_loop (\<lambda>i. malloc (i + 1)) m max_len n (length pre) (store 0 pre out) w = Some (r, w')" "ok w'"
        "case r of
           Some bs \<Rightarrow> bs = take (length pre) (store 0 pre out) @ pending w \<and> pending w' = [] \<and> length pre + length (pending w) < max_len
         | None \<Rightarrow> \<not> closed w \<or> max_len \<le> length pre + length (pending w) \<or> (\<exists>i k. OPENSSL_malloc (malloc (i + 1)) k = None \<and> k \<le> max_len)"
        using read_all_loop [of w "\<lambda>i. malloc (i + 1)", OF assms(1) g lo(1) _ n(1) assms(3) inv] False by force
      have "bio_read_all malloc m pre max_len w = Some (r, w')" using e False Some r(1) by simp
      then show ?thesis using r(2,3) lo(2) by (auto split: option.splits)
    qed
  qed
qed

lemma read_contents:
  assumes "ok w" and "\<And>i. good_malloc (malloc i)" and "h \<le> length header" and "n + h < size_mod"
  shows "\<exists>r w'. read_contents malloc m max_len header n h w = Some (r, w') \<and> ok w' \<and> closed w' = closed w \<and>
    (case r of
       Some bs \<Rightarrow> bs = take h header @ take n (pending w) \<and> pending w' = drop n (pending w) \<and>
         n + h \<le> max_len \<and> int n \<le> INT_MAX \<and> n \<le> length (pending w)
     | None \<Rightarrow> max_len < n + h \<or> INT_MAX < int n \<or> length (pending w) < n \<or> OPENSSL_malloc (malloc 0) (n + h) = None)"
proof (cases "n + h > max_len \<or> int n > INT_MAX")
  case True
  then show ?thesis using assms(1,4) by (auto simp: read_contents_def Let_def)
next
  case False
  show ?thesis
  proof (cases "OPENSSL_malloc (malloc 0) (n + h)")
    case None
    then show ?thesis using assms(1,4) False by (auto simp: read_contents_def Let_def)
  next
    case (Some out)
    have lo: "length out = n + h" using malloc_length [OF assms(2) Some assms(4)] .
    have l: "h + n \<le> length (store 0 (take h header) out)" using assms(3) lo by (simp add: length_store)
    obtain e out' w' where r: "bio_read_full m True h n (store 0 (take h header) out) w = Some (n \<le> length (pending w), e, out', w')"
        "ok w'" "pending w' = drop n (pending w)" "closed w' = closed w"
        "n \<le> length (pending w) \<longrightarrow> out' = store h (take n (pending w)) (store 0 (take h header) out)"
      using read_full [OF assms(1) l, of True] by blast
    have s: "store h (take n (pending w)) (store 0 (take h header) out) = take h header @ take n (pending w)" if "n \<le> length (pending w)"
      using that assms(3) lo by (simp add: store_def)
    show ?thesis
      using False assms(4) Some r s by (auto simp: read_contents_def Let_def)
  qed
qed

text \<open>What is read: an object of indefinite length is all the bytes that there are.\<close>

lemma read_asn1:
  assumes "ok w" and "\<And>i. good_malloc (malloc i)" and "length header = 6" and "max_len < 2 ^ 62"
  shows "\<exists>r w'. BIO_read_asn1 malloc header m max_len w = Some (r, w') \<and> ok w' \<and>
    (case pending w of
       t # l # s \<Rightarrow>
         if t AND 0x1f = 0x1f then r = None
         else if t AND 0x20 \<noteq> 0 \<and> l = 0x80 then
           (case r of
              Some bs \<Rightarrow> bs = pending w \<and> pending w' = [] \<and> length bs < max_len
            | None \<Rightarrow> \<not> closed w \<or> max_len \<le> length (pending w) \<or> (\<exists>i k. OPENSSL_malloc (malloc i) k = None \<and> k \<le> max_len))
         else
           (case (asn1_size l s, r) of
              (None, r) \<Rightarrow> r = None
            | (Some (h, n), Some bs) \<Rightarrow>
                h + n \<le> length (pending w) \<and> h + n \<le> max_len \<and> int n \<le> INT_MAX \<and> bs = take (h + n) (pending w) \<and> pending w' = drop (h + n) (pending w)
            | (Some (h, n), None) \<Rightarrow>
                length (pending w) < h + n \<or> max_len < h + n \<or> INT_MAX < int n \<or> OPENSSL_malloc (malloc 0) (h + n) = None)
     | _ \<Rightarrow> r = None)"
proof -
  have l2: "0 + 2 \<le> length header" using assms(3) by simp
  obtain e header1 w1 where r1: "bio_read_full m True 0 2 header w = Some (2 \<le> length (pending w), e, header1, w1)"
      "ok w1" "pending w1 = drop 2 (pending w)" "closed w1 = closed w"
      "2 \<le> length (pending w) \<longrightarrow> header1 = store 0 (take 2 (pending w)) header"
    using read_full [OF assms(1) l2, of True] by blast
  consider (short) "length (pending w) < 2" | (t) t l s where "pending w = t # l # s"
    by (cases "pending w"; cases "tl (pending w)") auto
  then show ?thesis
  proof cases
    case short
    then show ?thesis using r1(1,2) by (cases "pending w"; cases "tl (pending w)") (auto simp: BIO_read_asn1_def)
  next
    case t
    have h1: "length header1 = 6" "take 2 header1 = [t, l]" "header1 ! 0 = t" "header1 ! 1 = l" "pending w1 = s"
      using r1(3,5) t assms(3) by (simp_all add: store_def)
    define n where "n = unat (l AND 0x7f)"
    have u: "BIO_read_asn1 malloc header m max_len w =
        (if t AND 0x1f = 0x1f then Some (None, w1)
         else if l AND 0x80 = 0 then read_contents malloc m max_len header1 (unat l) 2 w1
         else if t AND 0x20 \<noteq> 0 \<and> n = 0 then bio_read_all malloc m [t, l] max_len w1
         else if n = 0 \<or> n > 4 then Some (None, w1)
         else
     (case bio_read_full m True 2 n header1 w1 of
        None \<Rightarrow> None
      | Some (ok, _, header, w) \<Rightarrow>
          if \<not> ok then Some (None, w)
          else
            if ucast (be_word (take n (drop 2 header))) < (128 :: u32) then Some (None, w)
            else if drop_bit ((n - 1) * 8) (ucast (be_word (take n (drop 2 header))) :: u32) = 0 then Some (None, w)
            else read_contents malloc m max_len header (unat (ucast (be_word (take n (drop 2 header))) :: u32)) (2 + n) w))"
      unfolding BIO_read_asn1_def Let_def r1(1) len32 option.case prod.case h1(2-4) n_def [symmetric] using t by simp
    have l80: "l = 0x80 \<longleftrightarrow> l AND 0x80 \<noteq> 0 \<and> n = 0"
    proof
      assume "l AND 0x80 \<noteq> 0 \<and> n = 0"
      then have b: "128 \<le> unat l" "unat l mod 128 = 0" using high_bit_byte [of l] low_bits_byte8 [of l] by (auto simp: n_def)
      then have "unat l = 128" using unat_byte_lt [of l] by presburger
      then show "l = 0x80" by (simp add: word_unat_eq_iff)
    qed (simp add: n_def)
    have lp: "length (pending w) = length s + 2" "length (pending w1) = length s" using t h1(5) by simp_all
    consider (long) "t AND 0x1f = 0x1f" | (def) "t AND 0x1f \<noteq> 0x1f" "l AND 0x80 = 0"
      | (indef) "t AND 0x1f \<noteq> 0x1f" "t AND 0x20 \<noteq> 0" "l = 0x80"
      | (bad) "t AND 0x1f \<noteq> 0x1f" "l AND 0x80 \<noteq> 0" "\<not> (t AND 0x20 \<noteq> 0 \<and> l = 0x80)" "n = 0 \<or> n > 4"
      | (more) "t AND 0x1f \<noteq> 0x1f" "l AND 0x80 \<noteq> 0" "0 < n" "n \<le> 4"
      using l80 by fastforce
    then show ?thesis
    proof cases
      case long
      then show ?thesis using u t r1(2) by simp
    next
      case def
      then have ns: "l \<noteq> 0x80" "asn1_size l s = Some (2, unat l)" by (auto simp: asn1_size_def)
      have sm: "unat l + 2 < size_mod" using unat_byte_lt [of l] by simp
      from read_contents [where malloc = malloc, OF r1(2) assms(2) _ sm, of header1 max_len] h1(1) obtain r w' where
        r: "read_contents malloc m max_len header1 (unat l) 2 w1 = Some (r, w')" "ok w'"
        "case r of
           Some bs \<Rightarrow> bs = take 2 header1 @ take (unat l) (pending w1) \<and> pending w' = drop (unat l) (pending w1) \<and>
             unat l + 2 \<le> max_len \<and> int (unat l) \<le> INT_MAX \<and> unat l \<le> length (pending w1)
         | None \<Rightarrow> max_len < unat l + 2 \<or> INT_MAX < int (unat l) \<or> length (pending w1) < unat l \<or> OPENSSL_malloc (malloc 0) (unat l + 2) = None"
        by auto
      then show ?thesis using u t def ns h1(2,5) by (cases r) (auto simp: add.commute)
    next
      case indef
      obtain r w' where "bio_read_all malloc m [t, l] max_len w1 = Some (r, w')" "ok w'"
        "case r of
           Some bs \<Rightarrow> bs = [t, l] @ pending w1 \<and> pending w' = [] \<and> length bs < max_len
         | None \<Rightarrow> \<not> closed w1 \<or> max_len \<le> length ([t, l] @ pending w1) \<or> (\<exists>i k. OPENSSL_malloc (malloc i) k = None \<and> k \<le> max_len)"
        using read_all [where malloc = malloc, OF r1(2) assms(2,4), of "[t, l]"] by blast
      then show ?thesis using u t indef h1(5) l80 r1(4) by (cases r) auto
    next
      case bad
      then have "asn1_size l s = None" by (auto simp: asn1_size_def n_def)
      then show ?thesis using u t bad r1(2) l80 by auto
    next
      case more
      have l6: "2 + n \<le> length header1" using h1(1) more(4) by simp
      define v where "v = be_nat (take n s)"
      have sz: "asn1_size l s = (if length s < n \<or> v < 128 \<or> v < 256 ^ (n - 1) then None else Some (2 + n, v))"
        using more by (simp add: asn1_size_def n_def [symmetric] v_def Let_def)
      obtain e2 header2 w2 where r2: "bio_read_full m True 2 n header1 w1 = Some (n \<le> length (pending w1), e2, header2, w2)"
          "ok w2" "pending w2 = drop n (pending w1)" "closed w2 = closed w1"
          "n \<le> length (pending w1) \<longrightarrow> header2 = store 2 (take n (pending w1)) header1"
        using read_full [OF r1(2) l6, of True] by blast
      have nl: "l \<noteq> 0x80" using more(3) l80 by simp
      show ?thesis
      proof (cases "length s < n")
        case True
        then have "BIO_read_asn1 malloc header m max_len w = Some (None, w2)" using u more r2(1) lp by simp
        then show ?thesis using t r2(2) sz True more(1) nl by simp
      next
        case False
        have h2: "take n (drop 2 header2) = take n s" "take (2 + n) header2 = t # l # take n s" "length header2 = 6"
          using r2(5) h1(1,2,5) False l6 by (simp_all add: store_def)
        have lt: "length (take n s) \<le> 4" using more(4) by simp
        have vl: "v < 2 ^ 32"
          using be_nat_less [of "take n s"] power_increasing [OF lt, of "256 :: nat"] by (simp add: v_def)
        have v: "unat (ucast (be_word (take n s)) :: u32) = v" "v < 2 ^ 32"
          using vl lt by (simp_all add: v_def [symmetric] unsigned_ucast_eq unat_be_word take_bit_nat_eq_self_iff)
        have pw: "(2 :: nat) ^ ((n - 1) * 8) = 256 ^ (n - 1)" by (subst mult.commute) (simp add: power_mult)
        have c: "ucast (be_word (take n s)) < (128 :: u32) \<longleftrightarrow> v < 128" "drop_bit ((n - 1) * 8) (ucast (be_word (take n s)) :: u32) = 0 \<longleftrightarrow> v < 256 ^ (n - 1)"
          unfolding drop_bit_0_iff pw word_less_nat_alt v(1) by simp_all
        have ok: "(n \<le> length (pending w1)) = True" using False lp by simp
        have u2: "BIO_read_asn1 malloc header m max_len w =
            (if v < 128 \<or> v < 256 ^ (n - 1) then Some (None, w2) else read_contents malloc m max_len header2 v (2 + n) w2)"
          unfolding u r2(1) ok option.case prod.case h2(1) c v(1) using more by auto
        show ?thesis
        proof (cases "v < 128 \<or> v < 256 ^ (n - 1)")
          case True
          then show ?thesis using u2 t r2(2) sz more(1) nl by auto
        next
          case nm: False
          have sm: "v + (2 + n) < size_mod" "2 + n \<le> length header2" using v(2) more(4) h2(3) by simp_all
          from read_contents [where malloc = malloc, OF r2(2) assms(2) sm(2,1), of max_len]
          obtain r w' where r: "read_contents malloc m max_len header2 v (2 + n) w2 = Some (r, w')" "ok w'"
            "case r of
               Some bs \<Rightarrow> bs = take (2 + n) header2 @ take v (pending w2) \<and> pending w' = drop v (pending w2) \<and>
                 v + (2 + n) \<le> max_len \<and> int v \<le> INT_MAX \<and> v \<le> length (pending w2)
             | None \<Rightarrow> max_len < v + (2 + n) \<or> INT_MAX < int v \<or> length (pending w2) < v \<or> OPENSSL_malloc (malloc 0) (v + (2 + n)) = None"
            by blast
          have p2: "pending w2 = drop n s" "length (pending w2) = length s - n" using r2(3) h1(5) by simp_all
          have tk: "take (2 + n + v) (pending w) = t # l # take n s @ take v (drop n s)" "drop (2 + n + v) (pending w) = drop v (drop n s)"
            using t by (simp_all add: take_add) (simp add: add.commute)
          show ?thesis
            using u2 nm t r more(1) nl sz False p2 tk h2(2) lp(1) by (cases r) (auto simp: add.commute add.left_commute)
        qed
      qed
    qed
  qed
qed

end

end
