(* ===== verification/Bio_Mem.thy ===== *)
theory Bio_Mem
  imports Bio
begin

text \<open>
  Model of \<^verbatim>\<open>crypto/buf/buf.c\<close>, growing buffers, and of \<^verbatim>\<open>crypto/bio/bio_mem.c\<close>, the BIO over one of them. A block is the list of its
  bytes; the pointer \<open>data\<close> of a buffer is a block, or nothing when it is null, and the place in it, which only reading from a read-only
  BIO moves.
\<close>

unbundle bit_operations_syntax

section \<open>Buffers\<close>

record buf_mem =
  bm_length :: nat
  bm_data :: "u8 list option"
  bm_start :: nat
  bm_max :: nat

abbreviation sizeof_BUF_MEM :: nat where "sizeof_BUF_MEM \<equiv> 24"

definition BUF_MEM_new :: "heap \<Rightarrow> buf_mem option" where
  "BUF_MEM_new malloc =
     map_option (\<lambda>_. \<lparr>bm_length = 0, bm_data = None, bm_start = 0, bm_max = 0\<rparr>) (OPENSSL_zalloc malloc sizeof_BUF_MEM)"

definition BUF_MEM_reserve :: "heap \<Rightarrow> nat \<Rightarrow> buf_mem \<Rightarrow> bool \<times> buf_mem" where
  "BUF_MEM_reserve malloc cp b =
     (if bm_max b \<ge> cp then (True, b)
      else
        let n = (cp + 3) mod size_mod in
        if n < cp then (False, b)
        else
          let n = n div 3; alloc_size = (n * 4) mod size_mod in
          if alloc_size div 4 \<noteq> n then (False, b)
          else
     (case OPENSSL_realloc malloc (bm_data b) alloc_size of
        None \<Rightarrow> (False, b)
      | Some new_buf \<Rightarrow> (True, b\<lparr>bm_data := Some new_buf, bm_max := alloc_size\<rparr>)))"

text \<open>A null block that is written to is \<open>None\<close>.\<close>

definition BUF_MEM_grow :: "heap \<Rightarrow> nat \<Rightarrow> buf_mem \<Rightarrow> (nat \<times> buf_mem) option" where
  "BUF_MEM_grow malloc n b =
     (case BUF_MEM_reserve malloc n b of
        (False, b) \<Rightarrow> Some (0, b)
      | (True, b) \<Rightarrow>
          if bm_length b < n then
     (case bm_data b of
        None \<Rightarrow> None
      | Some d \<Rightarrow> Some (n, b\<lparr>bm_data := Some (store (bm_start b + bm_length b) (replicate (n - bm_length b) 0) d), bm_length := n\<rparr>))
          else Some (n, b\<lparr>bm_length := n\<rparr>))"

definition BUF_MEM_grow_clean :: "heap \<Rightarrow> nat \<Rightarrow> buf_mem \<Rightarrow> (nat \<times> buf_mem) option" where
  "BUF_MEM_grow_clean malloc n b = BUF_MEM_grow malloc n b"

definition BUF_MEM_append :: "heap \<Rightarrow> u8 list \<Rightarrow> buf_mem \<Rightarrow> (bool \<times> buf_mem) option" where
  "BUF_MEM_append malloc inp b =
     (if length inp = 0 then Some (True, b)
      else
        let new_len = (bm_length b + length inp) mod size_mod in
        if new_len < length inp then Some (False, b)
        else
     (case BUF_MEM_reserve malloc new_len b of
        (False, b) \<Rightarrow> Some (False, b)
      | (True, b) \<Rightarrow>
     (case bm_data b of
        None \<Rightarrow> None
      | Some d \<Rightarrow> Some (True, b\<lparr>bm_data := Some (store (bm_start b + bm_length b) inp d), bm_length := new_len\<rparr>))))"

section \<open>Memory BIOs\<close>

record mem_bio =
  mem_hdr :: bio
  mem_buf :: "buf_mem option"

definition mem_new :: "heap \<Rightarrow> bio \<Rightarrow> mem_bio option" where
  "mem_new malloc b =
     (case BUF_MEM_new malloc of
        None \<Rightarrow> None
      | Some bm \<Rightarrow> Some \<lparr>mem_hdr = b\<lparr>bio_shutdown := 1, bio_init := True, bio_num := - 1\<rparr>, mem_buf = Some bm\<rparr>)"

text \<open>\<open>BIO_new(BIO_s_mem())\<close>\<close>

abbreviation sizeof_BIO :: nat where "sizeof_BIO \<equiv> 72"

definition BIO_new_mem :: "(nat \<Rightarrow> heap) \<Rightarrow> mem_bio option" where
  "BIO_new_mem malloc =
     (case OPENSSL_zalloc (malloc 0) sizeof_BIO of None \<Rightarrow> None | Some _ \<Rightarrow> mem_new (malloc 1) BIO_zeroed)"

text \<open>The outer \<open>None\<close> is a read past the end of \<open>data\<close> or through a null pointer. \<open>n\<close> is the length or negative.\<close>

definition BIO_new_mem_buf :: "(nat \<Rightarrow> heap) \<Rightarrow> u8 list option \<Rightarrow> int \<Rightarrow> mem_bio option option" where
  "BIO_new_mem_buf malloc dat n =
     (case (if n < 0 then (case dat of None \<Rightarrow> None | Some d \<Rightarrow> strlen d) else Some (nat n)) of
        None \<Rightarrow> None
      | Some sz \<Rightarrow>
          if dat = None \<and> n \<noteq> 0 then Some None
          else
     (case BIO_new_mem malloc of
        None \<Rightarrow> Some None
      | Some w \<Rightarrow>
          Some (Some (w\<lparr>mem_hdr := (mem_hdr w)\<lparr>bio_flags := bio_flags (mem_hdr w) OR BIO_FLAGS_MEM_RDONLY, bio_num := 0\<rparr>,
            mem_buf := map_option (\<lambda>b. b\<lparr>bm_data := dat, bm_start := 0, bm_length := sz, bm_max := sz\<rparr>) (mem_buf w)\<rparr>))))"

definition rdonly :: "mem_bio \<Rightarrow> bool" where
  "rdonly w \<longleftrightarrow> bio_flags (mem_hdr w) AND BIO_FLAGS_MEM_RDONLY \<noteq> 0"

definition mem_free :: "mem_bio \<Rightarrow> mem_bio" where
  "mem_free w =
     (if bio_shutdown (mem_hdr w) = 0 \<or> \<not> bio_init (mem_hdr w) \<or> mem_buf w = None then w else w\<lparr>mem_buf := None\<rparr>)"

definition mem_read :: "mem_bio \<Rightarrow> int \<Rightarrow> (int \<times> u8 list \<times> mem_bio) option" where
  "mem_read w outl =
     (let w = w\<lparr>mem_hdr := BIO_clear_retry_flags (mem_hdr w)\<rparr> in
      if outl \<le> 0 then Some (0, [], w)
      else
     (case mem_buf w of
        None \<Rightarrow> None
      | Some b \<Rightarrow>
          let ret = (if outl > int (bm_length b) then int (bm_length b) else outl) in
          if ret > 0 then
     (case bm_data b of
        None \<Rightarrow> None
      | Some d \<Rightarrow>
          let out = take (nat ret) (drop (bm_start b) d);
              b = b\<lparr>bm_length := bm_length b - nat ret\<rparr>;
              b = (if rdonly w then b\<lparr>bm_start := bm_start b + nat ret\<rparr>
                   else b\<lparr>bm_data := Some (store (bm_start b) (take (bm_length b) (drop (bm_start b + nat ret) d)) d)\<rparr>)
          in Some (ret, out, w\<lparr>mem_buf := Some b\<rparr>))
          else if bm_length b = 0 then
            let ret = bio_num (mem_hdr w)
            in Some (ret, [], if ret \<noteq> 0 then w\<lparr>mem_hdr := BIO_set_retry_read (mem_hdr w)\<rparr> else w)
          else Some (ret, [], w)))"

definition mem_write :: "heap \<Rightarrow> mem_bio \<Rightarrow> u8 list \<Rightarrow> int \<Rightarrow> (int \<times> mem_bio) option" where
  "mem_write malloc w inp inl =
     (let w = w\<lparr>mem_hdr := BIO_clear_retry_flags (mem_hdr w)\<rparr> in
      if inl \<le> 0 then Some (0, w)
      else if rdonly w then Some (- 1, w)
      else
     (case mem_buf w of
        None \<Rightarrow> None
      | Some b \<Rightarrow>
     (case BUF_MEM_append malloc (take (nat inl) inp) b of
        None \<Rightarrow> None
      | Some (ok, b) \<Rightarrow> Some (if ok then inl else - 1, w\<lparr>mem_buf := Some b\<rparr>))))"

text \<open>The line and the zero byte behind it. What is read is as long as the return value, since no more is asked for than there is.\<close>

definition mem_gets :: "mem_bio \<Rightarrow> int \<Rightarrow> (int \<times> u8 list \<times> mem_bio) option" where
  "mem_gets w sz =
     (let w = w\<lparr>mem_hdr := BIO_clear_retry_flags (mem_hdr w)\<rparr> in
      if sz \<le> 0 then Some (0, [], w)
      else
     (case mem_buf w of
        None \<Rightarrow> None
      | Some b \<Rightarrow>
          let ret = sz - 1;
              ret = (if ret > int (bm_length b) then int (bm_length b) else ret);
              d = (case bm_data b of None \<Rightarrow> [] | Some d \<Rightarrow> drop (bm_start b) d);
              ret = (case OPENSSL_memchr (take (nat ret) d) 0x0a of None \<Rightarrow> ret | Some newline \<Rightarrow> int newline + 1)
          in
     (case mem_read w ret of
        None \<Rightarrow> None
      | Some (ret, out, w) \<Rightarrow> Some (ret, if ret \<ge> 0 then out @ [0] else out, w))))"

abbreviation BIO_C_SET_BUF_MEM_EOF_RETURN :: int where "BIO_C_SET_BUF_MEM_EOF_RETURN \<equiv> 130"
abbreviation BIO_C_GET_BUF_MEM_PTR :: int where "BIO_C_GET_BUF_MEM_PTR \<equiv> 115"

text \<open>The commands that a null pointer is given to; the others are below.\<close>

definition mem_ctrl :: "mem_bio \<Rightarrow> int \<Rightarrow> int \<Rightarrow> (int \<times> mem_bio) option" where
  "mem_ctrl w cmd num =
     (if cmd = BIO_CTRL_RESET then
     (case mem_buf w of
        None \<Rightarrow> None
      | Some b \<Rightarrow>
          Some (1, case bm_data b of
              None \<Rightarrow> w
            | Some d \<Rightarrow>
                w\<lparr>mem_buf := Some (
                    if rdonly w then b\<lparr>bm_start := bm_start b - (bm_max b - bm_length b), bm_length := bm_max b\<rparr>
                    else b\<lparr>bm_data := Some (store (bm_start b) (replicate (bm_max b) 0) d), bm_length := 0\<rparr>)\<rparr>))
      else if cmd = BIO_CTRL_EOF then map_option (\<lambda>b. (if bm_length b = 0 then 1 else 0, w)) (mem_buf w)
      else if cmd = BIO_C_SET_BUF_MEM_EOF_RETURN then Some (1, w\<lparr>mem_hdr := (mem_hdr w)\<lparr>bio_num := signed_take_bit 31 num\<rparr>\<rparr>)
      else if cmd = BIO_CTRL_INFO then map_option (\<lambda>b. (int (bm_length b), w)) (mem_buf w)
      else if cmd = BIO_C_GET_BUF_MEM_PTR then Some (1, w)
      else if cmd = BIO_CTRL_GET_CLOSE then Some (bio_shutdown (mem_hdr w), w)
      else if cmd = BIO_CTRL_SET_CLOSE then Some (1, w\<lparr>mem_hdr := (mem_hdr w)\<lparr>bio_shutdown := signed_take_bit 31 num\<rparr>\<rparr>)
      else if cmd = BIO_CTRL_WPENDING then Some (0, w)
      else if cmd = BIO_CTRL_PENDING then map_option (\<lambda>b. (int (bm_length b), w)) (mem_buf w)
      else if cmd = BIO_CTRL_FLUSH then Some (1, w)
      else Some (0, w))"

text \<open>\<open>BIO_C_SET_BUF_MEM\<close>, whose pointer is the new buffer.\<close>

definition BIO_set_mem_buf :: "buf_mem option \<Rightarrow> int \<Rightarrow> mem_bio \<Rightarrow> int \<times> mem_bio" where
  "BIO_set_mem_buf b take_ownership w =
     (let w = mem_free w in (1, w\<lparr>mem_hdr := (mem_hdr w)\<lparr>bio_shutdown := take_ownership\<rparr>, mem_buf := b\<rparr>))"

definition mem_method :: "heap \<Rightarrow> mem_bio bio_method" where
  "mem_method malloc =
     \<lparr>the_bio = mem_hdr, set_bio = (\<lambda>b w. w\<lparr>mem_hdr := b\<rparr>), bread = Some mem_read, bwrite = Some (mem_write malloc),
      bgets = Some mem_gets, bctrl = Some mem_ctrl\<rparr>"

definition BIO_mem_contents :: "mem_bio \<Rightarrow> u8 list option" where
  "BIO_mem_contents w =
     map_option (\<lambda>b. case bm_data b of None \<Rightarrow> [] | Some d \<Rightarrow> take (bm_length b) (drop (bm_start b) d)) (mem_buf w)"

definition BIO_get_mem_data :: "heap \<Rightarrow> mem_bio \<Rightarrow> (int \<times> u8 list) option" where
  "BIO_get_mem_data malloc w =
     (case BIO_ctrl (mem_method malloc) BIO_CTRL_INFO 0 w of
        None \<Rightarrow> None
      | Some (ret, w) \<Rightarrow> map_option (Pair ret) (BIO_mem_contents w))"

definition BIO_get_mem_ptr :: "mem_bio \<Rightarrow> int \<times> buf_mem option" where
  "BIO_get_mem_ptr w = (1, mem_buf w)"

definition BIO_set_mem_eof_return :: "heap \<Rightarrow> int \<Rightarrow> mem_bio \<Rightarrow> (int \<times> mem_bio) option" where
  "BIO_set_mem_eof_return malloc eof_value w = BIO_ctrl (mem_method malloc) BIO_C_SET_BUF_MEM_EOF_RETURN eof_value w"

section \<open>The bytes of a memory BIO\<close>

definition bm_contents :: "buf_mem \<Rightarrow> u8 list" where
  "bm_contents b = (case bm_data b of None \<Rightarrow> [] | Some d \<Rightarrow> take (bm_length b) (drop (bm_start b) d))"

definition bm_ok :: "bool \<Rightarrow> buf_mem \<Rightarrow> bool" where
  "bm_ok rd b \<longleftrightarrow>
     bm_max b < size_mod \<and>
     (case bm_data b of
        None \<Rightarrow> bm_length b = 0 \<and> bm_max b = 0 \<and> bm_start b = 0
      | Some d \<Rightarrow>
          if rd then bm_start b + bm_length b = bm_max b \<and> bm_max b \<le> length d
          else bm_start b = 0 \<and> length d = bm_max b \<and> bm_length b \<le> bm_max b)"

definition mem_ok :: "mem_bio \<Rightarrow> bool" where
  "mem_ok w \<longleftrightarrow> bio_init (mem_hdr w) \<and> (case mem_buf w of None \<Rightarrow> False | Some b \<Rightarrow> bm_ok (rdonly w) b)"

definition mem_bytes :: "mem_bio \<Rightarrow> u8 list" where
  "mem_bytes w = (case mem_buf w of None \<Rightarrow> [] | Some b \<Rightarrow> bm_contents b)"

lemma mem_okE:
  assumes "mem_ok w"
  obtains b where "mem_buf w = Some b" "bm_ok (rdonly w) b" "mem_bytes w = bm_contents b" "bio_init (mem_hdr w)"
  using assms by (auto simp: mem_ok_def mem_bytes_def split: option.splits)

lemma length_bm_contents: "bm_ok rd b \<Longrightarrow> length (bm_contents b) = bm_length b"
  by (auto simp: bm_ok_def bm_contents_def split: option.splits if_splits)

text \<open>The flags of a retry are not the one of read-only BIOs.\<close>

lemma retry_flags_rdonly:
  "bio_flags (BIO_clear_retry_flags b) AND BIO_FLAGS_MEM_RDONLY = bio_flags b AND BIO_FLAGS_MEM_RDONLY"
  "bio_flags (BIO_set_retry_read b) AND BIO_FLAGS_MEM_RDONLY = bio_flags b AND BIO_FLAGS_MEM_RDONLY"
  by (simp_all add: BIO_clear_retry_flags_def BIO_set_retry_read_def kRetryFlags_def and.assoc bit.conj_disj_distrib2)

lemma retry_flags_kept [simp]:
  "bio_init (BIO_clear_retry_flags b) = bio_init b" "bio_init (BIO_set_retry_read b) = bio_init b"
  "bio_num (BIO_clear_retry_flags b) = bio_num b" "bio_num (BIO_set_retry_read b) = bio_num b"
  by (simp_all add: BIO_clear_retry_flags_def BIO_set_retry_read_def)

lemma rdonly_simps [simp]:
  "rdonly (w\<lparr>mem_buf := x\<rparr>) = rdonly w"
  "rdonly (w\<lparr>mem_hdr := BIO_clear_retry_flags (mem_hdr w)\<rparr>) = rdonly w"
  "rdonly (w\<lparr>mem_hdr := BIO_set_retry_read (BIO_clear_retry_flags (mem_hdr w))\<rparr>) = rdonly w"
  "rdonly (w\<lparr>mem_hdr := (mem_hdr w)\<lparr>bio_num_read := y\<rparr>\<rparr>) = rdonly w"
  "rdonly (w\<lparr>mem_hdr := (mem_hdr w)\<lparr>bio_num_write := y\<rparr>\<rparr>) = rdonly w"
  by (simp_all add: rdonly_def retry_flags_rdonly)

lemma mem_read_some:
  assumes "mem_ok w" and "0 < outl" and "mem_bytes w \<noteq> []"
  defines "k \<equiv> min (nat outl) (length (mem_bytes w))"
  shows "\<exists>w'. mem_read w outl = Some (int k, take k (mem_bytes w), w') \<and> mem_ok w' \<and> mem_bytes w' = drop k (mem_bytes w) \<and>
    bio_num (mem_hdr w') = bio_num (mem_hdr w) \<and> rdonly w' = rdonly w"
proof -
  obtain b where b: "mem_buf w = Some b" "bm_ok (rdonly w) b" "mem_bytes w = bm_contents b" "bio_init (mem_hdr w)"
    using mem_okE [OF assms(1)] .
  have l: "length (mem_bytes w) = bm_length b" using length_bm_contents [OF b(2)] b(3) by simp
  obtain d where d: "bm_data b = Some d" using assms(3) b(3) by (cases "bm_data b") (simp_all add: bm_contents_def)
  have ret: "(if outl > int (bm_length b) then int (bm_length b) else outl) = int k" "0 < k" "k \<le> bm_length b"
    using assms(2) l length_greater_0_conv [THEN iffD2, OF assms(3)] by (auto simp: k_def)
  have fits: "bm_start b + bm_length b \<le> length d" using b(2) d by (auto simp: bm_ok_def split: if_splits)
  define b' where "b' = (if rdonly w then b\<lparr>bm_length := bm_length b - k, bm_start := bm_start b + k\<rparr>
      else b\<lparr>bm_length := bm_length b - k, bm_data := Some (store (bm_start b) (take (bm_length b - k) (drop (bm_start b + k) d)) d)\<rparr>)"
  have r: "mem_read w outl = Some (int k, take k (drop (bm_start b) d), w\<lparr>mem_hdr := BIO_clear_retry_flags (mem_hdr w), mem_buf := Some b'\<rparr>)"
    using assms(2) b(1) d ret by (simp add: mem_read_def Let_def b'_def)
  have ok: "bm_ok (rdonly w) b'" using b(2) d ret(3) fits by (auto simp: b'_def bm_ok_def length_store split: if_splits)
  have c: "bm_contents b' = drop k (bm_contents b)"
  proof (cases "rdonly w")
    case True
    then show ?thesis using d by (simp add: b'_def bm_contents_def drop_take add.commute)
  next
    case False
    have "take n (drop s (store s xs e)) = xs" if "length xs = n" "s \<le> length e" for n s and xs e :: "u8 list" using that by (simp add: store_def)
    then show ?thesis using False d fits ret(3) by (simp add: b'_def bm_contents_def drop_take add.commute)
  qed
  show ?thesis
    using r ok c b ret(3) d by (simp add: mem_ok_def mem_bytes_def bm_contents_def min_absorb1)
qed

lemma mem_read_none:
  assumes "mem_ok w" and "0 < outl" and "mem_bytes w = []"
  shows "\<exists>w'. mem_read w outl = Some (bio_num (mem_hdr w), [], w') \<and> mem_ok w' \<and> mem_bytes w' = [] \<and>
    bio_num (mem_hdr w') = bio_num (mem_hdr w) \<and> rdonly w' = rdonly w"
proof -
  obtain b where b: "mem_buf w = Some b" "bm_ok (rdonly w) b" "mem_bytes w = bm_contents b" "bio_init (mem_hdr w)"
    using mem_okE [OF assms(1)] .
  have "bm_length b = 0" using length_bm_contents [OF b(2)] b(3) assms(3) by simp
  then show ?thesis
    using assms(2,3) b by (auto simp: mem_read_def Let_def mem_ok_def mem_bytes_def)
qed

text \<open>What the layer above counts does not matter.\<close>

lemma counted [simp]:
  "mem_ok (w\<lparr>mem_hdr := (mem_hdr w)\<lparr>bio_num_read := y\<rparr>\<rparr>) = mem_ok w" "mem_bytes (w\<lparr>mem_hdr := (mem_hdr w)\<lparr>bio_num_read := y\<rparr>\<rparr>) = mem_bytes w"
  "mem_ok (w\<lparr>mem_hdr := (mem_hdr w)\<lparr>bio_num_write := y\<rparr>\<rparr>) = mem_ok w" "mem_bytes (w\<lparr>mem_hdr := (mem_hdr w)\<lparr>bio_num_write := y\<rparr>\<rparr>) = mem_bytes w"
  by (simp_all add: mem_ok_def mem_bytes_def split: option.split)

lemma mem_ok_init: "mem_ok w \<Longrightarrow> bio_init (mem_hdr w)"
  by (simp add: mem_ok_def)

lemma mem_BIO_read_some:
  assumes "mem_ok w" and "0 < n" and "mem_bytes w \<noteq> []"
  defines "k \<equiv> min (nat n) (length (mem_bytes w))"
  shows "\<exists>w'. BIO_read (mem_method malloc) n w = Some (int k, take k (mem_bytes w), w') \<and> mem_ok w' \<and> mem_bytes w' = drop k (mem_bytes w) \<and>
    bio_num (mem_hdr w') = bio_num (mem_hdr w) \<and> rdonly w' = rdonly w"
  using mem_read_some [OF assms(1-3), folded k_def] assms(1,2) by (auto simp: BIO_read_def mem_method_def Let_def mem_ok_init)

lemma mem_BIO_read_none:
  assumes "mem_ok w" and "0 < n" and "mem_bytes w = []"
  shows "\<exists>w'. BIO_read (mem_method malloc) n w = Some (bio_num (mem_hdr w), [], w') \<and> mem_ok w' \<and> mem_bytes w' = [] \<and>
    bio_num (mem_hdr w') = bio_num (mem_hdr w) \<and> rdonly w' = rdonly w"
  using mem_read_none [OF assms] assms(1,2) by (auto simp: BIO_read_def mem_method_def Let_def mem_ok_init)

interpretation mem_source: bio_source "mem_method malloc" "\<lambda>w. mem_ok w \<and> bio_num (mem_hdr w) \<in> {0, - 1}" mem_bytes
  "\<lambda>w. bio_num (mem_hdr w) = 0" for malloc
proof
  fix w :: mem_bio and n :: int
  assume w: "mem_ok w \<and> bio_num (mem_hdr w) \<in> {0, - 1}" "0 < n" "n \<le> INT_MAX" and p: "mem_bytes w \<noteq> []"
  then obtain w' where "BIO_read (mem_method malloc) n w = Some (int (min (nat n) (length (mem_bytes w))), take (min (nat n) (length (mem_bytes w))) (mem_bytes w), w')"
      "mem_ok w'" "mem_bytes w' = drop (min (nat n) (length (mem_bytes w))) (mem_bytes w)" "bio_num (mem_hdr w') = bio_num (mem_hdr w)"
    using mem_BIO_read_some [of w n malloc] by blast
  moreover have "0 < min (nat n) (length (mem_bytes w))" using w(2) p by simp
  ultimately show "\<exists>k w'. BIO_read (mem_method malloc) n w = Some (int k, take k (mem_bytes w), w') \<and> 0 < k \<and> int k \<le> n \<and> k \<le> length (mem_bytes w) \<and>
        (mem_ok w' \<and> bio_num (mem_hdr w') \<in> {0, - 1}) \<and> mem_bytes w' = drop k (mem_bytes w) \<and> (bio_num (mem_hdr w') = 0) = (bio_num (mem_hdr w) = 0)"
    using w(1,2) by (intro exI [of _ "min (nat n) (length (mem_bytes w))"] exI [of _ w']) auto
next
  fix w :: mem_bio and n :: int
  assume "mem_ok w \<and> bio_num (mem_hdr w) \<in> {0, - 1}" "0 < n" "n \<le> INT_MAX" "mem_bytes w = []"
  then show "\<exists>w'. BIO_read (mem_method malloc) n w = Some (if bio_num (mem_hdr w) = 0 then 0 else - 1, [], w') \<and>
        (mem_ok w' \<and> bio_num (mem_hdr w') \<in> {0, - 1}) \<and> mem_bytes w' = [] \<and> (bio_num (mem_hdr w') = 0) = (bio_num (mem_hdr w) = 0)"
    using mem_BIO_read_none [of w n malloc] by auto
qed

section \<open>Writing\<close>

lemma BUF_MEM_append:
  assumes "bm_ok False b" and "good_malloc malloc" and "inp \<noteq> []" and "length inp < 2 ^ 60" and "bm_length b < 2 ^ 60"
  shows "(\<exists>b'. BUF_MEM_append malloc inp b = Some (True, b') \<and> bm_ok False b' \<and> bm_contents b' = bm_contents b @ inp) \<or>
    BUF_MEM_append malloc inp b = Some (False, b) \<and> (\<exists>n < 2 ^ 62. OPENSSL_malloc malloc n = None)"
proof -
  define nl where "nl = bm_length b + length inp"
  have nl: "nl < 2 ^ 61" "0 < nl" using assms(3-5) by (auto simp: nl_def)
  define sz where "sz = (nl + 3) div 3 * 4"
  have sz: "(nl + 3) mod size_mod = nl + 3" "((nl + 3) div 3 * 4) mod size_mod = sz" "sz div 4 = (nl + 3) div 3" "nl \<le> sz" "sz < size_mod" "sz < 2 ^ 62"
    using nl(1) by (simp_all add: sz_def)
  have r: "BUF_MEM_reserve malloc nl b = (if bm_max b \<ge> nl then (True, b)
      else (case OPENSSL_realloc malloc (bm_data b) sz of None \<Rightarrow> (False, b) | Some nb \<Rightarrow> (True, b\<lparr>bm_data := Some nb, bm_max := sz\<rparr>)))"
    unfolding BUF_MEM_reserve_def Let_def sz(1-3) by simp
  have a: "BUF_MEM_append malloc inp b =
     (case BUF_MEM_reserve malloc nl b of
        (False, b) \<Rightarrow> Some (False, b)
      | (True, b) \<Rightarrow>
     (case bm_data b of
        None \<Rightarrow> None
      | Some d \<Rightarrow> Some (True, b\<lparr>bm_data := Some (store (bm_start b + bm_length b) inp d), bm_length := nl\<rparr>)))"
    using assms(3) nl(1) trans_le_add2 [of "length inp" "length inp" "bm_length b"]
    by (simp add: BUF_MEM_append_def nl_def [symmetric] Let_def not_less [symmetric])
  have st: "bm_start b = 0" using assms(1) by (auto simp: bm_ok_def split: option.splits)
  have fin: "bm_ok False (c\<lparr>bm_data := Some (store (bm_start c + bm_length c) inp d), bm_length := nl\<rparr>) \<and>
      bm_contents (c\<lparr>bm_data := Some (store (bm_start c + bm_length c) inp d), bm_length := nl\<rparr>) = bm_contents b @ inp"
    if "bm_start c = 0" "bm_length c = bm_length b" "length d = bm_max c" "nl \<le> bm_max c" "bm_max c < size_mod" "take (bm_length b) d = bm_contents b" for c d
  proof -
    have "take nl (store (bm_length b) inp d) = take (bm_length b) d @ inp" using that(3,4) by (simp add: store_def nl_def)
    then show ?thesis using that by (auto simp: bm_ok_def bm_contents_def length_store nl_def)
  qed
  show ?thesis
  proof (cases "bm_max b \<ge> nl")
    case True
    then obtain d where d: "bm_data b = Some d" "length d = bm_max b" "bm_max b < size_mod"
      using assms(1) nl(2) by (auto simp: bm_ok_def split: option.splits)
    have "take (bm_length b) d = bm_contents b" using d st by (simp add: bm_contents_def)
    then show ?thesis using fin [of b d] True d st by (simp add: a r)
  next
    case False
    show ?thesis
    proof (cases "OPENSSL_realloc malloc (bm_data b) sz")
      case None
      then show ?thesis using False sz(6) by (auto simp: a r OPENSSL_realloc_def Let_def split: option.splits)
    next
      case (Some nb)
      have "length nb = sz \<and> take (bm_length b) nb = bm_contents b"
      proof (cases "bm_data b")
        case None
        then show ?thesis
          using Some malloc_length [OF assms(2) _ sz(5)] assms(1) by (auto simp: OPENSSL_realloc_def bm_ok_def bm_contents_def)
      next
        case d: (Some d)
        have ld: "length d = bm_max b" "bm_length b \<le> bm_max b" using assms(1) d by (auto simp: bm_ok_def)
        from realloc_grow [OF assms(2) Some [unfolded d] _ sz(5)] ld False sz(4) have "length nb = sz" "take (length d) nb = d" by auto
        moreover from this have "take (bm_length b) nb = take (bm_length b) d" using ld by (metis min.absorb1 take_take)
        ultimately show ?thesis using d st by (simp add: bm_contents_def)
      qed
      then show ?thesis
        using fin [of "b\<lparr>bm_data := Some nb, bm_max := sz\<rparr>" nb] False Some st sz(4,5) by (simp add: a r)
    qed
  qed
qed

lemma mem_BIO_write:
  assumes "mem_ok w" and "\<not> rdonly w" and "good_malloc malloc" and "d \<noteq> []" and "length d < 2 ^ 31" and "length (mem_bytes w) < 2 ^ 60"
  shows "\<exists>ok w'. BIO_write (mem_method malloc) d (int (length d)) w = Some (if ok then int (length d) else - 1, w') \<and> mem_ok w' \<and> \<not> rdonly w' \<and>
    mem_bytes w' = (if ok then mem_bytes w @ d else mem_bytes w) \<and> (\<not> ok \<longrightarrow> (\<exists>n < 2 ^ 62. OPENSSL_malloc malloc n = None)) \<and>
    bio_num (mem_hdr w') = bio_num (mem_hdr w)"
proof -
  obtain b where b: "mem_buf w = Some b" "bm_ok False b" "mem_bytes w = bm_contents b" "bio_init (mem_hdr w)"
    using mem_okE [OF assms(1)] assms(2) by auto
  have l: "bm_length b < 2 ^ 60" using length_bm_contents [OF b(2)] b(3) assms(6) by simp
  have d: "0 < int (length d)" "length d < 2 ^ 60" using assms(4,5) by simp_all
  consider b' where "BUF_MEM_append malloc d b = Some (True, b')" "bm_ok False b'" "bm_contents b' = bm_contents b @ d"
    | n where "BUF_MEM_append malloc d b = Some (False, b)" "n < 2 ^ 62" "OPENSSL_malloc malloc n = None"
    using BUF_MEM_append [OF b(2) assms(3,4) d(2) l] by blast
  then show ?thesis
  proof cases
    case 1
    then show ?thesis
      using b d(1) assms(2) by (intro exI [of _ True]) (auto simp: BIO_write_def mem_method_def mem_write_def Let_def mem_ok_def mem_bytes_def rdonly_def retry_flags_rdonly)
  next
    case 2
    then show ?thesis
      using b d(1) assms(2) by (intro exI [of _ False]) (auto simp: BIO_write_def mem_method_def mem_write_def Let_def mem_ok_def mem_bytes_def rdonly_def retry_flags_rdonly)
  qed
qed

section \<open>Lines\<close>

definition first_line :: "u8 list \<Rightarrow> u8 list" where
  "first_line s = (if 0x0a \<in> set s then takeWhile (\<lambda>b. b \<noteq> 0x0a) s @ [0x0a] else s)"

lemma memchr_eq: "OPENSSL_memchr s c = (if c \<in> set s then Some (length (takeWhile (\<lambda>b. b \<noteq> c) s)) else None)"
  by (induction s) auto

lemma memchr_line: "(case OPENSSL_memchr s 0x0a of None \<Rightarrow> length s | Some i \<Rightarrow> i + 1) = length (first_line s)"
  by (simp add: memchr_eq first_line_def)

lemma first_line_part: "\<exists>t. s = first_line s @ t"
proof (cases "0x0a \<in> set s")
  case True
  then obtain us t where "s = us @ 0x0a # t" "0x0a \<notin> set us" by (meson split_list_first)
  moreover from this have "takeWhile (\<lambda>b. b \<noteq> 0x0a) s = us" by (simp add: takeWhile_append2 takeWhile_tail) (metis append.right_neutral takeWhile.simps(2) takeWhile_append2)
  ultimately show ?thesis using True by (simp add: first_line_def)
qed (simp add: first_line_def)

text \<open>
  \<open>BIO_gets\<close> gives the first line of what can be read, with its newline and a zero byte behind it, or as much of it as fits in the buffer or
  as there is, and leaves the rest to be read.
\<close>

lemma BIO_gets_line:
  assumes "mem_ok w" and "0 < n"
  defines "line \<equiv> first_line (take (nat n - 1) (mem_bytes w))"
  shows "\<exists>w'. BIO_gets (mem_method malloc) n w = Some (int (length line), line @ [0], w') \<and> mem_ok w' \<and>
    mem_bytes w = line @ mem_bytes w' \<and> rdonly w' = rdonly w \<and> bio_num (mem_hdr w') = bio_num (mem_hdr w)"
proof -
  obtain b where b: "mem_buf w = Some b" "bm_ok (rdonly w) b" "mem_bytes w = bm_contents b" "bio_init (mem_hdr w)"
    using mem_okE [OF assms(1)] .
  define w1 where "w1 = w\<lparr>mem_hdr := BIO_clear_retry_flags (mem_hdr w)\<rparr>"
  have w1: "mem_ok w1" "mem_bytes w1 = mem_bytes w" "rdonly w1 = rdonly w" "bio_num (mem_hdr w1) = bio_num (mem_hdr w)" using assms(1) by (auto simp: w1_def mem_ok_def mem_bytes_def split: option.splits)
  have l: "length (mem_bytes w) = bm_length b" using length_bm_contents [OF b(2)] b(3) by simp
  define k where "k = min (nat n - 1) (length (mem_bytes w))"
  define d where "d = (case bm_data b of None \<Rightarrow> [] | Some d \<Rightarrow> drop (bm_start b) d)"
  have k: "(if n - 1 > int (bm_length b) then int (bm_length b) else n - 1) = int k" using assms(2) l by (auto simp: k_def)
  have tk: "take k d = take (nat n - 1) (mem_bytes w)" "length (take k d) = k"
    using b(3) l by (auto simp: k_def d_def bm_contents_def split: option.splits)
  have line: "line = first_line (take k d)" by (simp add: line_def tk(1))
  define r where "r = (case OPENSSL_memchr (take k d) 0x0a of None \<Rightarrow> int k | Some newline \<Rightarrow> int newline + 1)"
  have r: "r = int (length line)"
    unfolding r_def line memchr_line [symmetric] using tk(2) by (auto split: option.split)
  have g: "mem_gets w n = (case mem_read w1 r of None \<Rightarrow> None | Some (ret, out, w) \<Rightarrow> Some (ret, if ret \<ge> 0 then out @ [0] else out, w))"
  proof -
    have "mem_buf w1 = Some b" using b(1) by (simp add: w1_def)
    then show ?thesis
      using assms(2) unfolding mem_gets_def Let_def w1_def [symmetric] \<open>mem_buf w1 = Some b\<close> option.case k d_def [symmetric] nat_int r_def [symmetric] by simp
  qed
  obtain rest where rest: "take (nat n - 1) (mem_bytes w) = line @ rest" using first_line_part unfolding line_def by blast
  obtain R where R: "mem_bytes w = line @ R"
    using rest append_take_drop_id [of "nat n - 1" "mem_bytes w"] that [of "rest @ drop (nat n - 1) (mem_bytes w)"] by simp
  have ll: "length line \<le> length (mem_bytes w)" "take (length line) (mem_bytes w) = line" unfolding R by simp_all
  have m: "\<exists>w'. mem_gets w n = Some (int (length line), line @ [0], w') \<and> mem_ok w' \<and> mem_bytes w = line @ mem_bytes w' \<and>
      rdonly w' = rdonly w \<and> bio_num (mem_hdr w') = bio_num (mem_hdr w)"
  proof (cases "line = []")
    case True
    then have "mem_read w1 r = Some (0, [], w1\<lparr>mem_hdr := BIO_clear_retry_flags (mem_hdr w1)\<rparr>)" by (simp add: mem_read_def r)
    then show ?thesis using True w1 by (auto simp: g mem_ok_def mem_bytes_def split: option.splits)
  next
    case False
    then have rp: "0 < r" "mem_bytes w1 \<noteq> []" using r ll w1(2) by auto
    have mn: "min (nat r) (length (mem_bytes w1)) = length line" using r ll(1) w1(2) by simp
    obtain w' where "mem_read w1 r = Some (int (length line), take (length line) (mem_bytes w1), w')" "mem_ok w'"
        "mem_bytes w' = drop (length line) (mem_bytes w1)" "rdonly w' = rdonly w1" "bio_num (mem_hdr w') = bio_num (mem_hdr w1)"
      using mem_read_some [OF w1(1) rp] unfolding mn by blast
    then show ?thesis using w1(2-4) ll(2) append_take_drop_id [of "length line" "mem_bytes w"] by (simp add: g)
  qed
  then show ?thesis
    using assms(2) b(4) by (auto simp: BIO_gets_def mem_method_def Let_def)
qed

section \<open>Queues\<close>

text \<open>Operations of a client, with the memory that each is given, and what they return.\<close>

datatype mem_op = Write "u8 list" | Read int | Gets int

definition mem_step :: "heap \<Rightarrow> mem_op \<Rightarrow> mem_bio \<Rightarrow> ((int \<times> u8 list) \<times> mem_bio) option" where
  "mem_step malloc a w =
     (case a of
        Write d \<Rightarrow> map_option (\<lambda>(ret, w). ((ret, []), w)) (BIO_write (mem_method malloc) d (int (length d)) w)
      | Read n \<Rightarrow> map_option (\<lambda>(ret, out, w). ((ret, out), w)) (BIO_read (mem_method malloc) n w)
      | Gets n \<Rightarrow> map_option (\<lambda>(ret, out, w). ((ret, out), w)) (BIO_gets (mem_method malloc) n w))"

fun mem_run :: "(nat \<Rightarrow> heap) \<Rightarrow> mem_op list \<Rightarrow> mem_bio \<Rightarrow> ((int \<times> u8 list) list \<times> mem_bio) option" where
  "mem_run malloc [] w = Some ([], w)"
| "mem_run malloc (a # as) w =
     (case mem_step (malloc 0) a w of
        None \<Rightarrow> None
      | Some (r, w) \<Rightarrow> map_option (\<lambda>(rs, w). (r # rs, w)) (mem_run (\<lambda>i. malloc (i + 1)) as w))"

text \<open>The same on a queue of bytes. A write whose bytes there is no room for fails; \<open>eof\<close> is what reading an empty queue returns.\<close>

definition queue_step :: "bool \<Rightarrow> int \<Rightarrow> mem_op \<Rightarrow> u8 list \<Rightarrow> (int \<times> u8 list) \<times> u8 list" where
  "queue_step room eof a q =
     (case a of
        Write d \<Rightarrow> if d = [] then ((0, []), q) else if room then ((int (length d), []), q @ d) else ((- 1, []), q)
      | Read n \<Rightarrow>
          if n \<le> 0 then ((0, []), q)
          else if q = [] then ((eof, []), q)
          else ((int (length (take (nat n) q)), take (nat n) q), drop (nat n) q)
      | Gets n \<Rightarrow>
          if n \<le> 0 then ((0, []), q)
          else
            let line = first_line (take (nat n - 1) q)
            in ((int (length line), line @ [0]), drop (length line) q))"

fun queue_run :: "(nat \<Rightarrow> bool) \<Rightarrow> int \<Rightarrow> mem_op list \<Rightarrow> u8 list \<Rightarrow> (int \<times> u8 list) list \<times> u8 list" where
  "queue_run room eof [] q = ([], q)"
| "queue_run room eof (a # as) q =
     (case queue_step (room 0) eof a q of
        (r, q) \<Rightarrow> (case queue_run (\<lambda>i. room (i + 1)) eof as q of (rs, q) \<Rightarrow> (r # rs, q)))"

fun written :: "mem_op \<Rightarrow> nat" where
  "written (Write d) = length d"
| "written _ = 0"

lemma length_first_line: "length (first_line s) \<le> length s"
  using first_line_part [of s] by (metis le_add1 length_append)

lemma length_queue_step: "length (snd (queue_step room eof a q)) \<le> length q + written a"
  by (cases a) (auto simp: queue_step_def Let_def)

lemma mem_step_queue:
  assumes "mem_ok w" and "\<not> rdonly w" and "good_malloc malloc" and "written a < 2 ^ 31" and "length (mem_bytes w) < 2 ^ 60"
  shows "\<exists>room r w'. mem_step malloc a w = Some (r, w') \<and> mem_ok w' \<and> \<not> rdonly w' \<and> bio_num (mem_hdr w') = bio_num (mem_hdr w) \<and>
    (r, mem_bytes w') = queue_step room (bio_num (mem_hdr w)) a (mem_bytes w) \<and> (\<not> room \<longrightarrow> (\<exists>n < 2 ^ 62. OPENSSL_malloc malloc n = None))"
proof (cases a)
  case (Write d)
  show ?thesis
  proof (cases "d = []")
    case True
    then have "mem_step malloc a w = Some ((0, []), w)"
      using Write assms(1) by (simp add: mem_step_def BIO_write_def mem_method_def mem_ok_init)
    then show ?thesis using Write True assms(1,2) by (intro exI [of _ True]) (auto simp: queue_step_def)
  next
    case False
    have "length d < 2 ^ 31" using assms(4) Write by simp
    from mem_BIO_write [OF assms(1,2,3) False this assms(5)] obtain ok w' where
      "BIO_write (mem_method malloc) d (int (length d)) w = Some (if ok then int (length d) else - 1, w')" "mem_ok w'" "\<not> rdonly w'"
      "mem_bytes w' = (if ok then mem_bytes w @ d else mem_bytes w)" "\<not> ok \<longrightarrow> (\<exists>n < 2 ^ 62. OPENSSL_malloc malloc n = None)"
      "bio_num (mem_hdr w') = bio_num (mem_hdr w)" by blast
    then show ?thesis using Write False by (intro exI [of _ ok]) (auto simp: mem_step_def queue_step_def)
  qed
next
  case (Read n)
  consider "n \<le> 0" | "0 < n" "mem_bytes w = []" | "0 < n" "mem_bytes w \<noteq> []" by force
  then show ?thesis
  proof cases
    case 1
    then have "mem_step malloc a w = Some ((0, []), w)"
      using Read assms(1) by (simp add: mem_step_def BIO_read_def mem_method_def mem_ok_init)
    then show ?thesis using Read 1 assms(1,2) by (intro exI [of _ True]) (auto simp: queue_step_def)
  next
    case 2
    then show ?thesis
      using mem_BIO_read_none [OF assms(1), of n malloc] Read assms(2) by (intro exI [of _ True]) (auto simp: mem_step_def queue_step_def)
  next
    case 3
    have mk: "take (min (nat n) (length q)) q = take (nat n) q" "drop (min (nat n) (length q)) q = drop (nat n) q" for q :: "u8 list"
      by (auto simp: min_def)
    from 3 show ?thesis
      using mem_BIO_read_some [OF assms(1) 3, of malloc] Read assms(2) unfolding mk
      by (intro exI [of _ True]) (auto simp: mem_step_def queue_step_def min.commute)
  qed
next
  case (Gets n)
  show ?thesis
  proof (cases "n \<le> 0")
    case True
    then have "mem_step malloc a w = Some ((0, []), w)"
      using Gets assms(1) by (simp add: mem_step_def BIO_gets_def mem_method_def mem_ok_init)
    then show ?thesis using Gets True assms(1,2) by (intro exI [of _ True]) (auto simp: queue_step_def)
  next
    case False
    then have "0 < n" by simp
    define line where "line = first_line (take (nat n - 1) (mem_bytes w))"
    obtain w' where "BIO_gets (mem_method malloc) n w = Some (int (length line), line @ [0], w')" "mem_ok w'"
        "mem_bytes w = line @ mem_bytes w'" "rdonly w' = rdonly w" "bio_num (mem_hdr w') = bio_num (mem_hdr w)"
      using BIO_gets_line [OF assms(1) \<open>0 < n\<close>, of malloc, folded line_def] by blast
    moreover have "queue_step True (bio_num (mem_hdr w)) a (mem_bytes w) = ((int (length line), line @ [0]), drop (length line) (mem_bytes w))"
      using Gets False by (simp add: queue_step_def Let_def line_def)
    ultimately show ?thesis using Gets assms(2) by (intro exI [of _ True]) (auto simp: mem_step_def)
  qed
qed

text \<open>C21. A memory BIO is a queue of bytes: whatever is written to it, read from it and read from it by lines, in any order, every call returns
  what it does on a queue of bytes, and no call touches memory that is not the buffer's; writing fails only when memory has run out, and then
  changes nothing.\<close>

theorem mem_bio_queue:
  assumes "mem_ok w" and "\<not> rdonly w" and "\<And>i. good_malloc (malloc i)" and "\<forall>a \<in> set as. written a < 2 ^ 31"
    and "length (mem_bytes w) + sum_list (map written as) < 2 ^ 60"
  shows "\<exists>room rs w'. mem_run malloc as w = Some (rs, w') \<and> mem_ok w' \<and>
    (rs, mem_bytes w') = queue_run room (bio_num (mem_hdr w)) as (mem_bytes w) \<and>
    (\<forall>i. \<not> room i \<longrightarrow> (\<exists>n < 2 ^ 62. OPENSSL_malloc (malloc i) n = None))"
  using assms
proof (induction "as" arbitrary: w malloc)
  case Nil
  then show ?case by (intro exI [of _ "\<lambda>_. True"]) auto
next
  case (Cons a "as")
  have wa: "written a < 2 ^ 31" "length (mem_bytes w) < 2 ^ 60" using Cons.prems(4,5) by simp_all
  obtain r0 r w1 where s: "mem_step (malloc 0) a w = Some (r, w1)" "mem_ok w1" "\<not> rdonly w1" "bio_num (mem_hdr w1) = bio_num (mem_hdr w)"
      "(r, mem_bytes w1) = queue_step r0 (bio_num (mem_hdr w)) a (mem_bytes w)" "\<not> r0 \<longrightarrow> (\<exists>n < 2 ^ 62. OPENSSL_malloc (malloc 0) n = None)"
    using mem_step_queue [OF Cons.prems(1,2) _ wa, of "malloc 0"] Cons.prems(3) by blast
  have l: "length (mem_bytes w1) \<le> length (mem_bytes w) + written a"
    using length_queue_step [of r0 "bio_num (mem_hdr w)" a "mem_bytes w"] unfolding s(5) [symmetric] by simp
  have b: "\<forall>a \<in> set as. written a < 2 ^ 31" "length (mem_bytes w1) + sum_list (map written as) < 2 ^ 60" using Cons.prems(4,5) l by simp_all
  obtain rm rs w' where t: "mem_run (\<lambda>i. malloc (i + 1)) as w1 = Some (rs, w')" "mem_ok w'"
      "(rs, mem_bytes w') = queue_run rm (bio_num (mem_hdr w1)) as (mem_bytes w1)"
      "\<forall>i. \<not> rm i \<longrightarrow> (\<exists>n < 2 ^ 62. OPENSSL_malloc (malloc (i + 1)) n = None)"
    using Cons.IH [OF s(2,3) Cons.prems(3) b, of "\<lambda>i. i + 1"] by blast
  have "\<forall>i. \<not> case_nat r0 rm i \<longrightarrow> (\<exists>n < 2 ^ 62. OPENSSL_malloc (malloc i) n = None)"
    using s(6) t(4) by (auto split: nat.split)
  moreover have "queue_run (case_nat r0 rm) (bio_num (mem_hdr w)) (a # as) (mem_bytes w) = (r # rs, mem_bytes w')"
    by (simp add: s(5) [symmetric] t(3) [symmetric, unfolded s(4)])
  ultimately show ?case using s(1) t(1,2) by (intro exI [of _ "case_nat r0 rm"]) auto
qed

lemma mem_bio_queue_witness:
  "\<exists>w rs w'. BIO_new_mem (\<lambda>i n. Some (replicate n 0)) = Some w \<and>
     mem_run (\<lambda>i n. Some (replicate n 0)) [Write [1, 2, 0x0a, 3, 4], Gets 9, Read 1, Read 9, Read 9] w = Some (rs, w') \<and>
     rs = [(5, []), (3, [1, 2, 0x0a, 0]), (1, [3]), (1, [4]), (- 1, [])] \<and> mem_bytes w' = []"
proof -
  define w where "w = \<lparr>mem_hdr = BIO_zeroed\<lparr>bio_init := True, bio_num := - 1\<rparr>,
      mem_buf = Some \<lparr>bm_length = 0, bm_data = None, bm_start = 0, bm_max = 0\<rparr>\<rparr>"
  have n: "BIO_new_mem (\<lambda>i n. Some (replicate n 0)) = Some w"
    by (simp add: BIO_new_mem_def mem_new_def BUF_MEM_new_def OPENSSL_zalloc_def OPENSSL_malloc_def BIO_zeroed_def w_def)
  have w: "mem_ok w" "\<not> rdonly w" "mem_bytes w = []" "bio_num (mem_hdr w) = - 1"
    by (simp_all add: w_def mem_ok_def rdonly_def bm_ok_def mem_bytes_def bm_contents_def BIO_zeroed_def)
  have m: "good_malloc (\<lambda>n. Some (replicate n 0))" "OPENSSL_malloc (\<lambda>n. Some (replicate n 0)) k \<noteq> None" if "k < 2 ^ 62" for k
    using that by (auto simp: good_malloc_def OPENSSL_malloc_def)
  obtain room rs w' where r: "mem_run (\<lambda>i n. Some (replicate n 0)) [Write [1, 2, 0x0a, 3, 4], Gets 9, Read 1, Read 9, Read 9] w = Some (rs, w')"
      "(rs, mem_bytes w') = queue_run room (- 1) [Write [1, 2, 0x0a, 3, 4], Gets 9, Read 1, Read 9, Read 9] []"
      "\<forall>i. \<not> room i \<longrightarrow> (\<exists>n < 2 ^ 62. OPENSSL_malloc (\<lambda>n. Some (replicate n 0)) n = None)"
    using mem_bio_queue [of w "\<lambda>i n. Some (replicate n 0)" "[Write [1, 2, 0x0a, 3, 4], Gets 9, Read 1, Read 9, Read 9]"] w m(1) [of 0] by auto
  have "room i" for i using r(3) m(2) by blast
  then show ?thesis
    using n r(1,2) by (auto simp: queue_step_def first_line_def)
qed

section \<open>Reading objects\<close>

text \<open>C22. \<open>BIO_read_asn1\<close> on a memory BIO, from any bytes in it. An object of definite length is read exactly: the tag byte, the DER
  length of the contents and the contents, within \<open>max_len\<close> and with less than \<open>2 ^ 31\<close> bytes of contents; the bytes behind it stay.
  It is refused only if there is no such object, it is over a limit or there is no memory for it. The limit is \<open>INT_MAX\<close>,
  where \<^verbatim>\<open>bio.h\<close> says \<open>2 ^ 32\<close>. Tags of more than one byte are refused, and an object of indefinite length is all the bytes in
  the BIO, if it reports the end with 0, the bytes are less than \<open>max_len\<close> (\<^verbatim>\<open>bio.h\<close> allows \<open>max_len\<close> bytes) and no allocation
  fails. The tag byte of the end of contents, universal tag 0, is a tag here.\<close>

theorem BIO_read_asn1_mem:
  assumes "mem_ok w" and "bio_num (mem_hdr w) \<in> {0, - 1}" and "\<And>i. good_malloc (malloc i)" and "length header = 6" and "max_len < 2 ^ 62"
  shows "\<exists>r w'. BIO_read_asn1 malloc header (mem_method m) max_len w = Some (r, w') \<and> mem_ok w' \<and>
    (case mem_bytes w of
       t # l # s \<Rightarrow>
         if t AND 0x1f = 0x1f then r = None
         else if t AND 0x20 \<noteq> 0 \<and> l = 0x80 then
           (case r of
              Some out \<Rightarrow> out = mem_bytes w \<and> mem_bytes w' = [] \<and> length out < max_len
            | None \<Rightarrow> bio_num (mem_hdr w) = - 1 \<or> max_len \<le> length (mem_bytes w) \<or>
                (\<exists>i k. OPENSSL_malloc (malloc i) k = None \<and> k \<le> max_len))
         else
           (case r of
              Some out \<Rightarrow> mem_bytes w = out @ mem_bytes w' \<and> length out \<le> max_len \<and>
                (\<exists>c. out = t # der_length (length c) @ c \<and> length c < 2 ^ 31)
            | None \<Rightarrow> \<forall>c rest. mem_bytes w = t # der_length (length c) @ c @ rest \<longrightarrow>
                max_len < length (t # der_length (length c) @ c) \<or> 2 ^ 31 \<le> length c \<or>
                OPENSSL_malloc (malloc 0) (length (t # der_length (length c) @ c)) = None)
     | _ \<Rightarrow> r = None)"
proof -
  obtain r w' where r: "BIO_read_asn1 malloc header (mem_method m) max_len w = Some (r, w')" "mem_ok w'"
    and c: "case mem_bytes w of
       t # l # s \<Rightarrow>
         if t AND 0x1f = 0x1f then r = None
         else if t AND 0x20 \<noteq> 0 \<and> l = 0x80 then
           (case r of
              Some bs \<Rightarrow> bs = mem_bytes w \<and> mem_bytes w' = [] \<and> length bs < max_len
            | None \<Rightarrow> bio_num (mem_hdr w) \<noteq> 0 \<or> max_len \<le> length (mem_bytes w) \<or> (\<exists>i k. OPENSSL_malloc (malloc i) k = None \<and> k \<le> max_len))
         else
           (case (asn1_size l s, r) of
              (None, r) \<Rightarrow> r = None
            | (Some (h, n), Some bs) \<Rightarrow>
                h + n \<le> length (mem_bytes w) \<and> h + n \<le> max_len \<and> int n \<le> INT_MAX \<and> bs = take (h + n) (mem_bytes w) \<and>
                mem_bytes w' = drop (h + n) (mem_bytes w)
            | (Some (h, n), None) \<Rightarrow>
                length (mem_bytes w) < h + n \<or> max_len < h + n \<or> INT_MAX < int n \<or> OPENSSL_malloc (malloc 0) (h + n) = None)
     | _ \<Rightarrow> r = None"
    using mem_source.read_asn1 [of w malloc header max_len m] assms by blast
  consider (short) "length (mem_bytes w) < 2" | (obj) t l s where "mem_bytes w = t # l # s"
    by (cases "mem_bytes w"; cases "tl (mem_bytes w)") auto
  then show ?thesis
  proof cases
    case short
    then show ?thesis
      using r c by (cases "mem_bytes w"; cases "tl (mem_bytes w)") auto
  next
    case (obj t l s)
    show ?thesis
    proof (cases "t AND 0x1f = 0x1f \<or> t AND 0x20 \<noteq> 0 \<and> l = 0x80")
      case True
      then show ?thesis
        using r c assms(2) unfolding obj list.case by (intro exI [of _ r] exI [of _ w']) (auto split: option.splits if_splits)
    next
      case False
      then have n: "\<not> t AND 0x1f = 0x1f" "\<not> (t AND 0x20 \<noteq> 0 \<and> l = 0x80)" by simp_all
      note d = definite_object [OF obj c [unfolded obj list.case if_not_P [OF n(1)] if_not_P [OF n(2)], folded obj]]
      show ?thesis
        unfolding obj list.case if_not_P [OF n(1)] if_not_P [OF n(2)]
        using r d unfolding obj by blast
    qed
  qed
qed

lemma BIO_read_asn1_mem_witness:
  "\<exists>w'. BIO_read_asn1 (\<lambda>i n. Some (replicate n 0)) [0, 0, 0, 0, 0, 0] (mem_method (\<lambda>n. None)) 9
     \<lparr>mem_hdr = BIO_zeroed\<lparr>bio_init := True, bio_num := - 1\<rparr>,
      mem_buf = Some \<lparr>bm_length = 5, bm_data = Some [4, 2, 7, 8, 9], bm_start = 0, bm_max = 5\<rparr>\<rparr> = Some (Some [4, 2, 7, 8], w') \<and> mem_bytes w' = [9]"
proof -
  define w where "w = \<lparr>mem_hdr = BIO_zeroed\<lparr>bio_init := True, bio_num := - 1\<rparr>,
      mem_buf = Some \<lparr>bm_length = 5, bm_data = Some [4, 2, 7, 8, 9 :: u8], bm_start = 0, bm_max = 5\<rparr>\<rparr>"
  have w: "mem_ok w" "bio_num (mem_hdr w) \<in> {0, - 1}" "mem_bytes w = [4, 2, 7, 8, 9]"
    by (simp_all add: w_def mem_ok_def rdonly_def bm_ok_def mem_bytes_def bm_contents_def BIO_zeroed_def)
  have m: "good_malloc (\<lambda>n. Some (replicate n 0))" "OPENSSL_malloc (\<lambda>n. Some (replicate n 0)) (length [4, 2, 7, 8 :: u8]) \<noteq> None"
    by (auto simp: good_malloc_def OPENSSL_malloc_def)
  have s: "\<not> (4 :: u8) AND 0x1f = 0x1f" "\<not> ((4 :: u8) AND 0x20 \<noteq> 0 \<and> (2 :: u8) = 0x80)" by simp_all
  obtain r w' where r: "BIO_read_asn1 (\<lambda>i n. Some (replicate n 0)) [0, 0, 0, 0, 0, 0] (mem_method (\<lambda>n. None)) 9 w = Some (r, w')"
    and c: "case r of
        Some out \<Rightarrow> [4, 2, 7, 8, 9] = out @ mem_bytes w' \<and> length out \<le> 9 \<and> (\<exists>c. out = 4 # der_length (length c) @ c \<and> length c < 2 ^ 31)
      | None \<Rightarrow> \<forall>c rest. [4, 2, 7, 8, 9] = 4 # der_length (length c) @ c @ rest \<longrightarrow>
          9 < length (4 # der_length (length c) @ c) \<or> 2 ^ 31 \<le> length c \<or>
          OPENSSL_malloc (\<lambda>n. Some (replicate n 0)) (length (4 # der_length (length c) @ c)) = None"
    using BIO_read_asn1_mem [OF w(1,2), of "\<lambda>i n. Some (replicate n 0)" "[0, 0, 0, 0, 0, 0]" 9 "\<lambda>n. None"] m(1)
    unfolding w(3) list.case if_not_P [OF s(1)] if_not_P [OF s(2)] by auto
  show ?thesis
  proof (cases r)
    case None
    then show ?thesis using c [unfolded None option.case, rule_format, of "[7, 8]" "[9]"] m(2) by (simp add: der_length_def)
  next
    case (Some out)
    with c obtain x where x: "[4, 2, 7, 8, 9] = out @ mem_bytes w'" "out = 4 # der_length (length x) @ x" "length x < 2 ^ 31" by auto
    have "asn1_size 2 [7, 8, 9] = Some (1 + length (der_length (length x)), length x)"
      using x by (intro asn1_size_complete [where r = "x @ mem_bytes w'"]) simp_all
    then have "length x = 2" by (simp add: asn1_size_def)
    with x have "out = [4, 2, 7, 8] \<and> mem_bytes w' = [9]" by (auto simp: der_length_def numeral_2_eq_2 length_Suc_conv)
    then show ?thesis using r Some unfolding w_def by simp
  qed
qed

text \<open>
  The loop that reads to the end of the input only takes a return value of -1 for an error. A memory BIO may be told to return another
  one, which moves the place that is written to next before the start of the buffer.
\<close>

lemma bio_read_all_negative:
  "\<exists>w0 w. BIO_new_mem_buf (\<lambda>i n. Some (replicate n 0)) (Some [0x30, 0x80]) 2 = Some (Some w0) \<and>
     BIO_set_mem_eof_return (\<lambda>n. None) (- 5) w0 = Some (1, w) \<and>
     BIO_read_asn1 (\<lambda>i n. Some (replicate n 0)) [0, 0, 0, 0, 0, 0] (mem_method (\<lambda>n. None)) 16 w = None"
proof -
  define w where "w = \<lparr>mem_hdr = BIO_zeroed\<lparr>bio_init := True, bio_flags := BIO_FLAGS_MEM_RDONLY, bio_num := - 5\<rparr>,
      mem_buf = Some \<lparr>bm_length = 2, bm_data = Some [0x30, 0x80 :: u8], bm_start = 0, bm_max = 2\<rparr>\<rparr>"
  have w: "mem_ok w" "bio_num (mem_hdr w) = - 5" "mem_bytes w = [0x30, 0x80]"
    by (simp_all add: w_def mem_ok_def rdonly_def bm_ok_def mem_bytes_def bm_contents_def BIO_zeroed_def)
  obtain w1 where r1: "BIO_read (mem_method (\<lambda>n. None)) 2 w = Some (2, [0x30, 0x80], w1)" "mem_ok w1" "mem_bytes w1 = []" "bio_num (mem_hdr w1) = - 5"
    using mem_BIO_read_some [OF w(1), of 2 "\<lambda>n. None"] w(2,3) by auto
  obtain w2 where r2: "BIO_read (mem_method (\<lambda>n. None)) 14 w1 = Some (- 5, [], w2)"
    using mem_BIO_read_none [OF r1(2), of 14 "\<lambda>n. None"] r1(3,4) by auto
  have "bio_read_full (mem_method (\<lambda>n. None)) True 0 2 [0, 0, 0, 0, 0, 0] w = Some (True, False, [0x30, 0x80, 0, 0, 0, 0], w1)"
    by (simp add: bio_read_full.simps [of _ _ _ 2] bio_read_full.simps [of _ _ _ 0] r1(1) store_def)
  moreover have "bio_read_all (\<lambda>i n. Some (replicate n 0)) (mem_method (\<lambda>n. None)) [0x30, 0x80] 16 w1 = None"
    by (simp add: bio_read_all_def OPENSSL_malloc_def bio_read_all_loop.simps [of _ _ _ _ "Suc (Suc 0)"] r2 Let_def)
      (simp add: bio_read_all_loop.simps [of _ _ _ _ "18446744073709551613"])
  ultimately have "BIO_read_asn1 (\<lambda>i n. Some (replicate n 0)) [0, 0, 0, 0, 0, 0] (mem_method (\<lambda>n. None)) 16 w = None"
    by (simp add: BIO_read_asn1_def Let_def)
  moreover have "BIO_new_mem_buf (\<lambda>i n. Some (replicate n 0)) (Some [0x30, 0x80]) 2 = Some (Some (w\<lparr>mem_hdr := (mem_hdr w)\<lparr>bio_num := 0\<rparr>\<rparr>))"
    by (simp add: BIO_new_mem_buf_def BIO_new_mem_def mem_new_def BUF_MEM_new_def OPENSSL_zalloc_def OPENSSL_malloc_def BIO_zeroed_def w_def)
  moreover have "BIO_set_mem_eof_return (\<lambda>n. None) (- 5) (w\<lparr>mem_hdr := (mem_hdr w)\<lparr>bio_num := 0\<rparr>\<rparr>) = Some (1, w)"
    by (simp add: BIO_set_mem_eof_return_def BIO_ctrl_def mem_method_def mem_ctrl_def w_def)
  ultimately show ?thesis by blast
qed

end
