(* ===== verification/Bio_Pair.thy ===== *)
theory Bio_Pair
  imports Bio
begin

text \<open>
  Model of \<^verbatim>\<open>crypto/bio/pair.c\<close>: two BIOs, each of which writes to a ring buffer that the other reads. The store has the two BIOs; the
  pointer of one to the other is the name of the other. The block of a BIO, \<open>ptr\<close>, is \<open>None\<close> after it has been freed. What the code asserts is
  \<open>None\<close> when it does not hold, like a call through a null pointer.
\<close>

section \<open>State\<close>

datatype side = Bio1 | Bio2

fun other :: "side \<Rightarrow> side" where
  "other Bio1 = Bio2"
| "other Bio2 = Bio1"

record bio_bio_st =
  b_peer :: "side option"
  b_closed :: bool
  b_len :: nat
  b_offset :: nat
  b_size :: nat
  b_buf :: "u8 list option"
  b_request :: nat

record pair_bio =
  pair_hdr :: bio
  pair_ptr :: "bio_bio_st option"

type_synonym pair_store = "side \<Rightarrow> pair_bio"

abbreviation upd_hdr :: "side \<Rightarrow> (bio \<Rightarrow> bio) \<Rightarrow> pair_store \<Rightarrow> pair_store" where
  "upd_hdr x f s \<equiv> s(x := (s x)\<lparr>pair_hdr := f (pair_hdr (s x))\<rparr>)"

abbreviation put_ptr :: "side \<Rightarrow> bio_bio_st \<Rightarrow> pair_store \<Rightarrow> pair_store" where
  "put_ptr x b s \<equiv> s(x := (s x)\<lparr>pair_ptr := Some b\<rparr>)"

section \<open>Life\<close>

abbreviation sizeof_bio_bio_st :: nat where "sizeof_bio_bio_st \<equiv> 56"
abbreviation sizeof_BIO_pair :: nat where "sizeof_BIO_pair \<equiv> 72"

definition bio_new :: "heap \<Rightarrow> bio \<Rightarrow> pair_bio option" where
  "bio_new malloc hdr =
     (case OPENSSL_zalloc malloc sizeof_bio_bio_st of
        None \<Rightarrow> None
      | Some _ \<Rightarrow> Some \<lparr>pair_hdr = hdr, pair_ptr = Some \<lparr>b_peer = None, b_closed = False, b_len = 0, b_offset = 0, b_size = 17 * 1024,
          b_buf = None, b_request = 0\<rparr>\<rparr>)"

text \<open>\<open>BIO_new(bio_s_bio())\<close>\<close>

definition BIO_new_bio :: "(nat \<Rightarrow> heap) \<Rightarrow> pair_bio option" where
  "BIO_new_bio malloc = (case OPENSSL_zalloc (malloc 0) sizeof_BIO_pair of None \<Rightarrow> None | Some _ \<Rightarrow> bio_new (malloc 1) BIO_zeroed)"

definition bio_destroy_pair :: "side \<Rightarrow> pair_store \<Rightarrow> pair_store option" where
  "bio_destroy_pair x s =
     (case pair_ptr (s x) of
        None \<Rightarrow> Some s
      | Some b \<Rightarrow>
     (case b_peer b of
        None \<Rightarrow> Some s
      | Some p \<Rightarrow>
     (case pair_ptr (s p) of
        None \<Rightarrow> None
      | Some peer_b \<Rightarrow>
          if b_peer peer_b \<noteq> Some x \<or> b_buf peer_b = None \<or> b_buf b = None then None
          else
            let s = put_ptr p (peer_b\<lparr>b_peer := None, b_len := 0, b_offset := 0\<rparr>) s;
                s = upd_hdr p (bio_init_update (\<lambda>_. False)) s;
                s = put_ptr x (b\<lparr>b_peer := None, b_len := 0, b_offset := 0\<rparr>) s;
                s = upd_hdr x (bio_init_update (\<lambda>_. False)) s
            in Some s)))"

definition bio_free :: "side \<Rightarrow> pair_store \<Rightarrow> pair_store option" where
  "bio_free x s =
     (case pair_ptr (s x) of
        None \<Rightarrow> None
      | Some b \<Rightarrow>
     (case (if b_peer b \<noteq> None then bio_destroy_pair x s else Some s) of
        None \<Rightarrow> None
      | Some s \<Rightarrow> Some (s(x := (s x)\<lparr>pair_ptr := None\<rparr>))))"

section \<open>Reading\<close>

text \<open>
  The loop of \<open>bio_read\<close>, from the buffer \<open>buf\<close> of the peer, whose bytes it does not change. It gives the bytes that it copies, each chunk
  behind the last one.
\<close>

partial_function (option) copy_out :: "u8 list \<Rightarrow> nat \<Rightarrow> bio_bio_st \<Rightarrow> (u8 list \<times> bio_bio_st) option" where
  "copy_out buf rest peer_b =
     (let chunk = (if (b_offset peer_b + rest) mod size_mod \<le> b_size peer_b then rest
                   else (b_size peer_b + size_mod - b_offset peer_b) mod size_mod);
          out = take chunk (drop (b_offset peer_b) buf);
          left = b_len peer_b - chunk;
          next_b = (if left \<noteq> 0 then peer_b\<lparr>b_len := left,
                      b_offset := (if b_offset peer_b + chunk = b_size peer_b then 0 else b_offset peer_b + chunk)\<rparr>
                    else peer_b\<lparr>b_len := 0, b_offset := 0\<rparr>)
      in if \<not> (rest \<le> b_len peer_b \<and> b_offset peer_b + chunk \<le> b_size peer_b \<and> (left = 0 \<longrightarrow> chunk = rest)) then None
         else if rest - chunk = 0 then Some (out, next_b)
         else Option.bind (copy_out buf (rest - chunk) next_b) (\<lambda>(more, b). Some (out @ more, b)))"

definition bio_read :: "side \<Rightarrow> pair_store \<Rightarrow> int \<Rightarrow> (int \<times> u8 list \<times> pair_store) option" where
  "bio_read x s size_in =
     (let s = upd_hdr x BIO_clear_retry_flags s in
      if \<not> bio_init (pair_hdr (s x)) then Some (0, [], s)
      else
     (case Option.bind (pair_ptr (s x)) b_peer of
        None \<Rightarrow> None
      | Some p \<Rightarrow>
     (case pair_ptr (s p) of
        None \<Rightarrow> None
      | Some peer_b \<Rightarrow>
     (case b_buf peer_b of
        None \<Rightarrow> None
      | Some buf \<Rightarrow>
          let peer_b = peer_b\<lparr>b_request := 0\<rparr>;
              sz = nat (size_in mod int size_mod)
          in
          if sz = 0 then Some (0, [], put_ptr p peer_b s)
          else if b_len peer_b = 0 then
            if b_closed peer_b then Some (0, [], put_ptr p peer_b s)
            else
              let s = upd_hdr x BIO_set_retry_read s
              in Some (- 1, [], put_ptr p (peer_b\<lparr>b_request := (if sz \<le> b_size peer_b then sz else b_size peer_b)\<rparr>) s)
          else
            let sz = (if b_len peer_b < sz then b_len peer_b else sz) in
     (case copy_out buf sz peer_b of
        None \<Rightarrow> None
      | Some (out, peer_b) \<Rightarrow> Some (signed_take_bit 31 (int sz), out, put_ptr p peer_b s))))))"

section \<open>Writing\<close>

partial_function (option) copy_in :: "u8 list \<Rightarrow> nat \<Rightarrow> u8 list \<Rightarrow> bio_bio_st \<Rightarrow> bio_bio_st option" where
  "copy_in inp rest buf b =
     (let write_offset = (b_offset b + b_len b) mod size_mod;
          write_offset = (if write_offset \<ge> b_size b then write_offset - b_size b else write_offset);
          chunk = (if (write_offset + rest) mod size_mod \<le> b_size b then rest else (b_size b + size_mod - write_offset) mod size_mod);
          buf' = store write_offset (take chunk inp) buf;
          b' = b\<lparr>b_buf := Some buf', b_len := b_len b + chunk\<rparr>
      in if \<not> (b_len b + rest \<le> b_size b \<and> b_len b + chunk \<le> b_size b) then None
         else if rest - chunk = 0 then Some b'
         else copy_in (drop chunk inp) (rest - chunk) buf' b')"

definition bio_write :: "side \<Rightarrow> pair_store \<Rightarrow> u8 list \<Rightarrow> int \<Rightarrow> (int \<times> pair_store) option" where
  "bio_write x s inp num_in =
     (let s = upd_hdr x BIO_clear_retry_flags s;
          n = nat (num_in mod int size_mod)
      in
      if \<not> bio_init (pair_hdr (s x)) \<or> n = 0 then Some (0, s)
      else
     (case pair_ptr (s x) of
        None \<Rightarrow> None
      | Some b \<Rightarrow>
     (case (b_peer b, b_buf b) of
        (Some _, Some buf) \<Rightarrow>
          let b = b\<lparr>b_request := 0\<rparr> in
          if b_closed b then Some (- 1, put_ptr x b s)
          else if \<not> b_len b \<le> b_size b then None
          else if b_len b = b_size b then Some (- 1, put_ptr x b (upd_hdr x BIO_set_retry_write s))
          else
            let n = (if n > b_size b - b_len b then b_size b - b_len b else n)
            in map_option (\<lambda>b. (signed_take_bit 31 (int n), put_ptr x b s)) (copy_in inp n buf b)
      | _ \<Rightarrow> None)))"

section \<open>Pairing\<close>

text \<open>The first half of \<open>bio_make_pair\<close> for one of the BIOs: its buffer.\<close>

definition pair_buf :: "heap \<Rightarrow> nat \<Rightarrow> bio_bio_st \<Rightarrow> bio_bio_st option" where
  "pair_buf malloc writebuf_len b =
     (if b_buf b = None then
        let b = (if writebuf_len \<noteq> 0 then b\<lparr>b_size := writebuf_len\<rparr> else b)
        in (case OPENSSL_malloc malloc (b_size b) of None \<Rightarrow> None | Some buf \<Rightarrow> Some (b\<lparr>b_buf := Some buf, b_len := 0, b_offset := 0\<rparr>))
      else Some b)"

text \<open>Two different BIOs. When it fails, what it has done to them is not told apart: the caller frees them.\<close>

definition bio_make_pair :: "(nat \<Rightarrow> heap) \<Rightarrow> side \<Rightarrow> side \<Rightarrow> nat \<Rightarrow> nat \<Rightarrow> pair_store \<Rightarrow> pair_store option option" where
  "bio_make_pair malloc bio1 bio2 writebuf1_len writebuf2_len s =
     (case (pair_ptr (s bio1), pair_ptr (s bio2)) of
        (Some b1, Some b2) \<Rightarrow>
          if b_peer b1 \<noteq> None \<or> b_peer b2 \<noteq> None then Some None
          else
     (case pair_buf (malloc 0) writebuf1_len b1 of
        None \<Rightarrow> Some None
      | Some b1 \<Rightarrow>
     (case pair_buf (malloc 1) writebuf2_len b2 of
        None \<Rightarrow> Some None
      | Some b2 \<Rightarrow>
          let s = put_ptr bio1 (b1\<lparr>b_peer := Some bio2, b_closed := False, b_request := 0\<rparr>) s;
              s = put_ptr bio2 (b2\<lparr>b_peer := Some bio1, b_closed := False, b_request := 0\<rparr>) s;
              s = upd_hdr bio1 (bio_init_update (\<lambda>_. True)) s;
              s = upd_hdr bio2 (bio_init_update (\<lambda>_. True)) s
          in Some (Some s)))
      | _ \<Rightarrow> None)"

definition BIO_new_bio_pair :: "(nat \<Rightarrow> heap) \<Rightarrow> nat \<Rightarrow> nat \<Rightarrow> pair_store option option" where
  "BIO_new_bio_pair malloc writebuf1_len writebuf2_len =
     (case (BIO_new_bio (\<lambda>i. malloc i), BIO_new_bio (\<lambda>i. malloc (i + 2))) of
        (Some bio1, Some bio2) \<Rightarrow>
          bio_make_pair (\<lambda>i. malloc (i + 4)) Bio1 Bio2 writebuf1_len writebuf2_len (\<lambda>x. case x of Bio1 \<Rightarrow> bio1 | Bio2 \<Rightarrow> bio2)
      | _ \<Rightarrow> Some None)"

section \<open>Control\<close>

abbreviation BIO_C_GET_WRITE_BUF_SIZE :: int where "BIO_C_GET_WRITE_BUF_SIZE \<equiv> 137"
abbreviation BIO_C_GET_WRITE_GUARANTEE :: int where "BIO_C_GET_WRITE_GUARANTEE \<equiv> 140"
abbreviation BIO_C_GET_READ_REQUEST :: int where "BIO_C_GET_READ_REQUEST \<equiv> 141"
abbreviation BIO_C_SHUTDOWN_WR :: int where "BIO_C_SHUTDOWN_WR \<equiv> 142"
abbreviation BIO_C_RESET_READ_REQUEST :: int where "BIO_C_RESET_READ_REQUEST \<equiv> 147"

text \<open>Sizes are below \<open>2 ^ 63\<close>, as every block is.\<close>

definition bio_ctrl :: "side \<Rightarrow> pair_store \<Rightarrow> int \<Rightarrow> int \<Rightarrow> side option \<Rightarrow> (int \<times> pair_store) option" where
  "bio_ctrl x s cmd num_in ptr =
     (case pair_ptr (s x) of
        None \<Rightarrow> None
      | Some b \<Rightarrow>
          if cmd = BIO_C_GET_WRITE_BUF_SIZE then Some (int (b_size b), s)
          else if cmd = BIO_C_GET_WRITE_GUARANTEE then
            Some (if b_peer b = None \<or> b_closed b then 0 else int (b_size b) - int (b_len b), s)
          else if cmd = BIO_C_GET_READ_REQUEST then Some (int (b_request b), s)
          else if cmd = BIO_C_RESET_READ_REQUEST then Some (1, put_ptr x (b\<lparr>b_request := 0\<rparr>) s)
          else if cmd = BIO_C_SHUTDOWN_WR then Some (1, put_ptr x (b\<lparr>b_closed := True\<rparr>) s)
          else if cmd = BIO_CTRL_GET_CLOSE then Some (bio_shutdown (pair_hdr (s x)), s)
          else if cmd = BIO_CTRL_SET_CLOSE then Some (1, upd_hdr x (bio_shutdown_update (\<lambda>_. signed_take_bit 31 num_in)) s)
          else if cmd = BIO_CTRL_PENDING then
     (case b_peer b of
        None \<Rightarrow> Some (0, s)
      | Some p \<Rightarrow> map_option (\<lambda>peer_b. (int (b_len peer_b), s)) (pair_ptr (s p)))
          else if cmd = BIO_CTRL_WPENDING then Some (if b_buf b \<noteq> None then int (b_len b) else 0, s)
          else if cmd = BIO_CTRL_FLUSH then Some (1, s)
          else if cmd = BIO_CTRL_EOF then
     (case ptr of
        None \<Rightarrow> Some (1, s)
      | Some other_bio \<Rightarrow>
          map_option (\<lambda>other_b. (if b_len other_b = 0 \<and> b_closed other_b then 1 else 0, s)) (pair_ptr (s other_bio)))
          else Some (0, s))"

definition methods_biop :: "side \<Rightarrow> pair_store bio_method" where
  "methods_biop x =
     \<lparr>the_bio = (\<lambda>s. pair_hdr (s x)), set_bio = (\<lambda>b s. s(x := (s x)\<lparr>pair_hdr := b\<rparr>)), bread = Some (bio_read x), bwrite = Some (bio_write x),
      bgets = None, bctrl = Some (\<lambda>s cmd larg. bio_ctrl x s cmd larg None)\<rparr>"

definition BIO_ctrl_get_read_request :: "side \<Rightarrow> pair_store \<Rightarrow> (int \<times> pair_store) option" where
  "BIO_ctrl_get_read_request x s = BIO_ctrl (methods_biop x) BIO_C_GET_READ_REQUEST 0 s"

definition BIO_ctrl_get_write_guarantee :: "side \<Rightarrow> pair_store \<Rightarrow> (int \<times> pair_store) option" where
  "BIO_ctrl_get_write_guarantee x s = BIO_ctrl (methods_biop x) BIO_C_GET_WRITE_GUARANTEE 0 s"

definition BIO_shutdown_wr :: "side \<Rightarrow> pair_store \<Rightarrow> (int \<times> pair_store) option" where
  "BIO_shutdown_wr x s = BIO_ctrl (methods_biop x) BIO_C_SHUTDOWN_WR 0 s"


section \<open>Rings\<close>

text \<open>What is in a ring buffer, in the order in which it was written.\<close>

definition ring :: "bio_bio_st \<Rightarrow> u8 list" where
  "ring b = map (\<lambda>i. the (b_buf b) ! ((b_offset b + i) mod b_size b)) [0..<b_len b]"

text \<open>What the comments of the record say.\<close>

definition ring_ok :: "bio_bio_st \<Rightarrow> bool" where
  "ring_ok b \<longleftrightarrow>
     (case b_buf b of
        None \<Rightarrow> False
      | Some buf \<Rightarrow> length buf = b_size b \<and> b_size b < 2 ^ 62 \<and> b_len b \<le> b_size b \<and> b_offset b < b_size b \<and> (b_len b = 0 \<longrightarrow> b_offset b = 0) \<and>
          (b_len b \<noteq> 0 \<longrightarrow> b_request b = 0) \<and> b_request b \<le> b_size b - b_len b)"

lemma length_ring: "length (ring b) = b_len b"
  by (simp add: ring_def)

lemma ring_empty: "ring b = [] \<longleftrightarrow> b_len b = 0"
  by (simp add: ring_def)

lemma ring_chunk_out:
  assumes "b_buf b = Some buf" and "length buf = b_size b" and "b_offset b + chunk \<le> b_size b" and "chunk < b_len b" and "b_len b \<le> b_size b"
  shows "ring b = take chunk (drop (b_offset b) buf) @
    ring (b\<lparr>b_len := b_len b - chunk, b_offset := (if b_offset b + chunk = b_size b then 0 else b_offset b + chunk)\<rparr>)"
proof (rule nth_equalityI)
  show "length (ring b) = length (take chunk (drop (b_offset b) buf) @
      ring (b\<lparr>b_len := b_len b - chunk, b_offset := (if b_offset b + chunk = b_size b then 0 else b_offset b + chunk)\<rparr>))"
    using assms by (simp add: length_ring)
  fix i assume i: "i < length (ring b)"
  show "ring b ! i = (take chunk (drop (b_offset b) buf) @
      ring (b\<lparr>b_len := b_len b - chunk, b_offset := (if b_offset b + chunk = b_size b then 0 else b_offset b + chunk)\<rparr>)) ! i"
  proof -
    have "(b_offset b + i) mod b_size b = i - chunk" if "b_offset b + chunk = b_size b" "chunk \<le> i"
    proof -
      have "b_offset b + i = b_size b + (i - chunk)" "i - chunk < b_size b" using that assms(4,5) i by (auto simp: length_ring)
      then show ?thesis by simp
    qed
    then show ?thesis using assms i by (auto simp: ring_def nth_append)
  qed
qed

lemma ring_chunk_all:
  assumes "b_buf b = Some buf" and "length buf = b_size b" and "b_offset b + b_len b \<le> b_size b"
  shows "ring b = take (b_len b) (drop (b_offset b) buf)"
  by (rule nth_equalityI) (use assms in \<open>auto simp: ring_def\<close>)

lemma ring_chunk_in:
  assumes "b_buf b = Some buf" and "length buf = b_size b" and "b_len b + length ys \<le> b_size b" and "b_offset b < b_size b"
  defines "w \<equiv> (if b_offset b + b_len b \<ge> b_size b then b_offset b + b_len b - b_size b else b_offset b + b_len b)"
  assumes "w + length ys \<le> b_size b"
  shows "ring (b\<lparr>b_buf := Some (store w ys buf), b_len := b_len b + length ys\<rparr>) = ring b @ ys"
proof (rule nth_equalityI)
  show "length (ring (b\<lparr>b_buf := Some (store w ys buf), b_len := b_len b + length ys\<rparr>)) = length (ring b @ ys)"
    by (simp add: length_ring)
  fix i assume "i < length (ring (b\<lparr>b_buf := Some (store w ys buf), b_len := b_len b + length ys\<rparr>))"
  then have i: "i < b_len b + length ys" by (simp add: length_ring)
  define j where "j = (b_offset b + i) mod b_size b"
  have j: "j = (if b_offset b + i < b_size b then b_offset b + i else b_offset b + i - b_size b)"
    using assms(3,4) i by (simp add: j_def mod_if)
  have s: "store w ys buf ! k = (if w \<le> k \<and> k < w + length ys then ys ! (k - w) else buf ! k)" if "k < b_size b" for k
    using that assms(2,6) by (auto simp: store_def nth_append)
  have jl: "j < b_size b" using assms(3,4) i j by (auto split: if_splits)
  have l: "ring (b\<lparr>b_buf := Some (store w ys buf), b_len := b_len b + length ys\<rparr>) ! i = store w ys buf ! j"
    using i by (simp add: ring_def j_def)
  show "ring (b\<lparr>b_buf := Some (store w ys buf), b_len := b_len b + length ys\<rparr>) ! i = (ring b @ ys) ! i"
  proof (cases "i < b_len b")
    case True
    then have "\<not> (w \<le> j \<and> j < w + length ys)" using assms(3,4,6) j unfolding w_def by (auto split: if_splits)
    moreover have "ring b ! i = buf ! j" using True assms(1) by (simp add: ring_def j_def)
    ultimately show ?thesis using True s [OF jl] l by (auto simp: nth_append length_ring)
  next
    case False
    then obtain m where m: "i = b_len b + m" "m < length ys" using i by (metis add_less_cancel_left less_imp_add_positive linorder_neqE_nat nat_less_le add_0_right)
    have "j = w + m" using assms(3,4,6) m j unfolding w_def by (auto split: if_splits)
    then have "store w ys buf ! j = ys ! m" using s [OF jl] m(2) by simp
    then show ?thesis using l m(1) by (simp add: nth_append length_ring)
  qed
qed

lemma copy_out_ring:
  assumes "b_buf b = Some buf" and "length buf = b_size b" and "b_size b < 2 ^ 62" and "0 < n" and "n \<le> b_len b" and "b_len b \<le> b_size b"
    and "b_offset b < b_size b"
  shows "\<exists>off. copy_out buf n b = Some (take n (ring b), b\<lparr>b_len := b_len b - n, b_offset := off\<rparr>) \<and>
    ring (b\<lparr>b_len := b_len b - n, b_offset := off\<rparr>) = drop n (ring b) \<and> off < b_size b \<and> (b_len b = n \<longrightarrow> off = 0)"
proof -
  have one: "copy_out buf k c = Some (take k (ring c), c\<lparr>b_len := b_len c - k, b_offset := off\<rparr>) \<and>
      ring (c\<lparr>b_len := b_len c - k, b_offset := off\<rparr>) = drop k (ring c) \<and> off < b_size c \<and> (b_len c = k \<longrightarrow> off = 0)"
    if c: "b_buf c = Some buf" "b_size c = b_size b" "k \<le> b_len c" "b_len c \<le> b_size b" "b_offset c + k \<le> b_size b" "b_offset c < b_size b"
      and off: "off = (if b_len c = k \<or> b_offset c + k = b_size b then 0 else b_offset c + k)" for k c off
  proof (cases "k < b_len c")
    case True
    then have "ring c = take k (drop (b_offset c) buf) @ ring (c\<lparr>b_len := b_len c - k, b_offset := off\<rparr>)"
      using ring_chunk_out [of c buf k] c assms(2) off by simp
    moreover have "length (take k (drop (b_offset c) buf)) = k" using c assms(2) by simp
    ultimately show ?thesis
      using c assms(3) off True by (subst copy_out.simps) (auto simp: Let_def)
  next
    case False
    then have k: "b_len c = k" using c(3) by simp
    then show ?thesis
      using c assms(2,3) off ring_chunk_all [of c buf] by (subst copy_out.simps) (auto simp: Let_def ring_def)
  qed
  show ?thesis
  proof (cases "b_offset b + n \<le> b_size b")
    case True
    then show ?thesis using one [of b n, OF assms(1) refl assms(5,6) _ assms(7) refl] by blast
  next
    case False
    define k where "k = b_size b - b_offset b"
    have k: "0 < k" "k < n" "b_offset b + k = b_size b" using False assms(7) by (simp_all add: k_def)
    have ch: "(b_offset b + n) mod size_mod = b_offset b + n" "(b_size b + size_mod - b_offset b) mod size_mod = k"
      using assms(3,5,6,7) by (simp_all add: k_def mod_if)
    define c where "c = b\<lparr>b_len := b_len b - k, b_offset := 0\<rparr>"
    have r: "ring b = take k (drop (b_offset b) buf) @ ring c"
      using ring_chunk_out [of b buf k] k assms by (simp add: c_def)
    have lk: "length (take k (drop (b_offset b) buf)) = k" using assms(2) k(3) by simp
    have u: "copy_out buf n b = Option.bind (copy_out buf (n - k) c) (\<lambda>(more, c'). Some (take k (drop (b_offset b) buf) @ more, c'))"
    proof -
      have ck: "(if (b_offset b + n) mod size_mod \<le> b_size b then n else (b_size b + size_mod - b_offset b) mod size_mod) = k" using ch False by simp
      have c: "n - k \<noteq> 0" "b_len b - k \<noteq> 0" "n \<le> b_len b" "b_offset b + k \<le> b_size b" "b_offset b + k = b_size b" using k assms(5) by simp_all
      have "(n \<le> b_len b \<and> b_offset b + k \<le> b_size b \<and> (b_len b - k = 0 \<longrightarrow> k = n)) = True" "(b_len b - k \<noteq> 0) = True" "(n - k = 0) = False"
        using c by simp_all
      then show ?thesis unfolding copy_out.simps [of buf n b] Let_def ck c_def by (simp add: c)
    qed
    define off where "off = (if b_len c = n - k \<or> b_offset c + (n - k) = b_size b then 0 else b_offset c + (n - k))"
    have "copy_out buf (n - k) c = Some (take (n - k) (ring c), c\<lparr>b_len := b_len c - (n - k), b_offset := off\<rparr>) \<and>
      ring (c\<lparr>b_len := b_len c - (n - k), b_offset := off\<rparr>) = drop (n - k) (ring c) \<and> off < b_size c \<and> (b_len c = n - k \<longrightarrow> off = 0)"
      by (rule one) (use assms k off_def in \<open>auto simp: c_def\<close>)
    moreover have "c\<lparr>b_len := b_len c - (n - k), b_offset := off\<rparr> = b\<lparr>b_len := b_len b - n, b_offset := off\<rparr>" using k by (simp add: c_def)
    moreover have "take n (ring b) = take k (drop (b_offset b) buf) @ take (n - k) (ring c)" "drop n (ring b) = drop (n - k) (ring c)"
      unfolding r using lk k(2) by simp_all
    moreover have "b_size c = b_size b" "b_len c = n - k \<longleftrightarrow> b_len b = n" using k(1,2) assms(5) by (auto simp: c_def)
    ultimately show ?thesis unfolding u by (intro exI [of _ off]) simp
  qed
qed


lemma copy_in_ring:
  assumes "b_buf b = Some buf" and "length buf = b_size b" and "b_size b < 2 ^ 62" and "0 < n" and "b_len b + n \<le> b_size b"
    and "b_offset b < b_size b" and "n \<le> length inp"
  shows "\<exists>buf'. copy_in inp n buf b = Some (b\<lparr>b_buf := Some buf', b_len := b_len b + n\<rparr>) \<and> length buf' = b_size b \<and>
    ring (b\<lparr>b_buf := Some buf', b_len := b_len b + n\<rparr>) = ring b @ take n inp"
proof -
  define w where "w c = (if b_offset c + b_len c \<ge> b_size c then b_offset c + b_len c - b_size c else b_offset c + b_len c)" for c :: bio_bio_st
  have wm: "(let write_offset = (b_offset c + b_len c) mod size_mod in
      if write_offset \<ge> b_size c then write_offset - b_size c else write_offset) = w c" if "b_size c = b_size b" "b_len c \<le> b_size b" "b_offset c < b_size b" for c
    using that assms(3) by (simp add: w_def Let_def)
  have one: "copy_in ip k bf c = Some (c\<lparr>b_buf := Some (store (w c) (take k ip) bf), b_len := b_len c + k\<rparr>) \<and>
      ring (c\<lparr>b_buf := Some (store (w c) (take k ip) bf), b_len := b_len c + k\<rparr>) = ring c @ take k ip"
    if c: "b_buf c = Some bf" "length bf = b_size b" "b_size c = b_size b" "b_len c + k \<le> b_size b" "b_offset c < b_size b" "w c + k \<le> b_size b"
      "k \<le> length ip" for c bf k ip
  proof -
    have lk: "length (take k ip) = k" using c(7) by simp
    have ck: "(if (w c + k) mod size_mod \<le> b_size c then k else (b_size c + size_mod - w c) mod size_mod) = k" using c(3,6) assms(3) by simp
    have bl: "b_len c \<le> b_size b" using c(4) by simp
    have "copy_in ip k bf c = Some (c\<lparr>b_buf := Some (store (w c) (take k ip) bf), b_len := b_len c + k\<rparr>)"
      unfolding copy_in.simps [of ip k bf c] wm [OF c(3) bl c(5), unfolded Let_def] Let_def ck using c(3,4) by simp
    then show ?thesis
      using ring_chunk_in [of c bf "take k ip"] c unfolding lk w_def by simp
  qed
  show ?thesis
  proof (cases "w b + n \<le> b_size b")
    case True
    then have "length (store (w b) (take n inp) buf) = b_size b" using assms(2,7) by (subst length_store) auto
    then show ?thesis using one [of b buf n inp] assms True by auto
  next
    case False
    define k where "k = b_size b - w b"
    have wb: "w b < b_size b" "w b = b_offset b + b_len b" using False assms(4-6) by (auto simp: w_def split: if_splits)
    have k: "0 < k" "k < n" "w b + k = b_size b" using False wb(1) by (simp_all add: k_def)
    define buf' where "buf' = store (w b) (take k inp) buf"
    define c where "c = b\<lparr>b_buf := Some buf', b_len := b_len b + k\<rparr>"
    have lk: "length (take k inp) = k" using k(2) assms(7) by simp
    have lb: "length buf' = b_size b" unfolding buf'_def using assms(2) k(3) lk by (subst length_store) auto
    have rc: "ring c = ring b @ take k inp"
      using ring_chunk_in [of b buf "take k inp"] assms k wb unfolding lk c_def buf'_def w_def by simp
    have ck: "(if (w b + n) mod size_mod \<le> b_size b then n else (b_size b + size_mod - w b) mod size_mod) = k"
      using False wb(1) assms(3,5) by (simp add: k_def mod_if)
    have bl: "b_len b \<le> b_size b" using assms(5) by simp
    have cs: "b_len b + n \<le> b_size b" "b_len b + k \<le> b_size b" "n - k \<noteq> 0" using assms(5) k by simp_all
    have u: "copy_in inp n buf b = copy_in (drop k inp) (n - k) buf' c"
      unfolding copy_in.simps [of inp n buf b] wm [OF refl bl assms(6), unfolded Let_def] Let_def ck c_def buf'_def using cs by simp
    have wc: "w c = 0" using k(3) wb(2) by (simp add: w_def c_def)
    have "copy_in (drop k inp) (n - k) buf' c = Some (c\<lparr>b_buf := Some (store (w c) (take (n - k) (drop k inp)) buf'), b_len := b_len c + (n - k)\<rparr>) \<and>
      ring (c\<lparr>b_buf := Some (store (w c) (take (n - k) (drop k inp)) buf'), b_len := b_len c + (n - k)\<rparr>) = ring c @ take (n - k) (drop k inp)"
      by (rule one) (use assms k lb wc in \<open>auto simp: c_def\<close>)
    moreover have "take k inp @ take (n - k) (drop k inp) = take n inp" using k(2) by (simp add: take_add [symmetric])
    moreover have "length (store (w c) (take (n - k) (drop k inp)) buf') = b_size b"
      using lb wc assms(5,7) by (subst length_store) auto
    ultimately show ?thesis
      using k(2) unfolding u rc
      by (intro exI [of _ "store (w c) (take (n - k) (drop k inp)) buf'"]) (simp add: c_def)
  qed
qed


section \<open>Pairs\<close>

definition side_ok :: "side \<Rightarrow> pair_bio \<Rightarrow> bool" where
  "side_ok x p \<longleftrightarrow> bio_init (pair_hdr p) \<and> (\<exists>b. pair_ptr p = Some b \<and> b_peer b = Some (other x) \<and> ring_ok b)"

text \<open>Two BIOs that are joined.\<close>

definition pair_ok :: "pair_store \<Rightarrow> bool" where
  "pair_ok s \<longleftrightarrow> (\<forall>x. side_ok x (s x))"

text \<open>What a pair is for its client: two bounded queues of bytes, each of which may be shut.\<close>

record channel =
  ch_queue :: "u8 list"
  ch_shut :: bool
  ch_cap :: nat

definition channel_of :: "pair_bio \<Rightarrow> channel" where
  "channel_of p = (case pair_ptr p of
      None \<Rightarrow> \<lparr>ch_queue = [], ch_shut = True, ch_cap = 0\<rparr>
    | Some b \<Rightarrow> \<lparr>ch_queue = ring b, ch_shut = b_closed b, ch_cap = b_size b\<rparr>)"

definition channels :: "pair_store \<Rightarrow> side \<Rightarrow> channel" where
  "channels s = channel_of \<circ> s"

lemma other_neq [simp]: "other x \<noteq> x" "x \<noteq> other x" "other (other x) = x"
  by (cases x; simp)+

lemma side_cases: "y = x \<or> y = other x"
  by (cases x; cases y) simp_all

lemma pair_ok_sides: "pair_ok s \<longleftrightarrow> side_ok x (s x) \<and> side_ok (other x) (s (other x))"
  unfolding pair_ok_def using side_cases [of _ x] by metis

lemma pair_okE:
  assumes "pair_ok s"
  obtains b buf where "bio_init (pair_hdr (s x))" "pair_ptr (s x) = Some b" "b_peer b = Some (other x)" "ring_ok b" "b_buf b = Some buf"
    "length buf = b_size b" "b_size b < 2 ^ 62" "b_len b \<le> b_size b" "b_offset b < b_size b"
proof -
  obtain b where b: "bio_init (pair_hdr (s x))" "pair_ptr (s x) = Some b" "b_peer b = Some (other x)" "ring_ok b"
    using assms by (auto simp: pair_ok_def side_ok_def)
  moreover from b(4) obtain buf where "b_buf b = Some buf" by (auto simp: ring_ok_def split: option.splits)
  ultimately show thesis using that b(4) by (simp add: ring_ok_def)
qed

lemma ring_request [simp]: "ring (b\<lparr>b_request := r\<rparr>) = ring b"
  by (simp add: ring_def)

lemma channels_upd: "channels (s(x := p)) = (channels s)(x := channel_of p)"
  by (auto simp: channels_def)

lemma channel_of_hdr [simp]: "channel_of (p\<lparr>pair_hdr := h\<rparr>) = channel_of p"
  by (simp add: channel_of_def)

lemma channels_same: "channel_of p = channels s x \<Longrightarrow> (channels s)(x := channel_of p) = channels s"
  by (simp add: fun_upd_idem)

lemma signed_31: "0 \<le> n \<Longrightarrow> n \<le> INT_MAX \<Longrightarrow> signed_take_bit 31 n = n"
  by (simp add: signed_take_bit_int_eq_self)

lemma pair_read:
  fixes x :: side
  assumes "pair_ok s" and "0 < n" and "n \<le> INT_MAX"
  defines "c \<equiv> channels s (other x)"
  shows "\<exists>s'. bio_read x s n =
      Some (if ch_queue c = [] then (if ch_shut c then 0 else - 1) else int (length (take (nat n) (ch_queue c))), take (nat n) (ch_queue c), s') \<and>
    pair_ok s' \<and> channels s' = (channels s)(other x := c\<lparr>ch_queue := drop (nat n) (ch_queue c)\<rparr>)"
proof -
  obtain b buf where b: "bio_init (pair_hdr (s x))" "pair_ptr (s x) = Some b" "b_peer b = Some (other x)" "ring_ok b" "b_buf b = Some buf"
    using pair_okE [OF assms(1), of x] by metis
  obtain p pbuf where p: "bio_init (pair_hdr (s (other x)))" "pair_ptr (s (other x)) = Some p" "b_peer p = Some x" "ring_ok p" "b_buf p = Some pbuf"
    "length pbuf = b_size p" "b_size p < 2 ^ 62" "b_len p \<le> b_size p" "b_offset p < b_size p"
    using pair_okE [OF assms(1), of "other x"] by (metis other_neq(3))
  have c: "c = \<lparr>ch_queue = ring p, ch_shut = b_closed p, ch_cap = b_size p\<rparr>" using p(2) by (simp add: c_def channels_def channel_of_def)
  have n: "nat (n mod int size_mod) = nat n" "nat n \<noteq> 0" using assms(2,3) by simp_all
  define s1 where "s1 = upd_hdr x BIO_clear_retry_flags s"
  have i: "bio_init (BIO_clear_retry_flags h) = bio_init h" "bio_init (BIO_set_retry_read h) = bio_init h" for h
    by (simp_all add: BIO_clear_retry_flags_def BIO_set_retry_read_def)
  have s1: "bio_init (pair_hdr (s1 x))" "Option.bind (pair_ptr (s1 x)) b_peer = Some (other x)" "pair_ptr (s1 (other x)) = Some p"
    using b p by (simp_all add: s1_def i)
  have r: "bio_read x s n =
      (let peer_b = p\<lparr>b_request := 0\<rparr> in
          if b_len peer_b = 0 then
            if b_closed peer_b then Some (0, [], put_ptr (other x) peer_b s1)
            else
              let s = upd_hdr x BIO_set_retry_read s1
              in Some (- 1, [], put_ptr (other x) (peer_b\<lparr>b_request := (if nat n \<le> b_size peer_b then nat n else b_size peer_b)\<rparr>) s)
          else
            let sz = (if b_len peer_b < nat n then b_len peer_b else nat n) in
     (case copy_out pbuf sz peer_b of
        None \<Rightarrow> None
      | Some (out, peer_b) \<Rightarrow> Some (signed_take_bit 31 (int sz), out, put_ptr (other x) peer_b s1)))"
    unfolding bio_read_def s1_def [symmetric] Let_def s1 p(5) option.case n(1) using n(2) s1(1) by simp
  have sx: "side_ok x (s x)" "side_ok (other x) (s (other x))" using assms(1) pair_ok_sides by blast+
  show ?thesis
  proof (cases "b_len p = 0")
    case True
    then have q: "ring p = []" by (simp add: ring_empty)
    have "ring_ok (p\<lparr>b_request := r\<rparr>)" if "r \<le> b_size p" for r using p(4) True that by (simp add: ring_ok_def split: option.splits)
    then have ok: "pair_ok (put_ptr (other x) (p\<lparr>b_request := r\<rparr>) (upd_hdr x f s))" if "r \<le> b_size p" "bio_init (f (pair_hdr (s x)))" for r f
      using that sx p(1,3) unfolding pair_ok_sides [of _ x] by (simp add: side_ok_def)
    have ch: "channels (put_ptr (other x) (p\<lparr>b_request := r\<rparr>) (upd_hdr x f s)) = channels s" for r f
      using p(2) by (auto simp: channels_def channel_of_def)
    have "(channels s)(other x := c\<lparr>ch_queue := drop (nat n) (ch_queue c)\<rparr>) = channels s" by (simp add: c q c_def [symmetric]) (simp add: c_def [symmetric] c q fun_upd_idem)
    then show ?thesis
      using ok [where r = 0 and f = BIO_clear_retry_flags] ok [where r = "if nat n \<le> b_size p then nat n else b_size p" and f = "\<lambda>h. BIO_set_retry_read (BIO_clear_retry_flags h)"]
        ch [where r = 0 and f = BIO_clear_retry_flags] ch [where f = "\<lambda>h. BIO_set_retry_read (BIO_clear_retry_flags h)"] True q b(1)
      unfolding r by (auto simp: Let_def s1_def i c)
  next
    case False
    define k where "k = (if b_len p < nat n then b_len p else nat n)"
    have k: "0 < k" "k \<le> b_len p" "int k \<le> INT_MAX" using False n(2) assms(2,3) by (auto simp: k_def)
    obtain off where o: "copy_out pbuf k (p\<lparr>b_request := 0\<rparr>) = Some (take k (ring p), p\<lparr>b_request := 0, b_len := b_len p - k, b_offset := off\<rparr>)"
      "ring (p\<lparr>b_request := 0, b_len := b_len p - k, b_offset := off\<rparr>) = drop k (ring p)" "off < b_size p" "b_len p = k \<longrightarrow> off = 0"
      using copy_out_ring [of "p\<lparr>b_request := 0\<rparr>" pbuf k] p k by auto
    have ok: "ring_ok (p\<lparr>b_request := 0, b_len := b_len p - k, b_offset := off\<rparr>)" using p o(3,4) k by (auto simp: ring_ok_def)
    have tk: "take k (ring p) = take (nat n) (ring p)" "drop k (ring p) = drop (nat n) (ring p)" "length (take (nat n) (ring p)) = k" "ring p \<noteq> []"
      using False by (auto simp: k_def length_ring min_def ring_empty)
    have "bio_read x s n = Some (int k, take (nat n) (ring p), put_ptr (other x) (p\<lparr>b_request := 0, b_len := b_len p - k, b_offset := off\<rparr>) s1)"
    proof -
      have "(if b_len (p\<lparr>b_request := 0\<rparr>) < nat n then b_len (p\<lparr>b_request := 0\<rparr>) else nat n) = k" by (simp add: k_def)
      then show ?thesis unfolding r Let_def using False k(3) o(1) tk(1) by (simp add: signed_31)
    qed
    moreover have "pair_ok (put_ptr (other x) (p\<lparr>b_request := 0, b_len := b_len p - k, b_offset := off\<rparr>) s1)"
      using sx p(1,3) ok unfolding pair_ok_sides [of _ x] by (simp add: side_ok_def s1_def i)
    moreover have "channels (put_ptr (other x) (p\<lparr>b_request := 0, b_len := b_len p - k, b_offset := off\<rparr>) s1) =
        (channels s)(other x := c\<lparr>ch_queue := drop (nat n) (ch_queue c)\<rparr>)"
      using o(2) tk(2) by (auto simp: channels_def channel_of_def s1_def c)
    ultimately show ?thesis using tk(3,4) by (simp add: c)
  qed
qed


lemma pair_write:
  fixes x :: side
  assumes "pair_ok s" and "d \<noteq> []" and "int (length d) \<le> INT_MAX"
  defines "c \<equiv> channels s x" and "k \<equiv> min (length d) (ch_cap (channels s x) - length (ch_queue (channels s x)))"
  shows "\<exists>s'. bio_write x s d (int (length d)) = Some (if ch_shut c \<or> k = 0 then - 1 else int k, s') \<and> pair_ok s' \<and>
    channels s' = (channels s)(x := (if ch_shut c then c else c\<lparr>ch_queue := ch_queue c @ take k d\<rparr>))"
proof -
  obtain b buf where b: "bio_init (pair_hdr (s x))" "pair_ptr (s x) = Some b" "b_peer b = Some (other x)" "ring_ok b" "b_buf b = Some buf"
    "length buf = b_size b" "b_size b < 2 ^ 62" "b_len b \<le> b_size b" "b_offset b < b_size b"
    using pair_okE [OF assms(1), of x] by metis
  have c: "c = \<lparr>ch_queue = ring b, ch_shut = b_closed b, ch_cap = b_size b\<rparr>" using b(2) by (simp add: c_def channels_def channel_of_def)
  have k: "k = min (length d) (b_size b - b_len b)" unfolding k_def c_def [symmetric] by (simp add: c length_ring)
  have n: "nat (int (length d) mod int size_mod) = length d" "length d \<noteq> 0" using assms(2,3) by simp_all
  define s1 where "s1 = upd_hdr x BIO_clear_retry_flags s"
  have i: "bio_init (BIO_clear_retry_flags h) = bio_init h" "bio_init (BIO_set_retry_write h) = bio_init h" for h
    by (simp_all add: BIO_clear_retry_flags_def BIO_set_retry_write_def)
  have s1: "bio_init (pair_hdr (s1 x)) = True" "pair_ptr (s1 x) = Some b" using b by (simp_all add: s1_def i)
  have r: "bio_write x s d (int (length d)) =
     (let b = b\<lparr>b_request := 0\<rparr> in
      if b_closed b then Some (- 1, put_ptr x b s1)
      else if \<not> b_len b \<le> b_size b then None
      else if b_len b = b_size b then Some (- 1, put_ptr x b (upd_hdr x BIO_set_retry_write s1))
      else
        let n = (if length d > b_size b - b_len b then b_size b - b_len b else length d)
        in map_option (\<lambda>b. (signed_take_bit 31 (int n), put_ptr x b s1)) (copy_in d n buf b))"
    unfolding bio_write_def s1_def [symmetric] Let_def s1 n(1) b(3,5) option.case prod.case using n(2) by simp
  have sx: "side_ok (other x) (s (other x))" using assms(1) pair_ok_sides by blast
  have ok0: "ring_ok (b\<lparr>b_request := 0\<rparr>)" using b(4) by (simp add: ring_ok_def split: option.splits)
  have ok: "pair_ok (put_ptr x b' (upd_hdr x f s))" if "ring_ok b'" "b_peer b' = Some (other x)" "bio_init (f (pair_hdr (s x)))" for b' f
    using that sx unfolding pair_ok_sides [of _ x] by (simp add: side_ok_def)
  have ch: "channels (put_ptr x b' (upd_hdr x f s)) = (channels s)(x := \<lparr>ch_queue = ring b', ch_shut = b_closed b', ch_cap = b_size b'\<rparr>)" for b' f
    by (auto simp: channels_def channel_of_def)
  consider (shut) "b_closed b" | (full) "\<not> b_closed b" "b_len b = b_size b" | (room) "\<not> b_closed b" "b_len b < b_size b" using b(8) by linarith
  then show ?thesis
  proof cases
    case shut
    then show ?thesis
      using ok [OF ok0, of BIO_clear_retry_flags] ch [where b' = "b\<lparr>b_request := 0\<rparr>" and f = BIO_clear_retry_flags] b(1,3) unfolding r by (simp add: s1_def i c)
  next
    case full
    then have "k = 0" by (simp add: k)
    then show ?thesis
      using full ok [OF ok0, of "\<lambda>h. BIO_set_retry_write (BIO_clear_retry_flags h)"]
        ch [where b' = "b\<lparr>b_request := 0\<rparr>" and f = "\<lambda>h. BIO_set_retry_write (BIO_clear_retry_flags h)"] b(1,3) unfolding r by (simp add: s1_def i c)
  next
    case room
    then have kp: "0 < k" "int k \<le> INT_MAX" "b_len b + k \<le> b_size b" "k \<le> length d" using assms(2,3) by (auto simp: k)
    obtain buf' where o: "copy_in d k buf (b\<lparr>b_request := 0\<rparr>) = Some (b\<lparr>b_request := 0, b_buf := Some buf', b_len := b_len b + k\<rparr>)" "length buf' = b_size b"
      "ring (b\<lparr>b_request := 0, b_buf := Some buf', b_len := b_len b + k\<rparr>) = ring b @ take k d"
      using copy_in_ring [of "b\<lparr>b_request := 0\<rparr>" buf k d] b kp by auto
    have rk: "ring_ok (b\<lparr>b_request := 0, b_buf := Some buf', b_len := b_len b + k\<rparr>)" using b(7,9) o(2) kp by (simp add: ring_ok_def)
    have kk: "(if length d > b_size (b\<lparr>b_request := 0\<rparr>) - b_len (b\<lparr>b_request := 0\<rparr>) then b_size (b\<lparr>b_request := 0\<rparr>) - b_len (b\<lparr>b_request := 0\<rparr>) else length d) = k"
      by (simp add: k min_def)
    have "bio_write x s d (int (length d)) = Some (int k, put_ptr x (b\<lparr>b_request := 0, b_buf := Some buf', b_len := b_len b + k\<rparr>) s1)"
      unfolding r Let_def kk using room o(1) kp(2) by (simp add: signed_31)
    then show ?thesis
      using ok [OF rk, of BIO_clear_retry_flags] ch [where b' = "b\<lparr>b_request := 0, b_buf := Some buf', b_len := b_len b + k\<rparr>" and f = BIO_clear_retry_flags] b(1,3) room(1) kp(1) o(3)
      by (simp add: s1_def i c)
  qed
qed

lemma pair_counted:
  "pair_ok (s(x := (s x)\<lparr>pair_hdr := (pair_hdr (s x))\<lparr>bio_num_read := v\<rparr>\<rparr>)) = pair_ok s"
  "pair_ok (s(x := (s x)\<lparr>pair_hdr := (pair_hdr (s x))\<lparr>bio_num_write := v\<rparr>\<rparr>)) = pair_ok s"
  "channels (s(x := (s x)\<lparr>pair_hdr := h\<rparr>)) = channels s"
  unfolding pair_ok_sides [of _ x] by (auto simp: side_ok_def channels_def)

lemma pair_ok_init: "pair_ok s \<Longrightarrow> bio_init (pair_hdr (s x))"
  by (simp add: pair_ok_def side_ok_def)

lemma pair_BIO_read:
  fixes x :: side
  assumes "pair_ok s" and "0 < n" and "n \<le> INT_MAX"
  defines "c \<equiv> channels s (other x)"
  shows "\<exists>s'. BIO_read (methods_biop x) n s =
      Some (if ch_queue c = [] then (if ch_shut c then 0 else - 1) else int (length (take (nat n) (ch_queue c))), take (nat n) (ch_queue c), s') \<and>
    pair_ok s' \<and> channels s' = (channels s)(other x := c\<lparr>ch_queue := drop (nat n) (ch_queue c)\<rparr>)"
  using pair_read [OF assms(1-3), of x, folded c_def] assms(2) pair_ok_init [OF assms(1), of x]
  by (auto simp: BIO_read_def methods_biop_def Let_def pair_counted)

lemma pair_BIO_write:
  fixes x :: side
  assumes "pair_ok s" and "d \<noteq> []" and "int (length d) \<le> INT_MAX"
  defines "c \<equiv> channels s x" and "k \<equiv> min (length d) (ch_cap (channels s x) - length (ch_queue (channels s x)))"
  shows "\<exists>s'. BIO_write (methods_biop x) d (int (length d)) s = Some (if ch_shut c \<or> k = 0 then - 1 else int k, s') \<and> pair_ok s' \<and>
    channels s' = (channels s)(x := (if ch_shut c then c else c\<lparr>ch_queue := ch_queue c @ take k d\<rparr>))"
  using pair_write [OF assms(1-3), of x, folded c_def, folded k_def] assms(2) pair_ok_init [OF assms(1), of x]
  by (auto simp: BIO_write_def methods_biop_def Let_def pair_counted k_def c_def)

interpretation pair_source: bio_source "methods_biop x" pair_ok "\<lambda>s. ch_queue (channels s (other x))" "\<lambda>s. ch_shut (channels s (other x))" for x
proof
  fix s :: pair_store and n :: int
  assume a: "pair_ok s" "0 < n" "n \<le> INT_MAX" "ch_queue (channels s (other x)) \<noteq> []"
  have m: "take (min (length q) (nat n)) q = take (nat n) q" "drop (min (length q) (nat n)) q = drop (nat n) q" for q :: "u8 list"
    by (auto simp: min_def)
  show "\<exists>k s'. BIO_read (methods_biop x) n s = Some (int k, take k (ch_queue (channels s (other x))), s') \<and> 0 < k \<and> int k \<le> n \<and>
      k \<le> length (ch_queue (channels s (other x))) \<and> pair_ok s' \<and>
      ch_queue (channels s' (other x)) = drop k (ch_queue (channels s (other x))) \<and> ch_shut (channels s' (other x)) = ch_shut (channels s (other x))"
    using pair_BIO_read [OF a(1-3), of x] a(2,4)
    by (intro exI [of _ "min (length (ch_queue (channels s (other x)))) (nat n)"]) (auto simp: m)
next
  fix s :: pair_store and n :: int
  assume a: "pair_ok s" "0 < n" "n \<le> INT_MAX" "ch_queue (channels s (other x)) = []"
  then show "\<exists>s'. BIO_read (methods_biop x) n s = Some (if ch_shut (channels s (other x)) then 0 else - 1, [], s') \<and> pair_ok s' \<and>
      ch_queue (channels s' (other x)) = [] \<and> ch_shut (channels s' (other x)) = ch_shut (channels s (other x))"
    using pair_BIO_read [OF a(1-3), of x] by auto
qed


section \<open>Channels\<close>

text \<open>Calls on a pair, in the order in which its two ends make them, and what they return.\<close>

datatype pair_op = Pair_write side "u8 list" | Pair_read side int | Pair_shutdown side | Pair_pending side | Pair_guarantee side

definition pair_step :: "pair_op \<Rightarrow> pair_store \<Rightarrow> ((int \<times> u8 list) \<times> pair_store) option" where
  "pair_step a s =
     (case a of
        Pair_write x d \<Rightarrow> map_option (\<lambda>(ret, s). ((ret, []), s)) (BIO_write (methods_biop x) d (int (length d)) s)
      | Pair_read x n \<Rightarrow> map_option (\<lambda>(ret, out, s). ((ret, out), s)) (BIO_read (methods_biop x) n s)
      | Pair_shutdown x \<Rightarrow> map_option (\<lambda>(ret, s). ((ret, []), s)) (BIO_shutdown_wr x s)
      | Pair_pending x \<Rightarrow> map_option (\<lambda>n. ((int n, []), s)) (BIO_pending (methods_biop x) s)
      | Pair_guarantee x \<Rightarrow> map_option (\<lambda>(ret, s). ((ret, []), s)) (BIO_ctrl_get_write_guarantee x s))"

fun pair_run :: "pair_op list \<Rightarrow> pair_store \<Rightarrow> ((int \<times> u8 list) list \<times> pair_store) option" where
  "pair_run [] s = Some ([], s)"
| "pair_run (a # as) s =
     (case pair_step a s of
        None \<Rightarrow> None
      | Some (r, s) \<Rightarrow> map_option (\<lambda>(rs, s). (r # rs, s)) (pair_run as s))"

text \<open>The same on two bounded queues: as much is written as there is room for.\<close>

definition channel_step :: "pair_op \<Rightarrow> (side \<Rightarrow> channel) \<Rightarrow> (int \<times> u8 list) \<times> (side \<Rightarrow> channel)" where
  "channel_step a c =
     (case a of
        Pair_write x d \<Rightarrow>
          let k = min (length d) (ch_cap (c x) - length (ch_queue (c x))) in
          if d = [] then ((0, []), c)
          else if ch_shut (c x) \<or> k = 0 then ((- 1, []), c)
          else ((int k, []), c(x := (c x)\<lparr>ch_queue := ch_queue (c x) @ take k d\<rparr>))
      | Pair_read x n \<Rightarrow>
          let q = ch_queue (c (other x)) in
          if n \<le> 0 then ((0, []), c)
          else if q = [] then ((if ch_shut (c (other x)) then 0 else - 1, []), c)
          else ((int (length (take (nat n) q)), take (nat n) q), c(other x := (c (other x))\<lparr>ch_queue := drop (nat n) q\<rparr>))
      | Pair_shutdown x \<Rightarrow> ((1, []), c(x := (c x)\<lparr>ch_shut := True\<rparr>))
      | Pair_pending x \<Rightarrow> ((int (length (ch_queue (c (other x)))), []), c)
      | Pair_guarantee x \<Rightarrow> ((if ch_shut (c x) then 0 else int (ch_cap (c x)) - int (length (ch_queue (c x))), []), c))"

fun channel_run :: "pair_op list \<Rightarrow> (side \<Rightarrow> channel) \<Rightarrow> (int \<times> u8 list) list \<times> (side \<Rightarrow> channel)" where
  "channel_run [] c = ([], c)"
| "channel_run (a # as) c = (case channel_step a c of (r, c) \<Rightarrow> (case channel_run as c of (rs, c) \<Rightarrow> (r # rs, c)))"

fun in_int :: "pair_op \<Rightarrow> bool" where
  "in_int (Pair_write _ d) \<longleftrightarrow> int (length d) \<le> INT_MAX"
| "in_int (Pair_read _ n) \<longleftrightarrow> n \<le> INT_MAX"
| "in_int _ \<longleftrightarrow> True"

lemma channel_other: "pair_ptr (s x) = Some b \<Longrightarrow> channels s x = \<lparr>ch_queue = ring b, ch_shut = b_closed b, ch_cap = b_size b\<rparr>"
  by (simp add: channels_def channel_of_def)

lemma pair_step_channel:
  assumes "pair_ok s" and "in_int a"
  shows "\<exists>r s'. pair_step a s = Some (r, s') \<and> pair_ok s' \<and> (r, channels s') = channel_step a (channels s)"
proof (cases a)
  case (Pair_write x d)
  show ?thesis
  proof (cases "d = []")
    case True
    then show ?thesis
      using Pair_write assms(1) pair_ok_init [OF assms(1), of x] by (simp add: pair_step_def channel_step_def BIO_write_def methods_biop_def)
  next
    case False
    have "int (length d) \<le> INT_MAX" using assms(2) Pair_write by simp
    from pair_BIO_write [OF assms(1) False this, of x] show ?thesis
      using Pair_write False by (auto simp: pair_step_def channel_step_def Let_def fun_upd_idem)
  qed
next
  case (Pair_read x n)
  show ?thesis
  proof (cases "n \<le> 0")
    case True
    then show ?thesis
      using Pair_read assms(1) pair_ok_init [OF assms(1), of x] by (simp add: pair_step_def channel_step_def BIO_read_def methods_biop_def)
  next
    case False
    then have "0 < n" "n \<le> INT_MAX" using assms(2) Pair_read by simp_all
    have same: "(channels s)(other x := (channels s (other x))\<lparr>ch_queue := []\<rparr>) = channels s" if "ch_queue (channels s (other x)) = []"
      using that by (intro fun_upd_idem) simp
    from pair_BIO_read [OF assms(1) \<open>0 < n\<close> \<open>n \<le> INT_MAX\<close>, of x] show ?thesis
      using Pair_read False same by (auto simp: pair_step_def channel_step_def Let_def)
  qed
next
  case (Pair_shutdown x)
  obtain b buf where b: "bio_init (pair_hdr (s x))" "pair_ptr (s x) = Some b" "b_peer b = Some (other x)" "ring_ok b"
    using pair_okE [OF assms(1), of x] by metis
  have st: "pair_step a s = Some ((1, []), put_ptr x (b\<lparr>b_closed := True\<rparr>) s)"
    using Pair_shutdown b by (simp add: pair_step_def BIO_shutdown_wr_def BIO_ctrl_def methods_biop_def bio_ctrl_def)
  have "ring (b\<lparr>b_closed := True\<rparr>) = ring b" by (simp add: ring_def)
  moreover have "ring_ok (b\<lparr>b_closed := True\<rparr>)" using b(4) by (simp add: ring_ok_def split: option.splits)
  moreover have "side_ok (other x) (s (other x))" using assms(1) pair_ok_sides by blast
  ultimately show ?thesis
    using st b Pair_shutdown unfolding pair_ok_sides [of _ x]
    by (simp add: side_ok_def channel_step_def channels_upd channel_other) (simp add: channel_of_def)
next
  case (Pair_pending x)
  obtain b where b: "pair_ptr (s x) = Some b" "b_peer b = Some (other x)" using pair_okE [OF assms(1), of x] by metis
  obtain p where p: "pair_ptr (s (other x)) = Some p" using pair_okE [OF assms(1), of "other x"] by metis
  show ?thesis
    using Pair_pending assms(1) b p
    by (simp add: pair_step_def BIO_pending_def BIO_ctrl_def methods_biop_def bio_ctrl_def channel_step_def channel_other length_ring)
next
  case (Pair_guarantee x)
  obtain b where b: "pair_ptr (s x) = Some b" "b_peer b = Some (other x)" "b_len b \<le> b_size b" using pair_okE [OF assms(1), of x] by metis
  show ?thesis
    using Pair_guarantee assms(1) b
    by (simp add: pair_step_def BIO_ctrl_get_write_guarantee_def BIO_ctrl_def methods_biop_def bio_ctrl_def channel_step_def channel_other length_ring)
qed

text \<open>C20. A pair of BIOs is two bounded queues of bytes, one in each direction, that may be shut: whatever its two ends write, read, shut and
  ask for, in any order, every call returns what it does on the queues, no assertion of the code fails, and the ring buffers stay well formed.\<close>

theorem pair_channel:
  assumes "pair_ok s" and "\<forall>a \<in> set as. in_int a"
  shows "\<exists>rs s'. pair_run as s = Some (rs, s') \<and> pair_ok s' \<and> (rs, channels s') = channel_run as (channels s)"
  using assms
proof (induction "as" arbitrary: s)
  case (Cons a "as")
  obtain r s1 where s1: "pair_step a s = Some (r, s1)" "pair_ok s1" "(r, channels s1) = channel_step a (channels s)"
    using pair_step_channel [of s a] Cons.prems by auto
  obtain rs s' where "pair_run as s1 = Some (rs, s')" "pair_ok s'" "(rs, channels s') = channel_run as (channels s1)"
    using Cons.IH [OF s1(2)] Cons.prems(2) by auto
  then show ?case using s1(1) by (auto simp: s1(3) [symmetric] split: prod.split)
qed simp

text \<open>A pair with rings of four bytes.\<close>

definition small_pair :: pair_store where
  "small_pair x = \<lparr>pair_hdr = BIO_zeroed\<lparr>bio_init := True\<rparr>, pair_ptr = Some \<lparr>b_peer = Some (other x), b_closed = False, b_len = 0, b_offset = 0,
     b_size = 4, b_buf = Some [0, 0, 0, 0], b_request = 0\<rparr>\<rparr>"

lemma small_pair: "pair_ok small_pair"
  by (simp add: pair_ok_def side_ok_def ring_ok_def small_pair_def)

lemma pair_channel_witness:
  "\<exists>s'. pair_run [Pair_write Bio1 [1, 2, 3], Pair_read Bio2 2, Pair_write Bio1 [4, 5, 6, 7], Pair_read Bio2 9, Pair_shutdown Bio1, Pair_read Bio2 1] small_pair =
     Some ([(3, []), (2, [1, 2]), (3, []), (4, [3, 4, 5, 6]), (1, []), (0, [])], s')"
proof -
  obtain rs s' where r: "pair_run [Pair_write Bio1 [1, 2, 3], Pair_read Bio2 2, Pair_write Bio1 [4, 5, 6, 7], Pair_read Bio2 9, Pair_shutdown Bio1, Pair_read Bio2 1] small_pair =
      Some (rs, s')" "(rs, channels s') = channel_run [Pair_write Bio1 [1, 2, 3], Pair_read Bio2 2, Pair_write Bio1 [4, 5, 6, 7], Pair_read Bio2 9, Pair_shutdown Bio1, Pair_read Bio2 1]
      (channels small_pair)"
    using pair_channel [OF small_pair, of "[Pair_write Bio1 [1, 2, 3], Pair_read Bio2 2, Pair_write Bio1 [4, 5, 6, 7], Pair_read Bio2 9, Pair_shutdown Bio1, Pair_read Bio2 1]"]
    by auto
  have "channels small_pair = (\<lambda>x. \<lparr>ch_queue = [], ch_shut = False, ch_cap = 4\<rparr>)"
    by (simp add: channels_def channel_of_def small_pair_def ring_def fun_eq_iff)
  then show ?thesis using r by (simp add: channel_step_def)
qed

section \<open>Making and freeing pairs\<close>

definition buf_size :: "nat \<Rightarrow> nat" where
  "buf_size n = (if n = 0 then 17 * 1024 else n)"

text \<open>A BIO as \<open>BIO_new\<close> makes it, one whose ring has been allocated, and the end of a pair.\<close>

definition fresh_st :: bio_bio_st where
  "fresh_st = \<lparr>b_peer = None, b_closed = False, b_len = 0, b_offset = 0, b_size = 17 * 1024, b_buf = None, b_request = 0\<rparr>"

definition fresh_bio :: pair_bio where
  "fresh_bio = \<lparr>pair_hdr = BIO_zeroed, pair_ptr = Some fresh_st\<rparr>"

definition joined_end :: "side \<Rightarrow> nat \<Rightarrow> u8 list \<Rightarrow> pair_bio" where
  "joined_end peer n buf = fresh_bio\<lparr>pair_ptr := Some (fresh_st\<lparr>b_size := buf_size n, b_buf := Some buf, b_peer := Some peer, b_closed := False, b_request := 0\<rparr>),
     pair_hdr := BIO_zeroed\<lparr>bio_init := True\<rparr>\<rparr>"

lemma BIO_new_bio:
  "BIO_new_bio m = (if OPENSSL_malloc (m 0) 72 = None \<or> OPENSSL_malloc (m 1) 56 = None then None else Some fresh_bio)"
  by (simp add: BIO_new_bio_def bio_new_def OPENSSL_zalloc_def fresh_bio_def fresh_st_def split: option.split)

lemma pair_buf_fresh:
  "pair_buf m n fresh_st = (case OPENSSL_malloc m (buf_size n) of None \<Rightarrow> None | Some buf \<Rightarrow> Some (fresh_st\<lparr>b_size := buf_size n, b_buf := Some buf\<rparr>))"
  by (simp add: pair_buf_def fresh_st_def buf_size_def split: option.split)

lemma make_fresh_pair:
  "bio_make_pair malloc Bio1 Bio2 n1 n2 (\<lambda>x. case x of Bio1 \<Rightarrow> fresh_bio | Bio2 \<Rightarrow> fresh_bio) =
     (case OPENSSL_malloc (malloc 0) (buf_size n1) of
        None \<Rightarrow> Some None
      | Some buf1 \<Rightarrow>
     (case OPENSSL_malloc (malloc 1) (buf_size n2) of
        None \<Rightarrow> Some None
      | Some buf2 \<Rightarrow> Some (Some (\<lambda>x. case x of Bio1 \<Rightarrow> joined_end Bio2 n1 buf1 | Bio2 \<Rightarrow> joined_end Bio1 n2 buf2))))"
proof -
  have f: "pair_ptr fresh_bio = Some fresh_st" "pair_hdr fresh_bio = BIO_zeroed" "b_peer fresh_st = None"
    by (simp_all add: fresh_bio_def fresh_st_def)
  show ?thesis
    unfolding bio_make_pair_def using f
    by (auto simp: Let_def fun_eq_iff pair_buf_fresh joined_end_def split: option.split side.split)
qed

lemma joined_end:
  assumes "n < 2 ^ 62" and "length buf = buf_size n"
  shows "side_ok x (joined_end (other x) n buf)" and "channel_of (joined_end y n buf) = \<lparr>ch_queue = [], ch_shut = False, ch_cap = buf_size n\<rparr>"
  using assms by (simp_all add: joined_end_def fresh_st_def side_ok_def ring_ok_def channel_of_def ring_def buf_size_def split: if_splits)

lemma joined_pair:
  assumes "n1 < 2 ^ 62" and "length buf1 = buf_size n1" and "n2 < 2 ^ 62" and "length buf2 = buf_size n2"
  defines "s \<equiv> (\<lambda>x. case x of Bio1 \<Rightarrow> joined_end Bio2 n1 buf1 | Bio2 \<Rightarrow> joined_end Bio1 n2 buf2)"
  shows "pair_ok s \<and> channels s Bio1 = \<lparr>ch_queue = [], ch_shut = False, ch_cap = buf_size n1\<rparr> \<and>
    channels s Bio2 = \<lparr>ch_queue = [], ch_shut = False, ch_cap = buf_size n2\<rparr>"
  using joined_end(1) [OF assms(1,2), of Bio1] joined_end(1) [OF assms(3,4), of Bio2] joined_end(2) [OF assms(1,2)] joined_end(2) [OF assms(3,4)]
  unfolding pair_ok_sides [of s Bio1] by (simp add: s_def channels_def)

lemma buf_size_less: "n < 2 ^ 62 \<Longrightarrow> buf_size n < 2 ^ 62"
  by (simp add: buf_size_def)

text \<open>C40. \<open>BIO_new_bio_pair\<close> gives two joined BIOs with nothing to read, whose buffers have the sizes asked for, or 17 kilobytes for one
  that is not given, or it fails because memory has run out.\<close>

theorem BIO_new_bio_pair_joined:
  assumes "\<And>i. good_malloc (malloc i)" and "writebuf1_len < 2 ^ 62" and "writebuf2_len < 2 ^ 62"
  shows "(\<exists>s. BIO_new_bio_pair malloc writebuf1_len writebuf2_len = Some (Some s) \<and> pair_ok s \<and>
      channels s Bio1 = \<lparr>ch_queue = [], ch_shut = False, ch_cap = buf_size writebuf1_len\<rparr> \<and>
      channels s Bio2 = \<lparr>ch_queue = [], ch_shut = False, ch_cap = buf_size writebuf2_len\<rparr>) \<or>
    BIO_new_bio_pair malloc writebuf1_len writebuf2_len = Some None \<and> (\<exists>i. \<exists>n < 2 ^ 62. OPENSSL_malloc (malloc i) n = None)"
proof (cases "BIO_new_bio (\<lambda>i. malloc i) = None \<or> BIO_new_bio (\<lambda>i. malloc (i + 2)) = None")
  case True
  then have "BIO_new_bio_pair malloc writebuf1_len writebuf2_len = Some None" by (auto simp: BIO_new_bio_pair_def split: option.split)
  moreover have "\<exists>i. OPENSSL_malloc (malloc i) 72 = None \<or> OPENSSL_malloc (malloc i) 56 = None"
    using True unfolding BIO_new_bio by (metis option.distinct(1))
  moreover have "(72 :: nat) < 2 ^ 62" "(56 :: nat) < 2 ^ 62" by simp_all
  ultimately show ?thesis by blast
next
  case False
  then have f: "BIO_new_bio (\<lambda>i. malloc i) = Some fresh_bio" "BIO_new_bio (\<lambda>i. malloc (i + 2)) = Some fresh_bio"
    unfolding BIO_new_bio by (metis (no_types, lifting))+
  note e = make_fresh_pair [of "\<lambda>i. malloc (i + 4)" writebuf1_len writebuf2_len]
  have u: "BIO_new_bio_pair malloc writebuf1_len writebuf2_len =
      bio_make_pair (\<lambda>i. malloc (i + 4)) Bio1 Bio2 writebuf1_len writebuf2_len (\<lambda>x. case x of Bio1 \<Rightarrow> fresh_bio | Bio2 \<Rightarrow> fresh_bio)"
    unfolding BIO_new_bio_pair_def f by simp
  note bs = buf_size_less [OF assms(2)] buf_size_less [OF assms(3)]
  show ?thesis
  proof (cases "OPENSSL_malloc (malloc (0 + 4)) (buf_size writebuf1_len) = None \<or> OPENSSL_malloc (malloc (1 + 4)) (buf_size writebuf2_len) = None")
    case True
    then have "BIO_new_bio_pair malloc writebuf1_len writebuf2_len = Some None" unfolding u e by (auto split: option.split)
    then show ?thesis using True bs by blast
  next
    case False
    then obtain buf1 buf2 where m: "OPENSSL_malloc (malloc (0 + 4)) (buf_size writebuf1_len) = Some buf1"
        "OPENSSL_malloc (malloc (1 + 4)) (buf_size writebuf2_len) = Some buf2" by (metis option.exhaust)
    have sm: "buf_size writebuf1_len < size_mod" "buf_size writebuf2_len < size_mod" using bs by simp_all
    show ?thesis
      using joined_pair [OF assms(2) malloc_length [OF assms(1) m(1) sm(1)] assms(3) malloc_length [OF assms(1) m(2) sm(2)]]
      unfolding u e m option.case by blast
  qed
qed

lemma BIO_new_bio_pair_joined_witness:
  "\<exists>s. BIO_new_bio_pair (\<lambda>i n. Some (replicate n 0)) 4 0 = Some (Some s) \<and> ch_cap (channels s Bio1) = 4 \<and> ch_cap (channels s Bio2) = 17408"
proof -
  have "good_malloc (\<lambda>n. Some (replicate n 0))" by (simp add: good_malloc_def)
  moreover have "OPENSSL_malloc (\<lambda>n. Some (replicate n 0)) k \<noteq> None" if "k < 2 ^ 62" for k using that by (simp add: OPENSSL_malloc_def)
  ultimately show ?thesis using BIO_new_bio_pair_joined [of "\<lambda>i n. Some (replicate n 0)" 4 0] by (fastforce simp: buf_size_def)
qed

text \<open>C39. Freeing one BIO of a pair unties the other: it then gives and takes nothing, and no call on it reaches the memory that is gone.\<close>

theorem bio_free_unties:
  assumes "pair_ok s"
  shows "\<exists>s'. bio_free x s = Some s' \<and> pair_ptr (s' x) = None \<and>
    BIO_read (methods_biop (other x)) n s' = Some (- 2, [], s') \<and> BIO_write (methods_biop (other x)) d n s' = Some (- 2, s') \<and>
    BIO_pending (methods_biop (other x)) s' = Some 0 \<and> BIO_wpending (methods_biop (other x)) s' = Some 0 \<and>
    (\<exists>s''. bio_free (other x) s' = Some s'' \<and> pair_ptr (s'' (other x)) = None)"
proof -
  obtain b buf where b: "pair_ptr (s x) = Some b" "b_peer b = Some (other x)" "b_buf b = Some buf" using pair_okE [OF assms, of x] by metis
  obtain p pbuf where p: "pair_ptr (s (other x)) = Some p" "b_peer p = Some x" "b_buf p = Some pbuf"
    using pair_okE [OF assms, of "other x"] by (metis other_neq(3))
  define s' where "s' = s(other x := (s (other x))\<lparr>pair_ptr := Some (p\<lparr>b_peer := None, b_len := 0, b_offset := 0\<rparr>),
      pair_hdr := (pair_hdr (s (other x)))\<lparr>bio_init := False\<rparr>\<rparr>, x := (s x)\<lparr>pair_ptr := None, pair_hdr := (pair_hdr (s x))\<lparr>bio_init := False\<rparr>\<rparr>)"
  have f: "bio_free x s = Some s'"
    using b p by (auto simp: bio_free_def bio_destroy_pair_def Let_def s'_def fun_eq_iff)
  have o: "pair_ptr (s' (other x)) = Some (p\<lparr>b_peer := None, b_len := 0, b_offset := 0\<rparr>)" "\<not> bio_init (pair_hdr (s' (other x)))" "pair_ptr (s' x) = None"
    by (simp_all add: s'_def)
  show ?thesis
    using f o by (simp add: BIO_read_def BIO_write_def methods_biop_def BIO_pending_def BIO_wpending_def BIO_ctrl_def bio_ctrl_def bio_free_def)
qed


lemma bio_free_unties_witness:
  "\<exists>s'. bio_free Bio1 small_pair = Some s' \<and> BIO_read (methods_biop Bio2) 1 s' = Some (- 2, [], s')"
  using bio_free_unties [OF small_pair, of Bio1 1 "[]"] by (metis other.simps(1))

end
