(* ===== verification/Spec2Isabelle.thy ===== *)
theory Spec2Isabelle
  imports Cbs_Time Oid_Text Set_Of Unicode Ber Ber_Values Constant_Time Base64 Refcount Stack Lhash Pb_Wire Modes_Cbc Modes_Stream Hmac Digest_Md5_Sines Tls_Cbc Kdf Bio_Mem Bio_Pair
begin

text \<open>
  A verification development of the C code that the application carries in its \<^verbatim>\<open>Pods\<close>: the part of BoringSSL (\<^verbatim>\<open>Pods/BoringSSL-GRPC/src\<close>)
  that has no big numbers, no assembly and no C++ in it, and the wire format of nanopb (\<^verbatim>\<open>Pods/nanopb\<close>). The application itself is
  Swift around Firebase; under it Firestore speaks protocol buffers, which nanopb encodes, over gRPC, whose transport is
  secured with BoringSSL. What is modelled here is the common ground of these layers: byte strings and the encodings in them, containers, digests
  and what is built on them, the modes of block ciphers, and the streams that connect the layers.

  \<^bold>\<open>Conventions.\<close> A C function is one definition of the same name. A structure is a record, an enumeration or a pointer to a static table is a
  datatype. \<open>u8\<close>, \<open>u16\<close>, \<open>u32\<close>, \<open>u64\<close> are the unsigned types and wrap; an \<open>int\<close> that is used for its value is an integer, with the cast written
  out where it can lose bits (\<open>signed_take_bit 31\<close>); a \<open>size_t\<close> is a natural number with \<open>mod size_mod\<close> where the code relies on it or tests
  for it. A pointer and a length to bytes that are only read is the list of these bytes; memory that is written is a list that \<open>store\<close> changes, with the
  length that it was allocated with. A function that may fail returns an option or a flag and the state as it leaves it. Where
  the C code would follow a null pointer, break an assertion or leave a block, the model has an outer \<^const>\<open>None\<close>, so that a theorem that gives
  \<^const>\<open>Some\<close> also says that this does not happen. \<open>malloc\<close> is a parameter, a function from a size to a block or nothing; \<open>good_malloc\<close> says that a block
  has the size asked for, which the C library promises. A function with several allocations takes one such parameter for each of them, so
  that every pattern of failures is covered. Callbacks (comparison, hash and block functions, the methods of a BIO) are parameters as they
  are in the code. The error queue is not part of the results: what the code pushes on it never changes what it returns.

  \<^bold>\<open>Prelude.\<close> \<^verbatim>\<open>Bytes\<close> has the machine types, big-endian numbers, \<open>store\<close> and \<open>load\<close>; \<^verbatim>\<open>Reader\<close> the contracts of operations that consume bytes
  from the front of a string: a \<open>self_delimiting\<close> reader does not look at what follows what it takes, a \<open>canonical_codec\<close> accepts
  exactly the encodings of its values. \<^verbatim>\<open>Mem\<close> is \<^verbatim>\<open>crypto/mem.c\<close>: the allocator's wrappers and the string functions.
  \<^verbatim>\<open>Constant_Time\<close> has the masks, loads, rotations and carries of \<^verbatim>\<open>crypto/internal.h\<close>, each shown equal to what it stands for.

  \<^bold>\<open>Byte strings\<close> (\<^verbatim>\<open>crypto/bytestring\<close>). \<^verbatim>\<open>Cbs\<close> models the readers of \<^verbatim>\<open>cbs.c\<close>; \<^verbatim>\<open>Der\<close> defines the distinguished encoding of tags, lengths and
  elements and shows that the readers accept these and nothing else; \<^verbatim>\<open>Der_Values\<close> does this for integers, booleans and object identifiers
  and \<^verbatim>\<open>Cbs_Time\<close> for the two formats of time, whose offsets the code adds where the header promises UTC. \<^verbatim>\<open>Cbb\<close> models the builder \<^verbatim>\<open>cbb.c\<close> and \<^verbatim>\<open>asn1_compat.c\<close>: one record holds the buffer and the chain of
  open children. A tree of open elements is the abstract state; \<open>CBB_flush\<close> refines the writing of lengths and the contract \<open>appends\<close> says
  that an operation adds certain bytes to the innermost child or sets the error flag, and \<^verbatim>\<open>Cbb_Der\<close> states it of every ASN.1 writer, so that writers and readers
  are inverse to each other. \<^verbatim>\<open>Oid_Text\<close>, \<^verbatim>\<open>Set_Of\<close>, \<^verbatim>\<open>Unicode\<close> and \<^verbatim>\<open>Ber\<close> build on both: dotted decimal text, the sorting of a SET OF, the four
  encodings of \<^verbatim>\<open>unicode.c\<close>, the conversion of BER to DER of \<^verbatim>\<open>ber.c\<close>, whose recursion the code bounds with \<open>kMaxDepth = 128\<close>. \<^verbatim>\<open>Ber_Values\<close> has the values of BER and their encodings after X.690,
  written without the code, and shows which of them are converted and that the output is the DER form of the values.
  \<^verbatim>\<open>Base64\<close> models \<^verbatim>\<open>crypto/base64/base64.c\<close>, with the streaming encoder and decoder and the invariant of their contexts.
  \<^verbatim>\<open>Posix_Time\<close> models \<^verbatim>\<open>crypto/asn1/posix_time.c\<close> on the years 0 to 9999.

  \<^bold>\<open>Containers.\<close> \<^verbatim>\<open>Stack\<close> models \<^verbatim>\<open>crypto/stack/stack.c\<close>; sorting is heap sort as the code has it and searching finds the first match in each of its three ways, by bisection as long as the mark of a sorted stack is right. \<^verbatim>\<open>Lhash\<close> models \<^verbatim>\<open>crypto/lhash/lhash.c\<close>
  and shows that a table that grows and shrinks is a finite map. \<^verbatim>\<open>Refcount\<close> models \<^verbatim>\<open>crypto/refcount.c\<close>: threads interleave, one atomic access at a
  time, in the inductive relation \<open>refs_step\<close>; the theorems are that exactly one thread sees the count reach zero, after all the others have released, and that the loops make progress.

  \<^bold>\<open>Streams\<close> (\<^verbatim>\<open>crypto/bio\<close>, \<^verbatim>\<open>crypto/buf\<close>). \<^verbatim>\<open>Bio\<close> models \<^verbatim>\<open>bio.c\<close> over the methods of a BIO; the contract \<open>bio_source\<close>, a BIO that gives some of what is pending, carries the
  proofs of the functions that read whole objects. \<^verbatim>\<open>Bio_Mem\<close> models \<^verbatim>\<open>buf.c\<close> and \<^verbatim>\<open>bio_mem.c\<close> and shows that a memory BIO is a queue, and \<^verbatim>\<open>Bio_Pair\<close>
  models \<^verbatim>\<open>pair.c\<close> and shows that two BIOs with ring buffers are two bounded queues; both meet the contract.

  \<^bold>\<open>Digests and what is built on them\<close> (\<^verbatim>\<open>crypto/fipsmodule\<close>). \<^verbatim>\<open>Digest_Md32\<close> models the collector of blocks that \<^verbatim>\<open>Digest_Md4\<close>, \<^verbatim>\<open>Digest_Md5\<close>, \<^verbatim>\<open>Digest_Sha1\<close> and \<^verbatim>\<open>Digest_Sha256\<close>
  share; \<^verbatim>\<open>Digest_Sha512\<close> has its own. The locales \<open>block_iteration\<close> and \<open>md32_compress\<close> show once that any sequence of updates gives the
  digest of the standard: padding, then the compression function folded over the blocks. The standards are stated with constants of their own: \<^verbatim>\<open>Fips_Constants\<close> takes those of SHA-2
  from the roots of the first primes, as FIPS 180-4 does, and \<open>md5_T\<close> is the table of RFC 1321, which \<^verbatim>\<open>Digest_Md5_Sines\<close> checks against the sine
  function. \<^verbatim>\<open>Evp_Digest\<close> models \<^verbatim>\<open>digest.c\<close> and \<^verbatim>\<open>digests.c\<close>, \<^verbatim>\<open>Hmac\<close> models \<^verbatim>\<open>hmac.c\<close> and shows the formula of RFC 2104 for every way to use a context,
  \<^verbatim>\<open>Kdf\<close> models \<^verbatim>\<open>tls/kdf.c\<close>, \<^verbatim>\<open>hkdf.c\<close> and \<^verbatim>\<open>pbkdf.c\<close> against RFC 5246, 5869, 8018 and 8446. \<^verbatim>\<open>Tls_Cbc\<close> models \<^verbatim>\<open>crypto/cipher_extra/tls_cbc.c\<close>, where the code branches on
  nothing secret, and shows that it computes the HMAC of a record whose length is secret and cuts it into its parts.

  \<^bold>\<open>Block cipher modes.\<close> \<^verbatim>\<open>Modes_Cbc\<close> models \<^verbatim>\<open>cbc.c\<close> with the input and the output in one array, so that they may overlap, and says which overlaps are right; \<^verbatim>\<open>Modes_Stream\<close> models \<^verbatim>\<open>ctr.c\<close>, \<^verbatim>\<open>ofb.c\<close>
  and \<^verbatim>\<open>cfb.c\<close> under the contract \<open>keystream\<close>, and shows that the counter mode with a 32-bit block function is the one with a 128-bit counter.

  \<^bold>\<open>Protocol buffers.\<close> \<^verbatim>\<open>Pb_Wire\<close> models the varints, fixed-width fields, tags, strings and skipping of \<^verbatim>\<open>pb_encode.c\<close> and \<^verbatim>\<open>pb_decode.c\<close>, with
  the exact set of varints that are accepted and the sizes that the counting stream computes.

  \<^bold>\<open>Bounds and fuel.\<close> No definition runs on fuel. Loops are structural or have a measure, but for those of \<open>bio_read_all\<close>, of the rings of
  \<^verbatim>\<open>Bio_Pair\<close> and of \<open>tls1_P_hash\<close>, whose end is not in their text: they are partial functions, and the theorems show that they return. Hypotheses such as \<open>length s < 2 ^ 62\<close> exclude blocks
  that no machine has; \<open>INT_MAX\<close> and \<open>2 ^ 32\<close> are limits that the code tests; the limit of \<open>2 ^ 28\<close> bytes in \<^verbatim>\<open>Tls_Cbc\<close> is far above the size of a record.

  \<^bold>\<open>Not modelled.\<close> In BoringSSL: AES, GCM, RSA, elliptic curves and big numbers, whose portable code has assembly in its place on the
  targets and whose field arithmetic is generated; EVP keys, X.509 and the ASN.1 templates, which are tables that drive macros; the handshake and record layers of TLS, in C++; the
  error queue, threads, files, sockets and random numbers, which are calls to the system; the \<^verbatim>\<open>printf\<close> family; the chains of BIOs. In nanopb the walk over the generated
  field descriptions. gRPC, upb, Abseil, LevelDB and Firestore are C++ or generated code, Firebase and the application are
  Objective-C and Swift over the frameworks of the system.
\<close>

end
